(* ===== verification/Prelude.thy ===== *)
theory Prelude
  imports Main "HOL-Library.Word"
begin

text \<open>
  Shared vocabulary of the development: the machine types of the analysed code
  (\<open>u32_t\<close>, \<open>size_t\<close>, the 64-bit words of the bit vectors), the conversions between
  them, the compiler's bit-counting builtins, and the generic lemmas on words and
  lists that the component theories use.

  Unsigned integers that are only compared and added are natural numbers, and every
  place where the C++ code can wrap goes through \<open>to_u32\<close> or \<open>to_u64\<close>. Words of bit
  vectors are \<open>64 word\<close>.
\<close>

unbundle bit_operations_syntax

named_theorems bs_simps \<open>equations of the bit-set models\<close>
named_theorems rng_simps \<open>unfolding rules of the interval model\<close>

type_synonym u64 = "64 word"

text \<open>Implicit conversions to \<open>unsigned\<close>, \<open>size_t\<close> and \<open>int\<close>.\<close>

definition to_u32 :: "int \<Rightarrow> nat" where
  "to_u32 x = nat (x mod 2 ^ 32)"

definition to_u64 :: "int \<Rightarrow> nat" where
  "to_u64 x = nat (x mod 2 ^ 64)"

definition to_s32 :: "nat \<Rightarrow> int" where
  "to_s32 n = (if n < 2 ^ 31 then int n else int n - 2 ^ 32)"

lemma to_u32_id [simp]: "n < 2 ^ 32 \<Longrightarrow> to_u32 (int n) = n"
  by (simp add: to_u32_def)

lemma to_u32_int: "0 \<le> x \<Longrightarrow> x < 2 ^ 32 \<Longrightarrow> to_u32 x = nat x"
  by (simp add: to_u32_def)

lemma to_u64_int: "0 \<le> x \<Longrightarrow> x < 2 ^ 64 \<Longrightarrow> to_u64 x = nat x"
  by (simp add: to_u64_def)

lemma to_u32_nat: "to_u32 (int n) = n mod 2 ^ 32"
  unfolding to_u32_def by (metis nat_int of_nat_mod of_nat_numeral of_nat_power)

lemma to_u32_bound: "to_u32 x < 2 ^ 32"
  by (simp add: to_u32_def nat_less_iff)

text \<open>The builtins \<open>__builtin_popcountll\<close>, \<open>__builtin_ctzll\<close>, \<open>__builtin_clzll\<close>
  by their documented meaning on 64-bit words; the two counters of zeros give the width
  on \<open>0\<close>, as their wrappers in \<open>SparseBitVector.h\<close> do.\<close>

definition countPopulation :: "u64 \<Rightarrow> nat" where
  "countPopulation w = length (filter (bit w) [0..<64])"

definition countTrailingZeros :: "u64 \<Rightarrow> nat" where
  "countTrailingZeros w = length (takeWhile (\<lambda>i. \<not> bit w i) [0..<64])"

definition countLeadingZeros :: "u64 \<Rightarrow> nat" where
  "countLeadingZeros w = length (takeWhile (\<lambda>i. \<not> bit w i) (rev [0..<64]))"

text \<open>\<open>(Word)0b1 << i\<close>\<close>

definition wmask :: "nat \<Rightarrow> u64" where
  "wmask i = push_bit i 1"

lemma bit_wmask [simp]: "bit (wmask i) j \<longleftrightarrow> i = j \<and> j < 64"
  by (auto simp: wmask_def bit_simps)

lemma word_eqI64: "(\<And>j. j < 64 \<Longrightarrow> bit v j = bit (w :: u64) j) \<Longrightarrow> v = w"
  by (rule bit_word_eqI) simp

lemma word_nonzero_bit: "(w :: u64) \<noteq> 0 \<longleftrightarrow> (\<exists>j<64. bit w j)"
  by (metis bit_0_eq bot_apply bot_bool_def word_eqI64)

lemma bit_lt_64 [dest]: "bit (w :: u64) j \<Longrightarrow> j < 64"
  using bit_imp_le_length by fastforce

lemma bit_NOT_64: "bit (NOT (w :: u64)) j \<longleftrightarrow> j < 64 \<and> \<not> bit w j"
  by (auto simp: bit_simps)

lemmas word_bits [simp] = bit_and_iff bit_or_iff bit_xor_iff bit_NOT_64

lemma and_mask_nonzero: "i < 64 \<Longrightarrow> (wmask i AND w \<noteq> 0) \<longleftrightarrow> bit w i"
  by (auto simp: word_nonzero_bit)

lemma and_mask_nonzero': "i < 64 \<Longrightarrow> (w AND wmask i \<noteq> 0) \<longleftrightarrow> bit w i"
  by (auto simp: word_nonzero_bit)

lemma drop_bit_nonzero: "drop_bit n (w :: u64) \<noteq> 0 \<longleftrightarrow> (\<exists>j\<ge>n. bit w j)"
proof
  assume "drop_bit n w \<noteq> 0"
  then obtain j where "j < 64" "bit (drop_bit n w) j" by (auto simp: word_nonzero_bit)
  then have "bit w (n + j)" by (simp add: bit_simps)
  then show "\<exists>j\<ge>n. bit w j" using le_add1 by blast
next
  assume "\<exists>j\<ge>n. bit w j"
  then obtain j where j: "j \<ge> n" "bit w j" by blast
  then have "bit (drop_bit n w) (j - n)" by (simp add: bit_simps)
  moreover have "j - n < 64" using j by auto
  ultimately show "drop_bit n w \<noteq> 0" unfolding word_nonzero_bit by blast
qed

lemma countPopulation_card: "countPopulation w = card {j. bit w j}"
proof -
  have "{j. bit w j} = set (filter (bit w) [0..<64])" by auto
  then show ?thesis
    by (metis countPopulation_def distinct_card distinct_filter distinct_upt)
qed

lemma takeWhile_upt_least:
  "length (takeWhile (\<lambda>i. \<not> P i) [0..<n]) = (if \<exists>i<n. P i then (LEAST i. P i) else n)"
proof (induction n)
  case (Suc n)
  show ?case
  proof (cases "\<exists>i<n. P i")
    case True
    then obtain i where i: "i < n" "P i" by blast
    then have "takeWhile (\<lambda>i. \<not> P i) ([0..<n] @ [n]) = takeWhile (\<lambda>i. \<not> P i) [0..<n]"
      by (intro takeWhile_append1 [of i]) auto
    with True Suc.IH show ?thesis by (auto simp: less_Suc_eq)
  next
    case False
    then have none: "\<And>i. i < n \<Longrightarrow> \<not> P i" by blast
    then have "takeWhile (\<lambda>i. \<not> P i) ([0..<n] @ [n])
        = [0..<n] @ takeWhile (\<lambda>i. \<not> P i) [n]"
      by (intro takeWhile_append2) auto
    moreover have "P n \<Longrightarrow> (LEAST i. P i) = n"
      by (rule Least_equality) (use none not_le in blast)+
    ultimately show ?thesis using none by (auto simp: less_Suc_eq)
  qed
qed simp

lemma countTrailingZeros_least:
  "w \<noteq> 0 \<Longrightarrow> countTrailingZeros w = (LEAST i. bit w i)"
  by (auto simp: countTrailingZeros_def takeWhile_upt_least word_nonzero_bit)

lemma countTrailingZeros_props:
  assumes "w \<noteq> 0"
  shows "bit w (countTrailingZeros w)" and "j < countTrailingZeros w \<Longrightarrow> \<not> bit w j"
proof -
  obtain i where "bit w i" using assms by (auto simp: word_nonzero_bit)
  then show "bit w (countTrailingZeros w)"
    using assms by (simp add: countTrailingZeros_least LeastI)
  show "j < countTrailingZeros w \<Longrightarrow> \<not> bit w j"
    using assms by (metis countTrailingZeros_least not_less_Least)
qed

text \<open>Positions of bits in a list of words.\<close>

lemma div64 [simp]: "j < 64 \<Longrightarrow> (64 * i + j) div 64 = (i :: nat)"
  by simp

lemma mod64 [simp]: "j < 64 \<Longrightarrow> (64 * i + j) mod 64 = (j :: nat)"
  by simp

lemma drop_nth_cons: "i < length xs \<Longrightarrow> drop i xs = xs ! i # drop (Suc i) xs"
  by (rule Cons_nth_drop_Suc [symmetric])


definition wbit :: "u64 list \<Rightarrow> nat \<Rightarrow> bool" where
  "wbit ws p \<longleftrightarrow> p < 64 * length ws \<and> bit (ws ! (p div 64)) (p mod 64)"

lemma wbit_lt: "wbit ws p \<Longrightarrow> p < 64 * length ws"
  by (simp add: wbit_def)

lemma wbit_Nil [simp]: "\<not> wbit [] p"
  by (simp add: wbit_def)

lemma wbit_Nil_set: "{p. wbit [] p} = {}"
  by simp

lemma wbit_append:
  "wbit (xs @ ys) p \<longleftrightarrow> (if p < 64 * length xs then wbit xs p else wbit ys (p - 64 * length xs))"
proof (cases "p < 64 * length xs")
  case True
  then have "p div 64 < length xs" by (simp add: less_mult_imp_div_less mult.commute)
  with True show ?thesis by (simp add: wbit_def nth_append)
next
  case False
  then have "length xs \<le> p div 64" by (simp add: less_eq_div_iff_mult_less_eq mult.commute)
  moreover have "(p - 64 * length xs) div 64 = p div 64 - length xs"
    using False by (metis add_diff_inverse_nat add_diff_cancel_left' div_mult_self4
        mult.commute nat_neq_iff zero_neq_numeral)
  moreover have "(p - 64 * length xs) mod 64 = p mod 64"
    using False by (metis le_add_diff_inverse2 mod_mult_self2 not_less)
  ultimately show ?thesis using False by (auto simp: wbit_def nth_append)
qed

lemma wbit_Cons:
  "wbit (w # ws) p \<longleftrightarrow> (if p < 64 then bit w p else wbit ws (p - 64))"
  using wbit_append [of "[w]" ws p] by (simp add: wbit_def)

lemma wbit_replicate0 [simp]: "\<not> wbit (replicate n 0) p"
  by (auto simp: wbit_def less_mult_imp_div_less mult.commute)

lemma wbit_single0 [simp]: "\<not> wbit [0] p"
  using wbit_replicate0 [of 1 p] by simp

lemma wbit_take: "wbit (take n ws) p \<longleftrightarrow> p < 64 * n \<and> wbit ws p"
proof -
  have "p < 64 * n \<Longrightarrow> p div 64 < n" by (simp add: less_mult_imp_div_less mult.commute)
  then show ?thesis by (auto simp: wbit_def)
qed

lemma wbit_drop: "wbit (drop n ws) p \<longleftrightarrow> wbit ws (64 * n + p)"
  by (cases "n \<le> length ws") (auto simp: wbit_def add.commute)

lemma wbit_update:
  "i < length ws \<Longrightarrow> wbit (ws[i := w]) p \<longleftrightarrow> (if p div 64 = i then bit w (p mod 64) else wbit ws p)"
  by (auto simp: wbit_def nth_list_update)

lemma all_zero_wbit: "list_all (\<lambda>w. w = 0) ws \<longleftrightarrow> (\<forall>p. \<not> wbit ws p)"
proof (induction ws)
  case (Cons w ws)
  have "(\<forall>p. \<not> wbit (w # ws) p) \<longleftrightarrow> (\<forall>p<64. \<not> bit w p) \<and> (\<forall>p\<ge>64. \<not> wbit ws (p - 64))"
    by (auto simp: wbit_Cons not_less)
  also have "(\<forall>p\<ge>64. \<not> wbit ws (p - 64)) \<longleftrightarrow> (\<forall>p. \<not> wbit ws p)"
    by (metis add_diff_cancel_right' le_add2)
  also have "(\<forall>p<64. \<not> bit w p) \<longleftrightarrow> w = 0"
    using word_nonzero_bit by blast
  finally show ?case using Cons.IH by simp
qed simp

lemma wbit_ext: "length xs = length ys \<Longrightarrow> (\<And>p. wbit xs p = wbit ys p) \<Longrightarrow> xs = ys"
proof (induction xs ys rule: list_induct2)
  case (Cons x xs y ys)
  have "x = y"
  proof (rule word_eqI64)
    fix j :: nat
    assume "j < 64"
    then show "bit x j = bit y j" using Cons.prems [of j] by (simp add: wbit_Cons)
  qed
  moreover have "wbit xs p = wbit ys p" for p
    using Cons.prems [of "p + 64"] by (simp add: wbit_Cons)
  ultimately show ?case using Cons.IH by simp
qed simp

text \<open>Counting bits with a wrapping 32-bit counter.\<close>

lemma wbit_finite [simp]: "finite {p. wbit ws p}"
  by (rule finite_subset [of _ "{..<64 * length ws}"]) (auto dest: wbit_lt)

lemma wbit_card_Cons: "card {p. wbit (w # ws) p} = countPopulation w + card {p. wbit ws p}"
proof -
  have "{p. wbit (w # ws) p} = {j. bit w j} \<union> (+) 64 ` {p. wbit ws p}"
    by (auto simp: wbit_Cons image_def not_less split: if_splits)
  moreover have "{j. bit w j} \<inter> (+) 64 ` {p. wbit ws p} = {}" by auto
  moreover have "finite {j. bit w j}"
    by (rule finite_subset [of _ "{..<64}"]) auto
  ultimately show ?thesis by (simp add: card_Un_disjoint card_image countPopulation_card)
qed

lemma to_u32_add: "to_u32 (int (to_u32 x) + y) = to_u32 (x + y)"
  by (simp add: to_u32_def mod_add_left_eq)

lemma count_fold:
  "foldl (\<lambda>n w. to_u32 (int n + int (countPopulation w))) (to_u32 n) ws
     = to_u32 (n + int (card {p. wbit ws p}))"
proof (induction ws arbitrary: n)
  case (Cons w ws)
  show ?case using Cons.IH [of "n + int (countPopulation w)"]
    by (simp add: to_u32_add wbit_card_Cons add.assoc)
qed (simp add: wbit_Nil_set)

lemma foldl_u32:
  "foldl (\<lambda>n x. to_u32 (int n + int (f x))) (to_u32 n) xs = to_u32 (n + int (sum_list (map f xs)))"
  by (induction xs arbitrary: n) (simp_all add: to_u32_add add.assoc)

end
