(* ===== verification/BitSetIface.thy ===== *)
theory BitSetIface
  imports Prelude
begin

text \<open>
  The contract between the set representations of \<open>svf/include/Util\<close> and their clients
  (\<open>PointsTo\<close>, the points-to caches): a representation \<open>'s\<close> with an invariant, the set
  of numbers it stands for, and the operations every one of them offers. The binary
  operations return the updated set together with the change flag of the C++ operators.
  Elements are \<open>u32_t\<close> values.

  The change flag is only promised in one direction (if the set changed, the flag is
  set); representations whose flag is exact satisfy \<open>exact_bit_set\<close>.
\<close>

locale bit_set =
  fixes inv :: "'s \<Rightarrow> bool"
    and bits :: "'s \<Rightarrow> nat set"
    and emp :: "'s"
    and isempty :: "'s \<Rightarrow> bool"
    and test :: "'s \<Rightarrow> nat \<Rightarrow> bool"
    and insrt :: "'s \<Rightarrow> nat \<Rightarrow> 's"
    and delt :: "'s \<Rightarrow> nat \<Rightarrow> 's"
    and union :: "'s \<Rightarrow> 's \<Rightarrow> 's \<times> bool"
    and inter :: "'s \<Rightarrow> 's \<Rightarrow> 's \<times> bool"
    and diff :: "'s \<Rightarrow> 's \<Rightarrow> 's \<times> bool"
    and eqs :: "'s \<Rightarrow> 's \<Rightarrow> bool"
  assumes inv_emp: "inv emp"
    and bits_emp: "bits emp = {}"
    and isempty_iff: "inv s \<Longrightarrow> isempty s \<longleftrightarrow> bits s = {}"
    and test_iff: "inv s \<Longrightarrow> b < 2 ^ 32 \<Longrightarrow> test s b \<longleftrightarrow> b \<in> bits s"
    and bits_bound: "inv s \<Longrightarrow> b \<in> bits s \<Longrightarrow> b < 2 ^ 32"
    and inv_insrt: "inv s \<Longrightarrow> b < 2 ^ 32 \<Longrightarrow> inv (insrt s b)"
    and bits_insrt: "inv s \<Longrightarrow> b < 2 ^ 32 \<Longrightarrow> bits (insrt s b) = insert b (bits s)"
    and inv_delt: "inv s \<Longrightarrow> b < 2 ^ 32 \<Longrightarrow> inv (delt s b)"
    and bits_delt: "inv s \<Longrightarrow> b < 2 ^ 32 \<Longrightarrow> bits (delt s b) = bits s - {b}"
    and inv_union: "inv s \<Longrightarrow> inv t \<Longrightarrow> inv (fst (union s t))"
    and bits_union: "inv s \<Longrightarrow> inv t \<Longrightarrow> bits (fst (union s t)) = bits s \<union> bits t"
    and flag_union: "inv s \<Longrightarrow> inv t \<Longrightarrow> \<not> bits t \<subseteq> bits s \<Longrightarrow> snd (union s t)"
    and inv_inter: "inv s \<Longrightarrow> inv t \<Longrightarrow> inv (fst (inter s t))"
    and bits_inter: "inv s \<Longrightarrow> inv t \<Longrightarrow> bits (fst (inter s t)) = bits s \<inter> bits t"
    and flag_inter: "inv s \<Longrightarrow> inv t \<Longrightarrow> snd (inter s t) \<longleftrightarrow> \<not> bits s \<subseteq> bits t"
    and inv_diff: "inv s \<Longrightarrow> inv t \<Longrightarrow> inv (fst (diff s t))"
    and bits_diff: "inv s \<Longrightarrow> inv t \<Longrightarrow> bits (fst (diff s t)) = bits s - bits t"
    and flag_diff: "inv s \<Longrightarrow> inv t \<Longrightarrow> snd (diff s t) \<longleftrightarrow> bits s \<inter> bits t \<noteq> {}"
    and eqs_iff: "inv s \<Longrightarrow> inv t \<Longrightarrow> eqs s t \<longleftrightarrow> bits s = bits t"
begin

lemmas inv_intros = inv_emp inv_insrt inv_delt inv_union inv_inter inv_diff

lemmas bits_simps = bits_emp bits_insrt bits_delt bits_union bits_inter bits_diff

text \<open>The derived operations, written once against the contract: \<open>test_and_set\<close> and the
  superset test (intersect a copy and compare), which both representations share.\<close>

lemma test_and_set:
  assumes "inv s" "b < 2 ^ 32"
  shows "inv (if test s b then s else insrt s b)"
    and "bits (if test s b then s else insrt s b) = insert b (bits s)"
  using assms by (auto simp: test_iff inv_insrt bits_insrt)

lemma superset:
  "inv s \<Longrightarrow> inv t \<Longrightarrow> eqs (fst (inter s t)) t \<longleftrightarrow> bits t \<subseteq> bits s"
  by (auto simp: eqs_iff inv_inter bits_inter)

lemma finite_bits: "inv s \<Longrightarrow> finite (bits s)"
  by (rule finite_subset [of _ "{..<2 ^ 32}"]) (auto dest: bits_bound)

lemma union_same_flag: "inv s \<Longrightarrow> inv t \<Longrightarrow> \<not> snd (union s t) \<Longrightarrow> bits (fst (union s t)) = bits s"
  using flag_union by (auto simp: bits_union)

end

locale exact_bit_set = bit_set +
  assumes flag_union_exact: "inv s \<Longrightarrow> inv t \<Longrightarrow> snd (union s t) \<longleftrightarrow> \<not> bits t \<subseteq> bits s"
begin

lemma union_flag_changed:
  "inv s \<Longrightarrow> inv t \<Longrightarrow> snd (union s t) \<longleftrightarrow> bits (fst (union s t)) \<noteq> bits s"
  by (auto simp: flag_union_exact bits_union)

end

end
