(* ===== verification/CoreBitVec.thy ===== *)
theory CoreBitVec
  imports BitSetIface
begin

text \<open>
  \<open>svf/lib/Util/CoreBitVector.cpp\<close> and \<open>svf/lib/Util/BitVector.cpp\<close>: the contiguous bit
  vector, a vector of 64-bit words that starts at \<open>offset\<close> and is extended on either side
  when a bit outside it is set.

  \<open>cbv_bits\<close> is the set a vector stands for, \<open>cbv_inv\<close> its representation invariant (the
  offset is a multiple of the word size and the words end at or before bit $2^{32}$). Every
  operation is shown to keep the invariant and to compute the set operation it is named
  after; the assertion of \<open>indexForBit\<close> is shown to hold where it is called.
\<close>

subsection \<open>State and operations\<close>

record cbv =
  cbv_offset :: nat
  cbv_words :: "u64 list"

abbreviation cbv_size :: "cbv \<Rightarrow> nat" where
  "cbv_size c \<equiv> length (cbv_words c)"

definition cbv_new :: "nat \<Rightarrow> cbv" where
  "cbv_new n = \<lparr>cbv_offset = 0, cbv_words = replicate n 0\<rparr>"

definition cbv_empty :: "cbv \<Rightarrow> bool" where
  "cbv_empty c = list_all (\<lambda>w. w = 0) (cbv_words c)"

definition cbv_count :: "cbv \<Rightarrow> nat" where
  "cbv_count c = foldl (\<lambda>n w. to_u32 (int n + int (countPopulation w))) 0 (cbv_words c)"

definition cbv_clear :: "cbv \<Rightarrow> cbv" where
  "cbv_clear c = \<lparr>cbv_offset = 0, cbv_words = []\<rparr>"

definition cbv_canHold :: "cbv \<Rightarrow> nat \<Rightarrow> bool" where
  "cbv_canHold c b \<longleftrightarrow> b \<ge> cbv_offset c \<and> b < cbv_offset c + cbv_size c * 64"

definition cbv_finalBit :: "cbv \<Rightarrow> nat" where
  "cbv_finalBit c = to_u32 (int (cbv_offset c) + int (cbv_size c) * 64 - 1)"

definition cbv_indexForBit :: "cbv \<Rightarrow> nat \<Rightarrow> nat" where
  "cbv_indexForBit c b = to_u32 (int b - int (cbv_offset c)) div 64"

definition cbv_test :: "cbv \<Rightarrow> nat \<Rightarrow> bool" where
  "cbv_test c b =
     (if b < cbv_offset c \<or> b \<ge> cbv_offset c + cbv_size c * 64 then False
      else wmask (b mod 64) AND (cbv_words c ! ((b - cbv_offset c) div 64)) \<noteq> 0)"

definition cbv_extendBackward :: "cbv \<Rightarrow> nat \<Rightarrow> cbv" where
  "cbv_extendBackward c b =
     (let newOffset = (b div 64) * 64
      in if newOffset \<ge> cbv_offset c then c
         else c\<lparr>cbv_offset := newOffset,
                cbv_words := replicate ((cbv_offset c - newOffset) div 64) 0 @ cbv_words c\<rparr>)"

definition cbv_extendForward :: "cbv \<Rightarrow> nat \<Rightarrow> cbv" where
  "cbv_extendForward c b =
     (if b < cbv_offset c \<or> cbv_canHold c b then c
      else let bitsWord = (b div 64) * 64;
               wordsToAdd = to_u32 (1 + int (to_u64 (int bitsWord - int (cbv_size c) * 64
                                                     - int (cbv_offset c)) div 64))
           in c\<lparr>cbv_words := cbv_words c @ replicate wordsToAdd 0\<rparr>)"

definition cbv_extendTo :: "cbv \<Rightarrow> nat \<Rightarrow> cbv" where
  "cbv_extendTo c b =
     (if cbv_offset c = 0 \<and> cbv_size c = 0
      then c\<lparr>cbv_offset := (b div 64) * 64, cbv_words := cbv_words c @ [0]\<rparr>
      else if b < cbv_offset c then cbv_extendBackward c b
      else if b \<ge> cbv_offset c + cbv_size c * 64 then cbv_extendForward c b
      else c)"

definition cbv_set :: "cbv \<Rightarrow> nat \<Rightarrow> cbv" where
  "cbv_set c b =
     (let c' = cbv_extendTo c b; i = (b - cbv_offset c') div 64
      in c'\<lparr>cbv_words := (cbv_words c')[i := (cbv_words c' ! i) OR wmask (b mod 64)]\<rparr>)"

definition cbv_test_and_set :: "cbv \<Rightarrow> nat \<Rightarrow> cbv \<times> bool" where
  "cbv_test_and_set c b = (if cbv_test c b then (c, False) else (cbv_set c b, True))"

definition cbv_reset :: "cbv \<Rightarrow> nat \<Rightarrow> cbv" where
  "cbv_reset c b =
     (if b < cbv_offset c \<or> b \<ge> cbv_offset c + cbv_size c * 64 then c
      else let i = (b - cbv_offset c) div 64
           in c\<lparr>cbv_words := (cbv_words c)[i := (cbv_words c ! i) AND NOT (wmask (b mod 64))]\<rparr>)"

text \<open>The index loop of \<open>nextSetIndex\<close>.\<close>

function nextSet_loop :: "u64 list \<Rightarrow> nat \<Rightarrow> nat" where
  "nextSet_loop ws index =
     (if index < length ws then if ws ! index \<noteq> 0 then index else nextSet_loop ws (Suc index)
      else index)"
  by pat_completeness auto
termination
  by (relation "measure (\<lambda>(ws, index). length ws - index)") auto

declare nextSet_loop.simps [simp del]

definition cbv_nextSetIndex :: "cbv \<Rightarrow> nat \<Rightarrow> nat" where
  "cbv_nextSetIndex c start = nextSet_loop (cbv_words c) start"

lemma nextSet_loop_ge: "i \<le> nextSet_loop ws i"
proof (induction ws i rule: nextSet_loop.induct)
  case (1 ws i)
  then show ?case
    by (subst nextSet_loop.simps) auto
qed

text \<open>\<open>operator==\<close>: walk the words with set bits of both vectors side by side. The first
  argument says whether both operands are the same object.\<close>

function eq_loop :: "cbv \<Rightarrow> cbv \<Rightarrow> nat \<Rightarrow> nat \<Rightarrow> bool" where
  "eq_loop c r i j =
     (if i < cbv_size c \<and> j < cbv_size r
      then if i * 64 + cbv_offset c \<noteq> j * 64 + cbv_offset r \<or> cbv_words c ! i \<noteq> cbv_words r ! j
           then False
           else eq_loop c r (cbv_nextSetIndex c (i + 1)) (cbv_nextSetIndex r (j + 1))
      else i \<ge> cbv_size c \<and> j \<ge> cbv_size r)"
  by pat_completeness auto
termination
proof (relation "measure (\<lambda>(c, r, i, j). cbv_size c - i)")
  fix c r :: cbv and i j :: nat
  assume "i < cbv_size c \<and> j < cbv_size r"
  moreover have "i + 1 \<le> cbv_nextSetIndex c (i + 1)"
    unfolding cbv_nextSetIndex_def by (rule nextSet_loop_ge)
  ultimately show "((c, r, cbv_nextSetIndex c (i + 1), cbv_nextSetIndex r (j + 1)), (c, r, i, j))
      \<in> measure (\<lambda>(c, r, i, j). cbv_size c - i)" by auto
qed simp

declare eq_loop.simps [simp del]

definition cbv_eq :: "bool \<Rightarrow> cbv \<Rightarrow> cbv \<Rightarrow> bool" where
  "cbv_eq same c r =
     (if same then True else eq_loop c r (cbv_nextSetIndex c 0) (cbv_nextSetIndex r 0))"

definition cbv_ne :: "bool \<Rightarrow> cbv \<Rightarrow> cbv \<Rightarrow> bool" where
  "cbv_ne same c r = (\<not> cbv_eq same c r)"

text \<open>\<open>operator|=\<close>\<close>

fun or_loop :: "u64 list \<Rightarrow> u64 list \<Rightarrow> u64 \<Rightarrow> u64 list \<times> u64" where
  "or_loop (t # ts) (r # rs) changed =
     (let new = t OR r; (ts', changed') = or_loop ts rs (changed OR (t XOR new))
      in (new # ts', changed'))"
| "or_loop ts [] changed = (ts, changed)"
| "or_loop [] (r # rs) changed = ([], changed)"

definition cbv_extendOver :: "cbv \<Rightarrow> cbv \<Rightarrow> cbv" where
  "cbv_extendOver c r =
     (let c1 = (if cbv_finalBit c < cbv_finalBit r
                then cbv_extendForward c (cbv_finalBit r) else c)
      in if cbv_offset c1 > cbv_offset r then cbv_extendBackward c1 (cbv_offset r) else c1)"

definition cbv_or :: "bool \<Rightarrow> cbv \<Rightarrow> cbv \<Rightarrow> cbv \<times> bool" where
  "cbv_or same c r =
     (if cbv_size c = 0 then (r, cbv_size r \<noteq> 0)
      else if cbv_size r = 0 then (c, False)
      else if same then (c, False)
      else let c2 = cbv_extendOver c r;
               thisIndex = cbv_indexForBit c2 (cbv_offset r);
               (ws, changed) = or_loop (drop thisIndex (cbv_words c2)) (cbv_words r) 0
           in (c2\<lparr>cbv_words := take thisIndex (cbv_words c2) @ ws\<rparr>, changed \<noteq> 0))"

text \<open>\<open>operator&=\<close>: zero the words before the overlap, intersect the overlap, zero the rest.\<close>

fun clear_loop :: "u64 list \<Rightarrow> bool \<Rightarrow> u64 list \<times> bool" where
  "clear_loop [] changed = ([], changed)"
| "clear_loop (w # ws) changed =
     (let (ws', changed') = clear_loop ws (if \<not> changed then w \<noteq> 0 else changed)
      in (0 # ws', changed'))"

fun and_loop :: "u64 list \<Rightarrow> u64 list \<Rightarrow> bool \<Rightarrow> u64 list \<times> bool" where
  "and_loop (t # ts) (r # rs) changed =
     (let new = t AND r; (ts', changed') = and_loop ts rs (if \<not> changed then t \<noteq> new else changed)
      in (new # ts', changed'))"
| "and_loop ts [] changed = clear_loop ts changed"
| "and_loop [] (r # rs) changed = ([], changed)"

definition cbv_and :: "cbv \<Rightarrow> cbv \<Rightarrow> cbv \<times> bool" where
  "cbv_and c r =
     (let greaterOffset = max (cbv_offset c) (cbv_offset r)
      in if \<not> cbv_canHold c greaterOffset \<or> \<not> cbv_canHold r greaterOffset
         then let (ws, changed) = clear_loop (cbv_words c) False
              in (c\<lparr>cbv_words := ws\<rparr>, changed)
         else let thisIndex = cbv_indexForBit c greaterOffset;
                  rhsIndex = cbv_indexForBit r greaterOffset;
                  (pre, changed) = clear_loop (take thisIndex (cbv_words c)) False;
                  (post, changed') = and_loop (drop thisIndex (cbv_words c))
                                              (drop rhsIndex (cbv_words r)) changed
              in (c\<lparr>cbv_words := pre @ post\<rparr>, changed'))"

text \<open>\<open>operator-=\<close>, also reached as \<open>intersectWithComplement\<close>\<close>

fun diff_loop :: "u64 list \<Rightarrow> u64 list \<Rightarrow> bool \<Rightarrow> u64 list \<times> bool" where
  "diff_loop (t # ts) (r # rs) changed =
     (let new = t AND NOT r;
          (ts', changed') = diff_loop ts rs (if \<not> changed then t \<noteq> new else changed)
      in (new # ts', changed'))"
| "diff_loop ts [] changed = (ts, changed)"
| "diff_loop [] (r # rs) changed = ([], changed)"

definition cbv_diff :: "cbv \<Rightarrow> cbv \<Rightarrow> cbv \<times> bool" where
  "cbv_diff c r =
     (let greaterOffset = max (cbv_offset c) (cbv_offset r)
      in if \<not> cbv_canHold c greaterOffset \<or> \<not> cbv_canHold r greaterOffset then (c, False)
         else let thisIndex = cbv_indexForBit c greaterOffset;
                  rhsIndex = cbv_indexForBit r greaterOffset;
                  (post, changed) = diff_loop (drop thisIndex (cbv_words c))
                                              (drop rhsIndex (cbv_words r)) False
              in (c\<lparr>cbv_words := take thisIndex (cbv_words c) @ post\<rparr>, changed))"

definition cbv_intersectWithComplement :: "cbv \<Rightarrow> cbv \<Rightarrow> cbv \<times> bool" where
  "cbv_intersectWithComplement c r = cbv_diff c r"

text \<open>The three-argument form first assigns \<open>lhs\<close> to the target; when the target is also
  \<open>rhs\<close> (the flag), the assignment overwrites \<open>rhs\<close> too.\<close>

definition cbv_intersectWithComplement3 :: "bool \<Rightarrow> cbv \<Rightarrow> cbv \<Rightarrow> cbv \<Rightarrow> cbv" where
  "cbv_intersectWithComplement3 this_is_rhs c lhs rhs =
     fst (cbv_intersectWithComplement lhs (if this_is_rhs then lhs else rhs))"

definition cbv_contains :: "cbv \<Rightarrow> cbv \<Rightarrow> bool" where
  "cbv_contains c r = (let tmp = fst (cbv_and c r) in cbv_eq False tmp r)"

fun isect_loop :: "u64 list \<Rightarrow> u64 list \<Rightarrow> bool" where
  "isect_loop (e # es) (l # ls) = (if e AND l \<noteq> 0 then True else isect_loop es ls)"
| "isect_loop _ _ = False"

definition cbv_intersects :: "cbv \<Rightarrow> cbv \<Rightarrow> bool" where
  "cbv_intersects c r =
     (if cbv_empty c \<and> cbv_empty r then False
      else let earlier = (if cbv_offset c \<le> cbv_offset r then c else r);
               later = (if cbv_offset c \<le> cbv_offset r then r else c);
               earlierOffset = (if cbv_offset c < cbv_offset r then cbv_offset c else cbv_offset r) div 64;
               laterOffset = (if cbv_offset c > cbv_offset r then cbv_offset c else cbv_offset r) div 64
                             - earlierOffset;
               e = min laterOffset (cbv_size earlier)
           in isect_loop (drop e (cbv_words earlier)) (cbv_words later))"

definition cbv_hash :: "cbv \<Rightarrow> u64" where
  "cbv_hash c =
     foldl (\<lambda>h w. h XOR (w + 0x9e3779b9 + push_bit 6 h + drop_bit 2 h))
           (of_nat (cbv_size c)) (cbv_words c) + of_nat (cbv_offset c)"

text \<open>\<open>BitVector\<close>: a core bit vector whose constructor touches bit 0.\<close>

definition bv_new :: "nat \<Rightarrow> cbv" where
  "bv_new n = cbv_reset (cbv_set (cbv_new n) 0) 0"

subsection \<open>The set a vector stands for\<close>

definition cbv_bits :: "cbv \<Rightarrow> nat set" where
  "cbv_bits c = {b. cbv_offset c \<le> b \<and> wbit (cbv_words c) (b - cbv_offset c)}"

definition cbv_inv :: "cbv \<Rightarrow> bool" where
  "cbv_inv c \<longleftrightarrow> 64 dvd cbv_offset c \<and> cbv_offset c + 64 * cbv_size c \<le> 2 ^ 32"

lemma in_cbv_bits:
  "b \<in> cbv_bits c \<longleftrightarrow> cbv_offset c \<le> b \<and> wbit (cbv_words c) (b - cbv_offset c)"
  by (simp add: cbv_bits_def)

lemma aligned_sub:
  fixes off b :: nat
  assumes "64 dvd off" "off \<le> b"
  shows "(b - off) div 64 = b div 64 - off div 64" and "(b - off) mod 64 = b mod 64"
proof -
  obtain k d where "off = 64 * k" "b = 64 * k + d"
    using assms by (metis dvd_def le_Suc_ex)
  then show "(b - off) div 64 = b div 64 - off div 64" and "(b - off) mod 64 = b mod 64"
    by simp_all
qed

lemma cbv_bits_lt: "cbv_inv c \<Longrightarrow> b \<in> cbv_bits c \<Longrightarrow> b < 2 ^ 32"
  by (auto simp: in_cbv_bits cbv_inv_def dest: wbit_lt)

lemma cbv_new_bits: "cbv_bits (cbv_new n) = {}"
  by (auto simp: cbv_bits_def cbv_new_def)

lemma cbv_new_inv: "64 * n \<le> 2 ^ 32 \<Longrightarrow> cbv_inv (cbv_new n)"
  by (simp add: cbv_inv_def cbv_new_def)

lemma cbv_empty_iff: "cbv_empty c \<longleftrightarrow> cbv_bits c = {}"
proof -
  have "cbv_empty c \<longleftrightarrow> (\<forall>p. \<not> wbit (cbv_words c) p)"
    by (simp add: cbv_empty_def all_zero_wbit)
  also have "\<dots> \<longleftrightarrow> cbv_bits c = {}"
    by (auto simp: cbv_bits_def) (metis add_diff_cancel_left' le_add1)
  finally show ?thesis .
qed

lemma cbv_test_iff: "cbv_inv c \<Longrightarrow> cbv_test c b \<longleftrightarrow> b \<in> cbv_bits c"
  by (auto simp: cbv_test_def in_cbv_bits wbit_def and_mask_nonzero cbv_inv_def aligned_sub)


subsection \<open>Extension\<close>

lemma indexForBit_eq:
  "cbv_offset c \<le> b \<Longrightarrow> b < 2 ^ 32 \<Longrightarrow> cbv_indexForBit c b = (b - cbv_offset c) div 64"
  by (simp add: cbv_indexForBit_def to_u32_int nat_diff_distrib)

lemma finalBit_eq:
  "cbv_inv c \<Longrightarrow> cbv_size c \<noteq> 0 \<Longrightarrow> cbv_finalBit c = cbv_offset c + 64 * cbv_size c - 1"
proof -
  assume i: "cbv_inv c" "cbv_size c \<noteq> 0"
  then have "int (cbv_offset c) + int (cbv_size c) * 64 - 1
      = int (cbv_offset c + 64 * cbv_size c - 1)" by (cases "cbv_words c") auto
  moreover have "cbv_offset c + 64 * cbv_size c - 1 < 2 ^ 32"
    using i by (auto simp: cbv_inv_def)
  ultimately show ?thesis unfolding cbv_finalBit_def by (metis to_u32_id)
qed

lemma bits_prepend:
  "cbv_offset c = n + 64 * d \<Longrightarrow>
   cbv_bits (c\<lparr>cbv_offset := n, cbv_words := replicate d 0 @ cbv_words c\<rparr>) = cbv_bits c"
proof (rule set_eqI)
  fix x
  assume off: "cbv_offset c = n + 64 * d"
  show "x \<in> cbv_bits (c\<lparr>cbv_offset := n, cbv_words := replicate d 0 @ cbv_words c\<rparr>)
      \<longleftrightarrow> x \<in> cbv_bits c"
  proof (cases "x < n + 64 * d")
    case True
    then have "n \<le> x \<Longrightarrow> x - n < 64 * d" by linarith
    with True show ?thesis by (auto simp: off in_cbv_bits wbit_append)
  next
    case False
    then have "\<not> x - n < 64 * d" "x - n - 64 * d = x - (n + 64 * d)" "n \<le> x" by linarith+
    with False show ?thesis by (simp add: off in_cbv_bits wbit_append)
  qed
qed

lemma bits_append0: "cbv_bits (c\<lparr>cbv_words := cbv_words c @ replicate d 0\<rparr>) = cbv_bits c"
  by (auto simp: in_cbv_bits wbit_append split: if_splits dest: wbit_lt)

lemma extendBackward_props:
  assumes "cbv_inv c"
  shows "cbv_inv (cbv_extendBackward c b)"
    and "cbv_bits (cbv_extendBackward c b) = cbv_bits c"
    and "cbv_offset (cbv_extendBackward c b) = min (cbv_offset c) (64 * (b div 64))"
    and "cbv_offset (cbv_extendBackward c b) + 64 * cbv_size (cbv_extendBackward c b)
         = cbv_offset c + 64 * cbv_size c"
proof -
  let ?no = "b div 64 * 64" and ?e = "cbv_extendBackward c b"
  have *: "cbv_offset ?e = min (cbv_offset c) (64 * (b div 64))
     \<and> cbv_offset ?e + 64 * cbv_size ?e = cbv_offset c + 64 * cbv_size c
     \<and> cbv_bits ?e = cbv_bits c"
  proof (cases "?no \<ge> cbv_offset c")
    case True
    then show ?thesis by (simp add: cbv_extendBackward_def mult.commute)
  next
    case False
    obtain k d where kd: "b div 64 = k" "cbv_offset c = 64 * k + 64 * d"
      using assms False unfolding cbv_inv_def dvd_def
      by (metis le_Suc_ex mult.commute nat_le_linear nat_mult_le_cancel_disj
          right_diff_distrib' add_diff_inverse_nat distrib_left)
    have e: "?e = c\<lparr>cbv_offset := 64 * k, cbv_words := replicate d 0 @ cbv_words c\<rparr>"
      using False kd by (simp add: cbv_extendBackward_def Let_def mult.commute)
    have "cbv_bits ?e = cbv_bits c" unfolding e by (rule bits_prepend) (rule kd)
    then show ?thesis
      using False kd by (auto simp: cbv_extendBackward_def Let_def)
  qed
  then show "cbv_bits ?e = cbv_bits c"
    "cbv_offset ?e = min (cbv_offset c) (64 * (b div 64))"
    "cbv_offset ?e + 64 * cbv_size ?e = cbv_offset c + 64 * cbv_size c" by blast+
  show "cbv_inv ?e" using * assms by (auto simp: cbv_inv_def min_def)
qed

lemma extendForward_props:
  assumes "cbv_inv c" "b < 2 ^ 32" "cbv_offset c \<le> b"
  shows "cbv_inv (cbv_extendForward c b)"
    and "cbv_bits (cbv_extendForward c b) = cbv_bits c"
    and "cbv_offset (cbv_extendForward c b) = cbv_offset c"
    and "cbv_offset c + 64 * cbv_size (cbv_extendForward c b)
         = max (cbv_offset c + 64 * cbv_size c) (64 * (b div 64) + 64)"
proof -
  let ?e = "cbv_extendForward c b"
  have *: "cbv_offset ?e = cbv_offset c \<and> cbv_bits ?e = cbv_bits c
    \<and> cbv_offset c + 64 * cbv_size ?e = max (cbv_offset c + 64 * cbv_size c) (64 * (b div 64) + 64)"
  proof (cases "cbv_canHold c b")
    case True
    have "64 * (b div 64) + 64 \<le> cbv_offset c + 64 * cbv_size c"
    proof -
      obtain k where "cbv_offset c = 64 * k" using assms(1) by (auto simp: cbv_inv_def)
      then have "b div 64 < k + cbv_size c"
        using True unfolding cbv_canHold_def by (intro less_mult_imp_div_less) (simp add: algebra_simps)
      then show ?thesis using \<open>cbv_offset c = 64 * k\<close> by linarith
    qed
    with True show ?thesis by (simp add: cbv_extendForward_def)
  next
    case False
    obtain k where k: "cbv_offset c = 64 * k" using assms(1) by (auto simp: cbv_inv_def)
    let ?s = "cbv_size c" and ?m = "b div 64"
    have ge: "k + ?s \<le> ?m" using False assms(3) k unfolding cbv_canHold_def by auto
    have "int (?m * 64) - int ?s * 64 - int (cbv_offset c) = 64 * int (?m - (k + ?s))"
      using ge k by simp
    moreover have "64 * int (?m - (k + ?s)) < 2 ^ 64" using assms(2) by simp
    ultimately have u: "to_u64 (int (?m * 64) - int ?s * 64 - int (cbv_offset c)) div 64
        = ?m - (k + ?s)" by (simp add: to_u64_int nat_mult_distrib)
    have "to_u32 (1 + int (?m - (k + ?s))) = Suc (?m - (k + ?s))"
      using assms(2) by (subst to_u32_int) auto
    then have e: "?e = c\<lparr>cbv_words := cbv_words c @ replicate (Suc (?m - (k + ?s))) 0\<rparr>"
      unfolding cbv_extendForward_def Let_def u
      using False assms(3) \<open>to_u32 _ = _\<close> by simp
    have "cbv_bits ?e = cbv_bits c"
      unfolding e by (rule bits_append0)
    then show ?thesis using ge k by (auto simp: e)
  qed
  then show "cbv_offset ?e = cbv_offset c" "cbv_bits ?e = cbv_bits c"
    "cbv_offset c + 64 * cbv_size ?e = max (cbv_offset c + 64 * cbv_size c) (64 * (b div 64) + 64)"
    by blast+
  have "64 * (b div 64) + 64 \<le> 2 ^ 32" using assms(2) by simp
  then show "cbv_inv ?e" using * assms(1) by (auto simp: cbv_inv_def)
qed


lemma extendTo_props:
  assumes "cbv_inv c" "b < 2 ^ 32"
  shows "cbv_inv (cbv_extendTo c b)" and "cbv_bits (cbv_extendTo c b) = cbv_bits c"
    and "cbv_canHold (cbv_extendTo c b) b"
proof -
  have up: "64 * (b div 64) \<le> b" "b < 64 * (b div 64) + 64" "64 * (b div 64) + 64 \<le> 2 ^ 32"
    using assms(2) by simp_all
  show "cbv_inv (cbv_extendTo c b)"
    using assms up extendBackward_props(1) extendForward_props(1)
    by (auto simp: cbv_extendTo_def cbv_inv_def [of "c\<lparr>cbv_offset := _, cbv_words := _\<rparr>"])
  show "cbv_bits (cbv_extendTo c b) = cbv_bits c"
    using assms extendBackward_props(2) [of c b] extendForward_props(2) [of c b]
    by (simp add: cbv_extendTo_def cbv_bits_def)
  show "cbv_canHold (cbv_extendTo c b) b"
    using assms up extendBackward_props(3,4) [of c b] extendForward_props(3,4) [of c b]
    by (auto simp: cbv_extendTo_def cbv_canHold_def)
qed

lemma word_pos_iff:
  assumes "cbv_inv c" "cbv_offset c \<le> b"
  shows "p div 64 = (b - cbv_offset c) div 64 \<and> p mod 64 = b mod 64 \<longleftrightarrow> p = b - cbv_offset c"
  using assms aligned_sub(2) unfolding cbv_inv_def by (metis div_mult_mod_eq)

lemma canHold_index:
  "cbv_canHold c b \<Longrightarrow> (b - cbv_offset c) div 64 < cbv_size c"
  unfolding cbv_canHold_def by (intro less_mult_imp_div_less) linarith

lemma bits_update:
  assumes "cbv_inv c" "cbv_canHold c b"
  shows "cbv_bits (c\<lparr>cbv_words := (cbv_words c)[(b - cbv_offset c) div 64 :=
             cbv_words c ! ((b - cbv_offset c) div 64) OR wmask (b mod 64)]\<rparr>) = insert b (cbv_bits c)"
    and "cbv_bits (c\<lparr>cbv_words := (cbv_words c)[(b - cbv_offset c) div 64 :=
             cbv_words c ! ((b - cbv_offset c) div 64) AND NOT (wmask (b mod 64))]\<rparr>) = cbv_bits c - {b}"
proof -
  let ?i = "(b - cbv_offset c) div 64"
  have off: "cbv_offset c \<le> b" using assms(2) by (simp add: cbv_canHold_def)
  note i = canHold_index [OF assms(2)]
  have pos: "x = b" if "cbv_offset c \<le> x" "(x - cbv_offset c) div 64 = ?i"
    "(x - cbv_offset c) mod 64 = b mod 64" for x
    using word_pos_iff [OF assms(1) off, of "x - cbv_offset c"] that off by linarith
  have b: "(b - cbv_offset c) mod 64 = b mod 64"
    using word_pos_iff [OF assms(1) off, of "b - cbv_offset c"] by simp
  have in_i: "wbit (cbv_words c) p \<longleftrightarrow> bit (cbv_words c ! ?i) (p mod 64)" if "p div 64 = ?i" for p
    using that i by (auto simp: wbit_def)
  show "cbv_bits (c\<lparr>cbv_words := (cbv_words c)[?i := cbv_words c ! ?i OR wmask (b mod 64)]\<rparr>)
           = insert b (cbv_bits c)"
    using pos off b by (auto simp: in_cbv_bits wbit_update [OF i] in_i split: if_splits)
  show "cbv_bits (c\<lparr>cbv_words := (cbv_words c)[?i := cbv_words c ! ?i AND NOT (wmask (b mod 64))]\<rparr>)
           = cbv_bits c - {b}"
    using pos off b by (auto simp: in_cbv_bits wbit_update [OF i] in_i split: if_splits)
qed

lemma inv_update [simp]: "length ws = cbv_size c \<Longrightarrow> cbv_inv (c\<lparr>cbv_words := ws\<rparr>) = cbv_inv c"
  by (simp add: cbv_inv_def)

lemma cbv_set_inv: "cbv_inv c \<Longrightarrow> b < 2 ^ 32 \<Longrightarrow> cbv_inv (cbv_set c b)"
  by (simp add: cbv_set_def Let_def extendTo_props)

lemma cbv_set_bits: "cbv_inv c \<Longrightarrow> b < 2 ^ 32 \<Longrightarrow> cbv_bits (cbv_set c b) = insert b (cbv_bits c)"
  by (simp add: cbv_set_def Let_def extendTo_props bits_update)

lemma cbv_reset_inv: "cbv_inv c \<Longrightarrow> cbv_inv (cbv_reset c b)"
  by (simp add: cbv_reset_def Let_def)

lemma cbv_reset_bits:
  assumes "cbv_inv c"
  shows "cbv_bits (cbv_reset c b) = cbv_bits c - {b}"
proof (cases "cbv_canHold c b")
  case True
  then show ?thesis
    using bits_update(2) [OF assms True] by (auto simp: cbv_reset_def cbv_canHold_def Let_def)
next
  case False
  then have "b \<notin> cbv_bits c" by (auto simp: in_cbv_bits cbv_canHold_def dest: wbit_lt)
  with False show ?thesis by (auto simp: cbv_reset_def cbv_canHold_def)
qed

subsection \<open>The word loops\<close>

lemma or_zero_iff: "(x :: u64) OR y = 0 \<longleftrightarrow> x = 0 \<and> y = 0"
  by (fact or_eq_0_iff)

lemma xor_zero_iff: "(x :: u64) XOR y = 0 \<longleftrightarrow> x = y"
  by (auto simp: bit_eq_iff bit_simps)

lemma or_loop_length: "length rs \<le> length ts \<Longrightarrow> length (fst (or_loop ts rs ch)) = length ts"
  by (induction ts rs ch rule: or_loop.induct) (simp_all add: Let_def split_def)

lemma or_loop_wbit:
  "length rs \<le> length ts \<Longrightarrow> wbit (fst (or_loop ts rs ch)) p \<longleftrightarrow> wbit ts p \<or> wbit rs p"
  by (induction ts rs ch arbitrary: p rule: or_loop.induct)
    (simp_all add: Let_def split_def wbit_Cons)

lemma or_loop_flag:
  "length rs \<le> length ts \<Longrightarrow>
   snd (or_loop ts rs ch) \<noteq> 0 \<longleftrightarrow> ch \<noteq> 0 \<or> fst (or_loop ts rs ch) \<noteq> ts"
proof (induction ts rs ch rule: or_loop.induct)
  case (1 t ts r rs ch)
  then show ?case by (auto simp: Let_def split_def or_zero_iff xor_zero_iff)
qed simp_all

lemma clear_loop_props:
  "fst (clear_loop ws ch) = replicate (length ws) 0"
  "snd (clear_loop ws ch) \<longleftrightarrow> ch \<or> fst (clear_loop ws ch) \<noteq> ws"
proof -
  have *: "fst (clear_loop ws ch) = replicate (length ws) 0
    \<and> (snd (clear_loop ws ch) \<longleftrightarrow> ch \<or> fst (clear_loop ws ch) \<noteq> ws)"
    by (induction ws ch rule: clear_loop.induct) (auto simp: Let_def split_def)
  then show "fst (clear_loop ws ch) = replicate (length ws) 0"
    "snd (clear_loop ws ch) \<longleftrightarrow> ch \<or> fst (clear_loop ws ch) \<noteq> ws" by blast+
qed

lemma and_loop_length [simp]: "length (fst (and_loop ts rs ch)) = length ts"
  by (induction ts rs ch rule: and_loop.induct)
    (simp_all add: Let_def split_def clear_loop_props(1))

lemma and_loop_wbit: "wbit (fst (and_loop ts rs ch)) p \<longleftrightarrow> wbit ts p \<and> wbit rs p"
  by (induction ts rs ch arbitrary: p rule: and_loop.induct)
    (simp_all add: Let_def split_def wbit_Cons clear_loop_props(1) del: replicate_Suc)

lemma and_loop_flag: "snd (and_loop ts rs ch) \<longleftrightarrow> ch \<or> fst (and_loop ts rs ch) \<noteq> ts"
proof (induction ts rs ch rule: and_loop.induct)
  case (2 ts ch)
  then show ?case by (simp add: clear_loop_props(2))
qed (auto simp: Let_def split_def)

lemma diff_loop_length [simp]: "length (fst (diff_loop ts rs ch)) = length ts"
  by (induction ts rs ch rule: diff_loop.induct) (simp_all add: Let_def split_def)

lemma diff_loop_wbit: "wbit (fst (diff_loop ts rs ch)) p \<longleftrightarrow> wbit ts p \<and> \<not> wbit rs p"
  by (induction ts rs ch arbitrary: p rule: diff_loop.induct)
    (auto simp add: Let_def split_def wbit_Cons)

lemma diff_loop_flag: "snd (diff_loop ts rs ch) \<longleftrightarrow> ch \<or> fst (diff_loop ts rs ch) \<noteq> ts"
  by (induction ts rs ch rule: diff_loop.induct) (auto simp: Let_def split_def)

lemma isect_loop_iff: "isect_loop es ls \<longleftrightarrow> (\<exists>p. wbit es p \<and> wbit ls p)"
proof (induction es ls rule: isect_loop.induct)
  case (1 e es l ls)
  have "(\<exists>p. wbit (e # es) p \<and> wbit (l # ls) p)
      \<longleftrightarrow> (\<exists>p<64. bit (e AND l) p) \<or> (\<exists>p\<ge>64. wbit es (p - 64) \<and> wbit ls (p - 64))"
    by (auto simp: wbit_Cons not_less)
  also have "(\<exists>p\<ge>64. wbit es (p - 64) \<and> wbit ls (p - 64)) \<longleftrightarrow> (\<exists>p. wbit es p \<and> wbit ls p)"
    by (metis add_diff_cancel_right' le_add2)
  finally show ?case using "1.IH" word_nonzero_bit [of "e AND l"] by auto
qed auto

subsection \<open>Words and positions of two vectors\<close>

text \<open>A vector whose words are split at an aligned position \<open>g\<close>.\<close>

lemma splice_bits:
  assumes "g = cbv_offset c + 64 * length pre"
  shows "x \<in> cbv_bits (c\<lparr>cbv_words := pre @ post\<rparr>)
    \<longleftrightarrow> (if x < g then cbv_offset c \<le> x \<and> wbit pre (x - cbv_offset c) else wbit post (x - g))"
proof (cases "x < g")
  case True
  then show ?thesis using assms by (auto simp: in_cbv_bits wbit_append dest: wbit_lt)
next
  case False
  then have "\<not> x - cbv_offset c < 64 * length pre" "x - cbv_offset c - 64 * length pre = x - g"
    "cbv_offset c \<le> x" using assms by linarith+
  with False show ?thesis by (simp add: in_cbv_bits wbit_append)
qed

lemma split_bits:
  assumes "g = cbv_offset c + 64 * d" "d \<le> cbv_size c"
  shows "x \<in> cbv_bits c
    \<longleftrightarrow> (if x < g then cbv_offset c \<le> x \<and> wbit (take d (cbv_words c)) (x - cbv_offset c)
         else wbit (drop d (cbv_words c)) (x - g))"
  using splice_bits [of g c "take d (cbv_words c)" x "drop d (cbv_words c)"] assms
  by simp

lemma words_bits_ext:
  "length ws = cbv_size c \<Longrightarrow> cbv_bits (c\<lparr>cbv_words := ws\<rparr>) = cbv_bits c \<longleftrightarrow> ws = cbv_words c"
proof
  assume len: "length ws = cbv_size c" and eq: "cbv_bits (c\<lparr>cbv_words := ws\<rparr>) = cbv_bits c"
  show "ws = cbv_words c"
  proof (rule wbit_ext [OF len])
    fix p
    show "wbit ws p = wbit (cbv_words c) p"
      using eq [THEN eqset_imp_iff, of "cbv_offset c + p"] by (simp add: in_cbv_bits)
  qed
qed simp

lemma index_split:
  assumes "cbv_inv c" "64 dvd g" "cbv_canHold c g"
  shows "g = cbv_offset c + 64 * cbv_indexForBit c g" and "cbv_indexForBit c g < cbv_size c"
proof -
  have b: "cbv_offset c \<le> g" "g < 2 ^ 32"
    using assms by (auto simp: cbv_canHold_def cbv_inv_def)
  have i: "cbv_indexForBit c g = (g - cbv_offset c) div 64" by (rule indexForBit_eq [OF b])
  show "cbv_indexForBit c g < cbv_size c" unfolding i by (rule canHold_index [OF assms(3)])
  have "64 dvd g - cbv_offset c" using assms(1,2) by (simp add: cbv_inv_def dvd_diff_nat)
  then show "g = cbv_offset c + 64 * cbv_indexForBit c g" unfolding i using b(1) by simp
qed


subsection \<open>Union, intersection, difference\<close>

lemma inv_dvd: "cbv_inv c \<Longrightarrow> 64 dvd cbv_offset c"
  by (simp add: cbv_inv_def)

lemma extendOver_props:
  assumes c: "cbv_inv c" and r: "cbv_inv r" and ne: "cbv_size c \<noteq> 0" "cbv_size r \<noteq> 0"
  defines "e \<equiv> cbv_extendOver c r"
  shows "cbv_inv e" and "cbv_bits e = cbv_bits c" and "cbv_offset e \<le> cbv_offset r"
    and "cbv_offset r + 64 * cbv_size r \<le> cbv_offset e + 64 * cbv_size e"
    and "cbv_canHold e (cbv_offset r)"
proof -
  let ?f = "cbv_finalBit r"
  define c1 where "c1 = (if cbv_finalBit c < ?f then cbv_extendForward c ?f else c)"
  have e: "e = (if cbv_offset c1 > cbv_offset r then cbv_extendBackward c1 (cbv_offset r) else c1)"
    by (simp add: e_def cbv_extendOver_def c1_def Let_def)
  have fr: "?f = cbv_offset r + 64 * cbv_size r - 1" by (rule finalBit_eq [OF r ne(2)])
  have f32: "?f < 2 ^ 32" unfolding cbv_finalBit_def by (rule to_u32_bound)
  have fc: "cbv_finalBit c = cbv_offset c + 64 * cbv_size c - 1" by (rule finalBit_eq [OF c ne(1)])
  have al: "64 * (?f div 64) + 64 = cbv_offset r + 64 * cbv_size r"
  proof -
    obtain k where "cbv_offset r = 64 * k" using inv_dvd [OF r] by blast
    moreover have "(64 * (k + cbv_size r) - 1) div 64 = k + cbv_size r - 1"
      using ne(2) by (cases "cbv_words r") auto
    ultimately show ?thesis using fr ne(2) by (cases "cbv_words r") (auto simp: distrib_left)
  qed
  have c1: "cbv_inv c1" "cbv_bits c1 = cbv_bits c" "cbv_offset c1 = cbv_offset c"
    "cbv_offset r + 64 * cbv_size r \<le> cbv_offset c1 + 64 * cbv_size c1"
    using c fr fc ne extendForward_props [OF c f32] al by (auto simp: c1_def)
  show p: "cbv_inv e" "cbv_bits e = cbv_bits c" "cbv_offset e \<le> cbv_offset r"
    "cbv_offset r + 64 * cbv_size r \<le> cbv_offset e + 64 * cbv_size e"
    using c1 extendBackward_props [OF c1(1), of "cbv_offset r"] inv_dvd [OF r]
    by (auto simp: e)
  show "cbv_canHold e (cbv_offset r)"
    using p ne by (cases "cbv_words r") (auto simp: cbv_canHold_def)
qed

lemma cbv_or_main:
  assumes c: "cbv_inv c" and r: "cbv_inv r" and ne: "cbv_size c \<noteq> 0" "cbv_size r \<noteq> 0"
  shows "cbv_inv (fst (cbv_or False c r))"
    and "cbv_bits (fst (cbv_or False c r)) = cbv_bits c \<union> cbv_bits r"
    and "snd (cbv_or False c r) \<longleftrightarrow> \<not> cbv_bits r \<subseteq> cbv_bits c"
proof -
  define e where "e = cbv_extendOver c r"
  define d where "d = cbv_indexForBit e (cbv_offset r)"
  define ol where "ol = or_loop (drop d (cbv_words e)) (cbv_words r) 0"
  note e = extendOver_props [OF c r ne, folded e_def]
  have out: "cbv_or False c r = (e\<lparr>cbv_words := take d (cbv_words e) @ fst ol\<rparr>, snd ol \<noteq> 0)"
    using ne by (simp add: cbv_or_def e_def d_def ol_def Let_def split_def)
  note dd = index_split [OF e(1) inv_dvd [OF r] e(5), folded d_def]
  have len: "length (cbv_words r) \<le> length (drop d (cbv_words e))" using e(4) dd by simp
  have ws: "length (take d (cbv_words e) @ fst ol) = cbv_size e"
    using dd or_loop_length [OF len] by (simp add: ol_def)
  show "cbv_inv (fst (cbv_or False c r))" using e(1) ws by (simp add: out)
  have tk: "length (take d (cbv_words e)) = d" using dd(2) by simp
  have mem: "x \<in> cbv_bits (fst (cbv_or False c r)) \<longleftrightarrow> x \<in> cbv_bits e \<or> x \<in> cbv_bits r" for x
    using splice_bits [of "cbv_offset r" e "take d (cbv_words e)" x "fst ol"] dd tk
      split_bits [of "cbv_offset r" e d x] or_loop_wbit [OF len, folded ol_def]
    by (auto simp: out ol_def in_cbv_bits [of x r])
  then show un: "cbv_bits (fst (cbv_or False c r)) = cbv_bits c \<union> cbv_bits r" using e(2) by auto
  have "snd (cbv_or False c r) \<longleftrightarrow> take d (cbv_words e) @ fst ol \<noteq> cbv_words e"
    using or_loop_flag [OF len, of 0, folded ol_def]
    unfolding out snd_conv by (metis append_take_drop_id same_append_eq)
  also have "\<dots> \<longleftrightarrow> cbv_bits (fst (cbv_or False c r)) \<noteq> cbv_bits e"
    using words_bits_ext [OF ws] by (simp add: out)
  finally show "snd (cbv_or False c r) \<longleftrightarrow> \<not> cbv_bits r \<subseteq> cbv_bits c" using un e(2) by auto
qed

lemma size0_bits: "cbv_size c = 0 \<Longrightarrow> cbv_bits c = {}"
  by (auto simp: in_cbv_bits)

lemma cbv_or_inv: "cbv_inv c \<Longrightarrow> cbv_inv r \<Longrightarrow> cbv_inv (fst (cbv_or same c r))"
  using cbv_or_main(1) [of c r] by (cases same) (auto simp: cbv_or_def)

lemma cbv_or_bits:
  "cbv_inv c \<Longrightarrow> cbv_inv r \<Longrightarrow> (same \<Longrightarrow> r = c) \<Longrightarrow>
   cbv_bits (fst (cbv_or same c r)) = cbv_bits c \<union> cbv_bits r"
  using cbv_or_main(2) [of c r] size0_bits [of c] size0_bits [of r]
  by (cases same; cases "cbv_size c = 0"; cases "cbv_size r = 0") (simp_all add: cbv_or_def)

lemma cbv_or_flag:
  "cbv_inv c \<Longrightarrow> cbv_inv r \<Longrightarrow> (same \<Longrightarrow> r = c) \<Longrightarrow>
   snd (cbv_or same c r) \<longleftrightarrow>
     (if cbv_size c = 0 then cbv_size r \<noteq> 0 else \<not> cbv_bits r \<subseteq> cbv_bits c)"
  using cbv_or_main(3) [of c r] size0_bits [of r]
  by (cases same; cases "cbv_size c = 0"; cases "cbv_size r = 0") (simp_all add: cbv_or_def)


lemma no_overlap:
  assumes c: "cbv_inv c" and r: "cbv_inv r"
    and "\<not> cbv_canHold c (max (cbv_offset c) (cbv_offset r))
         \<or> \<not> cbv_canHold r (max (cbv_offset c) (cbv_offset r))"
  shows "cbv_bits c \<inter> cbv_bits r = {}"
  using assms(3) by (auto simp: cbv_canHold_def in_cbv_bits max_def split: if_splits dest!: wbit_lt)

lemma overlap_split:
  assumes c: "cbv_inv c" and r: "cbv_inv r"
    and hold: "cbv_canHold c (max (cbv_offset c) (cbv_offset r))"
              "cbv_canHold r (max (cbv_offset c) (cbv_offset r))"
  defines "g \<equiv> max (cbv_offset c) (cbv_offset r)"
  defines "i \<equiv> cbv_indexForBit c g" and "j \<equiv> cbv_indexForBit r g"
  shows "g = cbv_offset c + 64 * i" "i \<le> cbv_size c" "g = cbv_offset r + 64 * j" "j \<le> cbv_size r"
proof -
  have g: "64 dvd g" using inv_dvd [OF c] inv_dvd [OF r] by (simp add: g_def max_def)
  show "g = cbv_offset c + 64 * i" "i \<le> cbv_size c" "g = cbv_offset r + 64 * j" "j \<le> cbv_size r"
    using index_split [OF c g] index_split [OF r g] hold by (auto simp: i_def j_def g_def less_imp_le)
qed

lemma cbv_and_props:
  assumes c: "cbv_inv c" and r: "cbv_inv r"
  shows "cbv_inv (fst (cbv_and c r))"
    and "cbv_bits (fst (cbv_and c r)) = cbv_bits c \<inter> cbv_bits r"
    and "snd (cbv_and c r) \<longleftrightarrow> \<not> cbv_bits c \<subseteq> cbv_bits r"
proof -
  define g where "g = max (cbv_offset c) (cbv_offset r)"
  obtain ws f where out: "cbv_and c r = (c\<lparr>cbv_words := ws\<rparr>, f)" and len: "length ws = cbv_size c"
    and flag: "f \<longleftrightarrow> ws \<noteq> cbv_words c"
    and mem: "\<And>x. x \<in> cbv_bits (c\<lparr>cbv_words := ws\<rparr>) \<longleftrightarrow> x \<in> cbv_bits c \<inter> cbv_bits r"
  proof (cases "cbv_canHold c g \<and> cbv_canHold r g")
    case False
    let ?cl = "clear_loop (cbv_words c) False"
    have "cbv_and c r = (c\<lparr>cbv_words := fst ?cl\<rparr>, snd ?cl)"
      using False by (auto simp: cbv_and_def g_def Let_def split_def)
    moreover have "cbv_bits c \<inter> cbv_bits r = {}"
      using no_overlap [OF c r] False by (auto simp: g_def)
    ultimately show thesis
      by (intro that [of "fst ?cl" "snd ?cl"])
        (auto simp: clear_loop_props in_cbv_bits)
  next
    case True
    define i where "i = cbv_indexForBit c g"
    define j where "j = cbv_indexForBit r g"
    note ij = overlap_split [OF c r, folded g_def, folded i_def j_def]
    let ?cl = "clear_loop (take i (cbv_words c)) False"
    let ?al = "and_loop (drop i (cbv_words c)) (drop j (cbv_words r)) (snd ?cl)"
    have out: "cbv_and c r = (c\<lparr>cbv_words := fst ?cl @ fst ?al\<rparr>, snd ?al)"
      using True by (simp add: cbv_and_def g_def i_def j_def Let_def split_def)
    have len: "length (fst ?cl) = i" using ij(2) True by (simp add: clear_loop_props(1))
    have "snd ?al \<longleftrightarrow> fst ?cl @ fst ?al \<noteq> take i (cbv_words c) @ drop i (cbv_words c)"
      unfolding and_loop_flag clear_loop_props(2) using ij(2) True len by (subst append_eq_append_conv) auto
    then have flag: "snd ?al \<longleftrightarrow> fst ?cl @ fst ?al \<noteq> cbv_words c" by simp
    have mem: "x \<in> cbv_bits (c\<lparr>cbv_words := fst ?cl @ fst ?al\<rparr>)
        \<longleftrightarrow> x \<in> cbv_bits c \<inter> cbv_bits r" for x
      using splice_bits [of g c "fst ?cl" x "fst ?al"] split_bits [of g c i x]
        split_bits [of g r j x] ij True len
      by (auto simp: and_loop_wbit clear_loop_props(1) g_def)
    show thesis by (rule that [OF out _ flag mem]) (use len ij True in simp)
  qed
  show "cbv_inv (fst (cbv_and c r))" using c len by (simp add: out)
  show bits: "cbv_bits (fst (cbv_and c r)) = cbv_bits c \<inter> cbv_bits r" using mem by (auto simp: out)
  show "snd (cbv_and c r) \<longleftrightarrow> \<not> cbv_bits c \<subseteq> cbv_bits r"
    using words_bits_ext [OF len] bits flag by (auto simp: out)
qed


lemma cbv_diff_props:
  assumes c: "cbv_inv c" and r: "cbv_inv r"
  shows "cbv_inv (fst (cbv_diff c r))"
    and "cbv_bits (fst (cbv_diff c r)) = cbv_bits c - cbv_bits r"
    and "snd (cbv_diff c r) \<longleftrightarrow> cbv_bits c \<inter> cbv_bits r \<noteq> {}"
proof -
  define g where "g = max (cbv_offset c) (cbv_offset r)"
  have *: "cbv_inv (fst (cbv_diff c r))
    \<and> cbv_bits (fst (cbv_diff c r)) = cbv_bits c - cbv_bits r
    \<and> (snd (cbv_diff c r) \<longleftrightarrow> cbv_bits c \<inter> cbv_bits r \<noteq> {})"
  proof (cases "cbv_canHold c g \<and> cbv_canHold r g")
    case False
    then have "cbv_diff c r = (c, False)" by (auto simp: cbv_diff_def g_def Let_def)
    moreover have "cbv_bits c \<inter> cbv_bits r = {}"
      using no_overlap [OF c r] False by (auto simp: g_def)
    ultimately show ?thesis using c by auto
  next
    case True
    define i where "i = cbv_indexForBit c g"
    define j where "j = cbv_indexForBit r g"
    note ij = overlap_split [OF c r, folded g_def, folded i_def j_def]
    let ?dl = "diff_loop (drop i (cbv_words c)) (drop j (cbv_words r)) False"
    let ?ws = "take i (cbv_words c) @ fst ?dl"
    have out: "cbv_diff c r = (c\<lparr>cbv_words := ?ws\<rparr>, snd ?dl)"
      using True by (simp add: cbv_diff_def g_def i_def j_def Let_def split_def)
    have len: "length (take i (cbv_words c)) = i" "length ?ws = cbv_size c" using ij(2) True by simp_all
    have flag: "snd ?dl \<longleftrightarrow> ?ws \<noteq> cbv_words c"
      unfolding diff_loop_flag by (metis append_take_drop_id same_append_eq)
    have mem: "x \<in> cbv_bits (c\<lparr>cbv_words := ?ws\<rparr>) \<longleftrightarrow> x \<in> cbv_bits c - cbv_bits r" for x
      using splice_bits [of g c "take i (cbv_words c)" x "fst ?dl"] split_bits [of g c i x]
        split_bits [of g r j x] ij True len(1)
      by (auto simp: diff_loop_wbit g_def split: if_splits)
    then have "cbv_bits (c\<lparr>cbv_words := ?ws\<rparr>) = cbv_bits c - cbv_bits r" by blast
    then show ?thesis
      unfolding out fst_conv snd_conv flag
      using words_bits_ext [OF len(2)] c len(2) by auto
  qed
  then show "cbv_inv (fst (cbv_diff c r))"
    "cbv_bits (fst (cbv_diff c r)) = cbv_bits c - cbv_bits r"
    "snd (cbv_diff c r) \<longleftrightarrow> cbv_bits c \<inter> cbv_bits r \<noteq> {}" by blast+
qed

subsection \<open>Equality\<close>

text \<open>The part of the set held by the words from index \<open>i\<close> on.\<close>

definition cbv_from :: "cbv \<Rightarrow> nat \<Rightarrow> nat set" where
  "cbv_from c i = {b. cbv_offset c + i * 64 \<le> b
                      \<and> wbit (drop i (cbv_words c)) (b - (cbv_offset c + i * 64))}"

lemma from_0: "cbv_from c 0 = cbv_bits c"
  by (simp add: cbv_from_def cbv_bits_def)

lemma from_end: "cbv_size c \<le> i \<Longrightarrow> cbv_from c i = {}"
  by (simp add: cbv_from_def)

lemma from_low:
  "i < cbv_size c \<Longrightarrow> q < 64 \<Longrightarrow>
   cbv_offset c + i * 64 + q \<in> cbv_from c i \<longleftrightarrow> bit (cbv_words c ! i) q"
  by (simp add: cbv_from_def drop_nth_cons wbit_Cons)

lemma from_Suc:
  "i < cbv_size c \<Longrightarrow> cbv_from c (Suc i) = {b \<in> cbv_from c i. cbv_offset c + i * 64 + 64 \<le> b}"
  by (auto simp: cbv_from_def drop_nth_cons wbit_Cons diff_diff_add add_ac)

lemma from_ge: "b \<in> cbv_from c i \<Longrightarrow> cbv_offset c + i * 64 \<le> b"
  by (simp add: cbv_from_def)

lemma from_zero_word:
  "i < cbv_size c \<Longrightarrow> cbv_words c ! i = 0 \<Longrightarrow> cbv_from c (Suc i) = cbv_from c i"
  by (auto simp: cbv_from_def drop_nth_cons wbit_Cons diff_diff_add add_ac split: if_splits)

lemma nextSet_from: "cbv_from c (cbv_nextSetIndex c i) = cbv_from c i"
  unfolding cbv_nextSetIndex_def
proof (induction "cbv_words c" i rule: nextSet_loop.induct)
  case (1 i)
  then show ?case by (subst nextSet_loop.simps) (simp add: from_zero_word)
qed

lemma nextSet_nonzero:
  "cbv_nextSetIndex c i < cbv_size c \<Longrightarrow> cbv_words c ! (cbv_nextSetIndex c i) \<noteq> 0"
  unfolding cbv_nextSetIndex_def
proof (induction "cbv_words c" i rule: nextSet_loop.induct)
  case (1 i)
  then show ?case
    by (subst nextSet_loop.simps, subst (asm) (2) nextSet_loop.simps) (auto split: if_splits)
qed

lemma from_nonempty: "i < cbv_size c \<Longrightarrow> cbv_words c ! i \<noteq> 0 \<Longrightarrow>
  \<exists>q<64. cbv_offset c + i * 64 + q \<in> cbv_from c i"
  using from_low by (auto simp: word_nonzero_bit)

lemma from_eq_pos:
  assumes "cbv_inv c" "cbv_inv r" "i < cbv_size c" "cbv_words c ! i \<noteq> 0"
    and "cbv_from c i = cbv_from r j"
  shows "cbv_offset r + j * 64 \<le> cbv_offset c + i * 64"
proof -
  obtain q where q: "q < 64" "cbv_offset c + i * 64 + q \<in> cbv_from r j"
    using from_nonempty [OF assms(3,4)] assms(5) by auto
  obtain m n where mn: "cbv_offset c = 64 * m" "cbv_offset r = 64 * n"
    using assms(1,2) by (auto simp: cbv_inv_def dvd_def)
  then have "64 * (n + j) < 64 * (m + i + 1)" using from_ge [OF q(2)] q(1) by simp
  then have "n + j \<le> m + i" by simp
  with mn show ?thesis by simp
qed

lemma eq_loop_iff:
  assumes "cbv_inv c" "cbv_inv r"
    and "i < cbv_size c \<Longrightarrow> cbv_words c ! i \<noteq> 0" "j < cbv_size r \<Longrightarrow> cbv_words r ! j \<noteq> 0"
  shows "eq_loop c r i j \<longleftrightarrow> cbv_from c i = cbv_from r j"
  using assms
proof (induction c r i j rule: eq_loop.induct)
  case (1 c r i j)
  consider (both) "i < cbv_size c" "j < cbv_size r" | (left) "i < cbv_size c" "j \<ge> cbv_size r"
    | (right) "i \<ge> cbv_size c" by linarith
  then show ?case
  proof cases
    case both
    let ?i = "cbv_nextSetIndex c (Suc i)" and ?j = "cbv_nextSetIndex r (Suc j)"
    have le: "cbv_from c i = cbv_from r j \<Longrightarrow> i * 64 + cbv_offset c = j * 64 + cbv_offset r"
      using from_eq_pos [OF 1(2,3) both(1) 1(4)] from_eq_pos [OF 1(3,2) both(2) 1(5)] both by fastforce
    show ?thesis
    proof (cases "i * 64 + cbv_offset c = j * 64 + cbv_offset r \<and> cbv_words c ! i = cbv_words r ! j")
      case False
      have "cbv_words c ! i = cbv_words r ! j" if eq: "cbv_from c i = cbv_from r j"
      proof (rule word_eqI64)
        fix q :: nat
        assume "q < 64"
        then show "bit (cbv_words c ! i) q = bit (cbv_words r ! j) q"
          using from_low both le [OF eq] eq by (metis add.commute)
      qed
      then have "cbv_from c i \<noteq> cbv_from r j" using False le by blast
      with False both show ?thesis by (subst eq_loop.simps) auto
    next
      case True
      then have "eq_loop c r i j \<longleftrightarrow> eq_loop c r ?i ?j"
        using both by (subst eq_loop.simps) simp
      also have "\<dots> \<longleftrightarrow> cbv_from c ?i = cbv_from r ?j"
        using "1.IH" both True 1(2,3) nextSet_nonzero by simp
      also have "\<dots> \<longleftrightarrow> cbv_from c (Suc i) = cbv_from r (Suc j)" by (simp add: nextSet_from)
      also have "\<dots> \<longleftrightarrow> cbv_from c i = cbv_from r j"
      proof
        assume eq: "cbv_from c (Suc i) = cbv_from r (Suc j)"
        let ?P = "cbv_offset c + i * 64"
        have P: "cbv_offset r + j * 64 = ?P" using True by (simp add: add.commute)
        have "b \<in> cbv_from c i \<longleftrightarrow> b \<in> cbv_from r j" for b
        proof (cases "?P \<le> b \<and> b < ?P + 64")
          case True': True
          then obtain q where "b = ?P + q" "q < 64" by (metis add_less_cancel_left le_Suc_ex)
          then show ?thesis using from_low [OF both(1)] from_low [OF both(2)] True P by simp
        next
          case False
          have "b \<in> cbv_from c i \<longleftrightarrow> b \<in> cbv_from c (Suc i)"
            using from_Suc [OF both(1)] False from_ge [of b c i] by fastforce
          moreover have "b \<in> cbv_from r j \<longleftrightarrow> b \<in> cbv_from r (Suc j)"
            using from_Suc [OF both(2)] False from_ge [of b r j] P by fastforce
          ultimately show ?thesis using eq by simp
        qed
        then show "cbv_from c i = cbv_from r j" by blast
      qed (use True both in \<open>simp add: from_Suc add.commute\<close>)
      finally show ?thesis .
    qed
  next
    case left
    have "cbv_from c i \<noteq> {}" using from_nonempty [OF left(1) 1(4) [OF left(1)]] by blast
    moreover have "\<not> eq_loop c r i j" using left by (subst eq_loop.simps) simp
    ultimately show ?thesis using from_end [OF left(2)] by simp
  next
    case right
    have "cbv_from r j = {} \<longleftrightarrow> j \<ge> cbv_size r"
      using from_nonempty [of j r] 1(5) from_end [of r j] not_less by blast
    moreover have "eq_loop c r i j \<longleftrightarrow> j \<ge> cbv_size r" using right by (subst eq_loop.simps) simp
    ultimately show ?thesis using from_end [OF right] by auto
  qed
qed

lemma cbv_eq_iff:
  "cbv_inv c \<Longrightarrow> cbv_inv r \<Longrightarrow> (same \<Longrightarrow> r = c) \<Longrightarrow> cbv_eq same c r \<longleftrightarrow> cbv_bits c = cbv_bits r"
  using eq_loop_iff [of c r "cbv_nextSetIndex c 0" "cbv_nextSetIndex r 0"]
  by (auto simp: cbv_eq_def nextSet_nonzero nextSet_from from_0)


subsection \<open>Superset and intersection tests, counting, the hash\<close>

lemma cbv_contains_iff:
  "cbv_inv c \<Longrightarrow> cbv_inv r \<Longrightarrow> cbv_contains c r \<longleftrightarrow> cbv_bits r \<subseteq> cbv_bits c"
  by (auto simp: cbv_contains_def Let_def cbv_eq_iff cbv_and_props)

lemma isect_offset:
  assumes "cbv_inv a" "cbv_inv b" "cbv_offset a \<le> cbv_offset b"
  defines "d \<equiv> cbv_offset b div 64 - cbv_offset a div 64"
  shows "isect_loop (drop (min d (cbv_size a)) (cbv_words a)) (cbv_words b)
    \<longleftrightarrow> cbv_bits a \<inter> cbv_bits b \<noteq> {}"
proof -
  have off: "cbv_offset b = cbv_offset a + 64 * d"
    using assms(1-3) by (auto simp: cbv_inv_def d_def dvd_def)
  have dr: "drop (min d (cbv_size a)) (cbv_words a) = drop d (cbv_words a)"
    by (cases "d \<le> cbv_size a") auto
  have "x \<in> cbv_bits a \<and> x \<in> cbv_bits b
      \<longleftrightarrow> cbv_offset b \<le> x \<and> wbit (drop d (cbv_words a)) (x - cbv_offset b)
          \<and> wbit (cbv_words b) (x - cbv_offset b)" for x
    using off by (auto simp: in_cbv_bits wbit_drop)
  then show ?thesis unfolding dr isect_loop_iff
    by (auto simp: set_eq_iff) (metis add_diff_cancel_left' le_add1)
qed

lemma cbv_intersects_iff:
  assumes "cbv_inv c" "cbv_inv r"
  shows "cbv_intersects c r \<longleftrightarrow> cbv_bits c \<inter> cbv_bits r \<noteq> {}"
proof (cases "cbv_offset c \<le> cbv_offset r")
  case True
  then show ?thesis
    using isect_offset [OF assms True] cbv_empty_iff [of c]
    by (auto simp: cbv_intersects_def Let_def)
next
  case False
  then have le: "cbv_offset r \<le> cbv_offset c" by simp
  show ?thesis
    using False isect_offset [OF assms(2,1) le] cbv_empty_iff [of c]
    by (auto simp: cbv_intersects_def Let_def Int_commute)
qed

lemma cbv_bits_image: "cbv_bits c = (+) (cbv_offset c) ` {p. wbit (cbv_words c) p}"
  by (auto simp: cbv_bits_def image_def)

lemma cbv_count_card: "cbv_count c = card (cbv_bits c) mod 2 ^ 32"
proof -
  have "cbv_count c = to_u32 (int (card {p. wbit (cbv_words c) p}))"
    using count_fold [of 0 "cbv_words c"] by (simp add: cbv_count_def to_u32_def)
  then show ?thesis by (simp add: cbv_bits_image card_image to_u32_nat)
qed

lemma cbv_clear_props: "cbv_inv (cbv_clear c)" "cbv_bits (cbv_clear c) = {}"
  by (simp_all add: cbv_clear_def cbv_inv_def cbv_bits_def)

interpretation cbvs: bit_set cbv_inv cbv_bits "cbv_new 0" cbv_empty cbv_test cbv_set cbv_reset
  "cbv_or False" cbv_and cbv_intersectWithComplement "cbv_eq False"
  by unfold_locales
    (auto simp: cbv_new_inv cbv_new_bits cbv_empty_iff cbv_test_iff cbv_set_inv cbv_set_bits
      cbv_reset_inv cbv_reset_bits cbv_or_inv cbv_or_bits cbv_or_flag cbv_and_props
      cbv_intersectWithComplement_def cbv_diff_props cbv_eq_iff size0_bits
      dest: cbv_bits_lt [simplified])

lemma bv_new_props: "64 * n \<le> 2 ^ 32 \<Longrightarrow> cbv_inv (bv_new n)" "64 * n \<le> 2 ^ 32 \<Longrightarrow> cbv_bits (bv_new n) = {}"
  using cbv_new_inv [of n] cbv_new_bits [of n]
  by (simp_all add: bv_new_def cbv_reset_inv cbv_reset_bits cbv_set_inv cbv_set_bits)

interpretation bvs: bit_set cbv_inv cbv_bits "bv_new 0" cbv_empty cbv_test cbv_set cbv_reset
  "cbv_or False" cbv_and cbv_intersectWithComplement "cbv_eq False"
  using bv_new_props [of 0] cbvs.bit_set_axioms by (simp add: bit_set_def)


subsection \<open>The iterator\<close>

text \<open>\<open>CoreBitVectorIterator\<close>: the word index stands for \<open>wordIt\<close> (its end is the number of
  words), the bit for the position inside that word.\<close>

record cbv_it =
  it_word :: nat
  it_bit :: nat

function findBit_loop :: "u64 \<Rightarrow> nat \<Rightarrow> nat" where
  "findBit_loop w b = (if b < 64 \<and> w AND wmask b = 0 then findBit_loop w (Suc b) else b)"
  by pat_completeness auto
termination
  by (relation "measure (\<lambda>(w, b). 64 - b)") auto

declare findBit_loop.simps [simp del]

definition cbv_it_next :: "cbv \<Rightarrow> cbv_it \<Rightarrow> cbv_it" where
  "cbv_it_next c it =
     (let b = it_bit it + 1;
          it1 = (if b = 64 \<or> drop_bit b (cbv_words c ! it_word it) = 0
                 then \<lparr>it_word = nextSet_loop (cbv_words c) (it_word it + 1), it_bit = 0\<rparr>
                 else it\<lparr>it_bit := b\<rparr>)
      in if it_word it1 \<noteq> cbv_size c
         then it1\<lparr>it_bit := findBit_loop (cbv_words c ! it_word it1) (it_bit it1)\<rparr>
         else it1)"

definition cbv_it_make :: "cbv \<Rightarrow> bool \<Rightarrow> cbv_it" where
  "cbv_it_make c end =
     (let it = \<lparr>it_word = (if end then cbv_size c else 0), it_bit = 0\<rparr>
      in if it_word it \<noteq> cbv_size c \<and> \<not> (cbv_words c ! 0 AND 1 \<noteq> 0) then cbv_it_next c it else it)"

definition cbv_it_deref :: "cbv \<Rightarrow> cbv_it \<Rightarrow> nat" where
  "cbv_it_deref c it = to_u32 (int (cbv_offset c) + int (it_word it) * 64 + int (it_bit it))"

definition cbv_it_atEnd :: "cbv \<Rightarrow> cbv_it \<Rightarrow> bool" where
  "cbv_it_atEnd c it \<longleftrightarrow> it_word it = cbv_size c"

definition cbv_it_eq :: "cbv \<Rightarrow> cbv_it \<Rightarrow> cbv_it \<Rightarrow> bool" where
  "cbv_it_eq c x y =
     (if it_word x = cbv_size c then it_word y = cbv_size c
      else it_word x = it_word y \<and> it_bit x = it_bit y)"

lemma findBit_ge: "b \<le> findBit_loop w b"
proof (induction w b rule: findBit_loop.induct)
  case (1 w b)
  then show ?case by (subst findBit_loop.simps) auto
qed

lemma findBit_props:
  "(\<exists>q\<ge>b. bit w q) \<Longrightarrow> bit w (findBit_loop w b) \<and> (\<forall>q. b \<le> q \<longrightarrow> q < findBit_loop w b \<longrightarrow> \<not> bit w q)"
proof (induction w b rule: findBit_loop.induct)
  case (1 w b)
  show ?case
  proof (cases "bit w b")
    case True
    then have "findBit_loop w b = b"
      using and_mask_nonzero' [of b w] by (subst findBit_loop.simps) auto
    with True show ?thesis by simp
  next
    case False
    obtain q where q: "b \<le> q" "bit w q" using 1 by blast
    then have b: "b < 64" "w AND wmask b = 0" "\<exists>q\<ge>Suc b. bit w q"
      using False and_mask_nonzero' [of b w] by (auto simp: Suc_le_eq intro: le_neq_implies_less)
    then have "findBit_loop w b = findBit_loop w (Suc b)" by (subst findBit_loop.simps) simp
    then show ?thesis using 1 b False by (metis le_antisym not_less_eq_eq)
  qed
qed

text \<open>The walk \<open>for (it = begin(); it != end(); ++it)\<close>. It stops because every step moves on
  to a later word or to a later bit of the same word.\<close>

lemma next_measure:
  assumes "it_word it < cbv_size c"
  shows "cbv_size c - it_word (cbv_it_next c it) < cbv_size c - it_word it
    \<or> it_word (cbv_it_next c it) = it_word it \<and> 64 - it_bit (cbv_it_next c it) < 64 - it_bit it"
proof (cases "it_bit it + 1 = 64 \<or> drop_bit (it_bit it + 1) (cbv_words c ! it_word it) = 0")
  case True
  have "it_word it + 1 \<le> nextSet_loop (cbv_words c) (it_word it + 1)" by (rule nextSet_loop_ge)
  with True assms show ?thesis by (auto simp: cbv_it_next_def Let_def)
next
  case False
  then obtain q where "it_bit it + 1 \<le> q" "bit (cbv_words c ! it_word it) q"
    using drop_bit_nonzero by blast
  then have "it_bit it < 64" by auto
  moreover have "it_bit it + 1 \<le> findBit_loop (cbv_words c ! it_word it) (it_bit it + 1)"
    by (rule findBit_ge)
  ultimately show ?thesis using False assms by (auto simp: cbv_it_next_def Let_def)
qed

function cbv_elems_from :: "cbv \<Rightarrow> cbv_it \<Rightarrow> nat list" where
  "cbv_elems_from c it =
     (if it_word it < cbv_size c then cbv_it_deref c it # cbv_elems_from c (cbv_it_next c it) else [])"
  by pat_completeness auto
termination
proof (relation "measures [\<lambda>(c, it). cbv_size c - it_word it, \<lambda>(c, it). 64 - it_bit it]")
  show "((c, cbv_it_next c it), c, it)
      \<in> measures [\<lambda>(c, it). cbv_size c - it_word it, \<lambda>(c, it). 64 - it_bit it]"
    if "it_word it < cbv_size c" for c it
    using next_measure [OF that] by auto
qed simp

declare cbv_elems_from.simps [simp del]

definition cbv_elems :: "cbv \<Rightarrow> nat list" where
  "cbv_elems c = cbv_elems_from c (cbv_it_make c False)"


abbreviation it_pos :: "cbv_it \<Rightarrow> nat" where
  "it_pos it \<equiv> 64 * it_word it + it_bit it"

lemma wbit_at: "k < length ws \<Longrightarrow> q < 64 \<Longrightarrow> wbit ws (64 * k + q) \<longleftrightarrow> bit (ws ! k) q"
  by (simp add: wbit_def)

lemma nextSet_skips: "i \<le> k \<Longrightarrow> k < nextSet_loop ws i \<Longrightarrow> ws ! k = 0"
proof (induction ws i rule: nextSet_loop.induct)
  case (1 ws i)
  show ?case
  proof (cases "i < length ws \<and> ws ! i = 0")
    case True
    then have "nextSet_loop ws i = nextSet_loop ws (Suc i)" by (subst nextSet_loop.simps) simp
    with 1 True show ?thesis by (metis le_antisym not_less_eq_eq)
  next
    case False
    then have "nextSet_loop ws i = i" by (subst nextSet_loop.simps) auto
    with 1 show ?thesis by simp
  qed
qed

lemma nextSet_le: "i \<le> length ws \<Longrightarrow> nextSet_loop ws i \<le> length ws"
proof (induction ws i rule: nextSet_loop.induct)
  case (1 ws i)
  then show ?case by (subst nextSet_loop.simps) auto
qed

text \<open>A step of the iterator skips no set bit and stops at a set bit or at the end.\<close>

definition it_lands :: "cbv \<Rightarrow> nat \<Rightarrow> cbv_it \<Rightarrow> bool" where
  "it_lands c p it \<longleftrightarrow>
     it_word it \<le> cbv_size c \<and> p \<le> it_pos it \<and> it_pos it \<le> 64 * cbv_size c
     \<and> (\<forall>q. p \<le> q \<longrightarrow> q < it_pos it \<longrightarrow> \<not> wbit (cbv_words c) q)
     \<and> (it_word it < cbv_size c \<longrightarrow> it_bit it < 64 \<and> wbit (cbv_words c) (it_pos it))"

lemma lands_extend:
  assumes "it_lands c p' it" "p \<le> p'" "\<And>q. p \<le> q \<Longrightarrow> q < p' \<Longrightarrow> \<not> wbit (cbv_words c) q"
  shows "it_lands c p it"
proof -
  have "\<not> wbit (cbv_words c) q" if "p \<le> q" "q < it_pos it" for q
    using assms(1,3) that by (cases "q < p'") (auto simp: it_lands_def)
  then show ?thesis using assms(1,2) by (auto simp: it_lands_def)
qed

lemma lands_same_word:
  assumes k: "k < cbv_size c" and q: "\<exists>q\<ge>b. bit (cbv_words c ! k) q"
  shows "it_lands c (64 * k + b) \<lparr>it_word = k, it_bit = findBit_loop (cbv_words c ! k) b\<rparr>"
proof -
  let ?f = "findBit_loop (cbv_words c ! k) b"
  have f: "bit (cbv_words c ! k) ?f" "\<And>q. b \<le> q \<Longrightarrow> q < ?f \<Longrightarrow> \<not> bit (cbv_words c ! k) q"
    using findBit_props [OF q] by auto
  then have f64: "?f < 64" by blast
  have "\<not> wbit (cbv_words c) p" if "64 * k + b \<le> p" "p < 64 * k + ?f" for p
  proof -
    define q where "q = p - 64 * k"
    have "p = 64 * k + q" "b \<le> q" "q < ?f" using that by (auto simp: q_def)
    then show ?thesis using f(2) f64 k by (simp add: wbit_at)
  qed
  then show ?thesis using f f64 k findBit_ge [of b "cbv_words c ! k"]
    by (auto simp: it_lands_def wbit_at)
qed

lemma lands_next_word:
  assumes k: "k < cbv_size c"
  defines "k' \<equiv> nextSet_loop (cbv_words c) (Suc k)"
  defines "it \<equiv> (if k' \<noteq> cbv_size c then \<lparr>it_word = k', it_bit = findBit_loop (cbv_words c ! k') 0\<rparr>
                 else \<lparr>it_word = k', it_bit = 0\<rparr>)"
  shows "it_lands c (64 * Suc k) it"
proof -
  have le: "Suc k \<le> k'" "k' \<le> cbv_size c"
    using k nextSet_le [of "Suc k" "cbv_words c"]
    by (auto simp: k'_def intro: nextSet_loop_ge)
  have zero: "\<not> wbit (cbv_words c) q" if "64 * Suc k \<le> q" "q < 64 * k'" for q
  proof -
    have "Suc k \<le> q div 64" using div_le_mono [OF that(1), of 64] by simp
    moreover have "q div 64 < k'"
      by (rule less_mult_imp_div_less) (use that(2) in \<open>simp add: mult.commute\<close>)
    ultimately have "cbv_words c ! (q div 64) = 0" using nextSet_skips unfolding k'_def by blast
    then show ?thesis by (simp add: wbit_def)
  qed
  show ?thesis
  proof (cases "k' = cbv_size c")
    case True
    then show ?thesis using zero le by (auto simp: it_def it_lands_def)
  next
    case False
    then have "cbv_words c ! k' \<noteq> 0" using le nextSet_nonzero [of c "Suc k"]
      by (simp add: cbv_nextSetIndex_def k'_def)
    then have "\<exists>q\<ge>0. bit (cbv_words c ! k') q" by (auto simp: word_nonzero_bit)
    then have "it_lands c (64 * k' + 0) it"
      using lands_same_word [of k' c 0] False le by (simp add: it_def)
    moreover have "64 * Suc k \<le> 64 * k'" using le(1) by simp
    ultimately show ?thesis using lands_extend [of c "64 * k'" it "64 * Suc k"] zero by auto
  qed
qed

lemma it_next_lands:
  assumes k: "it_word it < cbv_size c" and b: "it_bit it < 64"
  shows "it_lands c (Suc (it_pos it)) (cbv_it_next c it)"
proof (cases "it_bit it + 1 = 64 \<or> drop_bit (it_bit it + 1) (cbv_words c ! it_word it) = 0")
  case True
  let ?k = "it_word it"
  have "it_lands c (64 * Suc ?k) (cbv_it_next c it)"
    using lands_next_word [OF k] True by (auto simp: cbv_it_next_def Let_def split: if_splits)
  moreover have "\<not> wbit (cbv_words c) q" if "Suc (it_pos it) \<le> q" "q < 64 * Suc ?k" for q
  proof -
    define j where "j = q - 64 * ?k"
    have j: "q = 64 * ?k + j" "it_bit it + 1 \<le> j" "j < 64" using that by (auto simp: j_def)
    then have "\<not> bit (cbv_words c ! ?k) j" using True drop_bit_nonzero by fastforce
    with j k show ?thesis by (simp add: wbit_at)
  qed
  ultimately show ?thesis
    using b lands_extend [of c "64 * Suc ?k" "cbv_it_next c it" "Suc (it_pos it)"] by auto
next
  case False
  then have "\<exists>q\<ge>it_bit it + 1. bit (cbv_words c ! it_word it) q" using drop_bit_nonzero by blast
  from lands_same_word [OF k this] show ?thesis
    using False k by (cases it) (simp add: cbv_it_next_def Let_def)
qed

lemma filter_skip:
  "p \<le> p' \<Longrightarrow> p' \<le> n \<Longrightarrow> (\<And>q. p \<le> q \<Longrightarrow> q < p' \<Longrightarrow> \<not> P q) \<Longrightarrow>
   filter P [p..<n] = filter P [p'..<n]"
proof -
  assume "p \<le> p'" "p' \<le> n" and none: "\<And>q. p \<le> q \<Longrightarrow> q < p' \<Longrightarrow> \<not> P q"
  then have "[p..<n] = [p..<p'] @ [p'..<n]" by (metis le_add_diff_inverse upt_add_eq_append)
  then show ?thesis using none by (simp add: filter_False)
qed

lemma elems_from_eq:
  assumes "cbv_inv c" "it_lands c p it"
  shows "cbv_elems_from c it
    = map ((+) (cbv_offset c)) (filter (wbit (cbv_words c)) [p..<64 * cbv_size c])"
  using assms
proof (induction c it arbitrary: p rule: cbv_elems_from.induct)
  case (1 c it)
  have skip: "filter (wbit (cbv_words c)) [p..<64 * cbv_size c]
      = filter (wbit (cbv_words c)) [it_pos it..<64 * cbv_size c]"
    using 1(3) by (intro filter_skip) (auto simp: it_lands_def)
  show ?case
  proof (cases "it_word it < cbv_size c")
    case True
    then have l: "it_bit it < 64" "wbit (cbv_words c) (it_pos it)"
      using 1(3) by (auto simp: it_lands_def)
    have "it_pos it < 64 * cbv_size c" using l(2) by (rule wbit_lt)
    moreover have "cbv_it_deref c it = cbv_offset c + it_pos it"
      using 1(2) calculation unfolding cbv_it_deref_def cbv_inv_def
      by (subst to_u32_int) (auto simp: nat_add_distrib nat_mult_distrib)
    ultimately show ?thesis unfolding skip
      using True l "1.IH" [OF True 1(2) it_next_lands [OF True l(1)]]
      by (subst cbv_elems_from.simps) (simp add: upt_conv_Cons)
  next
    case False
    then have "it_pos it = 64 * cbv_size c" using 1(3) by (auto simp: it_lands_def)
    with False show ?thesis unfolding skip by (subst cbv_elems_from.simps) simp
  qed
qed


lemma make_lands: "it_lands c 0 (cbv_it_make c False)"
proof (cases "cbv_words c")
  case Nil
  then show ?thesis by (simp add: cbv_it_make_def it_lands_def Let_def)
next
  case (Cons w ws)
  have bit0: "w AND 1 \<noteq> 0 \<longleftrightarrow> bit w 0"
    using and_mask_nonzero' [of 0 w] by (simp add: wmask_def)
  show ?thesis
  proof (cases "bit w 0")
    case True
    then show ?thesis using Cons bit0 by (simp add: cbv_it_make_def it_lands_def wbit_Cons)
  next
    case False
    have "it_lands c (Suc 0) (cbv_it_next c \<lparr>it_word = 0, it_bit = 0\<rparr>)"
      using it_next_lands [of "\<lparr>it_word = 0, it_bit = 0\<rparr>" c] Cons by simp
    moreover have "\<not> wbit (cbv_words c) 0" using False Cons by (simp add: wbit_Cons)
    ultimately have "it_lands c 0 (cbv_it_next c \<lparr>it_word = 0, it_bit = 0\<rparr>)"
      by (intro lands_extend [of c "Suc 0" _ 0]) (auto simp: less_Suc_eq)
    then show ?thesis using Cons bit0 False by (simp add: cbv_it_make_def Let_def)
  qed
qed

lemma cbv_elems_eq:
  "cbv_inv c \<Longrightarrow>
   cbv_elems c = map ((+) (cbv_offset c)) (filter (wbit (cbv_words c)) [0..<64 * cbv_size c])"
  unfolding cbv_elems_def by (rule elems_from_eq [OF _ make_lands])

lemma cbv_elems_set: "cbv_inv c \<Longrightarrow> set (cbv_elems c) = cbv_bits c"
  by (auto simp: cbv_elems_eq cbv_bits_image dest: wbit_lt)

lemma cbv_elems_sorted: "cbv_inv c \<Longrightarrow> sorted_wrt (<) (cbv_elems c)"
  by (simp add: cbv_elems_eq sorted_wrt_map sorted_wrt_filter)

subsection \<open>Properties\<close>

text \<open>Setting or clearing a bit of a core bit vector keeps the vector well formed, and changes
  the represented set by exactly that bit, whether the bit lies before, inside or behind the
  words allocated so far; testing a bit afterwards agrees with the represented set.\<close>

theorem cbv_set_reset_correct:
  assumes "cbv_inv c" "b < 2 ^ 32"
  shows "cbv_inv (cbv_set c b) \<and> cbv_bits (cbv_set c b) = insert b (cbv_bits c)
    \<and> cbv_inv (cbv_reset c b) \<and> cbv_bits (cbv_reset c b) = cbv_bits c - {b}
    \<and> (\<forall>x. cbv_test (cbv_set c b) x \<longleftrightarrow> x = b \<or> cbv_test c x)"
  using assms by (auto simp: cbv_set_inv cbv_set_bits cbv_reset_inv cbv_reset_bits cbv_test_iff)

theorem cbv_set_reset_witness:
  "cbv_bits (cbv_set (cbv_new 0) 200) = {200} \<and> cbv_test (cbv_set (cbv_new 0) 200) 200"
  using cbv_set_reset_correct [of "cbv_new 0" 200] by (simp add: cbv_new_inv cbv_new_bits)

text \<open>C31: \<open>operator|=\<close> of core bit vectors computes the union and keeps the vector well formed
  (extending it on both sides as needed, also when both operands are one object). Its result
  says exactly whether the set changed, except when the target had no words at all: then it
  says whether the other operand has words, set or not.\<close>

theorem cbv_union_correct:
  assumes "cbv_inv c" "cbv_inv r" "same \<Longrightarrow> r = c"
  shows "cbv_inv (fst (cbv_or same c r))
    \<and> cbv_bits (fst (cbv_or same c r)) = cbv_bits c \<union> cbv_bits r
    \<and> snd (cbv_or same c r) =
        (if cbv_size c = 0 then cbv_size r \<noteq> 0
         else cbv_bits (fst (cbv_or same c r)) \<noteq> cbv_bits c)"
  using assms by (auto simp: cbv_or_inv cbv_or_bits cbv_or_flag)

theorem cbv_union_witness:
  "cbv_bits (fst (cbv_or False (cbv_set (cbv_new 0) 200) (cbv_set (cbv_new 0) 3))) = {3, 200}"
  using cbv_union_correct [of "cbv_set (cbv_new 0) 200" "cbv_set (cbv_new 0) 3" False]
  by (simp add: cbv_new_inv cbv_new_bits cbv_set_inv cbv_set_bits insert_commute)

text \<open>\<open>operator&=\<close> and \<open>operator-=\<close> (\<open>intersectWithComplement\<close>) of core bit vectors compute
  intersection and difference, keep the vector well formed, and report exactly whether the set
  changed.\<close>

theorem cbv_inter_diff_correct:
  assumes "cbv_inv c" "cbv_inv r"
  shows "cbv_inv (fst (cbv_and c r)) \<and> cbv_bits (fst (cbv_and c r)) = cbv_bits c \<inter> cbv_bits r
    \<and> snd (cbv_and c r) = (cbv_bits (fst (cbv_and c r)) \<noteq> cbv_bits c)
    \<and> cbv_inv (fst (cbv_intersectWithComplement c r))
    \<and> cbv_bits (fst (cbv_intersectWithComplement c r)) = cbv_bits c - cbv_bits r
    \<and> snd (cbv_intersectWithComplement c r)
        = (cbv_bits (fst (cbv_intersectWithComplement c r)) \<noteq> cbv_bits c)"
  unfolding cbv_intersectWithComplement_def using cbv_and_props [OF assms] cbv_diff_props [OF assms]
  by auto

theorem cbv_inter_diff_witness:
  "cbv_bits (fst (cbv_and (cbv_set (cbv_set (cbv_new 0) 70) 3) (cbv_set (cbv_new 0) 70))) = {70}"
  using cbv_inter_diff_correct [of "cbv_set (cbv_set (cbv_new 0) 70) 3" "cbv_set (cbv_new 0) 70"]
  by (simp add: cbv_new_inv cbv_new_bits cbv_set_inv cbv_set_bits)

text \<open>The comparison operators of core bit vectors decide the set relations they are named
  after, whatever the offsets and the zero words of the operands: \<open>==\<close> equality, \<open>contains\<close>
  the superset relation, \<open>intersects\<close> having a common element, \<open>empty\<close> emptiness; \<open>count\<close> is
  the number of elements (modulo the width of its result).\<close>

theorem cbv_relations_correct:
  assumes "cbv_inv c" "cbv_inv r"
  shows "cbv_eq False c r = (cbv_bits c = cbv_bits r) \<and> cbv_contains c r = (cbv_bits r \<subseteq> cbv_bits c)
    \<and> cbv_intersects c r = (cbv_bits c \<inter> cbv_bits r \<noteq> {}) \<and> cbv_empty c = (cbv_bits c = {})
    \<and> cbv_count c = card (cbv_bits c) mod 2 ^ 32"
  using assms
  by (simp add: cbv_eq_iff cbv_contains_iff cbv_intersects_iff cbv_empty_iff cbv_count_card)

theorem cbv_relations_witness:
  "cbv_contains (cbv_set (cbv_set (cbv_new 0) 70) 3) (cbv_set (cbv_new 0) 70)"
  using cbv_relations_correct [of "cbv_set (cbv_set (cbv_new 0) 70) 3" "cbv_set (cbv_new 0) 70"]
  by (simp add: cbv_new_inv cbv_new_bits cbv_set_inv cbv_set_bits)

text \<open>Iterating over a core bit vector ends and visits exactly the elements of the set, each
  once and in increasing order.\<close>

theorem cbv_iteration_correct:
  "cbv_inv c \<Longrightarrow> set (cbv_elems c) = cbv_bits c \<and> sorted_wrt (<) (cbv_elems c) \<and> distinct (cbv_elems c)"
  using cbv_elems_set cbv_elems_sorted by (auto simp: strict_sorted_iff)

theorem cbv_iteration_witness: "set (cbv_elems (cbv_set (cbv_set (cbv_new 0) 70) 3)) = {3, 70}"
  using cbv_iteration_correct [of "cbv_set (cbv_set (cbv_new 0) 70) 3"]
  by (simp add: cbv_new_inv cbv_new_bits cbv_set_inv cbv_set_bits)

text \<open>The hash of a core bit vector is not compatible with its equality: the empty vector and
  the vector left by setting and clearing bit 0 compare equal and have different hashes, so a
  hash map keyed by such sets can hold one set twice.\<close>

theorem cbv_hash_not_compatible:
  "cbv_eq False (cbv_new 0) (cbv_reset (cbv_set (cbv_new 0) 0) 0)
   \<and> cbv_hash (cbv_new 0) \<noteq> cbv_hash (cbv_reset (cbv_set (cbv_new 0) 0) 0)"
proof
  show "cbv_eq False (cbv_new 0) (cbv_reset (cbv_set (cbv_new 0) 0) 0)"
    by (simp add: cbv_eq_iff cbv_new_inv cbv_new_bits cbv_set_inv cbv_set_bits cbv_reset_inv cbv_reset_bits)
  show "cbv_hash (cbv_new 0) \<noteq> cbv_hash (cbv_reset (cbv_set (cbv_new 0) 0) 0)"
    by code_simp
qed

text \<open>A \<open>BitVector\<close> starts at offset 0 and keeps offset 0 as long as it is not cleared; after
  \<open>clear\<close> the next \<open>set\<close> gives it the offset of the word of that bit, against the comment that
  it always holds the words from 0 on.\<close>

theorem bv_offset_after_clear:
  "cbv_offset (bv_new n) = 0
   \<and> (\<forall>c b. cbv_offset c = 0 \<and> cbv_size c \<noteq> 0 \<longrightarrow> cbv_offset (cbv_set c b) = 0 \<and> cbv_size (cbv_set c b) \<noteq> 0)
   \<and> cbv_offset (cbv_set (cbv_clear (bv_new n)) 100) = 64"
proof -
  have keep: "cbv_offset (cbv_set c b) = 0 \<and> cbv_size (cbv_set c b) \<noteq> 0"
    if "cbv_offset c = 0" "cbv_size c \<noteq> 0" for c b
    using that
    by (auto simp: cbv_set_def cbv_extendTo_def cbv_extendForward_def Let_def)
  have "cbv_offset (bv_new n) = 0"
    by (auto simp: bv_new_def cbv_reset_def cbv_set_def cbv_extendTo_def cbv_extendForward_def
        cbv_new_def Let_def)
  with keep show ?thesis
    by (auto simp: cbv_clear_def cbv_set_def cbv_extendTo_def Let_def)
qed


theorem bv_offset_witness: "cbv_offset (cbv_set (bv_new 0) 100) = 0"
proof -
  have "cbv_size (bv_new 0) \<noteq> 0" by code_simp
  then show ?thesis using bv_offset_after_clear [of 0] by blast
qed

end
