(* ===== verification/SparseBitVec.thy ===== *)
theory SparseBitVec
  imports BitSetIface
begin

text \<open>
  \<open>svf/include/Util/SparseBitVector.h\<close> with its default \<open>ElementSize\<close> of 128: the sparse bit
  vector, a list of elements of two 64-bit words each, sorted by the element's index, with the
  position of the element accessed last.

  \<open>std::list\<close> iterators are positions in the list (the end is its length); an iterator that
  stays on its element while others are inserted or erased before it is shifted accordingly.
  \<open>CurrElementIter\<close> is \<open>s_cur\<close>. Where the code compares \<open>this\<close> with the address of an
  operand, the model has a flag for the outcome.

  \<open>sbv_bits\<close> is the set represented, \<open>sbv_inv\<close> the invariant: indices strictly increasing, no
  element without bits, the cached position valid unless the list is empty.
\<close>

subsection \<open>Elements\<close>

record sbv_elt =
  e_idx :: nat
  e_bits :: "u64 list"

definition elt_new :: "nat \<Rightarrow> sbv_elt" where
  "elt_new idx = \<lparr>e_idx = idx, e_bits = replicate 2 0\<rparr>"

definition elt_eq :: "sbv_elt \<Rightarrow> sbv_elt \<Rightarrow> bool" where
  "elt_eq a b = (if e_idx a \<noteq> e_idx b then False else list_all2 (=) (e_bits a) (e_bits b))"

definition elt_empty :: "sbv_elt \<Rightarrow> bool" where
  "elt_empty e = list_all (\<lambda>w. w = 0) (e_bits e)"

definition elt_set :: "sbv_elt \<Rightarrow> nat \<Rightarrow> sbv_elt" where
  "elt_set e i = e\<lparr>e_bits := (e_bits e)[i div 64 := (e_bits e ! (i div 64)) OR wmask (i mod 64)]\<rparr>"

definition elt_reset :: "sbv_elt \<Rightarrow> nat \<Rightarrow> sbv_elt" where
  "elt_reset e i = e\<lparr>e_bits := (e_bits e)[i div 64 := (e_bits e ! (i div 64)) AND NOT (wmask (i mod 64))]\<rparr>"

definition elt_test :: "sbv_elt \<Rightarrow> nat \<Rightarrow> bool" where
  "elt_test e i \<longleftrightarrow> (e_bits e ! (i div 64)) AND wmask (i mod 64) \<noteq> 0"

definition elt_test_and_set :: "sbv_elt \<Rightarrow> nat \<Rightarrow> sbv_elt \<times> bool" where
  "elt_test_and_set e i = (if \<not> elt_test e i then (elt_set e i, True) else (e, False))"

definition elt_count :: "sbv_elt \<Rightarrow> nat" where
  "elt_count e = foldl (\<lambda>n w. to_u32 (int n + int (countPopulation w))) 0 (e_bits e)"

text \<open>The scans for the first and the last word with bits; \<open>None\<close> stands for \<open>abort()\<close>, or
  for the result -1 of \<open>find_next\<close>.\<close>

fun firstWord_loop :: "nat \<Rightarrow> u64 list \<Rightarrow> nat option" where
  "firstWord_loop i [] = None"
| "firstWord_loop i (w # ws) =
     (if w \<noteq> 0 then Some (i * 64 + countTrailingZeros w) else firstWord_loop (Suc i) ws)"

definition elt_find_first :: "sbv_elt \<Rightarrow> nat option" where
  "elt_find_first e = firstWord_loop 0 (e_bits e)"

fun lastWord_loop :: "u64 list \<Rightarrow> nat option" where
  "lastWord_loop [] = None"
| "lastWord_loop (w # ws) =
     (let Idx = length ws
      in if w \<noteq> 0 then Some (Idx * 64 + 64 - countLeadingZeros w - 1) else lastWord_loop ws)"

definition elt_find_last :: "sbv_elt \<Rightarrow> nat option" where
  "elt_find_last e = lastWord_loop (rev (e_bits e))"

definition elt_find_next :: "sbv_elt \<Rightarrow> nat \<Rightarrow> nat option" where
  "elt_find_next e Curr =
     (if Curr \<ge> 128 then None
      else let WordPos = Curr div 64; BitPos = Curr mod 64;
               Copy = (e_bits e ! WordPos) AND push_bit BitPos (NOT 0)
           in if Copy \<noteq> 0 then Some (WordPos * 64 + countTrailingZeros Copy)
              else firstWord_loop (WordPos + 1) (drop (WordPos + 1) (e_bits e)))"

text \<open>The word loops of the element operations: the changed flag is updated as the code does it,
  from the old word while nothing has changed yet.\<close>

fun unionWith_loop :: "u64 list \<Rightarrow> u64 list \<Rightarrow> bool \<Rightarrow> u64 list \<times> bool" where
  "unionWith_loop (t # ts) (r # rs) changed =
     (let old = (if changed then 0 else t); new = t OR r;
          (ts', ch) = unionWith_loop ts rs (if \<not> changed \<and> old \<noteq> new then True else changed)
      in (new # ts', ch))"
| "unionWith_loop ts _ changed = (ts, changed)"

definition elt_unionWith :: "sbv_elt \<Rightarrow> sbv_elt \<Rightarrow> sbv_elt \<times> bool" where
  "elt_unionWith e r =
     (let (ws, changed) = unionWith_loop (e_bits e) (e_bits r) False in (e\<lparr>e_bits := ws\<rparr>, changed))"

fun eltIntersects_loop :: "u64 list \<Rightarrow> u64 list \<Rightarrow> bool" where
  "eltIntersects_loop (t # ts) (r # rs) = (if r AND t \<noteq> 0 then True else eltIntersects_loop ts rs)"
| "eltIntersects_loop _ _ = False"

definition elt_intersects :: "sbv_elt \<Rightarrow> sbv_elt \<Rightarrow> bool" where
  "elt_intersects e r = eltIntersects_loop (e_bits e) (e_bits r)"

fun intersectWith_loop :: "u64 list \<Rightarrow> u64 list \<Rightarrow> bool \<Rightarrow> bool \<Rightarrow> u64 list \<times> bool \<times> bool" where
  "intersectWith_loop (t # ts) (r # rs) changed allzero =
     (let old = (if changed then 0 else t); new = t AND r;
          allzero' = (if new \<noteq> 0 then False else allzero);
          (ts', ch, az) = intersectWith_loop ts rs (if \<not> changed \<and> old \<noteq> new then True else changed) allzero'
      in (new # ts', ch, az))"
| "intersectWith_loop ts _ changed allzero = (ts, changed, allzero)"

text \<open>The result is the element, the changed flag and \<open>BecameZero\<close>.\<close>

definition elt_intersectWith :: "sbv_elt \<Rightarrow> sbv_elt \<Rightarrow> sbv_elt \<times> bool \<times> bool" where
  "elt_intersectWith e r =
     (let (ws, changed, allzero) = intersectWith_loop (e_bits e) (e_bits r) False True
      in (e\<lparr>e_bits := ws\<rparr>, changed, allzero))"

fun withComplement_loop :: "u64 list \<Rightarrow> u64 list \<Rightarrow> bool \<Rightarrow> bool \<Rightarrow> u64 list \<times> bool \<times> bool" where
  "withComplement_loop (t # ts) (r # rs) changed allzero =
     (let old = (if changed then 0 else t); new = t AND NOT r;
          allzero' = (if new \<noteq> 0 then False else allzero);
          (ts', ch, az) = withComplement_loop ts rs (if \<not> changed \<and> old \<noteq> new then True else changed) allzero'
      in (new # ts', ch, az))"
| "withComplement_loop ts _ changed allzero = (ts, changed, allzero)"

definition elt_intersectWithComplement :: "sbv_elt \<Rightarrow> sbv_elt \<Rightarrow> sbv_elt \<times> bool \<times> bool" where
  "elt_intersectWithComplement e r =
     (let (ws, changed, allzero) = withComplement_loop (e_bits e) (e_bits r) False True
      in (e\<lparr>e_bits := ws\<rparr>, changed, allzero))"

fun complement3_loop :: "u64 list \<Rightarrow> u64 list \<Rightarrow> bool \<Rightarrow> u64 list \<times> bool" where
  "complement3_loop (a # as) (b # bs) allzero =
     (let new = a AND NOT b; (ws, az) = complement3_loop as bs (if new \<noteq> 0 then False else allzero)
      in (new # ws, az))"
| "complement3_loop _ _ allzero = ([], allzero)"

definition elt_intersectWithComplement3 :: "sbv_elt \<Rightarrow> sbv_elt \<Rightarrow> sbv_elt \<Rightarrow> sbv_elt \<times> bool" where
  "elt_intersectWithComplement3 e r1 r2 =
     (let (ws, allzero) = complement3_loop (e_bits r1) (e_bits r2) True in (e\<lparr>e_bits := ws\<rparr>, allzero))"

subsection \<open>The vector\<close>

record sbv =
  s_elems :: "sbv_elt list"
  s_cur :: nat

definition sbv_new :: sbv where
  "sbv_new = \<lparr>s_elems = [], s_cur = 0\<rparr>"

definition sbv_copy :: "sbv \<Rightarrow> sbv" where
  "sbv_copy r = \<lparr>s_elems = s_elems r, s_cur = 0\<rparr>"

definition sbv_assign :: "bool \<Rightarrow> sbv \<Rightarrow> sbv \<Rightarrow> sbv" where
  "sbv_assign same s r = (if same then s else \<lparr>s_elems = s_elems r, s_cur = 0\<rparr>)"

definition sbv_clear :: "sbv \<Rightarrow> sbv" where
  "sbv_clear s = s\<lparr>s_elems := []\<rparr>"

definition sbv_empty :: "sbv \<Rightarrow> bool" where
  "sbv_empty s = (s_elems s = [])"

fun lowerBack :: "sbv_elt list \<Rightarrow> nat \<Rightarrow> nat \<Rightarrow> nat" where
  "lowerBack es i 0 = 0"
| "lowerBack es i (Suc p) = (if e_idx (es ! Suc p) > i then lowerBack es i p else Suc p)"

function lowerForward :: "sbv_elt list \<Rightarrow> nat \<Rightarrow> nat \<Rightarrow> nat" where
  "lowerForward es i p =
     (if p < length es \<and> e_idx (es ! p) < i then lowerForward es i (Suc p) else p)"
  by pat_completeness auto
termination
  by (relation "measure (\<lambda>(es, i, p). length es - p)") auto

declare lowerForward.simps [simp del]

text \<open>\<open>FindLowerBoundImpl\<close>: the position found, which is also the new cached position.\<close>

definition sbv_findLowerBound :: "sbv \<Rightarrow> nat \<Rightarrow> nat" where
  "sbv_findLowerBound s i =
     (if s_elems s = [] then 0
      else let cur = (if s_cur s = length (s_elems s) then s_cur s - 1 else s_cur s)
           in if e_idx (s_elems s ! cur) = i then cur
              else if e_idx (s_elems s ! cur) > i then lowerBack (s_elems s) i cur
              else lowerForward (s_elems s) i cur)"

definition sbv_test :: "sbv \<Rightarrow> nat \<Rightarrow> bool \<times> sbv" where
  "sbv_test s b =
     (if s_elems s = [] then (False, s)
      else let i = b div 128; p = sbv_findLowerBound s i; s1 = s\<lparr>s_cur := p\<rparr>
           in if p = length (s_elems s) \<or> e_idx (s_elems s ! p) \<noteq> i then (False, s1)
              else (elt_test (s_elems s ! p) (b mod 128), s1))"

definition sbv_reset :: "sbv \<Rightarrow> nat \<Rightarrow> sbv" where
  "sbv_reset s b =
     (if s_elems s = [] then s
      else let i = b div 128; p = sbv_findLowerBound s i; s1 = s\<lparr>s_cur := p\<rparr>
           in if p = length (s_elems s) \<or> e_idx (s_elems s ! p) \<noteq> i then s1
              else let e = elt_reset (s_elems s ! p) (b mod 128)
                   in if elt_empty e
                      then \<lparr>s_elems = take p (s_elems s) @ drop (Suc p) (s_elems s), s_cur = p\<rparr>
                      else s1\<lparr>s_elems := (s_elems s)[p := e]\<rparr>)"

definition sbv_set :: "sbv \<Rightarrow> nat \<Rightarrow> sbv" where
  "sbv_set s b =
     (let i = b div 128;
          (p, es) =
            (if s_elems s = [] then (0, [elt_new i])
             else let p = sbv_findLowerBound s i
                  in if p = length (s_elems s) \<or> e_idx (s_elems s ! p) \<noteq> i
                     then let q = (if p \<noteq> length (s_elems s) \<and> e_idx (s_elems s ! p) < i then p + 1 else p)
                          in (q, take q (s_elems s) @ elt_new i # drop q (s_elems s))
                     else (p, s_elems s))
      in \<lparr>s_elems = es[p := elt_set (es ! p) (b mod 128)], s_cur = p\<rparr>)"

definition sbv_test_and_set :: "sbv \<Rightarrow> nat \<Rightarrow> sbv \<times> bool" where
  "sbv_test_and_set s b =
     (let (old, s1) = sbv_test s b in if \<not> old then (sbv_set s1 b, True) else (s1, False))"

fun sbvEq_loop :: "sbv_elt list \<Rightarrow> sbv_elt list \<Rightarrow> bool" where
  "sbvEq_loop (a # as) (b # bs) = (if \<not> elt_eq a b then False else sbvEq_loop as bs)"
| "sbvEq_loop as bs = (as = [] \<and> bs = [])"

definition sbv_eq :: "sbv \<Rightarrow> sbv \<Rightarrow> bool" where
  "sbv_eq s r = sbvEq_loop (s_elems s) (s_elems r)"

definition sbv_ne :: "sbv \<Rightarrow> sbv \<Rightarrow> bool" where
  "sbv_ne s r = (\<not> sbv_eq s r)"

text \<open>The two-iterator loops, as recursions over what is left of both lists; the result holds the
  elements the target keeps from its iterator on.\<close>

fun orMerge :: "sbv_elt list \<Rightarrow> sbv_elt list \<Rightarrow> bool \<Rightarrow> sbv_elt list \<times> bool" where
  "orMerge es [] changed = (es, changed)"
| "orMerge [] (r # rs) changed = (let m = orMerge [] rs True in (r # fst m, snd m))"
| "orMerge (e # es) (r # rs) changed =
     (if e_idx e > e_idx r then let m = orMerge (e # es) rs True in (r # fst m, snd m)
      else if e_idx e = e_idx r
      then let u = elt_unionWith e r; m = orMerge es rs (changed \<or> snd u) in (fst u # fst m, snd m)
      else let m = orMerge es (r # rs) changed in (e # fst m, snd m))"

definition sbv_or :: "bool \<Rightarrow> sbv \<Rightarrow> sbv \<Rightarrow> sbv \<times> bool" where
  "sbv_or same s r =
     (if same then (s, False)
      else if s_elems r = [] then (s, False)
      else let (es, changed) = orMerge (s_elems s) (s_elems r) False
           in (\<lparr>s_elems = es, s_cur = 0\<rparr>, changed))"

fun andMerge :: "sbv_elt list \<Rightarrow> sbv_elt list \<Rightarrow> bool \<Rightarrow> sbv_elt list \<times> bool" where
  "andMerge es [] changed = ([], if es \<noteq> [] then True else changed)"
| "andMerge [] (r # rs) changed = ([], changed)"
| "andMerge (e # es) (r # rs) changed =
     (if e_idx e > e_idx r then andMerge (e # es) rs changed
      else if e_idx e = e_idx r
      then let u = elt_intersectWith e r; BecameZero = snd (snd u);
               m = andMerge es rs (changed \<or> fst (snd u))
           in (if BecameZero then fst m else fst u # fst m, snd m)
      else andMerge es (r # rs) True)"

definition sbv_and :: "bool \<Rightarrow> sbv \<Rightarrow> sbv \<Rightarrow> sbv \<times> bool" where
  "sbv_and same s r =
     (if same then (s, False)
      else if s_elems s = [] \<and> s_elems r = [] then (s, False)
      else let (es, changed) = andMerge (s_elems s) (s_elems r) False
           in (\<lparr>s_elems = es, s_cur = 0\<rparr>, changed))"

fun diffMerge :: "sbv_elt list \<Rightarrow> sbv_elt list \<Rightarrow> bool \<Rightarrow> sbv_elt list \<times> bool" where
  "diffMerge es [] changed = (es, changed)"
| "diffMerge [] (r # rs) changed = ([], changed)"
| "diffMerge (e # es) (r # rs) changed =
     (if e_idx e > e_idx r then diffMerge (e # es) rs changed
      else if e_idx e = e_idx r
      then let u = elt_intersectWithComplement e r; BecameZero = snd (snd u);
               m = diffMerge es rs (changed \<or> fst (snd u))
           in (if BecameZero then fst m else fst u # fst m, snd m)
      else let m = diffMerge es (r # rs) changed in (e # fst m, snd m))"

definition sbv_intersectWithComplement :: "bool \<Rightarrow> sbv \<Rightarrow> sbv \<Rightarrow> sbv \<times> bool" where
  "sbv_intersectWithComplement same s r =
     (if same then (if \<not> sbv_empty s then (sbv_clear s, True) else (s, False))
      else if s_elems s = [] \<or> s_elems r = [] then (s, False)
      else let (es, changed) = diffMerge (s_elems s) (s_elems r) False
           in (\<lparr>s_elems = es, s_cur = 0\<rparr>, changed))"

fun diff3Merge :: "sbv_elt list \<Rightarrow> sbv_elt list \<Rightarrow> sbv_elt list" where
  "diff3Merge as [] = as"
| "diff3Merge [] (b # bs) = []"
| "diff3Merge (a # as) (b # bs) =
     (if e_idx a > e_idx b then diff3Merge (a # as) bs
      else if e_idx a = e_idx b
      then let u = elt_intersectWithComplement3 (elt_new (e_idx a)) a b; BecameZero = snd u
           in (if BecameZero then [] else [fst u]) @ diff3Merge as bs
      else a # diff3Merge as (b # bs))"

text \<open>The iterator cached after \<open>Elements.clear()\<close> is the end iterator, and stays it while elements
  are appended.\<close>

definition sbv_intersectWithComplement3 :: "bool \<Rightarrow> bool \<Rightarrow> sbv \<Rightarrow> sbv \<Rightarrow> sbv \<Rightarrow> sbv" where
  "sbv_intersectWithComplement3 this_is_1 this_is_2 s r1 r2 =
     (if this_is_1 then fst (sbv_intersectWithComplement this_is_2 s r2)
      else let r2' = (if this_is_2 then sbv_copy r2 else r2);
               es = diff3Merge (s_elems r1) (s_elems r2')
           in \<lparr>s_elems = es, s_cur = length es\<rparr>)"

fun intersectsMerge :: "sbv_elt list \<Rightarrow> sbv_elt list \<Rightarrow> bool" where
  "intersectsMerge es [] = False"
| "intersectsMerge [] (r # rs) = False"
| "intersectsMerge (e # es) (r # rs) =
     (if e_idx e > e_idx r then intersectsMerge (e # es) rs
      else if e_idx e = e_idx r then (if elt_intersects e r then True else intersectsMerge es rs)
      else intersectsMerge es (r # rs))"

definition sbv_intersects :: "sbv \<Rightarrow> sbv \<Rightarrow> bool" where
  "sbv_intersects s r =
     (if s_elems s = [] \<and> s_elems r = [] then False else intersectsMerge (s_elems s) (s_elems r))"

definition sbv_contains :: "sbv \<Rightarrow> sbv \<Rightarrow> bool" where
  "sbv_contains s r = sbv_eq (fst (sbv_and False (sbv_copy s) r)) r"

text \<open>\<open>find_first\<close> and \<open>find_last\<close> return \<open>int\<close>; the unsigned sum is converted to it.\<close>

definition sbv_find_first :: "sbv \<Rightarrow> int option" where
  "sbv_find_first s =
     (case s_elems s of [] \<Rightarrow> Some (- 1)
      | e # es \<Rightarrow> map_option (\<lambda>p. to_s32 (to_u32 (int (e_idx e * 128 + p)))) (elt_find_first e))"

definition sbv_find_last :: "sbv \<Rightarrow> int option" where
  "sbv_find_last s =
     (if s_elems s = [] then Some (- 1)
      else let e = last (s_elems s)
           in map_option (\<lambda>p. to_s32 (to_u32 (int (e_idx e * 128 + p)))) (elt_find_last e))"

definition sbv_count :: "sbv \<Rightarrow> nat" where
  "sbv_count s = foldl (\<lambda>n e. to_u32 (int n + int (elt_count e))) 0 (s_elems s)"

definition sbv_union :: "sbv \<Rightarrow> sbv \<Rightarrow> sbv" where
  "sbv_union l r = fst (sbv_or False (sbv_copy l) r)"

definition sbv_inter :: "sbv \<Rightarrow> sbv \<Rightarrow> sbv" where
  "sbv_inter l r = fst (sbv_and False (sbv_copy l) r)"

definition sbv_minus :: "sbv \<Rightarrow> sbv \<Rightarrow> sbv" where
  "sbv_minus l r = sbv_intersectWithComplement3 False False sbv_new l r"

subsection \<open>The set represented\<close>

definition ebit :: "sbv_elt \<Rightarrow> nat \<Rightarrow> bool" where
  "ebit e b \<longleftrightarrow> e_idx e = b div 128 \<and> wbit (e_bits e) (b mod 128)"

definition mbit :: "sbv_elt list \<Rightarrow> nat \<Rightarrow> bool" where
  "mbit es b \<longleftrightarrow> (\<exists>e\<in>set es. ebit e b)"

definition elt_ok :: "sbv_elt \<Rightarrow> bool" where
  "elt_ok e \<longleftrightarrow> length (e_bits e) = 2 \<and> e_idx e < 2 ^ 25"

definition elems_ok :: "sbv_elt list \<Rightarrow> bool" where
  "elems_ok es \<longleftrightarrow> (\<forall>e\<in>set es. elt_ok e \<and> \<not> elt_empty e) \<and> sorted_wrt (\<lambda>a b. e_idx a < e_idx b) es"

definition sbv_bits :: "sbv \<Rightarrow> nat set" where
  "sbv_bits s = {b. mbit (s_elems s) b}"

definition sbv_inv :: "sbv \<Rightarrow> bool" where
  "sbv_inv s \<longleftrightarrow> elems_ok (s_elems s) \<and> (s_elems s = [] \<or> s_cur s \<le> length (s_elems s))"

lemma mbit_simps [simp]:
  "\<not> mbit [] b" "mbit (e # es) b \<longleftrightarrow> ebit e b \<or> mbit es b"
  "mbit (xs @ ys) b \<longleftrightarrow> mbit xs b \<or> mbit ys b"
  by (auto simp: mbit_def)

lemma elems_ok_simps [simp]:
  "elems_ok []"
  "elems_ok (e # es) \<longleftrightarrow> elt_ok e \<and> \<not> elt_empty e \<and> (\<forall>x\<in>set es. e_idx e < e_idx x) \<and> elems_ok es"
  by (auto simp: elems_ok_def)

lemma elems_ok_append:
  "elems_ok (xs @ ys) \<longleftrightarrow> elems_ok xs \<and> elems_ok ys \<and> (\<forall>x\<in>set xs. \<forall>y\<in>set ys. e_idx x < e_idx y)"
  by (auto simp: elems_ok_def sorted_wrt_append)

lemma mbit_idx: "mbit es b \<Longrightarrow> \<exists>e\<in>set es. e_idx e = b div 128"
  by (auto simp: mbit_def ebit_def)

lemma ebit_div: "ebit e b \<Longrightarrow> b div 128 = e_idx e"
  by (simp add: ebit_def)

lemma mbit_above: "\<forall>x\<in>set es. i < e_idx x \<Longrightarrow> b div 128 \<le> i \<Longrightarrow> \<not> mbit es b"
  using mbit_idx [of es b] by (metis leD)

lemma ebit_pos: "p < 128 \<Longrightarrow> ebit e (128 * e_idx e + p) \<longleftrightarrow> wbit (e_bits e) p"
  by (simp add: ebit_def)

lemma elt_nonempty: "elt_ok e \<Longrightarrow> \<not> elt_empty e \<longleftrightarrow> (\<exists>b. ebit e b)"
proof
  assume ok: "elt_ok e" and "\<not> elt_empty e"
  then obtain p where p: "wbit (e_bits e) p" by (auto simp: elt_empty_def all_zero_wbit)
  then have "p < 128" using wbit_lt [OF p] ok by (simp add: elt_ok_def)
  then show "\<exists>b. ebit e b" using p ebit_pos by blast
next
  assume "\<exists>b. ebit e b"
  then show "\<not> elt_empty e" by (auto simp: ebit_def elt_empty_def all_zero_wbit)
qed

lemma sbv_bits_lt:
  assumes "sbv_inv s" "b \<in> sbv_bits s"
  shows "b < 2 ^ 32"
proof -
  obtain e where "e \<in> set (s_elems s)" "e_idx e = b div 128"
    using assms(2) mbit_idx by (auto simp: sbv_bits_def)
  then have "b div 128 < 2 ^ 25" using assms(1) by (auto simp: sbv_inv_def elems_ok_def elt_ok_def)
  then show ?thesis by simp
qed

subsection \<open>Element operations\<close>

lemma wbit_map2:
  assumes "length rs = length ts" "\<And>(x :: u64) y j. j < 64 \<Longrightarrow> bit (f x y) j \<longleftrightarrow> Q (bit x j) (bit y j)"
    and "\<not> Q False False"
  shows "wbit (map2 f ts rs) p \<longleftrightarrow> Q (wbit ts p) (wbit rs p)"
  using assms(1)
proof (induction rs ts arbitrary: p rule: list_induct2)
  case (Cons r rs t ts)
  then show ?case using assms(2) by (simp add: wbit_Cons)
qed (use assms(3) in simp)

lemma wbit_map2_or: "length rs = length ts \<Longrightarrow> wbit (map2 (OR) ts rs) p \<longleftrightarrow> wbit ts p \<or> wbit rs p"
  by (rule wbit_map2 [where Q = "(\<or>)"]) auto

lemma wbit_map2_and: "length rs = length ts \<Longrightarrow> wbit (map2 (AND) ts rs) p \<longleftrightarrow> wbit ts p \<and> wbit rs p"
  by (rule wbit_map2 [where Q = "(\<and>)"]) auto

lemma wbit_map2_diff:
  "length rs = length ts \<Longrightarrow> wbit (map2 (\<lambda>x y. x AND NOT y) ts rs) p \<longleftrightarrow> wbit ts p \<and> \<not> wbit rs p"
  by (rule wbit_map2 [where Q = "\<lambda>a b. a \<and> \<not> b"]) auto

lemma unionWith_loop_eq:
  "length rs = length ts \<Longrightarrow>
   unionWith_loop ts rs ch = (map2 (OR) ts rs, ch \<or> map2 (OR) ts rs \<noteq> ts)"
proof (induction rs ts arbitrary: ch rule: list_induct2)
  case (Cons r rs t ts)
  then show ?case by (cases ch; cases "t OR r = t") (auto simp: Let_def)
qed simp

lemma intersectWith_loop_eq:
  "length rs = length ts \<Longrightarrow>
   intersectWith_loop ts rs ch az =
     (map2 (AND) ts rs, ch \<or> map2 (AND) ts rs \<noteq> ts, az \<and> list_all (\<lambda>w. w = 0) (map2 (AND) ts rs))"
proof (induction rs ts arbitrary: ch az rule: list_induct2)
  case (Cons r rs t ts)
  then show ?case by (cases ch; cases "t AND r = t"; cases "t AND r = 0") (auto simp: Let_def)
qed simp

lemma withComplement_loop_eq:
  fixes ts rs :: "u64 list"
  defines "m \<equiv> \<lambda>ts rs. map2 (\<lambda>x y :: u64. x AND NOT y) ts rs"
  shows "length rs = length ts \<Longrightarrow>
   withComplement_loop ts rs ch az = (m ts rs, ch \<or> m ts rs \<noteq> ts, az \<and> list_all (\<lambda>w. w = 0) (m ts rs))"
proof (induction rs ts arbitrary: ch az rule: list_induct2)
  case (Cons r rs t ts)
  then show ?case
    by (cases ch; cases "t AND NOT r = t"; cases "t AND NOT r = 0") (auto simp: Let_def m_def)
qed (simp add: m_def)

lemma complement3_loop_eq:
  "length bs = length as \<Longrightarrow>
   complement3_loop as bs az =
     (map2 (\<lambda>x y. x AND NOT y) as bs, az \<and> list_all (\<lambda>w. w = 0) (map2 (\<lambda>x y. x AND NOT y) as bs))"
proof (induction bs as arbitrary: az rule: list_induct2)
  case (Cons r rs t ts)
  then show ?case by (cases "t AND NOT r = 0") (auto simp: Let_def)
qed simp

lemma eltIntersects_loop_iff:
  "length rs = length ts \<Longrightarrow> eltIntersects_loop ts rs \<longleftrightarrow> (\<exists>p. wbit ts p \<and> wbit rs p)"
proof (induction ts rs rule: eltIntersects_loop.induct)
  case (1 t ts r rs)
  have "(\<exists>p. wbit (t # ts) p \<and> wbit (r # rs) p)
      \<longleftrightarrow> (\<exists>p<64. bit (r AND t) p) \<or> (\<exists>p\<ge>64. wbit ts (p - 64) \<and> wbit rs (p - 64))"
    by (auto simp: wbit_Cons not_less)
  also have "(\<exists>p\<ge>64. wbit ts (p - 64) \<and> wbit rs (p - 64)) \<longleftrightarrow> (\<exists>p. wbit ts p \<and> wbit rs p)"
    by (metis add_diff_cancel_right' le_add2)
  finally show ?case using 1 word_nonzero_bit [of "r AND t"] by auto
qed auto

text \<open>Two elements with the same index.\<close>

lemma ebit_ext:
  assumes "elt_ok a" "elt_ok b" "e_idx a = e_idx b" "\<And>x. ebit a x = ebit b x"
  shows "e_bits a = e_bits b"
proof (rule wbit_ext)
  show "length (e_bits a) = length (e_bits b)" using assms(1,2) by (simp add: elt_ok_def)
  show "wbit (e_bits a) p = wbit (e_bits b) p" for p
  proof (cases "p < 128")
    case True
    then show ?thesis using assms(3) assms(4) [of "128 * e_idx a + p"] by (simp add: ebit_pos) (simp add: ebit_def)
  next
    case False
    then show ?thesis using assms(1,2) by (auto simp: elt_ok_def dest!: wbit_lt)
  qed
qed

lemma elt_same_iff:
  "elt_ok e \<Longrightarrow> length ws = 2 \<Longrightarrow> ws \<noteq> e_bits e \<longleftrightarrow> (\<exists>b. ebit (e\<lparr>e_bits := ws\<rparr>) b \<noteq> ebit e b)"
proof
  assume ok: "elt_ok e" "length ws = 2" and ne: "ws \<noteq> e_bits e"
  have "elt_ok (e\<lparr>e_bits := ws\<rparr>)" using ok by (simp add: elt_ok_def)
  then show "\<exists>b. ebit (e\<lparr>e_bits := ws\<rparr>) b \<noteq> ebit e b"
    using ebit_ext [of "e\<lparr>e_bits := ws\<rparr>" e] ok(1) ne by auto
next
  assume "\<exists>b. ebit (e\<lparr>e_bits := ws\<rparr>) b \<noteq> ebit e b"
  then show "ws \<noteq> e_bits e" by auto
qed

lemma elt_unionWith_props:
  assumes "elt_ok e" "elt_ok r" "e_idx e = e_idx r"
  shows "e_idx (fst (elt_unionWith e r)) = e_idx e" "elt_ok (fst (elt_unionWith e r))"
    and "ebit (fst (elt_unionWith e r)) b \<longleftrightarrow> ebit e b \<or> ebit r b"
    and "snd (elt_unionWith e r) \<longleftrightarrow> (\<exists>b. ebit r b \<and> \<not> ebit e b)"
proof -
  let ?ws = "map2 (OR) (e_bits e) (e_bits r)"
  have len: "length (e_bits r) = length (e_bits e)" "length ?ws = 2" using assms by (simp_all add: elt_ok_def)
  have eq: "elt_unionWith e r = (e\<lparr>e_bits := ?ws\<rparr>, ?ws \<noteq> e_bits e)"
    by (simp add: elt_unionWith_def unionWith_loop_eq [OF len(1)])
  show "e_idx (fst (elt_unionWith e r)) = e_idx e" "elt_ok (fst (elt_unionWith e r))"
    using assms(1) len by (simp_all add: eq elt_ok_def)
  have bits: "ebit (fst (elt_unionWith e r)) b \<longleftrightarrow> ebit e b \<or> ebit r b" for b
    using assms(3) by (auto simp: eq ebit_def wbit_map2_or [OF len(1)])
  then show "ebit (fst (elt_unionWith e r)) b \<longleftrightarrow> ebit e b \<or> ebit r b" .
  show "snd (elt_unionWith e r) \<longleftrightarrow> (\<exists>b. ebit r b \<and> \<not> ebit e b)"
    using elt_same_iff [OF assms(1) len(2)] bits by (auto simp: eq)
qed

lemma elt_intersectWith_props:
  assumes "elt_ok e" "elt_ok r" "e_idx e = e_idx r"
  shows "e_idx (fst (elt_intersectWith e r)) = e_idx e" "elt_ok (fst (elt_intersectWith e r))"
    and "ebit (fst (elt_intersectWith e r)) b \<longleftrightarrow> ebit e b \<and> ebit r b"
    and "fst (snd (elt_intersectWith e r)) \<longleftrightarrow> (\<exists>b. ebit e b \<and> \<not> ebit r b)"
    and "snd (snd (elt_intersectWith e r)) \<longleftrightarrow> elt_empty (fst (elt_intersectWith e r))"
proof -
  let ?ws = "map2 (AND) (e_bits e) (e_bits r)"
  have len: "length (e_bits r) = length (e_bits e)" "length ?ws = 2" using assms by (simp_all add: elt_ok_def)
  have eq: "elt_intersectWith e r = (e\<lparr>e_bits := ?ws\<rparr>, ?ws \<noteq> e_bits e, list_all (\<lambda>w. w = 0) ?ws)"
    by (simp add: elt_intersectWith_def intersectWith_loop_eq [OF len(1)])
  show "e_idx (fst (elt_intersectWith e r)) = e_idx e" "elt_ok (fst (elt_intersectWith e r))"
    using assms(1) len by (simp_all add: eq elt_ok_def)
  have bits: "ebit (fst (elt_intersectWith e r)) b \<longleftrightarrow> ebit e b \<and> ebit r b" for b
    using assms(3) by (auto simp: eq ebit_def wbit_map2_and [OF len(1)])
  then show "ebit (fst (elt_intersectWith e r)) b \<longleftrightarrow> ebit e b \<and> ebit r b" .
  show "fst (snd (elt_intersectWith e r)) \<longleftrightarrow> (\<exists>b. ebit e b \<and> \<not> ebit r b)"
    using elt_same_iff [OF assms(1) len(2)] bits by (auto simp: eq)
  show "snd (snd (elt_intersectWith e r)) \<longleftrightarrow> elt_empty (fst (elt_intersectWith e r))"
    by (simp add: eq elt_empty_def)
qed

lemma elt_withComplement_props:
  assumes "elt_ok e" "elt_ok r" "e_idx e = e_idx r"
  shows "e_idx (fst (elt_intersectWithComplement e r)) = e_idx e"
    "elt_ok (fst (elt_intersectWithComplement e r))"
    and "ebit (fst (elt_intersectWithComplement e r)) b \<longleftrightarrow> ebit e b \<and> \<not> ebit r b"
    and "fst (snd (elt_intersectWithComplement e r)) \<longleftrightarrow> (\<exists>b. ebit e b \<and> ebit r b)"
    and "snd (snd (elt_intersectWithComplement e r)) \<longleftrightarrow> elt_empty (fst (elt_intersectWithComplement e r))"
proof -
  let ?ws = "map2 (\<lambda>x y. x AND NOT y) (e_bits e) (e_bits r)"
  have len: "length (e_bits r) = length (e_bits e)" "length ?ws = 2" using assms by (simp_all add: elt_ok_def)
  have eq: "elt_intersectWithComplement e r
      = (e\<lparr>e_bits := ?ws\<rparr>, ?ws \<noteq> e_bits e, list_all (\<lambda>w. w = 0) ?ws)"
    by (simp add: elt_intersectWithComplement_def withComplement_loop_eq [OF len(1)])
  show "e_idx (fst (elt_intersectWithComplement e r)) = e_idx e"
    "elt_ok (fst (elt_intersectWithComplement e r))"
    using assms(1) len by (simp_all add: eq elt_ok_def)
  have bits: "ebit (fst (elt_intersectWithComplement e r)) b \<longleftrightarrow> ebit e b \<and> \<not> ebit r b" for b
    using assms(3) by (auto simp: eq ebit_def wbit_map2_diff [OF len(1)])
  then show "ebit (fst (elt_intersectWithComplement e r)) b \<longleftrightarrow> ebit e b \<and> \<not> ebit r b" .
  show "fst (snd (elt_intersectWithComplement e r)) \<longleftrightarrow> (\<exists>b. ebit e b \<and> ebit r b)"
    using elt_same_iff [OF assms(1) len(2)] bits by (auto simp: eq)
  show "snd (snd (elt_intersectWithComplement e r)) \<longleftrightarrow> elt_empty (fst (elt_intersectWithComplement e r))"
    by (simp add: eq elt_empty_def)
qed

lemma elt_intersects_iff:
  assumes "elt_ok e" "elt_ok r" "e_idx e = e_idx r"
  shows "elt_intersects e r \<longleftrightarrow> (\<exists>b. ebit e b \<and> ebit r b)"
proof -
  have len: "length (e_bits r) = length (e_bits e)" "length (e_bits e) = 2"
    using assms by (simp_all add: elt_ok_def)
  have "(\<exists>b. ebit e b \<and> ebit r b) \<longleftrightarrow> (\<exists>p. wbit (e_bits e) p \<and> wbit (e_bits r) p)"
  proof
    assume "\<exists>p. wbit (e_bits e) p \<and> wbit (e_bits r) p"
    then obtain p where p: "wbit (e_bits e) p" "wbit (e_bits r) p" by blast
    then have "p < 128" using len by (auto dest: wbit_lt)
    then show "\<exists>b. ebit e b \<and> ebit r b" using p ebit_pos [of p e] ebit_pos [of p r] assms(3) by auto
  qed (auto simp: ebit_def)
  then show ?thesis by (simp add: elt_intersects_def eltIntersects_loop_iff [OF len(1)])
qed


subsection \<open>The merge loops\<close>

lemma has_bit: "elt_ok e \<Longrightarrow> \<not> elt_empty e \<Longrightarrow> \<exists>b. ebit e b"
  by (simp add: elt_nonempty)

text \<open>An element whose index is below all those of a list shares nothing with it.\<close>

lemma ebit_not_mbit: "ebit e b \<Longrightarrow> \<forall>x\<in>set es. e_idx e < e_idx x \<Longrightarrow> \<not> mbit es b"
  by (metis ebit_div mbit_above order_refl)

lemma ebit_ebit: "ebit e b \<Longrightarrow> ebit r b \<Longrightarrow> e_idx e = e_idx r"
  by (metis ebit_div)

text \<open>The induction all merges share: two sorted lists, compared at their heads.\<close>

lemma merge_induct [consumes 2, case_names rnil lnil gt eq lt]:
  assumes "elems_ok es" "elems_ok rs"
    and rnil: "\<And>es. elems_ok es \<Longrightarrow> P es []"
    and lnil: "\<And>r rs. elems_ok (r # rs) \<Longrightarrow> P [] rs \<Longrightarrow> P [] (r # rs)"
    and hgt: "\<And>e es r rs. elems_ok (e # es) \<Longrightarrow> elems_ok (r # rs) \<Longrightarrow> e_idx r < e_idx e \<Longrightarrow>
      \<forall>x\<in>set es. e_idx r < e_idx x \<Longrightarrow> \<forall>b. ebit r b \<longrightarrow> \<not> ebit e b \<and> \<not> mbit es b \<Longrightarrow>
      P (e # es) rs \<Longrightarrow> P (e # es) (r # rs)"
    and heq: "\<And>e es r rs. elems_ok (e # es) \<Longrightarrow> elems_ok (r # rs) \<Longrightarrow> e_idx e = e_idx r \<Longrightarrow>
      \<forall>b. ebit r b \<or> ebit e b \<longrightarrow> \<not> mbit es b \<and> \<not> mbit rs b \<Longrightarrow>
      P es rs \<Longrightarrow> P (e # es) (r # rs)"
    and hlt: "\<And>e es r rs. elems_ok (e # es) \<Longrightarrow> elems_ok (r # rs) \<Longrightarrow> e_idx e < e_idx r \<Longrightarrow>
      \<forall>x\<in>set rs. e_idx e < e_idx x \<Longrightarrow> \<forall>b. ebit e b \<longrightarrow> \<not> ebit r b \<and> \<not> mbit rs b \<Longrightarrow>
      P es (r # rs) \<Longrightarrow> P (e # es) (r # rs)"
  shows "P es rs"
  using assms(1,2)
proof (induction "length es + length rs" arbitrary: es rs rule: less_induct)
  case less
  show ?case
  proof (cases rs)
    case Nil
    then show ?thesis using rnil less.prems by simp
  next
    case rs: (Cons r rs')
    show ?thesis
    proof (cases es)
      case Nil
      then show ?thesis using lnil less rs by simp
    next
      case es: (Cons e es')
      note ok = less.prems [unfolded rs es]
      consider (gt) "e_idx r < e_idx e" | (eq) "e_idx e = e_idx r" | (lt) "e_idx e < e_idx r" by linarith
      then show ?thesis
      proof cases
        case gt
        then have a: "\<forall>x\<in>set es'. e_idx r < e_idx x" using ok by fastforce
        have b: "\<forall>b. ebit r b \<longrightarrow> \<not> ebit e b \<and> \<not> mbit es' b"
          using gt a ebit_not_mbit [of r _ es'] ebit_ebit [of r _ e] by auto
        have "P (e # es') rs'" using less.hyps [of "e # es'" rs'] ok rs es by simp
        then show ?thesis unfolding rs es by (rule hgt [OF ok gt a b])
      next
        case eq
        have b: "\<forall>b. ebit r b \<or> ebit e b \<longrightarrow> \<not> mbit es' b \<and> \<not> mbit rs' b"
          using eq ok ebit_not_mbit [of r _ es'] ebit_not_mbit [of r _ rs']
            ebit_not_mbit [of e _ es'] ebit_not_mbit [of e _ rs'] by auto
        have "P es' rs'" using less.hyps [of es' rs'] ok rs es by simp
        then show ?thesis unfolding rs es by (rule heq [OF ok eq b])
      next
        case lt
        then have a: "\<forall>x\<in>set rs'. e_idx e < e_idx x" using ok by fastforce
        have b: "\<forall>b. ebit e b \<longrightarrow> \<not> ebit r b \<and> \<not> mbit rs' b"
          using lt a ebit_not_mbit [of e _ rs'] ebit_ebit [of e _ r] by auto
        have "P es' (r # rs')" using less.hyps [of es' "r # rs'"] ok rs es by simp
        then show ?thesis unfolding rs es by (rule hlt [OF ok lt a b])
      qed
    qed
  qed
qed

lemma elt_unionWith_nonempty:
  "elt_ok e \<Longrightarrow> elt_ok r \<Longrightarrow> e_idx e = e_idx r \<Longrightarrow> \<not> elt_empty e \<Longrightarrow> \<not> elt_empty (fst (elt_unionWith e r))"
  using elt_nonempty elt_unionWith_props by metis

lemma all_idx: "(\<forall>x\<in>set xs. P (e_idx x)) \<longleftrightarrow> (\<forall>j\<in>e_idx ` set xs. P j)"
  by simp

lemma orMerge_props:
  assumes "elems_ok es" "elems_ok rs"
  shows orMerge_mbit: "mbit (fst (orMerge es rs ch)) b \<longleftrightarrow> mbit es b \<or> mbit rs b"
    and orMerge_idx: "e_idx ` set (fst (orMerge es rs ch)) = e_idx ` set es \<union> e_idx ` set rs"
  using assms
  by (induction es rs arbitrary: ch rule: merge_induct) (auto simp: Let_def elt_unionWith_props(1-3))

lemma orMerge_above:
  "elems_ok es \<Longrightarrow> elems_ok rs \<Longrightarrow>
   (\<forall>x\<in>set (fst (orMerge es rs ch)). i < e_idx x) \<longleftrightarrow> (\<forall>x\<in>set es. i < e_idx x) \<and> (\<forall>x\<in>set rs. i < e_idx x)"
  by (subst all_idx, subst orMerge_idx) auto

lemma orMerge_ok: "elems_ok es \<Longrightarrow> elems_ok rs \<Longrightarrow> elems_ok (fst (orMerge es rs ch))"
  by (induction es rs arbitrary: ch rule: merge_induct)
    (simp_all add: Let_def orMerge_above elt_unionWith_props(1-3) elt_unionWith_nonempty)

lemma orMerge_flag:
  "elems_ok es \<Longrightarrow> elems_ok rs \<Longrightarrow>
   snd (orMerge es rs ch) \<longleftrightarrow> ch \<or> (\<exists>b. mbit rs b \<and> \<not> mbit es b)"
proof (induction es rs arbitrary: ch rule: merge_induct)
  case (lnil r rs)
  then show ?case using has_bit [of r] by (auto simp: Let_def)
next
  case (gt e es r rs)
  obtain b where "ebit r b" using has_bit gt(2) by auto
  then have "mbit (r # rs) b \<and> \<not> mbit (e # es) b" using gt(5) by simp
  then show ?case using gt(3,6) by (auto simp: Let_def)
next
  case (eq e es r rs)
  have "mbit (r # rs) b \<and> \<not> mbit (e # es) b \<longleftrightarrow> (ebit r b \<and> \<not> ebit e b) \<or> (mbit rs b \<and> \<not> mbit es b)" for b
    using eq(4) by auto
  then show ?case using eq by (auto simp: Let_def elt_unionWith_props(4))
next
  case (lt e es r rs)
  have "mbit (r # rs) b \<and> \<not> mbit (e # es) b \<longleftrightarrow> mbit (r # rs) b \<and> \<not> mbit es b" for b
    using lt(5) by auto
  then show ?case using lt(3,6) by (simp add: Let_def)
qed simp

lemma elt_zero_iff:
  assumes "elt_ok e" "elt_ok r" "e_idx e = e_idx r"
  shows "snd (snd (elt_intersectWith e r)) \<longleftrightarrow> (\<forall>b. \<not> (ebit e b \<and> ebit r b))"
    and "snd (snd (elt_intersectWithComplement e r)) \<longleftrightarrow> (\<forall>b. \<not> (ebit e b \<and> \<not> ebit r b))"
  using elt_intersectWith_props [OF assms] elt_withComplement_props [OF assms] elt_nonempty by metis+

lemma andMerge_idx:
  "elems_ok es \<Longrightarrow> elems_ok rs \<Longrightarrow> e_idx ` set (fst (andMerge es rs ch)) \<subseteq> e_idx ` set es"
  by (induction es rs arbitrary: ch rule: merge_induct)
    (simp_all add: Let_def elt_intersectWith_props(1) le_supI1 subset_insertI2 insert_mono)

lemma andMerge_above:
  assumes "elems_ok es" "elems_ok rs" "\<forall>x\<in>set es. i < e_idx x"
  shows "\<forall>x\<in>set (fst (andMerge es rs ch)). i < e_idx x"
proof
  fix x assume "x \<in> set (fst (andMerge es rs ch))"
  then have "e_idx x \<in> e_idx ` set es" using andMerge_idx [OF assms(1,2)] by blast
  then show "i < e_idx x" using assms(3) by auto
qed

lemma andMerge_mbit:
  "elems_ok es \<Longrightarrow> elems_ok rs \<Longrightarrow> mbit (fst (andMerge es rs ch)) b \<longleftrightarrow> mbit es b \<and> mbit rs b"
proof (induction es rs arbitrary: ch rule: merge_induct)
  case (eq e es r rs)
  have "snd (snd (elt_intersectWith e r)) \<longrightarrow> \<not> (ebit e b \<and> ebit r b)"
    using eq(1-3) elt_zero_iff(1) [of e r] by simp
  moreover have "elt_ok e" "elt_ok r" "ebit r b \<or> ebit e b \<longrightarrow> \<not> mbit es b \<and> \<not> mbit rs b"
    using eq(1,2,4) by auto
  ultimately show ?case
    using eq(3,5) elt_intersectWith_props(3) [of e r b] by (cases "ebit e b"; cases "ebit r b"; simp add: Let_def eq(1,2))
qed auto

lemma andMerge_ok: "elems_ok es \<Longrightarrow> elems_ok rs \<Longrightarrow> elems_ok (fst (andMerge es rs ch))"
proof (induction es rs arbitrary: ch rule: merge_induct)
  case (eq e es r rs)
  let ?c = "ch \<or> fst (snd (elt_intersectWith e r))"
  have "\<forall>x\<in>set (fst (andMerge es rs ?c)). e_idx e < e_idx x"
    by (rule andMerge_above) (use eq(1,2) in simp_all)
  then show ?case using eq by (simp add: Let_def elt_intersectWith_props(1,2,5))
qed simp_all

lemma andMerge_flag:
  "elems_ok es \<Longrightarrow> elems_ok rs \<Longrightarrow>
   snd (andMerge es rs ch) \<longleftrightarrow> ch \<or> (\<exists>b. mbit es b \<and> \<not> mbit rs b)"
proof (induction es rs arbitrary: ch rule: merge_induct)
  case (rnil es)
  then show ?case using has_bit by (cases es) auto
next
  case (gt e es r rs)
  have "mbit (e # es) b \<and> \<not> mbit (r # rs) b \<longleftrightarrow> mbit (e # es) b \<and> \<not> mbit rs b" for b
    using gt(5) by auto
  then show ?case using gt(3,6) by simp
next
  case (eq e es r rs)
  have "mbit (e # es) b \<and> \<not> mbit (r # rs) b \<longleftrightarrow> (ebit e b \<and> \<not> ebit r b) \<or> (mbit es b \<and> \<not> mbit rs b)" for b
    using eq(4) by auto
  then show ?case using eq by (auto simp: Let_def elt_intersectWith_props(4))
next
  case (lt e es r rs)
  obtain b where "ebit e b" using has_bit lt(1) by auto
  then have "mbit (e # es) b \<and> \<not> mbit (r # rs) b" using lt(5) by simp
  then show ?case using lt(3,6) by auto
qed simp

lemma diffMerge_idx:
  "elems_ok es \<Longrightarrow> elems_ok rs \<Longrightarrow> e_idx ` set (fst (diffMerge es rs ch)) \<subseteq> e_idx ` set es"
  by (induction es rs arbitrary: ch rule: merge_induct)
    (simp_all add: Let_def elt_withComplement_props(1) le_supI1 subset_insertI2 insert_mono)

lemma diffMerge_above:
  assumes "elems_ok es" "elems_ok rs" "\<forall>x\<in>set es. i < e_idx x"
  shows "\<forall>x\<in>set (fst (diffMerge es rs ch)). i < e_idx x"
proof
  fix x assume "x \<in> set (fst (diffMerge es rs ch))"
  then have "e_idx x \<in> e_idx ` set es" using diffMerge_idx [OF assms(1,2)] by blast
  then show "i < e_idx x" using assms(3) by auto
qed

lemma diffMerge_mbit:
  "elems_ok es \<Longrightarrow> elems_ok rs \<Longrightarrow> mbit (fst (diffMerge es rs ch)) b \<longleftrightarrow> mbit es b \<and> \<not> mbit rs b"
proof (induction es rs arbitrary: ch rule: merge_induct)
  case (eq e es r rs)
  have "snd (snd (elt_intersectWithComplement e r)) \<longrightarrow> \<not> (ebit e b \<and> \<not> ebit r b)"
    using eq(1-3) elt_zero_iff(2) [of e r] by simp
  moreover have "elt_ok e" "elt_ok r" "ebit r b \<or> ebit e b \<longrightarrow> \<not> mbit es b \<and> \<not> mbit rs b"
    using eq(1,2,4) by auto
  ultimately show ?case
    using eq(3,5) elt_withComplement_props(3) [of e r b] by (cases "ebit e b"; cases "ebit r b"; simp add: Let_def eq(1,2))
qed (auto simp: Let_def)

lemma diffMerge_ok: "elems_ok es \<Longrightarrow> elems_ok rs \<Longrightarrow> elems_ok (fst (diffMerge es rs ch))"
proof (induction es rs arbitrary: ch rule: merge_induct)
  case (eq e es r rs)
  let ?c = "ch \<or> fst (snd (elt_intersectWithComplement e r))"
  have "\<forall>x\<in>set (fst (diffMerge es rs ?c)). e_idx e < e_idx x"
    by (rule diffMerge_above) (use eq(1,2) in simp_all)
  then show ?case using eq by (simp add: Let_def elt_withComplement_props(1,2,5))
next
  case (lt e es r rs)
  have "\<forall>x\<in>set (fst (diffMerge es (r # rs) ch)). e_idx e < e_idx x"
    by (rule diffMerge_above) (use lt(1,2) in simp_all)
  then show ?case using lt by (simp add: Let_def)
qed simp_all

lemma diffMerge_flag:
  "elems_ok es \<Longrightarrow> elems_ok rs \<Longrightarrow>
   snd (diffMerge es rs ch) \<longleftrightarrow> ch \<or> (\<exists>b. mbit es b \<and> mbit rs b)"
proof (induction es rs arbitrary: ch rule: merge_induct)
  case (gt e es r rs)
  have "mbit (e # es) b \<and> mbit (r # rs) b \<longleftrightarrow> mbit (e # es) b \<and> mbit rs b" for b
    using gt(5) by auto
  then show ?case using gt(3,6) by simp
next
  case (eq e es r rs)
  have "mbit (e # es) b \<and> mbit (r # rs) b \<longleftrightarrow> (ebit e b \<and> ebit r b) \<or> (mbit es b \<and> mbit rs b)" for b
    using eq(4) by auto
  then show ?case using eq by (auto simp: Let_def elt_withComplement_props(4))
next
  case (lt e es r rs)
  have "mbit (e # es) b \<and> mbit (r # rs) b \<longleftrightarrow> mbit es b \<and> mbit (r # rs) b" for b
    using lt(5) by auto
  then show ?case using lt(3,6) by (simp add: Let_def)
qed simp_all

text \<open>The three-operand difference computes the elements of the two-operand one.\<close>

lemma elt_complement3_eq:
  assumes "elt_ok a" "elt_ok b" "e_idx a = i"
  shows "fst (elt_intersectWithComplement3 (elt_new i) a b) = fst (elt_intersectWithComplement a b)"
    and "snd (elt_intersectWithComplement3 (elt_new i) a b) = snd (snd (elt_intersectWithComplement a b))"
proof -
  have len: "length (e_bits b) = length (e_bits a)" using assms by (simp add: elt_ok_def)
  show "fst (elt_intersectWithComplement3 (elt_new i) a b) = fst (elt_intersectWithComplement a b)"
    "snd (elt_intersectWithComplement3 (elt_new i) a b) = snd (snd (elt_intersectWithComplement a b))"
    using assms(3) by (simp_all add: elt_intersectWithComplement3_def elt_intersectWithComplement_def
        elt_new_def complement3_loop_eq [OF len] withComplement_loop_eq [OF len])
qed

lemma diff3Merge_eq: "elems_ok es \<Longrightarrow> elems_ok rs \<Longrightarrow> diff3Merge es rs = fst (diffMerge es rs ch)"
  by (induction es rs arbitrary: ch rule: merge_induct) (simp_all add: Let_def elt_complement3_eq)

lemma intersectsMerge_iff:
  "elems_ok es \<Longrightarrow> elems_ok rs \<Longrightarrow> intersectsMerge es rs \<longleftrightarrow> (\<exists>b. mbit es b \<and> mbit rs b)"
proof (induction es rs rule: merge_induct)
  case (eq e es r rs)
  have "mbit (e # es) b \<and> mbit (r # rs) b \<longleftrightarrow> (ebit e b \<and> ebit r b) \<or> (mbit es b \<and> mbit rs b)" for b
    using eq(4) by auto
  then show ?case using eq by (auto simp: elt_intersects_iff)
next
  case (gt e es r rs)
  then show ?case by auto
next
  case (lt e es r rs)
  then show ?case by auto
qed simp_all

subsection \<open>Searching, testing, setting and resetting\<close>

lemma elems_ok_mono: "elems_ok es \<Longrightarrow> j < k \<Longrightarrow> k < length es \<Longrightarrow> e_idx (es ! j) < e_idx (es ! k)"
  using sorted_wrt_nth_less [of "\<lambda>a b. e_idx a < e_idx b" es j k] by (simp add: elems_ok_def)

lemma lowerBack_stop: "e_idx (es ! p) \<le> i \<Longrightarrow> lowerBack es i p = p"
  by (cases p) auto

lemma lowerBack_props:
  assumes "e_idx (es ! cur) > i"
  shows "lowerBack es i cur \<le> cur"
    and "\<forall>j. lowerBack es i cur < j \<and> j \<le> cur \<longrightarrow> i < e_idx (es ! j)"
    and "e_idx (es ! lowerBack es i cur) \<le> i \<or> lowerBack es i cur = 0 \<and> i < e_idx (es ! 0)"
  using assms
proof (induction cur)
  case (Suc p)
  {
    case 1
    then show ?case using Suc(1) by (cases "i < e_idx (es ! p)") (auto simp: not_less lowerBack_stop)
  next
    case 2
    then show ?case using Suc(2) by (cases "i < e_idx (es ! p)") (auto simp: le_Suc_eq not_less lowerBack_stop)
  next
    case 3
    then show ?case using Suc(3) by (cases "i < e_idx (es ! p)") (auto simp: not_less lowerBack_stop)
  }
qed simp_all

lemma lowerForward_props:
  assumes "cur \<le> length es" "\<forall>j<cur. e_idx (es ! j) < i"
  shows "lowerForward es i cur \<le> length es \<and> (\<forall>j<lowerForward es i cur. e_idx (es ! j) < i)
    \<and> (lowerForward es i cur < length es \<longrightarrow> i \<le> e_idx (es ! lowerForward es i cur))"
  using assms
proof (induction es i cur rule: lowerForward.induct)
  case (1 es i p)
  then show ?case
    by (cases "p < length es \<and> e_idx (es ! p) < i")
      (auto simp: lowerForward.simps [of es i p] less_Suc_eq)
qed

text \<open>Where the search stops, and the split of the list it stands for.\<close>

lemma lower_bound_split:
  assumes ok: "elems_ok es" and q: "q \<le> length es" "\<forall>j<q. e_idx (es ! j) < i"
    "q < length es \<longrightarrow> i \<le> e_idx (es ! q)"
  shows "\<forall>x\<in>set (take q es). e_idx x < i" and "\<forall>x\<in>set (drop q es). i \<le> e_idx x"
    and "q < length es \<Longrightarrow> \<forall>x\<in>set (drop (Suc q) es). i < e_idx x"
proof -
  have above: "i < e_idx (es ! k)" if "q < k" "k < length es" for k
    using elems_ok_mono [OF ok that] q(3) that by simp
  show "\<forall>x\<in>set (take q es). e_idx x < i" using q(1,2) by (auto simp: in_set_conv_nth)
  show "\<forall>x\<in>set (drop (Suc q) es). i < e_idx x"
    using above by (auto simp: in_set_conv_nth)
  show "\<forall>x\<in>set (drop q es). i \<le> e_idx x"
  proof
    fix x assume "x \<in> set (drop q es)"
    then obtain k where k: "q + k < length es" "x = es ! (q + k)"
      by (auto simp: in_set_conv_nth) (metis less_diff_conv add.commute)
    then show "i \<le> e_idx x" using above [of "q + k"] q(3) by (cases k) auto
  qed
qed

definition lb_at :: "sbv_elt list \<Rightarrow> nat \<Rightarrow> nat \<Rightarrow> nat" where
  "lb_at es i p = (if p \<noteq> length es \<and> e_idx (es ! p) < i then p + 1 else p)"

lemma findLowerBound_props:
  fixes s i
  assumes "sbv_inv s" "s_elems s \<noteq> []"
  defines "p \<equiv> sbv_findLowerBound s i" and "es \<equiv> s_elems s"
  shows "p \<le> length es" and "lb_at es i p \<le> length es" "\<forall>j<lb_at es i p. e_idx (es ! j) < i"
    "lb_at es i p < length es \<longrightarrow> i \<le> e_idx (es ! lb_at es i p)"
    "lb_at es i p < length es \<longrightarrow> lb_at es i p \<noteq> p \<longrightarrow> i < e_idx (es ! lb_at es i p)"
proof -
  let ?cur = "if s_cur s = length es then s_cur s - 1 else s_cur s"
  have cur: "?cur < length es" and ok: "elems_ok es"
    using assms(1,2) by (cases es; auto simp: sbv_inv_def es_def)+
  have ne: "es \<noteq> []" using assms(2) by (simp add: es_def)
  have p: "p = (if e_idx (es ! ?cur) = i then ?cur
              else if e_idx (es ! ?cur) > i then lowerBack es i ?cur else lowerForward es i ?cur)"
    using assms(2) by (simp add: p_def es_def sbv_findLowerBound_def Let_def)
  have mono: "\<And>j k. j < k \<Longrightarrow> k < length es \<Longrightarrow> e_idx (es ! j) < e_idx (es ! k)"
    using elems_ok_mono [OF ok] .
  define c where "c = ?cur"
  note cur = cur [folded c_def] and p = p [folded c_def]
  consider (eq) "e_idx (es ! c) = i" | (above) "e_idx (es ! c) > i" | (fwd) "e_idx (es ! c) < i" by linarith
  then have "p \<le> length es \<and> lb_at es i p \<le> length es \<and> (\<forall>j<lb_at es i p. e_idx (es ! j) < i)
    \<and> (lb_at es i p < length es \<longrightarrow> i \<le> e_idx (es ! lb_at es i p))
    \<and> (lb_at es i p < length es \<longrightarrow> lb_at es i p \<noteq> p \<longrightarrow> i < e_idx (es ! lb_at es i p))"
  proof cases
    case eq
    then show ?thesis using p cur mono by (auto simp: lb_at_def)
  next
    case above
    then have pb: "p = lowerBack es i c" using p by simp
    note lb = lowerBack_props [OF above, folded pb]
    have up: "i < e_idx (es ! j)" if "p < j" "j < length es" for j
      using lb(2) mono [of c j] above that by (cases "j \<le> c") fastforce+
    show ?thesis
    proof (cases "e_idx (es ! p) < i")
      case True
      then have "\<forall>j<p + 1. e_idx (es ! j) < i"
        using mono [of _ p] lb(1) cur by (metis Suc_eq_plus1 le_less_trans less_Suc_eq less_trans)
      then show ?thesis using True lb(1) cur up [of "p + 1"] by (auto simp: lb_at_def)
    next
      case False
      then have "\<forall>j<p. e_idx (es ! j) < i"
        using mono [of _ p] lb(1,3) cur by (metis le_antisym le_less_trans less_nat_zero_code not_less)
      then show ?thesis using False lb(1) cur by (auto simp: lb_at_def)
    qed
  next
    case fwd
    then have pf: "p = lowerForward es i c" using p by simp
    have "\<forall>j<c. e_idx (es ! j) < i" using mono [of _ c] cur fwd by (meson less_trans)
    then have "p \<le> length es \<and> (\<forall>j<p. e_idx (es ! j) < i) \<and> (p < length es \<longrightarrow> i \<le> e_idx (es ! p))"
      using lowerForward_props [of c es i, folded pf] cur by simp
    then show ?thesis by (auto simp: lb_at_def)
  qed
  then show "p \<le> length es" "lb_at es i p \<le> length es" "\<forall>j<lb_at es i p. e_idx (es ! j) < i"
    "lb_at es i p < length es \<longrightarrow> i \<le> e_idx (es ! lb_at es i p)"
    "lb_at es i p < length es \<longrightarrow> lb_at es i p \<noteq> p \<longrightarrow> i < e_idx (es ! lb_at es i p)" by blast+
qed

lemma findLowerBound_cases:
  assumes "sbv_inv s" "s_elems s \<noteq> []"
  obtains (found) xs e ys where "s_elems s = xs @ e # ys" "sbv_findLowerBound s i = length xs" "e_idx e = i"
      "\<forall>x\<in>set xs. e_idx x < i" "\<forall>x\<in>set ys. i < e_idx x"
  | (absent) xs ys where "s_elems s = xs @ ys" "\<forall>x\<in>set xs. e_idx x < i" "\<forall>x\<in>set ys. i < e_idx x"
      "sbv_findLowerBound s i \<le> length (s_elems s)"
      "sbv_findLowerBound s i = length (s_elems s) \<or> e_idx (s_elems s ! sbv_findLowerBound s i) \<noteq> i"
      "lb_at (s_elems s) i (sbv_findLowerBound s i) = length xs"
proof -
  let ?es = "s_elems s" and ?p = "sbv_findLowerBound s i"
  let ?q = "lb_at ?es i ?p"
  have ok: "elems_ok ?es" using assms(1) by (simp add: sbv_inv_def)
  note props = findLowerBound_props [OF assms, of i]
  note split = lower_bound_split [OF ok props(2-4)]
  show ?thesis
  proof (cases "?p < length ?es \<and> e_idx (?es ! ?p) = i")
    case True
    then have q: "?q = ?p" by (simp add: lb_at_def)
    have "?es = take ?p ?es @ ?es ! ?p # drop (Suc ?p) ?es" using True by (simp add: id_take_nth_drop)
    then show ?thesis using found True split(1,3) q by (metis length_take min.absorb2 props(1))
  next
    case False
    have abs: "?p = length ?es \<or> e_idx (?es ! ?p) \<noteq> i" using False props(1) by linarith
    have "i < e_idx (?es ! ?q)" if "?q < length ?es"
      using that abs props(4,5) by (cases "?q = ?p") auto
    then have "i < e_idx x" if "x \<in> set (drop ?q ?es)" for x
      using that split(3) by (cases "?q < length ?es") (auto simp: drop_nth_cons)
    then show ?thesis
      using absent [of "take ?q ?es" "drop ?q ?es"] split(1) props(1,2) abs by simp
  qed
qed


text \<open>The element operations at a position below 128.\<close>

lemma elt_test_iff: "elt_ok e \<Longrightarrow> e_idx e = b div 128 \<Longrightarrow> elt_test e (b mod 128) \<longleftrightarrow> ebit e b"
  by (simp add: elt_test_def and_mask_nonzero' ebit_def wbit_def elt_ok_def less_mult_imp_div_less)

lemma pos64: "m < 64 \<Longrightarrow> p = 64 * k + m \<longleftrightarrow> p div 64 = k \<and> p mod 64 = (m :: nat)"
  by (metis div64 mod64 mult_div_mod_eq)

lemma wbit_word: "k < length ws \<Longrightarrow> p div 64 = k \<Longrightarrow> wbit ws p \<longleftrightarrow> bit (ws ! k) (p mod 64)"
  by (auto simp: wbit_def)

lemma wbit_set:
  "k < length ws \<Longrightarrow> m < 64 \<Longrightarrow> wbit (ws[k := (ws ! k) OR wmask m]) p \<longleftrightarrow> wbit ws p \<or> p = 64 * k + m"
  by (cases "p div 64 = k") (auto simp: wbit_update pos64 wbit_word)

lemma wbit_reset:
  "k < length ws \<Longrightarrow> m < 64 \<Longrightarrow> wbit (ws[k := (ws ! k) AND NOT (wmask m)]) p \<longleftrightarrow> wbit ws p \<and> p \<noteq> 64 * k + m"
  by (cases "p div 64 = k") (auto simp: wbit_update pos64 wbit_word)

lemma mod128_split: "(x mod 128 = 64 * (b mod 128 div 64) + b mod 128 mod 64) \<and> c = b div 128 \<and> c = x div 128
    \<longleftrightarrow> x = (b :: nat) \<and> c = b div 128"
  by (metis mult_div_mod_eq)

lemma elt_set_props:
  assumes "elt_ok e" "e_idx e = b div 128"
  shows "e_idx (elt_set e (b mod 128)) = e_idx e" "elt_ok (elt_set e (b mod 128))"
    and "ebit (elt_set e (b mod 128)) x \<longleftrightarrow> ebit e x \<or> x = b"
    and "\<not> elt_empty (elt_set e (b mod 128))"
proof -
  have i: "b mod 128 div 64 < length (e_bits e)" using assms(1) by (simp add: elt_ok_def less_mult_imp_div_less)
  show "e_idx (elt_set e (b mod 128)) = e_idx e" by (simp add: elt_set_def)
  show ok: "elt_ok (elt_set e (b mod 128))" using assms(1) by (simp add: elt_set_def elt_ok_def)
  have bits: "ebit (elt_set e (b mod 128)) x \<longleftrightarrow> ebit e x \<or> x = b" for x
    using assms(2) mod128_split [of x b "e_idx e"] wbit_set [OF i, of "b mod 128 mod 64" "x mod 128"]
    by (simp add: ebit_def elt_set_def) blast
  then show "ebit (elt_set e (b mod 128)) x \<longleftrightarrow> ebit e x \<or> x = b" .
  show "\<not> elt_empty (elt_set e (b mod 128))" using bits elt_nonempty [OF ok] by blast
qed

lemma elt_reset_props:
  assumes "elt_ok e" "e_idx e = b div 128"
  shows "e_idx (elt_reset e (b mod 128)) = e_idx e" "elt_ok (elt_reset e (b mod 128))"
    and "ebit (elt_reset e (b mod 128)) x \<longleftrightarrow> ebit e x \<and> x \<noteq> b"
proof -
  have i: "b mod 128 div 64 < length (e_bits e)" using assms(1) by (simp add: elt_ok_def less_mult_imp_div_less)
  show "e_idx (elt_reset e (b mod 128)) = e_idx e" by (simp add: elt_reset_def)
  show ok: "elt_ok (elt_reset e (b mod 128))" using assms(1) by (simp add: elt_reset_def elt_ok_def)
  show "ebit (elt_reset e (b mod 128)) x \<longleftrightarrow> ebit e x \<and> x \<noteq> b"
    using assms(2) mod128_split [of x b "e_idx e"] wbit_reset [OF i, of "b mod 128 mod 64" "x mod 128"]
    by (simp add: ebit_def elt_reset_def) blast
qed

lemma elt_new_props: "i < 2 ^ 25 \<Longrightarrow> elt_ok (elt_new i)" "e_idx (elt_new i) = i" "\<not> ebit (elt_new i) b"
  by (simp_all add: elt_new_def elt_ok_def ebit_def)

lemma mbit_outside:
  "\<forall>x\<in>set xs. e_idx x < b div 128 \<Longrightarrow> \<not> mbit xs b" "\<forall>x\<in>set xs. b div 128 < e_idx x \<Longrightarrow> \<not> mbit xs b"
  using mbit_idx by fastforce+

lemma sbv_test_props:
  assumes "sbv_inv s"
  shows "fst (sbv_test s b) \<longleftrightarrow> b \<in> sbv_bits s" and "sbv_inv (snd (sbv_test s b))"
    and "sbv_bits (snd (sbv_test s b)) = sbv_bits s"
proof -
  have *: "(fst (sbv_test s b) \<longleftrightarrow> b \<in> sbv_bits s) \<and> sbv_inv (snd (sbv_test s b))
    \<and> s_elems (snd (sbv_test s b)) = s_elems s"
  proof (cases "s_elems s = []")
    case True
    then show ?thesis using assms by (simp add: sbv_test_def sbv_bits_def)
  next
    case False
    note p = findLowerBound_props(1) [OF assms False, of "b div 128"]
    have ok: "elems_ok (s_elems s)" using assms by (simp add: sbv_inv_def)
    show ?thesis using assms False
    proof (cases rule: findLowerBound_cases [where i = "b div 128"])
      case (found xs e ys)
      have "elt_ok e" using ok found(1) by (simp add: elems_ok_append)
      then show ?thesis using assms False found mbit_outside [of xs b] mbit_outside [of ys b] p
        by (simp add: sbv_test_def Let_def elt_test_iff sbv_bits_def sbv_inv_def)
    next
      case (absent xs ys)
      then have "\<not> mbit (s_elems s) b" using mbit_outside [of xs b] mbit_outside [of ys b] by simp
      then show ?thesis using assms False absent(5) p by (auto simp: sbv_test_def Let_def sbv_bits_def sbv_inv_def)
    qed
  qed
  then show "fst (sbv_test s b) \<longleftrightarrow> b \<in> sbv_bits s" "sbv_inv (snd (sbv_test s b))"
    "sbv_bits (snd (sbv_test s b)) = sbv_bits s" by (simp_all add: sbv_bits_def)
qed

lemma sbv_set_props:
  assumes "sbv_inv s" "b < 2 ^ 32"
  shows "sbv_inv (sbv_set s b)" and "sbv_bits (sbv_set s b) = insert b (sbv_bits s)"
proof -
  let ?i = "b div 128"
  have i: "?i < 2 ^ 25" using assms(2) by simp
  have ok: "elems_ok (s_elems s)" using assms(1) by (simp add: sbv_inv_def)
  have *: "\<exists>xs e ys. s_elems (sbv_set s b) = xs @ elt_set e (b mod 128) # ys \<and> s_cur (sbv_set s b) = length xs
      \<and> elt_ok e \<and> e_idx e = ?i \<and> (\<forall>x\<in>set xs. e_idx x < ?i) \<and> (\<forall>x\<in>set ys. ?i < e_idx x)
      \<and> elems_ok xs \<and> elems_ok ys \<and> (\<forall>x. mbit (s_elems s) x \<longleftrightarrow> mbit xs x \<or> ebit e x \<or> mbit ys x)"
  proof (cases "s_elems s = []")
    case True
    then have "s_elems (sbv_set s b) = [] @ elt_set (elt_new ?i) (b mod 128) # []" "s_cur (sbv_set s b) = length []"
      by (simp_all add: sbv_set_def Let_def)
    then show ?thesis using i True elt_new_props [of ?i] by (metis elems_ok_simps(1) empty_iff empty_set mbit_simps(1))
  next
    case False
    note new = elt_new_props [of ?i]
    show ?thesis using assms(1) False
    proof (cases rule: findLowerBound_cases [where i = ?i])
      case (found xs e ys)
      then have "s_elems (sbv_set s b) = xs @ elt_set e (b mod 128) # ys" "s_cur (sbv_set s b) = length xs"
        using False by (simp_all add: sbv_set_def Let_def)
      moreover have "elt_ok e" "elems_ok xs" "elems_ok ys" using ok found(1) by (simp_all add: elems_ok_append)
      moreover have "\<forall>x. mbit (s_elems s) x \<longleftrightarrow> mbit xs x \<or> ebit e x \<or> mbit ys x" using found(1) by simp
      ultimately show ?thesis using found(3-5) by blast
    next
      case (absent xs ys)
      then have "s_elems (sbv_set s b) = xs @ elt_set (elt_new ?i) (b mod 128) # ys" "s_cur (sbv_set s b) = length xs"
        using False by (auto simp: sbv_set_def Let_def lb_at_def split: if_splits)
      moreover have "elems_ok xs" "elems_ok ys" using ok absent(1) by (simp_all add: elems_ok_append)
      moreover have "\<forall>x. mbit (s_elems s) x \<longleftrightarrow> mbit xs x \<or> ebit (elt_new ?i) x \<or> mbit ys x"
        using absent(1) new(3) by simp
      ultimately show ?thesis using absent(2,3) new(1,2) i by blast
    qed
  qed
  then obtain xs e ys where eq: "s_elems (sbv_set s b) = xs @ elt_set e (b mod 128) # ys"
    "s_cur (sbv_set s b) = length xs" and e: "elt_ok e" "e_idx e = ?i"
    and ord: "\<forall>x\<in>set xs. e_idx x < ?i" "\<forall>x\<in>set ys. ?i < e_idx x" "elems_ok xs" "elems_ok ys"
    and bits: "\<forall>x. mbit (s_elems s) x \<longleftrightarrow> mbit xs x \<or> ebit e x \<or> mbit ys x" by blast
  note es = elt_set_props [OF e]
  have "\<forall>x\<in>set xs. \<forall>y\<in>set ys. e_idx x < e_idx y" using ord(1,2) by fastforce
  then show "sbv_inv (sbv_set s b)" using eq e ord es by (simp add: sbv_inv_def elems_ok_append)
  show "sbv_bits (sbv_set s b) = insert b (sbv_bits s)" using eq bits es(3) by (auto simp: sbv_bits_def)
qed

lemma sbv_reset_props:
  assumes "sbv_inv s"
  shows "sbv_inv (sbv_reset s b)" and "sbv_bits (sbv_reset s b) = sbv_bits s - {b}"
proof -
  let ?i = "b div 128"
  have ok: "elems_ok (s_elems s)" using assms by (simp add: sbv_inv_def)
  have "sbv_inv (sbv_reset s b) \<and> sbv_bits (sbv_reset s b) = sbv_bits s - {b}"
  proof (cases "s_elems s = []")
    case True
    then show ?thesis using assms by (simp add: sbv_reset_def sbv_bits_def)
  next
    case False
    note p = findLowerBound_props(1) [OF assms False, of ?i]
    show ?thesis using assms False
    proof (cases rule: findLowerBound_cases [where i = ?i])
      case (found xs e ys)
      let ?e = "elt_reset e (b mod 128)"
      have oks: "elt_ok e" "elems_ok xs" "elems_ok ys" using ok found(1) by (simp_all add: elems_ok_append)
      note es = elt_reset_props [OF oks(1) found(3)]
      have out: "\<not> mbit xs b" "\<not> mbit ys b" using mbit_outside found(4,5) by blast+
      have eq: "s_elems (sbv_reset s b) = xs @ (if elt_empty ?e then [] else [?e]) @ ys"
        "s_cur (sbv_reset s b) = length xs"
        using False found(1-3) by (simp_all add: sbv_reset_def Let_def)
      have "elt_empty ?e \<longrightarrow> (\<forall>x. \<not> ebit ?e x)" using elt_nonempty [OF es(2)] by blast
      then have "mbit (s_elems (sbv_reset s b)) x \<longleftrightarrow> mbit (s_elems s) x \<and> x \<noteq> b" for x
        using eq(1) found(1) out es(3) [of x] by auto
      moreover have "sbv_inv (sbv_reset s b)"
        using eq oks es found(3-5) ok found(1) by (auto simp: sbv_inv_def elems_ok_append)
      ultimately show ?thesis by (auto simp: sbv_bits_def)
    next
      case (absent xs ys)
      then have "\<not> mbit (s_elems s) b" using mbit_outside [of xs b] mbit_outside [of ys b] by simp
      then show ?thesis using assms False absent(5) p by (auto simp: sbv_reset_def Let_def sbv_bits_def sbv_inv_def)
    qed
  qed
  then show "sbv_inv (sbv_reset s b)" "sbv_bits (sbv_reset s b) = sbv_bits s - {b}" by blast+
qed

subsection \<open>Equality and the binary operations\<close>

lemma elt_eq_iff: "elt_eq a b \<longleftrightarrow> a = b"
  by (cases a; cases b) (auto simp: elt_eq_def list.rel_eq)

lemma sbvEq_loop_iff: "sbvEq_loop as bs \<longleftrightarrow> as = bs"
  by (induction as bs rule: sbvEq_loop.induct) (auto simp: elt_eq_iff)

text \<open>Sorted lists of non-empty elements represent a set in one way only.\<close>

lemma elems_canonical:
  "elems_ok es \<Longrightarrow> elems_ok rs \<Longrightarrow> (\<And>b. mbit es b = mbit rs b) \<Longrightarrow> es = rs"
proof (induction es rs rule: merge_induct)
  case (rnil es)
  then show ?case using has_bit by (cases es) auto
next
  case (lnil r rs)
  then show ?case using has_bit [of r] by auto
next
  case (gt e es r rs)
  then show ?case using has_bit [of r] by fastforce
next
  case (lt e es r rs)
  then show ?case using has_bit [of e] by fastforce
next
  case (eq e es r rs)
  have "mbit es b = mbit rs b" "ebit e b = ebit r b" for b using eq(4) eq.prems [of b] by auto
  then have "es = rs" "e_bits e = e_bits r" using eq ebit_ext [of e r] by auto
  then show ?case using eq(3) by simp
qed

lemma sbv_eq_iff: "sbv_inv s \<Longrightarrow> sbv_inv t \<Longrightarrow> sbv_eq s t \<longleftrightarrow> sbv_bits s = sbv_bits t"
  using elems_canonical [of "s_elems s" "s_elems t"]
  by (auto simp: sbv_eq_def sbvEq_loop_iff sbv_inv_def sbv_bits_def)


text \<open>The shortcuts of the operators for empty operands leave the set the merges would compute.\<close>

lemma sbv_elems_bits: "sbv_inv s \<Longrightarrow> s_elems s = [] \<longleftrightarrow> sbv_bits s = {}"
  using has_bit by (cases "s_elems s") (auto simp: sbv_bits_def sbv_inv_def)

lemma sbv_or_props:
  assumes "sbv_inv s" "sbv_inv r"
  shows "sbv_inv (fst (sbv_or False s r))" "sbv_bits (fst (sbv_or False s r)) = sbv_bits s \<union> sbv_bits r"
    and "snd (sbv_or False s r) \<longleftrightarrow> \<not> sbv_bits r \<subseteq> sbv_bits s"
proof -
  have ok: "elems_ok (s_elems s)" "elems_ok (s_elems r)" using assms by (simp_all add: sbv_inv_def)
  note m = orMerge_ok [OF ok, of False] orMerge_mbit [OF ok, of False] orMerge_flag [OF ok, of False]
  show "sbv_inv (fst (sbv_or False s r))"
    using assms m(1) by (simp add: sbv_or_def split_def Let_def) (simp add: sbv_inv_def)
  show "sbv_bits (fst (sbv_or False s r)) = sbv_bits s \<union> sbv_bits r"
    using m(2) by (simp add: sbv_or_def split_def Let_def sbv_bits_def Collect_disj_eq)
  show "snd (sbv_or False s r) \<longleftrightarrow> \<not> sbv_bits r \<subseteq> sbv_bits s"
    using m(3) by (simp add: sbv_or_def split_def Let_def sbv_bits_def subset_iff)
qed

lemma sbv_and_props:
  assumes "sbv_inv s" "sbv_inv r"
  shows "sbv_inv (fst (sbv_and False s r))" "sbv_bits (fst (sbv_and False s r)) = sbv_bits s \<inter> sbv_bits r"
    and "snd (sbv_and False s r) \<longleftrightarrow> \<not> sbv_bits s \<subseteq> sbv_bits r"
proof -
  have ok: "elems_ok (s_elems s)" "elems_ok (s_elems r)" using assms by (simp_all add: sbv_inv_def)
  note m = andMerge_ok [OF ok, of False] andMerge_mbit [OF ok, of False] andMerge_flag [OF ok, of False]
  show "sbv_inv (fst (sbv_and False s r))"
    using assms m(1) by (simp add: sbv_and_def split_def Let_def) (simp add: sbv_inv_def)
  show "sbv_bits (fst (sbv_and False s r)) = sbv_bits s \<inter> sbv_bits r"
    using m(2) by (simp add: sbv_and_def split_def Let_def sbv_bits_def Collect_conj_eq)
  show "snd (sbv_and False s r) \<longleftrightarrow> \<not> sbv_bits s \<subseteq> sbv_bits r"
    using m(3) by (simp add: sbv_and_def split_def Let_def sbv_bits_def subset_iff)
qed

lemma sbv_diff_props:
  assumes "sbv_inv s" "sbv_inv r"
  shows "sbv_inv (fst (sbv_intersectWithComplement False s r))"
    "sbv_bits (fst (sbv_intersectWithComplement False s r)) = sbv_bits s - sbv_bits r"
    and "snd (sbv_intersectWithComplement False s r) \<longleftrightarrow> sbv_bits s \<inter> sbv_bits r \<noteq> {}"
proof -
  have ok: "elems_ok (s_elems s)" "elems_ok (s_elems r)" using assms by (simp_all add: sbv_inv_def)
  note m = diffMerge_ok [OF ok, of False] diffMerge_mbit [OF ok, of False] diffMerge_flag [OF ok, of False]
  show "sbv_inv (fst (sbv_intersectWithComplement False s r))"
    using assms m(1) by (simp add: sbv_intersectWithComplement_def split_def Let_def) (simp add: sbv_inv_def)
  show "sbv_bits (fst (sbv_intersectWithComplement False s r)) = sbv_bits s - sbv_bits r"
  proof -
    have "sbv_bits s - sbv_bits r = {b. mbit (s_elems s) b \<and> \<not> mbit (s_elems r) b}"
      by (auto simp: sbv_bits_def)
    then show ?thesis
      using m(2) by (simp add: sbv_intersectWithComplement_def split_def Let_def) (simp add: sbv_bits_def)
  qed
  show "snd (sbv_intersectWithComplement False s r) \<longleftrightarrow> sbv_bits s \<inter> sbv_bits r \<noteq> {}"
  proof -
    have "sbv_bits s \<inter> sbv_bits r \<noteq> {} \<longleftrightarrow> (\<exists>b. mbit (s_elems s) b \<and> mbit (s_elems r) b)"
      by (auto simp: sbv_bits_def)
    then show ?thesis using m(3) by (simp add: sbv_intersectWithComplement_def split_def Let_def)
  qed
qed

lemma sbv_copy_props: "sbv_inv s \<Longrightarrow> sbv_inv (sbv_copy s)" "sbv_bits (sbv_copy s) = sbv_bits s"
  by (simp_all add: sbv_copy_def sbv_inv_def sbv_bits_def)

lemma sbv_diff3_props:
  assumes "sbv_inv r1" "sbv_inv r2"
  shows "sbv_inv (sbv_intersectWithComplement3 False t2 s r1 r2)"
    and "sbv_bits (sbv_intersectWithComplement3 False t2 s r1 r2) = sbv_bits r1 - sbv_bits r2"
proof -
  have ok: "elems_ok (s_elems r1)" "elems_ok (s_elems r2)" using assms by (simp_all add: sbv_inv_def)
  note eq = diff3Merge_eq [OF ok, of False] and m = diffMerge_ok [OF ok, of False] diffMerge_mbit [OF ok, of False]
  show "sbv_inv (sbv_intersectWithComplement3 False t2 s r1 r2)"
    using m(1) by (simp add: sbv_intersectWithComplement3_def Let_def sbv_copy_def eq sbv_inv_def)
  show "sbv_bits (sbv_intersectWithComplement3 False t2 s r1 r2) = sbv_bits r1 - sbv_bits r2"
    using m(2) by (auto simp add: sbv_intersectWithComplement3_def Let_def sbv_copy_def eq sbv_bits_def)
qed

lemma sbv_clear_props: "sbv_inv (sbv_clear s)" "sbv_bits (sbv_clear s) = {}"
  by (simp_all add: sbv_clear_def sbv_inv_def sbv_bits_def)

lemma sbv_intersects_iff:
  assumes "sbv_inv s" "sbv_inv r"
  shows "sbv_intersects s r \<longleftrightarrow> sbv_bits s \<inter> sbv_bits r \<noteq> {}"
proof -
  have ok: "elems_ok (s_elems s)" "elems_ok (s_elems r)" using assms by (simp_all add: sbv_inv_def)
  then show ?thesis
    using intersectsMerge_iff [OF ok] by (auto simp: sbv_intersects_def sbv_bits_def)
qed

interpretation sbvs: exact_bit_set sbv_inv sbv_bits sbv_new sbv_empty "\<lambda>s b. fst (sbv_test s b)" sbv_set
  sbv_reset "sbv_or False" "sbv_and False" "sbv_intersectWithComplement False" sbv_eq
proof
  show "sbv_inv sbv_new" "sbv_bits sbv_new = {}"
    by (simp_all add: sbv_new_def sbv_inv_def sbv_bits_def)
  show "sbv_empty s \<longleftrightarrow> sbv_bits s = {}" if "sbv_inv s" for s
    using that by (simp add: sbv_empty_def sbv_elems_bits)
  show "fst (sbv_test s b) \<longleftrightarrow> b \<in> sbv_bits s" if "sbv_inv s" for s b
    using that by (rule sbv_test_props)
  show "b < 2 ^ 32" if "sbv_inv s" "b \<in> sbv_bits s" for s b
    using that by (rule sbv_bits_lt)
  show "sbv_inv (sbv_set s b)" "sbv_bits (sbv_set s b) = insert b (sbv_bits s)"
    if "sbv_inv s" "b < 2 ^ 32" for s b
    using sbv_set_props [OF that] by simp_all
  show "sbv_eq s t \<longleftrightarrow> sbv_bits s = sbv_bits t" if "sbv_inv s" "sbv_inv t" for s t
    using that by (rule sbv_eq_iff)
  show "sbv_inv (sbv_reset s b)" "sbv_bits (sbv_reset s b) = sbv_bits s - {b}" if "sbv_inv s" for s b
    using sbv_reset_props [OF that] by simp_all
next
  fix s t assume inv: "sbv_inv s" "sbv_inv t"
  note props = sbv_or_props [OF inv] sbv_and_props [OF inv] sbv_diff_props [OF inv]
  show "sbv_inv (fst (sbv_or False s t))" "sbv_inv (fst (sbv_and False s t))"
    "sbv_inv (fst (sbv_intersectWithComplement False s t))"
    "sbv_bits (fst (sbv_or False s t)) = sbv_bits s \<union> sbv_bits t"
    "sbv_bits (fst (sbv_and False s t)) = sbv_bits s \<inter> sbv_bits t"
    "sbv_bits (fst (sbv_intersectWithComplement False s t)) = sbv_bits s - sbv_bits t"
    "snd (sbv_or False s t) \<longleftrightarrow> \<not> sbv_bits t \<subseteq> sbv_bits s"
    "snd (sbv_and False s t) \<longleftrightarrow> \<not> sbv_bits s \<subseteq> sbv_bits t"
    "snd (sbv_intersectWithComplement False s t) \<longleftrightarrow> sbv_bits s \<inter> sbv_bits t \<noteq> {}"
    by (simp_all add: props)
  show "\<not> sbv_bits t \<subseteq> sbv_bits s \<Longrightarrow> snd (sbv_or False s t)" by (simp add: props)
qed

end
