(* ===== verification/SparseBitVecIter.thy ===== *)
theory SparseBitVecIter
  imports SparseBitVec
begin

text \<open>
  The scans over a \<open>SparseBitVector\<close> (\<open>svf/include/Util/SparseBitVector.h\<close>): \<open>find_first\<close>,
  \<open>find_last\<close>, \<open>count\<close> and \<open>SparseBitVectorIterator\<close>. The iterator is a record of its fields;
  \<open>None\<close> stands for the \<open>abort()\<close> in the element's \<open>find_first\<close>, and for a walk that does not end.
  The walk from \<open>begin()\<close> to \<open>end()\<close> is shown to return, and to list the set in increasing order.
\<close>

subsection \<open>The iterator\<close>

record sbv_it =
  si_atEnd :: bool
  si_iter :: nat
  si_bitNumber :: nat
  si_wordNumber :: nat
  si_bits :: u64

text \<open>The code both \<open>AdvanceToFirstNonZero\<close> and \<open>AdvanceToNextNonZero\<close> have for entering the
  element at a position: its first bit, the word of it and that word's bits shifted.\<close>

definition sbv_enterElt :: "nat \<Rightarrow> sbv_elt \<Rightarrow> sbv_it option" where
  "sbv_enterElt Iter e =
     (case elt_find_first e of None \<Rightarrow> None
      | Some BitPos \<Rightarrow>
          let BitNumber = to_u32 (int (to_u32 (int (e_idx e * 128))) + int BitPos);
              WordNumber = (BitNumber mod 128) div 64
          in Some \<lparr>si_atEnd = False, si_iter = Iter, si_bitNumber = BitNumber,
                   si_wordNumber = WordNumber,
                   si_bits = drop_bit (BitPos mod 64) (e_bits e ! WordNumber)\<rparr>)"

definition sbv_firstNonZero :: "sbv \<Rightarrow> sbv_it \<Rightarrow> sbv_it option" where
  "sbv_firstNonZero s it =
     (if si_atEnd it then Some it
      else case s_elems s of
        [] \<Rightarrow> Some (it\<lparr>si_atEnd := True\<rparr>)
      | e # _ \<Rightarrow> sbv_enterElt 0 e)"

function shiftZeros :: "u64 \<Rightarrow> nat \<Rightarrow> u64 \<times> nat" where
  "shiftZeros Bits BitNumber =
     (if Bits \<noteq> 0 \<and> \<not> (Bits AND 1 \<noteq> 0)
      then shiftZeros (drop_bit 1 Bits) (to_u32 (int BitNumber + 1))
      else (Bits, BitNumber))"
  by pat_completeness auto
termination
proof (relation "measure (\<lambda>(w, n). unat w)")
  fix w :: u64 and n :: nat
  assume "w \<noteq> 0 \<and> \<not> (w AND 1 \<noteq> 0)"
  then have "unat w > 0" by (simp add: unat_gt_0)
  moreover have "unat (drop_bit 1 w) = unat w div 2" by (subst unat_drop_bit_eq) (simp add: drop_bit_eq_div)
  ultimately show "((drop_bit 1 w, to_u32 (int n + 1)), w, n) \<in> measure (\<lambda>(w, n). unat w)" by simp
qed simp

declare shiftZeros.simps [simp del]

definition sbv_nextNonZero :: "sbv \<Rightarrow> sbv_it \<Rightarrow> sbv_it option" where
  "sbv_nextNonZero s it =
     (if si_atEnd it then Some it
      else let (Bits, BitNumber) = shiftZeros (si_bits it) (si_bitNumber it) in
        if Bits \<noteq> 0 then Some (it\<lparr>si_bits := Bits, si_bitNumber := BitNumber\<rparr>)
        else let cur = s_elems s ! si_iter it;
                 NextSetBitNumber = elt_find_next cur (BitNumber mod 128)
             in if NextSetBitNumber = None \<or> BitNumber mod 128 = 0
                then let Iter = si_iter it + 1 in
                  if Iter = length (s_elems s)
                  then Some \<lparr>si_atEnd = True, si_iter = Iter, si_bitNumber = BitNumber,
                             si_wordNumber = 0, si_bits = Bits\<rparr>
                  else sbv_enterElt Iter (s_elems s ! Iter)
                else let pos = the NextSetBitNumber; WordNumber = (pos mod 128) div 64
                     in Some \<lparr>si_atEnd = False, si_iter = si_iter it,
                              si_bitNumber = to_u32 (int (to_u32 (int (e_idx cur * 128))) + int pos),
                              si_wordNumber = WordNumber,
                              si_bits = drop_bit (pos mod 64) (e_bits cur ! WordNumber)\<rparr>)"

definition sbv_it_make :: "sbv \<Rightarrow> bool \<Rightarrow> sbv_it option" where
  "sbv_it_make s end =
     sbv_firstNonZero s \<lparr>si_atEnd = end, si_iter = 0, si_bitNumber = 0, si_wordNumber = 2 ^ 32 - 1, si_bits = 0\<rparr>"

definition sbv_it_next :: "sbv \<Rightarrow> sbv_it \<Rightarrow> sbv_it option" where
  "sbv_it_next s it =
     sbv_nextNonZero s (it\<lparr>si_bitNumber := to_u32 (int (si_bitNumber it) + 1), si_bits := drop_bit 1 (si_bits it)\<rparr>)"

definition sbv_it_eq :: "sbv_it \<Rightarrow> sbv_it \<Rightarrow> bool" where
  "sbv_it_eq a b =
     (if si_atEnd a \<and> si_atEnd b then True
      else si_atEnd a = si_atEnd b \<and> si_bitNumber b = si_bitNumber a)"

text \<open>\<open>for (it = begin(); it != end(); ++it)\<close>, collecting \<open>*it\<close>.\<close>

partial_function (option) sbv_walk :: "sbv \<Rightarrow> sbv_it \<Rightarrow> sbv_it \<Rightarrow> nat list option" where
  "sbv_walk s it e =
     (if sbv_it_eq it e then Some []
      else Option.bind (sbv_it_next s it) (\<lambda>it'.
             Option.bind (sbv_walk s it' e) (\<lambda>xs. Some (si_bitNumber it # xs))))"

definition sbv_elems :: "sbv \<Rightarrow> nat list option" where
  "sbv_elems s =
     Option.bind (sbv_it_make s False) (\<lambda>b. Option.bind (sbv_it_make s True) (\<lambda>e. sbv_walk s b e))"

subsection \<open>The scans of an element\<close>

lemma firstWord_loop_props:
  "case firstWord_loop i ws of
     None \<Rightarrow> \<forall>p. \<not> wbit ws p
   | Some n \<Rightarrow> i * 64 \<le> n \<and> wbit ws (n - i * 64) \<and> (\<forall>p < n - i * 64. \<not> wbit ws p)"
proof (induction i ws rule: firstWord_loop.induct)
  case (2 i w ws)
  show ?case
  proof (cases "w = 0")
    case True
    then show ?thesis using 2
      by (auto simp: wbit_Cons diff_le_mono add.commute less_diff_conv2 split: option.splits)
  next
    case False
    then show ?thesis using countTrailingZeros_props [OF False] by (auto simp: wbit_Cons)
  qed
qed simp

lemma countLeadingZeros_props:
  assumes "w \<noteq> 0"
  shows "countLeadingZeros w < 64" "bit w (63 - countLeadingZeros w)"
    "63 - countLeadingZeros w < j \<Longrightarrow> \<not> bit w j"
proof -
  let ?xs = "rev [0..<64::nat]" and ?P = "\<lambda>i. \<not> bit w i"
  have nth: "i < 64 \<Longrightarrow> ?xs ! i = 63 - i" for i by (simp add: rev_nth)
  obtain k where k: "k < 64" "bit w k" using assms by (auto simp: word_nonzero_bit)
  have "takeWhile ?P ?xs \<noteq> ?xs"
  proof
    assume "takeWhile ?P ?xs = ?xs"
    then have "\<forall>x\<in>set ?xs. ?P x" by (simp add: takeWhile_eq_all_conv)
    then show False using k by simp
  qed
  then show lt: "countLeadingZeros w < 64"
    unfolding countLeadingZeros_def
    by (metis (no_types) diff_zero length_rev length_takeWhile_le length_upt le_neq_implies_less takeWhile_eq_take take_all_iff order_refl)
  show "bit w (63 - countLeadingZeros w)"
    using nth_length_takeWhile [of ?P ?xs] lt nth by (simp add: countLeadingZeros_def)
  show "\<not> bit w j" if "63 - countLeadingZeros w < j"
  proof
    assume b: "bit w j"
    then have j: "j < 64" by (rule bit_lt_64)
    then have i: "63 - j < countLeadingZeros w" using that lt by linarith
    then have "takeWhile ?P ?xs ! (63 - j) = j"
      using nth [of "63 - j"] j by (simp add: takeWhile_nth countLeadingZeros_def)
    then have "j \<in> set (takeWhile ?P ?xs)" using i by (metis countLeadingZeros_def nth_mem)
    then show False using b by (auto dest: set_takeWhileD)
  qed
qed

lemma lastWord_loop_props:
  "case lastWord_loop (rev ws) of
     None \<Rightarrow> \<forall>p. \<not> wbit ws p
   | Some n \<Rightarrow> wbit ws n \<and> (\<forall>p > n. \<not> wbit ws p)"
proof (induction ws rule: rev_induct)
  case (snoc w ws)
  show ?case
  proof (cases "w = 0")
    case True
    then show ?thesis using snoc
      by (auto simp: wbit_append Let_def split: option.splits dest: wbit_lt)
  next
    case False
    note c = countLeadingZeros_props [OF False]
    have "wbit (ws @ [w]) (64 * length ws + (63 - countLeadingZeros w))"
      using c(2) by (simp add: wbit_append wbit_Cons) 
    moreover have "\<not> wbit (ws @ [w]) p" if "64 * length ws + (63 - countLeadingZeros w) < p" for p
      using that c(3) [of "p - 64 * length ws"] by (auto simp: wbit_append wbit_Cons)
    moreover have "length ws * 64 + 64 - countLeadingZeros w - 1 = 64 * length ws + (63 - countLeadingZeros w)"
      using c(1) by simp
    ultimately show ?thesis using False by (simp add: Let_def)
  qed
qed simp


text \<open>The first, the next and the last position of an element.\<close>

lemma elt_find_first_props:
  assumes "elt_ok e" "\<not> elt_empty e"
  obtains p where "elt_find_first e = Some p" "p < 128" "wbit (e_bits e) p" "\<forall>q<p. \<not> wbit (e_bits e) q"
proof -
  have "\<exists>p. wbit (e_bits e) p" using assms(2) by (simp add: elt_empty_def all_zero_wbit)
  then obtain p where "elt_find_first e = Some p" "wbit (e_bits e) p" "\<forall>q<p. \<not> wbit (e_bits e) q"
    using firstWord_loop_props [where i = 0 and ws = "e_bits e"] by (auto simp: elt_find_first_def split: option.splits)
  moreover from this have "p < 128" using assms(1) by (auto simp: elt_ok_def dest: wbit_lt)
  ultimately show ?thesis using that by blast
qed

lemma elt_find_last_props:
  assumes "elt_ok e" "\<not> elt_empty e"
  obtains p where "elt_find_last e = Some p" "p < 128" "wbit (e_bits e) p" "\<forall>q>p. \<not> wbit (e_bits e) q"
proof -
  have "\<exists>p. wbit (e_bits e) p" using assms(2) by (simp add: elt_empty_def all_zero_wbit)
  then obtain p where "elt_find_last e = Some p" "wbit (e_bits e) p" "\<forall>q>p. \<not> wbit (e_bits e) q"
    using lastWord_loop_props [where ws = "e_bits e"] by (auto simp: elt_find_last_def split: option.splits)
  moreover from this have "p < 128" using assms(1) by (auto simp: elt_ok_def dest: wbit_lt)
  ultimately show ?thesis using that by blast
qed

lemma bit_above_mask: "bit (w AND push_bit n (NOT 0) :: u64) j \<longleftrightarrow> n \<le> j \<and> bit w j"
  by (auto simp: bit_simps)

lemma elt_find_next_props:
  assumes "elt_ok e" "c < 128"
  shows "case elt_find_next e c of
      None \<Rightarrow> \<forall>q\<ge>c. \<not> wbit (e_bits e) q
    | Some p \<Rightarrow> c \<le> p \<and> p < 128 \<and> wbit (e_bits e) p \<and> (\<forall>q. c \<le> q \<and> q < p \<longrightarrow> \<not> wbit (e_bits e) q)"
proof -
  let ?k = "c div 64" and ?j = "c mod 64"
  define cp where "cp = (e_bits e ! ?k) AND push_bit ?j (NOT 0)"
  have k: "?k < length (e_bits e)" "length (e_bits e) = 2" using assms by (simp_all add: elt_ok_def less_mult_imp_div_less)
  have word: "wbit (e_bits e) (64 * ?k + m) \<longleftrightarrow> bit (e_bits e ! ?k) m" if "m < 64" for m
    using that k by (simp add: wbit_word)
  have inword: "wbit (e_bits e) q \<longleftrightarrow> bit cp (q - 64 * ?k)" if "c \<le> q" "q < 64 * ?k + 64" for q
  proof -
    have "q - 64 * ?k < 64" "q = 64 * ?k + (q - 64 * ?k)" "?j \<le> q - 64 * ?k"
      using that mult_div_mod_eq [of 64 c] by linarith+
    then show ?thesis using word [of "q - 64 * ?k"] by (metis bit_above_mask cp_def)
  qed
  have bound: "wbit (e_bits e) q \<Longrightarrow> q < 128" for q using k by (auto dest: wbit_lt)
  show ?thesis
  proof (cases "cp = 0")
    case False
    let ?p = "64 * ?k + countTrailingZeros cp"
    note z = countTrailingZeros_props [OF False]
    have eq: "elt_find_next e c = Some ?p"
      using assms(2) False by (simp add: elt_find_next_def Let_def cp_def mult.commute)
    have p: "?j \<le> countTrailingZeros cp" "countTrailingZeros cp < 64" "bit (e_bits e ! ?k) (countTrailingZeros cp)"
      using z(1) bit_above_mask [of "e_bits e ! ?k" ?j "countTrailingZeros cp", folded cp_def] by auto
    then have w: "wbit (e_bits e) ?p" using word by blast
    moreover have "c \<le> ?p" using p(1) mult_div_mod_eq [of 64 c] by linarith
    moreover have "\<not> wbit (e_bits e) q" if "c \<le> q" "q < ?p" for q
      using inword [of q] z(2) [of "q - 64 * ?k"] that p(2) by auto
    ultimately show ?thesis using eq bound by simp
  next
    case True
    have eq: "elt_find_next e c = firstWord_loop (?k + 1) (drop (?k + 1) (e_bits e))"
      using assms(2) True by (simp add: elt_find_next_def Let_def cp_def)
    have no: "\<not> wbit (e_bits e) q" if "c \<le> q" "q < 64 * ?k + 64" for q
      using inword [OF that] True by simp
    have rest: "wbit (drop (Suc ?k) (e_bits e)) m \<longleftrightarrow> wbit (e_bits e) (64 * ?k + 64 + m)" for m
      by (simp add: wbit_drop add.commute add.left_commute)
    show ?thesis
    proof (cases "elt_find_next e c")
      case None
      then have none: "\<forall>m. \<not> wbit (e_bits e) (64 * ?k + 64 + m)"
        using firstWord_loop_props [where i = "?k + 1" and ws = "drop (?k + 1) (e_bits e)"] by (simp add: eq rest)
      have "\<not> wbit (e_bits e) q" if "c \<le> q" for q
        using no [OF that] none [rule_format, of "q - (64 * ?k + 64)"] by (cases "q < 64 * ?k + 64") auto
      then show ?thesis using None by simp
    next
      case (Some n)
      have fw: "Suc ?k * 64 \<le> n \<and> wbit (drop (Suc ?k) (e_bits e)) (n - Suc ?k * 64)
          \<and> (\<forall>r < n - Suc ?k * 64. \<not> wbit (drop (Suc ?k) (e_bits e)) r)"
        using Some firstWord_loop_props [where i = "Suc ?k" and ws = "drop (Suc ?k) (e_bits e)"]
        by (simp add: eq)
      then obtain m where "n = Suc ?k * 64 + m" using le_Suc_ex by blast
      then have nm: "n = 64 * ?k + 64 + m" by simp
      have n: "wbit (e_bits e) (64 * ?k + 64 + m)" "\<forall>r < m. \<not> wbit (e_bits e) (64 * ?k + 64 + r)"
        using fw unfolding nm rest by simp_all
      have "\<not> wbit (e_bits e) q" if "c \<le> q" "q < n" for q
        using no [of q] that nm n(2) [rule_format, of "q - (64 * ?k + 64)"] by (cases "q < 64 * ?k + 64") auto
      moreover have "c \<le> n" using nm mult_div_mod_eq [of 64 c] mod_less_divisor [of 64 c] by linarith
      ultimately show ?thesis using Some n(1) nm bound by simp
    qed
  qed
qed

lemma shiftZeros_props:
  "w = 0 \<or> n + countTrailingZeros w < 2 ^ 32 \<Longrightarrow>
   shiftZeros w n = (if w = 0 then (0, n) else (drop_bit (countTrailingZeros w) w, n + countTrailingZeros w))"
proof (induction w n rule: shiftZeros.induct)
  case (1 w n)
  consider (zero) "w = 0" | (odd) "w \<noteq> 0" "bit w 0" | (even) "w \<noteq> 0" "\<not> bit w 0" by blast
  then show ?case
  proof cases
    case zero
    then show ?thesis by (simp add: shiftZeros.simps [of 0 n])
  next
    case odd
    then have "countTrailingZeros w = 0" using countTrailingZeros_props(2) [OF odd(1), of 0] by blast
    moreover have "w AND 1 \<noteq> 0" using odd(2) and_mask_nonzero' [of 0 w] by (simp add: wmask_def)
    ultimately show ?thesis using odd by (simp add: shiftZeros.simps [of w n])
  next
    case even
    let ?c = "countTrailingZeros w"
    have c: "?c \<noteq> 0" "bit w ?c" using countTrailingZeros_props(1) [OF even(1)] even(2) by (metis, simp)
    have cond: "w \<noteq> 0 \<and> \<not> (w AND 1 \<noteq> 0)" using even and_mask_nonzero' [of 0 w] by (simp add: wmask_def)
    have nz: "drop_bit 1 w \<noteq> 0" using c by (simp only: drop_bit_nonzero) (metis less_one not_less)
    have ctz: "countTrailingZeros (drop_bit 1 w) = ?c - 1"
      unfolding countTrailingZeros_least [OF nz]
    proof (rule Least_equality)
      show "bit (drop_bit 1 w) (?c - 1)" using c by (simp only: bit_drop_bit_eq o_apply) simp
      fix y assume "bit (drop_bit 1 w) y"
      then have "bit w (1 + y)" by (simp only: bit_drop_bit_eq o_apply)
      then show "?c - 1 \<le> y" using countTrailingZeros_props(2) [OF even(1), of "1 + y"] by linarith
    qed
    have n: "n + ?c < 2 ^ 32" "to_u32 (int n + 1) = Suc n" using 1(2) even(1) c(1) to_u32_id [of "Suc n"] by (simp_all add: add.commute)
    have "shiftZeros w n = shiftZeros (drop_bit 1 w) (Suc n)"
      by (subst shiftZeros.simps) (use cond n(2) in simp)
    also have "\<dots> = (drop_bit (?c - 1) (drop_bit 1 w), Suc n + (?c - 1))"
      using 1(1) [OF cond] nz ctz n c(1) by (simp only: n(2) if_False) (simp add: n)
    also have "drop_bit (?c - 1) (drop_bit 1 w) = drop_bit ?c w"
      using c(1) by (simp only: drop_bit_drop_bit) simp
    finally show ?thesis using even(1) c(1) by simp
  qed
qed


subsection \<open>The walk\<close>

text \<open>The iterator standing on bit \<open>b\<close> of the element at position \<open>p\<close>.\<close>

definition on_bit :: "sbv \<Rightarrow> nat \<Rightarrow> nat \<Rightarrow> sbv_it \<Rightarrow> bool" where
  "on_bit s p b it \<longleftrightarrow> \<not> si_atEnd it \<and> si_iter it = p \<and> p < length (s_elems s) \<and> si_bitNumber it = b
     \<and> ebit (s_elems s ! p) b
     \<and> si_bits it = drop_bit (b mod 64) (e_bits (s_elems s ! p) ! (b mod 128 div 64))"

definition ebits_list :: "sbv_elt \<Rightarrow> nat list" where
  "ebits_list e = filter (ebit e) [128 * e_idx e..<128 * e_idx e + 128]"

lemma first_in_upt:
  "a \<le> p \<Longrightarrow> p < n \<Longrightarrow> P p \<Longrightarrow> (\<And>q. a \<le> q \<Longrightarrow> q < p \<Longrightarrow> \<not> P q) \<Longrightarrow>
   filter P [a..<n] = p # filter P [Suc p..<n]"
  for a p n :: nat
proof -
  assume "a \<le> p" "p < n" and p: "P p" and no: "\<And>q. a \<le> q \<Longrightarrow> q < p \<Longrightarrow> \<not> P q"
  then have "[a..<n] = [a..<p] @ p # [Suc p..<n]"
    using upt_add_eq_append [of a p "n - p"] by (simp add: upt_conv_Cons)
  moreover have "filter P [a..<p] = []" using no by (simp add: filter_empty_conv)
  ultimately show ?thesis using p by simp
qed

lemma ebit_range: "elt_ok e \<Longrightarrow> ebit e b \<Longrightarrow> 128 * e_idx e \<le> b \<and> b < 128 * e_idx e + 128 \<and> b < 2 ^ 32"
  by (auto simp: ebit_def elt_ok_def)

lemma set_elem_ok: "sbv_inv s \<Longrightarrow> p < length (s_elems s) \<Longrightarrow> elt_ok (s_elems s ! p) \<and> \<not> elt_empty (s_elems s ! p)"
  by (simp add: sbv_inv_def elems_ok_def)

lemma to_u32_pos: "elt_ok e \<Longrightarrow> p < 128 \<Longrightarrow> to_u32 (int (to_u32 (int (e_idx e * 128))) + int p) = 128 * e_idx e + p"
proof -
  assume "elt_ok e" "p < 128"
  then have "e_idx e * 128 < 2 ^ 32" "128 * e_idx e + p < 2 ^ 32" by (simp_all add: elt_ok_def)
  then show ?thesis using to_u32_id [of "e_idx e * 128"] to_u32_id [of "128 * e_idx e + p"]
    by (simp add: mult.commute)
qed

text \<open>Entering an element: at its first bit.\<close>

lemma sbv_enterElt_on:
  assumes "sbv_inv s" "p < length (s_elems s)"
  defines "e \<equiv> s_elems s ! p"
  obtains b it where "sbv_enterElt p e = Some it" "on_bit s p b it"
    "ebits_list e = b # filter (ebit e) [Suc b..<128 * e_idx e + 128]"
proof -
  have ok: "elt_ok e" "\<not> elt_empty e" using set_elem_ok [OF assms(1,2)] by (simp_all add: e_def)
  obtain q where q: "elt_find_first e = Some q" "q < 128" "wbit (e_bits e) q" "\<forall>r<q. \<not> wbit (e_bits e) r"
    using elt_find_first_props [OF ok] by blast
  have eb: "ebit e (128 * e_idx e + q)" using q by (simp add: ebit_pos)
  have no: "\<not> ebit e r" if "128 * e_idx e \<le> r" "r < 128 * e_idx e + q" for r
  proof -
    have "r = 128 * e_idx e + (r - 128 * e_idx e)" "r - 128 * e_idx e < q" using that by linarith+
    then show ?thesis using q(2,4) ebit_pos [of "r - 128 * e_idx e" e] by (metis less_trans)
  qed
  have m: "(128 * e_idx e + q) mod 128 = q" using q(2) by simp
  then have m64: "(128 * e_idx e + q) mod 64 = q mod 64" using mod_mod_cancel [of 64 128 "128 * e_idx e + q"] by simp
  let ?it = "\<lparr>si_atEnd = False, si_iter = p, si_bitNumber = 128 * e_idx e + q,
       si_wordNumber = q div 64, si_bits = drop_bit (q mod 64) (e_bits e ! (q div 64))\<rparr>"
  show ?thesis
  proof (rule that)
    show "sbv_enterElt p e = Some ?it"
      by (simp only: sbv_enterElt_def q(1) to_u32_pos [OF ok(1) q(2)] m option.case Let_def)
    show "on_bit s p (128 * e_idx e + q) ?it"
      using eb m m64 assms(2) by (simp add: on_bit_def e_def)
    show "ebits_list e = (128 * e_idx e + q) # filter (ebit e) [Suc (128 * e_idx e + q)..<128 * e_idx e + 128]"
      unfolding ebits_list_def by (rule first_in_upt) (use q(2) eb no in auto)
  qed
qed

text \<open>One step of the iterator.\<close>

lemma ebit_word:
  assumes "elt_ok e" "k < 2" "m < 64"
  shows "ebit e (128 * e_idx e + 64 * k + m) \<longleftrightarrow> bit (e_bits e ! k) m"
proof -
  have "64 * k + m < 128" using assms(2,3) by linarith
  then have "ebit e (128 * e_idx e + (64 * k + m)) \<longleftrightarrow> wbit (e_bits e) (64 * k + m)" by (rule ebit_pos)
  also have "\<dots> \<longleftrightarrow> bit (e_bits e ! k) m" using assms wbit_word [of k "e_bits e" "64 * k + m"]
    by (simp add: elt_ok_def)
  finally show ?thesis by (simp add: add.assoc)
qed

lemma bit_pos_split:
  fixes b i :: nat
  assumes "i = b div 128"
  obtains k j where "k < 2" "j < 64" "b = 128 * i + 64 * k + j" "b mod 64 = j" "b mod 128 div 64 = k"
    "b mod 128 = 64 * k + j"
proof -
  let ?k = "b mod 128 div 64" and ?j = "b mod 64"
  have "b mod 128 mod 64 = ?j" by (simp add: mod_mod_cancel)
  then have "b mod 128 = 64 * ?k + ?j" by (metis mult_div_mod_eq)
  moreover from this have "b = 128 * i + 64 * ?k + ?j" using assms by (metis add.assoc mult_div_mod_eq)
  ultimately show ?thesis using that [of ?k ?j] by simp
qed

lemma nextNonZero_stay:
  "\<not> si_atEnd it \<Longrightarrow> shiftZeros (si_bits it) (si_bitNumber it) = (0, n) \<Longrightarrow>
   elt_find_next (s_elems s ! si_iter it) (n mod 128) = Some q \<Longrightarrow> n mod 128 \<noteq> 0 \<Longrightarrow>
   sbv_nextNonZero s it = Some \<lparr>si_atEnd = False, si_iter = si_iter it,
     si_bitNumber = to_u32 (int (to_u32 (int (e_idx (s_elems s ! si_iter it) * 128))) + int q),
     si_wordNumber = q mod 128 div 64,
     si_bits = drop_bit (q mod 64) (e_bits (s_elems s ! si_iter it) ! (q mod 128 div 64))\<rparr>"
  by (simp add: sbv_nextNonZero_def Let_def)

lemma on_bit_next:
  assumes inv: "sbv_inv s" and it: "on_bit s p b it"
  defines "e \<equiv> s_elems s ! p"
  defines "rest \<equiv> filter (ebit e) [Suc b..<128 * e_idx e + 128]"
  shows "\<exists>it'. sbv_it_next s it = Some it' \<and>
    (case rest of
       b' # bs \<Rightarrow> on_bit s p b' it' \<and> bs = filter (ebit e) [Suc b'..<128 * e_idx e + 128]
     | [] \<Rightarrow> if Suc p < length (s_elems s)
            then let e' = s_elems s ! Suc p in
              \<exists>b'. on_bit s (Suc p) b' it' \<and> ebits_list e' = b' # filter (ebit e') [Suc b'..<128 * e_idx e' + 128]
            else si_atEnd it')"
proof -
  have p: "p < length (s_elems s)" and eb: "ebit e b" and fields: "\<not> si_atEnd it" "si_iter it = p"
    "si_bitNumber it = b" "si_bits it = drop_bit (b mod 64) (e_bits e ! (b mod 128 div 64))"
    using it by (simp_all add: on_bit_def e_def)
  have ok: "elt_ok e" using set_elem_ok [OF inv p] by (simp add: e_def)
  obtain k j where kj: "k < 2" "j < 64" "b = 128 * e_idx e + 64 * k + j" "b mod 64 = j"
    "b mod 128 div 64 = k" "b mod 128 = 64 * k + j"
    using bit_pos_split [OF ebit_div [OF eb, symmetric]] by metis
  define w where "w = e_bits e ! k"
  have rng: "b < 128 * e_idx e + 128" "128 * e_idx e + 128 \<le> 2 ^ 32"
    using ebit_range [OF ok eb] ok by (simp_all add: elt_ok_def)
  let ?w1 = "drop_bit (Suc j) w" and ?n1 = "to_u32 (int b + 1)"
  have w1: "drop_bit 1 (si_bits it) = ?w1"
    using fields(4) by (simp only: kj(4,5) w_def [symmetric] drop_bit_drop_bit) simp
  have n1: "?n1 = Suc b mod 2 ^ 32" using to_u32_nat [of "Suc b"] by (simp add: add.commute)
  have step: "sbv_it_next s it = sbv_nextNonZero s (it\<lparr>si_bitNumber := ?n1, si_bits := ?w1\<rparr>)"
    using w1 fields(3) by (simp add: sbv_it_next_def)
  have b': "ebit e r \<longleftrightarrow> bit w (r - (128 * e_idx e + 64 * k))" if "b < r" "r < 128 * e_idx e + 64 * k + 64" for r
  proof -
    have "r = 128 * e_idx e + 64 * k + (r - (128 * e_idx e + 64 * k))" "r - (128 * e_idx e + 64 * k) < 64"
      using that kj(3) by linarith+
    then show ?thesis using ebit_word [OF ok kj(1), of "r - (128 * e_idx e + 64 * k)"] w_def by simp
  qed
  show ?thesis
  proof (cases "?w1 = 0")
    case False
    let ?t = "countTrailingZeros ?w1"
    let ?b = "Suc b + ?t"
    note z = countTrailingZeros_props [OF False, simplified bit_drop_bit_eq o_apply]
    have t: "bit w (Suc j + ?t)" "Suc j + ?t < 64" using z(1) bit_lt_64 by (auto simp: add.commute)
    have lt: "?b < 128 * e_idx e + 64 * k + 64" using t(2) kj(3) by linarith
    then have lt': "?b < 128 * e_idx e + 128" using kj(1) by linarith
    have nn: "?n1 = Suc b" using n1 rng lt' by simp
    have res: "sbv_it_next s it = Some (it\<lparr>si_bitNumber := ?b, si_bits := drop_bit ?t ?w1\<rparr>)"
    proof -
      have "shiftZeros ?w1 (Suc b) = (drop_bit ?t ?w1, ?b)"
        using shiftZeros_props [of ?w1 "Suc b"] False rng lt' by simp
      moreover have "drop_bit ?t ?w1 \<noteq> 0"
        using z(1) by (simp only: drop_bit_nonzero bit_drop_bit_eq o_apply) blast
      ultimately show ?thesis unfolding step sbv_nextNonZero_def using fields(1) nn by simp
    qed
    have ebb: "ebit e ?b" using b' [of ?b] lt t(1) kj(3) by simp
    have "rest = ?b # filter (ebit e) [Suc ?b..<128 * e_idx e + 128]"
      unfolding rest_def
    proof (rule first_in_upt [where P = "ebit e", OF _ lt' ebb])
      fix q assume q: "Suc b \<le> q" "q < ?b"
      then have "q - (128 * e_idx e + 64 * k) = Suc j + (q - Suc b)" "q - Suc b < ?t" using kj(3) by linarith+
      then show "\<not> ebit e q" using b' [of q] z(2) [of "q - Suc b"] q lt by (simp add: add.commute)
    qed simp
    moreover have "on_bit s p ?b (it\<lparr>si_bitNumber := ?b, si_bits := drop_bit ?t ?w1\<rparr>)"
    proof -
      have eqb: "?b = 128 * e_idx e + 64 * k + (Suc j + ?t)" using kj(3) by simp
      obtain k' j' where k': "k' < 2" "j' < 64" "?b = 128 * e_idx e + 64 * k' + j'" "?b mod 64 = j'" "?b mod 128 div 64 = k'"
        using bit_pos_split [OF ebit_div [OF ebb, symmetric]] by metis
      have "k' = k \<and> j' = Suc j + ?t" using k'(1-3) eqb kj(1) t(2) by (simp add: less_2_cases_iff) linarith
      moreover have "drop_bit ?t ?w1 = drop_bit (Suc j + ?t) w" by (simp only: drop_bit_drop_bit add.commute)
      ultimately show ?thesis using k'(4,5) p ebb fields(1,2) by (simp add: on_bit_def e_def w_def)
    qed
    ultimately show ?thesis using res by simp
  next
    case True
    have sh: "shiftZeros ?w1 ?n1 = (0, ?n1)" using shiftZeros_props [of 0 ?n1] True by simp
    have m: "?n1 mod 128 = Suc b mod 128" unfolding n1 by (simp add: mod_mod_cancel)
    let ?next = "elt_find_next e (Suc b mod 128)"
    define c where "c = 64 * k + j + 1"
    have c: "0 < c" "c \<le> 128" and cb: "Suc b = 128 * e_idx e + c" using kj(1-3) by (simp_all add: c_def)
    have ebit_sub: "ebit e r \<longleftrightarrow> wbit (e_bits e) (r - 128 * e_idx e)"
      if "128 * e_idx e \<le> r" "r < 128 * e_idx e + 128" for r
      using ebit_pos [of "r - 128 * e_idx e" e] that by auto
    have nores: "rest = []" if "?next = None \<or> Suc b mod 128 = 0"
    proof (cases "c = 128")
      case True
      then show ?thesis using cb by (simp add: rest_def)
    next
      case False
      then have c': "c < 128" "c \<noteq> 0" using c by auto
      then have "?next = elt_find_next e c" "Suc b mod 128 = c" using cb by simp_all
      then have "\<forall>q\<ge>c. \<not> wbit (e_bits e) q"
        using that c' elt_find_next_props [OF ok c'(1)] by simp
      then have "\<not> ebit e r" if "Suc b \<le> r" "r < 128 * e_idx e + 128" for r
        using that cb ebit_sub [of r] by auto
      then show ?thesis by (simp add: rest_def filter_empty_conv)
    qed
    show ?thesis
    proof (cases "?next = None \<or> Suc b mod 128 = 0")
      case moved: True
      show ?thesis
      proof (cases "Suc p < length (s_elems s)")
        case False
        then have "Suc p = length (s_elems s)" using p by simp
        then have "sbv_it_next s it = Some \<lparr>si_atEnd = True, si_iter = Suc p, si_bitNumber = ?n1,
            si_wordNumber = 0, si_bits = 0\<rparr>"
          unfolding step sbv_nextNonZero_def using fields(1,2) sh moved m e_def by simp
        then show ?thesis using nores [OF moved] False by simp
      next
        case more: True
        then obtain b1 it1 where enter: "sbv_enterElt (Suc p) (s_elems s ! Suc p) = Some it1" "on_bit s (Suc p) b1 it1"
          "ebits_list (s_elems s ! Suc p)
           = b1 # filter (ebit (s_elems s ! Suc p)) [Suc b1..<128 * e_idx (s_elems s ! Suc p) + 128]"
          using sbv_enterElt_on [OF inv more] by metis
        have "sbv_it_next s it = Some it1"
          unfolding step sbv_nextNonZero_def using fields(1,2) sh moved m e_def more enter(1) by simp
        then show ?thesis using nores [OF moved] more enter(2,3) by (auto simp: Let_def)
      qed
    next
      case stay: False
      then have c': "c < 128" and nx: "?next = elt_find_next e c" "Suc b mod 128 = c"
        using c cb by (cases "c = 128"; auto)+
      obtain q where "?next = Some q" using stay by auto
      then have q: "elt_find_next e c = Some q" "c \<le> q" "q < 128" "wbit (e_bits e) q"
        "\<And>r. c \<le> r \<Longrightarrow> r < q \<Longrightarrow> \<not> wbit (e_bits e) r"
        using elt_find_next_props [OF ok c'] nx(1) by auto
      let ?b = "128 * e_idx e + q"
      let ?it = "\<lparr>si_atEnd = False, si_iter = p, si_bitNumber = ?b,
        si_wordNumber = q div 64, si_bits = drop_bit (q mod 64) (e_bits e ! (q div 64))\<rparr>"
      have res: "sbv_it_next s it = Some ?it"
        unfolding step using fields(1,2) sh m nx q(1,3) c'(1) c(1) mod_less [OF q(3)] to_u32_pos [OF ok q(3)]
        by (subst nextNonZero_stay [where n = ?n1 and q = q]) (simp_all add: e_def)
      have eb': "ebit e ?b" using q(3,4) by (simp add: ebit_pos)
      have "rest = ?b # filter (ebit e) [Suc ?b..<128 * e_idx e + 128]"
        unfolding rest_def
        by (rule first_in_upt [where P = "ebit e"]) (use q eb' cb ebit_sub in auto)
      moreover have "on_bit s p ?b ?it"
      proof -
        have "?b mod 128 = q" using q(3) by simp
        moreover from this have "?b mod 64 = q mod 64" using mod_mod_cancel [of 64 128 ?b] by simp
        ultimately show ?thesis using p eb' by (simp add: on_bit_def e_def)
      qed
      ultimately show ?thesis using res by simp
    qed
  qed
qed

text \<open>The whole walk.\<close>

lemma sbv_walk_on:
  assumes "sbv_inv s" "on_bit s p b it" "si_atEnd e"
  shows "sbv_walk s it e = Some (b # filter (ebit (s_elems s ! p)) [Suc b..<128 * e_idx (s_elems s ! p) + 128]
           @ concat (map ebits_list (drop (Suc p) (s_elems s))))"
  using assms(2)
proof (induction "length (filter (ebit (s_elems s ! p)) [Suc b..<128 * e_idx (s_elems s ! p) + 128]
           @ concat (map ebits_list (drop (Suc p) (s_elems s))))" arbitrary: p b it rule: less_induct)
  case less
  have p: "p < length (s_elems s)" "\<not> si_atEnd it" "si_bitNumber it = b" using less.prems by (simp_all add: on_bit_def)
  obtain it' where nx: "sbv_it_next s it = Some it'"
    and at': "case filter (ebit (s_elems s ! p)) [Suc b..<128 * e_idx (s_elems s ! p) + 128] of
       b' # bs \<Rightarrow> on_bit s p b' it' \<and> bs = filter (ebit (s_elems s ! p)) [Suc b'..<128 * e_idx (s_elems s ! p) + 128]
     | [] \<Rightarrow> if Suc p < length (s_elems s)
            then let e' = s_elems s ! Suc p in
              \<exists>b'. on_bit s (Suc p) b' it' \<and> ebits_list e' = b' # filter (ebit e') [Suc b'..<128 * e_idx e' + 128]
            else si_atEnd it'"
    using on_bit_next [OF assms(1) less.prems] by blast
  have walk: "sbv_walk s it e = Option.bind (sbv_walk s it' e) (\<lambda>xs. Some (b # xs))"
    using p(2,3) assms(3) nx by (subst sbv_walk.simps) (simp add: sbv_it_eq_def)
  show ?case
  proof (cases "filter (ebit (s_elems s ! p)) [Suc b..<128 * e_idx (s_elems s ! p) + 128]")
    case (Cons b' bs)
    then have on: "on_bit s p b' it'" "bs = filter (ebit (s_elems s ! p)) [Suc b'..<128 * e_idx (s_elems s ! p) + 128]"
      using at' by simp_all
    have "sbv_walk s it' e = Some (b' # bs @ concat (map ebits_list (drop (Suc p) (s_elems s))))"
      using less.hyps [OF _ on(1)] on(2) Cons by simp
    then show ?thesis using walk Cons by simp
  next
    case Nil
    show ?thesis
    proof (cases "Suc p < length (s_elems s)")
      case True
      let ?e = "s_elems s ! Suc p"
      obtain b' where on: "on_bit s (Suc p) b' it'"
        and bits: "ebits_list ?e = b' # filter (ebit ?e) [Suc b'..<128 * e_idx ?e + 128]"
        using at' Nil True by (auto simp: Let_def)
      have d: "drop (Suc p) (s_elems s) = ?e # drop (Suc (Suc p)) (s_elems s)" using True by (rule drop_nth_cons)
      have "sbv_walk s it' e = Some (concat (map ebits_list (drop (Suc p) (s_elems s))))"
        using less.hyps [OF _ on] Nil bits d by simp
      then show ?thesis using walk Nil by simp
    next
      case False
      then have "si_atEnd it'" using at' Nil by simp
      then have "sbv_walk s it' e = Some []" using assms(3) by (subst sbv_walk.simps) (simp add: sbv_it_eq_def)
      then show ?thesis using walk Nil False by simp
    qed
  qed
qed

lemma sbv_elems_eq:
  assumes "sbv_inv s"
  shows "sbv_elems s = Some (concat (map ebits_list (s_elems s)))"
proof (cases "s_elems s")
  case Nil
  then show ?thesis by (simp add: sbv_elems_def sbv_it_make_def sbv_firstNonZero_def sbv_walk.simps sbv_it_eq_def)
next
  case (Cons e es)
  then have 0: "0 < length (s_elems s)" "s_elems s ! 0 = e" by simp_all
  obtain b it where on: "sbv_enterElt 0 e = Some it" "on_bit s 0 b it"
    "ebits_list e = b # filter (ebit e) [Suc b..<128 * e_idx e + 128]"
    using sbv_enterElt_on [OF assms 0(1)] 0(2) by metis
  have "sbv_it_make s False = Some it" using Cons on(1) by (simp add: sbv_it_make_def sbv_firstNonZero_def)
  moreover have "sbv_it_make s True = Some \<lparr>si_atEnd = True, si_iter = 0, si_bitNumber = 0, si_wordNumber = 2 ^ 32 - 1, si_bits = 0\<rparr>"
    by (simp add: sbv_it_make_def sbv_firstNonZero_def)
  ultimately show ?thesis
    using sbv_walk_on [OF assms on(2)] on(3) 0(2) Cons by (simp add: sbv_elems_def)
qed

lemma ebits_list_props:
  assumes "elt_ok e"
  shows "set (ebits_list e) = {b. ebit e b}" "sorted_wrt (<) (ebits_list e)"
  using ebit_range [OF assms] by (auto simp: ebits_list_def sorted_wrt_filter)

lemma ebits_concat:
  "elems_ok es \<Longrightarrow> set (concat (map ebits_list es)) = {b. mbit es b} \<and> sorted_wrt (<) (concat (map ebits_list es))"
proof (induction es)
  case (Cons e es)
  have "a < b" if a: "ebit e a" and b: "mbit es b" for a b
  proof -
    obtain x where x: "x \<in> set es" "e_idx x = b div 128" using mbit_idx [OF b] by blast
    then have "a div 128 < b div 128" using Cons.prems a by (auto simp: ebit_def)
    then show ?thesis by (metis div_le_mono not_le)
  qed
  then show ?case using Cons ebits_list_props [of e] by (auto simp: sorted_wrt_append)
qed simp

lemma sbv_elems_sorted:
  assumes "sbv_inv s"
  shows "sbv_elems s = Some (sorted_list_of_set (sbv_bits s))"
proof -
  have ok: "elems_ok (s_elems s)" using assms by (simp add: sbv_inv_def)
  note c = ebits_concat [OF ok]
  have "finite (sbv_bits s)" by (rule sbvs.finite_bits [OF assms])
  then have "sorted_list_of_set (sbv_bits s) = concat (map ebits_list (s_elems s))"
    using c by (intro sorted_distinct_set_unique) (auto simp: sbv_bits_def strict_sorted_iff)
  then show ?thesis using sbv_elems_eq [OF assms] by simp
qed

subsection \<open>First, last, count\<close>

lemma sbv_find_first_props:
  assumes "sbv_inv s"
  shows "sbv_find_first s = Some (if sbv_bits s = {} then - 1 else to_s32 (Min (sbv_bits s)))"
proof (cases "s_elems s")
  case Nil
  then show ?thesis by (simp add: sbv_find_first_def sbv_bits_def)
next
  case (Cons e es)
  then have ok: "elt_ok e" "\<not> elt_empty e" "elems_ok (e # es)" using assms by (simp_all add: sbv_inv_def)
  obtain q where q: "elt_find_first e = Some q" "q < 128" "wbit (e_bits e) q" "\<forall>r<q. \<not> wbit (e_bits e) r"
    using elt_find_first_props [OF ok(1,2)] by blast
  let ?b = "128 * e_idx e + q"
  have eb: "ebit e ?b" using q by (simp add: ebit_pos)
  have "?b \<le> r" if "mbit (e # es) r" for r
  proof -
    have "\<exists>x\<in>set (e # es). e_idx x = r div 128" using mbit_idx [OF that] .
    then have le: "e_idx e \<le> r div 128" using ok(3) by auto
    show ?thesis
    proof (cases "e_idx e = r div 128")
      case True
      then have "\<not> mbit es r" using ok(3) mbit_above [of es "e_idx e" r] by auto
      then have "wbit (e_bits e) (r mod 128)" using that by (simp add: ebit_def)
      then have "q \<le> r mod 128" using q(4) not_less by blast
      then show ?thesis using True by (metis add_le_cancel_left mult_div_mod_eq)
    next
      case False
      then have "e_idx e + 1 \<le> r div 128" using le by simp
      then have "(e_idx e + 1) * 128 \<le> r" by (metis div_times_less_eq_dividend le_trans mult_le_mono1)
      then show ?thesis using q(2) by simp
    qed
  qed
  moreover have "?b \<in> sbv_bits s" using eb Cons by (simp add: sbv_bits_def)
  ultimately have "Min (sbv_bits s) = ?b"
    using sbvs.finite_bits [OF assms] Cons by (intro Min_eqI) (auto simp: sbv_bits_def)
  moreover have "?b < 2 ^ 32" using ebit_range [OF ok(1) eb] by simp
  moreover have "sbv_bits s \<noteq> {}" using \<open>?b \<in> sbv_bits s\<close> by auto
  ultimately show ?thesis using Cons q(1) to_u32_id [of ?b] by (simp add: sbv_find_first_def mult.commute)
qed

lemma elt_count_props: "elt_ok e \<Longrightarrow> elt_count e = card {b. ebit e b}"
proof -
  assume ok: "elt_ok e"
  have eq: "{b. ebit e b} = (+) (128 * e_idx e) ` {p. wbit (e_bits e) p}"
  proof (intro set_eqI iffI)
    fix b assume "b \<in> {b. ebit e b}"
    then have "b = 128 * e_idx e + b mod 128" "wbit (e_bits e) (b mod 128)"
      by (auto simp: ebit_def)
    then show "b \<in> (+) (128 * e_idx e) ` {p. wbit (e_bits e) p}" by blast
  next
    fix b assume "b \<in> (+) (128 * e_idx e) ` {p. wbit (e_bits e) p}"
    then obtain p where p: "b = 128 * e_idx e + p" "wbit (e_bits e) p" by auto
    then have "p < 128" using ok by (auto simp: elt_ok_def dest: wbit_lt)
    then show "b \<in> {b. ebit e b}" using p by (simp add: ebit_pos)
  qed
  have "card {p. wbit (e_bits e) p} \<le> card {..<128::nat}"
    by (rule card_mono) (use ok in \<open>auto simp: elt_ok_def dest: wbit_lt\<close>)
  then show ?thesis using count_fold [of 0 "e_bits e"] to_u32_id [of "card {p. wbit (e_bits e) p}"]
    by (simp add: elt_count_def eq card_image) (simp add: to_u32_def)
qed

lemma sbv_count_card:
  assumes "sbv_inv s"
  shows "sbv_count s = card (sbv_bits s) mod 2 ^ 32"
proof -
  have "elems_ok es \<Longrightarrow> sum_list (map elt_count es) = card {b. mbit es b}" for es
  proof (induction es)
    case (Cons e es)
    have "{b. mbit (e # es) b} = {b. ebit e b} \<union> {b. mbit es b}" by auto
    moreover have "{b. ebit e b} \<inter> {b. mbit es b} = {}"
      using Cons.prems ebit_not_mbit [of e _ es] by auto
    moreover have "finite {b. ebit e b}" "finite {b. mbit es b}"
      using ebits_list_props(1) [of e] ebits_concat [of es] Cons.prems
      by (metis List.finite_set elems_ok_simps(2))+
    ultimately show ?case using Cons elt_count_props [of e] by (simp add: card_Un_disjoint)
  qed (simp add: mbit_def [abs_def])
  then have "sum_list (map elt_count (s_elems s)) = card (sbv_bits s)"
    using assms by (simp add: sbv_inv_def sbv_bits_def)
  moreover have "sbv_count s = to_u32 (int (sum_list (map elt_count (s_elems s))))"
    using foldl_u32 [of elt_count 0 "s_elems s"] by (simp add: sbv_count_def to_u32_def)
  ultimately show ?thesis by (simp add: to_u32_nat)
qed

subsection \<open>Properties\<close>

lemma sbv_contains_iff:
  assumes "sbv_inv s" "sbv_inv r"
  shows "sbv_contains s r \<longleftrightarrow> sbv_bits r \<subseteq> sbv_bits s"
  unfolding sbv_contains_def using sbvs.superset [OF sbv_copy_props(1) [OF assms(1)] assms(2)]
  by (simp add: sbv_copy_props)

lemma sbv_derived_props:
  assumes "sbv_inv s" "sbv_inv r"
  shows "sbv_inv (sbv_union s r) \<and> sbv_bits (sbv_union s r) = sbv_bits s \<union> sbv_bits r"
    and "sbv_inv (sbv_inter s r) \<and> sbv_bits (sbv_inter s r) = sbv_bits s \<inter> sbv_bits r"
    and "sbv_inv (sbv_minus s r) \<and> sbv_bits (sbv_minus s r) = sbv_bits s - sbv_bits r"
  using assms sbv_diff3_props [OF assms]
  by (simp_all add: sbv_union_def sbv_inter_def sbv_minus_def sbv_copy_props sbv_or_props sbv_and_props)

text \<open>The operators with both operands possibly one object.\<close>

lemma sbv_or_any:
  assumes "sbv_inv s" "sbv_inv r" "same \<Longrightarrow> r = s"
  shows "sbv_inv (fst (sbv_or same s r))" "sbv_bits (fst (sbv_or same s r)) = sbv_bits s \<union> sbv_bits r"
    "snd (sbv_or same s r) \<longleftrightarrow> \<not> sbv_bits r \<subseteq> sbv_bits s"
  using assms sbv_or_props [OF assms(1,2)] by (cases same; simp add: sbv_or_def [of True])+

lemma sbv_and_any:
  assumes "sbv_inv s" "sbv_inv r" "same \<Longrightarrow> r = s"
  shows "sbv_inv (fst (sbv_and same s r))" "sbv_bits (fst (sbv_and same s r)) = sbv_bits s \<inter> sbv_bits r"
    "snd (sbv_and same s r) \<longleftrightarrow> \<not> sbv_bits s \<subseteq> sbv_bits r"
  using assms sbv_and_props [OF assms(1,2)] by (cases same; simp add: sbv_and_def [of True])+

lemma sbv_diff_any:
  assumes "sbv_inv s" "sbv_inv r" "same \<Longrightarrow> r = s"
  shows "sbv_inv (fst (sbv_intersectWithComplement same s r))"
    "sbv_bits (fst (sbv_intersectWithComplement same s r)) = sbv_bits s - sbv_bits r"
    "snd (sbv_intersectWithComplement same s r) \<longleftrightarrow> sbv_bits s \<inter> sbv_bits r \<noteq> {}"
  using assms sbv_diff_props [OF assms(1,2)] sbvs.isempty_iff [OF assms(1)]
  by (cases same; simp add: sbv_intersectWithComplement_def [of True] sbv_clear_props)+

lemma sbv_small: "sbv_inv (sbv_set (sbv_set sbv_new 300) 5)" "sbv_bits (sbv_set (sbv_set sbv_new 300) 5) = {5, 300}"
    "sbv_inv (sbv_set sbv_new 300)" "sbv_bits (sbv_set sbv_new 300) = {300}"
  by (simp_all add: sbvs.inv_intros sbvs.bits_simps)

text \<open>Setting, clearing and testing a bit of a sparse bit vector act on the represented set as
  on a set, and keep the element list sorted and free of empty elements, wherever the cached
  position stands; testing moves that position and nothing else.\<close>

theorem sbv_set_reset_correct:
  assumes "sbv_inv s" "b < 2 ^ 32"
  shows "sbv_inv (sbv_set s b) \<and> sbv_bits (sbv_set s b) = insert b (sbv_bits s)
    \<and> sbv_inv (sbv_reset s b) \<and> sbv_bits (sbv_reset s b) = sbv_bits s - {b}
    \<and> (fst (sbv_test s b) \<longleftrightarrow> b \<in> sbv_bits s) \<and> sbv_inv (snd (sbv_test s b))
    \<and> sbv_bits (snd (sbv_test s b)) = sbv_bits s
    \<and> sbv_bits (fst (sbv_test_and_set s b)) = insert b (sbv_bits s)
    \<and> (snd (sbv_test_and_set s b) \<longleftrightarrow> b \<notin> sbv_bits s)"
  using assms sbv_set_props [of "snd (sbv_test s b)" b]
  by (auto simp: sbv_set_props sbv_reset_props sbv_test_props sbv_test_and_set_def split_def Let_def)

theorem sbv_set_reset_witness:
  "fst (sbv_test (sbv_set (sbv_set sbv_new 300) 5) 300) \<and> sbv_bits (sbv_reset (sbv_set (sbv_set sbv_new 300) 5) 300) = {5}"
  using sbv_set_reset_correct [of "sbv_set (sbv_set sbv_new 300) 5" 300] by (simp add: sbv_small) auto

text \<open>C30: The merges of sparse bit vectors compute union, intersection and difference (the
  difference also in its three-operand form), keep the list well formed, and return whether the
  target changed, exactly; an object merged with itself is treated as its own copy would be.\<close>

theorem sbv_binary_correct:
  assumes "sbv_inv s" "sbv_inv r" "same \<Longrightarrow> r = s"
  shows "sbv_inv (fst (sbv_or same s r)) \<and> sbv_bits (fst (sbv_or same s r)) = sbv_bits s \<union> sbv_bits r
    \<and> snd (sbv_or same s r) = (sbv_bits (fst (sbv_or same s r)) \<noteq> sbv_bits s)
    \<and> sbv_inv (fst (sbv_and same s r)) \<and> sbv_bits (fst (sbv_and same s r)) = sbv_bits s \<inter> sbv_bits r
    \<and> snd (sbv_and same s r) = (sbv_bits (fst (sbv_and same s r)) \<noteq> sbv_bits s)
    \<and> sbv_inv (fst (sbv_intersectWithComplement same s r))
    \<and> sbv_bits (fst (sbv_intersectWithComplement same s r)) = sbv_bits s - sbv_bits r
    \<and> snd (sbv_intersectWithComplement same s r)
        = (sbv_bits (fst (sbv_intersectWithComplement same s r)) \<noteq> sbv_bits s)
    \<and> sbv_bits (sbv_intersectWithComplement3 False same t r s) = sbv_bits r - sbv_bits s"
  using sbv_or_any [OF assms] sbv_and_any [OF assms] sbv_diff_any [OF assms] sbv_diff3_props(2) [OF assms(2,1)]
  by simp blast

theorem sbv_binary_witness:
  "sbv_bits (fst (sbv_and False (sbv_set (sbv_set sbv_new 300) 5) (sbv_set sbv_new 300))) = {300}"
  using sbv_binary_correct [of "sbv_set (sbv_set sbv_new 300) 5" "sbv_set sbv_new 300" False]
  by (simp add: sbv_small)

text \<open>Two sparse bit vectors are equal as objects exactly when they represent one set (the
  representation is canonical up to the cached position); \<open>contains\<close> decides the superset
  relation, \<open>intersects\<close> having a common element, and \<open>count\<close> is the cardinality modulo the
  width of its result.\<close>

theorem sbv_relations_correct:
  assumes "sbv_inv s" "sbv_inv r"
  shows "sbv_eq s r = (sbv_bits s = sbv_bits r) \<and> (sbv_eq s r \<longleftrightarrow> s_elems s = s_elems r)
    \<and> sbv_contains s r = (sbv_bits r \<subseteq> sbv_bits s)
    \<and> sbv_intersects s r = (sbv_bits s \<inter> sbv_bits r \<noteq> {})
    \<and> sbv_empty s = (sbv_bits s = {})
    \<and> sbv_count s = card (sbv_bits s) mod 2 ^ 32"
  using assms sbv_eq_iff [OF assms]
  by (simp add: sbv_contains_iff sbv_intersects_iff sbv_count_card sbvs.isempty_iff)
    (simp add: sbv_eq_def sbvEq_loop_iff)

theorem sbv_relations_witness:
  "sbv_contains (sbv_set (sbv_set sbv_new 300) 5) (sbv_set sbv_new 300) \<and> sbv_count (sbv_set (sbv_set sbv_new 300) 5) = 2"
  using sbv_relations_correct [of "sbv_set (sbv_set sbv_new 300) 5" "sbv_set sbv_new 300"]
  by (simp add: sbv_small)

text \<open>C34: Walking a sparse bit vector from \<open>begin()\<close> to \<open>end()\<close> never aborts, ends, and yields
  the elements of the set in increasing order, each once; \<open>find_first\<close> is their minimum (as an
  \<open>int\<close>), or -1 when there is none.\<close>

theorem sbv_iteration_correct:
  assumes "sbv_inv s"
  shows "sbv_elems s = Some (sorted_list_of_set (sbv_bits s))
    \<and> sbv_find_first s = Some (if sbv_bits s = {} then - 1 else to_s32 (Min (sbv_bits s)))"
  using assms by (simp add: sbv_elems_sorted sbv_find_first_props)

theorem sbv_iteration_witness: "sbv_elems (sbv_set (sbv_set sbv_new 300) 5) = Some [5, 300]"
  using sbv_iteration_correct [of "sbv_set (sbv_set sbv_new 300) 5"] by (simp add: sbv_small)

end
