(* ===== verification/PointsToSet.thy ===== *)
theory PointsToSet
  imports CoreBitVec SparseBitVecIter
begin

text \<open>
  \<open>svf/lib/MemoryModel/PointsTo.cpp\<close>: the points-to set, one of three bit vectors behind one
  interface, with a mapping from the node ids of the client to the (denser) ids stored, and the
  reverse mapping.

  The discriminated union is the datatype \<open>backing\<close>. A \<open>MappingPtr\<close> is null or an address with
  the table it points to; pointers are compared by address. \<open>None\<close> is the result of an operation
  that runs into a failed assertion or an abort, or that would read the inactive member of the
  union of its operand (the code asserts equal mappings, not equal types). Operations that take
  \<open>*this\<close> and another set have a flag for both being one object.

  \<open>pt_nodes\<close> is the set of client nodes a points-to set stands for, \<open>pt_inv\<close> its invariant.
\<close>

subsection \<open>The object\<close>

datatype pt_type = SBV | CBV | BV

datatype backing = Sbv (the_sbv: sbv) | Cbv (the_cbv: cbv) | Bv (the_bv: cbv)

type_synonym mapping_ptr = "(nat \<times> nat list) option"

record points_to =
  pt_data :: backing
  pt_nodeMapping :: mapping_ptr
  pt_reverseNodeMapping :: mapping_ptr

text \<open>The option \<open>PtType\<close> and the two static members for the best known mapping.\<close>

record pt_config =
  o_ptType :: pt_type
  o_bestNodeMapping :: mapping_ptr
  o_bestReverseNodeMapping :: mapping_ptr

fun b_new :: "pt_type \<Rightarrow> backing" where
  "b_new SBV = Sbv sbv_new"
| "b_new CBV = Cbv (cbv_new 0)"
| "b_new BV = Bv (bv_new 0)"

definition pt_new :: "pt_config \<Rightarrow> points_to" where
  "pt_new g = \<lparr>pt_data = b_new (o_ptType g), pt_nodeMapping = o_bestNodeMapping g,
     pt_reverseNodeMapping = o_bestReverseNodeMapping g\<rparr>"

fun b_copy :: "backing \<Rightarrow> backing" where
  "b_copy (Sbv s) = Sbv (sbv_copy s)"
| "b_copy (Cbv c) = Cbv c"
| "b_copy (Bv c) = Bv c"

definition pt_copy :: "points_to \<Rightarrow> points_to" where
  "pt_copy p = p\<lparr>pt_data := b_copy (pt_data p)\<rparr>"

definition pt_assign :: "bool \<Rightarrow> points_to \<Rightarrow> points_to \<Rightarrow> points_to" where
  "pt_assign same p r = (if same then p else p\<lparr>pt_data := b_copy (pt_data r),
     pt_nodeMapping := pt_nodeMapping r, pt_reverseNodeMapping := pt_reverseNodeMapping r\<rparr>)"

definition setCurrentBestNodeMapping :: "mapping_ptr \<Rightarrow> mapping_ptr \<Rightarrow> pt_config \<Rightarrow> pt_config" where
  "setCurrentBestNodeMapping m r g = g\<lparr>o_bestNodeMapping := m, o_bestReverseNodeMapping := r\<rparr>"

subsection \<open>Node ids\<close>

definition mapped :: "mapping_ptr \<Rightarrow> nat \<Rightarrow> nat option" where
  "mapped m n = (case m of None \<Rightarrow> Some n | Some (a, t) \<Rightarrow> if n < length t then Some (t ! n) else None)"

definition getInternalNode :: "points_to \<Rightarrow> nat \<Rightarrow> nat option" where
  "getInternalNode p n = mapped (pt_nodeMapping p) n"

definition getExternalNode :: "points_to \<Rightarrow> nat \<Rightarrow> nat option" where
  "getExternalNode p n = mapped (pt_reverseNodeMapping p) n"

definition ptr_eq :: "mapping_ptr \<Rightarrow> mapping_ptr \<Rightarrow> bool" where
  "ptr_eq m m' = (map_option fst m = map_option fst m')"

definition metaSame :: "points_to \<Rightarrow> points_to \<Rightarrow> bool" where
  "metaSame p r = (ptr_eq (pt_nodeMapping p) (pt_nodeMapping r)
     \<and> ptr_eq (pt_reverseNodeMapping p) (pt_reverseNodeMapping r))"

subsection \<open>Operations\<close>

definition pt_empty :: "points_to \<Rightarrow> bool" where
  "pt_empty p = (case pt_data p of Cbv c \<Rightarrow> cbv_empty c | Sbv s \<Rightarrow> sbv_empty s | Bv c \<Rightarrow> cbv_empty c)"

definition pt_count :: "points_to \<Rightarrow> nat" where
  "pt_count p = (case pt_data p of Cbv c \<Rightarrow> cbv_count c | Sbv s \<Rightarrow> sbv_count s | Bv c \<Rightarrow> cbv_count c)"

definition pt_clear :: "points_to \<Rightarrow> points_to" where
  "pt_clear p = p\<lparr>pt_data := (case pt_data p of Cbv c \<Rightarrow> Cbv (cbv_clear c) | Sbv s \<Rightarrow> Sbv (sbv_clear s)
     | Bv c \<Rightarrow> Bv (cbv_clear c))\<rparr>"

fun b_test :: "backing \<Rightarrow> nat \<Rightarrow> bool \<times> backing" where
  "b_test (Cbv c) n = (cbv_test c n, Cbv c)"
| "b_test (Sbv s) n = (fst (sbv_test s n), Sbv (snd (sbv_test s n)))"
| "b_test (Bv c) n = (cbv_test c n, Bv c)"

definition pt_test :: "points_to \<Rightarrow> nat \<Rightarrow> (bool \<times> points_to) option" where
  "pt_test p n = map_option (\<lambda>i. (fst (b_test (pt_data p) i), p\<lparr>pt_data := snd (b_test (pt_data p) i)\<rparr>))
     (getInternalNode p n)"

fun b_test_and_set :: "backing \<Rightarrow> nat \<Rightarrow> backing \<times> bool" where
  "b_test_and_set (Cbv c) n = (Cbv (fst (cbv_test_and_set c n)), snd (cbv_test_and_set c n))"
| "b_test_and_set (Sbv s) n = (Sbv (fst (sbv_test_and_set s n)), snd (sbv_test_and_set s n))"
| "b_test_and_set (Bv c) n = (Bv (fst (cbv_test_and_set c n)), snd (cbv_test_and_set c n))"

definition pt_test_and_set :: "points_to \<Rightarrow> nat \<Rightarrow> (points_to \<times> bool) option" where
  "pt_test_and_set p n = map_option (\<lambda>i. (p\<lparr>pt_data := fst (b_test_and_set (pt_data p) i)\<rparr>,
     snd (b_test_and_set (pt_data p) i))) (getInternalNode p n)"

fun b_set :: "backing \<Rightarrow> nat \<Rightarrow> backing" where
  "b_set (Cbv c) n = Cbv (cbv_set c n)"
| "b_set (Sbv s) n = Sbv (sbv_set s n)"
| "b_set (Bv c) n = Bv (cbv_set c n)"

definition pt_set :: "points_to \<Rightarrow> nat \<Rightarrow> points_to option" where
  "pt_set p n = map_option (\<lambda>i. p\<lparr>pt_data := b_set (pt_data p) i\<rparr>) (getInternalNode p n)"

fun b_reset :: "backing \<Rightarrow> nat \<Rightarrow> backing" where
  "b_reset (Cbv c) n = Cbv (cbv_reset c n)"
| "b_reset (Sbv s) n = Sbv (sbv_reset s n)"
| "b_reset (Bv c) n = Bv (cbv_reset c n)"

definition pt_reset :: "points_to \<Rightarrow> nat \<Rightarrow> points_to option" where
  "pt_reset p n = map_option (\<lambda>i. p\<lparr>pt_data := b_reset (pt_data p) i\<rparr>) (getInternalNode p n)"

text \<open>Two operands: the assertion on the mappings, then the case split on the type of the left
  one.\<close>

fun b_contains :: "backing \<Rightarrow> backing \<Rightarrow> bool option" where
  "b_contains (Cbv c) (Cbv r) = Some (cbv_contains c r)"
| "b_contains (Sbv s) (Sbv r) = Some (sbv_contains s r)"
| "b_contains (Bv c) (Bv r) = Some (cbv_contains c r)"
| "b_contains _ _ = None"

definition pt_contains :: "points_to \<Rightarrow> points_to \<Rightarrow> bool option" where
  "pt_contains p r = (if \<not> metaSame p r then None else b_contains (pt_data p) (pt_data r))"

fun b_intersects :: "backing \<Rightarrow> backing \<Rightarrow> bool option" where
  "b_intersects (Cbv c) (Cbv r) = Some (cbv_intersects c r)"
| "b_intersects (Sbv s) (Sbv r) = Some (sbv_intersects s r)"
| "b_intersects (Bv c) (Bv r) = Some (cbv_intersects c r)"
| "b_intersects _ _ = None"

definition pt_intersects :: "points_to \<Rightarrow> points_to \<Rightarrow> bool option" where
  "pt_intersects p r = (if \<not> metaSame p r then None else b_intersects (pt_data p) (pt_data r))"

fun b_eq :: "bool \<Rightarrow> backing \<Rightarrow> backing \<Rightarrow> bool option" where
  "b_eq same (Cbv c) (Cbv r) = Some (cbv_eq same c r)"
| "b_eq same (Sbv s) (Sbv r) = Some (sbv_eq s r)"
| "b_eq same (Bv c) (Bv r) = Some (cbv_eq same c r)"
| "b_eq same _ _ = None"

definition pt_eq :: "bool \<Rightarrow> points_to \<Rightarrow> points_to \<Rightarrow> bool option" where
  "pt_eq same p r = (if \<not> metaSame p r then None else b_eq same (pt_data p) (pt_data r))"

definition pt_ne :: "bool \<Rightarrow> points_to \<Rightarrow> points_to \<Rightarrow> bool option" where
  "pt_ne same p r = (if \<not> metaSame p r then None else map_option Not (pt_eq same p r))"

fun b_or :: "bool \<Rightarrow> backing \<Rightarrow> backing \<Rightarrow> (backing \<times> bool) option" where
  "b_or same (Cbv c) (Cbv r) = Some (map_prod Cbv id (cbv_or same c r))"
| "b_or same (Sbv s) (Sbv r) = Some (map_prod Sbv id (sbv_or same s r))"
| "b_or same (Bv c) (Bv r) = Some (map_prod Bv id (cbv_or same c r))"
| "b_or same _ _ = None"

fun b_and :: "bool \<Rightarrow> backing \<Rightarrow> backing \<Rightarrow> (backing \<times> bool) option" where
  "b_and same (Cbv c) (Cbv r) = Some (map_prod Cbv id (cbv_and c r))"
| "b_and same (Sbv s) (Sbv r) = Some (map_prod Sbv id (sbv_and same s r))"
| "b_and same (Bv c) (Bv r) = Some (map_prod Bv id (cbv_and c r))"
| "b_and same _ _ = None"

fun b_diff :: "bool \<Rightarrow> backing \<Rightarrow> backing \<Rightarrow> (backing \<times> bool) option" where
  "b_diff same (Cbv c) (Cbv r) = Some (map_prod Cbv id (cbv_intersectWithComplement c r))"
| "b_diff same (Sbv s) (Sbv r) = Some (map_prod Sbv id (sbv_intersectWithComplement same s r))"
| "b_diff same (Bv c) (Bv r) = Some (map_prod Bv id (cbv_intersectWithComplement c r))"
| "b_diff same _ _ = None"

definition pt_lift :: "(backing \<Rightarrow> backing \<Rightarrow> (backing \<times> bool) option) \<Rightarrow> points_to \<Rightarrow> points_to \<Rightarrow> (points_to \<times> bool) option" where
  "pt_lift f p r = (if \<not> metaSame p r then None
     else map_option (\<lambda>(d, changed). (p\<lparr>pt_data := d\<rparr>, changed)) (f (pt_data p) (pt_data r)))"

definition pt_or :: "bool \<Rightarrow> points_to \<Rightarrow> points_to \<Rightarrow> (points_to \<times> bool) option" where
  "pt_or same = pt_lift (b_or same)"

definition pt_and :: "bool \<Rightarrow> points_to \<Rightarrow> points_to \<Rightarrow> (points_to \<times> bool) option" where
  "pt_and same = pt_lift (b_and same)"

definition pt_diff :: "bool \<Rightarrow> points_to \<Rightarrow> points_to \<Rightarrow> (points_to \<times> bool) option" where
  "pt_diff same = pt_lift (b_diff same)"

definition pt_intersectWithComplement :: "bool \<Rightarrow> points_to \<Rightarrow> points_to \<Rightarrow> (points_to \<times> bool) option" where
  "pt_intersectWithComplement same = pt_lift (b_diff same)"

text \<open>The overwriting form, for a target that is neither of the operands.\<close>

definition pt_intersectWithComplement3 :: "points_to \<Rightarrow> points_to \<Rightarrow> points_to \<Rightarrow> points_to option" where
  "pt_intersectWithComplement3 p l r =
     (if \<not> metaSame p r \<or> \<not> metaSame p l then None
      else map_option (\<lambda>d. p\<lparr>pt_data := d\<rparr>)
        (case (pt_data p, pt_data l, pt_data r) of
           (Cbv c, Cbv l', Cbv r') \<Rightarrow> Some (Cbv (cbv_intersectWithComplement3 False c l' r'))
         | (Sbv c, Sbv l', Sbv r') \<Rightarrow> Some (Sbv (sbv_intersectWithComplement3 False False c l' r'))
         | (Bv c, Bv l', Bv r') \<Rightarrow> Some (Bv (cbv_intersectWithComplement3 False c l' r'))
         | _ \<Rightarrow> None))"

subsection \<open>The iterator\<close>

datatype pt_it = SbvIt sbv_it | CbvIt cbv_it | BvIt cbv_it

definition pt_it_make :: "points_to \<Rightarrow> bool \<Rightarrow> pt_it option" where
  "pt_it_make p end =
     (case pt_data p of
        Cbv c \<Rightarrow> Some (CbvIt (cbv_it_make c end))
      | Sbv s \<Rightarrow> map_option SbvIt (sbv_it_make s end)
      | Bv c \<Rightarrow> Some (BvIt (cbv_it_make c end)))"

fun b_it_eq :: "backing \<Rightarrow> pt_it \<Rightarrow> pt_it \<Rightarrow> bool option" where
  "b_it_eq (Cbv c) (CbvIt x) (CbvIt y) = Some (cbv_it_eq c x y)"
| "b_it_eq (Sbv s) (SbvIt x) (SbvIt y) = Some (sbv_it_eq x y)"
| "b_it_eq (Bv c) (BvIt x) (BvIt y) = Some (cbv_it_eq c x y)"
| "b_it_eq _ _ _ = None"

definition pt_it_eq :: "points_to \<Rightarrow> pt_it \<Rightarrow> pt_it \<Rightarrow> bool option" where
  "pt_it_eq p x y = b_it_eq (pt_data p) x y"

definition pt_it_atEnd :: "points_to \<Rightarrow> pt_it \<Rightarrow> bool option" where
  "pt_it_atEnd p it = Option.bind (pt_it_make p True) (pt_it_eq p it)"

fun b_it_next :: "backing \<Rightarrow> pt_it \<Rightarrow> pt_it option" where
  "b_it_next (Cbv c) (CbvIt x) = Some (CbvIt (cbv_it_next c x))"
| "b_it_next (Sbv s) (SbvIt x) = map_option SbvIt (sbv_it_next s x)"
| "b_it_next (Bv c) (BvIt x) = Some (BvIt (cbv_it_next c x))"
| "b_it_next _ _ = None"

definition pt_it_next :: "points_to \<Rightarrow> pt_it \<Rightarrow> pt_it option" where
  "pt_it_next p it = Option.bind (pt_it_atEnd p it) (\<lambda>e. if e then None else b_it_next (pt_data p) it)"

fun b_it_deref :: "backing \<Rightarrow> pt_it \<Rightarrow> nat option" where
  "b_it_deref (Cbv c) (CbvIt x) = Some (cbv_it_deref c x)"
| "b_it_deref (Sbv s) (SbvIt x) = Some (si_bitNumber x)"
| "b_it_deref (Bv c) (BvIt x) = Some (cbv_it_deref c x)"
| "b_it_deref _ _ = None"

definition pt_it_deref :: "points_to \<Rightarrow> pt_it \<Rightarrow> nat option" where
  "pt_it_deref p it = Option.bind (pt_it_atEnd p it) (\<lambda>e. if e then None
     else Option.bind (b_it_deref (pt_data p) it) (getExternalNode p))"

text \<open>\<open>for (const NodeID o : *this)\<close>, collecting the ids.\<close>

partial_function (option) pt_walk :: "points_to \<Rightarrow> pt_it \<Rightarrow> pt_it \<Rightarrow> nat list option" where
  "pt_walk p it e =
     Option.bind (pt_it_eq p it e) (\<lambda>done.
       if done then Some []
       else Option.bind (pt_it_deref p it) (\<lambda>n.
              Option.bind (pt_it_next p it) (\<lambda>it'.
                Option.bind (pt_walk p it' e) (\<lambda>ns. Some (n # ns)))))"

definition pt_elems :: "points_to \<Rightarrow> nat list option" where
  "pt_elems p = Option.bind (pt_it_make p False) (\<lambda>b. Option.bind (pt_it_make p True) (pt_walk p b))"

definition pt_find_first :: "points_to \<Rightarrow> int option" where
  "pt_find_first p = (if pt_count p = 0 then Some (- 1)
     else Option.bind (pt_it_make p False) (\<lambda>b. map_option to_s32 (pt_it_deref p b)))"

subsection \<open>Loops over other sets\<close>

text \<open>\<open>operator|= (const NodeBS &)\<close>\<close>

fun orNodes_loop :: "points_to \<Rightarrow> nat list \<Rightarrow> bool \<Rightarrow> (points_to \<times> bool) option" where
  "orNodes_loop p [] changed = Some (p, changed)"
| "orNodes_loop p (n # ns) changed =
     (if changed then Option.bind (pt_set p n) (\<lambda>q. orNodes_loop q ns changed)
      else Option.bind (pt_test_and_set p n) (\<lambda>(q, ch). orNodes_loop q ns ch))"

definition pt_orNodeBS :: "points_to \<Rightarrow> sbv \<Rightarrow> (points_to \<times> bool) option" where
  "pt_orNodeBS p rhs = Option.bind (sbv_elems rhs) (\<lambda>ns. orNodes_loop p ns False)"

definition toNodeBS :: "points_to \<Rightarrow> sbv option" where
  "toNodeBS p = map_option (foldl sbv_set sbv_new) (pt_elems p)"

fun setAll :: "points_to \<Rightarrow> nat list \<Rightarrow> points_to option" where
  "setAll p [] = Some p"
| "setAll p (n # ns) = Option.bind (pt_set p n) (\<lambda>q. setAll q ns)"

definition checkAndRemap :: "pt_config \<Rightarrow> points_to \<Rightarrow> points_to option" where
  "checkAndRemap g p =
     (if \<not> ptr_eq (pt_nodeMapping p) (o_bestNodeMapping g)
      then Option.bind (pt_elems p) (\<lambda>ns. setAll (pt_new g) ns)
      else Some p)"

definition pt_union :: "points_to \<Rightarrow> points_to \<Rightarrow> points_to option" where
  "pt_union l r = map_option fst (pt_or False (pt_copy l) r)"

definition pt_inter :: "points_to \<Rightarrow> points_to \<Rightarrow> points_to option" where
  "pt_inter l r = map_option fst (pt_and False (pt_copy l) r)"

definition pt_minus :: "points_to \<Rightarrow> points_to \<Rightarrow> points_to option" where
  "pt_minus l r = map_option fst (pt_diff False (pt_copy l) r)"

text \<open>The hash: \<open>std::hash\<close> of a \<open>size_t\<close> is the number itself; pairs are combined by Szudzik's
  pairing on 64 bits (\<open>svf/include/Util/GeneralType.h\<close>).\<close>

definition szudzik :: "u64 \<Rightarrow> u64 \<Rightarrow> u64" where
  "szudzik a b = (if a > b then b * b + a else a * a + a + b)"

definition sbv_hash :: "sbv \<Rightarrow> u64 option" where
  "sbv_hash s = Option.bind (sbv_find_first s) (\<lambda>f. map_option (\<lambda>l.
     szudzik (szudzik (of_nat (sbv_count s)) (of_int f)) (of_int l)) (sbv_find_last s))"

definition pt_hash :: "points_to \<Rightarrow> u64 option" where
  "pt_hash p = (case pt_data p of Cbv c \<Rightarrow> Some (cbv_hash c) | Sbv s \<Rightarrow> sbv_hash s | Bv c \<Rightarrow> Some (cbv_hash c))"


subsection \<open>The set represented\<close>

fun b_inv :: "backing \<Rightarrow> bool" where
  "b_inv (Sbv s) = sbv_inv s"
| "b_inv (Cbv c) = cbv_inv c"
| "b_inv (Bv c) = cbv_inv c"

fun b_bits :: "backing \<Rightarrow> nat set" where
  "b_bits (Sbv s) = sbv_bits s"
| "b_bits (Cbv c) = cbv_bits c"
| "b_bits (Bv c) = cbv_bits c"

fun b_type :: "backing \<Rightarrow> pt_type" where
  "b_type (Sbv s) = SBV"
| "b_type (Cbv c) = CBV"
| "b_type (Bv c) = BV"

text \<open>The two mappings are inverse permutations of the ids below a bound (or both null).\<close>

definition maps_ok :: "mapping_ptr \<Rightarrow> mapping_ptr \<Rightarrow> bool" where
  "maps_ok m r \<longleftrightarrow> (m = None \<and> r = None) \<or>
     (\<exists>a t b u. m = Some (a, t) \<and> r = Some (b, u) \<and> length t = length u \<and> length t \<le> 2 ^ 32
        \<and> (\<forall>n<length t. t ! n < length u \<and> u ! (t ! n) = n)
        \<and> (\<forall>i<length u. u ! i < length t \<and> t ! (u ! i) = i))"

definition pt_nodes :: "points_to \<Rightarrow> nat set" where
  "pt_nodes p = {n. \<exists>i\<in>b_bits (pt_data p). getInternalNode p n = Some i}"

definition pt_inv :: "points_to \<Rightarrow> bool" where
  "pt_inv p \<longleftrightarrow> b_inv (pt_data p) \<and> maps_ok (pt_nodeMapping p) (pt_reverseNodeMapping p)
     \<and> (\<forall>i\<in>b_bits (pt_data p). getExternalNode p i \<noteq> None)"

definition pt_same :: "points_to \<Rightarrow> points_to \<Rightarrow> bool" where
  "pt_same p r \<longleftrightarrow> b_type (pt_data p) = b_type (pt_data r)
     \<and> pt_nodeMapping p = pt_nodeMapping r \<and> pt_reverseNodeMapping p = pt_reverseNodeMapping r"

lemma pt_same_metaSame: "pt_same p r \<Longrightarrow> metaSame p r"
  by (simp add: pt_same_def metaSame_def ptr_eq_def)

lemma maps_ok_inverse:
  "maps_ok m r \<Longrightarrow> mapped m n = Some i \<longleftrightarrow> mapped r i = Some n"
  unfolding maps_ok_def mapped_def by (auto split: if_splits)

lemma pt_nodes_ext: "pt_inv p \<Longrightarrow> n \<in> pt_nodes p \<longleftrightarrow> (\<exists>i\<in>b_bits (pt_data p). getExternalNode p i = Some n)"
  using maps_ok_inverse by (auto simp: pt_nodes_def pt_inv_def getInternalNode_def getExternalNode_def)

lemma int_inj: "pt_inv p \<Longrightarrow> getInternalNode p n = Some i \<Longrightarrow> getInternalNode p n' = Some i \<Longrightarrow> n = n'"
  using maps_ok_inverse [of "pt_nodeMapping p" "pt_reverseNodeMapping p"]
  by (simp add: pt_inv_def getInternalNode_def)

lemma internal_lt: "pt_inv p \<Longrightarrow> n < 2 ^ 32 \<Longrightarrow> getInternalNode p n = Some i \<Longrightarrow> i < 2 ^ 32"
  unfolding pt_inv_def maps_ok_def getInternalNode_def mapped_def
  by (fastforce split: if_splits)

lemma internal_external: "pt_inv p \<Longrightarrow> getInternalNode p n = Some i \<Longrightarrow> getExternalNode p i = Some n"
  using maps_ok_inverse [of "pt_nodeMapping p" "pt_reverseNodeMapping p" n i]
  by (simp add: pt_inv_def getInternalNode_def getExternalNode_def)

text \<open>The operations of the backing vectors, for the three types at once.\<close>

lemma b_new_props: "b_inv (b_new t)" "b_bits (b_new t) = {}" "b_type (b_new t) = t"
  using bv_new_props [of 0]
  by (cases t; simp add: sbvs.inv_emp sbvs.bits_emp cbv_new_inv cbv_new_bits)+

lemma b_copy_props: "b_inv b \<Longrightarrow> b_inv (b_copy b)" "b_bits (b_copy b) = b_bits b" "b_type (b_copy b) = b_type b"
  by (cases b; simp add: sbv_copy_props)+

lemma b_set_props:
  assumes "b_inv b" "i < 2 ^ 32"
  shows "b_inv (b_set b i)" "b_bits (b_set b i) = insert i (b_bits b)" "b_type (b_set b i) = b_type b"
  using assms by (cases b; simp add: sbv_set_props cbv_set_inv cbv_set_bits)+

lemma b_reset_props:
  assumes "b_inv b" "i < 2 ^ 32"
  shows "b_inv (b_reset b i)" "b_bits (b_reset b i) = b_bits b - {i}" "b_type (b_reset b i) = b_type b"
  using assms by (cases b; simp add: sbv_reset_props cbv_reset_inv cbv_reset_bits)+

lemma b_test_props:
  assumes "b_inv b"
  shows "fst (b_test b i) \<longleftrightarrow> i \<in> b_bits b" "b_inv (snd (b_test b i))" "b_bits (snd (b_test b i)) = b_bits b"
    "b_type (snd (b_test b i)) = b_type b"
  using assms by (cases b; simp add: sbv_test_props cbv_test_iff)+

lemma b_test_and_set_props:
  assumes "b_inv b" "i < 2 ^ 32"
  shows "b_inv (fst (b_test_and_set b i))" "b_bits (fst (b_test_and_set b i)) = insert i (b_bits b)"
    "b_type (fst (b_test_and_set b i)) = b_type b" "snd (b_test_and_set b i) \<longleftrightarrow> i \<notin> b_bits b"
proof -
  have *: "sbv_inv s \<Longrightarrow> sbv_inv (fst (sbv_test_and_set s i)) \<and> sbv_bits (fst (sbv_test_and_set s i)) = insert i (sbv_bits s)
      \<and> snd (sbv_test_and_set s i) = (i \<notin> sbv_bits s)" for s
    using assms(2) sbv_test_props [of s i] sbv_set_props [of "snd (sbv_test s i)" i]
    by (auto simp: sbv_test_and_set_def split_def Let_def)
  show "b_inv (fst (b_test_and_set b i))" "b_bits (fst (b_test_and_set b i)) = insert i (b_bits b)"
    "b_type (fst (b_test_and_set b i)) = b_type b" "snd (b_test_and_set b i) \<longleftrightarrow> i \<notin> b_bits b"
    using assms * by (cases b; auto simp: cbv_test_and_set_def cbv_test_iff cbv_set_inv cbv_set_bits)+
qed

lemma cbv_flag_sub: "cbv_inv c \<Longrightarrow> cbv_inv r \<Longrightarrow> (same \<Longrightarrow> r = c) \<Longrightarrow> \<not> cbv_bits r \<subseteq> cbv_bits c \<Longrightarrow> snd (cbv_or same c r)"
  using cbv_or_flag [of c r same] size0_bits by (auto split: if_splits)

text \<open>A binary operation of the backings computes a set function and a flag, and keeps the type.\<close>

definition b_op_ok :: "(backing \<times> bool) option \<Rightarrow> backing \<Rightarrow> nat set \<Rightarrow> (bool \<Rightarrow> bool) \<Rightarrow> bool" where
  "b_op_ok res a X F \<longleftrightarrow> (\<exists>c ch. res = Some (c, ch) \<and> b_inv c \<and> b_bits c = X \<and> b_type c = b_type a \<and> F ch)"

lemma b_op_okI:
  "res = Some (map_prod f id q) \<Longrightarrow> b_inv (f (fst q)) \<Longrightarrow> b_bits (f (fst q)) = X \<Longrightarrow> b_type (f (fst q)) = b_type a \<Longrightarrow>
   F (snd q) \<Longrightarrow> b_op_ok res a X F"
  by (cases q) (auto simp: b_op_ok_def)

lemma b_or_ok:
  assumes "b_inv a" "b_inv b" "b_type a = b_type b" "same \<Longrightarrow> b = a"
  shows "b_op_ok (b_or same a b) a (b_bits a \<union> b_bits b)
    (\<lambda>ch. (\<not> b_bits b \<subseteq> b_bits a \<longrightarrow> ch) \<and> (b_type a = SBV \<longrightarrow> ch \<longrightarrow> \<not> b_bits b \<subseteq> b_bits a))"
proof (cases a)
  case (Sbv s)
  then obtain r where "b = Sbv r" using assms(3) by (cases b) auto
  with Sbv show ?thesis using assms sbv_or_any [of s r same] 
    by (intro b_op_okI [where f = Sbv and q = "sbv_or same s r"]) (simp_all)
next
  case (Cbv s)
  then obtain r where "b = Cbv r" using assms(3) by (cases b) auto
  with Cbv show ?thesis using assms cbv_or_inv [of s r same] cbv_or_bits [of s r same] cbv_flag_sub [of s r same]
    
    by (intro b_op_okI [where f = Cbv and q = "cbv_or same s r"]) (simp_all)
next
  case (Bv s)
  then obtain r where "b = Bv r" using assms(3) by (cases b) auto
  with Bv show ?thesis using assms cbv_or_inv [of s r same] cbv_or_bits [of s r same] cbv_flag_sub [of s r same]
    
    by (intro b_op_okI [where f = Bv and q = "cbv_or same s r"]) (simp_all)
qed

lemma b_and_ok:
  assumes "b_inv a" "b_inv b" "b_type a = b_type b" "same \<Longrightarrow> b = a"
  shows "b_op_ok (b_and same a b) a (b_bits a \<inter> b_bits b) (\<lambda>ch. ch \<longleftrightarrow> \<not> b_bits a \<subseteq> b_bits b)"
proof (cases a)
  case (Sbv s)
  then obtain r where "b = Sbv r" using assms(3) by (cases b) auto
  with Sbv show ?thesis using assms sbv_and_any [of s r same] 
    by (intro b_op_okI [where f = Sbv and q = "sbv_and same s r"]) (simp_all)
next
  case (Cbv s)
  then obtain r where "b = Cbv r" using assms(3) by (cases b) auto
  with Cbv show ?thesis using assms cbv_and_props [of s r] 
    by (intro b_op_okI [where f = Cbv and q = "cbv_and s r"]) (simp_all)
next
  case (Bv s)
  then obtain r where "b = Bv r" using assms(3) by (cases b) auto
  with Bv show ?thesis using assms cbv_and_props [of s r] 
    by (intro b_op_okI [where f = Bv and q = "cbv_and s r"]) (simp_all)
qed

lemma b_diff_ok:
  assumes "b_inv a" "b_inv b" "b_type a = b_type b" "same \<Longrightarrow> b = a"
  shows "b_op_ok (b_diff same a b) a (b_bits a - b_bits b) (\<lambda>ch. ch \<longleftrightarrow> b_bits a \<inter> b_bits b \<noteq> {})"
proof (cases a)
  case (Sbv s)
  then obtain r where "b = Sbv r" using assms(3) by (cases b) auto
  with Sbv show ?thesis using assms sbv_diff_any [of s r same] 
    by (intro b_op_okI [where f = Sbv and q = "sbv_intersectWithComplement same s r"]) (simp_all)
next
  case (Cbv s)
  then obtain r where "b = Cbv r" using assms(3) by (cases b) auto
  with Cbv show ?thesis using assms cbv_diff_props [of s r]
    
    by (intro b_op_okI [where f = Cbv and q = "cbv_intersectWithComplement s r"]) (simp_all add: cbv_intersectWithComplement_def)
next
  case (Bv s)
  then obtain r where "b = Bv r" using assms(3) by (cases b) auto
  with Bv show ?thesis using assms cbv_diff_props [of s r]
    
    by (intro b_op_okI [where f = Bv and q = "cbv_intersectWithComplement s r"]) (simp_all add: cbv_intersectWithComplement_def)
qed

lemma b_relations:
  assumes "b_inv a" "b_inv b" "b_type a = b_type b" "same \<Longrightarrow> b = a"
  shows "b_eq same a b = Some (b_bits a = b_bits b)"
    and "b_contains a b = Some (b_bits b \<subseteq> b_bits a)"
    and "b_intersects a b = Some (b_bits a \<inter> b_bits b \<noteq> {})"
  using assms
  by (cases a; cases b; simp add: sbv_eq_iff cbv_eq_iff sbv_contains_iff cbv_contains_iff sbv_intersects_iff cbv_intersects_iff)+

lemma b_bits_lt: "b_inv b \<Longrightarrow> i \<in> b_bits b \<Longrightarrow> i < 2 ^ 32"
  by (cases b) (auto dest: sbv_bits_lt cbv_bits_lt)

lemma b_finite: "b_inv b \<Longrightarrow> finite (b_bits b)"
  by (rule finite_subset [of _ "{..<2 ^ 32}"]) (auto dest: b_bits_lt)

text \<open>Replacing the backing of a points-to set.\<close>

lemma pt_data_update:
  assumes "pt_inv p" "b_inv d" "\<And>i. i \<in> b_bits d \<Longrightarrow> getExternalNode p i \<noteq> None"
  shows "pt_inv (p\<lparr>pt_data := d\<rparr>)" "pt_nodes (p\<lparr>pt_data := d\<rparr>) = {n. \<exists>i\<in>b_bits d. getInternalNode p n = Some i}"
  using assms by (auto simp: pt_inv_def pt_nodes_def getExternalNode_def getInternalNode_def)

lemma pt_same_refl: "b_type d = b_type (pt_data p) \<Longrightarrow> pt_same (p\<lparr>pt_data := d\<rparr>) p"
  by (simp add: pt_same_def)

lemma pt_lift_ok:
  assumes "pt_inv p" "pt_inv r" "pt_same p r" "b_op_ok (f (pt_data p) (pt_data r)) (pt_data p) X F"
    and sub: "X \<subseteq> b_bits (pt_data p) \<union> b_bits (pt_data r)"
  shows "\<exists>q ch. pt_lift f p r = Some (q, ch) \<and> pt_inv q \<and> pt_same q p \<and> F ch
    \<and> pt_nodes q = {n. \<exists>i\<in>X. getInternalNode p n = Some i}"
proof -
  obtain c ch where c: "f (pt_data p) (pt_data r) = Some (c, ch)" "b_inv c" "b_bits c = X"
    "b_type c = b_type (pt_data p)" "F ch"
    using assms(4) by (auto simp: b_op_ok_def)
  have ext: "getExternalNode p i \<noteq> None" if "i \<in> b_bits c" for i
    using that sub c(3) assms(1-3) by (auto simp: pt_inv_def pt_same_def getExternalNode_def)
  have "pt_lift f p r = Some (p\<lparr>pt_data := c\<rparr>, ch)"
    using c(1) pt_same_metaSame [OF assms(3)] by (simp add: pt_lift_def)
  then show ?thesis using pt_data_update [OF assms(1) c(2) ext] pt_same_refl [OF c(4)] c(3,5) by auto
qed

text \<open>The set operations on the nodes, through the injective mapping to the stored ids.\<close>

lemma nodes_int:
  assumes "pt_inv p" "pt_inv r" "pt_same p r"
  shows "{n. \<exists>i\<in>b_bits (pt_data p) \<union> b_bits (pt_data r). getInternalNode p n = Some i} = pt_nodes p \<union> pt_nodes r"
    "{n. \<exists>i\<in>b_bits (pt_data p) \<inter> b_bits (pt_data r). getInternalNode p n = Some i} = pt_nodes p \<inter> pt_nodes r"
    "{n. \<exists>i\<in>b_bits (pt_data p) - b_bits (pt_data r). getInternalNode p n = Some i} = pt_nodes p - pt_nodes r"
  using assms(3) by (auto simp: pt_nodes_def pt_same_def getInternalNode_def)

lemma bits_nodes_sub:
  assumes "pt_inv p" "pt_inv r" "pt_same p r"
  shows "b_bits (pt_data p) \<subseteq> b_bits (pt_data r) \<longleftrightarrow> pt_nodes p \<subseteq> pt_nodes r"
    "b_bits (pt_data r) \<subseteq> b_bits (pt_data p) \<longleftrightarrow> pt_nodes r \<subseteq> pt_nodes p"
    "b_bits (pt_data p) \<inter> b_bits (pt_data r) = {} \<longleftrightarrow> pt_nodes p \<inter> pt_nodes r = {}"
    "b_bits (pt_data p) = b_bits (pt_data r) \<longleftrightarrow> pt_nodes p = pt_nodes r"
proof -
  have same: "getInternalNode r = getInternalNode p" using assms(3) by (auto simp: pt_same_def getInternalNode_def fun_eq_iff)
  have ex: "\<exists>n. getInternalNode p n = Some i" if "i \<in> b_bits (pt_data p) \<or> i \<in> b_bits (pt_data r)" for i
  proof -
    have "getExternalNode p i \<noteq> None" using that assms by (auto simp: pt_inv_def pt_same_def getExternalNode_def)
    then show ?thesis using assms(1) maps_ok_inverse by (fastforce simp: pt_inv_def getExternalNode_def getInternalNode_def)
  qed
  have mem: "n \<in> pt_nodes p \<longleftrightarrow> i \<in> b_bits (pt_data p)" "n \<in> pt_nodes r \<longleftrightarrow> i \<in> b_bits (pt_data r)"
    if "getInternalNode p n = Some i" for n i
    using that by (auto simp: pt_nodes_def same)
  have conv: "(\<forall>i. (i \<in> b_bits (pt_data p) \<or> i \<in> b_bits (pt_data r)) \<longrightarrow> P (i \<in> b_bits (pt_data p)) (i \<in> b_bits (pt_data r)))
      \<longleftrightarrow> (\<forall>n. (n \<in> pt_nodes p \<or> n \<in> pt_nodes r) \<longrightarrow> P (n \<in> pt_nodes p) (n \<in> pt_nodes r))" for P
  proof
    assume l: "\<forall>i. (i \<in> b_bits (pt_data p) \<or> i \<in> b_bits (pt_data r)) \<longrightarrow> P (i \<in> b_bits (pt_data p)) (i \<in> b_bits (pt_data r))"
    show "\<forall>n. (n \<in> pt_nodes p \<or> n \<in> pt_nodes r) \<longrightarrow> P (n \<in> pt_nodes p) (n \<in> pt_nodes r)"
    proof (intro allI impI)
      fix n assume n: "n \<in> pt_nodes p \<or> n \<in> pt_nodes r"
      then obtain i where "getInternalNode p n = Some i" by (auto simp: pt_nodes_def same)
      then show "P (n \<in> pt_nodes p) (n \<in> pt_nodes r)" using l [rule_format, of i] n mem by simp
    qed
  next
    assume r: "\<forall>n. (n \<in> pt_nodes p \<or> n \<in> pt_nodes r) \<longrightarrow> P (n \<in> pt_nodes p) (n \<in> pt_nodes r)"
    show "\<forall>i. (i \<in> b_bits (pt_data p) \<or> i \<in> b_bits (pt_data r)) \<longrightarrow> P (i \<in> b_bits (pt_data p)) (i \<in> b_bits (pt_data r))"
    proof (intro allI impI)
      fix i assume i: "i \<in> b_bits (pt_data p) \<or> i \<in> b_bits (pt_data r)"
      then obtain n where "getInternalNode p n = Some i" using ex by blast
      then show "P (i \<in> b_bits (pt_data p)) (i \<in> b_bits (pt_data r))" using r [rule_format, of n] i mem by simp
    qed
  qed
  show "b_bits (pt_data p) \<subseteq> b_bits (pt_data r) \<longleftrightarrow> pt_nodes p \<subseteq> pt_nodes r" using conv [of "\<lambda>a b. a \<longrightarrow> b"] by blast
  show "b_bits (pt_data r) \<subseteq> b_bits (pt_data p) \<longleftrightarrow> pt_nodes r \<subseteq> pt_nodes p" using conv [of "\<lambda>a b. b \<longrightarrow> a"] by blast
  show "b_bits (pt_data p) \<inter> b_bits (pt_data r) = {} \<longleftrightarrow> pt_nodes p \<inter> pt_nodes r = {}" using conv [of "\<lambda>a b. \<not> (a \<and> b)"] by blast
  show "b_bits (pt_data p) = b_bits (pt_data r) \<longleftrightarrow> pt_nodes p = pt_nodes r" using conv [of "\<lambda>a b. a = b"] by blast
qed


lemma pt_or_ok:
  assumes "pt_inv p" "pt_inv r" "pt_same p r" "same \<Longrightarrow> r = p"
  shows "\<exists>q ch. pt_or same p r = Some (q, ch) \<and> pt_inv q \<and> pt_same q p
    \<and> ((\<not> pt_nodes r \<subseteq> pt_nodes p \<longrightarrow> ch) \<and> (b_type (pt_data p) = SBV \<longrightarrow> ch \<longrightarrow> \<not> pt_nodes r \<subseteq> pt_nodes p))
    \<and> pt_nodes q = pt_nodes p \<union> pt_nodes r"
  using pt_lift_ok [where f = "b_or same", OF assms(1-3) b_or_ok [where same = same]] assms nodes_int(1) [OF assms(1-3)] bits_nodes_sub(2) [OF assms(1-3)]
  by (simp add: pt_or_def pt_inv_def pt_same_def)

lemma pt_and_ok:
  assumes "pt_inv p" "pt_inv r" "pt_same p r" "same \<Longrightarrow> r = p"
  shows "\<exists>q ch. pt_and same p r = Some (q, ch) \<and> pt_inv q \<and> pt_same q p
    \<and> (ch \<longleftrightarrow> \<not> pt_nodes p \<subseteq> pt_nodes r) \<and> pt_nodes q = pt_nodes p \<inter> pt_nodes r"
  using pt_lift_ok [where f = "b_and same", OF assms(1-3) b_and_ok [where same = same]] assms nodes_int(2) [OF assms(1-3)] bits_nodes_sub(1) [OF assms(1-3)]
  by (simp add: pt_and_def pt_inv_def pt_same_def le_infI1)

lemma pt_diff_ok:
  assumes "pt_inv p" "pt_inv r" "pt_same p r" "same \<Longrightarrow> r = p"
  shows "\<exists>q ch. pt_diff same p r = Some (q, ch) \<and> pt_inv q \<and> pt_same q p
    \<and> (ch \<longleftrightarrow> pt_nodes p \<inter> pt_nodes r \<noteq> {}) \<and> pt_nodes q = pt_nodes p - pt_nodes r"
  using pt_lift_ok [where f = "b_diff same", OF assms(1-3) b_diff_ok [where same = same]] assms nodes_int(3) [OF assms(1-3)] bits_nodes_sub(3) [OF assms(1-3)]
  by (simp add: pt_diff_def pt_inv_def pt_same_def) blast

lemma pt_relations:
  assumes "pt_inv p" "pt_inv r" "pt_same p r" "same \<Longrightarrow> r = p"
  shows "pt_eq same p r = Some (pt_nodes p = pt_nodes r)"
    "pt_contains p r = Some (pt_nodes r \<subseteq> pt_nodes p)"
    "pt_intersects p r = Some (pt_nodes p \<inter> pt_nodes r \<noteq> {})"
  using b_relations [of "pt_data p" "pt_data r" same] bits_nodes_sub [OF assms(1-3)] pt_same_metaSame [OF assms(3)] assms
  by (simp_all add: pt_eq_def pt_contains_def pt_intersects_def pt_inv_def pt_same_def)

lemma pt_empty_iff: "pt_inv p \<Longrightarrow> pt_empty p \<longleftrightarrow> pt_nodes p = {}"
proof -
  assume inv: "pt_inv p"
  have "pt_empty p \<longleftrightarrow> b_bits (pt_data p) = {}"
    using inv by (cases "pt_data p") (auto simp: pt_empty_def pt_inv_def sbvs.isempty_iff cbv_empty_iff)
  also have "\<dots> \<longleftrightarrow> pt_nodes p = {}"
    using bits_nodes_sub(3) [OF inv inv] by (simp add: pt_same_def)
  finally show ?thesis .
qed

lemma pt_clear_ok: "pt_inv p \<Longrightarrow> pt_inv (pt_clear p) \<and> pt_nodes (pt_clear p) = {} \<and> pt_same (pt_clear p) p"
  by (cases "pt_data p") (simp_all add: pt_clear_def pt_inv_def pt_nodes_def pt_same_def sbv_clear_props cbv_clear_props)

lemma pt_copy_ok: "pt_inv p \<Longrightarrow> pt_inv (pt_copy p) \<and> pt_nodes (pt_copy p) = pt_nodes p \<and> pt_same (pt_copy p) p"
  by (simp add: pt_copy_def pt_inv_def pt_nodes_def pt_same_def b_copy_props getInternalNode_def getExternalNode_def)

text \<open>Single nodes.\<close>

lemma nodes_insert:
  assumes "pt_inv p" "getInternalNode p n = Some i"
  shows "{m. \<exists>j\<in>insert i (b_bits (pt_data p)). getInternalNode p m = Some j} = insert n (pt_nodes p)"
    "{m. \<exists>j\<in>b_bits (pt_data p) - {i}. getInternalNode p m = Some j} = pt_nodes p - {n}"
    "n \<in> pt_nodes p \<longleftrightarrow> i \<in> b_bits (pt_data p)"
  using assms int_inj [OF assms(1)] by (auto simp: pt_nodes_def)

lemma pt_set_ok:
  assumes "pt_inv p" "n < 2 ^ 32" "getInternalNode p n = Some i"
  shows "\<exists>q. pt_set p n = Some q \<and> pt_inv q \<and> pt_same q p \<and> pt_nodes q = insert n (pt_nodes p)"
proof -
  note i = internal_lt [OF assms]
  have inv: "b_inv (pt_data p)" using assms(1) by (simp add: pt_inv_def)
  note b = b_set_props [OF inv i]
  have "getExternalNode p j \<noteq> None" if "j \<in> b_bits (b_set (pt_data p) i)" for j
    using that assms(1) internal_external [OF assms(1,3)] by (auto simp: b(2) pt_inv_def)
  note u = pt_data_update [OF assms(1) b(1) this]
  show ?thesis using u nodes_insert(1) [OF assms(1,3)] assms(3) pt_same_refl [OF b(3)]
    by (simp add: pt_set_def b(2))
qed

lemma pt_reset_ok:
  assumes "pt_inv p" "n < 2 ^ 32" "getInternalNode p n = Some i"
  shows "\<exists>q. pt_reset p n = Some q \<and> pt_inv q \<and> pt_same q p \<and> pt_nodes q = pt_nodes p - {n}"
proof -
  note i = internal_lt [OF assms]
  have inv: "b_inv (pt_data p)" using assms(1) by (simp add: pt_inv_def)
  note b = b_reset_props [OF inv i]
  have "getExternalNode p j \<noteq> None" if "j \<in> b_bits (b_reset (pt_data p) i)" for j
    using that assms(1) by (auto simp: b(2) pt_inv_def)
  note u = pt_data_update [OF assms(1) b(1) this]
  show ?thesis using u nodes_insert(2) [OF assms(1,3)] assms(3) pt_same_refl [OF b(3)]
    by (simp add: pt_reset_def b(2))
qed

lemma pt_test_ok:
  assumes "pt_inv p" "getInternalNode p n = Some i"
  shows "\<exists>q. pt_test p n = Some (n \<in> pt_nodes p, q) \<and> pt_inv q \<and> pt_same q p \<and> pt_nodes q = pt_nodes p"
proof -
  have inv: "b_inv (pt_data p)" using assms(1) by (simp add: pt_inv_def)
  note b = b_test_props [OF inv]
  have "getExternalNode p j \<noteq> None" if "j \<in> b_bits (snd (b_test (pt_data p) i))" for j
    using that assms(1) by (auto simp: b pt_inv_def)
  note u = pt_data_update [OF assms(1) b(2) this]
  show ?thesis using u nodes_insert(3) [OF assms] assms(2) pt_same_refl [OF b(4)]
    by (simp add: pt_test_def b(1,3)) (simp add: pt_nodes_def)
qed

lemma pt_test_and_set_ok:
  assumes "pt_inv p" "n < 2 ^ 32" "getInternalNode p n = Some i"
  shows "\<exists>q. pt_test_and_set p n = Some (q, n \<notin> pt_nodes p) \<and> pt_inv q \<and> pt_same q p \<and> pt_nodes q = insert n (pt_nodes p)"
proof -
  note i = internal_lt [OF assms]
  have inv: "b_inv (pt_data p)" using assms(1) by (simp add: pt_inv_def)
  note b = b_test_and_set_props [OF inv i]
  have "getExternalNode p j \<noteq> None" if "j \<in> b_bits (fst (b_test_and_set (pt_data p) i))" for j
    using that assms(1) internal_external [OF assms(1,3)] by (auto simp: b(2) pt_inv_def)
  note u = pt_data_update [OF assms(1) b(1) this]
  show ?thesis using u nodes_insert(1,3) [OF assms(1,3)] assms(3) pt_same_refl [OF b(3)]
    by (simp add: pt_test_and_set_def b(2,4))
qed

lemma pt_same_internal: "pt_same q p \<Longrightarrow> getInternalNode q = getInternalNode p"
  by (simp add: pt_same_def getInternalNode_def fun_eq_iff)

lemma pt_same_trans: "pt_same a b \<Longrightarrow> pt_same b c \<Longrightarrow> pt_same a c"
  by (simp add: pt_same_def)

text \<open>Adding a list of nodes.\<close>

lemma setAll_ok:
  "pt_inv p \<Longrightarrow> \<forall>n\<in>set ns. n < 2 ^ 32 \<and> getInternalNode p n \<noteq> None \<Longrightarrow>
   \<exists>q. setAll p ns = Some q \<and> pt_inv q \<and> pt_same q p \<and> pt_nodes q = pt_nodes p \<union> set ns"
proof (induction ns arbitrary: p)
  case (Cons n ns)
  then obtain i where "getInternalNode p n = Some i" by auto
  then obtain q where q: "pt_set p n = Some q" "pt_inv q" "pt_same q p" "pt_nodes q = insert n (pt_nodes p)"
    using pt_set_ok [OF Cons.prems(1), of n i] Cons.prems(2) by auto
  then obtain r where "setAll q ns = Some r" "pt_inv r" "pt_same r q" "pt_nodes r = pt_nodes q \<union> set ns"
    using Cons.IH [OF q(2)] Cons.prems(2) pt_same_internal [OF q(3)] by auto
  then show ?case using q pt_same_trans [of r q p] by auto
qed (simp add: pt_same_def)

lemma orNodes_ok:
  "pt_inv p \<Longrightarrow> \<forall>n\<in>set ns. n < 2 ^ 32 \<and> getInternalNode p n \<noteq> None \<Longrightarrow>
   \<exists>q. orNodes_loop p ns ch = Some (q, ch \<or> \<not> set ns \<subseteq> pt_nodes p) \<and> pt_inv q \<and> pt_same q p
     \<and> pt_nodes q = pt_nodes p \<union> set ns"
proof (induction ns arbitrary: p ch)
  case (Cons n ns)
  then obtain i where i: "getInternalNode p n = Some i" by auto
  have n: "n < 2 ^ 32" using Cons.prems(2) by simp
  show ?case
  proof (cases ch)
    case True
    obtain q where q: "pt_set p n = Some q" "pt_inv q" "pt_same q p" "pt_nodes q = insert n (pt_nodes p)"
      using pt_set_ok [OF Cons.prems(1) n i] by auto
    obtain r where "orNodes_loop q ns True = Some (r, True)" "pt_inv r" "pt_same r q" "pt_nodes r = pt_nodes q \<union> set ns"
      using Cons.IH [OF q(2), of True] Cons.prems(2) pt_same_internal [OF q(3)] by auto
    then show ?thesis using True q pt_same_trans [of r q p] by auto
  next
    case False
    obtain q where q: "pt_test_and_set p n = Some (q, n \<notin> pt_nodes p)" "pt_inv q" "pt_same q p" "pt_nodes q = insert n (pt_nodes p)"
      using pt_test_and_set_ok [OF Cons.prems(1) n i] by auto
    obtain r where r: "orNodes_loop q ns (n \<notin> pt_nodes p) = Some (r, n \<notin> pt_nodes p \<or> \<not> set ns \<subseteq> pt_nodes q)"
        "pt_inv r" "pt_same r q" "pt_nodes r = pt_nodes q \<union> set ns"
      using Cons.IH [OF q(2), of "n \<notin> pt_nodes p"] Cons.prems(2) pt_same_internal [OF q(3)] by auto
    have "(n \<notin> pt_nodes p \<or> \<not> set ns \<subseteq> pt_nodes q) \<longleftrightarrow> \<not> set (n # ns) \<subseteq> pt_nodes p" using q(4) by auto
    then show ?thesis using False q r pt_same_trans [of r q p] by auto
  qed
qed (simp add: pt_same_def)


text \<open>The walk visits the backing vector's elements and maps them back.\<close>

fun all_some :: "'a option list \<Rightarrow> 'a list option" where
  "all_some [] = Some []"
| "all_some (x # xs) = Option.bind x (\<lambda>y. map_option (Cons y) (all_some xs))"

lemma cbv_end: "cbv_it_make c True = \<lparr>it_word = cbv_size c, it_bit = 0\<rparr>"
  by (simp add: cbv_it_make_def)

lemma cbv_atEnd: "cbv_it_eq c x (cbv_it_make c True) \<longleftrightarrow> it_word x = cbv_size c"
  by (simp add: cbv_it_eq_def cbv_end)

lemma cbv_next_le: "it_word x < cbv_size c \<Longrightarrow> it_word (cbv_it_next c x) \<le> cbv_size c"
  using nextSet_le [of "Suc (it_word x)" "cbv_words c"] by (auto simp: cbv_it_next_def Let_def)

lemma pt_walk_cbv:
  "it_word x \<le> cbv_size c \<Longrightarrow>
   (pt_data p = Cbv c \<longrightarrow> pt_walk p (CbvIt x) (CbvIt (cbv_it_make c True)) = all_some (map (getExternalNode p) (cbv_elems_from c x)))
   \<and> (pt_data p = Bv c \<longrightarrow> pt_walk p (BvIt x) (BvIt (cbv_it_make c True)) = all_some (map (getExternalNode p) (cbv_elems_from c x)))"
proof (induction c x rule: cbv_elems_from.induct)
  case (1 c x)
  have step: "it_word x < cbv_size c \<Longrightarrow> cbv_elems_from c x = cbv_it_deref c x # cbv_elems_from c (cbv_it_next c x)"
    by (subst cbv_elems_from.simps) simp
  have fin: "it_word x = cbv_size c \<Longrightarrow> cbv_elems_from c x = []"
    by (subst cbv_elems_from.simps) simp
  have c: "pt_walk p (CbvIt x) (CbvIt (cbv_it_make c True)) = all_some (map (getExternalNode p) (cbv_elems_from c x))"
    if d: "pt_data p = Cbv c" and le: "it_word x \<le> cbv_size c"
  proof (cases "it_word x = cbv_size c")
    case True
    then show ?thesis using d fin by (subst pt_walk.simps) (simp add: pt_it_eq_def cbv_atEnd)
  next
    case False
    then have lt: "it_word x < cbv_size c" using le by simp
    show ?thesis using d False step [OF lt] 1(1) [OF lt cbv_next_le [OF lt]]
      by (subst pt_walk.simps)
        (simp add: pt_it_eq_def pt_it_deref_def pt_it_next_def pt_it_atEnd_def pt_it_make_def cbv_atEnd
          map_conv_bind_option comp_def)
  qed
  have b: "pt_walk p (BvIt x) (BvIt (cbv_it_make c True)) = all_some (map (getExternalNode p) (cbv_elems_from c x))"
    if d: "pt_data p = Bv c" and le: "it_word x \<le> cbv_size c"
  proof (cases "it_word x = cbv_size c")
    case True
    then show ?thesis using d fin by (subst pt_walk.simps) (simp add: pt_it_eq_def cbv_atEnd)
  next
    case False
    then have lt: "it_word x < cbv_size c" using le by simp
    show ?thesis using d False step [OF lt] 1(1) [OF lt cbv_next_le [OF lt]]
      by (subst pt_walk.simps)
        (simp add: pt_it_eq_def pt_it_deref_def pt_it_next_def pt_it_atEnd_def pt_it_make_def cbv_atEnd
          map_conv_bind_option comp_def)
  qed
  show ?case using c b 1(2) by blast
qed

lemma sbv_end_atEnd: "sbv_it_make s True = Some e \<Longrightarrow> si_atEnd e"
  by (auto simp: sbv_it_make_def sbv_firstNonZero_def)

lemma pt_walk_sbv:
  "pt_data p = Sbv s \<Longrightarrow> sbv_it_make s True = Some e \<Longrightarrow> sbv_walk s x e = Some xs \<Longrightarrow>
   pt_walk p (SbvIt x) (SbvIt e) = all_some (map (getExternalNode p) xs)"
proof (induction xs arbitrary: x)
  case Nil
  have "sbv_it_eq x e"
  proof (rule ccontr)
    assume "\<not> sbv_it_eq x e"
    then show False using Nil(3) by (subst (asm) sbv_walk.simps) (auto split: Option.bind_splits)
  qed
  then show ?case using Nil by (subst pt_walk.simps) (simp add: pt_it_eq_def)
next
  case (Cons n ns)
  have ne: "\<not> sbv_it_eq x e" using Cons.prems(3) by (subst (asm) sbv_walk.simps) (auto split: if_splits)
  then obtain x' where x': "sbv_it_next s x = Some x'" "sbv_walk s x' e = Some ns" "n = si_bitNumber x"
    using Cons.prems(3) by (subst (asm) sbv_walk.simps) (auto split: Option.bind_splits)
  show ?case using Cons.prems(1,2) ne x' Cons.IH [OF Cons.prems(1,2) x'(2)]
    by (subst pt_walk.simps)
      (simp add: pt_it_eq_def pt_it_deref_def pt_it_next_def pt_it_atEnd_def pt_it_make_def
        map_conv_bind_option comp_def)
qed

definition b_elems :: "backing \<Rightarrow> nat list" where
  "b_elems b = sorted_list_of_set (b_bits b)"

lemma cbv_elems_slos: "cbv_inv c \<Longrightarrow> cbv_elems c = sorted_list_of_set (cbv_bits c)"
  using cbv_elems_set [of c] cbv_elems_sorted [of c] b_finite [of "Cbv c"]
  by (intro sorted_distinct_set_unique) (auto simp: strict_sorted_iff)

lemma cbv_make_le: "it_word (cbv_it_make c False) \<le> cbv_size c"
  using cbv_next_le [of "\<lparr>it_word = 0, it_bit = 0\<rparr>" c] by (auto simp: cbv_it_make_def Let_def)

lemma pt_elems_walk:
  assumes "b_inv (pt_data p)"
  shows "pt_elems p = all_some (map (getExternalNode p) (b_elems (pt_data p)))"
proof (cases "pt_data p")
  case (Sbv s)
  then have w: "sbv_elems s = Some (sorted_list_of_set (sbv_bits s))" using assms by (simp add: sbv_elems_sorted)
  then obtain b e where be: "sbv_it_make s False = Some b" "sbv_it_make s True = Some e"
    "sbv_walk s b e = Some (sorted_list_of_set (sbv_bits s))"
    by (auto simp: sbv_elems_def split: Option.bind_splits)
  show ?thesis using Sbv be pt_walk_sbv [OF Sbv be(2,3)] by (simp add: pt_elems_def pt_it_make_def b_elems_def)
next
  case (Cbv c)
  then show ?thesis using pt_walk_cbv [OF cbv_make_le, of p c] cbv_elems_slos [of c] assms
    by (simp add: pt_elems_def pt_it_make_def b_elems_def cbv_elems_def)
next
  case (Bv c)
  then show ?thesis using pt_walk_cbv [OF cbv_make_le, of p c] cbv_elems_slos [of c] assms
    by (simp add: pt_elems_def pt_it_make_def b_elems_def cbv_elems_def)
qed

lemma all_some_map: "\<forall>x\<in>set xs. f x \<noteq> None \<Longrightarrow> all_some (map f xs) = Some (map (the \<circ> f) xs)"
  by (induction xs) auto

lemma pt_elems_ok:
  assumes "pt_inv p"
  shows "\<exists>ns. pt_elems p = Some ns \<and> set ns = pt_nodes p \<and> distinct ns"
proof -
  let ?f = "getExternalNode p"
  have inv: "b_inv (pt_data p)" using assms by (simp add: pt_inv_def)
  have set: "set (b_elems (pt_data p)) = b_bits (pt_data p)" using b_finite [OF inv] by (simp add: b_elems_def)
  have ext: "\<forall>i\<in>set (b_elems (pt_data p)). ?f i \<noteq> None" using assms set by (simp add: pt_inv_def)
  have "pt_elems p = Some (map (the \<circ> ?f) (b_elems (pt_data p)))"
    using pt_elems_walk [OF inv] all_some_map [OF ext] by simp
  moreover have "set (map (the \<circ> ?f) (b_elems (pt_data p))) = pt_nodes p"
  proof (rule set_eqI)
    fix n
    have "n = the (?f i) \<longleftrightarrow> ?f i = Some n" if "i \<in> b_bits (pt_data p)" for i
      using ext set that by (metis option.collapse option.sel)
    then show "n \<in> set (map (the \<circ> ?f) (b_elems (pt_data p))) \<longleftrightarrow> n \<in> pt_nodes p"
      unfolding pt_nodes_ext [OF assms] by (simp add: set image_iff cong: bex_cong)
  qed
  moreover have "inj_on (the \<circ> ?f) (b_bits (pt_data p))"
  proof (rule inj_onI)
    fix i j assume ij: "i \<in> b_bits (pt_data p)" "j \<in> b_bits (pt_data p)" "(the \<circ> ?f) i = (the \<circ> ?f) j"
    then obtain n m where "?f i = Some n" "?f j = Some m" using assms by (fastforce simp: pt_inv_def)
    then have n: "?f i = Some n" "?f j = Some n" using ij(3) by simp_all
    then have "getInternalNode p n = Some i" "getInternalNode p n = Some j"
      using assms maps_ok_inverse [of "pt_nodeMapping p" "pt_reverseNodeMapping p"]
      by (simp_all add: pt_inv_def getInternalNode_def getExternalNode_def)
    then show "i = j" by simp
  qed
  ultimately show ?thesis using set by (auto simp: distinct_map b_elems_def)
qed

lemma toNodeBS_ok:
  assumes "pt_inv p" "pt_nodes p \<subseteq> {..<2 ^ 32}"
  shows "\<exists>s. toNodeBS p = Some s \<and> sbv_inv s \<and> sbv_bits s = pt_nodes p"
proof -
  obtain ns where ns: "pt_elems p = Some ns" "set ns = pt_nodes p" using pt_elems_ok [OF assms(1)] by blast
  have "sbv_inv s \<Longrightarrow> set ns \<subseteq> {..<2 ^ 32} \<Longrightarrow> sbv_inv (foldl sbv_set s ns) \<and> sbv_bits (foldl sbv_set s ns) = sbv_bits s \<union> set ns" for s
    by (induction ns arbitrary: s) (auto simp: sbv_set_props)
  from this [OF sbvs.inv_emp] show ?thesis using ns assms(2) by (simp add: toNodeBS_def sbvs.bits_emp)
qed

lemma pt_new_ok: "maps_ok (o_bestNodeMapping g) (o_bestReverseNodeMapping g) \<Longrightarrow> pt_inv (pt_new g) \<and> pt_nodes (pt_new g) = {}"
  by (simp add: pt_inv_def pt_new_def pt_nodes_def b_new_props)

lemma pt_or_bs_ok:
  assumes "pt_inv p" "sbv_inv s" "\<forall>n\<in>sbv_bits s. getInternalNode p n \<noteq> None"
  shows "\<exists>q. pt_orNodeBS p s = Some (q, \<not> sbv_bits s \<subseteq> pt_nodes p) \<and> pt_inv q \<and> pt_same q p
    \<and> pt_nodes q = pt_nodes p \<union> sbv_bits s"
proof -
  have set: "set (sorted_list_of_set (sbv_bits s)) = sbv_bits s" using sbvs.finite_bits [OF assms(2)] by simp
  then have "\<forall>n\<in>set (sorted_list_of_set (sbv_bits s)). n < 2 ^ 32 \<and> getInternalNode p n \<noteq> None"
    using assms(3) sbv_bits_lt [OF assms(2)] by auto
  from orNodes_ok [OF assms(1) this, of False] show ?thesis
    using sbv_elems_sorted [OF assms(2)] set by (simp add: pt_orNodeBS_def)
qed

lemma pt_diff3_ok:
  assumes "pt_inv p" "pt_inv l" "pt_inv r" "pt_same p r" "pt_same p l"
  shows "\<exists>q. pt_intersectWithComplement3 p l r = Some q \<and> pt_inv q \<and> pt_same q p \<and> pt_nodes q = pt_nodes l - pt_nodes r"
proof -
  have lr: "pt_same l r" using assms(4,5) by (simp add: pt_same_def)
  have inv: "b_inv (pt_data l)" "b_inv (pt_data r)" using assms by (simp_all add: pt_inv_def)
  obtain d where d: "pt_intersectWithComplement3 p l r = Some (p\<lparr>pt_data := d\<rparr>)" "b_inv d"
    "b_bits d = b_bits (pt_data l) - b_bits (pt_data r)" "b_type d = b_type (pt_data p)"
  proof (cases "pt_data p"; cases "pt_data l"; cases "pt_data r")
    fix c l' r' assume "pt_data p = Sbv c" "pt_data l = Sbv l'" "pt_data r = Sbv r'"
    then show ?thesis using that [of "Sbv (sbv_intersectWithComplement3 False False c l' r')"] inv
        sbv_diff3_props [of l' r' False c] pt_same_metaSame [OF assms(4)] pt_same_metaSame [OF assms(5)]
      by (simp add: pt_intersectWithComplement3_def)
  next
    fix c l' r' assume "pt_data p = Cbv c" "pt_data l = Cbv l'" "pt_data r = Cbv r'"
    then show ?thesis using that [of "Cbv (cbv_intersectWithComplement3 False c l' r')"] inv
        cbv_diff_props [of l' r'] pt_same_metaSame [OF assms(4)] pt_same_metaSame [OF assms(5)]
      by (simp add: pt_intersectWithComplement3_def cbv_intersectWithComplement3_def cbv_intersectWithComplement_def)
  next
    fix c l' r' assume "pt_data p = Bv c" "pt_data l = Bv l'" "pt_data r = Bv r'"
    then show ?thesis using that [of "Bv (cbv_intersectWithComplement3 False c l' r')"] inv
        cbv_diff_props [of l' r'] pt_same_metaSame [OF assms(4)] pt_same_metaSame [OF assms(5)]
      by (simp add: pt_intersectWithComplement3_def cbv_intersectWithComplement3_def cbv_intersectWithComplement_def)
  qed (use assms(4,5) in \<open>auto simp: pt_same_def\<close>)
  have same: "getInternalNode p = getInternalNode l" "getExternalNode p = getExternalNode l"
    using assms(5) by (simp_all add: pt_same_def getInternalNode_def getExternalNode_def fun_eq_iff)
  have "getExternalNode p i \<noteq> None" if "i \<in> b_bits d" for i
    using that assms(2) same by (simp add: d(3) pt_inv_def)
  note u = pt_data_update [OF assms(1) d(2) this]
  show ?thesis using d(1) u pt_same_refl [OF d(4)] nodes_int(3) [OF assms(2,3) lr] by (simp add: d(3) same)
qed

lemma checkAndRemap_ok:
  assumes "pt_inv p" "maps_ok (o_bestNodeMapping g) (o_bestReverseNodeMapping g)"
    and "\<forall>n\<in>pt_nodes p. n < 2 ^ 32 \<and> getInternalNode (pt_new g) n \<noteq> None"
  shows "\<exists>q. checkAndRemap g p = Some q \<and> pt_inv q \<and> pt_nodes q = pt_nodes p \<and> ptr_eq (pt_nodeMapping q) (o_bestNodeMapping g)"
proof (cases "ptr_eq (pt_nodeMapping p) (o_bestNodeMapping g)")
  case True
  then show ?thesis using assms(1) by (simp add: checkAndRemap_def)
next
  case False
  obtain ns where ns: "pt_elems p = Some ns" "set ns = pt_nodes p" using pt_elems_ok [OF assms(1)] by blast
  have new: "pt_inv (pt_new g)" "pt_nodes (pt_new g) = {}" using pt_new_ok [OF assms(2)] by simp_all
  obtain q where "setAll (pt_new g) ns = Some q" "pt_inv q" "pt_same q (pt_new g)" "pt_nodes q = set ns"
    using setAll_ok [OF new(1), of ns] assms(3) ns(2) new(2) by auto
  then show ?thesis using False ns by (simp add: checkAndRemap_def pt_same_def ptr_eq_def pt_new_def)
qed


subsection \<open>Points-to sets without mappings as a set representation\<close>

text \<open>With null mappings (the default before any clustering) points-to sets of one type satisfy the
  contract of the set representations.\<close>

definition pt_plain :: "pt_type \<Rightarrow> points_to \<Rightarrow> bool" where
  "pt_plain t p \<longleftrightarrow> pt_inv p \<and> b_type (pt_data p) = t \<and> pt_nodeMapping p = None \<and> pt_reverseNodeMapping p = None"

definition pt_plain_new :: "pt_type \<Rightarrow> points_to" where
  "pt_plain_new t = pt_new \<lparr>o_ptType = t, o_bestNodeMapping = None, o_bestReverseNodeMapping = None\<rparr>"

lemma plain_internal: "pt_plain t p \<Longrightarrow> getInternalNode p n = Some n"
  by (simp add: pt_plain_def getInternalNode_def mapped_def)

lemma plain_nodes: "pt_plain t p \<Longrightarrow> pt_nodes p = b_bits (pt_data p)"
  by (auto simp: pt_nodes_def plain_internal)

lemma plain_same: "pt_plain t p \<Longrightarrow> pt_plain t r \<Longrightarrow> pt_same p r"
  by (simp add: pt_plain_def pt_same_def)

lemma plain_of_same: "pt_plain t p \<Longrightarrow> pt_inv q \<Longrightarrow> pt_same q p \<Longrightarrow> pt_plain t q"
  by (simp add: pt_plain_def pt_same_def)

interpretation pts: bit_set "pt_plain t" pt_nodes "pt_plain_new t" pt_empty
  "\<lambda>p n. fst (the (pt_test p n))" "\<lambda>p n. the (pt_set p n)" "\<lambda>p n. the (pt_reset p n)"
  "\<lambda>p r. the (pt_or False p r)" "\<lambda>p r. the (pt_and False p r)" "\<lambda>p r. the (pt_diff False p r)"
  "\<lambda>p r. the (pt_eq False p r)" for t
proof
  have "pt_inv (pt_plain_new t) \<and> pt_nodes (pt_plain_new t) = {}"
    unfolding pt_plain_new_def by (rule pt_new_ok) (simp add: maps_ok_def)
  then show "pt_plain t (pt_plain_new t)" "pt_nodes (pt_plain_new t) = {}"
    by (simp_all add: pt_plain_def pt_plain_new_def pt_new_def b_new_props)
next
  fix p assume p: "pt_plain t p"
  then have inv: "pt_inv p" by (simp add: pt_plain_def)
  show "pt_empty p \<longleftrightarrow> pt_nodes p = {}" by (rule pt_empty_iff [OF inv])
  fix b :: nat
  show "b \<in> pt_nodes p \<Longrightarrow> b < 2 ^ 32"
    using inv b_bits_lt [of "pt_data p" b] by (simp add: plain_nodes [OF p] pt_inv_def)
  assume b: "b < 2 ^ 32"
  note i = plain_internal [OF p, of b]
  obtain q1 where "pt_test p b = Some (b \<in> pt_nodes p, q1)" using pt_test_ok [OF inv i] by blast
  then show "fst (the (pt_test p b)) \<longleftrightarrow> b \<in> pt_nodes p" by simp
  obtain q2 where "pt_set p b = Some q2" "pt_inv q2" "pt_same q2 p" "pt_nodes q2 = insert b (pt_nodes p)"
    using pt_set_ok [OF inv b i] by blast
  then show "pt_plain t (the (pt_set p b))" "pt_nodes (the (pt_set p b)) = insert b (pt_nodes p)"
    using plain_of_same [OF p] by simp_all
  obtain q3 where "pt_reset p b = Some q3" "pt_inv q3" "pt_same q3 p" "pt_nodes q3 = pt_nodes p - {b}"
    using pt_reset_ok [OF inv b i] by blast
  then show "pt_plain t (the (pt_reset p b))" "pt_nodes (the (pt_reset p b)) = pt_nodes p - {b}"
    using plain_of_same [OF p] by simp_all
next
  fix p r assume p: "pt_plain t p" and r: "pt_plain t r"
  then have inv: "pt_inv p" "pt_inv r" by (simp_all add: pt_plain_def)
  note same = plain_same [OF p r]
  obtain q ch where "pt_or False p r = Some (q, ch)" "pt_inv q" "pt_same q p" "\<not> pt_nodes r \<subseteq> pt_nodes p \<longrightarrow> ch"
    "pt_nodes q = pt_nodes p \<union> pt_nodes r" using pt_or_ok [OF inv same, of False] by auto
  then show "pt_plain t (fst (the (pt_or False p r)))" "pt_nodes (fst (the (pt_or False p r))) = pt_nodes p \<union> pt_nodes r"
    "\<not> pt_nodes r \<subseteq> pt_nodes p \<Longrightarrow> snd (the (pt_or False p r))"
    using plain_of_same [OF p] by simp_all
  obtain q ch where "pt_and False p r = Some (q, ch)" "pt_inv q" "pt_same q p" "ch \<longleftrightarrow> \<not> pt_nodes p \<subseteq> pt_nodes r"
    "pt_nodes q = pt_nodes p \<inter> pt_nodes r" using pt_and_ok [OF inv same, of False] by auto
  then show "pt_plain t (fst (the (pt_and False p r)))" "pt_nodes (fst (the (pt_and False p r))) = pt_nodes p \<inter> pt_nodes r"
    "snd (the (pt_and False p r)) \<longleftrightarrow> \<not> pt_nodes p \<subseteq> pt_nodes r"
    using plain_of_same [OF p] by simp_all
  obtain q ch where "pt_diff False p r = Some (q, ch)" "pt_inv q" "pt_same q p" "ch \<longleftrightarrow> pt_nodes p \<inter> pt_nodes r \<noteq> {}"
    "pt_nodes q = pt_nodes p - pt_nodes r" using pt_diff_ok [OF inv same, of False] by auto
  then show "pt_plain t (fst (the (pt_diff False p r)))" "pt_nodes (fst (the (pt_diff False p r))) = pt_nodes p - pt_nodes r"
    "snd (the (pt_diff False p r)) \<longleftrightarrow> pt_nodes p \<inter> pt_nodes r \<noteq> {}"
    using plain_of_same [OF p] by simp_all
  show "the (pt_eq False p r) \<longleftrightarrow> pt_nodes p = pt_nodes r"
    using pt_relations(1) [OF inv same, of False] by simp
qed

subsection \<open>Properties\<close>

text \<open>A mapping for the witnesses: nodes 0, 1, 2 are stored as 2, 0, 1.\<close>

definition ex_config :: "pt_type \<Rightarrow> pt_config" where
  "ex_config t = \<lparr>o_ptType = t, o_bestNodeMapping = Some (1, [2, 0, 1]), o_bestReverseNodeMapping = Some (2, [1, 2, 0])\<rparr>"

lemma ex_maps: "maps_ok (Some (1, [2, 0, 1])) (Some (2, [1, 2, 0]))"
  by (auto simp: maps_ok_def numeral_3_eq_3 less_Suc_eq)

lemma ex_new: "pt_inv (pt_new (ex_config t))" "pt_nodes (pt_new (ex_config t)) = {}"
  "getInternalNode (pt_new (ex_config t)) 0 = Some 2" "getInternalNode (pt_new (ex_config t)) 1 = Some 0"
  using pt_new_ok [of "ex_config t"] ex_maps
  by (simp_all add: ex_config_def pt_new_def getInternalNode_def mapped_def)

text \<open>Adding, removing and testing a node of a points-to set, of any of the three types, with or
  without node mappings, acts on the set of nodes as on a set and keeps the set well formed; an
  operation fails only for a node outside the mapping.\<close>

theorem pt_node_ops_correct:
  assumes "pt_inv p" "n < 2 ^ 32"
  shows "(getInternalNode p n = None \<longrightarrow> pt_set p n = None \<and> pt_reset p n = None \<and> pt_test p n = None)
    \<and> (getInternalNode p n \<noteq> None \<longrightarrow>
        (\<exists>q. pt_set p n = Some q \<and> pt_inv q \<and> pt_same q p \<and> pt_nodes q = insert n (pt_nodes p))
      \<and> (\<exists>q. pt_reset p n = Some q \<and> pt_inv q \<and> pt_same q p \<and> pt_nodes q = pt_nodes p - {n})
      \<and> (\<exists>q. pt_test p n = Some (n \<in> pt_nodes p, q) \<and> pt_nodes q = pt_nodes p)
      \<and> (\<exists>q. pt_test_and_set p n = Some (q, n \<notin> pt_nodes p) \<and> pt_nodes q = insert n (pt_nodes p)))"
proof (cases "getInternalNode p n")
  case None
  then show ?thesis by (simp add: pt_set_def pt_reset_def pt_test_def)
next
  case (Some i)
  then show ?thesis
    using pt_set_ok [OF assms Some] pt_reset_ok [OF assms Some] pt_test_ok [OF assms(1) Some]
      pt_test_and_set_ok [OF assms Some] by auto
qed

theorem pt_node_ops_witness: "\<exists>q. pt_set (pt_new (ex_config CBV)) 0 = Some q \<and> pt_nodes q = {0}"
  using pt_node_ops_correct [of "pt_new (ex_config CBV)" 0] ex_new [of CBV] by auto

text \<open>C29: The binary operators of points-to sets of one type with the same mappings never fail and
  compute union, intersection and difference of the node sets; intersection and difference
  return exactly whether the set changed, union does so for sparse bit vectors and never misses
  a change for the others; the comparisons decide the set relations.\<close>

theorem pt_binary_correct:
  assumes "pt_inv p" "pt_inv r" "pt_same p r" "same \<Longrightarrow> r = p"
  shows "(\<exists>q ch. pt_or same p r = Some (q, ch) \<and> pt_inv q \<and> pt_nodes q = pt_nodes p \<union> pt_nodes r
        \<and> (pt_nodes q \<noteq> pt_nodes p \<longrightarrow> ch) \<and> (b_type (pt_data p) = SBV \<longrightarrow> ch = (pt_nodes q \<noteq> pt_nodes p)))
    \<and> (\<exists>q ch. pt_and same p r = Some (q, ch) \<and> pt_inv q \<and> pt_nodes q = pt_nodes p \<inter> pt_nodes r
        \<and> ch = (pt_nodes q \<noteq> pt_nodes p))
    \<and> (\<exists>q ch. pt_diff same p r = Some (q, ch) \<and> pt_inv q \<and> pt_nodes q = pt_nodes p - pt_nodes r
        \<and> ch = (pt_nodes q \<noteq> pt_nodes p))
    \<and> pt_eq same p r = Some (pt_nodes p = pt_nodes r) \<and> pt_contains p r = Some (pt_nodes r \<subseteq> pt_nodes p)
    \<and> pt_intersects p r = Some (pt_nodes p \<inter> pt_nodes r \<noteq> {})"
proof -
  obtain q1 c1 where q1: "pt_or same p r = Some (q1, c1)" "pt_inv q1" "pt_nodes q1 = pt_nodes p \<union> pt_nodes r"
    "\<not> pt_nodes r \<subseteq> pt_nodes p \<longrightarrow> c1" "b_type (pt_data p) = SBV \<longrightarrow> c1 \<longrightarrow> \<not> pt_nodes r \<subseteq> pt_nodes p"
    using pt_or_ok [OF assms] by blast
  obtain q2 c2 where q2: "pt_and same p r = Some (q2, c2)" "pt_inv q2" "pt_nodes q2 = pt_nodes p \<inter> pt_nodes r"
    "c2 \<longleftrightarrow> \<not> pt_nodes p \<subseteq> pt_nodes r" using pt_and_ok [OF assms] by blast
  obtain q3 c3 where q3: "pt_diff same p r = Some (q3, c3)" "pt_inv q3" "pt_nodes q3 = pt_nodes p - pt_nodes r"
    "c3 \<longleftrightarrow> pt_nodes p \<inter> pt_nodes r \<noteq> {}" using pt_diff_ok [OF assms] by blast
  have f1: "pt_nodes q1 \<noteq> pt_nodes p \<longrightarrow> c1" "b_type (pt_data p) = SBV \<longrightarrow> c1 = (pt_nodes q1 \<noteq> pt_nodes p)"
    using q1(3-5) by blast+
  have f2: "c2 = (pt_nodes q2 \<noteq> pt_nodes p)" using q2(3,4) by blast
  have f3: "c3 = (pt_nodes q3 \<noteq> pt_nodes p)" using q3(3,4) by blast
  show ?thesis
    by (intro conjI exI) (rule q1(1) q1(2) q1(3) f1 q2(1) q2(2) q2(3) f2 q3(1) q3(2) q3(3) f3 pt_relations [OF assms] | assumption)+
qed

theorem pt_binary_witness: "pt_contains (the (pt_set (pt_plain_new BV) 7)) (pt_plain_new BV) = Some True"
proof -
  have p: "pt_plain BV (the (pt_set (pt_plain_new BV) 7))" "pt_plain BV (pt_plain_new BV)"
    by (simp_all add: pts.inv_intros)
  then have "pt_inv (the (pt_set (pt_plain_new BV) 7))" "pt_inv (pt_plain_new BV)" by (simp_all add: pt_plain_def)
  then show ?thesis using pt_binary_correct [OF _ _ plain_same [OF p], of False] by (simp add: pts.bits_emp)
qed

text \<open>Iterating over a points-to set ends without a failed assertion and yields each node of the
  set once (in the order of the stored ids); hence \<open>toNodeBS\<close> gives the sparse bit vector of the
  nodes, and \<open>|=\<close> with a sparse bit vector adds its elements and says whether one was new.\<close>

theorem pt_iteration_correct:
  assumes "pt_inv p" "pt_nodes p \<subseteq> {..<2 ^ 32}" "sbv_inv s" "\<forall>n\<in>sbv_bits s. getInternalNode p n \<noteq> None"
  shows "(\<exists>ns. pt_elems p = Some ns \<and> set ns = pt_nodes p \<and> distinct ns)
    \<and> (\<exists>t. toNodeBS p = Some t \<and> sbv_inv t \<and> sbv_bits t = pt_nodes p)
    \<and> (\<exists>q. pt_orNodeBS p s = Some (q, pt_nodes q \<noteq> pt_nodes p) \<and> pt_inv q \<and> pt_nodes q = pt_nodes p \<union> sbv_bits s)"
proof -
  obtain q where q: "pt_orNodeBS p s = Some (q, \<not> sbv_bits s \<subseteq> pt_nodes p)" "pt_inv q" "pt_nodes q = pt_nodes p \<union> sbv_bits s"
    using pt_or_bs_ok [OF assms(1,3,4)] by blast
  then have "(\<not> sbv_bits s \<subseteq> pt_nodes p) = (pt_nodes q \<noteq> pt_nodes p)" by blast
  then have "pt_orNodeBS p s = Some (q, pt_nodes q \<noteq> pt_nodes p)" using q(1) by simp
  then show ?thesis using pt_elems_ok [OF assms(1)] toNodeBS_ok [OF assms(1,2)] q(2,3) by blast
qed

theorem pt_iteration_witness:
  "\<exists>q. pt_orNodeBS (pt_new (ex_config SBV)) (sbv_set (sbv_set sbv_new 1) 0) = Some (q, True) \<and> pt_nodes q = {0, 1}"
  using pt_iteration_correct [of "pt_new (ex_config SBV)" "sbv_set (sbv_set sbv_new 1) 0"] ex_new [of SBV]
  by (auto simp: sbvs.inv_intros sbvs.bits_simps)

text \<open>C35: \<open>checkAndRemap\<close> moves a points-to set to the current best node mapping without changing
  the set of nodes it stands for.\<close>

theorem checkAndRemap_correct:
  assumes "pt_inv p" "maps_ok (o_bestNodeMapping g) (o_bestReverseNodeMapping g)"
    and "\<forall>n\<in>pt_nodes p. n < 2 ^ 32 \<and> getInternalNode (pt_new g) n \<noteq> None"
  shows "\<exists>q. checkAndRemap g p = Some q \<and> pt_inv q \<and> pt_nodes q = pt_nodes p
    \<and> ptr_eq (pt_nodeMapping q) (o_bestNodeMapping g)"
  using checkAndRemap_ok [OF assms] .

theorem checkAndRemap_witness:
  "\<exists>q. checkAndRemap (ex_config CBV) (the (pt_set (pt_plain_new SBV) 1)) = Some q \<and> pt_nodes q = {1}"
proof -
  let ?p = "the (pt_set (pt_plain_new SBV) 1)"
  have p: "pt_plain SBV ?p" "pt_nodes ?p = {1}" by (simp_all add: pts.inv_intros pts.bits_insrt [of SBV] pts.bits_emp)
  then have inv: "pt_inv ?p" by (simp add: pt_plain_def)
  show ?thesis
    using checkAndRemap_correct [OF inv, of "ex_config CBV"] ex_maps ex_new(4) [of CBV] p(2)
    by (auto simp: ex_config_def)
qed

text \<open>The hash of sparse bit vectors respects their equality, so that sets backed by them can be
  keys of the hash maps of the points-to caches.\<close>

theorem sbv_hash_compatible:
  assumes "sbv_inv s" "sbv_inv r" "sbv_eq s r"
  shows "sbv_hash s = sbv_hash r"
proof -
  have "s_elems s = s_elems r" using assms(3) by (simp add: sbv_eq_def sbvEq_loop_iff)
  then show ?thesis by (simp add: sbv_hash_def sbv_find_first_def sbv_find_last_def sbv_count_def)
qed

theorem sbv_hash_witness: "sbv_hash (sbv_set (sbv_set sbv_new 300) 5) = sbv_hash (sbv_set (sbv_set sbv_new 5) 300)"
  by (rule sbv_hash_compatible) (simp_all add: sbvs.inv_intros sbvs.eqs_iff sbvs.bits_simps insert_commute)

end
