(* ===== verification/PersistentCache.thy ===== *)
theory PersistentCache
  imports PointsToSet
begin

text \<open>
  \<open>svf/include/MemoryModel/PersistentPointsToCache.h\<close>: points-to sets are interned, ids are handed
  out, and union, complement and intersection of ids are hash-consed.

  The template parameter \<open>Data\<close> is a record of the operations the cache uses of it (\<open>data_ops\<close>);
  the locale \<open>pts_data\<close> states what they have to satisfy, and the lemmas of the cache are proved
  in it. It is interpreted on \<open>PointsTo\<close> backed by sparse bit vectors. The two other backings do
  not satisfy it (their hash does not respect equality), and the last section shows what the
  cache does with them.

  \<open>Map\<close> is \<open>std::unordered_map\<close>: a key is found if an entry has the same hash and compares equal.
  Its entries are a list of pairs. \<open>None\<close> is the result of an operation that fails an assertion.
\<close>

subsection \<open>The data\<close>

record 'd data_ops =
  do_new :: 'd
  do_eq :: "'d \<Rightarrow> 'd \<Rightarrow> bool option"
  do_hash :: "'d \<Rightarrow> u64 option"
  do_or :: "'d \<Rightarrow> 'd \<Rightarrow> 'd option"
  do_diff :: "'d \<Rightarrow> 'd \<Rightarrow> 'd option"
  do_and :: "'d \<Rightarrow> 'd \<Rightarrow> 'd option"
  do_remap :: "'d \<Rightarrow> 'd option"

definition pt_ops :: "pt_config \<Rightarrow> points_to data_ops" where
  "pt_ops g = \<lparr>do_new = pt_new g, do_eq = pt_eq False, do_hash = pt_hash, do_or = pt_union,
     do_diff = pt_minus, do_and = pt_inter, do_remap = checkAndRemap g\<rparr>"

subsection \<open>The cache\<close>

text \<open>The five counters of one operation, 64 bits wide.\<close>

record op_stats =
  st_total :: u64
  st_unique :: u64
  st_property :: u64
  st_lookup :: u64
  st_preemptive :: u64

type_synonym op_cache = "nat \<times> nat \<Rightarrow> nat option"

record 'd pptc =
  c_idToPts :: "'d list"
  c_ptsToId :: "('d \<times> nat) list"
  c_unionCache :: op_cache
  c_complementCache :: op_cache
  c_intersectionCache :: op_cache
  c_idCounter :: nat
  c_unions :: op_stats
  c_complements :: op_stats
  c_intersections :: op_stats

definition emptyPointsToId :: nat where
  "emptyPointsToId = 0"

fun find_loop :: "'d data_ops \<Rightarrow> u64 \<Rightarrow> ('d \<times> nat) list \<Rightarrow> 'd \<Rightarrow> nat option option" where
  "find_loop ops h [] d = Some None"
| "find_loop ops h ((k, i) # m) d =
     (if do_hash ops k \<noteq> Some h then find_loop ops h m d
      else Option.bind (do_eq ops k d) (\<lambda>e. if e then Some (Some i) else find_loop ops h m d))"

definition pts_find :: "'d data_ops \<Rightarrow> ('d \<times> nat) list \<Rightarrow> 'd \<Rightarrow> nat option option" where
  "pts_find ops m d = Option.bind (do_hash ops d) (\<lambda>h. find_loop ops h m d)"

fun assign_loop :: "'d data_ops \<Rightarrow> u64 \<Rightarrow> ('d \<times> nat) list \<Rightarrow> 'd \<Rightarrow> nat \<Rightarrow> ('d \<times> nat) list option" where
  "assign_loop ops h [] d v = Some [(d, v)]"
| "assign_loop ops h ((k, i) # m) d v =
     (if do_hash ops k \<noteq> Some h then map_option (Cons (k, i)) (assign_loop ops h m d v)
      else Option.bind (do_eq ops k d) (\<lambda>e. if e then Some ((k, v) # m)
             else map_option (Cons (k, i)) (assign_loop ops h m d v)))"

text \<open>\<open>m[d] = v\<close>\<close>

definition pts_assign :: "'d data_ops \<Rightarrow> ('d \<times> nat) list \<Rightarrow> 'd \<Rightarrow> nat \<Rightarrow> ('d \<times> nat) list option" where
  "pts_assign ops m d v = Option.bind (do_hash ops d) (\<lambda>h. assign_loop ops h m d v)"

definition stats0 :: op_stats where
  "stats0 = \<lparr>st_total = 0, st_unique = 0, st_property = 0, st_lookup = 0, st_preemptive = 0\<rparr>"

definition initStats :: "'d pptc \<Rightarrow> 'd pptc" where
  "initStats c = c\<lparr>c_unions := stats0, c_complements := stats0, c_intersections := stats0\<rparr>"

definition pptc_new :: "'d data_ops \<Rightarrow> 'd pptc option" where
  "pptc_new ops = map_option (\<lambda>m.
     initStats \<lparr>c_idToPts = [do_new ops], c_ptsToId = m, c_unionCache = Map.empty,
       c_complementCache = Map.empty, c_intersectionCache = Map.empty, c_idCounter = 1,
       c_unions = stats0, c_complements = stats0, c_intersections = stats0\<rparr>)
     (pts_assign ops [] (do_new ops) emptyPointsToId)"

definition pptc_clear :: "'d pptc \<Rightarrow> 'd pptc" where
  "pptc_clear c = c\<lparr>c_idToPts := [], c_ptsToId := [], c_unionCache := Map.empty,
     c_complementCache := Map.empty, c_intersectionCache := Map.empty\<rparr>"

definition pptc_reset :: "'d data_ops \<Rightarrow> 'd pptc \<Rightarrow> 'd pptc option" where
  "pptc_reset ops c =
     (let c1 = pptc_clear c in
      map_option (\<lambda>m. initStats (c1\<lparr>c_ptsToId := m, c_idToPts := c_idToPts c1 @ [do_new ops], c_idCounter := 1\<rparr>))
        (pts_assign ops (c_ptsToId c1) (do_new ops) emptyPointsToId))"

fun remap_loop :: "'d data_ops \<Rightarrow> 'd list \<Rightarrow> 'd list option" where
  "remap_loop ops [] = Some []"
| "remap_loop ops (d # ds) = Option.bind (do_remap ops d) (\<lambda>d'. map_option (Cons d') (remap_loop ops ds))"

fun rebuild_loop :: "'d data_ops \<Rightarrow> nat \<Rightarrow> 'd list \<Rightarrow> ('d \<times> nat) list \<Rightarrow> ('d \<times> nat) list option" where
  "rebuild_loop ops i [] m = Some m"
| "rebuild_loop ops i (d # ds) m = Option.bind (pts_assign ops m d i) (rebuild_loop ops (Suc i) ds)"

definition remapAllPts :: "'d data_ops \<Rightarrow> 'd pptc \<Rightarrow> 'd pptc option" where
  "remapAllPts ops c = Option.bind (remap_loop ops (c_idToPts c)) (\<lambda>ds.
     map_option (\<lambda>m. c\<lparr>c_idToPts := ds, c_ptsToId := m\<rparr>) (rebuild_loop ops 0 ds []))"

definition newPointsToId :: "'d pptc \<Rightarrow> (nat \<times> 'd pptc) option" where
  "newPointsToId c =
     (if c_idCounter c = emptyPointsToId then None
      else Some (c_idCounter c, c\<lparr>c_idCounter := to_u32 (int (c_idCounter c) + 1)\<rparr>))"

definition emplacePts :: "'d data_ops \<Rightarrow> 'd \<Rightarrow> 'd pptc \<Rightarrow> (nat \<times> 'd pptc) option" where
  "emplacePts ops pts c =
     Option.bind (pts_find ops (c_ptsToId c) pts) (\<lambda>foundId. case foundId of
       Some i \<Rightarrow> Some (i, c)
     | None \<Rightarrow> Option.bind (newPointsToId c) (\<lambda>(id, c1).
         map_option (\<lambda>m. (id, c1\<lparr>c_idToPts := c_idToPts c1 @ [pts], c_ptsToId := m\<rparr>))
           (pts_assign ops (c_ptsToId c1) pts id)))"

definition getActualPts :: "'d pptc \<Rightarrow> nat \<Rightarrow> 'd option" where
  "getActualPts c i = (if length (c_idToPts c) > i then Some (c_idToPts c ! i) else None)"

definition minmax :: "nat \<Rightarrow> nat \<Rightarrow> nat \<times> nat" where
  "minmax a b = (if b < a then (b, a) else (a, b))"

datatype cache_sel = UnionCache | ComplementCache | IntersectionCache

fun op_get :: "cache_sel \<Rightarrow> 'd pptc \<Rightarrow> op_cache" where
  "op_get UnionCache c = c_unionCache c"
| "op_get ComplementCache c = c_complementCache c"
| "op_get IntersectionCache c = c_intersectionCache c"

fun op_put :: "cache_sel \<Rightarrow> nat \<times> nat \<Rightarrow> nat \<Rightarrow> 'd pptc \<Rightarrow> 'd pptc" where
  "op_put UnionCache k v c = c\<lparr>c_unionCache := (c_unionCache c)(k \<mapsto> v)\<rparr>"
| "op_put ComplementCache k v c = c\<lparr>c_complementCache := (c_complementCache c)(k \<mapsto> v)\<rparr>"
| "op_put IntersectionCache k v c = c\<lparr>c_intersectionCache := (c_intersectionCache c)(k \<mapsto> v)\<rparr>"

text \<open>\<open>opPts\<close>; the result is the id, \<open>opPerformed\<close> and the cache. Interning the result is the code
  of \<open>emplacePts\<close>.\<close>

definition opPts :: "'d data_ops \<Rightarrow> nat \<Rightarrow> nat \<Rightarrow> ('d \<Rightarrow> 'd \<Rightarrow> 'd option) \<Rightarrow> cache_sel \<Rightarrow> bool \<Rightarrow> 'd pptc
    \<Rightarrow> (nat \<times> bool \<times> 'd pptc) option" where
  "opPts ops lhs rhs dataOp sel commutative c =
     (let operands = (if commutative then minmax lhs rhs else (lhs, rhs)) in
      case op_get sel c operands of
        Some r \<Rightarrow> Some (r, False, c)
      | None \<Rightarrow>
          Option.bind (getActualPts c lhs) (\<lambda>lhsPts.
          Option.bind (getActualPts c rhs) (\<lambda>rhsPts.
          Option.bind (dataOp lhsPts rhsPts) (\<lambda>result.
          Option.bind (emplacePts ops result c) (\<lambda>(resultId, c1).
            Some (resultId, True, op_put sel operands resultId c1))))))"

definition bump_total :: "op_stats \<Rightarrow> op_stats" where
  "bump_total s = s\<lparr>st_total := st_total s + 1\<rparr>"

definition bump_property :: "op_stats \<Rightarrow> op_stats" where
  "bump_property s = s\<lparr>st_property := st_property s + 1\<rparr>"

definition bump_unique :: "op_stats \<Rightarrow> op_stats" where
  "bump_unique s = s\<lparr>st_unique := st_unique s + 1\<rparr>"

definition bump_lookup :: "op_stats \<Rightarrow> op_stats" where
  "bump_lookup s = s\<lparr>st_lookup := st_lookup s + 1\<rparr>"

definition bump_preemptive :: "op_stats \<Rightarrow> op_stats" where
  "bump_preemptive s = s\<lparr>st_preemptive := st_preemptive s + 1, st_total := st_total s + 1\<rparr>"

text \<open>A preemptive entry of one of the caches, counted as such.\<close>

definition preUnion :: "nat \<Rightarrow> nat \<Rightarrow> nat \<Rightarrow> 'd pptc \<Rightarrow> 'd pptc" where
  "preUnion a b r c = (op_put UnionCache (minmax a b) r c)\<lparr>c_unions := bump_preemptive (c_unions c)\<rparr>"

definition preIntersection :: "nat \<Rightarrow> nat \<Rightarrow> nat \<Rightarrow> 'd pptc \<Rightarrow> 'd pptc" where
  "preIntersection a b r c =
     (op_put IntersectionCache (minmax a b) r c)\<lparr>c_intersections := bump_preemptive (c_intersections c)\<rparr>"

definition preComplement :: "nat \<Rightarrow> nat \<Rightarrow> nat \<Rightarrow> 'd pptc \<Rightarrow> 'd pptc" where
  "preComplement a b r c =
     (op_put ComplementCache (a, b) r c)\<lparr>c_complements := bump_preemptive (c_complements c)\<rparr>"

definition unionPts :: "'d data_ops \<Rightarrow> nat \<Rightarrow> nat \<Rightarrow> 'd pptc \<Rightarrow> (nat \<times> 'd pptc) option" where
  "unionPts ops lhs rhs c0 =
     (let c = c0\<lparr>c_unions := bump_total (c_unions c0)\<rparr>; operands = minmax lhs rhs in
      if fst operands = emptyPointsToId
      then Some (snd operands, c\<lparr>c_unions := bump_property (c_unions c)\<rparr>)
      else if fst operands = snd operands
      then Some (fst operands, c\<lparr>c_unions := bump_property (c_unions c)\<rparr>)
      else Option.bind (opPts ops lhs rhs (do_or ops) UnionCache True c) (\<lambda>(result, opPerformed, c1).
        if opPerformed
        then let c2 = c1\<lparr>c_unions := bump_unique (c_unions c1)\<rparr>;
                 c3 = (if lhs \<noteq> result then preUnion lhs result result c2 else c2);
                 c4 = (if rhs \<noteq> result then preUnion rhs result result c3 else c3)
             in Some (result, c4)
        else Some (result, c1\<lparr>c_unions := bump_lookup (c_unions c1)\<rparr>)))"

definition complementPts :: "'d data_ops \<Rightarrow> nat \<Rightarrow> nat \<Rightarrow> 'd pptc \<Rightarrow> (nat \<times> 'd pptc) option" where
  "complementPts ops lhs rhs c0 =
     (let c = c0\<lparr>c_complements := bump_total (c_complements c0)\<rparr>;
          property = c\<lparr>c_complements := bump_property (c_complements c)\<rparr> in
      if lhs = rhs then Some (emptyPointsToId, property)
      else if rhs = emptyPointsToId then Some (lhs, property)
      else if lhs = emptyPointsToId then Some (emptyPointsToId, property)
      else Option.bind (opPts ops lhs rhs (do_diff ops) ComplementCache False c) (\<lambda>(result, opPerformed, c1).
        if opPerformed
        then let c2 = c1\<lparr>c_complements := bump_unique (c_complements c1)\<rparr>
             in Some (result,
                  if result \<noteq> emptyPointsToId
                  then preComplement result rhs result
                         (preIntersection result lhs result (preIntersection result rhs emptyPointsToId c2))
                  else c2)
        else Some (result, c1\<lparr>c_complements := bump_lookup (c_complements c1)\<rparr>)))"

definition intersectPts :: "'d data_ops \<Rightarrow> nat \<Rightarrow> nat \<Rightarrow> 'd pptc \<Rightarrow> (nat \<times> 'd pptc) option" where
  "intersectPts ops lhs rhs c0 =
     (let c = c0\<lparr>c_intersections := bump_total (c_intersections c0)\<rparr>; operands = minmax lhs rhs in
      if fst operands = emptyPointsToId
      then Some (emptyPointsToId, c\<lparr>c_intersections := bump_property (c_intersections c)\<rparr>)
      else if fst operands = snd operands
      then Some (fst operands, c\<lparr>c_intersections := bump_property (c_intersections c)\<rparr>)
      else Option.bind (opPts ops lhs rhs (do_and ops) IntersectionCache True c) (\<lambda>(result, opPerformed, c1).
        if opPerformed
        then let c2 = c1\<lparr>c_intersections := bump_unique (c_intersections c1)\<rparr>
             in if result \<noteq> emptyPointsToId
                then let c3 = (if result \<noteq> rhs then preIntersection result rhs result c2 else c2);
                         c4 = (if result \<noteq> lhs then preIntersection result lhs result c3 else c3);
                         c5 = (if result \<noteq> emptyPointsToId \<and> result \<noteq> lhs then preUnion lhs result lhs c4 else c4);
                         c6 = (if result \<noteq> emptyPointsToId \<and> result \<noteq> rhs then preUnion rhs result rhs c5 else c5)
                     in Some (result, c6)
                else Some (result, c2)
        else Some (result, c1\<lparr>c_intersections := bump_lookup (c_intersections c1)\<rparr>)))"

fun allPts_loop :: "'d data_ops \<Rightarrow> 'd list \<Rightarrow> ('d \<times> nat) list \<Rightarrow> ('d \<times> nat) list option" where
  "allPts_loop ops [] m = Some m"
| "allPts_loop ops (d # ds) m = Option.bind (pts_assign ops m d 1) (allPts_loop ops ds)"

definition getAllPts :: "'d data_ops \<Rightarrow> 'd pptc \<Rightarrow> ('d \<times> nat) list option" where
  "getAllPts ops c = allPts_loop ops (c_idToPts c) []"

subsection \<open>What the cache needs of the data\<close>

locale pts_data =
  fixes ops :: "'d data_ops"
    and dinv :: "'d \<Rightarrow> bool"
    and dset :: "'d \<Rightarrow> nat set"
  assumes new_ok: "dinv (do_new ops)" "dset (do_new ops) = {}"
    and eq_ok: "dinv a \<Longrightarrow> dinv b \<Longrightarrow> do_eq ops a b = Some (dset a = dset b)"
    and hash_ok: "dinv a \<Longrightarrow> do_hash ops a \<noteq> None"
    and hash_eq: "dinv a \<Longrightarrow> dinv b \<Longrightarrow> dset a = dset b \<Longrightarrow> do_hash ops a = do_hash ops b"
    and or_ok: "dinv a \<Longrightarrow> dinv b \<Longrightarrow> \<exists>r. do_or ops a b = Some r \<and> dinv r \<and> dset r = dset a \<union> dset b"
    and diff_ok: "dinv a \<Longrightarrow> dinv b \<Longrightarrow> \<exists>r. do_diff ops a b = Some r \<and> dinv r \<and> dset r = dset a - dset b"
    and and_ok: "dinv a \<Longrightarrow> dinv b \<Longrightarrow> \<exists>r. do_and ops a b = Some r \<and> dinv r \<and> dset r = dset a \<inter> dset b"
    and remap_ok: "dinv a \<Longrightarrow> \<exists>r. do_remap ops a = Some r \<and> dinv r \<and> dset r = dset a"

subsection \<open>The invariant\<close>

text \<open>Ids denote pairwise different sets, 0 the empty one; every set interned is found under its
  id; every cached result is right; the counters of each operation add up.\<close>

definition keys_ok :: "('d \<Rightarrow> bool) \<Rightarrow> ('d \<Rightarrow> nat set) \<Rightarrow> 'd list \<Rightarrow> ('d \<times> nat) list \<Rightarrow> bool" where
  "keys_ok dinv dset ds m \<longleftrightarrow>
     (\<forall>(k, i)\<in>set m. dinv k \<and> i < length ds \<and> dset k = dset (ds ! i)) \<and> snd ` set m = {..<length ds}"

definition entries_ok :: "(nat set \<Rightarrow> nat set \<Rightarrow> nat set) \<Rightarrow> ('d \<Rightarrow> nat set) \<Rightarrow> 'd list \<Rightarrow> op_cache \<Rightarrow> bool" where
  "entries_ok f dset ds t \<longleftrightarrow> (\<forall>a b r. t (a, b) = Some r \<longrightarrow>
     a < length ds \<and> b < length ds \<and> r < length ds \<and> dset (ds ! r) = f (dset (ds ! a)) (dset (ds ! b)))"

definition core_inv :: "('d \<Rightarrow> bool) \<Rightarrow> ('d \<Rightarrow> nat set) \<Rightarrow> 'd pptc \<Rightarrow> bool" where
  "core_inv dinv dset c \<longleftrightarrow>
     c_idToPts c \<noteq> [] \<and> dset (c_idToPts c ! 0) = {} \<and> (\<forall>d\<in>set (c_idToPts c). dinv d)
     \<and> distinct (map dset (c_idToPts c))
     \<and> length (c_idToPts c) \<le> 2 ^ 32 \<and> c_idCounter c = length (c_idToPts c) mod 2 ^ 32
     \<and> keys_ok dinv dset (c_idToPts c) (c_ptsToId c)
     \<and> entries_ok (\<union>) dset (c_idToPts c) (c_unionCache c)
     \<and> entries_ok (-) dset (c_idToPts c) (c_complementCache c)
     \<and> entries_ok (\<inter>) dset (c_idToPts c) (c_intersectionCache c)"

definition stats_ok :: "op_stats \<Rightarrow> bool" where
  "stats_ok s \<longleftrightarrow> st_total s = st_property s + st_unique s + st_lookup s + st_preemptive s"

definition pptc_inv :: "('d \<Rightarrow> bool) \<Rightarrow> ('d \<Rightarrow> nat set) \<Rightarrow> 'd pptc \<Rightarrow> bool" where
  "pptc_inv dinv dset c \<longleftrightarrow> core_inv dinv dset c
     \<and> stats_ok (c_unions c) \<and> stats_ok (c_complements c) \<and> stats_ok (c_intersections c)"

text \<open>The cache after an operation: the ids handed out before denote the same objects.\<close>

definition extends :: "'d pptc \<Rightarrow> 'd pptc \<Rightarrow> bool" where
  "extends c c' \<longleftrightarrow> (\<exists>ds. c_idToPts c' = c_idToPts c @ ds)"

lemma extends_refl [simp]: "extends c c"
  by (simp add: extends_def)

lemma extends_trans: "extends a b \<Longrightarrow> extends b c \<Longrightarrow> extends a c"
  by (auto simp: extends_def)

lemma extends_nth: "extends c c' \<Longrightarrow> i < length (c_idToPts c) \<Longrightarrow>
   i < length (c_idToPts c') \<and> c_idToPts c' ! i = c_idToPts c ! i"
  by (auto simp: extends_def nth_append)

lemma entries_ok_extend: "entries_ok f dset ds t \<Longrightarrow> entries_ok f dset (ds @ es) t"
  unfolding entries_ok_def by (simp add: nth_append) (metis trans_less_add1)

lemma entries_ok_put:
  "entries_ok f dset ds t \<Longrightarrow> a < length ds \<Longrightarrow> b < length ds \<Longrightarrow> r < length ds \<Longrightarrow>
   dset (ds ! r) = f (dset (ds ! a)) (dset (ds ! b)) \<Longrightarrow> entries_ok f dset ds (t((a, b) \<mapsto> r))"
  by (simp add: entries_ok_def)

lemma core_inv_stats [simp]:
  "core_inv dinv dset (c\<lparr>c_unions := s\<rparr>) = core_inv dinv dset c"
  "core_inv dinv dset (c\<lparr>c_complements := s\<rparr>) = core_inv dinv dset c"
  "core_inv dinv dset (c\<lparr>c_intersections := s\<rparr>) = core_inv dinv dset c"
  by (simp_all add: core_inv_def)

lemma stats_bump:
  "stats_ok stats0"
  "stats_ok s \<Longrightarrow> stats_ok (bump_preemptive s)"
  "stats_ok s \<Longrightarrow> stats_ok (bump_property (bump_total s))"
  "stats_ok s \<Longrightarrow> stats_ok (bump_unique (bump_total s))"
  "stats_ok s \<Longrightarrow> stats_ok (bump_lookup (bump_total s))"
  by (simp_all add: stats_ok_def stats0_def bump_preemptive_def bump_property_def bump_total_def bump_unique_def
      bump_lookup_def)

lemma core_len: "core_inv dinv dset c \<Longrightarrow> 0 < length (c_idToPts c)"
  by (simp add: core_inv_def)

text \<open>The ids are canonical: equal sets have equal ids.\<close>

lemma core_canonical:
  "core_inv dinv dset c \<Longrightarrow> i < length (c_idToPts c) \<Longrightarrow> j < length (c_idToPts c) \<Longrightarrow>
   dset (c_idToPts c ! i) = dset (c_idToPts c ! j) \<longleftrightarrow> i = j"
  unfolding core_inv_def by (metis length_map nth_eq_iff_index_eq nth_map)

lemma minmax_cases: "minmax a b = (a, b) \<or> minmax a b = (b, a)"
  by (simp add: minmax_def)

lemma pre_props:
  assumes "core_inv dinv dset c" "a < length (c_idToPts c)" "b < length (c_idToPts c)" "r < length (c_idToPts c)"
  defines "D \<equiv> \<lambda>i. dset (c_idToPts c ! i)"
  shows "D r = D a \<union> D b \<Longrightarrow> core_inv dinv dset (preUnion a b r c)"
    and "D r = D a - D b \<Longrightarrow> core_inv dinv dset (preComplement a b r c)"
    and "D r = D a \<inter> D b \<Longrightarrow> core_inv dinv dset (preIntersection a b r c)"
  using assms minmax_cases [of a b]
  by (auto simp: preUnion_def preComplement_def preIntersection_def core_inv_def Un_commute Int_commute
      intro!: entries_ok_put)

lemma pre_ids [simp]:
  "c_idToPts (preUnion a b r c) = c_idToPts c" "c_idToPts (preComplement a b r c) = c_idToPts c"
  "c_idToPts (preIntersection a b r c) = c_idToPts c"
  by (simp_all add: preUnion_def preComplement_def preIntersection_def)

lemma pre_stats [simp]:
  "c_unions (preUnion a b r c) = bump_preemptive (c_unions c)"
  "c_complements (preUnion a b r c) = c_complements c" "c_intersections (preUnion a b r c) = c_intersections c"
  "c_unions (preIntersection a b r c) = c_unions c" "c_complements (preIntersection a b r c) = c_complements c"
  "c_intersections (preIntersection a b r c) = bump_preemptive (c_intersections c)"
  "c_unions (preComplement a b r c) = c_unions c" "c_intersections (preComplement a b r c) = c_intersections c"
  "c_complements (preComplement a b r c) = bump_preemptive (c_complements c)"
  by (simp_all add: preUnion_def preComplement_def preIntersection_def)

fun sel_fun :: "cache_sel \<Rightarrow> nat set \<Rightarrow> nat set \<Rightarrow> nat set" where
  "sel_fun UnionCache = (\<union>)"
| "sel_fun ComplementCache = (-)"
| "sel_fun IntersectionCache = (\<inter>)"

lemma op_get_ok: "core_inv dinv dset c \<Longrightarrow> entries_ok (sel_fun sel) dset (c_idToPts c) (op_get sel c)"
  by (cases sel) (simp_all add: core_inv_def)

lemma op_put_ok:
  "core_inv dinv dset c \<Longrightarrow> entries_ok (sel_fun sel) dset (c_idToPts c) ((op_get sel c)(k \<mapsto> v)) \<Longrightarrow>
   core_inv dinv dset (op_put sel k v c)"
  by (cases sel) (simp_all add: core_inv_def)

lemma op_put_simps [simp]:
  "c_idToPts (op_put sel k v c) = c_idToPts c" "c_unions (op_put sel k v c) = c_unions c"
  "c_complements (op_put sel k v c) = c_complements c" "c_intersections (op_put sel k v c) = c_intersections c"
  by (cases sel; simp)+

subsection \<open>Lemmas on the cache, for any data that satisfies the contract\<close>

context pts_data begin

lemma find_loop_ok:
  "do_hash ops d = Some h \<Longrightarrow> dinv d \<Longrightarrow> \<forall>(k, i)\<in>set m. dinv k \<Longrightarrow>
   \<exists>f. find_loop ops h m d = Some f \<and>
     (case f of Some i \<Rightarrow> \<exists>k. (k, i) \<in> set m \<and> dset k = dset d | None \<Rightarrow> \<forall>(k, i)\<in>set m. dset k \<noteq> dset d)"
proof (induction m)
  case (Cons e m)
  obtain k i where e: "e = (k, i)" by fastforce
  then have k: "dinv k" using Cons.prems(3) by simp
  obtain f where f: "find_loop ops h m d = Some f"
    "case f of Some i \<Rightarrow> \<exists>k. (k, i) \<in> set m \<and> dset k = dset d | None \<Rightarrow> \<forall>(k, i)\<in>set m. dset k \<noteq> dset d"
    using Cons by auto
  show ?case
  proof (cases "dset k = dset d")
    case True
    then have "do_hash ops k = Some h" using hash_eq [OF k Cons.prems(2)] Cons.prems(1) by simp
    then have "find_loop ops h (e # m) d = Some (Some i)" using True eq_ok [OF k Cons.prems(2)] by (simp add: e)
    then show ?thesis using True e by auto
  next
    case False
    then have "find_loop ops h (e # m) d = Some f" using f(1) eq_ok [OF k Cons.prems(2)] by (simp add: e)
    then show ?thesis using f(2) False e by (cases f) auto
  qed
qed simp

lemma pts_find_ok:
  assumes "dinv d" "keys_ok dinv dset ds m"
  shows "\<exists>f. pts_find ops m d = Some f \<and>
    (case f of Some i \<Rightarrow> i < length ds \<and> dset (ds ! i) = dset d | None \<Rightarrow> \<forall>i<length ds. dset (ds ! i) \<noteq> dset d)"
proof -
  obtain h where h: "do_hash ops d = Some h" using hash_ok [OF assms(1)] by blast
  have keys: "\<And>k i. (k, i) \<in> set m \<Longrightarrow> dinv k \<and> i < length ds \<and> dset k = dset (ds ! i)"
    and all: "snd ` set m = {..<length ds}" using assms(2) by (auto simp: keys_ok_def)
  obtain f where f: "find_loop ops h m d = Some f"
    "case f of Some i \<Rightarrow> \<exists>k. (k, i) \<in> set m \<and> dset k = dset d | None \<Rightarrow> \<forall>(k, i)\<in>set m. dset k \<noteq> dset d"
    using find_loop_ok [OF h assms(1)] keys by fast
  have "\<forall>i<length ds. dset (ds ! i) \<noteq> dset d" if "f = None"
  proof (intro allI impI)
    fix i assume "i < length ds"
    then have "i \<in> snd ` set m" using all by simp
    then obtain k where k: "(k, i) \<in> set m" by auto
    then show "dset (ds ! i) \<noteq> dset d" using keys [OF k] f(2) that by auto
  qed
  then show ?thesis using f keys h by (auto simp: pts_find_def split: option.splits)
qed

lemma assign_loop_new:
  "do_hash ops d = Some h \<Longrightarrow> dinv d \<Longrightarrow> \<forall>(k, i)\<in>set m. dinv k \<and> dset k \<noteq> dset d \<Longrightarrow>
   assign_loop ops h m d v = Some (m @ [(d, v)])"
  by (induction m) (simp_all add: eq_ok split: prod.splits)

lemma pts_assign_new:
  assumes "dinv d" "keys_ok dinv dset ds m" "\<forall>i<length ds. dset (ds ! i) \<noteq> dset d"
  shows "\<exists>m'. pts_assign ops m d (length ds) = Some m' \<and> keys_ok dinv dset (ds @ [d]) m'"
proof -
  obtain h where h: "do_hash ops d = Some h" using hash_ok [OF assms(1)] by blast
  have "\<forall>(k, i)\<in>set m. dinv k \<and> dset k \<noteq> dset d" using assms(2,3) by (fastforce simp: keys_ok_def)
  then have "pts_assign ops m d (length ds) = Some (m @ [(d, length ds)])"
    using assign_loop_new [OF h assms(1)] h by (simp add: pts_assign_def)
  moreover have "keys_ok dinv dset (ds @ [d]) (m @ [(d, length ds)])"
    using assms(1,2) by (auto simp: keys_ok_def nth_append lessThan_Suc)
  ultimately show ?thesis by blast
qed

lemma emplace_ok:
  assumes "core_inv dinv dset c" "dinv d"
  shows "case emplacePts ops d c of
      None \<Rightarrow> length (c_idToPts c) = 2 ^ 32
    | Some (i, c') \<Rightarrow> core_inv dinv dset c' \<and> extends c c' \<and> i < length (c_idToPts c')
        \<and> dset (c_idToPts c' ! i) = dset d
        \<and> c_unions c' = c_unions c \<and> c_complements c' = c_complements c \<and> c_intersections c' = c_intersections c
        \<and> op_get sel c' = op_get sel c"
proof -
  let ?ds = "c_idToPts c"
  have keys: "keys_ok dinv dset ?ds (c_ptsToId c)" and len: "length ?ds \<le> 2 ^ 32"
    and cnt: "c_idCounter c = length ?ds mod 2 ^ 32" and pos: "0 < length ?ds"
    using assms(1) by (simp_all add: core_inv_def)
  obtain f where f: "pts_find ops (c_ptsToId c) d = Some f"
    "case f of Some i \<Rightarrow> i < length ?ds \<and> dset (?ds ! i) = dset d | None \<Rightarrow> \<forall>i<length ?ds. dset (?ds ! i) \<noteq> dset d"
    using pts_find_ok [OF assms(2) keys] by blast
  show ?thesis
  proof (cases f)
    case (Some i)
    then show ?thesis using f assms(1) by (simp add: emplacePts_def)
  next
    case None
    show ?thesis
    proof (cases "length ?ds = 2 ^ 32")
      case True
      then show ?thesis using f None cnt by (simp add: emplacePts_def newPointsToId_def emptyPointsToId_def)
    next
      case False
      then have lt: "length ?ds < 2 ^ 32" using len by simp
      then have id: "c_idCounter c = length ?ds" using cnt by simp
      have none: "\<forall>i<length ?ds. dset (?ds ! i) \<noteq> dset d" using f(2) None by simp
      obtain m where m: "pts_assign ops (c_ptsToId c) d (length ?ds) = Some m" "keys_ok dinv dset (?ds @ [d]) m"
        using pts_assign_new [OF assms(2) keys none] by blast
      let ?c = "c\<lparr>c_idCounter := to_u32 (int (length ?ds) + 1), c_idToPts := ?ds @ [d], c_ptsToId := m\<rparr>"
      have e: "emplacePts ops d c = Some (length ?ds, ?c)"
        using f(1) None id pos m(1) by (simp add: emplacePts_def newPointsToId_def emptyPointsToId_def)
      have fresh: "dset d \<notin> dset ` set ?ds" using none by (metis imageE in_set_conv_nth)
      have "to_u32 (int (length ?ds) + 1) = Suc (length ?ds) mod 2 ^ 32"
        using to_u32_nat [of "Suc (length ?ds)"] by (simp add: add.commute)
      then have "core_inv dinv dset ?c"
        using assms lt m(2) fresh entries_ok_extend by (auto simp: core_inv_def nth_append)
      then show ?thesis using e by (cases sel) (simp_all add: extends_def)
    qed
  qed
qed

lemma opPts_ok:
  assumes core: "core_inv dinv dset c" and lr: "lhs < length (c_idToPts c)" "rhs < length (c_idToPts c)"
    and f: "\<And>a b. dinv a \<Longrightarrow> dinv b \<Longrightarrow> \<exists>r. dataOp a b = Some r \<and> dinv r \<and> dset r = sel_fun sel (dset a) (dset b)"
    and comm: "comm \<Longrightarrow> \<forall>X Y. sel_fun sel X Y = sel_fun sel Y X"
  shows "case opPts ops lhs rhs dataOp sel comm c of
      None \<Rightarrow> length (c_idToPts c) = 2 ^ 32
    | Some (i, performed, c') \<Rightarrow> core_inv dinv dset c' \<and> extends c c' \<and> i < length (c_idToPts c')
        \<and> dset (c_idToPts c' ! i) = sel_fun sel (dset (c_idToPts c ! lhs)) (dset (c_idToPts c ! rhs))
        \<and> c_unions c' = c_unions c \<and> c_complements c' = c_complements c \<and> c_intersections c' = c_intersections c"
proof -
  let ?ds = "c_idToPts c"
  define k where "k = (if comm then minmax lhs rhs else (lhs, rhs))"
  have k: "k = (lhs, rhs) \<or> comm \<and> k = (rhs, lhs)" using minmax_cases [of lhs rhs] by (auto simp: k_def)
  show ?thesis
  proof (cases "op_get sel c k")
    case (Some r)
    then have "r < length ?ds \<and> dset (?ds ! r) = sel_fun sel (dset (?ds ! lhs)) (dset (?ds ! rhs))"
      using op_get_ok [OF core, of sel] k comm by (auto simp: entries_ok_def)
    then show ?thesis using Some core by (simp add: opPts_def k_def [symmetric])
  next
    case None
    have inv: "dinv (?ds ! lhs)" "dinv (?ds ! rhs)" using core lr by (simp_all add: core_inv_def)
    obtain d where d: "dataOp (?ds ! lhs) (?ds ! rhs) = Some d" "dinv d"
      "dset d = sel_fun sel (dset (?ds ! lhs)) (dset (?ds ! rhs))"
      using f [OF inv] by blast
    have eq: "opPts ops lhs rhs dataOp sel comm c
        = Option.bind (emplacePts ops d c) (\<lambda>(i, c1). Some (i, True, op_put sel k i c1))"
      using None lr d(1) by (simp add: opPts_def k_def [symmetric] getActualPts_def)
    show ?thesis
    proof (cases "emplacePts ops d c")
      case none: None
      then show ?thesis using emplace_ok [OF core d(2), of sel] eq by simp
    next
      case (Some q)
      then obtain i c1 where q: "emplacePts ops d c = Some (i, c1)" by (cases q) auto
      have c1: "core_inv dinv dset c1" "extends c c1" "i < length (c_idToPts c1)" "dset (c_idToPts c1 ! i) = dset d"
        "c_unions c1 = c_unions c" "c_complements c1 = c_complements c" "c_intersections c1 = c_intersections c"
        using emplace_ok [OF core d(2), of sel] q by simp_all
      have "entries_ok (sel_fun sel) dset (c_idToPts c1) ((op_get sel c1)(k \<mapsto> i))"
        using k op_get_ok [OF c1(1), of sel] extends_nth [OF c1(2)] lr c1(3,4) d(3) comm
        by (elim disjE) (auto intro!: entries_ok_put)
      then have "core_inv dinv dset (op_put sel k i c1)" by (rule op_put_ok [OF c1(1)])
      then show ?thesis using q eq c1 d(3) by (simp add: extends_def)
    qed
  qed
qed

end

subsection \<open>The operations on ids\<close>

context pts_data begin

text \<open>The result of an operation on ids: a failed assertion only when the ids are exhausted, and
  otherwise an id of the wanted set in a cache that satisfies the invariant.\<close>

definition result_ok :: "'d pptc \<Rightarrow> nat set \<Rightarrow> (nat \<times> 'd pptc) option \<Rightarrow> bool" where
  "result_ok c X res \<longleftrightarrow> (case res of
      None \<Rightarrow> length (c_idToPts c) = 2 ^ 32
    | Some (i, c') \<Rightarrow> pptc_inv dinv dset c' \<and> extends c c' \<and> i < length (c_idToPts c')
        \<and> dset (c_idToPts c' ! i) = X)"

lemma emplacePts_ok:
  assumes "pptc_inv dinv dset c" "dinv d"
  shows "result_ok c (dset d) (emplacePts ops d c)"
  using emplace_ok [of c d UnionCache] assms by (auto simp: result_ok_def pptc_inv_def split: option.splits)

lemma property_ok:
  assumes "pptc_inv dinv dset c" "i < length (c_idToPts c)" "dset (c_idToPts c ! i) = X"
    and "c' = c\<lparr>c_unions := bump_property (bump_total (c_unions c))\<rparr>
      \<or> c' = c\<lparr>c_complements := bump_property (bump_total (c_complements c))\<rparr>
      \<or> c' = c\<lparr>c_intersections := bump_property (bump_total (c_intersections c))\<rparr>"
  shows "result_ok c X (Some (i, c'))"
  using assms by (auto simp: result_ok_def pptc_inv_def stats_bump extends_def)

lemma unionPts_ok:
  assumes inv: "pptc_inv dinv dset c" and lr: "lhs < length (c_idToPts c)" "rhs < length (c_idToPts c)"
  shows "result_ok c (dset (c_idToPts c ! lhs) \<union> dset (c_idToPts c ! rhs)) (unionPts ops lhs rhs c)"
proof -
  let ?D = "\<lambda>i. dset (c_idToPts c ! i)"
  have core: "core_inv dinv dset c" and st: "stats_ok (c_unions c)" "stats_ok (c_complements c)" "stats_ok (c_intersections c)"
    using inv by (simp_all add: pptc_inv_def)
  have D0: "?D 0 = {}" using core by (simp add: core_inv_def)
  define u where "u = bump_total (c_unions c)"
  let ?c = "c\<lparr>c_unions := u\<rparr>"
  consider (zero) "fst (minmax lhs rhs) = 0" | (same) "fst (minmax lhs rhs) \<noteq> 0" "lhs = rhs" | (op) "fst (minmax lhs rhs) \<noteq> 0" "lhs \<noteq> rhs" by blast
  then show ?thesis
  proof cases
    case zero
    then have "snd (minmax lhs rhs) < length (c_idToPts c)" "?D (snd (minmax lhs rhs)) = ?D lhs \<union> ?D rhs"
      using lr D0 by (auto simp: minmax_def split: if_splits)
    then show ?thesis using zero property_ok [OF inv] by (simp add: unionPts_def emptyPointsToId_def)
  next
    case same
    then show ?thesis using lr property_ok [OF inv] by (simp add: unionPts_def emptyPointsToId_def minmax_def)
  next
    case op
    have ne: "fst (minmax lhs rhs) \<noteq> snd (minmax lhs rhs)" using op by (simp add: minmax_def)
    have o: "case opPts ops lhs rhs (do_or ops) UnionCache True ?c of
      None \<Rightarrow> length (c_idToPts c) = 2 ^ 32
    | Some (i, performed, c') \<Rightarrow> core_inv dinv dset c' \<and> extends ?c c' \<and> i < length (c_idToPts c')
        \<and> dset (c_idToPts c' ! i) = ?D lhs \<union> ?D rhs
        \<and> c_unions c' = u \<and> c_complements c' = c_complements c \<and> c_intersections c' = c_intersections c"
      using opPts_ok [of ?c lhs rhs "do_or ops" UnionCache True] core lr or_ok by (simp add: Un_commute split: option.splits prod.splits)
    show ?thesis
    proof (cases "opPts ops lhs rhs (do_or ops) UnionCache True ?c")
      case None
      then show ?thesis using o op(1) ne by (simp add: unionPts_def emptyPointsToId_def u_def result_ok_def)
    next
      case (Some q)
      then obtain i pf c1 where q: "opPts ops lhs rhs (do_or ops) UnionCache True ?c = Some (i, pf, c1)" by (cases q) auto
      have c1: "core_inv dinv dset c1" "extends c c1" "i < length (c_idToPts c1)" "dset (c_idToPts c1 ! i) = ?D lhs \<union> ?D rhs"
        and s1: "c_unions c1 = u" "c_complements c1 = c_complements c" "c_intersections c1 = c_intersections c"
        using o q by (auto simp: extends_def)
      note ids = extends_nth [OF c1(2) lr(1)] extends_nth [OF c1(2) lr(2)]
      show ?thesis
      proof (cases pf)
        case False
        then show ?thesis using q op(1) ne c1 s1 st
          by (simp add: unionPts_def emptyPointsToId_def u_def result_ok_def pptc_inv_def stats_bump extends_def)
      next
        case True
        define c2 where "c2 = c1\<lparr>c_unions := bump_unique (c_unions c1)\<rparr>"
        define c3 where "c3 = (if lhs \<noteq> i then preUnion lhs i i c2 else c2)"
        define c4 where "c4 = (if rhs \<noteq> i then preUnion rhs i i c3 else c3)"
        have i2: "c_idToPts c2 = c_idToPts c1" "c_idToPts c3 = c_idToPts c1" "c_idToPts c4 = c_idToPts c1"
          by (simp_all add: c2_def c3_def c4_def)
        have k2: "core_inv dinv dset c2" using c1(1) by (simp add: c2_def)
        have k3: "core_inv dinv dset c3" unfolding c3_def
          using k2 i2 ids c1(3,4) by (auto intro!: pre_props(1))
        have k4: "core_inv dinv dset c4" unfolding c4_def
          using k3 i2 ids c1(3,4) by (auto intro!: pre_props(1))
        have "stats_ok (c_unions c4)" "c_complements c4 = c_complements c" "c_intersections c4 = c_intersections c"
          using st s1 by (simp_all add: c4_def c3_def c2_def u_def stats_bump)
        then have "pptc_inv dinv dset c4" using k4 st by (simp add: pptc_inv_def)
        moreover have "unionPts ops lhs rhs c = Some (i, c4)"
          using q op(1) ne True by (simp add: unionPts_def emptyPointsToId_def u_def c2_def c3_def c4_def Let_def)
        ultimately show ?thesis using c1 i2 by (simp add: result_ok_def extends_def)
      qed
    qed
  qed
qed

lemma complementPts_ok:
  assumes inv: "pptc_inv dinv dset c" and lr: "lhs < length (c_idToPts c)" "rhs < length (c_idToPts c)"
  shows "result_ok c (dset (c_idToPts c ! lhs) - dset (c_idToPts c ! rhs)) (complementPts ops lhs rhs c)"
proof -
  let ?D = "\<lambda>i. dset (c_idToPts c ! i)"
  have core: "core_inv dinv dset c" and st: "stats_ok (c_unions c)" "stats_ok (c_complements c)" "stats_ok (c_intersections c)"
    using inv by (simp_all add: pptc_inv_def)
  have D0: "?D 0 = {}" "0 < length (c_idToPts c)" using core by (simp_all add: core_inv_def)
  define u where "u = bump_total (c_complements c)"
  let ?c = "c\<lparr>c_complements := u\<rparr>"
  show ?thesis
  proof (cases "lhs = rhs \<or> rhs = 0 \<or> lhs = 0")
    case True
    then show ?thesis using lr D0 property_ok [OF inv] by (auto simp: complementPts_def emptyPointsToId_def Let_def)
  next
    case False
    have o: "case opPts ops lhs rhs (do_diff ops) ComplementCache False ?c of
      None \<Rightarrow> length (c_idToPts c) = 2 ^ 32
    | Some (i, performed, c') \<Rightarrow> core_inv dinv dset c' \<and> extends ?c c' \<and> i < length (c_idToPts c')
        \<and> dset (c_idToPts c' ! i) = ?D lhs - ?D rhs
        \<and> c_unions c' = c_unions c \<and> c_complements c' = u \<and> c_intersections c' = c_intersections c"
      using opPts_ok [of ?c lhs rhs "do_diff ops" ComplementCache False] core lr diff_ok by (simp split: option.splits prod.splits)
    show ?thesis
    proof (cases "opPts ops lhs rhs (do_diff ops) ComplementCache False ?c")
      case None
      then show ?thesis using o False by (simp add: complementPts_def emptyPointsToId_def u_def result_ok_def Let_def)
    next
      case (Some q)
      then obtain i pf c1 where q: "opPts ops lhs rhs (do_diff ops) ComplementCache False ?c = Some (i, pf, c1)" by (cases q) auto
      have c1: "core_inv dinv dset c1" "extends c c1" "i < length (c_idToPts c1)" "dset (c_idToPts c1 ! i) = ?D lhs - ?D rhs"
        and s1: "c_unions c1 = c_unions c" "c_complements c1 = u" "c_intersections c1 = c_intersections c"
        using o q by (auto simp: extends_def)
      note ids = extends_nth [OF c1(2) lr(1)] extends_nth [OF c1(2) lr(2)] extends_nth [OF c1(2) D0(2)]
      show ?thesis
      proof (cases pf)
        case False': False
        then show ?thesis using q False c1 s1 st
          by (simp add: complementPts_def emptyPointsToId_def u_def result_ok_def pptc_inv_def stats_bump extends_def Let_def)
      next
        case True
        define c2 where "c2 = c1\<lparr>c_complements := bump_unique (c_complements c1)\<rparr>"
        define c3 where "c3 = preIntersection i rhs 0 c2"
        define c4 where "c4 = preIntersection i lhs i c3"
        define c5 where "c5 = preComplement i rhs i c4"
        define c6 where "c6 = (if i \<noteq> 0 then c5 else c2)"
        have i2: "c_idToPts c2 = c_idToPts c1" "c_idToPts c3 = c_idToPts c1" "c_idToPts c4 = c_idToPts c1" "c_idToPts c5 = c_idToPts c1"
          by (simp_all add: c2_def c3_def c4_def c5_def)
        have k2: "core_inv dinv dset c2" using c1(1) by (simp add: c2_def)
        have k3: "core_inv dinv dset c3" unfolding c3_def
          using k2 i2 ids c1(3,4) D0 by (intro pre_props(3)) auto
        have k4: "core_inv dinv dset c4" unfolding c4_def
          using k3 i2 ids c1(3,4) by (intro pre_props(3)) auto
        have k5: "core_inv dinv dset c5" unfolding c5_def
          using k4 i2 ids c1(3,4) by (intro pre_props(2)) auto
        have "stats_ok (c_complements c6)" "c_unions c6 = c_unions c" "stats_ok (c_intersections c6)"
          using st s1 by (simp_all add: c6_def c5_def c4_def c3_def c2_def u_def stats_bump)
        then have "pptc_inv dinv dset c6" using k2 k5 st by (simp add: pptc_inv_def c6_def)
        moreover have "complementPts ops lhs rhs c = Some (i, c6)"
          using q False True by (simp add: complementPts_def emptyPointsToId_def u_def c2_def c3_def c4_def c5_def c6_def Let_def)
        moreover have "c_idToPts c6 = c_idToPts c1" by (simp add: c6_def i2)
        ultimately show ?thesis using c1 by (simp add: result_ok_def extends_def)
      qed
    qed
  qed
qed

lemma intersectPts_ok:
  assumes inv: "pptc_inv dinv dset c" and lr: "lhs < length (c_idToPts c)" "rhs < length (c_idToPts c)"
  shows "result_ok c (dset (c_idToPts c ! lhs) \<inter> dset (c_idToPts c ! rhs)) (intersectPts ops lhs rhs c)"
proof -
  let ?D = "\<lambda>i. dset (c_idToPts c ! i)"
  have core: "core_inv dinv dset c" and st: "stats_ok (c_unions c)" "stats_ok (c_complements c)" "stats_ok (c_intersections c)"
    using inv by (simp_all add: pptc_inv_def)
  have D0: "?D 0 = {}" "0 < length (c_idToPts c)" using core by (simp_all add: core_inv_def)
  define u where "u = bump_total (c_intersections c)"
  let ?c = "c\<lparr>c_intersections := u\<rparr>"
  consider (zero) "fst (minmax lhs rhs) = 0" | (same) "fst (minmax lhs rhs) \<noteq> 0" "lhs = rhs" | (op) "fst (minmax lhs rhs) \<noteq> 0" "lhs \<noteq> rhs" by blast
  then show ?thesis
  proof cases
    case zero
    then have "?D 0 = ?D lhs \<inter> ?D rhs" using D0 by (auto simp: minmax_def split: if_splits)
    then show ?thesis using zero D0 property_ok [OF inv] by (simp add: intersectPts_def emptyPointsToId_def)
  next
    case same
    then show ?thesis using lr property_ok [OF inv] by (simp add: intersectPts_def emptyPointsToId_def minmax_def)
  next
    case op
    have ne: "fst (minmax lhs rhs) \<noteq> snd (minmax lhs rhs)" using op by (simp add: minmax_def)
    have o: "case opPts ops lhs rhs (do_and ops) IntersectionCache True ?c of
      None \<Rightarrow> length (c_idToPts c) = 2 ^ 32
    | Some (i, performed, c') \<Rightarrow> core_inv dinv dset c' \<and> extends ?c c' \<and> i < length (c_idToPts c')
        \<and> dset (c_idToPts c' ! i) = ?D lhs \<inter> ?D rhs
        \<and> c_unions c' = c_unions c \<and> c_complements c' = c_complements c \<and> c_intersections c' = u"
      using opPts_ok [of ?c lhs rhs "do_and ops" IntersectionCache True] core lr and_ok by (simp add: Int_commute split: option.splits prod.splits)
    show ?thesis
    proof (cases "opPts ops lhs rhs (do_and ops) IntersectionCache True ?c")
      case None
      then show ?thesis using o op(1) ne by (simp add: intersectPts_def emptyPointsToId_def u_def result_ok_def)
    next
      case (Some q)
      then obtain i pf c1 where q: "opPts ops lhs rhs (do_and ops) IntersectionCache True ?c = Some (i, pf, c1)" by (cases q) auto
      have c1: "core_inv dinv dset c1" "extends c c1" "i < length (c_idToPts c1)" "dset (c_idToPts c1 ! i) = ?D lhs \<inter> ?D rhs"
        and s1: "c_unions c1 = c_unions c" "c_complements c1 = c_complements c" "c_intersections c1 = u"
        using o q by (auto simp: extends_def)
      note ids = extends_nth [OF c1(2) lr(1)] extends_nth [OF c1(2) lr(2)]
      show ?thesis
      proof (cases pf)
        case False
        then show ?thesis using q op(1) ne c1 s1 st
          by (simp add: intersectPts_def emptyPointsToId_def u_def result_ok_def pptc_inv_def stats_bump extends_def)
      next
        case True
        define c2 where "c2 = c1\<lparr>c_intersections := bump_unique (c_intersections c1)\<rparr>"
        define c3 where "c3 = (if i \<noteq> rhs then preIntersection i rhs i c2 else c2)"
        define c4 where "c4 = (if i \<noteq> lhs then preIntersection i lhs i c3 else c3)"
        define c5 where "c5 = (if i \<noteq> lhs then preUnion lhs i lhs c4 else c4)"
        define c6 where "c6 = (if i \<noteq> rhs then preUnion rhs i rhs c5 else c5)"
        define c7 where "c7 = (if i \<noteq> 0 then c6 else c2)"
        have i2: "c_idToPts c2 = c_idToPts c1" "c_idToPts c3 = c_idToPts c1" "c_idToPts c4 = c_idToPts c1"
          "c_idToPts c5 = c_idToPts c1" "c_idToPts c6 = c_idToPts c1"
          by (simp_all add: c2_def c3_def c4_def c5_def c6_def)
        have k2: "core_inv dinv dset c2" using c1(1) by (simp add: c2_def)
        have k3: "core_inv dinv dset c3" unfolding c3_def
          using k2 i2 ids c1(3,4) by (auto intro!: pre_props(3))
        have k4: "core_inv dinv dset c4" unfolding c4_def
          using k3 i2 ids c1(3,4) by (auto intro!: pre_props(3))
        have k5: "core_inv dinv dset c5" unfolding c5_def
          using k4 i2 ids c1(3,4) by (auto intro!: pre_props(1))
        have k6: "core_inv dinv dset c6" unfolding c6_def
          using k5 i2 ids c1(3,4) by (auto intro!: pre_props(1))
        have "stats_ok (c_intersections c7)" "c_complements c7 = c_complements c" "stats_ok (c_unions c7)"
          using st s1 by (simp_all add: c7_def c6_def c5_def c4_def c3_def c2_def u_def stats_bump)
        then have "pptc_inv dinv dset c7" using k2 k6 st by (simp add: pptc_inv_def c7_def)
        moreover have "intersectPts ops lhs rhs c = Some (i, c7)"
          using q op(1) ne True
          by (simp add: intersectPts_def emptyPointsToId_def u_def c2_def c3_def c4_def c5_def c6_def c7_def Let_def)
        moreover have "c_idToPts c7 = c_idToPts c1" by (simp add: c7_def i2)
        ultimately show ?thesis using c1 by (simp add: result_ok_def extends_def)
      qed
    qed
  qed
qed

end

subsection \<open>Creating, resetting and remapping\<close>

context pts_data begin

lemma keys_ok_Nil: "keys_ok dinv dset [] []"
  by (simp add: keys_ok_def)

lemma first_key: "\<exists>m. pts_assign ops [] (do_new ops) emptyPointsToId = Some m \<and> keys_ok dinv dset [do_new ops] m"
  using pts_assign_new [OF new_ok(1) keys_ok_Nil] by (simp add: emptyPointsToId_def)

lemma fresh_inv:
  "keys_ok dinv dset [do_new ops] m \<Longrightarrow>
   pptc_inv dinv dset \<lparr>c_idToPts = [do_new ops], c_ptsToId = m, c_unionCache = Map.empty, c_complementCache = Map.empty,
     c_intersectionCache = Map.empty, c_idCounter = 1, c_unions = stats0, c_complements = stats0, c_intersections = stats0\<rparr>"
  by (simp add: pptc_inv_def core_inv_def new_ok entries_ok_def stats_bump)

lemma pptc_new_ok: "\<exists>c. pptc_new ops = Some c \<and> pptc_inv dinv dset c \<and> c_idToPts c = [do_new ops]"
  using first_key fresh_inv by (auto simp: pptc_new_def initStats_def)

lemma pptc_reset_eq_new: "pptc_reset ops c = pptc_new ops"
  using first_key by (auto simp: pptc_reset_def pptc_new_def pptc_clear_def initStats_def)

lemma remap_loop_ok:
  "\<forall>d\<in>set ds. dinv d \<Longrightarrow> \<exists>es. remap_loop ops ds = Some es \<and> (\<forall>d\<in>set es. dinv d) \<and> map dset es = map dset ds"
proof (induction ds)
  case (Cons d ds)
  obtain r where "do_remap ops d = Some r" "dinv r" "dset r = dset d" using remap_ok [of d] Cons.prems by auto
  moreover obtain es where "remap_loop ops ds = Some es" "\<forall>d\<in>set es. dinv d" "map dset es = map dset ds"
    using Cons by auto
  ultimately show ?case by auto
qed simp

lemma rebuild_loop_ok:
  "keys_ok dinv dset xs m \<Longrightarrow> \<forall>d\<in>set ys. dinv d \<Longrightarrow> distinct (map dset (xs @ ys)) \<Longrightarrow>
   \<exists>m'. rebuild_loop ops (length xs) ys m = Some m' \<and> keys_ok dinv dset (xs @ ys) m'"
proof (induction ys arbitrary: xs m)
  case (Cons y ys)
  have "dset y \<notin> dset ` set xs" using Cons.prems(3) by auto
  then have "\<forall>i<length xs. dset (xs ! i) \<noteq> dset y" by (metis imageI nth_mem)
  then obtain m1 where m1: "pts_assign ops m y (length xs) = Some m1" "keys_ok dinv dset (xs @ [y]) m1"
    using pts_assign_new [of y, OF _ Cons.prems(1)] Cons.prems(2) by (metis list.set_intros(1))
  then show ?case using Cons.IH [OF m1(2)] Cons.prems(2,3) by simp
qed simp

lemma remapAllPts_ok:
  assumes "pptc_inv dinv dset c"
  shows "\<exists>c'. remapAllPts ops c = Some c' \<and> pptc_inv dinv dset c' \<and> map dset (c_idToPts c') = map dset (c_idToPts c)"
proof -
  let ?ds = "c_idToPts c"
  have core: "core_inv dinv dset c" using assms by (simp add: pptc_inv_def)
  then obtain es where es: "remap_loop ops ?ds = Some es" "\<forall>d\<in>set es. dinv d" "map dset es = map dset ?ds"
    using remap_loop_ok [of ?ds] by (auto simp: core_inv_def)
  obtain m where m: "rebuild_loop ops 0 es [] = Some m" "keys_ok dinv dset es m"
    using rebuild_loop_ok [OF keys_ok_Nil, of es] es core by (auto simp: core_inv_def)
  have len: "length es = length ?ds" using es(3) by (metis length_map)
  have nth: "i < length ?ds \<Longrightarrow> dset (es ! i) = dset (?ds ! i)" for i
    using es(3) len by (metis nth_map)
  have "entries_ok f dset es t" if "entries_ok f dset ?ds t" for f t
    using that nth unfolding entries_ok_def len by metis
  then have "core_inv dinv dset (c\<lparr>c_idToPts := es, c_ptsToId := m\<rparr>)"
    using core m(2) es(2,3) len nth [of 0] by (auto simp: core_inv_def)
  then show ?thesis using es(1,3) m(1) assms by (simp add: remapAllPts_def pptc_inv_def)
qed

end

subsection \<open>Points-to sets backed by sparse bit vectors\<close>

definition sbv_config :: pt_config where
  "sbv_config = \<lparr>o_ptType = SBV, o_bestNodeMapping = None, o_bestReverseNodeMapping = None\<rparr>"

lemma sbv_find_last_some: "sbv_inv s \<Longrightarrow> sbv_find_last s \<noteq> None"
proof (cases "s_elems s = []")
  case False
  assume "sbv_inv s"
  then have "elt_ok (last (s_elems s))" "\<not> elt_empty (last (s_elems s))"
    using False by (auto simp: sbv_inv_def elems_ok_def)
  then obtain p where "elt_find_last (last (s_elems s)) = Some p" using elt_find_last_props by blast
  then show ?thesis using False by (simp add: sbv_find_last_def Let_def)
qed (simp add: sbv_find_last_def)

lemma plain_copy: "pt_plain t p \<Longrightarrow> pt_plain t (pt_copy p)" "pt_nodes (pt_copy p) = pt_nodes p"
  using pt_copy_ok [of p] by (auto simp: pt_plain_def pt_copy_def pt_same_def b_copy_props pt_nodes_def getInternalNode_def)

lemma plain_some:
  assumes "pt_plain t a" "pt_plain t b"
  shows "pt_or False a b \<noteq> None" "pt_and False a b \<noteq> None" "pt_diff False a b \<noteq> None" "pt_eq False a b = Some (pt_nodes a = pt_nodes b)"
proof -
  have inv: "pt_inv a" "pt_inv b" using assms by (simp_all add: pt_plain_def)
  note same = plain_same [OF assms]
  show "pt_or False a b \<noteq> None" "pt_and False a b \<noteq> None" "pt_diff False a b \<noteq> None" "pt_eq False a b = Some (pt_nodes a = pt_nodes b)"
    using pt_or_ok [OF inv same, of False] pt_and_ok [OF inv same, of False] pt_diff_ok [OF inv same, of False]
      pt_relations(1) [OF inv same, of False] by auto
qed

interpretation sbv_pts: pts_data "pt_ops sbv_config" "pt_plain SBV" pt_nodes
proof
  show "pt_plain SBV (do_new (pt_ops sbv_config))" "pt_nodes (do_new (pt_ops sbv_config)) = {}"
    using pts.inv_emp [of SBV] pts.bits_emp [of SBV] by (simp_all add: pt_ops_def sbv_config_def pt_plain_new_def)
  fix a assume a: "pt_plain SBV a"
  then obtain s where s: "pt_data a = Sbv s" "sbv_inv s"
    by (cases "pt_data a") (auto simp: pt_plain_def pt_inv_def)
  show "do_hash (pt_ops sbv_config) a \<noteq> None"
    using s sbv_find_last_some [OF s(2)] sbv_find_first_props [OF s(2)] by (auto simp: pt_ops_def pt_hash_def sbv_hash_def)
  show "\<exists>r. do_remap (pt_ops sbv_config) a = Some r \<and> pt_plain SBV r \<and> pt_nodes r = pt_nodes a"
    using a by (simp add: pt_ops_def checkAndRemap_def sbv_config_def pt_plain_def ptr_eq_def)
  fix b assume b: "pt_plain SBV b"
  show "do_eq (pt_ops sbv_config) a b = Some (pt_nodes a = pt_nodes b)"
    using plain_some(4) [OF a b] by (simp add: pt_ops_def)
  note c = plain_copy(1) [OF a]
  note some = plain_some [OF c b]
  show "\<exists>r. do_or (pt_ops sbv_config) a b = Some r \<and> pt_plain SBV r \<and> pt_nodes r = pt_nodes a \<union> pt_nodes b"
    using some(1) pts.inv_union [OF c b] pts.bits_union [OF c b] plain_copy(2) [of a]
    by (auto simp: pt_ops_def pt_union_def)
  show "\<exists>r. do_diff (pt_ops sbv_config) a b = Some r \<and> pt_plain SBV r \<and> pt_nodes r = pt_nodes a - pt_nodes b"
    using some(3) pts.inv_diff [OF c b] pts.bits_diff [OF c b] plain_copy(2) [of a]
    by (auto simp: pt_ops_def pt_minus_def)
  show "\<exists>r. do_and (pt_ops sbv_config) a b = Some r \<and> pt_plain SBV r \<and> pt_nodes r = pt_nodes a \<inter> pt_nodes b"
    using some(2) pts.inv_inter [OF c b] pts.bits_inter [OF c b] plain_copy(2) [of a]
    by (auto simp: pt_ops_def pt_inter_def)
  assume eq: "pt_nodes a = pt_nodes b"
  obtain r where r: "pt_data b = Sbv r" "sbv_inv r"
    using b by (cases "pt_data b") (auto simp: pt_plain_def pt_inv_def)
  have "sbv_bits s = sbv_bits r" using eq s r plain_nodes [OF a] plain_nodes [OF b] by simp
  then have "s_elems s = s_elems r" using sbv_eq_iff [OF s(2) r(2)] by (simp add: sbv_eq_def sbvEq_loop_iff)
  then show "do_hash (pt_ops sbv_config) a = do_hash (pt_ops sbv_config) b"
    using s(1) r(1) by (simp add: pt_ops_def pt_hash_def sbv_hash_def sbv_find_first_def sbv_find_last_def sbv_count_def)
qed

subsection \<open>Properties\<close>

text \<open>The cache invariant for points-to sets backed by sparse bit vectors, and the result of an
  operation written out.\<close>

abbreviation sbv_cache_inv :: "points_to pptc \<Rightarrow> bool" where
  "sbv_cache_inv \<equiv> pptc_inv (pt_plain SBV) pt_nodes"

abbreviation nodes_of :: "points_to pptc \<Rightarrow> nat \<Rightarrow> nat set" where
  "nodes_of c i \<equiv> pt_nodes (c_idToPts c ! i)"

lemma result_ok_sbv:
  "sbv_pts.result_ok c X res \<Longrightarrow>
   (res = None \<longrightarrow> length (c_idToPts c) = 2 ^ 32)
   \<and> (\<forall>i c'. res = Some (i, c') \<longrightarrow> sbv_cache_inv c' \<and> extends c c' \<and> i < length (c_idToPts c') \<and> nodes_of c' i = X)"
  by (auto simp: sbv_pts.result_ok_def)

text \<open>C4: Interning, for a cache of sparse bit vectors (\<open>PointsTo::Type::SBV\<close>, the default) without a
  node mapping: a fresh or reset cache satisfies the invariant, \<open>emplacePts\<close> keeps it, never
  changes the meaning of an id handed out before, and returns an id of the given set; it fails
  only when all ids are used. Under the invariant two ids are equal exactly if they stand for
  the same set, so every set is stored once. The restriction is needed: core bit vectors with the
  same elements and different zero words are different keys of the code's map and get two ids.\<close>

theorem emplacePts_correct:
  assumes "sbv_cache_inv c" "pt_plain SBV p"
  shows "(\<exists>c0. pptc_new (pt_ops sbv_config) = Some c0 \<and> sbv_cache_inv c0 \<and> pptc_reset (pt_ops sbv_config) c = Some c0)
    \<and> (case emplacePts (pt_ops sbv_config) p c of
         None \<Rightarrow> length (c_idToPts c) = 2 ^ 32
       | Some (i, c') \<Rightarrow> sbv_cache_inv c' \<and> extends c c' \<and> i < length (c_idToPts c') \<and> nodes_of c' i = pt_nodes p
           \<and> (\<forall>j < length (c_idToPts c'). nodes_of c' j = pt_nodes p \<longleftrightarrow> j = i))"
proof
  show "\<exists>c0. pptc_new (pt_ops sbv_config) = Some c0 \<and> sbv_cache_inv c0 \<and> pptc_reset (pt_ops sbv_config) c = Some c0"
    using sbv_pts.pptc_new_ok sbv_pts.pptc_reset_eq_new by auto
  note r = result_ok_sbv [OF sbv_pts.emplacePts_ok [OF assms]]
  show "case emplacePts (pt_ops sbv_config) p c of
         None \<Rightarrow> length (c_idToPts c) = 2 ^ 32
       | Some (i, c') \<Rightarrow> sbv_cache_inv c' \<and> extends c c' \<and> i < length (c_idToPts c') \<and> nodes_of c' i = pt_nodes p
           \<and> (\<forall>j < length (c_idToPts c'). nodes_of c' j = pt_nodes p \<longleftrightarrow> j = i)"
  proof (cases "emplacePts (pt_ops sbv_config) p c")
    case None
    then show ?thesis using r by simp
  next
    case (Some q)
    then obtain i c' where q: "emplacePts (pt_ops sbv_config) p c = Some (i, c')" by (cases q) auto
    then have ok: "sbv_cache_inv c'" "extends c c'" "i < length (c_idToPts c')" "nodes_of c' i = pt_nodes p" using r by auto
    have "nodes_of c' j = pt_nodes p \<longleftrightarrow> j = i" if "j < length (c_idToPts c')" for j
      using core_canonical [of "pt_plain SBV" pt_nodes c' j i] ok that by (simp add: pptc_inv_def)
    then show ?thesis using q ok by simp
  qed
qed

lemma new_cache: "\<exists>c. pptc_new (pt_ops sbv_config) = Some c \<and> sbv_cache_inv c \<and> c_idToPts c = [pt_new sbv_config]"
  using sbv_pts.pptc_new_ok by (auto simp: pt_ops_def)

lemma plain7: "pt_plain SBV (the (pt_set (pt_new sbv_config) 7))" "pt_nodes (the (pt_set (pt_new sbv_config) 7)) = {7}"
  using pts.inv_insrt [OF pts.inv_emp, of 7 SBV] pts.bits_insrt [OF pts.inv_emp, of 7 SBV]
  by (simp_all add: pts.bits_emp) (simp_all add: sbv_config_def pt_plain_new_def)

theorem emplacePts_witness:
  "\<exists>c i c'. pptc_new (pt_ops sbv_config) = Some c
     \<and> emplacePts (pt_ops sbv_config) (the (pt_set (pt_new sbv_config) 7)) c = Some (i, c') \<and> nodes_of c' i = {7}"
proof -
  obtain c where c: "pptc_new (pt_ops sbv_config) = Some c" "sbv_cache_inv c" "c_idToPts c = [pt_new sbv_config]"
    using new_cache by blast
  show ?thesis
    using c emplacePts_correct [OF c(2) plain7(1)] plain7(2) by (fastforce split: option.splits)
qed

text \<open>C3: For a cache of sparse bit vectors without a node mapping, \<open>unionPts\<close>, \<open>complementPts\<close> and \<open>intersectPts\<close> return the id of the union, the relative
  complement and the intersection of the sets of their operands, whether it comes from a
  property case, from a cache (also through an entry made preemptively by another operation) or
  is computed; they keep the invariant (hence all caches right and the counters adding up) and
  the meaning of all ids, and fail only when the ids are exhausted.\<close>

theorem op_pts_correct:
  assumes "sbv_cache_inv c" "l < length (c_idToPts c)" "r < length (c_idToPts c)"
    and "(res, X) \<in> {(unionPts (pt_ops sbv_config) l r c, nodes_of c l \<union> nodes_of c r),
      (complementPts (pt_ops sbv_config) l r c, nodes_of c l - nodes_of c r),
      (intersectPts (pt_ops sbv_config) l r c, nodes_of c l \<inter> nodes_of c r)}"
  shows "(res = None \<longrightarrow> length (c_idToPts c) = 2 ^ 32)
    \<and> (\<forall>i c'. res = Some (i, c') \<longrightarrow> sbv_cache_inv c' \<and> extends c c' \<and> i < length (c_idToPts c') \<and> nodes_of c' i = X)"
proof -
  have "sbv_pts.result_ok c X res"
    using assms(4) sbv_pts.unionPts_ok [OF assms(1-3)] sbv_pts.complementPts_ok [OF assms(1-3)]
      sbv_pts.intersectPts_ok [OF assms(1-3)] by auto
  then show ?thesis by (rule result_ok_sbv)
qed

theorem op_pts_witness:
  "\<exists>c i c' j c''. pptc_new (pt_ops sbv_config) = Some c
     \<and> emplacePts (pt_ops sbv_config) (the (pt_set (pt_new sbv_config) 7)) c = Some (i, c')
     \<and> unionPts (pt_ops sbv_config) 0 i c' = Some (j, c'') \<and> nodes_of c'' j = {7}"
proof -
  obtain c where c: "pptc_new (pt_ops sbv_config) = Some c" "sbv_cache_inv c" "c_idToPts c = [pt_new sbv_config]"
    using new_cache by blast
  note r = result_ok_sbv [OF sbv_pts.emplacePts_ok [OF c(2) plain7(1)]]
  then obtain i c' where e: "emplacePts (pt_ops sbv_config) (the (pt_set (pt_new sbv_config) 7)) c = Some (i, c')"
    using c(3) by (cases "emplacePts (pt_ops sbv_config) (the (pt_set (pt_new sbv_config) 7)) c") auto
  then have e': "sbv_cache_inv c'" "i < length (c_idToPts c')" "nodes_of c' i = {7}" "0 < length (c_idToPts c')"
    using r plain7(2) by auto
  have 0: "nodes_of c' 0 = {}" using e'(1) by (simp add: pptc_inv_def core_inv_def)
  have u: "unionPts (pt_ops sbv_config) 0 i c' \<noteq> None"
    by (simp add: unionPts_def minmax_def emptyPointsToId_def Let_def)
  then obtain j c'' where j: "unionPts (pt_ops sbv_config) 0 i c' = Some (j, c'')" by auto
  then have "nodes_of c'' j = {7}"
    using op_pts_correct [OF e'(1) e'(4) e'(2), of "unionPts (pt_ops sbv_config) 0 i c'" "nodes_of c' 0 \<union> nodes_of c' i"] 0 e'(3)
    by auto
  then show ?thesis using c(1) e j by blast
qed

text \<open>\<open>remapAllPts\<close> keeps the set of every id and rebuilds the reverse map so that the invariant
  holds again.\<close>

theorem remapAllPts_correct:
  assumes "sbv_cache_inv c"
  shows "\<exists>c'. remapAllPts (pt_ops sbv_config) c = Some c' \<and> sbv_cache_inv c'
    \<and> map pt_nodes (c_idToPts c') = map pt_nodes (c_idToPts c)"
  using sbv_pts.remapAllPts_ok [OF assms] .

theorem remapAllPts_witness:
  "\<exists>c c'. pptc_new (pt_ops sbv_config) = Some c \<and> remapAllPts (pt_ops sbv_config) c = Some c'
    \<and> map pt_nodes (c_idToPts c') = map pt_nodes (c_idToPts c)"
proof -
  obtain c where c: "pptc_new (pt_ops sbv_config) = Some c" "sbv_cache_inv c" using new_cache by blast
  then show ?thesis using remapAllPts_correct [OF c(2)] by blast
qed

definition cbv_config :: pt_config where
  "cbv_config = \<lparr>o_ptType = CBV, o_bestNodeMapping = None, o_bestReverseNodeMapping = None\<rparr>"

definition cbv_emptied :: points_to where
  "cbv_emptied = (pt_new cbv_config)\<lparr>pt_data := Cbv (cbv_reset (cbv_set (cbv_new 0) 0) 0)\<rparr>"

text \<open>With core bit vectors as the backing the cache interns one set twice: the empty set left
  by setting and removing node 0 gets id 1, although it compares equal to the set of id 0, because
  the hash of a core bit vector depends on its words and not on the set.\<close>

theorem cbv_cache_duplicates:
  "Option.bind (pt_set (pt_new cbv_config) 0) (\<lambda>p. pt_reset p 0) = Some cbv_emptied
   \<and> pt_eq False cbv_emptied (pt_new cbv_config) = Some True
   \<and> map_option fst (Option.bind (pptc_new (pt_ops cbv_config)) (emplacePts (pt_ops cbv_config) cbv_emptied)) = Some 1"
proof (intro conjI)
  show "Option.bind (pt_set (pt_new cbv_config) 0) (\<lambda>p. pt_reset p 0) = Some cbv_emptied"
    by (simp add: cbv_emptied_def cbv_config_def pt_new_def pt_set_def pt_reset_def getInternalNode_def mapped_def)
  show "pt_eq False cbv_emptied (pt_new cbv_config) = Some True"
    by (simp add: cbv_emptied_def cbv_config_def pt_new_def pt_eq_def metaSame_def ptr_eq_def cbv_eq_iff cbv_new_inv cbv_new_bits
        cbv_set_inv cbv_set_bits cbv_reset_inv cbv_reset_bits)
  have h: "cbv_hash (cbv_new 0) \<noteq> cbv_hash (cbv_reset (cbv_set (cbv_new 0) 0) 0)" by code_simp
  show "map_option fst (Option.bind (pptc_new (pt_ops cbv_config)) (emplacePts (pt_ops cbv_config) cbv_emptied)) = Some 1"
    using h by (simp add: pptc_new_def pts_assign_def pt_ops_def pt_hash_def cbv_emptied_def cbv_config_def pt_new_def
        emplacePts_def pts_find_def initStats_def newPointsToId_def emptyPointsToId_def)
qed

end
