(* ===== verification/PtsTables.thy ===== *)
theory PtsTables
  imports PersistentCache "HOL-Library.AList"
begin

text \<open>
  What the points-to tables of \<open>svf/include/MemoryModel\<close> share: maps with \<open>operator[]\<close>, the
  operations the tables use of a points-to set, and the contract of a table.

  A \<open>Map\<close> (\<open>std::unordered_map\<close>) is the list of its entries in the order of iteration; \<open>m[k]\<close>
  inserts a default value when \<open>k\<close> is absent (\<open>at_touch\<close>), which \<open>find\<close> and iteration can see.
  References into the map stay valid when it grows, so reading and writing through \<open>m[k]\<close> is
  \<open>at_get\<close> and \<open>at_put\<close>.

  The locale \<open>refines\<close> relates runs of an implementation and of a specification; \<open>pts_table\<close> and
  \<open>diff_table\<close> state what a table from keys to points-to sets promises, in terms of the function from
  keys to sets it stands for. The theories of the mutable and the persistent tables interpret them.
\<close>

section \<open>Maps with default values\<close>

definition at_get :: "'v \<Rightarrow> ('k \<times> 'v) list \<Rightarrow> 'k \<Rightarrow> 'v" where
  "at_get dflt m k = (case map_of m k of None \<Rightarrow> dflt | Some v \<Rightarrow> v)"

definition at_put :: "'k \<Rightarrow> 'v \<Rightarrow> ('k \<times> 'v) list \<Rightarrow> ('k \<times> 'v) list" where
  "at_put k v m = AList.update k v m"

definition at_touch :: "'v \<Rightarrow> 'k \<Rightarrow> ('k \<times> 'v) list \<Rightarrow> ('k \<times> 'v) list" where
  "at_touch dflt k m = (case map_of m k of None \<Rightarrow> m @ [(k, dflt)] | Some v \<Rightarrow> m)"

lemma at_get_Nil [simp]: "at_get dflt [] k = dflt"
  by (simp add: at_get_def)

lemma at_get_put [simp]: "at_get dflt (at_put k v m) x = (if x = k then v else at_get dflt m x)"
  by (simp add: at_get_def at_put_def update_conv')

lemma at_get_touch [simp]: "at_get dflt (at_touch dflt k m) x = at_get dflt m x"
  by (auto simp: at_get_def at_touch_def map_add_def split: option.split)

lemma keys_put [simp]: "fst ` set (at_put k v m) = insert k (fst ` set m)"
  by (simp add: at_put_def dom_map_of_conv_image_fst [symmetric] update_conv')

lemma keys_touch [simp]: "fst ` set (at_touch dflt k m) = insert k (fst ` set m)"
proof (cases "map_of m k")
  case None
  then show ?thesis by (auto simp: at_touch_def)
next
  case (Some v)
  then have "k \<in> fst ` set m" by (metis map_of_eq_None_iff option.distinct(1))
  then show ?thesis using Some by (auto simp: at_touch_def)
qed

lemma distinct_put [simp]: "distinct (map fst m) \<Longrightarrow> distinct (map fst (at_put k v m))"
  by (simp add: at_put_def distinct_update)

lemma distinct_touch [simp]: "distinct (map fst m) \<Longrightarrow> distinct (map fst (at_touch dflt k m))"
  by (auto simp: at_touch_def map_of_eq_None_iff split: option.split)

text \<open>The value of a map at the key of an entry.\<close>

lemma at_get_entry: "distinct (map fst m) \<Longrightarrow> (k, v) \<in> set m \<Longrightarrow> at_get dflt m k = v"
  by (simp add: at_get_def)

section \<open>The operations of points-to sets that the tables use\<close>

record 'd set_ops =
  so_data :: "'d data_ops"
  so_set :: "'d \<Rightarrow> nat \<Rightarrow> 'd option"
  so_test_and_set :: "'d \<Rightarrow> nat \<Rightarrow> ('d \<times> bool) option"
  so_reset :: "'d \<Rightarrow> nat \<Rightarrow> 'd option"
  so_test :: "'d \<Rightarrow> nat \<Rightarrow> (bool \<times> 'd) option"
  so_clear :: "'d \<Rightarrow> 'd"
  so_empty :: "'d \<Rightarrow> bool"
  so_elems :: "'d \<Rightarrow> nat list option"
  so_or :: "bool \<Rightarrow> 'd \<Rightarrow> 'd \<Rightarrow> ('d \<times> bool) option"
  so_and :: "bool \<Rightarrow> 'd \<Rightarrow> 'd \<Rightarrow> ('d \<times> bool) option"
  so_diff3 :: "'d \<Rightarrow> 'd \<Rightarrow> 'd \<Rightarrow> 'd option"
  so_assign :: "'d \<Rightarrow> 'd \<Rightarrow> 'd"

abbreviation so_new :: "'d set_ops \<Rightarrow> 'd" where
  "so_new so \<equiv> do_new (so_data so)"

definition pt_set_ops :: "pt_config \<Rightarrow> points_to set_ops" where
  "pt_set_ops g = \<lparr>so_data = pt_ops g, so_set = pt_set, so_test_and_set = pt_test_and_set, so_reset = pt_reset,
     so_test = pt_test, so_clear = pt_clear, so_empty = pt_empty, so_elems = pt_elems, so_or = pt_or,
     so_and = pt_and, so_diff3 = pt_intersectWithComplement3, so_assign = pt_assign False\<rparr>"

text \<open>Node ids are 32 bits wide.\<close>

definition node_ok :: "nat \<Rightarrow> bool" where
  "node_ok n = (n < 2 ^ 32)"

locale pts_sets = pts_data "so_data so" dinv dset
  for so :: "'d set_ops" and dinv :: "'d \<Rightarrow> bool" and dset :: "'d \<Rightarrow> nat set" +
  assumes set_ok: "dinv a \<Longrightarrow> node_ok n \<Longrightarrow> \<exists>r. so_set so a n = Some r \<and> dinv r \<and> dset r = insert n (dset a)"
    and tas_ok: "dinv a \<Longrightarrow> node_ok n \<Longrightarrow>
      \<exists>r. so_test_and_set so a n = Some (r, n \<notin> dset a) \<and> dinv r \<and> dset r = insert n (dset a)"
    and reset_ok: "dinv a \<Longrightarrow> node_ok n \<Longrightarrow> \<exists>r. so_reset so a n = Some r \<and> dinv r \<and> dset r = dset a - {n}"
    and test_ok: "dinv a \<Longrightarrow> node_ok n \<Longrightarrow> \<exists>r. so_test so a n = Some (n \<in> dset a, r) \<and> dinv r \<and> dset r = dset a"
    and clear_ok: "dinv a \<Longrightarrow> dinv (so_clear so a)" "dinv a \<Longrightarrow> dset (so_clear so a) = {}"
    and empty_iff: "dinv a \<Longrightarrow> so_empty so a \<longleftrightarrow> dset a = {}"
    and elems_ok: "dinv a \<Longrightarrow> \<exists>ns. so_elems so a = Some ns \<and> set ns = dset a"
    and elem_node: "dinv a \<Longrightarrow> n \<in> dset a \<Longrightarrow> node_ok n"
    and orr_ok: "dinv a \<Longrightarrow> dinv b \<Longrightarrow> (same \<Longrightarrow> a = b) \<Longrightarrow>
      \<exists>r. so_or so same a b = Some (r, \<not> dset b \<subseteq> dset a) \<and> dinv r \<and> dset r = dset a \<union> dset b"
    and andr_ok: "dinv a \<Longrightarrow> dinv b \<Longrightarrow> (same \<Longrightarrow> a = b) \<Longrightarrow>
      \<exists>r f. so_and so same a b = Some (r, f) \<and> dinv r \<and> dset r = dset a \<inter> dset b"
    and diff3_ok: "dinv a \<Longrightarrow> dinv b \<Longrightarrow> dinv c \<Longrightarrow>
      \<exists>r. so_diff3 so a b c = Some r \<and> dinv r \<and> dset r = dset b - dset c"
    and assign_ok: "dinv a \<Longrightarrow> dinv b \<Longrightarrow> dinv (so_assign so a b)" "dinv a \<Longrightarrow> dinv b \<Longrightarrow> dset (so_assign so a b) = dset b"

text \<open>Sparse bit vectors without node mappings satisfy it.\<close>

interpretation sbv_sets: pts_sets "pt_set_ops sbv_config" "pt_plain SBV" pt_nodes
proof (rule pts_sets.intro)
  show "pts_data (so_data (pt_set_ops sbv_config)) (pt_plain SBV) pt_nodes"
    using sbv_pts.pts_data_axioms by (simp add: pt_set_ops_def)
  show "pts_sets_axioms (pt_set_ops sbv_config) (pt_plain SBV) pt_nodes"
  proof
    fix a assume a: "pt_plain SBV a"
    then have inv: "pt_inv a" by (simp add: pt_plain_def)
    note plain = plain_of_same [OF a]
    show "pt_plain SBV (so_clear (pt_set_ops sbv_config) a)" "pt_nodes (so_clear (pt_set_ops sbv_config) a) = {}"
      using pt_clear_ok [OF inv] plain by (auto simp: pt_set_ops_def)
    show "so_empty (pt_set_ops sbv_config) a \<longleftrightarrow> pt_nodes a = {}"
      using pt_empty_iff [OF inv] by (simp add: pt_set_ops_def)
    show "\<exists>ns. so_elems (pt_set_ops sbv_config) a = Some ns \<and> set ns = pt_nodes a"
      using pt_elems_ok [OF inv] by (auto simp: pt_set_ops_def)
    fix n
    show "n \<in> pt_nodes a \<Longrightarrow> node_ok n"
      using pts.bits_bound [OF a] by (simp add: node_ok_def)
    assume "node_ok n"
    then have n: "n < 2 ^ 32" by (simp add: node_ok_def)
    note i = plain_internal [OF a, of n]
    show "\<exists>r. so_set (pt_set_ops sbv_config) a n = Some r \<and> pt_plain SBV r \<and> pt_nodes r = insert n (pt_nodes a)"
      using pt_set_ok [OF inv n i] plain by (auto simp: pt_set_ops_def)
    show "\<exists>r. so_test_and_set (pt_set_ops sbv_config) a n = Some (r, n \<notin> pt_nodes a) \<and> pt_plain SBV r
        \<and> pt_nodes r = insert n (pt_nodes a)"
      using pt_test_and_set_ok [OF inv n i] plain by (auto simp: pt_set_ops_def)
    show "\<exists>r. so_reset (pt_set_ops sbv_config) a n = Some r \<and> pt_plain SBV r \<and> pt_nodes r = pt_nodes a - {n}"
      using pt_reset_ok [OF inv n i] plain by (auto simp: pt_set_ops_def)
    show "\<exists>r. so_test (pt_set_ops sbv_config) a n = Some (n \<in> pt_nodes a, r) \<and> pt_plain SBV r \<and> pt_nodes r = pt_nodes a"
      using pt_test_ok [OF inv i] plain by (auto simp: pt_set_ops_def)
  next
    fix a b same assume ab: "pt_plain SBV a" "pt_plain SBV b" "same \<Longrightarrow> a = b"
    then have inv: "pt_inv a" "pt_inv b" and t: "b_type (pt_data a) = SBV" by (simp_all add: pt_plain_def)
    note same = plain_same [OF ab(1,2)]
    show "\<exists>r. so_or (pt_set_ops sbv_config) same a b = Some (r, \<not> pt_nodes b \<subseteq> pt_nodes a) \<and> pt_plain SBV r
        \<and> pt_nodes r = pt_nodes a \<union> pt_nodes b"
      using pt_or_ok [OF inv same, of same] ab(3) t plain_of_same [OF ab(1)] by (auto simp: pt_set_ops_def)
    show "\<exists>r f. so_and (pt_set_ops sbv_config) same a b = Some (r, f) \<and> pt_plain SBV r \<and> pt_nodes r = pt_nodes a \<inter> pt_nodes b"
      using pt_and_ok [OF inv same, of same] ab(3) plain_of_same [OF ab(1)] by (auto simp: pt_set_ops_def)
  next
    fix a b c assume abc: "pt_plain SBV a" "pt_plain SBV b" "pt_plain SBV c"
    then have inv: "pt_inv a" "pt_inv b" "pt_inv c" by (simp_all add: pt_plain_def)
    show "\<exists>r. so_diff3 (pt_set_ops sbv_config) a b c = Some r \<and> pt_plain SBV r \<and> pt_nodes r = pt_nodes b - pt_nodes c"
      using pt_diff3_ok [OF inv plain_same [OF abc(1,3)] plain_same [OF abc(1,2)]] plain_of_same [OF abc(1)]
      by (auto simp: pt_set_ops_def)
  next
    fix a b assume ab: "pt_plain SBV a" "pt_plain SBV b"
    then show "pt_plain SBV (so_assign (pt_set_ops sbv_config) a b)"
        "pt_nodes (so_assign (pt_set_ops sbv_config) a b) = pt_nodes b"
      using plain_copy(1) [OF ab(2)] plain_copy(2) [of b]
      by (auto simp: pt_set_ops_def pt_assign_def pt_copy_def pt_plain_def pt_nodes_def getInternalNode_def
          pt_inv_def getExternalNode_def)
  qed
qed

section \<open>The contract of a table\<close>

text \<open>The operations of \<open>PTData\<close> (\<open>svf/include/MemoryModel/AbstractPointsToDS.h\<close>) that change a
  points-to set, and what each does to the function from keys to sets. The result is the flag that
  the destination changed, where the operation returns one.\<close>

datatype ('k, 'd) pts_cmd = AddPts 'k nat | UnionPts 'k 'k | UnionPtsSet 'k 'd | ClearPts 'k nat | ClearFullPts 'k

fun spec_step :: "('d \<Rightarrow> nat set) \<Rightarrow> ('k, 'd) pts_cmd \<Rightarrow> ('k \<Rightarrow> nat set) \<Rightarrow> bool \<times> ('k \<Rightarrow> nat set)" where
  "spec_step D (AddPts k n) P = (n \<notin> P k, P(k := insert n (P k)))"
| "spec_step D (UnionPts k l) P = (\<not> P l \<subseteq> P k, P(k := P k \<union> P l))"
| "spec_step D (UnionPtsSet k d) P = (\<not> D d \<subseteq> P k, P(k := P k \<union> D d))"
| "spec_step D (ClearPts k n) P = (False, P(k := P k - {n}))"
| "spec_step D (ClearFullPts k) P = (False, P(k := {}))"

primrec spec_run :: "('c \<Rightarrow> 'a \<Rightarrow> bool \<times> 'a) \<Rightarrow> 'c list \<Rightarrow> 'a \<Rightarrow> bool list \<times> 'a" where
  "spec_run f [] P = ([], P)"
| "spec_run f (c # cs) P = (let q = f c P; r = spec_run f cs (snd q) in (fst q # fst r, snd r))"

primrec run_cmds :: "('c \<Rightarrow> 's \<Rightarrow> (bool \<times> 's) option) \<Rightarrow> 'c list \<Rightarrow> 's \<Rightarrow> (bool list \<times> 's) option" where
  "run_cmds f [] s = Some ([], s)"
| "run_cmds f (c # cs) s = Option.bind (f c s) (\<lambda>q.
     map_option (\<lambda>r. (fst q # fst r, snd r)) (run_cmds f cs (snd q)))"

fun cmd_ok :: "('d \<Rightarrow> bool) \<Rightarrow> ('k, 'd) pts_cmd \<Rightarrow> bool" where
  "cmd_ok dinv (AddPts k n) = node_ok n"
| "cmd_ok dinv (ClearPts k n) = node_ok n"
| "cmd_ok dinv (UnionPtsSet k d) = dinv d"
| "cmd_ok dinv _ = True"

text \<open>A step function on concrete states implements one on abstract states. \<open>full c s\<close> says that the
  implementation has too few resources in \<open>s\<close> for the command \<open>c\<close>; only then may it fail.\<close>

locale refines =
  fixes step :: "'c \<Rightarrow> 's \<Rightarrow> (bool \<times> 's) option"
    and spec :: "'c \<Rightarrow> 'a \<Rightarrow> bool \<times> 'a"
    and ok :: "'c \<Rightarrow> bool"
    and inv :: "'s \<Rightarrow> bool"
    and full :: "'c \<Rightarrow> 's \<Rightarrow> bool"
    and abs :: "'s \<Rightarrow> 'a"
  assumes step_None: "inv s \<Longrightarrow> ok c \<Longrightarrow> step c s = None \<Longrightarrow> full c s"
    and step_Some: "inv s \<Longrightarrow> ok c \<Longrightarrow> step c s = Some (b, s') \<Longrightarrow> inv s' \<and> (b, abs s') = spec c (abs s)"
begin

text \<open>A run of the implementation agrees with the run of the specification, step by step.\<close>

lemma run_Some:
  "inv s \<Longrightarrow> \<forall>c\<in>set cs. ok c \<Longrightarrow> run_cmds step cs s = Some (bs, s') \<Longrightarrow>
    inv s' \<and> (bs, abs s') = spec_run spec cs (abs s)"
proof (induction cs arbitrary: s bs)
  case (Cons c cs)
  obtain b t where t: "step c s = Some (b, t)" using Cons.prems(3) by (auto simp: bind_eq_Some_conv)
  then obtain bs1 where r: "run_cmds step cs t = Some (bs1, s')" "bs = b # bs1" using Cons.prems(3) by auto
  have q: "inv t" "(b, abs t) = spec c (abs s)" using step_Some [OF Cons.prems(1) _ t] Cons.prems(2) by auto
  have "inv s' \<and> (bs1, abs s') = spec_run spec cs (abs t)" using Cons.IH [OF q(1) _ r(1)] Cons.prems(2) by simp
  then show ?case using q r(2) by (auto simp: Let_def prod_eq_iff)
qed simp

lemma run_None:
  "inv s \<Longrightarrow> \<forall>c\<in>set cs. ok c \<Longrightarrow> run_cmds step cs s = None \<Longrightarrow>
    \<exists>n bs t. n < length cs \<and> run_cmds step (take n cs) s = Some (bs, t) \<and> full (cs ! n) t"
proof (induction cs arbitrary: s)
  case (Cons c cs)
  show ?case
  proof (cases "step c s")
    case None
    moreover have "ok c" using Cons.prems(2) by simp
    ultimately have "full c s" using step_None [OF Cons.prems(1)] by blast
    then show ?thesis by (intro exI [of _ 0]) simp
  next
    case (Some q)
    then obtain b t where t: "step c s = Some (b, t)" by (cases q) auto
    then have "inv t" using step_Some [OF Cons.prems(1) _ t] Cons.prems(2) by auto
    then obtain n bs u where "n < length cs" "run_cmds step (take n cs) t = Some (bs, u)" "full (cs ! n) u"
      using Cons.IH [of t] Cons.prems t by auto
    then have "Suc n < length (c # cs) \<and> run_cmds step (take (Suc n) (c # cs)) s = Some (b # bs, u)
        \<and> full ((c # cs) ! Suc n) u"
      using t by simp
    then show ?thesis by blast
  qed
qed simp

text \<open>With enough resources the run returns, and its result is that of the specification.\<close>

lemma run_total:
  assumes "\<And>c s. \<not> full c s" "inv s" "\<forall>c\<in>set cs. ok c"
  obtains s' where "run_cmds step cs s = Some (fst (spec_run spec cs (abs s)), s')" "inv s'"
    "abs s' = snd (spec_run spec cs (abs s))"
proof (cases "run_cmds step cs s")
  case None
  then show ?thesis using run_None [OF assms(2,3)] assms(1) by blast
next
  case (Some q)
  then obtain bs s' where q: "run_cmds step cs s = Some (bs, s')" by (cases q) simp
  have "inv s'" "(bs, abs s') = spec_run spec cs (abs s)" using run_Some [OF assms(2,3) q] by blast+
  then show ?thesis using that q by (metis fst_conv snd_conv)
qed

end

text \<open>Two implementations of one specification give the same answers.\<close>

locale two_refine = a: refines stepa spec ok inva fulla absa + b: refines stepb spec ok invb fullb absb
  for stepa :: "'c \<Rightarrow> 's \<Rightarrow> (bool \<times> 's) option" and spec :: "'c \<Rightarrow> 'a \<Rightarrow> bool \<times> 'a" and ok inva fulla absa
    and stepb :: "'c \<Rightarrow> 't \<Rightarrow> (bool \<times> 't) option" and invb fullb absb
begin

lemma runs_agree:
  assumes "inva s" "invb t" "absa s = absb t" "\<forall>c\<in>set cs. ok c"
    and "run_cmds stepa cs s = Some (bs, s')" "run_cmds stepb cs t = Some (bs', t')"
  shows "bs = bs' \<and> absa s' = absb t' \<and> inva s' \<and> invb t'"
proof -
  have "inva s' \<and> (bs, absa s') = spec_run spec cs (absa s)" "invb t' \<and> (bs', absb t') = spec_run spec cs (absb t)"
    using a.run_Some [OF assms(1,4,5)] b.run_Some [OF assms(2,4,6)] by blast+
  then show ?thesis using assms(3) by (metis prod.inject)
qed

end

text \<open>A table of points-to sets: with reverse sets (\<open>keeps_rev\<close>) a key is in the reverse set of a
  node exactly if the node is in its points-to set.\<close>

locale pts_table = refines step "spec_step dset" "cmd_ok dinv" inv full pts
  for step :: "('k, 'd) pts_cmd \<Rightarrow> 's \<Rightarrow> (bool \<times> 's) option" and dset :: "'d \<Rightarrow> nat set" and dinv :: "'d \<Rightarrow> bool"
    and inv full and pts :: "'s \<Rightarrow> 'k \<Rightarrow> nat set" +
  fixes keeps_rev :: "'s \<Rightarrow> bool"
    and rev_pts :: "'s \<Rightarrow> nat \<Rightarrow> 'k set"
  assumes step_rev: "inv s \<Longrightarrow> cmd_ok dinv c \<Longrightarrow> step c s = Some (b, s') \<Longrightarrow> keeps_rev s' = keeps_rev s"
    and rev_iff: "inv s \<Longrightarrow> keeps_rev s \<Longrightarrow> k \<in> rev_pts s n \<longleftrightarrow> n \<in> pts s k"
begin

lemma run_rev:
  "inv s \<Longrightarrow> \<forall>c\<in>set cs. cmd_ok dinv c \<Longrightarrow> run_cmds step cs s = Some (bs, s') \<Longrightarrow> keeps_rev s' = keeps_rev s"
proof (induction cs arbitrary: s bs)
  case (Cons c cs)
  obtain b t bs1 where t: "step c s = Some (b, t)" "run_cmds step cs t = Some (bs1, s')"
    using Cons.prems(3) by (auto simp: bind_eq_Some_conv)
  have "cmd_ok dinv c" using Cons.prems(2) by simp
  then have "inv t" "keeps_rev t = keeps_rev s"
    using step_Some [OF Cons.prems(1) _ t(1)] step_rev [OF Cons.prems(1) _ t(1)] by blast+
  then show ?case using Cons.IH [OF _ _ t(2)] Cons.prems(2) by simp
qed simp

end

section \<open>The contract of difference propagation\<close>

text \<open>A sequence of calls of \<open>computeDiffPts\<close> for one key, with the differences it delivers.\<close>

primrec deliver :: "('k \<Rightarrow> 'd \<Rightarrow> 's \<Rightarrow> (bool \<times> 's) option) \<Rightarrow> ('s \<Rightarrow> 'k \<Rightarrow> nat set) \<Rightarrow> 'k \<Rightarrow> 'd list \<Rightarrow> 's \<Rightarrow>
    (nat set list \<times> 's) option" where
  "deliver compute diff k [] s = Some ([], s)"
| "deliver compute diff k (d # ds) s = Option.bind (compute k d s) (\<lambda>q.
     map_option (\<lambda>r. (diff (snd q) k # fst r, snd r)) (deliver compute diff k ds (snd q)))"

fun deltas :: "'a set \<Rightarrow> 'a set list \<Rightarrow> 'a set list" where
  "deltas P [] = []"
| "deltas P (X # Xs) = (X - P) # deltas X Xs"

text \<open>The differences of a growing sequence of sets do not overlap, and together are what the last
  set adds.\<close>

lemma deltas_Union:
  "sorted_wrt (\<subseteq>) (P # Xs) \<Longrightarrow> \<Union> (set (deltas P Xs)) = last (P # Xs) - P"
proof (induction Xs arbitrary: P)
  case (Cons X Xs)
  then have "\<Union> (set (deltas X Xs)) = last (X # Xs) - X" "P \<subseteq> X" by simp_all
  moreover have "X \<subseteq> last (X # Xs)" using Cons.prems by (cases "Xs = []") simp_all
  ultimately show ?case by auto
qed simp

lemma deltas_nth: "i < length Xs \<Longrightarrow> deltas P Xs ! i = Xs ! i - (P # Xs) ! i"
  by (induction P Xs arbitrary: i rule: deltas.induct) (auto simp: nth_Cons split: nat.split)

lemma deltas_length [simp]: "length (deltas P Xs) = length Xs"
  by (induction P Xs rule: deltas.induct) simp_all

lemma deltas_disjoint:
  assumes "sorted_wrt (\<subseteq>) (P # Xs)" "i < j" "j < length Xs"
  shows "deltas P Xs ! i \<inter> deltas P Xs ! j = {}"
proof -
  have "(P # Xs) ! Suc i \<subseteq> (P # Xs) ! j"
    using sorted_wrt_nth_less [OF assms(1), of "Suc i" j] assms(2,3) by (cases "Suc i = j") simp_all
  then show ?thesis using assms(2,3) by (auto simp: deltas_nth)
qed

text \<open>\<open>computeDiffPts\<close> of \<open>DiffPTData\<close>: the difference to what was propagated before, which then is
  everything. \<open>updatePropaPtsMap\<close> keeps for the destination what both have propagated.\<close>

locale diff_table =
  fixes compute :: "'k \<Rightarrow> 'd \<Rightarrow> 's \<Rightarrow> (bool \<times> 's) option"
    and upd :: "'k \<Rightarrow> 'k \<Rightarrow> 's \<Rightarrow> 's option"
    and clearp :: "'k \<Rightarrow> 's \<Rightarrow> 's"
    and dset :: "'d \<Rightarrow> nat set"
    and dinv :: "'d \<Rightarrow> bool"
    and inv :: "'s \<Rightarrow> bool"
    and full :: "'s \<Rightarrow> bool"
    and diff :: "'s \<Rightarrow> 'k \<Rightarrow> nat set"
    and propa :: "'s \<Rightarrow> 'k \<Rightarrow> nat set"
  assumes compute_None: "inv s \<Longrightarrow> dinv d \<Longrightarrow> compute k d s = None \<Longrightarrow> full s"
    and compute_Some: "inv s \<Longrightarrow> dinv d \<Longrightarrow> compute k d s = Some (b, s') \<Longrightarrow>
      inv s' \<and> b = (\<not> dset d \<subseteq> propa s k) \<and> diff s' = (diff s)(k := dset d - propa s k)
        \<and> propa s' = (propa s)(k := dset d)"
    and upd_None: "inv s \<Longrightarrow> upd l k s = None \<Longrightarrow> full s"
    and upd_Some: "inv s \<Longrightarrow> upd l k s = Some s' \<Longrightarrow>
      inv s' \<and> diff s' = diff s \<and> propa s' = (propa s)(k := propa s k \<inter> propa s l)"
    and clearp_ok: "inv s \<Longrightarrow> inv (clearp k s) \<and> diff (clearp k s) = diff s \<and> propa (clearp k s) = (propa s)(k := {})"
begin

text \<open>What is delivered for \<open>k\<close> by a sequence of calls of \<open>computeDiffPts\<close>.\<close>

lemma deliver_Some:
  "inv s \<Longrightarrow> \<forall>d\<in>set ds. dinv d \<Longrightarrow> deliver compute diff k ds s = Some (xs, s') \<Longrightarrow>
    inv s' \<and> xs = deltas (propa s k) (map dset ds) \<and> propa s' k = last (propa s k # map dset ds)"
proof (induction ds arbitrary: s xs)
  case (Cons d ds)
  obtain b t where t: "compute k d s = Some (b, t)" using Cons.prems(3) by (auto simp: bind_eq_Some_conv)
  then obtain ys where r: "deliver compute diff k ds t = Some (ys, s')" "xs = diff t k # ys" using Cons.prems(3) by auto
  have c: "inv t" "diff t k = dset d - propa s k" "propa t k = dset d"
    using compute_Some [OF Cons.prems(1) _ t] Cons.prems(2) by simp_all
  then show ?case using Cons.IH [OF c(1) _ r(1)] Cons.prems(2) r(2) by simp
qed simp

lemma deliver_None:
  "inv s \<Longrightarrow> \<forall>d\<in>set ds. dinv d \<Longrightarrow> deliver compute diff k ds s = None \<Longrightarrow>
    \<exists>n xs t. n < length ds \<and> deliver compute diff k (take n ds) s = Some (xs, t) \<and> full t"
proof (induction ds arbitrary: s)
  case (Cons d ds)
  show ?case
  proof (cases "compute k d s")
    case None
    moreover have "dinv d" using Cons.prems(2) by simp
    ultimately have "full s" using compute_None [OF Cons.prems(1)] by blast
    then show ?thesis by (intro exI [of _ 0]) simp
  next
    case (Some q)
    then obtain b t where t: "compute k d s = Some (b, t)" by (cases q) auto
    then have "inv t" using compute_Some [OF Cons.prems(1) _ t] Cons.prems(2) by auto
    then obtain n xs u where "n < length ds" "deliver compute diff k (take n ds) t = Some (xs, u)" "full u"
      using Cons.IH [of t] Cons.prems t by auto
    then have "Suc n < length (d # ds) \<and> deliver compute diff k (take (Suc n) (d # ds)) s = Some (diff t k # xs, u) \<and> full u"
      using t by simp
    then show ?thesis by blast
  qed
qed simp

end

end
