(* ===== verification/MutablePts.thy ===== *)
theory MutablePts
  imports PtsTables
begin

text \<open>
  \<open>MutablePTData\<close> and \<open>MutableDiffPTData\<close> of \<open>svf/include/MemoryModel/MutablePointsToDS.h\<close>: a map from keys to points-to sets that are updated
  in place, and optionally the reverse map from nodes to the keys that point to them.

  The points-to sets are those of a record \<open>set_ops\<close>. A set passed by reference to \<open>unionPts\<close> or
  \<open>computeDiffPts\<close> is taken to be another object than the sets of the table it changes. \<open>None\<close> is a
  failed assertion, of the table or of a points-to set.
\<close>

section \<open>The table\<close>

record ('k, 'd) mut_pts =
  mp_rev :: bool
  mp_pts :: "('k \<times> 'd) list"
  mp_revPts :: "(nat \<times> 'k set) list"

definition mp_make :: "bool \<Rightarrow> ('k, 'd) mut_pts" where
  "mp_make reversePT = \<lparr>mp_rev = reversePT, mp_pts = [], mp_revPts = []\<rparr>"

definition mp_clear :: "('k, 'd) mut_pts \<Rightarrow> ('k, 'd) mut_pts" where
  "mp_clear s = s\<lparr>mp_pts := [], mp_revPts := []\<rparr>"

text \<open>\<open>ptsMap[k]\<close> and \<open>revPtsMap[n]\<close>\<close>

definition mp_at :: "'d set_ops \<Rightarrow> ('k, 'd) mut_pts \<Rightarrow> 'k \<Rightarrow> 'd" where
  "mp_at so s k = at_get (so_new so) (mp_pts s) k"

definition mp_touch :: "'d set_ops \<Rightarrow> 'k \<Rightarrow> ('k, 'd) mut_pts \<Rightarrow> ('k, 'd) mut_pts" where
  "mp_touch so k s = s\<lparr>mp_pts := at_touch (so_new so) k (mp_pts s)\<rparr>"

definition mp_put :: "'k \<Rightarrow> 'd \<Rightarrow> ('k, 'd) mut_pts \<Rightarrow> ('k, 'd) mut_pts" where
  "mp_put k d s = s\<lparr>mp_pts := at_put k d (mp_pts s)\<rparr>"

definition mp_revAt :: "('k, 'd) mut_pts \<Rightarrow> nat \<Rightarrow> 'k set" where
  "mp_revAt s n = at_get {} (mp_revPts s) n"

definition mp_getPts :: "'d set_ops \<Rightarrow> 'k \<Rightarrow> ('k, 'd) mut_pts \<Rightarrow> 'd \<times> ('k, 'd) mut_pts" where
  "mp_getPts so var s = (mp_at so s var, mp_touch so var s)"

definition mp_getRevPts :: "nat \<Rightarrow> ('k, 'd) mut_pts \<Rightarrow> ('k set \<times> ('k, 'd) mut_pts) option" where
  "mp_getRevPts datum s = (if \<not> mp_rev s then None
     else Some (mp_revAt s datum, s\<lparr>mp_revPts := at_touch {} datum (mp_revPts s)\<rparr>))"

definition mp_addSingleRevPts :: "nat \<Rightarrow> 'k \<Rightarrow> ('k, 'd) mut_pts \<Rightarrow> ('k, 'd) mut_pts" where
  "mp_addSingleRevPts n tgr s = (if mp_rev s
     then s\<lparr>mp_revPts := at_put n (insert tgr (mp_revAt s n)) (mp_revPts s)\<rparr>
     else s\<lparr>mp_revPts := at_touch {} n (mp_revPts s)\<rparr>)"

definition mp_clearSingleRevPts :: "nat \<Rightarrow> 'k \<Rightarrow> ('k, 'd) mut_pts \<Rightarrow> ('k, 'd) mut_pts" where
  "mp_clearSingleRevPts n k s = (if mp_rev s
     then s\<lparr>mp_revPts := at_put n (mp_revAt s n - {k}) (mp_revPts s)\<rparr>
     else s\<lparr>mp_revPts := at_touch {} n (mp_revPts s)\<rparr>)"

definition mp_addRevPts :: "'d set_ops \<Rightarrow> 'd \<Rightarrow> 'k \<Rightarrow> ('k, 'd) mut_pts \<Rightarrow> ('k, 'd) mut_pts option" where
  "mp_addRevPts so ptsData tgr s = (if \<not> mp_rev s then Some s
     else map_option (\<lambda>ns. foldl (\<lambda>t n. mp_addSingleRevPts n tgr t) s ns) (so_elems so ptsData))"

definition mp_clearRevPts :: "'d set_ops \<Rightarrow> 'd \<Rightarrow> 'k \<Rightarrow> ('k, 'd) mut_pts \<Rightarrow> ('k, 'd) mut_pts option" where
  "mp_clearRevPts so pts k s = (if \<not> mp_rev s then Some s
     else map_option (\<lambda>ns. foldl (\<lambda>t n. mp_clearSingleRevPts n k t) s ns) (so_elems so pts))"

definition mp_addPts :: "'d set_ops \<Rightarrow> 'k \<Rightarrow> nat \<Rightarrow> ('k, 'd) mut_pts \<Rightarrow> (bool \<times> ('k, 'd) mut_pts) option" where
  "mp_addPts so dstKey element s = (let s1 = mp_addSingleRevPts element dstKey s in
     map_option (\<lambda>r. (snd r, mp_put dstKey (fst r) s1)) (so_test_and_set so (mp_at so s1 dstKey) element))"

definition mp_unionPts :: "'d set_ops \<Rightarrow> 'k \<Rightarrow> 'k \<Rightarrow> ('k, 'd) mut_pts \<Rightarrow> (bool \<times> ('k, 'd) mut_pts) option" where
  "mp_unionPts so dstKey srcKey s =
     Option.bind (mp_addRevPts so (mp_at so s srcKey) dstKey (mp_touch so srcKey s)) (\<lambda>s1.
     map_option (\<lambda>r. (snd r, mp_put dstKey (fst r) s1))
       (so_or so (dstKey = srcKey) (mp_at so s1 dstKey) (mp_at so s1 srcKey)))"

definition mp_unionPtsSet :: "'d set_ops \<Rightarrow> 'k \<Rightarrow> 'd \<Rightarrow> ('k, 'd) mut_pts \<Rightarrow> (bool \<times> ('k, 'd) mut_pts) option" where
  "mp_unionPtsSet so dstKey srcDataSet s =
     Option.bind (mp_addRevPts so srcDataSet dstKey s) (\<lambda>s1.
     map_option (\<lambda>r. (snd r, mp_put dstKey (fst r) s1)) (so_or so False (mp_at so s1 dstKey) srcDataSet))"

definition mp_clearPts :: "'d set_ops \<Rightarrow> 'k \<Rightarrow> nat \<Rightarrow> ('k, 'd) mut_pts \<Rightarrow> ('k, 'd) mut_pts option" where
  "mp_clearPts so var element s = (let s1 = mp_clearSingleRevPts element var s in
     map_option (\<lambda>d. mp_put var d s1) (so_reset so (mp_at so s1 var) element))"

definition mp_clearFullPts :: "'d set_ops \<Rightarrow> 'k \<Rightarrow> ('k, 'd) mut_pts \<Rightarrow> ('k, 'd) mut_pts option" where
  "mp_clearFullPts so var s =
     map_option (\<lambda>s1. mp_put var (so_clear so (mp_at so s1 var)) s1)
       (mp_clearRevPts so (mp_at so s var) var (mp_touch so var s))"

text \<open>\<open>checkAndRemap\<close> on every set of a map.\<close>

fun remap_map :: "'d set_ops \<Rightarrow> ('k \<times> 'd) list \<Rightarrow> ('k \<times> 'd) list option" where
  "remap_map so [] = Some []"
| "remap_map so ((k, d) # m) = Option.bind (do_remap (so_data so) d) (\<lambda>d'. map_option (Cons (k, d')) (remap_map so m))"

definition mp_remapAllPts :: "'d set_ops \<Rightarrow> ('k, 'd) mut_pts \<Rightarrow> ('k, 'd) mut_pts option" where
  "mp_remapAllPts so s = map_option (\<lambda>m. s\<lparr>mp_pts := m\<rparr>) (remap_map so (mp_pts s))"

text \<open>\<open>++allPts[pt]\<close> for every set of a map; the counts are unsigned.\<close>

definition bump_occ :: "'d data_ops \<Rightarrow> 'd \<Rightarrow> nat \<Rightarrow> ('d \<times> nat) list \<Rightarrow> ('d \<times> nat) list option" where
  "bump_occ ops d n m = Option.bind (pts_find ops m d) (\<lambda>old.
     pts_assign ops m d (to_u32 (int (case old of None \<Rightarrow> 0 | Some i \<Rightarrow> i) + int n)))"

fun count_map :: "'d data_ops \<Rightarrow> ('k \<times> 'd) list \<Rightarrow> ('d \<times> nat) list \<Rightarrow> ('d \<times> nat) list option" where
  "count_map ops [] m = Some m"
| "count_map ops ((k, d) # es) m = Option.bind (bump_occ ops d 1 m) (count_map ops es)"

definition mp_getAllPts :: "'d set_ops \<Rightarrow> ('k, 'd) mut_pts \<Rightarrow> ('d \<times> nat) list option" where
  "mp_getAllPts so s = count_map (so_data so) (mp_pts s) []"

fun mergePtsOccMaps :: "'d data_ops \<Rightarrow> ('d \<times> nat) list \<Rightarrow> ('d \<times> nat) list \<Rightarrow> ('d \<times> nat) list option" where
  "mergePtsOccMaps ops to [] = Some to"
| "mergePtsOccMaps ops to ((d, n) # from') = Option.bind (bump_occ ops d n to) (\<lambda>to'. mergePtsOccMaps ops to' from')"

section \<open>The table with difference propagation\<close>

record ('k, 'd) mut_diff =
  md_pts :: "('k, 'd) mut_pts"
  md_diff :: "('k \<times> 'd) list"
  md_propa :: "('k \<times> 'd) list"

definition md_make :: "bool \<Rightarrow> ('k, 'd) mut_diff" where
  "md_make reversePT = \<lparr>md_pts = mp_make reversePT, md_diff = [], md_propa = []\<rparr>"

definition md_clear :: "('k, 'd) mut_diff \<Rightarrow> ('k, 'd) mut_diff" where
  "md_clear s = s\<lparr>md_pts := mp_clear (md_pts s)\<rparr>"

definition md_remapAllPts :: "'d set_ops \<Rightarrow> ('k, 'd) mut_diff \<Rightarrow> ('k, 'd) mut_diff option" where
  "md_remapAllPts so s =
     Option.bind (mp_remapAllPts so (md_pts s)) (\<lambda>p.
     Option.bind (remap_map so (md_diff s)) (\<lambda>d.
     map_option (\<lambda>q. \<lparr>md_pts = p, md_diff = d, md_propa = q\<rparr>) (remap_map so (md_propa s))))"

definition md_getDiffPts :: "'d set_ops \<Rightarrow> 'k \<Rightarrow> ('k, 'd) mut_diff \<Rightarrow> 'd \<times> ('k, 'd) mut_diff" where
  "md_getDiffPts so var s =
     (at_get (so_new so) (md_diff s) var, s\<lparr>md_diff := at_touch (so_new so) var (md_diff s)\<rparr>)"

definition md_getPropaPts :: "'d set_ops \<Rightarrow> 'k \<Rightarrow> ('k, 'd) mut_diff \<Rightarrow> 'd" where
  "md_getPropaPts so var s = at_get (so_new so) (md_propa s) var"

definition md_computeDiffPts :: "'d set_ops \<Rightarrow> 'k \<Rightarrow> 'd \<Rightarrow> ('k, 'd) mut_diff \<Rightarrow> (bool \<times> ('k, 'd) mut_diff) option" where
  "md_computeDiffPts so var all s =
     (let diff = so_clear so (at_get (so_new so) (md_diff s) var);
          propa = md_getPropaPts so var s
      in map_option (\<lambda>d. (\<not> so_empty so d,
           s\<lparr>md_diff := at_put var d (md_diff s), md_propa := at_put var (so_assign so propa all) (md_propa s)\<rparr>))
         (so_diff3 so diff all propa))"

definition md_updatePropaPtsMap :: "'d set_ops \<Rightarrow> 'k \<Rightarrow> 'k \<Rightarrow> ('k, 'd) mut_diff \<Rightarrow> ('k, 'd) mut_diff option" where
  "md_updatePropaPtsMap so src dst s =
     map_option (\<lambda>r. s\<lparr>md_propa := at_put dst (fst r) (at_touch (so_new so) src (md_propa s))\<rparr>)
       (so_and so (dst = src) (md_getPropaPts so dst s) (md_getPropaPts so src s))"

definition md_clearPropaPts :: "'d set_ops \<Rightarrow> 'k \<Rightarrow> ('k, 'd) mut_diff \<Rightarrow> ('k, 'd) mut_diff" where
  "md_clearPropaPts so var s =
     s\<lparr>md_propa := at_put var (so_clear so (md_getPropaPts so var s)) (md_propa s)\<rparr>"

definition md_addPts :: "'d set_ops \<Rightarrow> 'k \<Rightarrow> nat \<Rightarrow> ('k, 'd) mut_diff \<Rightarrow> (bool \<times> ('k, 'd) mut_diff) option" where
  "md_addPts so k n s = map_option (\<lambda>r. (fst r, s\<lparr>md_pts := snd r\<rparr>)) (mp_addPts so k n (md_pts s))"

definition md_unionPts :: "'d set_ops \<Rightarrow> 'k \<Rightarrow> 'k \<Rightarrow> ('k, 'd) mut_diff \<Rightarrow> (bool \<times> ('k, 'd) mut_diff) option" where
  "md_unionPts so k l s = map_option (\<lambda>r. (fst r, s\<lparr>md_pts := snd r\<rparr>)) (mp_unionPts so k l (md_pts s))"

definition md_unionPtsSet :: "'d set_ops \<Rightarrow> 'k \<Rightarrow> 'd \<Rightarrow> ('k, 'd) mut_diff \<Rightarrow> (bool \<times> ('k, 'd) mut_diff) option" where
  "md_unionPtsSet so k d s = map_option (\<lambda>r. (fst r, s\<lparr>md_pts := snd r\<rparr>)) (mp_unionPtsSet so k d (md_pts s))"

definition md_clearPts :: "'d set_ops \<Rightarrow> 'k \<Rightarrow> nat \<Rightarrow> ('k, 'd) mut_diff \<Rightarrow> ('k, 'd) mut_diff option" where
  "md_clearPts so k n s = map_option (\<lambda>t. s\<lparr>md_pts := t\<rparr>) (mp_clearPts so k n (md_pts s))"

definition md_clearFullPts :: "'d set_ops \<Rightarrow> 'k \<Rightarrow> ('k, 'd) mut_diff \<Rightarrow> ('k, 'd) mut_diff option" where
  "md_clearFullPts so k s = map_option (\<lambda>t. s\<lparr>md_pts := t\<rparr>) (mp_clearFullPts so k (md_pts s))"

definition md_getPts :: "'d set_ops \<Rightarrow> 'k \<Rightarrow> ('k, 'd) mut_diff \<Rightarrow> 'd \<times> ('k, 'd) mut_diff" where
  "md_getPts so var s = (let r = mp_getPts so var (md_pts s) in (fst r, s\<lparr>md_pts := snd r\<rparr>))"

definition md_getRevPts :: "nat \<Rightarrow> ('k, 'd) mut_diff \<Rightarrow> ('k set \<times> ('k, 'd) mut_diff) option" where
  "md_getRevPts datum s = map_option (\<lambda>r. (fst r, s\<lparr>md_pts := snd r\<rparr>)) (mp_getRevPts datum (md_pts s))"

definition md_getAllPts :: "'d set_ops \<Rightarrow> ('k, 'd) mut_diff \<Rightarrow> ('d \<times> nat) list option" where
  "md_getAllPts so s = mp_getAllPts so (md_pts s)"

section \<open>Invariant\<close>

definition mp_nodes :: "('d \<Rightarrow> nat set) \<Rightarrow> 'd set_ops \<Rightarrow> ('k, 'd) mut_pts \<Rightarrow> 'k \<Rightarrow> nat set" where
  "mp_nodes dset so s k = dset (mp_at so s k)"

definition mp_inv :: "('d \<Rightarrow> bool) \<Rightarrow> ('d \<Rightarrow> nat set) \<Rightarrow> 'd set_ops \<Rightarrow> ('k, 'd) mut_pts \<Rightarrow> bool" where
  "mp_inv dinv dset so s = ((\<forall>k. dinv (mp_at so s k))
    \<and> (mp_rev s \<longrightarrow> (\<forall>k n. k \<in> mp_revAt s n \<longleftrightarrow> n \<in> dset (mp_at so s k))))"

lemma mp_touch_simps [simp]:
  "mp_at so (mp_touch so k s) x = mp_at so s x" "mp_revAt (mp_touch so k s) n = mp_revAt s n"
  "mp_rev (mp_touch so k s) = mp_rev s"
  by (simp_all add: mp_touch_def mp_at_def mp_revAt_def)

lemma mp_put_simps [simp]:
  "mp_at so (mp_put k d s) x = (if x = k then d else mp_at so s x)" "mp_revAt (mp_put k d s) n = mp_revAt s n"
  "mp_rev (mp_put k d s) = mp_rev s"
  by (simp_all add: mp_put_def mp_at_def mp_revAt_def)

lemma mp_addSingle_simps [simp]:
  "mp_at so (mp_addSingleRevPts n k s) x = mp_at so s x" "mp_rev (mp_addSingleRevPts n k s) = mp_rev s"
  "mp_rev s \<Longrightarrow> mp_revAt (mp_addSingleRevPts n k s) m = (if m = n then insert k (mp_revAt s n) else mp_revAt s m)"
  by (simp_all add: mp_addSingleRevPts_def mp_at_def mp_revAt_def)

lemma mp_clearSingle_simps [simp]:
  "mp_at so (mp_clearSingleRevPts n k s) x = mp_at so s x" "mp_rev (mp_clearSingleRevPts n k s) = mp_rev s"
  "mp_rev s \<Longrightarrow> mp_revAt (mp_clearSingleRevPts n k s) m = (if m = n then mp_revAt s n - {k} else mp_revAt s m)"
  by (simp_all add: mp_clearSingleRevPts_def mp_at_def mp_revAt_def)

lemma mp_add_fold:
  "mp_at so (foldl (\<lambda>t n. mp_addSingleRevPts n k t) s ns) x = mp_at so s x
   \<and> mp_rev (foldl (\<lambda>t n. mp_addSingleRevPts n k t) s ns) = mp_rev s
   \<and> (mp_rev s \<longrightarrow> mp_revAt (foldl (\<lambda>t n. mp_addSingleRevPts n k t) s ns) m
       = (if m \<in> set ns then insert k (mp_revAt s m) else mp_revAt s m))"
  by (induction ns arbitrary: s) auto

lemma mp_clear_fold:
  "mp_at so (foldl (\<lambda>t n. mp_clearSingleRevPts n k t) s ns) x = mp_at so s x
   \<and> mp_rev (foldl (\<lambda>t n. mp_clearSingleRevPts n k t) s ns) = mp_rev s
   \<and> (mp_rev s \<longrightarrow> mp_revAt (foldl (\<lambda>t n. mp_clearSingleRevPts n k t) s ns) m
       = (if m \<in> set ns then mp_revAt s m - {k} else mp_revAt s m))"
  by (induction ns arbitrary: s) auto

lemma mp_make_inv: "dinv (so_new so) \<Longrightarrow> dset (so_new so) = {} \<Longrightarrow> mp_inv dinv dset so (mp_make r)"
  by (simp add: mp_inv_def mp_make_def mp_at_def mp_revAt_def)

lemma mp_clear_inv: "dinv (so_new so) \<Longrightarrow> dset (so_new so) = {} \<Longrightarrow> mp_inv dinv dset so (mp_clear s)"
  by (simp add: mp_inv_def mp_clear_def mp_at_def mp_revAt_def)

text \<open>What is left to show for an operation that puts the set \<open>d\<close> at \<open>k\<close> after updating the reverse
  sets of the nodes in which \<open>d\<close> differs from the set before.\<close>

lemma mp_put_inv:
  assumes "mp_inv dinv dset so s" "dinv d" "\<And>x. mp_at so t x = mp_at so s x" "mp_rev t = mp_rev s"
    and "\<And>x n. mp_rev s \<Longrightarrow> x \<in> mp_revAt t n \<longleftrightarrow> (x = k \<and> n \<in> dset d) \<or> (x \<noteq> k \<and> x \<in> mp_revAt s n)"
  shows "mp_inv dinv dset so (mp_put k d t) \<and> mp_nodes dset so (mp_put k d t) = (mp_nodes dset so s)(k := dset d)"
  using assms by (auto simp: mp_inv_def mp_nodes_def fun_eq_iff)

lemma mp_revD: "mp_inv dinv dset so s \<Longrightarrow> mp_rev s \<Longrightarrow> k \<in> mp_revAt s n \<longleftrightarrow> n \<in> dset (mp_at so s k)"
  by (simp add: mp_inv_def)

text \<open>The result of an operation: the changed flag, and a state that satisfies the invariant and has
  the sets \<open>P\<close>.\<close>

definition mp_result :: "('d \<Rightarrow> bool) \<Rightarrow> ('d \<Rightarrow> nat set) \<Rightarrow> 'd set_ops \<Rightarrow> ('k, 'd) mut_pts \<Rightarrow> bool \<Rightarrow> ('k \<Rightarrow> nat set) \<Rightarrow>
    (bool \<times> ('k, 'd) mut_pts) option \<Rightarrow> bool" where
  "mp_result dinv dset so s b P res = (\<exists>t. res = Some (b, t) \<and> mp_inv dinv dset so t \<and> mp_nodes dset so t = P
    \<and> mp_rev t = mp_rev s)"

section \<open>The operations\<close>

context pts_sets begin

lemma mp_at_inv: "mp_inv dinv dset so s \<Longrightarrow> dinv (mp_at so s k)"
  by (simp add: mp_inv_def)

lemma mp_addPts_ok:
  assumes "mp_inv dinv dset so s" "node_ok n"
  shows "mp_result dinv dset so s (n \<notin> mp_nodes dset so s k)
    ((mp_nodes dset so s)(k := insert n (mp_nodes dset so s k))) (mp_addPts so k n s)"
proof -
  obtain d where d: "so_test_and_set so (mp_at so s k) n = Some (d, n \<notin> dset (mp_at so s k))" "dinv d"
    "dset d = insert n (dset (mp_at so s k))"
    using tas_ok [OF mp_at_inv [OF assms(1)] assms(2)] by blast
  note p = mp_put_inv [OF assms(1) d(2), of "mp_addSingleRevPts n k s" k]
  have "mp_inv dinv dset so (mp_put k d (mp_addSingleRevPts n k s))
      \<and> mp_nodes dset so (mp_put k d (mp_addSingleRevPts n k s)) = (mp_nodes dset so s)(k := dset d)"
    by (rule p) (auto simp: d(3) mp_revD [OF assms(1)])
  then show ?thesis using d by (simp add: mp_result_def mp_addPts_def mp_nodes_def)
qed

lemma mp_addRevPts_ok:
  assumes "dinv d" "\<And>x. mp_at so s' x = mp_at so s x" "mp_rev s' = mp_rev s" "\<And>n. mp_revAt s' n = mp_revAt s n"
  obtains t where "mp_addRevPts so d k s' = Some t" "\<And>x. mp_at so t x = mp_at so s x" "mp_rev t = mp_rev s"
    "\<And>x n. mp_rev s \<Longrightarrow> x \<in> mp_revAt t n \<longleftrightarrow> x \<in> mp_revAt s n \<or> (x = k \<and> n \<in> dset d)"
proof -
  obtain ns where ns: "so_elems so d = Some ns" "set ns = dset d" using elems_ok [OF assms(1)] by blast
  show ?thesis
    by (rule that [of "if mp_rev s then foldl (\<lambda>t n. mp_addSingleRevPts n k t) s' ns else s'"])
      (auto simp: assms(2-4) mp_addRevPts_def ns mp_add_fold split: if_splits)
qed

lemma mp_clearRevPts_ok:
  assumes "dinv d" "\<And>x. mp_at so s' x = mp_at so s x" "mp_rev s' = mp_rev s" "\<And>n. mp_revAt s' n = mp_revAt s n"
  obtains t where "mp_clearRevPts so d k s' = Some t" "\<And>x. mp_at so t x = mp_at so s x" "mp_rev t = mp_rev s"
    "\<And>x n. mp_rev s \<Longrightarrow> x \<in> mp_revAt t n \<longleftrightarrow> x \<in> mp_revAt s n \<and> \<not> (x = k \<and> n \<in> dset d)"
proof -
  obtain ns where ns: "so_elems so d = Some ns" "set ns = dset d" using elems_ok [OF assms(1)] by blast
  show ?thesis
    by (rule that [of "if mp_rev s then foldl (\<lambda>t n. mp_clearSingleRevPts n k t) s' ns else s'"])
      (auto simp: assms(2-4) mp_clearRevPts_def ns mp_clear_fold split: if_splits)
qed

lemma mp_unionPtsSet_ok:
  assumes "mp_inv dinv dset so s" "dinv d"
  shows "mp_result dinv dset so s (\<not> dset d \<subseteq> mp_nodes dset so s k)
    ((mp_nodes dset so s)(k := mp_nodes dset so s k \<union> dset d)) (mp_unionPtsSet so k d s)"
proof -
  obtain t where t: "mp_addRevPts so d k s = Some t" "\<And>x. mp_at so t x = mp_at so s x" "mp_rev t = mp_rev s"
    "\<And>x n. mp_rev s \<Longrightarrow> x \<in> mp_revAt t n \<longleftrightarrow> x \<in> mp_revAt s n \<or> (x = k \<and> n \<in> dset d)"
    by (rule mp_addRevPts_ok [OF assms(2), of s s k]) (rule refl, rule refl, rule refl, rule that)
  obtain r where r: "so_or so False (mp_at so s k) d = Some (r, \<not> dset d \<subseteq> dset (mp_at so s k))" "dinv r"
    "dset r = dset (mp_at so s k) \<union> dset d"
    using orr_ok [OF mp_at_inv [OF assms(1)] assms(2), of False k] by auto
  note p = mp_put_inv [OF assms(1) r(2) t(2,3), of k]
  have "mp_inv dinv dset so (mp_put k r t) \<and> mp_nodes dset so (mp_put k r t) = (mp_nodes dset so s)(k := dset r)"
    by (rule p) (auto simp: r(3) t(4) mp_revD [OF assms(1)])
  then show ?thesis using r(1,3) t(1-3) by (simp add: mp_result_def mp_unionPtsSet_def mp_nodes_def)
qed

lemma mp_unionPts_ok:
  assumes "mp_inv dinv dset so s"
  shows "mp_result dinv dset so s (\<not> mp_nodes dset so s l \<subseteq> mp_nodes dset so s k)
    ((mp_nodes dset so s)(k := mp_nodes dset so s k \<union> mp_nodes dset so s l)) (mp_unionPts so k l s)"
proof -
  let ?d = "mp_at so s l"
  have d: "dinv ?d" by (rule mp_at_inv [OF assms])
  obtain t where t: "mp_addRevPts so ?d k (mp_touch so l s) = Some t" "\<And>x. mp_at so t x = mp_at so s x" "mp_rev t = mp_rev s"
    "\<And>x n. mp_rev s \<Longrightarrow> x \<in> mp_revAt t n \<longleftrightarrow> x \<in> mp_revAt s n \<or> (x = k \<and> n \<in> dset ?d)"
    by (rule mp_addRevPts_ok [OF d, of "mp_touch so l s" s k]) (simp, simp, simp, rule that)
  obtain r where r: "so_or so (k = l) (mp_at so s k) ?d = Some (r, \<not> dset ?d \<subseteq> dset (mp_at so s k))" "dinv r"
    "dset r = dset (mp_at so s k) \<union> dset ?d"
    using orr_ok [OF mp_at_inv [OF assms(1)] d, of "k = l" k] by auto
  note p = mp_put_inv [OF assms(1) r(2) t(2,3), of k]
  have "mp_inv dinv dset so (mp_put k r t) \<and> mp_nodes dset so (mp_put k r t) = (mp_nodes dset so s)(k := dset r)"
    by (rule p) (auto simp: r(3) t(4) mp_revD [OF assms(1)])
  then show ?thesis using r(1,3) t(1-3) by (simp add: mp_result_def mp_unionPts_def mp_nodes_def)
qed

lemma mp_clearPts_ok:
  assumes "mp_inv dinv dset so s" "node_ok n"
  shows "mp_result dinv dset so s False ((mp_nodes dset so s)(k := mp_nodes dset so s k - {n}))
    (map_option (Pair False) (mp_clearPts so k n s))"
proof -
  obtain d where d: "so_reset so (mp_at so s k) n = Some d" "dinv d" "dset d = dset (mp_at so s k) - {n}"
    using reset_ok [OF mp_at_inv [OF assms(1)] assms(2)] by blast
  note p = mp_put_inv [OF assms(1) d(2), of "mp_clearSingleRevPts n k s" k]
  have "mp_inv dinv dset so (mp_put k d (mp_clearSingleRevPts n k s))
      \<and> mp_nodes dset so (mp_put k d (mp_clearSingleRevPts n k s)) = (mp_nodes dset so s)(k := dset d)"
    by (rule p) (auto simp: d(3) mp_revD [OF assms(1)])
  then show ?thesis using d by (simp add: mp_result_def mp_clearPts_def mp_nodes_def)
qed

lemma mp_clearFullPts_ok:
  assumes "mp_inv dinv dset so s"
  shows "mp_result dinv dset so s False ((mp_nodes dset so s)(k := {})) (map_option (Pair False) (mp_clearFullPts so k s))"
proof -
  let ?d = "mp_at so s k"
  have d: "dinv ?d" by (rule mp_at_inv [OF assms])
  obtain t where t: "mp_clearRevPts so ?d k (mp_touch so k s) = Some t" "\<And>x. mp_at so t x = mp_at so s x" "mp_rev t = mp_rev s"
    "\<And>x n. mp_rev s \<Longrightarrow> x \<in> mp_revAt t n \<longleftrightarrow> x \<in> mp_revAt s n \<and> \<not> (x = k \<and> n \<in> dset ?d)"
    by (rule mp_clearRevPts_ok [OF d, of "mp_touch so k s" s k]) (simp, simp, simp, rule that)
  note p = mp_put_inv [OF assms clear_ok(1) [OF d] t(2,3), of k]
  have "mp_inv dinv dset so (mp_put k (so_clear so ?d) t)
      \<and> mp_nodes dset so (mp_put k (so_clear so ?d) t) = (mp_nodes dset so s)(k := dset (so_clear so ?d))"
    by (rule p) (auto simp: clear_ok(2) [OF d] t(4) mp_revD [OF assms(1)])
  then show ?thesis using t(1-3) clear_ok(2) [OF d] by (simp add: mp_result_def mp_clearFullPts_def)
qed

end

section \<open>The contract\<close>

text \<open>The commands of a table on \<open>MutablePTData\<close>.\<close>

fun mp_step :: "'d set_ops \<Rightarrow> ('k, 'd) pts_cmd \<Rightarrow> ('k, 'd) mut_pts \<Rightarrow> (bool \<times> ('k, 'd) mut_pts) option" where
  "mp_step so (AddPts k n) s = mp_addPts so k n s"
| "mp_step so (UnionPts k l) s = mp_unionPts so k l s"
| "mp_step so (UnionPtsSet k d) s = mp_unionPtsSet so k d s"
| "mp_step so (ClearPts k n) s = map_option (Pair False) (mp_clearPts so k n s)"
| "mp_step so (ClearFullPts k) s = map_option (Pair False) (mp_clearFullPts so k s)"

definition md_inv :: "('d \<Rightarrow> bool) \<Rightarrow> ('d \<Rightarrow> nat set) \<Rightarrow> 'd set_ops \<Rightarrow> ('k, 'd) mut_diff \<Rightarrow> bool" where
  "md_inv dinv dset so s = (mp_inv dinv dset so (md_pts s)
    \<and> (\<forall>k. dinv (at_get (so_new so) (md_diff s) k)) \<and> (\<forall>k. dinv (at_get (so_new so) (md_propa s) k)))"

definition md_diffs :: "('d \<Rightarrow> nat set) \<Rightarrow> 'd set_ops \<Rightarrow> ('k, 'd) mut_diff \<Rightarrow> 'k \<Rightarrow> nat set" where
  "md_diffs dset so s k = dset (at_get (so_new so) (md_diff s) k)"

definition md_propas :: "('d \<Rightarrow> nat set) \<Rightarrow> 'd set_ops \<Rightarrow> ('k, 'd) mut_diff \<Rightarrow> 'k \<Rightarrow> nat set" where
  "md_propas dset so s k = dset (at_get (so_new so) (md_propa s) k)"

context pts_sets begin

lemma mp_step_ok:
  assumes "mp_inv dinv dset so s" "cmd_ok dinv c"
  shows "mp_result dinv dset so s (fst (spec_step dset c (mp_nodes dset so s)))
    (snd (spec_step dset c (mp_nodes dset so s))) (mp_step so c s)"
  using assms mp_addPts_ok mp_unionPts_ok mp_unionPtsSet_ok mp_clearPts_ok mp_clearFullPts_ok
  by (cases c) simp_all

lemma mp_table: "pts_table (mp_step so :: ('k, 'd) pts_cmd \<Rightarrow> _) dset dinv (mp_inv dinv dset so) (\<lambda>_ _. False) (mp_nodes dset so) mp_rev mp_revAt"
proof
  fix s :: "('k, 'd) mut_pts" and c :: "('k, 'd) pts_cmd" and b s'
  assume a: "mp_inv dinv dset so s" "cmd_ok dinv c"
  note r = mp_step_ok [OF a]
  show "False" if "mp_step so c s = None" using r that by (simp add: mp_result_def)
  assume "mp_step so c s = Some (b, s')"
  then show "mp_inv dinv dset so s' \<and> (b, mp_nodes dset so s') = spec_step dset c (mp_nodes dset so s)"
    "mp_rev s' = mp_rev s"
    using r by (simp_all add: mp_result_def)
next
  fix s :: "('k, 'd) mut_pts" and k n
  assume "mp_inv dinv dset so s" "mp_rev s"
  then show "k \<in> mp_revAt s n \<longleftrightarrow> n \<in> mp_nodes dset so s k" by (simp add: mp_inv_def mp_nodes_def)
qed

lemma md_compute_ok:
  assumes "md_inv dinv dset so s" "dinv d"
  shows "\<exists>t. md_computeDiffPts so k d s = Some (\<not> dset d \<subseteq> md_propas dset so s k, t) \<and> md_inv dinv dset so t
    \<and> md_diffs dset so t = (md_diffs dset so s)(k := dset d - md_propas dset so s k)
    \<and> md_propas dset so t = (md_propas dset so s)(k := dset d) \<and> md_pts t = md_pts s"
proof -
  have i: "dinv (at_get (so_new so) (md_diff s) k)" "dinv (at_get (so_new so) (md_propa s) k)"
    using assms(1) by (simp_all add: md_inv_def)
  obtain r where r: "so_diff3 so (so_clear so (at_get (so_new so) (md_diff s) k)) d (at_get (so_new so) (md_propa s) k) = Some r"
    "dinv r" "dset r = dset d - dset (at_get (so_new so) (md_propa s) k)"
    using diff3_ok [OF clear_ok(1) [OF i(1)] assms(2) i(2)] by blast
  show ?thesis
    using assms r assign_ok [OF i(2) assms(2)] empty_iff [OF r(2)]
    by (auto simp: md_computeDiffPts_def Let_def md_getPropaPts_def md_inv_def md_diffs_def md_propas_def fun_eq_iff)
qed

lemma md_upd_ok:
  assumes "md_inv dinv dset so s"
  shows "\<exists>t. md_updatePropaPtsMap so l k s = Some t \<and> md_inv dinv dset so t
    \<and> md_diffs dset so t = md_diffs dset so s
    \<and> md_propas dset so t = (md_propas dset so s)(k := md_propas dset so s k \<inter> md_propas dset so s l)"
proof -
  have i: "dinv (md_getPropaPts so x s)" for x
    using assms(1) by (simp add: md_inv_def md_getPropaPts_def)
  obtain r f where r: "so_and so (k = l) (md_getPropaPts so k s) (md_getPropaPts so l s) = Some (r, f)"
    "dinv r" "dset r = dset (md_getPropaPts so k s) \<inter> dset (md_getPropaPts so l s)"
    using andr_ok [OF i i, of "k = l" k l] by auto
  then show ?thesis
    using assms by (auto simp: md_updatePropaPtsMap_def md_getPropaPts_def md_inv_def md_diffs_def md_propas_def fun_eq_iff)
qed

lemma md_table: "diff_table (md_computeDiffPts so :: 'k \<Rightarrow> _) (md_updatePropaPtsMap so) (md_clearPropaPts so) dset dinv
  (md_inv dinv dset so) (\<lambda>_. False) (md_diffs dset so) (md_propas dset so)"
proof
  fix s :: "('k, 'd) mut_diff" and k l d b s'
  assume s: "md_inv dinv dset so s"
  show "False" if "dinv d" "md_computeDiffPts so k d s = None"
    using md_compute_ok [OF s that(1), of k] that(2) by auto
  show "md_inv dinv dset so s' \<and> b = (\<not> dset d \<subseteq> md_propas dset so s k)
      \<and> md_diffs dset so s' = (md_diffs dset so s)(k := dset d - md_propas dset so s k)
      \<and> md_propas dset so s' = (md_propas dset so s)(k := dset d)"
    if "dinv d" "md_computeDiffPts so k d s = Some (b, s')"
    using md_compute_ok [OF s that(1), of k] that(2) by auto
  show "False" if "md_updatePropaPtsMap so l k s = None"
    using md_upd_ok [OF s, of l k] that by auto
  show "md_inv dinv dset so s' \<and> md_diffs dset so s' = md_diffs dset so s
      \<and> md_propas dset so s' = (md_propas dset so s)(k := md_propas dset so s k \<inter> md_propas dset so s l)"
    if "md_updatePropaPtsMap so l k s = Some s'"
    using md_upd_ok [OF s, of l k] that by auto
  show "md_inv dinv dset so (md_clearPropaPts so k s) \<and> md_diffs dset so (md_clearPropaPts so k s) = md_diffs dset so s
      \<and> md_propas dset so (md_clearPropaPts so k s) = (md_propas dset so s)(k := {})"
    using s clear_ok by (auto simp: md_clearPropaPts_def md_getPropaPts_def md_inv_def md_diffs_def md_propas_def fun_eq_iff)
qed

end

interpretation mpt: pts_table "mp_step (pt_set_ops sbv_config)" pt_nodes "pt_plain SBV"
  "mp_inv (pt_plain SBV) pt_nodes (pt_set_ops sbv_config)" "\<lambda>_ _. False" "mp_nodes pt_nodes (pt_set_ops sbv_config)"
  mp_rev mp_revAt
  by (rule sbv_sets.mp_table)

interpretation mdt: diff_table "md_computeDiffPts (pt_set_ops sbv_config)" "md_updatePropaPtsMap (pt_set_ops sbv_config)"
  "md_clearPropaPts (pt_set_ops sbv_config)" pt_nodes "pt_plain SBV"
  "md_inv (pt_plain SBV) pt_nodes (pt_set_ops sbv_config)" "\<lambda>_. False" "md_diffs pt_nodes (pt_set_ops sbv_config)"
  "md_propas pt_nodes (pt_set_ops sbv_config)"
  by (rule sbv_sets.md_table)

end
