(* ===== verification/PersistentPts.thy ===== *)
theory PersistentPts
  imports MutablePts
begin

text \<open>
  \<open>PersistentPTData\<close> and \<open>PersistentDiffPTData\<close> of \<open>svf/include/MemoryModel/PersistentPointsToDS.h\<close>: the tables of theory MutablePts with ids of
  interned points-to sets in place of the sets.

  The cache is shared by reference between tables, so the state of an operation is the cache and
  the table. \<open>None\<close> is a failed assertion, which under the invariants means that the cache has no
  id left. At the end both implementations are shown to agree.
\<close>

section \<open>The table\<close>

record 'k pers_pts =
  pp_rev :: bool
  pp_pts :: "('k \<times> nat) list"
  pp_revPts :: "(nat \<times> 'k set) list"

type_synonym ('k, 'd) pers_st = "'d pptc \<times> 'k pers_pts"

definition pp_make :: "bool \<Rightarrow> 'k pers_pts" where
  "pp_make reversePT = \<lparr>pp_rev = reversePT, pp_pts = [], pp_revPts = []\<rparr>"

definition pp_clear :: "'k pers_pts \<Rightarrow> 'k pers_pts" where
  "pp_clear t = t\<lparr>pp_pts := [], pp_revPts := []\<rparr>"

text \<open>\<open>ptsMap[k]\<close> and \<open>revPtsMap[n]\<close>\<close>

definition pp_id :: "'k pers_pts \<Rightarrow> 'k \<Rightarrow> nat" where
  "pp_id t k = at_get 0 (pp_pts t) k"

definition pp_touch :: "'k \<Rightarrow> 'k pers_pts \<Rightarrow> 'k pers_pts" where
  "pp_touch k t = t\<lparr>pp_pts := at_touch 0 k (pp_pts t)\<rparr>"

definition pp_put :: "'k \<Rightarrow> nat \<Rightarrow> 'k pers_pts \<Rightarrow> 'k pers_pts" where
  "pp_put k i t = t\<lparr>pp_pts := at_put k i (pp_pts t)\<rparr>"

definition pp_revAt :: "'k pers_pts \<Rightarrow> nat \<Rightarrow> 'k set" where
  "pp_revAt t n = at_get {} (pp_revPts t) n"

definition pp_getPts :: "'k \<Rightarrow> ('k, 'd) pers_st \<Rightarrow> ('d \<times> ('k, 'd) pers_st) option" where
  "pp_getPts var s = map_option (\<lambda>d. (d, (fst s, pp_touch var (snd s)))) (getActualPts (fst s) (pp_id (snd s) var))"

definition pp_getRevPts :: "nat \<Rightarrow> 'k pers_pts \<Rightarrow> ('k set \<times> 'k pers_pts) option" where
  "pp_getRevPts data t = (if \<not> pp_rev t then None
     else Some (pp_revAt t data, t\<lparr>pp_revPts := at_touch {} data (pp_revPts t)\<rparr>))"

definition pp_insertRev :: "nat \<Rightarrow> 'k \<Rightarrow> 'k pers_pts \<Rightarrow> 'k pers_pts" where
  "pp_insertRev n k t = t\<lparr>pp_revPts := at_put n (insert k (pp_revAt t n)) (pp_revPts t)\<rparr>"

definition pp_clearSingleRevPts :: "nat \<Rightarrow> 'k \<Rightarrow> 'k pers_pts \<Rightarrow> 'k pers_pts" where
  "pp_clearSingleRevPts n k t = (if pp_rev t
     then t\<lparr>pp_revPts := at_put n (pp_revAt t n - {k}) (pp_revPts t)\<rparr>
     else t\<lparr>pp_revPts := at_touch {} n (pp_revPts t)\<rparr>)"

definition pp_clearRevPts :: "'d set_ops \<Rightarrow> 'd \<Rightarrow> 'k \<Rightarrow> 'k pers_pts \<Rightarrow> 'k pers_pts option" where
  "pp_clearRevPts so pts k t = (if \<not> pp_rev t then Some t
     else map_option (\<lambda>ns. foldl (\<lambda>t n. pp_clearSingleRevPts n k t) t ns) (so_elems so pts))"

definition pp_unionPtsFromId :: "'d set_ops \<Rightarrow> 'k \<Rightarrow> nat \<Rightarrow> ('k, 'd) pers_st \<Rightarrow> (bool \<times> ('k, 'd) pers_st) option" where
  "pp_unionPtsFromId so dstKey srcId s =
     (let dstId = pp_id (snd s) dstKey; t = pp_touch dstKey (snd s) in
      Option.bind (unionPts (so_data so) dstId srcId (fst s)) (\<lambda>(newDstId, c).
        if newDstId = dstId then Some (False, (c, t))
        else let t1 = pp_put dstKey newDstId t in
          if pp_rev t1
          then Option.bind (getActualPts c srcId) (\<lambda>srcPts.
            map_option (\<lambda>ns. (True, (c, foldl (\<lambda>t n. pp_insertRev n dstKey t) t1 ns))) (so_elems so srcPts))
          else Some (True, (c, t1))))"

definition pp_addPts :: "'d set_ops \<Rightarrow> 'k \<Rightarrow> nat \<Rightarrow> ('k, 'd) pers_st \<Rightarrow> (bool \<times> ('k, 'd) pers_st) option" where
  "pp_addPts so dstKey element s =
     Option.bind (so_set so (so_new so) element) (\<lambda>srcPts.
     Option.bind (emplacePts (so_data so) srcPts (fst s)) (\<lambda>(srcId, c).
     pp_unionPtsFromId so dstKey srcId (c, snd s)))"

definition pp_unionPts :: "'d set_ops \<Rightarrow> 'k \<Rightarrow> 'k \<Rightarrow> ('k, 'd) pers_st \<Rightarrow> (bool \<times> ('k, 'd) pers_st) option" where
  "pp_unionPts so dstKey srcKey s =
     pp_unionPtsFromId so dstKey (pp_id (snd s) srcKey) (fst s, pp_touch srcKey (snd s))"

definition pp_unionPtsSet :: "'d set_ops \<Rightarrow> 'k \<Rightarrow> 'd \<Rightarrow> ('k, 'd) pers_st \<Rightarrow> (bool \<times> ('k, 'd) pers_st) option" where
  "pp_unionPtsSet so dstKey srcData s =
     Option.bind (emplacePts (so_data so) srcData (fst s)) (\<lambda>(srcId, c). pp_unionPtsFromId so dstKey srcId (c, snd s))"

definition pp_clearPts :: "'d set_ops \<Rightarrow> 'k \<Rightarrow> nat \<Rightarrow> ('k, 'd) pers_st \<Rightarrow> ('k, 'd) pers_st option" where
  "pp_clearPts so var element s =
     Option.bind (so_set so (so_new so) element) (\<lambda>toRemoveData.
     Option.bind (emplacePts (so_data so) toRemoveData (fst s)) (\<lambda>(toRemoveId, c).
     let varId = pp_id (snd s) var; t = pp_touch var (snd s) in
     map_option (\<lambda>(complementId, c1).
         if varId = complementId then (c1, t)
         else (c1, pp_clearSingleRevPts element var (pp_put var complementId t)))
       (complementPts (so_data so) varId toRemoveId c)))"

definition pp_clearFullPts :: "'d set_ops \<Rightarrow> 'k \<Rightarrow> ('k, 'd) pers_st \<Rightarrow> ('k, 'd) pers_st option" where
  "pp_clearFullPts so var s =
     Option.bind (pp_getPts var s) (\<lambda>(pts, s1).
     map_option (\<lambda>t. (fst s1, pp_put var emptyPointsToId t)) (pp_clearRevPts so pts var (snd s1)))"

definition pp_remapAllPts :: "'d set_ops \<Rightarrow> ('k, 'd) pers_st \<Rightarrow> ('k, 'd) pers_st option" where
  "pp_remapAllPts so s = map_option (\<lambda>c. (c, snd s)) (remapAllPts (so_data so) (fst s))"

text \<open>The counts of the sets that the ids of a map stand for.\<close>

fun count_ids :: "'d data_ops \<Rightarrow> 'd pptc \<Rightarrow> ('k \<times> nat) list \<Rightarrow> ('d \<times> nat) list \<Rightarrow> ('d \<times> nat) list option" where
  "count_ids ops c [] m = Some m"
| "count_ids ops c ((k, i) # es) m =
     Option.bind (getActualPts c i) (\<lambda>d. Option.bind (bump_occ ops d 1 m) (count_ids ops c es))"

definition pp_getAllPts :: "'d set_ops \<Rightarrow> bool \<Rightarrow> ('k, 'd) pers_st \<Rightarrow> ('d \<times> nat) list option" where
  "pp_getAllPts so liveOnly s = (if liveOnly then count_ids (so_data so) (fst s) (pp_pts (snd s)) []
     else getAllPts (so_data so) (fst s))"

section \<open>The table with difference propagation\<close>

record 'k pers_diff =
  pd_pts :: "'k pers_pts"
  pd_diff :: "('k \<times> nat) list"
  pd_propa :: "('k \<times> nat) list"

type_synonym ('k, 'd) pdiff_st = "'d pptc \<times> 'k pers_diff"

definition pd_make :: "bool \<Rightarrow> 'k pers_diff" where
  "pd_make reversePT = \<lparr>pd_pts = pp_make reversePT, pd_diff = [], pd_propa = []\<rparr>"

definition pd_clear :: "'k pers_diff \<Rightarrow> 'k pers_diff" where
  "pd_clear t = \<lparr>pd_pts = pp_clear (pd_pts t), pd_diff = [], pd_propa = []\<rparr>"

definition pd_getDiffPts :: "'k \<Rightarrow> ('k, 'd) pdiff_st \<Rightarrow> ('d \<times> ('k, 'd) pdiff_st) option" where
  "pd_getDiffPts var s = map_option (\<lambda>d. (d, (fst s, (snd s)\<lparr>pd_diff := at_touch 0 var (pd_diff (snd s))\<rparr>)))
     (getActualPts (fst s) (at_get 0 (pd_diff (snd s)) var))"

definition pd_computeDiffPts :: "'d set_ops \<Rightarrow> 'k \<Rightarrow> 'd \<Rightarrow> ('k, 'd) pdiff_st \<Rightarrow> (bool \<times> ('k, 'd) pdiff_st) option" where
  "pd_computeDiffPts so var all s =
     (let propaId = at_get 0 (pd_propa (snd s)) var; t = (snd s)\<lparr>pd_propa := at_touch 0 var (pd_propa (snd s))\<rparr> in
      Option.bind (emplacePts (so_data so) all (fst s)) (\<lambda>(allId, c).
      map_option (\<lambda>(diffId, c1). (diffId \<noteq> emptyPointsToId,
          (c1, t\<lparr>pd_diff := at_put var diffId (pd_diff t), pd_propa := at_put var allId (pd_propa t)\<rparr>)))
        (complementPts (so_data so) allId propaId c)))"

definition pd_updatePropaPtsMap :: "'d set_ops \<Rightarrow> 'k \<Rightarrow> 'k \<Rightarrow> ('k, 'd) pdiff_st \<Rightarrow> ('k, 'd) pdiff_st option" where
  "pd_updatePropaPtsMap so src dst s =
     (let dstId = at_get 0 (pd_propa (snd s)) dst; srcId = at_get 0 (pd_propa (snd s)) src in
      map_option (\<lambda>(i, c). (c, (snd s)\<lparr>pd_propa := at_put dst i (at_touch 0 src (at_touch 0 dst (pd_propa (snd s))))\<rparr>))
        (intersectPts (so_data so) dstId srcId (fst s)))"

definition pd_clearPropaPts :: "'k \<Rightarrow> ('k, 'd) pdiff_st \<Rightarrow> ('k, 'd) pdiff_st" where
  "pd_clearPropaPts var s = (fst s, (snd s)\<lparr>pd_propa := at_put var emptyPointsToId (pd_propa (snd s))\<rparr>)"

definition pd_lift :: "(('k, 'd) pers_st \<Rightarrow> (bool \<times> ('k, 'd) pers_st) option) \<Rightarrow> ('k, 'd) pdiff_st \<Rightarrow>
    (bool \<times> ('k, 'd) pdiff_st) option" where
  "pd_lift f s = map_option (\<lambda>r. (fst r, (fst (snd r), (snd s)\<lparr>pd_pts := snd (snd r)\<rparr>))) (f (fst s, pd_pts (snd s)))"

definition pd_getPts :: "'k \<Rightarrow> ('k, 'd) pdiff_st \<Rightarrow> ('d \<times> ('k, 'd) pdiff_st) option" where
  "pd_getPts var s = map_option (\<lambda>r. (fst r, (fst (snd r), (snd s)\<lparr>pd_pts := snd (snd r)\<rparr>)))
     (pp_getPts var (fst s, pd_pts (snd s)))"

definition pd_getRevPts :: "nat \<Rightarrow> 'k pers_diff \<Rightarrow> ('k set \<times> 'k pers_diff) option" where
  "pd_getRevPts data t = map_option (\<lambda>r. (fst r, t\<lparr>pd_pts := snd r\<rparr>)) (pp_getRevPts data (pd_pts t))"

definition pd_addPts :: "'d set_ops \<Rightarrow> 'k \<Rightarrow> nat \<Rightarrow> ('k, 'd) pdiff_st \<Rightarrow> (bool \<times> ('k, 'd) pdiff_st) option" where
  "pd_addPts so k n = pd_lift (pp_addPts so k n)"

definition pd_unionPts :: "'d set_ops \<Rightarrow> 'k \<Rightarrow> 'k \<Rightarrow> ('k, 'd) pdiff_st \<Rightarrow> (bool \<times> ('k, 'd) pdiff_st) option" where
  "pd_unionPts so k l = pd_lift (pp_unionPts so k l)"

definition pd_unionPtsSet :: "'d set_ops \<Rightarrow> 'k \<Rightarrow> 'd \<Rightarrow> ('k, 'd) pdiff_st \<Rightarrow> (bool \<times> ('k, 'd) pdiff_st) option" where
  "pd_unionPtsSet so k d = pd_lift (pp_unionPtsSet so k d)"

definition pd_clearPts :: "'d set_ops \<Rightarrow> 'k \<Rightarrow> nat \<Rightarrow> ('k, 'd) pdiff_st \<Rightarrow> (bool \<times> ('k, 'd) pdiff_st) option" where
  "pd_clearPts so k n = pd_lift (\<lambda>s. map_option (Pair False) (pp_clearPts so k n s))"

definition pd_clearFullPts :: "'d set_ops \<Rightarrow> 'k \<Rightarrow> ('k, 'd) pdiff_st \<Rightarrow> (bool \<times> ('k, 'd) pdiff_st) option" where
  "pd_clearFullPts so k = pd_lift (\<lambda>s. map_option (Pair False) (pp_clearFullPts so k s))"

definition pd_remapAllPts :: "'d set_ops \<Rightarrow> ('k, 'd) pdiff_st \<Rightarrow> ('k, 'd) pdiff_st option" where
  "pd_remapAllPts so s = map_option (\<lambda>c. (c, snd s)) (remapAllPts (so_data so) (fst s))"

definition pd_getAllPts :: "'d set_ops \<Rightarrow> bool \<Rightarrow> ('k, 'd) pdiff_st \<Rightarrow> ('d \<times> nat) list option" where
  "pd_getAllPts so liveOnly s = pp_getAllPts so liveOnly (fst s, pd_pts (snd s))"

section \<open>Invariant\<close>

text \<open>At most one id is left; some operations need two.\<close>

definition ids_full :: "'d pptc \<Rightarrow> bool" where
  "ids_full c = (2 ^ 32 \<le> Suc (length (c_idToPts c)))"

definition pp_ok :: "('d \<Rightarrow> nat set) \<Rightarrow> 'd pptc \<Rightarrow> 'k pers_pts \<Rightarrow> bool" where
  "pp_ok dset c t = ((\<forall>k. pp_id t k < length (c_idToPts c))
    \<and> (pp_rev t \<longrightarrow> (\<forall>k n. k \<in> pp_revAt t n \<longleftrightarrow> n \<in> dset (c_idToPts c ! pp_id t k))))"

definition pp_inv :: "('d \<Rightarrow> bool) \<Rightarrow> ('d \<Rightarrow> nat set) \<Rightarrow> ('k, 'd) pers_st \<Rightarrow> bool" where
  "pp_inv dinv dset s = (pptc_inv dinv dset (fst s) \<and> pp_ok dset (fst s) (snd s))"

definition pp_nodes :: "('d \<Rightarrow> nat set) \<Rightarrow> ('k, 'd) pers_st \<Rightarrow> 'k \<Rightarrow> nat set" where
  "pp_nodes dset s k = dset (c_idToPts (fst s) ! pp_id (snd s) k)"

definition pp_result :: "('d \<Rightarrow> bool) \<Rightarrow> ('d \<Rightarrow> nat set) \<Rightarrow> ('k, 'd) pers_st \<Rightarrow> bool \<Rightarrow> ('k \<Rightarrow> nat set) \<Rightarrow>
    (bool \<times> ('k, 'd) pers_st) option \<Rightarrow> bool" where
  "pp_result dinv dset s b P res = (case res of
      None \<Rightarrow> ids_full (fst s)
    | Some r \<Rightarrow> fst r = b \<and> pp_inv dinv dset (snd r) \<and> pp_nodes dset (snd r) = P
        \<and> pp_rev (snd (snd r)) = pp_rev (snd s) \<and> extends (fst s) (fst (snd r)))"

lemma pp_touch_simps [simp]:
  "pp_id (pp_touch k t) x = pp_id t x" "pp_revAt (pp_touch k t) n = pp_revAt t n" "pp_rev (pp_touch k t) = pp_rev t"
  by (simp_all add: pp_touch_def pp_id_def pp_revAt_def)

lemma pp_put_simps [simp]:
  "pp_id (pp_put k i t) x = (if x = k then i else pp_id t x)" "pp_revAt (pp_put k i t) n = pp_revAt t n"
  "pp_rev (pp_put k i t) = pp_rev t"
  by (simp_all add: pp_put_def pp_id_def pp_revAt_def)

lemma pp_insert_simps [simp]:
  "pp_id (pp_insertRev n k t) x = pp_id t x" "pp_rev (pp_insertRev n k t) = pp_rev t"
  "pp_revAt (pp_insertRev n k t) m = (if m = n then insert k (pp_revAt t n) else pp_revAt t m)"
  by (simp_all add: pp_insertRev_def pp_id_def pp_revAt_def)

lemma pp_clearSingle_simps [simp]:
  "pp_id (pp_clearSingleRevPts n k t) x = pp_id t x" "pp_rev (pp_clearSingleRevPts n k t) = pp_rev t"
  "pp_rev t \<Longrightarrow> pp_revAt (pp_clearSingleRevPts n k t) m = (if m = n then pp_revAt t n - {k} else pp_revAt t m)"
  by (simp_all add: pp_clearSingleRevPts_def pp_id_def pp_revAt_def)

lemma pp_insert_fold:
  "pp_id (foldl (\<lambda>t n. pp_insertRev n k t) t ns) x = pp_id t x
   \<and> pp_rev (foldl (\<lambda>t n. pp_insertRev n k t) t ns) = pp_rev t
   \<and> pp_revAt (foldl (\<lambda>t n. pp_insertRev n k t) t ns) m = (if m \<in> set ns then insert k (pp_revAt t m) else pp_revAt t m)"
  by (induction ns arbitrary: t) auto

lemma pp_clear_fold:
  "pp_id (foldl (\<lambda>t n. pp_clearSingleRevPts n k t) t ns) x = pp_id t x
   \<and> pp_rev (foldl (\<lambda>t n. pp_clearSingleRevPts n k t) t ns) = pp_rev t
   \<and> (pp_rev t \<longrightarrow> pp_revAt (foldl (\<lambda>t n. pp_clearSingleRevPts n k t) t ns) m
       = (if m \<in> set ns then pp_revAt t m - {k} else pp_revAt t m))"
  by (induction ns arbitrary: t) auto

text \<open>A table is unaffected by what happens to the cache, as long as ids keep their meaning.\<close>

lemma pp_ok_extends: "pp_ok dset c t \<Longrightarrow> extends c c' \<Longrightarrow> pp_ok dset c' t"
  unfolding pp_ok_def using extends_nth by metis

lemma pp_nodes_extends: "pp_ok dset c t \<Longrightarrow> extends c c' \<Longrightarrow> pp_nodes dset (c', t) = pp_nodes dset (c, t)"
  using extends_nth [of c c'] by (auto simp: pp_ok_def pp_nodes_def fun_eq_iff)

lemma pp_revD: "pp_ok dset c t \<Longrightarrow> pp_rev t \<Longrightarrow> k \<in> pp_revAt t n \<longleftrightarrow> n \<in> dset (c_idToPts c ! pp_id t k)"
  by (simp add: pp_ok_def)

text \<open>Putting the id \<open>i\<close> at \<open>k\<close>.\<close>

lemma pp_put_ok:
  assumes "pp_ok dset c s" "i < length (c_idToPts c)" "\<And>x. pp_id t x = (if x = k then i else pp_id s x)" "pp_rev t = pp_rev s"
    and "\<And>x n. pp_rev s \<Longrightarrow> x \<in> pp_revAt t n \<longleftrightarrow>
      (x = k \<and> n \<in> dset (c_idToPts c ! i)) \<or> (x \<noteq> k \<and> x \<in> pp_revAt s n)"
  shows "pp_ok dset c t \<and> pp_nodes dset (c, t) = (pp_nodes dset (c, s))(k := dset (c_idToPts c ! i))"
proof
  show "pp_ok dset c t"
    unfolding pp_ok_def
  proof (intro conjI allI impI)
    show "pp_id t x < length (c_idToPts c)" for x
      using assms(1,2) by (simp add: assms(3) pp_ok_def)
    show "x \<in> pp_revAt t n \<longleftrightarrow> n \<in> dset (c_idToPts c ! pp_id t x)" if "pp_rev t" for x n
    proof -
      have r: "pp_rev s" using that assms(4) by simp
      show ?thesis
        unfolding assms(5) [OF r, of x n] assms(3) [of x] using pp_revD [OF assms(1) r, of x n] by (cases "x = k") simp_all
    qed
  qed
  show "pp_nodes dset (c, t) = (pp_nodes dset (c, s))(k := dset (c_idToPts c ! i))"
    by (simp add: pp_nodes_def fun_eq_iff assms(3))
qed

lemma pp_ok_touch [simp]: "pp_ok dset c (pp_touch k t) = pp_ok dset c t"
  by (simp add: pp_ok_def)

lemma pp_nodes_touch [simp]: "pp_nodes dset (c, pp_touch k t) = pp_nodes dset (c, t)"
  by (simp add: pp_nodes_def fun_eq_iff)

lemma emplace_length: "emplacePts ops d c = Some (i, c') \<Longrightarrow> length (c_idToPts c') \<le> Suc (length (c_idToPts c))"
proof -
  assume e: "emplacePts ops d c = Some (i, c')"
  then obtain f where f: "pts_find ops (c_ptsToId c) d = Some f" by (auto simp: emplacePts_def bind_eq_Some_conv)
  show ?thesis
  proof (cases f)
    case None
    then show ?thesis
      using e f by (cases "c_idCounter c = emptyPointsToId") (auto simp: emplacePts_def newPointsToId_def)
  qed (use e f in \<open>simp add: emplacePts_def\<close>)
qed

lemma pp_make_ok: "core_inv dinv dset c \<Longrightarrow> pp_ok dset c (pp_make r) \<and> pp_nodes dset (c, pp_make r) = (\<lambda>_. {})"
  by (auto simp: pp_ok_def pp_nodes_def pp_make_def pp_id_def pp_revAt_def core_inv_def)

lemma pp_clear_ok: "core_inv dinv dset c \<Longrightarrow> pp_ok dset c (pp_clear t) \<and> pp_nodes dset (c, pp_clear t) = (\<lambda>_. {})"
  by (auto simp: pp_ok_def pp_nodes_def pp_clear_def pp_id_def pp_revAt_def core_inv_def)

section \<open>The operations\<close>

context pts_sets begin

lemma result_cases:
  assumes "result_ok c X res"
  obtains "res = None" "length (c_idToPts c) = 2 ^ 32"
    | i c' where "res = Some (i, c')" "pptc_inv dinv dset c'" "extends c c'" "i < length (c_idToPts c')" "dset (c_idToPts c' ! i) = X"
  using assms by (cases res) (auto simp: result_ok_def)

lemma pp_idD: "pp_inv dinv dset s \<Longrightarrow> pp_id (snd s) k < length (c_idToPts (fst s))"
  by (simp add: pp_inv_def pp_ok_def)

lemma ids_dinv: "pptc_inv dinv dset c \<Longrightarrow> i < length (c_idToPts c) \<Longrightarrow> dinv (c_idToPts c ! i)"
  by (simp add: pptc_inv_def core_inv_def)

lemma ids_eq: "pptc_inv dinv dset c \<Longrightarrow> i < length (c_idToPts c) \<Longrightarrow> j < length (c_idToPts c) \<Longrightarrow>
    i = j \<longleftrightarrow> dset (c_idToPts c ! i) = dset (c_idToPts c ! j)"
  using core_canonical [of dinv dset c i j] by (simp add: pptc_inv_def)

text \<open>A later failure is a failure for lack of ids.\<close>

lemma full_later:
  "length (c_idToPts c') = 2 ^ 32 \<Longrightarrow> length (c_idToPts c') \<le> Suc (length (c_idToPts c)) \<Longrightarrow> ids_full c"
  by (simp add: ids_full_def)

lemma unionFromId_ok:
  assumes inv: "pptc_inv dinv dset c" and t: "pp_ok dset c t" and src: "j < length (c_idToPts c)"
  shows "case pp_unionPtsFromId so k j (c, t) of
      None \<Rightarrow> length (c_idToPts c) = 2 ^ 32
    | Some r \<Rightarrow> fst r = (\<not> dset (c_idToPts c ! j) \<subseteq> pp_nodes dset (c, t) k) \<and> pp_inv dinv dset (snd r)
        \<and> pp_nodes dset (snd r) = (pp_nodes dset (c, t))(k := pp_nodes dset (c, t) k \<union> dset (c_idToPts c ! j))
        \<and> pp_rev (snd (snd r)) = pp_rev t \<and> extends c (fst (snd r))"
proof -
  let ?i = "pp_id t k" and ?t = "pp_touch k t"
  have i: "?i < length (c_idToPts c)" using t by (simp add: pp_ok_def)
  have nk: "pp_nodes dset (c, t) k = dset (c_idToPts c ! ?i)" by (simp add: pp_nodes_def)
  show ?thesis
  proof (cases rule: result_cases [OF unionPts_ok [OF inv i src]])
    case 1
    then show ?thesis by (simp add: pp_unionPtsFromId_def Let_def)
  next
    case (2 m c')
    have t': "pp_ok dset c' ?t" using pp_ok_extends [OF _ 2(3), of dset ?t] t by simp
    have n': "pp_nodes dset (c', ?t) = pp_nodes dset (c, t)" using pp_nodes_extends [OF t 2(3)] by simp
    have d': "c_idToPts c' ! ?i = c_idToPts c ! ?i" "?i < length (c_idToPts c')"
      "c_idToPts c' ! j = c_idToPts c ! j" "j < length (c_idToPts c')"
      using extends_nth [OF 2(3)] i src by blast+
    show ?thesis
    proof (cases "m = ?i")
      case True
      then have "dset (c_idToPts c ! j) \<subseteq> dset (c_idToPts c ! ?i)" using 2(5) d'(1) by auto
      then show ?thesis
        using True 2(1-3) t' n' nk by (auto simp: pp_unionPtsFromId_def Let_def pp_inv_def fun_eq_iff)
    next
      case False
      then have sub: "\<not> dset (c_idToPts c ! j) \<subseteq> dset (c_idToPts c ! ?i)"
        using ids_eq [OF 2(2,4) d'(2)] 2(5) d'(1) by auto
      have dj: "dinv (c_idToPts c' ! j)" by (rule ids_dinv [OF 2(2) d'(4)])
      obtain ns where ns: "so_elems so (c_idToPts c' ! j) = Some ns" "set ns = dset (c_idToPts c' ! j)"
        using elems_ok [OF dj] by blast
      define u where "u = (if pp_rev t then foldl (\<lambda>t n. pp_insertRev n k t) (pp_put k m ?t) ns else pp_put k m ?t)"
      have eq: "pp_unionPtsFromId so k j (c, t) = Some (True, (c', u))"
        using False 2(1) ns(1) d'(4) by (simp add: pp_unionPtsFromId_def Let_def getActualPts_def u_def)
      have "pp_ok dset c' u \<and> pp_nodes dset (c', u) = (pp_nodes dset (c', ?t))(k := dset (c_idToPts c' ! m))"
      proof (rule pp_put_ok [OF t' 2(4)])
        show "pp_id u x = (if x = k then m else pp_id ?t x)" for x by (simp add: u_def pp_insert_fold)
        show "pp_rev u = pp_rev ?t" by (simp add: u_def pp_insert_fold)
        fix x n assume "pp_rev ?t"
        then show "x \<in> pp_revAt u n \<longleftrightarrow> (x = k \<and> n \<in> dset (c_idToPts c' ! m)) \<or> (x \<noteq> k \<and> x \<in> pp_revAt ?t n)"
          using pp_revD [OF t, of k n] ns(2) 2(5) d'(1,3) by (auto simp: u_def pp_insert_fold)
      qed
      moreover have "pp_rev u = pp_rev t" by (simp add: u_def pp_insert_fold)
      ultimately show ?thesis using eq 2(2,3,5) n' nk sub by (simp add: pp_inv_def)
    qed
  qed
qed

text \<open>Interning a set and joining it to \<open>k\<close>.\<close>

lemma pp_unionPtsSet_ok:
  assumes "pp_inv dinv dset s" "dinv d"
  shows "pp_result dinv dset s (\<not> dset d \<subseteq> pp_nodes dset s k)
    ((pp_nodes dset s)(k := pp_nodes dset s k \<union> dset d)) (pp_unionPtsSet so k d s)"
proof -
  obtain c t where s: "s = (c, t)" by (cases s)
  have inv: "pptc_inv dinv dset c" "pp_ok dset c t" using assms(1) by (simp_all add: s pp_inv_def)
  show ?thesis
  proof (cases rule: result_cases [OF emplacePts_ok [OF inv(1) assms(2)]])
    case 1
    then show ?thesis by (simp add: pp_result_def pp_unionPtsSet_def s ids_full_def)
  next
    case (2 j c')
    have t': "pp_ok dset c' t" by (rule pp_ok_extends [OF inv(2) 2(3)])
    have n': "pp_nodes dset (c', t) = pp_nodes dset (c, t)" by (rule pp_nodes_extends [OF inv(2) 2(3)])
    note u = unionFromId_ok [OF 2(2) t' 2(4), of k]
    show ?thesis
      using u 2(1,5) n' full_later [OF _ emplace_length [OF 2(1)]] extends_trans [OF 2(3)]
      by (cases "pp_unionPtsFromId so k j (c', t)") (simp_all add: pp_result_def pp_unionPtsSet_def s)
  qed
qed

lemma pp_addPts_ok:
  assumes "pp_inv dinv dset s" "node_ok n"
  shows "pp_result dinv dset s (n \<notin> pp_nodes dset s k)
    ((pp_nodes dset s)(k := insert n (pp_nodes dset s k))) (pp_addPts so k n s)"
proof -
  obtain d where d: "so_set so (so_new so) n = Some d" "dinv d" "dset d = {n}"
    using set_ok [OF new_ok(1) assms(2)] new_ok(2) by auto
  have "pp_addPts so k n s = pp_unionPtsSet so k d s" by (simp add: pp_addPts_def pp_unionPtsSet_def d(1))
  then show ?thesis using pp_unionPtsSet_ok [OF assms(1) d(2), of k] d(3) by simp
qed

lemma pp_unionPts_ok:
  assumes "pp_inv dinv dset s"
  shows "pp_result dinv dset s (\<not> pp_nodes dset s l \<subseteq> pp_nodes dset s k)
    ((pp_nodes dset s)(k := pp_nodes dset s k \<union> pp_nodes dset s l)) (pp_unionPts so k l s)"
proof -
  obtain c t where s: "s = (c, t)" by (cases s)
  have inv: "pptc_inv dinv dset c" "pp_ok dset c (pp_touch l t)" using assms(1) by (simp_all add: s pp_inv_def)
  have "pp_id t l < length (c_idToPts c)" using assms by (simp add: s pp_inv_def pp_ok_def)
  from unionFromId_ok [OF inv this, of k] show ?thesis
    by (cases "pp_unionPtsFromId so k (pp_id t l) (c, pp_touch l t)")
      (simp_all add: pp_result_def pp_unionPts_def s ids_full_def, simp_all add: pp_nodes_def)
qed

lemma pp_clearPts_ok:
  assumes "pp_inv dinv dset s" "node_ok n"
  shows "pp_result dinv dset s False ((pp_nodes dset s)(k := pp_nodes dset s k - {n}))
    (map_option (Pair False) (pp_clearPts so k n s))"
proof -
  obtain c t where s: "s = (c, t)" by (cases s)
  have inv: "pptc_inv dinv dset c" "pp_ok dset c t" using assms(1) by (simp_all add: s pp_inv_def)
  obtain d where d: "so_set so (so_new so) n = Some d" "dinv d" "dset d = {n}"
    using set_ok [OF new_ok(1) assms(2)] new_ok(2) by auto
  show ?thesis
  proof (cases rule: result_cases [OF emplacePts_ok [OF inv(1) d(2)]])
    case 1
    then show ?thesis by (simp add: pp_result_def pp_clearPts_def s d(1) ids_full_def)
  next
    case (2 j c')
    let ?i = "pp_id t k" and ?t = "pp_touch k t"
    have i: "?i < length (c_idToPts c')" using pp_ok_extends [OF inv(2) 2(3)] by (simp add: pp_ok_def)
    show ?thesis
    proof (cases rule: result_cases [OF complementPts_ok [OF 2(2) i 2(4)]])
      case 1
      then show ?thesis
        using 2(1) full_later [OF 1(2) emplace_length [OF 2(1)]] by (simp add: pp_result_def pp_clearPts_def s d(1))
    next
      case r: (2 m c'')
      have ext: "extends c c''" by (rule extends_trans [OF 2(3) r(3)])
      have t': "pp_ok dset c'' ?t" using pp_ok_extends [OF inv(2) ext] by simp
      have n': "pp_nodes dset (c'', ?t) = pp_nodes dset (c, t)" using pp_nodes_extends [OF inv(2) ext] by simp
      have i': "c_idToPts c'' ! ?i = c_idToPts c' ! ?i" "?i < length (c_idToPts c'')"
        using extends_nth [OF r(3) i] by simp_all
      have m: "dset (c_idToPts c'' ! m) = dset (c_idToPts c'' ! ?i) - {n}" using r(5) 2(5) d(3) i'(1) by simp
      have nk: "pp_nodes dset (c'', ?t) k = dset (c_idToPts c'' ! ?i)" by (simp add: pp_nodes_def)
      show ?thesis
      proof (cases "?i = m")
        case True
        then show ?thesis
          using 2(1) r(1,2) t' n' m nk ext
          by (auto simp: pp_result_def pp_clearPts_def s d(1) Let_def pp_inv_def fun_eq_iff)
      next
        case False
        let ?u = "pp_clearSingleRevPts n k (pp_put k m ?t)"
        have "pp_ok dset c'' ?u \<and> pp_nodes dset (c'', ?u) = (pp_nodes dset (c'', ?t))(k := dset (c_idToPts c'' ! m))"
        proof (rule pp_put_ok [OF t' r(4)])
          fix x q assume "pp_rev ?t"
          then show "x \<in> pp_revAt ?u q \<longleftrightarrow> (x = k \<and> q \<in> dset (c_idToPts c'' ! m)) \<or> (x \<noteq> k \<and> x \<in> pp_revAt ?t q)"
            using pp_revD [OF t', of k q] m by auto
        qed simp_all
        then show ?thesis
          using False 2(1) r(1,2) n' m nk ext by (simp add: pp_result_def pp_clearPts_def s d(1) Let_def pp_inv_def)
      qed
    qed
  qed
qed

lemma pp_clearFullPts_ok:
  assumes "pp_inv dinv dset s"
  shows "pp_result dinv dset s False ((pp_nodes dset s)(k := {})) (map_option (Pair False) (pp_clearFullPts so k s))"
proof -
  obtain c t where s: "s = (c, t)" by (cases s)
  have inv: "pptc_inv dinv dset c" and t: "pp_ok dset c t" using assms(1) by (simp_all add: s pp_inv_def)
  let ?i = "pp_id t k" and ?t = "pp_touch k t"
  have i: "?i < length (c_idToPts c)" using t by (simp add: pp_ok_def)
  obtain ns where ns: "so_elems so (c_idToPts c ! ?i) = Some ns" "set ns = dset (c_idToPts c ! ?i)"
    using elems_ok [OF ids_dinv [OF inv i]] by blast
  define u where "u = (if pp_rev t then foldl (\<lambda>t n. pp_clearSingleRevPts n k t) ?t ns else ?t)"
  have eq: "pp_clearFullPts so k s = Some (c, pp_put k 0 u)"
    using ns(1) i by (simp add: pp_clearFullPts_def pp_getPts_def pp_clearRevPts_def getActualPts_def s u_def emptyPointsToId_def)
  have z: "0 < length (c_idToPts c)" "dset (c_idToPts c ! 0) = {}" using inv by (simp_all add: pptc_inv_def core_inv_def)
  have t': "pp_ok dset c ?t" using t by simp
  have "pp_ok dset c (pp_put k 0 u) \<and> pp_nodes dset (c, pp_put k 0 u) = (pp_nodes dset (c, ?t))(k := dset (c_idToPts c ! 0))"
  proof (rule pp_put_ok [OF t' z(1)])
    show "pp_id (pp_put k 0 u) x = (if x = k then 0 else pp_id ?t x)" for x by (simp add: u_def pp_clear_fold)
    show "pp_rev (pp_put k 0 u) = pp_rev ?t" by (simp add: u_def pp_clear_fold)
    fix x n assume "pp_rev ?t"
    then show "x \<in> pp_revAt (pp_put k 0 u) n \<longleftrightarrow> (x = k \<and> n \<in> dset (c_idToPts c ! 0)) \<or> (x \<noteq> k \<and> x \<in> pp_revAt ?t n)"
      using pp_revD [OF t, of k n] ns(2) z(2) by (auto simp: u_def pp_clear_fold)
  qed
  moreover have "pp_rev u = pp_rev t" by (simp add: u_def pp_clear_fold)
  ultimately show ?thesis using eq inv z(2) by (simp add: pp_result_def pp_inv_def s)
qed

end

section \<open>The contract\<close>

text \<open>The commands of a table on \<open>PersistentPTData\<close>.\<close>

fun pp_step :: "'d set_ops \<Rightarrow> ('k, 'd) pts_cmd \<Rightarrow> ('k, 'd) pers_st \<Rightarrow> (bool \<times> ('k, 'd) pers_st) option" where
  "pp_step so (AddPts k n) s = pp_addPts so k n s"
| "pp_step so (UnionPts k l) s = pp_unionPts so k l s"
| "pp_step so (UnionPtsSet k d) s = pp_unionPtsSet so k d s"
| "pp_step so (ClearPts k n) s = map_option (Pair False) (pp_clearPts so k n s)"
| "pp_step so (ClearFullPts k) s = map_option (Pair False) (pp_clearFullPts so k s)"

definition pd_inv :: "('d \<Rightarrow> bool) \<Rightarrow> ('d \<Rightarrow> nat set) \<Rightarrow> ('k, 'd) pdiff_st \<Rightarrow> bool" where
  "pd_inv dinv dset s = (pp_inv dinv dset (fst s, pd_pts (snd s))
    \<and> (\<forall>k. at_get 0 (pd_diff (snd s)) k < length (c_idToPts (fst s)))
    \<and> (\<forall>k. at_get 0 (pd_propa (snd s)) k < length (c_idToPts (fst s))))"

definition pd_diffs :: "('d \<Rightarrow> nat set) \<Rightarrow> ('k, 'd) pdiff_st \<Rightarrow> 'k \<Rightarrow> nat set" where
  "pd_diffs dset s k = dset (c_idToPts (fst s) ! at_get 0 (pd_diff (snd s)) k)"

definition pd_propas :: "('d \<Rightarrow> nat set) \<Rightarrow> ('k, 'd) pdiff_st \<Rightarrow> 'k \<Rightarrow> nat set" where
  "pd_propas dset s k = dset (c_idToPts (fst s) ! at_get 0 (pd_propa (snd s)) k)"

text \<open>The cache may have grown.\<close>

lemma pd_extends:
  assumes "pd_inv dinv dset (c, t)" "pptc_inv dinv dset c'" "extends c c'"
  shows "pd_inv dinv dset (c', t)" "pd_diffs dset (c', t) = pd_diffs dset (c, t)"
    "pd_propas dset (c', t) = pd_propas dset (c, t)"
proof -
  have n: "i < length (c_idToPts c) \<Longrightarrow> i < length (c_idToPts c') \<and> c_idToPts c' ! i = c_idToPts c ! i" for i
    using extends_nth [OF assms(3)] by blast
  have "pp_ok dset c' (pd_pts t)"
    using assms(1) pp_ok_extends [OF _ assms(3), of dset "pd_pts t"] by (simp add: pd_inv_def pp_inv_def)
  then show "pd_inv dinv dset (c', t)" using assms(1,2) n by (simp add: pd_inv_def pp_inv_def)
  show "pd_diffs dset (c', t) = pd_diffs dset (c, t)" "pd_propas dset (c', t) = pd_propas dset (c, t)"
    using assms(1) n by (simp_all add: pd_inv_def pd_diffs_def pd_propas_def fun_eq_iff)
qed

context pts_sets begin

lemma pp_step_ok:
  assumes "pp_inv dinv dset s" "cmd_ok dinv c"
  shows "pp_result dinv dset s (fst (spec_step dset c (pp_nodes dset s)))
    (snd (spec_step dset c (pp_nodes dset s))) (pp_step so c s)"
  using assms pp_addPts_ok pp_unionPts_ok pp_unionPtsSet_ok pp_clearPts_ok pp_clearFullPts_ok
  by (cases c) simp_all

lemma pp_table: "pts_table (pp_step so :: ('k, 'd) pts_cmd \<Rightarrow> _) dset dinv (pp_inv dinv dset)
  (\<lambda>_ s. ids_full (fst s)) (pp_nodes dset) (\<lambda>s. pp_rev (snd s)) (\<lambda>s. pp_revAt (snd s))"
proof
  fix s :: "('k, 'd) pers_st" and c :: "('k, 'd) pts_cmd" and b s'
  assume a: "pp_inv dinv dset s" "cmd_ok dinv c"
  note r = pp_step_ok [OF a]
  show "ids_full (fst s)" if "pp_step so c s = None" using r that by (simp add: pp_result_def)
  assume "pp_step so c s = Some (b, s')"
  then show "pp_inv dinv dset s' \<and> (b, pp_nodes dset s') = spec_step dset c (pp_nodes dset s)"
    "pp_rev (snd s') = pp_rev (snd s)"
    using r by (simp_all add: pp_result_def)
next
  fix s :: "('k, 'd) pers_st" and k n
  assume "pp_inv dinv dset s" "pp_rev (snd s)"
  then show "k \<in> pp_revAt (snd s) n \<longleftrightarrow> n \<in> pp_nodes dset s k"
    by (simp add: pp_inv_def pp_nodes_def pp_ok_def)
qed

lemma pd_compute_ok:
  assumes "pd_inv dinv dset s" "dinv d"
  shows "case pd_computeDiffPts so k d s of None \<Rightarrow> ids_full (fst s)
    | Some (b, t) \<Rightarrow> b = (\<not> dset d \<subseteq> pd_propas dset s k) \<and> pd_inv dinv dset t
        \<and> pd_diffs dset t = (pd_diffs dset s)(k := dset d - pd_propas dset s k)
        \<and> pd_propas dset t = (pd_propas dset s)(k := dset d)"
proof -
  obtain c t where s: "s = (c, t)" by (cases s)
  have inv: "pptc_inv dinv dset c" using assms(1) by (simp add: s pd_inv_def pp_inv_def)
  let ?i = "at_get 0 (pd_propa t) k"
  show ?thesis
  proof (cases rule: result_cases [OF emplacePts_ok [OF inv assms(2)]])
    case 1
    then show ?thesis by (simp add: pd_computeDiffPts_def s ids_full_def)
  next
    case (2 j c')
    note e = pd_extends [OF assms(1) [unfolded s] 2(2,3)]
    have i: "?i < length (c_idToPts c')" using e(1) by (simp add: pd_inv_def)
    show ?thesis
    proof (cases rule: result_cases [OF complementPts_ok [OF 2(2,4) i]])
      case 1
      then show ?thesis
        using 2(1) full_later [OF 1(2) emplace_length [OF 2(1)]] by (simp add: pd_computeDiffPts_def s)
    next
      case r: (2 m c'')
      note e' = pd_extends [OF e(1) r(2,3)]
      have j: "c_idToPts c'' ! j = c_idToPts c' ! j" "j < length (c_idToPts c'')"
        using extends_nth [OF r(3) 2(4)] by blast+
      have p: "dset (c_idToPts c' ! ?i) = pd_propas dset s k" using e(3) s by (simp add: pd_propas_def fun_eq_iff)
      have z: "0 < length (c_idToPts c'')" "dset (c_idToPts c'' ! 0) = {}"
        using r(2) by (simp_all add: pptc_inv_def core_inv_def)
      have m: "m = 0 \<longleftrightarrow> dset d \<subseteq> pd_propas dset s k"
        using ids_eq [OF r(2) r(4) z(1)] r(5) 2(5) p z(2) by auto
      let ?u = "t\<lparr>pd_diff := at_put k m (pd_diff t), pd_propa := at_put k j (at_touch 0 k (pd_propa t))\<rparr>"
      have eq: "pd_computeDiffPts so k d s = Some (m \<noteq> 0, (c'', ?u))"
        using 2(1) r(1) by (simp add: pd_computeDiffPts_def s emptyPointsToId_def)
      have "pd_inv dinv dset (c'', ?u)" using e'(1) r(4) j(2) by (simp add: pd_inv_def)
      moreover have "pd_diffs dset (c'', ?u) = (pd_diffs dset (c'', t))(k := dset (c_idToPts c'' ! m))"
        "pd_propas dset (c'', ?u) = (pd_propas dset (c'', t))(k := dset (c_idToPts c'' ! j))"
        by (simp_all add: pd_diffs_def pd_propas_def fun_eq_iff)
      moreover have "pd_diffs dset (c'', t) = pd_diffs dset s" "pd_propas dset (c'', t) = pd_propas dset s"
        using e(2,3) e'(2,3) by (simp_all add: s)
      ultimately show ?thesis using eq m r(5) j(1) 2(5) p by simp
    qed
  qed
qed

lemma pd_upd_ok:
  assumes "pd_inv dinv dset s"
  shows "case pd_updatePropaPtsMap so l k s of None \<Rightarrow> ids_full (fst s)
    | Some t \<Rightarrow> pd_inv dinv dset t \<and> pd_diffs dset t = pd_diffs dset s
        \<and> pd_propas dset t = (pd_propas dset s)(k := pd_propas dset s k \<inter> pd_propas dset s l)"
proof -
  obtain c t where s: "s = (c, t)" by (cases s)
  have inv: "pptc_inv dinv dset c" using assms(1) by (simp add: s pd_inv_def pp_inv_def)
  have i: "at_get 0 (pd_propa t) x < length (c_idToPts c)" for x using assms(1) by (simp add: s pd_inv_def)
  show ?thesis
  proof (cases rule: result_cases [OF intersectPts_ok [OF inv i i, of k l]])
    case 1
    then show ?thesis by (simp add: pd_updatePropaPtsMap_def s ids_full_def)
  next
    case (2 m c')
    note e = pd_extends [OF assms [unfolded s] 2(2,3)]
    show ?thesis
      using 2(1,4,5) e by (auto simp: pd_updatePropaPtsMap_def s pd_inv_def pd_diffs_def pd_propas_def fun_eq_iff)
  qed
qed

lemma pd_table: "diff_table (pd_computeDiffPts so :: 'k \<Rightarrow> _) (pd_updatePropaPtsMap so) pd_clearPropaPts dset dinv
  (pd_inv dinv dset) (\<lambda>s. ids_full (fst s)) (pd_diffs dset) (pd_propas dset)"
proof
  fix s :: "('k, 'd) pdiff_st" and k l d b s'
  assume s: "pd_inv dinv dset s"
  show "ids_full (fst s)" if "dinv d" "pd_computeDiffPts so k d s = None"
    using pd_compute_ok [OF s that(1), of k] that(2) by simp
  show "pd_inv dinv dset s' \<and> b = (\<not> dset d \<subseteq> pd_propas dset s k)
      \<and> pd_diffs dset s' = (pd_diffs dset s)(k := dset d - pd_propas dset s k)
      \<and> pd_propas dset s' = (pd_propas dset s)(k := dset d)"
    if "dinv d" "pd_computeDiffPts so k d s = Some (b, s')"
    using pd_compute_ok [OF s that(1), of k] that(2) by simp
  show "ids_full (fst s)" if "pd_updatePropaPtsMap so l k s = None"
    using pd_upd_ok [OF s, of k l] that by simp
  show "pd_inv dinv dset s' \<and> pd_diffs dset s' = pd_diffs dset s
      \<and> pd_propas dset s' = (pd_propas dset s)(k := pd_propas dset s k \<inter> pd_propas dset s l)"
    if "pd_updatePropaPtsMap so l k s = Some s'"
    using pd_upd_ok [OF s, of k l] that by simp
  have "0 < length (c_idToPts (fst s)) \<and> dset (c_idToPts (fst s) ! 0) = {}"
    using s by (simp add: pd_inv_def pp_inv_def pptc_inv_def core_inv_def)
  then show "pd_inv dinv dset (pd_clearPropaPts k s) \<and> pd_diffs dset (pd_clearPropaPts k s) = pd_diffs dset s
      \<and> pd_propas dset (pd_clearPropaPts k s) = (pd_propas dset s)(k := {})"
    using s by (auto simp: pd_clearPropaPts_def emptyPointsToId_def pd_inv_def pd_diffs_def pd_propas_def fun_eq_iff)
qed

end

interpretation ppt: pts_table "pp_step (pt_set_ops sbv_config)" pt_nodes "pt_plain SBV"
  "pp_inv (pt_plain SBV) pt_nodes" "\<lambda>_ s. ids_full (fst s)" "pp_nodes pt_nodes" "\<lambda>s. pp_rev (snd s)" "\<lambda>s. pp_revAt (snd s)"
  by (rule sbv_sets.pp_table)

interpretation pdt: diff_table "pd_computeDiffPts (pt_set_ops sbv_config)" "pd_updatePropaPtsMap (pt_set_ops sbv_config)"
  pd_clearPropaPts pt_nodes "pt_plain SBV" "pd_inv (pt_plain SBV) pt_nodes" "\<lambda>s. ids_full (fst s)"
  "pd_diffs pt_nodes" "pd_propas pt_nodes"
  by (rule sbv_sets.pd_table)

text \<open>The mutable and the persistent table, over the same commands.\<close>

interpretation both: two_refine "mp_step (pt_set_ops sbv_config)" "spec_step pt_nodes" "cmd_ok (pt_plain SBV)"
  "mp_inv (pt_plain SBV) pt_nodes (pt_set_ops sbv_config)" "\<lambda>_ _. False" "mp_nodes pt_nodes (pt_set_ops sbv_config)"
  "pp_step (pt_set_ops sbv_config)" "pp_inv (pt_plain SBV) pt_nodes" "\<lambda>_ s. ids_full (fst s)" "pp_nodes pt_nodes"
  by (intro two_refine.intro mpt.refines_axioms ppt.refines_axioms)

section \<open>Properties\<close>

text \<open>The first cache: one id, for the empty set.\<close>

lemma sbv_cache:
  obtains c where "pptc_new (pt_ops sbv_config) = Some c" "pptc_inv (pt_plain SBV) pt_nodes c"
    "c_idToPts c = [do_new (pt_ops sbv_config)]"
  using sbv_pts.pptc_new_ok by blast

lemma pers_start:
  assumes "pptc_inv (pt_plain SBV) pt_nodes c"
  shows "pp_inv (pt_plain SBV) pt_nodes (c, pp_make r :: 'k pers_pts)" "pp_nodes pt_nodes (c, pp_make r :: 'k pers_pts) = (\<lambda>_. {})"
proof -
  have "pp_ok pt_nodes c (pp_make r :: 'k pers_pts) \<and> pp_nodes pt_nodes (c, pp_make r :: 'k pers_pts) = (\<lambda>_. {})"
    by (rule pp_make_ok [of "pt_plain SBV"]) (use assms in \<open>simp add: pptc_inv_def\<close>)
  then show "pp_inv (pt_plain SBV) pt_nodes (c, pp_make r :: 'k pers_pts)"
    "pp_nodes pt_nodes (c, pp_make r :: 'k pers_pts) = (\<lambda>_. {})"
    using assms by (simp_all add: pp_inv_def)
qed

lemma mut_start:
  "mp_inv (pt_plain SBV) pt_nodes (pt_set_ops sbv_config) (mp_make r)"
  "mp_nodes pt_nodes (pt_set_ops sbv_config) (mp_make r) = (\<lambda>_. {})"
  using sbv_sets.new_ok mp_make_inv [of "pt_plain SBV" "pt_set_ops sbv_config" pt_nodes r]
  by (simp_all add: mp_nodes_def mp_at_def mp_make_def fun_eq_iff)

lemma mutable_run:
  assumes "\<forall>c\<in>set cs. cmd_ok (pt_plain SBV) c"
  shows "\<exists>s. run_cmds (mp_step (pt_set_ops sbv_config)) cs (mp_make r)
        = Some (fst (spec_run (spec_step pt_nodes) cs (\<lambda>_. {})), s)
      \<and> mp_nodes pt_nodes (pt_set_ops sbv_config) s = snd (spec_run (spec_step pt_nodes) cs (\<lambda>_. {}))
      \<and> mp_rev s = r
      \<and> (r \<longrightarrow> (\<forall>k n. k \<in> mp_revAt s n \<longleftrightarrow> n \<in> snd (spec_run (spec_step pt_nodes) cs (\<lambda>_. {})) k))"
proof -
  obtain s where s: "run_cmds (mp_step (pt_set_ops sbv_config)) cs (mp_make r)
      = Some (fst (spec_run (spec_step pt_nodes) cs (\<lambda>_. {})), s)"
    "mp_inv (pt_plain SBV) pt_nodes (pt_set_ops sbv_config) s"
    "mp_nodes pt_nodes (pt_set_ops sbv_config) s = snd (spec_run (spec_step pt_nodes) cs (\<lambda>_. {}))"
    by (rule mpt.run_total [OF _ mut_start(1) assms]) (simp_all add: mut_start(2))
  have "mp_rev s = r" using mpt.run_rev [OF mut_start(1) assms s(1)] by (simp add: mp_make_def)
  then show ?thesis using s mpt.rev_iff [OF s(2)] by auto
qed

text \<open>C8: For points-to sets that are sparse bit vectors (the default) without a node mapping, the
  mutable points-to table implements the table of sets. Any sequence of \<open>addPts\<close>,
  \<open>unionPts\<close>, \<open>clearPts\<close> and \<open>clearFullPts\<close> from an empty table returns, never fails, returns the
  changed flags and leaves the sets that the same operations have on functions from keys to sets; and
  with reverse points-to sets, a key is in the reverse set of a node exactly if the node is in the set
  of the key. With core bit vectors the flags are not exact: the union of a set with zero words into
  a fresh key returns true although nothing changes.\<close>

theorem mutable_table_correct:
  assumes "\<forall>c\<in>set cs. cmd_ok (pt_plain SBV) c"
  shows "\<exists>s. run_cmds (mp_step (pt_set_ops sbv_config)) cs (mp_make r)
        = Some (fst (spec_run (spec_step pt_nodes) cs (\<lambda>_. {})), s)
      \<and> mp_nodes pt_nodes (pt_set_ops sbv_config) s = snd (spec_run (spec_step pt_nodes) cs (\<lambda>_. {}))
      \<and> mp_rev s = r
      \<and> (r \<longrightarrow> (\<forall>k n. k \<in> mp_revAt s n \<longleftrightarrow> n \<in> snd (spec_run (spec_step pt_nodes) cs (\<lambda>_. {})) k))"
  by (rule mutable_run [OF assms])

lemma mutable_table_witness:
  "\<exists>s. run_cmds (mp_step (pt_set_ops sbv_config))
      [AddPts (1::nat) 7, UnionPts 2 1, AddPts 2 7, ClearPts 1 7] (mp_make True) = Some ([True, True, False, False], s)
    \<and> mp_nodes pt_nodes (pt_set_ops sbv_config) s 1 = {} \<and> mp_nodes pt_nodes (pt_set_ops sbv_config) s 2 = {7}
    \<and> (\<forall>k. k \<in> mp_revAt s 7 \<longleftrightarrow> k = 2)"
proof -
  let ?cs = "[AddPts (1::nat) 7, UnionPts 2 1, AddPts 2 7, ClearPts 1 7] :: (nat, points_to) pts_cmd list"
  have ok: "\<forall>c\<in>set ?cs. cmd_ok (pt_plain SBV) c" by (simp add: node_ok_def)
  show ?thesis using mutable_table_correct [OF ok, of True] by (auto simp: Let_def)
qed

text \<open>C7: For points-to sets that are sparse bit vectors (the default) without a node mapping, the
  persistent points-to table refines the mutable one. From empty tables and a new cache, the same
  operations return the same flags, and leave the same sets and the same reverse sets; only the
  persistent table may fail, and then before one of the operations its cache has at most one id
  left of the \<open>2^32\<close>. With core bit vectors the flags can differ: the same set with and without a
  trailing zero word has two ids, and a union of the two counts as a change in the persistent table.\<close>

theorem persistent_table_refines:
  assumes "pptc_new (pt_ops sbv_config) = Some c" "\<forall>c\<in>set cs. cmd_ok (pt_plain SBV) c"
  shows "case run_cmds (pp_step (pt_set_ops sbv_config)) cs (c, pp_make r) of
      None \<Rightarrow> (\<exists>n bs t. n < length cs
        \<and> run_cmds (pp_step (pt_set_ops sbv_config)) (take n cs) (c, pp_make r) = Some (bs, t) \<and> ids_full (fst t))
    | Some (bs, t) \<Rightarrow> (\<exists>s. run_cmds (mp_step (pt_set_ops sbv_config)) cs (mp_make r) = Some (bs, s)
        \<and> pp_nodes pt_nodes t = mp_nodes pt_nodes (pt_set_ops sbv_config) s
        \<and> (r \<longrightarrow> (\<forall>k n. k \<in> pp_revAt (snd t) n \<longleftrightarrow> k \<in> mp_revAt s n)))"
proof -
  have c: "pptc_inv (pt_plain SBV) pt_nodes c" using sbv_cache assms(1) by (metis option.inject)
  note st = pers_start [OF c, of r]
  show ?thesis
  proof (cases "run_cmds (pp_step (pt_set_ops sbv_config)) cs (c, pp_make r)")
    case None
    then show ?thesis using ppt.run_None [OF st(1) assms(2)] by simp
  next
    case (Some q)
    then obtain bs t where q: "run_cmds (pp_step (pt_set_ops sbv_config)) cs (c, pp_make r) = Some (bs, t)"
      by (cases q) simp
    obtain bs' s where s: "run_cmds (mp_step (pt_set_ops sbv_config)) cs (mp_make r) = Some (bs', s)"
      using mpt.run_None [OF mut_start(1) assms(2), of r] by (cases "run_cmds (mp_step (pt_set_ops sbv_config)) cs (mp_make r)") auto
    note ag = both.runs_agree [OF mut_start(1) st(1) _ assms(2) s q]
    have ag': "bs' = bs" "mp_nodes pt_nodes (pt_set_ops sbv_config) s = pp_nodes pt_nodes t"
      "mp_inv (pt_plain SBV) pt_nodes (pt_set_ops sbv_config) s" "pp_inv (pt_plain SBV) pt_nodes t"
      using ag by (simp_all add: mut_start(2) st(2))
    have "mp_rev s = r" "pp_rev (snd t) = r"
      using mpt.run_rev [OF mut_start(1) assms(2) s] ppt.run_rev [OF st(1) assms(2) q]
      by (simp_all add: mp_make_def pp_make_def)
    then show ?thesis using q s ag' mpt.rev_iff [OF ag'(3)] ppt.rev_iff [OF ag'(4)] by simp
  qed
qed

lemma persistent_table_witness:
  "\<exists>c. pptc_new (pt_ops sbv_config) = Some c \<and>
    (case run_cmds (pp_step (pt_set_ops sbv_config)) [AddPts (1::nat) 7, UnionPts 2 1] (c, pp_make True) of
      None \<Rightarrow> (\<exists>n bs t. n < 2
        \<and> run_cmds (pp_step (pt_set_ops sbv_config)) (take n [AddPts (1::nat) 7, UnionPts 2 1]) (c, pp_make True) = Some (bs, t)
        \<and> ids_full (fst t))
    | Some (bs, t) \<Rightarrow> pp_nodes pt_nodes t 2 = {7} \<and> (\<forall>k. k \<in> pp_revAt (snd t) 7 \<longleftrightarrow> k = 1 \<or> k = 2))"
proof -
  let ?cs = "[AddPts (1::nat) 7, UnionPts 2 1] :: (nat, points_to) pts_cmd list"
  obtain c where c: "pptc_new (pt_ops sbv_config) = Some c" by (rule sbv_cache)
  have ok: "\<forall>c\<in>set ?cs. cmd_ok (pt_plain SBV) c" by (simp add: node_ok_def)
  note r = persistent_table_refines [OF c ok, of True]
  obtain s where s: "run_cmds (mp_step (pt_set_ops sbv_config)) ?cs (mp_make True) = Some ([True, True], s)"
    "mp_nodes pt_nodes (pt_set_ops sbv_config) s 2 = {7}" "\<forall>k. k \<in> mp_revAt s 7 \<longleftrightarrow> k = 1 \<or> k = 2"
    using mutable_run [OF ok, of True] by (auto simp: Let_def)
  show ?thesis
  proof (cases "run_cmds (pp_step (pt_set_ops sbv_config)) ?cs (c, pp_make True)")
    case None
    then show ?thesis using r c by (simp add: numeral_2_eq_2)
  next
    case (Some q)
    then show ?thesis using r c s by (cases q) simp
  qed
qed

lemma md_start:
  "md_inv (pt_plain SBV) pt_nodes (pt_set_ops sbv_config) (md_make r)"
  "md_propas pt_nodes (pt_set_ops sbv_config) (md_make r) k = {}"
  using mut_start(1) sbv_sets.new_ok by (simp_all add: md_inv_def md_propas_def md_make_def)

lemma pd_start:
  assumes "pptc_inv (pt_plain SBV) pt_nodes c" "c_idToPts c = [do_new (pt_ops sbv_config)]"
  shows "pd_inv (pt_plain SBV) pt_nodes (c, pd_make r)" "pd_propas pt_nodes (c, pd_make r) k = {}"
  using pers_start(1) [OF assms(1)] assms(2) sbv_sets.new_ok(2)
  by (simp_all add: pd_inv_def pd_propas_def pd_make_def pt_set_ops_def)

text \<open>C28: Difference propagation of sparse bit vectors without a node mapping delivers every element once. For a growing sequence of points-to
  sets of a variable, the differences that \<open>computeDiffPts\<close> of the mutable table yields do not overlap
  and their union is the last set; no call fails. The persistent table yields the same differences,
  unless its cache runs out of ids.\<close>

theorem diff_propagation_exact:
  assumes "\<forall>d\<in>set ds. pt_plain SBV d" "sorted_wrt (\<lambda>a b. pt_nodes a \<subseteq> pt_nodes b) ds" "ds \<noteq> []"
    and "pptc_new (pt_ops sbv_config) = Some c"
  shows "\<exists>xs s. deliver (md_computeDiffPts (pt_set_ops sbv_config)) (md_diffs pt_nodes (pt_set_ops sbv_config)) k ds
        (md_make r) = Some (xs, s)
      \<and> length xs = length ds \<and> \<Union> (set xs) = pt_nodes (last ds)
      \<and> (\<forall>i j. i < j \<longrightarrow> j < length xs \<longrightarrow> xs ! i \<inter> xs ! j = {})
      \<and> (case deliver (pd_computeDiffPts (pt_set_ops sbv_config)) (pd_diffs pt_nodes) k ds (c, pd_make r) of
          None \<Rightarrow> \<exists>n ys t. n < length ds \<and> ids_full (fst t)
            \<and> deliver (pd_computeDiffPts (pt_set_ops sbv_config)) (pd_diffs pt_nodes) k (take n ds) (c, pd_make r) = Some (ys, t)
        | Some (ys, t) \<Rightarrow> ys = xs)"
proof -
  let ?Xs = "map pt_nodes ds" and ?D = "deliver (md_computeDiffPts (pt_set_ops sbv_config))
    (md_diffs pt_nodes (pt_set_ops sbv_config)) k ds (md_make r)"
  have c: "pptc_inv (pt_plain SBV) pt_nodes c" "c_idToPts c = [do_new (pt_ops sbv_config)]"
    using sbv_cache assms(4) by (metis option.inject)+
  have so: "sorted_wrt (\<subseteq>) ({} # ?Xs)" using assms(2) by (simp add: sorted_wrt_map)
  obtain xs s where s: "?D = Some (xs, s)"
    using mdt.deliver_None [OF md_start(1) assms(1), of k r] by (cases ?D) auto
  have xs: "xs = deltas {} ?Xs" using mdt.deliver_Some [OF md_start(1) assms(1) s] by (simp add: md_start(2))
  have "\<Union> (set xs) = pt_nodes (last ds)" using deltas_Union [OF so] assms(3) by (simp add: xs last_map)
  moreover have "\<forall>i j. i < j \<longrightarrow> j < length xs \<longrightarrow> xs ! i \<inter> xs ! j = {}"
    using deltas_disjoint [OF so] by (simp add: xs)
  moreover have "case deliver (pd_computeDiffPts (pt_set_ops sbv_config)) (pd_diffs pt_nodes) k ds (c, pd_make r) of
          None \<Rightarrow> \<exists>n ys t. n < length ds \<and> ids_full (fst t)
            \<and> deliver (pd_computeDiffPts (pt_set_ops sbv_config)) (pd_diffs pt_nodes) k (take n ds) (c, pd_make r) = Some (ys, t)
        | Some (ys, t) \<Rightarrow> ys = xs"
    using pdt.deliver_None [OF pd_start(1) [OF c] assms(1), of k r]
      pdt.deliver_Some [OF pd_start(1) [OF c] assms(1), of k r] pd_start(2) [OF c, of r k]
    by (auto simp: xs split: option.split)
  moreover have "length xs = length ds" by (simp add: xs)
  ultimately show ?thesis using s by (intro exI conjI)
qed

lemma diff_propagation_witness:
  "\<exists>c d e xs s. pptc_new (pt_ops sbv_config) = Some c \<and> pt_nodes d = {3} \<and> pt_nodes e = {3, 5}
    \<and> deliver (md_computeDiffPts (pt_set_ops sbv_config)) (md_diffs pt_nodes (pt_set_ops sbv_config)) (1::nat) [d, d, e]
        (md_make True) = Some (xs, s) \<and> \<Union> (set xs) = {3, 5}"
proof -
  obtain c where c: "pptc_new (pt_ops sbv_config) = Some c" by (rule sbv_cache)
  obtain d where d: "pt_plain SBV d" "pt_nodes d = {3}"
    using sbv_sets.set_ok [OF sbv_sets.new_ok(1), of 3] by (auto simp: node_ok_def sbv_sets.new_ok(2))
  obtain e where e: "pt_plain SBV e" "pt_nodes e = {3, 5}"
    using sbv_sets.set_ok [OF d(1), of 5] by (auto simp: node_ok_def d(2))
  have "\<forall>x\<in>set [d, d, e]. pt_plain SBV x" "sorted_wrt (\<lambda>a b. pt_nodes a \<subseteq> pt_nodes b) [d, d, e]" "[d, d, e] \<noteq> []"
    using d e by simp_all
  from diff_propagation_exact [OF this c, of "1::nat" True] show ?thesis using c d(2) e(2)
    by (elim exE conjE) (rule exI [of _ c], rule exI [of _ d], rule exI [of _ e], simp)
qed

text \<open>\<open>clear\<close> of the mutable table with difference propagation keeps what was propagated: after
  \<open>clear\<close>, computing the difference of the set that was propagated before yields the empty set and
  the flag that nothing is new. The persistent table yields the whole set.\<close>

theorem clear_keeps_propagated:
  assumes "pt_plain SBV d" "pt_nodes d \<noteq> {}"
    and "md_inv (pt_plain SBV) pt_nodes (pt_set_ops sbv_config) s" "pd_inv (pt_plain SBV) pt_nodes (c, t)"
  shows "\<exists>b s1 s2. md_computeDiffPts (pt_set_ops sbv_config) k d s = Some (b, s1)
      \<and> md_computeDiffPts (pt_set_ops sbv_config) k d (md_clear s1) = Some (False, s2)
      \<and> md_diffs pt_nodes (pt_set_ops sbv_config) s2 k = {}
      \<and> (case pd_computeDiffPts (pt_set_ops sbv_config) k d (c, pd_clear t) of None \<Rightarrow> ids_full c
         | Some (f, u) \<Rightarrow> f \<and> pd_diffs pt_nodes u k = pt_nodes d)"
proof -
  obtain b s1 where s1: "md_computeDiffPts (pt_set_ops sbv_config) k d s = Some (b, s1)"
    "md_inv (pt_plain SBV) pt_nodes (pt_set_ops sbv_config) s1"
    "md_propas pt_nodes (pt_set_ops sbv_config) s1 k = pt_nodes d"
    using sbv_sets.md_compute_ok [OF assms(3,1), of k] by auto
  have cl: "md_inv (pt_plain SBV) pt_nodes (pt_set_ops sbv_config) (md_clear s1)"
    "md_propas pt_nodes (pt_set_ops sbv_config) (md_clear s1) = md_propas pt_nodes (pt_set_ops sbv_config) s1"
    using s1(2) mp_clear_inv sbv_sets.new_ok by (auto simp: md_inv_def md_clear_def md_propas_def fun_eq_iff)
  obtain s2 where s2: "md_computeDiffPts (pt_set_ops sbv_config) k d (md_clear s1) = Some (False, s2)"
    "md_diffs pt_nodes (pt_set_ops sbv_config) s2 k = {}"
    using sbv_sets.md_compute_ok [OF cl(1) assms(1), of k] by (auto simp: cl(2) s1(3))
  have z: "pptc_inv (pt_plain SBV) pt_nodes c" using assms(4) by (simp add: pd_inv_def pp_inv_def)
  then have z0: "0 < length (c_idToPts c)" "pt_nodes (c_idToPts c ! 0) = {}" by (simp_all add: pptc_inv_def core_inv_def)
  have "pp_ok pt_nodes c (pp_clear (pd_pts t))"
    using pp_clear_ok [of "pt_plain SBV" pt_nodes c "pd_pts t"] z by (simp add: pptc_inv_def)
  then have p: "pd_inv (pt_plain SBV) pt_nodes (c, pd_clear t)" "pd_propas pt_nodes (c, pd_clear t) k = {}"
    using z z0 by (simp_all add: pd_inv_def pp_inv_def pd_clear_def pd_propas_def)
  show ?thesis
    using s1(1) s2 sbv_sets.pd_compute_ok [OF p(1) assms(1), of k] assms(2) p(2)
    by (auto split: option.splits)
qed

lemma clear_keeps_witness:
  "\<exists>d b s1 s2. pt_nodes d = {3} \<and> md_computeDiffPts (pt_set_ops sbv_config) (1::nat) d (md_make True) = Some (b, s1)
    \<and> md_computeDiffPts (pt_set_ops sbv_config) 1 d (md_clear s1) = Some (False, s2)
    \<and> md_diffs pt_nodes (pt_set_ops sbv_config) s2 1 = {}"
proof -
  obtain c where c: "pptc_inv (pt_plain SBV) pt_nodes c" "c_idToPts c = [do_new (pt_ops sbv_config)]" by (rule sbv_cache)
  obtain d where d: "pt_plain SBV d" "pt_nodes d = {3}"
    using sbv_sets.set_ok [OF sbv_sets.new_ok(1), of 3] by (auto simp: node_ok_def sbv_sets.new_ok(2))
  have ne: "pt_nodes d \<noteq> {}" using d(2) by simp
  from clear_keeps_propagated [OF d(1) ne md_start(1) pd_start(1) [OF c, where r = True], of "1::nat" True]
  show ?thesis using d(2) by blast
qed

end
