(* ===== verification/DfTables.thy ===== *)
theory DfTables
  imports PersistentPts
begin

text \<open>
  The interface of the data-flow tables (\<open>DFPTData\<close> of
  \<open>svf/include/MemoryModel/AbstractPointsToDS.h\<close>): points-to sets of address-taken variables in the
  IN and OUT sets of program locations, and of top-level variables. The tables differ from their
  incremental versions, which propagate only from variables whose set has changed since the last
  propagation.

  The specification of both is a step function on cells (\<open>df_spec\<close>), for the incremental one with
  the changed variables of each location (\<open>inc_spec\<close>). The lemmas at the end compare the two.
\<close>

section \<open>Commands\<close>

datatype 'k df_cell = DfIn nat 'k | DfOut nat 'k | Top 'k

datatype ('k, 'd) df_cmd = DfBase "('k, 'd) pts_cmd"
  | InFromIn nat 'k nat 'k | InFromOut nat 'k nat 'k | OutFromIn nat 'k nat 'k
  | AllInFromIn nat 'k nat 'k | AllInFromOut nat 'k nat 'k | AllOutFromIn nat 'k bool
  | TLVPts nat 'k 'k | ATVPts 'k nat 'k | ClearUpdated nat

definition cell_union :: "'k df_cell \<Rightarrow> 'k df_cell \<Rightarrow> ('k df_cell \<Rightarrow> nat set) \<Rightarrow> bool \<times> ('k df_cell \<Rightarrow> nat set)" where
  "cell_union dst src P = (\<not> P src \<subseteq> P dst, P(dst := P dst \<union> P src))"

definition base_cells :: "('d \<Rightarrow> nat set) \<Rightarrow> ('k, 'd) pts_cmd \<Rightarrow> ('k df_cell \<Rightarrow> nat set) \<Rightarrow> bool \<times> ('k df_cell \<Rightarrow> nat set)" where
  "base_cells D c P = (let q = spec_step D c (\<lambda>k. P (Top k)) in
     (fst q, \<lambda>x. case x of Top k \<Rightarrow> snd q k | _ \<Rightarrow> P x))"

lemma base_cells_simps:
  "base_cells D (AddPts k n) P = (n \<notin> P (Top k), P(Top k := insert n (P (Top k))))"
  "base_cells D (UnionPts k m) P = (\<not> P (Top m) \<subseteq> P (Top k), P(Top k := P (Top k) \<union> P (Top m)))"
  "base_cells D (UnionPtsSet k d) P = (\<not> D d \<subseteq> P (Top k), P(Top k := P (Top k) \<union> D d))"
  "base_cells D (ClearPts k n) P = (False, P(Top k := P (Top k) - {n}))"
  "base_cells D (ClearFullPts k) P = (False, P(Top k := {}))"
  by (auto simp: base_cells_def Let_def fun_eq_iff split: df_cell.split)

text \<open>OUT of the variables \<open>V\<close> takes IN at the location \<open>l\<close>.\<close>

definition out_all :: "'k set \<Rightarrow> nat \<Rightarrow> ('k df_cell \<Rightarrow> nat set) \<Rightarrow> bool \<times> ('k df_cell \<Rightarrow> nat set)" where
  "out_all V l P = (\<exists>v\<in>V. \<not> P (DfIn l v) \<subseteq> P (DfOut l v),
     \<lambda>x. case x of DfOut m v \<Rightarrow> if m = l \<and> v \<in> V then P x \<union> P (DfIn l v) else P x | _ \<Rightarrow> P x)"

fun df_spec :: "('d \<Rightarrow> nat set) \<Rightarrow> ('k, 'd) df_cmd \<Rightarrow> ('k df_cell \<Rightarrow> nat set) \<Rightarrow> bool \<times> ('k df_cell \<Rightarrow> nat set)" where
  "df_spec D (DfBase c) P = base_cells D c P"
| "df_spec D (InFromIn l v m w) P = cell_union (DfIn m w) (DfIn l v) P"
| "df_spec D (InFromOut l v m w) P = cell_union (DfIn m w) (DfOut l v) P"
| "df_spec D (OutFromIn l v m w) P = cell_union (DfOut m w) (DfIn l v) P"
| "df_spec D (AllInFromIn l v m w) P = cell_union (DfIn m w) (DfIn l v) P"
| "df_spec D (AllInFromOut l v m w) P = cell_union (DfIn m w) (DfOut l v) P"
| "df_spec D (AllOutFromIn l x str) P = out_all {v. \<not> (str \<and> v = x)} l P"
| "df_spec D (TLVPts l v k) P = cell_union (Top k) (DfIn l v) P"
| "df_spec D (ATVPts v l k) P = cell_union (DfOut l k) (Top v) P"
| "df_spec D (ClearUpdated l) P = (False, P)"

text \<open>The changed variables of each IN and of each OUT set.\<close>

type_synonym 'k inc_state = "('k df_cell \<Rightarrow> nat set) \<times> (nat \<Rightarrow> 'k set) \<times> (nat \<Rightarrow> 'k set)"

definition union_mark_in :: "nat \<Rightarrow> 'k \<Rightarrow> 'k df_cell \<Rightarrow> 'k inc_state \<Rightarrow> bool \<times> 'k inc_state" where
  "union_mark_in m w src s = (case s of (P, I, U) \<Rightarrow> let q = cell_union (DfIn m w) src P in
     (fst q, snd q, if fst q then I(m := insert w (I m)) else I, U))"

definition union_mark_out :: "nat \<Rightarrow> 'k \<Rightarrow> 'k df_cell \<Rightarrow> 'k inc_state \<Rightarrow> bool \<times> 'k inc_state" where
  "union_mark_out m w src s = (case s of (P, I, U) \<Rightarrow> let q = cell_union (DfOut m w) src P in
     (fst q, snd q, I, if fst q then U(m := insert w (U m)) else U))"

definition inc_out :: "nat \<Rightarrow> 'k \<Rightarrow> nat \<Rightarrow> 'k \<Rightarrow> 'k inc_state \<Rightarrow> bool \<times> 'k inc_state" where
  "inc_out l v m w s = (case s of (P, I, U) \<Rightarrow>
     if v \<in> I l then union_mark_out m w (DfIn l v) (P, I(l := I l - {v}), U) else (False, P, I, U))"

fun inc_spec :: "('d \<Rightarrow> nat set) \<Rightarrow> ('k, 'd) df_cmd \<Rightarrow> 'k inc_state \<Rightarrow> bool \<times> 'k inc_state" where
  "inc_spec D (DfBase c) (P, I, U) = (let q = base_cells D c P in (fst q, snd q, I, U))"
| "inc_spec D (InFromIn l v m w) (P, I, U) =
    (if v \<in> I l then union_mark_in m w (DfIn l v) (P, I, U) else (False, P, I, U))"
| "inc_spec D (InFromOut l v m w) (P, I, U) =
    (if v \<in> U l then union_mark_in m w (DfOut l v) (P, I, U) else (False, P, I, U))"
| "inc_spec D (OutFromIn l v m w) s = inc_out l v m w s"
| "inc_spec D (AllInFromIn l v m w) s = union_mark_in m w (DfIn l v) s"
| "inc_spec D (AllInFromOut l v m w) s = union_mark_in m w (DfOut l v) s"
| "inc_spec D (AllOutFromIn l x str) (P, I, U) =
    (let V = {v \<in> I l. \<not> (str \<and> v = x)}; q = out_all V l P in
     (fst q, snd q, I(l := I l - V), U(l := U l \<union> {v \<in> V. \<not> P (DfIn l v) \<subseteq> P (DfOut l v)})))"
| "inc_spec D (TLVPts l v k) (P, I, U) =
    (if v \<in> I l then let q = cell_union (Top k) (DfIn l v) P in (fst q, snd q, I(l := I l - {v}), U)
     else (False, P, I, U))"
| "inc_spec D (ATVPts v l k) s = union_mark_out l k (Top v) s"
| "inc_spec D (ClearUpdated l) (P, I, U) = (False, P, I, U(l := {}))"

fun df_ok :: "('d \<Rightarrow> bool) \<Rightarrow> ('k, 'd) df_cmd \<Rightarrow> bool" where
  "df_ok dinv (DfBase c) = cmd_ok dinv c"
| "df_ok dinv _ = True"

text \<open>The incremental mutable table stores variables in points-to sets.\<close>

fun inc_ok :: "('d \<Rightarrow> bool) \<Rightarrow> (nat, 'd) df_cmd \<Rightarrow> bool" where
  "inc_ok dinv (DfBase c) = cmd_ok dinv c"
| "inc_ok dinv (InFromIn l v m w) = (node_ok v \<and> node_ok w)"
| "inc_ok dinv (InFromOut l v m w) = (node_ok v \<and> node_ok w)"
| "inc_ok dinv (OutFromIn l v m w) = (node_ok v \<and> node_ok w)"
| "inc_ok dinv (AllInFromIn l v m w) = (node_ok v \<and> node_ok w)"
| "inc_ok dinv (AllInFromOut l v m w) = (node_ok v \<and> node_ok w)"
| "inc_ok dinv (AllOutFromIn l x str) = True"
| "inc_ok dinv (TLVPts l v k) = node_ok v"
| "inc_ok dinv (ATVPts v l k) = node_ok k"
| "inc_ok dinv (ClearUpdated l) = True"

section \<open>The loop over the variables of a location\<close>

text \<open>The loop of \<open>updateAllDFOutFromIn\<close>, which the four tables share; \<open>upd v\<close> is
  \<open>updateDFOutFromIn(loc, v, loc, v)\<close>.\<close>

fun out_loop :: "('k \<Rightarrow> 's \<Rightarrow> (bool \<times> 's) option) \<Rightarrow> 'k \<Rightarrow> bool \<Rightarrow> 'k list \<Rightarrow> bool \<Rightarrow> 's \<Rightarrow> (bool \<times> 's) option" where
  "out_loop upd singleton strong [] changed s = Some (changed, s)"
| "out_loop upd singleton strong (v # vs) changed s =
    (if strong \<and> v = singleton then out_loop upd singleton strong vs changed s
     else Option.bind (upd v s) (\<lambda>q. out_loop upd singleton strong vs (if fst q then True else changed) (snd q)))"

fun spec_loop :: "('k \<Rightarrow> 'a \<Rightarrow> bool \<times> 'a) \<Rightarrow> 'k \<Rightarrow> bool \<Rightarrow> 'k list \<Rightarrow> bool \<Rightarrow> 'a \<Rightarrow> bool \<times> 'a" where
  "spec_loop f x str [] ch P = (ch, P)"
| "spec_loop f x str (v # vs) ch P = (if str \<and> v = x then spec_loop f x str vs ch P
     else let q = f v P in spec_loop f x str vs (fst q \<or> ch) (snd q))"

text \<open>A simulation for the body is one for the loop. Each round uses at most one of the \<open>cap - sz s\<close>
  resources left.\<close>

lemma out_loop_sim:
  fixes abs :: "'s \<Rightarrow> 'a"
  assumes body: "\<And>v s. J s \<Longrightarrow> v \<in> set vs \<Longrightarrow> case upd v s of None \<Rightarrow> cap \<le> sz s
      | Some (b, t) \<Rightarrow> J t \<and> (b, abs t) = f v (abs s) \<and> sz t \<le> Suc (sz s)"
    and "J s"
  shows "case out_loop upd x str vs ch s of None \<Rightarrow> cap < sz s + length vs
    | Some (b, t) \<Rightarrow> J t \<and> (b, abs t) = spec_loop f x str vs ch (abs s)"
  using assms
proof (induction vs arbitrary: s ch)
  case (Cons v vs)
  have body': "\<And>w s. J s \<Longrightarrow> w \<in> set vs \<Longrightarrow> case upd w s of None \<Rightarrow> cap \<le> sz s
      | Some (b, t) \<Rightarrow> J t \<and> (b, abs t) = f w (abs s) \<and> sz t \<le> Suc (sz s)"
    using Cons.prems(1) by simp
  show ?case
  proof (cases "str \<and> v = x")
    case True
    have "case out_loop upd x str vs ch s of None \<Rightarrow> cap < sz s + length vs
      | Some (b, t) \<Rightarrow> J t \<and> (b, abs t) = spec_loop f x str vs ch (abs s)"
      by (rule Cons.IH [OF body' Cons.prems(2)])
    then show ?thesis using True by (auto split: option.splits)
  next
    case False
    show ?thesis
    proof (cases "upd v s")
      case None
      then show ?thesis using Cons.prems(1) [OF Cons.prems(2), of v] False by auto
    next
      case (Some q)
      then obtain b t where t: "upd v s = Some (b, t)" "J t" "(b, abs t) = f v (abs s)" "sz t \<le> Suc (sz s)"
        using Cons.prems(1) [OF Cons.prems(2), of v] by (cases q) auto
      have "case out_loop upd x str vs (if b then True else ch) t of None \<Rightarrow> cap < sz t + length vs
        | Some (b', u) \<Rightarrow> J u \<and> (b', abs u) = spec_loop f x str vs (if b then True else ch) (abs t)"
        by (rule Cons.IH [OF body' t(2)])
      moreover have "(if b then True else ch) = (b \<or> ch)" "abs t = snd (f v (abs s))" "b = fst (f v (abs s))"
        using t(3) by (auto simp: prod_eq_iff)
      ultimately show ?thesis using False t(1,4) by (auto simp: Let_def split: option.splits)
    qed
  qed
qed simp

text \<open>One variable after the other.\<close>

lemma out_all_empty: "out_all {} l P = (False, P)"
  by (auto simp: out_all_def fun_eq_iff split: df_cell.split)

lemma out_all_subset:
  assumes "V \<subseteq> W" "\<And>v. v \<in> W \<Longrightarrow> v \<notin> V \<Longrightarrow> P (DfIn l v) \<subseteq> P (DfOut l v)"
  shows "out_all V l P = out_all W l P"
proof (rule prod_eqI)
  show "fst (out_all V l P) = fst (out_all W l P)"
    unfolding out_all_def fst_conv using assms by blast
  show "snd (out_all V l P) = snd (out_all W l P)"
    using assms by (auto simp: out_all_def fun_eq_iff split: df_cell.split)
qed

lemma out_all_insert:
  "out_all (insert v V) l P = (let q = cell_union (DfOut l v) (DfIn l v) P; r = out_all V l (snd q) in (fst q \<or> fst r, snd r))"
proof (rule prod_eqI)
  show "fst (out_all (insert v V) l P) = fst (let q = cell_union (DfOut l v) (DfIn l v) P; r = out_all V l (snd q) in (fst q \<or> fst r, snd r))"
    by (auto simp: out_all_def cell_union_def Let_def)
  show "snd (out_all (insert v V) l P) = snd (let q = cell_union (DfOut l v) (DfIn l v) P; r = out_all V l (snd q) in (fst q \<or> fst r, snd r))"
    by (auto simp: out_all_def cell_union_def Let_def fun_eq_iff split: df_cell.split)
qed

text \<open>What the loop does for the plain and for the incremental table.\<close>

lemma out_loop_plain:
  "spec_loop (\<lambda>v. cell_union (DfOut l v) (DfIn l v)) x str vs ch P
    = (let q = out_all {v \<in> set vs. \<not> (str \<and> v = x)} l P in (ch \<or> fst q, snd q))"
proof (induction vs arbitrary: ch P)
  case Nil
  show ?case by (simp add: out_all_empty)
next
  case (Cons v vs)
  show ?case
  proof (cases "str \<and> v = x")
    case True
    then have "{w \<in> set (v # vs). \<not> (str \<and> w = x)} = {w \<in> set vs. \<not> (str \<and> w = x)}" by auto
    then show ?thesis using True Cons.IH by simp
  next
    case False
    then have V: "{w \<in> set (v # vs). \<not> (str \<and> w = x)} = insert v {w \<in> set vs. \<not> (str \<and> w = x)}" by auto
    show ?thesis unfolding V out_all_insert using False by (auto simp: Cons.IH Let_def)
  qed
qed

lemma out_loop_inc:
  "spec_loop (\<lambda>v. inc_out l v l v) x str vs ch (P, I, U) =
    (let V = {v \<in> I l. v \<in> set vs \<and> \<not> (str \<and> v = x)}; q = out_all V l P in
     (ch \<or> fst q, snd q, I(l := I l - V), U(l := U l \<union> {v \<in> V. \<not> P (DfIn l v) \<subseteq> P (DfOut l v)})))"
proof (induction vs arbitrary: ch P I U)
  case Nil
  show ?case by (auto simp: out_all_empty fun_eq_iff)
next
  case (Cons v vs)
  show ?case
  proof (cases "(str \<and> v = x) \<or> v \<notin> I l")
    case True
    then have "{w \<in> I l. w \<in> set (v # vs) \<and> \<not> (str \<and> w = x)} = {w \<in> I l. w \<in> set vs \<and> \<not> (str \<and> w = x)}" by auto
    then show ?thesis using True Cons.IH by (auto simp: inc_out_def)
  next
    case False
    let ?I = "I(l := I l - {v})" and ?W = "{w \<in> I l - {v}. w \<in> set vs \<and> \<not> (str \<and> w = x)}"
    let ?P = "snd (cell_union (DfOut l v) (DfIn l v) P)"
    let ?U = "if \<not> P (DfIn l v) \<subseteq> P (DfOut l v) then U(l := insert v (U l)) else U"
    have V: "{w \<in> I l. w \<in> set (v # vs) \<and> \<not> (str \<and> w = x)} = insert v ?W" using False by auto
    have one: "inc_out l v l v (P, I, U) = (\<not> P (DfIn l v) \<subseteq> P (DfOut l v), ?P, ?I, ?U)"
      using False by (simp add: inc_out_def union_mark_out_def cell_union_def Let_def)
    have P': "?P (DfIn l w) = P (DfIn l w)" "w \<in> ?W \<Longrightarrow> ?P (DfOut l w) = P (DfOut l w)" for w
      by (auto simp: cell_union_def)
    have U': "?U(l := ?U l \<union> {w \<in> ?W. \<not> ?P (DfIn l w) \<subseteq> ?P (DfOut l w)})
        = U(l := U l \<union> {w \<in> insert v ?W. \<not> P (DfIn l w) \<subseteq> P (DfOut l w)})"
      using P' by (auto simp: fun_eq_iff)
    have I': "?I(l := ?I l - ?W) = I(l := I l - insert v ?W)" by (auto simp: fun_eq_iff)
    have "spec_loop (\<lambda>v. inc_out l v l v) x str (v # vs) ch (P, I, U)
        = spec_loop (\<lambda>v. inc_out l v l v) x str vs (\<not> P (DfIn l v) \<subseteq> P (DfOut l v) \<or> ch) (?P, ?I, ?U)"
      using False one by (auto simp: Let_def)
    also have "\<dots> = ((\<not> P (DfIn l v) \<subseteq> P (DfOut l v) \<or> ch) \<or> fst (out_all ?W l ?P), snd (out_all ?W l ?P),
        ?I(l := ?I l - ?W), ?U(l := ?U l \<union> {w \<in> ?W. \<not> ?P (DfIn l w) \<subseteq> ?P (DfOut l w)}))"
      unfolding Cons.IH by (simp add: Let_def)
    finally show ?thesis unfolding V U' I' out_all_insert Let_def by (auto simp: cell_union_def)
  qed
qed

section \<open>The incremental table against the plain one\<close>

text \<open>What the incremental table derives, the plain one derives.\<close>

lemma upd_mono: "P \<le> Q \<Longrightarrow> X \<subseteq> Y \<Longrightarrow> P(k := X) \<le> Q(k := Y)" for P :: "'a \<Rightarrow> 'b set"
  by (simp add: le_fun_def)

lemma base_cells_mono: "P \<le> Q \<Longrightarrow> snd (base_cells D c P) \<le> snd (base_cells D c Q)"
  by (cases c) (simp_all add: base_cells_simps, (intro upd_mono, assumption, auto dest: le_funD)+)

lemma cell_union_mono: "P \<le> Q \<Longrightarrow> snd (cell_union d s P) \<le> snd (cell_union d s Q)"
  unfolding cell_union_def snd_conv by (intro upd_mono) (auto dest: le_funD)

lemma cell_union_above: "P \<le> Q \<Longrightarrow> P \<le> snd (cell_union d s Q)"
  by (auto simp: cell_union_def le_fun_def)

lemma out_all_mono: "P \<le> Q \<Longrightarrow> V \<subseteq> W \<Longrightarrow> snd (out_all V l P) \<le> snd (out_all W l Q)"
  by (auto simp: out_all_def le_fun_def split: df_cell.split)

lemma inc_below_step:
  assumes "fst s \<le> Q"
  shows "fst (snd (inc_spec D c s)) \<le> snd (df_spec D c Q)"
proof -
  obtain P I U where s: "s = (P, I, U)" by (cases s)
  have le: "P \<le> Q" using assms by (simp add: s)
  have o: "snd (out_all {v \<in> I l. \<not> (str \<and> v = x)} l P) \<le> snd (out_all {v. \<not> (str \<and> v = x)} l Q)" for l str x
    by (rule out_all_mono [OF le]) auto
  have b: "P \<le> snd (cell_union x y Q)" for x y by (rule cell_union_above [OF le])
  show ?thesis
    using o by (cases c) (simp_all add: s union_mark_in_def union_mark_out_def inc_out_def Let_def
        cell_union_mono [OF le] base_cells_mono [OF le] b le)
qed

lemma inc_below_run:
  "fst s \<le> Q \<Longrightarrow> fst (snd (spec_run (inc_spec D) cs s)) \<le> snd (spec_run (df_spec D) cs Q)"
proof (induction cs arbitrary: s Q)
  case (Cons c cs)
  from Cons.IH [OF inc_below_step [OF Cons.prems]] show ?case by (simp add: Let_def)
qed simp

text \<open>A variable that is not marked at a location has its IN set in its OUT set. Commands that take
  the mark without a transfer to OUT of the same variable are excluded.\<close>

definition nothing_pending :: "nat \<Rightarrow> 'k inc_state \<Rightarrow> bool" where
  "nothing_pending l s = (case s of (P, I, U) \<Rightarrow> \<forall>v. v \<notin> I l \<longrightarrow> P (DfIn l v) \<subseteq> P (DfOut l v))"

fun transfers :: "nat \<Rightarrow> ('k, 'd) df_cmd \<Rightarrow> bool" where
  "transfers l (OutFromIn m v m' w) = (m = l \<longrightarrow> m' = l \<and> w = v)"
| "transfers l (TLVPts m v k) = (m \<noteq> l)"
| "transfers l _ = True"

lemma pending_mark_in: "nothing_pending l s \<Longrightarrow> nothing_pending l (snd (union_mark_in m w src s))"
  by (cases s) (auto simp: nothing_pending_def union_mark_in_def cell_union_def Let_def)

lemma pending_mark_out: "nothing_pending l s \<Longrightarrow> nothing_pending l (snd (union_mark_out m w src s))"
  by (auto simp: nothing_pending_def union_mark_out_def cell_union_def Let_def split: prod.splits)

lemma pending_step:
  assumes "nothing_pending l s" "transfers l c"
  shows "nothing_pending l (snd (inc_spec D c s))"
proof -
  obtain P I U where s: "s = (P, I, U)" by (cases s)
  note m = pending_mark_in [OF assms(1)] pending_mark_out [OF assms(1)]
  show ?thesis
  proof (cases c)
    case (DfBase b)
    have "snd (base_cells D b P) (DfIn l v) = P (DfIn l v)" "snd (base_cells D b P) (DfOut l v) = P (DfOut l v)" for v
      by (simp_all add: base_cells_def Let_def)
    then show ?thesis using assms(1) by (simp add: DfBase s nothing_pending_def Let_def)
  next
    case (OutFromIn m v m' w)
    have "nothing_pending l (snd (union_mark_out m' w (DfIn m v) (P, I(m := I m - {v}), U)))" if "v \<in> I m"
    proof (cases "m = l")
      case True
      then show ?thesis
        using assms s OutFromIn by (auto simp: nothing_pending_def union_mark_out_def cell_union_def Let_def)
    next
      case False
      then show ?thesis by (intro pending_mark_out) (use assms(1) s in \<open>simp add: nothing_pending_def\<close>)
    qed
    then show ?thesis using assms(1) s by (simp add: OutFromIn inc_out_def)
  next
    case (AllOutFromIn m x str)
    show ?thesis
      using assms(1) by (auto simp: AllOutFromIn s nothing_pending_def Let_def out_all_def)
  next
    case (TLVPts m v k)
    then show ?thesis using assms by (simp add: s nothing_pending_def Let_def cell_union_def)
  next
    case (ClearUpdated m)
    then show ?thesis using assms(1) by (simp add: s nothing_pending_def)
  qed (use assms(1) m in \<open>simp_all add: s\<close>)
qed

lemma pending_run:
  "nothing_pending l s \<Longrightarrow> \<forall>c\<in>set cs. transfers l c \<Longrightarrow> nothing_pending l (snd (spec_run (inc_spec D) cs s))"
proof (induction cs arbitrary: s)
  case (Cons c cs)
  then show ?case using pending_step [of l s c D] by (simp add: Let_def)
qed simp

text \<open>Then the incremental transfer from IN to OUT loses nothing.\<close>

lemma inc_out_all:
  assumes "nothing_pending l (P, I, U)"
  shows "out_all {v \<in> I l. \<not> (str \<and> v = x)} l P = out_all {v. \<not> (str \<and> v = x)} l P"
  by (rule out_all_subset) (use assms in \<open>auto simp: nothing_pending_def\<close>)

end
