(* ===== verification/MutableDf.thy ===== *)
theory MutableDf
  imports DfTables
begin

text \<open>
  \<open>MutableDFPTData\<close> and \<open>MutableIncDFPTData\<close> of \<open>svf/include/MemoryModel/MutablePointsToDS.h\<close>: the
  data-flow table with points-to sets updated in place, and its incremental version.

  A map from locations to maps from variables to sets is a list of lists. \<open>mf_at\<close>, \<open>mf_touch\<close> and
  \<open>mf_put\<close> access the set of a cell, which the code does through a reference.
\<close>

section \<open>The table\<close>

record ('k, 'd) mut_df =
  mf_pts :: "('k, 'd) mut_pts"
  mf_in :: "(nat \<times> ('k \<times> 'd) list) list"
  mf_out :: "(nat \<times> ('k \<times> 'd) list) list"

definition mf_make :: "bool \<Rightarrow> ('k, 'd) mut_df" where
  "mf_make reversePT = \<lparr>mf_pts = mp_make reversePT, mf_in = [], mf_out = []\<rparr>"

definition mf_clear :: "('k, 'd) mut_df \<Rightarrow> ('k, 'd) mut_df" where
  "mf_clear s = s\<lparr>mf_pts := mp_clear (mf_pts s)\<rparr>"

text \<open>\<open>m[loc][var]\<close>\<close>

definition dm_at :: "'v \<Rightarrow> (nat \<times> ('k \<times> 'v) list) list \<Rightarrow> nat \<Rightarrow> 'k \<Rightarrow> 'v" where
  "dm_at dflt m loc var = at_get dflt (at_get [] m loc) var"

definition dm_put :: "nat \<Rightarrow> 'k \<Rightarrow> 'v \<Rightarrow> (nat \<times> ('k \<times> 'v) list) list \<Rightarrow> (nat \<times> ('k \<times> 'v) list) list" where
  "dm_put loc var v m = at_put loc (at_put var v (at_get [] m loc)) m"

definition dm_touch :: "'v \<Rightarrow> nat \<Rightarrow> 'k \<Rightarrow> (nat \<times> ('k \<times> 'v) list) list \<Rightarrow> (nat \<times> ('k \<times> 'v) list) list" where
  "dm_touch dflt loc var m = at_put loc (at_touch dflt var (at_get [] m loc)) m"

definition dm_has :: "(nat \<times> ('k \<times> 'v) list) list \<Rightarrow> nat \<Rightarrow> bool" where
  "dm_has m loc = (case map_of m loc of None \<Rightarrow> False | Some e \<Rightarrow> True)"

definition dm_has_var :: "(nat \<times> ('k \<times> 'v) list) list \<Rightarrow> nat \<Rightarrow> 'k \<Rightarrow> bool" where
  "dm_has_var m loc var = (case map_of m loc of None \<Rightarrow> False
     | Some e \<Rightarrow> (case map_of e var of None \<Rightarrow> False | Some v \<Rightarrow> True))"

lemma dm_at_simps [simp]:
  "dm_at dflt [] l k = dflt"
  "dm_at dflt (dm_put l k v m) l' k' = (if l' = l \<and> k' = k then v else dm_at dflt m l' k')"
  "dm_at dflt (dm_touch dflt l k m) l' k' = dm_at dflt m l' k'"
  by (simp_all add: dm_at_def dm_put_def dm_touch_def)

lemma dm_has_simps [simp]:
  "dm_has (dm_put l k v m) l' = (l' = l \<or> dm_has m l')"
  "dm_has (dm_touch dflt l k m) l' = (l' = l \<or> dm_has m l')"
  by (auto simp: dm_has_def dm_put_def dm_touch_def at_put_def update_conv' split: option.split)

text \<open>A variable without an entry has the default value.\<close>

lemma dm_at_absent: "k \<notin> fst ` set (at_get [] m l) \<Longrightarrow> dm_at dflt m l k = dflt"
  using map_of_eq_None_iff [of "at_get [] m l" k] by (simp add: dm_at_def at_get_def)

lemma dm_not_has: "\<not> dm_has m l \<Longrightarrow> at_get [] m l = []"
  by (simp add: dm_has_def at_get_def split: option.splits)

fun mf_at :: "'d set_ops \<Rightarrow> ('k, 'd) mut_df \<Rightarrow> 'k df_cell \<Rightarrow> 'd" where
  "mf_at so s (DfIn l k) = dm_at (so_new so) (mf_in s) l k"
| "mf_at so s (DfOut l k) = dm_at (so_new so) (mf_out s) l k"
| "mf_at so s (Top k) = mp_at so (mf_pts s) k"

fun mf_touch :: "'d set_ops \<Rightarrow> 'k df_cell \<Rightarrow> ('k, 'd) mut_df \<Rightarrow> ('k, 'd) mut_df" where
  "mf_touch so (DfIn l k) s = s\<lparr>mf_in := dm_touch (so_new so) l k (mf_in s)\<rparr>"
| "mf_touch so (DfOut l k) s = s\<lparr>mf_out := dm_touch (so_new so) l k (mf_out s)\<rparr>"
| "mf_touch so (Top k) s = s\<lparr>mf_pts := mp_touch so k (mf_pts s)\<rparr>"

fun mf_put :: "'k df_cell \<Rightarrow> 'd \<Rightarrow> ('k, 'd) mut_df \<Rightarrow> ('k, 'd) mut_df" where
  "mf_put (DfIn l k) d s = s\<lparr>mf_in := dm_put l k d (mf_in s)\<rparr>"
| "mf_put (DfOut l k) d s = s\<lparr>mf_out := dm_put l k d (mf_out s)\<rparr>"
| "mf_put (Top k) d s = s\<lparr>mf_pts := mp_put k d (mf_pts s)\<rparr>"

definition mf_getPts :: "'d set_ops \<Rightarrow> 'k \<Rightarrow> ('k, 'd) mut_df \<Rightarrow> 'd \<times> ('k, 'd) mut_df" where
  "mf_getPts so var s = (let r = mp_getPts so var (mf_pts s) in (fst r, s\<lparr>mf_pts := snd r\<rparr>))"

definition mf_getRevPts :: "nat \<Rightarrow> ('k, 'd) mut_df \<Rightarrow> ('k set \<times> ('k, 'd) mut_df) option" where
  "mf_getRevPts datum s = map_option (\<lambda>r. (fst r, s\<lparr>mf_pts := snd r\<rparr>)) (mp_getRevPts datum (mf_pts s))"

definition mf_hasDFInSet :: "nat \<Rightarrow> ('k, 'd) mut_df \<Rightarrow> bool" where
  "mf_hasDFInSet loc s = dm_has (mf_in s) loc"

definition mf_hasDFOutSet :: "nat \<Rightarrow> ('k, 'd) mut_df \<Rightarrow> bool" where
  "mf_hasDFOutSet loc s = dm_has (mf_out s) loc"

definition mf_hasDFInVar :: "nat \<Rightarrow> 'k \<Rightarrow> ('k, 'd) mut_df \<Rightarrow> bool" where
  "mf_hasDFInVar loc var s = dm_has_var (mf_in s) loc var"

definition mf_hasDFOutVar :: "nat \<Rightarrow> 'k \<Rightarrow> ('k, 'd) mut_df \<Rightarrow> bool" where
  "mf_hasDFOutVar loc var s = dm_has_var (mf_out s) loc var"

definition mf_getDFInPtsSet :: "'d set_ops \<Rightarrow> nat \<Rightarrow> 'k \<Rightarrow> ('k, 'd) mut_df \<Rightarrow> 'd \<times> ('k, 'd) mut_df" where
  "mf_getDFInPtsSet so loc var s = (mf_at so s (DfIn loc var), mf_touch so (DfIn loc var) s)"

definition mf_getDFOutPtsSet :: "'d set_ops \<Rightarrow> nat \<Rightarrow> 'k \<Rightarrow> ('k, 'd) mut_df \<Rightarrow> 'd \<times> ('k, 'd) mut_df" where
  "mf_getDFOutPtsSet so loc var s = (mf_at so s (DfOut loc var), mf_touch so (DfOut loc var) s)"

text \<open>\<open>dst |= src\<close> on the sets of two cells, which both calls create\<close>

definition mf_union :: "'d set_ops \<Rightarrow> 'k df_cell \<Rightarrow> 'k df_cell \<Rightarrow> ('k, 'd) mut_df \<Rightarrow> (bool \<times> ('k, 'd) mut_df) option" where
  "mf_union so dst src s = (let s1 = mf_touch so src (mf_touch so dst s) in
     map_option (\<lambda>r. (snd r, mf_put dst (fst r) s1)) (so_or so (dst = src) (mf_at so s1 dst) (mf_at so s1 src)))"

definition mf_updateDFInFromIn :: "'d set_ops \<Rightarrow> nat \<Rightarrow> 'k \<Rightarrow> nat \<Rightarrow> 'k \<Rightarrow> ('k, 'd) mut_df \<Rightarrow> (bool \<times> ('k, 'd) mut_df) option" where
  "mf_updateDFInFromIn so srcLoc srcVar dstLoc dstVar = mf_union so (DfIn dstLoc dstVar) (DfIn srcLoc srcVar)"

definition mf_updateDFInFromOut :: "'d set_ops \<Rightarrow> nat \<Rightarrow> 'k \<Rightarrow> nat \<Rightarrow> 'k \<Rightarrow> ('k, 'd) mut_df \<Rightarrow> (bool \<times> ('k, 'd) mut_df) option" where
  "mf_updateDFInFromOut so srcLoc srcVar dstLoc dstVar = mf_union so (DfIn dstLoc dstVar) (DfOut srcLoc srcVar)"

definition mf_updateDFOutFromIn :: "'d set_ops \<Rightarrow> nat \<Rightarrow> 'k \<Rightarrow> nat \<Rightarrow> 'k \<Rightarrow> ('k, 'd) mut_df \<Rightarrow> (bool \<times> ('k, 'd) mut_df) option" where
  "mf_updateDFOutFromIn so srcLoc srcVar dstLoc dstVar = mf_union so (DfOut dstLoc dstVar) (DfIn srcLoc srcVar)"

definition mf_updateAllDFInFromOut :: "'d set_ops \<Rightarrow> nat \<Rightarrow> 'k \<Rightarrow> nat \<Rightarrow> 'k \<Rightarrow> ('k, 'd) mut_df \<Rightarrow> (bool \<times> ('k, 'd) mut_df) option" where
  "mf_updateAllDFInFromOut = mf_updateDFInFromOut"

definition mf_updateAllDFInFromIn :: "'d set_ops \<Rightarrow> nat \<Rightarrow> 'k \<Rightarrow> nat \<Rightarrow> 'k \<Rightarrow> ('k, 'd) mut_df \<Rightarrow> (bool \<times> ('k, 'd) mut_df) option" where
  "mf_updateAllDFInFromIn = mf_updateDFInFromIn"

definition mf_updateAllDFOutFromIn :: "'d set_ops \<Rightarrow> nat \<Rightarrow> 'k \<Rightarrow> bool \<Rightarrow> ('k, 'd) mut_df \<Rightarrow> (bool \<times> ('k, 'd) mut_df) option" where
  "mf_updateAllDFOutFromIn so loc singleton strongUpdates s =
     (if mf_hasDFInSet loc s
      then out_loop (\<lambda>var. mf_updateDFOutFromIn so loc var loc var) singleton strongUpdates
             (map fst (at_get [] (mf_in s) loc)) False s
      else Some (False, s))"

definition mf_updateTLVPts :: "'d set_ops \<Rightarrow> nat \<Rightarrow> 'k \<Rightarrow> 'k \<Rightarrow> ('k, 'd) mut_df \<Rightarrow> (bool \<times> ('k, 'd) mut_df) option" where
  "mf_updateTLVPts so srcLoc srcVar dstVar = mf_union so (Top dstVar) (DfIn srcLoc srcVar)"

definition mf_updateATVPts :: "'d set_ops \<Rightarrow> 'k \<Rightarrow> nat \<Rightarrow> 'k \<Rightarrow> ('k, 'd) mut_df \<Rightarrow> (bool \<times> ('k, 'd) mut_df) option" where
  "mf_updateATVPts so srcVar dstLoc dstVar = mf_union so (DfOut dstLoc dstVar) (Top srcVar)"

definition mf_addPts :: "'d set_ops \<Rightarrow> 'k \<Rightarrow> nat \<Rightarrow> ('k, 'd) mut_df \<Rightarrow> (bool \<times> ('k, 'd) mut_df) option" where
  "mf_addPts so dstKey element s =
     map_option (\<lambda>r. (snd r, mf_put (Top dstKey) (fst r) s)) (so_test_and_set so (mf_at so s (Top dstKey)) element)"

definition mf_unionPts :: "'d set_ops \<Rightarrow> 'k \<Rightarrow> 'k \<Rightarrow> ('k, 'd) mut_df \<Rightarrow> (bool \<times> ('k, 'd) mut_df) option" where
  "mf_unionPts so dstKey srcKey = mf_union so (Top dstKey) (Top srcKey)"

definition mf_unionPtsSet :: "'d set_ops \<Rightarrow> 'k \<Rightarrow> 'd \<Rightarrow> ('k, 'd) mut_df \<Rightarrow> (bool \<times> ('k, 'd) mut_df) option" where
  "mf_unionPtsSet so dstKey srcDataSet s =
     map_option (\<lambda>r. (snd r, mf_put (Top dstKey) (fst r) s)) (so_or so False (mf_at so s (Top dstKey)) srcDataSet)"

definition mf_clearPts :: "'d set_ops \<Rightarrow> 'k \<Rightarrow> nat \<Rightarrow> ('k, 'd) mut_df \<Rightarrow> ('k, 'd) mut_df option" where
  "mf_clearPts so k n s = map_option (\<lambda>t. s\<lparr>mf_pts := t\<rparr>) (mp_clearPts so k n (mf_pts s))"

definition mf_clearFullPts :: "'d set_ops \<Rightarrow> 'k \<Rightarrow> ('k, 'd) mut_df \<Rightarrow> ('k, 'd) mut_df option" where
  "mf_clearFullPts so k s = map_option (\<lambda>t. s\<lparr>mf_pts := t\<rparr>) (mp_clearFullPts so k (mf_pts s))"

fun remap_df :: "'d set_ops \<Rightarrow> (nat \<times> ('k \<times> 'd) list) list \<Rightarrow> (nat \<times> ('k \<times> 'd) list) list option" where
  "remap_df so [] = Some []"
| "remap_df so ((l, e) # m) = Option.bind (remap_map so e) (\<lambda>e'. map_option (Cons (l, e')) (remap_df so m))"

definition mf_remapAllPts :: "'d set_ops \<Rightarrow> ('k, 'd) mut_df \<Rightarrow> ('k, 'd) mut_df option" where
  "mf_remapAllPts so s =
     Option.bind (mp_remapAllPts so (mf_pts s)) (\<lambda>p.
     Option.bind (remap_df so (mf_in s)) (\<lambda>i.
     map_option (\<lambda>q. \<lparr>mf_pts = p, mf_in = i, mf_out = q\<rparr>) (remap_df so (mf_out s))))"

fun count_df :: "'d data_ops \<Rightarrow> (nat \<times> ('k \<times> 'd) list) list \<Rightarrow> ('d \<times> nat) list \<Rightarrow> ('d \<times> nat) list option" where
  "count_df ops [] m = Some m"
| "count_df ops ((l, e) # es) m = Option.bind (count_map ops e m) (count_df ops es)"

definition mf_getAllPts :: "'d set_ops \<Rightarrow> ('k, 'd) mut_df \<Rightarrow> ('d \<times> nat) list option" where
  "mf_getAllPts so s = Option.bind (mp_getAllPts so (mf_pts s)) (\<lambda>m.
     Option.bind (count_df (so_data so) (mf_in s) m) (count_df (so_data so) (mf_out s)))"

section \<open>The incremental table\<close>

record 'd mut_inc =
  mi_df :: "(nat, 'd) mut_df"
  mi_outUpd :: "(nat \<times> 'd) list"
  mi_inUpd :: "(nat \<times> 'd) list"

definition mi_make :: "bool \<Rightarrow> 'd mut_inc" where
  "mi_make reversePT = \<lparr>mi_df = mf_make reversePT, mi_outUpd = [], mi_inUpd = []\<rparr>"

text \<open>A set of changed variables per location: \<open>m[loc].set(var)\<close>, and \<open>reset\<close> and \<open>test\<close> on the set
  found at \<open>loc\<close>.\<close>

definition um_set :: "'d set_ops \<Rightarrow> nat \<Rightarrow> nat \<Rightarrow> (nat \<times> 'd) list \<Rightarrow> (nat \<times> 'd) list option" where
  "um_set so loc var m = map_option (\<lambda>d. at_put loc d m) (so_set so (at_get (so_new so) m loc) var)"

definition um_reset :: "'d set_ops \<Rightarrow> nat \<Rightarrow> nat \<Rightarrow> (nat \<times> 'd) list \<Rightarrow> (nat \<times> 'd) list option" where
  "um_reset so loc var m = (case map_of m loc of None \<Rightarrow> Some m
     | Some d \<Rightarrow> map_option (\<lambda>d'. at_put loc d' m) (so_reset so d var))"

definition um_test :: "'d set_ops \<Rightarrow> nat \<Rightarrow> nat \<Rightarrow> (nat \<times> 'd) list \<Rightarrow> (bool \<times> (nat \<times> 'd) list) option" where
  "um_test so loc var m = (case map_of m loc of None \<Rightarrow> Some (False, m)
     | Some d \<Rightarrow> map_option (\<lambda>r. (fst r, at_put loc (snd r) m)) (so_test so d var))"

definition mi_setVarDFInSetUpdated :: "'d set_ops \<Rightarrow> nat \<Rightarrow> nat \<Rightarrow> 'd mut_inc \<Rightarrow> 'd mut_inc option" where
  "mi_setVarDFInSetUpdated so loc var s = map_option (\<lambda>m. s\<lparr>mi_inUpd := m\<rparr>) (um_set so loc var (mi_inUpd s))"

definition mi_removeVarFromDFInUpdatedSet :: "'d set_ops \<Rightarrow> nat \<Rightarrow> nat \<Rightarrow> 'd mut_inc \<Rightarrow> 'd mut_inc option" where
  "mi_removeVarFromDFInUpdatedSet so loc var s = map_option (\<lambda>m. s\<lparr>mi_inUpd := m\<rparr>) (um_reset so loc var (mi_inUpd s))"

definition mi_varHasNewDFInPts :: "'d set_ops \<Rightarrow> nat \<Rightarrow> nat \<Rightarrow> 'd mut_inc \<Rightarrow> (bool \<times> 'd mut_inc) option" where
  "mi_varHasNewDFInPts so loc var s = map_option (\<lambda>r. (fst r, s\<lparr>mi_inUpd := snd r\<rparr>)) (um_test so loc var (mi_inUpd s))"

definition mi_getDFInUpdatedVar :: "'d set_ops \<Rightarrow> nat \<Rightarrow> 'd mut_inc \<Rightarrow> 'd \<times> 'd mut_inc" where
  "mi_getDFInUpdatedVar so loc s = (at_get (so_new so) (mi_inUpd s) loc, s\<lparr>mi_inUpd := at_touch (so_new so) loc (mi_inUpd s)\<rparr>)"

definition mi_setVarDFOutSetUpdated :: "'d set_ops \<Rightarrow> nat \<Rightarrow> nat \<Rightarrow> 'd mut_inc \<Rightarrow> 'd mut_inc option" where
  "mi_setVarDFOutSetUpdated so loc var s = map_option (\<lambda>m. s\<lparr>mi_outUpd := m\<rparr>) (um_set so loc var (mi_outUpd s))"

definition mi_removeVarFromDFOutUpdatedSet :: "'d set_ops \<Rightarrow> nat \<Rightarrow> nat \<Rightarrow> 'd mut_inc \<Rightarrow> 'd mut_inc option" where
  "mi_removeVarFromDFOutUpdatedSet so loc var s = map_option (\<lambda>m. s\<lparr>mi_outUpd := m\<rparr>) (um_reset so loc var (mi_outUpd s))"

definition mi_varHasNewDFOutPts :: "'d set_ops \<Rightarrow> nat \<Rightarrow> nat \<Rightarrow> 'd mut_inc \<Rightarrow> (bool \<times> 'd mut_inc) option" where
  "mi_varHasNewDFOutPts so loc var s = map_option (\<lambda>r. (fst r, s\<lparr>mi_outUpd := snd r\<rparr>)) (um_test so loc var (mi_outUpd s))"

definition mi_getDFOutUpdatedVar :: "'d set_ops \<Rightarrow> nat \<Rightarrow> 'd mut_inc \<Rightarrow> 'd \<times> 'd mut_inc" where
  "mi_getDFOutUpdatedVar so loc s = (at_get (so_new so) (mi_outUpd s) loc, s\<lparr>mi_outUpd := at_touch (so_new so) loc (mi_outUpd s)\<rparr>)"

definition mi_union :: "'d set_ops \<Rightarrow> nat df_cell \<Rightarrow> nat df_cell \<Rightarrow> 'd mut_inc \<Rightarrow> (bool \<times> 'd mut_inc) option" where
  "mi_union so dst src s = map_option (\<lambda>r. (fst r, s\<lparr>mi_df := snd r\<rparr>)) (mf_union so dst src (mi_df s))"

text \<open>A union whose destination is marked if it changes.\<close>

definition mi_in_step :: "'d set_ops \<Rightarrow> nat \<Rightarrow> nat \<Rightarrow> nat df_cell \<Rightarrow> 'd mut_inc \<Rightarrow> (bool \<times> 'd mut_inc) option" where
  "mi_in_step so dstLoc dstVar src s = Option.bind (mi_union so (DfIn dstLoc dstVar) src s) (\<lambda>q.
     if fst q then map_option (Pair True) (mi_setVarDFInSetUpdated so dstLoc dstVar (snd q)) else Some (False, snd q))"

definition mi_out_step :: "'d set_ops \<Rightarrow> nat \<Rightarrow> nat \<Rightarrow> nat df_cell \<Rightarrow> 'd mut_inc \<Rightarrow> (bool \<times> 'd mut_inc) option" where
  "mi_out_step so dstLoc dstVar src s = Option.bind (mi_union so (DfOut dstLoc dstVar) src s) (\<lambda>q.
     if fst q then map_option (Pair True) (mi_setVarDFOutSetUpdated so dstLoc dstVar (snd q)) else Some (False, snd q))"

definition mi_updateDFInFromIn :: "'d set_ops \<Rightarrow> nat \<Rightarrow> nat \<Rightarrow> nat \<Rightarrow> nat \<Rightarrow> 'd mut_inc \<Rightarrow> (bool \<times> 'd mut_inc) option" where
  "mi_updateDFInFromIn so srcLoc srcVar dstLoc dstVar s =
     Option.bind (mi_varHasNewDFInPts so srcLoc srcVar s) (\<lambda>h.
       if fst h then mi_in_step so dstLoc dstVar (DfIn srcLoc srcVar) (snd h) else Some (False, snd h))"

definition mi_updateDFInFromOut :: "'d set_ops \<Rightarrow> nat \<Rightarrow> nat \<Rightarrow> nat \<Rightarrow> nat \<Rightarrow> 'd mut_inc \<Rightarrow> (bool \<times> 'd mut_inc) option" where
  "mi_updateDFInFromOut so srcLoc srcVar dstLoc dstVar s =
     Option.bind (mi_varHasNewDFOutPts so srcLoc srcVar s) (\<lambda>h.
       if fst h then mi_in_step so dstLoc dstVar (DfOut srcLoc srcVar) (snd h) else Some (False, snd h))"

definition mi_updateDFOutFromIn :: "'d set_ops \<Rightarrow> nat \<Rightarrow> nat \<Rightarrow> nat \<Rightarrow> nat \<Rightarrow> 'd mut_inc \<Rightarrow> (bool \<times> 'd mut_inc) option" where
  "mi_updateDFOutFromIn so srcLoc srcVar dstLoc dstVar s =
     Option.bind (mi_varHasNewDFInPts so srcLoc srcVar s) (\<lambda>h.
       if fst h then Option.bind (mi_removeVarFromDFInUpdatedSet so srcLoc srcVar (snd h))
         (mi_out_step so dstLoc dstVar (DfIn srcLoc srcVar))
       else Some (False, snd h))"

definition mi_updateAllDFInFromOut :: "'d set_ops \<Rightarrow> nat \<Rightarrow> nat \<Rightarrow> nat \<Rightarrow> nat \<Rightarrow> 'd mut_inc \<Rightarrow> (bool \<times> 'd mut_inc) option" where
  "mi_updateAllDFInFromOut so srcLoc srcVar dstLoc dstVar = mi_in_step so dstLoc dstVar (DfOut srcLoc srcVar)"

definition mi_updateAllDFInFromIn :: "'d set_ops \<Rightarrow> nat \<Rightarrow> nat \<Rightarrow> nat \<Rightarrow> nat \<Rightarrow> 'd mut_inc \<Rightarrow> (bool \<times> 'd mut_inc) option" where
  "mi_updateAllDFInFromIn so srcLoc srcVar dstLoc dstVar = mi_in_step so dstLoc dstVar (DfIn srcLoc srcVar)"

definition mi_updateAllDFOutFromIn :: "'d set_ops \<Rightarrow> nat \<Rightarrow> nat \<Rightarrow> bool \<Rightarrow> 'd mut_inc \<Rightarrow> (bool \<times> 'd mut_inc) option" where
  "mi_updateAllDFOutFromIn so loc singleton strongUpdates s =
     (if mf_hasDFInSet loc (mi_df s)
      then let g = mi_getDFInUpdatedVar so loc s in
        Option.bind (so_elems so (fst g)) (\<lambda>pts.
          out_loop (\<lambda>var. mi_updateDFOutFromIn so loc var loc var) singleton strongUpdates pts False (snd g))
      else Some (False, s))"

definition mi_updateTLVPts :: "'d set_ops \<Rightarrow> nat \<Rightarrow> nat \<Rightarrow> nat \<Rightarrow> 'd mut_inc \<Rightarrow> (bool \<times> 'd mut_inc) option" where
  "mi_updateTLVPts so srcLoc srcVar dstVar s =
     Option.bind (mi_varHasNewDFInPts so srcLoc srcVar s) (\<lambda>h.
       if fst h then Option.bind (mi_removeVarFromDFInUpdatedSet so srcLoc srcVar (snd h)) (\<lambda>s1.
         let df = mf_touch so (DfIn srcLoc srcVar) (mi_df s1) in
         map_option (\<lambda>r. (fst r, s1\<lparr>mi_df := df\<lparr>mf_pts := snd r\<rparr>\<rparr>))
           (mp_unionPtsSet so dstVar (mf_at so df (DfIn srcLoc srcVar)) (mf_pts df)))
       else Some (False, snd h))"

definition mi_updateATVPts :: "'d set_ops \<Rightarrow> nat \<Rightarrow> nat \<Rightarrow> nat \<Rightarrow> 'd mut_inc \<Rightarrow> (bool \<times> 'd mut_inc) option" where
  "mi_updateATVPts so srcVar dstLoc dstVar = mi_out_step so dstLoc dstVar (Top srcVar)"

fun remove_out_loop :: "'d set_ops \<Rightarrow> nat \<Rightarrow> nat list \<Rightarrow> 'd mut_inc \<Rightarrow> 'd mut_inc option" where
  "remove_out_loop so loc [] s = Some s"
| "remove_out_loop so loc (var # vars) s =
    Option.bind (mi_removeVarFromDFOutUpdatedSet so loc var s) (remove_out_loop so loc vars)"

definition mi_clearAllDFOutUpdatedVar :: "'d set_ops \<Rightarrow> nat \<Rightarrow> 'd mut_inc \<Rightarrow> 'd mut_inc option" where
  "mi_clearAllDFOutUpdatedVar so loc s =
     (if mf_hasDFOutSet loc (mi_df s)
      then let g = mi_getDFOutUpdatedVar so loc s in
        Option.bind (so_elems so (fst g)) (\<lambda>pts. remove_out_loop so loc pts (snd g))
      else Some s)"

section \<open>Commands and invariant\<close>

fun mf_base :: "'d set_ops \<Rightarrow> ('k, 'd) pts_cmd \<Rightarrow> ('k, 'd) mut_df \<Rightarrow> (bool \<times> ('k, 'd) mut_df) option" where
  "mf_base so (AddPts k n) s = mf_addPts so k n s"
| "mf_base so (UnionPts k l) s = mf_unionPts so k l s"
| "mf_base so (UnionPtsSet k d) s = mf_unionPtsSet so k d s"
| "mf_base so (ClearPts k n) s = map_option (Pair False) (mf_clearPts so k n s)"
| "mf_base so (ClearFullPts k) s = map_option (Pair False) (mf_clearFullPts so k s)"

fun mf_step :: "'d set_ops \<Rightarrow> ('k, 'd) df_cmd \<Rightarrow> ('k, 'd) mut_df \<Rightarrow> (bool \<times> ('k, 'd) mut_df) option" where
  "mf_step so (DfBase c) s = mf_base so c s"
| "mf_step so (InFromIn l v m w) s = mf_updateDFInFromIn so l v m w s"
| "mf_step so (InFromOut l v m w) s = mf_updateDFInFromOut so l v m w s"
| "mf_step so (OutFromIn l v m w) s = mf_updateDFOutFromIn so l v m w s"
| "mf_step so (AllInFromIn l v m w) s = mf_updateAllDFInFromIn so l v m w s"
| "mf_step so (AllInFromOut l v m w) s = mf_updateAllDFInFromOut so l v m w s"
| "mf_step so (AllOutFromIn l x str) s = mf_updateAllDFOutFromIn so l x str s"
| "mf_step so (TLVPts l v k) s = mf_updateTLVPts so l v k s"
| "mf_step so (ATVPts v l k) s = mf_updateATVPts so v l k s"
| "mf_step so (ClearUpdated l) s = Some (False, s)"

fun mi_step :: "'d set_ops \<Rightarrow> (nat, 'd) df_cmd \<Rightarrow> 'd mut_inc \<Rightarrow> (bool \<times> 'd mut_inc) option" where
  "mi_step so (DfBase c) s = map_option (\<lambda>r. (fst r, s\<lparr>mi_df := snd r\<rparr>)) (mf_base so c (mi_df s))"
| "mi_step so (InFromIn l v m w) s = mi_updateDFInFromIn so l v m w s"
| "mi_step so (InFromOut l v m w) s = mi_updateDFInFromOut so l v m w s"
| "mi_step so (OutFromIn l v m w) s = mi_updateDFOutFromIn so l v m w s"
| "mi_step so (AllInFromIn l v m w) s = mi_updateAllDFInFromIn so l v m w s"
| "mi_step so (AllInFromOut l v m w) s = mi_updateAllDFInFromOut so l v m w s"
| "mi_step so (AllOutFromIn l x str) s = mi_updateAllDFOutFromIn so l x str s"
| "mi_step so (TLVPts l v k) s = mi_updateTLVPts so l v k s"
| "mi_step so (ATVPts v l k) s = mi_updateATVPts so v l k s"
| "mi_step so (ClearUpdated l) s = map_option (Pair False) (mi_clearAllDFOutUpdatedVar so l s)"

text \<open>The tables are used without reverse sets, which \<open>addPts\<close> and \<open>unionPts\<close> do not maintain.\<close>

definition mf_inv :: "('d \<Rightarrow> bool) \<Rightarrow> 'd set_ops \<Rightarrow> ('k, 'd) mut_df \<Rightarrow> bool" where
  "mf_inv dinv so s = (\<not> mp_rev (mf_pts s) \<and> (\<forall>x. dinv (mf_at so s x)))"

definition mf_cells :: "('d \<Rightarrow> nat set) \<Rightarrow> 'd set_ops \<Rightarrow> ('k, 'd) mut_df \<Rightarrow> 'k df_cell \<Rightarrow> nat set" where
  "mf_cells dset so s x = dset (mf_at so s x)"

text \<open>Locations with an IN or OUT set keep it.\<close>

definition df_grows :: "('k, 'd) mut_df \<Rightarrow> ('k, 'd) mut_df \<Rightarrow> bool" where
  "df_grows s t = (\<forall>l. (mf_hasDFInSet l s \<longrightarrow> mf_hasDFInSet l t) \<and> (mf_hasDFOutSet l s \<longrightarrow> mf_hasDFOutSet l t))"

definition mf_result :: "('d \<Rightarrow> bool) \<Rightarrow> ('d \<Rightarrow> nat set) \<Rightarrow> 'd set_ops \<Rightarrow> ('k, 'd) mut_df \<Rightarrow>
    bool \<times> ('k df_cell \<Rightarrow> nat set) \<Rightarrow> (bool \<times> ('k, 'd) mut_df) option \<Rightarrow> bool" where
  "mf_result dinv dset so s q res = (\<exists>t. res = Some (fst q, t) \<and> mf_inv dinv so t \<and> mf_cells dset so t = snd q
    \<and> df_grows s t)"

lemma mf_at_touch [simp]: "mf_at so (mf_touch so c s) x = mf_at so s x"
  by (cases c; cases x) simp_all

lemma mf_at_put [simp]: "mf_at so (mf_put c d s) x = (if x = c then d else mf_at so s x)"
  by (cases c; cases x) auto

lemma mf_rev [simp]: "mp_rev (mf_pts (mf_put c d s)) = mp_rev (mf_pts s)" "mp_rev (mf_pts (mf_touch so c s)) = mp_rev (mf_pts s)"
  by (cases c; simp)+

lemma mf_has [simp]:
  "mf_hasDFInSet l (mf_put c d s) = (mf_hasDFInSet l s \<or> (\<exists>k. c = DfIn l k))"
  "mf_hasDFOutSet l (mf_put c d s) = (mf_hasDFOutSet l s \<or> (\<exists>k. c = DfOut l k))"
  "mf_hasDFInSet l (mf_touch so c s) = (mf_hasDFInSet l s \<or> (\<exists>k. c = DfIn l k))"
  "mf_hasDFOutSet l (mf_touch so c s) = (mf_hasDFOutSet l s \<or> (\<exists>k. c = DfOut l k))"
  by (cases c; auto simp: mf_hasDFInSet_def mf_hasDFOutSet_def)+

lemma mf_has_pts [simp]:
  "mf_hasDFInSet l (s\<lparr>mf_pts := p\<rparr>) = mf_hasDFInSet l s" "mf_hasDFOutSet l (s\<lparr>mf_pts := p\<rparr>) = mf_hasDFOutSet l s"
  by (simp_all add: mf_hasDFInSet_def mf_hasDFOutSet_def)

declare mf_at.simps [simp del] mf_touch.simps [simp del] mf_put.simps [simp del]

lemma df_grows_refl [simp]: "df_grows s s"
  by (simp add: df_grows_def)

lemma df_grows_trans: "df_grows s t \<Longrightarrow> df_grows t u \<Longrightarrow> df_grows s u"
  by (simp add: df_grows_def)

context pts_sets begin

lemma mf_union_ok:
  assumes "mf_inv dinv so s"
  obtains t where "mf_union so dst src s = Some (fst (cell_union dst src (mf_cells dset so s)), t)" "mf_inv dinv so t"
    "mf_cells dset so t = snd (cell_union dst src (mf_cells dset so s))" "df_grows s t"
    "\<And>l k. dst = DfIn l k \<Longrightarrow> mf_hasDFInSet l t" "\<And>l k. dst = DfOut l k \<Longrightarrow> mf_hasDFOutSet l t"
proof -
  have i: "dinv (mf_at so s x)" for x using assms by (simp add: mf_inv_def)
  obtain r where r: "so_or so (dst = src) (mf_at so s dst) (mf_at so s src)
      = Some (r, \<not> dset (mf_at so s src) \<subseteq> dset (mf_at so s dst))"
    "dinv r" "dset r = dset (mf_at so s dst) \<union> dset (mf_at so s src)"
    using orr_ok [OF i i, of "dst = src" dst src] by auto
  let ?t = "mf_put dst r (mf_touch so src (mf_touch so dst s))"
  show ?thesis
  proof (rule that)
    show "mf_union so dst src s = Some (fst (cell_union dst src (mf_cells dset so s)), ?t)"
      using r(1) by (simp add: mf_union_def cell_union_def mf_cells_def)
    show "mf_inv dinv so ?t" using assms r(2) by (simp add: mf_inv_def)
    show "mf_cells dset so ?t = snd (cell_union dst src (mf_cells dset so s))"
      using r(3) by (simp add: cell_union_def mf_cells_def fun_eq_iff)
  qed (simp_all add: df_grows_def)
qed

lemma mf_union_result:
  "mf_inv dinv so s \<Longrightarrow> mf_result dinv dset so s (cell_union dst src (mf_cells dset so s)) (mf_union so dst src s)"
  by (rule mf_union_ok) (auto simp: mf_result_def)

text \<open>Operations on top-level variables.\<close>

lemma mf_put_top:
  assumes "mf_inv dinv so s" "dinv d"
  shows "mf_inv dinv so (mf_put (Top k) d s)"
    "mf_cells dset so (mf_put (Top k) d s) = (mf_cells dset so s)(Top k := dset d)" "df_grows s (mf_put (Top k) d s)"
  using assms by (auto simp: mf_inv_def mf_cells_def df_grows_def fun_eq_iff)

lemma mf_mp_inv: "mf_inv dinv so s \<Longrightarrow> mp_inv dinv dset so (mf_pts s)"
  unfolding mf_inv_def mp_inv_def by (metis mf_at.simps(3))

lemma mf_pts_update:
  assumes "mf_inv dinv so s" "mp_inv dinv dset so p" "\<not> mp_rev p"
  shows "mf_inv dinv so (s\<lparr>mf_pts := p\<rparr>)"
    "mf_cells dset so (s\<lparr>mf_pts := p\<rparr>) = (\<lambda>x. case x of Top k \<Rightarrow> mp_nodes dset so p k | _ \<Rightarrow> mf_cells dset so s x)"
proof -
  have at: "mf_at so (s\<lparr>mf_pts := p\<rparr>) x = (case x of Top k \<Rightarrow> mp_at so p k | _ \<Rightarrow> mf_at so s x)" for x
    by (cases x) (simp_all add: mf_at.simps)
  show "mf_inv dinv so (s\<lparr>mf_pts := p\<rparr>)"
    using assms mp_at_inv [OF assms(2)] by (auto simp: mf_inv_def at split: df_cell.split)
  show "mf_cells dset so (s\<lparr>mf_pts := p\<rparr>) = (\<lambda>x. case x of Top k \<Rightarrow> mp_nodes dset so p k | _ \<Rightarrow> mf_cells dset so s x)"
    by (auto simp: mf_cells_def at mp_nodes_def fun_eq_iff split: df_cell.split)
qed

lemma mf_top_nodes: "mf_cells dset so s (Top k) = mp_nodes dset so (mf_pts s) k"
  by (simp add: mf_cells_def mp_nodes_def mf_at.simps)

lemma mf_lift_result:
  assumes s: "mf_inv dinv so s" and m: "mp_result dinv dset so (mf_pts s) b Q (map_option (Pair b) r)"
    and Q: "q = (b, \<lambda>x. case x of Top k \<Rightarrow> Q k | _ \<Rightarrow> mf_cells dset so s x)"
  shows "mf_result dinv dset so s q (map_option (Pair b) (map_option (\<lambda>t. s\<lparr>mf_pts := t\<rparr>) r))"
proof -
  obtain p where p: "r = Some p" "mp_inv dinv dset so p" "mp_nodes dset so p = Q" "mp_rev p = mp_rev (mf_pts s)"
    using m by (auto simp: mp_result_def)
  have rv: "\<not> mp_rev p" using s p(4) by (simp add: mf_inv_def)
  show ?thesis using mf_pts_update [OF s p(2) rv, unfolded p(3)] p(1) Q by (simp add: mf_result_def df_grows_def)
qed

lemma mf_base_ok:
  assumes s: "mf_inv dinv so s" and ok: "cmd_ok dinv c"
  shows "mf_result dinv dset so s (base_cells dset c (mf_cells dset so s)) (mf_base so c s)"
proof (cases c)
  case (AddPts k n)
  have "dinv (mf_at so s (Top k))" using s by (simp add: mf_inv_def)
  then obtain d where d: "so_test_and_set so (mf_at so s (Top k)) n = Some (d, n \<notin> dset (mf_at so s (Top k)))"
    "dinv d" "dset d = insert n (dset (mf_at so s (Top k)))"
    using tas_ok [of "mf_at so s (Top k)" n] ok AddPts by auto
  then show ?thesis
    using mf_put_top [OF s d(2), of k] unfolding AddPts base_cells_simps
    by (simp add: mf_result_def mf_addPts_def mf_cells_def)
next
  case (UnionPts k l)
  have "base_cells dset c (mf_cells dset so s) = cell_union (Top k) (Top l) (mf_cells dset so s)"
    by (simp add: UnionPts base_cells_simps cell_union_def)
  then show ?thesis using mf_union_result [OF s] UnionPts by (simp add: mf_unionPts_def)
next
  case (UnionPtsSet k d)
  have i: "dinv (mf_at so s (Top k))" "dinv d" using s ok UnionPtsSet by (auto simp: mf_inv_def)
  obtain r where r: "so_or so False (mf_at so s (Top k)) d = Some (r, \<not> dset d \<subseteq> dset (mf_at so s (Top k)))"
    "dinv r" "dset r = dset (mf_at so s (Top k)) \<union> dset d"
    using orr_ok [OF i, of False] by auto
  then show ?thesis
    using mf_put_top [OF s r(2), of k] unfolding UnionPtsSet base_cells_simps
    by (simp add: mf_result_def mf_unionPtsSet_def mf_cells_def)
next
  case (ClearPts k n)
  show ?thesis
    unfolding ClearPts mf_base.simps mf_clearPts_def
    by (rule mf_lift_result [OF s mp_clearPts_ok [OF mf_mp_inv [OF s]]])
      (use ok ClearPts in \<open>auto simp: base_cells_simps mf_top_nodes fun_eq_iff split: df_cell.split\<close>)
next
  case (ClearFullPts k)
  show ?thesis
    unfolding ClearFullPts mf_base.simps mf_clearFullPts_def
    by (rule mf_lift_result [OF s mp_clearFullPts_ok [OF mf_mp_inv [OF s]]])
      (auto simp: base_cells_simps mf_top_nodes fun_eq_iff split: df_cell.split)
qed

lemma mf_absent_empty:
  assumes "v \<notin> set (map fst (at_get [] (mf_in s) l))"
  shows "mf_cells dset so s (DfIn l v) = {}"
  using dm_at_absent [of v "mf_in s" l "so_new so"] assms new_ok(2) by (simp add: mf_cells_def mf_at.simps)

lemma mf_out_ok:
  assumes s: "mf_inv dinv so s"
  shows "mf_result dinv dset so s (out_all {v. \<not> (str \<and> v = x)} l (mf_cells dset so s)) (mf_updateAllDFOutFromIn so l x str s)"
proof (cases "mf_hasDFInSet l s")
  case False
  then have "mf_cells dset so s (DfIn l v) = {}" for v
    by (intro mf_absent_empty) (simp add: mf_hasDFInSet_def dm_not_has)
  then have "out_all {v. \<not> (str \<and> v = x)} l (mf_cells dset so s) = (False, mf_cells dset so s)"
    by (auto simp: out_all_def fun_eq_iff split: df_cell.split)
  then show ?thesis using False s by (simp add: mf_updateAllDFOutFromIn_def mf_result_def)
next
  case True
  let ?vs = "map fst (at_get [] (mf_in s) l)" and ?P = "mf_cells dset so s"
  let ?J = "\<lambda>t. mf_inv dinv so t \<and> df_grows s t"
  have "case out_loop (\<lambda>v. mf_updateDFOutFromIn so l v l v) x str ?vs False s of None \<Rightarrow> Suc (length ?vs) < 0 + length ?vs
    | Some (b, t) \<Rightarrow> ?J t \<and> (b, mf_cells dset so t) = spec_loop (\<lambda>v. cell_union (DfOut l v) (DfIn l v)) x str ?vs False ?P"
  proof (rule out_loop_sim [where sz = "\<lambda>_. 0" and J = ?J and abs = "mf_cells dset so"])
    fix v and t assume "?J t"
    then show "case mf_updateDFOutFromIn so l v l v t of None \<Rightarrow> Suc (length ?vs) \<le> 0
      | Some (b, u) \<Rightarrow> ?J u \<and> (b, mf_cells dset so u) = cell_union (DfOut l v) (DfIn l v) (mf_cells dset so t) \<and> 0 \<le> Suc 0"
      using df_grows_trans mf_union_result [of t "DfOut l v" "DfIn l v"]
      by (auto simp: mf_updateDFOutFromIn_def mf_result_def)
  qed (use s in simp)
  then obtain t where t: "out_loop (\<lambda>v. mf_updateDFOutFromIn so l v l v) x str ?vs False s
      = Some (fst (out_all {v \<in> set ?vs. \<not> (str \<and> v = x)} l ?P), t)" "?J t"
    "mf_cells dset so t = snd (out_all {v \<in> set ?vs. \<not> (str \<and> v = x)} l ?P)"
    by (auto simp: out_loop_plain Let_def prod_eq_iff split: option.splits)
  have "out_all {v \<in> set ?vs. \<not> (str \<and> v = x)} l ?P = out_all {v. \<not> (str \<and> v = x)} l ?P"
    by (rule out_all_subset) (use mf_absent_empty [of _ s l] in auto)
  then show ?thesis using t True by (simp add: mf_updateAllDFOutFromIn_def mf_result_def)
qed

lemma mf_step_ok:
  assumes "mf_inv dinv so s" "df_ok dinv c"
  shows "mf_result dinv dset so s (df_spec dset c (mf_cells dset so s)) (mf_step so c s)"
  using assms mf_union_result [OF assms(1)] mf_base_ok [OF assms(1)] mf_out_ok [OF assms(1)]
  by (cases c) (simp_all add: mf_updateDFInFromIn_def mf_updateDFInFromOut_def mf_updateDFOutFromIn_def
      mf_updateAllDFInFromIn_def mf_updateAllDFInFromOut_def mf_updateTLVPts_def mf_updateATVPts_def mf_result_def)

lemma mf_table: "refines (mf_step so :: ('k, 'd) df_cmd \<Rightarrow> _) (df_spec dset) (df_ok dinv) (mf_inv dinv so) (\<lambda>_ _. False) (mf_cells dset so)"
proof
  fix s :: "('k, 'd) mut_df" and c :: "('k, 'd) df_cmd" and b s'
  assume a: "mf_inv dinv so s" "df_ok dinv c"
  note r = mf_step_ok [OF a]
  show "False" if "mf_step so c s = None" using r that by (simp add: mf_result_def)
  show "mf_inv dinv so s' \<and> (b, mf_cells dset so s') = df_spec dset c (mf_cells dset so s)" if "mf_step so c s = Some (b, s')"
    using r that by (simp add: mf_result_def)
qed

end

section \<open>The incremental table implements its specification\<close>

definition um_ok :: "('d \<Rightarrow> bool) \<Rightarrow> 'd set_ops \<Rightarrow> (nat \<times> 'd) list \<Rightarrow> bool" where
  "um_ok dinv so m = (\<forall>l. dinv (at_get (so_new so) m l))"

definition um_vars :: "('d \<Rightarrow> nat set) \<Rightarrow> 'd set_ops \<Rightarrow> (nat \<times> 'd) list \<Rightarrow> nat \<Rightarrow> nat set" where
  "um_vars dset so m l = dset (at_get (so_new so) m l)"

definition mi_abs :: "('d \<Rightarrow> nat set) \<Rightarrow> 'd set_ops \<Rightarrow> 'd mut_inc \<Rightarrow> nat inc_state" where
  "mi_abs dset so s = (mf_cells dset so (mi_df s), um_vars dset so (mi_inUpd s), um_vars dset so (mi_outUpd s))"

definition mi_inv :: "('d \<Rightarrow> bool) \<Rightarrow> ('d \<Rightarrow> nat set) \<Rightarrow> 'd set_ops \<Rightarrow> 'd mut_inc \<Rightarrow> bool" where
  "mi_inv dinv dset so s = (mf_inv dinv so (mi_df s) \<and> um_ok dinv so (mi_inUpd s) \<and> um_ok dinv so (mi_outUpd s)
    \<and> (\<forall>l. um_vars dset so (mi_inUpd s) l \<noteq> {} \<longrightarrow> mf_hasDFInSet l (mi_df s))
    \<and> (\<forall>l. um_vars dset so (mi_outUpd s) l \<noteq> {} \<longrightarrow> mf_hasDFOutSet l (mi_df s)))"

definition mi_result :: "('d \<Rightarrow> bool) \<Rightarrow> ('d \<Rightarrow> nat set) \<Rightarrow> 'd set_ops \<Rightarrow> bool \<times> nat inc_state \<Rightarrow>
    (bool \<times> 'd mut_inc) option \<Rightarrow> bool" where
  "mi_result dinv dset so q res = (\<exists>t. res = Some (fst q, t) \<and> mi_inv dinv dset so t \<and> mi_abs dset so t = snd q)"

context pts_sets begin

lemma um_vars_put: "um_vars dset so (at_put l d m) = (um_vars dset so m)(l := dset d)"
  by (simp add: um_vars_def fun_eq_iff)

lemma um_ok_put: "um_ok dinv so m \<Longrightarrow> dinv d \<Longrightarrow> um_ok dinv so (at_put l d m)"
  by (simp add: um_ok_def)

lemma um_get: "map_of m l = Some d \<Longrightarrow> at_get dflt m l = d" "map_of m l = None \<Longrightarrow> at_get dflt m l = dflt"
  by (simp_all add: at_get_def)

lemma um_set_ok:
  assumes "um_ok dinv so m" "node_ok v"
  obtains m' where "um_set so l v m = Some m'" "um_ok dinv so m'"
    "um_vars dset so m' = (um_vars dset so m)(l := insert v (um_vars dset so m l))"
proof -
  have i: "dinv (at_get (so_new so) m l)" using assms(1) by (simp add: um_ok_def)
  obtain d where d: "so_set so (at_get (so_new so) m l) v = Some d" "dinv d" "dset d = insert v (um_vars dset so m l)"
    using set_ok [OF i assms(2)] by (auto simp: um_vars_def)
  show ?thesis
    by (rule that [of "at_put l d m"]) (use d assms(1) um_ok_put in \<open>simp_all add: um_set_def um_vars_put\<close>)
qed

lemma um_reset_ok:
  assumes "um_ok dinv so m" "node_ok v"
  obtains m' where "um_reset so l v m = Some m'" "um_ok dinv so m'"
    "um_vars dset so m' = (um_vars dset so m)(l := um_vars dset so m l - {v})"
proof (cases "map_of m l")
  case None
  then have "um_vars dset so m l = {}" by (simp add: um_vars_def um_get new_ok(2))
  then show ?thesis using that [of m] None assms(1) by (simp add: um_reset_def fun_eq_iff)
next
  case (Some d)
  have i: "dinv d" using assms(1) um_get(1) [OF Some, of "so_new so"] unfolding um_ok_def by metis
  obtain d' where d': "so_reset so d v = Some d'" "dinv d'" "dset d' = um_vars dset so m l - {v}"
    using reset_ok [OF i assms(2)] by (auto simp: um_vars_def um_get(1) [OF Some])
  show ?thesis
    by (rule that [of "at_put l d' m"]) (use d' assms(1) um_ok_put Some in \<open>simp_all add: um_reset_def um_vars_put\<close>)
qed

lemma um_test_ok:
  assumes "um_ok dinv so m" "node_ok v"
  obtains m' where "um_test so l v m = Some (v \<in> um_vars dset so m l, m')" "um_ok dinv so m'"
    "um_vars dset so m' = um_vars dset so m"
proof (cases "map_of m l")
  case None
  then have "um_vars dset so m l = {}" by (simp add: um_vars_def um_get new_ok(2))
  then show ?thesis using that [of m] None assms(1) by (simp add: um_test_def)
next
  case (Some d)
  have i: "dinv d" using assms(1) um_get(1) [OF Some, of "so_new so"] unfolding um_ok_def by metis
  obtain d' where d': "so_test so d v = Some (v \<in> um_vars dset so m l, d')" "dinv d'" "dset d' = um_vars dset so m l"
    using test_ok [OF i assms(2)] by (auto simp: um_vars_def um_get(1) [OF Some])
  show ?thesis
    by (rule that [of "at_put l d' m"])
      (use d' assms(1) um_ok_put Some in \<open>simp_all add: um_test_def um_vars_put fun_eq_iff\<close>)
qed

text \<open>The steps an operation is made of.\<close>

lemma has_in:
  assumes "mi_inv dinv dset so s" "node_ok v" "mi_abs dset so s = (P, I, U)"
  obtains t where "mi_varHasNewDFInPts so l v s = Some (v \<in> I l, t)" "mi_inv dinv dset so t" "mi_abs dset so t = (P, I, U)"
proof -
  have o: "um_ok dinv so (mi_inUpd s)" using assms(1) by (simp add: mi_inv_def)
  obtain m where m: "um_test so l v (mi_inUpd s) = Some (v \<in> um_vars dset so (mi_inUpd s) l, m)" "um_ok dinv so m"
    "um_vars dset so m = um_vars dset so (mi_inUpd s)" by (rule um_test_ok [OF o assms(2)])
  show ?thesis
    by (rule that [of "s\<lparr>mi_inUpd := m\<rparr>"])
      (use assms m in \<open>auto simp: mi_varHasNewDFInPts_def mi_inv_def mi_abs_def\<close>)
qed

lemma has_out:
  assumes "mi_inv dinv dset so s" "node_ok v" "mi_abs dset so s = (P, I, U)"
  obtains t where "mi_varHasNewDFOutPts so l v s = Some (v \<in> U l, t)" "mi_inv dinv dset so t" "mi_abs dset so t = (P, I, U)"
proof -
  have o: "um_ok dinv so (mi_outUpd s)" using assms(1) by (simp add: mi_inv_def)
  obtain m where m: "um_test so l v (mi_outUpd s) = Some (v \<in> um_vars dset so (mi_outUpd s) l, m)" "um_ok dinv so m"
    "um_vars dset so m = um_vars dset so (mi_outUpd s)" by (rule um_test_ok [OF o assms(2)])
  show ?thesis
    by (rule that [of "s\<lparr>mi_outUpd := m\<rparr>"])
      (use assms m in \<open>auto simp: mi_varHasNewDFOutPts_def mi_inv_def mi_abs_def\<close>)
qed

lemma remove_in:
  assumes "mi_inv dinv dset so s" "node_ok v" "mi_abs dset so s = (P, I, U)"
  obtains t where "mi_removeVarFromDFInUpdatedSet so l v s = Some t" "mi_inv dinv dset so t"
    "mi_abs dset so t = (P, I(l := I l - {v}), U)"
proof -
  have o: "um_ok dinv so (mi_inUpd s)" using assms(1) by (simp add: mi_inv_def)
  obtain m where m: "um_reset so l v (mi_inUpd s) = Some m" "um_ok dinv so m"
    "um_vars dset so m = (um_vars dset so (mi_inUpd s))(l := um_vars dset so (mi_inUpd s) l - {v})"
    by (rule um_reset_ok [OF o assms(2)])
  show ?thesis
    by (rule that [of "s\<lparr>mi_inUpd := m\<rparr>"])
      (use assms m in \<open>auto simp: mi_removeVarFromDFInUpdatedSet_def mi_inv_def mi_abs_def\<close>)
qed

lemma remove_out:
  assumes "mi_inv dinv dset so s" "node_ok v" "mi_abs dset so s = (P, I, U)"
  obtains t where "mi_removeVarFromDFOutUpdatedSet so l v s = Some t" "mi_inv dinv dset so t"
    "mi_abs dset so t = (P, I, U(l := U l - {v}))"
proof -
  have o: "um_ok dinv so (mi_outUpd s)" using assms(1) by (simp add: mi_inv_def)
  obtain m where m: "um_reset so l v (mi_outUpd s) = Some m" "um_ok dinv so m"
    "um_vars dset so m = (um_vars dset so (mi_outUpd s))(l := um_vars dset so (mi_outUpd s) l - {v})"
    by (rule um_reset_ok [OF o assms(2)])
  show ?thesis
    by (rule that [of "s\<lparr>mi_outUpd := m\<rparr>"])
      (use assms m in \<open>auto simp: mi_removeVarFromDFOutUpdatedSet_def mi_inv_def mi_abs_def\<close>)
qed

lemma mi_union_ok:
  assumes "mi_inv dinv dset so s" "mi_abs dset so s = (P, I, U)"
  obtains t where "mi_union so dst src s = Some (fst (cell_union dst src P), t)" "mi_inv dinv dset so t"
    "mi_abs dset so t = (snd (cell_union dst src P), I, U)"
    "\<And>l k. dst = DfIn l k \<Longrightarrow> mf_hasDFInSet l (mi_df t)" "\<And>l k. dst = DfOut l k \<Longrightarrow> mf_hasDFOutSet l (mi_df t)"
proof -
  have s: "mf_inv dinv so (mi_df s)" "mf_cells dset so (mi_df s) = P" using assms by (simp_all add: mi_inv_def mi_abs_def)
  obtain d where d: "mf_union so dst src (mi_df s) = Some (fst (cell_union dst src P), d)" "mf_inv dinv so d"
    "mf_cells dset so d = snd (cell_union dst src P)" "df_grows (mi_df s) d"
    "\<And>l k. dst = DfIn l k \<Longrightarrow> mf_hasDFInSet l d" "\<And>l k. dst = DfOut l k \<Longrightarrow> mf_hasDFOutSet l d"
    by (rule mf_union_ok [OF s(1), of dst src]) (use s(2) in auto)
  show ?thesis
    by (rule that [of "s\<lparr>mi_df := d\<rparr>"])
      (use assms d in \<open>auto simp: mi_union_def mi_inv_def mi_abs_def df_grows_def\<close>)
qed

lemma mi_in_step_ok:
  assumes "mi_inv dinv dset so s" "mi_abs dset so s = a" "node_ok w"
  shows "mi_result dinv dset so (union_mark_in m w src a) (mi_in_step so m w src s)"
proof -
  obtain P I U where a: "a = (P, I, U)" by (cases a)
  obtain t where t: "mi_union so (DfIn m w) src s = Some (fst (cell_union (DfIn m w) src P), t)" "mi_inv dinv dset so t"
    "mi_abs dset so t = (snd (cell_union (DfIn m w) src P), I, U)" "mf_hasDFInSet m (mi_df t)"
    by (rule mi_union_ok [OF assms(1), of P I U "DfIn m w" src]) (use assms(2) a in auto)
  have o: "um_ok dinv so (mi_inUpd t)" using t(2) by (simp add: mi_inv_def)
  obtain n where n: "um_set so m w (mi_inUpd t) = Some n" "um_ok dinv so n"
    "um_vars dset so n = (um_vars dset so (mi_inUpd t))(m := insert w (um_vars dset so (mi_inUpd t) m))"
    by (rule um_set_ok [OF o assms(3)])
  then have "mi_inv dinv dset so (t\<lparr>mi_inUpd := n\<rparr>)"
    "mi_abs dset so (t\<lparr>mi_inUpd := n\<rparr>) = (snd (cell_union (DfIn m w) src P), I(m := insert w (I m)), U)"
    using t(2-4) by (auto simp: mi_inv_def mi_abs_def)
  then show ?thesis
    using t(1-3) n(1) by (simp add: a mi_result_def mi_in_step_def mi_setVarDFInSetUpdated_def union_mark_in_def Let_def)
qed

lemma mi_out_step_ok:
  assumes "mi_inv dinv dset so s" "mi_abs dset so s = a" "node_ok w"
  shows "mi_result dinv dset so (union_mark_out m w src a) (mi_out_step so m w src s)"
proof -
  obtain P I U where a: "a = (P, I, U)" by (cases a)
  obtain t where t: "mi_union so (DfOut m w) src s = Some (fst (cell_union (DfOut m w) src P), t)" "mi_inv dinv dset so t"
    "mi_abs dset so t = (snd (cell_union (DfOut m w) src P), I, U)" "mf_hasDFOutSet m (mi_df t)"
    by (rule mi_union_ok [OF assms(1), of P I U "DfOut m w" src]) (use assms(2) a in auto)
  have o: "um_ok dinv so (mi_outUpd t)" using t(2) by (simp add: mi_inv_def)
  obtain n where n: "um_set so m w (mi_outUpd t) = Some n" "um_ok dinv so n"
    "um_vars dset so n = (um_vars dset so (mi_outUpd t))(m := insert w (um_vars dset so (mi_outUpd t) m))"
    by (rule um_set_ok [OF o assms(3)])
  then have "mi_inv dinv dset so (t\<lparr>mi_outUpd := n\<rparr>)"
    "mi_abs dset so (t\<lparr>mi_outUpd := n\<rparr>) = (snd (cell_union (DfOut m w) src P), I, U(m := insert w (U m)))"
    using t(2-4) by (auto simp: mi_inv_def mi_abs_def)
  then show ?thesis
    using t(1-3) n(1) by (simp add: a mi_result_def mi_out_step_def mi_setVarDFOutSetUpdated_def union_mark_out_def Let_def)
qed

lemma mi_result_same: "mi_inv dinv dset so t \<Longrightarrow> mi_abs dset so t = a \<Longrightarrow> mi_result dinv dset so (b, a) (Some (b, t))"
  by (simp add: mi_result_def)

lemma mi_outFromIn_ok:
  assumes "mi_inv dinv dset so s" "mi_abs dset so s = a" "node_ok v" "node_ok w"
  shows "mi_result dinv dset so (inc_out l v m w a) (mi_updateDFOutFromIn so l v m w s)"
proof -
  obtain P I U where a: "a = (P, I, U)" by (cases a)
  obtain t where t: "mi_varHasNewDFInPts so l v s = Some (v \<in> I l, t)" "mi_inv dinv dset so t" "mi_abs dset so t = (P, I, U)"
    by (rule has_in [OF assms(1,3) assms(2) [unfolded a]])
  obtain u where u: "mi_removeVarFromDFInUpdatedSet so l v t = Some u" "mi_inv dinv dset so u"
    "mi_abs dset so u = (P, I(l := I l - {v}), U)" by (rule remove_in [OF t(2) assms(3) t(3)])
  show ?thesis
    using t u(1) mi_out_step_ok [OF u(2,3) assms(4)] mi_result_same [OF t(2,3)]
    by (simp add: a mi_updateDFOutFromIn_def inc_out_def)
qed

lemma remove_out_loop_ok:
  "mi_inv dinv dset so s \<Longrightarrow> \<forall>v\<in>set vs. node_ok v \<Longrightarrow> mi_abs dset so s = (P, I, U) \<Longrightarrow>
    \<exists>t. remove_out_loop so l vs s = Some t \<and> mi_inv dinv dset so t \<and> mi_abs dset so t = (P, I, U(l := U l - set vs))"
proof (induction vs arbitrary: s U)
  case (Cons v vs)
  have v: "node_ok v" using Cons.prems(2) by simp
  obtain t where t: "mi_removeVarFromDFOutUpdatedSet so l v s = Some t" "mi_inv dinv dset so t"
    "mi_abs dset so t = (P, I, U(l := U l - {v}))" by (rule remove_out [OF Cons.prems(1) v Cons.prems(3)])
  have eq: "(U(l := U l - {v}))(l := (U(l := U l - {v})) l - set vs) = U(l := U l - set (v # vs))" by (auto simp: fun_eq_iff)
  have "\<forall>v\<in>set vs. node_ok v" using Cons.prems(2) by simp
  from Cons.IH [OF t(2) this t(3)] show ?case unfolding eq using t(1) by simp
qed simp

lemma mi_clear_ok:
  assumes "mi_inv dinv dset so s" "mi_abs dset so s = (P, I, U)"
  shows "mi_result dinv dset so (False, P, I, U(l := {})) (map_option (Pair False) (mi_clearAllDFOutUpdatedVar so l s))"
proof (cases "mf_hasDFOutSet l (mi_df s)")
  case False
  then have "U l = {}" using assms by (auto simp: mi_inv_def mi_abs_def)
  then show ?thesis using False assms by (simp add: mi_clearAllDFOutUpdatedVar_def mi_result_def fun_upd_idem)
next
  case True
  let ?d = "at_get (so_new so) (mi_outUpd s) l" and ?t = "snd (mi_getDFOutUpdatedVar so l s)"
  have d: "dinv ?d" "dset ?d = U l" using assms by (auto simp: mi_inv_def um_ok_def mi_abs_def um_vars_def)
  obtain vs where vs: "so_elems so ?d = Some vs" "set vs = U l" using elems_ok [OF d(1)] d(2) by blast
  have nodes: "\<forall>v\<in>set vs. node_ok v" using elem_node [OF d(1)] d(2) vs(2) by simp
  have t: "mi_inv dinv dset so ?t" "mi_abs dset so ?t = (P, I, U)"
    using assms by (simp_all add: mi_getDFOutUpdatedVar_def mi_inv_def mi_abs_def um_ok_def um_vars_def fun_eq_iff)
  obtain u where "remove_out_loop so l vs ?t = Some u" "mi_inv dinv dset so u" "mi_abs dset so u = (P, I, U(l := U l - set vs))"
    using remove_out_loop_ok [OF t(1) nodes t(2)] by blast
  then show ?thesis
    using True vs by (simp add: mi_clearAllDFOutUpdatedVar_def mi_getDFOutUpdatedVar_def mi_result_def Let_def)
qed

lemma mi_outAll_ok:
  assumes "mi_inv dinv dset so s" "mi_abs dset so s = (P, I, U)"
  shows "mi_result dinv dset so (inc_spec dset (AllOutFromIn l x str) (P, I, U)) (mi_updateAllDFOutFromIn so l x str s)"
proof (cases "mf_hasDFInSet l (mi_df s)")
  case False
  then have "I l = {}" using assms by (auto simp: mi_inv_def mi_abs_def)
  then show ?thesis
    using False assms by (simp add: mi_updateAllDFOutFromIn_def mi_result_def Let_def out_all_empty fun_upd_idem)
next
  case True
  let ?d = "at_get (so_new so) (mi_inUpd s) l" and ?t = "snd (mi_getDFInUpdatedVar so l s)"
  have d: "dinv ?d" "dset ?d = I l" using assms by (auto simp: mi_inv_def um_ok_def mi_abs_def um_vars_def)
  obtain vs where vs: "so_elems so ?d = Some vs" "set vs = I l" using elems_ok [OF d(1)] d(2) by blast
  have nodes: "v \<in> set vs \<Longrightarrow> node_ok v" for v using elem_node [OF d(1)] d(2) vs(2) by simp
  have t: "mi_inv dinv dset so ?t" "mi_abs dset so ?t = (P, I, U)"
    using assms by (simp_all add: mi_getDFInUpdatedVar_def mi_inv_def mi_abs_def um_ok_def um_vars_def fun_eq_iff)
  have "case out_loop (\<lambda>v. mi_updateDFOutFromIn so l v l v) x str vs False ?t of None \<Rightarrow> Suc (length vs) < 0 + length vs
    | Some (b, u) \<Rightarrow> mi_inv dinv dset so u \<and> (b, mi_abs dset so u) = spec_loop (\<lambda>v. inc_out l v l v) x str vs False (mi_abs dset so ?t)"
  proof (rule out_loop_sim [where sz = "\<lambda>_. 0" and J = "mi_inv dinv dset so" and abs = "mi_abs dset so"])
    fix v t assume "mi_inv dinv dset so t" "v \<in> set vs"
    then show "case mi_updateDFOutFromIn so l v l v t of None \<Rightarrow> Suc (length vs) \<le> 0
      | Some (b, u) \<Rightarrow> mi_inv dinv dset so u \<and> (b, mi_abs dset so u) = inc_out l v l v (mi_abs dset so t) \<and> 0 \<le> Suc 0"
      using mi_outFromIn_ok [of t _ v v l l] nodes by (auto simp: mi_result_def)
  qed (rule t(1))
  then obtain u where u: "out_loop (\<lambda>v. mi_updateDFOutFromIn so l v l v) x str vs False ?t
      = Some (fst (spec_loop (\<lambda>v. inc_out l v l v) x str vs False (P, I, U)), u)" "mi_inv dinv dset so u"
    "mi_abs dset so u = snd (spec_loop (\<lambda>v. inc_out l v l v) x str vs False (P, I, U))"
    by (auto simp: t(2) prod_eq_iff split: option.splits)
  have "{v \<in> I l. v \<in> set vs \<and> \<not> (str \<and> v = x)} = {v \<in> I l. \<not> (str \<and> v = x)}" using vs(2) by auto
  then have "spec_loop (\<lambda>v. inc_out l v l v) x str vs False (P, I, U) = inc_spec dset (AllOutFromIn l x str) (P, I, U)"
    unfolding out_loop_inc by (simp add: Let_def)
  then show ?thesis
    using True u vs(1) by (simp add: mi_updateAllDFOutFromIn_def mi_getDFInUpdatedVar_def mi_result_def Let_def)
qed

lemma mi_tlv_ok:
  assumes "mi_inv dinv dset so s" "mi_abs dset so s = (P, I, U)" "node_ok v"
  shows "mi_result dinv dset so (inc_spec dset (TLVPts l v k) (P, I, U)) (mi_updateTLVPts so l v k s)"
proof -
  obtain t where t: "mi_varHasNewDFInPts so l v s = Some (v \<in> I l, t)" "mi_inv dinv dset so t" "mi_abs dset so t = (P, I, U)"
    by (rule has_in [OF assms(1,3,2)])
  obtain u where u: "mi_removeVarFromDFInUpdatedSet so l v t = Some u" "mi_inv dinv dset so u"
    "mi_abs dset so u = (P, I(l := I l - {v}), U)" by (rule remove_in [OF t(2) assms(3) t(3)])
  let ?df = "mf_touch so (DfIn l v) (mi_df u)"
  have df: "mf_inv dinv so ?df" "mf_cells dset so ?df = P" using u(2,3) by (auto simp: mi_inv_def mf_inv_def mi_abs_def mf_cells_def)
  have src: "dinv (mf_at so ?df (DfIn l v))" "dset (mf_at so ?df (DfIn l v)) = P (DfIn l v)"
    using df by (auto simp: mf_inv_def mf_cells_def)
  have top: "mp_nodes dset so (mf_pts ?df) = (\<lambda>k. P (Top k))" by (rule ext) (simp only: mf_top_nodes [symmetric] df(2))
  obtain p where p: "mp_unionPtsSet so k (mf_at so ?df (DfIn l v)) (mf_pts ?df) = Some (\<not> P (DfIn l v) \<subseteq> P (Top k), p)"
    "mp_inv dinv dset so p" "mp_nodes dset so p = (\<lambda>k. P (Top k))(k := P (Top k) \<union> P (DfIn l v))" "mp_rev p = mp_rev (mf_pts ?df)"
    using mp_unionPtsSet_ok [OF mf_mp_inv [OF df(1)] src(1), of k, unfolded mp_result_def src(2) top] by (elim exE conjE)
  have rv: "\<not> mp_rev p" using p(4) df(1) by (simp add: mf_inv_def)
  have "mi_inv dinv dset so (u\<lparr>mi_df := ?df\<lparr>mf_pts := p\<rparr>\<rparr>)"
    using u(2) mf_pts_update(1) [OF df(1) p(2) rv] by (auto simp: mi_inv_def)
  moreover have "mi_abs dset so (u\<lparr>mi_df := ?df\<lparr>mf_pts := p\<rparr>\<rparr>)
      = (snd (cell_union (Top k) (DfIn l v) P), I(l := I l - {v}), U)"
    using u(3) mf_pts_update(2) [OF df(1) p(2) rv, unfolded p(3) df(2)]
    by (auto simp: mi_abs_def cell_union_def fun_eq_iff split: df_cell.split)
  ultimately show ?thesis
    using t u(1) p(1) mi_result_same [OF t(2,3)] by (auto simp: mi_updateTLVPts_def Let_def mi_result_def cell_union_def)
qed

lemma mi_step_ok:
  assumes "mi_inv dinv dset so s" "inc_ok dinv c"
  shows "mi_result dinv dset so (inc_spec dset c (mi_abs dset so s)) (mi_step so c s)"
proof -
  obtain P I U where a: "mi_abs dset so s = (P, I, U)" by (cases "mi_abs dset so s")
  show ?thesis
  proof (cases c)
    case (DfBase b)
    have d: "mf_inv dinv so (mi_df s)" "mf_cells dset so (mi_df s) = P" using assms(1) a by (simp_all add: mi_inv_def mi_abs_def)
    have "cmd_ok dinv b" using assms(2) DfBase by simp
    then obtain t where "mf_base so b (mi_df s) = Some (fst (base_cells dset b P), t)" "mf_inv dinv so t"
      "mf_cells dset so t = snd (base_cells dset b P)" "df_grows (mi_df s) t"
      using mf_base_ok [OF d(1)] d(2) by (auto simp: mf_result_def)
    then show ?thesis using assms(1) a by (auto simp: DfBase mi_result_def mi_inv_def mi_abs_def df_grows_def Let_def)
  next
    case (InFromIn l v m w)
    have n: "node_ok v" "node_ok w" using assms(2) InFromIn by simp_all
    obtain t where t: "mi_varHasNewDFInPts so l v s = Some (v \<in> I l, t)" "mi_inv dinv dset so t" "mi_abs dset so t = (P, I, U)"
      by (rule has_in [OF assms(1) n(1) a])
    show ?thesis
      using t(1) mi_in_step_ok [OF t(2,3) n(2)] mi_result_same [OF t(2,3)] by (simp add: InFromIn a mi_updateDFInFromIn_def)
  next
    case (InFromOut l v m w)
    have n: "node_ok v" "node_ok w" using assms(2) InFromOut by simp_all
    obtain t where t: "mi_varHasNewDFOutPts so l v s = Some (v \<in> U l, t)" "mi_inv dinv dset so t" "mi_abs dset so t = (P, I, U)"
      by (rule has_out [OF assms(1) n(1) a])
    show ?thesis
      using t(1) mi_in_step_ok [OF t(2,3) n(2)] mi_result_same [OF t(2,3)] by (simp add: InFromOut a mi_updateDFInFromOut_def)
  next
    case (OutFromIn l v m w)
    then show ?thesis using mi_outFromIn_ok [OF assms(1) refl, of v w l m] assms(2) by simp
  next
    case (AllInFromIn l v m w)
    then show ?thesis using mi_in_step_ok [OF assms(1) refl, of w m] assms(2) by (simp add: mi_updateAllDFInFromIn_def)
  next
    case (AllInFromOut l v m w)
    then show ?thesis using mi_in_step_ok [OF assms(1) refl, of w m] assms(2) by (simp add: mi_updateAllDFInFromOut_def)
  next
    case (AllOutFromIn l x str)
    then show ?thesis using mi_outAll_ok [OF assms(1) a] by (simp add: a)
  next
    case (TLVPts l v k)
    then show ?thesis using mi_tlv_ok [OF assms(1) a] assms(2) by (simp add: a)
  next
    case (ATVPts v l k)
    then show ?thesis using mi_out_step_ok [OF assms(1) refl, of k l] assms(2) by (simp add: mi_updateATVPts_def)
  next
    case (ClearUpdated l)
    then show ?thesis using mi_clear_ok [OF assms(1) a] by (simp add: a)
  qed
qed

lemma mi_table: "refines (mi_step so) (inc_spec dset) (inc_ok dinv) (mi_inv dinv dset so) (\<lambda>_ _. False) (mi_abs dset so)"
proof
  fix s c b s'
  assume a: "mi_inv dinv dset so s" "inc_ok dinv c"
  note r = mi_step_ok [OF a]
  show "False" if "mi_step so c s = None" using r that by (simp add: mi_result_def)
  show "mi_inv dinv dset so s' \<and> (b, mi_abs dset so s') = inc_spec dset c (mi_abs dset so s)" if "mi_step so c s = Some (b, s')"
    using r that by (simp add: mi_result_def)
qed

end

interpretation mft: refines "mf_step (pt_set_ops sbv_config)" "df_spec pt_nodes" "df_ok (pt_plain SBV)"
  "mf_inv (pt_plain SBV) (pt_set_ops sbv_config)" "\<lambda>_ _. False" "mf_cells pt_nodes (pt_set_ops sbv_config)"
  by (rule sbv_sets.mf_table)

interpretation mit: refines "mi_step (pt_set_ops sbv_config)" "inc_spec pt_nodes" "inc_ok (pt_plain SBV)"
  "mi_inv (pt_plain SBV) pt_nodes (pt_set_ops sbv_config)" "\<lambda>_ _. False" "mi_abs pt_nodes (pt_set_ops sbv_config)"
  by (rule sbv_sets.mi_table)

end
