(* ===== verification/PersistentDf.thy ===== *)
theory PersistentDf
  imports MutableDf
begin

text \<open>
  \<open>PersistentDFPTData\<close> and \<open>PersistentIncDFPTData\<close> of
  \<open>svf/include/MemoryModel/PersistentPointsToDS.h\<close>: the data-flow tables with ids of interned sets.
  The state of an operation is the cache and the table. The set of changed variables of a location
  is the list of its variables in the order of iteration.
\<close>

section \<open>The table\<close>

record 'k pers_df =
  pf_pts :: "'k pers_pts"
  pf_in :: "(nat \<times> ('k \<times> nat) list) list"
  pf_out :: "(nat \<times> ('k \<times> nat) list) list"

type_synonym ('k, 'd) pdf_st = "'d pptc \<times> 'k pers_df"

definition pf_make :: "bool \<Rightarrow> 'k pers_df" where
  "pf_make reversePT = \<lparr>pf_pts = pp_make reversePT, pf_in = [], pf_out = []\<rparr>"

definition pf_clear :: "'k pers_df \<Rightarrow> 'k pers_df" where
  "pf_clear t = \<lparr>pf_pts = pp_clear (pf_pts t), pf_in = [], pf_out = []\<rparr>"

fun pf_id :: "'k pers_df \<Rightarrow> 'k df_cell \<Rightarrow> nat" where
  "pf_id t (DfIn l k) = dm_at 0 (pf_in t) l k"
| "pf_id t (DfOut l k) = dm_at 0 (pf_out t) l k"
| "pf_id t (Top k) = pp_id (pf_pts t) k"

fun pf_touch :: "'k df_cell \<Rightarrow> 'k pers_df \<Rightarrow> 'k pers_df" where
  "pf_touch (DfIn l k) t = t\<lparr>pf_in := dm_touch 0 l k (pf_in t)\<rparr>"
| "pf_touch (DfOut l k) t = t\<lparr>pf_out := dm_touch 0 l k (pf_out t)\<rparr>"
| "pf_touch (Top k) t = t\<lparr>pf_pts := pp_touch k (pf_pts t)\<rparr>"

fun pf_put :: "'k df_cell \<Rightarrow> nat \<Rightarrow> 'k pers_df \<Rightarrow> 'k pers_df" where
  "pf_put (DfIn l k) i t = t\<lparr>pf_in := dm_put l k i (pf_in t)\<rparr>"
| "pf_put (DfOut l k) i t = t\<lparr>pf_out := dm_put l k i (pf_out t)\<rparr>"
| "pf_put (Top k) i t = t\<lparr>pf_pts := pp_put k i (pf_pts t)\<rparr>"

definition pf_lift :: "(('k, 'd) pers_st \<Rightarrow> ('r \<times> ('k, 'd) pers_st) option) \<Rightarrow> ('k, 'd) pdf_st \<Rightarrow>
    ('r \<times> ('k, 'd) pdf_st) option" where
  "pf_lift f s = map_option (\<lambda>r. (fst r, (fst (snd r), (snd s)\<lparr>pf_pts := snd (snd r)\<rparr>))) (f (fst s, pf_pts (snd s)))"

definition pf_getPts :: "'k \<Rightarrow> ('k, 'd) pdf_st \<Rightarrow> ('d \<times> ('k, 'd) pdf_st) option" where
  "pf_getPts var = pf_lift (pp_getPts var)"

text \<open>Not supported: the assertion fails.\<close>

definition pf_getRevPts :: "nat \<Rightarrow> 'k pers_df \<Rightarrow> ('k set \<times> 'k pers_df) option" where
  "pf_getRevPts data t = None"

definition pf_unionPts :: "'d set_ops \<Rightarrow> 'k \<Rightarrow> 'k \<Rightarrow> ('k, 'd) pdf_st \<Rightarrow> (bool \<times> ('k, 'd) pdf_st) option" where
  "pf_unionPts so dstKey srcKey = pf_lift (pp_unionPts so dstKey srcKey)"

definition pf_unionPtsSet :: "'d set_ops \<Rightarrow> 'k \<Rightarrow> 'd \<Rightarrow> ('k, 'd) pdf_st \<Rightarrow> (bool \<times> ('k, 'd) pdf_st) option" where
  "pf_unionPtsSet so dstKey srcDataSet = pf_lift (pp_unionPtsSet so dstKey srcDataSet)"

definition pf_addPts :: "'d set_ops \<Rightarrow> 'k \<Rightarrow> nat \<Rightarrow> ('k, 'd) pdf_st \<Rightarrow> (bool \<times> ('k, 'd) pdf_st) option" where
  "pf_addPts so dstKey element = pf_lift (pp_addPts so dstKey element)"

definition pf_clearPts :: "'d set_ops \<Rightarrow> 'k \<Rightarrow> nat \<Rightarrow> ('k, 'd) pdf_st \<Rightarrow> (bool \<times> ('k, 'd) pdf_st) option" where
  "pf_clearPts so var element = pf_lift (\<lambda>s. map_option (Pair False) (pp_clearPts so var element s))"

definition pf_clearFullPts :: "'d set_ops \<Rightarrow> 'k \<Rightarrow> ('k, 'd) pdf_st \<Rightarrow> (bool \<times> ('k, 'd) pdf_st) option" where
  "pf_clearFullPts so var = pf_lift (\<lambda>s. map_option (Pair False) (pp_clearFullPts so var s))"

definition pf_remapAllPts :: "'d set_ops \<Rightarrow> ('k, 'd) pdf_st \<Rightarrow> ('k, 'd) pdf_st option" where
  "pf_remapAllPts so s = map_option (\<lambda>c. (c, snd s)) (remapAllPts (so_data so) (fst s))"

definition pf_hasDFInSet :: "nat \<Rightarrow> 'k pers_df \<Rightarrow> bool" where
  "pf_hasDFInSet loc t = dm_has (pf_in t) loc"

definition pf_hasDFOutSet :: "nat \<Rightarrow> 'k pers_df \<Rightarrow> bool" where
  "pf_hasDFOutSet loc t = dm_has (pf_out t) loc"

definition pf_hasDFInVar :: "nat \<Rightarrow> 'k \<Rightarrow> 'k pers_df \<Rightarrow> bool" where
  "pf_hasDFInVar loc var t = dm_has_var (pf_in t) loc var"

definition pf_hasDFOutVar :: "nat \<Rightarrow> 'k \<Rightarrow> 'k pers_df \<Rightarrow> bool" where
  "pf_hasDFOutVar loc var t = dm_has_var (pf_out t) loc var"

definition pf_getDFInPtsSet :: "nat \<Rightarrow> 'k \<Rightarrow> ('k, 'd) pdf_st \<Rightarrow> ('d \<times> ('k, 'd) pdf_st) option" where
  "pf_getDFInPtsSet loc var s = map_option (\<lambda>d. (d, (fst s, pf_touch (DfIn loc var) (snd s))))
     (getActualPts (fst s) (pf_id (snd s) (DfIn loc var)))"

definition pf_getDFOutPtsSet :: "nat \<Rightarrow> 'k \<Rightarrow> ('k, 'd) pdf_st \<Rightarrow> ('d \<times> ('k, 'd) pdf_st) option" where
  "pf_getDFOutPtsSet loc var s = map_option (\<lambda>d. (d, (fst s, pf_touch (DfOut loc var) (snd s))))
     (getActualPts (fst s) (pf_id (snd s) (DfOut loc var)))"

text \<open>\<open>unionPtsThroughIds\<close> on the ids of two cells, which both are created\<close>

definition pf_union :: "'d set_ops \<Rightarrow> 'k df_cell \<Rightarrow> 'k df_cell \<Rightarrow> ('k, 'd) pdf_st \<Rightarrow> (bool \<times> ('k, 'd) pdf_st) option" where
  "pf_union so dst src s =
     (let t = pf_touch src (pf_touch dst (snd s)); oldDst = pf_id t dst in
      map_option (\<lambda>(i, c). (oldDst \<noteq> i, (c, pf_put dst i t))) (unionPts (so_data so) oldDst (pf_id t src) (fst s)))"

definition pf_updateDFInFromIn :: "'d set_ops \<Rightarrow> nat \<Rightarrow> 'k \<Rightarrow> nat \<Rightarrow> 'k \<Rightarrow> ('k, 'd) pdf_st \<Rightarrow> (bool \<times> ('k, 'd) pdf_st) option" where
  "pf_updateDFInFromIn so srcLoc srcVar dstLoc dstVar = pf_union so (DfIn dstLoc dstVar) (DfIn srcLoc srcVar)"

definition pf_updateAllDFInFromIn :: "'d set_ops \<Rightarrow> nat \<Rightarrow> 'k \<Rightarrow> nat \<Rightarrow> 'k \<Rightarrow> ('k, 'd) pdf_st \<Rightarrow> (bool \<times> ('k, 'd) pdf_st) option" where
  "pf_updateAllDFInFromIn = pf_updateDFInFromIn"

definition pf_updateDFInFromOut :: "'d set_ops \<Rightarrow> nat \<Rightarrow> 'k \<Rightarrow> nat \<Rightarrow> 'k \<Rightarrow> ('k, 'd) pdf_st \<Rightarrow> (bool \<times> ('k, 'd) pdf_st) option" where
  "pf_updateDFInFromOut so srcLoc srcVar dstLoc dstVar = pf_union so (DfIn dstLoc dstVar) (DfOut srcLoc srcVar)"

definition pf_updateAllDFInFromOut :: "'d set_ops \<Rightarrow> nat \<Rightarrow> 'k \<Rightarrow> nat \<Rightarrow> 'k \<Rightarrow> ('k, 'd) pdf_st \<Rightarrow> (bool \<times> ('k, 'd) pdf_st) option" where
  "pf_updateAllDFInFromOut = pf_updateDFInFromOut"

definition pf_updateDFOutFromIn :: "'d set_ops \<Rightarrow> nat \<Rightarrow> 'k \<Rightarrow> nat \<Rightarrow> 'k \<Rightarrow> ('k, 'd) pdf_st \<Rightarrow> (bool \<times> ('k, 'd) pdf_st) option" where
  "pf_updateDFOutFromIn so srcLoc srcVar dstLoc dstVar = pf_union so (DfOut dstLoc dstVar) (DfIn srcLoc srcVar)"

definition pf_updateAllDFOutFromIn :: "'d set_ops \<Rightarrow> nat \<Rightarrow> 'k \<Rightarrow> bool \<Rightarrow> ('k, 'd) pdf_st \<Rightarrow> (bool \<times> ('k, 'd) pdf_st) option" where
  "pf_updateAllDFOutFromIn so loc singleton strongUpdates s =
     (if pf_hasDFInSet loc (snd s)
      then out_loop (\<lambda>var. pf_updateDFOutFromIn so loc var loc var) singleton strongUpdates
             (map fst (at_get [] (pf_in (snd s)) loc)) False s
      else Some (False, s))"

definition pf_updateTLVPts :: "'d set_ops \<Rightarrow> nat \<Rightarrow> 'k \<Rightarrow> 'k \<Rightarrow> ('k, 'd) pdf_st \<Rightarrow> (bool \<times> ('k, 'd) pdf_st) option" where
  "pf_updateTLVPts so srcLoc srcVar dstVar = pf_union so (Top dstVar) (DfIn srcLoc srcVar)"

definition pf_updateATVPts :: "'d set_ops \<Rightarrow> 'k \<Rightarrow> nat \<Rightarrow> 'k \<Rightarrow> ('k, 'd) pdf_st \<Rightarrow> (bool \<times> ('k, 'd) pdf_st) option" where
  "pf_updateATVPts so srcVar dstLoc dstVar = pf_union so (DfOut dstLoc dstVar) (Top srcVar)"

fun count_ids_df :: "'d data_ops \<Rightarrow> 'd pptc \<Rightarrow> (nat \<times> ('k \<times> nat) list) list \<Rightarrow> ('d \<times> nat) list \<Rightarrow> ('d \<times> nat) list option" where
  "count_ids_df ops c [] m = Some m"
| "count_ids_df ops c ((l, e) # es) m = Option.bind (count_ids ops c e m) (count_ids_df ops c es)"

text \<open>The subtraction of 1 works on copies of the entries, and has no effect.\<close>

definition pf_getAllPts :: "'d set_ops \<Rightarrow> bool \<Rightarrow> ('k, 'd) pdf_st \<Rightarrow> ('d \<times> nat) list option" where
  "pf_getAllPts so liveOnly s =
     Option.bind (pp_getAllPts so liveOnly (fst s, pf_pts (snd s))) (\<lambda>m0.
     Option.bind (count_ids_df (so_data so) (fst s) (pf_in (snd s)) m0) (\<lambda>m1.
     Option.bind (count_ids_df (so_data so) (fst s) (pf_out (snd s)) m1) (\<lambda>m2.
       if \<not> liveOnly
       then Option.bind (getAllPts (so_data so) (fst s)) (mergePtsOccMaps (so_data so) m2)
       else Some m2)))"

section \<open>The incremental table\<close>

record 'k pers_inc =
  pi_df :: "'k pers_df"
  pi_outUpd :: "(nat \<times> 'k list) list"
  pi_inUpd :: "(nat \<times> 'k list) list"

type_synonym ('k, 'd) pinc_st = "'d pptc \<times> 'k pers_inc"

definition pi_make :: "bool \<Rightarrow> 'k pers_inc" where
  "pi_make reversePT = \<lparr>pi_df = pf_make reversePT, pi_outUpd = [], pi_inUpd = []\<rparr>"

definition pi_clear :: "'k pers_inc \<Rightarrow> 'k pers_inc" where
  "pi_clear t = \<lparr>pi_df = pf_clear (pi_df t), pi_outUpd = [], pi_inUpd = []\<rparr>"

definition us_set :: "nat \<Rightarrow> 'k \<Rightarrow> (nat \<times> 'k list) list \<Rightarrow> (nat \<times> 'k list) list" where
  "us_set loc var m = (let ks = at_get [] m loc in at_put loc (if var \<in> set ks then ks else ks @ [var]) m)"

definition us_erase :: "nat \<Rightarrow> 'k \<Rightarrow> (nat \<times> 'k list) list \<Rightarrow> (nat \<times> 'k list) list" where
  "us_erase loc var m = (case map_of m loc of None \<Rightarrow> m | Some ks \<Rightarrow> at_put loc (removeAll var ks) m)"

definition us_test :: "nat \<Rightarrow> 'k \<Rightarrow> (nat \<times> 'k list) list \<Rightarrow> bool" where
  "us_test loc var m = (case map_of m loc of None \<Rightarrow> False | Some ks \<Rightarrow> var \<in> set ks)"

definition pi_setVarDFInSetUpdated :: "nat \<Rightarrow> 'k \<Rightarrow> 'k pers_inc \<Rightarrow> 'k pers_inc" where
  "pi_setVarDFInSetUpdated loc var t = t\<lparr>pi_inUpd := us_set loc var (pi_inUpd t)\<rparr>"

definition pi_removeVarFromDFInUpdatedSet :: "nat \<Rightarrow> 'k \<Rightarrow> 'k pers_inc \<Rightarrow> 'k pers_inc" where
  "pi_removeVarFromDFInUpdatedSet loc var t = t\<lparr>pi_inUpd := us_erase loc var (pi_inUpd t)\<rparr>"

definition pi_varHasNewDFInPts :: "nat \<Rightarrow> 'k \<Rightarrow> 'k pers_inc \<Rightarrow> bool" where
  "pi_varHasNewDFInPts loc var t = us_test loc var (pi_inUpd t)"

definition pi_getDFInUpdatedVar :: "nat \<Rightarrow> 'k pers_inc \<Rightarrow> 'k list \<times> 'k pers_inc" where
  "pi_getDFInUpdatedVar loc t = (at_get [] (pi_inUpd t) loc, t\<lparr>pi_inUpd := at_touch [] loc (pi_inUpd t)\<rparr>)"

definition pi_setVarDFOutSetUpdated :: "nat \<Rightarrow> 'k \<Rightarrow> 'k pers_inc \<Rightarrow> 'k pers_inc" where
  "pi_setVarDFOutSetUpdated loc var t = t\<lparr>pi_outUpd := us_set loc var (pi_outUpd t)\<rparr>"

definition pi_removeVarFromDFOutUpdatedSet :: "nat \<Rightarrow> 'k \<Rightarrow> 'k pers_inc \<Rightarrow> 'k pers_inc" where
  "pi_removeVarFromDFOutUpdatedSet loc var t = t\<lparr>pi_outUpd := us_erase loc var (pi_outUpd t)\<rparr>"

definition pi_varHasNewDFOutPts :: "nat \<Rightarrow> 'k \<Rightarrow> 'k pers_inc \<Rightarrow> bool" where
  "pi_varHasNewDFOutPts loc var t = us_test loc var (pi_outUpd t)"

definition pi_getDFOutUpdatedVar :: "nat \<Rightarrow> 'k pers_inc \<Rightarrow> 'k list \<times> 'k pers_inc" where
  "pi_getDFOutUpdatedVar loc t = (at_get [] (pi_outUpd t) loc, t\<lparr>pi_outUpd := at_touch [] loc (pi_outUpd t)\<rparr>)"

definition pi_union :: "'d set_ops \<Rightarrow> 'k df_cell \<Rightarrow> 'k df_cell \<Rightarrow> ('k, 'd) pinc_st \<Rightarrow> (bool \<times> ('k, 'd) pinc_st) option" where
  "pi_union so dst src s =
     map_option (\<lambda>r. (fst r, (fst (snd r), (snd s)\<lparr>pi_df := snd (snd r)\<rparr>))) (pf_union so dst src (fst s, pi_df (snd s)))"

definition pi_in_step :: "'d set_ops \<Rightarrow> nat \<Rightarrow> 'k \<Rightarrow> 'k df_cell \<Rightarrow> ('k, 'd) pinc_st \<Rightarrow> (bool \<times> ('k, 'd) pinc_st) option" where
  "pi_in_step so dstLoc dstVar src s = map_option (\<lambda>q.
     if fst q then (True, (fst (snd q), pi_setVarDFInSetUpdated dstLoc dstVar (snd (snd q)))) else (False, snd q))
     (pi_union so (DfIn dstLoc dstVar) src s)"

definition pi_out_step :: "'d set_ops \<Rightarrow> nat \<Rightarrow> 'k \<Rightarrow> 'k df_cell \<Rightarrow> ('k, 'd) pinc_st \<Rightarrow> (bool \<times> ('k, 'd) pinc_st) option" where
  "pi_out_step so dstLoc dstVar src s = map_option (\<lambda>q.
     if fst q then (True, (fst (snd q), pi_setVarDFOutSetUpdated dstLoc dstVar (snd (snd q)))) else (False, snd q))
     (pi_union so (DfOut dstLoc dstVar) src s)"

definition pi_updateDFInFromIn :: "'d set_ops \<Rightarrow> nat \<Rightarrow> 'k \<Rightarrow> nat \<Rightarrow> 'k \<Rightarrow> ('k, 'd) pinc_st \<Rightarrow> (bool \<times> ('k, 'd) pinc_st) option" where
  "pi_updateDFInFromIn so srcLoc srcVar dstLoc dstVar s =
     (if pi_varHasNewDFInPts srcLoc srcVar (snd s) then pi_in_step so dstLoc dstVar (DfIn srcLoc srcVar) s else Some (False, s))"

definition pi_updateDFInFromOut :: "'d set_ops \<Rightarrow> nat \<Rightarrow> 'k \<Rightarrow> nat \<Rightarrow> 'k \<Rightarrow> ('k, 'd) pinc_st \<Rightarrow> (bool \<times> ('k, 'd) pinc_st) option" where
  "pi_updateDFInFromOut so srcLoc srcVar dstLoc dstVar s =
     (if pi_varHasNewDFOutPts srcLoc srcVar (snd s) then pi_in_step so dstLoc dstVar (DfOut srcLoc srcVar) s else Some (False, s))"

definition pi_updateDFOutFromIn :: "'d set_ops \<Rightarrow> nat \<Rightarrow> 'k \<Rightarrow> nat \<Rightarrow> 'k \<Rightarrow> ('k, 'd) pinc_st \<Rightarrow> (bool \<times> ('k, 'd) pinc_st) option" where
  "pi_updateDFOutFromIn so srcLoc srcVar dstLoc dstVar s =
     (if pi_varHasNewDFInPts srcLoc srcVar (snd s)
      then pi_out_step so dstLoc dstVar (DfIn srcLoc srcVar) (fst s, pi_removeVarFromDFInUpdatedSet srcLoc srcVar (snd s))
      else Some (False, s))"

definition pi_updateAllDFInFromOut :: "'d set_ops \<Rightarrow> nat \<Rightarrow> 'k \<Rightarrow> nat \<Rightarrow> 'k \<Rightarrow> ('k, 'd) pinc_st \<Rightarrow> (bool \<times> ('k, 'd) pinc_st) option" where
  "pi_updateAllDFInFromOut so srcLoc srcVar dstLoc dstVar = pi_in_step so dstLoc dstVar (DfOut srcLoc srcVar)"

definition pi_updateAllDFInFromIn :: "'d set_ops \<Rightarrow> nat \<Rightarrow> 'k \<Rightarrow> nat \<Rightarrow> 'k \<Rightarrow> ('k, 'd) pinc_st \<Rightarrow> (bool \<times> ('k, 'd) pinc_st) option" where
  "pi_updateAllDFInFromIn so srcLoc srcVar dstLoc dstVar = pi_in_step so dstLoc dstVar (DfIn srcLoc srcVar)"

definition pi_updateAllDFOutFromIn :: "'d set_ops \<Rightarrow> nat \<Rightarrow> 'k \<Rightarrow> bool \<Rightarrow> ('k, 'd) pinc_st \<Rightarrow> (bool \<times> ('k, 'd) pinc_st) option" where
  "pi_updateAllDFOutFromIn so loc singleton strongUpdates s =
     (if pf_hasDFInSet loc (pi_df (snd s))
      then let g = pi_getDFInUpdatedVar loc (snd s) in
        out_loop (\<lambda>var. pi_updateDFOutFromIn so loc var loc var) singleton strongUpdates (fst g) False (fst s, snd g)
      else Some (False, s))"

definition pi_updateTLVPts :: "'d set_ops \<Rightarrow> nat \<Rightarrow> 'k \<Rightarrow> 'k \<Rightarrow> ('k, 'd) pinc_st \<Rightarrow> (bool \<times> ('k, 'd) pinc_st) option" where
  "pi_updateTLVPts so srcLoc srcVar dstVar s =
     (if pi_varHasNewDFInPts srcLoc srcVar (snd s)
      then pi_union so (Top dstVar) (DfIn srcLoc srcVar) (fst s, pi_removeVarFromDFInUpdatedSet srcLoc srcVar (snd s))
      else Some (False, s))"

definition pi_updateATVPts :: "'d set_ops \<Rightarrow> 'k \<Rightarrow> nat \<Rightarrow> 'k \<Rightarrow> ('k, 'd) pinc_st \<Rightarrow> (bool \<times> ('k, 'd) pinc_st) option" where
  "pi_updateATVPts so srcVar dstLoc dstVar = pi_out_step so dstLoc dstVar (Top srcVar)"

definition pi_clearAllDFOutUpdatedVar :: "nat \<Rightarrow> 'k pers_inc \<Rightarrow> 'k pers_inc" where
  "pi_clearAllDFOutUpdatedVar loc t =
     (if pf_hasDFOutSet loc (pi_df t)
      then let g = pi_getDFOutUpdatedVar loc t in
        foldl (\<lambda>u var. pi_removeVarFromDFOutUpdatedSet loc var u) (snd g) (fst g)
      else t)"

section \<open>Commands and invariant\<close>

fun pf_base :: "'d set_ops \<Rightarrow> ('k, 'd) pts_cmd \<Rightarrow> ('k, 'd) pdf_st \<Rightarrow> (bool \<times> ('k, 'd) pdf_st) option" where
  "pf_base so (AddPts k n) s = pf_addPts so k n s"
| "pf_base so (UnionPts k l) s = pf_unionPts so k l s"
| "pf_base so (UnionPtsSet k d) s = pf_unionPtsSet so k d s"
| "pf_base so (ClearPts k n) s = pf_clearPts so k n s"
| "pf_base so (ClearFullPts k) s = pf_clearFullPts so k s"

fun pf_step :: "'d set_ops \<Rightarrow> ('k, 'd) df_cmd \<Rightarrow> ('k, 'd) pdf_st \<Rightarrow> (bool \<times> ('k, 'd) pdf_st) option" where
  "pf_step so (DfBase c) s = pf_base so c s"
| "pf_step so (InFromIn l v m w) s = pf_updateDFInFromIn so l v m w s"
| "pf_step so (InFromOut l v m w) s = pf_updateDFInFromOut so l v m w s"
| "pf_step so (OutFromIn l v m w) s = pf_updateDFOutFromIn so l v m w s"
| "pf_step so (AllInFromIn l v m w) s = pf_updateAllDFInFromIn so l v m w s"
| "pf_step so (AllInFromOut l v m w) s = pf_updateAllDFInFromOut so l v m w s"
| "pf_step so (AllOutFromIn l x str) s = pf_updateAllDFOutFromIn so l x str s"
| "pf_step so (TLVPts l v k) s = pf_updateTLVPts so l v k s"
| "pf_step so (ATVPts v l k) s = pf_updateATVPts so v l k s"
| "pf_step so (ClearUpdated l) s = Some (False, s)"

fun pi_step :: "'d set_ops \<Rightarrow> ('k, 'd) df_cmd \<Rightarrow> ('k, 'd) pinc_st \<Rightarrow> (bool \<times> ('k, 'd) pinc_st) option" where
  "pi_step so (DfBase c) s =
     map_option (\<lambda>r. (fst r, (fst (snd r), (snd s)\<lparr>pi_df := snd (snd r)\<rparr>))) (pf_base so c (fst s, pi_df (snd s)))"
| "pi_step so (InFromIn l v m w) s = pi_updateDFInFromIn so l v m w s"
| "pi_step so (InFromOut l v m w) s = pi_updateDFInFromOut so l v m w s"
| "pi_step so (OutFromIn l v m w) s = pi_updateDFOutFromIn so l v m w s"
| "pi_step so (AllInFromIn l v m w) s = pi_updateAllDFInFromIn so l v m w s"
| "pi_step so (AllInFromOut l v m w) s = pi_updateAllDFInFromOut so l v m w s"
| "pi_step so (AllOutFromIn l x str) s = pi_updateAllDFOutFromIn so l x str s"
| "pi_step so (TLVPts l v k) s = pi_updateTLVPts so l v k s"
| "pi_step so (ATVPts v l k) s = pi_updateATVPts so v l k s"
| "pi_step so (ClearUpdated l) s = Some (False, (fst s, pi_clearAllDFOutUpdatedVar l (snd s)))"

definition pf_inv :: "('d \<Rightarrow> bool) \<Rightarrow> ('d \<Rightarrow> nat set) \<Rightarrow> ('k, 'd) pdf_st \<Rightarrow> bool" where
  "pf_inv dinv dset s = (pptc_inv dinv dset (fst s) \<and> \<not> pp_rev (pf_pts (snd s))
    \<and> (\<forall>x. pf_id (snd s) x < length (c_idToPts (fst s))))"

definition pf_cells :: "('d \<Rightarrow> nat set) \<Rightarrow> ('k, 'd) pdf_st \<Rightarrow> 'k df_cell \<Rightarrow> nat set" where
  "pf_cells dset s x = dset (c_idToPts (fst s) ! pf_id (snd s) x)"

definition pf_grows :: "'k pers_df \<Rightarrow> 'k pers_df \<Rightarrow> bool" where
  "pf_grows s t = (\<forall>l. (pf_hasDFInSet l s \<longrightarrow> pf_hasDFInSet l t) \<and> (pf_hasDFOutSet l s \<longrightarrow> pf_hasDFOutSet l t))"

text \<open>The number of ids, and whether there are enough for a command.\<close>

abbreviation ids :: "'d pptc \<Rightarrow> nat" where
  "ids c \<equiv> length (c_idToPts c)"

fun pf_full :: "('k, 'd) df_cmd \<Rightarrow> ('k, 'd) pdf_st \<Rightarrow> bool" where
  "pf_full (AllOutFromIn l x str) s = (2 ^ 32 < ids (fst s) + length (at_get [] (pf_in (snd s)) l))"
| "pf_full _ s = ids_full (fst s)"

fun pi_full :: "('k, 'd) df_cmd \<Rightarrow> ('k, 'd) pinc_st \<Rightarrow> bool" where
  "pi_full (AllOutFromIn l x str) s = (2 ^ 32 < ids (fst s) + length (at_get [] (pi_inUpd (snd s)) l))"
| "pi_full _ s = ids_full (fst s)"

text \<open>The outcome of an operation that needs an id: a failure means that there was none.\<close>

definition pf_result :: "('d \<Rightarrow> bool) \<Rightarrow> ('d \<Rightarrow> nat set) \<Rightarrow> bool \<Rightarrow> ('k, 'd) pdf_st \<Rightarrow>
    bool \<times> ('k df_cell \<Rightarrow> nat set) \<Rightarrow> (bool \<times> ('k, 'd) pdf_st) option \<Rightarrow> bool" where
  "pf_result dinv dset full s q res = (case res of None \<Rightarrow> full
    | Some r \<Rightarrow> fst r = fst q \<and> pf_inv dinv dset (snd r) \<and> pf_cells dset (snd r) = snd q \<and> pf_grows (snd s) (snd (snd r)))"

lemma pf_id_touch [simp]: "pf_id (pf_touch c t) x = pf_id t x"
  by (cases c; cases x) simp_all

lemma pf_id_put [simp]: "pf_id (pf_put c i t) x = (if x = c then i else pf_id t x)"
  by (cases c; cases x) auto

lemma pf_rev [simp]: "pp_rev (pf_pts (pf_put c i t)) = pp_rev (pf_pts t)" "pp_rev (pf_pts (pf_touch c t)) = pp_rev (pf_pts t)"
  by (cases c; simp)+

lemma pf_has [simp]:
  "pf_hasDFInSet l (pf_put c i s) = (pf_hasDFInSet l s \<or> (\<exists>k. c = DfIn l k))"
  "pf_hasDFOutSet l (pf_put c i s) = (pf_hasDFOutSet l s \<or> (\<exists>k. c = DfOut l k))"
  "pf_hasDFInSet l (pf_touch c s) = (pf_hasDFInSet l s \<or> (\<exists>k. c = DfIn l k))"
  "pf_hasDFOutSet l (pf_touch c s) = (pf_hasDFOutSet l s \<or> (\<exists>k. c = DfOut l k))"
  by (cases c; auto simp: pf_hasDFInSet_def pf_hasDFOutSet_def)+

declare pf_id.simps [simp del] pf_touch.simps [simp del] pf_put.simps [simp del]

lemma pf_grows_refl [simp]: "pf_grows s s"
  by (simp add: pf_grows_def)

lemma pf_grows_trans: "pf_grows s t \<Longrightarrow> pf_grows t u \<Longrightarrow> pf_grows s u"
  by (simp add: pf_grows_def)

lemma union_length: "unionPts ops a b c = Some (i, c') \<Longrightarrow> ids c' \<le> Suc (ids c)"
  using emplace_length [of ops _ "c\<lparr>c_unions := bump_total (c_unions c)\<rparr>"]
  by (fastforce simp: unionPts_def opPts_def Let_def bind_eq_Some_conv split: if_splits option.splits)

context pts_sets begin

lemma pf_union_ok:
  assumes "pf_inv dinv dset s"
  obtains "pf_union so dst src s = None" "ids (fst s) = 2 ^ 32"
    | t where "pf_union so dst src s = Some (fst (cell_union dst src (pf_cells dset s)), t)" "pf_inv dinv dset t"
      "pf_cells dset t = snd (cell_union dst src (pf_cells dset s))" "pf_grows (snd s) (snd t)"
      "\<And>l k. dst = DfIn l k \<Longrightarrow> pf_hasDFInSet l (snd t)" "\<And>l k. dst = DfOut l k \<Longrightarrow> pf_hasDFOutSet l (snd t)"
      "ids (fst t) \<le> Suc (ids (fst s))"
proof -
  obtain c t where s: "s = (c, t)" by (cases s)
  have inv: "pptc_inv dinv dset c" "\<And>x. pf_id t x < ids c" using assms by (simp_all add: s pf_inv_def)
  show ?thesis
  proof (cases rule: result_cases [OF unionPts_ok [OF inv(1) inv(2) [of dst] inv(2) [of src]]])
    case 1
    then show ?thesis using that(1) by (simp add: pf_union_def s Let_def)
  next
    case (2 m c')
    let ?u = "pf_put dst m (pf_touch src (pf_touch dst t))"
    have n: "pf_id t x < ids c' \<and> c_idToPts c' ! pf_id t x = c_idToPts c ! pf_id t x" for x
      using extends_nth [OF 2(3) inv(2)] .
    have f: "pf_id t dst \<noteq> m \<longleftrightarrow> \<not> pf_cells dset s src \<subseteq> pf_cells dset s dst"
      using ids_eq [OF 2(2) _ 2(4), of "pf_id t dst"] n [of dst] 2(5) by (auto simp: pf_cells_def s)
    show ?thesis
    proof (rule that(2))
      show "pf_union so dst src s = Some (fst (cell_union dst src (pf_cells dset s)), (c', ?u))"
        using 2(1) f by (simp add: pf_union_def s Let_def cell_union_def)
      show "pf_inv dinv dset (c', ?u)" using assms 2(2,4) n by (simp add: pf_inv_def s)
      show "pf_cells dset (c', ?u) = snd (cell_union dst src (pf_cells dset s))"
        using 2(5) n by (simp add: pf_cells_def s cell_union_def fun_eq_iff)
      show "ids (fst (c', ?u)) \<le> Suc (ids (fst s))" using union_length [OF 2(1)] by (simp add: s)
    qed (simp_all add: pf_grows_def s)
  qed
qed

lemma pf_union_result:
  "pf_inv dinv dset s \<Longrightarrow> pf_result dinv dset (ids_full (fst s)) s (cell_union dst src (pf_cells dset s)) (pf_union so dst src s)"
  by (rule pf_union_ok [of s dst src]) (auto simp: pf_result_def ids_full_def)

lemma pf_base_ok:
  assumes s: "pf_inv dinv dset s" and ok: "cmd_ok dinv b"
  shows "pf_result dinv dset (ids_full (fst s)) s (base_cells dset b (pf_cells dset s)) (pf_base so b s)"
proof -
  obtain c t where st: "s = (c, t)" by (cases s)
  have top: "pf_id t (Top k) = pp_id (pf_pts t) k" for k t by (simp add: pf_id.simps)
  have inv: "pp_inv dinv dset (c, pf_pts t)"
    using s unfolding pf_inv_def pp_inv_def pp_ok_def st fst_conv snd_conv top [symmetric] by blast
  have pp: "pf_base so b s = pf_lift (pp_step so b) s" by (cases b) (simp_all add: pf_addPts_def pf_unionPts_def
      pf_unionPtsSet_def pf_clearPts_def pf_clearFullPts_def pf_lift_def)
  note r = pp_step_ok [OF inv ok, unfolded pp_result_def]
  show ?thesis
  proof (cases "pp_step so b (c, pf_pts t)")
    case None
    then show ?thesis using r unfolding pp by (simp add: pf_lift_def st pf_result_def)
  next
    case (Some q)
    obtain f c' p where q: "q = (f, c', p)" by (cases q) auto
    have r': "f = fst (spec_step dset b (pp_nodes dset (c, pf_pts t)))" "pp_inv dinv dset (c', p)"
      "pp_nodes dset (c', p) = snd (spec_step dset b (pp_nodes dset (c, pf_pts t)))" "pp_rev p = pp_rev (pf_pts t)"
      and ext: "extends c c'"
      using r Some q by simp_all
    have P: "pp_nodes dset (c, pf_pts t) = (\<lambda>k. pf_cells dset s (Top k))"
      by (simp add: pp_nodes_def pf_cells_def st top fun_eq_iff)
    let ?u = "t\<lparr>pf_pts := p\<rparr>"
    have id: "pf_id ?u x = (case x of Top k \<Rightarrow> pp_id p k | _ \<Rightarrow> pf_id t x)" for x by (cases x) (simp_all add: pf_id.simps)
    have n: "pf_id t x < ids c' \<and> c_idToPts c' ! pf_id t x = c_idToPts c ! pf_id t x" for x
      using extends_nth [OF ext] s by (simp add: pf_inv_def st)
    have "pf_inv dinv dset (c', ?u)"
      using r'(2,4) s n by (auto simp: pf_inv_def st id pp_inv_def pp_ok_def split: df_cell.split)
    moreover have "pf_cells dset (c', ?u) = snd (base_cells dset b (pf_cells dset s))"
      unfolding base_cells_def Let_def snd_conv P [symmetric] r'(3) [symmetric]
      using n by (auto simp: pf_cells_def id pp_nodes_def st fun_eq_iff split: df_cell.split)
    moreover have "f = fst (base_cells dset b (pf_cells dset s))" by (simp add: base_cells_def Let_def r'(1) P)
    moreover have "pf_grows t ?u" by (simp add: pf_grows_def pf_hasDFInSet_def pf_hasDFOutSet_def)
    ultimately show ?thesis using Some q unfolding pp by (simp add: pf_lift_def st pf_result_def)
  qed
qed


lemma pf_absent_empty:
  assumes "pf_inv dinv dset s" "v \<notin> set (map fst (at_get [] (pf_in (snd s)) l))"
  shows "pf_cells dset s (DfIn l v) = {}"
proof -
  have "pf_id (snd s) (DfIn l v) = 0" using dm_at_absent [of v "pf_in (snd s)" l 0] assms(2) by (simp add: pf_id.simps)
  then show ?thesis using assms(1) by (simp add: pf_cells_def pf_inv_def pptc_inv_def core_inv_def)
qed

lemma pf_out_ok:
  assumes s: "pf_inv dinv dset s"
  shows "pf_result dinv dset (pf_full (AllOutFromIn l x str :: ('k, 'd) df_cmd) s) s
    (out_all {v. \<not> (str \<and> v = x)} l (pf_cells dset s)) (pf_updateAllDFOutFromIn so l x str s)"
proof (cases "pf_hasDFInSet l (snd s)")
  case False
  then have "pf_cells dset s (DfIn l v) = {}" for v
    by (intro pf_absent_empty [OF s]) (simp add: pf_hasDFInSet_def dm_not_has)
  then have "out_all {} l (pf_cells dset s) = out_all {v. \<not> (str \<and> v = x)} l (pf_cells dset s)"
    by (intro out_all_subset) simp_all
  then show ?thesis using False s by (simp add: pf_updateAllDFOutFromIn_def pf_result_def out_all_empty prod_eq_iff)
next
  case True
  let ?vs = "map fst (at_get [] (pf_in (snd s)) l)" and ?P = "pf_cells dset s"
  let ?J = "\<lambda>t. pf_inv dinv dset t \<and> pf_grows (snd s) (snd t)"
  have sim: "case out_loop (\<lambda>v. pf_updateDFOutFromIn so l v l v) x str ?vs False s of
      None \<Rightarrow> 2 ^ 32 < ids (fst s) + length ?vs
    | Some (b, t) \<Rightarrow> ?J t \<and> (b, pf_cells dset t) = spec_loop (\<lambda>v. cell_union (DfOut l v) (DfIn l v)) x str ?vs False ?P"
  proof (rule out_loop_sim [where sz = "\<lambda>t. ids (fst t)" and J = ?J and abs = "pf_cells dset"])
    fix v and t assume J: "?J t"
    then have "pf_inv dinv dset t" ..
    then show "case pf_updateDFOutFromIn so l v l v t of None \<Rightarrow> 2 ^ 32 \<le> ids (fst t)
      | Some (b, u) \<Rightarrow> ?J u \<and> (b, pf_cells dset u) = cell_union (DfOut l v) (DfIn l v) (pf_cells dset t)
          \<and> ids (fst u) \<le> Suc (ids (fst t))"
      by (rule pf_union_ok [of t "DfOut l v" "DfIn l v"])
        (use J pf_grows_trans in \<open>auto simp: pf_updateDFOutFromIn_def\<close>)
  qed (use s in simp)
  have V: "out_all {v \<in> set ?vs. \<not> (str \<and> v = x)} l ?P = out_all {v. \<not> (str \<and> v = x)} l ?P"
    by (rule out_all_subset) (use pf_absent_empty [OF s, of _ l] in auto)
  show ?thesis
    using sim True unfolding out_loop_plain Let_def V
    by (auto simp: pf_updateAllDFOutFromIn_def pf_result_def prod_eq_iff split: option.splits)
qed

lemma pf_step_ok:
  fixes c :: "('k, 'd) df_cmd"
  assumes "pf_inv dinv dset s" "df_ok dinv c"
  shows "pf_result dinv dset (pf_full c s) s (df_spec dset c (pf_cells dset s)) (pf_step so c s)"
  using assms pf_union_result [OF assms(1)] pf_base_ok [OF assms(1)] pf_out_ok [OF assms(1)]
  by (cases c) (simp_all add: pf_updateDFInFromIn_def pf_updateDFInFromOut_def pf_updateDFOutFromIn_def
      pf_updateAllDFInFromIn_def pf_updateAllDFInFromOut_def pf_updateTLVPts_def pf_updateATVPts_def,
      simp add: pf_result_def)

lemma pf_table: "refines (pf_step so :: ('k, 'd) df_cmd \<Rightarrow> _) (df_spec dset) (df_ok dinv) (pf_inv dinv dset) pf_full (pf_cells dset)"
proof
  fix s :: "('k, 'd) pdf_st" and c :: "('k, 'd) df_cmd" and b s'
  assume a: "pf_inv dinv dset s" "df_ok dinv c"
  note r = pf_step_ok [OF a]
  show "pf_full c s" if "pf_step so c s = None" using r that by (simp add: pf_result_def)
  show "pf_inv dinv dset s' \<and> (b, pf_cells dset s') = df_spec dset c (pf_cells dset s)" if "pf_step so c s = Some (b, s')"
    using r that by (simp add: pf_result_def)
qed

end

section \<open>The incremental table implements its specification\<close>

definition us_vars :: "(nat \<times> 'k list) list \<Rightarrow> nat \<Rightarrow> 'k set" where
  "us_vars m l = set (at_get [] m l)"

lemma us_simps [simp]:
  "us_vars (us_set l v m) = (us_vars m)(l := insert v (us_vars m l))"
  "us_test l v m = (v \<in> us_vars m l)"
  by (auto simp: us_vars_def us_set_def us_test_def Let_def at_get_def at_put_def fun_eq_iff update_conv' split: option.split)

lemma us_vars_erase [simp]: "us_vars (us_erase l v m) = (us_vars m)(l := us_vars m l - {v})"
proof (cases "map_of m l")
  case None
  then show ?thesis by (simp add: us_vars_def us_erase_def at_get_def fun_eq_iff)
next
  case (Some ks)
  then have "us_vars m l = set ks" by (simp add: us_vars_def at_get_def)
  then show ?thesis using Some by (auto simp: us_vars_def us_erase_def fun_eq_iff)
qed

lemma us_vars_touch [simp]: "us_vars (at_touch [] l m) = us_vars m"
  by (simp add: us_vars_def fun_eq_iff)

definition pi_abs :: "('d \<Rightarrow> nat set) \<Rightarrow> ('k, 'd) pinc_st \<Rightarrow> 'k inc_state" where
  "pi_abs dset s = (pf_cells dset (fst s, pi_df (snd s)), us_vars (pi_inUpd (snd s)), us_vars (pi_outUpd (snd s)))"

definition pi_inv :: "('d \<Rightarrow> bool) \<Rightarrow> ('d \<Rightarrow> nat set) \<Rightarrow> ('k, 'd) pinc_st \<Rightarrow> bool" where
  "pi_inv dinv dset s = (pf_inv dinv dset (fst s, pi_df (snd s))
    \<and> (\<forall>l. us_vars (pi_inUpd (snd s)) l \<noteq> {} \<longrightarrow> pf_hasDFInSet l (pi_df (snd s)))
    \<and> (\<forall>l. us_vars (pi_outUpd (snd s)) l \<noteq> {} \<longrightarrow> pf_hasDFOutSet l (pi_df (snd s))))"

definition pi_result :: "('d \<Rightarrow> bool) \<Rightarrow> ('d \<Rightarrow> nat set) \<Rightarrow> bool \<Rightarrow> nat \<Rightarrow> bool \<times> 'k inc_state \<Rightarrow>
    (bool \<times> ('k, 'd) pinc_st) option \<Rightarrow> bool" where
  "pi_result dinv dset full n q res = (case res of None \<Rightarrow> full
    | Some r \<Rightarrow> fst r = fst q \<and> pi_inv dinv dset (snd r) \<and> pi_abs dset (snd r) = snd q \<and> ids (fst (snd r)) \<le> Suc n)"

lemma pi_result_same:
  "pi_inv dinv dset s \<Longrightarrow> pi_abs dset s = a \<Longrightarrow> pi_result dinv dset full (ids (fst s)) (b, a) (Some (b, s))"
  by (simp add: pi_result_def)

lemma pi_marks:
  assumes "pi_inv dinv dset s" "pi_abs dset s = (P, I, U)"
  shows "pi_inv dinv dset (fst s, pi_removeVarFromDFInUpdatedSet l v (snd s))"
    "pi_abs dset (fst s, pi_removeVarFromDFInUpdatedSet l v (snd s)) = (P, I(l := I l - {v}), U)"
    "pi_varHasNewDFInPts l v (snd s) = (v \<in> I l)" "pi_varHasNewDFOutPts l v (snd s) = (v \<in> U l)"
  using assms by (auto simp: pi_inv_def pi_abs_def pi_removeVarFromDFInUpdatedSet_def pi_varHasNewDFInPts_def
      pi_varHasNewDFOutPts_def)

context pts_sets begin

lemma pi_union_ok:
  assumes "pi_inv dinv dset s" "pi_abs dset s = (P, I, U)"
  obtains "pi_union so dst src s = None" "ids (fst s) = 2 ^ 32"
    | t where "pi_union so dst src s = Some (fst (cell_union dst src P), t)" "pi_inv dinv dset t"
      "pi_abs dset t = (snd (cell_union dst src P), I, U)"
      "\<And>l k. dst = DfIn l k \<Longrightarrow> pf_hasDFInSet l (pi_df (snd t))" "\<And>l k. dst = DfOut l k \<Longrightarrow> pf_hasDFOutSet l (pi_df (snd t))"
      "ids (fst t) \<le> Suc (ids (fst s))"
proof -
  let ?s = "(fst s, pi_df (snd s))"
  have i: "pf_inv dinv dset ?s" and P: "pf_cells dset ?s = P" using assms by (simp_all add: pi_inv_def pi_abs_def)
  show ?thesis
  proof (rule pf_union_ok [OF i, of dst src])
    assume "pf_union so dst src ?s = None" "ids (fst ?s) = 2 ^ 32"
    then show ?thesis using that(1) by (simp add: pi_union_def)
  next
    fix t assume t: "pf_union so dst src ?s = Some (fst (cell_union dst src (pf_cells dset ?s)), t)" "pf_inv dinv dset t"
      "pf_cells dset t = snd (cell_union dst src (pf_cells dset ?s))" "pf_grows (snd ?s) (snd t)"
      "\<And>l k. dst = DfIn l k \<Longrightarrow> pf_hasDFInSet l (snd t)" "\<And>l k. dst = DfOut l k \<Longrightarrow> pf_hasDFOutSet l (snd t)"
      "ids (fst t) \<le> Suc (ids (fst ?s))"
    show ?thesis
      by (rule that(2) [of "(fst t, (snd s)\<lparr>pi_df := snd t\<rparr>)"])
        (use assms t P in \<open>auto simp: pi_union_def pi_inv_def pi_abs_def pf_grows_def\<close>)
  qed
qed

lemma pi_in_step_ok:
  assumes "pi_inv dinv dset s" "pi_abs dset s = a"
  shows "pi_result dinv dset (ids (fst s) = 2 ^ 32) (ids (fst s)) (union_mark_in m w src a) (pi_in_step so m w src s)"
proof -
  obtain P I U where a: "a = (P, I, U)" by (cases a)
  show ?thesis
  proof (rule pi_union_ok [OF assms(1) assms(2) [unfolded a], of "DfIn m w" src])
    assume "pi_union so (DfIn m w) src s = None" "ids (fst s) = 2 ^ 32"
    then show ?thesis by (simp add: pi_in_step_def pi_result_def)
  next
    fix t assume t: "pi_union so (DfIn m w) src s = Some (fst (cell_union (DfIn m w) src P), t)" "pi_inv dinv dset t"
      "pi_abs dset t = (snd (cell_union (DfIn m w) src P), I, U)"
      "\<And>l k. DfIn m w = DfIn l k \<Longrightarrow> pf_hasDFInSet l (pi_df (snd t))" "ids (fst t) \<le> Suc (ids (fst s))"
    let ?u = "(fst t, pi_setVarDFInSetUpdated m w (snd t))"
    have "pi_inv dinv dset ?u" "pi_abs dset ?u = (snd (cell_union (DfIn m w) src P), I(m := insert w (I m)), U)"
      using t(2-4) by (auto simp: pi_inv_def pi_abs_def pi_setVarDFInSetUpdated_def)
    then show ?thesis using t by (simp add: a pi_in_step_def pi_result_def union_mark_in_def Let_def)
  qed
qed

lemma pi_out_step_ok:
  assumes "pi_inv dinv dset s" "pi_abs dset s = a"
  shows "pi_result dinv dset (ids (fst s) = 2 ^ 32) (ids (fst s)) (union_mark_out m w src a) (pi_out_step so m w src s)"
proof -
  obtain P I U where a: "a = (P, I, U)" by (cases a)
  show ?thesis
  proof (rule pi_union_ok [OF assms(1) assms(2) [unfolded a], of "DfOut m w" src])
    assume "pi_union so (DfOut m w) src s = None" "ids (fst s) = 2 ^ 32"
    then show ?thesis by (simp add: pi_out_step_def pi_result_def)
  next
    fix t assume t: "pi_union so (DfOut m w) src s = Some (fst (cell_union (DfOut m w) src P), t)" "pi_inv dinv dset t"
      "pi_abs dset t = (snd (cell_union (DfOut m w) src P), I, U)"
      "\<And>l k. DfOut m w = DfOut l k \<Longrightarrow> pf_hasDFOutSet l (pi_df (snd t))" "ids (fst t) \<le> Suc (ids (fst s))"
    let ?u = "(fst t, pi_setVarDFOutSetUpdated m w (snd t))"
    have "pi_inv dinv dset ?u" "pi_abs dset ?u = (snd (cell_union (DfOut m w) src P), I, U(m := insert w (U m)))"
      using t(2-4) by (auto simp: pi_inv_def pi_abs_def pi_setVarDFOutSetUpdated_def)
    then show ?thesis using t by (simp add: a pi_out_step_def pi_result_def union_mark_out_def Let_def)
  qed
qed

lemma pi_outFromIn_ok:
  assumes "pi_inv dinv dset s" "pi_abs dset s = a"
  shows "pi_result dinv dset (ids (fst s) = 2 ^ 32) (ids (fst s)) (inc_out l v m w a) (pi_updateDFOutFromIn so l v m w s)"
proof -
  obtain P I U where a: "a = (P, I, U)" by (cases a)
  note mk = pi_marks [OF assms(1) assms(2) [unfolded a], of l v]
  show ?thesis
    using pi_out_step_ok [OF mk(1,2), of m w "DfIn l v"] pi_result_same [OF assms]
    by (simp add: a inc_out_def pi_updateDFOutFromIn_def mk(3))
qed

lemma pi_outAll_ok:
  assumes "pi_inv dinv dset s" "pi_abs dset s = (P, I, U)"
  shows "case pi_updateAllDFOutFromIn so l x str s of None \<Rightarrow> pi_full (AllOutFromIn l x str :: ('k, 'd) df_cmd) s
    | Some (b, t) \<Rightarrow> pi_inv dinv dset t \<and> (b, pi_abs dset t) = inc_spec dset (AllOutFromIn l x str) (P, I, U)"
proof (cases "pf_hasDFInSet l (pi_df (snd s))")
  case False
  then have "I l = {}" using assms by (auto simp: pi_inv_def pi_abs_def)
  then show ?thesis
    using False assms by (simp add: pi_updateAllDFOutFromIn_def Let_def out_all_empty fun_upd_idem)
next
  case True
  let ?vs = "at_get [] (pi_inUpd (snd s)) l" and ?t = "(fst s, snd (pi_getDFInUpdatedVar l (snd s)))"
  have vs: "set ?vs = I l" using assms(2) by (auto simp: pi_abs_def us_vars_def)
  have t: "pi_inv dinv dset ?t" "pi_abs dset ?t = (P, I, U)"
    using assms by (simp_all add: pi_getDFInUpdatedVar_def pi_inv_def pi_abs_def)
  have sim: "case out_loop (\<lambda>v. pi_updateDFOutFromIn so l v l v) x str ?vs False ?t of None \<Rightarrow> 2 ^ 32 < ids (fst ?t) + length ?vs
    | Some (b, u) \<Rightarrow> pi_inv dinv dset u \<and> (b, pi_abs dset u) = spec_loop (\<lambda>v. inc_out l v l v) x str ?vs False (pi_abs dset ?t)"
  proof (rule out_loop_sim [where sz = "\<lambda>t. ids (fst t)" and J = "pi_inv dinv dset" and abs = "pi_abs dset"])
    fix v t assume "pi_inv dinv dset t"
    then show "case pi_updateDFOutFromIn so l v l v t of None \<Rightarrow> 2 ^ 32 \<le> ids (fst t)
      | Some (b, u) \<Rightarrow> pi_inv dinv dset u \<and> (b, pi_abs dset u) = inc_out l v l v (pi_abs dset t) \<and> ids (fst u) \<le> Suc (ids (fst t))"
      using pi_outFromIn_ok [of t _ l v l v] by (auto simp: pi_result_def prod_eq_iff split: option.splits)
  qed (rule t(1))
  have "{v \<in> I l. v \<in> set ?vs \<and> \<not> (str \<and> v = x)} = {v \<in> I l. \<not> (str \<and> v = x)}" using vs by auto
  then have L: "spec_loop (\<lambda>v. inc_out l v l v) x str ?vs False (P, I, U) = inc_spec dset (AllOutFromIn l x str) (P, I, U)"
    unfolding out_loop_inc by (simp add: Let_def)
  show ?thesis
    using True sim [unfolded t(2) L] unfolding pi_updateAllDFOutFromIn_def pi_full.simps pi_getDFInUpdatedVar_def Let_def fst_conv
      snd_conv by simp
qed

lemma pi_clear_fold:
  "us_vars (pi_outUpd (foldl (\<lambda>u v. pi_removeVarFromDFOutUpdatedSet l v u) t vs))
      = (us_vars (pi_outUpd t))(l := us_vars (pi_outUpd t) l - set vs)
    \<and> pi_inUpd (foldl (\<lambda>u v. pi_removeVarFromDFOutUpdatedSet l v u) t vs) = pi_inUpd t
    \<and> pi_df (foldl (\<lambda>u v. pi_removeVarFromDFOutUpdatedSet l v u) t vs) = pi_df t"
  by (induction vs arbitrary: t) (auto simp: pi_removeVarFromDFOutUpdatedSet_def fun_eq_iff)

lemma pi_clear_ok:
  assumes "pi_inv dinv dset s" "pi_abs dset s = (P, I, U)"
  shows "pi_inv dinv dset (fst s, pi_clearAllDFOutUpdatedVar l (snd s))"
    "pi_abs dset (fst s, pi_clearAllDFOutUpdatedVar l (snd s)) = (P, I, U(l := {}))"
proof -
  let ?t = "pi_clearAllDFOutUpdatedVar l (snd s)"
  have U: "us_vars (pi_outUpd (snd s)) = U" "I = us_vars (pi_inUpd (snd s))" "P = pf_cells dset (fst s, pi_df (snd s))"
    using assms(2) by (auto simp: pi_abs_def)
  have "U l = {}" if "\<not> pf_hasDFOutSet l (pi_df (snd s))"
    using that assms(1) U(1) unfolding pi_inv_def by metis
  moreover have "set (at_get [] (pi_outUpd (snd s)) l) = U l" using U(1) by (auto simp: us_vars_def)
  ultimately have "us_vars (pi_outUpd ?t) = U(l := {}) \<and> pi_inUpd ?t = pi_inUpd (snd s) \<and> pi_df ?t = pi_df (snd s)"
    using U(1) by (auto simp: pi_clearAllDFOutUpdatedVar_def pi_getDFOutUpdatedVar_def Let_def pi_clear_fold fun_upd_idem)
  then show "pi_inv dinv dset (fst s, ?t)" "pi_abs dset (fst s, ?t) = (P, I, U(l := {}))"
    using assms U by (auto simp: pi_inv_def pi_abs_def)
qed

lemma pi_step_ok:
  fixes c :: "('k, 'd) df_cmd"
  assumes s: "pi_inv dinv dset s" and ok: "df_ok dinv c"
  shows "case pi_step so c s of None \<Rightarrow> pi_full c s
    | Some (b, t) \<Rightarrow> pi_inv dinv dset t \<and> (b, pi_abs dset t) = inc_spec dset c (pi_abs dset s)"
proof -
  obtain P I U where a: "pi_abs dset s = (P, I, U)" by (cases "pi_abs dset s")
  have fin: "case r of None \<Rightarrow> ids_full (fst s) | Some (b, t) \<Rightarrow> pi_inv dinv dset t \<and> (b, pi_abs dset t) = q"
    if "pi_result dinv dset (ids (fst s) = 2 ^ 32) n q r" for n q r
    using that by (auto simp: pi_result_def ids_full_def prod_eq_iff split: option.splits)
  note mk = pi_marks [OF s a]
  show ?thesis
  proof (cases c)
    case (DfBase b)
    let ?s = "(fst s, pi_df (snd s))"
    have d: "pf_inv dinv dset ?s" "pf_cells dset ?s = P" using s a by (simp_all add: pi_inv_def pi_abs_def)
    have "cmd_ok dinv b" using ok DfBase by simp
    note r = pf_base_ok [OF d(1) this, unfolded pf_result_def d(2)]
    show ?thesis
    proof (cases "pf_base so b ?s")
      case None
      then show ?thesis using r by (simp add: DfBase)
    next
      case (Some q)
      then show ?thesis using r s a by (auto simp: DfBase pi_inv_def pi_abs_def pf_grows_def Let_def prod_eq_iff)
    qed
  next
    case (InFromIn l v m w)
    show ?thesis
      using fin [OF pi_in_step_ok [OF s a, of m w "DfIn l v"]] s a
      unfolding InFromIn a pi_step.simps inc_spec.simps pi_full.simps pi_updateDFInFromIn_def mk(3) by (simp add: a)
  next
    case (InFromOut l v m w)
    show ?thesis
      using fin [OF pi_in_step_ok [OF s a, of m w "DfOut l v"]] s a
      unfolding InFromOut a pi_step.simps inc_spec.simps pi_full.simps pi_updateDFInFromOut_def mk(4) by (simp add: a)
  next
    case (OutFromIn l v m w)
    show ?thesis using fin [OF pi_outFromIn_ok [OF s a, of l v m w]] 
      unfolding OutFromIn a pi_step.simps inc_spec.simps pi_full.simps .
  next
    case (AllInFromIn l v m w)
    show ?thesis using fin [OF pi_in_step_ok [OF s a, of m w "DfIn l v"]] 
      unfolding AllInFromIn a pi_step.simps inc_spec.simps pi_full.simps pi_updateAllDFInFromIn_def .
  next
    case (AllInFromOut l v m w)
    show ?thesis using fin [OF pi_in_step_ok [OF s a, of m w "DfOut l v"]] 
      unfolding AllInFromOut a pi_step.simps inc_spec.simps pi_full.simps pi_updateAllDFInFromOut_def .
  next
    case (AllOutFromIn l x str)
    show ?thesis using pi_outAll_ok [OF s a, of l x str] unfolding AllOutFromIn a pi_step.simps .
  next
    case (TLVPts l v k)
    show ?thesis
    proof (cases "v \<in> I l")
      case True
      show ?thesis
        by (rule pi_union_ok [OF mk(1) [of l v] mk(2) [of l v], of "Top k" "DfIn l v"])
          (use True in \<open>simp_all add: TLVPts a pi_updateTLVPts_def mk(3) ids_full_def Let_def\<close>)
    qed (use s a in \<open>simp add: TLVPts pi_updateTLVPts_def mk(3)\<close>)
  next
    case (ATVPts v l k)
    show ?thesis using fin [OF pi_out_step_ok [OF s a, of l k "Top v"]] 
      unfolding ATVPts a pi_step.simps inc_spec.simps pi_full.simps pi_updateATVPts_def .
  next
    case (ClearUpdated l)
    show ?thesis using pi_clear_ok [OF s a, of l] by (simp add: ClearUpdated a)
  qed
qed

lemma pi_table: "refines (pi_step so :: ('k, 'd) df_cmd \<Rightarrow> _) (inc_spec dset) (df_ok dinv) (pi_inv dinv dset) pi_full (pi_abs dset)"
proof
  fix s :: "('k, 'd) pinc_st" and c :: "('k, 'd) df_cmd" and b s'
  assume a: "pi_inv dinv dset s" "df_ok dinv c"
  note r = pi_step_ok [OF a]
  show "pi_full c s" if "pi_step so c s = None" using r that by simp
  show "pi_inv dinv dset s' \<and> (b, pi_abs dset s') = inc_spec dset c (pi_abs dset s)" if "pi_step so c s = Some (b, s')"
    using r that by simp
qed

end

interpretation pft: refines "pf_step (pt_set_ops sbv_config)" "df_spec pt_nodes" "df_ok (pt_plain SBV)"
  "pf_inv (pt_plain SBV) pt_nodes" pf_full "pf_cells pt_nodes"
  by (rule sbv_sets.pf_table)

interpretation pit: refines "pi_step (pt_set_ops sbv_config)" "inc_spec pt_nodes" "df_ok (pt_plain SBV)"
  "pi_inv (pt_plain SBV) pt_nodes" pi_full "pi_abs pt_nodes"
  by (rule sbv_sets.pi_table)

end
