(* ===== verification/DfCorrect.thy ===== *)
theory DfCorrect
  imports PersistentDf
begin

text \<open>
  What the four data-flow tables promise together: the plain tables, mutable and persistent, have the
  same runs, so have the incremental tables, and the incremental transfer from IN to OUT of a location
  loses nothing.
\<close>

section \<open>Empty tables\<close>

abbreviation inc_empty :: "'k inc_state" where
  "inc_empty \<equiv> (\<lambda>_. {}, \<lambda>_. {}, \<lambda>_. {})"

lemma df_start:
  "mf_inv (pt_plain SBV) (pt_set_ops sbv_config) (mf_make False :: ('k, points_to) mut_df)"
  "mf_cells pt_nodes (pt_set_ops sbv_config) (mf_make False :: ('k, points_to) mut_df) = (\<lambda>_. {})"
proof -
  have "mf_at (pt_set_ops sbv_config) (mf_make False :: ('k, points_to) mut_df) x = so_new (pt_set_ops sbv_config)" for x
    by (cases x) (simp_all add: mf_at.simps mf_make_def dm_at_def at_get_def mp_at_def mp_make_def)
  then show "mf_inv (pt_plain SBV) (pt_set_ops sbv_config) (mf_make False :: ('k, points_to) mut_df)"
    "mf_cells pt_nodes (pt_set_ops sbv_config) (mf_make False :: ('k, points_to) mut_df) = (\<lambda>_. {})"
    using sbv_sets.new_ok by (simp_all add: mf_inv_def mf_cells_def fun_eq_iff, simp add: mf_make_def mp_make_def)
qed

lemma inc_start:
  "mi_inv (pt_plain SBV) pt_nodes (pt_set_ops sbv_config) (mi_make False)"
  "mi_abs pt_nodes (pt_set_ops sbv_config) (mi_make False) = inc_empty"
  using df_start sbv_sets.new_ok
  by (simp_all add: mi_inv_def mi_abs_def mi_make_def um_ok_def um_vars_def at_get_def fun_eq_iff)

lemma pdf_start:
  assumes "pptc_new (pt_ops sbv_config) = Some c"
  shows "pf_inv (pt_plain SBV) pt_nodes (c, pf_make False :: 'k pers_df)"
    "pf_cells pt_nodes (c, pf_make False :: 'k pers_df) = (\<lambda>_. {})"
proof -
  have c: "pptc_inv (pt_plain SBV) pt_nodes c" "c_idToPts c = [do_new (pt_ops sbv_config)]"
    using sbv_cache assms by (metis option.inject)+
  have "pf_id (pf_make False :: 'k pers_df) x = 0" for x
    by (cases x) (simp_all add: pf_id.simps pf_make_def dm_at_def at_get_def pp_id_def pp_make_def)
  then show "pf_inv (pt_plain SBV) pt_nodes (c, pf_make False :: 'k pers_df)"
    "pf_cells pt_nodes (c, pf_make False :: 'k pers_df) = (\<lambda>_. {})"
    using c sbv_sets.new_ok(2)
    by (simp_all add: pf_inv_def pf_cells_def fun_eq_iff pt_set_ops_def, simp add: pf_make_def pp_make_def)
qed

lemma pinc_start:
  assumes "pptc_new (pt_ops sbv_config) = Some c"
  shows "pi_inv (pt_plain SBV) pt_nodes (c, pi_make False :: 'k pers_inc)"
    "pi_abs pt_nodes (c, pi_make False :: 'k pers_inc) = inc_empty"
  using pdf_start [OF assms]
  by (simp_all add: pi_inv_def pi_abs_def pi_make_def us_vars_def at_get_def fun_eq_iff)

lemma inc_ok_df: "inc_ok dinv c \<Longrightarrow> df_ok dinv c"
  by (cases c) simp_all

section \<open>The plain tables\<close>

text \<open>C17: For points-to sets that are sparse bit vectors (the default) without a node mapping, the
  mutable and the persistent data-flow table implement one specification on the IN, OUT and top-level
  sets. From empty tables, every sequence of updates succeeds on the mutable table, and
  yields the flags and the sets of the specification; the persistent table yields the same, or fails
  where its cache has no id left for the next update. The restriction is needed for the flags: with core
  bit vectors, a source with zero words only makes an update of a fresh cell return true.\<close>

theorem df_tables_correct:
  fixes cs :: "('k, points_to) df_cmd list"
  assumes "\<forall>c\<in>set cs. df_ok (pt_plain SBV) c" "pptc_new (pt_ops sbv_config) = Some c0"
  shows "(\<exists>s. run_cmds (mf_step (pt_set_ops sbv_config)) cs (mf_make False)
        = Some (fst (spec_run (df_spec pt_nodes) cs (\<lambda>_. {})), s)
      \<and> mf_cells pt_nodes (pt_set_ops sbv_config) s = snd (spec_run (df_spec pt_nodes) cs (\<lambda>_. {})))
    \<and> (case run_cmds (pf_step (pt_set_ops sbv_config)) cs (c0, pf_make False) of
        None \<Rightarrow> \<exists>n bs t. n < length cs \<and> pf_full (cs ! n) t
          \<and> run_cmds (pf_step (pt_set_ops sbv_config)) (take n cs) (c0, pf_make False) = Some (bs, t)
      | Some (bs, t) \<Rightarrow> (bs, pf_cells pt_nodes t) = spec_run (df_spec pt_nodes) cs (\<lambda>_. {}))"
proof (rule conjI)
  show "\<exists>s. run_cmds (mf_step (pt_set_ops sbv_config)) cs (mf_make False)
        = Some (fst (spec_run (df_spec pt_nodes) cs (\<lambda>_. {})), s)
      \<and> mf_cells pt_nodes (pt_set_ops sbv_config) s = snd (spec_run (df_spec pt_nodes) cs (\<lambda>_. {}))"
    by (rule mft.run_total [OF _ df_start(1) assms(1)]) (auto simp: df_start(2))
  show "case run_cmds (pf_step (pt_set_ops sbv_config)) cs (c0, pf_make False) of
        None \<Rightarrow> \<exists>n bs t. n < length cs \<and> pf_full (cs ! n) t
          \<and> run_cmds (pf_step (pt_set_ops sbv_config)) (take n cs) (c0, pf_make False) = Some (bs, t)
      | Some (bs, t) \<Rightarrow> (bs, pf_cells pt_nodes t) = spec_run (df_spec pt_nodes) cs (\<lambda>_. {})"
    using pft.run_None [OF pdf_start(1) [OF assms(2)] assms(1)]
      pft.run_Some [OF pdf_start(1) [OF assms(2)] assms(1)] pdf_start(2) [OF assms(2), where 'k = 'k]
    by (auto split: option.split)
qed

lemma df_tables_witness:
  "\<exists>s. run_cmds (mf_step (pt_set_ops sbv_config))
      [DfBase (AddPts (1::nat) 7), ATVPts 1 5 2, InFromOut 5 2 6 2, AllOutFromIn 6 3 True, TLVPts 6 2 4, TLVPts 6 3 4]
      (mf_make False) = Some ([True, True, True, True, True, False], s)
    \<and> mf_cells pt_nodes (pt_set_ops sbv_config) s (DfOut 6 2) = {7}
    \<and> mf_cells pt_nodes (pt_set_ops sbv_config) s (Top 4) = {7}"
proof -
  let ?cs = "[DfBase (AddPts (1::nat) 7), ATVPts 1 5 2, InFromOut 5 2 6 2, AllOutFromIn 6 3 True, TLVPts 6 2 4, TLVPts 6 3 4]
    :: (nat, points_to) df_cmd list"
  obtain c where c: "pptc_new (pt_ops sbv_config) = Some c" by (rule sbv_cache)
  have ok: "\<forall>c\<in>set ?cs. df_ok (pt_plain SBV) c" by (simp add: node_ok_def)
  from df_tables_correct [OF ok c] show ?thesis
    by (elim conjE exE) (auto simp: base_cells_simps cell_union_def out_all_def Let_def)
qed

section \<open>The incremental tables\<close>

text \<open>C18: The mutable and the persistent incremental data-flow table implement one specification, too, again
  for sparse bit vectors without a node mapping: the one in which a transfer happens only for variables
  whose set has changed since the last transfer. From empty tables, every sequence of updates succeeds
  on the mutable table and yields the flags, sets and marks of the specification; the persistent table
  yields the same, or fails where its cache has no id left for the next update. With core bit vectors a
  false changed flag would also mark a variable as updated.\<close>

theorem inc_tables_correct:
  fixes cs :: "(nat, points_to) df_cmd list"
  assumes "\<forall>c\<in>set cs. inc_ok (pt_plain SBV) c" "pptc_new (pt_ops sbv_config) = Some c0"
  shows "(\<exists>s. run_cmds (mi_step (pt_set_ops sbv_config)) cs (mi_make False)
        = Some (fst (spec_run (inc_spec pt_nodes) cs inc_empty), s)
      \<and> mi_abs pt_nodes (pt_set_ops sbv_config) s = snd (spec_run (inc_spec pt_nodes) cs inc_empty))
    \<and> (case run_cmds (pi_step (pt_set_ops sbv_config)) cs (c0, pi_make False) of
        None \<Rightarrow> \<exists>n bs t. n < length cs \<and> pi_full (cs ! n) t
          \<and> run_cmds (pi_step (pt_set_ops sbv_config)) (take n cs) (c0, pi_make False) = Some (bs, t)
      | Some (bs, t) \<Rightarrow> (bs, pi_abs pt_nodes t) = spec_run (inc_spec pt_nodes) cs inc_empty)"
proof (rule conjI)
  have ok: "\<forall>c\<in>set cs. df_ok (pt_plain SBV) c" using assms(1) inc_ok_df by blast
  show "\<exists>s. run_cmds (mi_step (pt_set_ops sbv_config)) cs (mi_make False)
        = Some (fst (spec_run (inc_spec pt_nodes) cs inc_empty), s)
      \<and> mi_abs pt_nodes (pt_set_ops sbv_config) s = snd (spec_run (inc_spec pt_nodes) cs inc_empty)"
    by (rule mit.run_total [OF _ inc_start(1) assms(1)]) (auto simp: inc_start(2))
  show "case run_cmds (pi_step (pt_set_ops sbv_config)) cs (c0, pi_make False) of
        None \<Rightarrow> \<exists>n bs t. n < length cs \<and> pi_full (cs ! n) t
          \<and> run_cmds (pi_step (pt_set_ops sbv_config)) (take n cs) (c0, pi_make False) = Some (bs, t)
      | Some (bs, t) \<Rightarrow> (bs, pi_abs pt_nodes t) = spec_run (inc_spec pt_nodes) cs inc_empty"
    using pit.run_None [OF pinc_start(1) [OF assms(2)] ok]
      pit.run_Some [OF pinc_start(1) [OF assms(2)] ok] pinc_start(2) [OF assms(2), where 'k = nat]
    by (auto split: option.split)
qed

lemma inc_tables_witness:
  "\<exists>s. run_cmds (mi_step (pt_set_ops sbv_config))
      [DfBase (AddPts 1 7), ATVPts 1 5 2, InFromOut 5 2 6 2, OutFromIn 6 2 6 2, TLVPts 6 2 4] (mi_make False)
      = Some ([True, True, True, True, False], s)
    \<and> mf_cells pt_nodes (pt_set_ops sbv_config) (mi_df s) (DfOut 6 2) = {7}"
proof -
  let ?cs = "[DfBase (AddPts 1 7), ATVPts 1 5 2, InFromOut 5 2 6 2, OutFromIn 6 2 6 2, TLVPts 6 2 4]
    :: (nat, points_to) df_cmd list"
  obtain c where c: "pptc_new (pt_ops sbv_config) = Some c" by (rule sbv_cache)
  have ok: "\<forall>c\<in>set ?cs. inc_ok (pt_plain SBV) c" by (simp add: node_ok_def)
  from inc_tables_correct [OF ok c] show ?thesis
    by (elim conjE exE) (auto simp: base_cells_simps cell_union_def union_mark_in_def union_mark_out_def inc_out_def Let_def
        mi_abs_def)
qed

text \<open>C19: For sparse bit vectors without a node mapping: after the same updates the sets of the incremental table are subsets of those of the plain
  table. Where the changed variables of a location are consumed only by the transfer from IN to OUT of
  the same variable, \<open>updateAllDFOutFromIn\<close> of the incremental table, which visits only those, has the
  result of the transfer of all variables.\<close>

theorem incremental_transfer_correct:
  fixes cs :: "(nat, points_to) df_cmd list"
  assumes "\<forall>c\<in>set cs. inc_ok (pt_plain SBV) c"
  shows "\<exists>bs s fs u. run_cmds (mi_step (pt_set_ops sbv_config)) cs (mi_make False) = Some (bs, s)
    \<and> run_cmds (mf_step (pt_set_ops sbv_config)) cs (mf_make False) = Some (fs, u)
    \<and> (\<forall>x. mf_cells pt_nodes (pt_set_ops sbv_config) (mi_df s) x \<subseteq> mf_cells pt_nodes (pt_set_ops sbv_config) u x)
    \<and> ((\<forall>c\<in>set cs. transfers l c) \<longrightarrow>
        (\<exists>b t. mi_updateAllDFOutFromIn (pt_set_ops sbv_config) l x str s = Some (b, t)
          \<and> (b, mf_cells pt_nodes (pt_set_ops sbv_config) (mi_df t))
            = out_all {v. \<not> (str \<and> v = x)} l (mf_cells pt_nodes (pt_set_ops sbv_config) (mi_df s))))"
proof -
  let ?so = "pt_set_ops sbv_config"
  have ok: "\<forall>c\<in>set cs. df_ok (pt_plain SBV) c" using assms inc_ok_df by blast
  obtain s where s: "run_cmds (mi_step ?so) cs (mi_make False) = Some (fst (spec_run (inc_spec pt_nodes) cs inc_empty), s)"
    "mi_inv (pt_plain SBV) pt_nodes ?so s" "mi_abs pt_nodes ?so s = snd (spec_run (inc_spec pt_nodes) cs inc_empty)"
    by (rule mit.run_total [OF _ inc_start(1) assms]) (auto simp: inc_start(2))
  obtain u where u: "run_cmds (mf_step ?so) cs (mf_make False) = Some (fst (spec_run (df_spec pt_nodes) cs (\<lambda>_. {})), u)"
    "mf_cells pt_nodes ?so u = snd (spec_run (df_spec pt_nodes) cs (\<lambda>_. {}))"
    by (rule mft.run_total [OF _ df_start(1) ok]) (auto simp: df_start(2))
  obtain P I U where a: "mi_abs pt_nodes ?so s = (P, I, U)" by (cases "mi_abs pt_nodes ?so s")
  have P: "mf_cells pt_nodes ?so (mi_df s) = P" using a by (simp add: mi_abs_def)
  have below: "P \<le> mf_cells pt_nodes ?so u"
    using inc_below_run [of inc_empty "\<lambda>_. {}" pt_nodes cs] a s(3) u(2) by simp
  have tr: "(\<forall>c\<in>set cs. transfers l c) \<longrightarrow> (\<exists>b t. mi_updateAllDFOutFromIn ?so l x str s = Some (b, t)
      \<and> (b, mf_cells pt_nodes ?so (mi_df t)) = out_all {v. \<not> (str \<and> v = x)} l (mf_cells pt_nodes ?so (mi_df s)))"
  proof
    assume tr: "\<forall>c\<in>set cs. transfers l c"
    have "nothing_pending l inc_empty" by (simp add: nothing_pending_def)
    then have np: "nothing_pending l (P, I, U)" using pending_run [OF _ tr, of inc_empty pt_nodes] a s(3) by simp
    show "\<exists>b t. mi_updateAllDFOutFromIn ?so l x str s = Some (b, t)
      \<and> (b, mf_cells pt_nodes ?so (mi_df t)) = out_all {v. \<not> (str \<and> v = x)} l (mf_cells pt_nodes ?so (mi_df s))"
      using sbv_sets.mi_outAll_ok [OF s(2) a, of l x str]
      unfolding mi_result_def inc_spec.simps Let_def fst_conv snd_conv inc_out_all [OF np] P
      by (auto simp: mi_abs_def)
  qed
  have sub: "\<forall>x. mf_cells pt_nodes ?so (mi_df s) x \<subseteq> mf_cells pt_nodes ?so u x"
    using below by (simp add: P le_fun_def)
  show ?thesis
    by (rule exI, rule exI [of _ s], rule exI, rule exI [of _ u], rule conjI [OF s(1) conjI [OF u(1) conjI [OF sub tr]]])
qed

lemma incremental_transfer_witness:
  "\<exists>bs s b t. run_cmds (mi_step (pt_set_ops sbv_config)) [DfBase (AddPts 1 7), ATVPts 1 5 2, InFromOut 5 2 6 2] (mi_make False)
      = Some (bs, s)
    \<and> mi_updateAllDFOutFromIn (pt_set_ops sbv_config) 6 3 True s = Some (b, t)
    \<and> (b, mf_cells pt_nodes (pt_set_ops sbv_config) (mi_df t))
        = out_all {v. v \<noteq> 3} 6 (mf_cells pt_nodes (pt_set_ops sbv_config) (mi_df s))"
proof -
  let ?cs = "[DfBase (AddPts 1 7), ATVPts 1 5 2, InFromOut 5 2 6 2] :: (nat, points_to) df_cmd list"
  have ok: "\<forall>c\<in>set ?cs. inc_ok (pt_plain SBV) c" by (simp add: node_ok_def)
  from incremental_transfer_correct [OF ok, of 6 3 True] show ?thesis by (elim conjE exE) auto
qed

end
