(* ===== verification/VersionedPts.thy ===== *)
theory VersionedPts
  imports PersistentPts
begin

text \<open>
  The tables of the versioned flow-sensitive analysis: \<open>MutableVersionedPTData\<close>
  (\<open>svf/include/MemoryModel/MutablePointsToDS.h\<close>) and \<open>PersistentVersionedPTData\<close>
  (\<open>PersistentPointsToDS.h\<close>). Each wraps a table for the top-level pointers and a table for the versioned
  objects; the two persistent tables share one cache.

  The C++ operations are overloaded on the two types of keys. A command of the pair of tables is a
  command of theory PtsTables whose keys are a sum, \<open>Inl\<close> for a key and \<open>Inr\<close> for a versioned key, and \<open>mv_step\<close>
  and \<open>pv_step\<close> resolve the overloads. So the contract of the pair is the contract of one table from the
  sum of the keys to sets, and both classes interpret \<open>pts_table\<close> again. The last part counts the sets
  that \<open>getAllPts\<close> reports.
\<close>

section \<open>The mutable tables\<close>

record ('k, 'v, 'd) mut_ver =
  mv_rev :: bool
  mv_tl :: "('k, 'd) mut_pts"
  mv_at :: "('v, 'd) mut_pts"

definition mv_make :: "bool \<Rightarrow> ('k, 'v, 'd) mut_ver" where
  "mv_make reversePT = \<lparr>mv_rev = reversePT, mv_tl = mp_make reversePT, mv_at = mp_make reversePT\<rparr>"

definition mv_clear :: "('k, 'v, 'd) mut_ver \<Rightarrow> ('k, 'v, 'd) mut_ver" where
  "mv_clear s = s\<lparr>mv_tl := mp_clear (mv_tl s), mv_at := mp_clear (mv_at s)\<rparr>"

text \<open>A call of the table of one kind of key.\<close>

definition mv_onTl :: "(('k, 'd) mut_pts \<Rightarrow> (bool \<times> ('k, 'd) mut_pts) option) \<Rightarrow> ('k, 'v, 'd) mut_ver \<Rightarrow>
    (bool \<times> ('k, 'v, 'd) mut_ver) option" where
  "mv_onTl f s = map_option (\<lambda>r. (fst r, s\<lparr>mv_tl := snd r\<rparr>)) (f (mv_tl s))"

definition mv_onAt :: "(('v, 'd) mut_pts \<Rightarrow> (bool \<times> ('v, 'd) mut_pts) option) \<Rightarrow> ('k, 'v, 'd) mut_ver \<Rightarrow>
    (bool \<times> ('k, 'v, 'd) mut_ver) option" where
  "mv_onAt f s = map_option (\<lambda>r. (fst r, s\<lparr>mv_at := snd r\<rparr>)) (f (mv_at s))"

definition mv_getPts :: "'d set_ops \<Rightarrow> 'k + 'v \<Rightarrow> ('k, 'v, 'd) mut_ver \<Rightarrow> 'd \<times> ('k, 'v, 'd) mut_ver" where
  "mv_getPts so vk s = (case vk of
      Inl k \<Rightarrow> (let r = mp_getPts so k (mv_tl s) in (fst r, s\<lparr>mv_tl := snd r\<rparr>))
    | Inr v \<Rightarrow> (let r = mp_getPts so v (mv_at s) in (fst r, s\<lparr>mv_at := snd r\<rparr>)))"

definition mv_getRevPts :: "nat \<Rightarrow> ('k, 'v, 'd) mut_ver \<Rightarrow> ('k set \<times> ('k, 'v, 'd) mut_ver) option" where
  "mv_getRevPts datum s = (if \<not> mv_rev s then None
     else map_option (\<lambda>r. (fst r, s\<lparr>mv_tl := snd r\<rparr>)) (mp_getRevPts datum (mv_tl s)))"

definition mv_getVersionedKeyRevPts :: "nat \<Rightarrow> ('k, 'v, 'd) mut_ver \<Rightarrow> ('v set \<times> ('k, 'v, 'd) mut_ver) option" where
  "mv_getVersionedKeyRevPts datum s = (if \<not> mv_rev s then None
     else map_option (\<lambda>r. (fst r, s\<lparr>mv_at := snd r\<rparr>)) (mp_getRevPts datum (mv_at s)))"

fun mv_addPts :: "'d set_ops \<Rightarrow> 'k + 'v \<Rightarrow> nat \<Rightarrow> ('k, 'v, 'd) mut_ver \<Rightarrow> (bool \<times> ('k, 'v, 'd) mut_ver) option" where
  "mv_addPts so (Inl k) element s = mv_onTl (mp_addPts so k element) s"
| "mv_addPts so (Inr vk) element s = mv_onAt (mp_addPts so vk element) s"

text \<open>Across the tables, the set that the other table's \<open>getPts\<close> returns is joined.\<close>

fun mv_unionPts :: "'d set_ops \<Rightarrow> 'k + 'v \<Rightarrow> 'k + 'v \<Rightarrow> ('k, 'v, 'd) mut_ver \<Rightarrow> (bool \<times> ('k, 'v, 'd) mut_ver) option" where
  "mv_unionPts so (Inl dst) (Inl src) s = mv_onTl (mp_unionPts so dst src) s"
| "mv_unionPts so (Inr dst) (Inr src) s = mv_onAt (mp_unionPts so dst src) s"
| "mv_unionPts so (Inr dst) (Inl src) s = (let r = mp_getPts so src (mv_tl s) in
     mv_onAt (mp_unionPtsSet so dst (fst r)) (s\<lparr>mv_tl := snd r\<rparr>))"
| "mv_unionPts so (Inl dst) (Inr src) s = (let r = mp_getPts so src (mv_at s) in
     mv_onTl (mp_unionPtsSet so dst (fst r)) (s\<lparr>mv_at := snd r\<rparr>))"

fun mv_unionPtsSet :: "'d set_ops \<Rightarrow> 'k + 'v \<Rightarrow> 'd \<Rightarrow> ('k, 'v, 'd) mut_ver \<Rightarrow> (bool \<times> ('k, 'v, 'd) mut_ver) option" where
  "mv_unionPtsSet so (Inl dst) srcDataSet s = mv_onTl (mp_unionPtsSet so dst srcDataSet) s"
| "mv_unionPtsSet so (Inr dst) srcDataSet s = mv_onAt (mp_unionPtsSet so dst srcDataSet) s"

fun mv_clearPts :: "'d set_ops \<Rightarrow> 'k + 'v \<Rightarrow> nat \<Rightarrow> ('k, 'v, 'd) mut_ver \<Rightarrow> (bool \<times> ('k, 'v, 'd) mut_ver) option" where
  "mv_clearPts so (Inl k) element s = mv_onTl (\<lambda>t. map_option (Pair False) (mp_clearPts so k element t)) s"
| "mv_clearPts so (Inr vk) element s = mv_onAt (\<lambda>t. map_option (Pair False) (mp_clearPts so vk element t)) s"

fun mv_clearFullPts :: "'d set_ops \<Rightarrow> 'k + 'v \<Rightarrow> ('k, 'v, 'd) mut_ver \<Rightarrow> (bool \<times> ('k, 'v, 'd) mut_ver) option" where
  "mv_clearFullPts so (Inl k) s = mv_onTl (\<lambda>t. map_option (Pair False) (mp_clearFullPts so k t)) s"
| "mv_clearFullPts so (Inr vk) s = mv_onAt (\<lambda>t. map_option (Pair False) (mp_clearFullPts so vk t)) s"

definition mv_remapAllPts :: "'d set_ops \<Rightarrow> ('k, 'v, 'd) mut_ver \<Rightarrow> ('k, 'v, 'd) mut_ver option" where
  "mv_remapAllPts so s = Option.bind (mp_remapAllPts so (mv_tl s)) (\<lambda>t.
     map_option (\<lambda>a. s\<lparr>mv_tl := t, mv_at := a\<rparr>) (mp_remapAllPts so (mv_at s)))"

definition mv_getAllPts :: "'d set_ops \<Rightarrow> ('k, 'v, 'd) mut_ver \<Rightarrow> ('d \<times> nat) list option" where
  "mv_getAllPts so s = Option.bind (mp_getAllPts so (mv_tl s)) (\<lambda>allPts.
     Option.bind (mp_getAllPts so (mv_at s)) (mergePtsOccMaps (so_data so) allPts))"

fun mv_step :: "'d set_ops \<Rightarrow> ('k + 'v, 'd) pts_cmd \<Rightarrow> ('k, 'v, 'd) mut_ver \<Rightarrow> (bool \<times> ('k, 'v, 'd) mut_ver) option" where
  "mv_step so (AddPts k n) s = mv_addPts so k n s"
| "mv_step so (UnionPts k l) s = mv_unionPts so k l s"
| "mv_step so (UnionPtsSet k d) s = mv_unionPtsSet so k d s"
| "mv_step so (ClearPts k n) s = mv_clearPts so k n s"
| "mv_step so (ClearFullPts k) s = mv_clearFullPts so k s"

section \<open>The persistent tables\<close>

record ('k, 'v) pers_ver =
  pv_rev :: bool
  pv_tl :: "'k pers_pts"
  pv_at :: "'v pers_pts"

type_synonym ('k, 'v, 'd) pver_st = "'d pptc \<times> ('k, 'v) pers_ver"

definition pv_make :: "bool \<Rightarrow> ('k, 'v) pers_ver" where
  "pv_make reversePT = \<lparr>pv_rev = reversePT, pv_tl = pp_make reversePT, pv_at = pp_make reversePT\<rparr>"

definition pv_clear :: "('k, 'v) pers_ver \<Rightarrow> ('k, 'v) pers_ver" where
  "pv_clear t = t\<lparr>pv_tl := pp_clear (pv_tl t), pv_at := pp_clear (pv_at t)\<rparr>"

definition pv_onTl :: "(('k, 'd) pers_st \<Rightarrow> ('r \<times> ('k, 'd) pers_st) option) \<Rightarrow> ('k, 'v, 'd) pver_st \<Rightarrow>
    ('r \<times> ('k, 'v, 'd) pver_st) option" where
  "pv_onTl f s = map_option (\<lambda>r. (fst r, (fst (snd r), (snd s)\<lparr>pv_tl := snd (snd r)\<rparr>))) (f (fst s, pv_tl (snd s)))"

definition pv_onAt :: "(('v, 'd) pers_st \<Rightarrow> ('r \<times> ('v, 'd) pers_st) option) \<Rightarrow> ('k, 'v, 'd) pver_st \<Rightarrow>
    ('r \<times> ('k, 'v, 'd) pver_st) option" where
  "pv_onAt f s = map_option (\<lambda>r. (fst r, (fst (snd r), (snd s)\<lparr>pv_at := snd (snd r)\<rparr>))) (f (fst s, pv_at (snd s)))"

fun pv_getPts :: "'k + 'v \<Rightarrow> ('k, 'v, 'd) pver_st \<Rightarrow> ('d \<times> ('k, 'v, 'd) pver_st) option" where
  "pv_getPts (Inl k) s = pv_onTl (pp_getPts k) s"
| "pv_getPts (Inr vk) s = pv_onAt (pp_getPts vk) s"

definition pv_getRevPts :: "nat \<Rightarrow> ('k, 'v) pers_ver \<Rightarrow> ('k set \<times> ('k, 'v) pers_ver) option" where
  "pv_getRevPts data t = (if \<not> pv_rev t then None
     else map_option (\<lambda>r. (fst r, t\<lparr>pv_tl := snd r\<rparr>)) (pp_getRevPts data (pv_tl t)))"

definition pv_getVersionedKeyRevPts :: "nat \<Rightarrow> ('k, 'v) pers_ver \<Rightarrow> ('v set \<times> ('k, 'v) pers_ver) option" where
  "pv_getVersionedKeyRevPts data t = (if \<not> pv_rev t then None
     else map_option (\<lambda>r. (fst r, t\<lparr>pv_at := snd r\<rparr>)) (pp_getRevPts data (pv_at t)))"

fun pv_addPts :: "'d set_ops \<Rightarrow> 'k + 'v \<Rightarrow> nat \<Rightarrow> ('k, 'v, 'd) pver_st \<Rightarrow> (bool \<times> ('k, 'v, 'd) pver_st) option" where
  "pv_addPts so (Inl k) element s = pv_onTl (pp_addPts so k element) s"
| "pv_addPts so (Inr vk) element s = pv_onAt (pp_addPts so vk element) s"

text \<open>Across the tables, the id that \<open>ptsMap[srcVar]\<close> of the other table holds is joined.\<close>

fun pv_unionPts :: "'d set_ops \<Rightarrow> 'k + 'v \<Rightarrow> 'k + 'v \<Rightarrow> ('k, 'v, 'd) pver_st \<Rightarrow> (bool \<times> ('k, 'v, 'd) pver_st) option" where
  "pv_unionPts so (Inl dst) (Inl src) s = pv_onTl (pp_unionPts so dst src) s"
| "pv_unionPts so (Inr dst) (Inr src) s = pv_onAt (pp_unionPts so dst src) s"
| "pv_unionPts so (Inr dst) (Inl src) s = pv_onAt (pp_unionPtsFromId so dst (pp_id (pv_tl (snd s)) src))
     (fst s, (snd s)\<lparr>pv_tl := pp_touch src (pv_tl (snd s))\<rparr>)"
| "pv_unionPts so (Inl dst) (Inr src) s = pv_onTl (pp_unionPtsFromId so dst (pp_id (pv_at (snd s)) src))
     (fst s, (snd s)\<lparr>pv_at := pp_touch src (pv_at (snd s))\<rparr>)"

fun pv_unionPtsSet :: "'d set_ops \<Rightarrow> 'k + 'v \<Rightarrow> 'd \<Rightarrow> ('k, 'v, 'd) pver_st \<Rightarrow> (bool \<times> ('k, 'v, 'd) pver_st) option" where
  "pv_unionPtsSet so (Inl dst) srcDataSet s = pv_onTl (pp_unionPtsSet so dst srcDataSet) s"
| "pv_unionPtsSet so (Inr dst) srcDataSet s = pv_onAt (pp_unionPtsSet so dst srcDataSet) s"

fun pv_clearPts :: "'d set_ops \<Rightarrow> 'k + 'v \<Rightarrow> nat \<Rightarrow> ('k, 'v, 'd) pver_st \<Rightarrow> (bool \<times> ('k, 'v, 'd) pver_st) option" where
  "pv_clearPts so (Inl k) element s = pv_onTl (\<lambda>t. map_option (Pair False) (pp_clearPts so k element t)) s"
| "pv_clearPts so (Inr vk) element s = pv_onAt (\<lambda>t. map_option (Pair False) (pp_clearPts so vk element t)) s"

fun pv_clearFullPts :: "'d set_ops \<Rightarrow> 'k + 'v \<Rightarrow> ('k, 'v, 'd) pver_st \<Rightarrow> (bool \<times> ('k, 'v, 'd) pver_st) option" where
  "pv_clearFullPts so (Inl k) s = pv_onTl (\<lambda>t. map_option (Pair False) (pp_clearFullPts so k t)) s"
| "pv_clearFullPts so (Inr vk) s = pv_onAt (\<lambda>t. map_option (Pair False) (pp_clearFullPts so vk t)) s"

text \<open>Only one table remaps, as both use the same cache.\<close>

definition pv_remapAllPts :: "'d set_ops \<Rightarrow> ('k, 'v, 'd) pver_st \<Rightarrow> ('k, 'v, 'd) pver_st option" where
  "pv_remapAllPts so s = map_option snd (pv_onTl (\<lambda>t. map_option (Pair ()) (pp_remapAllPts so t)) s)"

definition pv_getAllPts :: "'d set_ops \<Rightarrow> bool \<Rightarrow> ('k, 'v, 'd) pver_st \<Rightarrow> ('d \<times> nat) list option" where
  "pv_getAllPts so liveOnly s =
     Option.bind (pp_getAllPts so True (fst s, pv_tl (snd s))) (\<lambda>tl.
     Option.bind (pp_getAllPts so True (fst s, pv_at (snd s))) (\<lambda>at.
     Option.bind (mergePtsOccMaps (so_data so) tl at) (\<lambda>allPts.
       if liveOnly then Some allPts
       else Option.bind (getAllPts (so_data so) (fst s))
         (mergePtsOccMaps (so_data so) (map (\<lambda>(d, n). (d, to_u32 (int n - 1))) allPts)))))"

fun pv_step :: "'d set_ops \<Rightarrow> ('k + 'v, 'd) pts_cmd \<Rightarrow> ('k, 'v, 'd) pver_st \<Rightarrow> (bool \<times> ('k, 'v, 'd) pver_st) option" where
  "pv_step so (AddPts k n) s = pv_addPts so k n s"
| "pv_step so (UnionPts k l) s = pv_unionPts so k l s"
| "pv_step so (UnionPtsSet k d) s = pv_unionPtsSet so k d s"
| "pv_step so (ClearPts k n) s = pv_clearPts so k n s"
| "pv_step so (ClearFullPts k) s = pv_clearFullPts so k s"

section \<open>Invariants\<close>

text \<open>The sets of a pair of tables, and its reverse sets, over the sum of the keys.\<close>

definition mv_inv :: "('d \<Rightarrow> bool) \<Rightarrow> ('d \<Rightarrow> nat set) \<Rightarrow> 'd set_ops \<Rightarrow> ('k, 'v, 'd) mut_ver \<Rightarrow> bool" where
  "mv_inv dinv dset so s = (mp_inv dinv dset so (mv_tl s) \<and> mp_inv dinv dset so (mv_at s)
    \<and> mp_rev (mv_tl s) = mv_rev s \<and> mp_rev (mv_at s) = mv_rev s)"

definition mv_nodes :: "('d \<Rightarrow> nat set) \<Rightarrow> 'd set_ops \<Rightarrow> ('k, 'v, 'd) mut_ver \<Rightarrow> 'k + 'v \<Rightarrow> nat set" where
  "mv_nodes dset so s = case_sum (mp_nodes dset so (mv_tl s)) (mp_nodes dset so (mv_at s))"

definition mv_revAt :: "('k, 'v, 'd) mut_ver \<Rightarrow> nat \<Rightarrow> ('k + 'v) set" where
  "mv_revAt s n = mp_revAt (mv_tl s) n <+> mp_revAt (mv_at s) n"

definition pv_inv :: "('d \<Rightarrow> bool) \<Rightarrow> ('d \<Rightarrow> nat set) \<Rightarrow> ('k, 'v, 'd) pver_st \<Rightarrow> bool" where
  "pv_inv dinv dset s = (pp_inv dinv dset (fst s, pv_tl (snd s)) \<and> pp_inv dinv dset (fst s, pv_at (snd s))
    \<and> pp_rev (pv_tl (snd s)) = pv_rev (snd s) \<and> pp_rev (pv_at (snd s)) = pv_rev (snd s))"

definition pv_nodes :: "('d \<Rightarrow> nat set) \<Rightarrow> ('k, 'v, 'd) pver_st \<Rightarrow> 'k + 'v \<Rightarrow> nat set" where
  "pv_nodes dset s = case_sum (pp_nodes dset (fst s, pv_tl (snd s))) (pp_nodes dset (fst s, pv_at (snd s)))"

definition pv_revAt :: "('k, 'v, 'd) pver_st \<Rightarrow> nat \<Rightarrow> ('k + 'v) set" where
  "pv_revAt s n = pp_revAt (pv_tl (snd s)) n <+> pp_revAt (pv_at (snd s)) n"

lemma mv_nodes_simps [simp]:
  "mv_nodes dset so s (Inl k) = mp_nodes dset so (mv_tl s) k" "mv_nodes dset so s (Inr v) = mp_nodes dset so (mv_at s) v"
  by (simp_all add: mv_nodes_def)

lemma pv_nodes_simps [simp]:
  "pv_nodes dset s (Inl k) = pp_nodes dset (fst s, pv_tl (snd s)) k" "pv_nodes dset s (Inr v) = pp_nodes dset (fst s, pv_at (snd s)) v"
  by (simp_all add: pv_nodes_def)

lemma sum_upd [simp]:
  "case_sum (f(k := X)) g = (case_sum f g)(Inl k := X)" "case_sum f (g(v := X)) = (case_sum f g)(Inr v := X)"
  by (auto simp: fun_eq_iff split: sum.split)

lemma mp_touch_ok [simp]:
  "mp_inv dinv dset so (mp_touch so k s) = mp_inv dinv dset so s" "mp_nodes dset so (mp_touch so k s) = mp_nodes dset so s"
  by (simp_all add: mp_inv_def mp_nodes_def fun_eq_iff)

lemma pp_inv_touch [simp]: "pp_inv dinv dset (c, pp_touch k t) = pp_inv dinv dset (c, t)"
  by (simp add: pp_inv_def)

section \<open>The operations\<close>

definition mv_result :: "('d \<Rightarrow> bool) \<Rightarrow> ('d \<Rightarrow> nat set) \<Rightarrow> 'd set_ops \<Rightarrow> ('k, 'v, 'd) mut_ver \<Rightarrow> bool \<Rightarrow> ('k + 'v \<Rightarrow> nat set) \<Rightarrow>
    (bool \<times> ('k, 'v, 'd) mut_ver) option \<Rightarrow> bool" where
  "mv_result dinv dset so s b P res = (\<exists>t. res = Some (b, t) \<and> mv_inv dinv dset so t \<and> mv_nodes dset so t = P
    \<and> mv_rev t = mv_rev s)"

lemma mv_onTl_ok:
  assumes "mv_inv dinv dset so s" "mp_result dinv dset so (mv_tl s) b ((mp_nodes dset so (mv_tl s))(k := X)) (f (mv_tl s))"
  shows "mv_result dinv dset so s b ((mv_nodes dset so s)(Inl k := X)) (mv_onTl f s)"
  using assms by (auto simp: mv_result_def mp_result_def mv_onTl_def mv_inv_def mv_nodes_def)

lemma mv_onAt_ok:
  assumes "mv_inv dinv dset so s" "mp_result dinv dset so (mv_at s) b ((mp_nodes dset so (mv_at s))(v := X)) (f (mv_at s))"
  shows "mv_result dinv dset so s b ((mv_nodes dset so s)(Inr v := X)) (mv_onAt f s)"
  using assms by (auto simp: mv_result_def mp_result_def mv_onAt_def mv_inv_def mv_nodes_def)

text \<open>For the persistent tables: when one table's operation extends the cache, the other table keeps
  its sets.\<close>

definition pv_result :: "('d \<Rightarrow> bool) \<Rightarrow> ('d \<Rightarrow> nat set) \<Rightarrow> ('k, 'v, 'd) pver_st \<Rightarrow> bool \<Rightarrow> ('k + 'v \<Rightarrow> nat set) \<Rightarrow>
    (bool \<times> ('k, 'v, 'd) pver_st) option \<Rightarrow> bool" where
  "pv_result dinv dset s b P res = (case res of
      None \<Rightarrow> ids_full (fst s)
    | Some r \<Rightarrow> fst r = b \<and> pv_inv dinv dset (snd r) \<and> pv_nodes dset (snd r) = P
        \<and> pv_rev (snd (snd r)) = pv_rev (snd s))"

lemma pp_other:
  assumes "pp_inv dinv dset (c, t)" "extends c c'" "pptc_inv dinv dset c'"
  shows "pp_inv dinv dset (c', t)" "pp_nodes dset (c', t) = pp_nodes dset (c, t)"
  using assms pp_ok_extends pp_nodes_extends by (auto simp: pp_inv_def)

lemma pv_onTl_ok:
  assumes "pv_inv dinv dset s"
    and "pp_result dinv dset (fst s, pv_tl (snd s)) b ((pp_nodes dset (fst s, pv_tl (snd s)))(k := X)) (f (fst s, pv_tl (snd s)))"
  shows "pv_result dinv dset s b ((pv_nodes dset s)(Inl k := X)) (pv_onTl f s)"
proof (cases "f (fst s, pv_tl (snd s))")
  case (Some r)
  then have r: "fst r = b" "pp_inv dinv dset (snd r)" "pp_nodes dset (snd r) = (pp_nodes dset (fst s, pv_tl (snd s)))(k := X)"
    "pp_rev (snd (snd r)) = pv_rev (snd s)" "extends (fst s) (fst (snd r))" "pptc_inv dinv dset (fst (snd r))"
    using assms by (simp_all add: pp_result_def pv_inv_def pp_inv_def)
  note o = pp_other [of dinv dset "fst s" "pv_at (snd s)", OF _ r(5,6)]
  show ?thesis using assms(1) Some r o by (simp add: pv_result_def pv_onTl_def pv_inv_def pv_nodes_def)
qed (use assms(2) in \<open>simp add: pv_result_def pv_onTl_def pp_result_def\<close>)

lemma pv_onAt_ok:
  assumes "pv_inv dinv dset s"
    and "pp_result dinv dset (fst s, pv_at (snd s)) b ((pp_nodes dset (fst s, pv_at (snd s)))(v := X)) (f (fst s, pv_at (snd s)))"
  shows "pv_result dinv dset s b ((pv_nodes dset s)(Inr v := X)) (pv_onAt f s)"
proof (cases "f (fst s, pv_at (snd s))")
  case (Some r)
  then have r: "fst r = b" "pp_inv dinv dset (snd r)" "pp_nodes dset (snd r) = (pp_nodes dset (fst s, pv_at (snd s)))(v := X)"
    "pp_rev (snd (snd r)) = pv_rev (snd s)" "extends (fst s) (fst (snd r))" "pptc_inv dinv dset (fst (snd r))"
    using assms by (simp_all add: pp_result_def pv_inv_def pp_inv_def)
  note o = pp_other [of dinv dset "fst s" "pv_tl (snd s)", OF _ r(5,6)]
  show ?thesis using assms(1) Some r o by (simp add: pv_result_def pv_onAt_def pv_inv_def pv_nodes_def)
qed (use assms(2) in \<open>simp add: pv_result_def pv_onAt_def pp_result_def\<close>)

context pts_sets begin

lemma mv_union_across:
  assumes "mv_inv dinv dset so s"
  shows "mv_result dinv dset so s (\<not> mp_nodes dset so (mv_tl s) k \<subseteq> mp_nodes dset so (mv_at s) v)
      ((mv_nodes dset so s)(Inr v := mp_nodes dset so (mv_at s) v \<union> mp_nodes dset so (mv_tl s) k)) (mv_unionPts so (Inr v) (Inl k) s)"
    "mv_result dinv dset so s (\<not> mp_nodes dset so (mv_at s) v \<subseteq> mp_nodes dset so (mv_tl s) k)
      ((mv_nodes dset so s)(Inl k := mp_nodes dset so (mv_tl s) k \<union> mp_nodes dset so (mv_at s) v)) (mv_unionPts so (Inl k) (Inr v) s)"
proof -
  have i: "mp_inv dinv dset so (mv_tl s)" "mp_inv dinv dset so (mv_at s)" using assms by (simp_all add: mv_inv_def)
  let ?t = "s\<lparr>mv_tl := mp_touch so k (mv_tl s)\<rparr>" and ?a = "s\<lparr>mv_at := mp_touch so v (mv_at s)\<rparr>"
  have t: "mv_inv dinv dset so ?t" "mv_nodes dset so ?t = mv_nodes dset so s"
    and a: "mv_inv dinv dset so ?a" "mv_nodes dset so ?a = mv_nodes dset so s"
    using assms by (simp_all add: mv_inv_def mv_nodes_def)
  have "mv_result dinv dset so ?t (\<not> mp_nodes dset so (mv_tl s) k \<subseteq> mp_nodes dset so (mv_at s) v)
      ((mv_nodes dset so ?t)(Inr v := mp_nodes dset so (mv_at s) v \<union> mp_nodes dset so (mv_tl s) k)) (mv_unionPts so (Inr v) (Inl k) s)"
    using mp_unionPtsSet_ok [OF i(2) mp_at_inv [OF i(1), of k], of v] 
    by (simp add: mp_getPts_def mv_onAt_ok [OF t(1)] mp_nodes_def [of _ _ "mv_tl s"])
  then show "mv_result dinv dset so s (\<not> mp_nodes dset so (mv_tl s) k \<subseteq> mp_nodes dset so (mv_at s) v)
      ((mv_nodes dset so s)(Inr v := mp_nodes dset so (mv_at s) v \<union> mp_nodes dset so (mv_tl s) k)) (mv_unionPts so (Inr v) (Inl k) s)"
    by (simp add: t(2) mv_result_def)
  have "mv_result dinv dset so ?a (\<not> mp_nodes dset so (mv_at s) v \<subseteq> mp_nodes dset so (mv_tl s) k)
      ((mv_nodes dset so ?a)(Inl k := mp_nodes dset so (mv_tl s) k \<union> mp_nodes dset so (mv_at s) v)) (mv_unionPts so (Inl k) (Inr v) s)"
    using mp_unionPtsSet_ok [OF i(1) mp_at_inv [OF i(2), of v], of k]
    by (simp add: mp_getPts_def mv_onTl_ok [OF a(1)] mp_nodes_def [of _ _ "mv_at s"])
  then show "mv_result dinv dset so s (\<not> mp_nodes dset so (mv_at s) v \<subseteq> mp_nodes dset so (mv_tl s) k)
      ((mv_nodes dset so s)(Inl k := mp_nodes dset so (mv_tl s) k \<union> mp_nodes dset so (mv_at s) v)) (mv_unionPts so (Inl k) (Inr v) s)"
    by (simp add: a(2) mv_result_def)
qed

lemma mv_step_ok:
  assumes "mv_inv dinv dset so s" "cmd_ok dinv c"
  shows "mv_result dinv dset so s (fst (spec_step dset c (mv_nodes dset so s)))
    (snd (spec_step dset c (mv_nodes dset so s))) (mv_step so c s)"
proof -
  have i: "mp_inv dinv dset so (mv_tl s)" "mp_inv dinv dset so (mv_at s)" using assms by (simp_all add: mv_inv_def)
  note tl = mv_onTl_ok [OF assms(1)] and at = mv_onAt_ok [OF assms(1)]
  show ?thesis
  proof (cases c)
    case (AddPts x n)
    then show ?thesis using assms(2) mp_addPts_ok [OF i(1)] mp_addPts_ok [OF i(2)]
      by (cases x) (simp_all add: tl at)
  next
    case (UnionPts x y)
    then show ?thesis using mp_unionPts_ok [OF i(1)] mp_unionPts_ok [OF i(2)] mv_union_across [OF assms(1)]
      by (cases x; cases y) (simp_all add: tl at)
  next
    case (UnionPtsSet x d)
    then show ?thesis using assms(2) mp_unionPtsSet_ok [OF i(1)] mp_unionPtsSet_ok [OF i(2)]
      by (cases x) (simp_all add: tl at)
  next
    case (ClearPts x n)
    then show ?thesis using assms(2) mp_clearPts_ok [OF i(1)] mp_clearPts_ok [OF i(2)]
      by (cases x) (simp_all add: tl at)
  next
    case (ClearFullPts x)
    then show ?thesis using mp_clearFullPts_ok [OF i(1)] mp_clearFullPts_ok [OF i(2)]
      by (cases x) (simp_all add: tl at)
  qed
qed

lemma unionFromId_result:
  assumes "pptc_inv dinv dset c" "pp_ok dset c u" "j < length (c_idToPts c)"
  shows "pp_result dinv dset (c, u) (\<not> dset (c_idToPts c ! j) \<subseteq> pp_nodes dset (c, u) x)
      ((pp_nodes dset (c, u))(x := pp_nodes dset (c, u) x \<union> dset (c_idToPts c ! j))) (pp_unionPtsFromId so x j (c, u))"
  using unionFromId_ok [OF assms, of x]
  by (cases "pp_unionPtsFromId so x j (c, u)") (simp_all add: pp_result_def ids_full_def)

lemma pv_union_across:
  assumes "pv_inv dinv dset s"
  shows "pv_result dinv dset s (\<not> pv_nodes dset s (Inl k) \<subseteq> pv_nodes dset s (Inr v))
      ((pv_nodes dset s)(Inr v := pv_nodes dset s (Inr v) \<union> pv_nodes dset s (Inl k))) (pv_unionPts so (Inr v) (Inl k) s)"
    "pv_result dinv dset s (\<not> pv_nodes dset s (Inr v) \<subseteq> pv_nodes dset s (Inl k))
      ((pv_nodes dset s)(Inl k := pv_nodes dset s (Inl k) \<union> pv_nodes dset s (Inr v))) (pv_unionPts so (Inl k) (Inr v) s)"
proof -
  obtain c t where s: "s = (c, t)" by (cases s)
  let ?t = "(c, t\<lparr>pv_tl := pp_touch k (pv_tl t)\<rparr>)" and ?a = "(c, t\<lparr>pv_at := pp_touch v (pv_at t)\<rparr>)"
  have st: "pv_inv dinv dset ?t" "pv_nodes dset ?t = pv_nodes dset s"
    and sa: "pv_inv dinv dset ?a" "pv_nodes dset ?a = pv_nodes dset s"
    using assms by (simp_all add: s pv_inv_def pv_nodes_def)
  have i: "pptc_inv dinv dset c" "pp_ok dset c (pv_tl t)" "pp_ok dset c (pv_at t)"
    "pp_id (pv_tl t) k < length (c_idToPts c)" "pp_id (pv_at t) v < length (c_idToPts c)"
    using assms by (simp_all add: s pv_inv_def pp_inv_def pp_ok_def)
  note r = unionFromId_result [OF i(1)]
  have "pv_result dinv dset ?t (\<not> pv_nodes dset s (Inl k) \<subseteq> pv_nodes dset s (Inr v))
      ((pv_nodes dset ?t)(Inr v := pv_nodes dset s (Inr v) \<union> pv_nodes dset s (Inl k))) (pv_unionPts so (Inr v) (Inl k) s)"
    using r [OF i(3,4), of v] by (simp add: s pv_onAt_ok [OF st(1)] pp_nodes_def [of dset "(c, pv_tl t)"])
  then show "pv_result dinv dset s (\<not> pv_nodes dset s (Inl k) \<subseteq> pv_nodes dset s (Inr v))
      ((pv_nodes dset s)(Inr v := pv_nodes dset s (Inr v) \<union> pv_nodes dset s (Inl k))) (pv_unionPts so (Inr v) (Inl k) s)"
    by (auto simp: st(2) pv_result_def s split: option.splits)
  have "pv_result dinv dset ?a (\<not> pv_nodes dset s (Inr v) \<subseteq> pv_nodes dset s (Inl k))
      ((pv_nodes dset ?a)(Inl k := pv_nodes dset s (Inl k) \<union> pv_nodes dset s (Inr v))) (pv_unionPts so (Inl k) (Inr v) s)"
    using r [OF i(2,5), of k] by (simp add: s pv_onTl_ok [OF sa(1)] pp_nodes_def [of dset "(c, pv_at t)"])
  then show "pv_result dinv dset s (\<not> pv_nodes dset s (Inr v) \<subseteq> pv_nodes dset s (Inl k))
      ((pv_nodes dset s)(Inl k := pv_nodes dset s (Inl k) \<union> pv_nodes dset s (Inr v))) (pv_unionPts so (Inl k) (Inr v) s)"
    by (auto simp: sa(2) pv_result_def s split: option.splits)
qed

lemma pv_step_ok:
  assumes "pv_inv dinv dset s" "cmd_ok dinv c"
  shows "pv_result dinv dset s (fst (spec_step dset c (pv_nodes dset s)))
    (snd (spec_step dset c (pv_nodes dset s))) (pv_step so c s)"
proof -
  have i: "pp_inv dinv dset (fst s, pv_tl (snd s))" "pp_inv dinv dset (fst s, pv_at (snd s))" using assms by (simp_all add: pv_inv_def)
  note tl = pv_onTl_ok [OF assms(1)] and at = pv_onAt_ok [OF assms(1)]
  show ?thesis
  proof (cases c)
    case (AddPts x n)
    then show ?thesis using assms(2) pp_addPts_ok [OF i(1)] pp_addPts_ok [OF i(2)]
      by (cases x) (simp_all add: tl at)
  next
    case (UnionPts x y)
    then show ?thesis using pp_unionPts_ok [OF i(1)] pp_unionPts_ok [OF i(2)] pv_union_across [OF assms(1)]
      by (cases x; cases y) (simp_all add: tl at)
  next
    case (UnionPtsSet x d)
    then show ?thesis using assms(2) pp_unionPtsSet_ok [OF i(1)] pp_unionPtsSet_ok [OF i(2)]
      by (cases x) (simp_all add: tl at)
  next
    case (ClearPts x n)
    then show ?thesis using assms(2) pp_clearPts_ok [OF i(1)] pp_clearPts_ok [OF i(2)]
      by (cases x) (simp_all add: tl at)
  next
    case (ClearFullPts x)
    then show ?thesis using pp_clearFullPts_ok [OF i(1)] pp_clearFullPts_ok [OF i(2)]
      by (cases x) (simp_all add: tl at)
  qed
qed

section \<open>The contract\<close>

lemma mv_table: "pts_table (mv_step so :: ('k + 'v, 'd) pts_cmd \<Rightarrow> _) dset dinv (mv_inv dinv dset so) (\<lambda>_ _. False)
  (mv_nodes dset so) mv_rev mv_revAt"
proof
  fix s :: "('k, 'v, 'd) mut_ver" and c :: "('k + 'v, 'd) pts_cmd" and b s'
  assume a: "mv_inv dinv dset so s" "cmd_ok dinv c"
  note r = mv_step_ok [OF a]
  show "False" if "mv_step so c s = None" using r that by (simp add: mv_result_def)
  assume "mv_step so c s = Some (b, s')"
  then show "mv_inv dinv dset so s' \<and> (b, mv_nodes dset so s') = spec_step dset c (mv_nodes dset so s)"
    "mv_rev s' = mv_rev s"
    using r by (simp_all add: mv_result_def)
next
  fix s :: "('k, 'v, 'd) mut_ver" and k n
  assume "mv_inv dinv dset so s" "mv_rev s"
  then show "k \<in> mv_revAt s n \<longleftrightarrow> n \<in> mv_nodes dset so s k"
    by (cases k) (auto simp: mv_inv_def mp_inv_def mp_nodes_def mv_revAt_def)
qed

lemma pv_table: "pts_table (pv_step so :: ('k + 'v, 'd) pts_cmd \<Rightarrow> _) dset dinv (pv_inv dinv dset)
  (\<lambda>_ s. ids_full (fst s)) (pv_nodes dset) (\<lambda>s. pv_rev (snd s)) pv_revAt"
proof
  fix s :: "('k, 'v, 'd) pver_st" and c :: "('k + 'v, 'd) pts_cmd" and b s'
  assume a: "pv_inv dinv dset s" "cmd_ok dinv c"
  note r = pv_step_ok [OF a]
  show "ids_full (fst s)" if "pv_step so c s = None" using r that by (simp add: pv_result_def)
  assume "pv_step so c s = Some (b, s')"
  then show "pv_inv dinv dset s' \<and> (b, pv_nodes dset s') = spec_step dset c (pv_nodes dset s)"
    "pv_rev (snd s') = pv_rev (snd s)"
    using r by (simp_all add: pv_result_def)
next
  fix s :: "('k, 'v, 'd) pver_st" and k n
  assume "pv_inv dinv dset s" "pv_rev (snd s)"
  then show "k \<in> pv_revAt s n \<longleftrightarrow> n \<in> pv_nodes dset s k"
    by (cases k) (auto simp: pv_inv_def pp_inv_def pp_nodes_def pp_ok_def pv_revAt_def)
qed

end

interpretation mvt: pts_table "mv_step (pt_set_ops sbv_config)" pt_nodes "pt_plain SBV"
  "mv_inv (pt_plain SBV) pt_nodes (pt_set_ops sbv_config)" "\<lambda>_ _. False" "mv_nodes pt_nodes (pt_set_ops sbv_config)"
  mv_rev mv_revAt
  by (rule sbv_sets.mv_table)

interpretation pvt: pts_table "pv_step (pt_set_ops sbv_config)" pt_nodes "pt_plain SBV"
  "pv_inv (pt_plain SBV) pt_nodes" "\<lambda>_ s. ids_full (fst s)" "pv_nodes pt_nodes" "\<lambda>s. pv_rev (snd s)" pv_revAt
  by (rule sbv_sets.pv_table)

interpretation ver: two_refine "mv_step (pt_set_ops sbv_config)" "spec_step pt_nodes" "cmd_ok (pt_plain SBV)"
  "mv_inv (pt_plain SBV) pt_nodes (pt_set_ops sbv_config)" "\<lambda>_ _. False" "mv_nodes pt_nodes (pt_set_ops sbv_config)"
  "pv_step (pt_set_ops sbv_config)" "pv_inv (pt_plain SBV) pt_nodes" "\<lambda>_ s. ids_full (fst s)" "pv_nodes pt_nodes"
  by (intro two_refine.intro mvt.refines_axioms pvt.refines_axioms)

section \<open>What \<open>getAllPts\<close> reports\<close>

text \<open>The entries of a map of counts with the sets that the keys represent, in the order of the map.\<close>

definition set_counts :: "('d \<Rightarrow> nat set) \<Rightarrow> ('d \<times> nat) list \<Rightarrow> (nat set \<times> nat) list" where
  "set_counts dset m = map (\<lambda>e. (dset (fst e), snd e)) m"

definition counts_ok :: "('d \<Rightarrow> bool) \<Rightarrow> ('d \<Rightarrow> nat set) \<Rightarrow> ('d \<times> nat) list \<Rightarrow> bool" where
  "counts_ok dinv dset m = ((\<forall>e\<in>set m. dinv (fst e)) \<and> distinct (map fst (set_counts dset m)))"

definition counts_pos :: "('d \<times> nat) list \<Rightarrow> bool" where
  "counts_pos m = (\<forall>e\<in>set m. 0 < snd e)"

abbreviation count_of :: "('d \<Rightarrow> nat set) \<Rightarrow> ('d \<times> nat) list \<Rightarrow> nat set \<Rightarrow> nat" where
  "count_of dset m X \<equiv> at_get 0 (set_counts dset m) X"

text \<open>How many of the sets are \<open>X\<close>.\<close>

definition holders :: "('d \<Rightarrow> nat set) \<Rightarrow> 'd list \<Rightarrow> nat set \<Rightarrow> nat" where
  "holders dset ds X = length (filter (\<lambda>d. dset d = X) ds)"

lemma holders_simps [simp]:
  "holders dset [] X = 0" "holders dset (d # ds) X = (if dset d = X then 1 else 0) + holders dset ds X"
  "holders dset (ds @ es) X = holders dset ds X + holders dset es X"
  by (simp_all add: holders_def)

lemma holders_le: "holders dset ds X \<le> length ds"
  by (simp add: holders_def)

lemma holders_pos: "0 < holders dset ds X \<longleftrightarrow> X \<in> dset ` set ds"
  by (auto simp: holders_def filter_empty_conv)

context pts_data begin

lemma find_counts:
  assumes "\<forall>e\<in>set m. dinv (fst e)" "dinv d"
  shows "pts_find ops m d = Some (map_of (set_counts dset m) (dset d))"
proof -
  obtain h where h: "do_hash ops d = Some h" using hash_ok [OF assms(2)] by blast
  have "find_loop ops h m d = Some (map_of (set_counts dset m) (dset d))"
    using assms(1)
  proof (induction m)
    case (Cons e m)
    then show ?case
      using h eq_ok [of "fst e" d] hash_eq [of "fst e" d] assms(2) by (cases e) (auto simp: set_counts_def)
  qed (simp add: set_counts_def)
  then show ?thesis by (simp add: pts_find_def h)
qed

lemma assign_counts:
  assumes "\<forall>e\<in>set m. dinv (fst e)" "dinv d"
  obtains m' where "pts_assign ops m d v = Some m'" "set_counts dset m' = at_put (dset d) v (set_counts dset m)"
    "\<forall>e\<in>set m'. dinv (fst e)"
proof -
  obtain h where h: "do_hash ops d = Some h" using hash_ok [OF assms(2)] by blast
  have "\<exists>m'. assign_loop ops h m d v = Some m' \<and> set_counts dset m' = at_put (dset d) v (set_counts dset m)
      \<and> (\<forall>e\<in>set m'. dinv (fst e))"
    using assms(1)
  proof (induction m)
    case (Cons e m)
    then obtain m' where m': "assign_loop ops h m d v = Some m'" "set_counts dset m' = at_put (dset d) v (set_counts dset m)"
      "\<forall>e\<in>set m'. dinv (fst e)" by auto
    show ?case
      using h eq_ok [of "fst e" d] hash_eq [of "fst e" d] assms(2) Cons.prems m'
      by (cases e) (auto simp: set_counts_def at_put_def)
  qed (simp add: set_counts_def at_put_def assms(2))
  then show ?thesis using that by (auto simp: pts_assign_def h)
qed

text \<open>One more occurrence of a set, when the count does not wrap.\<close>

lemma counts_put:
  assumes "counts_ok dinv dset m" "dinv d"
  obtains m' where "pts_assign ops m d v = Some m'" "counts_ok dinv dset m'"
    "\<And>X. count_of dset m' X = (if X = dset d then v else count_of dset m X)" "counts_pos m \<Longrightarrow> 0 < v \<Longrightarrow> counts_pos m'"
proof -
  obtain m' where m': "pts_assign ops m d v = Some m'" "set_counts dset m' = at_put (dset d) v (set_counts dset m)"
    "\<forall>e\<in>set m'. dinv (fst e)"
    using assign_counts [of m d v] assms(1,2) by (auto simp: counts_ok_def)
  have d: "distinct (map fst (set_counts dset m'))" using assms(1) m'(2) by (simp add: counts_ok_def)
  have "0 < snd e" if e: "e \<in> set m'" "counts_pos m" "0 < v" for e
  proof -
    have "(dset (fst e), snd e) \<in> set (set_counts dset m')" using e by (auto simp: set_counts_def)
    then have "map_of (at_put (dset d) v (set_counts dset m)) (dset (fst e)) = Some (snd e)" using d m'(2) by simp
    then have "snd e = v \<or> map_of (set_counts dset m) (dset (fst e)) = Some (snd e)"
      by (auto simp: at_put_def update_conv' split: if_splits)
    then show ?thesis using e(2,3) by (fastforce simp: counts_pos_def set_counts_def dest!: map_of_SomeD)
  qed
  then have "counts_ok dinv dset m'" "counts_pos m \<Longrightarrow> 0 < v \<Longrightarrow> counts_pos m'"
    using m'(3) d by (simp_all add: counts_ok_def counts_pos_def)
  then show ?thesis by (intro that [OF m'(1)]) (simp_all add: m'(2))
qed

lemma bump_counts:
  assumes "counts_ok dinv dset m" "dinv d" "count_of dset m (dset d) + n < 2 ^ 32"
  obtains m' where "bump_occ ops d n m = Some m'" "counts_ok dinv dset m'"
    "\<And>X. count_of dset m' X = count_of dset m X + (if X = dset d then n else 0)" "counts_pos m \<Longrightarrow> 0 < n \<Longrightarrow> counts_pos m'"
proof -
  have f: "pts_find ops m d = Some (map_of (set_counts dset m) (dset d))"
    using find_counts assms(1,2) by (simp add: counts_ok_def)
  have v: "to_u32 (int (case map_of (set_counts dset m) (dset d) of None \<Rightarrow> 0 | Some i \<Rightarrow> i) + int n) = count_of dset m (dset d) + n"
    using to_u32_id [OF assms(3)] by (simp add: at_get_def)
  obtain m' where m': "pts_assign ops m d (count_of dset m (dset d) + n) = Some m'" "counts_ok dinv dset m'"
    "\<And>X. count_of dset m' X = (if X = dset d then count_of dset m (dset d) + n else count_of dset m X)"
    "counts_pos m \<Longrightarrow> 0 < count_of dset m (dset d) + n \<Longrightarrow> counts_pos m'"
    by (rule counts_put [OF assms(1,2), of "count_of dset m (dset d) + n"]) (rule that, assumption+)
  then show ?thesis by (intro that [of m']) (simp_all add: bump_occ_def f v)
qed

lemma count_ids_counts:
  assumes "\<forall>e\<in>set es. snd e < length (c_idToPts c)" "\<forall>d\<in>set (c_idToPts c). dinv d"
    and "counts_ok dinv dset m" "\<forall>X. count_of dset m X + length es < 2 ^ 32"
  shows "\<exists>m'. count_ids ops c es m = Some m' \<and> counts_ok dinv dset m' \<and> (counts_pos m \<longrightarrow> counts_pos m')
    \<and> (\<forall>X. count_of dset m' X = count_of dset m X + holders dset (map (\<lambda>e. c_idToPts c ! snd e) es) X)"
  using assms(1,3,4)
proof (induction es arbitrary: m)
  case (Cons e es)
  obtain k i where e: "e = (k, i)" by (cases e)
  let ?d = "c_idToPts c ! i"
  have d: "getActualPts c i = Some ?d" "dinv ?d" using Cons.prems(1) assms(2) by (simp_all add: e getActualPts_def)
  have b: "count_of dset m X + 1 + length es < 2 ^ 32" for X using Cons.prems(3) [THEN spec, of X] by simp
  obtain m1 where m1: "bump_occ ops ?d 1 m = Some m1" "counts_ok dinv dset m1"
    "\<And>X. count_of dset m1 X = count_of dset m X + (if X = dset ?d then 1 else 0)"
    "counts_pos m \<longrightarrow> counts_pos m1"
    by (rule bump_counts [OF Cons.prems(2) d(2), of 1]) (use b [of "dset ?d"] in simp_all)
  have "count_of dset m1 X + length es < 2 ^ 32" for X using b [of X] by (auto simp: m1(3))
  then have "\<forall>X. count_of dset m1 X + length es < 2 ^ 32" by blast
  from Cons.IH [OF _ m1(2) this] Cons.prems(1) obtain m' where m': "count_ids ops c es m1 = Some m'" "counts_ok dinv dset m'" "counts_pos m1 \<longrightarrow> counts_pos m'"
    "\<And>X. count_of dset m' X = count_of dset m1 X + holders dset (map (\<lambda>e. c_idToPts c ! snd e) es) X" by auto
  have "count_ids ops c (e # es) m = Some m'" using m1(1) m'(1) by (simp add: e d(1))
  moreover have "\<forall>X. count_of dset m' X = count_of dset m X + holders dset (map (\<lambda>e. c_idToPts c ! snd e) (e # es)) X"
    by (simp add: m'(4) m1(3) e)
  ultimately show ?case using m'(2,3) m1(4) by blast
qed simp

lemma merge_counts:
  assumes "counts_ok dinv dset from'" "counts_ok dinv dset m" "\<forall>X. count_of dset m X + count_of dset from' X < 2 ^ 32"
  shows "\<exists>m'. mergePtsOccMaps ops m from' = Some m' \<and> counts_ok dinv dset m'
    \<and> (counts_pos m \<longrightarrow> counts_pos from' \<longrightarrow> counts_pos m')
    \<and> (\<forall>X. count_of dset m' X = count_of dset m X + count_of dset from' X)"
  using assms
proof (induction from' arbitrary: m)
  case (Cons e es)
  obtain d n where e: "e = (d, n)" by (cases e)
  have es: "counts_ok dinv dset es" "dset d \<notin> fst ` set (set_counts dset es)" "dinv d"
    using Cons.prems(1) by (auto simp: e counts_ok_def set_counts_def image_image)
  have c: "count_of dset (e # es) X = (if X = dset d then n else count_of dset es X)" for X
    by (simp add: e set_counts_def at_get_def)
  have z: "count_of dset es (dset d) = 0"
    using es(2) by (metis at_get_def map_of_eq_None_iff option.simps(4))
  obtain m1 where m1: "bump_occ ops d n m = Some m1" "counts_ok dinv dset m1"
    "\<And>X. count_of dset m1 X = count_of dset m X + (if X = dset d then n else 0)"
    "counts_pos m \<Longrightarrow> 0 < n \<Longrightarrow> counts_pos m1"
    by (rule bump_counts [OF Cons.prems(2) es(3), of n]) (use Cons.prems(3) [THEN spec, of "dset d"] c in simp_all)
  have s: "count_of dset m1 X + count_of dset es X = count_of dset m X + count_of dset (e # es) X" for X
    using z by (simp add: m1(3) c)
  have "\<forall>X. count_of dset m1 X + count_of dset es X < 2 ^ 32"
    unfolding s by (rule Cons.prems(3))
  from Cons.IH [OF es(1) m1(2) this, unfolded s] show ?case using m1(1,4) by (auto simp: e counts_pos_def)
qed (simp add: set_counts_def)

lemma allPts_counts:
  assumes "\<forall>d\<in>set ds. dinv d" "counts_ok dinv dset m" "counts_pos m"
  shows "\<exists>m'. allPts_loop ops ds m = Some m' \<and> counts_ok dinv dset m' \<and> counts_pos m'
    \<and> (\<forall>X. count_of dset m' X = (if X \<in> dset ` set ds then 1 else count_of dset m X))"
  using assms
proof (induction ds arbitrary: m)
  case (Cons d ds)
  obtain m1 where m1: "pts_assign ops m d 1 = Some m1" "counts_ok dinv dset m1"
    "\<And>X. count_of dset m1 X = (if X = dset d then 1 else count_of dset m X)" "counts_pos m1"
    by (rule counts_put [OF Cons.prems(2), of d 1]) (use Cons.prems in simp_all)
  show ?case using Cons.IH [OF _ m1(2,4)] Cons.prems(1) m1(1) by (auto simp: m1(3))
qed simp

text \<open>Subtracting one from every count.\<close>

lemma minus_counts:
  assumes "counts_ok dinv dset m" "counts_pos m" "\<forall>X. count_of dset m X < 2 ^ 32"
  shows "counts_ok dinv dset (map (\<lambda>(d, n). (d, to_u32 (int n - 1))) m)
    \<and> (\<forall>X. count_of dset (map (\<lambda>(d, n). (d, to_u32 (int n - 1))) m) X = count_of dset m X - 1)"
proof -
  have s: "set_counts dset (map (\<lambda>(d, n). (d, to_u32 (int n - 1))) m)
      = map (\<lambda>(X, n). (X, to_u32 (int n - 1))) (set_counts dset m)"
    by (auto simp: set_counts_def)
  have "count_of dset (map (\<lambda>(d, n). (d, to_u32 (int n - 1))) m) X = count_of dset m X - 1" for X
  proof (cases "map_of (set_counts dset m) X")
    case None
    then show ?thesis by (simp add: at_get_def s map_of_map)
  next
    case (Some n)
    then have "0 < n" using assms(2) by (auto simp: counts_pos_def set_counts_def dest!: map_of_SomeD)
    moreover have "n < 2 ^ 32" using assms(3) [THEN spec, of X] Some by (simp add: at_get_def)
    ultimately show ?thesis using Some by (simp add: at_get_def s map_of_map to_u32_int)
  qed
  moreover have "map fst (map (\<lambda>(X, n). (X, to_u32 (int n - 1))) (set_counts dset m)) = map fst (set_counts dset m)"
    by auto
  ultimately show ?thesis using assms(1) unfolding counts_ok_def s by (auto simp del: map_map)
qed

end

text \<open>The sets of the cache that the entries of both maps hold.\<close>

definition live_sets :: "('k, 'v, 'd) pver_st \<Rightarrow> 'd list" where
  "live_sets s = map (\<lambda>i. c_idToPts (fst s) ! i) (map snd (pp_pts (pv_tl (snd s))) @ map snd (pp_pts (pv_at (snd s))))"

context pts_sets begin

lemma pp_entries:
  assumes "pp_inv dinv dset (c, t)" "distinct (map fst (pp_pts t))"
  shows "\<forall>e\<in>set (pp_pts t). snd e < length (c_idToPts c)"
proof
  fix e assume "e \<in> set (pp_pts t)"
  then have "pp_id t (fst e) = snd e" unfolding pp_id_def by (intro at_get_entry [OF assms(2)]) simp
  then show "snd e < length (c_idToPts c)" using assms(1) by (auto simp: pp_inv_def pp_ok_def dest: spec [of _ "fst e"])
qed

lemma pp_live_counts:
  assumes "pp_inv dinv dset (c, t)" "distinct (map fst (pp_pts t))" "length (pp_pts t) < 2 ^ 32"
  obtains m where "pp_getAllPts so True (c, t) = Some m" "counts_ok dinv dset m" "counts_pos m"
    "\<And>X. count_of dset m X = holders dset (map (\<lambda>i. c_idToPts c ! i) (map snd (pp_pts t))) X"
proof -
  have d: "\<forall>d\<in>set (c_idToPts c). dinv d" using assms(1) ids_dinv by (fastforce simp: pp_inv_def in_set_conv_nth)
  have "\<exists>m'. count_ids (so_data so) c (pp_pts t) [] = Some m' \<and> counts_ok dinv dset m' \<and> (counts_pos ([] :: ('d \<times> nat) list) \<longrightarrow> counts_pos m')
    \<and> (\<forall>X. count_of dset m' X = count_of dset [] X + holders dset (map (\<lambda>e. c_idToPts c ! snd e) (pp_pts t)) X)"
    by (rule count_ids_counts [OF pp_entries [OF assms(1,2)] d]) (use assms(3) in \<open>simp_all add: counts_ok_def set_counts_def\<close>)
  then show ?thesis using that by (auto simp: pp_getAllPts_def counts_pos_def set_counts_def comp_def)
qed

lemma pv_counts:
  assumes "pv_inv dinv dset s" "distinct (map fst (pp_pts (pv_tl (snd s))))" "distinct (map fst (pp_pts (pv_at (snd s))))"
    and "length (live_sets s) < 2 ^ 32"
  shows "\<exists>m m'. pv_getAllPts so True s = Some m \<and> pv_getAllPts so False s = Some m'
    \<and> (\<forall>X. count_of dset m X = holders dset (live_sets s) X \<and> count_of dset m' X =
        (if X \<in> dset ` set (live_sets s) then holders dset (live_sets s) X else if X \<in> dset ` set (c_idToPts (fst s)) then 1 else 0))"
proof -
  let ?c = "fst s" and ?t = "snd s"
  have inv: "pp_inv dinv dset (?c, pv_tl ?t)" "pp_inv dinv dset (?c, pv_at ?t)" using assms(1) by (simp_all add: pv_inv_def)
  have len: "length (pp_pts (pv_tl ?t)) < 2 ^ 32" "length (pp_pts (pv_at ?t)) < 2 ^ 32" using assms(4) by (simp_all add: live_sets_def)
  obtain tl where tl: "pp_getAllPts so True (?c, pv_tl ?t) = Some tl" "counts_ok dinv dset tl" "counts_pos tl"
    "\<And>X. count_of dset tl X = holders dset (map (\<lambda>i. c_idToPts ?c ! i) (map snd (pp_pts (pv_tl ?t)))) X"
    by (rule pp_live_counts [OF inv(1) assms(2) len(1)], rule that)
  obtain at where at: "pp_getAllPts so True (?c, pv_at ?t) = Some at" "counts_ok dinv dset at" "counts_pos at"
    "\<And>X. count_of dset at X = holders dset (map (\<lambda>i. c_idToPts ?c ! i) (map snd (pp_pts (pv_at ?t)))) X"
    by (rule pp_live_counts [OF inv(2) assms(3) len(2)], rule that)
  have both: "count_of dset tl X + count_of dset at X = holders dset (live_sets s) X" for X
    by (simp add: tl(4) at(4) live_sets_def)
  have bound: "holders dset (live_sets s) X < 2 ^ 32" for X using holders_le [of dset "live_sets s" X] assms(4) by simp
  obtain m where m: "mergePtsOccMaps (so_data so) tl at = Some m" "counts_ok dinv dset m" "counts_pos m"
    "\<And>X. count_of dset m X = holders dset (live_sets s) X"
    using merge_counts [OF at(2) tl(2)] both bound tl(3) at(3) by auto
  let ?m = "map (\<lambda>(d, n). (d, to_u32 (int n - 1))) m"
  have sub: "counts_ok dinv dset ?m" "\<And>X. count_of dset ?m X = holders dset (live_sets s) X - 1"
    using minus_counts [OF m(2,3)] bound by (simp_all add: m(4))
  have d: "\<forall>d\<in>set (c_idToPts ?c). dinv d" using inv(1) ids_dinv by (fastforce simp: pp_inv_def in_set_conv_nth)
  obtain a where a: "getAllPts (so_data so) ?c = Some a" "counts_ok dinv dset a"
    "\<And>X. count_of dset a X = (if X \<in> dset ` set (c_idToPts ?c) then 1 else 0)"
    using allPts_counts [OF d, of "[]"] by (auto simp: getAllPts_def counts_ok_def set_counts_def counts_pos_def)
  have b: "count_of dset ?m X + count_of dset a X < 2 ^ 32" for X
    using bound [of X] by (cases "holders dset (live_sets s) X") (simp_all add: sub(2) a(3))
  obtain r where r: "mergePtsOccMaps (so_data so) ?m a = Some r" "\<And>X. count_of dset r X = count_of dset ?m X + count_of dset a X"
    using merge_counts [OF a(2) sub(1)] b by auto
  have live: "X \<in> dset ` set (c_idToPts ?c)" if "X \<in> dset ` set (live_sets s)" for X
    using that pp_entries [OF inv(1) assms(2)] pp_entries [OF inv(2) assms(3)] by (fastforce simp: live_sets_def)
  have "pv_getAllPts so True s = Some m" "pv_getAllPts so False s = Some r"
    by (simp_all add: pv_getAllPts_def tl(1) at(1) m(1) a(1) r(1))
  moreover have "count_of dset r X = (if X \<in> dset ` set (live_sets s) then holders dset (live_sets s) X
      else if X \<in> dset ` set (c_idToPts ?c) then 1 else 0)" for X
    using holders_pos [of dset "live_sets s" X] live [of X] by (auto simp: r(2) sub(2) a(3))
  ultimately show ?thesis using m(4) by blast
qed

end

section \<open>Properties\<close>

lemma make_rev: "mp_rev (mp_make r) = r" "pp_rev (pp_make r) = r"
  by (simp_all add: mp_make_def pp_make_def)

lemma mv_start:
  "mv_inv (pt_plain SBV) pt_nodes (pt_set_ops sbv_config) (mv_make r)"
  "mv_nodes pt_nodes (pt_set_ops sbv_config) (mv_make r) = (\<lambda>_. {})"
  by (simp_all add: mut_start(1) mv_inv_def mv_nodes_def mv_make_def mut_start(2) make_rev fun_eq_iff split: sum.split)

lemma pv_start:
  assumes "pptc_inv (pt_plain SBV) pt_nodes c"
  shows "pv_inv (pt_plain SBV) pt_nodes (c, pv_make r)" "pv_nodes pt_nodes (c, pv_make r) = (\<lambda>_. {})"
  by (simp_all add: pers_start [OF assms] pv_inv_def pv_nodes_def pv_make_def make_rev fun_eq_iff split: sum.split)

text \<open>C9: For points-to sets that are sparse bit vectors (the default) without a node mapping, the
  versioned tables behave as one table over both kinds of keys. Any sequence of operations on
  keys and versioned keys, unions across the two tables included, from new mutable tables returns, and
  leaves the flags, sets and reverse sets that the same operations have on functions from keys to sets;
  the persistent tables, with one cache for both, give the same flags, sets and reverse sets, unless the
  cache runs out of ids. For core bit vectors the flags are not those of the sets, as in the plain tables.\<close>

theorem versioned_tables_refine:
  assumes "\<forall>c\<in>set cs. cmd_ok (pt_plain SBV) c" "pptc_new (pt_ops sbv_config) = Some c"
  shows "\<exists>s. run_cmds (mv_step (pt_set_ops sbv_config)) cs (mv_make r)
        = Some (fst (spec_run (spec_step pt_nodes) cs (\<lambda>_. {})), s)
      \<and> mv_nodes pt_nodes (pt_set_ops sbv_config) s = snd (spec_run (spec_step pt_nodes) cs (\<lambda>_. {}))
      \<and> (r \<longrightarrow> (\<forall>k n. k \<in> mv_revAt s n \<longleftrightarrow> n \<in> snd (spec_run (spec_step pt_nodes) cs (\<lambda>_. {})) k))
      \<and> (case run_cmds (pv_step (pt_set_ops sbv_config)) cs (c, pv_make r) of
          None \<Rightarrow> (\<exists>n bs t. n < length cs
            \<and> run_cmds (pv_step (pt_set_ops sbv_config)) (take n cs) (c, pv_make r) = Some (bs, t) \<and> ids_full (fst t))
        | Some (bs, t) \<Rightarrow> bs = fst (spec_run (spec_step pt_nodes) cs (\<lambda>_. {}))
            \<and> pv_nodes pt_nodes t = mv_nodes pt_nodes (pt_set_ops sbv_config) s
            \<and> (r \<longrightarrow> (\<forall>n. pv_revAt t n = mv_revAt s n)))"
proof -
  let ?S = "spec_run (spec_step pt_nodes) cs (\<lambda>_. {})"
  have c: "pptc_inv (pt_plain SBV) pt_nodes c" using sbv_cache assms(2) by (metis option.inject)
  note st = pv_start [OF c, of r]
  obtain s where s: "run_cmds (mv_step (pt_set_ops sbv_config)) cs (mv_make r) = Some (fst ?S, s)"
    "mv_inv (pt_plain SBV) pt_nodes (pt_set_ops sbv_config) s" "mv_nodes pt_nodes (pt_set_ops sbv_config) s = snd ?S"
    by (rule mvt.run_total [OF _ mv_start(1) assms(1)]) (simp_all add: mv_start(2))
  have "mv_rev s = r" using mvt.run_rev [OF mv_start(1) assms(1) s(1)] by (simp add: mv_make_def)
  then have rev: "k \<in> mv_revAt s n \<longleftrightarrow> n \<in> snd ?S k" if r for k n using mvt.rev_iff [OF s(2)] s(3) that by simp
  have "case run_cmds (pv_step (pt_set_ops sbv_config)) cs (c, pv_make r) of
          None \<Rightarrow> (\<exists>n bs t. n < length cs
            \<and> run_cmds (pv_step (pt_set_ops sbv_config)) (take n cs) (c, pv_make r) = Some (bs, t) \<and> ids_full (fst t))
        | Some (bs, t) \<Rightarrow> bs = fst ?S \<and> pv_nodes pt_nodes t = mv_nodes pt_nodes (pt_set_ops sbv_config) s
            \<and> (r \<longrightarrow> (\<forall>n. pv_revAt t n = mv_revAt s n))"
  proof (cases "run_cmds (pv_step (pt_set_ops sbv_config)) cs (c, pv_make r)")
    case None
    then show ?thesis using pvt.run_None [OF st(1) assms(1)] by simp
  next
    case (Some q)
    then obtain bs t where q: "run_cmds (pv_step (pt_set_ops sbv_config)) cs (c, pv_make r) = Some (bs, t)" by (cases q) simp
    have ag: "fst ?S = bs" "mv_nodes pt_nodes (pt_set_ops sbv_config) s = pv_nodes pt_nodes t" "pv_inv (pt_plain SBV) pt_nodes t"
      using ver.runs_agree [OF mv_start(1) st(1) _ assms(1) s(1) q] by (simp_all add: mv_start(2) st(2))
    have "pv_rev (snd t) = r" using pvt.run_rev [OF st(1) assms(1) q] by (simp add: pv_make_def)
    then have "pv_revAt t n = mv_revAt s n" if r for n
      using pvt.rev_iff [OF ag(3)] rev [OF that] ag(2) s(3) that by (simp add: set_eq_iff)
    then show ?thesis using q ag by simp
  qed
  then show ?thesis using s rev by blast
qed

lemma versioned_tables_witness:
  "\<exists>s. run_cmds (mv_step (pt_set_ops sbv_config)) [AddPts (Inl (1::nat)) 7, UnionPts (Inr (2::nat)) (Inl 1), ClearPts (Inl 1) 7]
      (mv_make True) = Some ([True, True, False], s)
    \<and> mv_nodes pt_nodes (pt_set_ops sbv_config) s (Inr 2) = {7} \<and> mv_nodes pt_nodes (pt_set_ops sbv_config) s (Inl 1) = {}
    \<and> (\<forall>k. k \<in> mv_revAt s 7 \<longleftrightarrow> k = Inr 2)"
proof -
  let ?cs = "[AddPts (Inl (1::nat)) 7, UnionPts (Inr (2::nat)) (Inl 1), ClearPts (Inl 1) 7] :: (nat + nat, points_to) pts_cmd list"
  obtain c where c: "pptc_new (pt_ops sbv_config) = Some c" by (rule sbv_cache)
  have ok: "\<forall>c\<in>set ?cs. cmd_ok (pt_plain SBV) c" by (simp add: node_ok_def)
  let ?S = "spec_run (spec_step pt_nodes) ?cs (\<lambda>_. {})"
  have S: "fst ?S = [True, True, False]" "snd ?S = (\<lambda>_. {})(Inr 2 := {7})" by (auto simp: Let_def fun_eq_iff)
  from versioned_tables_refine [OF ok c, of True]
  obtain s where s: "run_cmds (mv_step (pt_set_ops sbv_config)) ?cs (mv_make True) = Some (fst ?S, s)"
    "mv_nodes pt_nodes (pt_set_ops sbv_config) s = snd ?S" "True \<longrightarrow> (\<forall>k n. k \<in> mv_revAt s n \<longleftrightarrow> n \<in> snd ?S k)"
    by (elim exE conjE)
  show ?thesis by (rule exI [of _ s], unfold s(1,2) S, use s(3) [unfolded S] in simp)
qed

text \<open>C27: The persistent versioned tables, over sparse bit vectors without a node mapping, report counts that add up. For the live sets, \<open>getAllPts\<close> counts
  how many entries of both maps hold a set; for all sets, a live set has the same count although the
  shared cache stores it once more, and a set of the cache that no entry holds is counted once. At most
  \<open>2^32 - 1\<close> entries keep the unsigned counts exact, and the keys of a map are distinct.\<close>

theorem versioned_counts_correct:
  assumes "pv_inv (pt_plain SBV) pt_nodes s"
    and "distinct (map fst (pp_pts (pv_tl (snd s))))" "distinct (map fst (pp_pts (pv_at (snd s))))" "length (live_sets s) < 2 ^ 32"
  shows "\<exists>m m'. pv_getAllPts (pt_set_ops sbv_config) True s = Some m \<and> pv_getAllPts (pt_set_ops sbv_config) False s = Some m'
    \<and> (\<forall>X. count_of pt_nodes m X = holders pt_nodes (live_sets s) X \<and> count_of pt_nodes m' X =
        (if X \<in> pt_nodes ` set (live_sets s) then holders pt_nodes (live_sets s) X
         else if X \<in> pt_nodes ` set (c_idToPts (fst s)) then 1 else 0))"
  by (rule sbv_sets.pv_counts [OF assms])

lemma versioned_counts_witness:
  "\<exists>c m m'. pptc_new (pt_ops sbv_config) = Some c
    \<and> pv_getAllPts (pt_set_ops sbv_config) True (c, \<lparr>pv_rev = True, pv_tl = pp_touch (1::nat) (pp_make True), pv_at = pp_touch (2::nat) (pp_make True)\<rparr>) = Some m
    \<and> pv_getAllPts (pt_set_ops sbv_config) False (c, \<lparr>pv_rev = True, pv_tl = pp_touch (1::nat) (pp_make True), pv_at = pp_touch (2::nat) (pp_make True)\<rparr>) = Some m'
    \<and> count_of pt_nodes m {} = 2 \<and> count_of pt_nodes m' {} = 2"
proof -
  obtain c where c: "pptc_new (pt_ops sbv_config) = Some c" "pptc_inv (pt_plain SBV) pt_nodes c"
    "c_idToPts c = [do_new (pt_ops sbv_config)]" by (rule sbv_cache)
  let ?s = "(c, \<lparr>pv_rev = True, pv_tl = pp_touch (1::nat) (pp_make True), pv_at = pp_touch (2::nat) (pp_make True)\<rparr>)"
  have inv: "pv_inv (pt_plain SBV) pt_nodes ?s" by (simp add: pv_inv_def pers_start(1) [OF c(2)] make_rev)
  have d: "pp_pts (pp_touch k (pp_make True)) = [(k, 0)]" for k :: nat by (simp add: pp_touch_def pp_make_def at_touch_def)
  have e: "pt_nodes (do_new (pt_ops sbv_config)) = {}" using sbv_sets.new_ok(2) by (simp add: pt_set_ops_def)
  have l: "live_sets ?s = [do_new (pt_ops sbv_config), do_new (pt_ops sbv_config)]" by (simp add: live_sets_def d c(3))
  from versioned_counts_correct [OF inv] show ?thesis
    using c(1) unfolding l by (auto simp: d e)
qed

end
