(* ===== verification/BofRange.thy ===== *)
theory BofRange
  imports Prelude "HOL-Library.Signed_Division" "HOL-Library.Monad_Syntax"
begin

text \<open>
  The interval domain of the buffer overflow checker: \<open>svf/lib/BOF/Range.cpp\<close> and
  \<open>svf/include/BOF/Range.h\<close>.

  A \<open>BoundType\<close> is a \<open>signed long long\<close>, here an \<open>int\<close> between \<open>NINF\<close> and \<open>INF\<close> (\<open>rNINF\<close>, \<open>rINF\<close> here). Signed
  overflow, division overflow and \<open>std::abs\<close> of the least value are undefined in C++;
  an operation that can reach them returns an option, and \<open>None\<close> is that outcome.
  \<open>gam\<close> gives an interval its meaning, the 64-bit values between its bounds, and the
  soundness lemmas are stated against it. The operations sit behind the interface
  \<open>widening_domain\<close>, through which the range analysis joins and widens values.
\<close>

section \<open>The data and its tools\<close>

record range =
  lower :: int
  upper :: int

definition rINF :: int where
  "rINF = 2 ^ 63 - 1"

definition rNINF :: int where
  "rNINF = - (2 ^ 63)"

definition mk_range :: "int \<Rightarrow> int \<Rightarrow> range" where
  "mk_range l u = \<lparr>lower = l, upper = u\<rparr>"

definition const_range :: "int \<Rightarrow> range" where
  "const_range s = \<lparr>lower = s, upper = s\<rparr>"

definition default_range :: range where
  "default_range = \<lparr>lower = rNINF, upper = rINF\<rparr>"

definition TOP :: range where
  "TOP = mk_range rNINF rINF"

definition BOTTOM :: range where
  "BOTTOM = mk_range rINF rNINF"

definition isBottom :: "range \<Rightarrow> bool" where
  "isBottom r = (lower r > upper r)"

definition isTop :: "range \<Rightarrow> bool" where
  "isTop r = (lower r = rNINF \<and> upper r = rINF)"

definition isConstant :: "range \<Rightarrow> bool" where
  "isConstant r = (lower r = upper r)"

definition isSubset :: "range \<Rightarrow> range \<Rightarrow> bool" where
  "isSubset r s = (lower r \<ge> lower s \<and> upper r \<le> upper s)"

text \<open>Decimal output of integers, as \<open>operator<<\<close> and \<open>std::to_string\<close> print them.\<close>

fun dec_nat :: "nat \<Rightarrow> string" where
  "dec_nat n = (if n < 10 then [char_of (48 + n)] else dec_nat (n div 10) @ [char_of (48 + n mod 10)])"

declare dec_nat.simps [simp del]

definition to_string :: "int \<Rightarrow> string" where
  "to_string x = (if x < 0 then ''-'' @ dec_nat (nat (- x)) else dec_nat (nat x))"

definition range_toString :: "range \<Rightarrow> string" where
  "range_toString r =
    ''['' @ (if lower r = rNINF \<or> lower r \<le> rNINF + 1000 then ''-INF'' else to_string (lower r))
    @ '', ''
    @ (if upper r = rINF \<or> upper r \<ge> rINF - 1000 then ''INF'' else to_string (upper r)) @ '']''"

section \<open>Arithmetic\<close>

text \<open>The result of a signed 64-bit operation; \<open>None\<close> when it overflows.\<close>

definition chk :: "int \<Rightarrow> int option" where
  "chk x = (if rNINF \<le> x \<and> x \<le> rINF then Some x else None)"

definition cdiv :: "int \<Rightarrow> int \<Rightarrow> int option" where
  "cdiv a b = (if b = 0 then None else chk (a sdiv b))"

definition crem :: "int \<Rightarrow> int \<Rightarrow> int option" where
  "crem a b = (if b = 0 \<or> chk (a sdiv b) = None then None else Some (a smod b))"

definition cabs :: "int \<Rightarrow> int option" where
  "cabs a = chk \<bar>a\<bar>"

definition safeAdd :: "int \<Rightarrow> int \<Rightarrow> int option" where
  "safeAdd lhs rhs =
    (if rhs > 0 then do { t \<leftarrow> chk (rINF - rhs); if lhs > t then Some rINF else chk (lhs + rhs) }
     else if rhs < 0 then do { t \<leftarrow> chk (rNINF - rhs); if lhs < t then Some rNINF else chk (lhs + rhs) }
     else chk (lhs + rhs))"

definition safeMul :: "int \<Rightarrow> int \<Rightarrow> int option" where
  "safeMul lhs rhs =
    (if lhs = 0 \<or> rhs = 0 then Some 0
     else if lhs > 0 \<and> rhs > 0 \<and> lhs > rINF sdiv rhs then Some rINF
     else if lhs < 0 \<and> rhs < 0 \<and> lhs < rINF sdiv rhs then Some rINF
     else if lhs > 0 \<and> rhs < 0 \<and> rhs < rNINF sdiv lhs then Some rNINF
     else if lhs < 0 \<and> rhs > 0 \<and> lhs < rNINF sdiv rhs then Some rNINF
     else chk (lhs * rhs))"

text \<open>\<open>std::min_element\<close> and \<open>std::max_element\<close> over the array of candidates.\<close>

definition min_element :: "int list \<Rightarrow> int" where
  "min_element xs = foldl min (hd xs) (tl xs)"

definition max_element :: "int list \<Rightarrow> int" where
  "max_element xs = foldl max (hd xs) (tl xs)"

definition range_add :: "range \<Rightarrow> range \<Rightarrow> range option" where
  "range_add lhs rhs =
    (if isBottom lhs \<or> isBottom rhs then Some BOTTOM
     else do {
       l \<leftarrow> safeAdd (lower lhs) (lower rhs);
       u \<leftarrow> safeAdd (upper lhs) (upper rhs);
       Some (mk_range l u) })"

definition range_sub :: "range \<Rightarrow> range \<Rightarrow> range option" where
  "range_sub lhs rhs =
    (if isBottom lhs \<or> isBottom rhs then Some BOTTOM
     else do {
       nu \<leftarrow> chk (- upper rhs);
       l \<leftarrow> safeAdd (lower lhs) nu;
       nl \<leftarrow> chk (- lower rhs);
       u \<leftarrow> safeAdd (upper lhs) nl;
       Some (mk_range l u) })"

definition range_mul :: "range \<Rightarrow> range \<Rightarrow> range option" where
  "range_mul lhs rhs =
    (if isBottom lhs \<or> isBottom rhs then Some BOTTOM
     else do {
       a \<leftarrow> safeMul (lower lhs) (lower rhs);
       b \<leftarrow> safeMul (lower lhs) (upper rhs);
       c \<leftarrow> safeMul (upper lhs) (lower rhs);
       d \<leftarrow> safeMul (upper lhs) (upper rhs);
       Some (mk_range (min_element [a, b, c, d]) (max_element [a, b, c, d])) })"

definition range_div :: "range \<Rightarrow> range \<Rightarrow> range option" where
  "range_div lhs rhs =
    (if isBottom lhs \<or> isBottom rhs then Some BOTTOM
     else if lower rhs \<le> 0 \<and> upper rhs \<ge> 0 then Some TOP
     else do {
       a \<leftarrow> cdiv (lower lhs) (lower rhs);
       b \<leftarrow> cdiv (lower lhs) (upper rhs);
       c \<leftarrow> cdiv (upper lhs) (lower rhs);
       d \<leftarrow> cdiv (upper lhs) (upper rhs);
       Some (mk_range (min_element [a, b, c, d]) (max_element [a, b, c, d])) })"

definition range_mod :: "range \<Rightarrow> range \<Rightarrow> range option" where
  "range_mod lhs rhs =
    (if isBottom lhs \<or> isBottom rhs then Some BOTTOM
     else if lower rhs \<le> 0 \<and> upper rhs \<ge> 0 then Some TOP
     else if isConstant lhs \<and> isConstant rhs then
       map_option const_range (crem (lower lhs) (lower rhs))
     else if isConstant rhs then do {
       C \<leftarrow> cabs (lower rhs);
       if lower lhs \<ge> 0 then Some (mk_range 0 (min (upper lhs) (C - 1)))
       else Some (mk_range (- (C - 1)) (C - 1)) }
     else do {
       a \<leftarrow> cabs (lower rhs);
       b \<leftarrow> cabs (upper rhs);
       Some (mk_range (- max a b + 1) (max a b - 1)) })"

definition range_negate :: "range \<Rightarrow> range option" where
  "range_negate operand =
    (if isBottom operand then Some BOTTOM
     else do {
       l \<leftarrow> chk (- upper operand);
       u \<leftarrow> chk (- lower operand);
       Some (mk_range l u) })"

section \<open>Bitwise operations and shifts\<close>

definition bit_and :: "range \<Rightarrow> range \<Rightarrow> range" where
  "bit_and lhs rhs =
    (if isBottom lhs \<or> isBottom rhs then BOTTOM
     else if isConstant lhs \<and> isConstant rhs then const_range (lower lhs AND lower rhs)
     else if lower lhs \<ge> 0 \<and> lower rhs \<ge> 0 then mk_range 0 (min (upper lhs) (upper rhs))
     else if lower lhs \<ge> 0 then mk_range 0 (upper lhs)
     else if lower rhs \<ge> 0 then mk_range 0 (upper rhs)
     else TOP)"

text \<open>The loop \<open>while (msb <= max_val) msb <<= 1\<close> on \<open>unsigned long long\<close>.\<close>

partial_function (option) msb_loop :: "u64 \<Rightarrow> u64 \<Rightarrow> u64 option" where
  "msb_loop max_val msb = (if msb \<le> max_val then msb_loop max_val (push_bit 1 msb) else Some msb)"

definition bit_or :: "range \<Rightarrow> range \<Rightarrow> range option" where
  "bit_or lhs rhs =
    (if isBottom lhs \<or> isBottom rhs then Some BOTTOM
     else if isConstant lhs \<and> isConstant rhs then Some (const_range (lower lhs OR lower rhs))
     else if lower lhs \<ge> 0 \<and> lower rhs \<ge> 0 then do {
       msb \<leftarrow> msb_loop (word_of_int (max (upper lhs) (upper rhs))) 1;
       Some (mk_range (max (lower lhs) (lower rhs)) (sint (msb - 1))) }
     else Some TOP)"

definition bit_xor :: "range \<Rightarrow> range \<Rightarrow> range option" where
  "bit_xor lhs rhs =
    (if isBottom lhs \<or> isBottom rhs then Some BOTTOM
     else if isConstant lhs \<and> isConstant rhs then Some (const_range (lower lhs XOR lower rhs))
     else if lower lhs \<ge> 0 \<and> lower rhs \<ge> 0 then
       (if max (upper lhs) (upper rhs) = 0 then Some (mk_range 0 0)
        else do {
          msb \<leftarrow> msb_loop (word_of_int (max (upper lhs) (upper rhs))) 1;
          Some (mk_range 0 (sint (msb - 1))) })
     else Some TOP)"

definition bit_not :: "range \<Rightarrow> range" where
  "bit_not operand = (if isBottom operand then BOTTOM else TOP)"

text \<open>\<open>1LL << n\<close> is defined below the sign bit only; \<open>x >> n\<close> is an arithmetic shift.\<close>

definition shl_one :: "int \<Rightarrow> int option" where
  "shl_one n = (if 0 \<le> n \<and> n < 63 then Some (2 ^ nat n) else None)"

definition range_shl :: "range \<Rightarrow> range \<Rightarrow> range option" where
  "range_shl lhs rhs =
    (if isBottom lhs \<or> isBottom rhs then Some BOTTOM
     else if lower rhs < 0 then Some TOP
     else if upper rhs \<ge> 63 then Some TOP
     else do {
       p \<leftarrow> shl_one (if lower lhs \<ge> 0 then lower rhs else upper rhs);
       low \<leftarrow> safeMul (lower lhs) p;
       q \<leftarrow> shl_one (if upper lhs \<ge> 0 then upper rhs else lower rhs);
       high \<leftarrow> safeMul (upper lhs) q;
       Some (mk_range low high) })"

definition range_lshr :: "range \<Rightarrow> range \<Rightarrow> range" where
  "range_lshr lhs rhs =
    (if isBottom lhs \<or> isBottom rhs then BOTTOM
     else if lower rhs < 0 then TOP
     else if lower lhs < 0 then TOP
     else let shiftL = min (lower rhs) 63; shiftU = min (upper rhs) 63
          in mk_range (drop_bit (nat shiftU) (lower lhs)) (drop_bit (nat shiftL) (upper lhs)))"

definition range_ashr :: "range \<Rightarrow> range \<Rightarrow> range" where
  "range_ashr lhs rhs =
    (if isBottom lhs \<or> isBottom rhs then BOTTOM
     else if lower rhs < 0 then TOP
     else let shiftL = min (lower rhs) 63; shiftU = min (upper rhs) 63
          in mk_range (drop_bit (nat shiftU) (lower lhs)) (drop_bit (nat shiftL) (upper lhs)))"

section \<open>Comparisons, logical operations, lattice\<close>

definition range_eq :: "range \<Rightarrow> range \<Rightarrow> bool" where
  "range_eq lhs rhs =
    (if isBottom lhs \<and> isBottom rhs then True
     else if isTop lhs \<and> isTop rhs then True
     else lower lhs = lower rhs \<and> upper lhs = upper rhs)"

definition range_ne :: "range \<Rightarrow> range \<Rightarrow> bool" where
  "range_ne lhs rhs = (\<not> range_eq lhs rhs)"

definition range_lt :: "range \<Rightarrow> range \<Rightarrow> bool" where
  "range_lt lhs rhs =
    (if isBottom lhs \<and> isBottom rhs then False
     else if isTop lhs \<and> isTop rhs then False
     else lower lhs > lower rhs \<and> upper lhs < upper rhs)"

definition range_le :: "range \<Rightarrow> range \<Rightarrow> bool" where
  "range_le lhs rhs =
    (if isBottom lhs \<and> isBottom rhs then True
     else if isTop lhs \<and> isTop rhs then True
     else lower lhs \<ge> lower rhs \<and> upper lhs \<le> upper rhs)"

definition range_gt :: "range \<Rightarrow> range \<Rightarrow> bool" where
  "range_gt lhs rhs = range_lt rhs lhs"

definition range_ge :: "range \<Rightarrow> range \<Rightarrow> bool" where
  "range_ge lhs rhs = range_le rhs lhs"

definition logical_not :: "range \<Rightarrow> range" where
  "logical_not operand =
    (if lower operand = 0 \<and> upper operand = 0 then const_range 1
     else if lower operand > 0 \<or> upper operand < 0 then const_range 0
     else const_range 1)"

definition logical_and :: "range \<Rightarrow> range \<Rightarrow> range" where
  "logical_and lhs rhs =
    mk_range (if lower lhs \<noteq> 0 \<and> lower rhs \<noteq> 0 then 1 else 0)
      (if upper lhs \<noteq> 0 \<and> upper rhs \<noteq> 0 then 1 else 1)"

definition logical_or :: "range \<Rightarrow> range \<Rightarrow> range" where
  "logical_or lhs rhs =
    mk_range (if lower lhs \<noteq> 0 \<or> lower rhs \<noteq> 0 then 1 else 0)
      (if upper lhs \<noteq> 0 \<or> upper rhs \<noteq> 0 then 1 else 1)"

definition range_join :: "range \<Rightarrow> range \<Rightarrow> range" where
  "range_join lhs rhs =
    (if isBottom lhs then rhs
     else if isBottom rhs then lhs
     else mk_range (min (lower lhs) (lower rhs)) (max (upper lhs) (upper rhs)))"

definition range_meet :: "range \<Rightarrow> range \<Rightarrow> range" where
  "range_meet lhs rhs =
    (if isBottom lhs \<or> isBottom rhs then BOTTOM
     else mk_range (max (lower lhs) (lower rhs)) (min (upper lhs) (upper rhs)))"

definition range_select :: "range \<Rightarrow> range \<Rightarrow> range \<Rightarrow> range" where
  "range_select cond t f =
    (if lower cond = 1 \<and> upper cond = 1 then t
     else if lower cond = 0 \<and> upper cond = 0 then f
     else range_join t f)"

definition widening :: "range \<Rightarrow> range \<Rightarrow> range" where
  "widening prev next =
    (if isBottom prev then next
     else if isBottom next then prev
     else mk_range (if lower next < lower prev then rNINF else lower prev)
            (if upper next > upper prev then rINF else upper prev))"

section \<open>The meaning of an interval\<close>

definition in64 :: "int \<Rightarrow> bool" where
  "in64 x = (rNINF \<le> x \<and> x \<le> rINF)"

definition range_ok :: "range \<Rightarrow> bool" where
  "range_ok r = (in64 (lower r) \<and> in64 (upper r))"

definition gam :: "range \<Rightarrow> int set" where
  "gam r = {x. lower r \<le> x \<and> x \<le> upper r}"

definition sat :: "int \<Rightarrow> int" where
  "sat x = max rNINF (min rINF x)"

lemmas bounds_defs = rINF_def rNINF_def
lemmas range_ctor = mk_range_def const_range_def TOP_def BOTTOM_def default_range_def

lemma range_sel [simp]:
  "lower (mk_range l u) = l" "upper (mk_range l u) = u"
  "lower (const_range s) = s" "upper (const_range s) = s"
  "lower TOP = rNINF" "upper TOP = rINF" "lower BOTTOM = rINF" "upper BOTTOM = rNINF"
  by (simp_all add: range_ctor)

lemma in_gam [simp]: "x \<in> gam r \<longleftrightarrow> lower r \<le> x \<and> x \<le> upper r"
  by (simp add: gam_def)

lemma NINF_lt_INF [simp]: "rNINF < rINF" "rNINF \<le> rINF" "rNINF < 0" "0 < rINF" "rNINF \<le> 0" "0 \<le> rINF"
  "\<not> rINF < rNINF" "\<not> rINF \<le> rNINF" "rINF \<noteq> rNINF" "rNINF \<noteq> rINF"
  by (simp_all add: bounds_defs)

lemma in64_consts [simp]: "in64 rNINF" "in64 rINF" "in64 0" "in64 1"
  by (simp_all add: in64_def bounds_defs)

lemma TOP_BOTTOM [simp]: "isTop TOP" "isBottom BOTTOM" "\<not> isBottom TOP" "\<not> isTop BOTTOM"
  "range_ok TOP" "range_ok BOTTOM"
  by (simp_all add: isTop_def isBottom_def range_ok_def in64_def)

lemma isBottom_gam: "isBottom r \<longleftrightarrow> gam r = {}"
  by (auto simp: isBottom_def set_eq_iff)

lemma gam_nonbottom: "x \<in> gam r \<Longrightarrow> \<not> isBottom r"
  by (auto simp: isBottom_def)

lemma isTop_iff:
  assumes "range_ok r" shows "isTop r \<longleftrightarrow> gam r = {x. in64 x}"
proof
  assume "gam r = {x. in64 x}"
  moreover have "in64 rNINF" "in64 rINF" by (auto simp: in64_def)
  ultimately have "rNINF \<in> gam r" "rINF \<in> gam r" by blast+
  then show "isTop r" using assms by (auto simp: isTop_def range_ok_def in64_def)
qed (auto simp: isTop_def in64_def)

section \<open>Arithmetic is exact or saturates\<close>

lemma chk_in64: "in64 x \<Longrightarrow> chk x = Some x"
  by (simp add: chk_def in64_def)

lemma chk_eq_Some [simp]: "chk x = Some y \<longleftrightarrow> in64 x \<and> y = x"
  by (auto simp: chk_def in64_def)

lemma chk_eq_None [simp]: "chk x = None \<longleftrightarrow> \<not> in64 x"
  by (auto simp: chk_def in64_def)

lemma in64_neg: "in64 x \<Longrightarrow> in64 (- x) \<longleftrightarrow> x \<noteq> rNINF"
  by (auto simp: in64_def bounds_defs)

lemma in64I: "0 \<le> x \<Longrightarrow> x < 2 ^ 63 \<Longrightarrow> in64 x"
  by (simp add: in64_def bounds_defs)

lemma sat_in64 [simp]: "in64 (sat x)"
  by (simp add: sat_def in64_def)

lemma sat_id: "in64 x \<Longrightarrow> sat x = x"
  by (simp add: sat_def in64_def)

lemma sat_mono: "x \<le> y \<Longrightarrow> sat x \<le> sat y"
  by (auto simp: sat_def)

lemma sat_min_max: "sat (min x y) = min (sat x) (sat y)" "sat (max x y) = max (sat x) (sat y)"
  using sat_mono by (simp_all add: min_of_mono max_of_mono monoI)

lemma safeAdd_sat: "in64 a \<Longrightarrow> in64 b \<Longrightarrow> safeAdd a b = Some (sat (a + b))"
  by (auto simp: safeAdd_def chk_def in64_def sat_def bounds_defs)

lemma sdiv_pos: "0 < b \<Longrightarrow> 0 \<le> a \<Longrightarrow> a sdiv b = a div (b :: int)"
  by (auto simp: signed_divide_int_def sgn_if)

lemma mult_le_iff_div:
  fixes a b c :: int
  assumes "0 < c" shows "a * c \<le> b \<longleftrightarrow> a \<le> b div c"
proof
  assume "a * c \<le> b"
  then have "(a * c) div c \<le> b div c" using assms by (intro zdiv_mono1)
  then show "a \<le> b div c" using assms by simp
next
  assume "a \<le> b div c"
  then have "a * c \<le> (b div c) * c" using assms by (simp add: mult_right_mono)
  also have "\<dots> \<le> b" using assms by (metis div_mult_mod_eq le_add_same_cancel1 pos_mod_sign)
  finally show "a * c \<le> b" .
qed

lemma sdiv_neg_divisor: "b < 0 \<Longrightarrow> 0 \<le> a \<Longrightarrow> a sdiv b = - (a div (- b))" for a b :: int
  by (auto simp: signed_divide_int_def sgn_if)

lemma sdiv_neg_dividend: "0 < b \<Longrightarrow> a \<le> 0 \<Longrightarrow> a sdiv b = - ((- a) div b)" for a b :: int
  by (auto simp: signed_divide_int_def sgn_if)

text \<open>The four overflow tests of \<open>safeMul\<close> decide exactly on which side of the 64-bit range
  the product lies.\<close>

lemma mul_overflow_tests:
  fixes a b :: int
  shows "0 < b \<Longrightarrow> a > rINF sdiv b \<longleftrightarrow> a * b > rINF"
    and "b < 0 \<Longrightarrow> a < rINF sdiv b \<longleftrightarrow> a * b > rINF"
    and "0 < a \<Longrightarrow> b < rNINF sdiv a \<longleftrightarrow> a * b < rNINF"
    and "0 < b \<Longrightarrow> a < rNINF sdiv b \<longleftrightarrow> a * b < rNINF"
proof -
  have k: "0 < c \<Longrightarrow> x < rNINF sdiv c \<longleftrightarrow> x * c < rNINF" for c x :: int
    using mult_le_iff_div [of c "- x" "- rNINF"] by (auto simp: sdiv_neg_dividend)
  show "0 < b \<Longrightarrow> a > rINF sdiv b \<longleftrightarrow> a * b > rINF"
    using mult_le_iff_div [of b a rINF] by (auto simp: sdiv_pos)
  show "b < 0 \<Longrightarrow> a < rINF sdiv b \<longleftrightarrow> a * b > rINF"
    using mult_le_iff_div [of "- b" "- a" rINF] by (auto simp: sdiv_neg_divisor)
  show "0 < a \<Longrightarrow> b < rNINF sdiv a \<longleftrightarrow> a * b < rNINF"
    using k [of a b] by (simp add: mult.commute)
  show "0 < b \<Longrightarrow> a < rNINF sdiv b \<longleftrightarrow> a * b < rNINF"
    by (rule k)
qed

lemma safeMul_sat:
  assumes "in64 a" "in64 b" shows "safeMul a b = Some (sat (a * b))"
proof (cases "a = 0 \<or> b = 0")
  case True
  then show ?thesis by (auto simp: safeMul_def sat_def)
next
  case False
  have neg: "a * b < 0" if "a > 0 \<and> b < 0 \<or> a < 0 \<and> b > 0"
    using that by (auto simp: mult_less_0_iff)
  have pos: "a * b > 0" if "a > 0 \<and> b > 0 \<or> a < 0 \<and> b < 0"
    using that by (auto simp: zero_less_mult_iff)
  consider "a > 0" "b > 0" | "a < 0" "b < 0" | "a > 0" "b < 0" | "a < 0" "b > 0"
    using False by linarith
  then show ?thesis
  proof cases
    case 1
    then have "0 < a * b" using pos by blast
    then have "rNINF \<le> a * b" using NINF_lt_INF(3) by linarith
    with 1 mul_overflow_tests(1) [of b a] show ?thesis
      by (auto simp: safeMul_def sat_def chk_def)
  next
    case 2
    then have "0 < a * b" using pos by blast
    then have "rNINF \<le> a * b" using NINF_lt_INF(3) by linarith
    with 2 mul_overflow_tests(2) [of b a] show ?thesis
      by (auto simp: safeMul_def sat_def chk_def)
  next
    case 3
    then have "a * b < 0" using neg by blast
    then have "a * b \<le> rINF" using NINF_lt_INF(4) by linarith
    with 3 mul_overflow_tests(3) [of a b] show ?thesis
      by (auto simp: safeMul_def sat_def chk_def)
  next
    case 4
    then have "a * b < 0" using neg by blast
    then have "a * b \<le> rINF" using NINF_lt_INF(4) by linarith
    with 4 mul_overflow_tests(4) [of b a] show ?thesis
      by (auto simp: safeMul_def sat_def chk_def)
  qed
qed

section \<open>Soundness of the arithmetic\<close>

lemma range_okD: "range_ok r \<Longrightarrow> in64 (lower r)" "range_ok r \<Longrightarrow> in64 (upper r)"
  by (simp_all add: range_ok_def)

lemma gam_in64: "range_ok r \<Longrightarrow> x \<in> gam r \<Longrightarrow> in64 x"
  by (auto simp: range_ok_def in64_def)

lemma min_element_4: "min_element [a, b, c, d] = min (min (min a b) c) d"
  by (simp add: min_element_def)

lemma max_element_4: "max_element [a, b, c, d] = max (max (max a b) c) d"
  by (simp add: max_element_def)

text \<open>A value between two pairs of corners lies in the interval of the four candidates.\<close>

lemma corners:
  fixes f :: "int \<Rightarrow> int \<Rightarrow> int"
  assumes x: "\<And>y. min (f l y) (f u y) \<le> f x y \<and> f x y \<le> max (f l y) (f u y)"
    and y: "\<And>x. min (f x m) (f x n) \<le> f x y \<and> f x y \<le> max (f x m) (f x n)"
  shows "min_element [f l m, f l n, f u m, f u n] \<le> f x y
    \<and> f x y \<le> max_element [f l m, f l n, f u m, f u n]"
  unfolding min_element_4 max_element_4
  using x [of m] x [of n] y [of x] by (simp add: min_def max_def split: if_splits)

lemma mult_between:
  fixes l x u y :: int
  assumes "l \<le> x" "x \<le> u"
  shows "min (l * y) (u * y) \<le> x * y \<and> x * y \<le> max (l * y) (u * y)"
proof (cases "0 \<le> y")
  case True
  then have "l * y \<le> x * y" "x * y \<le> u * y" using assms by (simp_all add: mult_right_mono)
  then show ?thesis by linarith
next
  case False
  then have "u * y \<le> x * y" "x * y \<le> l * y" using assms by (simp_all add: mult_right_mono_neg)
  then show ?thesis by linarith
qed

lemma range_add_sound:
  assumes "range_ok a" "range_ok b" "x \<in> gam a" "y \<in> gam b"
  shows "\<exists>r. range_add a b = Some r \<and> range_ok r \<and> sat (x + y) \<in> gam r"
proof -
  have "sat (lower a + lower b) \<le> sat (x + y)" "sat (x + y) \<le> sat (upper a + upper b)"
    using assms by (auto intro!: sat_mono)
  then show ?thesis
    using assms gam_nonbottom [OF assms(3)] gam_nonbottom [OF assms(4)]
    by (simp add: range_add_def safeAdd_sat range_ok_def)
qed

lemma in64_neg_upper: "range_ok b \<Longrightarrow> lower b \<noteq> rNINF \<Longrightarrow> y \<in> gam b \<Longrightarrow>
    in64 (- upper b) \<and> in64 (- lower b)"
  by (auto simp: range_ok_def in64_def bounds_defs)

lemma range_sub_sound:
  assumes "range_ok a" "range_ok b" "x \<in> gam a" "y \<in> gam b" "lower b \<noteq> rNINF"
  shows "\<exists>r. range_sub a b = Some r \<and> range_ok r \<and> sat (x - y) \<in> gam r"
proof -
  have "sat (lower a - upper b) \<le> sat (x - y)" "sat (x - y) \<le> sat (upper a - lower b)"
    using assms by (auto intro!: sat_mono)
  then show ?thesis
    using assms gam_nonbottom [OF assms(3)] gam_nonbottom [OF assms(4)] in64_neg_upper [of b y]
    by (simp add: range_sub_def safeAdd_sat range_ok_def chk_in64)
qed

lemma range_sub_None:
  assumes "range_ok a" "range_ok b"
  shows "range_sub a b = None \<longleftrightarrow> \<not> isBottom a \<and> \<not> isBottom b \<and> lower b = rNINF"
proof (cases "isBottom a \<or> isBottom b")
  case False
  then obtain y where y: "y \<in> gam b" unfolding isBottom_gam by blast
  obtain x where x: "x \<in> gam a" using False unfolding isBottom_gam by blast
  show ?thesis
  proof (cases "lower b = rNINF")
    case True
    then have "\<not> in64 (- lower b)" by (simp add: in64_def bounds_defs)
    then show ?thesis using False True by (auto simp: range_sub_def bind_eq_None_conv)
  next
    case ne: False
    then show ?thesis using range_sub_sound [OF assms x y ne] False by auto
  qed
qed (auto simp: range_sub_def)

lemma range_negate_sound:
  assumes "range_ok a" "x \<in> gam a"
  shows "range_negate a = None \<longleftrightarrow> lower a = rNINF"
    and "lower a \<noteq> rNINF \<Longrightarrow> \<exists>r. range_negate a = Some r \<and> range_ok r \<and> - x \<in> gam r"
proof -
  have b: "in64 (- upper a) \<longleftrightarrow> upper a \<noteq> rNINF" "in64 (- lower a) \<longleftrightarrow> lower a \<noteq> rNINF"
    using assms by (simp_all add: range_okD in64_neg)
  have nb: "\<not> isBottom a" by (rule gam_nonbottom [OF assms(2)])
  have ub: "upper a = rNINF \<longrightarrow> lower a = rNINF"
    using nb assms by (auto simp: isBottom_def range_ok_def in64_def)
  show "range_negate a = None \<longleftrightarrow> lower a = rNINF"
    using nb b ub by (auto simp: range_negate_def bind_eq_None_conv)
  show "\<exists>r. range_negate a = Some r \<and> range_ok r \<and> - x \<in> gam r" if "lower a \<noteq> rNINF"
    using that nb b ub assms(2) by (auto simp: range_negate_def chk_in64 range_ok_def)
qed

lemma range_mul_sound:
  assumes "range_ok a" "range_ok b" "x \<in> gam a" "y \<in> gam b"
  shows "\<exists>r. range_mul a b = Some r \<and> range_ok r \<and> sat (x * y) \<in> gam r"
proof -
  let ?c = "\<lambda>f. [f (lower a * lower b), f (lower a * upper b), f (upper a * lower b), f (upper a * upper b)]"
  have 1: "min (lower a * z) (upper a * z) \<le> x * z \<and> x * z \<le> max (lower a * z) (upper a * z)" for z
    using mult_between [of "lower a" x "upper a" z] assms by simp
  have 2: "min (z * lower b) (z * upper b) \<le> z * y \<and> z * y \<le> max (z * lower b) (z * upper b)" for z
    using mult_between [of "lower b" y "upper b" z] assms by (simp add: mult.commute [of z])
  have "min_element (?c id) \<le> x * y \<and> x * y \<le> max_element (?c id)"
    using corners [of "(*)" "lower a" "upper a" x "lower b" "upper b" y, OF 1 2] by simp
  then have "min_element (?c sat) \<le> sat (x * y) \<and> sat (x * y) \<le> max_element (?c sat)"
    by (simp add: min_element_4 max_element_4 flip: sat_min_max) (blast intro: sat_mono)
  moreover have "in64 (min_element (?c sat))" "in64 (max_element (?c sat))"
    by (auto simp: min_element_4 max_element_4 min_def max_def)
  ultimately show ?thesis
    using assms gam_nonbottom [OF assms(3)] gam_nonbottom [OF assms(4)]
    by (simp add: range_mul_def safeMul_sat range_ok_def)
qed

text \<open>Truncating division is monotone in the dividend, up to the sign of the divisor, and
  between two divisors of one sign it stays between the two quotients.\<close>

lemma sdiv_minus_right: "a sdiv (- b) = - (a sdiv b)" for a b :: int
  by (simp add: signed_divide_int_def)

lemma sdiv_mono: "0 < c \<Longrightarrow> a \<le> b \<Longrightarrow> a sdiv c \<le> b sdiv c" for a b c :: int
proof -
  assume c: "0 < c" and ab: "a \<le> b"
  show ?thesis
  proof (cases "0 \<le> a")
    case True
    then show ?thesis using c ab by (simp add: sdiv_pos zdiv_mono1)
  next
    case False
    then have "- (- a div c) \<le> 0" using c by (simp add: pos_imp_zdiv_nonneg_iff)
    moreover have "0 \<le> b sdiv c" if "0 \<le> b" using that c by (simp add: sdiv_pos pos_imp_zdiv_nonneg_iff)
    moreover have "- b div c \<le> - a div c" using c ab by (intro zdiv_mono1) auto
    ultimately show ?thesis using False c by (cases "0 \<le> b") (auto simp: sdiv_neg_dividend)
  qed
qed

lemma sdiv_between_dividend:
  fixes l x u y :: int
  assumes "y \<noteq> 0" "l \<le> x" "x \<le> u"
  shows "min (l sdiv y) (u sdiv y) \<le> x sdiv y \<and> x sdiv y \<le> max (l sdiv y) (u sdiv y)"
proof (cases "0 < y")
  case True
  then show ?thesis using sdiv_mono [of y l x] sdiv_mono [of y x u] assms by linarith
next
  case False
  then show ?thesis
    using sdiv_mono [of "- y" l x] sdiv_mono [of "- y" x u] assms by (simp add: sdiv_minus_right)
qed

lemma sdiv_between_divisor_pos:
  fixes m y n x :: int
  assumes "0 < m" "m \<le> y" "y \<le> n"
  shows "min (x sdiv m) (x sdiv n) \<le> x sdiv y \<and> x sdiv y \<le> max (x sdiv m) (x sdiv n)"
proof (cases "0 \<le> x")
  case True
  then have "x div n \<le> x div y" "x div y \<le> x div m" using assms by (simp_all add: zdiv_mono2)
  then show ?thesis using True assms by (simp add: sdiv_pos)
next
  case False
  then have "- x div n \<le> - x div y" "- x div y \<le> - x div m" using assms by (simp_all add: zdiv_mono2)
  then show ?thesis using False assms by (simp add: sdiv_neg_dividend)
qed

lemma sdiv_between_divisor:
  fixes m y n x :: int
  assumes "m \<le> y" "y \<le> n" "0 < m \<or> n < 0"
  shows "min (x sdiv m) (x sdiv n) \<le> x sdiv y \<and> x sdiv y \<le> max (x sdiv m) (x sdiv n)"
proof (cases "0 < m")
  case True
  then show ?thesis using assms by (intro sdiv_between_divisor_pos) auto
next
  case False
  then show ?thesis
    using sdiv_between_divisor_pos [of "- n" "- y" "- m" x] assms by (simp add: sdiv_minus_right) linarith
qed

lemma abs_sdiv_le: "\<bar>a sdiv b\<bar> \<le> \<bar>a\<bar>" for a b :: int
proof (cases "b = 0")
  case False
  have "\<bar>a\<bar> div \<bar>b\<bar> \<le> \<bar>a\<bar>"
    using zdiv_mono2 [of "\<bar>a\<bar>" 1 "\<bar>b\<bar>"] False by simp
  moreover have "0 \<le> \<bar>a\<bar> div \<bar>b\<bar>"
    using False by (simp add: pos_imp_zdiv_nonneg_iff)
  ultimately show ?thesis by (simp add: signed_divide_int_def abs_mult abs_sgn_eq)
qed simp

lemma abs_sdiv_half: "b \<noteq> - 1 \<Longrightarrow> b \<noteq> 1 \<Longrightarrow> 2 * \<bar>a sdiv b\<bar> \<le> \<bar>a\<bar>" for a b :: int
proof (cases "b = 0")
  case False
  assume "b \<noteq> - 1" "b \<noteq> 1"
  then have "\<bar>a\<bar> div \<bar>b\<bar> \<le> \<bar>a\<bar> div 2" using False by (intro zdiv_mono2) auto
  moreover have "0 \<le> \<bar>a\<bar> div \<bar>b\<bar>"
    using False by (simp add: pos_imp_zdiv_nonneg_iff)
  moreover have "2 * (\<bar>a\<bar> div 2) \<le> \<bar>a\<bar>" by simp
  ultimately have "\<bar>\<bar>a\<bar> div \<bar>b\<bar>\<bar> * 2 \<le> \<bar>a\<bar>" by linarith
  moreover have "\<bar>a sdiv b\<bar> \<le> \<bar>\<bar>a\<bar> div \<bar>b\<bar>\<bar>"
    by (simp add: signed_divide_int_def abs_mult abs_sgn_eq)
  ultimately show ?thesis by linarith
qed simp

lemma in64_sdiv: "in64 a \<Longrightarrow> in64 (a sdiv b) \<longleftrightarrow> \<not> (a = rNINF \<and> b = - 1)"
proof (cases "b = -1 \<or> b = 1")
  case False
  assume "in64 a"
  then have "2 * \<bar>a sdiv b\<bar> \<le> 2 ^ 63" using abs_sdiv_half [of b a] False by (auto simp: in64_def bounds_defs)
  then show ?thesis using False by (auto simp: in64_def bounds_defs)
qed (auto simp: in64_def bounds_defs)

lemma cdiv_eq: "in64 a \<Longrightarrow> b \<noteq> 0 \<Longrightarrow> cdiv a b = (if a = rNINF \<and> b = - 1 then None else Some (a sdiv b))"
  using in64_sdiv [of a b] by (auto simp: cdiv_def chk_in64)

lemma crem_eq: "in64 a \<Longrightarrow> b \<noteq> 0 \<Longrightarrow> crem a b = (if a = rNINF \<and> b = - 1 then None else Some (a smod b))"
  using in64_sdiv [of a b] by (auto simp: crem_def)

lemma range_div_None:
  assumes "range_ok a" "range_ok b" "\<not> isBottom a" "\<not> isBottom b"
  shows "range_div a b = None \<longleftrightarrow> lower a = rNINF \<and> upper b = - 1"
proof (cases "lower b \<le> 0 \<and> upper b \<ge> 0")
  case True
  then show ?thesis using assms by (auto simp: range_div_def)
next
  case False
  then have nz: "lower b \<noteq> 0" "upper b \<noteq> 0" and sg: "lower b = - 1 \<longrightarrow> upper b = - 1"
    using assms(4) by (auto simp: isBottom_def)
  have ua: "upper a = rNINF \<longrightarrow> lower a = rNINF"
    using assms(1,3) by (auto simp: isBottom_def range_ok_def in64_def)
  show ?thesis
    using False assms nz sg ua
    by (auto simp: range_div_def bind_eq_None_conv cdiv_eq range_ok_def split: if_splits)
qed

lemma range_div_sound:
  assumes "range_ok a" "range_ok b" "x \<in> gam a" "y \<in> gam b" "y \<noteq> 0"
    and r: "range_div a b = Some r"
  shows "range_ok r" "in64 (x sdiv y) \<longrightarrow> x sdiv y \<in> gam r"
proof -
  have nb: "\<not> isBottom a" "\<not> isBottom b" using assms gam_nonbottom by blast+
  have "range_ok r \<and> (in64 (x sdiv y) \<longrightarrow> x sdiv y \<in> gam r)"
  proof (cases "lower b \<le> 0 \<and> upper b \<ge> 0")
    case True
    then show ?thesis using r nb by (auto simp: range_div_def in64_def range_ok_def)
  next
    case False
    have nz: "lower b \<noteq> 0" "upper b \<noteq> 0" "0 < lower b \<or> upper b < 0"
      using False nb(2) by (auto simp: isBottom_def)
    have ub: "\<not> (lower a = rNINF \<and> upper b = - 1)"
      using range_div_None [OF assms(1,2) nb] r by simp
    have ua: "\<not> (upper a = rNINF \<and> upper b = - 1)" "\<not> (upper a = rNINF \<and> lower b = - 1)"
      "\<not> (lower a = rNINF \<and> lower b = - 1)"
      using assms(1,2) nb nz ub by (auto simp: isBottom_def range_ok_def in64_def)
    let ?c = "[lower a sdiv lower b, lower a sdiv upper b, upper a sdiv lower b, upper a sdiv upper b]"
    have req: "r = mk_range (min_element ?c) (max_element ?c)"
      using r nb False nz ub ua assms(1) by (auto simp: range_div_def cdiv_eq range_ok_def)
    have i64: "in64 (lower a sdiv lower b)" "in64 (lower a sdiv upper b)"
      "in64 (upper a sdiv lower b)" "in64 (upper a sdiv upper b)"
      using assms(1) ub ua by (auto simp: in64_sdiv range_ok_def)
    then have ok: "range_ok r"
      unfolding req range_ok_def range_sel min_element_4 max_element_4 by (auto simp: min_def max_def)
    have "min (lower a sdiv z) (upper a sdiv z) \<le> x sdiv z \<and> x sdiv z \<le> max (lower a sdiv z) (upper a sdiv z)" for z
      using sdiv_between_dividend [of z "lower a" x "upper a"] assms by (cases "z = 0") auto
    moreover have "min (z sdiv lower b) (z sdiv upper b) \<le> z sdiv y \<and> z sdiv y \<le> max (z sdiv lower b) (z sdiv upper b)" for z
      using sdiv_between_divisor [of "lower b" y "upper b" z] assms nz by auto
    ultimately have "min_element ?c \<le> x sdiv y \<and> x sdiv y \<le> max_element ?c"
      using corners [of "(sdiv)" "lower a" "upper a" x "lower b" "upper b" y] by simp
    then show ?thesis using ok by (simp add: req)
  qed
  then show "range_ok r" "in64 (x sdiv y) \<longrightarrow> x sdiv y \<in> gam r" by auto
qed

lemma smod_bounds:
  fixes x y :: int
  assumes "y \<noteq> 0"
  shows "\<bar>x smod y\<bar> < \<bar>y\<bar>" "0 \<le> x \<Longrightarrow> 0 \<le> x smod y \<and> x smod y \<le> x"
proof -
  have "0 \<le> \<bar>x\<bar> mod \<bar>y\<bar>" "\<bar>x\<bar> mod \<bar>y\<bar> < \<bar>y\<bar>" using assms by simp_all
  then show "\<bar>x smod y\<bar> < \<bar>y\<bar>" by (auto simp: signed_modulo_int_def abs_mult abs_sgn_eq)
  show "0 \<le> x smod y \<and> x smod y \<le> x" if "0 \<le> x"
    using that assms zmod_le_nonneg_dividend [of x "\<bar>y\<bar>"]
    by (cases "x = 0") (auto simp: signed_modulo_int_def)
qed

lemma cabs_eq: "in64 a \<Longrightarrow> cabs a = (if a = rNINF then None else Some \<bar>a\<bar>)"
  by (auto simp: cabs_def chk_def in64_def bounds_defs)

lemma range_mod_None:
  assumes "range_ok a" "range_ok b" "\<not> isBottom a" "\<not> isBottom b"
  shows "range_mod a b = None \<longleftrightarrow> (0 < lower b \<or> upper b < 0) \<and>
    (if isConstant a \<and> isConstant b then lower a = rNINF \<and> lower b = - 1 else lower b = rNINF)"
proof (cases "lower b \<le> 0 \<and> upper b \<ge> 0")
  case True
  then show ?thesis using assms by (auto simp: range_mod_def)
next
  case False
  have ub: "upper b = rNINF \<longrightarrow> lower b = rNINF"
    using assms(2,4) by (auto simp: isBottom_def range_ok_def in64_def)
  have nz: "lower b \<noteq> 0" "0 < lower b \<or> upper b < 0" using False assms(4) by (auto simp: isBottom_def)
  have c: "crem (lower a) (lower b) = (if lower a = rNINF \<and> lower b = - 1 then None else Some (lower a smod lower b))"
    using assms nz by (intro crem_eq) (auto simp: range_ok_def)
  have d: "cabs (lower b) = (if lower b = rNINF then None else Some \<bar>lower b\<bar>)"
    "cabs (upper b) = (if upper b = rNINF then None else Some \<bar>upper b\<bar>)"
    using assms(2) by (simp_all add: cabs_eq range_ok_def)
  show ?thesis
  proof (cases "lower b = rNINF")
    case True
    then have "rNINF \<noteq> - 1" "cabs rNINF = None" using d by (auto simp: bounds_defs)
    then show ?thesis using False assms True nz c [unfolded True] by (auto simp: range_mod_def)
  next
    case nl: False
    have "cabs (- 1) = Some 1" by (simp add: cabs_def chk_def bounds_defs)
    then show ?thesis
      using False assms nl nz ub by (auto simp: range_mod_def c d)
  qed
qed

lemma range_mod_sound:
  assumes "range_ok a" "range_ok b" "x \<in> gam a" "y \<in> gam b" "y \<noteq> 0"
    and r: "range_mod a b = Some r"
  shows "range_ok r" "x smod y \<in> gam r"
proof -
  have nb: "\<not> isBottom a" "\<not> isBottom b" using assms gam_nonbottom by blast+
  note nn = range_mod_None [OF assms(1,2) nb]
  note sm = smod_bounds [OF assms(5), of x]
  have "\<bar>y\<bar> \<le> \<bar>rNINF\<bar>" using assms(2,4) by (auto simp: range_ok_def in64_def bounds_defs)
  then have i64: "in64 (x smod y)" using sm(1) by (auto simp: in64_def bounds_defs)
  have "range_ok r \<and> x smod y \<in> gam r"
  proof (cases "lower b \<le> 0 \<and> upper b \<ge> 0")
    case True
    then show ?thesis using r nb i64 by (auto simp: range_mod_def in64_def)
  next
    case False
    have nz: "lower b \<noteq> 0" "0 < lower b \<or> upper b < 0" using False nb(2) by (auto simp: isBottom_def)
    show ?thesis
    proof (cases "isConstant a \<and> isConstant b")
      case True
      then have "x = lower a" "y = lower b" using assms(3,4) by (auto simp: isConstant_def)
      then show ?thesis
        using r nb False True nz i64 assms(1)
        by (auto simp: range_mod_def crem_eq range_ok_def split: if_splits)
    next
      case nc: False
      then have nl: "lower b \<noteq> rNINF" using nn r nz by auto
      have "upper b \<noteq> rNINF" using nl assms(2) nb(2) by (auto simp: isBottom_def range_ok_def in64_def)
      then have ab: "cabs (lower b) = Some \<bar>lower b\<bar>" "cabs (upper b) = Some \<bar>upper b\<bar>"
        using nl assms(2) by (simp_all add: cabs_eq range_ok_def)
      have yb: "\<bar>y\<bar> \<le> max \<bar>lower b\<bar> \<bar>upper b\<bar>" using assms(4) by auto
      have lb: "in64 \<bar>lower b\<bar>" "in64 \<bar>upper b\<bar>" "\<bar>lower b\<bar> > 0" using ab nz by (auto simp: cabs_def)
      show ?thesis
      proof (cases "isConstant b")
        case True
        then have "y = lower b" using assms(4) by (auto simp: isConstant_def)
        then show ?thesis
          using r nb False nc True ab sm lb assms(1,3) 
          by (auto simp: range_mod_def range_ok_def in64_def bounds_defs split: if_splits)
      next
        case cb: False
        let ?m = "max \<bar>lower b\<bar> \<bar>upper b\<bar>"
        have "r = mk_range (- ?m + 1) (?m - 1)"
          using r nb False nc cb ab by (auto simp: range_mod_def)
        moreover have "in64 ?m" "0 < ?m" using lb by (auto simp: max_def)
        moreover have "- ?m + 1 \<le> x smod y \<and> x smod y \<le> ?m - 1" using sm(1) yb by linarith
        moreover have "in64 (- ?m + 1) \<and> in64 (?m - 1)" if "in64 ?m" "0 < ?m"
          using that by (auto simp: in64_def bounds_defs)
        ultimately show ?thesis by (simp add: range_ok_def)
      qed
    qed
  qed
  then show "range_ok r" "x smod y \<in> gam r" by auto
qed

section \<open>Bitwise operations and shifts\<close>

lemma and_nonneg_le: "0 \<le> (x :: int) \<Longrightarrow> 0 \<le> x AND y \<and> x AND y \<le> x"
  by (simp add: AND_upper1)

lemma nonneg_and_le: "0 \<le> (y :: int) \<Longrightarrow> 0 \<le> x AND y \<and> x AND y \<le> y"
  by (simp add: AND_upper2)

lemma in64_bits: "in64 x \<longleftrightarrow> (\<exists>w :: u64. x = sint w)"
proof
  assume "in64 x"
  then have "sint (word_of_int x :: u64) = x"
    by (simp add: sint_sbintrunc' signed_take_bit_int_eq_self in64_def bounds_defs)
  then show "\<exists>w :: u64. x = sint w" by metis
next
  assume "\<exists>w :: u64. x = sint w"
  then obtain w :: u64 where "x = sint w" by blast
  then show "in64 x" using sint_ge [of w] sint_lt [of w] by (simp add: in64_def bounds_defs)
qed

lemma in64_ops:
  assumes "in64 x" "in64 y" shows "in64 (x AND y)" "in64 (x OR y)" "in64 (x XOR y)"
proof -
  obtain v w :: u64 where vw: "x = sint v" "y = sint w" using assms by (auto simp: in64_bits)
  show "in64 (x AND y)" unfolding in64_bits vw by (metis signed_and_eq)
  show "in64 (x OR y)" unfolding in64_bits vw by (metis signed_or_eq)
  show "in64 (x XOR y)" unfolding in64_bits vw by (metis signed_xor_eq)
qed

lemma uint_pow2: "k < 64 \<Longrightarrow> uint (2 ^ k :: u64) = 2 ^ k"
  by transfer (simp add: take_bit_int_eq_self)

lemma sint_pow2_minus: "n \<le> 63 \<Longrightarrow> sint (2 ^ n - 1 :: u64) = 2 ^ n - 1"
proof -
  assume "n \<le> 63"
  then have "sint (mask n :: u64) = mask n" by (intro bit_eqI) (auto simp: bit_simps)
  then show ?thesis by (simp add: mask_eq_exp_minus_1)
qed

lemma msb_loop_powers:
  assumes m: "uint m < 2 ^ 63" and "k \<le> 63" "k = 0 \<or> 2 ^ (k - 1) \<le> uint m"
  shows "\<exists>n\<le>63. msb_loop m (2 ^ k) = Some (2 ^ n) \<and> uint m < 2 ^ n \<and> (n = 0 \<or> 2 ^ (n - 1) \<le> uint m)"
  using assms(2,3)
proof (induction "63 - k" arbitrary: k)
  case 0
  then have "k = 63" by simp
  moreover have "\<not> (2 ^ 63 :: u64) \<le> m" using m by (simp add: word_le_def)
  ultimately show ?case using m 0 by (subst msb_loop.simps) auto
next
  case (Suc d)
  have u: "uint (2 ^ k :: u64) = 2 ^ k" using Suc.prems by (intro uint_pow2) simp
  show ?case
  proof (cases "2 ^ k \<le> uint m")
    case True
    then have "msb_loop m (2 ^ k) = msb_loop m (2 ^ Suc k)"
      by (subst msb_loop.simps) (simp add: word_le_def u push_bit_eq_mult mult.commute)
    moreover have "Suc k \<le> 63" using Suc by simp
    ultimately show ?thesis using Suc.hyps(1) [of "Suc k"] Suc.hyps(2) True by (simp del: power_Suc)
  next
    case False
    then have "msb_loop m (2 ^ k) = Some (2 ^ k)"
      by (subst msb_loop.simps) (simp add: word_le_def u)
    then show ?thesis using Suc.prems False by auto
  qed
qed

lemma msb_loop_bound:
  assumes "0 \<le> m" "m \<le> rINF"
  shows "\<exists>n\<le>63. msb_loop (word_of_int m) 1 = Some (2 ^ n) \<and> m < 2 ^ n \<and> (n = 0 \<or> 2 ^ (n - 1) \<le> m)
    \<and> sint (2 ^ n - 1 :: u64) = 2 ^ n - 1"
proof -
  have "uint (word_of_int m :: u64) = m"
    using assms by (simp add: word_of_int_inverse bounds_defs)
  then show ?thesis
    using msb_loop_powers [of "word_of_int m" 0] assms sint_pow2_minus by (fastforce simp: bounds_defs)
qed

lemma in64_mask: "n \<le> 63 \<Longrightarrow> in64 (2 ^ n - 1)"
proof -
  assume "n \<le> 63"
  then have "(2 :: int) ^ n \<le> 2 ^ 63" by (intro power_increasing) auto
  then show ?thesis by (intro in64I) simp_all
qed

lemma bit_and_sound:
  assumes "range_ok a" "range_ok b" "x \<in> gam a" "y \<in> gam b"
  shows "range_ok (bit_and a b)" "x AND y \<in> gam (bit_and a b)"
proof -
  have nb: "\<not> isBottom a" "\<not> isBottom b" using assms gam_nonbottom by blast+
  have i: "in64 x" "in64 y" using assms gam_in64 by blast+
  then have xy: "in64 (x AND y)" by (rule in64_ops)
  show "range_ok (bit_and a b)"
    using assms(1,2) nb in64_ops by (auto simp: bit_and_def range_ok_def min_def)
  show "x AND y \<in> gam (bit_and a b)"
    using assms(3,4) nb xy and_nonneg_le [of x y] nonneg_and_le [of y x]
    by (auto simp: bit_and_def isConstant_def in64_def)
qed

lemma nonneg_or_xor:
  assumes "0 \<le> x" "0 \<le> y" "x < 2 ^ n" "y < (2 :: int) ^ n"
  shows "max x y \<le> x OR y" "x OR y < 2 ^ n" "0 \<le> x XOR y" "x XOR y < 2 ^ n"
proof -
  show "max x y \<le> x OR y"
    using assms(1,2) or_greater_eq [of y x] or_greater_eq [of x y] by (simp add: or.commute)
qed (use assms in \<open>auto intro: OR_upper XOR_upper\<close>)

lemma bit_or_sound:
  assumes "range_ok a" "range_ok b" "x \<in> gam a" "y \<in> gam b"
  shows "\<exists>r. bit_or a b = Some r \<and> range_ok r \<and> x OR y \<in> gam r"
    and "\<exists>r. bit_xor a b = Some r \<and> range_ok r \<and> x XOR y \<in> gam r"
proof -
  have nb: "\<not> isBottom a" "\<not> isBottom b" using assms gam_nonbottom by blast+
  have i: "in64 x" "in64 y" using assms gam_in64 by blast+
  then have xy: "in64 (x OR y)" "in64 (x XOR y)" by (simp_all add: in64_ops)
  have "(\<exists>r. bit_or a b = Some r \<and> range_ok r \<and> x OR y \<in> gam r)
    \<and> (\<exists>r. bit_xor a b = Some r \<and> range_ok r \<and> x XOR y \<in> gam r)"
  proof (cases "isConstant a \<and> isConstant b")
    case True
    then have "x = lower a" "y = lower b" using assms(3,4) by (auto simp: isConstant_def)
    then show ?thesis using True nb xy by (simp add: bit_or_def bit_xor_def range_ok_def)
  next
    case nc: False
    show ?thesis
    proof (cases "lower a \<ge> 0 \<and> lower b \<ge> 0")
      case False
      then show ?thesis using nc nb xy by (auto simp: bit_or_def bit_xor_def in64_def)
    next
      case True
      have m: "0 \<le> max (upper a) (upper b)" "max (upper a) (upper b) \<le> rINF"
        using assms True by (auto simp: range_ok_def in64_def)
      obtain n where n: "n \<le> 63" "max (upper a) (upper b) < 2 ^ n"
        "msb_loop (word_of_int (max (upper a) (upper b))) 1 = Some (2 ^ n)"
        "sint (2 ^ n - 1 :: u64) = 2 ^ n - 1"
        using msb_loop_bound [OF m] by blast
      have ok: "in64 (2 ^ n - 1)" "in64 (max (lower a) (lower b))"
        using n(1) assms(1,2) in64_mask by (auto simp: range_ok_def max_def)
      have b: "0 \<le> x" "0 \<le> y" "x < 2 ^ n" "y < 2 ^ n" "max (lower a) (lower b) \<le> max x y"
        using assms(3,4) True n(2) by auto
      note o = nonneg_or_xor [OF b(1-4)]
      have "x XOR y = 0" if "max (upper a) (upper b) = 0"
        using that b assms(3,4) by (simp add: max_def split: if_splits)
      then show ?thesis
        using n(3,4) nc True nb ok b(5) o by (auto simp: bit_or_def bit_xor_def range_ok_def)
    qed
  qed
  then show "\<exists>r. bit_or a b = Some r \<and> range_ok r \<and> x OR y \<in> gam r"
    and "\<exists>r. bit_xor a b = Some r \<and> range_ok r \<and> x XOR y \<in> gam r" by auto
qed

lemma drop_bit_mono: "x \<le> u \<Longrightarrow> drop_bit k x \<le> drop_bit k (u :: int)"
  by (simp add: drop_bit_eq_div zdiv_mono1)

lemma drop_bit_antimono: "0 \<le> (x :: int) \<Longrightarrow> m \<le> n \<Longrightarrow> drop_bit n x \<le> drop_bit m x"
  by (simp add: drop_bit_eq_div zdiv_mono2)

lemma drop_bit_sign:
  assumes "in64 x" "63 \<le> n" shows "drop_bit n x = (if x < 0 then - 1 else 0)"
proof -
  have "(2 :: int) ^ 63 \<le> 2 ^ n" using assms(2) by (intro power_increasing) auto
  then have "- (2 ^ n) \<le> x" "x < 2 ^ n" using assms(1) by (auto simp: in64_def bounds_defs)
  then show ?thesis
    by (auto simp: drop_bit_eq_div div_pos_pos_trivial zdiv_eq_0_iff intro: int_div_pos_eq [of _ _ _ "x + 2 ^ n"])
qed

lemma drop_bit_in64:
  assumes "in64 x" shows "in64 (drop_bit n x)"
proof (cases "0 \<le> x")
  case True
  then have "0 \<le> drop_bit n x" "drop_bit n x \<le> x" using drop_bit_antimono [of x 0 n] by simp_all
  then show ?thesis using assms NINF_lt_INF(3) unfolding in64_def by linarith
next
  case False
  then have neg: "drop_bit n x < 0" by simp
  have "x div 1 \<le> x div 2 ^ n" using False by (intro zdiv_mono2_neg) auto
  then have "x \<le> drop_bit n x" by (simp add: drop_bit_eq_div)
  then show ?thesis using neg assms NINF_lt_INF(4) unfolding in64_def by linarith
qed

lemma shift_right_between:
  assumes "in64 l" "in64 u" "l \<le> x" "x \<le> u" "0 \<le> m" "m \<le> y" "y \<le> n" "0 \<le> l \<or> m = n"
  shows "drop_bit (nat (min n 63)) l \<le> drop_bit (nat y) x \<and> drop_bit (nat y) x \<le> drop_bit (nat (min m 63)) u"
proof -
  have "in64 x" using assms by (auto simp: in64_def)
  then have sx: "drop_bit (nat y) x = drop_bit (nat (min y 63)) x"
    using drop_bit_sign [of x] by (cases "y \<le> 63") auto
  show ?thesis
  proof (cases "m = n")
    case True
    then show ?thesis using sx assms drop_bit_mono by auto
  next
    case False
    then have l0: "0 \<le> l" using assms by simp
    have "nat (min y 63) \<le> nat (min n 63)" "nat (min m 63) \<le> nat (min y 63)" using assms by auto
    then have "drop_bit (nat (min n 63)) l \<le> drop_bit (nat (min y 63)) l"
      "drop_bit (nat (min y 63)) u \<le> drop_bit (nat (min m 63)) u"
      using l0 assms drop_bit_antimono by auto
    then show ?thesis using sx drop_bit_mono [OF assms(3)] drop_bit_mono [OF assms(4)] order_trans by metis
  qed
qed

lemma range_ashr_sound:
  assumes "range_ok a" "range_ok b" "x \<in> gam a" "y \<in> gam b" "0 \<le> y" "0 \<le> lower a \<or> isConstant b"
  shows "range_ok (range_ashr a b)" "drop_bit (nat y) x \<in> gam (range_ashr a b)"
proof -
  have nb: "\<not> isBottom a" "\<not> isBottom b" using assms gam_nonbottom by blast+
  show "range_ok (range_ashr a b)"
    using nb assms(1,2) by (auto simp: range_ashr_def range_ok_def Let_def drop_bit_in64)
  have "in64 (drop_bit (nat y) x)" using gam_in64 [OF assms(1,3)] by (rule drop_bit_in64)
  then show "drop_bit (nat y) x \<in> gam (range_ashr a b)"
    using nb assms shift_right_between [of "lower a" "upper a" x "lower b" y "upper b"]
    by (auto simp: range_ashr_def Let_def in64_def range_ok_def isConstant_def)
qed

lemma range_lshr_sound:
  assumes "range_ok a" "range_ok b" "x \<in> gam a" "y \<in> gam b" "0 \<le> x" "0 \<le> y"
  shows "range_ok (range_lshr a b)" "drop_bit (nat y) x \<in> gam (range_lshr a b)"
proof -
  have nb: "\<not> isBottom a" "\<not> isBottom b" using assms gam_nonbottom by blast+
  have "in64 (drop_bit (nat y) x)" using gam_in64 [OF assms(1,3)] by (rule drop_bit_in64)
  moreover have eq: "range_lshr a b = (if lower a < 0 then TOP else range_ashr a b)"
    using nb by (auto simp: range_lshr_def range_ashr_def)
  ultimately show "range_ok (range_lshr a b)" "drop_bit (nat y) x \<in> gam (range_lshr a b)"
    using range_ashr_sound [OF assms(1-4,6)] by (auto simp: in64_def)
qed

lemma shl_corner:
  fixes l x u m y n :: int
  assumes "l \<le> x" "x \<le> u" "0 \<le> m" "m \<le> y" "y \<le> n"
  shows "l * 2 ^ nat (if l \<ge> 0 then m else n) \<le> x * 2 ^ nat y"
    and "x * 2 ^ nat y \<le> u * 2 ^ nat (if u \<ge> 0 then n else m)"
proof -
  have p: "(2 :: int) ^ nat m \<le> 2 ^ nat y" "(2 :: int) ^ nat y \<le> 2 ^ nat n"
    using assms by (auto intro!: power_increasing)
  have x: "l * 2 ^ nat y \<le> x * 2 ^ nat y" "x * 2 ^ nat y \<le> u * 2 ^ nat y"
    using assms by (simp_all add: mult_right_mono)
  show "l * 2 ^ nat (if l \<ge> 0 then m else n) \<le> x * 2 ^ nat y"
  proof (rule order_trans [OF _ x(1)])
    show "l * 2 ^ nat (if l \<ge> 0 then m else n) \<le> l * 2 ^ nat y"
      using p by (auto intro: mult_left_mono mult_left_mono_neg)
  qed
  show "x * 2 ^ nat y \<le> u * 2 ^ nat (if u \<ge> 0 then n else m)"
  proof (rule order_trans [OF x(2)])
    show "u * 2 ^ nat y \<le> u * 2 ^ nat (if u \<ge> 0 then n else m)"
      using p by (auto intro: mult_left_mono mult_left_mono_neg)
  qed
qed

lemma range_shl_sound:
  assumes "range_ok a" "range_ok b" "x \<in> gam a" "y \<in> gam b" "0 \<le> y"
  shows "\<exists>r. range_shl a b = Some r \<and> range_ok r \<and> (in64 (x * 2 ^ nat y) \<longrightarrow> x * 2 ^ nat y \<in> gam r)"
proof -
  have nb: "\<not> isBottom a" "\<not> isBottom b" using assms gam_nonbottom by blast+
  show ?thesis
  proof (cases "lower b < 0 \<or> upper b \<ge> 63")
    case True
    then show ?thesis using nb by (auto simp: range_shl_def in64_def)
  next
    case False
    have p: "shl_one k = Some (2 ^ nat k) \<and> in64 (2 ^ nat k)" if "k = lower b \<or> k = upper b" for k
    proof -
      have k: "0 \<le> k" "k \<le> 62" using that False nb(2) by (auto simp: isBottom_def)
      then have "(2 :: int) ^ nat k \<le> 2 ^ 62" by (intro power_increasing) auto
      then have "in64 (2 ^ nat k)" by (intro in64I) simp_all
      then show ?thesis using k by (simp add: shl_one_def)
    qed
    let ?l = "lower a * 2 ^ nat (if lower a \<ge> 0 then lower b else upper b)"
    let ?u = "upper a * 2 ^ nat (if upper a \<ge> 0 then upper b else lower b)"
    have "range_shl a b = Some (mk_range (sat ?l) (sat ?u))"
      using False nb p assms(1) by (auto simp: range_shl_def safeMul_sat range_ok_def)
    moreover have "?l \<le> x * 2 ^ nat y" "x * 2 ^ nat y \<le> ?u"
      using shl_corner [of "lower a" x "upper a" "lower b" y "upper b"] assms False by auto
    then have "sat ?l \<le> sat (x * 2 ^ nat y)" "sat (x * 2 ^ nat y) \<le> sat ?u" by (auto intro!: sat_mono)
    then have "in64 (x * 2 ^ nat y) \<longrightarrow> x * 2 ^ nat y \<in> gam (mk_range (sat ?l) (sat ?u))"
      using sat_id [of "x * 2 ^ nat y"] unfolding in_gam range_sel by metis
    moreover have "range_ok (mk_range (sat ?l) (sat ?u))" by (simp only: range_ok_def range_sel sat_in64 simp_thms)
    ultimately show ?thesis by blast
  qed
qed

section \<open>The interface of an interval domain\<close>

text \<open>What the range analysis relies on when it merges values: joins cover both operands
  and nothing avoidable, and repeated widening stops.\<close>

locale abstract_domain =
  fixes ok :: "'a \<Rightarrow> bool"
    and gamma :: "'a \<Rightarrow> int set"
    and join :: "'a \<Rightarrow> 'a \<Rightarrow> 'a"
    and bot :: 'a
    and top :: 'a
  assumes ok_join: "ok a \<Longrightarrow> ok b \<Longrightarrow> ok (join a b)"
    and ok_bot: "ok bot"
    and ok_top: "ok top"
    and join_upper: "gamma a \<union> gamma b \<subseteq> gamma (join a b)"
    and join_least: "gamma a \<noteq> {} \<Longrightarrow> gamma b \<noteq> {} \<Longrightarrow> gamma c \<noteq> {} \<Longrightarrow>
      gamma a \<subseteq> gamma c \<Longrightarrow> gamma b \<subseteq> gamma c \<Longrightarrow> gamma (join a b) \<subseteq> gamma c"
    and gamma_bot: "gamma bot = {}"
    and gamma_top: "ok a \<Longrightarrow> gamma a \<subseteq> gamma top"
begin

lemma join_cover: "x \<in> gamma a \<or> x \<in> gamma b \<Longrightarrow> x \<in> gamma (join a b)"
  using join_upper by blast

lemma foldl_join_ok: "ok a \<Longrightarrow> \<forall>r\<in>set rs. ok r \<Longrightarrow> ok (foldl join a rs)"
  by (induction rs arbitrary: a) (auto simp: ok_join)

lemma foldl_join_cover: "x \<in> gamma a \<or> (\<exists>r\<in>set rs. x \<in> gamma r) \<Longrightarrow> x \<in> gamma (foldl join a rs)"
  by (induction rs arbitrary: a) (auto intro: join_cover)

end

locale widening_domain = abstract_domain +
  fixes widen :: "'a \<Rightarrow> 'a \<Rightarrow> 'a"
    and weight :: "'a \<Rightarrow> nat"
  assumes ok_widen: "ok a \<Longrightarrow> ok b \<Longrightarrow> ok (widen a b)"
    and widen_upper: "ok a \<Longrightarrow> ok b \<Longrightarrow> gamma a \<union> gamma b \<subseteq> gamma (widen a b)"
    and widen_weight: "ok a \<Longrightarrow> ok b \<Longrightarrow> \<not> gamma b \<subseteq> gamma a \<Longrightarrow> weight (widen a b) < weight a"
begin

lemma widening_iteration_stops:
  assumes "\<And>a. ok a \<Longrightarrow> ok (f a)" "ok a"
  shows "\<exists>n\<le>weight a. let b = ((\<lambda>x. widen x (f x)) ^^ n) a
    in ok b \<and> gamma (f b) \<subseteq> gamma b \<and> gamma a \<subseteq> gamma b"
  using assms(2)
proof (induction "weight a" arbitrary: a rule: less_induct)
  case less
  show ?case
  proof (cases "gamma (f a) \<subseteq> gamma a")
    case True
    then have "let b = ((\<lambda>x. widen x (f x)) ^^ 0) a in ok b \<and> gamma (f b) \<subseteq> gamma b \<and> gamma a \<subseteq> gamma b"
      using less.prems by simp
    then show ?thesis by blast
  next
    case False
    let ?a = "widen a (f a)"
    have w: "weight ?a < weight a" "ok ?a" "gamma a \<subseteq> gamma ?a"
      using False less.prems assms(1) widen_weight ok_widen widen_upper by blast+
    then obtain n where n: "n \<le> weight ?a" "let b = ((\<lambda>x. widen x (f x)) ^^ n) ?a
        in ok b \<and> gamma (f b) \<subseteq> gamma b \<and> gamma ?a \<subseteq> gamma b"
      using less.hyps by blast
    have "((\<lambda>x. widen x (f x)) ^^ Suc n) a = ((\<lambda>x. widen x (f x)) ^^ n) ?a"
      by (simp add: funpow_Suc_right del: funpow.simps)
    then have "let b = ((\<lambda>x. widen x (f x)) ^^ Suc n) a
        in ok b \<and> gamma (f b) \<subseteq> gamma b \<and> gamma a \<subseteq> gamma b"
      using n(2) w(3) by (auto simp: Let_def simp del: funpow.simps)
    moreover have "Suc n \<le> weight a" using n(1) w(1) by simp
    ultimately show ?thesis by blast
  qed
qed

end

text \<open>The bounds of an interval that can still grow.\<close>

definition growth :: "range \<Rightarrow> nat" where
  "growth r = (if isBottom r then 3 else of_bool (lower r \<noteq> rNINF) + of_bool (upper r \<noteq> rINF))"

lemma range_join_gam: "gam a \<union> gam b \<subseteq> gam (range_join a b)"
  by (auto simp: range_join_def isBottom_def)

lemma gam_subset_iff: "\<not> isBottom a \<Longrightarrow> gam a \<subseteq> gam b \<longleftrightarrow> lower b \<le> lower a \<and> upper a \<le> upper b"
proof
  assume "\<not> isBottom a" "gam a \<subseteq> gam b"
  then have "lower a \<in> gam b" "upper a \<in> gam b" by (auto simp: isBottom_def subset_iff)
  then show "lower b \<le> lower a \<and> upper a \<le> upper b" by simp
qed (auto simp: subset_iff)

lemma range_join_least:
  "gam a \<noteq> {} \<Longrightarrow> gam b \<noteq> {} \<Longrightarrow> gam c \<noteq> {} \<Longrightarrow> gam a \<subseteq> gam c \<Longrightarrow> gam b \<subseteq> gam c \<Longrightarrow>
    gam (range_join a b) \<subseteq> gam c"
  unfolding isBottom_gam [symmetric] by (auto simp: gam_subset_iff range_join_def)

lemma range_join_ok: "range_ok a \<Longrightarrow> range_ok b \<Longrightarrow> range_ok (range_join a b)"
  by (auto simp: range_join_def range_ok_def min_def max_def)

lemma widening_ok: "range_ok a \<Longrightarrow> range_ok b \<Longrightarrow> range_ok (widening a b)"
  by (auto simp: widening_def range_ok_def)

lemma widening_upper: "range_ok a \<Longrightarrow> range_ok b \<Longrightarrow> gam a \<union> gam b \<subseteq> gam (widening a b)"
  by (auto simp: widening_def range_ok_def in64_def isBottom_def)

lemma widening_growth:
  assumes "range_ok a" "range_ok b" "\<not> gam b \<subseteq> gam a" shows "growth (widening a b) < growth a"
proof -
  have b: "\<not> isBottom b" using assms(3) by (auto simp: isBottom_gam)
  show ?thesis
  proof (cases "isBottom a")
    case True
    then show ?thesis using b by (auto simp: widening_def growth_def)
  next
    case False
    then have "lower b < lower a \<or> upper a < upper b" using assms(3) b by (auto simp: gam_subset_iff)
    moreover have "\<not> isBottom (widening a b)"
      using widening_upper [OF assms(1,2)] False by (auto simp: isBottom_gam)
    ultimately show ?thesis
      using False b assms(1,2) by (auto simp: widening_def growth_def range_ok_def in64_def)
  qed
qed

interpretation rng: widening_domain range_ok gam range_join BOTTOM TOP widening growth
proof unfold_locales
  fix a b c :: range
  show "range_ok a \<Longrightarrow> range_ok b \<Longrightarrow> range_ok (range_join a b)" by (rule range_join_ok)
  show "gam a \<union> gam b \<subseteq> gam (range_join a b)" by (rule range_join_gam)
  show "gam a \<noteq> {} \<Longrightarrow> gam b \<noteq> {} \<Longrightarrow> gam c \<noteq> {} \<Longrightarrow> gam a \<subseteq> gam c \<Longrightarrow> gam b \<subseteq> gam c \<Longrightarrow>
      gam (range_join a b) \<subseteq> gam c" by (rule range_join_least)
  show "gam BOTTOM = {}" by (simp flip: isBottom_gam)
  show "range_ok a \<Longrightarrow> gam a \<subseteq> gam TOP" by (auto simp: range_ok_def in64_def)
  show "range_ok a \<Longrightarrow> range_ok b \<Longrightarrow> range_ok (widening a b)" by (rule widening_ok)
  show "range_ok a \<Longrightarrow> range_ok b \<Longrightarrow> gam a \<union> gam b \<subseteq> gam (widening a b)" by (rule widening_upper)
  show "range_ok a \<Longrightarrow> range_ok b \<Longrightarrow> \<not> gam b \<subseteq> gam a \<Longrightarrow> growth (widening a b) < growth a"
    by (rule widening_growth)
qed simp_all

lemma range_meet_gam: "gam (range_meet a b) = gam a \<inter> gam b"
proof (cases "isBottom a \<or> isBottom b")
  case True
  then have "range_meet a b = BOTTOM" "gam a \<inter> gam b = {}"
    by (auto simp: range_meet_def isBottom_gam simp del: in_gam)
  then show ?thesis using rng.gamma_bot by simp
qed (auto simp: range_meet_def)

lemma range_meet_ok: "range_ok a \<Longrightarrow> range_ok b \<Longrightarrow> range_ok (range_meet a b)"
  by (auto simp: range_meet_def range_ok_def min_def max_def)

lemma range_select_sound:
  assumes "c \<in> gam cond" "c \<noteq> 0 \<Longrightarrow> x \<in> gam t" "c = 0 \<Longrightarrow> x \<in> gam f"
  shows "x \<in> gam (range_select cond t f)"
  using assms rng.join_cover [of x t f] unfolding range_select_def by (cases "c = 0") auto

lemma gam_single: "\<not> isBottom r \<Longrightarrow> lower r \<in> gam r \<and> upper r \<in> gam r"
  by (auto simp: isBottom_def)

lemma logical_not_sound_iff:
  assumes "\<not> isBottom r"
  shows "(\<forall>x\<in>gam r. of_bool (x = 0) \<in> gam (logical_not r)) \<longleftrightarrow> 0 \<notin> gam r \<or> isConstant r"
proof
  assume l: "\<forall>x\<in>gam r. of_bool (x = 0) \<in> gam (logical_not r)"
  show "0 \<notin> gam r \<or> isConstant r"
  proof (rule ccontr)
    assume "\<not> (0 \<notin> gam r \<or> isConstant r)"
    then have "lower r \<noteq> 0 \<or> upper r \<noteq> 0" "lower r \<le> 0" "0 \<le> upper r" "logical_not r = const_range 1"
      by (auto simp: isConstant_def logical_not_def)
    moreover have "of_bool (lower r = 0) \<in> gam (logical_not r)" "of_bool (upper r = 0) \<in> gam (logical_not r)"
      using l gam_single [OF assms] by blast+
    ultimately show False by (auto split: if_splits)
  qed
qed (use assms in \<open>auto simp: logical_not_def isConstant_def isBottom_def\<close>)

lemma logical_and_sound_iff:
  assumes "\<not> isBottom a" "\<not> isBottom b"
  shows "(\<forall>x\<in>gam a. \<forall>y\<in>gam b. of_bool (x \<noteq> 0 \<and> y \<noteq> 0) \<in> gam (logical_and a b)) \<longleftrightarrow>
    lower a = 0 \<or> lower b = 0 \<or> 0 \<notin> gam a \<and> 0 \<notin> gam b" (is "?s \<longleftrightarrow> ?r")
proof
  assume s: ?s
  show ?r
  proof (rule ccontr)
    assume n: "\<not> ?r"
    then have "logical_and a b = mk_range 1 1" by (auto simp: logical_and_def)
    moreover have "0 \<in> gam a \<or> 0 \<in> gam b" using n by blast
    ultimately show False using s gam_single [OF assms(1)] gam_single [OF assms(2)] by fastforce
  qed
qed (auto simp: logical_and_def)

lemma logical_or_sound_iff:
  assumes "\<not> isBottom a" "\<not> isBottom b"
  shows "(\<forall>x\<in>gam a. \<forall>y\<in>gam b. of_bool (x \<noteq> 0 \<or> y \<noteq> 0) \<in> gam (logical_or a b)) \<longleftrightarrow>
    lower a = 0 \<and> lower b = 0 \<or> 0 \<notin> gam a \<or> 0 \<notin> gam b" (is "?s \<longleftrightarrow> ?r")
proof
  assume s: ?s
  show ?r
  proof (rule ccontr)
    assume n: "\<not> ?r"
    then have "logical_or a b = mk_range 1 1" by (auto simp: logical_or_def)
    moreover have "0 \<in> gam a" "0 \<in> gam b" using n by blast+
    ultimately show False using s by fastforce
  qed
qed (auto simp: logical_or_def)

section \<open>Properties\<close>

text \<open>\<open>safeAdd\<close> and \<open>safeMul\<close> never overflow themselves, on any two 64-bit values, and
  return the exact sum or product clamped to \<open>[NINF, INF]\<close>.\<close>

theorem safe_arith_saturates:
  assumes "in64 a" "in64 b"
  shows "safeAdd a b = Some (sat (a + b)) \<and> safeMul a b = Some (sat (a * b))"
  using assms by (auto intro: safeAdd_sat safeMul_sat)

lemma safe_arith_witness:
  "safeAdd rINF 1 = Some rINF \<and> safeMul rNINF (- 1) = Some rINF"
  using safe_arith_saturates [of rINF 1] safe_arith_saturates [of rNINF "- 1"]
  by (simp_all add: in64_def sat_def bounds_defs)

text \<open>C32: Interval arithmetic. On intervals of 64-bit values \<open>add\<close> and \<open>mul\<close> always return an
  interval that covers the saturated result of every pair of members. \<open>sub\<close> and \<open>negate\<close> are
  undefined (signed overflow) exactly when the negated operand has \<open>NINF\<close> as its lower bound,
  which \<open>TOP\<close> has, and cover every result otherwise.\<close>

theorem range_arith_correct:
  assumes "range_ok a" "range_ok b" "x \<in> gam a" "y \<in> gam b"
  shows "(\<exists>r. range_add a b = Some r \<and> range_ok r \<and> sat (x + y) \<in> gam r)
    \<and> (\<exists>r. range_mul a b = Some r \<and> range_ok r \<and> sat (x * y) \<in> gam r)
    \<and> (range_sub a b = None \<longleftrightarrow> lower b = rNINF)
    \<and> (range_negate a = None \<longleftrightarrow> lower a = rNINF)
    \<and> (lower b \<noteq> rNINF \<longrightarrow> (\<exists>r. range_sub a b = Some r \<and> range_ok r \<and> sat (x - y) \<in> gam r))
    \<and> (lower a \<noteq> rNINF \<longrightarrow> (\<exists>r. range_negate a = Some r \<and> range_ok r \<and> - x \<in> gam r))"
proof -
  have "\<not> isBottom a" "\<not> isBottom b" using assms gam_nonbottom by blast+
  then show ?thesis
    using range_add_sound [OF assms] range_mul_sound [OF assms] range_sub_None [OF assms(1,2)]
      range_sub_sound [OF assms] range_negate_sound [OF assms(1,3)] by blast
qed

lemma range_arith_witness:
  "range_sub (mk_range 1 5) (mk_range 2 3) \<noteq> None \<and> range_sub (mk_range 1 5) TOP = None"
proof -
  have 1: "in64 1" "in64 2" "in64 3" "in64 5" by (simp_all add: in64_def bounds_defs)
  show ?thesis
    using range_arith_correct [of "mk_range 1 5" "mk_range 2 3" 4 2]
      range_arith_correct [of "mk_range 1 5" TOP 4 2] 1
    by (simp add: range_ok_def) (simp add: bounds_defs)
qed

text \<open>C33: Interval division and remainder. Both are undefined exactly in the cases named
  (\<open>NINF / -1\<close> at a corner; \<open>NINF % -1\<close>; the absolute value of \<open>NINF\<close>) and otherwise return
  an interval that holds the truncated quotient, or the remainder, of every pair of members
  with a non-zero divisor.\<close>

theorem range_division_correct:
  assumes "range_ok a" "range_ok b" "x \<in> gam a" "y \<in> gam b" "y \<noteq> 0"
  shows "(range_div a b = None \<longleftrightarrow> lower a = rNINF \<and> upper b = - 1)
    \<and> (\<forall>r. range_div a b = Some r \<longrightarrow> range_ok r \<and> (in64 (x sdiv y) \<longrightarrow> x sdiv y \<in> gam r))
    \<and> (range_mod a b = None \<longleftrightarrow> 0 \<notin> gam b \<and>
        (if isConstant a \<and> isConstant b then lower a = rNINF \<and> lower b = - 1 else lower b = rNINF))
    \<and> (\<forall>r. range_mod a b = Some r \<longrightarrow> range_ok r \<and> x smod y \<in> gam r)"
proof -
  have nb: "\<not> isBottom a" "\<not> isBottom b" using assms gam_nonbottom by blast+
  have z: "0 \<notin> gam b \<longleftrightarrow> 0 < lower b \<or> upper b < 0" by auto
  show ?thesis
    unfolding z using range_div_None [OF assms(1,2) nb] range_mod_None [OF assms(1,2) nb]
      range_div_sound [OF assms] range_mod_sound [OF assms] by blast
qed

lemma range_division_witness:
  "range_div (mk_range (- 7) 7) (mk_range 2 3) = Some (mk_range (- 3) 3) \<and> - 3 \<in> gam (mk_range (- 3) 3)"
proof -
  have 1: "in64 7" "in64 2" "in64 3" "in64 (- 7)" "in64 (- 3)" by (simp_all add: in64_def bounds_defs)
  have v: "range_div (mk_range (- 7) 7) (mk_range 2 3) = Some (mk_range (- 3) 3)"
    by (simp add: range_div_def isBottom_def cdiv_def chk_def bounds_defs signed_divide_int_def
        min_element_4 max_element_4)
  moreover have "(- 7) sdiv (2 :: int) = - 3" by (simp add: signed_divide_int_def)
  ultimately show ?thesis
    using range_division_correct [of "mk_range (- 7) 7" "mk_range 2 3" "- 7" 2] 1
    by (simp add: range_ok_def)
qed

text \<open>Bitwise operations and left shift never fail, the bit search of \<open>bit_or\<close> and
  \<open>bit_xor\<close> included, and cover every result; a left shift whose exact value does not fit 64
  bits is out of their contract.\<close>

theorem range_bits_correct:
  assumes "range_ok a" "range_ok b" "x \<in> gam a" "y \<in> gam b"
  shows "range_ok (bit_and a b) \<and> x AND y \<in> gam (bit_and a b)
    \<and> (\<exists>r. bit_or a b = Some r \<and> range_ok r \<and> x OR y \<in> gam r)
    \<and> (\<exists>r. bit_xor a b = Some r \<and> range_ok r \<and> x XOR y \<in> gam r)
    \<and> NOT x \<in> gam (bit_not a)
    \<and> (0 \<le> y \<longrightarrow> (\<exists>r. range_shl a b = Some r \<and> range_ok r \<and>
        (in64 (x * 2 ^ nat y) \<longrightarrow> x * 2 ^ nat y \<in> gam r)))"
proof -
  have "\<not> isBottom a" "in64 x" using assms gam_nonbottom gam_in64 by blast+
  then have "NOT x \<in> gam (bit_not a)"
    by (simp add: bit_not_def in64_def not_int_def bounds_defs)
  then show ?thesis
    using bit_and_sound [OF assms] bit_or_sound [OF assms] range_shl_sound [OF assms] by blast
qed

lemma range_bits_witness:
  "5 AND 15 \<in> gam (bit_and (mk_range 0 100) (mk_range 15 15))"
proof -
  have 1: "in64 100" "in64 15" by (simp_all add: in64_def bounds_defs)
  show ?thesis
    using range_bits_correct [of "mk_range 0 100" "mk_range 15 15" 5 15] 1
    by (simp add: range_ok_def)
qed

text \<open>Right shifts cover every result when the shifted interval has no negative member or
  the distance is constant. Otherwise \<open>ashr\<close> is wrong: it takes the lower bound at the
  greatest distance, which is the greatest value when the bound is negative, so that shifting
  \<open>-8\<close> by \<open>[0, 2]\<close> gives the empty interval \<open>[-2, -8]\<close>.\<close>

theorem range_shift_right_correct:
  assumes "range_ok a" "range_ok b" "x \<in> gam a" "y \<in> gam b" "0 \<le> y"
  shows "(0 \<le> lower a \<or> isConstant b \<longrightarrow> drop_bit (nat y) x \<in> gam (range_ashr a b))
    \<and> (0 \<le> x \<longrightarrow> drop_bit (nat y) x \<in> gam (range_lshr a b))
    \<and> range_ashr (mk_range (- 8) (- 8)) (mk_range 0 2) = mk_range (- 2) (- 8)
    \<and> isBottom (range_ashr (mk_range (- 8) (- 8)) (mk_range 0 2))"
proof -
  have "range_ashr (mk_range (- 8) (- 8)) (mk_range 0 2) = mk_range (- 2) (- 8)"
    by (simp add: range_ashr_def isBottom_def drop_bit_eq_div)
  then show ?thesis
    using range_ashr_sound [OF assms] range_lshr_sound [OF assms(1-4) _ assms(5)]
    by (auto simp: isBottom_def)
qed

lemma range_shift_right_witness: "10 \<in> gam (range_ashr (mk_range 20 40) (mk_range 1 2))"
proof -
  have "in64 20" "in64 40" "in64 1" "in64 2" by (simp_all add: in64_def bounds_defs)
  then show ?thesis
    using range_shift_right_correct [of "mk_range 20 40" "mk_range 1 2" 20 1]
    by (simp add: range_ok_def drop_bit_eq_div)
qed

text \<open>The lattice. \<open>join\<close> is the least interval that covers both operands, \<open>meet\<close> is
  exactly the intersection, \<open>select\<close> covers the chosen branch for every value of the
  condition, and every operation keeps the bounds in the 64-bit range.\<close>

theorem range_lattice_correct:
  assumes "range_ok a" "range_ok b"
  shows "range_ok (range_join a b) \<and> range_ok (range_meet a b) \<and> range_ok (widening a b)
    \<and> gam a \<union> gam b \<subseteq> gam (range_join a b)
    \<and> (gam a \<noteq> {} \<and> gam b \<noteq> {} \<and> gam a \<subseteq> gam c \<and> gam b \<subseteq> gam c \<longrightarrow> gam (range_join a b) \<subseteq> gam c)
    \<and> gam (range_meet a b) = gam a \<inter> gam b
    \<and> (\<forall>v\<in>gam cond. (if v \<noteq> 0 then gam a else gam b) \<subseteq> gam (range_select cond a b))"
proof -
  have "gam (range_join a b) \<subseteq> gam c" if "gam a \<noteq> {} \<and> gam b \<noteq> {} \<and> gam a \<subseteq> gam c \<and> gam b \<subseteq> gam c"
    using that rng.join_least [of a b c] by blast
  moreover have "(if v \<noteq> 0 then gam a else gam b) \<subseteq> gam (range_select cond a b)" if "v \<in> gam cond" for v
    using range_select_sound [OF that, of _ a b] by auto
  ultimately show ?thesis
    using range_join_ok [OF assms] range_meet_ok [OF assms] widening_ok [OF assms]
      range_meet_gam [of a b] rng.join_upper [of a b] by blast
qed

lemma range_lattice_witness: "gam (range_meet (mk_range 0 5) (mk_range 3 9)) = gam (mk_range 0 5) \<inter> gam (mk_range 3 9)"
proof -
  have "in64 3" "in64 5" "in64 9" by (simp_all add: in64_def bounds_defs)
  then show ?thesis
    using range_lattice_correct [of "mk_range 0 5" "mk_range 3 9"] by (simp add: range_ok_def)
qed

text \<open>C36: Widening terminates: iterating \<open>widening(x, f(x))\<close> from any interval with any
  transfer function reaches an interval that covers both the start and its own image in at
  most three steps.\<close>

theorem widening_terminates:
  assumes "\<And>a. range_ok a \<Longrightarrow> range_ok (f a)" "range_ok a"
  shows "\<exists>n\<le>3. let b = ((\<lambda>x. widening x (f x)) ^^ n) a
    in range_ok b \<and> gam (f b) \<subseteq> gam b \<and> gam a \<subseteq> gam b"
proof -
  have "growth a \<le> 3" by (simp add: growth_def)
  then show ?thesis using rng.widening_iteration_stops [of f a, OF assms] le_trans by blast
qed

lemma widening_witness:
  "\<exists>n\<le>3. let b = ((\<lambda>x. widening x (range_join x (mk_range 0 1))) ^^ n) (mk_range 0 0)
    in range_ok b \<and> gam (range_join b (mk_range 0 1)) \<subseteq> gam b \<and> gam (mk_range 0 0) \<subseteq> gam b"
proof -
  have "range_ok (mk_range 0 1)" "range_ok (mk_range 0 0)" by (simp_all add: range_ok_def)
  then show ?thesis
    using widening_terminates [of "\<lambda>x. range_join x (mk_range 0 1)" "mk_range 0 0"] range_join_ok by blast
qed

text \<open>Comparisons. On non-empty intervals \<open>le\<close>, \<open>eq\<close> and \<open>lt\<close> compare the intervals as
  sets (inclusion, equality, inclusion with both bounds strictly inside); they do not compare
  members, as the documentation of \<open>Range.h\<close> has it: the results on \<open>[0, 1]\<close>, \<open>[1, 2]\<close> and
  \<open>[0, 3]\<close> say true where members compare false.\<close>

theorem range_compare_correct:
  assumes "\<not> isBottom a" "\<not> isBottom b"
  shows "(range_le a b \<longleftrightarrow> gam a \<subseteq> gam b)
    \<and> (range_ge a b \<longleftrightarrow> gam b \<subseteq> gam a)
    \<and> (range_eq a b \<longleftrightarrow> gam a = gam b)
    \<and> (range_ne a b \<longleftrightarrow> gam a \<noteq> gam b)
    \<and> (range_lt a b \<longrightarrow> gam a \<subset> gam b)
    \<and> range_eq (mk_range 0 1) (mk_range 0 1)
    \<and> range_lt (mk_range 1 2) (mk_range 0 3) \<and> range_le (mk_range 1 2) (mk_range 0 3)"
proof -
  have le: "range_le r s \<longleftrightarrow> gam r \<subseteq> gam s" if "\<not> isBottom r" "\<not> isBottom s" for r s
    using that by (auto simp: range_le_def gam_subset_iff isTop_def)
  have eq: "range_eq a b \<longleftrightarrow> gam a = gam b"
    using assms by (auto simp: range_eq_def set_eq_subset gam_subset_iff isTop_def)
  have lt: "gam a \<subset> gam b" if "range_lt a b"
    using that assms by (auto simp: range_lt_def psubset_eq set_eq_subset gam_subset_iff split: if_splits)
  show ?thesis
    using le assms eq lt unfolding range_ge_def range_ne_def
    by (auto simp: range_eq_def range_lt_def range_le_def isBottom_def isTop_def bounds_defs simp del: in_gam)
qed

lemma range_compare_witness: "range_le (mk_range 1 2) (mk_range 0 3) \<longleftrightarrow> gam (mk_range 1 2) \<subseteq> gam (mk_range 0 3)"
  using range_compare_correct [of "mk_range 1 2" "mk_range 0 3"] by (simp add: isBottom_def)

text \<open>Logical operations, exactly. \<open>logical_not\<close> covers every outcome only when the operand
  excludes zero or is a constant; \<open>logical_and\<close> only when a lower bound is zero or neither
  operand holds zero; \<open>logical_or\<close> only when both lower bounds are zero or an operand excludes
  zero. In all other cases the result is the constant 1 and misses the outcome 0.\<close>

theorem logical_ops_exact:
  assumes "\<not> isBottom a" "\<not> isBottom b"
  shows "((\<forall>x\<in>gam a. of_bool (x = 0) \<in> gam (logical_not a)) \<longleftrightarrow> 0 \<notin> gam a \<or> isConstant a)
    \<and> ((\<forall>x\<in>gam a. \<forall>y\<in>gam b. of_bool (x \<noteq> 0 \<and> y \<noteq> 0) \<in> gam (logical_and a b)) \<longleftrightarrow>
        lower a = 0 \<or> lower b = 0 \<or> 0 \<notin> gam a \<and> 0 \<notin> gam b)
    \<and> ((\<forall>x\<in>gam a. \<forall>y\<in>gam b. of_bool (x \<noteq> 0 \<or> y \<noteq> 0) \<in> gam (logical_or a b)) \<longleftrightarrow>
        lower a = 0 \<and> lower b = 0 \<or> 0 \<notin> gam a \<or> 0 \<notin> gam b)"
  using logical_not_sound_iff [OF assms(1)] logical_and_sound_iff [OF assms]
    logical_or_sound_iff [OF assms] by blast

lemma logical_ops_witness:
  "\<not> (\<forall>x\<in>gam (mk_range 0 1). of_bool (x = 0) \<in> gam (logical_not (mk_range 0 1)))"
  using logical_ops_exact [of "mk_range 0 1" "mk_range 0 1"]
  by (simp add: isBottom_def isConstant_def del: in_gam) simp

end
