(* ===== verification/BofProgram.thy ===== *)
theory BofProgram
  imports BofRange
begin

text \<open>
  What the range analysis reads of the program under analysis, and the structural
  identity of its values.

  The statements are those of \<open>svf/include/SVFIR/SVFStatements.h\<close> that the analysis follows,
  the edges of \<open>svf/include/SVFIR/SVFVariables.h\<close> come by kind, and blocks, loops and dominance
  are those of \<open>SVFLoopAndDomInfo\<close> (\<open>svf/lib/SVFIR/SVFValue.cpp\<close>,
  \<open>svf/include/Util/SVFLoopAndDomInfo.h\<close>). Pointers to variables, blocks, functions and ICFG
  nodes are their numbers; \<open>None\<close> is the null pointer. The location tokens are
  \<open>RangeAnalysis::structToken\<close> and \<open>locationToken\<close> of \<open>svf/lib/BOF/RangeAnalysis.cpp\<close>. The
  facts that \<open>SaberSemanticRules::resolveRange\<close> finds for a value are a field of the program,
  since they are read from a project file.
\<close>

section \<open>Statements\<close>

datatype pedgek = Copy | Store | Load | Gep | Phi | Select | Cmp | BinaryOp | Branch

datatype svf_stmt =
    CopyStmt nat nat
  | StoreStmt nat nat "nat option"
  | LoadStmt nat nat "nat option"
  | GepStmt nat nat "nat list"
  | PhiStmt nat "nat list"
  | SelectStmt nat nat nat nat
  | CmpStmt nat "nat list" nat
  | BinaryOPStmt nat "nat list" nat
  | BranchStmt "nat option" "(nat option \<times> int) list" "nat option"

text \<open>The arguments: the assignment statements have the right-hand side, the left-hand side
  and, where it is read, the ICFG node; \<open>GepStmt\<close> the index operands; the others their result
  and operands (\<open>SelectStmt\<close>: condition, true and false value; \<open>CmpStmt\<close> and \<open>BinaryOPStmt\<close>:
  operands and the predicate or opcode); \<open>BranchStmt\<close> the condition, the successors with
  their condition values, and the node.\<close>

text \<open>The opcodes that the analysis tells apart.\<close>

definition op_Add :: nat where "op_Add = 13"
definition op_Sub :: nat where "op_Sub = 15"
definition op_Mul :: nat where "op_Mul = 17"
definition op_UDiv :: nat where "op_UDiv = 19"
definition op_SDiv :: nat where "op_SDiv = 20"
definition op_URem :: nat where "op_URem = 22"
definition op_SRem :: nat where "op_SRem = 23"
definition op_Shl :: nat where "op_Shl = 25"
definition op_LShr :: nat where "op_LShr = 26"
definition op_AShr :: nat where "op_AShr = 27"
definition op_And :: nat where "op_And = 28"
definition op_Or :: nat where "op_Or = 29"
definition op_Xor :: nat where "op_Xor = 30"

lemmas opcode_defs = op_Add_def op_Sub_def op_Mul_def op_UDiv_def op_SDiv_def op_URem_def
  op_SRem_def op_Shl_def op_LShr_def op_AShr_def op_And_def op_Or_def op_Xor_def

section \<open>Functions: loops and dominance\<close>

record dom_info =
  reachableBBs :: "nat list"
  dtBBsMap :: "nat \<rightharpoonup> nat list"
  bb2LoopMap :: "nat \<rightharpoonup> nat list"

definition isUnreachable :: "dom_info \<Rightarrow> nat \<Rightarrow> bool" where
  "isUnreachable d bb = (bb \<notin> set (reachableBBs d))"

definition dominate :: "dom_info \<Rightarrow> nat \<Rightarrow> nat \<Rightarrow> bool" where
  "dominate d bbKey bbValue =
    (if bbKey = bbValue then True
     else if isUnreachable d bbValue then True
     else if isUnreachable d bbKey then False
     else case dtBBsMap d bbKey of None \<Rightarrow> False | Some dtBBs \<Rightarrow> bbValue \<in> set dtBBs)"

definition hasLoopInfo :: "dom_info \<Rightarrow> nat \<Rightarrow> bool" where
  "hasLoopInfo d bb = (bb2LoopMap d bb \<noteq> None)"

text \<open>\<open>None\<close> where the assertion of \<open>getLoopInfo\<close> fails.\<close>

definition getLoopInfo :: "dom_info \<Rightarrow> nat \<Rightarrow> nat list option" where
  "getLoopInfo d bb = bb2LoopMap d bb"

definition loopContainsBB :: "nat list \<Rightarrow> nat \<Rightarrow> bool" where
  "loopContainsBB lp bb = (bb \<in> set lp)"

record svfir =
  inEdgeMap :: "nat \<Rightarrow> pedgek \<Rightarrow> svf_stmt list"
  stmtSet :: "pedgek \<Rightarrow> svf_stmt list"
  constVal :: "nat \<Rightarrow> int option"
  nodeBB :: "nat \<Rightarrow> nat option"
  nodeFun :: "nat \<Rightarrow> nat option"
  loopAndDom :: "nat \<Rightarrow> dom_info"
  resolveRange :: "nat \<Rightarrow> nat option \<Rightarrow> (int \<times> int) option"

definition hasIncomingEdges :: "svfir \<Rightarrow> nat \<Rightarrow> pedgek \<Rightarrow> bool" where
  "hasIncomingEdges p x k = (inEdgeMap p x k \<noteq> [])"

section \<open>Checked casts\<close>

text \<open>\<open>dyn_cast\<close> to the statement class and the accessors the analysis uses on it.\<close>

fun as_copy :: "svf_stmt \<Rightarrow> nat option" where
  "as_copy (CopyStmt r l) = Some r"
| "as_copy _ = None"

fun as_store :: "svf_stmt \<Rightarrow> (nat \<times> nat \<times> nat option) option" where
  "as_store (StoreStmt r l n) = Some (r, l, n)"
| "as_store _ = None"

fun as_load :: "svf_stmt \<Rightarrow> (nat \<times> nat option) option" where
  "as_load (LoadStmt r l n) = Some (r, n)"
| "as_load _ = None"

fun as_gep :: "svf_stmt \<Rightarrow> (nat \<times> nat list) option" where
  "as_gep (GepStmt r l i) = Some (r, i)"
| "as_gep _ = None"

fun as_phi :: "svf_stmt \<Rightarrow> nat list option" where
  "as_phi (PhiStmt r ops) = Some ops"
| "as_phi _ = None"

fun as_select :: "svf_stmt \<Rightarrow> (nat \<times> nat \<times> nat) option" where
  "as_select (SelectStmt r c t f) = Some (c, t, f)"
| "as_select _ = None"

fun as_cmp :: "svf_stmt \<Rightarrow> (nat \<times> nat list \<times> nat) option" where
  "as_cmp (CmpStmt r ops pr) = Some (r, ops, pr)"
| "as_cmp _ = None"

fun as_binop :: "svf_stmt \<Rightarrow> (nat list \<times> nat) option" where
  "as_binop (BinaryOPStmt r ops oc) = Some (ops, oc)"
| "as_binop _ = None"

fun as_branch :: "svf_stmt \<Rightarrow> (nat option \<times> (nat option \<times> int) list \<times> nat option) option" where
  "as_branch (BranchStmt c succs n) = Some (c, succs, n)"
| "as_branch _ = None"

text \<open>The first edge of a range that passes the cast (a loop that ends with \<open>break\<close>).\<close>

primrec first_cast :: "(svf_stmt \<Rightarrow> 'a option) \<Rightarrow> svf_stmt list \<Rightarrow> 'a option" where
  "first_cast c [] = None"
| "first_cast c (e # es) = (case c e of Some a \<Rightarrow> Some a | None \<Rightarrow> first_cast c es)"

section \<open>Location tokens\<close>

definition MAX_AFFINE_DEPTH :: nat where
  "MAX_AFFINE_DEPTH = 60"

definition opaque_token :: "nat \<Rightarrow> string" where
  "opaque_token x = ''O'' @ to_string (int x)"

definition index_token :: "svfir \<Rightarrow> nat \<Rightarrow> string" where
  "index_token p i = (case constVal p i of
      Some c \<Rightarrow> to_string c @ '',''
    | None \<Rightarrow> ''v'' @ to_string (int i) @ '','')"

text \<open>\<open>structToken\<close> with \<open>n\<close> levels left before \<open>MAX_AFFINE_DEPTH\<close>; the set of visited values is
  passed by reference in the source and threaded here.\<close>

primrec structToken_at :: "svfir \<Rightarrow> nat \<Rightarrow> nat option \<Rightarrow> nat set \<Rightarrow> string \<times> nat set" where
  "structToken_at p 0 v vis = (case v of None \<Rightarrow> (''?'', vis) | Some x \<Rightarrow> (opaque_token x, vis))"
| "structToken_at p (Suc n) v vis = (case v of None \<Rightarrow> (''?'', vis) | Some x \<Rightarrow>
    if x \<in> vis then (opaque_token x, vis)
    else case constVal p x of Some c \<Rightarrow> (''C'' @ to_string c, vis)
    | None \<Rightarrow>
      let vis1 = insert x vis;
          tv = (if hasIncomingEdges p x Copy then
                  (case first_cast as_copy (inEdgeMap p x Copy) of
                     None \<Rightarrow> ([], vis1)
                   | Some r \<Rightarrow> structToken_at p n (Some r) vis1)
                else if hasIncomingEdges p x Gep then
                  (case first_cast as_gep (inEdgeMap p x Gep) of
                     None \<Rightarrow> ([], vis1)
                   | Some g \<Rightarrow>
                     let t = structToken_at p n (Some (fst g)) vis1
                     in (''G('' @ fst t @ '';'' @ concat (map (index_token p) (snd g)) @ '')'', snd t))
                else if hasIncomingEdges p x Load then
                  (case first_cast as_load (inEdgeMap p x Load) of
                     None \<Rightarrow> ([], vis1)
                   | Some l \<Rightarrow>
                     let t = structToken_at p n (Some (fst l)) vis1
                     in (''L('' @ fst t @ '')'', snd t))
                else ([], vis1))
      in (if fst tv = [] then opaque_token x else fst tv, snd tv - {x}))"

definition locationToken :: "svfir \<Rightarrow> nat \<Rightarrow> string" where
  "locationToken p x = fst (structToken_at p MAX_AFFINE_DEPTH (Some x) {})"

section \<open>Lemmas\<close>

lemma structToken_visited: "snd (structToken_at p n v vis) = vis"
proof (induction n arbitrary: v vis)
  case (Suc n)
  then show ?case
    by (auto simp: Let_def split: option.splits)
qed (simp split: option.splits)

lemma structToken_not_empty: "fst (structToken_at p n v vis) \<noteq> []"
  by (cases n) (auto simp: Let_def opaque_token_def split: option.splits)

lemma char_of_digit_inj: "m < 10 \<Longrightarrow> n < 10 \<Longrightarrow> (char_of (48 + m) = (char_of (48 + n) :: char)) = (m = (n :: nat))"
  by (simp add: char_of_eq_iff take_bit_eq_mod)

lemma dec_nat_not_empty: "dec_nat n \<noteq> []"
  by (subst dec_nat.simps) simp

lemma dec_nat_inj: "dec_nat m = dec_nat n \<Longrightarrow> m = n"
proof (induction m arbitrary: n rule: dec_nat.induct)
  case (1 m)
  have single: "length (dec_nat k) = 1 \<longleftrightarrow> k < 10" for k
    using dec_nat_not_empty [of "k div 10"] by (subst dec_nat.simps) auto
  show ?case
  proof (cases "m < 10")
    case True
    then have "n < 10" using 1(2) single by metis
    then show ?thesis
      using True 1(2) char_of_digit_inj [of m n] dec_nat.simps [of m] dec_nat.simps [of n] by simp
  next
    case False
    then have "\<not> n < 10" using 1(2) single by metis
    then have "dec_nat (m div 10) = dec_nat (n div 10)"
      "(char_of (48 + m mod 10) = (char_of (48 + n mod 10) :: char))"
      using 1(2) False dec_nat.simps [of m] dec_nat.simps [of n] by simp_all
    then have "m div 10 = n div 10" "m mod 10 = n mod 10"
      using 1(1) [OF False] char_of_digit_inj [of "m mod 10" "n mod 10"] by simp_all
    then show ?thesis by (metis mult_div_mod_eq)
  qed
qed

lemma opaque_token_inj [simp]: "opaque_token x = opaque_token y \<longleftrightarrow> x = y"
  by (auto simp: opaque_token_def to_string_def dest: dec_nat_inj)

text \<open>A value with no edge the tokens follow, such as an \<open>alloca\<close>.\<close>

definition opaque_value :: "svfir \<Rightarrow> nat \<Rightarrow> bool" where
  "opaque_value p x = (constVal p x = None \<and> inEdgeMap p x Copy = [] \<and> inEdgeMap p x Gep = []
    \<and> inEdgeMap p x Load = [])"

lemma opaque_value_token: "opaque_value p a \<Longrightarrow> fst (structToken_at p n (Some a) vis) = opaque_token a"
  by (cases n) (auto simp: opaque_value_def hasIncomingEdges_def Let_def)

lemma load_token:
  assumes "constVal p x = None" "inEdgeMap p x Copy = []" "inEdgeMap p x Gep = []"
    and "inEdgeMap p x Load = LoadStmt a l n # es"
  shows "locationToken p x = ''L('' @ fst (structToken_at p 59 (Some a) {x}) @ '')''"
proof -
  have "fst (structToken_at p (Suc k) (Some x) {}) = ''L('' @ fst (structToken_at p k (Some a) {x}) @ '')''" for k
    using assms by (simp add: hasIncomingEdges_def Let_def)
  from this [of 59] show ?thesis by (simp add: locationToken_def MAX_AFFINE_DEPTH_def)
qed

lemma locationToken_not_empty [simp]: "locationToken p x \<noteq> []"
  by (simp add: locationToken_def structToken_not_empty)

lemma dominate_refl [simp]: "dominate d b b"
  by (simp add: dominate_def)

section \<open>Properties\<close>

text \<open>Location tokens. Computing a token leaves the set of visited values as it was, and the
  token is never empty. At the address of an opaque slot, two loads have the same token exactly
  when they read the same slot, whatever SSA values the loads are.\<close>

theorem load_tokens_identify_slots:
  assumes "opaque_value p a" "opaque_value p b"
    and "constVal p x = None" "inEdgeMap p x Copy = []" "inEdgeMap p x Gep = []"
    and "constVal p y = None" "inEdgeMap p y Copy = []" "inEdgeMap p y Gep = []"
    and "inEdgeMap p x Load = [LoadStmt a x n]" "inEdgeMap p y Load = [LoadStmt b y m]"
  shows "(locationToken p x = locationToken p y \<longleftrightarrow> a = b)
    \<and> snd (structToken_at p k v vis) = vis \<and> fst (structToken_at p k v vis) \<noteq> []"
  using load_token [OF assms(3-5,9)] load_token [OF assms(6-8,10)] assms(1,2)
  by (simp add: opaque_value_token structToken_visited structToken_not_empty)

definition two_loads :: svfir where
  "two_loads = \<lparr>inEdgeMap = (\<lambda>x k. if k = Load \<and> x = 2 then [LoadStmt 1 2 None]
      else if k = Load \<and> x = 3 then [LoadStmt 1 3 None] else []),
    stmtSet = (\<lambda>_. []), constVal = Map.empty, nodeBB = Map.empty, nodeFun = Map.empty,
    loopAndDom = (\<lambda>_. \<lparr>reachableBBs = [], dtBBsMap = Map.empty, bb2LoopMap = Map.empty\<rparr>),
    resolveRange = (\<lambda>_ _. None)\<rparr>"

lemma load_tokens_witness: "locationToken two_loads 2 = locationToken two_loads 3"
  using load_tokens_identify_slots [of two_loads 1 1 2 3 None None]
  by (simp add: two_loads_def opaque_value_def)

end
