(* ===== verification/BofGuards.thy ===== *)
theory BofGuards
  imports BofProgram
begin

text \<open>
  The branch guards of \<open>svf/lib/BOF/RangeGuardNarrowing.cpp\<close>: the comparator algebra, the interval
  a guard implies for the compared value, and the index of guards and stores by location token
  that \<open>buildGuardIndex\<close> collects once from the program.
\<close>

section \<open>Comparators\<close>

definition decBound :: "int \<Rightarrow> int" where
  "decBound u = (if u \<le> rNINF + 1024 then u else u - 1)"

definition incBound :: "int \<Rightarrow> int" where
  "incBound l = (if l \<ge> rINF - 1024 then l else l + 1)"

datatype cmp = LT | LE | GT | GE | EQ | NE | UNK

definition ICMP_EQ :: nat where "ICMP_EQ = 32"
definition ICMP_NE :: nat where "ICMP_NE = 33"
definition ICMP_UGT :: nat where "ICMP_UGT = 34"
definition ICMP_UGE :: nat where "ICMP_UGE = 35"
definition ICMP_ULT :: nat where "ICMP_ULT = 36"
definition ICMP_ULE :: nat where "ICMP_ULE = 37"
definition ICMP_SGT :: nat where "ICMP_SGT = 38"
definition ICMP_SGE :: nat where "ICMP_SGE = 39"
definition ICMP_SLT :: nat where "ICMP_SLT = 40"
definition ICMP_SLE :: nat where "ICMP_SLE = 41"

lemmas icmp_defs = ICMP_EQ_def ICMP_NE_def ICMP_UGT_def ICMP_UGE_def ICMP_ULT_def ICMP_ULE_def
  ICMP_SGT_def ICMP_SGE_def ICMP_SLT_def ICMP_SLE_def

definition predToCmp :: "nat \<Rightarrow> cmp" where
  "predToCmp p =
    (if p = ICMP_SLT \<or> p = ICMP_ULT then LT
     else if p = ICMP_SLE \<or> p = ICMP_ULE then LE
     else if p = ICMP_SGT \<or> p = ICMP_UGT then GT
     else if p = ICMP_SGE \<or> p = ICMP_UGE then GE
     else if p = ICMP_EQ then EQ
     else if p = ICMP_NE then NE
     else UNK)"

fun swapCmp :: "cmp \<Rightarrow> cmp" where
  "swapCmp LT = GT"
| "swapCmp LE = GE"
| "swapCmp GT = LT"
| "swapCmp GE = LE"
| "swapCmp c = c"

fun negCmp :: "cmp \<Rightarrow> cmp" where
  "negCmp LT = GE"
| "negCmp LE = GT"
| "negCmp GT = LE"
| "negCmp GE = LT"
| "negCmp EQ = NE"
| "negCmp NE = EQ"
| "negCmp UNK = UNK"

definition evalGuardInterval :: "nat \<Rightarrow> bool \<Rightarrow> bool \<Rightarrow> range \<Rightarrow> range" where
  "evalGuardInterval pred idxIsOp0 condTrue bnd =
    (if isBottom bnd \<or> isTop bnd then TOP
     else let c = predToCmp pred in
       if c = UNK then TOP
       else let c1 = (if \<not> idxIsOp0 then swapCmp c else c);
                c2 = (if \<not> condTrue then negCmp c1 else c1);
                lo = lower bnd; up = upper bnd
            in case c2 of
                 LT \<Rightarrow> mk_range rNINF (decBound up)
               | LE \<Rightarrow> mk_range rNINF up
               | GT \<Rightarrow> mk_range (incBound lo) rINF
               | GE \<Rightarrow> mk_range lo rINF
               | EQ \<Rightarrow> mk_range lo up
               | _ \<Rightarrow> TOP)"

section \<open>The guard index\<close>

record guard_entry =
  g_predicate :: nat
  g_idxIsOp0 :: bool
  g_bndSide :: nat
  g_succBB :: nat
  g_branchBB :: nat
  g_condTrue :: bool
  g_fun :: nat

record store_entry =
  st_rhs :: nat
  st_node :: "nat option"

record guard_index =
  gi_guards :: "string \<rightharpoonup> guard_entry list"
  gi_stores :: "string \<rightharpoonup> store_entry list"

definition push_back :: "string \<Rightarrow> 'a \<Rightarrow> (string \<rightharpoonup> 'a list) \<Rightarrow> string \<rightharpoonup> 'a list" where
  "push_back k x m = m(k \<mapsto> (case m k of None \<Rightarrow> [] | Some xs \<Rightarrow> xs) @ [x])"

text \<open>The comparison behind a branch condition: the last one in the set whose result it is.\<close>

fun cmpByRes :: "svf_stmt list \<Rightarrow> (nat \<rightharpoonup> nat list \<times> nat) \<Rightarrow> nat \<rightharpoonup> nat list \<times> nat" where
  "cmpByRes [] m = m"
| "cmpByRes (s # ss) m = (case as_cmp s of
      None \<Rightarrow> cmpByRes ss m
    | Some (r, ops, pr) \<Rightarrow> cmpByRes ss (if length ops \<ge> 2 then m(r \<mapsto> (ops, pr)) else m))"

text \<open>The two entries of one successor of a branch.\<close>

definition guard_successor :: "svfir \<Rightarrow> nat list \<times> nat \<Rightarrow> nat \<Rightarrow> nat \<Rightarrow> nat option \<times> int \<Rightarrow>
    (string \<rightharpoonup> guard_entry list) \<Rightarrow> string \<rightharpoonup> guard_entry list" where
  "guard_successor p cm fn brBB succ m =
    (case Option.bind (fst succ) (nodeBB p) of
       None \<Rightarrow> m
     | Some sb \<Rightarrow>
         let op0 = fst cm ! 0; op1 = fst cm ! 1;
             t0 = locationToken p op0; t1 = locationToken p op1;
             condTrue = (snd succ \<noteq> 0);
             entry = (\<lambda>isOp0 bound. \<lparr>g_predicate = snd cm, g_idxIsOp0 = isOp0, g_bndSide = bound,
               g_succBB = sb, g_branchBB = brBB, g_condTrue = condTrue, g_fun = fn\<rparr>);
             m1 = (if t0 \<noteq> [] then push_back t0 (entry True op1) m else m)
         in if t1 \<noteq> [] \<and> t1 \<noteq> t0 then push_back t1 (entry False op0) m1 else m1)"

definition guard_branch :: "svfir \<Rightarrow> (nat \<rightharpoonup> nat list \<times> nat) \<Rightarrow> svf_stmt \<Rightarrow>
    (string \<rightharpoonup> guard_entry list) \<Rightarrow> string \<rightharpoonup> guard_entry list" where
  "guard_branch p cmps s m = (case as_branch s of
      None \<Rightarrow> m
    | Some (cond, succs, brNode) \<Rightarrow>
        (case Option.bind cond cmps of
           None \<Rightarrow> m
         | Some cm \<Rightarrow>
             (case (Option.bind brNode (nodeFun p), Option.bind brNode (nodeBB p)) of
                (Some fn, Some bb) \<Rightarrow> foldl (\<lambda>m succ. guard_successor p cm fn bb succ m) m succs
              | _ \<Rightarrow> m)))"

definition slot_store :: "svfir \<Rightarrow> svf_stmt \<Rightarrow> (string \<rightharpoonup> store_entry list) \<Rightarrow> string \<rightharpoonup> store_entry list" where
  "slot_store p s m = (case as_store s of
      None \<Rightarrow> m
    | Some (r, l, n) \<Rightarrow> if locationToken p l \<noteq> [] then push_back (locationToken p l) \<lparr>st_rhs = r, st_node = n\<rparr> m else m)"

definition collectGuards :: "svfir \<Rightarrow> guard_index" where
  "collectGuards p =
    \<lparr>gi_guards = foldl (\<lambda>m s. guard_branch p (cmpByRes (stmtSet p Cmp) Map.empty) s m) Map.empty (stmtSet p Branch),
     gi_stores = foldl (\<lambda>m s. slot_store p s m) Map.empty (stmtSet p Store)\<rparr>"

section \<open>The interval of a guard\<close>

text \<open>The meaning of a comparator, and of a predicate on signed values.\<close>

fun cmp_holds :: "cmp \<Rightarrow> int \<Rightarrow> int \<Rightarrow> bool" where
  "cmp_holds LT a b = (a < b)"
| "cmp_holds LE a b = (a \<le> b)"
| "cmp_holds GT a b = (a > b)"
| "cmp_holds GE a b = (a \<ge> b)"
| "cmp_holds EQ a b = (a = b)"
| "cmp_holds NE a b = (a \<noteq> b)"
| "cmp_holds UNK a b = True"

lemma swapCmp_holds: "cmp_holds (swapCmp c) b a = cmp_holds c a b"
  by (cases c) auto

lemma negCmp_holds: "c \<noteq> UNK \<Longrightarrow> cmp_holds (negCmp c) a b = (\<not> cmp_holds c a b)"
  by (cases c) auto

lemma swapCmp_UNK [simp]: "swapCmp c = UNK \<longleftrightarrow> c = UNK"
  by (cases c) auto

lemma decBound_upper: "in64 u \<Longrightarrow> x < u \<Longrightarrow> x \<le> decBound u"
  by (auto simp: decBound_def)

lemma incBound_lower: "in64 l \<Longrightarrow> l < x \<Longrightarrow> incBound l \<le> x"
  by (auto simp: incBound_def)

lemma dec_inc_in64: "in64 u \<Longrightarrow> in64 (decBound u)" "in64 u \<Longrightarrow> in64 (incBound u)"
  by (auto simp: decBound_def incBound_def in64_def bounds_defs)

text \<open>What a predicate of \<open>CmpStmt\<close> (\<open>svf/include/SVFIR/SVFStatements.h\<close>, lines 948 to 990) means
  for two 64-bit integers, given as signed values, by its number there: the unsigned predicates
  34 to 37 compare the values modulo \<open>2^64\<close>. Every other number (the predicates 0 to 15 on floats)
  is not a comparison of integers, \<open>None\<close>. This is independent of \<open>predToCmp\<close>.\<close>

definition icmp_truth :: "nat \<Rightarrow> int \<Rightarrow> int \<Rightarrow> bool option" where
  "icmp_truth pred a b =
    (if pred = 32 then Some (a = b)
     else if pred = 33 then Some (a \<noteq> b)
     else if pred = 34 then Some (a mod 2 ^ 64 > b mod 2 ^ 64)
     else if pred = 35 then Some (a mod 2 ^ 64 \<ge> b mod 2 ^ 64)
     else if pred = 36 then Some (a mod 2 ^ 64 < b mod 2 ^ 64)
     else if pred = 37 then Some (a mod 2 ^ 64 \<le> b mod 2 ^ 64)
     else if pred = 38 then Some (a > b)
     else if pred = 39 then Some (a \<ge> b)
     else if pred = 40 then Some (a < b)
     else if pred = 41 then Some (a \<le> b)
     else None)"

text \<open>The branch can take the edge with the truth value \<open>condTrue\<close> when the compared operand has the
  value \<open>idx\<close> and the other one \<open>b\<close>.\<close>

definition guard_truth :: "nat \<Rightarrow> bool \<Rightarrow> bool \<Rightarrow> int \<Rightarrow> int \<Rightarrow> bool" where
  "guard_truth pred idxIsOp0 condTrue idx b =
    (case icmp_truth pred (if idxIsOp0 then idx else b) (if idxIsOp0 then b else idx) of
       None \<Rightarrow> True | Some t \<Rightarrow> t = condTrue)"

definition unsigned_pred :: "nat \<Rightarrow> bool" where
  "unsigned_pred pred = (34 \<le> pred \<and> pred \<le> 37)"

lemma icmp_truth_cmp:
  assumes "in64 a" "in64 b" "unsigned_pred pred \<longrightarrow> 0 \<le> a \<and> 0 \<le> b"
  shows "icmp_truth pred a b = (if predToCmp pred = UNK then None else Some (cmp_holds (predToCmp pred) a b))"
proof -
  have "0 \<le> c \<and> in64 c \<Longrightarrow> c mod 2 ^ 64 = c" for c by (simp add: in64_def bounds_defs)
  then show ?thesis using assms
    by (simp add: icmp_truth_def predToCmp_def icmp_defs unsigned_pred_def)
qed

lemma guard_truth_cmp:
  assumes "in64 idx" "in64 b" "unsigned_pred pred \<longrightarrow> 0 \<le> idx \<and> 0 \<le> b" "predToCmp pred \<noteq> UNK"
  shows "guard_truth pred isOp0 condTrue idx b =
    (cmp_holds (predToCmp pred) (if isOp0 then idx else b) (if isOp0 then b else idx) = condTrue)"
  using assms by (simp add: guard_truth_def icmp_truth_cmp)

lemma evalGuardInterval_ok: "range_ok bnd \<Longrightarrow> range_ok (evalGuardInterval pred i c bnd)"
  by (auto simp: evalGuardInterval_def Let_def range_ok_def dec_inc_in64 split: cmp.split)

lemma evalGuardInterval_covers:
  assumes "range_ok bnd" "b \<in> gam bnd" "in64 idx" "guard_truth pred isOp0 condTrue idx b"
    and "unsigned_pred pred \<longrightarrow> 0 \<le> idx \<and> 0 \<le> b"
  shows "idx \<in> gam (evalGuardInterval pred isOp0 condTrue bnd)"
proof (cases "isTop bnd \<or> predToCmp pred = UNK")
  case True
  then show ?thesis using assms(3) by (auto simp: evalGuardInterval_def Let_def in64_def)
next
  case False
  let ?c = "let c = predToCmp pred; c1 = (if isOp0 then c else swapCmp c) in if condTrue then c1 else negCmp c1"
  have "cmp_holds ?c idx b"
    using assms(4) guard_truth_cmp [OF assms(3) gam_in64 [OF assms(1,2)] assms(5)] False
    by (auto simp: Let_def negCmp_holds swapCmp_holds split: if_splits)
  moreover have "evalGuardInterval pred isOp0 condTrue bnd = (case ?c of
                 LT \<Rightarrow> mk_range rNINF (decBound (upper bnd))
               | LE \<Rightarrow> mk_range rNINF (upper bnd)
               | GT \<Rightarrow> mk_range (incBound (lower bnd)) rINF
               | GE \<Rightarrow> mk_range (lower bnd) rINF
               | EQ \<Rightarrow> mk_range (lower bnd) (upper bnd)
               | _ \<Rightarrow> TOP)"
    using False gam_nonbottom [OF assms(2)] by (simp add: evalGuardInterval_def Let_def)
  ultimately show ?thesis
    using assms(1-3) decBound_upper [of "upper bnd" idx] incBound_lower [of "lower bnd" idx]
    by (cases ?c) (auto simp: in64_def range_ok_def)
qed

section \<open>What the index holds\<close>

text \<open>An entry under a token states a comparison that a branch of the program decides.\<close>

definition entry_from :: "svfir \<Rightarrow> string \<Rightarrow> guard_entry \<Rightarrow> bool" where
  "entry_from p tok g =
    (\<exists>r ops succs node k v.
      CmpStmt r ops (g_predicate g) \<in> set (stmtSet p Cmp) \<and> length ops \<ge> 2
      \<and> BranchStmt (Some r) succs (Some node) \<in> set (stmtSet p Branch)
      \<and> nodeFun p node = Some (g_fun g) \<and> nodeBB p node = Some (g_branchBB g)
      \<and> (Some k, v) \<in> set succs \<and> nodeBB p k = Some (g_succBB g) \<and> g_condTrue g = (v \<noteq> 0)
      \<and> (if g_idxIsOp0 g then tok = locationToken p (ops ! 0) \<and> g_bndSide g = ops ! 1
         else tok = locationToken p (ops ! 1) \<and> g_bndSide g = ops ! 0))"

definition store_from :: "svfir \<Rightarrow> string \<Rightarrow> store_entry \<Rightarrow> bool" where
  "store_from p tok e =
    (\<exists>l. StoreStmt (st_rhs e) l (st_node e) \<in> set (stmtSet p Store) \<and> tok = locationToken p l)"

definition all_entries :: "(string \<Rightarrow> 'a \<Rightarrow> bool) \<Rightarrow> (string \<rightharpoonup> 'a list) \<Rightarrow> bool" where
  "all_entries P m = (\<forall>tok es e. m tok = Some es \<longrightarrow> e \<in> set es \<longrightarrow> P tok e)"

lemma all_entries_empty [simp]: "all_entries P Map.empty"
  by (simp add: all_entries_def)

lemma all_entries_push: "all_entries P m \<Longrightarrow> P tok e \<Longrightarrow> all_entries P (push_back tok e m)"
  by (cases "m tok") (auto simp: all_entries_def push_back_def split: if_splits)

lemma all_entries_fold:
  "all_entries P m \<Longrightarrow> (\<And>x m. x \<in> set xs \<Longrightarrow> all_entries P m \<Longrightarrow> all_entries P (f m x)) \<Longrightarrow>
    all_entries P (foldl f m xs)"
  by (induction xs arbitrary: m) auto

lemma cmpByRes_from:
  assumes "cmpByRes ss m r = Some (ops, pr)"
    and "m r = Some (ops, pr) \<Longrightarrow> CmpStmt r ops pr \<in> S \<and> length ops \<ge> 2" "set ss \<subseteq> S"
  shows "CmpStmt r ops pr \<in> S \<and> length ops \<ge> 2"
  using assms
proof (induction ss arbitrary: m)
  case (Cons s ss)
  show ?case
  proof (cases s)
    case (CmpStmt r' ops' pr')
    let ?m = "if length ops' \<ge> 2 then m(r' \<mapsto> (ops', pr')) else m"
    have "cmpByRes ss ?m r = Some (ops, pr)" using Cons.prems(1) CmpStmt by simp
    moreover have "CmpStmt r ops pr \<in> S \<and> length ops \<ge> 2" if "?m r = Some (ops, pr)"
      using that Cons.prems(2,3) CmpStmt by (auto split: if_splits)
    ultimately show ?thesis using Cons.IH [of ?m] Cons.prems(3) by simp
  qed (use Cons in auto)
qed simp

lemma guard_branch_entries:
  assumes "s \<in> set (stmtSet p Branch)" "all_entries (entry_from p) m"
  shows "all_entries (entry_from p) (guard_branch p (cmpByRes (stmtSet p Cmp) Map.empty) s m)"
proof (cases s)
  case (BranchStmt cond succs brNode)
  let ?c = "cmpByRes (stmtSet p Cmp) Map.empty"
  show ?thesis
  proof (cases "\<exists>r cm node fn bb. cond = Some r \<and> ?c r = Some cm \<and> brNode = Some node
      \<and> nodeFun p node = Some fn \<and> nodeBB p node = Some bb")
    case False
    then have "guard_branch p ?c s m = m"
      using BranchStmt by (auto simp: guard_branch_def split: option.splits bind_splits)
    then show ?thesis using assms(2) by simp
  next
    case True
    then obtain r ops pr node fn bb where d: "cond = Some r" "?c r = Some (ops, pr)" "brNode = Some node"
      "nodeFun p node = Some fn" "nodeBB p node = Some bb" by auto
    have cm: "CmpStmt r ops pr \<in> set (stmtSet p Cmp)" "length ops \<ge> 2"
      using cmpByRes_from [OF d(2), of "set (stmtSet p Cmp)"] by auto
    have br: "BranchStmt (Some r) succs (Some node) \<in> set (stmtSet p Branch)"
      using assms(1) BranchStmt d(1,3) by simp
    have "all_entries (entry_from p) (guard_successor p (ops, pr) fn bb su m')"
      if su: "su \<in> set succs" and m': "all_entries (entry_from p) m'" for su m'
    proof (cases "Option.bind (fst su) (nodeBB p)")
      case None
      then show ?thesis using m' by (simp add: guard_successor_def)
    next
      case (Some sb)
      then obtain k v where k: "su = (Some k, v)" "nodeBB p k = Some sb"
        by (cases su) (auto simp: bind_eq_Some_conv)
      have e: "entry_from p tok g"
        if "g_predicate g = pr" "g_fun g = fn" "g_branchBB g = bb" "g_succBB g = sb" "g_condTrue g = (v \<noteq> 0)"
          "if g_idxIsOp0 g then tok = locationToken p (ops ! 0) \<and> g_bndSide g = ops ! 1
           else tok = locationToken p (ops ! 1) \<and> g_bndSide g = ops ! 0" for tok g
        unfolding entry_from_def using that cm br d(4,5) su k by blast
      show ?thesis
        using Some k m' by (simp add: guard_successor_def Let_def all_entries_push e)
    qed
    then have "all_entries (entry_from p) (foldl (\<lambda>m su. guard_successor p (ops, pr) fn bb su m) m succs)"
      using assms(2) by (intro all_entries_fold) auto
    then show ?thesis using BranchStmt d by (simp add: guard_branch_def)
  qed
qed (use assms in \<open>auto simp: guard_branch_def\<close>)

lemma slot_store_entries:
  assumes "s \<in> set (stmtSet p Store)" "all_entries (store_from p) m"
  shows "all_entries (store_from p) (slot_store p s m)"
proof (cases s)
  case (StoreStmt r l n)
  then have "store_from p (locationToken p l) \<lparr>st_rhs = r, st_node = n\<rparr>"
    using assms(1) by (auto simp: store_from_def)
  then show ?thesis using StoreStmt assms(2) by (simp add: slot_store_def all_entries_push)
qed (use assms(2) in \<open>auto simp: slot_store_def\<close>)

lemma collectGuards_entries:
  "all_entries (entry_from p) (gi_guards (collectGuards p))"
  "all_entries (store_from p) (gi_stores (collectGuards p))"
  unfolding collectGuards_def by (auto intro!: all_entries_fold guard_branch_entries slot_store_entries)

lemma slot_store_complete:
  "m tok = Some es \<Longrightarrow> e \<in> set es \<Longrightarrow> \<exists>es'. slot_store p s m tok = Some es' \<and> e \<in> set es'"
  by (cases s) (auto simp: slot_store_def push_back_def)

lemma fold_stores_keep:
  "m tok = Some es \<Longrightarrow> e \<in> set es \<Longrightarrow>
    \<exists>es'. foldl (\<lambda>m s. slot_store p s m) m ss tok = Some es' \<and> e \<in> set es'"
proof (induction ss arbitrary: m es)
  case (Cons s ss)
  then obtain es' where "slot_store p s m tok = Some es'" "e \<in> set es'" using slot_store_complete by blast
  then show ?case using Cons.IH by simp
qed auto

lemma collectGuards_stores_complete:
  assumes "StoreStmt r l n \<in> set (stmtSet p Store)"
  shows "\<exists>es. gi_stores (collectGuards p) (locationToken p l) = Some es \<and> \<lparr>st_rhs = r, st_node = n\<rparr> \<in> set es"
proof -
  have "StoreStmt r l n \<in> set ss \<Longrightarrow>
    \<exists>es. foldl (\<lambda>m s. slot_store p s m) m ss (locationToken p l) = Some es \<and> \<lparr>st_rhs = r, st_node = n\<rparr> \<in> set es"
    for ss m
  proof (induction ss arbitrary: m)
    case (Cons s ss)
    show ?case
    proof (cases "s = StoreStmt r l n")
      case True
      then obtain es where "slot_store p s m (locationToken p l) = Some es" "\<lparr>st_rhs = r, st_node = n\<rparr> \<in> set es"
        by (auto simp: slot_store_def push_back_def)
      then show ?thesis using fold_stores_keep by simp
    next
      case False
      then show ?thesis using Cons by simp
    qed
  qed simp
  then show ?thesis using assms by (simp add: collectGuards_def)
qed

section \<open>Properties\<close>

text \<open>C38: The interval derived from a guard is sound: when the bound has a value of its interval and
  the predicate, by its number in \<open>CmpStmt\<close>, has the truth value of the guarded edge on the two
  operands, the compared value lies in the result, whichever operand it is. For the unsigned
  predicates this needs both values to be non-negative, because the code reads them as signed. A
  predicate on floats excludes nothing. The increments of the bounds never overflow.\<close>

theorem evalGuardInterval_sound:
  assumes "range_ok bnd" "b \<in> gam bnd" "in64 idx" "guard_truth pred isOp0 condTrue idx b"
    and "unsigned_pred pred \<longrightarrow> 0 \<le> idx \<and> 0 \<le> b"
  shows "idx \<in> gam (evalGuardInterval pred isOp0 condTrue bnd)
    \<and> range_ok (evalGuardInterval pred isOp0 condTrue bnd)"
  using evalGuardInterval_covers [OF assms] evalGuardInterval_ok [OF assms(1)] by blast

lemma evalGuardInterval_witness:
  "9 \<in> gam (evalGuardInterval ICMP_SLT True True (const_range 10))
    \<and> 12 \<in> gam (evalGuardInterval ICMP_UGE True True (const_range 10))"
proof -
  have "in64 9" "in64 10" "in64 12" by (simp_all add: in64_def bounds_defs)
  then show ?thesis
    using evalGuardInterval_sound [of "const_range 10" 10 9 ICMP_SLT True True]
      evalGuardInterval_sound [of "const_range 10" 10 12 ICMP_UGE True True]
    by (simp add: range_ok_def guard_truth_def icmp_truth_def unsigned_pred_def icmp_defs)
qed

text \<open>For a negative value an unsigned guard can exclude the value that took the edge: \<open>-1 >= 10\<close>
  holds unsigned, and the guard yields \<open>[10, INF]\<close>.\<close>

theorem evalGuardInterval_unsigned:
  "guard_truth ICMP_UGE True True (- 1) 10 \<and> - 1 \<notin> gam (evalGuardInterval ICMP_UGE True True (const_range 10))"
proof -
  have "evalGuardInterval ICMP_UGE True True (const_range 10) = mk_range 10 rINF"
    by (simp add: evalGuardInterval_def predToCmp_def icmp_defs isBottom_def isTop_def bounds_defs)
  then show ?thesis by (simp add: guard_truth_def icmp_truth_def icmp_defs)
qed

text \<open>The guard index states only what branches of the program decide: every entry comes from a
  conditional branch on a comparison, is filed under the token of the compared operand, names the
  other operand as the bound, and carries the block and truth value of a successor. The store
  index holds exactly the stores, each under the token of its address.\<close>

theorem guard_index_correct:
  "(\<forall>tok gs g. gi_guards (collectGuards p) tok = Some gs \<longrightarrow> g \<in> set gs \<longrightarrow> entry_from p tok g)
    \<and> (\<forall>tok es e. gi_stores (collectGuards p) tok = Some es \<longrightarrow> e \<in> set es \<longrightarrow> store_from p tok e)
    \<and> (\<forall>r l n. StoreStmt r l n \<in> set (stmtSet p Store) \<longrightarrow>
        (\<exists>es. gi_stores (collectGuards p) (locationToken p l) = Some es \<and> \<lparr>st_rhs = r, st_node = n\<rparr> \<in> set es))"
  using collectGuards_entries [of p] collectGuards_stores_complete [of _ _ _ p] unfolding all_entries_def by blast

text \<open>\<open>if (v2 < 10)\<close>: the comparison 5 of the load 2 with the constant 6, and a branch in block 0
  to the blocks 1 (taken) and 2.\<close>

definition guard_ex :: svfir where
  "guard_ex = two_loads\<lparr>stmtSet := (\<lambda>k. if k = Cmp then [CmpStmt 5 [2, 6] ICMP_SLT]
      else if k = Branch then [BranchStmt (Some 5) [(Some 11, 1), (Some 12, 0)] (Some 10)]
      else if k = Store then [StoreStmt 6 1 (Some 10)] else []),
    constVal := (\<lambda>x. if x = 6 then Some 10 else None),
    nodeBB := (\<lambda>n. if n = 10 then Some 0 else if n = 11 then Some 1 else if n = 12 then Some 2 else None),
    nodeFun := (\<lambda>n. Some 0)\<rparr>"

lemma guard_index_witness:
  "\<exists>es. gi_stores (collectGuards guard_ex) ''O1'' = Some es \<and> \<lparr>st_rhs = 6, st_node = Some 10\<rparr> \<in> set es"
proof -
  have "locationToken guard_ex 1 = ''O1''" by code_simp
  moreover have "StoreStmt 6 1 (Some 10) \<in> set (stmtSet guard_ex Store)" by (simp add: guard_ex_def)
  ultimately show ?thesis using guard_index_correct [of guard_ex] by metis
qed

end
