(* ===== verification/BofRangeAnalysis.thy ===== *)
theory BofRangeAnalysis
  imports BofGuards
begin

text \<open>
  The value range analysis: \<open>RangeAnalysis\<close> of \<open>svf/lib/BOF/RangeAnalysis.cpp\<close> with the narrowing
  of loads of \<open>svf/lib/BOF/RangeGuardNarrowing.cpp\<close>.

  \<open>ra\<close> holds the caches and indices of the object. The analysis calls itself for operands and,
  from depth 0 again, for the bounds and steps that narrowing needs; the state is threaded
  through every call. Its body takes the recursive call as an argument, and \<open>analyzeVarRange\<close>
  closes the recursion with fuel: the outcome is a range and a state, or the error that a range
  operation was undefined, or that the fuel ran out. The termination theorem says how much fuel
  is always enough. Where C++ leaves the order of evaluation of two arguments open, the model
  evaluates the left one first.
\<close>

section \<open>State and outcomes\<close>

datatype ra_error = UndefinedBehaviour | OutOfFuel

record ra =
  bufferRanges :: "nat \<rightharpoonup> range"
  varRanges :: "nat \<rightharpoonup> range"
  formalBindings :: "nat \<times> nat \<rightharpoonup> range"
  ctxVarRanges :: "nat \<times> nat \<rightharpoonup> range"
  guardEnabled :: bool
  guardsBuilt :: bool
  guardIndex :: guard_index

type_synonym 'a out = "ra_error + 'a \<times> ra"

definition and_then :: "'a out \<Rightarrow> ('a \<Rightarrow> ra \<Rightarrow> 'b out) \<Rightarrow> 'b out" where
  "and_then m f = (case m of Inl e \<Rightarrow> Inl e | Inr r \<Rightarrow> f (fst r) (snd r))"

definition lift_ub :: "'a option \<Rightarrow> ra \<Rightarrow> 'a out" where
  "lift_ub v s = (case v of None \<Rightarrow> Inl UndefinedBehaviour | Some a \<Rightarrow> Inr (a, s))"

primrec fold_out :: "('e \<Rightarrow> 'a \<Rightarrow> ra \<Rightarrow> 'a out) \<Rightarrow> 'e list \<Rightarrow> 'a \<Rightarrow> ra \<Rightarrow> 'a out" where
  "fold_out f [] a s = Inr (a, s)"
| "fold_out f (e # es) a s = and_then (f e a s) (fold_out f es)"

definition ra_new :: "string option \<Rightarrow> ra" where
  "ra_new env = \<lparr>bufferRanges = Map.empty, varRanges = Map.empty, formalBindings = Map.empty,
    ctxVarRanges = Map.empty,
    guardEnabled = (case env of None \<Rightarrow> True | Some v \<Rightarrow> \<not> (v \<noteq> [] \<and> hd v \<noteq> CHR ''0'')),
    guardsBuilt = False, guardIndex = \<lparr>gi_guards = Map.empty, gi_stores = Map.empty\<rparr>\<rparr>"

section \<open>Buffers, caches and bindings\<close>

definition to_s64 :: "nat \<Rightarrow> int" where
  "to_s64 n = (if n < 2 ^ 63 then int n else int n - 2 ^ 64)"

definition getBufferRange :: "nat \<Rightarrow> ra \<Rightarrow> range" where
  "getBufferRange b s = (case bufferRanges s b of Some r \<Rightarrow> r | None \<Rightarrow> BOTTOM)"

definition setBufferRange :: "nat \<Rightarrow> range \<Rightarrow> ra \<Rightarrow> ra" where
  "setBufferRange b r s = s\<lparr>bufferRanges := (bufferRanges s)(b \<mapsto> r)\<rparr>"

text \<open>A stack object with its number of flattened elements and its number of elements; a heap
  object with its byte size, when that is constant.\<close>

definition analyzeBufferRange_stack :: "nat \<Rightarrow> nat \<Rightarrow> nat \<Rightarrow> ra \<Rightarrow> bool \<times> ra" where
  "analyzeBufferRange_stack flattened elements b s =
    (if flattened \<ge> 1 then (True, setBufferRange b (mk_range 0 (to_s64 (flattened - 1))) s)
     else if elements \<ge> 1 then (True, setBufferRange b (mk_range 0 (to_s64 (elements - 1))) s)
     else (False, s))"

definition analyzeBufferRange_heap :: "nat option \<Rightarrow> nat \<Rightarrow> ra \<Rightarrow> bool \<times> ra" where
  "analyzeBufferRange_heap byteSize b s = (case byteSize of
      None \<Rightarrow> (False, s)
    | Some bytes \<Rightarrow> if bytes \<ge> 1 then (True, setBufferRange b (mk_range 0 (to_s64 (bytes - 1))) s) else (False, s))"

definition bindFormalRange :: "nat option \<Rightarrow> nat option \<Rightarrow> range \<Rightarrow> ra \<Rightarrow> ra" where
  "bindFormalRange ctx formal r s = (case (ctx, formal) of
      (Some c, Some f) \<Rightarrow> s\<lparr>formalBindings := (formalBindings s)((c, f) \<mapsto> r)\<rparr>
    | _ \<Rightarrow> s)"

definition getVarRange :: "nat \<Rightarrow> ra \<Rightarrow> range" where
  "getVarRange x s = (case varRanges s x of Some r \<Rightarrow> r | None \<Rightarrow> BOTTOM)"

definition getCachedVarRange :: "nat option \<Rightarrow> nat \<Rightarrow> ra \<Rightarrow> range" where
  "getCachedVarRange ctx x s = (case ctx of
      None \<Rightarrow> getVarRange x s
    | Some c \<Rightarrow> (case ctxVarRanges s (c, x) of Some r \<Rightarrow> r | None \<Rightarrow> BOTTOM))"

definition setCachedVarRange :: "nat option \<Rightarrow> nat \<Rightarrow> range \<Rightarrow> ra \<Rightarrow> ra" where
  "setCachedVarRange ctx x r s = (case ctx of
      None \<Rightarrow> s\<lparr>varRanges := (varRanges s)(x \<mapsto> r)\<rparr>
    | Some c \<Rightarrow> s\<lparr>ctxVarRanges := (ctxVarRanges s)((c, x) \<mapsto> r)\<rparr>)"

section \<open>Deriving a range from the defining edges\<close>

type_synonym ra_call = "nat \<Rightarrow> nat \<Rightarrow> ra \<Rightarrow> range out"

text \<open>\<open>var_range = Range::join(var_range, analyzeVarRange(v, context, d))\<close>\<close>

definition join_value :: "ra_call \<Rightarrow> nat \<Rightarrow> nat \<Rightarrow> range \<Rightarrow> ra \<Rightarrow> range out" where
  "join_value rec d v acc s = and_then (rec v d s) (\<lambda>r s. Inr (range_join acc r, s))"

definition join_edge :: "(svf_stmt \<Rightarrow> nat list option) \<Rightarrow> ra_call \<Rightarrow> nat \<Rightarrow> svf_stmt \<Rightarrow> range \<Rightarrow> ra \<Rightarrow> range out" where
  "join_edge c rec d e acc s = (case c e of None \<Rightarrow> Inr (acc, s) | Some vs \<Rightarrow> fold_out (join_value rec d) vs acc s)"

definition load_op :: "svf_stmt \<Rightarrow> nat list option" where
  "load_op e = map_option (\<lambda>r. [fst r]) (as_load e)"

definition store_op :: "svf_stmt \<Rightarrow> nat list option" where
  "store_op e = map_option (\<lambda>r. [fst r]) (as_store e)"

definition copy_op :: "svf_stmt \<Rightarrow> nat list option" where
  "copy_op e = map_option (\<lambda>r. [r]) (as_copy e)"

definition handled_op :: "nat \<Rightarrow> bool" where
  "handled_op oc = (oc \<in> {op_Add, op_Sub, op_Mul, op_UDiv, op_SDiv, op_URem, op_SRem, op_Shl,
     op_LShr, op_AShr, op_And, op_Or, op_Xor})"

definition bottom_to_top :: "range \<Rightarrow> range" where
  "bottom_to_top r = (if isBottom r then TOP else r)"

definition binop_range :: "nat \<Rightarrow> range \<Rightarrow> range \<Rightarrow> range option" where
  "binop_range oc a b =
    (if oc = op_Add then range_add a b
     else if oc = op_Sub then range_sub a b
     else if oc = op_Mul then range_mul a b
     else if oc = op_UDiv \<or> oc = op_SDiv then range_div a b
     else if oc = op_URem \<or> oc = op_SRem then range_mod a b
     else if oc = op_Shl then range_shl a b
     else if oc = op_LShr then Some (range_lshr a b)
     else if oc = op_AShr then Some (range_ashr a b)
     else if oc = op_And then Some (bit_and (bottom_to_top a) (bottom_to_top b))
     else if oc = op_Or then bit_or (bottom_to_top a) (bottom_to_top b)
     else bit_xor (bottom_to_top a) (bottom_to_top b))"

definition binop_edge :: "ra_call \<Rightarrow> nat \<Rightarrow> svf_stmt \<Rightarrow> range \<Rightarrow> ra \<Rightarrow> range out" where
  "binop_edge rec d e acc s = (case as_binop e of
      None \<Rightarrow> Inr (acc, s)
    | Some bop \<Rightarrow>
        if length (fst bop) = 2 \<and> handled_op (snd bop)
        then and_then (rec (fst bop ! 0) d s) (\<lambda>a s.
             and_then (rec (fst bop ! 1) d s) (\<lambda>b s.
             and_then (lift_ub (binop_range (snd bop) a b) s) (\<lambda>r s. Inr (range_join acc r, s))))
        else Inr (acc, s))"

definition select_edge :: "ra_call \<Rightarrow> nat \<Rightarrow> svf_stmt \<Rightarrow> range \<Rightarrow> ra \<Rightarrow> range out" where
  "select_edge rec d e acc s = (case as_select e of
      None \<Rightarrow> Inr (acc, s)
    | Some sel \<Rightarrow>
        and_then (rec (fst sel) d s) (\<lambda>c s.
        and_then (rec (fst (snd sel)) d s) (\<lambda>t s.
        and_then (rec (snd (snd sel)) d s) (\<lambda>f s.
        Inr (range_join acc (range_select c t f), s)))))"

definition deriveRange :: "svfir \<Rightarrow> ra_call \<Rightarrow> nat \<Rightarrow> nat \<Rightarrow> ra \<Rightarrow> range out" where
  "deriveRange p rec x d s =
    and_then (fold_out (join_edge load_op rec d) (inEdgeMap p x Load) BOTTOM s) (\<lambda>r s.
    and_then (fold_out (join_edge store_op rec d) (inEdgeMap p x Store) r s) (\<lambda>r s.
    and_then (fold_out (join_edge copy_op rec d) (inEdgeMap p x Copy) r s) (\<lambda>r s.
    and_then (fold_out (binop_edge rec d) (inEdgeMap p x BinaryOp) r s) (\<lambda>r s.
    and_then (fold_out (join_edge as_phi rec d) (inEdgeMap p x Phi) r s) (\<lambda>r s.
    fold_out (select_edge rec d) (inEdgeMap p x Select) r s)))))"

section \<open>Narrowing by guards\<close>

definition buildGuardIndex :: "svfir \<Rightarrow> ra \<Rightarrow> ra" where
  "buildGuardIndex p s = (if guardsBuilt s then s else s\<lparr>guardsBuilt := True, guardIndex := collectGuards p\<rparr>)"

definition killed :: "svfir \<Rightarrow> dom_info \<Rightarrow> nat \<Rightarrow> string \<Rightarrow> ra \<Rightarrow> bool" where
  "killed p di sb addrTok s = (case gi_stores (guardIndex s) addrTok of
      None \<Rightarrow> False
    | Some es \<Rightarrow> \<exists>e\<in>set es. (case Option.bind (st_node e) (nodeBB p) of None \<Rightarrow> False | Some b \<Rightarrow> dominate di sb b))"

text \<open>Meet with the interval of a guard whose bound is analysed now; the empty set is refused.\<close>

definition meet_guard :: "ra_call \<Rightarrow> guard_entry \<Rightarrow> range \<Rightarrow> ra \<Rightarrow> range out" where
  "meet_guard rec g r s = and_then (rec (g_bndSide g) 0 s) (\<lambda>bnd s.
     let iv = evalGuardInterval (g_predicate g) (g_idxIsOp0 g) (g_condTrue g) bnd in
     if isTop iv then Inr (r, s)
     else let m = range_meet r iv in Inr (if \<not> isBottom m then m else r, s))"

definition guard_step :: "svfir \<Rightarrow> ra_call \<Rightarrow> string \<Rightarrow> nat \<Rightarrow> nat \<Rightarrow> guard_entry \<Rightarrow> range \<Rightarrow> ra \<Rightarrow> range out" where
  "guard_step p rec addrTok loadBB fn g r s =
    (let di = loopAndDom p fn in
     if g_fun g \<noteq> fn then Inr (r, s)
     else if \<not> dominate di (g_succBB g) loadBB then Inr (r, s)
     else if hasLoopInfo di (g_succBB g) then Inr (r, s)
     else if killed p di (g_succBB g) addrTok s then Inr (r, s)
     else meet_guard rec g r s)"

definition refineByGuards :: "svfir \<Rightarrow> ra_call \<Rightarrow> string \<Rightarrow> string \<Rightarrow> nat \<Rightarrow> nat \<Rightarrow> range \<Rightarrow> ra \<Rightarrow> range out" where
  "refineByGuards p rec valTok addrTok loadBB fn current s = (case gi_guards (guardIndex s) valTok of
      None \<Rightarrow> Inr (current, s)
    | Some gs \<Rightarrow> fold_out (guard_step p rec addrTok loadBB fn) gs current s)"

section \<open>Narrowing by loops\<close>

definition is_loop_guard :: "dom_info \<Rightarrow> nat list \<Rightarrow> nat \<Rightarrow> nat \<Rightarrow> guard_entry \<Rightarrow> bool" where
  "is_loop_guard di lp loadBB fn g = (g_fun g = fn \<and> loopContainsBB lp (g_succBB g)
     \<and> (g_succBB g = loadBB \<or> dominate di (g_succBB g) loadBB))"

text \<open>The direction of the step: \<open>1\<close>, \<open>-1\<close>, or \<open>0\<close> for none. The first loop runs over the
  operations that define a stored value, the second over the stores in the loop.\<close>

primrec edge_dir :: "svfir \<Rightarrow> ra_call \<Rightarrow> string \<Rightarrow> svf_stmt list \<Rightarrow> ra \<Rightarrow> int out" where
  "edge_dir p rec valTok [] s = Inr (0, s)"
| "edge_dir p rec valTok (e # es) s = (case as_binop e of
      None \<Rightarrow> edge_dir p rec valTok es s
    | Some bop \<Rightarrow>
        if length (fst bop) \<noteq> 2 then edge_dir p rec valTok es s
        else if snd bop \<noteq> op_Add \<and> snd bop \<noteq> op_Sub then edge_dir p rec valTok es s
        else
          let a0 = fst bop ! 0; a1 = fst bop ! 1;
              m0 = (locationToken p a0 = valTok); m1 = (locationToken p a1 = valTok)
          in if \<not> m0 \<and> \<not> m1 then edge_dir p rec valTok es s
             else and_then (rec (if m0 then a1 else a0) 0 s) (\<lambda>ov s.
               if \<not> isConstant ov then edge_dir p rec valTok es s
               else and_then (lift_ub (if snd bop = op_Sub then chk (- lower ov) else Some (lower ov)) s) (\<lambda>step s.
                 Inr (if step > 0 then 1 else if step < 0 then - 1 else 0, s))))"

primrec store_dir :: "svfir \<Rightarrow> ra_call \<Rightarrow> string \<Rightarrow> nat list \<Rightarrow> store_entry list \<Rightarrow> ra \<Rightarrow> int out" where
  "store_dir p rec valTok lp [] s = Inr (0, s)"
| "store_dir p rec valTok lp (st # sts) s = (case Option.bind (st_node st) (nodeBB p) of
      None \<Rightarrow> store_dir p rec valTok lp sts s
    | Some b \<Rightarrow>
        if \<not> loopContainsBB lp b then store_dir p rec valTok lp sts s
        else if \<not> hasIncomingEdges p (st_rhs st) BinaryOp then store_dir p rec valTok lp sts s
        else and_then (edge_dir p rec valTok (inEdgeMap p (st_rhs st) BinaryOp) s) (\<lambda>dir s.
          if dir \<noteq> 0 then Inr (dir, s) else store_dir p rec valTok lp sts s))"

definition init_step :: "svfir \<Rightarrow> ra_call \<Rightarrow> dom_info \<Rightarrow> nat list \<Rightarrow> nat \<Rightarrow> store_entry \<Rightarrow> range \<Rightarrow> ra \<Rightarrow> range out" where
  "init_step p rec di lp branchBB st init s = (case Option.bind (st_node st) (nodeBB p) of
      None \<Rightarrow> Inr (init, s)
    | Some b \<Rightarrow>
        if loopContainsBB lp b then Inr (init, s)
        else if \<not> dominate di b branchBB then Inr (init, s)
        else join_value rec 0 (st_rhs st) init s)"

text \<open>Step 4: \<open>[init, guard bound]\<close> or \<open>[guard bound, init]\<close>, met with the current range.\<close>

definition loop_range :: "int \<Rightarrow> range \<Rightarrow> range \<Rightarrow> range \<Rightarrow> range" where
  "loop_range dir init gv current =
    (let r = (if dir > 0 then mk_range (lower init) (if isTop gv then rINF else upper gv)
              else mk_range (if isTop gv then rNINF else lower gv) (upper init))
     in if isBottom r then current
        else let m = range_meet current r in if isBottom m then current else m)"

definition refineByLoop :: "svfir \<Rightarrow> ra_call \<Rightarrow> string \<Rightarrow> string \<Rightarrow> nat \<Rightarrow> nat \<Rightarrow> range \<Rightarrow> ra \<Rightarrow> range out" where
  "refineByLoop p rec valTok addrTok loadBB fn current s =
    (let di = loopAndDom p fn in
     case getLoopInfo di loadBB of
       None \<Rightarrow> Inr (current, s)
     | Some lp \<Rightarrow>
       if lp = [] then Inr (current, s)
       else case gi_guards (guardIndex s) valTok of
         None \<Rightarrow> Inr (current, s)
       | Some gs \<Rightarrow>
         case find (is_loop_guard di lp loadBB fn) gs of
           None \<Rightarrow> Inr (current, s)
         | Some g \<Rightarrow>
           case gi_stores (guardIndex s) addrTok of
             None \<Rightarrow> Inr (current, s)
           | Some sts \<Rightarrow>
             and_then (store_dir p rec valTok lp sts s) (\<lambda>dir s.
             if dir = 0 then Inr (current, s)
             else and_then (fold_out (init_step p rec di lp (g_branchBB g)) sts BOTTOM s) (\<lambda>init s.
             if isBottom init then Inr (current, s)
             else and_then (rec (g_bndSide g) 0 s) (\<lambda>bnd s.
               Inr (loop_range dir init
                 (evalGuardInterval (g_predicate g) (g_idxIsOp0 g) (g_condTrue g) bnd) current, s)))))"

definition refineLoad :: "svfir \<Rightarrow> ra_call \<Rightarrow> nat \<Rightarrow> range \<Rightarrow> ra \<Rightarrow> range out" where
  "refineLoad p rec x current s =
    (if \<not> guardEnabled s then Inr (current, s)
     else if \<not> hasIncomingEdges p x Load then Inr (current, s)
     else case List.map_filter as_load (inEdgeMap p x Load) of
       [(addr, n)] \<Rightarrow>
         (case (Option.bind n (nodeBB p), Option.bind n (nodeFun p)) of
            (Some loadBB, Some fn) \<Rightarrow>
              let unbounded = (upper current \<ge> rINF - 1024 \<or> lower current \<le> rNINF + 1024);
                  inLoop = hasLoopInfo (loopAndDom p fn) loadBB
              in if \<not> unbounded \<and> \<not> inLoop then Inr (current, s)
                 else let s1 = buildGuardIndex p s; valTok = locationToken p x; addrTok = locationToken p addr
                      in if valTok = [] then Inr (current, s1)
                         else if inLoop then refineByLoop p rec valTok addrTok loadBB fn current s1
                         else refineByGuards p rec valTok addrTok loadBB fn current s1
          | _ \<Rightarrow> Inr (current, s))
     | _ \<Rightarrow> Inr (current, s))"

section \<open>The analysis\<close>

definition MAX_RECURSION_DEPTH :: nat where
  "MAX_RECURSION_DEPTH = 200"

definition boundFormal :: "nat option \<Rightarrow> nat \<Rightarrow> ra \<Rightarrow> range option" where
  "boundFormal ctx x s = (case ctx of None \<Rightarrow> None | Some c \<Rightarrow> formalBindings s (c, x))"

definition analyzeDynamic :: "svfir \<Rightarrow> ra_call \<Rightarrow> nat option \<Rightarrow> nat \<Rightarrow> nat \<Rightarrow> ra \<Rightarrow> range out" where
  "analyzeDynamic p rec ctx x depth s =
    and_then (deriveRange p rec x (depth + 1) (setCachedVarRange ctx x TOP s)) (\<lambda>r s.
      if isBottom r then Inr (r, s)
      else and_then (if guardEnabled s then refineLoad p rec x r s else Inr (r, s)) (\<lambda>r s.
        Inr (r, setCachedVarRange ctx x r s)))"

definition analyzeBody :: "svfir \<Rightarrow> ra_call \<Rightarrow> nat option \<Rightarrow> nat \<Rightarrow> nat \<Rightarrow> ra \<Rightarrow> range out" where
  "analyzeBody p rec ctx x depth s = (case resolveRange p x ctx of
      Some lu \<Rightarrow> let r = mk_range (fst lu) (snd lu) in Inr (r, setCachedVarRange ctx x r s)
    | None \<Rightarrow>
      if depth = MAX_RECURSION_DEPTH then Inr (TOP, s)
      else case boundFormal ctx x s of
        Some r \<Rightarrow> Inr (r, s)
      | None \<Rightarrow>
        let found = getCachedVarRange ctx x s in
        if \<not> isBottom found then Inr (found, s)
        else case constVal p x of
          Some c \<Rightarrow> Inr (const_range c, setCachedVarRange ctx x (const_range c) s)
        | None \<Rightarrow> analyzeDynamic p rec ctx x depth s)"

primrec analyzeVarRange :: "svfir \<Rightarrow> nat \<Rightarrow> nat option \<Rightarrow> ra_call" where
  "analyzeVarRange p 0 ctx x depth s = Inl OutOfFuel"
| "analyzeVarRange p (Suc n) ctx x depth s = analyzeBody p (analyzeVarRange p n ctx) ctx x depth s"

definition guarded_step :: "svfir \<Rightarrow> ra_call \<Rightarrow> nat \<Rightarrow> nat \<Rightarrow> guard_entry \<Rightarrow> range \<Rightarrow> ra \<Rightarrow> range out" where
  "guarded_step p rec useBB fn g r s =
    (if g_fun g \<noteq> fn then Inr (r, s)
     else if g_succBB g \<noteq> useBB \<and> \<not> dominate (loopAndDom p fn) (g_succBB g) useBB then Inr (r, s)
     else meet_guard rec g r s)"

definition guardedValueRange :: "svfir \<Rightarrow> nat \<Rightarrow> nat option \<Rightarrow> nat option \<Rightarrow> ra \<Rightarrow> range out" where
  "guardedValueRange p n var useLoc s = (case (guardEnabled s, var, useLoc) of
      (True, Some x, Some loc) \<Rightarrow>
        (case (nodeBB p loc, nodeFun p loc) of
           (Some useBB, Some fn) \<Rightarrow>
             let s1 = buildGuardIndex p s; tok = locationToken p x in
             if tok = [] then Inr (TOP, s1)
             else (case gi_guards (guardIndex s1) tok of
                None \<Rightarrow> Inr (TOP, s1)
              | Some gs \<Rightarrow> fold_out (guarded_step p (analyzeVarRange p n None) useBB fn) gs TOP s1)
         | _ \<Rightarrow> Inr (TOP, s))
    | _ \<Rightarrow> Inr (TOP, s))"

section \<open>Reasoning about outcomes\<close>

definition out_ok :: "(ra_error \<Rightarrow> bool) \<Rightarrow> ('a \<Rightarrow> ra \<Rightarrow> bool) \<Rightarrow> 'a out \<Rightarrow> bool" where
  "out_ok E Q m = (case m of Inl e \<Rightarrow> E e | Inr r \<Rightarrow> Q (fst r) (snd r))"

lemma out_ok_simps [simp]:
  "out_ok E Q (Inl e) \<longleftrightarrow> E e"
  "out_ok E Q (Inr r) \<longleftrightarrow> Q (fst r) (snd r)"
  by (simp_all add: out_ok_def)

lemma and_then_simps [simp]:
  "and_then (Inl e) f = Inl e"
  "and_then (Inr r) f = f (fst r) (snd r)"
  by (simp_all add: and_then_def)

lemma out_ok_then:
  assumes "out_ok E Q m" "\<And>a s. Q a s \<Longrightarrow> out_ok E R (f a s)"
  shows "out_ok E R (and_then m f)"
  using assms by (cases m) auto

lemma out_ok_mono: "out_ok E Q m \<Longrightarrow> (\<And>a s. Q a s \<Longrightarrow> R a s) \<Longrightarrow> out_ok E R m"
  by (cases m) auto

lemma out_ok_fold:
  assumes "Q a s" "\<And>e a s. e \<in> set es \<Longrightarrow> Q a s \<Longrightarrow> out_ok E Q (f e a s)"
  shows "out_ok E Q (fold_out f es a s)"
  using assms
proof (induction es arbitrary: a s)
  case (Cons e es)
  have "out_ok E Q (f e a s)" using Cons.prems by simp
  then show ?case by (auto intro!: out_ok_then Cons.IH intro: Cons.prems)
qed simp

lemma out_ok_lift: "(v = None \<Longrightarrow> E UndefinedBehaviour) \<Longrightarrow> (\<And>a. v = Some a \<Longrightarrow> Q a s) \<Longrightarrow> out_ok E Q (lift_ub v s)"
  by (cases v) (auto simp: lift_ub_def)

section \<open>Narrowing only tightens\<close>

lemma meet_guard_tight:
  "\<not> isBottom r \<Longrightarrow> out_ok (\<lambda>_. True) (\<lambda>r' s'. \<not> isBottom r' \<and> gam r' \<subseteq> gam r) (meet_guard rec g r s)"
  by (cases "rec (g_bndSide g) 0 s") (auto simp: meet_guard_def Let_def range_meet_gam simp del: in_gam)

lemma out_ok_subset_fold:
  assumes "\<not> isBottom r"
    and "\<And>e r s. e \<in> set es \<Longrightarrow> \<not> isBottom r \<Longrightarrow> out_ok (\<lambda>_. True) (\<lambda>r' s'. \<not> isBottom r' \<and> gam r' \<subseteq> gam r) (f e r s)"
  shows "out_ok (\<lambda>_. True) (\<lambda>r' s'. \<not> isBottom r' \<and> gam r' \<subseteq> gam r) (fold_out f es r s)"
proof (rule out_ok_fold)
  fix e a s
  assume e: "e \<in> set es" and a: "\<not> isBottom a \<and> gam a \<subseteq> gam r"
  show "out_ok (\<lambda>_. True) (\<lambda>r' s'. \<not> isBottom r' \<and> gam r' \<subseteq> gam r) (f e a s)"
    by (rule out_ok_mono [OF assms(2) [OF e]]) (use a in blast)+
qed (use assms(1) in blast)

lemma guard_step_tight:
  "\<not> isBottom r \<Longrightarrow>
    out_ok (\<lambda>_. True) (\<lambda>r' s'. \<not> isBottom r' \<and> gam r' \<subseteq> gam r) (guard_step p rec addrTok loadBB fn g r s)"
  using meet_guard_tight by (auto simp: guard_step_def Let_def simp del: in_gam)

lemma guarded_step_tight:
  "\<not> isBottom r \<Longrightarrow>
    out_ok (\<lambda>_. True) (\<lambda>r' s'. \<not> isBottom r' \<and> gam r' \<subseteq> gam r) (guarded_step p rec useBB fn g r s)"
  using meet_guard_tight by (auto simp: guarded_step_def simp del: in_gam)

lemma loop_range_tight:
  "\<not> isBottom current \<Longrightarrow> \<not> isBottom (loop_range dir init gv current) \<and> gam (loop_range dir init gv current) \<subseteq> gam current"
  by (auto simp: loop_range_def Let_def range_meet_gam simp del: in_gam)

lemma out_ok_then_any: "(\<And>a s. out_ok (\<lambda>_. True) R (f a s)) \<Longrightarrow> out_ok (\<lambda>_. True) R (and_then m f)"
  by (cases m) auto

lemma refineByLoop_tight:
  assumes "\<not> isBottom current"
  shows "out_ok (\<lambda>_. True) (\<lambda>r s'. \<not> isBottom r \<and> gam r \<subseteq> gam current)
    (refineByLoop p rec valTok addrTok loadBB fn current s)"
  using assms loop_range_tight [OF assms]
  by (auto simp: refineByLoop_def Let_def simp del: in_gam split: option.split
      intro!: out_ok_then_any)

lemma refineByGuards_tight:
  assumes "\<not> isBottom current"
  shows "out_ok (\<lambda>_. True) (\<lambda>r s'. \<not> isBottom r \<and> gam r \<subseteq> gam current)
    (refineByGuards p rec valTok addrTok loadBB fn current s)"
  using assms by (auto simp: refineByGuards_def simp del: in_gam split: option.split
      intro!: out_ok_subset_fold guard_step_tight)

lemma refineLoad_tight:
  assumes "\<not> isBottom current"
  shows "out_ok (\<lambda>_. True) (\<lambda>r s'. \<not> isBottom r \<and> gam r \<subseteq> gam current) (refineLoad p rec x current s)"
  using assms refineByLoop_tight [OF assms] refineByGuards_tight [OF assms]
  by (simp add: refineLoad_def Let_def split: list.split option.split prod.split)

section \<open>Termination\<close>

fun operands :: "svf_stmt \<Rightarrow> nat set" where
  "operands (CopyStmt r l) = {r}"
| "operands (StoreStmt r l n) = {r}"
| "operands (LoadStmt r l n) = {r}"
| "operands (GepStmt r l i) = {}"
| "operands (PhiStmt r ops) = set ops"
| "operands (SelectStmt r c t f) = {c, t, f}"
| "operands (CmpStmt r ops pr) = set ops"
| "operands (BinaryOPStmt r ops oc) = set ops"
| "operands (BranchStmt c succs n) = {}"

text \<open>A set of values that contains the operands of its edges, of the comparisons and of the stores.\<close>

definition closed :: "svfir \<Rightarrow> nat set \<Rightarrow> bool" where
  "closed p V = ((\<forall>x\<in>V. \<forall>k. \<forall>e\<in>set (inEdgeMap p x k). operands e \<subseteq> V)
    \<and> (\<forall>k. \<forall>e\<in>set (stmtSet p k). operands e \<subseteq> V))"

definition index_in :: "nat set \<Rightarrow> ra \<Rightarrow> bool" where
  "index_in V s = (all_entries (\<lambda>_ g. g_bndSide g \<in> V) (gi_guards (guardIndex s))
    \<and> all_entries (\<lambda>_ e. st_rhs e \<in> V) (gi_stores (guardIndex s)))"

text \<open>The contract of the recursive call: errors satisfy \<open>E\<close>, the state invariant \<open>I\<close> is kept, and
  the result for a value of \<open>V\<close> satisfies \<open>Q\<close>.\<close>

definition call_ok :: "(ra_error \<Rightarrow> bool) \<Rightarrow> nat set \<Rightarrow> (ra \<Rightarrow> bool) \<Rightarrow> (nat \<Rightarrow> range \<Rightarrow> bool) \<Rightarrow> ra_call \<Rightarrow> bool" where
  "call_ok E V I Q rec = (\<forall>x\<in>V. \<forall>d s. I s \<longrightarrow> out_ok E (\<lambda>r s'. I s' \<and> Q x r) (rec x d s))"

lemma call_okD: "call_ok E V I Q rec \<Longrightarrow> x \<in> V \<Longrightarrow> I s \<Longrightarrow> out_ok E (\<lambda>r s'. I s' \<and> Q x r) (rec x d s)"
  by (simp add: call_ok_def)

lemma call_then:
  assumes "call_ok E V I Q rec" "x \<in> V" "I s" "\<And>r s. I s \<Longrightarrow> Q x r \<Longrightarrow> out_ok E R (f r s)"
  shows "out_ok E R (and_then (rec x d s) f)"
  by (rule out_ok_then [OF call_okD [OF assms(1-3)]]) (use assms(4) in auto)

lemma join_value_inv:
  "call_ok E V I Q rec \<Longrightarrow> v \<in> V \<Longrightarrow> I s \<Longrightarrow> out_ok E (\<lambda>r s'. I s') (join_value rec d v acc s)"
  unfolding join_value_def by (rule call_then) auto

lemma join_edge_inv:
  assumes "call_ok E V I Q rec" "I s" "\<And>vs. c e = Some vs \<Longrightarrow> set vs \<subseteq> V"
  shows "out_ok E (\<lambda>r s'. I s') (join_edge c rec d e acc s)"
  unfolding join_edge_def using assms
  by (auto split: option.split intro!: out_ok_fold join_value_inv)

lemma binop_edge_inv:
  assumes c: "call_ok E V I Q rec" and E: "E UndefinedBehaviour" and s: "I s" and ops: "operands e \<subseteq> V"
  shows "out_ok E (\<lambda>r s'. I s') (binop_edge rec d e acc s)"
proof (cases e)
  case (BinaryOPStmt l os oc)
  show ?thesis
  proof (cases "length os = 2 \<and> handled_op oc")
    case True
    then obtain a b where "os = [a, b]" by (metis One_nat_def Suc_1 length_0_conv length_Suc_conv)
    then show ?thesis
      using True BinaryOPStmt ops E s
      by (auto simp: binop_edge_def lift_ub_def split: option.split intro!: call_then [OF c])
  qed (use BinaryOPStmt s in \<open>auto simp: binop_edge_def\<close>)
qed (use s in \<open>auto simp: binop_edge_def\<close>)

lemma select_edge_inv:
  assumes c: "call_ok E V I Q rec" and s: "I s" and ops: "operands e \<subseteq> V"
  shows "out_ok E (\<lambda>r s'. I s') (select_edge rec d e acc s)"
  using ops by (cases e) (auto simp: select_edge_def s intro!: call_then [OF c] s)

lemma edge_ops:
  "load_op e = Some vs \<Longrightarrow> operands e \<subseteq> V \<Longrightarrow> set vs \<subseteq> V"
  "store_op e = Some vs \<Longrightarrow> operands e \<subseteq> V \<Longrightarrow> set vs \<subseteq> V"
  "copy_op e = Some vs \<Longrightarrow> operands e \<subseteq> V \<Longrightarrow> set vs \<subseteq> V"
  "as_phi e = Some vs \<Longrightarrow> operands e \<subseteq> V \<Longrightarrow> set vs \<subseteq> V"
  by (cases e; auto simp: load_op_def store_op_def copy_op_def)+

lemma deriveRange_inv:
  assumes c: "call_ok E V I Q rec" and E: "E UndefinedBehaviour" and s: "I s" and cl: "closed p V" and x: "x \<in> V"
  shows "out_ok E (\<lambda>r s'. I s') (deriveRange p rec x d s)"
proof -
  have ops: "operands e \<subseteq> V" if "e \<in> set (inEdgeMap p x k)" for e k
    using that cl x unfolding closed_def by blast
  have je: "out_ok E (\<lambda>r s'. I s') (fold_out (join_edge co rec d) (inEdgeMap p x k) r s)"
    if "I s" "\<And>e vs. co e = Some vs \<Longrightarrow> operands e \<subseteq> V \<Longrightarrow> set vs \<subseteq> V" for co k r s
    by (rule out_ok_fold) (use that ops join_edge_inv [OF c] in \<open>blast+\<close>)
  have bo: "out_ok E (\<lambda>r s'. I s') (fold_out (binop_edge rec d) (inEdgeMap p x BinaryOp) r s)" if "I s" for r s
    by (rule out_ok_fold) (use that ops binop_edge_inv [OF c E] in \<open>blast+\<close>)
  have se: "out_ok E (\<lambda>r s'. I s') (fold_out (select_edge rec d) (inEdgeMap p x Select) r s)" if "I s" for r s
    by (rule out_ok_fold) (use that ops select_edge_inv [OF c] in \<open>blast+\<close>)
  show ?thesis
    unfolding deriveRange_def
    by (intro out_ok_then [OF je [OF s]] out_ok_then [OF je] out_ok_then [OF bo] se) (erule (1) edge_ops | assumption)+
qed

lemma meet_guard_inv:
  "call_ok E V I Q rec \<Longrightarrow> I s \<Longrightarrow> g_bndSide g \<in> V \<Longrightarrow> out_ok E (\<lambda>r s'. I s') (meet_guard rec g r s)"
  unfolding meet_guard_def by (rule call_then [where I = I and Q = Q]) (auto simp: Let_def)

lemma edge_dir_inv:
  assumes c: "call_ok E V I Q rec" and E: "E UndefinedBehaviour"
  shows "I s \<Longrightarrow> \<forall>e\<in>set es. operands e \<subseteq> V \<Longrightarrow> out_ok E (\<lambda>r s'. I s') (edge_dir p rec valTok es s)"
proof (induction es arbitrary: s)
  case (Cons e es)
  show ?case
  proof (cases e)
    case (BinaryOPStmt l os oc)
    show ?thesis
    proof (cases "length os = 2")
      case True
      then obtain a b where "os = [a, b]" by (metis One_nat_def Suc_1 length_0_conv length_Suc_conv)
      then show ?thesis
        using BinaryOPStmt Cons E
        by (auto simp: Let_def lift_ub_def split: option.split intro!: call_then [OF c])
    qed (use BinaryOPStmt Cons in auto)
  qed (use Cons in auto)
qed simp

lemma store_dir_inv:
  assumes c: "call_ok E V I Q rec" and E: "E UndefinedBehaviour" and cl: "closed p V"
  shows "I s \<Longrightarrow> \<forall>st\<in>set sts. st_rhs st \<in> V \<Longrightarrow> out_ok E (\<lambda>r s'. I s') (store_dir p rec valTok lp sts s)"
proof (induction sts arbitrary: s)
  case (Cons st sts)
  have ops: "\<forall>e\<in>set (inEdgeMap p (st_rhs st) BinaryOp). operands e \<subseteq> V"
    using Cons.prems(2) cl unfolding closed_def by (meson list.set_intros(1))
  show ?case
    using Cons by (auto split: option.split intro!: out_ok_then [OF edge_dir_inv [OF c E _ ops]])
qed simp

lemma init_step_inv:
  "call_ok E V I Q rec \<Longrightarrow> I s \<Longrightarrow> st_rhs st \<in> V \<Longrightarrow>
    out_ok E (\<lambda>r s'. I s') (init_step p rec di lp branchBB st init s)"
  by (auto simp: init_step_def split: option.split intro!: join_value_inv)

lemma refineByLoop_inv:
  assumes c: "call_ok E V I Q rec" and E: "E UndefinedBehaviour" and cl: "closed p V"
    and I: "\<And>s. I s \<Longrightarrow> index_in V s" and s: "I s"
  shows "out_ok E (\<lambda>r s'. I s') (refineByLoop p rec valTok addrTok loadBB fn current s)"
proof -
  have g: "g_bndSide g \<in> V" if "gi_guards (guardIndex s) valTok = Some gs" "find P gs = Some g" for gs g P
    using that I [OF s] by (auto simp: index_in_def all_entries_def find_Some_iff)
  have st: "\<forall>st\<in>set sts. st_rhs st \<in> V" if "gi_stores (guardIndex s) addrTok = Some sts" for sts
    using that I [OF s] by (auto simp: index_in_def all_entries_def)
  have i: "out_ok E (\<lambda>r s'. I s') (fold_out (init_step p rec di lp bb) sts r s')"
    if "\<forall>st\<in>set sts. st_rhs st \<in> V" "I s'" for di lp bb sts r s'
    by (rule out_ok_fold) (use that init_step_inv [OF c] in auto)
  show ?thesis
    using s g st
    by (auto simp: refineByLoop_def Let_def split: option.split
        intro!: out_ok_then [OF store_dir_inv [OF c E cl]] out_ok_then [OF i] call_then [OF c])
qed

lemma guard_step_inv:
  "call_ok E V I Q rec \<Longrightarrow> I s \<Longrightarrow> g_bndSide g \<in> V \<Longrightarrow>
    out_ok E (\<lambda>r s'. I s') (guard_step p rec addrTok loadBB fn g r s)"
  using meet_guard_inv by (simp add: guard_step_def Let_def)

lemma refineByGuards_inv:
  assumes c: "call_ok E V I Q rec" and I: "\<And>s. I s \<Longrightarrow> index_in V s" and s: "I s"
  shows "out_ok E (\<lambda>r s'. I s') (refineByGuards p rec valTok addrTok loadBB fn current s)"
proof (cases "gi_guards (guardIndex s) valTok")
  case (Some gs)
  then have "\<forall>g\<in>set gs. g_bndSide g \<in> V" using I [OF s] by (auto simp: index_in_def all_entries_def)
  then have "out_ok E (\<lambda>r s'. I s') (fold_out (guard_step p rec addrTok loadBB fn) gs current s)"
    by (intro out_ok_fold s guard_step_inv [OF c]) auto
  then show ?thesis using Some by (simp add: refineByGuards_def)
qed (simp add: refineByGuards_def s)

lemma refineLoad_inv:
  assumes c: "call_ok E V I Q rec" and E: "E UndefinedBehaviour" and cl: "closed p V"
    and I: "\<And>s. I s \<Longrightarrow> index_in V s" and b: "\<And>s. I s \<Longrightarrow> I (buildGuardIndex p s)" and s: "I s"
  shows "out_ok E (\<lambda>r s'. I s') (refineLoad p rec x current s)"
  using s b [OF s] refineByLoop_inv [OF c E cl I] refineByGuards_inv [OF c I]
  by (simp add: refineLoad_def Let_def split: list.split option.split prod.split)

lemma collectGuards_in:
  assumes "closed p V"
  shows "all_entries (\<lambda>_ g. g_bndSide g \<in> V) (gi_guards (collectGuards p))"
    "all_entries (\<lambda>_ e. st_rhs e \<in> V) (gi_stores (collectGuards p))"
proof -
  have "g_bndSide g \<in> V" if entry: "entry_from p tok g" for tok g
  proof -
    obtain r ops where o: "CmpStmt r ops (g_predicate g) \<in> set (stmtSet p Cmp)" "length ops \<ge> 2"
      "g_bndSide g = ops ! 1 \<or> g_bndSide g = ops ! 0"
      using entry unfolding entry_from_def by meson
    then have "set ops \<subseteq> V" using assms unfolding closed_def by fastforce
    moreover have "ops ! 0 \<in> set ops" "ops ! 1 \<in> set ops" using o(2) by (auto intro!: nth_mem)
    ultimately show ?thesis using o(3) by auto
  qed
  then show "all_entries (\<lambda>_ g. g_bndSide g \<in> V) (gi_guards (collectGuards p))"
    using collectGuards_entries(1) [of p] unfolding all_entries_def by blast
  have "st_rhs e \<in> V" if "store_from p tok e" for tok e
    using that assms unfolding closed_def store_from_def by fastforce
  then show "all_entries (\<lambda>_ e. st_rhs e \<in> V) (gi_stores (collectGuards p))"
    using collectGuards_entries(2) [of p] unfolding all_entries_def by blast
qed

lemma buildGuardIndex_in: "closed p V \<Longrightarrow> index_in V s \<Longrightarrow> index_in V (buildGuardIndex p s)"
  using collectGuards_in [of p V] by (simp add: buildGuardIndex_def index_in_def)

text \<open>The values of \<open>V\<close> that can still be expanded.\<close>

definition unanalysed :: "svfir \<Rightarrow> nat option \<Rightarrow> nat set \<Rightarrow> ra \<Rightarrow> nat set" where
  "unanalysed p ctx V s = {x \<in> V. resolveRange p x ctx = None \<and> isBottom (getCachedVarRange ctx x s)}"

lemma getCached_set [simp]:
  "getCachedVarRange ctx y (setCachedVarRange ctx x r s) = (if y = x then r else getCachedVarRange ctx y s)"
  by (auto simp: getCachedVarRange_def setCachedVarRange_def getVarRange_def split: option.split)

lemma getCached_build [simp]: "getCachedVarRange ctx y (buildGuardIndex p s) = getCachedVarRange ctx y s"
  by (simp add: buildGuardIndex_def getCachedVarRange_def getVarRange_def split: option.split)

lemma setCached_other [simp]:
  "guardIndex (setCachedVarRange ctx x r s) = guardIndex s"
  "guardEnabled (setCachedVarRange ctx x r s) = guardEnabled s"
  "formalBindings (setCachedVarRange ctx x r s) = formalBindings s"
  by (simp_all add: setCachedVarRange_def split: option.split)

lemma index_in_set [simp]: "index_in V (setCachedVarRange ctx x r s) = index_in V s"
  by (simp add: index_in_def)

lemma const_range_nonbottom [simp]: "\<not> isBottom (const_range c)"
  by (simp add: isBottom_def)

lemma analyzeVarRange_terminates_upto:
  assumes V: "finite V" and cl: "closed p V"
  shows "x \<in> V \<Longrightarrow> U \<subseteq> V \<Longrightarrow> card U < n \<Longrightarrow> index_in V s \<Longrightarrow> unanalysed p ctx V s \<subseteq> U \<Longrightarrow>
    out_ok (\<lambda>e. e \<noteq> OutOfFuel) (\<lambda>r s'. index_in V s' \<and> unanalysed p ctx V s' \<subseteq> U)
      (analyzeVarRange p n ctx x d s)"
proof (induction n arbitrary: x U s d)
  case (Suc n)
  let ?I = "\<lambda>U s. index_in V s \<and> unanalysed p ctx V s \<subseteq> U"
  let ?E = "\<lambda>e. e \<noteq> OutOfFuel"
  let ?rec = "analyzeVarRange p n ctx"
  have add: "?I W s' \<Longrightarrow> ?I (insert x W) (setCachedVarRange ctx x r s')" for W s' r
    by (auto simp: unanalysed_def)
  have keep: "?I U (setCachedVarRange ctx x r s)" if "resolveRange p x ctx \<noteq> None \<or> \<not> isBottom r" for r
    using Suc.prems(4,5) that by (auto simp: unanalysed_def)
  have dyn: "out_ok ?E (\<lambda>r s'. ?I U s') (analyzeDynamic p ?rec ctx x d s)"
    if "resolveRange p x ctx = None" "isBottom (getCachedVarRange ctx x s)"
  proof -
    have xU: "x \<in> U" using that Suc.prems(1,5) by (auto simp: unanalysed_def)
    let ?W = "U - {x}"
    have Wsub: "?W \<subseteq> V" using Suc.prems(2) by blast
    have fU: "finite U" using Suc.prems(2) V by (rule finite_subset)
    then have cW: "card ?W < n" using xU Suc.prems(3) card_Diff1_less [OF fU xU] by linarith
    have c: "call_ok ?E V (?I ?W) (\<lambda>_ _. True) ?rec"
      unfolding call_ok_def using Suc.IH [of _ ?W] Wsub cW by (auto intro: out_ok_mono)
    have st: "?I ?W (setCachedVarRange ctx x TOP s)"
      using Suc.prems(4,5) by (auto simp: unanalysed_def)
    have b: "?I ?W s' \<Longrightarrow> ?I ?W (buildGuardIndex p s')" for s'
      using buildGuardIndex_in [OF cl] by (simp add: unanalysed_def)
    have ins: "insert x ?W = U" using xU by auto
    have rf: "out_ok ?E (\<lambda>r s'. ?I ?W s') (if guardEnabled s' then refineLoad p ?rec x r s' else Inr (r, s'))"
      if "?I ?W s'" for r s'
    proof -
      have "out_ok ?E (\<lambda>r s'. ?I ?W s') (refineLoad p ?rec x r s')"
        by (rule refineLoad_inv [OF c _ cl]) (use that b in auto)
      then show ?thesis using that by simp
    qed
    have fin: "out_ok ?E (\<lambda>r s'. ?I U s') (Inr (r, setCachedVarRange ctx x r s'))" if "?I ?W s'" for r s'
      using add [OF that, of r] ins by simp
    have sub: "?I ?W s' \<Longrightarrow> ?I U s'" for s' by auto
    show ?thesis
      unfolding analyzeDynamic_def
    proof (rule out_ok_then [OF deriveRange_inv [OF c _ st cl Suc.prems(1)]])
      fix r s'
      assume i: "?I ?W s'"
      show "out_ok ?E (\<lambda>r s'. ?I U s') (if isBottom r then Inr (r, s')
          else and_then (if guardEnabled s' then refineLoad p ?rec x r s' else Inr (r, s'))
            (\<lambda>r s. Inr (r, setCachedVarRange ctx x r s)))"
        using sub [OF i] out_ok_then [OF rf [OF i] fin] by simp
    qed simp
  qed
  show ?case
    using Suc.prems(4,5) keep dyn by (auto simp: analyzeBody_def Let_def split: option.split)
qed simp

end
