(* ===== verification/BofApi.thy ===== *)
theory BofApi
  imports BofRangeAnalysis
begin

text \<open>
  The tables of library functions behind the buffer overflow checker:
  \<open>SaberMemTransferAPI\<close> (\<open>svf/include/SABER/SaberMemTransferAPI.h\<close>, \<open>svf/lib/SABER/SaberMemTransferAPI.cpp\<close>) with its
  wrapper \<open>MemCopyAPIRegistry\<close>, and \<open>AllocAPIRegistry\<close> (\<open>svf/lib/BOF/MemCopyAPIRegistry.cpp\<close>,
  \<open>svf/lib/BOF/AllocAPIRegistry.cpp\<close>).

  What the project file adds (\<open>SaberSemanticRules::find\<close>) and what other tables know about allocators
  (\<open>SaberCheckerAPI\<close>, \<open>ExtAPI\<close>) are arguments. Argument positions are the bytes of the source, signed or
  unsigned.
\<close>

section \<open>Memory transfer functions\<close>

datatype transfer_kind = TK_DUMMY | TK_COPY | TK_SET | TK_STRING_COPY | TK_STRING_CAT | TK_FORMAT_WRITE | TK_USER_COPY

record access_rule =
  bufArgIdx :: int
  lenArgIdx :: int

record ptr_propagate =
  dstArgIdx :: nat
  srcArgIdx :: nat
  pp_lenArgIdx :: int
  pp_enabled :: bool

record transfer_spec =
  ts_kind :: transfer_kind
  ptrProp :: ptr_propagate
  accessRules :: "access_rule list"
  strCopyLike :: bool
  strSrcArgIdx :: nat

datatype spec_id = SID_MEMCPY | SID_BCOPY | SID_MEMCPY_S | SID_MEMSET | SID_MEMSET_S | SID_BZERO | SID_STRN_EXPLICIT
  | SID_STR_IMPLICIT | SID_STRCAT_IMPLICIT | SID_SNPRINTF | SID_MEMCCPY | SID_USER_COPY

definition rules_of :: "(int \<times> int) list \<Rightarrow> access_rule list" where
  "rules_of xs = map (\<lambda>(b, l). \<lparr>bufArgIdx = b, lenArgIdx = l\<rparr>) xs"

definition spec_of :: "transfer_kind \<Rightarrow> nat \<Rightarrow> nat \<Rightarrow> int \<Rightarrow> bool \<Rightarrow> (int \<times> int) list \<Rightarrow> bool \<Rightarrow> nat \<Rightarrow> transfer_spec" where
  "spec_of k d s l e rs str si = \<lparr>ts_kind = k,
     ptrProp = \<lparr>dstArgIdx = d, srcArgIdx = s, pp_lenArgIdx = l, pp_enabled = e\<rparr>,
     accessRules = rules_of rs, strCopyLike = str, strSrcArgIdx = si\<rparr>"

fun spec_templates :: "spec_id \<Rightarrow> transfer_spec" where
  "spec_templates SID_MEMCPY = spec_of TK_COPY 0 1 2 True [(0, 2), (1, 2)] False 0"
| "spec_templates SID_BCOPY = spec_of TK_COPY 1 0 2 True [(1, 2), (0, 2)] False 0"
| "spec_templates SID_MEMCPY_S = spec_of TK_COPY 0 2 3 True [(0, 3), (2, 3)] False 0"
| "spec_templates SID_MEMSET = spec_of TK_SET 0 0 2 False [(0, 2)] False 0"
| "spec_templates SID_MEMSET_S = spec_of TK_SET 0 0 3 False [(0, 3)] False 0"
| "spec_templates SID_BZERO = spec_of TK_SET 0 0 1 False [(0, 1)] False 0"
| "spec_templates SID_STRN_EXPLICIT = spec_of TK_STRING_COPY 0 0 2 False [(0, 2)] False 0"
| "spec_templates SID_STR_IMPLICIT = spec_of TK_STRING_COPY 0 0 (- 1) False [(0, - 1)] True 1"
| "spec_templates SID_STRCAT_IMPLICIT = spec_of TK_STRING_CAT 0 0 (- 1) False [(0, - 1)] True 1"
| "spec_templates SID_SNPRINTF = spec_of TK_FORMAT_WRITE 0 0 1 False [(0, 1)] False 0"
| "spec_templates SID_MEMCCPY = spec_of TK_COPY 0 1 3 False [(0, 3), (1, 3)] False 0"
| "spec_templates SID_USER_COPY = spec_of TK_USER_COPY 0 1 2 False [(0, 2), (1, 2)] False 0"

definition mt_pairs :: "(string \<times> spec_id) list" where
  "mt_pairs =
    [(''memcpy'', SID_MEMCPY), (''memmove'', SID_MEMCPY), (''__memcpy_chk'', SID_MEMCPY), (''__memmove_chk'', SID_MEMCPY),
     (''wmemcpy'', SID_MEMCPY), (''wmemmove'', SID_MEMCPY), (''llvm_memcpy'', SID_MEMCPY),
     (''llvm_memcpy_p0i8_p0i8_i64'', SID_MEMCPY), (''llvm_memcpy_p0_p0_i64'', SID_MEMCPY),
     (''llvm_memcpy_p0i8_p0i8_i32'', SID_MEMCPY), (''llvm_memmove'', SID_MEMCPY),
     (''llvm_memmove_p0i8_p0i8_i64'', SID_MEMCPY), (''llvm_memmove_p0_p0_i64'', SID_MEMCPY),
     (''llvm_memmove_p0i8_p0i8_i32'', SID_MEMCPY),
     (''bcopy'', SID_BCOPY),
     (''memcpy_s'', SID_MEMCPY_S), (''memmove_s'', SID_MEMCPY_S),
     (''memset'', SID_MEMSET), (''__memset_chk'', SID_MEMSET), (''wmemset'', SID_MEMSET), (''llvm_memset'', SID_MEMSET),
     (''llvm_memset_p0i8_i32'', SID_MEMSET), (''llvm_memset_p0i8_i64'', SID_MEMSET),
     (''llvm_memset_p0_i32'', SID_MEMSET), (''llvm_memset_p0_i64'', SID_MEMSET),
     (''memset_s'', SID_MEMSET_S),
     (''bzero'', SID_BZERO),
     (''strncpy'', SID_STRN_EXPLICIT), (''__strncpy_chk'', SID_STRN_EXPLICIT), (''strncat'', SID_STRN_EXPLICIT),
     (''__strncat_chk'', SID_STRN_EXPLICIT), (''strncpy_s'', SID_STRN_EXPLICIT), (''strncat_s'', SID_STRN_EXPLICIT),
     (''strcpy'', SID_STR_IMPLICIT), (''__strcpy_chk'', SID_STR_IMPLICIT), (''stpcpy'', SID_STR_IMPLICIT),
     (''strcat'', SID_STRCAT_IMPLICIT), (''__strcat_chk'', SID_STRCAT_IMPLICIT),
     (''snprintf'', SID_SNPRINTF), (''__snprintf_chk'', SID_SNPRINTF), (''vsnprintf'', SID_SNPRINTF),
     (''memccpy'', SID_MEMCCPY),
     (''copy_from_user'', SID_USER_COPY), (''raw_copy_from_user'', SID_USER_COPY)]"

subsection \<open>Names\<close>

definition ends_with :: "string \<Rightarrow> string \<Rightarrow> bool" where
  "ends_with suf s = (length suf < length s \<and> drop (length s - length suf) s = suf)"

definition intrinsic_suffixes :: "string list" where
  "intrinsic_suffixes = [''_p0i8_p0i8_i64'', ''_p0_p0_i64'', ''_p0i8_p0i8_i32'', ''_p0i8_i64'', ''_p0i8_i32'',
     ''_p0_i64'', ''_p0_i32'']"

definition stripMemTransferIntrinsicSuffix :: "string \<Rightarrow> string" where
  "stripMemTransferIntrinsicSuffix s = (case find (\<lambda>suf. ends_with suf s) intrinsic_suffixes of
      Some suf \<Rightarrow> take (length s - length suf) s
    | None \<Rightarrow> if ends_with ''_chk'' s then take (length s - 4) s else s)"

text \<open>\<open>None\<close> is the exception of \<open>substr\<close>. The comparison \<open>compare(0, 6, "llvm.")\<close> is with a prefix of six
  characters, so that it holds of the name \<open>llvm.\<close> alone.\<close>

definition normalizeFuncName :: "string \<Rightarrow> string option" where
  "normalizeFuncName name =
    (if take 6 name = ''llvm.'' then None
     else let s = map (\<lambda>c. if c = CHR ''.'' then CHR ''_'' else c) name;
              s1 = (if take 5 s = ''llvm_'' then drop 5 s else s)
          in Some (stripMemTransferIntrinsicSuffix s1))"

text \<open>\<open>None\<close> is the exception, \<open>Some None\<close> the id past the end of the table.\<close>

definition lookupSpecId :: "string \<Rightarrow> spec_id option option" where
  "lookupSpecId name = (case map_of mt_pairs name of
      Some i \<Rightarrow> Some (Some i)
    | None \<Rightarrow> map_option (\<lambda>norm. if norm \<noteq> name then map_of mt_pairs norm else None) (normalizeFuncName name))"

subsection \<open>Specifications\<close>

text \<open>A rule of the project file with its argument positions; the effect is \<open>set\<close>, \<open>string_copy\<close> or another.\<close>

record transfer_rule =
  targetArg :: int
  sourceArg :: int
  lengthArg :: int
  effect :: string

definition to_s8 :: "int \<Rightarrow> int" where
  "to_s8 x = (x + 128) mod 256 - 128"

definition to_u8 :: "int \<Rightarrow> nat" where
  "to_u8 x = nat (x mod 256)"

definition dynamicSpec :: "transfer_rule \<Rightarrow> transfer_spec" where
  "dynamicSpec r =
    (let k = (if effect r = ''set'' then TK_SET else if effect r = ''string_copy'' then TK_STRING_COPY else TK_COPY)
     in \<lparr>ts_kind = k,
       ptrProp = \<lparr>dstArgIdx = to_u8 (if targetArg r < 0 then 0 else targetArg r),
         srcArgIdx = to_u8 (if sourceArg r < 0 then 0 else sourceArg r), pp_lenArgIdx = to_s8 (lengthArg r),
         pp_enabled = (targetArg r \<ge> 0 \<and> sourceArg r \<ge> 0)\<rparr>,
       accessRules = (if targetArg r \<ge> 0 then [\<lparr>bufArgIdx = to_s8 (targetArg r), lenArgIdx = to_s8 (lengthArg r)\<rparr>] else [])
         @ (if sourceArg r \<ge> 0 then [\<lparr>bufArgIdx = to_s8 (sourceArg r), lenArgIdx = to_s8 (lengthArg r)\<rparr>] else []),
       strCopyLike = (k = TK_STRING_COPY),
       strSrcArgIdx = to_u8 (if sourceArg r < 0 then 0 else sourceArg r)\<rparr>)"

definition getSpecByName :: "(string \<Rightarrow> transfer_rule option) \<Rightarrow> string \<Rightarrow> transfer_spec option option" where
  "getSpecByName rules name = (case rules name of
      Some r \<Rightarrow> Some (Some (dynamicSpec r))
    | None \<Rightarrow> map_option (map_option spec_templates) (lookupSpecId name))"

definition isMemcpyLike :: "(string \<Rightarrow> transfer_rule option) \<Rightarrow> string option \<Rightarrow> bool option" where
  "isMemcpyLike rules f = (case f of None \<Rightarrow> Some False
    | Some name \<Rightarrow> map_option (\<lambda>sp. case sp of None \<Rightarrow> False
        | Some t \<Rightarrow> ts_kind t \<in> {TK_COPY, TK_STRING_COPY, TK_STRING_CAT}) (getSpecByName rules name))"

definition isMemsetLike :: "(string \<Rightarrow> transfer_rule option) \<Rightarrow> string option \<Rightarrow> bool option" where
  "isMemsetLike rules f = (case f of None \<Rightarrow> Some False
    | Some name \<Rightarrow> map_option (\<lambda>sp. case sp of None \<Rightarrow> False | Some t \<Rightarrow> ts_kind t = TK_SET) (getSpecByName rules name))"

definition isUserCopyLike :: "(string \<Rightarrow> transfer_rule option) \<Rightarrow> string option \<Rightarrow> bool option" where
  "isUserCopyLike rules f = (case f of None \<Rightarrow> Some False
    | Some name \<Rightarrow> map_option (\<lambda>sp. case sp of None \<Rightarrow> False | Some t \<Rightarrow> ts_kind t = TK_USER_COPY) (getSpecByName rules name))"

definition isStrCopyLike :: "(string \<Rightarrow> transfer_rule option) \<Rightarrow> string \<Rightarrow> bool option" where
  "isStrCopyLike rules name = map_option (\<lambda>sp. case sp of None \<Rightarrow> False | Some t \<Rightarrow> strCopyLike t) (getSpecByName rules name)"

definition getAccessRules :: "(string \<Rightarrow> transfer_rule option) \<Rightarrow> string \<Rightarrow> access_rule list option" where
  "getAccessRules rules name = map_option (\<lambda>sp. case sp of None \<Rightarrow> [] | Some t \<Rightarrow> accessRules t) (getSpecByName rules name)"

text \<open>\<open>MemCopyAPIRegistry::getRules\<close>: no rules are a null pointer.\<close>

definition getRules :: "(string \<Rightarrow> transfer_rule option) \<Rightarrow> string \<Rightarrow> access_rule list option option" where
  "getRules rules name = map_option (\<lambda>rs. if rs = [] then None else Some rs) (getAccessRules rules name)"

section \<open>Allocators\<close>

datatype alloc_kind = SIZE_ARG | ELEM_MUL_ARG

record alloc_spec =
  as_kind :: alloc_kind
  sizeArgIdx :: int
  countArgIdx :: int

definition localTable :: "(string \<times> alloc_spec) list" where
  "localTable = map (\<lambda>(n, k, s, c). (n, \<lparr>as_kind = k, sizeArgIdx = s, countArgIdx = c\<rparr>))
    [(''malloc'', SIZE_ARG, 0, - 1), (''xmalloc'', SIZE_ARG, 0, - 1), (''valloc'', SIZE_ARG, 0, - 1),
     (''alloca'', SIZE_ARG, 0, - 1), (''_TIFFmalloc'', SIZE_ARG, 0, - 1), (''VOS_MemAlloc'', SIZE_ARG, 0, - 1),
     (''strdup'', SIZE_ARG, 0, - 1), (''kmem_cache_alloc'', SIZE_ARG, 0, - 1),
     (''strndup'', SIZE_ARG, 1, - 1), (''realloc'', SIZE_ARG, 1, - 1), (''LOS_MemAlloc'', SIZE_ARG, 1, - 1),
     (''LOS_MemRealloc'', SIZE_ARG, 2, - 1), (''OsalMemAlloc'', SIZE_ARG, 0, - 1), (''OsalMemCalloc'', SIZE_ARG, 0, - 1),
     (''OsalMemAllocAlign'', SIZE_ARG, 1, - 1),
     (''calloc'', ELEM_MUL_ARG, 1, 0), (''SoftBusCalloc'', ELEM_MUL_ARG, 1, 0), (''SysCalloc'', ELEM_MUL_ARG, 1, 0)]"

text \<open>What the other tables say of a function: \<open>SaberCheckerAPI::isMemAlloc\<close> and the three queries of
  \<open>ExtAPI\<close>.\<close>

record ext_alloc =
  isMemAlloc :: "string \<Rightarrow> bool"
  is_alloc :: "string \<Rightarrow> bool"
  is_realloc :: "string \<Rightarrow> bool"
  allocHeapRet :: "string \<Rightarrow> bool"

definition resolveAlloc :: "ext_alloc \<Rightarrow> string option \<Rightarrow> alloc_spec option" where
  "resolveAlloc ext f = (case f of None \<Rightarrow> None
    | Some name \<Rightarrow> (case map_of localTable name of
        Some sp \<Rightarrow> Some sp
      | None \<Rightarrow>
        if isMemAlloc ext name \<or> is_alloc ext name \<or> is_realloc ext name \<or> allocHeapRet ext name
        then Some \<lparr>as_kind = SIZE_ARG, sizeArgIdx = (if is_realloc ext name then 1 else 0), countArgIdx = - 1\<rparr>
        else None))"

definition isAllocAPI :: "ext_alloc \<Rightarrow> string option \<Rightarrow> bool" where
  "isAllocAPI ext f = (resolveAlloc ext f \<noteq> None)"

section \<open>Lemmas\<close>

text \<open>The names of the table are distinct, as its constructor asserts.\<close>

lemma mt_pairs_distinct: "distinct (map fst mt_pairs)"
  by (simp add: mt_pairs_def)

text \<open>An intrinsic with a suffix for pointers and length has the rules of the library function.\<close>

lemma normalize_intrinsics:
  "normalizeFuncName ''llvm.memcpy.p0.p0.i64'' = Some ''memcpy''" "normalizeFuncName ''llvm.memmove.p0.p0.i64'' = Some ''memmove''"
  "normalizeFuncName ''llvm.memset.p0.i64'' = Some ''memset''" "normalizeFuncName ''llvm.memcpy.p0i8.p0i8.i32'' = Some ''memcpy''"
  "normalizeFuncName ''llvm.'' = None"
  by (simp_all add: normalizeFuncName_def stripMemTransferIntrinsicSuffix_def intrinsic_suffixes_def ends_with_def)

end
