(* ===== verification/WorkLists.thy ===== *)
theory WorkLists
  imports Prelude
begin

text \<open>
  The work lists of \<open>svf/include/Util/WorkList.h\<close>. \<open>FIFOWorkList\<close> and \<open>FILOWorkList\<close> hold
  a sequence and the set of its elements; a failed assertion is \<open>None\<close>. \<open>List\<close> is a linked list
  with a set that \<open>push\<close> tests but never fills.

  The locale \<open>worklist\<close> is what a solver needs of a work list. The loop of the solvers is
  \<open>work_loop\<close>: take an element and process it until none is left.
\<close>

section \<open>The lists\<close>

record 'a work_list =
  data_set :: "'a set"
  data_list :: "'a list"

definition wl_new :: "'a work_list" where
  "wl_new = \<lparr>data_set = {}, data_list = []\<rparr>"

definition fifo_empty :: "'a work_list \<Rightarrow> bool" where
  "fifo_empty w = (data_list w = [])"

definition fifo_size :: "'a work_list \<Rightarrow> nat option" where
  "fifo_size w = (if length (data_list w) = card (data_set w) then Some (to_u32 (int (length (data_list w)))) else None)"

definition fifo_find :: "'a \<Rightarrow> 'a work_list \<Rightarrow> bool" where
  "fifo_find d w = (d \<in> data_set w)"

definition fifo_push :: "'a \<Rightarrow> 'a work_list \<Rightarrow> bool \<times> 'a work_list" where
  "fifo_push d w =
     (if \<not> fifo_find d w then (True, \<lparr>data_set = insert d (data_set w), data_list = data_list w @ [d]\<rparr>) else (False, w))"

definition fifo_front :: "'a work_list \<Rightarrow> 'a option" where
  "fifo_front w = (if fifo_empty w then None else Some (hd (data_list w)))"

definition fifo_removeFront :: "'a work_list \<Rightarrow> 'a work_list option" where
  "fifo_removeFront w = map_option (\<lambda>d. \<lparr>data_set = data_set w - {d}, data_list = tl (data_list w)\<rparr>) (fifo_front w)"

definition fifo_pop :: "'a work_list \<Rightarrow> ('a \<times> 'a work_list) option" where
  "fifo_pop w = (case data_list w of [] \<Rightarrow> None | d # ds \<Rightarrow> Some (d, \<lparr>data_set = data_set w - {d}, data_list = ds\<rparr>))"

definition fifo_clear :: "'a work_list \<Rightarrow> 'a work_list" where
  "fifo_clear w = \<lparr>data_set = {}, data_list = []\<rparr>"

definition filo_empty :: "'a work_list \<Rightarrow> bool" where
  "filo_empty w = (data_list w = [])"

definition filo_size :: "'a work_list \<Rightarrow> nat option" where
  "filo_size w = (if length (data_list w) = card (data_set w) then Some (to_u32 (int (length (data_list w)))) else None)"

definition filo_find :: "'a \<Rightarrow> 'a work_list \<Rightarrow> bool" where
  "filo_find d w = (d \<in> data_set w)"

definition filo_push :: "'a \<Rightarrow> 'a work_list \<Rightarrow> bool \<times> 'a work_list" where
  "filo_push d w =
     (if \<not> filo_find d w then (True, \<lparr>data_set = insert d (data_set w), data_list = data_list w @ [d]\<rparr>) else (False, w))"

definition filo_back :: "'a work_list \<Rightarrow> 'a option" where
  "filo_back w = (if filo_empty w then None else Some (last (data_list w)))"

definition filo_removeBack :: "'a work_list \<Rightarrow> 'a work_list option" where
  "filo_removeBack w = map_option (\<lambda>d. \<lparr>data_set = data_set w - {d}, data_list = butlast (data_list w)\<rparr>) (filo_back w)"

definition filo_pop :: "'a work_list \<Rightarrow> ('a \<times> 'a work_list) option" where
  "filo_pop w = (if filo_empty w then None
     else let d = last (data_list w) in Some (d, \<lparr>data_set = data_set w - {d}, data_list = butlast (data_list w)\<rparr>))"

definition filo_clear :: "'a work_list \<Rightarrow> 'a work_list" where
  "filo_clear w = \<lparr>data_set = {}, data_list = []\<rparr>"

text \<open>\<open>List\<close>: the nodes from \<open>head\<close> to \<open>tail\<close>.\<close>

record 'a linked_list =
  nodeSet :: "'a set"
  nodes :: "'a list"

definition list_new :: "'a linked_list" where
  "list_new = \<lparr>nodeSet = {}, nodes = []\<rparr>"

definition list_empty :: "'a linked_list \<Rightarrow> bool" where
  "list_empty l = (nodes l = [])"

definition list_find :: "'a \<Rightarrow> 'a linked_list \<Rightarrow> bool" where
  "list_find d l = (d \<in> nodeSet l)"

definition list_push :: "'a \<Rightarrow> 'a linked_list \<Rightarrow> 'a linked_list" where
  "list_push d l = (if d \<notin> nodeSet l then l\<lparr>nodes := nodes l @ [d]\<rparr> else l)"

definition list_pop :: "'a linked_list \<Rightarrow> ('a \<times> 'a linked_list) option" where
  "list_pop l = (case nodes l of [] \<Rightarrow> None | d # ds \<Rightarrow> Some (d, \<lparr>nodeSet = nodeSet l - {d}, nodes = ds\<rparr>))"

section \<open>The contract of a work list\<close>

definition wl_ok :: "'a work_list \<Rightarrow> bool" where
  "wl_ok w = (distinct (data_list w) \<and> data_set w = set (data_list w))"

locale worklist =
  fixes inv :: "'w \<Rightarrow> bool"
    and elems :: "'w \<Rightarrow> 'a set"
    and emp :: "'w \<Rightarrow> bool"
    and mem :: "'a \<Rightarrow> 'w \<Rightarrow> bool"
    and push :: "'a \<Rightarrow> 'w \<Rightarrow> bool \<times> 'w"
    and pop :: "'w \<Rightarrow> ('a \<times> 'w) option"
  assumes finite_elems: "inv w \<Longrightarrow> finite (elems w)"
    and emp_iff: "inv w \<Longrightarrow> emp w = (elems w = {})"
    and mem_iff: "inv w \<Longrightarrow> mem x w = (x \<in> elems w)"
    and push_ok: "inv w \<Longrightarrow> fst (push x w) = (x \<notin> elems w) \<and> inv (snd (push x w)) \<and> elems (snd (push x w)) = insert x (elems w)"
    and pop_None: "inv w \<Longrightarrow> pop w = None \<longleftrightarrow> elems w = {}"
    and pop_Some: "inv w \<Longrightarrow> pop w = Some (x, w') \<Longrightarrow> x \<in> elems w \<and> inv w' \<and> elems w' = elems w - {x}"
begin

lemma pop_cases:
  assumes "inv w"
  obtains "pop w = None" "elems w = {}"
    | x w' where "pop w = Some (x, w')" "x \<in> elems w" "inv w'" "elems w' = elems w - {x}"
proof (cases "pop w")
  case None
  then show ?thesis using that(1) pop_None [OF assms] by blast
next
  case (Some q)
  then obtain x w' where "pop w = Some (x, w')" by (cases q) simp
  then show ?thesis using that(2) pop_Some [OF assms] by blast
qed

text \<open>An element is not taken twice unless it is pushed again: taking everything out, each element
  comes once.\<close>

primrec drain :: "nat \<Rightarrow> 'w \<Rightarrow> 'a list \<times> 'w" where
  "drain 0 w = ([], w)"
| "drain (Suc n) w = (case pop w of None \<Rightarrow> ([], w) | Some (x, w') \<Rightarrow> (x # fst (drain n w'), snd (drain n w')))"

lemma drain_all:
  "inv w \<Longrightarrow> card (elems w) \<le> n \<Longrightarrow> distinct (fst (drain n w)) \<and> set (fst (drain n w)) = elems w \<and> emp (snd (drain n w))"
proof (induction n arbitrary: w)
  case 0
  then show ?case using finite_elems emp_iff by simp
next
  case (Suc n)
  show ?case
  proof (cases rule: pop_cases [OF Suc.prems(1)])
    case 1
    then show ?thesis using emp_iff Suc.prems(1) by simp
  next
    case (2 x w')
    have "card (elems w') \<le> n" using Suc.prems finite_elems [of w] 2(2,4) by (simp add: card_Diff_singleton)
    then have "distinct (fst (drain n w')) \<and> set (fst (drain n w')) = elems w - {x} \<and> emp (snd (drain n w'))"
      using Suc.IH [OF 2(3)] 2(4) by simp
    then show ?thesis using 2(1,2) by auto
  qed
qed

end

interpretation fifo: worklist wl_ok data_set fifo_empty fifo_find fifo_push fifo_pop
  by unfold_locales (auto simp: wl_ok_def fifo_empty_def fifo_find_def fifo_push_def fifo_pop_def split: list.splits)

lemma filo_parts:
  "wl_ok w \<Longrightarrow> data_list w \<noteq> [] \<Longrightarrow> set (butlast (data_list w)) = data_set w - {last (data_list w)} \<and> distinct (butlast (data_list w))"
proof (induction "data_list w" arbitrary: w rule: rev_induct)
  case (snoc x xs)
  then have "data_list w = xs @ [x]" by simp
  then show ?case using snoc.prems(1) by (auto simp: wl_ok_def)
qed simp

interpretation filo: worklist wl_ok data_set filo_empty filo_find filo_push filo_pop
proof
  fix w x w' assume w: "wl_ok (w :: 'a work_list)"
  show "filo_pop w = None \<longleftrightarrow> data_set w = {}" using w by (auto simp: filo_pop_def filo_empty_def wl_ok_def Let_def)
  assume p: "filo_pop w = Some (x, w')"
  then have ne: "data_list w \<noteq> []" by (simp add: filo_pop_def filo_empty_def split: if_splits)
  have x: "x = last (data_list w)" "w' = \<lparr>data_set = data_set w - {x}, data_list = butlast (data_list w)\<rparr>"
    using p ne by (auto simp add: filo_pop_def filo_empty_def Let_def)
  have "last (data_list w) \<in> data_set w" using w last_in_set [OF ne] by (simp add: wl_ok_def)
  then show "x \<in> data_set w \<and> wl_ok w' \<and> data_set w' = data_set w - {x}"
    unfolding wl_ok_def x(2) using filo_parts [OF w ne] by (simp add: x(1))
qed (auto simp: wl_ok_def filo_empty_def filo_find_def filo_push_def)

section \<open>Runs of a work list\<close>

datatype 'a wl_cmd = Push 'a | Pop

text \<open>The elements that a sequence of calls has accepted and those it has handed out.\<close>

fun wl_run :: "('a \<Rightarrow> 'w \<Rightarrow> bool \<times> 'w) \<Rightarrow> ('w \<Rightarrow> ('a \<times> 'w) option) \<Rightarrow> 'a wl_cmd list \<Rightarrow> 'w \<Rightarrow> ('a list \<times> 'a list \<times> 'w) option" where
  "wl_run push pop [] w = Some ([], [], w)"
| "wl_run push pop (Push x # cs) w = map_option (\<lambda>(ins, outs, v). (if fst (push x w) then x # ins else ins, outs, v))
     (wl_run push pop cs (snd (push x w)))"
| "wl_run push pop (Pop # cs) w = Option.bind (pop w) (\<lambda>(x, w'). map_option (\<lambda>(ins, outs, v). (ins, x # outs, v))
     (wl_run push pop cs w'))"

text \<open>What the two lists promise: a queue and a stack in which an element that is present is not
  entered again. The queue is written from its front, the stack from its top.\<close>

definition queue_push :: "'a \<Rightarrow> 'a list \<Rightarrow> bool \<times> 'a list" where
  "queue_push x q = (if x \<in> set q then (False, q) else (True, q @ [x]))"

definition stack_push :: "'a \<Rightarrow> 'a list \<Rightarrow> bool \<times> 'a list" where
  "stack_push x s = (if x \<in> set s then (False, s) else (True, x # s))"

primrec take_first :: "'a list \<Rightarrow> ('a \<times> 'a list) option" where
  "take_first [] = None"
| "take_first (x # xs) = Some (x, xs)"

lemma fifo_refines:
  assumes "wl_ok w"
  shows "(fst (fifo_push x w), data_list (snd (fifo_push x w))) = queue_push x (data_list w)"
    "map_option (map_prod id data_list) (fifo_pop w) = take_first (data_list w)"
  using assms by (auto simp: wl_ok_def fifo_push_def fifo_find_def queue_push_def fifo_pop_def split: list.splits)

lemma filo_refines:
  assumes "wl_ok w"
  shows "(fst (filo_push x w), rev (data_list (snd (filo_push x w)))) = stack_push x (rev (data_list w))"
    "map_option (map_prod id (\<lambda>w. rev (data_list w))) (filo_pop w) = take_first (rev (data_list w))"
  using assms by (cases "data_list w" rule: rev_cases; auto simp: wl_ok_def filo_push_def filo_find_def stack_push_def
    filo_pop_def filo_empty_def Let_def)+

text \<open>A run of a list is a run of what it promises, for any abstraction that its operations respect.\<close>

lemma wl_run_refines:
  assumes "ok w"
    and "\<And>w x. ok w \<Longrightarrow> ok (snd (push x w)) \<and> (fst (push x w), al (snd (push x w))) = push' x (al w)"
    and "\<And>w. ok w \<Longrightarrow> map_option (map_prod id al) (pop w) = pop' (al w)"
    and "\<And>w x v. ok w \<Longrightarrow> pop w = Some (x, v) \<Longrightarrow> ok v"
  shows "map_option (\<lambda>(ins, outs, v). (ins, outs, al v)) (wl_run push pop cs w) = wl_run push' pop' cs (al w)
    \<and> (\<forall>ins outs v. wl_run push pop cs w = Some (ins, outs, v) \<longrightarrow> ok v)"
  using assms(1)
proof (induction cs arbitrary: w)
  case (Cons c cs)
  show ?case
  proof (cases c)
    case (Push x)
    obtain b u where p: "push x w = (b, u)" by fastforce
    then have u: "ok u" "push' x (al w) = (b, al u)" using assms(2) [OF Cons.prems, of x] by simp_all
    show ?thesis using Cons.IH [OF u(1)] u(2) p Push
      by (cases "wl_run push pop cs u") (auto dest: sym)
  next
    case Pop
    show ?thesis
    proof (cases "pop w")
      case None
      then show ?thesis using assms(3) [OF Cons.prems] Pop by (simp add: eq_commute)
    next
      case (Some q)
      then obtain x u where q: "pop w = Some (x, u)" by (cases q) simp
      have u: "ok u" "pop' (al w) = Some (x, al u)"
        using assms(4) [OF Cons.prems q] assms(3) [OF Cons.prems] q by (simp_all add: eq_commute)
      show ?thesis using Cons.IH [OF u(1)] u(2) q Pop
        by (cases "wl_run push pop cs u") (auto dest: sym)
    qed
  qed
qed simp

lemma fifo_pop_keeps: "wl_ok w \<Longrightarrow> fifo_pop w = Some (x, v) \<Longrightarrow> wl_ok v"
  using fifo.pop_Some [of w x v] by simp

lemma filo_pop_keeps: "wl_ok w \<Longrightarrow> filo_pop w = Some (x, v) \<Longrightarrow> wl_ok v"
  using filo.pop_Some [of w x v] by simp

lemma fifo_run:
  "wl_ok w \<Longrightarrow> map_option (\<lambda>(ins, outs, v). (ins, outs, data_list v)) (wl_run fifo_push fifo_pop cs w)
      = wl_run queue_push take_first cs (data_list w)
    \<and> (\<forall>ins outs v. wl_run fifo_push fifo_pop cs w = Some (ins, outs, v) \<longrightarrow> wl_ok v)"
  by (rule wl_run_refines, assumption, intro conjI, rule fifo.push_ok [THEN conjunct2, THEN conjunct1],
      assumption, erule fifo_refines, erule fifo_refines, erule (1) fifo_pop_keeps)

lemma filo_run:
  "wl_ok w \<Longrightarrow> map_option (\<lambda>(ins, outs, v). (ins, outs, rev (data_list v))) (wl_run filo_push filo_pop cs w)
      = wl_run stack_push take_first cs (rev (data_list w))
    \<and> (\<forall>ins outs v. wl_run filo_push filo_pop cs w = Some (ins, outs, v) \<longrightarrow> wl_ok v)"
  by (rule wl_run_refines [where al = "\<lambda>w. rev (data_list w)"], assumption, intro conjI, rule filo.push_ok [THEN conjunct2, THEN conjunct1],
      assumption, erule filo_refines, erule filo_refines, erule (1) filo_pop_keeps)

lemma queue_order:
  "wl_run queue_push take_first cs q = Some (ins, outs, r) \<Longrightarrow> q @ ins = outs @ r"
proof (induction cs arbitrary: q ins outs)
  case (Cons c cs)
  show ?case
  proof (cases c)
    case (Push x)
    obtain b q' where p: "queue_push x q = (b, q')" by fastforce
    obtain ins' where r: "wl_run queue_push take_first cs q' = Some (ins', outs, r)"
      "ins = (if b then x # ins' else ins')" using Cons.prems p Push by auto
    show ?thesis using Cons.IH [OF r(1)] r(2) p by (auto simp: queue_push_def split: if_splits)
  next
    case Pop
    then obtain x q' where "q = x # q'" using Cons.prems by (cases q) simp_all
    then show ?thesis using Cons Pop by auto
  qed
qed simp

lemma wl_ok_size: "wl_ok w \<Longrightarrow> length (data_list w) = card (data_set w)"
  by (simp add: wl_ok_def distinct_card)

text \<open>C25: The work lists are a queue and a stack that hold each element at most once. Every
  sequence of \<open>push\<close> and \<open>pop\<close> from the empty list accepts and hands out exactly the elements that
  it does on the abstract queue (first-in first-out list) and on the abstract stack (first-in
  last-out list), fails exactly where that does (a \<open>pop\<close> of nothing), and leaves the abstract
  contents. The set of the list then is the set of the elements of the sequence, no element occurs
  twice, the assertion of \<open>size\<close> holds and its result is the number of elements, \<open>find\<close> tells
  membership, and the queue still holds the accepted elements after those it handed out.\<close>

theorem work_lists_correct:
  fixes v :: "'a work_list"
  shows "map_option (\<lambda>(ins, outs, v). (ins, outs, data_list v)) (wl_run fifo_push fifo_pop cs wl_new)
      = wl_run queue_push take_first cs []
    \<and> map_option (\<lambda>(ins, outs, v). (ins, outs, rev (data_list v))) (wl_run filo_push filo_pop cs wl_new)
      = wl_run stack_push take_first cs []
    \<and> (wl_run fifo_push fifo_pop cs wl_new = Some (ins, outs, v) \<longrightarrow> ins = outs @ data_list v
      \<and> data_set v = set (data_list v) \<and> distinct (data_list v) \<and> fifo_find x v = (x \<in> set (data_list v))
      \<and> fifo_size v = Some (to_u32 (int (length (data_list v)))))
    \<and> (wl_run filo_push filo_pop cs wl_new = Some (ins, outs, v) \<longrightarrow>
      data_set v = set (data_list v) \<and> distinct (data_list v) \<and> filo_find x v = (x \<in> set (data_list v))
      \<and> filo_size v = Some (to_u32 (int (length (data_list v)))))"
proof -
  have n: "wl_ok (wl_new :: 'a work_list)" "data_list (wl_new :: 'a work_list) = []" by (simp_all add: wl_ok_def wl_new_def)
  have s: "data_set v = set (data_list v) \<and> distinct (data_list v) \<and> fifo_find x v = (x \<in> set (data_list v))
      \<and> fifo_size v = Some (to_u32 (int (length (data_list v)))) \<and> filo_find x v = (x \<in> set (data_list v))
      \<and> filo_size v = Some (to_u32 (int (length (data_list v))))" if "wl_ok v"
    using that wl_ok_size [OF that] by (simp add: wl_ok_def fifo_find_def filo_find_def fifo_size_def filo_size_def)
  have f: "ins = outs @ data_list v" if r: "wl_run fifo_push fifo_pop cs wl_new = Some (ins, outs, v)"
    using queue_order [of cs "[]" ins outs "data_list v"] fifo_run [OF n(1), of cs] r n(2) by (auto dest: sym)
  show ?thesis using fifo_run [OF n(1), of cs] filo_run [OF n(1), of cs] n(2) s f by auto
qed

lemma work_lists_witness:
  "(\<exists>v. wl_run fifo_push fifo_pop [Push (1::nat), Push 2, Push 1, Pop, Push 1] wl_new = Some ([1, 2, 1], [1], v)
      \<and> fifo_size v = Some (to_u32 (int (length (data_list v)))))
    \<and> (\<exists>w. wl_run filo_push filo_pop [Push (1::nat), Push 2, Push 1, Pop, Push 1] wl_new = Some ([1, 2], [2], w)
      \<and> filo_size w = Some (to_u32 (int (length (data_list w)))) \<and> data_set w = set (data_list w))
    \<and> wl_run fifo_push fifo_pop [Push (1::nat), Pop, Pop] wl_new = None"
proof -
  let ?cs = "[Push (1::nat), Push 2, Push 1, Pop, Push 1]"
  obtain v where v: "wl_run fifo_push fifo_pop ?cs wl_new = Some ([1, 2, 1], [1], v)"
    by (simp add: fifo_push_def fifo_find_def fifo_pop_def wl_new_def)
  obtain w where w: "wl_run filo_push filo_pop ?cs wl_new = Some ([1, 2], [2], w)"
    by (simp add: filo_push_def filo_find_def filo_pop_def filo_empty_def wl_new_def Let_def)
  have "wl_run queue_push take_first [Push (1::nat), Pop, Pop] [] = None" by (simp add: queue_push_def)
  then have "wl_run fifo_push fifo_pop [Push (1::nat), Pop, Pop] wl_new = None"
    using work_lists_correct [of "[Push (1::nat), Pop, Pop]"] by simp
  then show ?thesis
    using work_lists_correct [of ?cs "[1, 2, 1]" "[1]" v] work_lists_correct [of ?cs "[1, 2]" "[2]" w] v w by blast
qed

text \<open>\<open>List\<close> does not hold each element once: \<open>push\<close> never fills the set that it tests, so
  that \<open>find\<close> of a pushed element is false and a second \<open>push\<close> appends it again.\<close>

theorem list_duplicates:
  "\<not> list_find x (list_push x (list_push x list_new)) \<and> nodes (list_push x (list_push x list_new)) = [x, x]"
  by (simp add: list_find_def list_push_def list_new_def)

section \<open>The loop of a solver\<close>

partial_function (option) work_loop :: "('s \<Rightarrow> bool) \<Rightarrow> ('s \<Rightarrow> 's option) \<Rightarrow> 's \<Rightarrow> 's option" where
  "work_loop stop step s = (if stop s then Some s else Option.bind (step s) (work_loop stop step))"

text \<open>Facts are derived from one or from two facts. A solver saturates if it takes a fact and adds
  what follows from it, alone and with every fact it knows, and keeps the new facts for later.\<close>

definition sat_closed :: "('f \<Rightarrow> 'f set) \<Rightarrow> ('f \<Rightarrow> 'f \<Rightarrow> 'f set) \<Rightarrow> 'f set \<Rightarrow> bool" where
  "sat_closed single pair D = (\<forall>y\<in>D. single y \<subseteq> D \<and> (\<forall>z\<in>D. pair y z \<subseteq> D))"

text \<open>A loop whose body may fail\<close>

primrec each :: "('a \<Rightarrow> 's \<Rightarrow> 's option) \<Rightarrow> 'a list \<Rightarrow> 's \<Rightarrow> 's option" where
  "each f [] s = Some s"
| "each f (x # xs) s = Option.bind (f x s) (each f xs)"

locale sat_state =
  fixes single :: "'f \<Rightarrow> 'f set"
    and pair :: "'f \<Rightarrow> 'f \<Rightarrow> 'f set"
    and inv :: "'s \<Rightarrow> bool"
    and facts :: "'s \<Rightarrow> 'f set"
    and todo :: "'s \<Rightarrow> 'f set"
    and space :: "'s \<Rightarrow> 'f set"
  assumes bounded: "inv s \<Longrightarrow> finite (space s) \<and> facts s \<subseteq> space s \<and> todo s \<subseteq> facts s"
begin

text \<open>A step that adds the facts \<open>low\<close> and perhaps others that follow from those it knows, and keeps
  the new ones for later.\<close>

definition grow :: "'s \<Rightarrow> 's \<Rightarrow> 'f set \<Rightarrow> bool" where
  "grow s t low = (inv t \<and> space t = space s \<and> facts s \<subseteq> facts t \<and> todo t = todo s \<union> (facts t - facts s) \<and> low \<subseteq> facts t
    \<and> (\<forall>D. sat_closed single pair D \<longrightarrow> facts s \<subseteq> D \<longrightarrow> facts t \<subseteq> D))"

lemma growD: "grow s t low \<Longrightarrow> inv t" "grow s t low \<Longrightarrow> space t = space s" "grow s t low \<Longrightarrow> facts s \<subseteq> facts t"
    "grow s t low \<Longrightarrow> todo t = todo s \<union> (facts t - facts s)" "grow s t low \<Longrightarrow> low \<subseteq> facts t"
    "grow s t low \<Longrightarrow> sat_closed single pair D \<Longrightarrow> facts s \<subseteq> D \<Longrightarrow> facts t \<subseteq> D"
  by (simp_all add: grow_def)

lemma grow_refl: "inv s \<Longrightarrow> low \<subseteq> facts s \<Longrightarrow> grow s s low"
  by (simp add: grow_def)

lemma grow_trans:
  assumes "grow s t low" "grow t u low'"
  shows "grow s u (low \<union> low')"
proof -
  have "facts s \<subseteq> facts u" "low \<union> low' \<subseteq> facts u" using growD(3,5) assms by blast+
  moreover have "todo u = todo s \<union> (facts u - facts s)"
    using growD(4) [OF assms(1)] growD(4) [OF assms(2)] growD(3) [OF assms(1)] growD(3) [OF assms(2)] by blast
  moreover have "\<forall>D. sat_closed single pair D \<longrightarrow> facts s \<subseteq> D \<longrightarrow> facts u \<subseteq> D"
    using growD(6) [OF assms(1)] growD(6) [OF assms(2)] by simp
  moreover have "space u = space s" using growD(2) [OF assms(1)] growD(2) [OF assms(2)] by simp
  ultimately show ?thesis using growD(1) [OF assms(2)] unfolding grow_def by blast
qed

lemma grow_mono: "grow s t low \<Longrightarrow> low' \<subseteq> low \<Longrightarrow> grow s t low'"
  by (auto simp: grow_def)

lemma grow_each:
  assumes "inv s" "\<And>x t. x \<in> set xs \<Longrightarrow> inv t \<Longrightarrow> space t = space s \<Longrightarrow> facts s \<subseteq> facts t \<Longrightarrow> \<exists>u. f x t = Some u \<and> grow t u (low x)"
  shows "\<exists>t. each f xs s = Some t \<and> grow s t (\<Union>x\<in>set xs. low x)"
  using assms
proof (induction xs arbitrary: s)
  case Nil
  then show ?case by (simp add: grow_refl)
next
  case (Cons x xs)
  obtain t where t: "f x s = Some t" "grow s t (low x)" using Cons.prems(2) [of x s] Cons.prems(1) by auto
  have ih: "\<exists>u. f y v = Some u \<and> grow v u (low y)"
    if "y \<in> set xs" "inv v" "space v = space t" "facts t \<subseteq> facts v" for y v
    using that Cons.prems(2) [of y v] growD(2,3) [OF t(2)] by simp
  obtain u where u: "each f xs t = Some u" "grow t u (\<Union>x\<in>set xs. low x)"
    using Cons.IH [OF growD(1) [OF t(2)] ih] by blast
  show ?case using t(1) u(1) grow_trans [OF t(2) u(2)] by auto
qed

lemma grow_fold:
  assumes "inv s" "\<And>x t. x \<in> set xs \<Longrightarrow> inv t \<Longrightarrow> space t = space s \<Longrightarrow> facts s \<subseteq> facts t \<Longrightarrow> grow t (f x t) (low x)"
  shows "grow s (fold f xs s) (\<Union>x\<in>set xs. low x)"
proof -
  have "each (\<lambda>x t. Some (f x t)) xs s = Some (fold f xs s)" for s by (induction xs arbitrary: s) auto
  then show ?thesis using grow_each [of s xs "\<lambda>x t. Some (f x t)" low] assms by auto
qed

text \<open>A condition that the state does not change can be made part of the invariant.\<close>

lemma sat_guard: "sat_state (\<lambda>s. P \<and> inv s) facts todo space"
  using bounded by unfold_locales blast

lemma grow_guard: "sat_state.grow single pair (\<lambda>s. P \<and> inv s) facts todo space s t low \<longleftrightarrow> P \<and> grow s t low"
  unfolding sat_state.grow_def [OF sat_guard] grow_def by blast

end

locale saturation = sat_state single pair inv facts todo space
  for single :: "'f \<Rightarrow> 'f set" and pair and inv :: "'s \<Rightarrow> bool" and facts todo space +
  fixes stop :: "'s \<Rightarrow> bool"
    and step :: "'s \<Rightarrow> 's option"
  assumes stop_iff: "inv s \<Longrightarrow> stop s = (todo s = {})"
    and step_ok: "inv s \<Longrightarrow> todo s \<noteq> {} \<Longrightarrow> \<exists>y s0 t. step s = Some t \<and> y \<in> todo s
      \<and> space s0 = space s \<and> facts s0 = facts s \<and> todo s0 = todo s - {y}
      \<and> grow s0 t (single y \<union> (\<Union>z\<in>facts s. pair y z \<union> pair z y))"
begin

definition settled :: "'s \<Rightarrow> bool" where
  "settled s = (\<forall>y\<in>facts s - todo s. single y \<subseteq> facts s \<and> (\<forall>z\<in>facts s - todo s. pair y z \<subseteq> facts s))"

definition left :: "'s \<Rightarrow> nat" where
  "left s = card (space s - (facts s - todo s))"

lemma loop_ok:
  assumes "inv s" "settled s"
  shows "\<exists>t. work_loop stop step s = Some t \<and> inv t \<and> space t = space s \<and> facts s \<subseteq> facts t \<and> todo t = {} \<and> sat_closed single pair (facts t)
    \<and> (\<forall>D. sat_closed single pair D \<longrightarrow> facts s \<subseteq> D \<longrightarrow> facts t \<subseteq> D)"
  using assms
proof (induction "left s" arbitrary: s rule: less_induct)
  case less
  show ?case
  proof (cases "todo s = {}")
    case True
    then have "work_loop stop step s = Some s" using stop_iff [OF less.prems(1)] by (subst work_loop.simps) simp
    then show ?thesis using less.prems True by (auto simp: settled_def sat_closed_def)
  next
    case False
    then obtain y s0 s' where y: "step s = Some s'" "y \<in> todo s" and s0: "space s0 = space s" "facts s0 = facts s" "todo s0 = todo s - {y}"
        and gr: "grow s0 s' (single y \<union> (\<Union>z\<in>facts s. pair y z \<union> pair z y))"
      using step_ok [OF less.prems(1) False] by (elim exE conjE)
    note b = bounded [OF less.prems(1)]
    have z: "inv s'" "space s' = space s" "facts s \<subseteq> facts s'" "todo s' = todo s - {y} \<union> (facts s' - facts s)"
      "single y \<subseteq> facts s'" "\<And>z. z \<in> facts s \<Longrightarrow> pair y z \<subseteq> facts s' \<and> pair z y \<subseteq> facts s'"
      using growD(1-5) [OF gr] s0 by auto
    have d: "facts s' - todo s' = insert y (facts s - todo s)" using y(2) z(3,4) b by auto
    have st: "settled s'" unfolding settled_def d
    proof (intro ballI conjI)
      fix u v assume u: "u \<in> insert y (facts s - todo s)"
      show "single u \<subseteq> facts s'" using u z(3,5) less.prems(2) by (auto simp: settled_def)
      assume v: "v \<in> insert y (facts s - todo s)"
      show "pair u v \<subseteq> facts s'"
      proof (cases "u = y \<or> v = y")
        case True
        then show ?thesis using y(2) z(6) b u v by blast
      next
        case False
        then show ?thesis using u v z(3) less.prems(2) unfolding settled_def by blast
      qed
    qed
    have "left s' < left s"
      unfolding left_def d z(2) by (rule psubset_card_mono) (use b y(2) in auto)
    from less.hyps [OF this z(1) st] obtain t where t: "work_loop stop step s' = Some t" "inv t" "space t = space s'" "facts s' \<subseteq> facts t"
      "todo t = {}" "sat_closed single pair (facts t)" "\<forall>D. sat_closed single pair D \<longrightarrow> facts s' \<subseteq> D \<longrightarrow> facts t \<subseteq> D"
      by (elim exE conjE)
    have "work_loop stop step s = Some t"
      using t(1) y(1) False stop_iff [OF less.prems(1)] by (subst work_loop.simps) simp
    moreover have "facts s \<subseteq> facts t" using z(3) t(4) by (rule subset_trans)
    moreover have "\<forall>D. sat_closed single pair D \<longrightarrow> facts s \<subseteq> D \<longrightarrow> facts t \<subseteq> D"
      using t(7) growD(6) [OF gr] s0(2) by simp
    moreover have "space t = space s" using t(3) z(2) by simp
    ultimately show ?thesis using t(2,5,6) by (intro exI conjI)
  qed
qed

text \<open>Started with every fact still to be processed, the solver ends, with the least set of facts
  that contains those it was given and is closed under the derivations.\<close>

lemma loop_least:
  assumes "inv s" "todo s = facts s"
  shows "\<exists>t. work_loop stop step s = Some t \<and> inv t \<and> space t = space s \<and> facts t = \<Inter> {D. sat_closed single pair D \<and> facts s \<subseteq> D}"
proof -
  have "settled s" using assms(2) by (simp add: settled_def)
  from loop_ok [OF assms(1) this] obtain t where t: "work_loop stop step s = Some t" "inv t" "space t = space s" "facts s \<subseteq> facts t"
    "sat_closed single pair (facts t)" "\<forall>D. sat_closed single pair D \<longrightarrow> facts s \<subseteq> D \<longrightarrow> facts t \<subseteq> D"
    by (elim exE conjE)
  have "facts t = \<Inter> {D. sat_closed single pair D \<and> facts s \<subseteq> D}" using t(4-6) by (intro equalityI) blast+
  then show ?thesis using t(1-3) by blast
qed

end

end
