(* ===== verification/BofChecker.thy ===== *)
theory BofChecker
  imports BofApi WorkLists
begin

text \<open>
  The buffer overflow checker: \<open>BufferOverflowChecker\<close> of \<open>svf/lib/BOF/BufferOverflowChecker.cpp\<close>, with
  the symbolic allocation sizes of \<open>svf/lib/BOF/HeapAllocationHandler.cpp\<close> and the reports of
  \<open>svf/lib/BOF/BofReporting.cpp\<close>. The checks of memory and string functions are in theory BofMemOps.

  \<open>bof_program\<close> is what the checker reads of the program: the value graph of the range analysis (\<open>pag\<close>),
  the outgoing edges of variables, types, objects, calls, and what project files and options say.
  \<open>bof\<close> is the state of the checker with that of its range analysis. An operation that queries the range
  analysis, or asserts, has an outcome: an error or a state. The loop of \<open>propagate\<close> is \<open>work_loop\<close> of
  theory WorkLists on outcomes.
\<close>

section \<open>The program\<close>

datatype ty_kind = SVFPointerTy | SVFIntegerTy | SVFFunctionTy | SVFStructTy | SVFArrayTy | SVFOtherTy

record gep_stmt =
  gep_dst :: nat
  gep_loc :: "nat option"
  idxOperandPairs :: "(nat \<times> nat option) list"
  gepPointeeType :: nat

text \<open>The outgoing edges of a variable, with what \<open>propagate\<close> reads of them: a store and a load have their
  two sides and the node, a call its formal and its call site, a return its receiver.\<close>

datatype flow_edge = GepEdge gep_stmt | CopyEdge nat "nat option" | StoreEdge nat nat "nat option" | LoadEdge nat "nat option"
  | CallEdge nat nat | RetEdge nat | OtherEdge

text \<open>A stack object with its type and its number of elements, a heap object with its size if that is constant.\<close>

datatype mem_object = StackObjVar nat nat | HeapObjVar "nat option" | OtherObj

record addr_stmt =
  addr_src :: nat
  addr_dst :: nat
  addr_node :: "nat option"

record call_pe =
  pe_lhs :: nat
  pe_rhs :: nat
  pe_call :: nat
  pe_isCall :: bool

record call_node =
  cn_callee :: "nat option"
  cn_args :: "nat list"
  cn_ret :: "nat option"

record bof_program =
  pag :: svfir
  outEdges :: "nat \<Rightarrow> flow_edge list"
  isPointerVar :: "nat \<Rightarrow> bool"
  varType :: "nat \<Rightarrow> nat option"
  memObject :: "nat \<Rightarrow> mem_object"
  tyKind :: "nat \<Rightarrow> ty_kind"
  isSingleValueType :: "nat \<Rightarrow> bool"
  byteSizeOf :: "nat \<Rightarrow> nat"
  flattenedFieldIdxVec :: "nat \<Rightarrow> nat list"
  flattenedElemIdxVec :: "nat \<Rightarrow> nat list"
  numOfFlattenElements :: "nat \<Rightarrow> nat"
  numOfFlattenFields :: "nat \<Rightarrow> nat"
  modelArrays :: bool
  maxFieldLimit :: nat
  addrStmts :: "addr_stmt list"
  callStmts :: "call_pe list"
  callSiteSet :: "nat list"
  icfgNodes :: "nat list"
  callNode :: "nat \<Rightarrow> call_node option"
  funName :: "nat \<Rightarrow> string"
  sourceLoc :: "nat \<Rightarrow> string"
  ignoredSource :: "string \<Rightarrow> bool"
  transferRules :: "string \<Rightarrow> transfer_rule option"
  extAlloc :: ext_alloc

definition isConstInt :: "bof_program \<Rightarrow> nat \<Rightarrow> bool" where
  "isConstInt p x = (constVal (pag p) x \<noteq> None)"

definition calleeName :: "bof_program \<Rightarrow> call_node \<Rightarrow> string option" where
  "calleeName p c = map_option (funName p) (cn_callee c)"

text \<open>\<open>None\<close> is a failed assertion.\<close>

definition getNumOfFlattenElements :: "bof_program \<Rightarrow> nat \<Rightarrow> nat" where
  "getNumOfFlattenElements p t = (if modelArrays p then numOfFlattenElements p t else numOfFlattenFields p t)"

definition getElementNum :: "bof_program \<Rightarrow> nat \<Rightarrow> nat option" where
  "getElementNum p t =
    (if tyKind p t \<in> {SVFArrayTy, SVFStructTy} then Some (getNumOfFlattenElements p t)
     else if tyKind p t = SVFPointerTy then Some (maxFieldLimit p)
     else if isSingleValueType p t \<or> tyKind p t = SVFFunctionTy then Some 1
     else None)"

definition getFlattenedElemIdx :: "bof_program \<Rightarrow> nat \<Rightarrow> nat \<Rightarrow> nat option" where
  "getFlattenedElemIdx p t origId =
    (if modelArrays p then
       (if origId < length (flattenedElemIdxVec p t) then Some (flattenedElemIdxVec p t ! origId) else None)
     else if tyKind p t = SVFStructTy then
       (if origId < length (flattenedFieldIdxVec p t) then Some (flattenedFieldIdxVec p t ! origId) else None)
     else if tyKind p t = SVFArrayTy then Some 0
     else None)"

section \<open>The state\<close>

datatype bof_kind = GEP_OOB | MEMCPY_OOB | MEMSET_OOB | STRCPY_OOB

record flow_node =
  fn_base :: nat
  fn_parent :: nat
  fn_offset :: range
  fn_isHeap :: bool
  fn_callDepth :: nat
  fn_callContext :: "nat option"

record buffer_info =
  bi_parent :: nat
  bi_offset :: range
  bi_isHeap :: bool

record alloc_size_sym =
  sizeVar :: nat
  factor :: int
  isElemMul :: bool

record pending_report =
  pr_base :: nat
  pr_offset :: range
  pr_size :: range
  pr_isHeap :: bool
  pr_kind :: bof_kind
  pr_loc :: nat
  pr_must :: bool
  pr_callContext :: "nat option"
  pr_indexVar :: "nat option"

type_synonym flow_key = "nat \<times> nat \<times> nat option"

record bof =
  rangeAnalysis :: ra
  flowQueue :: "flow_node list"
  flowState :: "flow_key \<rightharpoonup> range"
  bufferOf :: "nat \<rightharpoonup> buffer_info"
  allocResultSym :: "nat \<rightharpoonup> alloc_size_sym"
  allocAddrSym :: "string \<rightharpoonup> alloc_size_sym"
  fieldSafeVars :: "nat set"
  bugLoc :: "string set"
  pendingReports :: "pending_report list"

definition bof_new :: "string option \<Rightarrow> bof" where
  "bof_new env = \<lparr>rangeAnalysis = ra_new env, flowQueue = [], flowState = Map.empty, bufferOf = Map.empty,
     allocResultSym = Map.empty, allocAddrSym = Map.empty, fieldSafeVars = {}, bugLoc = {}, pendingReports = []\<rparr>"

subsection \<open>Outcomes\<close>

datatype bof_error = RangeError ra_error | Failed

type_synonym 'a bof_out = "bof_error + 'a"

definition bof_then :: "'a bof_out \<Rightarrow> ('a \<Rightarrow> 'b bof_out) \<Rightarrow> 'b bof_out" where
  "bof_then m f = (case m of Inl e \<Rightarrow> Inl e | Inr a \<Rightarrow> f a)"

primrec bof_fold :: "('e \<Rightarrow> 'a \<Rightarrow> 'a bof_out) \<Rightarrow> 'e list \<Rightarrow> 'a \<Rightarrow> 'a bof_out" where
  "bof_fold f [] a = Inr a"
| "bof_fold f (e # es) a = bof_then (f e a) (bof_fold f es)"

definition defined :: "'a option \<Rightarrow> 'a bof_out" where
  "defined v = (case v of None \<Rightarrow> Inl (RangeError UndefinedBehaviour) | Some a \<Rightarrow> Inr a)"

definition asserted :: "'a option \<Rightarrow> 'a bof_out" where
  "asserted v = (case v of None \<Rightarrow> Inl Failed | Some a \<Rightarrow> Inr a)"

text \<open>A query of the range analysis with fuel \<open>n\<close>.\<close>

definition bof_query :: "bof_program \<Rightarrow> nat \<Rightarrow> nat option \<Rightarrow> nat \<Rightarrow> bof \<Rightarrow> (range \<times> bof) bof_out" where
  "bof_query p n ctx x s = (case analyzeVarRange (pag p) n ctx x 0 (rangeAnalysis s) of
      Inl e \<Rightarrow> Inl (RangeError e)
    | Inr r \<Rightarrow> Inr (fst r, s\<lparr>rangeAnalysis := snd r\<rparr>))"

section \<open>Reports\<close>

fun kind_code :: "bof_kind \<Rightarrow> int" where
  "kind_code GEP_OOB = 0"
| "kind_code MEMCPY_OOB = 1"
| "kind_code MEMSET_OOB = 2"
| "kind_code STRCPY_OOB = 3"

definition access_point :: "bof_program \<Rightarrow> nat \<Rightarrow> bof_kind \<Rightarrow> string" where
  "access_point p loc kind = sourceLoc p loc @ ''#'' @ to_string (kind_code kind)"

definition report_key :: "bof_program \<Rightarrow> nat \<Rightarrow> bof_kind \<Rightarrow> nat option \<Rightarrow> string" where
  "report_key p loc kind ctx = access_point p loc kind @ (case ctx of None \<Rightarrow> [] | Some c \<Rightarrow> ''@'' @ to_string (int c))"

definition reportBufferOverflowError :: "bof_program \<Rightarrow> nat \<Rightarrow> range \<Rightarrow> range \<Rightarrow> bool \<Rightarrow> bof_kind \<Rightarrow> nat option \<Rightarrow> bool \<Rightarrow>
    nat option \<Rightarrow> nat option \<Rightarrow> bof \<Rightarrow> bof" where
  "reportBufferOverflowError p base offset valid isHeap kind loc must ctx idx s = (case loc of
      None \<Rightarrow> s
    | Some l \<Rightarrow>
        if ignoredSource p (sourceLoc p l) then s
        else if report_key p l kind ctx \<in> bugLoc s then s
        else s\<lparr>bugLoc := insert (report_key p l kind ctx) (bugLoc s),
          pendingReports := pendingReports s @ [\<lparr>pr_base = base, pr_offset = offset, pr_size = valid, pr_isHeap = isHeap,
            pr_kind = kind, pr_loc = l, pr_must = must, pr_callContext = ctx, pr_indexVar = idx\<rparr>]\<rparr>)"

definition checkAccess :: "bof_program \<Rightarrow> nat \<Rightarrow> range \<Rightarrow> range \<Rightarrow> bool \<Rightarrow> bof_kind \<Rightarrow> nat option \<Rightarrow> nat option \<Rightarrow> nat option \<Rightarrow>
    bof \<Rightarrow> bof" where
  "checkAccess p dst offset valid isHeap kind loc ctx idx s =
    (if isBottom valid then s
     else if isBottom offset then s
     else if isSubset offset valid then s
     else reportBufferOverflowError p dst offset valid isHeap kind loc
       (lower offset > upper valid \<or> upper offset < lower valid) ctx idx s)"

text \<open>\<open>flushReports\<close>: the reports that are emitted, in order. The key of the second test is the access
  point with the verdict and the interval.\<close>

definition mustPoints :: "bof_program \<Rightarrow> pending_report list \<Rightarrow> string set" where
  "mustPoints p prs = (\<lambda>r. access_point p (pr_loc r) (pr_kind r)) ` set (filter pr_must prs)"

definition content_key :: "bof_program \<Rightarrow> pending_report \<Rightarrow> string" where
  "content_key p r = access_point p (pr_loc r) (pr_kind r) @ (if pr_must r then ''!MUST'' else ''!MAY'') @ ''['' @
     to_string (lower (pr_offset r)) @ '','' @ to_string (upper (pr_offset r)) @ '']''"

primrec flush_loop :: "bof_program \<Rightarrow> string set \<Rightarrow> string set \<Rightarrow> pending_report list \<Rightarrow> pending_report list" where
  "flush_loop p must emitted [] = []"
| "flush_loop p must emitted (r # rs) =
    (if \<not> pr_must r \<and> access_point p (pr_loc r) (pr_kind r) \<in> must then flush_loop p must emitted rs
     else if content_key p r \<in> emitted then flush_loop p must emitted rs
     else r # flush_loop p must (insert (content_key p r) emitted) rs)"

text \<open>The emitted reports with the verdict that is displayed.\<close>

definition flushReports :: "bof_program \<Rightarrow> bool \<Rightarrow> bof \<Rightarrow> (pending_report \<times> bool) list" where
  "flushReports p mayAsMust s = map (\<lambda>r. (r, pr_must r \<or> mayAsMust))
     (flush_loop p (mustPoints p (pendingReports s)) {} (pendingReports s))"

section \<open>Propagation\<close>

definition MAX_CALL_DEPTH :: nat where
  "MAX_CALL_DEPTH = 4"

definition MAX_SEED_CONTEXTS :: nat where
  "MAX_SEED_CONTEXTS = 4"

definition enqueue :: "nat \<Rightarrow> nat \<Rightarrow> range \<Rightarrow> bool \<Rightarrow> nat \<Rightarrow> nat option \<Rightarrow> bof \<Rightarrow> bof" where
  "enqueue base parent offset isHeap callDepth ctx s =
    (let key = (parent, base, ctx);
         oldOffset = (case flowState s key of None \<Rightarrow> BOTTOM | Some r \<Rightarrow> r);
         joined = range_join oldOffset offset;
         widened = widening oldOffset joined
     in if flowState s key \<noteq> None \<and> range_eq widened oldOffset then s
        else s\<lparr>flowState := (flowState s)(key \<mapsto> widened),
          bufferOf := (bufferOf s)(base \<mapsto> (case bufferOf s base of
             None \<Rightarrow> \<lparr>bi_parent = parent, bi_offset = widened, bi_isHeap = isHeap\<rparr>
           | Some bi \<Rightarrow> bi\<lparr>bi_offset := range_join (bi_offset bi) widened\<rparr>)),
          flowQueue := flowQueue s @ [\<lparr>fn_base = base, fn_parent = parent, fn_offset = widened, fn_isHeap = isHeap,
            fn_callDepth = callDepth, fn_callContext = ctx\<rparr>]\<rparr>)"

definition enqueue_from :: "nat \<Rightarrow> range \<Rightarrow> flow_node \<Rightarrow> bof \<Rightarrow> bof" where
  "enqueue_from dst offset nd = enqueue dst (fn_parent nd) offset (fn_isHeap nd) (fn_callDepth nd) (fn_callContext nd)"

text \<open>One index operand: the offset accumulated over the operands, the first symbolic index, and the state.\<close>

definition gep_field :: "bof_program \<Rightarrow> gep_stmt \<Rightarrow> flow_node \<Rightarrow> nat \<Rightarrow> range \<Rightarrow> range \<Rightarrow> nat option \<Rightarrow> bof \<Rightarrow>
    (range \<times> nat option \<times> bof) bof_out" where
  "gep_field p e nd t v tot idx s =
    (let type_size = mk_range 0 (int (length (flattenedElemIdxVec p t)) - 1);
         out = (\<not> isSubset v type_size);
         s1 = (if out then checkAccess p (gep_dst e) v type_size False GEP_OOB (gep_loc e) (fn_callContext nd) idx s else s);
         v1 = (if out then range_meet v type_size else v)
     in if isBottom v1 then Inr (tot, idx, s1)
        else bof_then (asserted (getFlattenedElemIdx p t (to_u32 (lower v1)))) (\<lambda>l.
             bof_then (asserted (getFlattenedElemIdx p t (to_u32 (upper v1)))) (\<lambda>u.
             Inr (range_join tot (mk_range (int l) (int u)), idx, s1))))"

definition gep_dim :: "bof_program \<Rightarrow> gep_stmt \<Rightarrow> flow_node \<Rightarrow> nat option \<Rightarrow> range \<Rightarrow> range \<Rightarrow> nat option \<Rightarrow> bof \<Rightarrow>
    (range \<times> nat option \<times> bof) bof_out" where
  "gep_dim p e nd type v tot idx s = (case type of
      None \<Rightarrow> bof_then (defined (range_add tot v)) (\<lambda>r. Inr (r, idx, s))
    | Some t \<Rightarrow>
        if fn_isHeap nd then
          bof_then (if tyKind p t = SVFPointerTy
            then defined (range_mul v (const_range (int (byteSizeOf p (gepPointeeType e))))) else Inr v) (\<lambda>dim.
          bof_then (defined (range_add tot dim)) (\<lambda>r. Inr (r, idx, s)))
        else if tyKind p t = SVFPointerTy then
          bof_then (asserted (getElementNum p (gepPointeeType e))) (\<lambda>k.
          bof_then (defined (range_mul v (const_range (int k)))) (\<lambda>dim.
          bof_then (defined (range_add tot dim)) (\<lambda>r. Inr (r, idx, s))))
        else gep_field p e nd t v tot idx s)"

definition gep_operand :: "bof_program \<Rightarrow> nat \<Rightarrow> gep_stmt \<Rightarrow> flow_node \<Rightarrow> nat \<times> nat option \<Rightarrow> range \<times> nat option \<times> bof \<Rightarrow>
    (range \<times> nat option \<times> bof) bof_out" where
  "gep_operand p n e nd op st = (case (op, st) of ((var, type), (tot, idx, s)) \<Rightarrow>
     bof_then (bof_query p n (fn_callContext nd) var s) (\<lambda>(v, s1).
       gep_dim p e nd type (if isBottom v \<and> \<not> isConstInt p var then TOP else v) tot
         (if idx = None \<and> \<not> isConstInt p var then Some var else idx) s1))"

text \<open>The operands are taken from the last to the first.\<close>

definition gep_offset :: "bof_program \<Rightarrow> nat \<Rightarrow> gep_stmt \<Rightarrow> flow_node \<Rightarrow> bof \<Rightarrow> (range \<times> nat option \<times> bof) bof_out" where
  "gep_offset p n e nd s = bof_fold (gep_operand p n e nd) (rev (idxOperandPairs e)) (const_range 0, None, s)"

definition constStructFieldNav :: "bof_program \<Rightarrow> gep_stmt \<Rightarrow> flow_node \<Rightarrow> range \<Rightarrow> bof \<Rightarrow> bool" where
  "constStructFieldNav p e nd buffer_size s =
    (let allConstIdx = (\<forall>op\<in>set (idxOperandPairs e). isConstInt p (fst op));
         nav = (\<lambda>k. \<exists>op\<in>set (idxOperandPairs e). case snd op of None \<Rightarrow> False | Some t \<Rightarrow> tyKind p t = k)
     in (allConstIdx \<and> nav SVFStructTy \<and> \<not> nav SVFArrayTy \<and> \<not> isBottom buffer_size \<and> \<not> isBottom (fn_offset nd)
          \<and> isSubset (fn_offset nd) buffer_size)
        \<or> (fn_base nd \<in> fieldSafeVars s \<and> \<not> nav SVFArrayTy))"

definition handleGep :: "bof_program \<Rightarrow> nat \<Rightarrow> gep_stmt \<Rightarrow> flow_node \<Rightarrow> bof \<Rightarrow> bof bof_out" where
  "handleGep p n e nd s =
    bof_then (gep_offset p n e nd s) (\<lambda>(tot, idx, s1).
    bof_then (defined (range_add tot (fn_offset nd))) (\<lambda>accumulate_offset.
    let buffer_size = getBufferRange (fn_parent nd) (rangeAnalysis s1);
        s2 = (if constStructFieldNav p e nd buffer_size s1
              then s1\<lparr>fieldSafeVars := insert (gep_dst e) (fieldSafeVars s1)\<rparr>
              else checkAccess p (gep_dst e) accumulate_offset buffer_size (fn_isHeap nd) GEP_OOB (gep_loc e)
                (fn_callContext nd) idx s1)
    in Inr (enqueue_from (gep_dst e) accumulate_offset nd s2)))"

definition handleCopyLike :: "bof_program \<Rightarrow> nat \<Rightarrow> flow_node \<Rightarrow> nat option \<Rightarrow> bool \<Rightarrow> bof \<Rightarrow> bof" where
  "handleCopyLike p dst nd loc isPointerCopy s =
    (if fn_base nd \<in> fieldSafeVars s
     then enqueue_from dst (fn_offset nd) nd
       (if isPointerCopy then s\<lparr>fieldSafeVars := insert dst (fieldSafeVars s)\<rparr> else s)
     else enqueue_from dst (fn_offset nd) nd
       (checkAccess p dst (fn_offset nd) (getBufferRange (fn_parent nd) (rangeAnalysis s)) (fn_isHeap nd) GEP_OOB loc
         (fn_callContext nd) None s))"

definition handleCall :: "nat \<Rightarrow> nat \<Rightarrow> flow_node \<Rightarrow> bof \<Rightarrow> bof" where
  "handleCall formal ctx nd s = (if fn_callDepth nd \<ge> MAX_CALL_DEPTH then s
     else enqueue formal (fn_parent nd) (fn_offset nd) (fn_isHeap nd) (to_u8 (int (fn_callDepth nd) + 1)) (Some ctx) s)"

definition handleRet :: "nat \<Rightarrow> flow_node \<Rightarrow> bof \<Rightarrow> bof" where
  "handleRet recv nd = enqueue_from recv (fn_offset nd) nd"

fun handle_edge :: "bof_program \<Rightarrow> nat \<Rightarrow> flow_node \<Rightarrow> flow_edge \<Rightarrow> bof \<Rightarrow> bof bof_out" where
  "handle_edge p n nd (GepEdge e) s = handleGep p n e nd s"
| "handle_edge p n nd (CopyEdge dst loc) s = Inr (handleCopyLike p dst nd loc True s)"
| "handle_edge p n nd (StoreEdge src dst loc) s = Inr (handleCopyLike p dst nd loc False s)"
| "handle_edge p n nd (LoadEdge dst loc) s = Inr (handleCopyLike p dst nd loc False s)"
| "handle_edge p n nd (CallEdge formal ctx) s = Inr (handleCall formal ctx nd s)"
| "handle_edge p n nd (RetEdge recv) s = Inr (handleRet recv nd s)"
| "handle_edge p n nd OtherEdge s = Inr s"

definition propagate_one :: "bof_program \<Rightarrow> nat \<Rightarrow> bof \<Rightarrow> bof bof_out" where
  "propagate_one p n s = bof_fold (handle_edge p n (hd (flowQueue s))) (outEdges p (fn_base (hd (flowQueue s))))
     (s\<lparr>flowQueue := tl (flowQueue s)\<rparr>)"

definition propagate_stop :: "bof bof_out \<Rightarrow> bool" where
  "propagate_stop r = (case r of Inl e \<Rightarrow> True | Inr s \<Rightarrow> flowQueue s = [])"

definition propagate :: "bof_program \<Rightarrow> nat \<Rightarrow> bof \<Rightarrow> bof bof_out option" where
  "propagate p n s = work_loop propagate_stop (\<lambda>r. Some (bof_then r (propagate_one p n))) (Inr s)"

section \<open>Allocation sizes\<close>

text \<open>\<open>HeapAllocationHandler\<close>: the two arguments of an allocation in the style of \<open>calloc\<close>, or the one
  argument of the others.\<close>

definition alloc_operands :: "alloc_spec \<Rightarrow> call_node \<Rightarrow> (nat + nat \<times> nat) option" where
  "alloc_operands sp c =
    (let argn = int (length (cn_args c)) in
     if as_kind sp = ELEM_MUL_ARG then
       (if countArgIdx sp < 0 \<or> sizeArgIdx sp < 0 \<or> countArgIdx sp \<ge> argn \<or> sizeArgIdx sp \<ge> argn then None
        else Some (Inr (cn_args c ! nat (countArgIdx sp), cn_args c ! nat (sizeArgIdx sp))))
     else if sizeArgIdx sp < 0 \<or> sizeArgIdx sp \<ge> argn then None
     else Some (Inl (cn_args c ! nat (sizeArgIdx sp))))"

definition alloc_args :: "bof_program \<Rightarrow> call_node \<Rightarrow> (nat + nat \<times> nat) option" where
  "alloc_args p c = Option.bind (resolveAlloc (extAlloc p) (calleeName p c)) (\<lambda>sp. alloc_operands sp c)"

definition analyzeAllocSize :: "bof_program \<Rightarrow> nat \<Rightarrow> call_node \<Rightarrow> bof \<Rightarrow> (range \<times> bof) bof_out" where
  "analyzeAllocSize p n c s = (case alloc_args p c of
      None \<Rightarrow> Inr (const_range 0, s)
    | Some (Inl x) \<Rightarrow> bof_query p n None x s
    | Some (Inr cs) \<Rightarrow>
        bof_then (bof_query p n None (fst cs) s) (\<lambda>(a, s1).
        bof_then (bof_query p n None (snd cs) s1) (\<lambda>(b, s2).
        bof_then (defined (range_mul a b)) (\<lambda>r. Inr (r, s2)))))"

definition getAllocSizeOperand :: "bof_program \<Rightarrow> nat \<Rightarrow> call_node \<Rightarrow> bof \<Rightarrow> (alloc_size_sym option \<times> bof) bof_out" where
  "getAllocSizeOperand p n c s = (case alloc_args p c of
      None \<Rightarrow> Inr (None, s)
    | Some (Inl x) \<Rightarrow> Inr (Some \<lparr>sizeVar = x, factor = 1, isElemMul = False\<rparr>, s)
    | Some (Inr cs) \<Rightarrow> bof_then (bof_query p n None (snd cs) s) (\<lambda>(elem, s1).
        Inr (Some \<lparr>sizeVar = fst cs, factor = (if isConstant elem \<and> lower elem > 0 then lower elem else 0),
          isElemMul = True\<rparr>, s1)))"

text \<open>The result and the places that the result is stored to.\<close>

definition stored_at :: "bof_program \<Rightarrow> nat \<Rightarrow> string list" where
  "stored_at p x = List.map_filter (\<lambda>e. case e of
      StoreEdge src dst loc \<Rightarrow> if src = x then Some (locationToken (pag p) dst) else None | _ \<Rightarrow> None) (outEdges p x)"

definition recordAllocSizeSym :: "bof_program \<Rightarrow> nat \<Rightarrow> alloc_size_sym \<Rightarrow> bof \<Rightarrow> bof" where
  "recordAllocSizeSym p x asz s = s\<lparr>allocResultSym := (allocResultSym s)(x \<mapsto> asz),
     allocAddrSym := fold (\<lambda>tok m. m(tok \<mapsto> asz)) (stored_at p x) (allocAddrSym s)\<rparr>"

definition record_operand :: "bof_program \<Rightarrow> nat \<Rightarrow> nat \<Rightarrow> call_node \<Rightarrow> bof \<Rightarrow> bof bof_out" where
  "record_operand p n x c s = bof_then (getAllocSizeOperand p n c s) (\<lambda>(asz, s1).
     Inr (case asz of None \<Rightarrow> s1 | Some y \<Rightarrow> recordAllocSizeSym p x y s1))"

section \<open>Initialisation\<close>

text \<open>The seeds of a buffer: one without context, and one for each of the first call sites of the function
  that allocates it.\<close>

definition seed_contexts :: "bof_program \<Rightarrow> nat \<Rightarrow> nat list" where
  "seed_contexts p fn = take MAX_SEED_CONTEXTS
     (filter (\<lambda>nd. case callNode p nd of None \<Rightarrow> False | Some c \<Rightarrow> cn_callee c = Some fn) (icfgNodes p))"

definition seedBufferUnderCallContexts :: "bof_program \<Rightarrow> nat \<Rightarrow> nat \<Rightarrow> bool \<Rightarrow> nat option \<Rightarrow> bof \<Rightarrow> bof" where
  "seedBufferUnderCallContexts p base parent isHeap enclosingFun s = (case enclosingFun of
      None \<Rightarrow> s
    | Some fn \<Rightarrow> fold (\<lambda>nd. enqueue base parent (mk_range 0 0) isHeap 0 (Some nd)) (seed_contexts p fn) s)"

definition seed_buffer :: "bof_program \<Rightarrow> nat \<Rightarrow> nat \<Rightarrow> bool \<Rightarrow> nat option \<Rightarrow> bof \<Rightarrow> bof" where
  "seed_buffer p base parent isHeap enclosingFun s =
     seedBufferUnderCallContexts p base parent isHeap enclosingFun (enqueue base parent (mk_range 0 0) isHeap 0 None s)"

definition ignored_at :: "bof_program \<Rightarrow> nat option \<Rightarrow> bool" where
  "ignored_at p nd = (case nd of None \<Rightarrow> False | Some l \<Rightarrow> ignoredSource p (sourceLoc p l))"

text \<open>A statement without a node is a null pointer that is dereferenced when the object is seeded.\<close>

definition seed_addr :: "bof_program \<Rightarrow> addr_stmt \<Rightarrow> bool \<Rightarrow> bool \<times> ra \<Rightarrow> bof \<Rightarrow> bof bof_out" where
  "seed_addr p a isHeap r s =
    (let s1 = s\<lparr>rangeAnalysis := snd r\<rparr>
     in if fst r then bof_then (asserted (addr_node a)) (\<lambda>nd.
          Inr (seed_buffer p (addr_dst a) (addr_src a) isHeap (nodeFun (pag p) nd) s1))
        else Inr s1)"

definition init_addr :: "bof_program \<Rightarrow> nat \<Rightarrow> addr_stmt \<Rightarrow> bof \<Rightarrow> bof bof_out" where
  "init_addr p n a s =
    (if ignored_at p (addr_node a) then Inr s
     else case memObject p (addr_src a) of
       StackObjVar t k \<Rightarrow>
         if tyKind p t = SVFPointerTy then Inr s
         else seed_addr p a False (analyzeBufferRange_stack (numOfFlattenElements p t) k (addr_src a) (rangeAnalysis s)) s
     | HeapObjVar bytes \<Rightarrow>
         bof_then (asserted (addr_node a)) (\<lambda>nd.
         bof_then (case callNode p nd of None \<Rightarrow> Inr s | Some c \<Rightarrow> record_operand p n (addr_dst a) c s) (\<lambda>s1.
         seed_addr p a True (analyzeBufferRange_heap bytes (addr_src a) (rangeAnalysis s1)) s1))
     | OtherObj \<Rightarrow> Inr s)"

definition init_call :: "bof_program \<Rightarrow> nat \<Rightarrow> call_pe \<Rightarrow> bof \<Rightarrow> bof bof_out" where
  "init_call p n e s =
    (if \<not> pe_isCall e then Inr s
     else if ignored_at p (Some (pe_call e)) then Inr s
     else bof_then (asserted (callNode p (pe_call e))) (\<lambda>c.
       if \<not> isAllocAPI (extAlloc p) (calleeName p c) then Inr s
       else
         bof_then (analyzeAllocSize p n c s) (\<lambda>(sizeRange, s1).
         bof_then (record_operand p n (pe_lhs e) c s1) (\<lambda>s2.
         if upper sizeRange > 0 then
           Inr (seed_buffer p (pe_lhs e) (pe_lhs e) True (nodeFun (pag p) (pe_call e))
             (s2\<lparr>rangeAnalysis := setBufferRange (pe_lhs e) (mk_range 0 (upper sizeRange - 1)) (rangeAnalysis s2)\<rparr>))
         else Inr s2))))"

definition init_callsite :: "bof_program \<Rightarrow> nat \<Rightarrow> nat \<Rightarrow> bof \<Rightarrow> bof bof_out" where
  "init_callsite p n nd s =
    (if ignored_at p (Some nd) then Inr s
     else bof_then (asserted (callNode p nd)) (\<lambda>c.
       if \<not> isAllocAPI (extAlloc p) (calleeName p c) then Inr s
       else case cn_ret c of
         None \<Rightarrow> Inr s
       | Some ret \<Rightarrow> if allocResultSym s ret \<noteq> None then Inr s else record_operand p n ret c s))"

definition initialize :: "bof_program \<Rightarrow> nat \<Rightarrow> bof \<Rightarrow> bof bof_out" where
  "initialize p n s =
    bof_then (bof_fold (init_addr p n) (addrStmts p) s) (\<lambda>s1.
    bof_then (bof_fold (init_call p n) (callStmts p) s1) (\<lambda>s2.
    bof_fold (init_callsite p n) (callSiteSet p) s2))"

definition bind_argument :: "bof_program \<Rightarrow> nat \<Rightarrow> call_pe \<Rightarrow> bof \<Rightarrow> bof bof_out" where
  "bind_argument p n e s =
    (if \<not> pe_isCall e then Inr s
     else if isPointerVar p (pe_lhs e) then Inr s
     else bof_then (bof_query p n None (pe_rhs e) s) (\<lambda>(r, s1).
       if isTop r \<or> isBottom r then Inr s1
       else Inr (s1\<lparr>rangeAnalysis := bindFormalRange (Some (pe_call e)) (Some (pe_lhs e)) r (rangeAnalysis s1)\<rparr>)))"

definition bindCallArguments :: "bof_program \<Rightarrow> nat \<Rightarrow> bof \<Rightarrow> bof bof_out" where
  "bindCallArguments p n s = bof_fold (bind_argument p n) (callStmts p) s"

end
