(* ===== verification/BofReports.thy ===== *)
theory BofReports
  imports BofChecker "HOL-Library.Sublist"
begin

text \<open>
  The reports of the buffer overflow checker: what \<open>checkAccess\<close> reports and with which verdict, and
  what \<open>flushReports\<close> emits of it (\<open>svf/lib/BOF/BofReporting.cpp\<close>).
\<close>

section \<open>The keys\<close>

lemma dec_nat_digits: "c \<in> set (dec_nat n) \<Longrightarrow> 48 \<le> (of_char c :: nat) \<and> (of_char c :: nat) \<le> 57"
proof (induction n rule: dec_nat.induct)
  case (1 n)
  have d: "48 \<le> (of_char (char_of (48 + k :: nat)) :: nat) \<and> (of_char (char_of (48 + k :: nat)) :: nat) \<le> 57" if "k < 10" for k
    using that by (simp add: take_bit_eq_mod)
  show ?case using 1 d [of n] d [of "n mod 10"] dec_nat.simps [of n] by (auto split: if_splits)
qed

lemma to_string_chars: "c \<in> set (to_string x) \<Longrightarrow> (of_char c :: nat) = 45 \<or> 48 \<le> (of_char c :: nat) \<and> (of_char c :: nat) \<le> 57"
  by (auto simp: to_string_def dest: dec_nat_digits split: if_splits)

lemma to_string_no [simp]: "CHR ''['' \<notin> set (to_string x)" "CHR '','' \<notin> set (to_string x)"
  using to_string_chars [of "CHR ''[''" x] to_string_chars [of "CHR '',''" x] by auto

lemma to_string_inj: "to_string x = to_string y \<Longrightarrow> x = y"
proof -
  have m: "CHR ''-'' \<notin> set (dec_nat k)" for k using dec_nat_digits [of "CHR ''-''" k] by auto
  have n: "CHR ''-'' # dec_nat j \<noteq> dec_nat k" "dec_nat k \<noteq> CHR ''-'' # dec_nat j" for j k
    using m [of k] list.set_intros(1) by metis+
  assume "to_string x = to_string y"
  then show "x = y" using n dec_nat_inj [of "nat (- x)" "nat (- y)"] dec_nat_inj [of "nat x" "nat y"]
    by (auto simp: to_string_def split: if_splits)
qed

text \<open>Splitting at the last occurrence of a character, or at the first.\<close>

lemma split_last: "xs @ c # ys = xs' @ c # ys' \<Longrightarrow> c \<notin> set ys \<Longrightarrow> c \<notin> set ys' \<Longrightarrow> xs = xs' \<and> ys = ys'"
proof (induction xs arbitrary: xs')
  case Nil
  then show ?case by (cases xs') auto
next
  case (Cons x xs)
  then show ?case by (cases xs') auto
qed

lemma split_first: "xs @ c # ys = xs' @ c # ys' \<Longrightarrow> c \<notin> set xs \<Longrightarrow> c \<notin> set xs' \<Longrightarrow> xs = xs' \<and> ys = ys'"
proof (induction xs arbitrary: xs')
  case Nil
  then show ?case by (cases xs') auto
next
  case (Cons x xs)
  then show ?case by (cases xs') auto
qed

definition report_point :: "bof_program \<Rightarrow> pending_report \<Rightarrow> string" where
  "report_point p r = access_point p (pr_loc r) (pr_kind r)"

text \<open>The content key determines the access point, the verdict and the interval.\<close>

lemma content_key_inj:
  assumes "content_key p r = content_key p q"
  shows "report_point p r = report_point p q \<and> pr_must r = pr_must q \<and> lower (pr_offset r) = lower (pr_offset q)
    \<and> upper (pr_offset r) = upper (pr_offset q)"
proof -
  let ?v = "\<lambda>r. if pr_must r then ''!MUST'' else ''!MAY''"
  let ?l = "\<lambda>r. to_string (lower (pr_offset r))"
  let ?u = "\<lambda>r. to_string (upper (pr_offset r))"
  have c: "CHR ''['' \<notin> set (?l r @ '','' @ ?u r @ '']'')" for r by simp
  have "(report_point p r @ ?v r) @ CHR ''['' # (?l r @ '','' @ ?u r @ '']'')
      = (report_point p q @ ?v q) @ CHR ''['' # (?l q @ '','' @ ?u q @ '']'')"
    using assms by (simp add: content_key_def report_point_def)
  then have a: "report_point p r @ ?v r = report_point p q @ ?v q"
    and b: "?l r @ '','' @ ?u r @ '']'' = ?l q @ '','' @ ?u q @ '']''"
    using split_last [OF _ c c] by blast+
  have d: "CHR '','' \<notin> set (?l r)" for r by simp
  have "?l r = ?l q \<and> ?u r @ '']'' = ?u q @ '']''"
    by (rule split_first [of _ "CHR '',''"]) (use b d in auto)
  moreover have "pr_must r = pr_must q"
  proof -
    have "last (report_point p r @ ?v r) = last (report_point p q @ ?v q)" using a by simp
    then show ?thesis by (simp split: if_splits)
  qed
  ultimately show ?thesis using a to_string_inj by auto
qed

section \<open>What is emitted\<close>

lemma flush_subseq: "subseq (flush_loop p must emitted rs) rs"
  by (induction rs arbitrary: emitted) (auto intro: subseq_order.trans)

lemma flush_keys:
  "distinct (map (content_key p) (flush_loop p must emitted rs)) \<and>
    content_key p ` set (flush_loop p must emitted rs) \<inter> emitted = {}"
proof (induction rs arbitrary: emitted)
  case (Cons r rs)
  then show ?case using Cons.IH [of emitted] Cons.IH [of "insert (content_key p r) emitted"] by auto
qed simp

lemma flush_no_may: "r \<in> set (flush_loop p must emitted rs) \<Longrightarrow> report_point p r \<in> must \<Longrightarrow> pr_must r"
  by (induction rs arbitrary: emitted) (auto simp: report_point_def split: if_splits)

lemma flush_keeps:
  "r \<in> set rs \<Longrightarrow> pr_must r \<or> report_point p r \<notin> must \<Longrightarrow>
    content_key p r \<in> emitted \<union> content_key p ` set (flush_loop p must emitted rs)"
proof (induction rs arbitrary: emitted)
  case (Cons q rs)
  show ?case
  proof (cases "r = q")
    case True
    then show ?thesis using Cons.prems(2) by (auto simp: report_point_def)
  next
    case False
    then have "r \<in> set rs" using Cons.prems(1) by simp
    then show ?thesis using Cons.IH [OF _ Cons.prems(2), of emitted] Cons.IH [OF _ Cons.prems(2), of "insert (content_key p q) emitted"]
      by auto
  qed
qed simp

lemma flush_in: "r \<in> set (flush_loop p must emitted rs) \<Longrightarrow> r \<in> set rs"
  by (induction rs arbitrary: emitted) (auto split: if_splits)

definition same_report :: "bof_program \<Rightarrow> pending_report \<Rightarrow> pending_report \<Rightarrow> bool" where
  "same_report p r q = (report_point p r = report_point p q \<and> pr_must r = pr_must q
    \<and> lower (pr_offset r) = lower (pr_offset q) \<and> upper (pr_offset r) = upper (pr_offset q))"

lemma same_report_iff: "same_report p r q \<longleftrightarrow> content_key p r = content_key p q"
proof
  assume "same_report p r q"
  then show "content_key p r = content_key p q" by (simp add: same_report_def content_key_def report_point_def)
next
  assume "content_key p r = content_key p q"
  from content_key_inj [OF this] show "same_report p r q" by (simp add: same_report_def)
qed

text \<open>C10: \<open>flushReports\<close> emits the pending reports in their order, without the possible overflows at an
  access point that has a certain one, and never two of the same access point, verdict and interval.
  Nothing else is lost: every pending report is emitted with its point, verdict and interval, unless
  it is a possible overflow at whose point a certain one is emitted. The option that shows possible overflows
  as certain changes the displayed verdict only.\<close>

theorem flushReports_correct:
  "subseq (map fst (flushReports p m s)) (pendingReports s)
    \<and> map fst (flushReports p m s) = map fst (flushReports p False s) \<and> (\<forall>(r, shown)\<in>set (flushReports p m s). shown = (pr_must r \<or> m))
    \<and> (\<forall>(r, shown)\<in>set (flushReports p m s). \<forall>q\<in>set (pendingReports s). report_point p q = report_point p r \<and> pr_must q \<longrightarrow> pr_must r)
    \<and> (\<forall>i<length (flushReports p m s). \<forall>j<length (flushReports p m s). same_report p (fst (flushReports p m s ! i)) (fst (flushReports p m s ! j)) \<longrightarrow> i = j)
    \<and> (\<forall>q\<in>set (pendingReports s). (\<exists>(r, shown)\<in>set (flushReports p m s). same_report p r q)
        \<or> \<not> pr_must q \<and> (\<exists>(r, shown)\<in>set (flushReports p m s). report_point p r = report_point p q \<and> pr_must r))"
proof -
  let ?prs = "pendingReports s"
  let ?M = "mustPoints p ?prs"
  let ?out = "\<lambda>m. flushReports p m s"
  let ?F = "flush_loop p ?M {} ?prs"
  have o: "?out k = map (\<lambda>r. (r, pr_must r \<or> k)) ?F" for k by (simp add: flushReports_def)
  have m: "map fst (?out k) = ?F" for k by (simp add: o comp_def)
  have M: "report_point p q \<in> ?M" if "q \<in> set ?prs" "pr_must q" for q
    using that by (auto simp: mustPoints_def report_point_def)
  have emit: "\<exists>r\<in>set ?F. same_report p r q" if "q \<in> set ?prs" "pr_must q \<or> report_point p q \<notin> ?M" for q
    using flush_keeps [OF that, of "{}"] by (auto simp: same_report_iff)
  have 1: "subseq (map fst (?out m)) ?prs" by (simp add: m flush_subseq)
  have 2: "map fst (?out m) = map fst (?out False)" by (simp add: m)
  have 3: "\<forall>(r, shown)\<in>set (?out m). shown = (pr_must r \<or> m)" by (auto simp: o)
  have 4: "\<forall>(r, shown)\<in>set (?out m). \<forall>q\<in>set ?prs. report_point p q = report_point p r \<and> pr_must q \<longrightarrow> pr_must r"
  proof (clarify, rule ccontr)
    fix r shown q
    assume r: "(r, shown) \<in> set (?out m)" and q: "q \<in> set ?prs" "report_point p q = report_point p r" "pr_must q" and n: "\<not> pr_must r"
    have "r \<in> set ?F" using r by (auto simp: o)
    moreover have "report_point p r \<in> ?M" using M [OF q(1,3)] q(2) by simp
    ultimately show False using flush_no_may n by blast
  qed
  have d: "distinct (map (content_key p) ?F)" using flush_keys by blast
  have 5: "\<forall>i<length (?out m). \<forall>j<length (?out m). same_report p (fst (?out m ! i)) (fst (?out m ! j)) \<longrightarrow> i = j"
    using d by (auto simp: o same_report_iff distinct_conv_nth)
  have 6: "(\<exists>(r, shown)\<in>set (?out m). same_report p r q)
      \<or> \<not> pr_must q \<and> (\<exists>(r, shown)\<in>set (?out m). report_point p r = report_point p q \<and> pr_must r)" if q: "q \<in> set ?prs" for q
  proof (cases "pr_must q \<or> report_point p q \<notin> ?M")
    case True
    show ?thesis using emit [OF q True] by (auto simp: o)
  next
    case False
    then obtain q' where q': "q' \<in> set ?prs" "pr_must q'" "report_point p q' = report_point p q"
      by (auto simp: mustPoints_def report_point_def)
    then obtain r where "r \<in> set ?F" "same_report p r q'" using emit by blast
    then show ?thesis using False q'(2,3) by (auto simp: o same_report_def)
  qed
  show ?thesis using 1 2 3 4 5 6 by blast
qed

text \<open>A function with an array of four elements and an access at a constant index.\<close>

definition demo :: "int \<Rightarrow> bof_program" where
  "demo c = \<lparr>pag = \<lparr>inEdgeMap = \<lambda>_ _. [], stmtSet = \<lambda>_. [], constVal = (\<lambda>x. if x = 3 then Some c else if x = 4 then Some 0 else None),
       nodeBB = \<lambda>_. None, nodeFun = \<lambda>_. Some 7, loopAndDom = \<lambda>_. \<lparr>reachableBBs = [], dtBBsMap = Map.empty, bb2LoopMap = Map.empty\<rparr>,
       resolveRange = \<lambda>_ _. None\<rparr>,
     outEdges = (\<lambda>x. if x = 1 then [GepEdge \<lparr>gep_dst = 2, gep_loc = Some 10, idxOperandPairs = [(4, Some 1), (3, Some 0)],
       gepPointeeType = 0\<rparr>] else if x = 2 then [StoreEdge 2 5 (Some 11)] else []),
     isPointerVar = \<lambda>_. True, varType = \<lambda>_. Some 0, memObject = (\<lambda>x. if x = 0 then StackObjVar 0 4 else OtherObj),
     tyKind = (\<lambda>t. if t = 0 then SVFArrayTy else SVFPointerTy), isSingleValueType = \<lambda>_. False, byteSizeOf = \<lambda>_. 16,
     flattenedFieldIdxVec = \<lambda>_. [0], flattenedElemIdxVec = \<lambda>_. [0, 1, 2, 3], numOfFlattenElements = \<lambda>_. 4,
     numOfFlattenFields = \<lambda>_. 1, modelArrays = True, maxFieldLimit = 512,
     addrStmts = [\<lparr>addr_src = 0, addr_dst = 1, addr_node = Some 9\<rparr>], callStmts = [], callSiteSet = [], icfgNodes = [9, 10, 11],
     callNode = \<lambda>_. None, funName = \<lambda>_. [], sourceLoc = \<lambda>n. ''ln'' @ to_string (int n), ignoredSource = \<lambda>_. False,
     transferRules = \<lambda>_. None,
     extAlloc = \<lparr>isMemAlloc = \<lambda>_. False, is_alloc = \<lambda>_. False, is_realloc = \<lambda>_. False, allocHeapRet = \<lambda>_. False\<rparr>\<rparr>"

lemma demo_sel [simp]:
  "sourceLoc (demo c) n = ''ln'' @ to_string (int n)" "ignoredSource (demo c) l = False"
  by (simp_all add: demo_def)

definition demo_report :: "int \<Rightarrow> bool \<Rightarrow> nat option \<Rightarrow> pending_report" where
  "demo_report i must ctx = \<lparr>pr_base = 2, pr_offset = mk_range i i, pr_size = mk_range 0 3, pr_isHeap = False, pr_kind = GEP_OOB,
     pr_loc = 10, pr_must = must, pr_callContext = ctx, pr_indexVar = None\<rparr>"

lemma flushReports_witness:
  "\<exists>s. pendingReports s = [demo_report 0 False None, demo_report 9 True (Some 20), demo_report 9 True (Some 21)]
    \<and> flushReports (demo 9) False s = [(demo_report 9 True (Some 20), True)]
    \<and> (\<exists>(r, shown)\<in>set (flushReports (demo 9) False s). same_report (demo 9) r (demo_report 9 True (Some 21)))"
proof -
  let ?s = "(bof_new None)\<lparr>pendingReports := [demo_report 0 False None, demo_report 9 True (Some 20), demo_report 9 True (Some 21)]\<rparr>"
  have "pr_must (demo_report 9 True (Some 21))" by (simp add: demo_report_def)
  moreover have "demo_report 9 True (Some 21) \<in> set (pendingReports ?s)" by simp
  ultimately have w: "\<exists>(r, shown)\<in>set (flushReports (demo 9) False ?s). same_report (demo 9) r (demo_report 9 True (Some 21))"
    using flushReports_correct [of "demo 9" False ?s] by blast
  have "access_point (demo 9) 10 GEP_OOB \<in> mustPoints (demo 9) (pendingReports ?s)"
    by (simp add: mustPoints_def demo_report_def)
  then have "flushReports (demo 9) False ?s = [(demo_report 9 True (Some 20), True)]"
    by (simp add: flushReports_def demo_report_def content_key_def)
  with w show ?thesis by (intro exI [of _ ?s]) simp
qed

section \<open>What is reported\<close>

text \<open>C11: \<open>checkAccess\<close> decides by the values of the intervals. An access with a known buffer and offset is
  accepted exactly if every value of the offset is in the buffer. Otherwise one report is recorded, at a
  node that is not ignored and for a key of location, kind and context that has none; it is certain exactly if
  no value of the offset is in the buffer.\<close>

theorem checkAccess_correct:
  assumes "\<not> isBottom valid" "\<not> isBottom offset" "\<not> ignoredSource p (sourceLoc p l)"
    "report_key p l kind ctx \<notin> bugLoc s"
  shows "if gam offset \<subseteq> gam valid then checkAccess p dst offset valid isHeap kind (Some l) ctx idx s = s
    else \<exists>r. pendingReports (checkAccess p dst offset valid isHeap kind (Some l) ctx idx s) = pendingReports s @ [r]
      \<and> bugLoc (checkAccess p dst offset valid isHeap kind (Some l) ctx idx s) = insert (report_key p l kind ctx) (bugLoc s)
      \<and> pr_base r = dst \<and> pr_loc r = l \<and> pr_kind r = kind \<and> pr_callContext r = ctx \<and> gam (pr_offset r) = gam offset
      \<and> (pr_must r \<longleftrightarrow> gam offset \<inter> gam valid = {})"
proof -
  have g: "gam r = {lower r..upper r}" for r by auto
  have i: "isSubset offset valid \<longleftrightarrow> gam offset \<subseteq> gam valid"
    using assms(1,2) by (auto simp: isSubset_def isBottom_def g simp del: in_gam)
  have "lower offset > upper valid \<or> upper offset < lower valid \<longleftrightarrow> gam offset \<inter> gam valid = {}"
    using assms(1,2) by (auto simp: isBottom_def g simp del: in_gam)
  then show ?thesis using assms i by (simp add: checkAccess_def reportBufferOverflowError_def del: in_gam)
qed

lemma checkAccess_witness:
  "pendingReports (checkAccess (demo 9) 2 (mk_range 4 9) (mk_range 0 3) False GEP_OOB (Some 10) None None (bof_new None)) \<noteq> []
    \<and> checkAccess (demo 9) 2 (mk_range 1 3) (mk_range 0 3) False GEP_OOB (Some 10) None None (bof_new None) = bof_new None"
proof -
  have b: "report_key (demo 9) 10 GEP_OOB None \<notin> bugLoc (bof_new None)" by (simp add: bof_new_def)
  have "9 \<in> gam (mk_range 4 9)" "9 \<notin> gam (mk_range 0 3)" by simp_all
  then have n: "\<not> gam (mk_range 4 9) \<subseteq> gam (mk_range 0 3)" by blast
  have y: "gam (mk_range 1 3) \<subseteq> gam (mk_range 0 3)" by auto
  show ?thesis
    using checkAccess_correct [of "mk_range 0 3" "mk_range 4 9" "demo 9" 10 GEP_OOB None "bof_new None" 2 False None]
      checkAccess_correct [of "mk_range 0 3" "mk_range 1 3" "demo 9" 10 GEP_OOB None "bof_new None" 2 False None] b n y
    by (auto simp: isBottom_def simp del: in_gam)
qed

end
