(* ===== verification/BofRangeSound.thy ===== *)
theory BofRangeSound
  imports BofRangeAnalysis
begin

text \<open>
  What the value range analysis of \<open>BofRangeAnalysis\<close> guarantees: that it ends, that the range of
  a value contains the value in every execution that the program's edges describe, that
  narrowing only tightens a range, what a binding of a formal parameter does, and what is
  reported for a value about which nothing is known.
\<close>

section \<open>Operations on ranges\<close>

text \<open>The result of an operation on 64-bit values, all read as signed. The unsigned operations work on
  the values modulo \<open>2^64\<close>; sums, differences, products, quotients and left shifts have a result
  only when it fits (it is compared with 64-bit values only), shifts only by 0 to 63 bits.\<close>

definition signed64 :: "int \<Rightarrow> int" where
  "signed64 v = signed_take_bit 63 v"

definition binop_sem :: "nat \<Rightarrow> int \<Rightarrow> int \<Rightarrow> int \<Rightarrow> bool" where
  "binop_sem oc a b v =
    (if oc = op_Add then v = a + b
     else if oc = op_Sub then v = a - b
     else if oc = op_Mul then v = a * b
     else if oc = op_SDiv then b \<noteq> 0 \<and> v = a sdiv b
     else if oc = op_UDiv then b \<noteq> 0 \<and> v = signed64 ((a mod 2 ^ 64) div (b mod 2 ^ 64))
     else if oc = op_SRem then b \<noteq> 0 \<and> v = a smod b
     else if oc = op_URem then b \<noteq> 0 \<and> v = signed64 ((a mod 2 ^ 64) mod (b mod 2 ^ 64))
     else if oc = op_Shl then 0 \<le> b \<and> b < 64 \<and> v = a * 2 ^ nat b
     else if oc = op_LShr then 0 \<le> b \<and> b < 64 \<and> v = signed64 (drop_bit (nat b) (a mod 2 ^ 64))
     else if oc = op_AShr then 0 \<le> b \<and> b < 64 \<and> v = drop_bit (nat b) a
     else if oc = op_And then v = a AND b
     else if oc = op_Or then v = a OR b
     else if oc = op_Xor then v = a XOR b
     else False)"

text \<open>The operands for which the ranges of the code hold the result. They do not for an unsigned
  division or remainder with a negative operand, which the code computes as a signed one, nor for
  an arithmetic right shift of a negative value, whose bounds \<open>Range::ashr\<close> takes at the wrong
  ends (lemma \<open>uncovered_operands\<close>).\<close>

definition binop_covered :: "nat \<Rightarrow> int \<Rightarrow> int \<Rightarrow> bool" where
  "binop_covered oc a b = ((oc = op_UDiv \<or> oc = op_URem \<longrightarrow> 0 \<le> a \<and> 0 \<le> b) \<and> (oc = op_AShr \<longrightarrow> 0 \<le> a))"

lemma signed64_id: "in64 v \<Longrightarrow> signed64 v = v"
  by (simp add: signed64_def in64_def bounds_defs signed_take_bit_int_eq_self)

lemma unsigned64_id: "in64 a \<Longrightarrow> 0 \<le> a \<Longrightarrow> a mod 2 ^ 64 = a"
  by (simp add: in64_def bounds_defs)

lemma unsigned_nonneg:
  assumes "in64 a" "in64 b" "0 \<le> a" "0 < b"
  shows "signed64 ((a mod 2 ^ 64) div (b mod 2 ^ 64)) = a sdiv b" "signed64 ((a mod 2 ^ 64) mod (b mod 2 ^ 64)) = a smod b"
proof -
  have m: "a mod 2 ^ 64 = a" "b mod 2 ^ 64 = b" using assms unsigned64_id by auto
  have "0 \<le> a div b" "a div b \<le> a"
    using assms zdiv_mono2 [of a 1 b] by (simp_all add: pos_imp_zdiv_nonneg_iff)
  then have "in64 (a div b)" using assms(1) by (simp add: in64_def bounds_defs)
  moreover have "0 \<le> a mod b" "a mod b < b" using assms(4) by simp_all
  then have "in64 (a mod b)" using assms(2) by (simp add: in64_def bounds_defs)
  ultimately show "signed64 ((a mod 2 ^ 64) div (b mod 2 ^ 64)) = a sdiv b" "signed64 ((a mod 2 ^ 64) mod (b mod 2 ^ 64)) = a smod b"
    using assms m by (simp_all add: signed64_id signed_divide_int_def signed_modulo_int_def sgn_if)
qed

text \<open>Outside of these operands the ranges are wrong: \<open>10 udiv -2\<close> is 0 and \<open>10 urem -2\<close> is 10, and
  \<open>-8 ashr 0\<close> is -8.\<close>

lemma uncovered_operands:
  "binop_range op_UDiv (const_range 10) (const_range (- 2)) = Some (const_range (- 5)) \<and> binop_sem op_UDiv 10 (- 2) 0"
  "binop_range op_URem (const_range 10) (const_range (- 2)) = Some (const_range 0) \<and> binop_sem op_URem 10 (- 2) 10"
  "binop_range op_AShr (const_range (- 8)) (mk_range 0 2) = Some (mk_range (- 2) (- 8)) \<and> binop_sem op_AShr (- 8) 0 (- 8)"
  by code_simp+

text \<open>The operations whose range computation can be undefined.\<close>

definition partial_op :: "nat \<Rightarrow> bool" where
  "partial_op oc = (oc \<in> {op_Sub, op_UDiv, op_SDiv, op_URem, op_SRem})"

lemma range_ok_shifts: "range_ok a \<Longrightarrow> range_ok (range_ashr a b)" "range_ok a \<Longrightarrow> range_ok (range_lshr a b)"
  by (auto simp: range_ashr_def range_lshr_def Let_def range_ok_def drop_bit_in64)

lemma zero_divisor:
  assumes "\<not> isBottom a" "y \<in> gam b" "\<forall>z\<in>gam b. z = 0"
  shows "range_div a b = Some TOP" "range_mod a b = Some TOP"
proof -
  have "y = 0" "\<not> isBottom b" using assms(2,3) gam_nonbottom by blast+
  then have "lower b \<le> 0 \<and> upper b \<ge> 0" using assms(2) by simp
  then show "range_div a b = Some TOP" "range_mod a b = Some TOP"
    using assms(1) \<open>\<not> isBottom b\<close> by (simp_all add: range_div_def range_mod_def)
qed

lemma binop_range_None_nonempty:
  assumes "range_ok a" "range_ok b" "x \<in> gam a" "y \<in> gam b" "handled_op oc" "binop_range oc a b = None"
  shows "partial_op oc"
proof -
  have nb: "\<not> isBottom a" "\<not> isBottom b" using assms gam_nonbottom by blast+
  have "range_shl a b \<noteq> None"
  proof (cases "0 \<le> y")
    case True
    then show ?thesis using range_shl_sound [OF assms(1-4)] by auto
  next
    case False
    then have "lower b < 0" using assms(4) by simp
    then show ?thesis using nb by (simp add: range_shl_def)
  qed
  then show ?thesis
    using assms(5,6) nb range_add_sound [OF assms(1-4)] range_mul_sound [OF assms(1-4)] bit_or_sound [OF assms(1-4)]
    by (auto simp: handled_op_def partial_op_def binop_range_def bottom_to_top_def opcode_defs split: if_splits)
qed

lemma range_ashr_nonneg:
  assumes "range_ok a" "range_ok b" "x \<in> gam a" "y \<in> gam b" "0 \<le> x" "0 \<le> y"
  shows "drop_bit (nat y) x \<in> gam (range_ashr a b)"
proof (cases "0 \<le> lower a")
  case True
  then show ?thesis using range_ashr_sound(2) [OF assms(1-4,6)] by blast
next
  case False
  have nb: "\<not> isBottom a" "\<not> isBottom b" using assms gam_nonbottom by blast+
  let ?a = "mk_range 0 (upper a)"
  have "range_ok ?a" "x \<in> gam ?a" using assms(1,3,5) by (simp_all add: range_ok_def)
  then have "drop_bit (nat y) x \<in> gam (range_ashr ?a b)" using range_ashr_sound(2) [OF _ assms(2) _ assms(4,6)] by simp
  moreover have "drop_bit n (lower a) \<le> drop_bit (nat y) x" for n
    using False assms(5) drop_bit_negative_int_iff [of n "lower a"] drop_bit_nonnegative_int_iff [of "nat y" x] by linarith
  moreover have "\<not> isBottom ?a" using \<open>x \<in> gam ?a\<close> gam_nonbottom by blast
  ultimately show ?thesis using nb by (simp add: range_ashr_def Let_def split: if_splits)
qed

lemma binop_range_sound_nonempty:
  assumes "range_ok a" "range_ok b" "x \<in> gam a" "y \<in> gam b" "handled_op oc" "binop_range oc a b = Some r" "in64 v"
  shows "range_ok r \<and> (binop_sem oc x y v \<longrightarrow> binop_covered oc x y \<longrightarrow> v \<in> gam r)"
proof -
  have nb: "\<not> isBottom a" "\<not> isBottom b" using assms gam_nonbottom by blast+
  have xy: "in64 x" "in64 y" using gam_in64 assms(1-4) by blast+
  have div: "range_ok r \<and> (y \<noteq> 0 \<longrightarrow> in64 (x sdiv y) \<longrightarrow> x sdiv y \<in> gam r)" if "range_div a b = Some r"
  proof (cases "\<exists>z\<in>gam b. z \<noteq> 0")
    case True
    then show ?thesis using range_div_sound [OF assms(1-3)] assms(4) that by blast
  next
    case False
    then show ?thesis using zero_divisor(1) [OF nb(1) assms(4)] assms(4) that by auto
  qed
  have mod: "range_ok r \<and> (y \<noteq> 0 \<longrightarrow> x smod y \<in> gam r)" if "range_mod a b = Some r"
  proof (cases "\<exists>z\<in>gam b. z \<noteq> 0")
    case True
    then show ?thesis using range_mod_sound [OF assms(1-3)] assms(4) that by blast
  next
    case False
    then show ?thesis using zero_divisor(2) [OF nb(1) assms(4)] assms(4) that by auto
  qed
  have shl: "range_ok r \<and> (0 \<le> y \<longrightarrow> in64 (x * 2 ^ nat y) \<longrightarrow> x * 2 ^ nat y \<in> gam r)" if "range_shl a b = Some r"
  proof (cases "0 \<le> y")
    case True
    then show ?thesis using range_shl_sound [OF assms(1-4)] that by auto
  next
    case False
    then have "lower b < 0" using assms(4) by simp
    then show ?thesis using nb that False by (auto simp: range_shl_def)
  qed
  have sub: "range_ok r \<and> (in64 (x - y) \<longrightarrow> x - y \<in> gam r)" if "range_sub a b = Some r"
  proof -
    have "lower b \<noteq> rNINF" using range_sub_None [OF assms(1,2)] nb that by auto
    then show ?thesis using range_sub_sound [OF assms(1-4)] that by (auto simp: sat_id simp del: in_gam)
  qed
  have lshr: "signed64 (drop_bit (nat y) (x mod 2 ^ 64)) \<in> gam (range_lshr a b)" if y: "0 \<le> y"
    and v: "in64 (signed64 (drop_bit (nat y) (x mod 2 ^ 64)))"
  proof (cases "0 \<le> x")
    case True
    then have "x mod 2 ^ 64 = x" using xy unsigned64_id by blast
    moreover have "in64 (drop_bit (nat y) x)" using xy(1) by (rule drop_bit_in64)
    ultimately show ?thesis using range_lshr_sound(2) [OF assms(1-4) True y] by (simp add: signed64_id del: in_gam)
  next
    case False
    then have "lower a < 0" using assms(3) by simp
    then show ?thesis using nb v by (simp add: range_lshr_def in64_def)
  qed
  have ashr: "drop_bit (nat y) x \<in> gam (range_ashr a b)" if "0 \<le> x" "0 \<le> y"
    by (rule range_ashr_nonneg) (use assms that in auto)
  consider "oc = op_Add" | "oc = op_Sub" | "oc = op_Mul" | "oc = op_UDiv \<or> oc = op_SDiv" | "oc = op_URem \<or> oc = op_SRem"
    | "oc = op_Shl" | "oc = op_LShr" | "oc = op_AShr" | "oc = op_And" | "oc = op_Or" | "oc = op_Xor"
    using assms(5) by (auto simp: handled_op_def)
  then show ?thesis
  proof cases
    case 1
    then show ?thesis using assms(6,7) range_add_sound [OF assms(1-4)]
      by (auto simp: binop_range_def binop_sem_def sat_id simp del: in_gam)
  next
    case 2
    then show ?thesis using assms(6,7) sub by (auto simp: binop_range_def binop_sem_def opcode_defs simp del: in_gam)
  next
    case 3
    then show ?thesis using assms(6,7) range_mul_sound [OF assms(1-4)]
      by (auto simp: binop_range_def binop_sem_def opcode_defs sat_id simp del: in_gam)
  next
    case 4
    then have "binop_sem oc x y v \<longrightarrow> binop_covered oc x y \<longrightarrow> y \<noteq> 0 \<and> v = x sdiv y"
      using unsigned_nonneg(1) [OF xy] by (auto simp: binop_sem_def binop_covered_def opcode_defs)
    moreover have "range_div a b = Some r" using 4 assms(6) by (auto simp: binop_range_def opcode_defs)
    ultimately show ?thesis using div assms(7) by blast
  next
    case 5
    then have "binop_sem oc x y v \<longrightarrow> binop_covered oc x y \<longrightarrow> y \<noteq> 0 \<and> v = x smod y"
      using unsigned_nonneg(2) [OF xy] by (auto simp: binop_sem_def binop_covered_def opcode_defs)
    moreover have "range_mod a b = Some r" using 5 assms(6) by (auto simp: binop_range_def opcode_defs)
    ultimately show ?thesis using mod by blast
  next
    case 6
    then show ?thesis using assms(6,7) shl by (auto simp: binop_range_def binop_sem_def opcode_defs simp del: in_gam)
  next
    case 7
    then have "r = range_lshr a b" using assms(6) by (simp add: binop_range_def opcode_defs)
    moreover have "binop_sem oc x y v \<longrightarrow> 0 \<le> y \<and> v = signed64 (drop_bit (nat y) (x mod 2 ^ 64))"
      using 7 by (simp add: binop_sem_def opcode_defs)
    ultimately show ?thesis using lshr assms(7) range_ok_shifts(2) [OF assms(1)] by blast
  next
    case 8
    then have "r = range_ashr a b" using assms(6) by (simp add: binop_range_def opcode_defs)
    moreover have "binop_sem oc x y v \<longrightarrow> binop_covered oc x y \<longrightarrow> 0 \<le> x \<and> 0 \<le> y \<and> v = drop_bit (nat y) x"
      using 8 by (simp add: binop_sem_def binop_covered_def opcode_defs)
    ultimately show ?thesis using ashr range_ok_shifts(1) [OF assms(1)] by blast
  next
    case 9
    then show ?thesis using assms(6) nb bit_and_sound [OF assms(1-4)]
      by (auto simp: binop_range_def binop_sem_def bottom_to_top_def opcode_defs simp del: in_gam)
  next
    case 10
    then show ?thesis using assms(6) nb bit_or_sound(1) [OF assms(1-4)]
      by (auto simp: binop_range_def binop_sem_def bottom_to_top_def opcode_defs simp del: in_gam)
  next
    case 11
    then show ?thesis using assms(6) nb bit_or_sound(2) [OF assms(1-4)]
      by (auto simp: binop_range_def binop_sem_def bottom_to_top_def opcode_defs simp del: in_gam)
  qed
qed

text \<open>An operand without values leaves no values; the range is still well-formed.\<close>

lemma binop_range_empty:
  assumes "range_ok a" "range_ok b" "isBottom a \<or> isBottom b" "handled_op oc"
  shows "\<exists>r. binop_range oc a b = Some r \<and> range_ok r"
proof (cases "oc \<in> {op_And, op_Or, op_Xor}")
  case True
  let ?a = "bottom_to_top a" and ?b = "bottom_to_top b"
  have "range_ok ?a" "range_ok ?b" "\<not> isBottom ?a" "\<not> isBottom ?b"
    using assms by (auto simp: bottom_to_top_def)
  moreover obtain x y where "x \<in> gam ?a" "y \<in> gam ?b" using calculation(3,4) isBottom_gam by blast
  ultimately show ?thesis
    using True bit_and_sound [of ?a ?b x y] bit_or_sound [of ?a ?b x y]
    by (auto simp: binop_range_def opcode_defs)
next
  case False
  then show ?thesis
    using assms(3,4) by (auto simp: handled_op_def binop_range_def opcode_defs range_add_def range_sub_def
        range_mul_def range_div_def range_mod_def range_shl_def range_lshr_def range_ashr_def)
qed

lemma binop_range_None:
  assumes "range_ok a" "range_ok b" "handled_op oc" "binop_range oc a b = None"
  shows "partial_op oc"
proof (cases "isBottom a \<or> isBottom b")
  case True
  then show ?thesis using binop_range_empty [OF assms(1,2) _ assms(3)] assms(4) by auto
next
  case False
  then obtain x y where "x \<in> gam a" "y \<in> gam b" using isBottom_gam by blast
  then show ?thesis using binop_range_None_nonempty [OF assms(1,2) _ _ assms(3,4)] by blast
qed

lemma binop_range_ok:
  assumes "range_ok a" "range_ok b" "handled_op oc" "binop_range oc a b = Some r"
  shows "range_ok r"
proof (cases "isBottom a \<or> isBottom b")
  case True
  then show ?thesis using binop_range_empty [OF assms(1,2) _ assms(3)] assms(4) by auto
next
  case False
  then obtain x y where "x \<in> gam a" "y \<in> gam b" using isBottom_gam by blast
  then show ?thesis using binop_range_sound_nonempty [OF assms(1,2) _ _ assms(3,4), of x y 0] by simp
qed

text \<open>What one edge adds to the accumulated range: it only grows, and covers \<open>v\<close> when \<open>P\<close> says that
  the edge produces it.\<close>

definition adds :: "(ra \<Rightarrow> bool) \<Rightarrow> range \<Rightarrow> bool \<Rightarrow> int \<Rightarrow> range \<Rightarrow> ra \<Rightarrow> bool" where
  "adds I a P v a' s' = (I s' \<and> range_ok a' \<and> gam a \<subseteq> gam a' \<and> (P \<longrightarrow> v \<in> gam a'))"

lemma fold_adds:
  assumes "I s" "range_ok a"
    and "\<And>e a s. e \<in> set es \<Longrightarrow> I s \<Longrightarrow> range_ok a \<Longrightarrow> out_ok E (adds I a (P e) v) (f e a s)"
  shows "out_ok E (adds I a (\<exists>e\<in>set es. P e) v) (fold_out f es a s)"
  using assms
proof (induction es arbitrary: a s)
  case (Cons e es)
  have "out_ok E (adds I a (\<exists>e\<in>set (e # es). P e) v) (fold_out f es a' s')" if a: "adds I a (P e) v a' s'" for a' s'
  proof -
    have i: "I s'" "range_ok a'" "gam a \<subseteq> gam a'" "P e \<longrightarrow> v \<in> gam a'" using a by (auto simp: adds_def)
    have "out_ok E (adds I a' (\<exists>e\<in>set es. P e) v) (fold_out f es a' s')"
      by (rule Cons.IH [OF i(1,2)]) (use Cons.prems(3) in auto)
    then show ?thesis
      by (rule out_ok_mono) (use i in \<open>auto simp: adds_def simp del: in_gam\<close>)
  qed
  moreover have "out_ok E (adds I a (P e) v) (f e a s)" using Cons.prems by simp
  ultimately show ?case by (simp add: out_ok_then)
qed (simp add: adds_def)

lemma join_adds:
  "I s \<Longrightarrow> range_ok a \<Longrightarrow> range_ok r \<Longrightarrow> (P \<Longrightarrow> v \<in> gam r) \<Longrightarrow> adds I a P v (range_join a r) s"
  unfolding adds_def using range_join_ok rng.join_upper [of a r] by blast

lemma adds_then:
  assumes "out_ok E (adds I r P' v) m" "P \<Longrightarrow> v \<in> gam r"
    and "\<And>r' s'. I s' \<Longrightarrow> range_ok r' \<Longrightarrow> (P \<or> P' \<Longrightarrow> v \<in> gam r') \<Longrightarrow> out_ok E R (f r' s')"
  shows "out_ok E R (and_then m f)"
  by (rule out_ok_then [OF assms(1)]) (use assms(2,3) in \<open>auto simp: adds_def subset_iff simp del: in_gam\<close>)

lemma adds_last:
  assumes "out_ok E (adds I r P' v) m" "P \<Longrightarrow> v \<in> gam r"
  shows "out_ok E (\<lambda>r s. I s \<and> range_ok r \<and> (P \<or> P' \<longrightarrow> v \<in> gam r)) m"
  by (rule out_ok_mono [OF assms(1)]) (use assms(2) in \<open>auto simp: adds_def subset_iff simp del: in_gam\<close>)

text \<open>\<open>R\<close> gives the values that each variable takes in the executions under consideration. A range
  is sound for a variable when it holds all of them.\<close>

definition sound_result :: "(nat \<Rightarrow> int set) \<Rightarrow> nat \<Rightarrow> range \<Rightarrow> bool" where
  "sound_result R x r = (range_ok r \<and> R x \<subseteq> gam r)"

lemma join_value_adds:
  assumes "call_ok E V I (sound_result R) rec" "w \<in> V" "I s" "range_ok a"
  shows "out_ok E (adds I a (v \<in> R w) v) (join_value rec d w a s)"
  unfolding join_value_def
  by (rule call_then [OF assms(1-3)])
    (use assms(4) join_adds in \<open>auto simp: sound_result_def subset_iff simp del: in_gam\<close>)

lemma join_edge_adds:
  assumes "call_ok E V I (sound_result R) rec" "I s" "range_ok a" "\<And>vs. c e = Some vs \<Longrightarrow> set vs \<subseteq> V"
  shows "out_ok E (adds I a (\<exists>vs w. c e = Some vs \<and> w \<in> set vs \<and> v \<in> R w) v) (join_edge c rec d e a s)"
proof (cases "c e")
  case None
  then show ?thesis using assms(2,3) by (simp add: join_edge_def adds_def)
next
  case (Some vs)
  have "out_ok E (adds I a (\<exists>w\<in>set vs. v \<in> R w) v) (fold_out (join_value rec d) vs a s)"
    by (rule fold_adds [where I = I, OF assms(2,3)]) (use Some assms(4) join_value_adds [OF assms(1)] in blast)
  then show ?thesis using Some by (simp add: join_edge_def Bex_def)
qed

definition binop_from :: "(nat \<Rightarrow> int set) \<Rightarrow> int \<Rightarrow> svf_stmt \<Rightarrow> bool" where
  "binop_from R v e = (\<exists>l a b oc. e = BinaryOPStmt l [a, b] oc \<and> (\<exists>x\<in>R a. \<exists>y\<in>R b. binop_covered oc x y \<and> binop_sem oc x y v))"

definition total_edge :: "svf_stmt \<Rightarrow> bool" where
  "total_edge e = (case as_binop e of None \<Rightarrow> True | Some bop \<Rightarrow> \<not> partial_op (snd bop))"

lemma binop_sem_handled: "binop_sem oc a b v \<Longrightarrow> handled_op oc"
  by (auto simp: binop_sem_def handled_op_def split: if_splits)

lemma binop_edge_adds:
  assumes c: "call_ok E V I (sound_result R) rec" and s: "I s" "range_ok acc" and ops: "operands e \<subseteq> V"
    and v: "in64 v" and E: "\<not> total_edge e \<Longrightarrow> E UndefinedBehaviour"
  shows "out_ok E (adds I acc (binop_from R v e) v) (binop_edge rec d e acc s)"
proof (cases "\<exists>l a b oc. e = BinaryOPStmt l [a, b] oc \<and> handled_op oc")
  case True
  then obtain l a b oc where e: "e = BinaryOPStmt l [a, b] oc" "handled_op oc" by blast
  have V: "a \<in> V" "b \<in> V" using ops e(1) by auto
  have fin: "out_ok E (adds I acc (binop_from R v e) v)
      (and_then (lift_ub (binop_range oc ra rb) s) (\<lambda>r s. Inr (range_join acc r, s)))"
    if sr: "sound_result R a ra" "sound_result R b rb" and I: "I s" for ra rb s
  proof (cases "binop_range oc ra rb")
    case None
    then have "partial_op oc" using binop_range_None sr e(2) unfolding sound_result_def by blast
    then show ?thesis using None E e(1) by (simp add: lift_ub_def total_edge_def)
  next
    case (Some r)
    have "range_ok r" using binop_range_ok sr e(2) Some unfolding sound_result_def by blast
    moreover have "v \<in> gam r" if f: "binop_from R v e"
    proof -
      obtain x y where "x \<in> R a" "y \<in> R b" "binop_covered oc x y" "binop_sem oc x y v"
        using f e(1) by (auto simp: binop_from_def)
      then show ?thesis
        using binop_range_sound_nonempty [OF _ _ _ _ e(2) Some v, of x y] sr
        unfolding sound_result_def by blast
    qed
    ultimately have "adds I acc (binop_from R v e) v (range_join acc r) s"
      by (intro join_adds I s)
    then show ?thesis using Some by (simp add: lift_ub_def)
  qed
  show ?thesis
    using e fin by (simp add: binop_edge_def) (intro call_then [OF c V(1) s(1)] call_then [OF c V(2)])
next
  case False
  then have "\<not> binop_from R v e" using binop_sem_handled by (auto simp: binop_from_def)
  moreover have "binop_edge rec d e acc s = Inr (acc, s)"
  proof (cases e)
    case (BinaryOPStmt l os oc)
    have "\<not> (length os = 2 \<and> handled_op oc)"
      using False BinaryOPStmt by (metis One_nat_def Suc_1 length_0_conv length_Suc_conv)
    then show ?thesis using BinaryOPStmt by (auto simp: binop_edge_def)
  qed (auto simp: binop_edge_def)
  ultimately show ?thesis using s by (simp add: adds_def)
qed

definition select_from :: "(nat \<Rightarrow> int set) \<Rightarrow> int \<Rightarrow> svf_stmt \<Rightarrow> bool" where
  "select_from R v e = (\<exists>l c t f. e = SelectStmt l c t f \<and> (\<exists>b\<in>R c. v \<in> (if b \<noteq> 0 then R t else R f)))"

lemma select_ok: "range_ok t \<Longrightarrow> range_ok f \<Longrightarrow> range_ok (range_select c t f)"
  by (simp add: range_select_def range_join_ok)

lemma select_edge_adds:
  assumes c: "call_ok E V I (sound_result R) rec" and s: "I s" "range_ok acc" and ops: "operands e \<subseteq> V"
  shows "out_ok E (adds I acc (select_from R v e) v) (select_edge rec d e acc s)"
proof (cases e)
  case (SelectStmt l cn t f)
  have V: "cn \<in> V" "t \<in> V" "f \<in> V" using ops SelectStmt by auto
  have fin: "adds I acc (select_from R v e) v (range_join acc (range_select rc rt rf)) s"
    if sr: "sound_result R cn rc" "sound_result R t rt" "sound_result R f rf" and I: "I s" for rc rt rf s
  proof (rule join_adds [where I = I, OF I s(2)])
    show "range_ok (range_select rc rt rf)" using sr by (simp add: select_ok sound_result_def)
    assume "select_from R v e"
    then obtain b where b: "b \<in> R cn" "b \<noteq> 0 \<Longrightarrow> v \<in> R t" "b = 0 \<Longrightarrow> v \<in> R f"
      using SelectStmt by (auto simp: select_from_def split: if_splits)
    show "v \<in> gam (range_select rc rt rf)"
      by (rule range_select_sound [of b]) (use b sr in \<open>unfold sound_result_def, blast+\<close>)
  qed
  show ?thesis
    using SelectStmt fin
    by (simp add: select_edge_def) (intro call_then [OF c V(1) s(1)] call_then [OF c V(2)] call_then [OF c V(3)], simp_all)
qed (use s in \<open>auto simp: select_edge_def adds_def select_from_def simp del: in_gam\<close>)

text \<open>The value \<open>v\<close> of \<open>x\<close> comes from one of its edges.\<close>

definition range_source :: "svfir \<Rightarrow> (nat \<Rightarrow> int set) \<Rightarrow> nat \<Rightarrow> int \<Rightarrow> bool" where
  "range_source p R x v =
    ((\<exists>r l n. LoadStmt r l n \<in> set (inEdgeMap p x Load) \<and> v \<in> R r)
     \<or> (\<exists>r l n. StoreStmt r l n \<in> set (inEdgeMap p x Store) \<and> v \<in> R r)
     \<or> (\<exists>r l. CopyStmt r l \<in> set (inEdgeMap p x Copy) \<and> v \<in> R r)
     \<or> (\<exists>e\<in>set (inEdgeMap p x BinaryOp). binop_from R v e)
     \<or> (\<exists>l ops w. PhiStmt l ops \<in> set (inEdgeMap p x Phi) \<and> w \<in> set ops \<and> v \<in> R w)
     \<or> (\<exists>e\<in>set (inEdgeMap p x Select). select_from R v e))"

lemma deriveRange_adds:
  assumes c: "call_ok E V I (sound_result R) rec" and s: "I s" and cl: "closed p V" and x: "x \<in> V" and v: "in64 v"
    and E: "\<not> (\<forall>e\<in>set (inEdgeMap p x BinaryOp). total_edge e) \<Longrightarrow> E UndefinedBehaviour"
  shows "out_ok E (\<lambda>r s'. I s' \<and> range_ok r \<and> (range_source p R x v \<longrightarrow> v \<in> gam r)) (deriveRange p rec x d s)"
proof -
  have ops: "operands e \<subseteq> V" if "e \<in> set (inEdgeMap p x k)" for e k
    using that cl x unfolding closed_def by blast
  let ?P = "\<lambda>co k. \<exists>e\<in>set (inEdgeMap p x k). \<exists>vs w. co e = Some vs \<and> w \<in> set vs \<and> v \<in> R w"
  let ?B = "\<exists>e\<in>set (inEdgeMap p x BinaryOp). binop_from R v e"
  let ?S = "\<exists>e\<in>set (inEdgeMap p x Select). select_from R v e"
  have je: "out_ok E (adds I r (?P co k) v) (fold_out (join_edge co rec d) (inEdgeMap p x k) r s)"
    if "I s" "range_ok r" "\<And>e vs. co e = Some vs \<Longrightarrow> operands e \<subseteq> V \<Longrightarrow> set vs \<subseteq> V" for co k r s
    by (rule fold_adds [where I = I, OF that(1,2)]) (use that(3) ops join_edge_adds [OF c] in blast)
  have bo: "out_ok E (adds I r ?B v) (fold_out (binop_edge rec d) (inEdgeMap p x BinaryOp) r s)"
    if "I s" "range_ok r" for r s
    by (rule fold_adds [where I = I, OF that]) (use ops binop_edge_adds [OF c] v E in blast)
  have se: "out_ok E (adds I r ?S v) (fold_out (select_edge rec d) (inEdgeMap p x Select) r s)"
    if "I s" "range_ok r" for r s
    by (rule fold_adds [where I = I, OF that]) (use ops select_edge_adds [OF c] in blast)
  have "?P load_op Load" if "LoadStmt r l n \<in> set (inEdgeMap p x Load)" "v \<in> R r" for r l n
    by (intro bexI [OF _ that(1)] exI [of _ "[r]"] exI [of _ r]) (simp add: load_op_def that(2))
  moreover have "?P store_op Store" if "StoreStmt r l n \<in> set (inEdgeMap p x Store)" "v \<in> R r" for r l n
    by (intro bexI [OF _ that(1)] exI [of _ "[r]"] exI [of _ r]) (simp add: store_op_def that(2))
  moreover have "?P copy_op Copy" if "CopyStmt r l \<in> set (inEdgeMap p x Copy)" "v \<in> R r" for r l
    by (intro bexI [OF _ that(1)] exI [of _ "[r]"] exI [of _ r]) (simp add: copy_op_def that(2))
  moreover have "?P as_phi Phi" if "PhiStmt l os \<in> set (inEdgeMap p x Phi)" "w \<in> set os" "v \<in> R w" for l os w
    by (intro bexI [OF _ that(1)] exI [of _ os] exI [of _ w]) (simp add: that(2,3))
  ultimately have cov: "range_source p R x v \<Longrightarrow> ?P load_op Load \<or> ?P store_op Store \<or> ?P copy_op Copy \<or> ?B \<or> ?P as_phi Phi \<or> ?S"
    unfolding range_source_def by meson
  let ?R = "\<lambda>r s. I s \<and> range_ok r \<and>
    ((((((False \<or> ?P load_op Load) \<or> ?P store_op Store) \<or> ?P copy_op Copy) \<or> ?B) \<or> ?P as_phi Phi) \<or> ?S \<longrightarrow> v \<in> gam r)"
  have "out_ok E ?R (deriveRange p rec x d s)"
    unfolding deriveRange_def
  proof (rule adds_then [OF je [OF s], where P = False])
    fix r s
    assume 1: "I s" "range_ok r" "False \<or> ?P load_op Load \<Longrightarrow> v \<in> gam r"
    show "out_ok E ?R (and_then (fold_out (join_edge store_op rec d) (inEdgeMap p x Store) r s) (\<lambda>r s.
      and_then (fold_out (join_edge copy_op rec d) (inEdgeMap p x Copy) r s) (\<lambda>r s.
      and_then (fold_out (binop_edge rec d) (inEdgeMap p x BinaryOp) r s) (\<lambda>r s.
      and_then (fold_out (join_edge as_phi rec d) (inEdgeMap p x Phi) r s) (\<lambda>r s.
      fold_out (select_edge rec d) (inEdgeMap p x Select) r s)))))"
    proof (rule adds_then [OF je [OF 1(1,2)] 1(3)])
      fix r s
      assume 2: "I s" "range_ok r" "(False \<or> ?P load_op Load) \<or> ?P store_op Store \<Longrightarrow> v \<in> gam r"
      show "out_ok E ?R (and_then (fold_out (join_edge copy_op rec d) (inEdgeMap p x Copy) r s) (\<lambda>r s.
        and_then (fold_out (binop_edge rec d) (inEdgeMap p x BinaryOp) r s) (\<lambda>r s.
        and_then (fold_out (join_edge as_phi rec d) (inEdgeMap p x Phi) r s) (\<lambda>r s.
        fold_out (select_edge rec d) (inEdgeMap p x Select) r s))))"
      proof (rule adds_then [OF je [OF 2(1,2)] 2(3)])
        fix r s
        assume 3: "I s" "range_ok r"
          "((False \<or> ?P load_op Load) \<or> ?P store_op Store) \<or> ?P copy_op Copy \<Longrightarrow> v \<in> gam r"
        show "out_ok E ?R (and_then (fold_out (binop_edge rec d) (inEdgeMap p x BinaryOp) r s) (\<lambda>r s.
          and_then (fold_out (join_edge as_phi rec d) (inEdgeMap p x Phi) r s) (\<lambda>r s.
          fold_out (select_edge rec d) (inEdgeMap p x Select) r s)))"
        proof (rule adds_then [OF bo [OF 3(1,2)] 3(3)])
          fix r s
          assume 4: "I s" "range_ok r"
            "(((False \<or> ?P load_op Load) \<or> ?P store_op Store) \<or> ?P copy_op Copy) \<or> ?B \<Longrightarrow> v \<in> gam r"
          show "out_ok E ?R (and_then (fold_out (join_edge as_phi rec d) (inEdgeMap p x Phi) r s) (\<lambda>r s.
            fold_out (select_edge rec d) (inEdgeMap p x Select) r s))"
          proof (rule adds_then [OF je [OF 4(1,2)] 4(3)])
            fix r s
            assume 5: "I s" "range_ok r"
              "((((False \<or> ?P load_op Load) \<or> ?P store_op Store) \<or> ?P copy_op Copy) \<or> ?B) \<or> ?P as_phi Phi \<Longrightarrow> v \<in> gam r"
            show "out_ok E ?R (fold_out (select_edge rec d) (inEdgeMap p x Select) r s)"
              by (rule adds_last [OF se [OF 5(1,2)] 5(3)])
          qed (erule (1) edge_ops)
        qed
      qed (erule (1) edge_ops)
    qed (erule (1) edge_ops)
  qed (simp_all add: edge_ops)
  then show ?thesis
    by (rule out_ok_mono) (use cov in blast)
qed

lemma out_ok_all:
  assumes "out_ok E P m" "\<And>v. v \<in> A \<Longrightarrow> out_ok E (Q v) m"
  shows "out_ok E (\<lambda>a s. P a s \<and> (\<forall>v\<in>A. Q v a s)) m"
  using assms by (cases m) auto

lemma deriveRange_sound:
  assumes c: "call_ok E V I (sound_result R) rec" and s: "I s" and cl: "closed p V" and x: "x \<in> V"
    and E: "\<not> (\<forall>e\<in>set (inEdgeMap p x BinaryOp). total_edge e) \<Longrightarrow> E UndefinedBehaviour"
    and src: "\<And>v. v \<in> R x \<Longrightarrow> in64 v \<and> range_source p R x v"
  shows "out_ok E (\<lambda>r s'. I s' \<and> sound_result R x r) (deriveRange p rec x d s)"
proof -
  let ?Q = "\<lambda>v r s. I s \<and> range_ok r \<and> (range_source p R x v \<longrightarrow> v \<in> gam r)"
  have q: "out_ok E (?Q v) (deriveRange p rec x d s)" if "in64 v" for v
    by (rule deriveRange_adds [OF c s cl x that E])
  have "out_ok E (\<lambda>r s. ?Q 0 r s \<and> (\<forall>v\<in>R x. ?Q v r s)) (deriveRange p rec x d s)"
    by (rule out_ok_all) (use src q in \<open>blast intro: in64_consts\<close>)+
  then show ?thesis
    by (rule out_ok_mono) (use src in \<open>unfold sound_result_def, blast\<close>)
qed


section \<open>The assumptions of soundness\<close>

text \<open>A value with project facts is within them, a constant is itself, a bound formal is within its
  binding, and any other value comes from one of its edges. \<open>bound\<close> are the bindings at the context
  of the query.\<close>

definition value_model :: "svfir \<Rightarrow> nat option \<Rightarrow> (nat \<Rightarrow> range option) \<Rightarrow> (nat \<Rightarrow> int set) \<Rightarrow> nat \<Rightarrow> bool" where
  "value_model p ctx bound R x = ((\<forall>v\<in>R x. in64 v) \<and>
    (case resolveRange p x ctx of
       Some lu \<Rightarrow> in64 (fst lu) \<and> in64 (snd lu) \<and> R x \<subseteq> {fst lu..snd lu}
     | None \<Rightarrow> (case bound x of
         Some r \<Rightarrow> sound_result R x r
       | None \<Rightarrow> (case constVal p x of
           Some c \<Rightarrow> in64 c \<and> R x \<subseteq> {c}
         | None \<Rightarrow> \<forall>v\<in>R x. range_source p R x v))))"

definition ra_model :: "svfir \<Rightarrow> nat option \<Rightarrow> nat set \<Rightarrow> (nat \<Rightarrow> range option) \<Rightarrow> (nat \<Rightarrow> int set) \<Rightarrow> bool" where
  "ra_model p ctx V bound R = (closed p V \<and> (\<forall>x\<in>V. value_model p ctx bound R x))"

text \<open>The state of the analysis: guard narrowing is off (\<open>BOF_DISABLE_GUARD\<close>), and the ranges cached at
  the context are sound.\<close>

definition ra_sound :: "nat option \<Rightarrow> nat set \<Rightarrow> (nat \<Rightarrow> range option) \<Rightarrow> (nat \<Rightarrow> int set) \<Rightarrow> ra \<Rightarrow> bool" where
  "ra_sound ctx V bound R s = (\<not> guardEnabled s \<and> (\<forall>x. boundFormal ctx x s = bound x)
    \<and> (\<forall>x\<in>V. isBottom (getCachedVarRange ctx x s) \<or> sound_result R x (getCachedVarRange ctx x s)))"

definition ub_allowed :: "svfir \<Rightarrow> nat set \<Rightarrow> ra_error \<Rightarrow> bool" where
  "ub_allowed p V e = (e = UndefinedBehaviour \<longrightarrow> (\<exists>x\<in>V. \<exists>k. \<exists>st\<in>set (inEdgeMap p x k). \<not> total_edge st))"

lemma boundFormal_set [simp]: "boundFormal ctx y (setCachedVarRange ctx x r s) = boundFormal ctx y s"
  by (simp add: boundFormal_def split: option.split)

lemma ra_sound_set: "ra_sound ctx V bound R s \<Longrightarrow> sound_result R x r \<Longrightarrow>
    ra_sound ctx V bound R (setCachedVarRange ctx x r s)"
  by (auto simp: ra_sound_def)

lemma sound_TOP: "(\<And>v. v \<in> R x \<Longrightarrow> in64 v) \<Longrightarrow> sound_result R x TOP"
  by (auto simp: sound_result_def in64_def)

section \<open>The range of a value\<close>

lemma value_modelD:
  assumes "value_model p ctx bound R x"
  shows "v \<in> R x \<Longrightarrow> in64 v"
    "resolveRange p x ctx = Some lu \<Longrightarrow> sound_result R x (mk_range (fst lu) (snd lu))"
    "resolveRange p x ctx = None \<Longrightarrow> bound x = Some r \<Longrightarrow> sound_result R x r"
    "resolveRange p x ctx = None \<Longrightarrow> bound x = None \<Longrightarrow> constVal p x = Some c \<Longrightarrow> sound_result R x (const_range c)"
    "resolveRange p x ctx = None \<Longrightarrow> bound x = None \<Longrightarrow> constVal p x = None \<Longrightarrow> v \<in> R x \<Longrightarrow> range_source p R x v"
  using assms by (auto simp: value_model_def sound_result_def range_ok_def subset_iff)

lemma sound_dynamic:
  assumes c: "call_ok E V (ra_sound ctx V bound R) (sound_result R) rec" and cl: "closed p V" and x: "x \<in> V"
    and s: "ra_sound ctx V bound R s" and src: "\<And>v. v \<in> R x \<Longrightarrow> in64 v \<and> range_source p R x v"
    and E: "\<not> (\<forall>e\<in>set (inEdgeMap p x BinaryOp). total_edge e) \<Longrightarrow> E UndefinedBehaviour"
  shows "out_ok E (\<lambda>r s'. ra_sound ctx V bound R s' \<and> sound_result R x r) (analyzeDynamic p rec ctx x d s)"
  unfolding analyzeDynamic_def
proof (rule out_ok_then)
  have "sound_result R x TOP" by (rule sound_TOP) (use src in blast)
  then show "out_ok E (\<lambda>r s'. ra_sound ctx V bound R s' \<and> sound_result R x r)
      (deriveRange p rec x (d + 1) (setCachedVarRange ctx x TOP s))"
    by (rule deriveRange_sound [OF c ra_sound_set [OF s] cl x E src])
next
  fix r s'
  assume r: "ra_sound ctx V bound R s' \<and> sound_result R x r"
  then have "\<not> guardEnabled s'" by (simp add: ra_sound_def)
  then show "out_ok E (\<lambda>r s'. ra_sound ctx V bound R s' \<and> sound_result R x r)
      (if isBottom r then Inr (r, s')
       else and_then (if guardEnabled s' then refineLoad p rec x r s' else Inr (r, s'))
         (\<lambda>r s. Inr (r, setCachedVarRange ctx x r s)))"
    using r ra_sound_set by simp
qed

lemma analyzeVarRange_sound_upto:
  assumes m: "ra_model p ctx V bound R"
  shows "x \<in> V \<Longrightarrow> ra_sound ctx V bound R s \<Longrightarrow>
    out_ok (ub_allowed p V) (\<lambda>r s'. ra_sound ctx V bound R s' \<and> sound_result R x r)
      (analyzeVarRange p n ctx x d s)"
proof (induction n arbitrary: x d s)
  case (Suc n)
  let ?I = "ra_sound ctx V bound R"
  let ?rec = "analyzeVarRange p n ctx"
  have cl: "closed p V" using m by (simp add: ra_model_def)
  have v: "value_model p ctx bound R x" using m Suc.prems(1) by (simp add: ra_model_def)
  note mx = value_modelD [OF v]
  have c: "call_ok (ub_allowed p V) V ?I (sound_result R) ?rec"
    unfolding call_ok_def using Suc.IH by blast
  have E: "\<not> (\<forall>e\<in>set (inEdgeMap p x BinaryOp). total_edge e) \<Longrightarrow> ub_allowed p V UndefinedBehaviour"
    using Suc.prems(1) by (auto simp: ub_allowed_def)
  have dyn: "out_ok (ub_allowed p V) (\<lambda>r s'. ?I s' \<and> sound_result R x r) (analyzeDynamic p ?rec ctx x d s)"
    if "resolveRange p x ctx = None" "bound x = None" "constVal p x = None"
    by (rule sound_dynamic [OF c cl Suc.prems(1,2) _ E]) (use mx(1,5) that in blast)
  have b: "boundFormal ctx x s = bound x" using Suc.prems(2) by (simp add: ra_sound_def)
  have top: "sound_result R x TOP" by (rule sound_TOP) (rule mx(1))
  have cached: "\<not> isBottom (getCachedVarRange ctx x s) \<Longrightarrow> sound_result R x (getCachedVarRange ctx x s)"
    using Suc.prems by (auto simp: ra_sound_def)
  show ?case
    using Suc.prems(2) mx(2,3,4) top cached dyn b ra_sound_set
    by (simp add: analyzeBody_def Let_def split: option.split)
qed (simp add: ub_allowed_def)

section \<open>Properties\<close>

text \<open>C6: The value range analysis ends, whatever cycles the value graph has: recursion expands each
  value at most once per query, since its cache entry is TOP while it is expanded. With the
  values that the analysis can reach in a finite set \<open>V\<close>, fuel beyond the number of values of \<open>V\<close>
  with neither facts nor a cached range is enough, for any starting depth, guard narrowing
  included.\<close>

theorem analyzeVarRange_terminates:
  assumes "finite V" "closed p V" "x \<in> V" "index_in V s" "card (unanalysed p ctx V s) < n"
  shows "analyzeVarRange p n ctx x d s \<noteq> Inl OutOfFuel"
proof -
  have "out_ok (\<lambda>e. e \<noteq> OutOfFuel) (\<lambda>r s'. index_in V s' \<and> unanalysed p ctx V s' \<subseteq> unanalysed p ctx V s)
      (analyzeVarRange p n ctx x d s)"
    by (rule analyzeVarRange_terminates_upto [OF assms(1,2,3)]) (use assms(4,5) in \<open>auto simp: unanalysed_def\<close>)
  then show ?thesis by (auto simp: out_ok_def)
qed

text \<open>A loop: value 1 is a phi of the constant 0 and of value 2, which is value 1 plus one.\<close>

definition loop_prog :: svfir where
  "loop_prog = \<lparr>inEdgeMap = (\<lambda>x k.
      if x = 1 \<and> k = Phi then [PhiStmt 1 [0, 2]]
      else if x = 2 \<and> k = BinaryOp then [BinaryOPStmt 2 [1, 3] op_Add] else []),
    stmtSet = (\<lambda>_. []), constVal = [0 \<mapsto> 0, 3 \<mapsto> 1], nodeBB = Map.empty, nodeFun = Map.empty,
    loopAndDom = (\<lambda>_. \<lparr>reachableBBs = [], dtBBsMap = Map.empty, bb2LoopMap = Map.empty\<rparr>),
    resolveRange = (\<lambda>_ _. None)\<rparr>"

lemma loop_prog_closed: "closed loop_prog {0, 1, 2, 3}"
  by (simp add: closed_def loop_prog_def)

lemma index_in_new [simp]: "index_in V (ra_new env)"
  by (simp add: index_in_def ra_new_def all_entries_def)

lemma analyzeVarRange_terminates_witness: "analyzeVarRange loop_prog 5 None 1 0 (ra_new None) \<noteq> Inl OutOfFuel"
proof (rule analyzeVarRange_terminates [OF _ loop_prog_closed])
  have "card (unanalysed loop_prog None {0, 1, 2, 3} (ra_new None)) \<le> card {0, 1, 2, 3 :: nat}"
    by (rule card_mono) (auto simp: unanalysed_def)
  also have "\<dots> < 5" by simp
  finally show "card (unanalysed loop_prog None {0, 1, 2, 3} (ra_new None)) < 5" .
qed simp_all

text \<open>C5: The value range analysis is sound on 64-bit values. Let \<open>R\<close> give for each variable the
  values it takes in the executions under consideration, where a value is within its project facts
  or its binding, is its constant, or comes from the values of the operands of one of its edges
  (load, store, copy, phi, select, binary operation) and fits into 64 signed bits. All integer
  operations that the analysis handles count, with two exceptions, for which its ranges are wrong
  (lemma \<open>uncovered_operands\<close>): unsigned divisions and remainders count for non-negative operands
  only, since the code computes them as signed ones, and arithmetic right shifts for a non-negative
  left operand only, since \<open>Range::ashr\<close> takes the wrong bounds. Then a query whose guard narrowing
  is off returns a range that contains every value of the variable, leaves only sound ranges in the
  cache, and can fail only by an undefined operation of the range arithmetic on an edge that
  subtracts, divides or takes a remainder.\<close>

theorem analyzeVarRange_sound:
  assumes "finite V" "ra_model p ctx V bound R" "x \<in> V" "ra_sound ctx V bound R s" "index_in V s" "card V < n"
  shows "case analyzeVarRange p n ctx x d s of
      Inr rs \<Rightarrow> R x \<subseteq> gam (fst rs) \<and> range_ok (fst rs) \<and> ra_sound ctx V bound R (snd rs)
    | Inl e \<Rightarrow> e = UndefinedBehaviour \<and> (\<exists>y\<in>V. \<exists>k. \<exists>st\<in>set (inEdgeMap p y k). \<not> total_edge st)"
proof -
  have cl: "closed p V" using assms(2) by (simp add: ra_model_def)
  have "card (unanalysed p ctx V s) \<le> card V"
    by (rule card_mono [OF assms(1)]) (auto simp: unanalysed_def)
  then have fuel: "card (unanalysed p ctx V s) < n" using assms(6) by simp
  have t: "out_ok (\<lambda>e. e \<noteq> OutOfFuel) (\<lambda>r s'. index_in V s' \<and> unanalysed p ctx V s' \<subseteq> unanalysed p ctx V s)
      (analyzeVarRange p n ctx x d s)"
    by (rule analyzeVarRange_terminates_upto [OF assms(1) cl assms(3) _ fuel assms(5)]) (auto simp: unanalysed_def)
  show ?thesis
    using t analyzeVarRange_sound_upto [OF assms(2,3,4), of n d]
    by (cases "analyzeVarRange p n ctx x d s")
      (auto simp: sound_result_def ub_allowed_def simp del: in_gam intro: ra_error.exhaust)
qed

text \<open>The loop counter takes all the values from 0 to 10, and its increment those from 1 to 11.\<close>

definition loop_values :: "nat \<Rightarrow> int set" where
  "loop_values x = (if x = 0 then {0} else if x = 1 then {0..10} else if x = 2 then {1..11} else {1})"

lemma analyzeVarRange_sound_witness:
  "case analyzeVarRange loop_prog 5 None 1 0 (ra_new (Some ''1'')) of
      Inr rs \<Rightarrow> {0..10} \<subseteq> gam (fst rs) \<and> range_ok (fst rs)
        \<and> ra_sound None {0, 1, 2, 3} Map.empty loop_values (snd rs)
    | Inl e \<Rightarrow> e = UndefinedBehaviour
        \<and> (\<exists>y\<in>{0, 1, 2, 3}. \<exists>k. \<exists>st\<in>set (inEdgeMap loop_prog y k). \<not> total_edge st)"
proof -
  have "\<exists>x\<in>{0..10}. v = x + 1" if "1 \<le> v" "v \<le> 11" for v :: int
    by (rule bexI [of _ "v - 1"]) (use that in auto)
  moreover have phi: "\<exists>w. (w = 2 \<longrightarrow> 1 \<le> v) \<and> (w \<noteq> 2 \<longrightarrow> w \<noteq> Suc 0 \<and> (w \<noteq> Suc 0 \<longrightarrow> (w = 0 \<longrightarrow> v = 0) \<and> w = 0))"
    if "0 \<le> v" for v :: int
    by (rule exI [of _ "if v = 0 then 0 else 2"]) (use that in auto)
  ultimately have "ra_model loop_prog None {0, 1, 2, 3} Map.empty loop_values"
    using loop_prog_closed
    by (auto simp: ra_model_def value_model_def loop_prog_def loop_values_def range_source_def in64_def bounds_defs
        binop_from_def binop_sem_def binop_covered_def op_Add_def op_UDiv_def op_URem_def op_AShr_def intro!: phi)
  moreover have "ra_sound None {0, 1, 2, 3} Map.empty loop_values (ra_new (Some ''1''))"
    by (simp add: ra_sound_def ra_new_def boundFormal_def getCachedVarRange_def getVarRange_def)
  ultimately have "case analyzeVarRange loop_prog 5 None 1 0 (ra_new (Some ''1'')) of
      Inr rs \<Rightarrow> loop_values 1 \<subseteq> gam (fst rs) \<and> range_ok (fst rs)
        \<and> ra_sound None {0, 1, 2, 3} Map.empty loop_values (snd rs)
    | Inl e \<Rightarrow> e = UndefinedBehaviour
        \<and> (\<exists>y\<in>{0, 1, 2, 3}. \<exists>k. \<exists>st\<in>set (inEdgeMap loop_prog y k). \<not> total_edge st)"
    by (intro analyzeVarRange_sound) simp_all
  moreover have "loop_values 1 = {0..10}" by (simp add: loop_values_def)
  ultimately show ?thesis by (rule subst [rotated])
qed

text \<open>C39: Narrowing a load by guards and loops, and the range that the guards of a program point give
  a variable, only tighten: whatever the recursive calls return, the result of a narrowing that
  completes is a subset of the range it started from and never becomes empty.\<close>

theorem narrowing_tightens:
  assumes "\<not> isBottom current"
  shows "(case refineLoad p rec x current s of
      Inr rs \<Rightarrow> \<not> isBottom (fst rs) \<and> gam (fst rs) \<subseteq> gam current
    | Inl e \<Rightarrow> True)
    \<and> (case guardedValueRange p n v loc s of
      Inr rs \<Rightarrow> \<not> isBottom (fst rs) \<and> gam (fst rs) \<subseteq> gam TOP
    | Inl e \<Rightarrow> True)"
proof -
  have "out_ok (\<lambda>_. True) (\<lambda>r s'. \<not> isBottom r \<and> gam r \<subseteq> gam TOP) (guardedValueRange p n v loc s)"
    by (auto simp: guardedValueRange_def Let_def simp del: in_gam split: option.split bool.split
        intro!: out_ok_subset_fold guarded_step_tight)
  then show ?thesis
    using refineLoad_tight [OF assms, of p rec x s]
    by (simp add: out_ok_def split: sum.splits)
qed

text \<open>\<open>if (*a < 10) use(*a);\<close>: value 3 is the comparison of the load 2 of the slot 1 with 10, block 1
  branches on it to block 2, which loads the slot again as
  value 5. The slot holds the non-negative value 7, and the second load is narrowed to \<open>[0, 9]\<close>.\<close>

definition guard_prog :: svfir where
  "guard_prog = \<lparr>inEdgeMap = (\<lambda>x k.
      if x = 1 \<and> k = Store then [StoreStmt 7 1 (Some 1)]
      else if x = 2 \<and> k = Load then [LoadStmt 1 2 (Some 1)]
      else if x = 5 \<and> k = Load then [LoadStmt 1 5 (Some 2)]
      else if x = 3 \<and> k = Cmp then [CmpStmt 3 [2, 4] ICMP_SLT] else []),
    stmtSet = (\<lambda>k. if k = Cmp then [CmpStmt 3 [2, 4] ICMP_SLT]
      else if k = Branch then [BranchStmt (Some 3) [(Some 2, 1), (Some 3, 0)] (Some 1)] else []),
    constVal = [4 \<mapsto> 10], nodeBB = (\<lambda>n. Some n), nodeFun = (\<lambda>n. Some 0),
    loopAndDom = (\<lambda>_. \<lparr>reachableBBs = [1, 2, 3], dtBBsMap = [1 \<mapsto> [1, 2, 3], 2 \<mapsto> [2], 3 \<mapsto> [3]],
      bb2LoopMap = Map.empty\<rparr>),
    resolveRange = (\<lambda>x _. if x = 7 then Some (0, rINF) else None)\<rparr>"

lemma narrowing_tightens_witness:
  "(case refineLoad guard_prog (analyzeVarRange guard_prog 5 None) 5 (mk_range 0 rINF) (ra_new None) of
      Inr rs \<Rightarrow> \<not> isBottom (fst rs) \<and> gam (fst rs) \<subseteq> gam (mk_range 0 rINF)
    | Inl e \<Rightarrow> True)
    \<and> map_sum id fst (refineLoad guard_prog (analyzeVarRange guard_prog 5 None) 5 (mk_range 0 rINF) (ra_new None))
      = Inr (mk_range 0 9)
    \<and> map_sum id fst (analyzeVarRange guard_prog 5 None 5 0 (ra_new None)) = Inr (mk_range 0 9)"
proof (intro conjI)
  have "\<not> isBottom (mk_range 0 rINF)" by (simp add: isBottom_def bounds_defs)
  from narrowing_tightens [OF this, of guard_prog "analyzeVarRange guard_prog 5 None" 5 "ra_new None" 0 None None]
  show "case refineLoad guard_prog (analyzeVarRange guard_prog 5 None) 5 (mk_range 0 rINF) (ra_new None) of
      Inr rs \<Rightarrow> \<not> isBottom (fst rs) \<and> gam (fst rs) \<subseteq> gam (mk_range 0 rINF)
    | Inl e \<Rightarrow> True" by (rule conjunct1)
qed code_simp+

text \<open>Bindings of formal parameters. At a depth below the limit and without project facts, a query
  at the bound context returns the bound range at once and changes nothing; the binding is not
  visible at other contexts nor for other variables, a later binding replaces it, and without a
  context or a formal nothing is bound.\<close>

theorem formal_binding:
  assumes "resolveRange p x (Some c) = None" "d < MAX_RECURSION_DEPTH"
  shows "analyzeVarRange p (Suc n) (Some c) x d (bindFormalRange (Some c) (Some x) r s)
      = Inr (r, bindFormalRange (Some c) (Some x) r s)
    \<and> ((ctx, y) \<noteq> (Some c, x) \<longrightarrow>
      boundFormal ctx y (bindFormalRange (Some c) (Some x) r s) = boundFormal ctx y s)
    \<and> bindFormalRange (Some c) (Some x) r (bindFormalRange (Some c) (Some x) r' s) = bindFormalRange (Some c) (Some x) r s
    \<and> bindFormalRange None f r s = s \<and> bindFormalRange (Some c) None r s = s"
  using assms
  by (auto simp: analyzeBody_def boundFormal_def bindFormalRange_def split: option.split)

lemma formal_binding_witness:
  "analyzeVarRange loop_prog 1 (Some 7) 2 0 (bindFormalRange (Some 7) (Some 2) (mk_range 1 4) (ra_new None))
    = Inr (mk_range 1 4, bindFormalRange (Some 7) (Some 2) (mk_range 1 4) (ra_new None))"
  using formal_binding [of loop_prog 2 7 0 0 "mk_range 1 4" "ra_new None" None 0 TOP None]
  by (simp add: loop_prog_def MAX_RECURSION_DEPTH_def)

text \<open>C40: A value without facts, binding, constant or any edge that the analysis follows. The first query
  answers the empty range BOTTOM and leaves TOP in the cache, so that the second one answers TOP;
  and since BOTTOM is neutral for joins, a phi of such a value and a constant gets the range of the
  constant alone.\<close>

theorem unknown_value:
  assumes "resolveRange p x ctx = None" "boundFormal ctx x s = None" "isBottom (getCachedVarRange ctx x s)"
    and "constVal p x = None" "\<And>k. k \<in> {Load, Store, Copy, BinaryOp, Phi, Select} \<Longrightarrow> inEdgeMap p x k = []"
    and "d < MAX_RECURSION_DEPTH"
    and "resolveRange p c ctx = None" "boundFormal ctx c s = None" "isBottom (getCachedVarRange ctx c s)"
    and "constVal p c = Some v" "c \<noteq> x" "d' < MAX_RECURSION_DEPTH"
  shows "(let s' = setCachedVarRange ctx x TOP s
     in analyzeVarRange p (Suc n) ctx x d s = Inr (BOTTOM, s')
      \<and> analyzeVarRange p (Suc m) ctx x d' s' = Inr (TOP, s')
      \<and> join_edge as_phi (analyzeVarRange p (Suc n) ctx) d (PhiStmt y [x, c]) BOTTOM s
          = Inr (const_range v, setCachedVarRange ctx c (const_range v) s'))"
proof -
  let ?s = "setCachedVarRange ctx x TOP s"
  have e: "inEdgeMap p x Load = []" "inEdgeMap p x Store = []" "inEdgeMap p x Copy = []"
    "inEdgeMap p x BinaryOp = []" "inEdgeMap p x Phi = []" "inEdgeMap p x Select = []"
    using assms(5) by blast+
  have first: "analyzeVarRange p (Suc n) ctx x d s = Inr (BOTTOM, ?s)"
    using assms(1-4,6) e by (simp add: analyzeBody_def analyzeDynamic_def deriveRange_def)
  moreover have "analyzeVarRange p (Suc m) ctx x d' ?s = Inr (TOP, ?s)"
    using assms(1,2,12) by (simp add: analyzeBody_def Let_def)
  moreover have "analyzeVarRange p (Suc n) ctx c d ?s
      = Inr (const_range v, setCachedVarRange ctx c (const_range v) ?s)"
    using assms(6-11) by (simp add: analyzeBody_def)
  moreover have "range_join BOTTOM BOTTOM = BOTTOM" "range_join BOTTOM (const_range v) = const_range v"
    by (simp_all add: range_join_def)
  ultimately show ?thesis
    by (simp add: join_edge_def join_value_def Let_def del: analyzeVarRange.simps)
qed

lemma unknown_value_witness:
  "\<exists>s'. join_edge as_phi (analyzeVarRange loop_prog 1 None) 1 (PhiStmt 8 [9, 3]) BOTTOM (ra_new None)
      = Inr (const_range 1, s')"
  using unknown_value [of loop_prog 9 None "ra_new None" 1 3 1 0 0 0 8]
  by (simp add: loop_prog_def ra_new_def boundFormal_def getCachedVarRange_def getVarRange_def
      MAX_RECURSION_DEPTH_def Let_def)

end
