(* ===== verification/BofPropagate.thy ===== *)
theory BofPropagate
  imports BofReports BofRangeSound
begin

text \<open>
  The fixpoint of the buffer overflow checker, \<open>propagate\<close> of \<open>svf/lib/BOF/BufferOverflowChecker.cpp\<close>: it ends,
  and no access is missed on the way of a pointer from its buffer.

  The locale \<open>range_client\<close> is what the checker needs of the range analysis: queries that keep the state of the
  analysis and give a range that holds the values of the variable. It is interpreted twice on the analysis, once with
  nothing known of the values and once with the value model of theory BofRangeSound.
\<close>

section \<open>Queries of the analysis keep its state\<close>

definition facts_ok :: "svfir \<Rightarrow> bool" where
  "facts_ok p = ((\<forall>x c. constVal p x = Some c \<longrightarrow> in64 c)
    \<and> (\<forall>x ctx lu. resolveRange p x ctx = Some lu \<longrightarrow> in64 (fst lu) \<and> in64 (snd lu)))"

lemma tight_ok: "range_ok r \<Longrightarrow> \<not> isBottom r' \<Longrightarrow> gam r' \<subseteq> gam r \<Longrightarrow> range_ok r'"
  by (auto simp: gam_subset_iff range_ok_def in64_def isBottom_def simp del: in_gam)

text \<open>An invariant of the state that caching and the guard index keep is kept by a query, and the range that it
  returns has its bounds in 64 bits.\<close>

lemma analyzeVarRange_keeps:
  assumes cl: "closed p V" and facts: "facts_ok p"
    and I: "\<And>s. I s \<Longrightarrow> index_in V s"
      "\<And>s x r. I s \<Longrightarrow> range_ok r \<Longrightarrow> I (setCachedVarRange ctx x r s)"
      "\<And>s. I s \<Longrightarrow> I (buildGuardIndex p s)"
      "\<And>s x. I s \<Longrightarrow> range_ok (getCachedVarRange ctx x s)"
      "\<And>s x r. I s \<Longrightarrow> boundFormal ctx x s = Some r \<Longrightarrow> range_ok r"
  shows "x \<in> V \<Longrightarrow> I s \<Longrightarrow> out_ok (\<lambda>_. True) (\<lambda>r s'. I s' \<and> range_ok r) (analyzeVarRange p n ctx x d s)"
proof (induction n arbitrary: x d s)
  case (Suc n)
  let ?rec = "analyzeVarRange p n ctx"
  let ?T = "\<lambda>_. True"
  have c: "call_ok ?T V I (sound_result (\<lambda>_. {})) ?rec"
    unfolding call_ok_def sound_result_def using Suc.IH by simp
  have dyn: "out_ok ?T (\<lambda>r s'. I s' \<and> range_ok r) (analyzeDynamic p ?rec ctx x d s)"
    unfolding analyzeDynamic_def
  proof (rule out_ok_then)
    show "out_ok ?T (\<lambda>r s'. I s' \<and> range_ok r) (deriveRange p ?rec x (d + 1) (setCachedVarRange ctx x TOP s))"
      by (rule out_ok_mono [OF deriveRange_sound [OF c I(2) [OF Suc.prems(2)] cl Suc.prems(1)]])
        (simp_all add: sound_result_def)
  next
    fix r s' assume r: "I s' \<and> range_ok r"
    have "out_ok ?T (\<lambda>r s'. I s' \<and> range_ok r) (if guardEnabled s' then refineLoad p ?rec x r s' else Inr (r, s'))"
      if nb: "\<not> isBottom r"
    proof -
      have "out_ok ?T (\<lambda>_ s'. I s') (refineLoad p ?rec x r s')"
        by (rule refineLoad_inv [OF c _ cl I(1,3)]) (use r in simp_all)
      then have "out_ok ?T (\<lambda>r s'. I s' \<and> range_ok r) (refineLoad p ?rec x r s')"
        using refineLoad_tight [OF nb, of p ?rec x s'] tight_ok r
        by (cases "refineLoad p ?rec x r s'") (auto simp del: in_gam)
      then show ?thesis using r by simp
    qed
    then show "out_ok ?T (\<lambda>r s'. I s' \<and> range_ok r) (if isBottom r then Inr (r, s')
        else and_then (if guardEnabled s' then refineLoad p ?rec x r s' else Inr (r, s'))
          (\<lambda>r s. Inr (r, setCachedVarRange ctx x r s)))"
      using r I(2) by (auto intro!: out_ok_then)
  qed
  have "range_ok (mk_range (fst lu) (snd lu))" if "resolveRange p x ctx = Some lu" for lu
    using facts that unfolding facts_ok_def range_ok_def range_sel by blast
  moreover have "range_ok (const_range c)" if "constVal p x = Some c" for c
    using facts that by (auto simp: facts_ok_def range_ok_def)
  ultimately show ?case
    using Suc.prems(2) dyn I(2,4,5) by (simp add: analyzeBody_def Let_def split: option.split)
qed simp

section \<open>Outcomes\<close>

text \<open>An outcome that is not a lack of fuel and, if it is a value, satisfies \<open>Q\<close>.\<close>

definition bof_ok :: "('a \<Rightarrow> bool) \<Rightarrow> 'a bof_out \<Rightarrow> bool" where
  "bof_ok Q m = (case m of Inl e \<Rightarrow> e \<noteq> RangeError OutOfFuel | Inr a \<Rightarrow> Q a)"

lemma bof_ok_simps [simp]: "bof_ok Q (Inr a) = Q a" "bof_ok Q (Inl e) = (e \<noteq> RangeError OutOfFuel)"
  by (simp_all add: bof_ok_def)

lemma bof_then_simps [simp]: "bof_then (Inl e) f = Inl e" "bof_then (Inr a) f = f a"
  by (simp_all add: bof_then_def)

lemma bof_ok_then: "bof_ok Q m \<Longrightarrow> (\<And>a. Q a \<Longrightarrow> bof_ok P (f a)) \<Longrightarrow> bof_ok P (bof_then m f)"
  by (cases m) auto

lemma bof_ok_mono: "bof_ok Q m \<Longrightarrow> (\<And>a. Q a \<Longrightarrow> P a) \<Longrightarrow> bof_ok P m"
  by (cases m) auto

lemma bof_ok_defined: "(\<And>a. v = Some a \<Longrightarrow> bof_ok P (f a)) \<Longrightarrow> bof_ok P (bof_then (defined v) f)"
  by (cases v) (auto simp: defined_def)

lemma bof_ok_asserted: "(\<And>a. v = Some a \<Longrightarrow> bof_ok P (f a)) \<Longrightarrow> bof_ok P (bof_then (asserted v) f)"
  by (cases v) (auto simp: asserted_def)

text \<open>A loop whose steps are related by \<open>G\<close> and each establish a fact that \<open>G\<close> keeps.\<close>

lemma bof_ok_each:
  assumes refl: "\<And>b. P b \<Longrightarrow> G b b"
    and step: "\<And>e b. e \<in> set es \<Longrightarrow> P b \<Longrightarrow> bof_ok (\<lambda>c. G b c \<and> P c \<and> D e c) (f e b)"
    and trans: "\<And>b c d. G b c \<Longrightarrow> G c d \<Longrightarrow> G b d"
    and keep: "\<And>e b c. D e b \<Longrightarrow> G b c \<Longrightarrow> D e c"
    and P: "P a"
  shows "bof_ok (\<lambda>b. G a b \<and> P b \<and> (\<forall>e\<in>set es. D e b)) (bof_fold f es a)"
  using refl step P
proof (induction es arbitrary: a)
  case (Cons e es)
  show ?case unfolding bof_fold.simps
  proof (rule bof_ok_then [OF Cons.prems(2)])
    fix b assume b: "G a b \<and> P b \<and> D e b"
    have "bof_ok (\<lambda>c. G b c \<and> P c \<and> (\<forall>e\<in>set es. D e c)) (bof_fold f es b)"
      by (rule Cons.IH) (use Cons.prems b in auto)
    then show "bof_ok (\<lambda>c. G a c \<and> P c \<and> (\<forall>x\<in>set (e # es). D x c)) (bof_fold f es b)" using b trans keep
      by (auto elim!: bof_ok_mono intro: trans keep)
  qed (use Cons.prems in auto)
qed simp

section \<open>States and growth\<close>

text \<open>The values and contexts that occur. Sizes and positions in types have 32 bits.\<close>

definition sizes_ok :: "bof_program \<Rightarrow> bool" where
  "sizes_ok p = (maxFieldLimit p < 2 ^ 32 \<and> (\<forall>t. byteSizeOf p t < 2 ^ 32 \<and> numOfFlattenElements p t < 2 ^ 32
    \<and> numOfFlattenFields p t < 2 ^ 32 \<and> length (flattenedElemIdxVec p t) < 2 ^ 32
    \<and> (\<forall>i\<in>set (flattenedElemIdxVec p t) \<union> set (flattenedFieldIdxVec p t). i < 2 ^ 32)))"

fun edge_within :: "nat set \<Rightarrow> nat option set \<Rightarrow> flow_edge \<Rightarrow> bool" where
  "edge_within V C (GepEdge e) = (gep_dst e \<in> V \<and> fst ` set (idxOperandPairs e) \<subseteq> V)"
| "edge_within V C (CopyEdge d l) = (d \<in> V)"
| "edge_within V C (StoreEdge r d l) = (d \<in> V)"
| "edge_within V C (LoadEdge d l) = (d \<in> V)"
| "edge_within V C (CallEdge f c) = (f \<in> V \<and> Some c \<in> C)"
| "edge_within V C (RetEdge r) = (r \<in> V)"
| "edge_within V C OtherEdge = True"

definition flow_closed :: "bof_program \<Rightarrow> nat set \<Rightarrow> nat option set \<Rightarrow> bool" where
  "flow_closed p V C = (finite V \<and> finite C \<and> None \<in> C \<and> sizes_ok p \<and> (\<forall>x\<in>V. \<forall>e\<in>set (outEdges p x). edge_within V C e))"

definition key_of :: "flow_node \<Rightarrow> flow_key" where
  "key_of nd = (fn_parent nd, fn_base nd, fn_callContext nd)"

definition keys :: "nat set \<Rightarrow> nat option set \<Rightarrow> flow_key set" where
  "keys V C = V \<times> V \<times> C"

text \<open>The invariant of the fixpoint state: \<open>hp\<close> says which parents are on the heap.\<close>

definition node_within :: "nat set \<Rightarrow> nat option set \<Rightarrow> (nat \<Rightarrow> bool) \<Rightarrow> flow_node \<Rightarrow> bool" where
  "node_within V C hp nd = (key_of nd \<in> keys V C \<and> range_ok (fn_offset nd) \<and> fn_isHeap nd = hp (fn_parent nd))"

definition flow_inv :: "nat set \<Rightarrow> nat option set \<Rightarrow> (nat \<Rightarrow> bool) \<Rightarrow> (ra \<Rightarrow> bool) \<Rightarrow> bof \<Rightarrow> bool" where
  "flow_inv V C hp I s = (I (rangeAnalysis s) \<and> (\<forall>k r. flowState s k = Some r \<longrightarrow> k \<in> keys V C \<and> range_ok r)
    \<and> (\<forall>nd\<in>set (flowQueue s). node_within V C hp nd))"

text \<open>How far the state can still grow.\<close>

definition potential :: "range option \<Rightarrow> nat" where
  "potential r = (case r of None \<Rightarrow> 4 | Some r \<Rightarrow> growth r)"

definition room :: "nat set \<Rightarrow> nat option set \<Rightarrow> bof \<Rightarrow> nat" where
  "room V C s = (\<Sum>k\<in>keys V C. potential (flowState s k))"

text \<open>An offset of a pointer that the state holds.\<close>

definition holds :: "bof \<Rightarrow> flow_key \<Rightarrow> int \<Rightarrow> bool" where
  "holds s k v = (case flowState s k of None \<Rightarrow> False | Some r \<Rightarrow> v \<in> gam r)"

definition flow_grows :: "bof \<Rightarrow> bof \<Rightarrow> bool" where
  "flow_grows s t = (bufferRanges (rangeAnalysis t) = bufferRanges (rangeAnalysis s)
    \<and> (\<forall>k v. holds s k v \<longrightarrow> holds t k v) \<and> bugLoc s \<subseteq> bugLoc t \<and> fieldSafeVars s \<subseteq> fieldSafeVars t)"

text \<open>A step that keeps the invariant, queues what it changes and uses up room for what it queues.\<close>

definition queues :: "nat set \<Rightarrow> nat option set \<Rightarrow> bof \<Rightarrow> bof \<Rightarrow> bool" where
  "queues V C s t = (\<exists>new. flowQueue t = flowQueue s @ new \<and> room V C t + length new \<le> room V C s
    \<and> (\<forall>k r. flowState t k = Some r \<longrightarrow> flowState s k = Some r \<or> (\<exists>nd\<in>set new. key_of nd = k \<and> fn_offset nd = r)))"

definition advances :: "nat set \<Rightarrow> nat option set \<Rightarrow> bof \<Rightarrow> bof \<Rightarrow> bool" where
  "advances V C s t = (flow_grows s t \<and> queues V C s t)"

lemma flow_grows_refl [simp]: "flow_grows s s"
  by (simp add: flow_grows_def)

lemma flow_grows_trans: "flow_grows s t \<Longrightarrow> flow_grows t u \<Longrightarrow> flow_grows s u"
  by (auto simp: flow_grows_def)

lemma queues_trans: "queues V C s t \<Longrightarrow> queues V C t u \<Longrightarrow> queues V C s u"
proof -
  assume "queues V C s t" "queues V C t u"
  then obtain a b where a: "flowQueue t = flowQueue s @ a" "room V C t + length a \<le> room V C s"
      "\<forall>k r. flowState t k = Some r \<longrightarrow> flowState s k = Some r \<or> (\<exists>nd\<in>set a. key_of nd = k \<and> fn_offset nd = r)"
    and b: "flowQueue u = flowQueue t @ b" "room V C u + length b \<le> room V C t"
      "\<forall>k r. flowState u k = Some r \<longrightarrow> flowState t k = Some r \<or> (\<exists>nd\<in>set b. key_of nd = k \<and> fn_offset nd = r)"
    unfolding queues_def by blast
  have "flowState s k = Some r \<or> (\<exists>nd\<in>set (a @ b). key_of nd = k \<and> fn_offset nd = r)" if "flowState u k = Some r" for k r
    using a(3) b(3) that by (metis UnCI set_append)
  then show ?thesis using a(1,2) b(1,2) unfolding queues_def by (intro exI [of _ "a @ b"]) simp
qed

lemma advances_refl [simp]: "advances V C s s"
  by (simp add: advances_def queues_def)

lemma advances_trans: "advances V C s t \<Longrightarrow> advances V C t u \<Longrightarrow> advances V C s u"
  unfolding advances_def using flow_grows_trans queues_trans by blast

text \<open>A step that does not touch the fixpoint state.\<close>

lemma advances_same:
  assumes "flowState t = flowState s" "flowQueue t = flowQueue s" "bufferRanges (rangeAnalysis t) = bufferRanges (rangeAnalysis s)"
    "bugLoc s \<subseteq> bugLoc t" "fieldSafeVars s \<subseteq> fieldSafeVars t"
  shows "advances V C s t"
  using assms by (simp add: advances_def flow_grows_def queues_def holds_def room_def)

section \<open>Entering an offset\<close>

lemma range_eq_gam: "range_eq a b \<Longrightarrow> gam a = gam b"
proof -
  assume e: "range_eq a b"
  consider "isBottom a" "isBottom b" | "isTop a" "isTop b" | "lower a = lower b" "upper a = upper b"
    using e by (auto simp: range_eq_def split: if_splits)
  then show ?thesis by cases (auto simp: isBottom_def isTop_def set_eq_iff)
qed

lemma widening_stable:
  assumes "gam off \<subseteq> gam old"
  shows "range_eq (widening old (range_join old off)) old"
proof (cases "isBottom old")
  case True
  then have "isBottom off" using assms by (simp add: isBottom_gam)
  then show ?thesis using True by (simp add: range_join_def widening_def range_eq_def)
next
  case False
  show ?thesis
  proof (cases "isBottom off")
    case True
    then show ?thesis using False by (simp add: range_join_def widening_def range_eq_def)
  next
    case n: False
    then have "lower old \<le> lower off" "upper off \<le> upper old" using assms gam_subset_iff [OF n] by simp_all
    then show ?thesis using False n
      by (simp add: range_join_def widening_def range_eq_def isBottom_def min_def max_def)
  qed
qed

lemma growth_le: "growth r \<le> 3"
  by (simp add: growth_def)

text \<open>The new offset of a key covers the old one and the one that arrives, and there is less room after a change.\<close>

definition entered :: "range option \<Rightarrow> range \<Rightarrow> range" where
  "entered old off = (let r = (case old of None \<Rightarrow> BOTTOM | Some r \<Rightarrow> r) in widening r (range_join r off))"

lemma entered_ok:
  assumes "\<And>r. old = Some r \<Longrightarrow> range_ok r" "range_ok off"
  shows "range_ok (entered old off)" "gam off \<subseteq> gam (entered old off)"
    "old = Some r \<Longrightarrow> gam r \<subseteq> gam (entered old off)"
    "\<not> (\<exists>r. old = Some r \<and> range_eq (entered old off) r) \<Longrightarrow> growth (entered old off) < potential old"
proof -
  define r0 where "r0 = (case old of None \<Rightarrow> BOTTOM | Some r \<Rightarrow> r)"
  have e: "entered old off = widening r0 (range_join r0 off)" by (simp add: entered_def r0_def Let_def)
  have r0: "range_ok r0" using assms(1) by (cases old) (simp_all add: r0_def)
  then have j: "range_ok (range_join r0 off)" using assms(2) by (rule range_join_ok)
  show "range_ok (entered old off)" unfolding e by (rule widening_ok [OF r0 j])
  have u: "gam r0 \<union> gam off \<subseteq> gam (entered old off)"
    unfolding e using widening_upper [OF r0 j] range_join_gam [of r0 off] by blast
  show "gam off \<subseteq> gam (entered old off)" using u by blast
  show "old = Some r \<Longrightarrow> gam r \<subseteq> gam (entered old off)" using u by (simp add: r0_def)
  show "growth (entered old off) < potential old" if n: "\<not> (\<exists>r. old = Some r \<and> range_eq (entered old off) r)"
  proof (cases old)
    case None
    then show ?thesis using growth_le [of "entered old off"] by (simp add: potential_def)
  next
    case (Some r)
    have "\<not> gam off \<subseteq> gam r0"
    proof
      assume "gam off \<subseteq> gam r0"
      then have "range_eq (entered old off) r0" unfolding e by (rule widening_stable)
      then show False using n Some by (simp add: r0_def)
    qed
    then have "\<not> gam (range_join r0 off) \<subseteq> gam r0" using range_join_gam [of r0 off] by blast
    then have "growth (entered old off) < growth r0" unfolding e by (rule widening_growth [OF r0 j])
    then show ?thesis using Some by (simp add: potential_def r0_def)
  qed
qed

lemma enqueue_eq:
  "enqueue base parent off heap depth ctx s =
    (let key = (parent, base, ctx); w = entered (flowState s key) off in
     if \<exists>r. flowState s key = Some r \<and> range_eq w r then s
     else s\<lparr>flowState := (flowState s)(key \<mapsto> w),
       bufferOf := (bufferOf s)(base \<mapsto> (case bufferOf s base of
          None \<Rightarrow> \<lparr>bi_parent = parent, bi_offset = w, bi_isHeap = heap\<rparr>
        | Some bi \<Rightarrow> bi\<lparr>bi_offset := range_join (bi_offset bi) w\<rparr>)),
       flowQueue := flowQueue s @ [\<lparr>fn_base = base, fn_parent = parent, fn_offset = w, fn_isHeap = heap,
         fn_callDepth = depth, fn_callContext = ctx\<rparr>]\<rparr>)"
  by (cases "flowState s (parent, base, ctx)") (simp_all add: enqueue_def entered_def Let_def)

lemma enqueue_ok:
  assumes s: "flow_inv V C hp I s" and fin: "finite V" "finite C"
    and k: "parent \<in> V" "base \<in> V" "ctx \<in> C" and off: "range_ok off" and heap: "heap = hp parent"
  shows "flow_inv V C hp I (enqueue base parent off heap depth ctx s) \<and> advances V C s (enqueue base parent off heap depth ctx s)
    \<and> (\<forall>v\<in>gam off. holds (enqueue base parent off heap depth ctx s) (parent, base, ctx) v)"
proof -
  let ?k = "(parent, base, ctx)" let ?w = "entered (flowState s ?k) off"
  have ok: "\<And>r. flowState s ?k = Some r \<Longrightarrow> range_ok r" using s by (simp add: flow_inv_def)
  have e: "range_ok ?w" "gam off \<subseteq> gam ?w" "flowState s ?k = Some r \<Longrightarrow> gam r \<subseteq> gam ?w"
    "\<not> (\<exists>r. flowState s ?k = Some r \<and> range_eq ?w r) \<Longrightarrow> growth ?w < potential (flowState s ?k)" for r
    using entered_ok [of "flowState s ?k" off] ok off by blast+
  show ?thesis
  proof (cases "\<exists>r. flowState s ?k = Some r \<and> range_eq ?w r")
    case True
    then have "enqueue base parent off heap depth ctx s = s" by (simp add: enqueue_eq Let_def)
    moreover obtain r where r: "flowState s ?k = Some r" "range_eq ?w r" using True by blast
    then have "gam off \<subseteq> gam r" using e(2) range_eq_gam [OF r(2)] by (simp only:)
    then have "\<forall>v\<in>gam off. holds s ?k v" using r(1) by (auto simp: holds_def simp del: in_gam)
    ultimately show ?thesis using s by simp
  next
    case False
    define t where "t = enqueue base parent off heap depth ctx s"
    note te = enqueue_eq [of base parent off heap depth ctx s, unfolded Let_def if_not_P [OF False], folded t_def]
    have t: "flowState t = (flowState s)(?k \<mapsto> ?w)"
      "flowQueue t = flowQueue s @ [\<lparr>fn_base = base, fn_parent = parent, fn_offset = ?w, fn_isHeap = heap, fn_callDepth = depth, fn_callContext = ctx\<rparr>]"
      "rangeAnalysis t = rangeAnalysis s" "bugLoc t = bugLoc s" "fieldSafeVars t = fieldSafeVars s"
      by (simp_all add: te)
    have K: "?k \<in> keys V C" "finite (keys V C)" using k fin by (simp_all add: keys_def)
    have inv: "flow_inv V C hp I t"
      using s K(1) e(1) heap by (auto simp: flow_inv_def t node_within_def key_of_def)
    have h: "holds t q v" if "holds s q v" for q v
      using that e(3) by (cases "q = ?k") (auto simp: holds_def t simp del: in_gam split: option.splits)
    have "room V C t + 1 \<le> room V C s"
    proof -
      have "room V C t = growth ?w + (\<Sum>q\<in>keys V C - {?k}. potential (flowState t q))"
        unfolding room_def using sum.remove [OF K(2,1), of "\<lambda>q. potential (flowState t q)"] by (simp add: t potential_def)
      moreover have "(\<Sum>q\<in>keys V C - {?k}. potential (flowState t q)) = (\<Sum>q\<in>keys V C - {?k}. potential (flowState s q))"
        by (rule sum.cong) (simp_all add: t)
      moreover have "room V C s = potential (flowState s ?k) + (\<Sum>q\<in>keys V C - {?k}. potential (flowState s q))"
        unfolding room_def by (rule sum.remove [OF K(2,1)])
      ultimately show ?thesis using e(4) [OF False] by linarith
    qed
    then have "queues V C s t" unfolding queues_def by (auto simp: t key_of_def)
    moreover have "flow_grows s t" using h by (simp add: flow_grows_def t)
    moreover have "\<forall>v\<in>gam off. holds t ?k v" using e(2) by (auto simp: holds_def t simp del: in_gam)
    ultimately show ?thesis using inv by (simp add: t_def advances_def)
  qed
qed

section \<open>What an edge is to do\<close>

text \<open>What the value \<open>v\<close> of one operand of pointer arithmetic adds to the offset, after operands that added \<open>acc\<close>
  (the operands are taken from the last to the first). An operand without a type adds itself, one of pointer type is
  scaled by the size of the pointee. On the stack, an index into an array or a field of a struct adds the position of that
  element in the flattened layout. There the code joins the position with \<open>acc\<close> instead of adding it, so that only the first
  dimension that is not 0 is followed. On the heap, where offsets count bytes, the code adds such an index unscaled, so that
  no value of it is followed. The positions of a type are to be increasing.\<close>

definition layout_increasing :: "bof_program \<Rightarrow> nat \<Rightarrow> bool" where
  "layout_increasing p t = (\<forall>i j a b. i \<le> j \<longrightarrow> j < length (flattenedElemIdxVec p t) \<longrightarrow>
    getFlattenedElemIdx p t i = Some a \<longrightarrow> getFlattenedElemIdx p t j = Some b \<longrightarrow> a \<le> b)"

definition op_adds :: "bof_program \<Rightarrow> gep_stmt \<Rightarrow> bool \<Rightarrow> nat option \<Rightarrow> int \<Rightarrow> int \<Rightarrow> int \<Rightarrow> bool" where
  "op_adds p e heap type v acc k = (case type of
      None \<Rightarrow> k = v
    | Some t \<Rightarrow>
      if tyKind p t = SVFPointerTy then
        (if heap then k = v * int (byteSizeOf p (gepPointeeType e))
         else (\<exists>m. getElementNum p (gepPointeeType e) = Some m \<and> k = v * int m))
      else \<not> heap \<and> 0 \<le> v \<and> v < int (length (flattenedElemIdxVec p t)) \<and> layout_increasing p t
        \<and> (\<exists>m. getFlattenedElemIdx p t (nat v) = Some m \<and> k = int m) \<and> (acc = 0 \<or> k = 0))"

primrec gep_sum :: "(nat \<Rightarrow> int set) \<Rightarrow> (nat option \<Rightarrow> int \<Rightarrow> int \<Rightarrow> int \<Rightarrow> bool) \<Rightarrow> (nat \<times> nat option) list \<Rightarrow> int \<Rightarrow> int \<Rightarrow> bool" where
  "gep_sum val opnd [] acc d = (d = acc)"
| "gep_sum val opnd (op # ops) acc d = (\<exists>v\<in>val (fst op). \<exists>k. opnd (snd op) v acc k \<and> in64 k \<and> in64 (acc + k)
    \<and> gep_sum val opnd ops (acc + k) d)"

text \<open>\<open>d\<close> is added to the pointer, with the values \<open>val\<close> of the indices.\<close>

definition gep_moves :: "bof_program \<Rightarrow> (nat \<Rightarrow> int set) \<Rightarrow> bool \<Rightarrow> gep_stmt \<Rightarrow> int \<Rightarrow> bool" where
  "gep_moves p val heap e d = gep_sum val (op_adds p e heap) (rev (idxOperandPairs e)) 0 d"

text \<open>A value of an index on the stack that escapes the array or struct it selects from.\<close>

definition escapes :: "bof_program \<Rightarrow> bool \<Rightarrow> nat option \<Rightarrow> int \<Rightarrow> bool" where
  "escapes p heap type v = (\<not> heap \<and> (case type of
      None \<Rightarrow> False
    | Some t \<Rightarrow> tyKind p t \<noteq> SVFPointerTy \<and> flattenedElemIdxVec p t \<noteq> []
        \<and> (v < 0 \<or> v \<ge> int (length (flattenedElemIdxVec p t)))))"

text \<open>An access at an offset is accounted for: the buffer is unknown, the offset is inside, or the access is reported,
  unless it has no node or its source is ignored.\<close>

definition reported :: "bof_program \<Rightarrow> bof \<Rightarrow> nat option \<Rightarrow> nat option \<Rightarrow> bool" where
  "reported p s loc ctx = (case loc of None \<Rightarrow> True | Some l \<Rightarrow>
    ignoredSource p (sourceLoc p l) \<or> report_key p l GEP_OOB ctx \<in> bugLoc s)"

definition accounted :: "bof_program \<Rightarrow> bof \<Rightarrow> nat option \<Rightarrow> nat option \<Rightarrow> range \<Rightarrow> int \<Rightarrow> bool" where
  "accounted p s loc ctx valid v = (isBottom valid \<or> v \<in> gam valid \<or> reported p s loc ctx)"

definition copied :: "bof_program \<Rightarrow> bof \<Rightarrow> flow_key \<Rightarrow> range \<Rightarrow> nat \<Rightarrow> nat option \<Rightarrow> bool" where
  "copied p s k r dst loc = (\<forall>v\<in>gam r. holds s (fst k, dst, snd (snd k)) v
    \<and> (fst (snd k) \<in> fieldSafeVars s \<or> accounted p s loc (snd (snd k)) (getBufferRange (fst k) (rangeAnalysis s)) v))"

fun edge_done :: "bof_program \<Rightarrow> (nat \<Rightarrow> bool) \<Rightarrow> (nat option \<Rightarrow> nat \<Rightarrow> int set) \<Rightarrow> flow_key \<Rightarrow> range \<Rightarrow> flow_edge \<Rightarrow> bof \<Rightarrow> bool" where
  "edge_done p hp val k r (GepEdge e) s = ((\<forall>v\<in>gam r. \<forall>d. gep_moves p (val (snd (snd k))) (hp (fst k)) e d \<longrightarrow> in64 (d + v) \<longrightarrow>
    holds s (fst k, gep_dst e, snd (snd k)) (d + v)
    \<and> (gep_dst e \<in> fieldSafeVars s \<or> accounted p s (gep_loc e) (snd (snd k)) (getBufferRange (fst k) (rangeAnalysis s)) (d + v)))
   \<and> (\<forall>op\<in>set (idxOperandPairs e). \<forall>i\<in>val (snd (snd k)) (fst op). escapes p (hp (fst k)) (snd op) i \<longrightarrow>
       reported p s (gep_loc e) (snd (snd k))))"
| "edge_done p hp val k r (CopyEdge d l) s = copied p s k r d l"
| "edge_done p hp val k r (StoreEdge x d l) s = copied p s k r d l"
| "edge_done p hp val k r (LoadEdge d l) s = copied p s k r d l"
| "edge_done p hp val k r (RetEdge x) s = (\<forall>v\<in>gam r. holds s (fst k, x, snd (snd k)) v)"
| "edge_done p hp val k r (CallEdge f c) s = True"
| "edge_done p hp val k r OtherEdge s = True"

lemma grows_buffer: "flow_grows s t \<Longrightarrow> getBufferRange b (rangeAnalysis t) = getBufferRange b (rangeAnalysis s)"
  by (simp add: flow_grows_def getBufferRange_def)

lemma reported_grows: "reported p s loc ctx \<Longrightarrow> flow_grows s t \<Longrightarrow> reported p t loc ctx"
  by (auto simp: reported_def flow_grows_def split: option.splits)

lemma accounted_grows: "accounted p s loc ctx valid v \<Longrightarrow> flow_grows s t \<Longrightarrow> accounted p t loc ctx valid v"
  by (auto simp: accounted_def reported_grows)

lemma copied_grows: "copied p s k r dst loc \<Longrightarrow> flow_grows s t \<Longrightarrow> copied p t k r dst loc"
  using accounted_grows [of p s _ _ _ _ t] by (simp add: copied_def grows_buffer del: in_gam) (meson flow_grows_def subsetD)

lemma edge_done_grows: "edge_done p hp val k r e s \<Longrightarrow> flow_grows s t \<Longrightarrow> edge_done p hp val k r e t"
proof (cases e)
  case (GepEdge g)
  assume "edge_done p hp val k r e s" "flow_grows s t"
  then show ?thesis using GepEdge accounted_grows [of p s _ _ _ _ t] reported_grows [of p s _ _ t]
    by (simp add: grows_buffer del: in_gam) (meson flow_grows_def subsetD)
qed (auto simp: copied_grows flow_grows_def)

text \<open>\<open>checkAccess\<close> accounts for the values of the offset and leaves the rest of the state.\<close>

lemma checkAccess_same [simp]:
  "flowState (checkAccess p d off valid heap kind loc ctx idx s) = flowState s"
  "flowQueue (checkAccess p d off valid heap kind loc ctx idx s) = flowQueue s"
  "rangeAnalysis (checkAccess p d off valid heap kind loc ctx idx s) = rangeAnalysis s"
  "fieldSafeVars (checkAccess p d off valid heap kind loc ctx idx s) = fieldSafeVars s"
  by (simp_all add: checkAccess_def reportBufferOverflowError_def split: option.split)

lemma checkAccess_bugLoc: "bugLoc s \<subseteq> bugLoc (checkAccess p d off valid heap kind loc ctx idx s)"
  by (auto simp: checkAccess_def reportBufferOverflowError_def split: option.split)

lemma checkAccess_advances: "advances V C s (checkAccess p d off valid heap kind loc ctx idx s)"
  by (rule advances_same) (simp_all add: checkAccess_bugLoc)

lemma checkAccess_accounts:
  "v \<in> gam off \<Longrightarrow> accounted p (checkAccess p d off valid heap GEP_OOB loc ctx idx s) loc ctx valid v"
proof -
  assume v: "v \<in> gam off"
  then have n: "\<not> isBottom off" by (rule gam_nonbottom)
  have "isSubset off valid \<Longrightarrow> v \<in> gam valid" using v by (auto simp: isSubset_def)
  then show ?thesis using n
    by (auto simp: accounted_def reported_def checkAccess_def reportBufferOverflowError_def simp del: in_gam split: option.split)
qed

lemma flow_inv_same: "flow_inv V C hp I s \<Longrightarrow> flowState t = flowState s \<Longrightarrow> flowQueue t = flowQueue s \<Longrightarrow> I (rangeAnalysis t) \<Longrightarrow>
    flow_inv V C hp I t"
  by (simp add: flow_inv_def)

section \<open>The steps of the checker\<close>

lemma range_add_covers:
  assumes "range_ok a" "range_ok b" "range_add a b = Some r"
  shows "range_ok r \<and> (\<forall>x\<in>gam a. \<forall>y\<in>gam b. in64 (x + y) \<longrightarrow> x + y \<in> gam r)"
proof (cases "isBottom a \<or> isBottom b")
  case True
  then have "r = BOTTOM" "gam a = {} \<or> gam b = {}" using assms(3) by (simp_all add: range_add_def isBottom_gam)
  then show ?thesis by auto
next
  case False
  then have "lower a \<in> gam a" "lower b \<in> gam b" by (simp_all add: isBottom_def)
  then have "range_ok r" using range_add_sound [OF assms(1,2)] assms(3) by force
  then show ?thesis using range_add_sound [OF assms(1,2)] assms(3) sat_id by force
qed

lemma range_mul_covers:
  assumes "range_ok a" "range_ok b" "range_mul a b = Some r"
  shows "range_ok r \<and> (\<forall>x\<in>gam a. \<forall>y\<in>gam b. in64 (x * y) \<longrightarrow> x * y \<in> gam r)"
proof (cases "isBottom a \<or> isBottom b")
  case True
  then have "r = BOTTOM" "gam a = {} \<or> gam b = {}" using assms(3) by (simp_all add: range_mul_def isBottom_gam)
  then show ?thesis by auto
next
  case False
  then have "lower a \<in> gam a" "lower b \<in> gam b" by (simp_all add: isBottom_def)
  then have "range_ok r" using range_mul_sound [OF assms(1,2)] assms(3) by force
  then show ?thesis using range_mul_sound [OF assms(1,2)] assms(3) sat_id by force
qed

lemma const_range_ok: "k < 2 ^ 32 \<Longrightarrow> range_ok (const_range (int k))" for k :: nat
  by (simp add: range_ok_def in64_def bounds_defs)

lemma element_bound: "sizes_ok p \<Longrightarrow> getElementNum p t = Some k \<Longrightarrow> k < 2 ^ 32"
  by (auto simp: sizes_ok_def getElementNum_def getNumOfFlattenElements_def split: if_splits)

lemma flattened_bound: "sizes_ok p \<Longrightarrow> getFlattenedElemIdx p t i = Some k \<Longrightarrow> k < 2 ^ 32"
  by (auto simp: sizes_ok_def getFlattenedElemIdx_def dest: nth_mem split: if_splits)

locale range_client =
  fixes p :: bof_program
    and n :: nat
    and V :: "nat set"
    and C :: "nat option set"
    and hp :: "nat \<Rightarrow> bool"
    and I :: "ra \<Rightarrow> bool"
    and val :: "nat option \<Rightarrow> nat \<Rightarrow> int set"
  assumes closed_flow: "I a \<Longrightarrow> flow_closed p V C"
    and values_in64: "I a \<Longrightarrow> v \<in> val ctx x \<Longrightarrow> in64 v"
    and query: "I a \<Longrightarrow> x \<in> V \<Longrightarrow> ctx \<in> C \<Longrightarrow>
      out_ok (\<lambda>e. e \<noteq> OutOfFuel) (\<lambda>r b. I b \<and> bufferRanges b = bufferRanges a \<and> range_ok r \<and> val ctx x \<subseteq> gam r)
        (analyzeVarRange (pag p) n ctx x 0 a)"
begin

lemma inv_closed:
  assumes "flow_inv V C hp I s"
  shows "finite V" "finite C" "None \<in> C" "sizes_ok p" "x \<in> V \<Longrightarrow> e \<in> set (outEdges p x) \<Longrightarrow> edge_within V C e"
  using assms closed_flow by (auto simp: flow_inv_def flow_closed_def)

lemma query_ok:
  assumes "flow_inv V C hp I s" "x \<in> V" "ctx \<in> C"
  shows "bof_ok (\<lambda>(r, t). flow_inv V C hp I t \<and> advances V C s t \<and> range_ok r \<and> val ctx x \<subseteq> gam r) (bof_query p n ctx x s)"
proof (cases "analyzeVarRange (pag p) n ctx x 0 (rangeAnalysis s)")
  case (Inl e)
  then show ?thesis using query [of "rangeAnalysis s" x ctx] assms by (simp add: bof_query_def flow_inv_def)
next
  case (Inr rb)
  then have q: "I (snd rb)" "bufferRanges (snd rb) = bufferRanges (rangeAnalysis s)" "range_ok (fst rb)" "val ctx x \<subseteq> gam (fst rb)"
    using query [of "rangeAnalysis s" x ctx] assms by (simp_all add: flow_inv_def)
  have "flow_inv V C hp I (s\<lparr>rangeAnalysis := snd rb\<rparr>)" using flow_inv_same [OF assms(1)] q(1) by simp
  moreover have "advances V C s (s\<lparr>rangeAnalysis := snd rb\<rparr>)" by (rule advances_same) (simp_all add: q(2))
  ultimately show ?thesis using Inr q by (simp add: bof_query_def)
qed

lemma enter_ok:
  assumes "flow_inv V C hp I s" "parent \<in> V" "base \<in> V" "ctx \<in> C" "range_ok off" "heap = hp parent"
  shows "flow_inv V C hp I (enqueue base parent off heap depth ctx s)" "advances V C s (enqueue base parent off heap depth ctx s)"
    "v \<in> gam off \<Longrightarrow> holds (enqueue base parent off heap depth ctx s) (parent, base, ctx) v"
  using enqueue_ok [OF assms(1) inv_closed(1,2) [OF assms(1)] assms(2-6)] by blast+

text \<open>The state after one index operand, and the sums that it covers.\<close>

definition operand_post :: "gep_stmt \<Rightarrow> flow_node \<Rightarrow> nat \<times> nat option \<Rightarrow> range \<Rightarrow> bof \<Rightarrow> range \<times> nat option \<times> bof \<Rightarrow> bool" where
  "operand_post e nd op tot s st = (flow_inv V C hp I (snd (snd st)) \<and> advances V C s (snd (snd st)) \<and> range_ok (fst st)
    \<and> (\<forall>acc\<in>gam tot. \<forall>v\<in>val (fn_callContext nd) (fst op). \<forall>k. op_adds p e (fn_isHeap nd) (snd op) v acc k \<longrightarrow>
        in64 k \<longrightarrow> in64 (acc + k) \<longrightarrow> acc + k \<in> gam (fst st))
    \<and> (\<forall>v\<in>val (fn_callContext nd) (fst op). escapes p (fn_isHeap nd) (snd op) v \<longrightarrow>
        reported p (snd (snd st)) (gep_loc e) (fn_callContext nd)))"

lemma gep_field_ok:
  assumes s: "flow_inv V C hp I s" and tot: "range_ok tot" and v: "range_ok v" "val (fn_callContext nd) x \<subseteq> gam v"
    and t: "\<not> fn_isHeap nd" "tyKind p t \<noteq> SVFPointerTy"
  shows "bof_ok (operand_post e nd (x, Some t) tot s) (gep_field p e nd t v tot idx s)"
proof -
  let ?len = "length (flattenedElemIdxVec p t)"
  let ?ts = "mk_range 0 (int ?len - 1)" and ?val = "val (fn_callContext nd) x"
  let ?c = "if \<not> isSubset v ?ts then checkAccess p (gep_dst e) v ?ts False GEP_OOB (gep_loc e) (fn_callContext nd) idx s else s"
  let ?v = "if \<not> isSubset v ?ts then range_meet v ?ts else v"
  have len: "?len < 2 ^ 32" using inv_closed(4) [OF s] by (simp add: sizes_ok_def)
  have ts: "range_ok ?ts" using len by (simp add: range_ok_def in64_def bounds_defs)
  have c: "flow_inv V C hp I ?c" by (rule flow_inv_same [OF s]) (use s in \<open>simp_all add: flow_inv_def\<close>)
  have a: "advances V C s ?c" using checkAccess_advances by simp
  have rep: "reported p ?c (gep_loc e) (fn_callContext nd)" if "w \<in> ?val" "escapes p (fn_isHeap nd) (Some t) w" for w
  proof -
    have w: "w \<in> gam v" "w \<notin> gam ?ts" "\<not> isBottom ?ts"
      using that v(2) by (auto simp: escapes_def isBottom_def Suc_le_eq)
    then have "\<not> isSubset v ?ts" using gam_nonbottom [OF w(1)] by (auto simp: isSubset_def)
    then show ?thesis using checkAccess_accounts [OF w(1), of p "gep_dst e" ?ts False "gep_loc e" "fn_callContext nd" idx s] w(2,3)
      by (simp add: accounted_def del: in_gam)
  qed
  have meet: "w \<in> gam ?v" if "w \<in> ?val" "0 \<le> w" "w < int ?len" for w
  proof -
    have "w \<in> gam v" "w \<in> gam ?ts" using that v(2) by auto
    then show ?thesis using range_meet_gam [of v ?ts] by auto
  qed
  have inside: "0 \<le> lower ?v \<and> upper ?v < int ?len" if "\<not> isBottom ?v"
    using that by (auto simp: isSubset_def range_meet_def isBottom_def split: if_splits)
  show ?thesis
  proof (cases "isBottom ?v")
    case True
    then have none: "\<not> op_adds p e (fn_isHeap nd) (Some t) w acc k" if "w \<in> ?val" for w acc k
      using meet [OF that] gam_nonbottom t(2) by (auto simp: op_adds_def)
    have "gep_field p e nd t v tot idx s = Inr (tot, idx, ?c)" using True by (simp add: gep_field_def Let_def)
    then show ?thesis using c a tot rep none by (simp add: operand_post_def del: in_gam)
  next
    case False
    note lu = inside [OF False]
    have le: "lower ?v \<le> upper ?v" using False by (simp add: isBottom_def)
    have u32: "to_u32 w = nat w" if "0 \<le> w" "w < int ?len" for w using that len by (simp add: to_u32_def)
    have ix: "to_u32 (lower ?v) = nat (lower ?v)" "to_u32 (upper ?v) = nat (upper ?v)" using lu le u32 by auto
    have step: "bof_ok (operand_post e nd (x, Some t) tot s) (Inr (range_join tot (mk_range (int l) (int u)), idx, ?c))"
      if l: "getFlattenedElemIdx p t (nat (lower ?v)) = Some l" and u: "getFlattenedElemIdx p t (nat (upper ?v)) = Some u" for l u
    proof -
      let ?r = "mk_range (int l) (int u)"
      have r: "range_ok ?r"
        using flattened_bound [OF inv_closed(4) [OF s]] l u by (force simp: range_ok_def in64_def bounds_defs)
      have adds: "acc + k \<in> gam (range_join tot ?r)"
        if w: "w \<in> ?val" "acc \<in> gam tot" "op_adds p e (fn_isHeap nd) (Some t) w acc k" for w acc k
      proof -
        obtain m where m: "0 \<le> w" "w < int ?len" "layout_increasing p t" "getFlattenedElemIdx p t (nat w) = Some m" "k = int m"
          "acc = 0 \<or> k = 0" using w(3) t(2) by (auto simp: op_adds_def)
        have "lower ?v \<le> w" "w \<le> upper ?v" using meet [OF w(1) m(1,2)] by auto
        then have "nat (lower ?v) \<le> nat w" "nat w \<le> nat (upper ?v)" "nat w < ?len" "nat (upper ?v) < ?len"
          using m(1,2) lu le by linarith+
        then have "l \<le> m" "m \<le> u" using m(3,4) l u unfolding layout_increasing_def by blast+
        then have "k \<in> gam ?r" using m(5) by simp
        then show ?thesis using m(6) w(2) range_join_gam [of tot ?r] by auto
      qed
      show ?thesis using c a rep adds range_join_ok [OF tot r] by (simp add: operand_post_def del: in_gam)
    qed
    have "gep_field p e nd t v tot idx s = bof_then (asserted (getFlattenedElemIdx p t (nat (lower ?v)))) (\<lambda>l.
        bof_then (asserted (getFlattenedElemIdx p t (nat (upper ?v)))) (\<lambda>u. Inr (range_join tot (mk_range (int l) (int u)), idx, ?c)))"
      using False ix by (simp add: gep_field_def Let_def)
    then show ?thesis using step by (auto intro!: bof_ok_asserted)
  qed
qed

lemma gep_dim_ok:
  assumes s: "flow_inv V C hp I s" and tot: "range_ok tot" and v: "range_ok v" "val (fn_callContext nd) x \<subseteq> gam v"
  shows "bof_ok (operand_post e nd (x, type) tot s) (gep_dim p e nd type v tot i s)"
proof -
  let ?adds = "op_adds p e (fn_isHeap nd) type"
  have add: "bof_ok (operand_post e nd (x, type) tot s) (bof_then (defined (range_add tot d)) (\<lambda>r. Inr (r, i, s)))"
    if d: "range_ok d" and dv: "\<And>w acc k. w \<in> val (fn_callContext nd) x \<Longrightarrow> ?adds w acc k \<Longrightarrow> in64 k \<Longrightarrow> k \<in> gam d"
      and ne: "\<And>w. \<not> escapes p (fn_isHeap nd) type w" for d
  proof (rule bof_ok_defined)
    fix r assume "range_add tot d = Some r"
    from range_add_covers [OF tot d this] show "bof_ok (operand_post e nd (x, type) tot s) (Inr (r, i, s))"
      using s dv ne by (simp add: operand_post_def del: in_gam)
  qed
  have mul: "bof_ok (operand_post e nd (x, type) tot s) (bof_then (defined (range_mul v (const_range (int k))))
      (\<lambda>dim. bof_then (defined (range_add tot dim)) (\<lambda>r. Inr (r, i, s))))"
    if k: "k < 2 ^ 32" "\<And>w acc d. ?adds w acc d \<Longrightarrow> d = w * int k" and ne: "\<And>w. \<not> escapes p (fn_isHeap nd) type w" for k
  proof (rule bof_ok_defined)
    fix d assume "range_mul v (const_range (int k)) = Some d"
    note m = range_mul_covers [OF v(1) const_range_ok [OF k(1)] this]
    have "int k \<in> gam (const_range (int k))" by simp
    then show "bof_ok (operand_post e nd (x, type) tot s) (bof_then (defined (range_add tot d)) (\<lambda>r. Inr (r, i, s)))"
      by (intro add ne) (use m v(2) k(2) in \<open>blast+\<close>)
  qed
  have plain: "bof_ok (operand_post e nd (x, type) tot s) (bof_then (defined (range_add tot v)) (\<lambda>r. Inr (r, i, s)))"
    if "\<And>w acc k. ?adds w acc k \<Longrightarrow> k = w" "\<And>w. \<not> escapes p (fn_isHeap nd) type w"
    by (rule add [OF v(1)]) (use that v(2) in blast)+
  show ?thesis
  proof (cases type)
    case None
    then show ?thesis using plain by (simp add: gep_dim_def op_adds_def escapes_def)
  next
    case (Some t)
    have b: "byteSizeOf p (gepPointeeType e) < 2 ^ 32" using inv_closed(4) [OF s] by (simp add: sizes_ok_def)
    consider "fn_isHeap nd" "tyKind p t = SVFPointerTy" | "fn_isHeap nd" "tyKind p t \<noteq> SVFPointerTy"
      | "\<not> fn_isHeap nd" "tyKind p t = SVFPointerTy" | "\<not> fn_isHeap nd" "tyKind p t \<noteq> SVFPointerTy" by blast
    then show ?thesis
    proof cases
      case 1
      then show ?thesis using mul [OF b] Some by (simp add: gep_dim_def op_adds_def escapes_def)
    next
      case 2
      then show ?thesis using plain Some by (simp add: gep_dim_def op_adds_def escapes_def)
    next
      case 3
      then show ?thesis using mul Some element_bound [OF inv_closed(4) [OF s]]
        by (auto simp: gep_dim_def op_adds_def escapes_def intro!: bof_ok_asserted)
    next
      case 4
      then show ?thesis using gep_field_ok [OF s tot v 4] Some by (simp add: gep_dim_def)
    qed
  qed
qed

lemma gep_operand_ok:
  assumes s: "flow_inv V C hp I s" and nd: "node_within V C hp nd" and x: "fst op \<in> V" and tot: "range_ok tot"
  shows "bof_ok (operand_post e nd op tot s) (gep_operand p n e nd op (tot, idx, s))"
proof -
  obtain x type where op: "op = (x, type)" by (cases op)
  have ctx: "fn_callContext nd \<in> C" using nd by (simp add: node_within_def key_of_def keys_def)
  have xV: "x \<in> V" using x op by simp
  show ?thesis unfolding gep_operand_def op prod.case
  proof (rule bof_ok_then [OF query_ok [OF s xV ctx]], clarify)
    fix v t
    assume t: "flow_inv V C hp I t" "advances V C s t" and v: "range_ok v" "val (fn_callContext nd) x \<subseteq> gam v"
    let ?v = "if isBottom v \<and> \<not> isConstInt p x then TOP else v"
    have w: "range_ok ?v" "val (fn_callContext nd) x \<subseteq> gam ?v"
      using v values_in64 [of "rangeAnalysis t"] t(1) by (auto simp: flow_inv_def in64_def)
    show "bof_ok (operand_post e nd (x, type) tot s)
        (gep_dim p e nd type ?v tot (if idx = None \<and> \<not> isConstInt p x then Some x else idx) t)"
      by (rule bof_ok_mono [OF gep_dim_ok [OF t(1) tot w]])
        (use advances_trans [OF t(2)] in \<open>auto simp: operand_post_def\<close>)
  qed
qed

lemma gep_fold_ok:
  assumes "flow_inv V C hp I s" "node_within V C hp nd" "\<forall>op\<in>set ops. fst op \<in> V" "range_ok tot"
  shows "bof_ok (\<lambda>st. flow_inv V C hp I (snd (snd st)) \<and> advances V C s (snd (snd st)) \<and> range_ok (fst st)
      \<and> (\<forall>acc\<in>gam tot. \<forall>d. gep_sum (val (fn_callContext nd)) (op_adds p e (fn_isHeap nd)) ops acc d \<longrightarrow> d \<in> gam (fst st))
      \<and> (\<forall>op\<in>set ops. \<forall>v\<in>val (fn_callContext nd) (fst op). escapes p (fn_isHeap nd) (snd op) v \<longrightarrow>
          reported p (snd (snd st)) (gep_loc e) (fn_callContext nd)))
    (bof_fold (gep_operand p n e nd) ops (tot, idx, s))"
  using assms
proof (induction ops arbitrary: tot idx s)
  case (Cons op ops)
  let ?sum = "gep_sum (val (fn_callContext nd)) (op_adds p e (fn_isHeap nd))"
  let ?rep = "\<lambda>op u. \<forall>v\<in>val (fn_callContext nd) (fst op). escapes p (fn_isHeap nd) (snd op) v \<longrightarrow>
    reported p u (gep_loc e) (fn_callContext nd)"
  have op: "fst op \<in> V" "\<forall>op\<in>set ops. fst op \<in> V" using Cons.prems(3) by simp_all
  show ?case unfolding bof_fold.simps
  proof (rule bof_ok_then [OF gep_operand_ok [OF Cons.prems(1,2) op(1) Cons.prems(4)]])
    fix st assume a: "operand_post e nd op tot s st"
    obtain tot1 idx1 s1 where st: "st = (tot1, idx1, s1)" by (cases st)
    have s1: "flow_inv V C hp I s1" "advances V C s s1" "range_ok tot1" "?rep op s1" using a by (simp_all add: operand_post_def st)
    show "bof_ok (\<lambda>st. flow_inv V C hp I (snd (snd st)) \<and> advances V C s (snd (snd st)) \<and> range_ok (fst st)
        \<and> (\<forall>acc\<in>gam tot. \<forall>d. ?sum (op # ops) acc d \<longrightarrow> d \<in> gam (fst st)) \<and> (\<forall>op\<in>set (op # ops). ?rep op (snd (snd st))))
      (bof_fold (gep_operand p n e nd) ops st)"
      unfolding st
    proof (rule bof_ok_mono [OF Cons.IH [OF s1(1) Cons.prems(2) op(2) s1(3)]], intro conjI)
      fix r
      assume r: "flow_inv V C hp I (snd (snd r)) \<and> advances V C s1 (snd (snd r)) \<and> range_ok (fst r) \<and>
        (\<forall>acc\<in>gam tot1. \<forall>d. ?sum ops acc d \<longrightarrow> d \<in> gam (fst r)) \<and> (\<forall>op\<in>set ops. ?rep op (snd (snd r)))"
      show "flow_inv V C hp I (snd (snd r))" "range_ok (fst r)" using r by blast+
      show "advances V C s (snd (snd r))" using r advances_trans [OF s1(2)] by blast
      show "\<forall>acc\<in>gam tot. \<forall>d. ?sum (op # ops) acc d \<longrightarrow> d \<in> gam (fst r)"
        using a r unfolding operand_post_def st gep_sum.simps fst_conv snd_conv by blast
      have "flow_grows s1 (snd (snd r))" using r by (simp add: advances_def)
      then have "?rep op (snd (snd r))" using s1(4) reported_grows by blast
      then show "\<forall>op\<in>set (op # ops). ?rep op (snd (snd r))" using r by (simp del: split_paired_All)
    qed
  qed
qed simp

text \<open>An edge: the state it leaves has done it for the offset of the node.\<close>

definition edge_post :: "flow_node \<Rightarrow> flow_edge \<Rightarrow> bof \<Rightarrow> bof \<Rightarrow> bool" where
  "edge_post nd e s t = (advances V C s t \<and> flow_inv V C hp I t \<and> edge_done p hp val (key_of nd) (fn_offset nd) e t)"

lemma node_parts:
  assumes "node_within V C hp nd"
  shows "fn_parent nd \<in> V" "fn_base nd \<in> V" "fn_callContext nd \<in> C" "range_ok (fn_offset nd)" "fn_isHeap nd = hp (fn_parent nd)"
  using assms by (simp_all add: node_within_def key_of_def keys_def)

lemma forward_ok:
  assumes s: "flow_inv V C hp I s" and nd: "node_within V C hp nd" and d: "d \<in> V" and off: "range_ok off"
  shows "flow_inv V C hp I (enqueue_from d off nd s)" "advances V C s (enqueue_from d off nd s)"
    "v \<in> gam off \<Longrightarrow> holds (enqueue_from d off nd s) (fn_parent nd, d, fn_callContext nd) v"
  unfolding enqueue_from_def using enter_ok [OF s node_parts(1) [OF nd] d node_parts(3) [OF nd] off node_parts(5) [OF nd]] by blast+

lemma copy_ok:
  assumes s: "flow_inv V C hp I s" and nd: "node_within V C hp nd" and d: "d \<in> V"
  shows "flow_inv V C hp I (handleCopyLike p d nd loc ptr s)" "advances V C s (handleCopyLike p d nd loc ptr s)"
    "copied p (handleCopyLike p d nd loc ptr s) (key_of nd) (fn_offset nd) d loc"
proof -
  let ?buf = "getBufferRange (fn_parent nd) (rangeAnalysis s)"
  define t where "t = (if fn_base nd \<in> fieldSafeVars s
    then (if ptr then s\<lparr>fieldSafeVars := insert d (fieldSafeVars s)\<rparr> else s)
    else checkAccess p d (fn_offset nd) ?buf (fn_isHeap nd) GEP_OOB loc (fn_callContext nd) None s)"
  have h: "handleCopyLike p d nd loc ptr s = enqueue_from d (fn_offset nd) nd t"
    by (simp add: handleCopyLike_def t_def)
  have t: "flow_inv V C hp I t"
    by (rule flow_inv_same [OF s]) (use s in \<open>simp_all add: t_def flow_inv_def\<close>)
  have a: "advances V C s t"
    by (rule advances_same) (auto simp: t_def dest: subsetD [OF checkAccess_bugLoc])
  note f = forward_ok [OF t nd d node_parts(4) [OF nd]]
  show "flow_inv V C hp I (handleCopyLike p d nd loc ptr s)" "advances V C s (handleCopyLike p d nd loc ptr s)"
    unfolding h using f(1) advances_trans [OF a f(2)] by blast+
  have g: "flow_grows t (enqueue_from d (fn_offset nd) nd t)" "flow_grows s t" using f(2) a by (simp_all add: advances_def)
  have b: "getBufferRange (fn_parent nd) (rangeAnalysis (enqueue_from d (fn_offset nd) nd t)) = ?buf"
    using grows_buffer [OF g(1)] grows_buffer [OF g(2)] by simp
  have "fn_base nd \<in> fieldSafeVars t \<or> accounted p t loc (fn_callContext nd) ?buf v" if "v \<in> gam (fn_offset nd)" for v
    using checkAccess_accounts [OF that] by (auto simp: t_def)
  then show "copied p (handleCopyLike p d nd loc ptr s) (key_of nd) (fn_offset nd) d loc"
    unfolding h copied_def key_of_def fst_conv snd_conv b
    using f(3) accounted_grows [OF _ g(1)] g(1) unfolding flow_grows_def by blast
qed

lemma gep_ok:
  assumes s: "flow_inv V C hp I s" and nd: "node_within V C hp nd" and e: "edge_within V C (GepEdge e)"
  shows "bof_ok (edge_post nd (GepEdge e) s) (handleGep p n e nd s)"
proof -
  have d: "gep_dst e \<in> V" and ops: "\<forall>op\<in>set (rev (idxOperandPairs e)). fst op \<in> V" using e by auto
  have z: "range_ok (const_range 0)" using const_range_ok [of 0] by simp
  show ?thesis unfolding handleGep_def gep_offset_def
  proof (rule bof_ok_then [OF gep_fold_ok [OF s nd ops z]], clarify)
    fix tot :: range and idx :: "nat option" and t :: bof
    assume "flow_inv V C hp I (snd (snd (tot, idx, t)))" "advances V C s (snd (snd (tot, idx, t)))" "range_ok (fst (tot, idx, t))"
      and sums: "\<forall>acc\<in>gam (const_range 0). \<forall>d. gep_sum (val (fn_callContext nd)) (op_adds p e (fn_isHeap nd)) (rev (idxOperandPairs e)) acc d
        \<longrightarrow> d \<in> gam (fst (tot, idx, t))"
      and esc: "\<forall>op\<in>set (rev (idxOperandPairs e)). \<forall>v\<in>val (fn_callContext nd) (fst op). escapes p (fn_isHeap nd) (snd op) v \<longrightarrow>
          reported p (snd (snd (tot, idx, t))) (gep_loc e) (fn_callContext nd)"
    then have t: "flow_inv V C hp I t" "advances V C s t" and tot: "range_ok tot" by simp_all
    have moves: "m \<in> gam tot" if "gep_moves p (val (fn_callContext nd)) (hp (fn_parent nd)) e m" for m
    proof -
      have "0 \<in> gam (const_range 0)" by simp
      then show ?thesis using sums that unfolding gep_moves_def node_parts(5) [OF nd] fst_conv by blast
    qed
    show "bof_ok (edge_post nd (GepEdge e) s) (bof_then (defined (range_add tot (fn_offset nd))) (\<lambda>accumulate_offset.
       let buffer_size = getBufferRange (fn_parent nd) (rangeAnalysis t);
           s2 = (if constStructFieldNav p e nd buffer_size t then t\<lparr>fieldSafeVars := insert (gep_dst e) (fieldSafeVars t)\<rparr>
                 else checkAccess p (gep_dst e) accumulate_offset buffer_size (fn_isHeap nd) GEP_OOB (gep_loc e) (fn_callContext nd) idx t)
       in Inr (enqueue_from (gep_dst e) accumulate_offset nd s2)))"
    proof (rule bof_ok_defined)
      fix acc assume "range_add tot (fn_offset nd) = Some acc"
      note acc = range_add_covers [OF tot node_parts(4) [OF nd] this]
      let ?buf = "getBufferRange (fn_parent nd) (rangeAnalysis t)"
      define u where "u = (if constStructFieldNav p e nd ?buf t then t\<lparr>fieldSafeVars := insert (gep_dst e) (fieldSafeVars t)\<rparr>
        else checkAccess p (gep_dst e) acc ?buf (fn_isHeap nd) GEP_OOB (gep_loc e) (fn_callContext nd) idx t)"
      have u: "flow_inv V C hp I u" by (rule flow_inv_same [OF t(1)]) (use t(1) in \<open>simp_all add: u_def flow_inv_def\<close>)
      have a: "advances V C t u" by (rule advances_same) (auto simp: u_def dest: subsetD [OF checkAccess_bugLoc])
      note f = forward_ok [OF u nd d conjunct1 [OF acc]]
      let ?w = "enqueue_from (gep_dst e) acc nd u"
      have g: "flow_grows u ?w" "flow_grows t u" using f(2) a by (simp_all add: advances_def)
      have b: "getBufferRange (fn_parent nd) (rangeAnalysis ?w) = ?buf"
        using grows_buffer [OF g(1)] grows_buffer [OF g(2)] by simp
      have c: "gep_dst e \<in> fieldSafeVars u \<or> accounted p u (gep_loc e) (fn_callContext nd) ?buf v" if "v \<in> gam acc" for v
        using checkAccess_accounts [OF that] by (auto simp: u_def)
      have "edge_done p hp val (key_of nd) (fn_offset nd) (GepEdge e) ?w"
        unfolding edge_done.simps key_of_def fst_conv snd_conv b
      proof (intro conjI ballI impI)
        fix op i assume "op \<in> set (idxOperandPairs e)" "i \<in> val (fn_callContext nd) (fst op)" "escapes p (hp (fn_parent nd)) (snd op) i"
        then have "reported p t (gep_loc e) (fn_callContext nd)" using esc unfolding node_parts(5) [OF nd] set_rev snd_conv by blast
        then show "reported p ?w (gep_loc e) (fn_callContext nd)" by (rule reported_grows [OF reported_grows [OF _ g(2)] g(1)])
      next
        fix v assume "v \<in> gam (fn_offset nd)"
        show "\<forall>m. gep_moves p (val (fn_callContext nd)) (hp (fn_parent nd)) e m \<longrightarrow> in64 (m + v) \<longrightarrow>
          holds ?w (fn_parent nd, gep_dst e, fn_callContext nd) (m + v)
            \<and> (gep_dst e \<in> fieldSafeVars ?w \<or> accounted p ?w (gep_loc e) (fn_callContext nd) ?buf (m + v))"
        proof (intro allI impI)
          fix m assume m: "gep_moves p (val (fn_callContext nd)) (hp (fn_parent nd)) e m" and i: "in64 (m + v)"
          have "m + v \<in> gam acc" using acc moves [OF m] \<open>v \<in> gam (fn_offset nd)\<close> i by blast
          from f(3) [OF this] c [OF this]
          show "holds ?w (fn_parent nd, gep_dst e, fn_callContext nd) (m + v)
              \<and> (gep_dst e \<in> fieldSafeVars ?w \<or> accounted p ?w (gep_loc e) (fn_callContext nd) ?buf (m + v))"
            using accounted_grows [OF _ g(1)] g(1) by (auto simp: flow_grows_def)
        qed
      qed
      then have "edge_post nd (GepEdge e) s ?w"
        using f(1) advances_trans [OF t(2) advances_trans [OF a f(2)]] unfolding edge_post_def by blast
      then show "bof_ok (edge_post nd (GepEdge e) s) (let buffer_size = ?buf;
           s2 = (if constStructFieldNav p e nd buffer_size t then t\<lparr>fieldSafeVars := insert (gep_dst e) (fieldSafeVars t)\<rparr>
                 else checkAccess p (gep_dst e) acc buffer_size (fn_isHeap nd) GEP_OOB (gep_loc e) (fn_callContext nd) idx t)
           in Inr (enqueue_from (gep_dst e) acc nd s2))"
        by (simp add: Let_def u_def)
    qed
  qed
qed

lemma edge_ok:
  assumes s: "flow_inv V C hp I s" and nd: "node_within V C hp nd" and e: "edge_within V C e"
  shows "bof_ok (edge_post nd e s) (handle_edge p n nd e s)"
proof (cases e)
  case (GepEdge g)
  then show ?thesis using gep_ok [OF s nd] e by simp
next
  case (CallEdge f c)
  then have "f \<in> V" "Some c \<in> C" using e by simp_all
  note c = enter_ok [OF s node_parts(1) [OF nd] this node_parts(4,5) [OF nd]]
  show ?thesis using CallEdge s c by (simp add: handleCall_def edge_post_def)
next
  case (RetEdge r)
  then have r: "r \<in> V" using e by simp
  show ?thesis using forward_ok [OF s nd r node_parts(4) [OF nd]] RetEdge
    by (simp add: handleRet_def edge_post_def key_of_def del: in_gam)
qed (use e s copy_ok [OF s nd] in \<open>simp_all add: edge_post_def\<close>)

section \<open>The fixpoint\<close>

text \<open>Between two rounds, what the state holds is queued or has been passed on along all edges.\<close>

definition loop_inv :: "bof \<Rightarrow> bool" where
  "loop_inv s = (flow_inv V C hp I s \<and> (\<forall>k r. flowState s k = Some r \<longrightarrow>
     (\<exists>nd\<in>set (flowQueue s). key_of nd = k \<and> fn_offset nd = r) \<or> (\<forall>e\<in>set (outEdges p (fst (snd k))). edge_done p hp val k r e s)))"

lemma round_ok:
  assumes s: "loop_inv s" and ne: "flowQueue s \<noteq> []"
  shows "bof_ok (\<lambda>t. loop_inv t \<and> flow_grows s t \<and> room V C t + length (flowQueue t) < room V C s + length (flowQueue s))
    (propagate_one p n s)"
proof -
  obtain nd q where q: "flowQueue s = nd # q" using ne by (cases "flowQueue s") auto
  let ?s = "s\<lparr>flowQueue := q\<rparr>"
  have inv: "flow_inv V C hp I s" using s by (simp add: loop_inv_def)
  have i: "flow_inv V C hp I ?s" and nd: "node_within V C hp nd" using inv by (simp_all add: flow_inv_def q)
  have eds: "edge_within V C e" if "e \<in> set (outEdges p (fn_base nd))" for e
    by (rule inv_closed(5) [OF inv node_parts(2) [OF nd] that])
  have each: "bof_ok (\<lambda>t. advances V C ?s t \<and> flow_inv V C hp I t
      \<and> (\<forall>e\<in>set (outEdges p (fn_base nd)). edge_done p hp val (key_of nd) (fn_offset nd) e t))
    (bof_fold (handle_edge p n nd) (outEdges p (fn_base nd)) ?s)"
  proof (rule bof_ok_each)
    fix e b assume "e \<in> set (outEdges p (fn_base nd))" "flow_inv V C hp I b"
    then show "bof_ok (\<lambda>c. advances V C b c \<and> flow_inv V C hp I c \<and> edge_done p hp val (key_of nd) (fn_offset nd) e c) (handle_edge p n nd e b)"
      using edge_ok [OF _ nd eds, unfolded edge_post_def] by blast
  next
    show "edge_done p hp val (key_of nd) (fn_offset nd) e c"
      if "edge_done p hp val (key_of nd) (fn_offset nd) e b" "advances V C b c" for e b c
      using that unfolding advances_def by (blast intro: edge_done_grows)
  qed (rule advances_refl | rule advances_trans, assumption+ | rule i)+
  show ?thesis unfolding propagate_one_def q list.sel
  proof (rule bof_ok_mono [OF each], elim conjE)
    fix t
    assume a: "advances V C ?s t" and t: "flow_inv V C hp I t"
      and dn: "\<forall>e\<in>set (outEdges p (fn_base nd)). edge_done p hp val (key_of nd) (fn_offset nd) e t"
    obtain new where new: "flowQueue t = q @ new" "room V C t + length new \<le> room V C ?s"
        "\<And>k r. flowState t k = Some r \<Longrightarrow> flowState s k = Some r \<or> (\<exists>nd\<in>set new. key_of nd = k \<and> fn_offset nd = r)"
      using a by (auto simp: advances_def queues_def)
    have g: "flow_grows s t" using a by (simp add: advances_def flow_grows_def holds_def)
    have "(\<exists>nd\<in>set (flowQueue t). key_of nd = k \<and> fn_offset nd = r) \<or> (\<forall>e\<in>set (outEdges p (fst (snd k))). edge_done p hp val k r e t)"
      if k: "flowState t k = Some r" for k r
    proof (cases "flowState s k = Some r")
      case False
      then have "\<exists>nd\<in>set new. key_of nd = k \<and> fn_offset nd = r" using new(3) [OF k] by blast
      then show ?thesis by (auto simp: new(1))
    next
      case True
      then consider "key_of nd = k" "fn_offset nd = r" | nd' where "nd' \<in> set q" "key_of nd' = k" "fn_offset nd' = r"
        | "\<forall>e\<in>set (outEdges p (fst (snd k))). edge_done p hp val k r e s"
        using s unfolding loop_inv_def q list.set by blast
      then show ?thesis
      proof cases
        case 1
        then show ?thesis using dn by (auto simp: key_of_def)
      next
        case 2
        then show ?thesis using new(1) by auto
      next
        case 3
        then show ?thesis using edge_done_grows [OF _ g] by blast
      qed
    qed
    moreover have "room V C ?s = room V C s" by (simp add: room_def)
    ultimately show "loop_inv t \<and> flow_grows s t \<and> room V C t + length (flowQueue t) < room V C s + length (nd # q)"
      using t g new(1,2) by (simp add: loop_inv_def)
  qed
qed

lemma propagate_ok:
  assumes "loop_inv s"
  shows "\<exists>r. propagate p n s = Some r \<and> bof_ok (\<lambda>t. loop_inv t \<and> flow_grows s t \<and> flowQueue t = []) r"
  using assms unfolding propagate_def
proof (induction "room V C s + length (flowQueue s)" arbitrary: s rule: less_induct)
  case less
  let ?step = "\<lambda>r. Some (bof_then r (propagate_one p n))"
  show ?case
  proof (cases "flowQueue s = []")
    case True
    then show ?thesis using less.prems by (subst work_loop.simps) (simp add: propagate_stop_def)
  next
    case False
    then have l: "work_loop propagate_stop ?step (Inr s) = work_loop propagate_stop ?step (propagate_one p n s)"
      by (subst work_loop.simps) (simp add: propagate_stop_def)
    show ?thesis
    proof (cases "propagate_one p n s")
      case (Inl e)
      then have "work_loop propagate_stop ?step (propagate_one p n s) = Some (Inl e)"
        by (subst work_loop.simps) (simp add: propagate_stop_def)
      then show ?thesis using l Inl round_ok [OF less.prems False] by simp
    next
      case (Inr t)
      then have t: "loop_inv t" "flow_grows s t" "room V C t + length (flowQueue t) < room V C s + length (flowQueue s)"
        using round_ok [OF less.prems False] by simp_all
      obtain r where r: "work_loop propagate_stop ?step (Inr t) = Some r" "bof_ok (\<lambda>u. loop_inv u \<and> flow_grows t u \<and> flowQueue u = []) r"
        using less.hyps [OF t(3,1)] by blast
      have "bof_ok (\<lambda>u. loop_inv u \<and> flow_grows s u \<and> flowQueue u = []) r"
        by (rule bof_ok_mono [OF r(2)]) (use flow_grows_trans [OF t(2)] in blast)
      then show ?thesis using l Inr r(1) by simp
    qed
  qed
qed

end

end
