(* ===== verification/BofAffine.thy ===== *)
theory BofAffine
  imports BofProgram
begin

text \<open>
  Symbolic affine forms of scalar values: \<open>mergeAffine\<close>, \<open>analyzeAffine\<close> and \<open>affineStoredInto\<close> of
  \<open>svf/lib/BOF/RangeAnalysis.cpp\<close>.

  A form is a structural symbol plus an offset; a value has a set of forms, kept as a list
  without duplicates. The recursive worker takes the number of levels left before
  \<open>MAX_AFFINE_DEPTH\<close>; the set of visited values is threaded through it, as the reference
  parameter of the source is. \<open>None\<close> is the signed overflow of \<open>t.offset += k\<close> or of the negated
  constant.
\<close>

section \<open>Merging\<close>

record affine_term =
  at_base :: string
  at_offset :: int

definition MAX_AFFINE_TERMS :: nat where
  "MAX_AFFINE_TERMS = 16"

definition affine :: "string \<Rightarrow> int \<Rightarrow> affine_term" where
  "affine b k = \<lparr>at_base = b, at_offset = k\<rparr>"

fun mergeAffine :: "affine_term list \<Rightarrow> affine_term list \<Rightarrow> nat \<Rightarrow> affine_term list" where
  "mergeAffine dst [] cap = dst"
| "mergeAffine dst (t # ts) cap =
    (if \<exists>e\<in>set dst. at_base e = at_base t \<and> at_offset e = at_offset t then mergeAffine dst ts cap
     else if length (dst @ [t]) \<ge> cap then dst @ [t]
     else mergeAffine (dst @ [t]) ts cap)"

section \<open>The recursive worker\<close>

type_synonym affine_state = "affine_term list \<times> nat set"

text \<open>A loop over edges that threads the state and may be undefined.\<close>

primrec fold_opt :: "('e \<Rightarrow> 's \<Rightarrow> 's option) \<Rightarrow> 'e list \<Rightarrow> 's \<Rightarrow> 's option" where
  "fold_opt f [] s = Some s"
| "fold_opt f (e # es) s = Option.bind (f e s) (fold_opt f es)"

text \<open>\<open>mergeAffine(res, analyzeAffine(v, visited, depth + 1), MAX_AFFINE_TERMS)\<close>\<close>

definition merge_value :: "(nat set \<Rightarrow> nat \<Rightarrow> affine_state option) \<Rightarrow> nat \<Rightarrow> affine_state \<Rightarrow> affine_state option" where
  "merge_value rec v s = map_option (\<lambda>r. (mergeAffine (fst s) (fst r) MAX_AFFINE_TERMS, snd r)) (rec (snd s) v)"

definition merge_cast :: "(svf_stmt \<Rightarrow> nat list option) \<Rightarrow> (nat set \<Rightarrow> nat \<Rightarrow> affine_state option) \<Rightarrow>
    svf_stmt \<Rightarrow> affine_state \<Rightarrow> affine_state option" where
  "merge_cast c rec e s = (case c e of None \<Rightarrow> Some s | Some vs \<Rightarrow> fold_opt (merge_value rec) vs s)"

definition copy_ops :: "svf_stmt \<Rightarrow> nat list option" where
  "copy_ops e = map_option (\<lambda>r. [r]) (as_copy e)"

definition store_ops :: "svf_stmt \<Rightarrow> nat list option" where
  "store_ops e = map_option (\<lambda>r. [fst r]) (as_store e)"

definition select_ops :: "svf_stmt \<Rightarrow> nat list option" where
  "select_ops e = map_option (\<lambda>r. [fst (snd r), snd (snd r)]) (as_select e)"

definition affineStoredInto :: "svfir \<Rightarrow> (nat set \<Rightarrow> nat \<Rightarrow> affine_state option) \<Rightarrow> nat \<Rightarrow> nat set \<Rightarrow>
    affine_state option" where
  "affineStoredInto p rec addr vis =
    (if \<not> hasIncomingEdges p addr Store then Some ([], vis)
     else fold_opt (merge_cast store_ops rec) (inEdgeMap p addr Store) ([], vis))"

text \<open>One load edge; \<open>n\<close> levels are left for \<open>structToken(addr, depth + 1, visited)\<close>.\<close>

definition affine_load :: "svfir \<Rightarrow> nat \<Rightarrow> (nat set \<Rightarrow> nat \<Rightarrow> affine_state option) \<Rightarrow> svf_stmt \<Rightarrow>
    affine_state \<Rightarrow> affine_state option" where
  "affine_load p n rec e s = (case as_load e of
      None \<Rightarrow> Some s
    | Some ld \<Rightarrow> Option.bind (affineStoredInto p rec (fst ld) (snd s)) (\<lambda>stored.
        if fst stored \<noteq> [] then Some (mergeAffine (fst s) (fst stored) MAX_AFFINE_TERMS, snd stored)
        else let addrTok = structToken_at p n (Some (fst ld)) (snd stored)
             in Some (mergeAffine (fst s) [affine (''M('' @ fst addrTok @ '')'') 0] MAX_AFFINE_TERMS, snd addrTok)))"

text \<open>The operand that keeps its symbol and the constant that shifts it, when the operation is an
  addition or subtraction with exactly one constant. The outer option says whether the operation
  is handled, the inner one whether the constant can be negated.\<close>

definition affine_shift :: "svfir \<Rightarrow> nat \<Rightarrow> nat \<Rightarrow> nat \<Rightarrow> (nat \<times> int option) option" where
  "affine_shift p opc op0 op1 =
    (if opc = op_Add then
       (case (constVal p op0, constVal p op1) of
          (None, Some k) \<Rightarrow> Some (op0, Some k)
        | (Some k, None) \<Rightarrow> Some (op1, Some k)
        | _ \<Rightarrow> None)
     else if opc = op_Sub then
       (case (constVal p op0, constVal p op1) of
          (None, Some k) \<Rightarrow> Some (op0, chk (- k))
        | _ \<Rightarrow> None)
     else None)"

primrec shift_terms :: "int \<Rightarrow> affine_term list \<Rightarrow> affine_term list option" where
  "shift_terms k [] = Some []"
| "shift_terms k (t # ts) = Option.bind (chk (at_offset t + k)) (\<lambda>off.
      map_option (\<lambda>us. t\<lparr>at_offset := off\<rparr> # us) (shift_terms k ts))"

definition affine_binop :: "svfir \<Rightarrow> nat \<Rightarrow> (nat set \<Rightarrow> nat \<Rightarrow> affine_state option) \<Rightarrow> svf_stmt \<Rightarrow>
    affine_state \<Rightarrow> affine_state option" where
  "affine_binop p x rec e s = (case as_binop e of
      None \<Rightarrow> Some s
    | Some bop \<Rightarrow>
        if length (fst bop) \<noteq> 2 then Some s
        else case affine_shift p (snd bop) (fst bop ! 0) (fst bop ! 1) of
          None \<Rightarrow> Some (mergeAffine (fst s) [affine (opaque_token x) 0] MAX_AFFINE_TERMS, snd s)
        | Some vk \<Rightarrow> Option.bind (rec (snd s) (fst vk)) (\<lambda>base.
            Option.bind (snd vk) (\<lambda>k.
            map_option (\<lambda>ts. (mergeAffine (fst s) ts MAX_AFFINE_TERMS, snd base)) (shift_terms k (fst base)))))"

primrec analyzeAffine_at :: "svfir \<Rightarrow> nat \<Rightarrow> nat set \<Rightarrow> nat \<Rightarrow> affine_state option" where
  "analyzeAffine_at p 0 vis x = Some ([affine (opaque_token x) 0], vis)"
| "analyzeAffine_at p (Suc n) vis x =
    (if x \<in> vis then Some ([affine (opaque_token x) 0], vis)
     else case constVal p x of Some c \<Rightarrow> Some ([affine [] c], vis)
     | None \<Rightarrow>
       let rec = analyzeAffine_at p n in
       Option.bind (fold_opt (merge_cast copy_ops rec) (inEdgeMap p x Copy) ([], insert x vis)) (\<lambda>s.
       Option.bind (fold_opt (affine_load p n rec) (inEdgeMap p x Load) s) (\<lambda>s.
       Option.bind (fold_opt (affine_binop p x rec) (inEdgeMap p x BinaryOp) s) (\<lambda>s.
       Option.bind (fold_opt (merge_cast as_phi rec) (inEdgeMap p x Phi) s) (\<lambda>s.
       Option.bind (fold_opt (merge_cast select_ops rec) (inEdgeMap p x Select) s) (\<lambda>s.
       Some (if fst s = [] then [affine (opaque_token x) 0] else fst s, snd s - {x})))))))"

definition analyzeAffine :: "svfir \<Rightarrow> nat option \<Rightarrow> affine_term list option" where
  "analyzeAffine p v = (case v of
      None \<Rightarrow> Some []
    | Some x \<Rightarrow> map_option fst (analyzeAffine_at p MAX_AFFINE_DEPTH {} x))"

section \<open>Lemmas\<close>

text \<open>Terms are compared by base and offset, which is equality.\<close>

lemma affine_eq_iff: "at_base e = at_base t \<and> at_offset e = at_offset t \<longleftrightarrow> e = (t :: affine_term)"
  by auto

lemma mergeAffine_dup: "(\<exists>e\<in>set dst. at_base e = at_base t \<and> at_offset e = at_offset t) \<longleftrightarrow> t \<in> set (dst :: affine_term list)"
  by (simp add: affine_eq_iff)

declare mergeAffine.simps [simp del]

lemma mergeAffine_simps [simp]:
  "mergeAffine dst [] cap = dst"
  "mergeAffine dst (t # ts) cap =
    (if t \<in> set dst then mergeAffine dst ts cap
     else if cap \<le> Suc (length dst) then dst @ [t]
     else mergeAffine (dst @ [t]) ts cap)"
  by (simp_all add: mergeAffine.simps mergeAffine_dup)

lemma mergeAffine_mono: "set dst \<subseteq> set (mergeAffine dst src cap)"
  by (induction src arbitrary: dst) fastforce+

lemma mergeAffine_sub: "set (mergeAffine dst src cap) \<subseteq> set dst \<union> set src"
proof (induction src arbitrary: dst)
  case (Cons t ts)
  show ?case using Cons.IH [of dst] Cons.IH [of "dst @ [t]"] by auto
qed simp

lemma mergeAffine_distinct: "distinct dst \<Longrightarrow> distinct (mergeAffine dst src cap)"
  by (induction src arbitrary: dst) auto

lemma mergeAffine_length: "length (mergeAffine dst src cap) \<le> max cap (Suc (length dst))"
  by (induction src arbitrary: dst) (auto, metis Suc_leI le_max_iff_disj length_append_singleton max.absorb1 not_less_eq_eq order_refl)

lemma mergeAffine_not_empty:
  assumes "dst \<noteq> [] \<or> src \<noteq> []" shows "mergeAffine dst src cap \<noteq> []"
proof (cases "dst = []")
  case True
  then obtain t ts where "src = t # ts" using assms by (cases src) auto
  then show ?thesis using True mergeAffine_mono [of "[t]" ts cap] by auto
next
  case False
  then show ?thesis using mergeAffine_mono [of dst src cap] by auto
qed

text \<open>A result below the cap is complete: nothing was dropped on the way.\<close>

lemma mergeAffine_complete:
  "length (mergeAffine dst src cap) < cap \<Longrightarrow> set src \<subseteq> set (mergeAffine dst src cap)"
proof (induction src arbitrary: dst)
  case (Cons t ts)
  show ?case
  proof (cases "t \<in> set dst")
    case True
    then show ?thesis using Cons mergeAffine_mono [of dst ts cap] by auto
  next
    case False
    then show ?thesis
      using Cons mergeAffine_mono [of "dst @ [t]" ts cap] by (auto split: if_splits)
  qed
qed simp

lemma mergeAffine_below:
  assumes "distinct src" "length (mergeAffine dst src cap) < cap"
  shows "length src < cap"
proof -
  have "length src = card (set src)" using assms(1) by (simp add: distinct_card)
  also have "\<dots> \<le> card (set (mergeAffine dst src cap))"
    by (rule card_mono) (use mergeAffine_complete [OF assms(2)] in auto)
  also have "\<dots> \<le> length (mergeAffine dst src cap)" by (rule card_length)
  finally show ?thesis using assms(2) by simp
qed

text \<open>How the threaded state may change: the visited set is restored and terms are only added.\<close>

definition grows :: "affine_state \<Rightarrow> affine_state \<Rightarrow> bool" where
  "grows s s' = (snd s' = snd s \<and> set (fst s) \<subseteq> set (fst s') \<and> (distinct (fst s) \<longrightarrow> distinct (fst s')))"

lemma grows_refl [simp]: "grows s s"
  by (simp add: grows_def)

lemma grows_trans: "grows s t \<Longrightarrow> grows t u \<Longrightarrow> grows s u"
  by (auto simp: grows_def)

lemma grows_merge: "snd r = vis \<Longrightarrow> grows (d, vis) (mergeAffine d src cap, snd r)"
  by (simp add: grows_def mergeAffine_mono mergeAffine_distinct)

lemma grows_merge2: "fst s' = mergeAffine (fst s) src cap \<Longrightarrow> snd s' = snd s \<Longrightarrow> grows s s'"
  by (simp add: grows_def mergeAffine_mono mergeAffine_distinct del: mergeAffine_simps)

lemma grows_small:
  assumes "grows s s'" "distinct (fst s)" "length (fst s') < c" shows "length (fst s) < c"
proof -
  have "length (fst s) = card (set (fst s))" using assms(2) by (simp add: distinct_card)
  also have "\<dots> \<le> card (set (fst s'))" using assms(1) by (intro card_mono) (auto simp: grows_def)
  also have "\<dots> \<le> length (fst s')" by (rule card_length)
  finally show ?thesis using assms(3) by simp
qed

lemma fold_opt_grows:
  assumes "\<forall>e\<in>set es. \<forall>s s'. f e s = Some s' \<longrightarrow> grows s s'" "fold_opt f es s = Some s'"
  shows "grows s s'"
  using assms
proof (induction es arbitrary: s)
  case (Cons e es)
  then obtain t where t: "f e s = Some t" "fold_opt f es t = Some s'" by (auto simp: bind_eq_Some_conv)
  have "grows s t" using Cons.prems(1) t(1) by (meson list.set_intros(1))
  moreover have "grows t s'" using Cons.IH [OF _ t(2)] Cons.prems(1) by (meson list.set_intros(2))
  ultimately show ?case by (rule grows_trans)
qed simp

lemma fold_opt_step:
  assumes "\<forall>e\<in>set es. \<forall>s s'. f e s = Some s' \<longrightarrow> grows s s'" "fold_opt f es s = Some s'" "e \<in> set es"
  shows "\<exists>t u. f e t = Some u \<and> grows s t \<and> grows u s'"
  using assms
proof (induction es arbitrary: s)
  case (Cons d es)
  then obtain t where t: "f d s = Some t" "fold_opt f es t = Some s'" by (auto simp: bind_eq_Some_conv)
  have h: "\<forall>e\<in>set es. \<forall>s s'. f e s = Some s' \<longrightarrow> grows s s'" using Cons.prems(1) by (meson list.set_intros(2))
  have d: "grows s t" using Cons.prems(1) t(1) by (meson list.set_intros(1))
  show ?case
  proof (cases "e = d")
    case True
    then show ?thesis using t fold_opt_grows [OF h t(2)] grows_refl by blast
  next
    case False
    then have "e \<in> set es" using Cons.prems(3) by simp
    then show ?thesis using Cons.IH [OF h t(2)] d grows_trans by blast
  qed
qed simp

section \<open>Soundness\<close>

text \<open>A valuation of values (\<open>rho\<close>), symbols (\<open>sig\<close>) and memory slots (\<open>mem\<close>). \<open>affine_source\<close> says
  that the value of \<open>x\<close> comes from one of its edges.\<close>

definition covers :: "(string \<Rightarrow> int) \<Rightarrow> affine_term list \<Rightarrow> int \<Rightarrow> bool" where
  "covers sig ts k = (\<exists>t\<in>set ts. k = sig (at_base t) + at_offset t)"

definition binop_value :: "(nat \<Rightarrow> int) \<Rightarrow> nat \<Rightarrow> nat list \<Rightarrow> nat \<Rightarrow> bool" where
  "binop_value rho x ops oc = (length ops = 2
    \<and> (oc = op_Add \<longrightarrow> rho x = rho (ops ! 0) + rho (ops ! 1))
    \<and> (oc = op_Sub \<longrightarrow> rho x = rho (ops ! 0) - rho (ops ! 1)))"

definition affine_source :: "svfir \<Rightarrow> (nat \<Rightarrow> int) \<Rightarrow> (nat \<Rightarrow> int) \<Rightarrow> nat \<Rightarrow> bool" where
  "affine_source p rho mem x =
    ((\<exists>r l. CopyStmt r l \<in> set (inEdgeMap p x Copy) \<and> rho x = rho r)
     \<or> (\<exists>a l n. LoadStmt a l n \<in> set (inEdgeMap p x Load) \<and> rho x = mem a)
     \<or> (\<exists>l ops oc. BinaryOPStmt l ops oc \<in> set (inEdgeMap p x BinaryOp) \<and> binop_value rho x ops oc)
     \<or> (\<exists>l ops v. PhiStmt l ops \<in> set (inEdgeMap p x Phi) \<and> v \<in> set ops \<and> rho x = rho v)
     \<or> (\<exists>l c t f. SelectStmt l c t f \<in> set (inEdgeMap p x Select) \<and> (rho x = rho t \<or> rho x = rho f)))"

definition affine_model :: "svfir \<Rightarrow> (nat \<Rightarrow> int) \<Rightarrow> (string \<Rightarrow> int) \<Rightarrow> (nat \<Rightarrow> int) \<Rightarrow> bool" where
  "affine_model p rho sig mem =
    (sig [] = 0
     \<and> (\<forall>x. sig (opaque_token x) = rho x)
     \<and> (\<forall>a n vis. sig (''M('' @ fst (structToken_at p n (Some a) vis) @ '')'') = mem a)
     \<and> (\<forall>x c. constVal p x = Some c \<longrightarrow> rho x = c)
     \<and> (\<forall>a. inEdgeMap p a Store \<noteq> [] \<longrightarrow> (\<exists>r l n. StoreStmt r l n \<in> set (inEdgeMap p a Store) \<and> mem a = rho r))
     \<and> (\<forall>x. affine_source p rho mem x \<or> inEdgeMap p x Copy = [] \<and> inEdgeMap p x Load = []
          \<and> inEdgeMap p x BinaryOp = [] \<and> inEdgeMap p x Phi = [] \<and> inEdgeMap p x Select = []))"

lemma covers_mono: "covers sig ts k \<Longrightarrow> set ts \<subseteq> set us \<Longrightarrow> covers sig us k"
  by (auto simp: covers_def)

text \<open>What a recursive call promises.\<close>

definition affine_call :: "(nat \<Rightarrow> int) \<Rightarrow> (string \<Rightarrow> int) \<Rightarrow> (nat set \<Rightarrow> nat \<Rightarrow> affine_state option) \<Rightarrow> bool" where
  "affine_call rho sig rec = (\<forall>vis v r. rec vis v = Some r \<longrightarrow>
    snd r = vis \<and> fst r \<noteq> [] \<and> distinct (fst r) \<and>
    (length (fst r) < MAX_AFFINE_TERMS \<longrightarrow> covers sig (fst r) (rho v)))"

lemma merge_value_ok:
  assumes "affine_call rho sig rec" "merge_value rec v s = Some s'"
  shows "grows s s'" "fst s' \<noteq> []"
    "length (fst s') < MAX_AFFINE_TERMS \<Longrightarrow> covers sig (fst s') (rho v)"
proof -
  obtain r where r: "rec (snd s) v = Some r" "s' = (mergeAffine (fst s) (fst r) MAX_AFFINE_TERMS, snd r)"
    using assms(2) by (auto simp: merge_value_def)
  have c: "snd r = snd s" "fst r \<noteq> []" "distinct (fst r)"
    "length (fst r) < MAX_AFFINE_TERMS \<Longrightarrow> covers sig (fst r) (rho v)"
    using assms(1) r(1) unfolding affine_call_def by blast+
  show "grows s s'" using grows_merge [of r "snd s" "fst s"] c(1) r(2) by simp
  show "fst s' \<noteq> []"
    using mergeAffine_not_empty c(2) r(2) by simp
  show "covers sig (fst s') (rho v)" if "length (fst s') < MAX_AFFINE_TERMS"
  proof -
    have l: "length (mergeAffine (fst s) (fst r) MAX_AFFINE_TERMS) < MAX_AFFINE_TERMS" using that r(2) by simp
    show ?thesis
      using c(4) [OF mergeAffine_below [OF c(3) l]] covers_mono mergeAffine_complete [OF l] r(2) by auto
  qed
qed

lemma fold_values_ok:
  assumes "affine_call rho sig rec" "fold_opt (merge_value rec) vs s = Some s'"
  shows "grows s s'" "vs \<noteq> [] \<Longrightarrow> fst s' \<noteq> []"
    "distinct (fst s) \<Longrightarrow> length (fst s') < MAX_AFFINE_TERMS \<Longrightarrow> v \<in> set vs \<Longrightarrow> covers sig (fst s') (rho v)"
proof -
  have g: "\<forall>e\<in>set vs. \<forall>s s'. merge_value rec e s = Some s' \<longrightarrow> grows s s'"
    using merge_value_ok(1) [OF assms(1)] by blast
  show gs: "grows s s'" by (rule fold_opt_grows [OF g assms(2)])
  have step: "\<exists>t u. merge_value rec v t = Some u \<and> grows s t \<and> grows u s'" if "v \<in> set vs" for v
    by (rule fold_opt_step [OF g assms(2) that])
  show "fst s' \<noteq> []" if ne: "vs \<noteq> []"
  proof -
    obtain t u where "merge_value rec (hd vs) t = Some u" "grows u s'" using step [of "hd vs"] hd_in_set [OF ne] by blast
    then have "fst u \<noteq> []" "set (fst u) \<subseteq> set (fst s')"
      using merge_value_ok(2) [OF assms(1)] by (auto simp: grows_def)
    then show ?thesis by (cases "fst u") auto
  qed
  show "covers sig (fst s') (rho v)"
    if d: "distinct (fst s)" and l: "length (fst s') < MAX_AFFINE_TERMS" and v: "v \<in> set vs"
  proof -
    obtain t u where tu: "merge_value rec v t = Some u" "grows s t" "grows u s'" using step [OF v] by blast
    have "distinct (fst u)" using d tu(2) merge_value_ok(1) [OF assms(1) tu(1)] by (auto simp: grows_def)
    then have "length (fst u) < MAX_AFFINE_TERMS" using grows_small tu(3) l by blast
    then have "covers sig (fst u) (rho v)" by (rule merge_value_ok(3) [OF assms(1) tu(1)])
    then show ?thesis using tu(3) covers_mono by (auto simp: grows_def)
  qed
qed

lemma merge_cast_ok:
  assumes "affine_call rho sig rec" "merge_cast c rec e s = Some s'"
  shows "grows s s'"
    "c e = Some vs \<Longrightarrow> v \<in> set vs \<Longrightarrow> distinct (fst s) \<Longrightarrow> length (fst s') < MAX_AFFINE_TERMS \<Longrightarrow>
      covers sig (fst s') (rho v)"
    "c e = Some vs \<Longrightarrow> vs \<noteq> [] \<Longrightarrow> fst s' \<noteq> []"
  using assms fold_values_ok [OF assms(1)] by (auto simp: merge_cast_def split: option.splits)

lemma affineStoredInto_ok:
  assumes "affine_call rho sig rec" "affineStoredInto p rec a vis = Some r"
  shows "snd r = vis" "distinct (fst r)"
    "\<exists>rv l n. StoreStmt rv l n \<in> set (inEdgeMap p a Store) \<and> k = rho rv \<Longrightarrow>
      length (fst r) < MAX_AFFINE_TERMS \<Longrightarrow> fst r \<noteq> [] \<and> covers sig (fst r) k"
    "fst r = [] \<Longrightarrow> \<not> (\<exists>rv l n. StoreStmt rv l n \<in> set (inEdgeMap p a Store))"
proof -
  have "grows ([], vis) r \<and> (\<forall>rv l n. StoreStmt rv l n \<in> set (inEdgeMap p a Store) \<longrightarrow>
    fst r \<noteq> [] \<and> (length (fst r) < MAX_AFFINE_TERMS \<longrightarrow> covers sig (fst r) (rho rv)))"
  proof (cases "hasIncomingEdges p a Store")
    case False
    then show ?thesis using assms(2) by (simp add: affineStoredInto_def hasIncomingEdges_def)
  next
    case True
    then have f: "fold_opt (merge_cast store_ops rec) (inEdgeMap p a Store) ([], vis) = Some r"
      using assms(2) by (simp add: affineStoredInto_def)
    have g: "\<forall>e\<in>set (inEdgeMap p a Store). \<forall>s s'. merge_cast store_ops rec e s = Some s' \<longrightarrow> grows s s'"
      using merge_cast_ok(1) [OF assms(1)] by blast
    have "fst r \<noteq> [] \<and> (length (fst r) < MAX_AFFINE_TERMS \<longrightarrow> covers sig (fst r) (rho rv))"
      if st: "StoreStmt rv l n \<in> set (inEdgeMap p a Store)" for rv l n
    proof -
      obtain t u where tu: "merge_cast store_ops rec (StoreStmt rv l n) t = Some u" "grows ([], vis) t" "grows u r"
        using fold_opt_step [OF g f st] by blast
      have c: "store_ops (StoreStmt rv l n) = Some [rv]" by (simp add: store_ops_def)
      have d: "distinct (fst t)" using tu(2) by (simp add: grows_def)
      have du: "distinct (fst u)" using d merge_cast_ok(1) [OF assms(1) tu(1)] by (simp add: grows_def)
      have ne: "fst u \<noteq> []" by (rule merge_cast_ok(3) [OF assms(1) tu(1) c]) simp
      have su: "set (fst u) \<subseteq> set (fst r)" using tu(3) by (simp add: grows_def)
      have "covers sig (fst r) (rho rv)" if "length (fst r) < MAX_AFFINE_TERMS"
        using merge_cast_ok(2) [OF assms(1) tu(1) c _ d grows_small [OF tu(3) du that]] covers_mono [OF _ su]
        by simp
      then show ?thesis using ne su by (cases "fst u") auto
    qed
    then show ?thesis using fold_opt_grows [OF g f] by blast
  qed
  then show "snd r = vis" "distinct (fst r)"
    "\<exists>rv l n. StoreStmt rv l n \<in> set (inEdgeMap p a Store) \<and> k = rho rv \<Longrightarrow>
      length (fst r) < MAX_AFFINE_TERMS \<Longrightarrow> fst r \<noteq> [] \<and> covers sig (fst r) k"
    "fst r = [] \<Longrightarrow> \<not> (\<exists>rv l n. StoreStmt rv l n \<in> set (inEdgeMap p a Store))"
    by (auto simp: grows_def)
qed

lemma affine_load_ok:
  assumes "affine_model p rho sig mem" "affine_call rho sig rec" "affine_load p n rec e s = Some s'"
  shows "grows s s'"
    "e = LoadStmt a l m \<Longrightarrow> length (fst s') < MAX_AFFINE_TERMS \<Longrightarrow> covers sig (fst s') (mem a)"
proof -
  have "grows s s' \<and> (\<forall>a l m. e = LoadStmt a l m \<longrightarrow> length (fst s') < MAX_AFFINE_TERMS \<longrightarrow> covers sig (fst s') (mem a))"
  proof (cases e)
    case (LoadStmt a l m)
    then obtain r where r: "affineStoredInto p rec a (snd s) = Some r"
      "s' = (if fst r \<noteq> [] then (mergeAffine (fst s) (fst r) MAX_AFFINE_TERMS, snd r)
             else let addrTok = structToken_at p n (Some a) (snd r)
                  in (mergeAffine (fst s) [affine (''M('' @ fst addrTok @ '')'') 0] MAX_AFFINE_TERMS, snd addrTok))"
      using assms(3) by (auto simp: affine_load_def Let_def bind_eq_Some_conv split: if_splits)
    note ok = affineStoredInto_ok [OF assms(2) r(1)]
    have g: "grows s s'"
      by (rule grows_merge2 [where src = "if fst r \<noteq> [] then fst r
            else [affine (''M('' @ fst (structToken_at p n (Some a) (snd r)) @ '')'') 0]" and cap = MAX_AFFINE_TERMS])
        (simp_all add: r(2) ok(1) Let_def structToken_visited del: mergeAffine_simps)
    have "covers sig (fst s') (mem a)" if l: "length (fst s') < MAX_AFFINE_TERMS"
    proof (cases "fst r = []")
      case True
      then have eq: "fst s' = mergeAffine (fst s) [affine (''M('' @ fst (structToken_at p n (Some a) (snd r)) @ '')'') 0] MAX_AFFINE_TERMS"
        by (simp add: r(2) Let_def)
      have "covers sig [affine (''M('' @ fst (structToken_at p n (Some a) (snd r)) @ '')'') 0] (mem a)"
        using assms(1) by (simp add: covers_def affine_def affine_model_def)
      then show ?thesis unfolding eq using covers_mono mergeAffine_complete l eq by metis
    next
      case False
      then have eq: "fst s' = mergeAffine (fst s) (fst r) MAX_AFFINE_TERMS" by (simp add: r(2))
      have sm: "length (fst r) < MAX_AFFINE_TERMS" using mergeAffine_below [OF ok(2)] l eq by metis
      have "inEdgeMap p a Store \<noteq> []"
        using r(1) False by (auto simp: affineStoredInto_def hasIncomingEdges_def)
      then have "\<exists>rv l n. StoreStmt rv l n \<in> set (inEdgeMap p a Store) \<and> mem a = rho rv"
        using assms(1) unfolding affine_model_def by blast
      then have "covers sig (fst r) (mem a)" using ok(3) sm by blast
      then show ?thesis unfolding eq using covers_mono mergeAffine_complete l eq by metis
    qed
    then show ?thesis using g LoadStmt by blast
  qed (use assms(3) in \<open>auto simp: affine_load_def\<close>)
  then show "grows s s'"
    "e = LoadStmt a l m \<Longrightarrow> length (fst s') < MAX_AFFINE_TERMS \<Longrightarrow> covers sig (fst s') (mem a)" by blast+
qed

lemma shift_terms_ok:
  assumes "shift_terms k ts = Some us"
  shows "us = map (\<lambda>t. t\<lparr>at_offset := at_offset t + k\<rparr>) ts"
  using assms by (induction ts arbitrary: us) (auto simp: bind_eq_Some_conv)

lemma shift_distinct:
  assumes "distinct ts" shows "distinct (map (\<lambda>t :: affine_term. t\<lparr>at_offset := at_offset t + k\<rparr>) ts)"
proof -
  have "inj_on (\<lambda>t :: affine_term. t\<lparr>at_offset := at_offset t + k\<rparr>) (set ts)"
  proof (rule inj_onI)
    fix a b :: affine_term
    assume eq: "a\<lparr>at_offset := at_offset a + k\<rparr> = b\<lparr>at_offset := at_offset b + k\<rparr>"
    have "at_base a = at_base b" using arg_cong [OF eq, of at_base] by simp
    moreover have "at_offset a = at_offset b" using arg_cong [OF eq, of at_offset] by simp
    ultimately show "a = b" by simp
  qed
  then show ?thesis using assms by (simp add: distinct_map)
qed

lemma affine_shift_value:
  assumes "affine_shift p oc a b = Some (v, Some k)" "affine_model p rho sig mem" "binop_value rho x [a, b] oc"
  shows "rho x = rho v + k"
proof -
  have "constVal p y = Some c \<Longrightarrow> rho y = c" for y c using assms(2) by (simp add: affine_model_def)
  then show ?thesis
    using assms(1,3) by (auto simp: affine_shift_def binop_value_def opcode_defs split: if_splits option.splits)
qed

lemma affine_binop_ok:
  assumes "affine_model p rho sig mem" "affine_call rho sig rec" "affine_binop p x rec e s = Some s'"
  shows "grows s s'"
    "e = BinaryOPStmt l ops oc \<Longrightarrow> binop_value rho x ops oc \<Longrightarrow> length (fst s') < MAX_AFFINE_TERMS \<Longrightarrow>
      covers sig (fst s') (rho x)"
proof -
  have "grows s s' \<and> (\<forall>l ops oc. e = BinaryOPStmt l ops oc \<longrightarrow> binop_value rho x ops oc \<longrightarrow>
      length (fst s') < MAX_AFFINE_TERMS \<longrightarrow> covers sig (fst s') (rho x))"
  proof (cases e)
    case (BinaryOPStmt l ops oc)
    show ?thesis
    proof (cases "length ops = 2")
      case False
      then show ?thesis using assms(3) BinaryOPStmt by (auto simp: affine_binop_def binop_value_def)
    next
      case True
      then obtain a b where ab: "ops = [a, b]" by (metis One_nat_def Suc_1 length_0_conv length_Suc_conv)
      show ?thesis
      proof (cases "affine_shift p oc a b")
        case None
        then have s': "s' = (mergeAffine (fst s) [affine (opaque_token x) 0] MAX_AFFINE_TERMS, snd s)"
          using assms(3) BinaryOPStmt ab by (simp add: affine_binop_def)
        have c: "covers sig [affine (opaque_token x) 0] (rho x)"
          using assms(1) by (simp add: covers_def affine_def affine_model_def)
        have "covers sig (fst s') (rho x)" if "length (fst s') < MAX_AFFINE_TERMS"
          using that covers_mono [OF c mergeAffine_complete] s' by (simp del: mergeAffine_simps)
        moreover have "grows s s'" by (rule grows_merge2) (simp_all add: s' del: mergeAffine_simps)
        ultimately show ?thesis by blast
      next
        case (Some vk)
        then obtain base k ts where t: "rec (snd s) (fst vk) = Some base" "snd vk = Some k"
          "shift_terms k (fst base) = Some ts" "s' = (mergeAffine (fst s) ts MAX_AFFINE_TERMS, snd base)"
          using assms(3) BinaryOPStmt ab by (auto simp: affine_binop_def bind_eq_Some_conv)
        have r: "snd base = snd s" "distinct (fst base)"
          "length (fst base) < MAX_AFFINE_TERMS \<Longrightarrow> covers sig (fst base) (rho (fst vk))"
          using assms(2) t(1) unfolding affine_call_def by blast+
        have ts: "ts = map (\<lambda>t. t\<lparr>at_offset := at_offset t + k\<rparr>) (fst base)" by (rule shift_terms_ok [OF t(3)])
        have "covers sig (fst s') (rho x)" if bv: "binop_value rho x ops oc" and l: "length (fst s') < MAX_AFFINE_TERMS"
        proof -
          have l': "length (mergeAffine (fst s) ts MAX_AFFINE_TERMS) < MAX_AFFINE_TERMS" using l t(4) by simp
          have "length ts < MAX_AFFINE_TERMS"
            by (rule mergeAffine_below [OF _ l']) (use r(2) ts shift_distinct in auto)
          then have "covers sig (fst base) (rho (fst vk))" using r(3) ts by simp
          moreover have "rho x = rho (fst vk) + k"
            using affine_shift_value [of p oc a b "fst vk" k] Some t(2) assms(1) bv ab by (cases vk) auto
          ultimately have "covers sig ts (rho x)" by (auto simp: covers_def ts)
          then show ?thesis using covers_mono [OF _ mergeAffine_complete [OF l']] t(4) by simp
        qed
        moreover have "grows s s'" by (rule grows_merge2) (simp_all add: t(4) r(1) del: mergeAffine_simps)
        ultimately show ?thesis using BinaryOPStmt by blast
      qed
    qed
  qed (use assms(3) in \<open>auto simp: affine_binop_def\<close>)
  then show "grows s s'"
    "e = BinaryOPStmt l ops oc \<Longrightarrow> binop_value rho x ops oc \<Longrightarrow> length (fst s') < MAX_AFFINE_TERMS \<Longrightarrow>
      covers sig (fst s') (rho x)" by blast+
qed

lemma fold_cover:
  assumes "\<forall>e\<in>set es. \<forall>s s'. f e s = Some s' \<longrightarrow> grows s s'" "fold_opt f es s = Some s'" "d \<in> set es"
    and "\<And>s s'. f d s = Some s' \<Longrightarrow> distinct (fst s) \<Longrightarrow> length (fst s') < c \<Longrightarrow> covers sig (fst s') k"
    and "distinct (fst s)" "grows s' r" "length (fst r) < c"
  shows "covers sig (fst r) k"
proof -
  obtain t u where tu: "f d t = Some u" "grows s t" "grows u s'" using fold_opt_step [OF assms(1-3)] by blast
  have dt: "distinct (fst t)" using tu(2) assms(5) by (simp add: grows_def)
  have "grows t u" using assms(1,3) tu(1) by blast
  then have du: "distinct (fst u)" using dt by (simp add: grows_def)
  have gr: "grows u r" using grows_trans tu(3) assms(6) by blast
  have "covers sig (fst u) k" by (rule assms(4) [OF tu(1) dt grows_small [OF gr du assms(7)]])
  then show ?thesis by (rule covers_mono) (use gr in \<open>simp add: grows_def\<close>)
qed

lemma cover_final:
  assumes m: "affine_model p rho sig mem" and rc: "affine_call rho sig rec"
    and f: "fold_opt (merge_cast copy_ops rec) (inEdgeMap p x Copy) ([], vis) = Some s1"
      "fold_opt (affine_load p n rec) (inEdgeMap p x Load) s1 = Some s2"
      "fold_opt (affine_binop p x rec) (inEdgeMap p x BinaryOp) s2 = Some s3"
      "fold_opt (merge_cast as_phi rec) (inEdgeMap p x Phi) s3 = Some s4"
      "fold_opt (merge_cast select_ops rec) (inEdgeMap p x Select) s4 = Some s5"
  shows "grows ([], vis) s5"
    "affine_source p rho mem x \<Longrightarrow> length (fst s5) < MAX_AFFINE_TERMS \<Longrightarrow> covers sig (fst s5) (rho x)"
proof -
  have c: "\<forall>e\<in>set es. \<forall>s s'. merge_cast c rec e s = Some s' \<longrightarrow> grows s s'" for c es
    using merge_cast_ok(1) [OF rc] by blast
  have l: "\<forall>e\<in>set es. \<forall>s s'. affine_load p n rec e s = Some s' \<longrightarrow> grows s s'" for es
    using affine_load_ok(1) [OF m rc] by blast
  have b: "\<forall>e\<in>set es. \<forall>s s'. affine_binop p x rec e s = Some s' \<longrightarrow> grows s s'" for es
    using affine_binop_ok(1) [OF m rc] by blast
  have g: "grows ([], vis) s1" "grows s1 s2" "grows s2 s3" "grows s3 s4" "grows s4 s5"
    using fold_opt_grows [OF c f(1)] fold_opt_grows [OF l f(2)] fold_opt_grows [OF b f(3)]
      fold_opt_grows [OF c f(4)] fold_opt_grows [OF c f(5)] by blast+
  have h: "grows s5 s5" "grows s4 s5" "grows s3 s5" "grows s2 s5" "grows s1 s5"
    using g grows_trans grows_refl by blast+
  have a: "grows ([], vis) s2" "grows ([], vis) s3" "grows ([], vis) s4" "grows ([], vis) s5"
    using g grows_trans by blast+
  then show "grows ([], vis) s5" by simp
  have d: "distinct (fst s1)" "distinct (fst s2)" "distinct (fst s3)" "distinct (fst s4)"
    using g(1) a by (simp_all add: grows_def)
  assume src: "affine_source p rho mem x" and sm: "length (fst s5) < MAX_AFFINE_TERMS"
  have "covers sig (fst s5) (rho x)" if e: "CopyStmt r l \<in> set (inEdgeMap p x Copy)" "rho x = rho r" for r l
    by (rule fold_cover [OF c f(1) e(1) _ _ h(5) sm])
      (use e(2) merge_cast_ok(2) [OF rc, where c = copy_ops and e = "CopyStmt r l" and vs = "[r]" and v = r]
        in \<open>auto simp: copy_ops_def\<close>)
  moreover have "covers sig (fst s5) (rho x)"
    if e: "LoadStmt a l' m' \<in> set (inEdgeMap p x Load)" "rho x = mem a" for a l' m'
    by (rule fold_cover [OF l f(2) e(1) _ d(1) h(4) sm]) (use e(2) affine_load_ok(2) [OF m rc] in auto)
  moreover have "covers sig (fst s5) (rho x)"
    if e: "BinaryOPStmt l' ops oc \<in> set (inEdgeMap p x BinaryOp)" "binop_value rho x ops oc" for l' ops oc
    by (rule fold_cover [OF b f(3) e(1) _ d(2) h(3) sm]) (use e(2) affine_binop_ok(2) [OF m rc] in auto)
  moreover have "covers sig (fst s5) (rho x)"
    if e: "PhiStmt l' ops \<in> set (inEdgeMap p x Phi)" "v \<in> set ops" "rho x = rho v" for l' ops v
    by (rule fold_cover [OF c f(4) e(1) _ d(3) h(2) sm])
      (use e(2,3) merge_cast_ok(2) [OF rc, where c = as_phi and e = "PhiStmt l' ops" and vs = ops and v = v] in auto)
  moreover have "covers sig (fst s5) (rho x)"
    if e: "SelectStmt l' cn t ff \<in> set (inEdgeMap p x Select)" "rho x = rho v" "v = t \<or> v = ff" for l' cn t ff v
    by (rule fold_cover [OF c f(5) e(1) _ d(4) h(1) sm])
      (use e(2,3) merge_cast_ok(2) [OF rc, where c = select_ops and e = "SelectStmt l' cn t ff" and vs = "[t, ff]" and v = v]
        in \<open>auto simp: select_ops_def\<close>)
  ultimately show "covers sig (fst s5) (rho x)" using src unfolding affine_source_def by blast
qed

lemma covers_opaque: "affine_model p rho sig mem \<Longrightarrow> covers sig [affine (opaque_token x) 0] (rho x)"
  by (simp add: covers_def affine_def affine_model_def)

lemma analyzeAffine_call:
  assumes m: "affine_model p rho sig mem"
  shows "affine_call rho sig (analyzeAffine_at p n)"
proof (induction n)
  case 0
  show ?case using covers_opaque [OF m] by (simp add: affine_call_def)
next
  case (Suc n)
  let ?rec = "analyzeAffine_at p n"
  have "snd r = vis \<and> fst r \<noteq> [] \<and> distinct (fst r) \<and>
      (length (fst r) < MAX_AFFINE_TERMS \<longrightarrow> covers sig (fst r) (rho x))"
    if an: "analyzeAffine_at p (Suc n) vis x = Some r" for vis x r
  proof (cases "x \<in> vis \<or> constVal p x \<noteq> None")
    case True
    then show ?thesis
      using an covers_opaque [OF m, of x] m
      by (auto simp: covers_def affine_def affine_model_def split: if_splits)
  next
    case False
    then obtain s1 s2 s3 s4 s5 where
      f: "fold_opt (merge_cast copy_ops ?rec) (inEdgeMap p x Copy) ([], insert x vis) = Some s1"
      "fold_opt (affine_load p n ?rec) (inEdgeMap p x Load) s1 = Some s2"
      "fold_opt (affine_binop p x ?rec) (inEdgeMap p x BinaryOp) s2 = Some s3"
      "fold_opt (merge_cast as_phi ?rec) (inEdgeMap p x Phi) s3 = Some s4"
      "fold_opt (merge_cast select_ops ?rec) (inEdgeMap p x Select) s4 = Some s5"
      and r: "r = (if fst s5 = [] then [affine (opaque_token x) 0] else fst s5, snd s5 - {x})"
      using an by (auto simp: Let_def bind_eq_Some_conv)
    note cf = cover_final [OF m Suc.IH f]
    have s5: "snd s5 = insert x vis" "distinct (fst s5)" using cf(1) by (simp_all add: grows_def)
    have "covers sig (fst r) (rho x)" if l: "length (fst r) < MAX_AFFINE_TERMS"
    proof (cases "affine_source p rho mem x")
      case True
      show ?thesis
      proof (cases "fst s5 = []")
        case True
        then show ?thesis using covers_opaque [OF m] r by simp
      next
        case False
        then show ?thesis using cf(2) [OF \<open>affine_source p rho mem x\<close>] l r by simp
      qed
    next
      case False
      then have "inEdgeMap p x Copy = []" "inEdgeMap p x Load = []" "inEdgeMap p x BinaryOp = []"
        "inEdgeMap p x Phi = []" "inEdgeMap p x Select = []"
        using m unfolding affine_model_def by blast+
      then have "fst s5 = []" using f by auto
      then show ?thesis using covers_opaque [OF m] r by simp
    qed
    then show ?thesis using r s5 False by auto
  qed
  then show ?case unfolding affine_call_def by blast
qed

section \<open>Properties\<close>

text \<open>Merging affine terms keeps the terms of the target in front, adds only terms of the
  source, keeps the list free of duplicates, and drops nothing as long as the result stays below
  the cap. The result exceeds the cap by at most the one term that a target already at the cap
  still receives, so repeated merges can pass it, against the comment on the function.\<close>

theorem mergeAffine_correct:
  "set dst \<subseteq> set (mergeAffine dst src cap)
    \<and> set (mergeAffine dst src cap) \<subseteq> set dst \<union> set src
    \<and> (distinct dst \<longrightarrow> distinct (mergeAffine dst src cap))
    \<and> (length (mergeAffine dst src cap) < cap \<longrightarrow> set (mergeAffine dst src cap) = set dst \<union> set src)
    \<and> length (mergeAffine dst src cap) \<le> max cap (Suc (length dst))
    \<and> length (mergeAffine (mergeAffine [affine ''a'' 0] [affine ''b'' 0] 2) [affine ''c'' 0] 2) = 3"
proof (intro conjI impI)
  assume "length (mergeAffine dst src cap) < cap"
  then show "set (mergeAffine dst src cap) = set dst \<union> set src"
    using mergeAffine_complete [of dst src cap] mergeAffine_mono [of dst src cap] mergeAffine_sub [of dst src cap] by blast
qed (use mergeAffine_mono mergeAffine_sub mergeAffine_distinct mergeAffine_length in \<open>auto simp: affine_def\<close>)

lemma mergeAffine_witness:
  "set (mergeAffine [affine ''a'' 0] [affine ''b'' 1] 16) = {affine ''a'' 0, affine ''b'' 1}"
  using mergeAffine_correct [of "[affine ''a'' 0]" "[affine ''b'' 1]" 16] by (auto simp: affine_def)

text \<open>C37: The affine analysis is sound: when it returns fewer terms than the cap, one of them
  (symbol value plus offset) is the value of the variable, for every valuation in which each
  value with edges comes from one of them (a copy, a load of the slot, an addition or
  subtraction, a phi or select operand); the result is never empty and has no duplicates.\<close>

theorem analyzeAffine_sound:
  assumes "affine_model p rho sig mem" "analyzeAffine p (Some x) = Some ts"
  shows "ts \<noteq> [] \<and> distinct ts
    \<and> (length ts < MAX_AFFINE_TERMS \<longrightarrow> (\<exists>t\<in>set ts. rho x = sig (at_base t) + at_offset t))"
  using analyzeAffine_call [OF assms(1), of MAX_AFFINE_DEPTH] assms(2)
  unfolding affine_call_def analyzeAffine_def covers_def by auto

text \<open>A load of the slot 1 (value 2) plus the constant 3 (value 4) is value 3.\<close>

definition affine_ex :: svfir where
  "affine_ex = two_loads\<lparr>inEdgeMap := (\<lambda>x k. if k = Load \<and> x = 2 then [LoadStmt 1 2 None]
      else if k = BinaryOp \<and> x = 3 then [BinaryOPStmt 3 [2, 4] op_Add] else []),
    constVal := (\<lambda>x. if x = 4 then Some 3 else None)\<rparr>"

definition ex_rho :: "nat \<Rightarrow> int" where
  "ex_rho x = (if x = 2 then 7 else if x = 3 then 10 else if x = 4 then 3 else 0)"

definition ex_sig :: "string \<Rightarrow> int" where
  "ex_sig t = (if t = ''M('' @ opaque_token 1 @ '')'' \<or> t = opaque_token 2 then 7
    else if t = opaque_token 3 then 10 else if t = opaque_token 4 then 3 else 0)"

lemma affine_ex_model: "affine_model affine_ex ex_rho ex_sig (\<lambda>a. if a = 1 then 7 else 0)"
proof -
  have sel: "inEdgeMap affine_ex x k = (if k = Load \<and> x = 2 then [LoadStmt 1 2 None]
      else if k = BinaryOp \<and> x = 3 then [BinaryOPStmt 3 [2, 4] op_Add] else [])"
    "constVal affine_ex x = (if x = 4 then Some 3 else None)" for x k
    by (simp_all add: affine_ex_def)
  have o: "opaque_token a = CHR ''O'' # to_string (int a)" for a by (simp add: opaque_token_def)
  have tok: "fst (structToken_at affine_ex n (Some a) vis) = opaque_token 1 \<longleftrightarrow> a = 1" for n a vis
  proof (cases "a = 2 \<or> a = 4")
    case True
    then show ?thesis
      by (cases n) (auto simp: sel hasIncomingEdges_def Let_def, simp_all add: opaque_token_def)
  next
    case False
    then have "opaque_value affine_ex a" by (simp add: opaque_value_def sel)
    then show ?thesis by (simp add: opaque_value_token)
  qed
  have sig_o: "ex_sig (opaque_token x) = ex_rho x" for x
  proof -
    have "opaque_token x \<noteq> ''M('' @ opaque_token 1 @ '')''" by (simp add: o)
    then show ?thesis by (simp add: ex_sig_def ex_rho_def)
  qed
  have sig_m: "ex_sig (''M('' @ fst (structToken_at affine_ex n (Some a) vis) @ '')'') = (if a = 1 then 7 else 0)" for a n vis
  proof -
    have "''M('' @ t @ '')'' \<noteq> opaque_token y" for t y by (simp add: o)
    then show ?thesis unfolding ex_sig_def using tok [of n a vis] by auto
  qed
  have src: "affine_source affine_ex ex_rho (\<lambda>a. if a = 1 then 7 else 0) x \<or> x \<noteq> 2 \<and> x \<noteq> 3" for x
    by (auto simp: affine_source_def sel ex_rho_def binop_value_def opcode_defs)
  have "ex_sig [] = 0" by (simp add: ex_sig_def o)
  moreover have "\<forall>x c. constVal affine_ex x = Some c \<longrightarrow> ex_rho x = c" by (simp add: sel ex_rho_def)
  moreover have "\<forall>a. inEdgeMap affine_ex a Store = []" by (simp add: sel)
  ultimately show ?thesis
    unfolding affine_model_def using sig_o sig_m src [of 2] src [of 3] by (auto simp: sel)
qed

lemma analyzeAffine_witness:
  "analyzeAffine affine_ex (Some 3) = Some [affine ''M(O1)'' 3] \<and> ex_rho 3 = ex_sig ''M(O1)'' + 3"
proof -
  have v: "analyzeAffine affine_ex (Some 3) = Some [affine ''M(O1)'' 3]" by code_simp
  then show ?thesis
    using analyzeAffine_sound [OF affine_ex_model v] by (simp add: affine_def MAX_AFFINE_TERMS_def)
qed

end
