(* ===== verification/BofMemOps.thy ===== *)
theory BofMemOps
  imports BofChecker BofAffine
begin

text \<open>
  The checks of memory and string functions, and the symbolic check of allocations that are too small:
  \<open>svf/lib/BOF/BofMemCopyChecks.cpp\<close>; and \<open>runOnModule\<close> of \<open>svf/lib/BOF/BufferOverflowChecker.cpp\<close>,
  which composes the checker.

  A computation on 64-bit integers that overflows is the error \<open>UndefinedBehaviour\<close>, as in the range
  analysis.
\<close>

section \<open>Names\<close>

definition name_contains :: "string \<Rightarrow> string \<Rightarrow> bool" where
  "name_contains s pat = (\<exists>i\<in>set [0..<Suc (length s)]. take (length pat) (drop i s) = pat)"

definition nameIsStrlen :: "string \<Rightarrow> bool" where
  "nameIsStrlen nm = (nm = ''strlen'' \<or> nm = ''strnlen'' \<or> nm = ''__strlen_chk'')"

definition nameIsStrSize :: "string \<Rightarrow> bool" where
  "nameIsStrSize nm = (name_contains nm ''basic_string'' \<and> (name_contains nm ''4size'' \<or> name_contains nm ''6length''))"

definition nameIsStrData :: "string \<Rightarrow> bool" where
  "nameIsStrData nm = (name_contains nm ''basic_string'' \<and> (name_contains nm ''4data'' \<or> name_contains nm ''5c_str''))"

definition libcName :: "string \<Rightarrow> string" where
  "libcName rawName =
    (if take 11 rawName = ''llvm.memcpy'' then ''memcpy''
     else if take 12 rawName = ''llvm.memmove'' then ''memmove''
     else if take 11 rawName = ''llvm.memset'' then ''memset''
     else rawName)"

section \<open>The buffer behind a pointer, in bytes\<close>

record byte_buffer =
  bb_capacity :: int
  bb_offset :: range
  bb_isHeap :: bool

text \<open>The outer option is overflow, the inner one whether the variable is a buffer.\<close>

definition element_buffer :: "bof_program \<Rightarrow> buffer_info \<Rightarrow> int \<Rightarrow> byte_buffer option" where
  "element_buffer p bi numUnits =
    (let totalBytes = (case varType p (bi_parent bi) of None \<Rightarrow> numUnits | Some t \<Rightarrow> to_s64 (byteSizeOf p t));
         q = totalBytes sdiv numUnits;
         elemByte = (if q \<le> 0 then 1 else q)
     in map_option (\<lambda>r. \<lparr>bb_capacity = totalBytes, bb_offset = r, bb_isHeap = False\<rparr>)
          (range_mul (bi_offset bi) (const_range elemByte)))"

definition getByteBuffer :: "bof_program \<Rightarrow> nat \<Rightarrow> bof \<Rightarrow> byte_buffer option option" where
  "getByteBuffer p x s = (case bufferOf s x of
      None \<Rightarrow> Some None
    | Some bi \<Rightarrow>
      (let bufRange = getBufferRange (bi_parent bi) (rangeAnalysis s) in
       if isBottom bufRange then Some None
       else Option.bind (chk (upper bufRange + 1)) (\<lambda>numUnits.
         if numUnits \<le> 0 then Some None
         else if bi_isHeap bi then Some (Some \<lparr>bb_capacity = numUnits, bb_offset = bi_offset bi, bb_isHeap = True\<rparr>)
         else map_option Some (element_buffer p bi numUnits))))"

section \<open>Allocations that are too small\<close>

definition FIND_ALLOC_STEPS :: nat where
  "FIND_ALLOC_STEPS = 16"

definition loaded_size :: "bof_program \<Rightarrow> bof \<Rightarrow> svf_stmt \<Rightarrow> alloc_size_sym option" where
  "loaded_size p s e = Option.bind (as_load e) (\<lambda>ld. allocAddrSym s (locationToken (pag p) (fst ld)))"

primrec find_alloc :: "bof_program \<Rightarrow> bof \<Rightarrow> nat \<Rightarrow> nat \<Rightarrow> alloc_size_sym option" where
  "find_alloc p s 0 x = None"
| "find_alloc p s (Suc i) x = (case allocResultSym s x of
      Some y \<Rightarrow> Some y
    | None \<Rightarrow>
      if hasIncomingEdges (pag p) x Load then first_cast (loaded_size p s) (inEdgeMap (pag p) x Load)
      else (case first_cast as_copy (inEdgeMap (pag p) x Copy) of
          None \<Rightarrow> None
        | Some y \<Rightarrow> find_alloc p s i y))"

definition findAllocSizeForBuffer :: "bof_program \<Rightarrow> bof \<Rightarrow> nat \<Rightarrow> alloc_size_sym option" where
  "findAllocSizeForBuffer p s x = find_alloc p s FIND_ALLOC_STEPS x"

text \<open>The least and greatest offset of the terms with a base.\<close>

definition alloc_bounds :: "string \<Rightarrow> affine_term list \<Rightarrow> (int \<times> int) option" where
  "alloc_bounds b ts = (case map at_offset (filter (\<lambda>a. at_base a = b) ts) of
      [] \<Rightarrow> None
    | k # ks \<Rightarrow> Some (foldl min k ks, foldl max k ks))"

record shortfall =
  sf_matched :: bool
  sf_any :: bool
  sf_all :: bool
  sf_over :: int

definition shortfall_new :: shortfall where
  "shortfall_new = \<lparr>sf_matched = False, sf_any = False, sf_all = True, sf_over = 0\<rparr>"

definition copy_term :: "int \<Rightarrow> affine_term list \<Rightarrow> affine_term \<Rightarrow> shortfall \<Rightarrow> shortfall option" where
  "copy_term off allocTerms c f =
    (if at_base c = [] then Some f
     else case alloc_bounds (at_base c) allocTerms of
       None \<Rightarrow> Some f
     | Some (minA, maxA) \<Rightarrow>
       Option.bind (chk (off + at_offset c)) (\<lambda>k.
       if k > minA then
         map_option (\<lambda>d. f\<lparr>sf_matched := True, sf_any := True, sf_over := max (sf_over f) d,
           sf_all := (sf_all f \<and> k > maxA)\<rparr>) (chk (k - minA))
       else Some (f\<lparr>sf_matched := True, sf_all := (sf_all f \<and> k > maxA)\<rparr>)))"

definition compare_terms :: "int \<Rightarrow> affine_term list \<Rightarrow> affine_term list \<Rightarrow> shortfall option" where
  "compare_terms off allocTerms copyTerms = fold_opt (copy_term off allocTerms) copyTerms shortfall_new"

definition trySymbolicUnderAlloc :: "bof_program \<Rightarrow> nat \<Rightarrow> nat \<Rightarrow> int \<Rightarrow> nat \<Rightarrow> bof \<Rightarrow> bof bof_out" where
  "trySymbolicUnderAlloc p bufArg lenVar off loc s = (case findAllocSizeForBuffer p s bufArg of
      None \<Rightarrow> Inr s
    | Some asz \<Rightarrow>
      if isElemMul asz then Inr s
      else
        bof_then (defined (analyzeAffine (pag p) (Some (sizeVar asz)))) (\<lambda>allocTerms.
        bof_then (defined (analyzeAffine (pag p) (Some lenVar))) (\<lambda>copyTerms.
        if allocTerms = [] \<or> copyTerms = [] then Inr s
        else bof_then (defined (compare_terms off allocTerms copyTerms)) (\<lambda>f.
          if \<not> sf_matched f \<or> \<not> sf_any f then Inr s
          else bof_then (defined (chk (off + sf_over f))) (\<lambda>u.
            Inr (reportBufferOverflowError p bufArg (mk_range 0 u) (mk_range 0 off) True MEMCPY_OOB (Some loc)
              (sf_all f) None None s))))))"

section \<open>Length oracles\<close>

record oracles =
  lenOracleByPtr :: "string \<rightharpoonup> nat"
  lenOracleByStr :: "string \<rightharpoonup> nat"
  dataRetToStr :: "nat \<rightharpoonup> string"

definition oracles_new :: oracles where
  "oracles_new = \<lparr>lenOracleByPtr = Map.empty, lenOracleByStr = Map.empty, dataRetToStr = Map.empty\<rparr>"

text \<open>\<open>emplace\<close> keeps an entry that is there.\<close>

definition emplace_new :: "'k \<Rightarrow> 'v \<Rightarrow> ('k \<rightharpoonup> 'v) \<Rightarrow> ('k \<rightharpoonup> 'v)" where
  "emplace_new k v m = (if m k = None then m(k \<mapsto> v) else m)"

definition str_key :: "string \<Rightarrow> string" where
  "str_key tok = ''S('' @ tok @ '')''"

definition add_oracle :: "bof_program \<Rightarrow> nat \<Rightarrow> oracles \<Rightarrow> oracles" where
  "add_oracle p nd orc = (case callNode p nd of
      None \<Rightarrow> orc
    | Some c \<Rightarrow> (case (calleeName p c, cn_args c) of
        (Some nm, subject # rest) \<Rightarrow>
          if \<not> nameIsStrlen nm \<and> \<not> nameIsStrSize nm \<and> \<not> nameIsStrData nm then orc
          else let tok = locationToken (pag p) subject in
            if tok = [] then orc
            else (case cn_ret c of
                None \<Rightarrow> orc
              | Some ret \<Rightarrow>
                if nameIsStrData nm then orc\<lparr>dataRetToStr := emplace_new ret (str_key tok) (dataRetToStr orc)\<rparr>
                else if nameIsStrlen nm then orc\<lparr>lenOracleByPtr := emplace_new tok ret (lenOracleByPtr orc)\<rparr>
                else orc\<lparr>lenOracleByStr := emplace_new (str_key tok) ret (lenOracleByStr orc)\<rparr>)
      | _ \<Rightarrow> orc))"

definition collect_oracles :: "bof_program \<Rightarrow> oracles" where
  "collect_oracles p = fold (add_oracle p) (icfgNodes p) oracles_new"

definition guarded_query :: "bof_program \<Rightarrow> nat \<Rightarrow> nat option \<Rightarrow> nat \<Rightarrow> bof \<Rightarrow> (range \<times> bof) bof_out" where
  "guarded_query p n v loc s = (case v of
      None \<Rightarrow> Inr (TOP, s)
    | Some x \<Rightarrow> (case guardedValueRange (pag p) n (Some x) (Some loc) (rangeAnalysis s) of
        Inl e \<Rightarrow> Inl (RangeError e)
      | Inr r \<Rightarrow> Inr (fst r, s\<lparr>rangeAnalysis := snd r\<rparr>)))"

text \<open>The length of the source string, from the size of the string object or from \<open>strlen\<close>.\<close>

definition oracle_chars :: "bof_program \<Rightarrow> nat \<Rightarrow> oracles \<Rightarrow> nat \<Rightarrow> nat \<Rightarrow> bof \<Rightarrow> (range \<times> bof) bof_out" where
  "oracle_chars p n orc src loc s =
    bof_then (guarded_query p n (Option.bind (dataRetToStr orc src) (lenOracleByStr orc)) loc s) (\<lambda>(r, s1).
      if isTop r then guarded_query p n (lenOracleByPtr orc (locationToken (pag p) src)) loc s1 else Inr (r, s1))"

text \<open>The bytes copied, with the terminator.\<close>

definition oracle_bytes :: "range \<Rightarrow> range option" where
  "oracle_bytes r =
    (if isBottom r \<or> isTop r then None
     else let lo = max 0 (lower r);
              bLo = (if lo \<ge> rINF - 1024 then rINF else lo + 1);
              bHi = (if upper r \<ge> rINF - 1024 then rINF else upper r + 1)
          in Some (mk_range (max 1 bLo) bHi))"

definition source_bytes :: "range option \<Rightarrow> byte_buffer option \<Rightarrow> range option option" where
  "source_bytes len src = (case src of
      None \<Rightarrow> Some len
    | Some b \<Rightarrow> map_option (\<lambda>maxLen.
        if maxLen > 0 then (case len of
            None \<Rightarrow> Some (mk_range 1 maxLen)
          | Some l \<Rightarrow> let m = range_meet l (mk_range 1 maxLen) in Some (if isBottom m then l else m))
        else len) (chk (bb_capacity b - lower (bb_offset b))))"

section \<open>The checks\<close>

text \<open>The bytes that a call accesses through a buffer argument; \<open>None\<close> if they are unknown.\<close>

definition string_length :: "bof_program \<Rightarrow> nat \<Rightarrow> oracles \<Rightarrow> call_node \<Rightarrow> nat \<Rightarrow> int \<Rightarrow> bof \<Rightarrow> (range option \<times> bof) bof_out" where
  "string_length p n orc c loc srcIdx s =
    (if srcIdx \<ge> int (length (cn_args c)) then Inr (None, s)
     else let src = cn_args c ! nat srcIdx in
       bof_then (oracle_chars p n orc src loc s) (\<lambda>(chars, s1).
       bof_then (defined (getByteBuffer p src s1)) (\<lambda>buf.
       bof_then (defined (source_bytes (oracle_bytes chars) buf)) (\<lambda>len. Inr (len, s1)))))"

definition explicit_length :: "bof_program \<Rightarrow> nat \<Rightarrow> call_node \<Rightarrow> int \<Rightarrow> bof \<Rightarrow> (range option \<times> bof) bof_out" where
  "explicit_length p n c lenIdx s =
    (if lenIdx < 0 \<or> lenIdx \<ge> int (length (cn_args c)) then Inr (None, s)
     else bof_then (bof_query p n None (cn_args c ! nat lenIdx) s) (\<lambda>(r, s1).
       Inr (if isTop r \<or> upper r \<le> 0 then None else Some r, s1)))"

definition memop_kind :: "string \<Rightarrow> bool \<Rightarrow> bof_kind" where
  "memop_kind fname strLike =
    (if fname = ''memset'' \<or> fname = ''__memset_chk'' \<or> fname = ''wmemset'' \<or> fname = ''bzero'' then MEMSET_OOB
     else if strLike then STRCPY_OOB else MEMCPY_OOB)"

text \<open>The access of \<open>len\<close> bytes at the offset of the buffer: the interval accessed, whether it is within the
  buffer, and whether it is surely outside.\<close>

definition memop_must :: "range \<Rightarrow> range \<Rightarrow> range \<Rightarrow> bool option" where
  "memop_must off len valid =
    (if lower off > upper valid then Some True
     else let lenLower = (if lower len > 0 then lower len else 0) in
       if lenLower < 1 then Some False
       else map_option (\<lambda>r. lower r > upper valid) (range_add (const_range (lower off)) (const_range (lenLower - 1))))"

definition memop_access :: "byte_buffer \<Rightarrow> range \<Rightarrow> (range \<times> range \<times> bool) option option" where
  "memop_access buf len =
    Option.bind (chk (upper len - 1)) (\<lambda>last_byte.
    Option.bind (range_add (bb_offset buf) (mk_range 0 last_byte)) (\<lambda>accessRange.
    Option.bind (chk (bb_capacity buf - 1)) (\<lambda>last_valid.
    let valid = mk_range 0 last_valid in
    if isSubset accessRange valid then Some None
    else map_option (\<lambda>must. Some (accessRange, valid, must)) (memop_must (bb_offset buf) len valid))))"

definition check_length :: "bof_program \<Rightarrow> nat \<Rightarrow> nat \<Rightarrow> string \<Rightarrow> bool \<Rightarrow> byte_buffer \<Rightarrow> range \<Rightarrow> bof \<Rightarrow> bof bof_out" where
  "check_length p loc bufArg fname strLike buf len s =
    bof_then (defined (memop_access buf len)) (\<lambda>a. Inr (case a of
        None \<Rightarrow> s
      | Some (accessRange, valid, must) \<Rightarrow>
          reportBufferOverflowError p bufArg accessRange valid (bb_isHeap buf) (memop_kind fname strLike) (Some loc) must
            None None s))"

text \<open>The start of the symbolic check: the greatest byte offset of the buffer, or \<open>0\<close>.\<close>

definition start_offset :: "byte_buffer option \<Rightarrow> int" where
  "start_offset b = (case b of None \<Rightarrow> 0
    | Some buf \<Rightarrow> if \<not> isBottom (bb_offset buf) \<and> upper (bb_offset buf) \<ge> 0 then upper (bb_offset buf) else 0)"

definition symbolic_check :: "bof_program \<Rightarrow> nat \<Rightarrow> call_node \<Rightarrow> nat \<Rightarrow> bool \<Rightarrow> int \<Rightarrow> bof \<Rightarrow> bof bof_out" where
  "symbolic_check p loc c bufArg strLike lenIdx s =
    (if \<not> strLike \<and> lenIdx \<ge> 0 \<and> lenIdx < int (length (cn_args c)) then
       bof_then (defined (getByteBuffer p bufArg s)) (\<lambda>b.
         trySymbolicUnderAlloc p bufArg (cn_args c ! nat lenIdx) (start_offset b) loc s)
     else Inr s)"

definition check_rule :: "bof_program \<Rightarrow> nat \<Rightarrow> oracles \<Rightarrow> nat \<Rightarrow> call_node \<Rightarrow> string \<Rightarrow> bool \<Rightarrow> access_rule \<Rightarrow> bof \<Rightarrow> bof bof_out" where
  "check_rule p n orc loc c fname strLike rule s =
    (if bufArgIdx rule < 0 \<or> bufArgIdx rule \<ge> int (length (cn_args c)) then Inr s
     else let bufArg = cn_args c ! nat (bufArgIdx rule) in
       bof_then (symbolic_check p loc c bufArg strLike (lenArgIdx rule) s) (\<lambda>s1.
       bof_then (defined (getByteBuffer p bufArg s1)) (\<lambda>b. case b of
           None \<Rightarrow> Inr s1
         | Some buf \<Rightarrow>
           bof_then (if strLike then string_length p n orc c loc (bufArgIdx rule + 1) s1
             else explicit_length p n c (lenArgIdx rule) s1) (\<lambda>(len, s2). case len of
               None \<Rightarrow> Inr s2
             | Some l \<Rightarrow> check_length p loc bufArg fname strLike buf l s2))))"

text \<open>A name that the tables reject with an exception is a failure.\<close>

definition check_node :: "bof_program \<Rightarrow> nat \<Rightarrow> oracles \<Rightarrow> nat \<Rightarrow> bof \<Rightarrow> bof bof_out" where
  "check_node p n orc nd s = (case callNode p nd of
      None \<Rightarrow> Inr s
    | Some c \<Rightarrow> (case calleeName p c of
        None \<Rightarrow> Inr s
      | Some rawName \<Rightarrow>
        let fname = libcName rawName in
        bof_then (asserted (getRules (transferRules p) fname)) (\<lambda>rs. case rs of
            None \<Rightarrow> Inr s
          | Some rules \<Rightarrow>
            bof_then (asserted (isStrCopyLike (transferRules p) fname)) (\<lambda>strLike.
              bof_fold (check_rule p n orc nd c fname strLike) rules s))))"

definition checkMemoryOps :: "bof_program \<Rightarrow> nat \<Rightarrow> bof \<Rightarrow> bof bof_out" where
  "checkMemoryOps p n s = bof_fold (check_node p n (collect_oracles p)) (icfgNodes p) s"

section \<open>The checker\<close>

text \<open>The outer option is a fixpoint that does not end.\<close>

definition runOnModule :: "bof_program \<Rightarrow> nat \<Rightarrow> string option \<Rightarrow> bool \<Rightarrow> (pending_report \<times> bool) list bof_out option" where
  "runOnModule p n env mayAsMust =
    (case bof_then (initialize p n (bof_new env)) (bindCallArguments p n) of
       Inl e \<Rightarrow> Some (Inl e)
     | Inr s \<Rightarrow> map_option (\<lambda>r. bof_then (bof_then r (checkMemoryOps p n)) (\<lambda>s1. Inr (flushReports p mayAsMust s1)))
         (propagate p n s))"

section \<open>Lengths\<close>

lemma range_add_cases:
  assumes "range_ok a" "range_ok b" "\<not> isBottom a" "\<not> isBottom b"
  shows "range_add a b = Some (mk_range (sat (lower a + lower b)) (sat (upper a + upper b)))"
  using assms by (simp add: range_add_def range_ok_def safeAdd_sat)

lemma sat_less: "in64 v \<Longrightarrow> sat x > v \<Longrightarrow> x > v" "in64 v \<Longrightarrow> sat x < v \<Longrightarrow> x < v"
  by (auto simp: sat_def in64_def)

lemma sat_le: "0 \<le> v \<Longrightarrow> v < rINF \<Longrightarrow> sat x \<le> v \<Longrightarrow> x \<le> v" "0 \<le> sat x \<Longrightarrow> 0 \<le> x"
  by (auto simp: sat_def bounds_defs)

text \<open>C12: The check of a memory function is right about the bytes that the call accesses. With a buffer of
  \<open>bb_capacity\<close> bytes that is not empty, a call that copies a length of the interval, from an offset of the interval,
  is accepted only if for every offset and length all bytes are inside the buffer, and it is certainly
  wrong only if for every offset and positive length some byte is outside. The check does not overflow.\<close>

theorem memop_access_correct:
  assumes "0 < bb_capacity buf" "in64 (bb_capacity buf)" "range_ok (bb_offset buf)" "\<not> isBottom (bb_offset buf)"
    "range_ok len" "\<not> isBottom len" "0 < upper len"
  shows "memop_access buf len \<noteq> None
    \<and> (memop_access buf len = Some None \<longrightarrow>
        (\<forall>off\<in>gam (bb_offset buf). \<forall>n\<in>gam len. \<forall>i. 0 \<le> i \<and> i < n \<longrightarrow> 0 \<le> off + i \<and> off + i < bb_capacity buf))
    \<and> (\<forall>acc valid. memop_access buf len = Some (Some (acc, valid, True)) \<longrightarrow>
        (\<forall>off\<in>gam (bb_offset buf). \<forall>n\<in>gam len. 0 < n \<longrightarrow> (\<exists>i. 0 \<le> i \<and> i < n \<and> \<not> (0 \<le> off + i \<and> off + i < bb_capacity buf))))"
proof -
  let ?o = "bb_offset buf" and ?c = "bb_capacity buf"
  let ?v = "mk_range 0 (?c - 1)"
  have ok: "in64 (lower ?o)" "in64 (upper ?o)" "in64 (upper len)" "lower ?o \<le> upper ?o" "lower len \<le> upper len"
    using assms by (simp_all add: range_ok_def isBottom_def)
  have l1: "in64 (upper len - 1)" "in64 (?c - 1)" using assms(1,2,7) ok(3) by (simp_all add: in64_def bounds_defs)
  have add: "range_add ?o (mk_range 0 (upper len - 1)) = Some (mk_range (sat (lower ?o)) (sat (upper ?o + (upper len - 1))))" (is "_ = Some ?a")
    using range_add_cases [OF assms(3) _ assms(4), of "mk_range 0 (upper len - 1)"] l1 assms(7)
    by (simp add: range_ok_def isBottom_def)
  have must: "memop_must ?o len ?v \<noteq> None \<and> (memop_must ?o len ?v = Some True \<longrightarrow> lower ?o > ?c - 1 \<or> 0 < lower len \<and> lower ?o + (lower len - 1) > ?c - 1)"
  proof (cases "lower len > 0")
    case True
    have "in64 (lower len - 1)" using True ok(3,5) by (simp add: in64_def bounds_defs)
    then have "range_add (const_range (lower ?o)) (const_range (lower len - 1)) = Some (const_range (sat (lower ?o + (lower len - 1))))"
      using range_add_cases [of "const_range (lower ?o)" "const_range (lower len - 1)"] ok(1)
      by (simp add: range_ok_def isBottom_def const_range_def mk_range_def)
    then show ?thesis using True sat_less(1) [OF l1(2), of "lower ?o + (lower len - 1)"]
      by (auto simp: memop_must_def Let_def)
  qed (auto simp: memop_must_def Let_def)
  have m: "memop_access buf len = (if isSubset ?a ?v then Some None else map_option (\<lambda>must. Some (?a, ?v, must)) (memop_must ?o len ?v))"
    using l1 add by (simp add: memop_access_def chk_in64 Let_def)
  have acc: "0 \<le> off + i \<and> off + i < ?c"
    if s: "isSubset ?a ?v" and o: "off \<in> gam ?o" and n: "n \<in> gam len" and i: "0 \<le> i" "i < n" for off n i
  proof -
    have a: "0 \<le> sat (lower ?o)" "sat (upper ?o + (upper len - 1)) \<le> ?c - 1" using s by (simp_all add: isSubset_def)
    have b: "?c - 1 < rINF" using assms(1,2) by (simp add: in64_def)
    have "0 \<le> lower ?o" using a(1) sat_id [OF ok(1)] by simp
    moreover have "upper ?o + (upper len - 1) \<le> ?c - 1" using sat_le(1) [OF _ b a(2)] assms(1) by simp
    ultimately show ?thesis using o n i by auto
  qed
  have bad: "\<exists>i. 0 \<le> i \<and> i < n \<and> \<not> (0 \<le> off + i \<and> off + i < ?c)"
    if t: "memop_must ?o len ?v = Some True" and o: "off \<in> gam ?o" and n: "n \<in> gam len" "0 < n" for off n
  proof -
    have "off + (n - 1) > ?c - 1" using must t o n by auto
    then show ?thesis using n(2) by (intro exI [of _ "n - 1"]) auto
  qed
  show ?thesis using m must acc bad by (auto simp del: in_gam split: if_splits)
qed

lemma memop_access_witness:
  "memop_access \<lparr>bb_capacity = 16, bb_offset = mk_range 4 8, bb_isHeap = False\<rparr> (mk_range 1 8) = Some None
    \<and> 0 \<le> (8 :: int) + 7 \<and> (8 :: int) + 7 < 16
    \<and> (\<exists>i. 0 \<le> i \<and> i < (13 :: int) \<and> \<not> (0 \<le> 4 + i \<and> 4 + i < 16))"
proof -
  let ?b = "\<lparr>bb_capacity = 16, bb_offset = mk_range 4 8, bb_isHeap = False\<rparr>"
  have e: "memop_access ?b (mk_range 1 8) = Some None" "memop_access ?b (mk_range 13 20) = Some (Some (mk_range 4 27, mk_range 0 15, True))"
    by (simp_all add: memop_access_def memop_must_def chk_def range_add_def safeAdd_def isBottom_def isSubset_def bounds_defs)
  have "\<forall>off\<in>gam (bb_offset ?b). \<forall>n\<in>gam (mk_range 1 8). \<forall>i. 0 \<le> i \<and> i < n \<longrightarrow> 0 \<le> off + i \<and> off + i < bb_capacity ?b"
    using memop_access_correct [of ?b "mk_range 1 8"] e(1) by (simp add: range_ok_def in64_def bounds_defs isBottom_def)
  then have "0 \<le> (8 :: int) + 7 \<and> (8 :: int) + 7 < 16" by simp
  moreover have "\<forall>off\<in>gam (bb_offset ?b). \<forall>n\<in>gam (mk_range 13 20). 0 < n \<longrightarrow> (\<exists>i. 0 \<le> i \<and> i < n \<and> \<not> (0 \<le> off + i \<and> off + i < bb_capacity ?b))"
    using memop_access_correct [of ?b "mk_range 13 20"] e(2) by (simp add: range_ok_def in64_def bounds_defs isBottom_def)
  then have "\<exists>i. 0 \<le> i \<and> i < (13 :: int) \<and> \<not> (0 \<le> 4 + i \<and> 4 + i < 16)"
    by (auto dest: bspec [of _ _ 4] bspec [of _ _ 13])
  ultimately show ?thesis using e(1) by blast
qed

section \<open>Symbolic sizes\<close>

lemma foldl_min: "foldl min k ks \<in> set (k # ks) \<and> (\<forall>x\<in>set (k # ks). foldl min k ks \<le> x)" for k :: int
proof (induction ks arbitrary: k)
  case (Cons a ks)
  show ?case using Cons.IH [of "min k a"] by (auto simp: min_def split: if_splits)
qed simp

lemma foldl_max: "foldl max k ks \<in> set (k # ks) \<and> (\<forall>x\<in>set (k # ks). x \<le> foldl max k ks)" for k :: int
proof (induction ks arbitrary: k)
  case (Cons a ks)
  show ?case using Cons.IH [of "max k a"] by (auto simp: max_def split: if_splits)
qed simp

lemma alloc_bounds_None: "alloc_bounds b ts = None \<longleftrightarrow> (\<forall>a\<in>set ts. at_base a \<noteq> b)"
proof -
  have "alloc_bounds b ts = None \<longleftrightarrow> filter (\<lambda>a. at_base a = b) ts = []"
    by (cases "filter (\<lambda>a. at_base a = b) ts") (simp_all add: alloc_bounds_def)
  then show ?thesis by (simp add: filter_empty_conv)
qed

lemma alloc_bounds_Some:
  assumes "alloc_bounds b ts = Some (mn, mx)"
  shows "\<exists>a\<in>set ts. at_base a = b \<and> at_offset a = mn" "\<exists>a\<in>set ts. at_base a = b \<and> at_offset a = mx"
    "a \<in> set ts \<Longrightarrow> at_base a = b \<Longrightarrow> mn \<le> at_offset a \<and> at_offset a \<le> mx"
proof -
  obtain k ks where e: "map at_offset (filter (\<lambda>a. at_base a = b) ts) = k # ks" and m: "mn = foldl min k ks" "mx = foldl max k ks"
    using assms by (auto simp: alloc_bounds_def split: list.splits)
  have s: "set (k # ks) = at_offset ` {a \<in> set ts. at_base a = b}" unfolding e [symmetric] by simp
  show "\<exists>a\<in>set ts. at_base a = b \<and> at_offset a = mn" "\<exists>a\<in>set ts. at_base a = b \<and> at_offset a = mx"
    using foldl_min [of k ks] foldl_max [of k ks] unfolding s m by auto
  show "mn \<le> at_offset a \<and> at_offset a \<le> mx" if "a \<in> set ts" "at_base a = b"
    using foldl_min [of k ks] foldl_max [of k ks] that unfolding s m by auto
qed

text \<open>The pairs of a copied length and an allocated size with the same symbol, and by how much the copy that
  starts at \<open>off\<close> exceeds the allocation.\<close>

definition term_pairs :: "affine_term list \<Rightarrow> affine_term list \<Rightarrow> (affine_term \<times> affine_term) set" where
  "term_pairs allocTerms copyTerms = {(c, a). c \<in> set copyTerms \<and> a \<in> set allocTerms \<and> at_base c = at_base a \<and> at_base c \<noteq> []}"

definition excess :: "int \<Rightarrow> affine_term \<times> affine_term \<Rightarrow> int" where
  "excess off q = off + at_offset (fst q) - at_offset (snd q)"

definition shortfall_ok :: "int \<Rightarrow> (affine_term \<times> affine_term) set \<Rightarrow> shortfall \<Rightarrow> bool" where
  "shortfall_ok off P f = ((sf_matched f \<longleftrightarrow> P \<noteq> {}) \<and> (sf_any f \<longleftrightarrow> (\<exists>q\<in>P. excess off q > 0))
    \<and> (sf_all f \<longleftrightarrow> (\<forall>q\<in>P. excess off q > 0)) \<and> (\<forall>q\<in>P. excess off q \<le> sf_over f)
    \<and> (if sf_any f then \<exists>q\<in>P. excess off q = sf_over f else sf_over f = 0))"

lemma copy_term_ok:
  assumes f: "shortfall_ok off P f" and g: "copy_term off A c f = Some g"
  shows "shortfall_ok off (P \<union> term_pairs A [c]) g"
proof (cases "at_base c = [] \<or> alloc_bounds (at_base c) A = None")
  case True
  then have "g = f" using g by (auto simp: copy_term_def split: if_splits)
  moreover have "term_pairs A [c] = {}" using True alloc_bounds_None by (auto simp: term_pairs_def)
  ultimately show ?thesis using f by simp
next
  case False
  then obtain mn mx where b: "alloc_bounds (at_base c) A = Some (mn, mx)" and ne: "at_base c \<noteq> []" by auto
  let ?Q = "term_pairs A [c]"
  let ?k = "off + at_offset c"
  obtain a1 a2 where a: "(c, a1) \<in> ?Q" "at_offset a1 = mn" "(c, a2) \<in> ?Q" "at_offset a2 = mx"
  proof -
    obtain x y where "x \<in> set A" "at_base x = at_base c" "at_offset x = mn" "y \<in> set A" "at_base y = at_base c" "at_offset y = mx"
      using alloc_bounds_Some(1,2) [OF b] by blast
    then show ?thesis using that [of x y] ne by (simp add: term_pairs_def)
  qed
  have e: "excess off (c, a1) = ?k - mn" "excess off (c, a2) = ?k - mx" using a by (simp_all add: excess_def)
  have q: "?k - mx \<le> excess off q \<and> excess off q \<le> ?k - mn" if "q \<in> ?Q" for q
    using that alloc_bounds_Some(3) [OF b] by (auto simp: term_pairs_def excess_def)
  have any: "(\<exists>q\<in>?Q. excess off q > 0) \<longleftrightarrow> ?k > mn" using a(1) e(1) q by force
  have all: "(\<forall>q\<in>?Q. excess off q > 0) \<longleftrightarrow> ?k > mx" using a(3) e(2) q by force
  show ?thesis
  proof (cases "?k > mn")
    case True
    then have g': "g = f\<lparr>sf_matched := True, sf_any := True, sf_over := max (sf_over f) (?k - mn), sf_all := (sf_all f \<and> ?k > mx)\<rparr>"
      using g b ne by (auto simp: copy_term_def bind_eq_Some_conv split: if_splits)
    have "sf_over f \<ge> 0" using f by (fastforce simp: shortfall_ok_def split: if_splits)
    have w: "\<exists>q\<in>P \<union> ?Q. excess off q = max (sf_over f) (?k - mn)"
    proof (cases "sf_over f \<le> ?k - mn")
      case True
      then show ?thesis using a(1) e(1) by (intro bexI [of _ "(c, a1)"]) auto
    next
      case False
      then have "sf_any f" using f True by (auto simp: shortfall_ok_def split: if_splits)
      then show ?thesis using f False by (auto simp: shortfall_ok_def)
    qed
    have le: "\<forall>q\<in>P \<union> ?Q. excess off q \<le> max (sf_over f) (?k - mn)"
      using f q by (fastforce simp: shortfall_ok_def)
    show ?thesis using f g' a(1) any all True w le by (auto simp: shortfall_ok_def)
  next
    case False
    then have g': "g = f\<lparr>sf_matched := True, sf_all := (sf_all f \<and> ?k > mx)\<rparr>"
      using g b ne by (auto simp: copy_term_def bind_eq_Some_conv split: if_splits)
    have "sf_over f \<ge> 0" using f by (fastforce simp: shortfall_ok_def split: if_splits)
    then have le: "\<forall>q\<in>P \<union> ?Q. excess off q \<le> sf_over f" using f any False by (fastforce simp: shortfall_ok_def)
    show ?thesis using f g' a(1) any all False le by (auto simp: shortfall_ok_def split: if_splits)
  qed
qed

lemma compare_terms_ok: "compare_terms off A C = Some f \<Longrightarrow> shortfall_ok off (term_pairs A C) f"
proof -
  have u: "P \<union> term_pairs A [c] \<union> term_pairs A cs = P \<union> term_pairs A (c # cs)" for P c cs
    by (auto simp: term_pairs_def)
  have "fold_opt (copy_term off A) cs f = Some g \<Longrightarrow> shortfall_ok off P f \<Longrightarrow> shortfall_ok off (P \<union> term_pairs A cs) g" for cs f g P
  proof (induction cs arbitrary: f P)
    case Nil
    then show ?case by (simp add: term_pairs_def)
  next
    case (Cons c cs)
    then obtain h where h: "copy_term off A c f = Some h" "fold_opt (copy_term off A) cs h = Some g"
      by (auto simp: bind_eq_Some_conv)
    show ?case using Cons.IH [OF h(2) copy_term_ok [OF Cons.prems(2) h(1)]] by (simp add: u)
  qed
  moreover have "shortfall_ok off {} shortfall_new" by (simp add: shortfall_ok_def shortfall_new_def)
  ultimately show "compare_terms off A C = Some f \<Longrightarrow> shortfall_ok off (term_pairs A C) f"
    unfolding compare_terms_def by fastforce
qed

lemma affine_form: "affine_model p rho sig mem \<Longrightarrow> analyzeAffine p (Some x) = Some ts \<Longrightarrow> length ts < MAX_AFFINE_TERMS \<Longrightarrow>
    \<exists>t\<in>set ts. rho x = sig (at_base t) + at_offset t"
  using analyzeAffine_call [of p rho sig mem MAX_AFFINE_DEPTH]
  unfolding affine_call_def analyzeAffine_def covers_def by auto

text \<open>C13: The symbolic check compares sizes. In an execution where the forms of the allocated size and of
  the copied length hold, a report is justified by a pair of forms with the same symbol whose copy
  exceeds its allocation, and it is certain exactly if every pair with the same symbol is of that kind. If in
  addition all forms have one symbol, a certain report means that in that execution the copy of
  \<open>rho lenVar\<close> bytes from \<open>off\<close> exceeds the allocated \<open>rho (sizeVar asz)\<close> bytes, and no report means that
  it does not.\<close>

theorem symbolic_check_correct:
  assumes f: "compare_terms off A C = Some f"
    and forms: "analyzeAffine p (Some size_var) = Some A" "analyzeAffine p (Some len_var) = Some C"
    and run: "affine_model p rho sig mem"
  shows "(sf_matched f \<and> sf_any f \<longleftrightarrow> (\<exists>c\<in>set C. \<exists>a\<in>set A. at_base c = at_base a \<and> at_base c \<noteq> []
        \<and> (\<forall>sig :: string \<Rightarrow> int. off + (sig (at_base c) + at_offset c) > sig (at_base a) + at_offset a)))
    \<and> (sf_all f \<longleftrightarrow> (\<forall>c\<in>set C. \<forall>a\<in>set A. at_base c = at_base a \<and> at_base c \<noteq> [] \<longrightarrow> off + at_offset c > at_offset a))
    \<and> (length A < MAX_AFFINE_TERMS \<and> length C < MAX_AFFINE_TERMS \<and> (\<exists>b. b \<noteq> [] \<and> (\<forall>t\<in>set A \<union> set C. at_base t = b)) \<longrightarrow>
        (sf_all f \<longrightarrow> off + rho len_var > rho size_var) \<and> (\<not> sf_any f \<longrightarrow> off + rho len_var \<le> rho size_var))"
proof -
  have ok: "shortfall_ok off (term_pairs A C) f" by (rule compare_terms_ok [OF f])
  have s: "(\<forall>sig :: string \<Rightarrow> int. off + (sig (at_base c) + at_offset c) > sig (at_base a) + at_offset a) \<longleftrightarrow> excess off (c, a) > 0"
    if "at_base c = at_base a" for c a
    using that by (auto simp: excess_def)
  have 1: "sf_matched f \<and> sf_any f \<longleftrightarrow> (\<exists>q\<in>term_pairs A C. excess off q > 0)" using ok by (auto simp: shortfall_ok_def)
  have 2: "sf_all f \<longleftrightarrow> (\<forall>q\<in>term_pairs A C. excess off q > 0)" using ok by (simp add: shortfall_ok_def)
  have 3: "(sf_all f \<longrightarrow> off + rho len_var > rho size_var) \<and> (\<not> sf_any f \<longrightarrow> off + rho len_var \<le> rho size_var)"
    if l: "length A < MAX_AFFINE_TERMS" "length C < MAX_AFFINE_TERMS" and b: "b \<noteq> []" "\<forall>t\<in>set A \<union> set C. at_base t = b" for b
  proof -
    obtain a where a: "a \<in> set A" "rho size_var = sig (at_base a) + at_offset a"
      using affine_form [OF run forms(1) l(1)] by blast
    obtain c where c: "c \<in> set C" "rho len_var = sig (at_base c) + at_offset c"
      using affine_form [OF run forms(2) l(2)] by blast
    have "(c, a) \<in> term_pairs A C" "at_base a = b" "at_base c = b" using a(1) c(1) b by (auto simp: term_pairs_def)
    moreover have "\<not> sf_any f \<longleftrightarrow> (\<forall>q\<in>term_pairs A C. \<not> excess off q > 0)" using ok by (auto simp: shortfall_ok_def)
    ultimately show ?thesis using 2 a(2) c(2) by (fastforce simp: excess_def)
  qed
  have 4: "(\<exists>q\<in>term_pairs A C. excess off q > 0) \<longleftrightarrow> (\<exists>c\<in>set C. \<exists>a\<in>set A. at_base c = at_base a \<and> at_base c \<noteq> []
        \<and> (\<forall>sig :: string \<Rightarrow> int. off + (sig (at_base c) + at_offset c) > sig (at_base a) + at_offset a))"
    using s by (fastforce simp: term_pairs_def)
  have 5: "(\<forall>q\<in>term_pairs A C. excess off q > 0) \<longleftrightarrow>
      (\<forall>c\<in>set C. \<forall>a\<in>set A. at_base c = at_base a \<and> at_base c \<noteq> [] \<longrightarrow> off + at_offset c > at_offset a)"
    by (auto simp: term_pairs_def excess_def)
  show ?thesis using 1 2 3 4 5 by blast
qed

lemma symbolic_check_witness:
  "\<exists>f. compare_terms 0 [affine ''M(O1)'' 0] [affine ''M(O1)'' 3] = Some f \<and> sf_all f \<and> sf_over f = 3
    \<and> 0 + ex_rho 3 > ex_rho 2"
proof -
  have f: "compare_terms 0 [affine ''M(O1)'' 0] [affine ''M(O1)'' 3]
      = Some \<lparr>sf_matched = True, sf_any = True, sf_all = True, sf_over = 3\<rparr>"
    by (simp add: compare_terms_def copy_term_def alloc_bounds_def affine_def shortfall_new_def chk_def bounds_defs)
  have v: "analyzeAffine affine_ex (Some 2) = Some [affine ''M(O1)'' 0]" "analyzeAffine affine_ex (Some 3) = Some [affine ''M(O1)'' 3]"
    by code_simp+
  have b: "\<exists>b. b \<noteq> [] \<and> (\<forall>t\<in>set [affine ''M(O1)'' 0] \<union> set [affine ''M(O1)'' 3]. at_base t = b)"
    by (intro exI [of _ "''M(O1)''"]) (simp add: affine_def)
  have "0 + ex_rho 3 > ex_rho 2"
    using symbolic_check_correct [OF f v affine_ex_model] b by (simp add: MAX_AFFINE_TERMS_def)
  with f show ?thesis by simp
qed

end
