(* ===== verification/BofPhases.thy ===== *)
theory BofPhases
  imports BofPropagate BofMemOps
begin

text \<open>
  The phases of the buffer overflow checker around the fixpoint of theory BofPropagate: the seeds and the bindings of formals
  before it, the checks of memory functions after it. \<open>runOnModule\<close> returns.

  The locale \<open>context_free_client\<close> is what the phases need of the range analysis, \<open>guarded_client\<close> adds the ranges that
  guards give. Both are interpreted on the analysis, here and in theory BofNoMiss.
\<close>

section \<open>The range analysis under the checker\<close>

text \<open>The state of the analysis that queries keep, at any context.\<close>

definition ra_ok :: "svfir \<Rightarrow> nat \<Rightarrow> nat set \<Rightarrow> ra \<Rightarrow> bool" where
  "ra_ok p n V a = (finite V \<and> closed p V \<and> facts_ok p \<and> card V < n \<and> index_in V a
    \<and> (\<forall>ctx x. range_ok (getCachedVarRange ctx x a)) \<and> (\<forall>ctx x r. boundFormal ctx x a = Some r \<longrightarrow> range_ok r))"

lemma getCached_set_any:
  "getCachedVarRange c y (setCachedVarRange ctx x r s) = (if c = ctx \<and> y = x then r else getCachedVarRange c y s)"
  by (auto simp: getCachedVarRange_def setCachedVarRange_def getVarRange_def split: option.split)

lemma boundFormal_bindings: "formalBindings t = formalBindings s \<Longrightarrow> boundFormal c y t = boundFormal c y s"
  by (cases c) (simp_all add: boundFormal_def)

lemma buildGuardIndex_other [simp]:
  "bufferRanges (buildGuardIndex p s) = bufferRanges s" "formalBindings (buildGuardIndex p s) = formalBindings s"
  "guardEnabled (buildGuardIndex p s) = guardEnabled s"
  by (simp_all add: buildGuardIndex_def)

lemma setCached_buffers [simp]: "bufferRanges (setCachedVarRange ctx x r s) = bufferRanges s"
  by (simp add: setCachedVarRange_def split: option.split)

text \<open>What a query at \<open>ctx\<close> leaves: everything but its own cache and the guard index.\<close>

definition ra_same :: "nat option \<Rightarrow> ra \<Rightarrow> ra \<Rightarrow> bool" where
  "ra_same ctx a b = (bufferRanges b = bufferRanges a \<and> formalBindings b = formalBindings a \<and> guardEnabled b = guardEnabled a
    \<and> (\<forall>c y. c \<noteq> ctx \<longrightarrow> getCachedVarRange c y b = getCachedVarRange c y a))"

lemma out_ok_conj: "out_ok E Q m \<Longrightarrow> out_ok F R m \<Longrightarrow> (\<And>a s. Q a s \<Longrightarrow> R a s \<Longrightarrow> P a s) \<Longrightarrow> out_ok E P m"
  by (cases m) auto

lemma query_keeps:
  assumes a: "ra_ok p n V a" and x: "x \<in> V"
  shows "out_ok (\<lambda>e. e \<noteq> OutOfFuel) (\<lambda>r b. ra_ok p n V b \<and> range_ok r \<and> ra_same ctx a b) (analyzeVarRange p n ctx x d a)"
proof -
  have cl: "closed p V" and f: "facts_ok p" "finite V" "card V < n" "index_in V a" using a by (simp_all add: ra_ok_def)
  have "card (unanalysed p ctx V a) < n"
    using card_mono [OF f(2), of "unanalysed p ctx V a"] f(3) by (simp add: unanalysed_def)
  then have t: "out_ok (\<lambda>e. e \<noteq> OutOfFuel) (\<lambda>r s. index_in V s \<and> unanalysed p ctx V s \<subseteq> unanalysed p ctx V a) (analyzeVarRange p n ctx x d a)"
    by (intro analyzeVarRange_terminates_upto [OF f(2) cl x]) (use f(4) in \<open>auto simp: unanalysed_def\<close>)
  have "out_ok (\<lambda>_. True) (\<lambda>r b. (ra_ok p n V b \<and> ra_same ctx a b) \<and> range_ok r) (analyzeVarRange p n ctx x d a)"
  proof (rule analyzeVarRange_keeps [OF cl f(1), where I = "\<lambda>b. ra_ok p n V b \<and> ra_same ctx a b"])
    show "ra_ok p n V (buildGuardIndex p s) \<and> ra_same ctx a (buildGuardIndex p s)" if "ra_ok p n V s \<and> ra_same ctx a s" for s
      using that buildGuardIndex_in [OF cl] boundFormal_bindings [of "buildGuardIndex p s" s]
      by (auto simp: ra_ok_def ra_same_def)
    show "ra_ok p n V (setCachedVarRange ctx y r s) \<and> ra_same ctx a (setCachedVarRange ctx y r s)"
      if "ra_ok p n V s \<and> ra_same ctx a s" "range_ok r" for s y r
      using that boundFormal_bindings [of "setCachedVarRange ctx y r s" s]
      by (auto simp: ra_ok_def ra_same_def getCached_set_any)
  qed (use x a in \<open>auto simp: ra_ok_def ra_same_def\<close>)
  from t this show ?thesis by (rule out_ok_conj) simp
qed

text \<open>The values of the variables under each context, with the guard narrowing off.\<close>

definition values_ok :: "svfir \<Rightarrow> nat set \<Rightarrow> nat option set \<Rightarrow> (nat option \<Rightarrow> nat \<Rightarrow> int set) \<Rightarrow> ra \<Rightarrow> bool" where
  "values_ok p V C R a = ((\<forall>ctx x. \<forall>v\<in>R ctx x. in64 v) \<and> \<not> guardEnabled a
    \<and> (\<forall>ctx\<in>C. ra_model p ctx V (\<lambda>x. boundFormal ctx x a) (R ctx) \<and> ra_sound ctx V (\<lambda>x. boundFormal ctx x a) (R ctx) a))"

lemma query_sound:
  assumes a: "ra_ok p n V a" and v: "values_ok p V C R a" and x: "x \<in> V" and ctx: "ctx \<in> C"
  shows "out_ok (\<lambda>e. e \<noteq> OutOfFuel) (\<lambda>r b. ra_ok p n V b \<and> values_ok p V C R b \<and> bufferRanges b = bufferRanges a \<and> range_ok r
    \<and> R ctx x \<subseteq> gam r) (analyzeVarRange p n ctx x d a)"
proof -
  let ?B = "\<lambda>x. boundFormal ctx x a"
  have m: "ra_model p ctx V ?B (R ctx)" "ra_sound ctx V ?B (R ctx) a" using v ctx by (simp_all add: values_ok_def)
  show ?thesis
  proof (rule out_ok_conj [OF query_keeps [OF a x] analyzeVarRange_sound_upto [OF m(1) x m(2)]])
    fix r b
    assume s: "ra_ok p n V b \<and> range_ok r \<and> ra_same ctx a b" and h: "ra_sound ctx V ?B (R ctx) b \<and> sound_result (R ctx) x r"
    then have f: "(\<lambda>x. boundFormal c x b) = (\<lambda>x. boundFormal c x a)" for c
      using boundFormal_bindings by (auto simp: ra_same_def fun_eq_iff)
    have "ra_sound c V (\<lambda>x. boundFormal c x a) (R c) b" if "c \<in> C" for c
    proof (cases "c = ctx")
      case False
      then show ?thesis using v that s fun_cong [OF f [of c]] by (simp add: values_ok_def ra_sound_def ra_same_def)
    qed (use h in simp)
    then have "values_ok p V C R b" using v s by (simp add: values_ok_def f ra_same_def)
    then show "ra_ok p n V b \<and> values_ok p V C R b \<and> bufferRanges b = bufferRanges a \<and> range_ok r \<and> R ctx x \<subseteq> gam r"
      using h s by (simp add: sound_result_def ra_same_def)
  qed
qed

text \<open>The fixpoint runs on the analysis with nothing known of the values, and on a value model.\<close>

interpretation unvalued: range_client p n V C hp "\<lambda>a. flow_closed p V C \<and> ra_ok (pag p) n V a" "\<lambda>_ _. {}" for p n V C hp
proof
  fix a x and ctx :: "nat option"
  assume "flow_closed p V C \<and> ra_ok (pag p) n V a" "x \<in> V"
  then show "out_ok (\<lambda>e. e \<noteq> OutOfFuel) (\<lambda>r b. (flow_closed p V C \<and> ra_ok (pag p) n V b) \<and> bufferRanges b = bufferRanges a \<and> range_ok r \<and> {} \<subseteq> gam r)
      (analyzeVarRange (pag p) n ctx x 0 a)"
    by (intro out_ok_mono [OF query_keeps]) (auto simp: ra_same_def)
qed simp_all

interpretation valued: range_client p n V C hp "\<lambda>a. flow_closed p V C \<and> ra_ok (pag p) n V a \<and> values_ok (pag p) V C R a" R for p n V C hp R
proof
  fix a x and ctx :: "nat option"
  assume "flow_closed p V C \<and> ra_ok (pag p) n V a \<and> values_ok (pag p) V C R a" "x \<in> V" "ctx \<in> C"
  then show "out_ok (\<lambda>e. e \<noteq> OutOfFuel) (\<lambda>r b. (flow_closed p V C \<and> ra_ok (pag p) n V b \<and> values_ok (pag p) V C R b)
      \<and> bufferRanges b = bufferRanges a \<and> range_ok r \<and> R ctx x \<subseteq> gam r) (analyzeVarRange (pag p) n ctx x 0 a)"
    by (intro out_ok_mono [OF query_sound]) auto
qed (auto simp: values_ok_def)

section \<open>Well-formed programs\<close>

text \<open>Stack objects are not on the heap, and results of allocations are not stack objects.\<close>

definition heap_of :: "bof_program \<Rightarrow> nat \<Rightarrow> bool" where
  "heap_of p x = (case memObject p x of StackObjVar t k \<Rightarrow> False | _ \<Rightarrow> True)"

definition bof_closed :: "bof_program \<Rightarrow> nat \<Rightarrow> nat set \<Rightarrow> nat option set \<Rightarrow> bool" where
  "bof_closed p n V C = (flow_closed p V C \<and> closed (pag p) V \<and> facts_ok (pag p) \<and> card V < n
    \<and> (\<forall>a\<in>set (addrStmts p). addr_src a \<in> V \<and> addr_dst a \<in> V)
    \<and> (\<forall>e\<in>set (callStmts p). pe_lhs e \<in> V \<and> pe_rhs e \<in> V \<and> (pe_isCall e \<longrightarrow> heap_of p (pe_lhs e)))
    \<and> (\<forall>nd c. callNode p nd = Some c \<longrightarrow> set (cn_args c) \<subseteq> V)
    \<and> (\<forall>nd\<in>set (icfgNodes p). callNode p nd \<noteq> None \<longrightarrow> Some nd \<in> C))"

lemma bof_closedD:
  assumes "bof_closed p n V C"
  shows "flow_closed p V C" "closed (pag p) V" "facts_ok (pag p)" "card V < n" "finite V" "finite C" "None \<in> C"
    "a \<in> set (addrStmts p) \<Longrightarrow> addr_src a \<in> V" "a \<in> set (addrStmts p) \<Longrightarrow> addr_dst a \<in> V"
    "e \<in> set (callStmts p) \<Longrightarrow> pe_lhs e \<in> V" "e \<in> set (callStmts p) \<Longrightarrow> pe_rhs e \<in> V"
    "e \<in> set (callStmts p) \<Longrightarrow> pe_isCall e \<Longrightarrow> heap_of p (pe_lhs e)"
    "callNode p nd = Some c \<Longrightarrow> set (cn_args c) \<subseteq> V"
    "nd \<in> set (icfgNodes p) \<Longrightarrow> callNode p nd \<noteq> None \<Longrightarrow> Some nd \<in> C"
  using assms unfolding bof_closed_def flow_closed_def by blast+

section \<open>Before the fixpoint\<close>

text \<open>What is queued covers what is held, and nothing is reported.\<close>

definition all_queued :: "bof \<Rightarrow> bool" where
  "all_queued s = (\<forall>k r. flowState s k = Some r \<longrightarrow> (\<exists>nd\<in>set (flowQueue s). key_of nd = k \<and> fn_offset nd = r))"

definition ready :: "bof_program \<Rightarrow> nat set \<Rightarrow> nat option set \<Rightarrow> (ra \<Rightarrow> bool) \<Rightarrow> bof \<Rightarrow> bool" where
  "ready p V C I s = (flow_inv V C (heap_of p) I s \<and> all_queued s \<and> bugLoc s = {} \<and> pendingReports s = [] \<and> fieldSafeVars s = {})"

definition holds_more :: "bof \<Rightarrow> bof \<Rightarrow> bool" where
  "holds_more s t = (\<forall>k v. holds s k v \<longrightarrow> holds t k v)"

lemma holds_more_refl [simp]: "holds_more s s"
  by (simp add: holds_more_def)

lemma holds_more_trans: "holds_more s t \<Longrightarrow> holds_more t u \<Longrightarrow> holds_more s u"
  by (simp add: holds_more_def)

lemma ready_same:
  assumes "ready p V C I s" "I (rangeAnalysis t)" "flowState t = flowState s" "flowQueue t = flowQueue s"
    "bugLoc t = bugLoc s" "pendingReports t = pendingReports s" "fieldSafeVars t = fieldSafeVars s"
  shows "ready p V C I t \<and> holds_more s t"
  using assms by (simp add: ready_def flow_inv_def all_queued_def holds_more_def holds_def)

lemma ready_ra: "ready p V C I s \<Longrightarrow> I (rangeAnalysis s)"
  by (simp add: ready_def flow_inv_def)

lemma enqueue_same [simp]:
  "bugLoc (enqueue base parent off heap depth ctx s) = bugLoc s"
  "pendingReports (enqueue base parent off heap depth ctx s) = pendingReports s"
  "fieldSafeVars (enqueue base parent off heap depth ctx s) = fieldSafeVars s"
  by (simp_all add: enqueue_def Let_def)

lemma queues_all_queued: "queues V C s t \<Longrightarrow> all_queued s \<Longrightarrow> all_queued t"
proof -
  assume q: "queues V C s t" and s: "all_queued s"
  obtain new where new: "flowQueue t = flowQueue s @ new"
      "\<forall>k r. flowState t k = Some r \<longrightarrow> flowState s k = Some r \<or> (\<exists>nd\<in>set new. key_of nd = k \<and> fn_offset nd = r)"
    using q unfolding queues_def by blast
  then show ?thesis using s unfolding all_queued_def new(1) set_append by blast
qed

lemma zero_range: "range_ok (mk_range 0 0)" "0 \<in> gam (mk_range 0 0)"
  by (simp_all add: range_ok_def in64_def bounds_defs)

lemma enqueue_ready:
  assumes s: "ready p V C I s" and V: "finite V" "finite C" and k: "parent \<in> V" "base \<in> V" "ctx \<in> C" and h: "heap = heap_of p parent"
  shows "ready p V C I (enqueue base parent (mk_range 0 0) heap depth ctx s) \<and> holds_more s (enqueue base parent (mk_range 0 0) heap depth ctx s)
    \<and> holds (enqueue base parent (mk_range 0 0) heap depth ctx s) (parent, base, ctx) 0"
proof -
  have i: "flow_inv V C (heap_of p) I s" using s by (simp add: ready_def)
  let ?t = "enqueue base parent (mk_range 0 0) heap depth ctx s"
  note e = enqueue_ok [OF i V k zero_range(1) h, of depth]
  then have "advances V C s ?t" by blast
  then have "all_queued ?t" "holds_more s ?t"
    using s queues_all_queued by (auto simp: advances_def ready_def flow_grows_def holds_more_def)
  then show ?thesis using e zero_range(2) s unfolding ready_def by simp
qed

text \<open>The contexts of a seed.\<close>

definition seeded_ctxs :: "bof_program \<Rightarrow> nat option \<Rightarrow> nat option set" where
  "seeded_ctxs p fn = insert None (case fn of None \<Rightarrow> {} | Some f \<Rightarrow> Some ` set (seed_contexts p f))"

lemma seed_contexts_in: "bof_closed p n V C \<Longrightarrow> nd \<in> set (seed_contexts p f) \<Longrightarrow> Some nd \<in> C"
  using bof_closedD(14) [of p n V C nd] by (auto simp: seed_contexts_def dest!: in_set_takeD split: option.splits)

lemma seed_fold_ready:
  assumes V: "finite V" "finite C" and k: "parent \<in> V" "base \<in> V" and h: "heap = heap_of p parent"
  shows "ready p V C I s \<Longrightarrow> Some ` set nds \<subseteq> C \<Longrightarrow>
    ready p V C I (fold (\<lambda>nd. enqueue base parent (mk_range 0 0) heap 0 (Some nd)) nds s)
    \<and> holds_more s (fold (\<lambda>nd. enqueue base parent (mk_range 0 0) heap 0 (Some nd)) nds s)
    \<and> (\<forall>nd\<in>set nds. holds (fold (\<lambda>nd. enqueue base parent (mk_range 0 0) heap 0 (Some nd)) nds s) (parent, base, Some nd) 0)"
proof (induction nds arbitrary: s)
  case (Cons nd nds)
  let ?t = "enqueue base parent (mk_range 0 0) heap 0 (Some nd) s"
  have t: "ready p V C I ?t" "holds_more s ?t" "holds ?t (parent, base, Some nd) 0"
    using enqueue_ready [OF Cons.prems(1) V k _ h, of "Some nd" 0] Cons.prems(2) by simp_all
  let ?u = "fold (\<lambda>nd. enqueue base parent (mk_range 0 0) heap 0 (Some nd)) nds ?t"
  have u: "ready p V C I ?u" "holds_more ?t ?u" "\<forall>nd\<in>set nds. holds ?u (parent, base, Some nd) 0"
    using Cons.IH [OF t(1)] Cons.prems(2) by simp_all
  have "holds ?u (parent, base, Some nd) 0" using u(2) t(3) by (simp add: holds_more_def)
  then show ?case using u holds_more_trans [OF t(2) u(2)] by simp
qed simp

lemma seed_ready:
  assumes p: "bof_closed p n V C" and s: "ready p V C I s" and k: "parent \<in> V" "base \<in> V" and h: "heap = heap_of p parent"
  shows "ready p V C I (seed_buffer p base parent heap fn s) \<and> holds_more s (seed_buffer p base parent heap fn s)
    \<and> (\<forall>ctx\<in>seeded_ctxs p fn. holds (seed_buffer p base parent heap fn s) (parent, base, ctx) 0)"
proof -
  note V = bof_closedD(5,6,7) [OF p]
  let ?t = "enqueue base parent (mk_range 0 0) heap 0 None s"
  have t: "ready p V C I ?t" "holds_more s ?t" "holds ?t (parent, base, None) 0"
    using enqueue_ready [OF s V(1,2) k V(3) h, of 0] by simp_all
  show ?thesis
  proof (cases fn)
    case None
    then show ?thesis using t by (simp add: seed_buffer_def seedBufferUnderCallContexts_def seeded_ctxs_def)
  next
    case (Some f)
    have c: "Some ` set (seed_contexts p f) \<subseteq> C" using seed_contexts_in [OF p] by blast
    let ?u = "fold (\<lambda>nd. enqueue base parent (mk_range 0 0) heap 0 (Some nd)) (seed_contexts p f) ?t"
    have u: "ready p V C I ?u" "holds_more ?t ?u" "\<forall>nd\<in>set (seed_contexts p f). holds ?u (parent, base, Some nd) 0"
      using seed_fold_ready [OF V(1,2) k h t(1) c] by simp_all
    have "holds ?u (parent, base, None) 0" using u(2) t(3) by (simp add: holds_more_def)
    then show ?thesis using Some u holds_more_trans [OF t(2) u(2)]
      by (simp add: seed_buffer_def seedBufferUnderCallContexts_def seeded_ctxs_def)
  qed
qed

lemma arg_in: "set xs \<subseteq> V \<Longrightarrow> \<not> i < 0 \<Longrightarrow> \<not> int (length xs) \<le> i \<Longrightarrow> xs ! nat i \<in> V"
  by (auto dest: subsetD [OF _ nth_mem])

text \<open>The objects whose size is known, and that the seeds of one are held.\<close>

definition known_object :: "bof_program \<Rightarrow> nat \<Rightarrow> bool" where
  "known_object p x = (case memObject p x of
      StackObjVar t k \<Rightarrow> tyKind p t \<noteq> SVFPointerTy \<and> (1 \<le> numOfFlattenElements p t \<or> 1 \<le> k)
    | HeapObjVar bytes \<Rightarrow> (case bytes of None \<Rightarrow> False | Some b \<Rightarrow> 1 \<le> b)
    | OtherObj \<Rightarrow> False)"

definition seed_done :: "bof_program \<Rightarrow> bof \<Rightarrow> addr_stmt \<Rightarrow> bool" where
  "seed_done p s a = (\<forall>nd. addr_node a = Some nd \<longrightarrow> \<not> ignoredSource p (sourceLoc p nd) \<longrightarrow> known_object p (addr_src a) \<longrightarrow>
    (\<forall>ctx\<in>seeded_ctxs p (nodeFun (pag p) nd). holds s (addr_src a, addr_dst a, ctx) 0))"

text \<open>What the phases around the fixpoint need of the range analysis: queries without a context, the ranges of buffers,
  the bindings of formals, and the ranges that guards give.\<close>

locale context_free_client =
  fixes p :: bof_program
    and n :: nat
    and V :: "nat set"
    and C :: "nat option set"
    and I :: "ra \<Rightarrow> bool"
  assumes closed_program: "I a \<Longrightarrow> bof_closed p n V C"
    and plain_query: "I a \<Longrightarrow> x \<in> V \<Longrightarrow>
      out_ok (\<lambda>e. e \<noteq> OutOfFuel) (\<lambda>r b. I b \<and> range_ok r) (analyzeVarRange (pag p) n None x 0 a)"
    and buffer: "I a \<Longrightarrow> I (setBufferRange b r a)"
    and bind: "I a \<Longrightarrow> range_ok r \<Longrightarrow> I (bindFormalRange (Some c) (Some f) r a)"
begin

definition leads :: "bof \<Rightarrow> bof \<Rightarrow> bool" where
  "leads s t = (ready p V C I t \<and> holds_more s t)"

lemma leads_trans: "leads s t \<Longrightarrow> leads t u \<Longrightarrow> leads s u"
  unfolding leads_def using holds_more_trans by blast

lemma ready_closed: "ready p V C I s \<Longrightarrow> bof_closed p n V C"
  using closed_program ready_ra by blast

lemma leads_ra: "ready p V C I s \<Longrightarrow> I b \<Longrightarrow> leads s (s\<lparr>rangeAnalysis := b\<rparr>)"
  unfolding leads_def by (rule ready_same) simp_all

lemma leads_refl: "ready p V C I s \<Longrightarrow> leads s s"
  by (simp add: leads_def)

lemma plain_query_ok:
  assumes s: "ready p V C I s" and x: "x \<in> V"
  shows "bof_ok (\<lambda>(r, t). leads s t \<and> range_ok r) (bof_query p n None x s)"
proof -
  have "out_ok (\<lambda>e. e \<noteq> OutOfFuel) (\<lambda>r b. I b \<and> range_ok r) (analyzeVarRange (pag p) n None x 0 (rangeAnalysis s))"
    by (rule plain_query [OF ready_ra [OF s] x])
  then show ?thesis using leads_ra [OF s]
    by (cases "analyzeVarRange (pag p) n None x 0 (rangeAnalysis s)") (auto simp: bof_query_def)
qed

lemma alloc_operands_in:
  assumes "alloc_args p c = Some y" "set (cn_args c) \<subseteq> V"
  shows "case y of Inl x \<Rightarrow> x \<in> V | Inr ab \<Rightarrow> fst ab \<in> V \<and> snd ab \<in> V"
  using assms by (auto simp: alloc_args_def alloc_operands_def Let_def arg_in split: bind_splits if_splits)

lemma alloc_size_ok:
  assumes s: "ready p V C I s" and c: "set (cn_args c) \<subseteq> V"
  shows "bof_ok (\<lambda>(r, t). leads s t) (analyzeAllocSize p n c s)"
proof (cases "alloc_args p c")
  case None
  then show ?thesis by (simp add: analyzeAllocSize_def leads_refl [OF s])
next
  case (Some y)
  note V = alloc_operands_in [OF Some c]
  show ?thesis
  proof (cases y)
    case (Inl x)
    then have "bof_ok (\<lambda>(r, t). leads s t) (bof_query p n None x s)"
      using V by (intro bof_ok_mono [OF plain_query_ok [OF s]]) auto
    then show ?thesis using Some Inl by (simp add: analyzeAllocSize_def)
  next
    case (Inr ab)
    have "bof_ok (\<lambda>(r, t). leads s t) (bof_then (bof_query p n None (fst ab) s) (\<lambda>(a, s1).
        bof_then (bof_query p n None (snd ab) s1) (\<lambda>(b, s2). bof_then (defined (range_mul a b)) (\<lambda>r. Inr (r, s2)))))"
    proof (rule bof_ok_then [OF plain_query_ok [OF s]], use V Inr in simp, clarify)
      fix a s1 assume 1: "leads s s1"
      then have "ready p V C I s1" by (simp add: leads_def)
      then show "bof_ok (\<lambda>(r, t). leads s t) (bof_then (bof_query p n None (snd ab) s1)
          (\<lambda>(b, s2). bof_then (defined (range_mul a b)) (\<lambda>r. Inr (r, s2))))"
        by (rule bof_ok_then [OF plain_query_ok]) (use V Inr leads_trans [OF 1] in \<open>auto intro: bof_ok_defined\<close>)
    qed
    then show ?thesis using Some Inr by (simp add: analyzeAllocSize_def)
  qed
qed

lemma leads_record: "leads s t \<Longrightarrow> leads s (recordAllocSizeSym p x y t)"
proof -
  assume t: "leads s t"
  have "leads t (recordAllocSizeSym p x y t)"
    unfolding leads_def by (rule ready_same) (use t ready_ra in \<open>auto simp: leads_def recordAllocSizeSym_def\<close>)
  then show ?thesis by (rule leads_trans [OF t])
qed

lemma record_ok:
  assumes s: "ready p V C I s" and c: "set (cn_args c) \<subseteq> V"
  shows "bof_ok (leads s) (record_operand p n x c s)"
proof -
  have "bof_ok (\<lambda>(y, t). leads s t) (getAllocSizeOperand p n c s)"
  proof (cases "alloc_args p c")
    case (Some y)
    note V = alloc_operands_in [OF Some c]
    show ?thesis
    proof (cases y)
      case (Inr ab)
      have "bof_ok (\<lambda>(y, t). leads s t) (bof_then (bof_query p n None (snd ab) s) (\<lambda>(elem, s1).
          Inr (Some \<lparr>sizeVar = fst ab, factor = (if isConstant elem \<and> lower elem > 0 then lower elem else 0), isElemMul = True\<rparr>, s1)))"
        by (rule bof_ok_then [OF plain_query_ok [OF s]]) (use V Inr in auto)
      then show ?thesis using Some Inr by (simp add: getAllocSizeOperand_def)
    qed (simp add: Some getAllocSizeOperand_def leads_refl [OF s])
  qed (simp add: getAllocSizeOperand_def leads_refl [OF s])
  then show ?thesis unfolding record_operand_def
    by (rule bof_ok_then) (auto simp: leads_record split: option.split)
qed


lemma seed_addr_ok:
  assumes s: "ready p V C I s" and a: "a \<in> set (addrStmts p)" and h: "heap = heap_of p (addr_src a)" and r: "I (snd r)"
  shows "bof_ok (\<lambda>t. leads s t \<and> (fst r \<longrightarrow> (\<forall>nd. addr_node a = Some nd \<longrightarrow>
      (\<forall>ctx\<in>seeded_ctxs p (nodeFun (pag p) nd). holds t (addr_src a, addr_dst a, ctx) 0)))) (seed_addr p a heap r s)"
proof -
  note cl = ready_closed [OF s]
  let ?s = "s\<lparr>rangeAnalysis := snd r\<rparr>"
  have l: "leads s ?s" by (rule leads_ra [OF s r])
  then have "ready p V C I ?s" by (simp add: leads_def)
  note seed = seed_ready [OF cl this bof_closedD(8,9) [OF cl] h, OF a a]
  show ?thesis
  proof (cases "addr_node a")
    case (Some nd)
    let ?t = "seed_buffer p (addr_dst a) (addr_src a) heap (nodeFun (pag p) nd) ?s"
    have "leads ?s ?t" and h: "\<forall>ctx\<in>seeded_ctxs p (nodeFun (pag p) nd). holds ?t (addr_src a, addr_dst a, ctx) 0"
      using seed [of "nodeFun (pag p) nd"] by (simp_all add: leads_def)
    then show ?thesis
      using Some l leads_trans [OF l] by (cases "fst r") (simp_all add: seed_addr_def asserted_def)
  next
    case None
    then show ?thesis using l by (simp add: seed_addr_def asserted_def Let_def)
  qed
qed

lemma stack_buffer: "analyzeBufferRange_stack fl k b a = r \<Longrightarrow> I a \<Longrightarrow> I (snd r) \<and> (fst r \<longleftrightarrow> 1 \<le> fl \<or> 1 \<le> k)"
  using buffer by (auto simp: analyzeBufferRange_stack_def split: if_splits)

lemma heap_buffer:
  "analyzeBufferRange_heap bytes b a = r \<Longrightarrow> I a \<Longrightarrow> I (snd r) \<and> (fst r \<longleftrightarrow> (case bytes of None \<Rightarrow> False | Some k \<Rightarrow> 1 \<le> k))"
  using buffer by (auto simp: analyzeBufferRange_heap_def split: option.splits if_splits)

lemma init_addr_ok:
  assumes s: "ready p V C I s" and a: "a \<in> set (addrStmts p)"
  shows "bof_ok (\<lambda>t. leads s t \<and> seed_done p t a) (init_addr p n a s)"
proof (cases "ignored_at p (addr_node a)")
  case True
  then show ?thesis using leads_refl [OF s] by (auto simp: init_addr_def ignored_at_def seed_done_def)
next
  case False
  note cl = ready_closed [OF s]
  show ?thesis
  proof (cases "memObject p (addr_src a)")
    case (StackObjVar t k)
    let ?r = "analyzeBufferRange_stack (numOfFlattenElements p t) k (addr_src a) (rangeAnalysis s)"
    note r = stack_buffer [OF refl ready_ra [OF s], of "numOfFlattenElements p t" k "addr_src a"]
    have "bof_ok (\<lambda>t. leads s t \<and> seed_done p t a) (seed_addr p a False ?r s)"
      by (rule bof_ok_mono [OF seed_addr_ok [OF s a]]) (use StackObjVar r in \<open>auto simp: heap_of_def seed_done_def known_object_def\<close>)
    then show ?thesis using False StackObjVar leads_refl [OF s] by (auto simp: init_addr_def seed_done_def known_object_def)
  next
    case (HeapObjVar bytes)
    have "bof_ok (\<lambda>t. leads s t \<and> seed_done p t a)
        (bof_then (case callNode p nd of None \<Rightarrow> Inr s | Some c \<Rightarrow> record_operand p n (addr_dst a) c s) (\<lambda>s1.
         seed_addr p a True (analyzeBufferRange_heap bytes (addr_src a) (rangeAnalysis s1)) s1))" for nd
    proof (rule bof_ok_then [where Q = "leads s"])
      show "bof_ok (leads s) (case callNode p nd of None \<Rightarrow> Inr s | Some c \<Rightarrow> record_operand p n (addr_dst a) c s)"
        using leads_refl [OF s] record_ok [OF s] bof_closedD(13) [OF cl] by (auto split: option.split)
    next
      fix s1 assume l: "leads s s1"
      then have s1: "ready p V C I s1" by (simp add: leads_def)
      note r = heap_buffer [OF refl ready_ra [OF s1], of bytes "addr_src a"]
      show "bof_ok (\<lambda>t. leads s t \<and> seed_done p t a) (seed_addr p a True (analyzeBufferRange_heap bytes (addr_src a) (rangeAnalysis s1)) s1)"
        by (rule bof_ok_mono [OF seed_addr_ok [OF s1 a]])
          (use HeapObjVar r leads_trans [OF l] in \<open>auto simp: heap_of_def seed_done_def known_object_def\<close>)
    qed
    then show ?thesis using False HeapObjVar by (auto simp: init_addr_def intro: bof_ok_asserted)
  next
    case OtherObj
    then show ?thesis using False leads_refl [OF s] by (simp add: init_addr_def seed_done_def known_object_def)
  qed
qed

lemma init_call_ok:
  assumes s: "ready p V C I s" and e: "e \<in> set (callStmts p)"
  shows "bof_ok (leads s) (init_call p n e s)"
proof -
  note cl = ready_closed [OF s]
  note V = bof_closedD(10) [OF cl e]
  have "bof_ok (leads s) (bof_then (analyzeAllocSize p n c s) (\<lambda>(sizeRange, s1). bof_then (record_operand p n (pe_lhs e) c s1) (\<lambda>s2.
      if upper sizeRange > 0 then
        Inr (seed_buffer p (pe_lhs e) (pe_lhs e) True (nodeFun (pag p) (pe_call e))
          (s2\<lparr>rangeAnalysis := setBufferRange (pe_lhs e) (mk_range 0 (upper sizeRange - 1)) (rangeAnalysis s2)\<rparr>))
      else Inr s2)))"
    if c: "callNode p (pe_call e) = Some c" and call: "pe_isCall e" for c
  proof -
    note args = bof_closedD(13) [OF cl c]
    have h: "True = heap_of p (pe_lhs e)" using bof_closedD(12) [OF cl e call] by simp
    show ?thesis
    proof (rule bof_ok_then [OF alloc_size_ok [OF s args]], clarify)
      fix r s1 assume 1: "leads s s1"
      then have s1: "ready p V C I s1" by (simp add: leads_def)
      show "bof_ok (leads s) (bof_then (record_operand p n (pe_lhs e) c s1) (\<lambda>s2. if upper r > 0 then
        Inr (seed_buffer p (pe_lhs e) (pe_lhs e) True (nodeFun (pag p) (pe_call e))
          (s2\<lparr>rangeAnalysis := setBufferRange (pe_lhs e) (mk_range 0 (upper r - 1)) (rangeAnalysis s2)\<rparr>))
        else Inr s2))"
      proof (rule bof_ok_then [OF record_ok [OF s1 args]])
        fix s2 assume "leads s1 s2"
        then have 2: "leads s s2" by (rule leads_trans [OF 1])
        then have s2: "ready p V C I s2" by (simp add: leads_def)
        let ?s = "s2\<lparr>rangeAnalysis := setBufferRange (pe_lhs e) (mk_range 0 (upper r - 1)) (rangeAnalysis s2)\<rparr>"
        have 3: "leads s2 ?s" by (rule leads_ra [OF s2 buffer [OF ready_ra [OF s2]]])
        then have "ready p V C I ?s" by (simp add: leads_def)
        from seed_ready [OF cl this V V h, of "nodeFun (pag p) (pe_call e)"]
        have "leads ?s (seed_buffer p (pe_lhs e) (pe_lhs e) True (nodeFun (pag p) (pe_call e)) ?s)" by (simp add: leads_def)
        then show "bof_ok (leads s) (if upper r > 0 then
            Inr (seed_buffer p (pe_lhs e) (pe_lhs e) True (nodeFun (pag p) (pe_call e)) ?s) else Inr s2)"
          using 2 leads_trans [OF 2 leads_trans [OF 3]] by simp
      qed
    qed
  qed
  then show ?thesis using leads_refl [OF s] by (auto simp: init_call_def intro: bof_ok_asserted)
qed

lemma init_callsite_ok: "ready p V C I s \<Longrightarrow> bof_ok (leads s) (init_callsite p n nd s)"
  using leads_refl record_ok bof_closedD(13) [OF ready_closed]
  by (auto simp: init_callsite_def intro!: bof_ok_asserted split: option.split)

lemma bind_argument_ok:
  assumes s: "ready p V C I s" and e: "e \<in> set (callStmts p)"
  shows "bof_ok (leads s) (bind_argument p n e s)"
proof -
  have "bof_ok (leads s) (bof_then (bof_query p n None (pe_rhs e) s) (\<lambda>(r, s1).
       if isTop r \<or> isBottom r then Inr s1
       else Inr (s1\<lparr>rangeAnalysis := bindFormalRange (Some (pe_call e)) (Some (pe_lhs e)) r (rangeAnalysis s1)\<rparr>)))"
  proof (rule bof_ok_then [OF plain_query_ok [OF s bof_closedD(11) [OF ready_closed [OF s] e]]], clarify)
    fix r t assume l: "leads s t" and r: "range_ok r"
    then have t: "ready p V C I t" by (simp add: leads_def)
    have "leads t (t\<lparr>rangeAnalysis := bindFormalRange (Some (pe_call e)) (Some (pe_lhs e)) r (rangeAnalysis t)\<rparr>)"
      by (rule leads_ra [OF t bind [OF ready_ra [OF t] r]])
    then show "bof_ok (leads s) (if isTop r \<or> isBottom r then Inr t
       else Inr (t\<lparr>rangeAnalysis := bindFormalRange (Some (pe_call e)) (Some (pe_lhs e)) r (rangeAnalysis t)\<rparr>))"
      using l leads_trans [OF l] by simp
  qed
  then show ?thesis using leads_refl [OF s] by (simp add: bind_argument_def)
qed

lemma leads_fold:
  assumes "\<And>e b. e \<in> set es \<Longrightarrow> ready p V C I b \<Longrightarrow> bof_ok (\<lambda>c. leads b c \<and> D e c) (f e b)"
    and "\<And>e b c. D e b \<Longrightarrow> holds_more b c \<Longrightarrow> D e c" and "ready p V C I s"
  shows "bof_ok (\<lambda>t. leads s t \<and> (\<forall>e\<in>set es. D e t)) (bof_fold f es s)"
proof -
  have "bof_ok (\<lambda>t. leads s t \<and> ready p V C I t \<and> (\<forall>e\<in>set es. D e t)) (bof_fold f es s)"
  proof (rule bof_ok_each)
    show "bof_ok (\<lambda>c. leads b c \<and> ready p V C I c \<and> D e c) (f e b)" if "e \<in> set es" "ready p V C I b" for e b
      by (rule bof_ok_mono [OF assms(1) [OF that]]) (simp add: leads_def)
    show "D e c" if "D e b" "leads b c" for e b c using assms(2) that by (simp add: leads_def)
    show "leads b d" if "leads b c" "leads c d" for b c d using that by (rule leads_trans)
  qed (use assms(3) leads_refl in simp_all)
  then show ?thesis by (rule bof_ok_mono) simp
qed

lemma seed_done_more: "seed_done p s a \<Longrightarrow> holds_more s t \<Longrightarrow> seed_done p t a"
  by (simp add: seed_done_def holds_more_def)

text \<open>The state at the start of the fixpoint.\<close>

lemma start_ready:
  assumes "I (ra_new env)"
  shows "bof_ok (\<lambda>t. ready p V C I t \<and> (\<forall>a\<in>set (addrStmts p). seed_done p t a))
    (bof_then (initialize p n (bof_new env)) (bindCallArguments p n))"
proof -
  let ?P = "\<lambda>t. ready p V C I t \<and> (\<forall>a\<in>set (addrStmts p). seed_done p t a)"
  have new: "ready p V C I (bof_new env)" using assms by (simp add: bof_new_def ready_def flow_inv_def all_queued_def)
  have later: "bof_ok ?P m" if "?P s" "bof_ok (leads s) m" for s m
    by (rule bof_ok_mono [OF that(2)]) (use that(1) seed_done_more in \<open>auto simp: leads_def\<close>)
  have plain: "bof_ok ?P (bof_fold f es s)" if "?P s" "\<And>e b. e \<in> set es \<Longrightarrow> ready p V C I b \<Longrightarrow> bof_ok (leads b) (f e b)" for s f es
    by (rule later [OF that(1)], rule bof_ok_mono [OF leads_fold [where D = "\<lambda>_ _. True"]]) (use that in simp_all)
  have seeds: "bof_ok ?P (bof_fold (init_addr p n) (addrStmts p) (bof_new env))"
    by (rule bof_ok_mono [OF leads_fold [where D = "\<lambda>a t. seed_done p t a"]]) (use init_addr_ok seed_done_more new in \<open>auto simp: leads_def\<close>)
  have "bof_ok ?P (initialize p n (bof_new env))"
    unfolding initialize_def
    by (rule bof_ok_then [OF seeds], rule bof_ok_then [OF plain [OF _ init_call_ok]], assumption+, rule plain [OF _ init_callsite_ok], assumption+)
  then show ?thesis
    by (rule bof_ok_then) (simp add: bindCallArguments_def plain [OF _ bind_argument_ok])
qed

end

section \<open>After the fixpoint\<close>

text \<open>The memory checks also ask for the range that guards give; they keep the reports.\<close>

locale guarded_client = context_free_client +
  assumes guarded: "I a \<Longrightarrow> out_ok (\<lambda>e. e \<noteq> OutOfFuel) (\<lambda>r b. I b) (guardedValueRange (pag p) n (Some x) (Some loc) a)"
begin

definition adds_reports :: "bof \<Rightarrow> bof \<Rightarrow> bool" where
  "adds_reports s t = (I (rangeAnalysis t) \<and> set (pendingReports s) \<subseteq> set (pendingReports t))"

lemma adds_refl: "I (rangeAnalysis s) \<Longrightarrow> adds_reports s s"
  by (simp add: adds_reports_def)

lemma adds_trans: "adds_reports s t \<Longrightarrow> adds_reports t u \<Longrightarrow> adds_reports s u"
  unfolding adds_reports_def by blast

lemma adds_inv: "adds_reports s t \<Longrightarrow> I (rangeAnalysis t)"
  by (simp add: adds_reports_def)

lemma adds_report: "I (rangeAnalysis s) \<Longrightarrow> adds_reports s (reportBufferOverflowError p base off valid heap kind loc must ctx idx s)"
  by (auto simp: adds_reports_def reportBufferOverflowError_def split: option.split)

lemma guarded_ok: "I (rangeAnalysis s) \<Longrightarrow> bof_ok (\<lambda>(r, t). adds_reports s t) (guarded_query p n v loc s)"
proof (cases v)
  case (Some x)
  assume "I (rangeAnalysis s)"
  from guarded [OF this, of x loc] show ?thesis
    by (cases "guardedValueRange (pag p) n (Some x) (Some loc) (rangeAnalysis s)") (auto simp: guarded_query_def Some adds_reports_def)
qed (simp add: guarded_query_def adds_refl)

lemma length_query_ok: "I (rangeAnalysis s) \<Longrightarrow> x \<in> V \<Longrightarrow> bof_ok (\<lambda>(r, t). adds_reports s t) (bof_query p n None x s)"
  using plain_query [of "rangeAnalysis s" x]
  by (cases "analyzeVarRange (pag p) n None x 0 (rangeAnalysis s)") (auto simp: bof_query_def adds_reports_def)

lemma string_length_ok:
  assumes s: "I (rangeAnalysis s)"
  shows "bof_ok (\<lambda>(r, t). adds_reports s t) (string_length p n orc c loc i s)"
proof -
  have "bof_ok (\<lambda>(r, t). adds_reports s t) (oracle_chars p n orc src loc s)" for src
    unfolding oracle_chars_def
    by (rule bof_ok_then [OF guarded_ok [OF s]])
      (auto intro!: bof_ok_mono [OF guarded_ok] intro: adds_inv adds_trans)
  then show ?thesis
    using s unfolding string_length_def Let_def
    by (auto intro!: bof_ok_then [where Q = "\<lambda>(r, t). adds_reports s t"] bof_ok_defined simp: adds_refl)
qed

lemma explicit_length_ok:
  assumes s: "I (rangeAnalysis s)" and c: "set (cn_args c) \<subseteq> V"
  shows "bof_ok (\<lambda>(r, t). adds_reports s t) (explicit_length p n c i s)"
proof -
  have "bof_ok (\<lambda>(r, t). adds_reports s t) (bof_then (bof_query p n None (cn_args c ! nat i) s) (\<lambda>(r, s1).
       Inr (if isTop r \<or> upper r \<le> 0 then None else Some r, s1)))" if "\<not> i < 0" "\<not> int (length (cn_args c)) \<le> i"
    by (rule bof_ok_then [OF length_query_ok [OF s arg_in [OF c that]]]) auto
  then show ?thesis using s by (simp add: explicit_length_def adds_refl)
qed

lemma symbolic_ok: "I (rangeAnalysis s) \<Longrightarrow> bof_ok (adds_reports s) (symbolic_check p loc c buf strLike i s)"
  by (auto simp: symbolic_check_def trySymbolicUnderAlloc_def adds_refl adds_report intro!: bof_ok_defined split: option.split)

lemma check_length_ok: "I (rangeAnalysis s) \<Longrightarrow> bof_ok (adds_reports s) (check_length p loc buf fname strLike bb len s)"
  by (auto simp: check_length_def adds_refl adds_report intro!: bof_ok_defined split: option.split)

lemma check_rule_ok:
  assumes s: "I (rangeAnalysis s)" and c: "set (cn_args c) \<subseteq> V"
  shows "bof_ok (adds_reports s) (check_rule p n orc loc c fname strLike rule s)"
proof -
  have rest: "bof_ok (adds_reports s) (bof_then (if strLike then string_length p n orc c loc (bufArgIdx rule + 1) s1
       else explicit_length p n c (lenArgIdx rule) s1) (\<lambda>(len, s2). case len of None \<Rightarrow> Inr s2
         | Some l \<Rightarrow> check_length p loc x fname strLike bb l s2))" if l: "adds_reports s s1" for s1 bb x
  proof (rule bof_ok_then [where Q = "\<lambda>(r, t). adds_reports s1 t"])
    show "bof_ok (\<lambda>(r, t). adds_reports s1 t) (if strLike then string_length p n orc c loc (bufArgIdx rule + 1) s1
        else explicit_length p n c (lenArgIdx rule) s1)"
      using string_length_ok explicit_length_ok [OF _ c] adds_inv [OF l] by simp
  next
    fix a :: "range option \<times> bof"
    assume a: "case a of (r, t) \<Rightarrow> adds_reports s1 t"
    obtain len s2 where a2: "a = (len, s2)" by (cases a)
    then have l2: "adds_reports s s2" using a adds_trans [OF l] by simp
    then show "bof_ok (adds_reports s) (case a of (len, s2) \<Rightarrow> (case len of None \<Rightarrow> Inr s2
         | Some l \<Rightarrow> check_length p loc x fname strLike bb l s2))"
      using a2 bof_ok_mono [OF check_length_ok [OF adds_inv [OF l2]] adds_trans [OF l2]] by (simp split: option.split)
  qed
  have "bof_ok (adds_reports s) (bof_then (symbolic_check p loc c x strLike (lenArgIdx rule) s) (\<lambda>s1.
       bof_then (defined (getByteBuffer p x s1)) (\<lambda>b. case b of None \<Rightarrow> Inr s1
         | Some buf \<Rightarrow> bof_then (if strLike then string_length p n orc c loc (bufArgIdx rule + 1) s1
             else explicit_length p n c (lenArgIdx rule) s1) (\<lambda>(len, s2). case len of None \<Rightarrow> Inr s2
               | Some l \<Rightarrow> check_length p loc x fname strLike buf l s2))))" for x
    by (rule bof_ok_then [OF symbolic_ok [OF s]], rule bof_ok_defined, split option.split) (intro conjI allI impI rest, simp_all)
  then show ?thesis using s by (simp add: check_rule_def Let_def adds_refl)
qed

lemma fold_adds_reports:
  assumes "I (rangeAnalysis s)" "\<And>e b. e \<in> set es \<Longrightarrow> I (rangeAnalysis b) \<Longrightarrow> bof_ok (adds_reports b) (f e b)"
  shows "bof_ok (adds_reports s) (bof_fold f es s)"
proof -
  have "bof_ok (\<lambda>t. adds_reports s t \<and> I (rangeAnalysis t) \<and> (\<forall>e\<in>set es. True)) (bof_fold f es s)"
  proof (rule bof_ok_each)
    show "bof_ok (\<lambda>c. adds_reports b c \<and> I (rangeAnalysis c) \<and> True) (f e b)" if "e \<in> set es" "I (rangeAnalysis b)" for e b
      by (rule bof_ok_mono [OF assms(2) [OF that]]) (simp add: adds_reports_def)
    show "adds_reports b d" if "adds_reports b c" "adds_reports c d" for b c d using that by (rule adds_trans)
  qed (use assms(1) adds_refl in simp_all)
  then show ?thesis by (rule bof_ok_mono) simp
qed

lemma checkMemoryOps_ok: "I (rangeAnalysis s) \<Longrightarrow> bof_ok (adds_reports s) (checkMemoryOps p n s)"
proof -
  assume s: "I (rangeAnalysis s)"
  have "bof_ok (adds_reports b) (check_node p n orc nd b)" if b: "I (rangeAnalysis b)" for orc nd b
  proof (cases "callNode p nd")
    case (Some c)
    have "bof_ok (adds_reports b) (bof_fold (check_rule p n orc nd c fname strLike) rules b)" for fname strLike rules
      by (rule fold_adds_reports [OF b check_rule_ok]) (use bof_closedD(13) [OF closed_program [OF b] Some] in simp_all)
    then show ?thesis using Some b
      by (auto simp: check_node_def Let_def adds_refl intro!: bof_ok_asserted split: option.split)
  qed (simp add: check_node_def adds_refl b)
  then show ?thesis unfolding checkMemoryOps_def by (rule fold_adds_reports [OF s])
qed

end

section \<open>The checker returns\<close>

lemma bound_buffer [simp]: "boundFormal c x (setBufferRange b r a) = boundFormal c x a"
  by (cases c) (simp_all add: boundFormal_def setBufferRange_def)

lemma ra_ok_buffer [simp]: "ra_ok p n V (setBufferRange b r a) = ra_ok p n V a"
  by (simp add: ra_ok_def getCachedVarRange_def getVarRange_def index_in_def setBufferRange_def boundFormal_def cong: option.case_cong)

lemma bound_bind: "boundFormal ctx x (bindFormalRange (Some c) (Some f) r a) = (if ctx = Some c \<and> x = f then Some r else boundFormal ctx x a)"
  by (cases ctx) (auto simp: boundFormal_def bindFormalRange_def)

lemma getCached_bind [simp]: "getCachedVarRange ctx x (bindFormalRange c f r a) = getCachedVarRange ctx x a"
  by (simp add: getCachedVarRange_def getVarRange_def bindFormalRange_def split: option.split)

lemma buffer_other [simp]: "guardEnabled (setBufferRange b r a) = guardEnabled a"
  by (simp add: setBufferRange_def)

lemma bind_other [simp]:
  "guardIndex (bindFormalRange c f r a) = guardIndex a" "guardEnabled (bindFormalRange c f r a) = guardEnabled a"
  by (simp_all add: bindFormalRange_def split: option.split)

lemma getCached_buffer [simp]: "getCachedVarRange ctx x (setBufferRange b r a) = getCachedVarRange ctx x a"
  by (cases ctx) (simp_all add: getCachedVarRange_def getVarRange_def setBufferRange_def)

lemma ra_ok_bind: "ra_ok p n V a \<Longrightarrow> range_ok r \<Longrightarrow> ra_ok p n V (bindFormalRange (Some c) (Some f) r a)"
  by (auto simp: ra_ok_def bound_bind index_in_def split: if_splits)

lemma guardedValueRange_ok:
  assumes a: "ra_ok p n V a"
  shows "out_ok (\<lambda>e. e \<noteq> OutOfFuel) (\<lambda>r b. ra_ok p n V b) (guardedValueRange p n v loc a)"
proof -
  have cl: "closed p V" using a by (simp add: ra_ok_def)
  have c: "call_ok (\<lambda>e. e \<noteq> OutOfFuel) V (ra_ok p n V) (\<lambda>_ _. True) (analyzeVarRange p n None)"
    unfolding call_ok_def by (auto intro!: out_ok_mono [OF query_keeps])
  have b: "ra_ok p n V (buildGuardIndex p a)"
    using a buildGuardIndex_in [OF cl] boundFormal_bindings [of "buildGuardIndex p a" a] by (simp add: ra_ok_def)
  have "out_ok (\<lambda>e. e \<noteq> OutOfFuel) (\<lambda>r s. ra_ok p n V s)
      (fold_out (guarded_step p (analyzeVarRange p n None) bb fn) gs TOP (buildGuardIndex p a))"
    if "gi_guards (guardIndex (buildGuardIndex p a)) tok = Some gs" for tok gs bb fn
  proof (rule out_ok_fold [where Q = "\<lambda>_. ra_ok p n V", OF b])
    fix g r s assume g: "g \<in> set gs" and s: "ra_ok p n V s"
    have "index_in V (buildGuardIndex p a)" using b by (simp add: ra_ok_def)
    then have "g_bndSide g \<in> V" using that g unfolding index_in_def all_entries_def by blast
    then show "out_ok (\<lambda>e. e \<noteq> OutOfFuel) (\<lambda>r s. ra_ok p n V s) (guarded_step p (analyzeVarRange p n None) bb fn g r s)"
      using meet_guard_inv [OF c s] s by (simp add: guarded_step_def)
  qed
  then show ?thesis using a b
    by (auto simp: guardedValueRange_def Let_def split: option.split bool.split)
qed

interpretation returning: guarded_client p n V C "\<lambda>a. bof_closed p n V C \<and> ra_ok (pag p) n V a" for p n V C
proof
  fix a x assume "bof_closed p n V C \<and> ra_ok (pag p) n V a" "x \<in> V"
  then show "out_ok (\<lambda>e. e \<noteq> OutOfFuel) (\<lambda>r b. (bof_closed p n V C \<and> ra_ok (pag p) n V b) \<and> range_ok r) (analyzeVarRange (pag p) n None x 0 a)"
    by (intro out_ok_mono [OF query_keeps]) auto
next
  fix a x loc assume "bof_closed p n V C \<and> ra_ok (pag p) n V a"
  then show "out_ok (\<lambda>e. e \<noteq> OutOfFuel) (\<lambda>r b. bof_closed p n V C \<and> ra_ok (pag p) n V b)
      (guardedValueRange (pag p) n (Some x) (Some loc) a)"
    by (intro out_ok_mono [OF guardedValueRange_ok]) auto
qed (simp_all add: ra_ok_bind)

lemma ra_ok_new: "bof_closed p n V C \<Longrightarrow> ra_ok (pag p) n V (ra_new env)"
  by (auto simp: ra_ok_def bof_closed_def flow_closed_def ra_new_def boundFormal_def getCachedVarRange_def getVarRange_def
      index_in_def all_entries_def split: option.splits)

lemma ready_loop:
  assumes "ready p V C I s"
  shows "flow_inv V C (heap_of p) I s" "all_queued s"
  using assms by (simp_all add: ready_def)

text \<open>C2: The checker returns. On a program whose edges, calls and allocations stay within finitely many variables and
  calling contexts, with sizes and positions below \<open>2^32\<close>, the fixpoint ends: a key of its state grows at most four
  times, because offsets are widened. With fuel beyond the number of variables no query of the range analysis runs out of it.
  So \<open>runOnModule\<close> gives its reports, or an error that is an undefined operation or a failed assertion, whether
  guard narrowing is on or off.\<close>

theorem runOnModule_returns:
  assumes "bof_closed p n V C"
  shows "\<exists>r. runOnModule p n env mayAsMust = Some r \<and> r \<noteq> Inl (RangeError OutOfFuel)"
proof -
  let ?I = "\<lambda>a. bof_closed p n V C \<and> ra_ok (pag p) n V a"
  note start = returning.start_ready [of p n V C env, OF conjI [OF assms ra_ok_new [OF assms]]]
  show ?thesis
  proof (cases "bof_then (initialize p n (bof_new env)) (bindCallArguments p n)")
    case (Inl e)
    then show ?thesis using start by (simp add: runOnModule_def)
  next
    case (Inr s)
    then have s: "ready p V C ?I s" using start by simp
    let ?J = "\<lambda>a. flow_closed p V C \<and> ra_ok (pag p) n V a"
    have "unvalued.loop_inv p V C (heap_of p) n s"
      unfolding unvalued.loop_inv_def
      using ready_loop(1,2) [OF s] assms by (auto simp: flow_inv_def all_queued_def bof_closed_def)
    from unvalued.propagate_ok [OF this] obtain r where r: "propagate p n s = Some r"
        "bof_ok (\<lambda>t. unvalued.loop_inv p V C (heap_of p) n t \<and> flow_grows s t \<and> flowQueue t = []) r" by blast
    have "bof_ok (\<lambda>t. True) (bof_then (bof_then r (checkMemoryOps p n)) (\<lambda>s1. Inr (flushReports p mayAsMust s1)))"
    proof (rule bof_ok_then [OF bof_ok_then [OF r(2)]])
      fix t assume "unvalued.loop_inv p V C (heap_of p) n t \<and> flow_grows s t \<and> flowQueue t = []"
      then have "?I (rangeAnalysis t)" using assms by (simp add: unvalued.loop_inv_def flow_inv_def)
      from returning.checkMemoryOps_ok [OF this] show "bof_ok (\<lambda>_. True) (checkMemoryOps p n t)" by (rule bof_ok_mono) simp
    qed simp
    then show ?thesis using Inr r(1) by (auto simp: runOnModule_def bof_ok_def split: sum.splits)
  qed
qed

lemma demo_closed: "in64 c \<Longrightarrow> bof_closed (demo c) 7 {0, 1, 2, 3, 4, 5} {None}"
  by (auto simp: bof_closed_def flow_closed_def sizes_ok_def closed_def facts_ok_def demo_def in64_def bounds_defs)

lemma runOnModule_returns_witness:
  "\<exists>r. runOnModule (demo 9) 7 None False = Some r \<and> r \<noteq> Inl (RangeError OutOfFuel)"
  by (rule runOnModule_returns [OF demo_closed]) (simp add: in64_def bounds_defs)

end
