(* ===== verification/BofNoMiss.thy ===== *)
theory BofNoMiss
  imports BofPhases
begin

text \<open>
  What the buffer overflow checker promises as a whole: no access that a pointer reaches from its buffer is missed. The
  theory follows a pointer along the edges, from the seeds of its buffer to the reports that are emitted.
\<close>

section \<open>Reports and field accesses\<close>

text \<open>A pointer to a field: it comes from a constant index into a struct, without an array on the way, or from such a
  pointer. The checker does not check accesses through these.\<close>

definition navigates :: "bof_program \<Rightarrow> gep_stmt \<Rightarrow> ty_kind \<Rightarrow> bool" where
  "navigates p e k = (\<exists>op\<in>set (idxOperandPairs e). case snd op of None \<Rightarrow> False | Some t \<Rightarrow> tyKind p t = k)"

inductive field_pointer :: "bof_program \<Rightarrow> nat \<Rightarrow> bool" for p where
  constant_field: "GepEdge e \<in> set (outEdges p x) \<Longrightarrow> \<forall>op\<in>set (idxOperandPairs e). isConstInt p (fst op) \<Longrightarrow>
    navigates p e SVFStructTy \<Longrightarrow> \<not> navigates p e SVFArrayTy \<Longrightarrow> field_pointer p (gep_dst e)"
| nested_field: "field_pointer p x \<Longrightarrow> GepEdge e \<in> set (outEdges p x) \<Longrightarrow> \<not> navigates p e SVFArrayTy \<Longrightarrow> field_pointer p (gep_dst e)"
| copied_field: "field_pointer p x \<Longrightarrow> CopyEdge d l \<in> set (outEdges p x) \<Longrightarrow> field_pointer p d"

definition pending_key :: "bof_program \<Rightarrow> pending_report \<Rightarrow> string" where
  "pending_key p r = report_key p (pr_loc r) (pr_kind r) (pr_callContext r)"

text \<open>The keys are those of the pending reports, and the variables that are not checked point to fields.\<close>

definition side_inv :: "bof_program \<Rightarrow> bof \<Rightarrow> bool" where
  "side_inv p s = (bugLoc s = pending_key p ` set (pendingReports s) \<and> fieldSafeVars s \<subseteq> Collect (field_pointer p))"

definition bof_all :: "('a \<Rightarrow> bool) \<Rightarrow> 'a bof_out \<Rightarrow> bool" where
  "bof_all Q m = (\<forall>a. m = Inr a \<longrightarrow> Q a)"

lemma bof_all_simps [simp]: "bof_all Q (Inl e)" "bof_all Q (Inr a) = Q a"
  by (simp_all add: bof_all_def)

lemma bof_all_then: "bof_all Q m \<Longrightarrow> (\<And>a. Q a \<Longrightarrow> bof_all P (f a)) \<Longrightarrow> bof_all P (bof_then m f)"
  by (cases m) auto

lemma bof_all_defined: "(\<And>a. bof_all P (f a)) \<Longrightarrow> bof_all P (bof_then (defined v) f)"
  by (cases v) (auto simp: defined_def)

lemma bof_all_asserted: "(\<And>a. bof_all P (f a)) \<Longrightarrow> bof_all P (bof_then (asserted v) f)"
  by (cases v) (auto simp: asserted_def)

lemma bof_all_fold: "(\<And>e a. e \<in> set es \<Longrightarrow> Q a \<Longrightarrow> bof_all Q (f e a)) \<Longrightarrow> Q a \<Longrightarrow> bof_all Q (bof_fold f es a)"
proof (induction es arbitrary: a)
  case (Cons e es)
  then show ?case by (auto intro!: bof_all_then [of Q])
qed simp

lemma ready_side: "ready p V C I s \<Longrightarrow> side_inv p s"
  by (simp add: ready_def side_inv_def)

lemma side_inv_same [simp]:
  "side_inv p (s\<lparr>rangeAnalysis := b\<rparr>) = side_inv p s"
  "side_inv p (s\<lparr>flowQueue := q\<rparr>) = side_inv p s"
  "side_inv p (enqueue base parent off heap depth ctx s) = side_inv p s"
  "side_inv p (enqueue_from base off nd s) = side_inv p s"
  by (simp_all add: side_inv_def enqueue_from_def)

lemma side_inv_field: "side_inv p s \<Longrightarrow> field_pointer p x \<Longrightarrow> side_inv p (s\<lparr>fieldSafeVars := insert x (fieldSafeVars s)\<rparr>)"
  by (simp add: side_inv_def)

lemma side_inv_report: "side_inv p s \<Longrightarrow> side_inv p (reportBufferOverflowError p base off valid heap kind loc must ctx idx s)"
  by (auto simp: side_inv_def reportBufferOverflowError_def pending_key_def split: option.split)

lemma side_inv_check: "side_inv p s \<Longrightarrow> side_inv p (checkAccess p dst off valid heap kind loc ctx idx s)"
  by (simp add: checkAccess_def side_inv_report)

lemma gep_operand_side:
  "side_inv p (snd (snd st)) \<Longrightarrow> bof_all (\<lambda>st. side_inv p (snd (snd st))) (gep_operand p n e nd op st)"
proof -
  assume s: "side_inv p (snd (snd st))"
  have field: "bof_all (\<lambda>st. side_inv p (snd (snd st))) (gep_field p e nd t v tot idx u)" if "side_inv p u" for t v tot idx u
    using that by (auto simp: gep_field_def Let_def side_inv_check intro!: bof_all_asserted)
  have heap: "bof_all (\<lambda>st. side_inv p (snd (snd st))) (bof_then m (\<lambda>d. bof_then (defined (range_add tot d)) (\<lambda>r. Inr (r, idx, u))))"
    if "side_inv p u" for m tot idx u
  proof (rule bof_all_then [of "\<lambda>_. True"])
    show "bof_all (\<lambda>_. True) m" by (simp add: bof_all_def)
    show "bof_all (\<lambda>st. side_inv p (snd (snd st))) (bof_then (defined (range_add tot d)) (\<lambda>r. Inr (r, idx, u)))" for d
      by (rule bof_all_defined) (simp add: that)
  qed
  have dim: "bof_all (\<lambda>st. side_inv p (snd (snd st))) (gep_dim p e nd type v tot idx u)" if "side_inv p u" for type v tot idx u
    using that field heap by (auto simp: gep_dim_def intro!: bof_all_defined bof_all_asserted split: option.split)
  have query: "bof_all (\<lambda>(r, u). side_inv p u) (bof_query p n ctx x u)" if "side_inv p u" for ctx x u
    using that by (simp add: bof_query_def bof_all_def split: sum.split)
  obtain x type tot idx u where st: "op = (x, type)" "st = (tot, idx, u)" by (metis prod.exhaust)
  show ?thesis unfolding gep_operand_def st prod.case
    by (rule bof_all_then [OF query]) (use s st dim in auto)
qed

lemma field_nav: "constStructFieldNav p e nd buf s \<Longrightarrow> side_inv p s \<Longrightarrow> GepEdge e \<in> set (outEdges p (fn_base nd)) \<Longrightarrow>
    field_pointer p (gep_dst e)"
proof -
  assume nav: "constStructFieldNav p e nd buf s" and s: "side_inv p s" and e: "GepEdge e \<in> set (outEdges p (fn_base nd))"
  from nav consider "\<forall>op\<in>set (idxOperandPairs e). isConstInt p (fst op)" "navigates p e SVFStructTy" "\<not> navigates p e SVFArrayTy"
    | "fn_base nd \<in> fieldSafeVars s" "\<not> navigates p e SVFArrayTy"
    unfolding constStructFieldNav_def Let_def navigates_def by blast
  then show ?thesis
  proof cases
    case 1
    then show ?thesis by (rule constant_field [OF e])
  next
    case 2
    then have "field_pointer p (fn_base nd)" using s by (auto simp: side_inv_def)
    then show ?thesis by (rule nested_field [OF _ e 2(2)])
  qed
qed

lemma handle_edge_side:
  assumes s: "side_inv p s" and e: "e \<in> set (outEdges p (fn_base nd))"
  shows "bof_all (side_inv p) (handle_edge p n nd e s)"
proof (cases e)
  case (GepEdge g)
  have "bof_all (\<lambda>st. side_inv p (snd (snd st))) (gep_offset p n g nd s)"
    unfolding gep_offset_def by (rule bof_all_fold [OF gep_operand_side]) (simp_all add: s)
  then have "bof_all (side_inv p) (handleGep p n g nd s)"
    unfolding handleGep_def
    by (rule bof_all_then)
      (use field_nav e GepEdge in \<open>auto simp: Let_def side_inv_check intro!: bof_all_defined side_inv_field\<close>)
  then show ?thesis using GepEdge by simp
next
  case (CopyEdge d l)
  have "fn_base nd \<in> fieldSafeVars s \<Longrightarrow> field_pointer p d"
    using s e CopyEdge copied_field by (auto simp: side_inv_def)
  then show ?thesis using CopyEdge s by (simp add: handleCopyLike_def side_inv_check side_inv_field)
qed (use s in \<open>simp_all add: handleCopyLike_def handleCall_def handleRet_def side_inv_check\<close>)

text \<open>What every step of a loop that ends keeps.\<close>

lemma work_loop_keeps:
  assumes "work_loop stop step s = Some t" "P s" "\<And>s u. P s \<Longrightarrow> step s = Some u \<Longrightarrow> P u"
  shows "P t"
proof -
  let ?Q = "\<lambda>stop' step' s t. step' = step \<longrightarrow> P s \<longrightarrow> P t"
  have "?Q stop step s t"
  proof (rule work_loop.raw_induct [where P = ?Q, OF _ assms(1)], intro impI)
    fix f :: "('a \<Rightarrow> bool) \<Rightarrow> ('a \<Rightarrow> 'a option) \<Rightarrow> 'a \<Rightarrow> 'a option" and stop' step' s y
    assume IH: "\<And>stop step' s y. f stop step' s = Some y \<Longrightarrow> step' = step \<longrightarrow> P s \<longrightarrow> P y"
      and e: "(if stop' s then Some s else Option.bind (step' s) (f stop' step')) = Some y" and s: "step' = step" "P s"
    show "P y"
    proof (cases "stop' s")
      case False
      then obtain u where "step s = Some u" "f stop' step' u = Some y" using e s(1) by (auto split: bind_splits)
      then show ?thesis using IH s assms(3) by blast
    qed (use e s in simp)
  qed
  then show ?thesis using assms(2) by simp
qed

lemma propagate_side:
  assumes "propagate p n s = Some (Inr t)" "side_inv p s"
  shows "side_inv p t"
proof -
  have step: "bof_all (side_inv p) (propagate_one p n s)" if "side_inv p s" for s
    unfolding propagate_one_def by (rule bof_all_fold [OF handle_edge_side]) (use that in simp_all)
  have "bof_all (side_inv p) (Inr t)"
    using assms(1) unfolding propagate_def
  proof (rule work_loop_keeps)
    show "bof_all (side_inv p) (Inr s)" using assms(2) by simp
    show "bof_all (side_inv p) u" if "bof_all (side_inv p) r" "Some (bof_then r (propagate_one p n)) = Some u" for r u
    proof -
      have "bof_all (side_inv p) (bof_then r (propagate_one p n))" by (rule bof_all_then [OF that(1) step])
      then show ?thesis using that(2) by simp
    qed
  qed
  then show ?thesis by simp
qed

section \<open>No overflow is missed\<close>

text \<open>How a pointer moves along an edge: from the offset \<open>v\<close> of a key to an offset of another one. \<open>R\<close> are the values
  of the variables under each context.\<close>

inductive flow_step :: "bof_program \<Rightarrow> (nat option \<Rightarrow> nat \<Rightarrow> int set) \<Rightarrow> flow_key \<Rightarrow> int \<Rightarrow> flow_edge \<Rightarrow> flow_key \<Rightarrow> int \<Rightarrow> bool"
  for p R where
  step_gep: "gep_moves p (R ctx) (heap_of p b) e d \<Longrightarrow> in64 (d + v) \<Longrightarrow>
    flow_step p R (b, x, ctx) v (GepEdge e) (b, gep_dst e, ctx) (d + v)"
| step_copy: "flow_step p R (b, x, ctx) v (CopyEdge y l) (b, y, ctx) v"
| step_store: "flow_step p R (b, x, ctx) v (StoreEdge r y l) (b, y, ctx) v"
| step_load: "flow_step p R (b, x, ctx) v (LoadEdge y l) (b, y, ctx) v"
| step_ret: "flow_step p R (b, x, ctx) v (RetEdge y) (b, y, ctx) v"

text \<open>The pointers into a buffer: a seed at its start, whatever else the state at the start of the fixpoint holds, and
  what the edges make of them.\<close>

inductive pointer_flow :: "bof_program \<Rightarrow> (nat option \<Rightarrow> nat \<Rightarrow> int set) \<Rightarrow> bof \<Rightarrow> flow_key \<Rightarrow> int \<Rightarrow> bool" for p R s where
  seed: "a \<in> set (addrStmts p) \<Longrightarrow> addr_node a = Some nd \<Longrightarrow> \<not> ignoredSource p (sourceLoc p nd) \<Longrightarrow> known_object p (addr_src a) \<Longrightarrow>
    ctx \<in> seeded_ctxs p (nodeFun (pag p) nd) \<Longrightarrow> pointer_flow p R s (addr_src a, addr_dst a, ctx) 0"
| held: "holds s k v \<Longrightarrow> pointer_flow p R s k v"
| step: "pointer_flow p R s k v \<Longrightarrow> e \<in> set (outEdges p (fst (snd k))) \<Longrightarrow> flow_step p R k v e k' v' \<Longrightarrow> pointer_flow p R s k' v'"

text \<open>The pointer whose access an edge is, and the node of the access.\<close>

fun access_of :: "flow_key \<Rightarrow> flow_edge \<Rightarrow> (nat \<times> nat option) option" where
  "access_of k (GepEdge e) = Some (gep_dst e, gep_loc e)"
| "access_of k (CopyEdge y l) = Some (fst (snd k), l)"
| "access_of k (StoreEdge r y l) = Some (fst (snd k), l)"
| "access_of k (LoadEdge y l) = Some (fst (snd k), l)"
| "access_of k _ = None"

text \<open>An access at the node \<open>l\<close> that leaves the buffer, from the offset \<open>v\<close> of the key \<open>k\<close> along the edge \<open>e\<close>: the pointer
  that is accessed is not one to a field and its offset is outside the known buffer, or the edge is pointer arithmetic on the
  stack with an index outside the array or struct it selects from.\<close>

inductive overflows :: "bof_program \<Rightarrow> (nat option \<Rightarrow> nat \<Rightarrow> int set) \<Rightarrow> bof \<Rightarrow> flow_key \<Rightarrow> int \<Rightarrow> flow_edge \<Rightarrow> nat \<Rightarrow> bool"
  for p R s where
  outside: "flow_step p R k v e k' v' \<Longrightarrow> access_of k e = Some (x, Some l) \<Longrightarrow> \<not> field_pointer p x \<Longrightarrow>
    \<not> isBottom (getBufferRange (fst k) (rangeAnalysis s)) \<Longrightarrow> v' \<notin> gam (getBufferRange (fst k) (rangeAnalysis s)) \<Longrightarrow>
    overflows p R s k v e l"
| escaping: "op \<in> set (idxOperandPairs e) \<Longrightarrow> i \<in> R (snd (snd k)) (fst op) \<Longrightarrow> escapes p (heap_of p (fst k)) (snd op) i \<Longrightarrow>
    gep_loc e = Some l \<Longrightarrow> overflows p R s k v (GepEdge e) l"

lemma step_done:
  assumes "flow_step p R k v e k' v'" "edge_done p (heap_of p) R k r e t" "v \<in> gam r"
  shows "holds t k' v'"
    "access_of k e = Some (x, loc) \<Longrightarrow> x \<in> fieldSafeVars t \<or> accounted p t loc (snd (snd k)) (getBufferRange (fst k) (rangeAnalysis t)) v'"
  using assms by (cases rule: flow_step.cases, auto simp: copied_def simp del: in_gam)+

lemma overflows_keyed:
  assumes "overflows p R s k v e l" "edge_done p (heap_of p) R k r e t" "v \<in> gam r"
    and "flow_grows s t" "fieldSafeVars t \<subseteq> Collect (field_pointer p)" "\<not> ignoredSource p (sourceLoc p l)"
  shows "report_key p l GEP_OOB (snd (snd k)) \<in> bugLoc t"
  using assms(1)
proof cases
  case (outside k' v' x)
  then have "x \<notin> fieldSafeVars t" using assms(5) by auto
  then have "accounted p t (Some l) (snd (snd k)) (getBufferRange (fst k) (rangeAnalysis t)) v'"
    using step_done(2) [OF outside(1) assms(2,3) outside(2)] by blast
  then show ?thesis using outside(4,5) assms(6) grows_buffer [OF assms(4)] by (simp add: accounted_def reported_def del: in_gam)
next
  case (escaping op g i)
  then have "reported p t (Some l) (snd (snd k))" using assms(2) by (auto simp del: in_gam)
  then show ?thesis using assms(6) by (simp add: reported_def)
qed

lemma fixpoint_holds:
  assumes dn: "\<And>k r e. flowState t k = Some r \<Longrightarrow> e \<in> set (outEdges p (fst (snd k))) \<Longrightarrow> edge_done p (heap_of p) R k r e t"
    and s: "\<And>a. a \<in> set (addrStmts p) \<Longrightarrow> seed_done p s a" and g: "flow_grows s t"
  shows "pointer_flow p R s k v \<Longrightarrow> holds t k v"
proof (induction rule: pointer_flow.induct)
  case (seed a nd ctx)
  then have "holds s (addr_src a, addr_dst a, ctx) 0" using s by (auto simp: seed_done_def)
  then show ?case using g unfolding flow_grows_def by blast
next
  case (held k v)
  then show ?case using g unfolding flow_grows_def by blast
next
  case (step k v e k' v')
  then obtain r where r: "flowState t k = Some r" "v \<in> gam r" by (auto simp: holds_def split: option.splits)
  show ?case by (rule step_done(1) [OF step.hyps(3) dn [OF r(1) step.hyps(2)] r(2)])
qed

subsection \<open>From keys to reports\<close>

lemma to_string_no_marks: "CHR ''#'' \<notin> set (to_string x)" "CHR ''@'' \<notin> set (to_string x)"
  using to_string_chars [of "CHR ''#''" x] to_string_chars [of "CHR ''@''" x] by auto

lemma kind_code_inj: "kind_code a = kind_code b \<Longrightarrow> a = b"
  by (cases a; cases b) simp_all

lemma access_point_inj: "access_point p l k = access_point p l' k' \<Longrightarrow> sourceLoc p l = sourceLoc p l' \<and> k = k'"
  using split_last [of "sourceLoc p l" "CHR ''#''" "to_string (kind_code k)" "sourceLoc p l'" "to_string (kind_code k')"]
    to_string_no_marks(1) to_string_inj kind_code_inj by (auto simp: access_point_def)

lemma report_key_inj: "report_key p l k ctx = report_key p l' k' ctx' \<Longrightarrow> sourceLoc p l = sourceLoc p l' \<and> k = k'"
proof -
  let ?c = "\<lambda>ctx. case ctx of None \<Rightarrow> [] | Some c \<Rightarrow> ''@'' @ to_string (int c)"
  assume "report_key p l k ctx = report_key p l' k' ctx'"
  then have "sourceLoc p l @ CHR ''#'' # (to_string (kind_code k) @ ?c ctx) = sourceLoc p l' @ CHR ''#'' # (to_string (kind_code k') @ ?c ctx')"
    by (simp add: report_key_def access_point_def)
  then have "sourceLoc p l = sourceLoc p l' \<and> to_string (kind_code k) @ ?c ctx = to_string (kind_code k') @ ?c ctx'"
    by (rule split_last) (auto simp: to_string_no_marks split: option.splits)
  moreover have "a = b" if "to_string a @ ?c x = to_string b @ ?c y" for a b x y
  proof -
    have "takeWhile (\<lambda>c. c \<noteq> CHR ''@'') (to_string a @ ?c x) = to_string a" for a x
      using to_string_no_marks(2) [of a] by (subst takeWhile_append2) (auto split: option.split)
    then show ?thesis using that to_string_inj by metis
  qed
  ultimately show ?thesis using kind_code_inj by blast
qed

lemma flush_point:
  assumes "q \<in> set (pendingReports s)"
  shows "\<exists>(r, shown)\<in>set (flushReports p m s). report_point p r = report_point p q"
proof -
  let ?M = "mustPoints p (pendingReports s)" and ?F = "flush_loop p (mustPoints p (pendingReports s)) {} (pendingReports s)"
  obtain q' where q': "q' \<in> set (pendingReports s)" "report_point p q' = report_point p q" "pr_must q' \<or> report_point p q' \<notin> ?M"
  proof (cases "report_point p q \<in> ?M")
    case True
    then obtain r where "r \<in> set (pendingReports s)" "pr_must r" "report_point p r = report_point p q"
      by (auto simp: mustPoints_def report_point_def)
    then show ?thesis using that [of r] by simp
  next
    case False
    then show ?thesis using that [OF assms] by simp
  qed
  then have "content_key p q' \<in> content_key p ` set ?F" using flush_keeps [OF q'(1,3), of "{}"] by simp
  then obtain r where r: "r \<in> set ?F" "content_key p q' = content_key p r" by blast
  then have "report_point p r = report_point p q'" using content_key_inj [OF r(2)] by simp
  then show ?thesis using r(1) q'(2) by (auto simp: flushReports_def)
qed

lemma pending_emitted:
  assumes "report_key p l k ctx \<in> pending_key p ` set (pendingReports t)" "set (pendingReports t) \<subseteq> set (pendingReports u)"
  shows "\<exists>(r, shown)\<in>set (flushReports p m u). sourceLoc p (pr_loc r) = sourceLoc p l \<and> pr_kind r = k"
proof -
  obtain q where q: "q \<in> set (pendingReports u)" "report_key p l k ctx = pending_key p q" using assms by blast
  obtain r shown where r: "(r, shown) \<in> set (flushReports p m u)" "report_point p r = report_point p q"
    using flush_point [OF q(1)] by blast
  have "sourceLoc p l = sourceLoc p (pr_loc q) \<and> k = pr_kind q" using q(2) unfolding pending_key_def by (rule report_key_inj)
  moreover have "sourceLoc p (pr_loc r) = sourceLoc p (pr_loc q) \<and> pr_kind r = pr_kind q"
    using r(2) unfolding report_point_def by (rule access_point_inj)
  ultimately show ?thesis using r(1) by (intro bexI [OF _ r(1)]) simp
qed

subsection \<open>Sound ranges before the fixpoint\<close>

definition start_sound :: "svfir \<Rightarrow> nat set \<Rightarrow> (nat \<Rightarrow> int set) \<Rightarrow> ra \<Rightarrow> bool" where
  "start_sound p V R a = (ra_model p None V (\<lambda>_. None) R \<and> ra_sound None V (\<lambda>_. None) R a
    \<and> (\<forall>c x. isBottom (getCachedVarRange (Some c) x a)))"

interpretation starting: context_free_client p n V C
    "\<lambda>a. bof_closed p n V C \<and> ra_ok (pag p) n V a \<and> start_sound (pag p) V R a" for p n V C R
proof
  fix a x assume a: "bof_closed p n V C \<and> ra_ok (pag p) n V a \<and> start_sound (pag p) V R a" and x: "x \<in> V"
  then have m: "ra_model (pag p) None V (\<lambda>_. None) R" "ra_sound None V (\<lambda>_. None) R a" "ra_ok (pag p) n V a"
    by (simp_all add: start_sound_def)
  show "out_ok (\<lambda>e. e \<noteq> OutOfFuel) (\<lambda>r b. (bof_closed p n V C \<and> ra_ok (pag p) n V b \<and> start_sound (pag p) V R b) \<and> range_ok r)
      (analyzeVarRange (pag p) n None x 0 a)"
    by (rule out_ok_conj [OF query_keeps [OF m(3) x] analyzeVarRange_sound_upto [OF m(1) x m(2)]])
      (use a in \<open>auto simp: start_sound_def ra_same_def\<close>)
next
  fix a b r assume "bof_closed p n V C \<and> ra_ok (pag p) n V a \<and> start_sound (pag p) V R a"
  then show "bof_closed p n V C \<and> ra_ok (pag p) n V (setBufferRange b r a) \<and> start_sound (pag p) V R (setBufferRange b r a)"
    by (simp add: start_sound_def ra_sound_def)
next
  fix a r c f assume "bof_closed p n V C \<and> ra_ok (pag p) n V a \<and> start_sound (pag p) V R a" "range_ok r"
  then show "bof_closed p n V C \<and> ra_ok (pag p) n V (bindFormalRange (Some c) (Some f) r a)
      \<and> start_sound (pag p) V R (bindFormalRange (Some c) (Some f) r a)"
    by (simp add: start_sound_def ra_sound_def ra_ok_bind boundFormal_def)
qed simp

lemma start_values:
  assumes "\<And>ctx x v. v \<in> R ctx x \<Longrightarrow> in64 v" "start_sound p V (R None) a"
    "\<And>ctx. ctx \<in> C \<Longrightarrow> ra_model p ctx V (\<lambda>x. boundFormal ctx x a) (R ctx)"
  shows "values_ok p V C R a"
proof -
  have "ra_sound ctx V (\<lambda>x. boundFormal ctx x a) (R ctx) a" for ctx
    using assms(2) by (cases ctx) (simp_all add: start_sound_def ra_sound_def boundFormal_def)
  then show ?thesis using assms by (simp add: values_ok_def start_sound_def ra_sound_def)
qed

text \<open>C1: No overflow that the checker's model of pointers describes is missed. Let a run with guard narrowing off give the
  reports \<open>out\<close>, and let \<open>R\<close> be the values of the variables under each calling context, as the edges, the constants, the
  project facts and the bindings of formals describe them. Take a pointer that comes from a buffer by pointer arithmetic,
  copies, stores, loads and returns, and an access through it by the edge \<open>e\<close> at a node \<open>l\<close> that is not ignored. If the offset is
  outside the known buffer and the pointer is not one to a field, or if an index of the edge escapes the array or struct on the
  stack that it selects from, then an out-of-bounds access at the location of \<open>l\<close> is among the reports.
  The scope is that of \<open>R\<close>, \<open>op_adds\<close> and \<open>flow_step\<close>. \<open>R\<close> counts arithmetic right shifts and unsigned divisions for
  non-negative operands only (\<open>binop_covered\<close>). Through an index into an array or a struct the pointer is followed on the stack,
  while the index is inside, at most one dimension is not 0 and the layout is increasing; with two dimensions, or with an
  index into an aggregate on the heap, the checker computes a wrong offset and can miss an overflow. Accesses through
  pointers to fields are not checked at all. How calls are entered is not part of \<open>flow_step\<close>, because the checker enters them
  to a limited depth; the context of the pointer is what entering calls makes it.\<close>

theorem no_missed_overflow:
  assumes closed: "bof_closed p n V C" and off: "\<not> guardEnabled (ra_new env)"
    and start: "bof_then (initialize p n (bof_new env)) (bindCallArguments p n) = Inr s"
    and run: "runOnModule p n env mayAsMust = Some (Inr out)"
    and R: "\<And>ctx x v. v \<in> R ctx x \<Longrightarrow> in64 v"
      "\<And>ctx. ctx \<in> C \<Longrightarrow> ra_model (pag p) ctx V (\<lambda>x. boundFormal ctx x (rangeAnalysis s)) (R ctx)"
    and flow: "pointer_flow p R s k v" "e \<in> set (outEdges p (fst (snd k)))"
    and access: "overflows p R s k v e l" "\<not> ignoredSource p (sourceLoc p l)"
  shows "\<exists>(r, shown)\<in>set out. sourceLoc p (pr_loc r) = sourceLoc p l \<and> pr_kind r = GEP_OOB"
proof -
  have m: "ra_model (pag p) None V (\<lambda>_. None) (R None)"
    using R(2) [of None] bof_closedD(7) [OF closed] by (simp add: boundFormal_def)
  let ?I = "\<lambda>a. bof_closed p n V C \<and> ra_ok (pag p) n V a \<and> start_sound (pag p) V (R None) a"
  have "?I (ra_new env)"
    using closed ra_ok_new [OF closed] m off
    by (simp add: start_sound_def ra_sound_def boundFormal_def) (simp add: ra_new_def getCachedVarRange_def getVarRange_def split: option.split)
  from starting.start_ready [OF this] have s: "ready p V C ?I s" "\<And>a. a \<in> set (addrStmts p) \<Longrightarrow> seed_done p s a"
    by (simp_all add: start)
  have vals: "values_ok (pag p) V C R (rangeAnalysis s)"
    by (rule start_values [OF R(1) _ R(2)]) (use ready_ra [OF s(1)] in auto)
  let ?loop = "valued.loop_inv p V C (heap_of p) n R"
  have "?loop s"
    unfolding valued.loop_inv_def
    using ready_loop(1,2) [OF s(1)] vals bof_closedD(1) [OF closed] by (auto simp: flow_inv_def all_queued_def)
  from valued.propagate_ok [OF this] obtain r where r: "propagate p n s = Some r"
      "bof_ok (\<lambda>t. ?loop t \<and> flow_grows s t \<and> flowQueue t = []) r" by blast
  obtain t u where rt: "r = Inr t" and u: "checkMemoryOps p n t = Inr u" "out = flushReports p mayAsMust u"
    using run unfolding runOnModule_def start sum.case r(1) by (auto simp: bof_then_def r(1) split: sum.splits)
  have t: "propagate p n s = Some (Inr t)" and loop: "?loop t" "flow_grows s t" "flowQueue t = []" using r rt by simp_all
  have dn: "edge_done p (heap_of p) R k r e t" if "flowState t k = Some r" "e \<in> set (outEdges p (fst (snd k)))" for k r e
    using loop(1) that unfolding valued.loop_inv_def loop(3) list.set by blast
  have "holds t k v" by (rule fixpoint_holds [OF dn s(2) loop(2) flow(1)])
  then obtain r where k: "flowState t k = Some r" "v \<in> gam r" by (auto simp: holds_def split: option.splits)
  have side: "side_inv p t" by (rule propagate_side [OF t ready_side [OF s(1)]])
  have "report_key p l GEP_OOB (snd (snd k)) \<in> bugLoc t"
    using overflows_keyed [OF access(1) dn [OF k(1) flow(2)] k(2) loop(2) _ access(2)] side by (simp add: side_inv_def)
  then have "report_key p l GEP_OOB (snd (snd k)) \<in> pending_key p ` set (pendingReports t)" using side by (simp add: side_inv_def)
  moreover have "set (pendingReports t) \<subseteq> set (pendingReports u)"
  proof -
    have "bof_closed p n V C \<and> ra_ok (pag p) n V (rangeAnalysis t)"
      using closed loop(1) unfolding valued.loop_inv_def flow_inv_def by blast
    from returning.checkMemoryOps_ok [OF this] show ?thesis unfolding u(1) bof_ok_simps returning.adds_reports_def by blast
  qed
  ultimately show ?thesis unfolding u(2) by (rule pending_emitted)
qed

text \<open>The first four elements of an array, and a pointer to the four behind it.\<close>

definition demo_step :: "int \<Rightarrow> bof_program" where
  "demo_step c = (demo c)\<lparr>outEdges := (\<lambda>x. if x = 1 then [GepEdge \<lparr>gep_dst = 2, gep_loc = Some 10,
     idxOperandPairs = [(3, Some 1)], gepPointeeType = 0\<rparr>] else if x = 2 then [StoreEdge 2 5 (Some 11)] else [])\<rparr>"

text \<open>The run on this program, in the steps of the checker.\<close>

lemma demo_step_sel [simp]:
  "constVal (pag (demo_step c)) 3 = Some c" "resolveRange (pag (demo_step c)) x ctx = None"
  "outEdges (demo_step c) (Suc 0) = [GepEdge \<lparr>gep_dst = 2, gep_loc = Some 10, idxOperandPairs = [(3, Some 1)], gepPointeeType = 0\<rparr>]"
  "outEdges (demo_step c) 2 = [StoreEdge 2 5 (Some 11)]" "outEdges (demo_step c) 5 = []"
  "tyKind (demo_step c) (Suc 0) = SVFPointerTy" "getElementNum (demo_step c) 0 = Some 4"
  "sourceLoc (demo_step c) n = ''ln'' @ to_string (int n)" "ignoredSource (demo_step c) l = False" "isConstInt (demo_step c) 3"
  "callNode (demo_step c) nd = None"
  by (simp_all add: demo_step_def demo_def getElementNum_def getNumOfFlattenElements_def isConstInt_def)

definition demo_node :: "nat \<Rightarrow> int \<Rightarrow> flow_node" where
  "demo_node x v = \<lparr>fn_base = x, fn_parent = 0, fn_offset = const_range v, fn_isHeap = False, fn_callDepth = 0, fn_callContext = None\<rparr>"

lemma demo_node_sel [simp]:
  "fn_base (demo_node x v) = x" "fn_parent (demo_node x v) = 0" "fn_offset (demo_node x v) = const_range v"
  "\<not> fn_isHeap (demo_node x v)" "fn_callContext (demo_node x v) = None"
  by (simp_all add: demo_node_def)

text \<open>An offset that is new to a key.\<close>

lemma demo_enqueue:
  assumes "flowState s (0, x, None) = None"
  shows "flowQueue (enqueue_from x (const_range v) (demo_node y w) s) = flowQueue s @ [demo_node x v]"
    "flowState (enqueue_from x (const_range v) (demo_node y w) s) = (flowState s)((0, x, None) \<mapsto> const_range v)"
    "fieldSafeVars (enqueue_from x (const_range v) (demo_node y w) s) = fieldSafeVars s"
  using assms by (simp_all add: enqueue_from_def enqueue_def Let_def range_join_def widening_def isBottom_def demo_node_def const_range_def)

lemma demo_ranges: "range_mul (const_range 1) (const_range 4) = Some (const_range 4)"
   "range_add (const_range 0) (const_range 4) = Some (const_range 4)"
   "range_add (const_range 4) (const_range 0) = Some (const_range 4)"
  by code_simp+

lemma demo_query:
  assumes "isBottom (getCachedVarRange None 3 (rangeAnalysis s))"
  shows "bof_query (demo_step 1) 7 None 3 s =
   Inr (const_range 1, s\<lparr>rangeAnalysis := setCachedVarRange None 3 (const_range 1) (rangeAnalysis s)\<rparr>)"
proof -
  have s: "7 = Suc 6" by simp
  have "analyzeVarRange q 7 ctx x d a = analyzeBody q (analyzeVarRange q 6 ctx) ctx x d a" for q ctx x d a
    unfolding s by (simp only: analyzeVarRange.simps)
  then show ?thesis using assms by (simp add: bof_query_def analyzeBody_def MAX_RECURSION_DEPTH_def boundFormal_def)
qed

lemma demo_gep:
  assumes "isBottom (getCachedVarRange None 3 (rangeAnalysis s))" "flowState s (0, 2, None) = None" "fieldSafeVars s = {}"
  shows "\<exists>t. handle_edge (demo_step 1) 7 (demo_node 1 0) (GepEdge \<lparr>gep_dst = 2, gep_loc = Some 10, idxOperandPairs = [(3, Some 1)], gepPointeeType = 0\<rparr>) s = Inr t
    \<and> flowQueue t = flowQueue s @ [demo_node 2 4] \<and> flowState t = (flowState s)((0, 2, None) \<mapsto> const_range 4) \<and> fieldSafeVars t = {}"
  using assms demo_ranges
  by (simp add: handleGep_def gep_offset_def gep_operand_def demo_query gep_dim_def asserted_def defined_def constStructFieldNav_def demo_enqueue)

lemma demo_store:
  assumes "flowState s (0, 5, None) = None" "fieldSafeVars s = {}"
  shows "\<exists>t. handle_edge (demo_step 1) 7 (demo_node 2 4) (StoreEdge 2 5 (Some 11)) s = Inr t
    \<and> flowQueue t = flowQueue s @ [demo_node 5 4] \<and> flowState t = (flowState s)((0, 5, None) \<mapsto> const_range 4) \<and> fieldSafeVars t = {}"
  using assms by (simp add: handleCopyLike_def demo_enqueue)

lemma propagate_step:
  "flowQueue s \<noteq> [] \<Longrightarrow> propagate_one p n s = Inr t \<Longrightarrow> propagate p n s = propagate p n t"
  by (simp add: propagate_def work_loop.simps [of _ _ "Inr s"] propagate_stop_def)

lemma propagate_end: "flowQueue s = [] \<Longrightarrow> propagate p n s = Some (Inr s)"
  by (simp add: propagate_def work_loop.simps [of _ _ "Inr s"] propagate_stop_def)

lemma demo_propagate:
  assumes "flowQueue s = [demo_node 1 0]" "flowState s = [(0, 1, None) \<mapsto> const_range 0]"
    "isBottom (getCachedVarRange None 3 (rangeAnalysis s))" "fieldSafeVars s = {}"
  shows "\<exists>t. propagate (demo_step 1) 7 s = Some (Inr t)"
proof -
  obtain t where t: "propagate_one (demo_step 1) 7 s = Inr t" "flowQueue t = [demo_node 2 4]"
      "flowState t = [(0, 1, None) \<mapsto> const_range 0, (0, 2, None) \<mapsto> const_range 4]" "fieldSafeVars t = {}"
    using demo_gep [of "s\<lparr>flowQueue := []\<rparr>"] assms by (auto simp: propagate_one_def)
  obtain u where u: "propagate_one (demo_step 1) 7 t = Inr u" "flowQueue u = [demo_node 5 4]"
    using demo_store [of "t\<lparr>flowQueue := []\<rparr>"] t by (auto simp: propagate_one_def)
  have "propagate_one (demo_step 1) 7 u = Inr (u\<lparr>flowQueue := []\<rparr>)" by (simp add: propagate_one_def u(2))
  then have "propagate (demo_step 1) 7 u = Some (Inr (u\<lparr>flowQueue := []\<rparr>))"
    using u(2) by (simp add: propagate_step propagate_end)
  then show ?thesis
    using propagate_step [OF _ t(1)] propagate_step [OF _ u(1)] assms(1) t(2) by simp
qed

definition demo_state :: "string option \<Rightarrow> bof" where
  "demo_state env = enqueue 1 0 (mk_range 0 0) False 0 None
     ((bof_new env)\<lparr>rangeAnalysis := setBufferRange 0 (mk_range 0 3) (ra_new env)\<rparr>)"

lemma demo_start: "bof_then (initialize (demo_step c) 7 (bof_new env)) (bindCallArguments (demo_step c) 7) = Inr (demo_state env)"
  by (simp add: demo_state_def initialize_def bindCallArguments_def demo_step_def demo_def init_addr_def ignored_at_def seed_addr_def Let_def
     analyzeBufferRange_stack_def to_s64_def asserted_def seed_buffer_def seedBufferUnderCallContexts_def seed_contexts_def bof_new_def)

lemma demo_state_sel [simp]:
  "flowQueue (demo_state env) = [demo_node 1 0]" "flowState (demo_state env) = [(0, 1, None) \<mapsto> const_range 0]"
  "isBottom (getCachedVarRange None x (rangeAnalysis (demo_state env)))" "fieldSafeVars (demo_state env) = {}"
  "getBufferRange 0 (rangeAnalysis (demo_state env)) = mk_range 0 3" "boundFormal ctx x (rangeAnalysis (demo_state env)) = None"
  by (simp_all add: demo_state_def enqueue_def Let_def range_join_def widening_def isBottom_def demo_node_def const_range_def mk_range_def
    bof_new_def ra_new_def setBufferRange_def getBufferRange_def getCachedVarRange_def getVarRange_def boundFormal_def split: option.split)

lemma demo_run: "\<exists>out. runOnModule (demo_step 1) 7 env m = Some (Inr out)"
proof -
  obtain t where t: "propagate (demo_step 1) 7 (demo_state env) = Some (Inr t)" using demo_propagate [of "demo_state env"] by auto
  have "bof_fold (check_node (demo_step 1) 7 orc) nds s = Inr s" for orc nds s by (induction nds) (simp_all add: check_node_def)
  then show ?thesis by (simp add: runOnModule_def demo_start t checkMemoryOps_def)
qed

lemma demo_step_closed: "in64 c \<Longrightarrow> bof_closed (demo_step c) 7 {0, 1, 2, 3, 4, 5} {None}"
  by (auto simp: bof_closed_def flow_closed_def sizes_ok_def closed_def facts_ok_def demo_step_def demo_def in64_def bounds_defs)


definition demo_values :: "nat option \<Rightarrow> nat \<Rightarrow> int set" where
  "demo_values ctx x = (if x = 3 then {1} else if x = 4 then {0} else {})"

lemma demo_model: "ra_model (pag (demo_step 1)) ctx {0, 1, 2, 3, 4, 5} (\<lambda>_. None) (demo_values ctx)"
  by (simp add: ra_model_def value_model_def closed_def demo_values_def demo_step_def demo_def in64_def bounds_defs)

lemma demo_no_field: "\<not> field_pointer (demo_step c) x"
proof
  assume "field_pointer (demo_step c) x"
  then show False
  proof (induction rule: field_pointer.induct)
    case (constant_field e x)
    then show ?case by (auto simp: demo_step_def demo_def navigates_def split: if_splits)
  qed
qed

text \<open>The same for \<open>a[9]\<close> on the array of four elements: the index escapes, and is reported at the pointer arithmetic.\<close>

abbreviation array_gep :: gep_stmt where
  "array_gep \<equiv> \<lparr>gep_dst = 2, gep_loc = Some 10, idxOperandPairs = [(4, Some 1), (3, Some 0)], gepPointeeType = 0\<rparr>"

lemma demo_array_sel [simp]:
  "constVal (pag (demo c)) 3 = Some c" "constVal (pag (demo c)) 4 = Some 0" "resolveRange (pag (demo c)) x ctx = None"
  "outEdges (demo c) (Suc 0) = [GepEdge array_gep]" "outEdges (demo c) 2 = [StoreEdge 2 5 (Some 11)]" "outEdges (demo c) 5 = []"
  "tyKind (demo c) (Suc 0) = SVFPointerTy" "tyKind (demo c) 0 = SVFArrayTy" "getElementNum (demo c) 0 = Some 4"
  "flattenedElemIdxVec (demo c) 0 = [0, 1, 2, 3]" "isConstInt (demo c) 3" "isConstInt (demo c) 4" "callNode (demo c) nd = None"
  by (simp_all add: demo_def getElementNum_def getNumOfFlattenElements_def isConstInt_def)

lemma demo_array_query:
  assumes "isBottom (getCachedVarRange None x (rangeAnalysis s))" "constVal (pag (demo c)) x = Some k"
  shows "bof_query (demo c) 7 None x s =
   Inr (const_range k, s\<lparr>rangeAnalysis := setCachedVarRange None x (const_range k) (rangeAnalysis s)\<rparr>)"
proof -
  have s: "7 = Suc 6" by simp
  have "analyzeVarRange q 7 ctx x d a = analyzeBody q (analyzeVarRange q 6 ctx) ctx x d a" for q ctx x d a
    unfolding s by (simp only: analyzeVarRange.simps)
  then show ?thesis using assms by (simp add: bof_query_def analyzeBody_def MAX_RECURSION_DEPTH_def boundFormal_def)
qed

lemma demo_array_gep:
  assumes "isBottom (getCachedVarRange None 3 (rangeAnalysis s))" "isBottom (getCachedVarRange None 4 (rangeAnalysis s))"
    "flowState s (0, 2, None) = None" "fieldSafeVars s = {}"
  shows "\<exists>t. handle_edge (demo 9) 7 (demo_node 1 0) (GepEdge array_gep) s = Inr t
    \<and> flowQueue t = flowQueue s @ [demo_node 2 0] \<and> flowState t = (flowState s)((0, 2, None) \<mapsto> const_range 0) \<and> fieldSafeVars t = {}"
proof -
  have r: "range_mul (const_range 0) (const_range 4) = Some (const_range 0)" "range_add (const_range 0) (const_range 0) = Some (const_range 0)"
    "\<not> isSubset (const_range 9) (mk_range 0 3)" "isBottom (range_meet (const_range 9) (mk_range 0 3))" by code_simp+
  show ?thesis using assms r
    by (simp add: handleGep_def gep_offset_def gep_operand_def demo_array_query gep_dim_def gep_field_def Let_def asserted_def defined_def
      constStructFieldNav_def demo_enqueue getCached_set_any)
qed

lemma demo_array_store:
  assumes "flowState s (0, 5, None) = None" "fieldSafeVars s = {}"
  shows "\<exists>t. handle_edge (demo 9) 7 (demo_node 2 0) (StoreEdge 2 5 (Some 11)) s = Inr t \<and> flowQueue t = flowQueue s @ [demo_node 5 0]"
  using assms by (simp add: handleCopyLike_def demo_enqueue)

lemma demo_array_start: "bof_then (initialize (demo c) 7 (bof_new env)) (bindCallArguments (demo c) 7) = Inr (demo_state env)"
  by (simp add: demo_state_def initialize_def bindCallArguments_def demo_def init_addr_def ignored_at_def seed_addr_def Let_def
     analyzeBufferRange_stack_def to_s64_def asserted_def seed_buffer_def seedBufferUnderCallContexts_def seed_contexts_def bof_new_def)

lemma demo_array_run: "\<exists>out. runOnModule (demo 9) 7 env m = Some (Inr out)"
proof -
  let ?s = "demo_state env"
  obtain t where t: "propagate_one (demo 9) 7 ?s = Inr t" "flowQueue t = [demo_node 2 0]"
      "flowState t = [(0, 1, None) \<mapsto> const_range 0, (0, 2, None) \<mapsto> const_range 0]" "fieldSafeVars t = {}"
    using demo_array_gep [of "?s\<lparr>flowQueue := []\<rparr>"] by (auto simp: propagate_one_def)
  obtain u where u: "propagate_one (demo 9) 7 t = Inr u" "flowQueue u = [demo_node 5 0]"
    using demo_array_store [of "t\<lparr>flowQueue := []\<rparr>"] t by (auto simp: propagate_one_def)
  have "propagate_one (demo 9) 7 u = Inr (u\<lparr>flowQueue := []\<rparr>)" by (simp add: propagate_one_def u(2))
  then have "propagate (demo 9) 7 u = Some (Inr (u\<lparr>flowQueue := []\<rparr>))"
    using u(2) by (simp add: propagate_step propagate_end)
  then obtain w where w: "propagate (demo 9) 7 ?s = Some (Inr w)"
    using propagate_step [OF _ t(1)] propagate_step [OF _ u(1)] t(2) by simp
  have "bof_fold (check_node (demo 9) 7 orc) nds s = Inr s" for orc nds s by (induction nds) (simp_all add: check_node_def)
  then show ?thesis by (simp add: runOnModule_def demo_array_start w checkMemoryOps_def)
qed

definition array_values :: "nat option \<Rightarrow> nat \<Rightarrow> int set" where
  "array_values ctx x = (if x = 3 then {9} else if x = 4 then {0} else {})"

lemma array_model: "ra_model (pag (demo 9)) ctx {0, 1, 2, 3, 4, 5} (\<lambda>_. None) (array_values ctx)"
  by (simp add: ra_model_def value_model_def closed_def array_values_def demo_def in64_def bounds_defs)

lemma no_missed_overflow_witness:
  "(\<exists>out. runOnModule (demo_step 1) 7 (Some ''1'') False = Some (Inr out)
    \<and> (\<exists>(r, shown)\<in>set out. sourceLoc (demo_step 1) (pr_loc r) = sourceLoc (demo_step 1) 10 \<and> pr_kind r = GEP_OOB))
    \<and> (\<exists>out. runOnModule (demo 9) 7 (Some ''1'') False = Some (Inr out)
    \<and> (\<exists>(r, shown)\<in>set out. sourceLoc (demo 9) (pr_loc r) = sourceLoc (demo 9) 10 \<and> pr_kind r = GEP_OOB))"
proof
  obtain out where out: "runOnModule (demo_step 1) 7 (Some ''1'') False = Some (Inr out)" using demo_run by blast
  let ?e = "\<lparr>gep_dst = 2, gep_loc = Some 10, idxOperandPairs = [(3, Some 1)], gepPointeeType = 0\<rparr>"
  let ?s = "demo_state (Some ''1'')"
  have "gep_moves (demo_step 1) (demo_values None) (heap_of (demo_step 1) 0) ?e 4"
    by (simp add: gep_moves_def op_adds_def heap_of_def demo_values_def in64_def bounds_defs) (simp add: demo_step_def demo_def)
  then have step: "flow_step (demo_step 1) demo_values (0, 1, None) 0 (GepEdge ?e) (0, gep_dst ?e, None) (4 + 0)"
    by (rule step_gep) (simp add: in64_def bounds_defs)
  have flow: "pointer_flow (demo_step 1) demo_values ?s (0, 1, None) 0"
    by (rule held) (simp add: holds_def const_range_def)
  have "overflows (demo_step 1) demo_values ?s (0, 1, None) 0 (GepEdge ?e) 10"
    by (rule overflows.outside [OF step]) (use demo_no_field in \<open>simp_all add: isBottom_def\<close>)
  then have "\<exists>(r, shown)\<in>set out. sourceLoc (demo_step 1) (pr_loc r) = sourceLoc (demo_step 1) 10 \<and> pr_kind r = GEP_OOB"
    by (intro no_missed_overflow [OF demo_step_closed _ demo_start out _ _ flow])
      (use demo_model in \<open>auto simp: in64_def bounds_defs ra_new_def demo_values_def isBottom_def split: if_splits\<close>)
  then show "\<exists>out. runOnModule (demo_step 1) 7 (Some ''1'') False = Some (Inr out)
    \<and> (\<exists>(r, shown)\<in>set out. sourceLoc (demo_step 1) (pr_loc r) = sourceLoc (demo_step 1) 10 \<and> pr_kind r = GEP_OOB)"
    using out by blast
next
  obtain out where out: "runOnModule (demo 9) 7 (Some ''1'') False = Some (Inr out)" using demo_array_run by blast
  let ?s = "demo_state (Some ''1'')"
  have flow: "pointer_flow (demo 9) array_values ?s (0, 1, None) 0"
    by (rule held) (simp add: holds_def const_range_def)
  have "overflows (demo 9) array_values ?s (0, 1, None) 0 (GepEdge array_gep) 10"
    by (rule overflows.escaping [of "(3, Some 0)" _ 9]) (simp_all add: array_values_def escapes_def heap_of_def, simp_all add: demo_def)
  then have "\<exists>(r, shown)\<in>set out. sourceLoc (demo 9) (pr_loc r) = sourceLoc (demo 9) 10 \<and> pr_kind r = GEP_OOB"
    by (intro no_missed_overflow [OF demo_closed _ demo_array_start out _ _ flow])
      (use array_model in \<open>auto simp: in64_def bounds_defs ra_new_def array_values_def isBottom_def split: if_splits\<close>)
  then show "\<exists>out. runOnModule (demo 9) 7 (Some ''1'') False = Some (Inr out)
    \<and> (\<exists>(r, shown)\<in>set out. sourceLoc (demo 9) (pr_loc r) = sourceLoc (demo 9) 10 \<and> pr_kind r = GEP_OOB)"
    using out by blast
qed

end
