(* ===== verification/CflGrammar.thy ===== *)
theory CflGrammar
  imports WorkLists
begin

text \<open>
  The grammars of the CFL reachability analysis: symbols and their packing into 32 bits, the tables of
  kinds and the reading of symbol names (\<open>GrammarBase\<close> and \<open>CFGrammar\<close> in
  \<open>svf/include/CFL/CFGrammar.h\<close> and \<open>svf/lib/CFL/CFGrammar.cpp\<close>), and the last step of the
  normalisation, in which variable attributes are filled in and the productions are put into the tables
  that the solvers look into (\<open>fillAttribute\<close> in \<open>svf/lib/CFL/CFGNormalizer.cpp\<close>).

  A failed assertion, \<open>abort\<close> or uncaught exception is \<open>None\<close>. Hash maps and sets are lists in the order of
  their iteration.
\<close>

section \<open>Symbols\<close>

type_synonym u32 = "32 word"

record symbol =
  kind :: "8 word"
  attribute :: "16 word"
  variableAttribute :: "8 word"

definition sym_default :: symbol where
  "sym_default = \<lparr>kind = 0, attribute = 0, variableAttribute = 0\<rparr>"

definition sym_of :: "u32 \<Rightarrow> symbol" where
  "sym_of num = \<lparr>kind = ucast (num AND 0xFF), attribute = ucast (drop_bit 8 num AND 0xFFFF),
     variableAttribute = ucast (drop_bit 24 num)\<rparr>"

definition sym_num :: "symbol \<Rightarrow> u32" where
  "sym_num s = 0 + push_bit 24 (ucast (variableAttribute s)) + push_bit 8 (ucast (attribute s)) + ucast (kind s)"

text \<open>\<open>operator=\<close> for \<open>u32_t\<close> and for \<open>unsigned long long\<close>\<close>

definition sym_assign :: "u32 \<Rightarrow> symbol" where
  "sym_assign i = \<lparr>kind = ucast (0xFF AND i), attribute = ucast (drop_bit 8 i), variableAttribute = ucast (drop_bit 24 i)\<rparr>"

definition sym_assign_ull :: "u64 \<Rightarrow> symbol" where
  "sym_assign_ull num = \<lparr>kind = ucast (num AND 0xFF), attribute = ucast (drop_bit 8 num AND 0xFFFF),
     variableAttribute = ucast (drop_bit 24 num)\<rparr>"

definition sym_less :: "symbol \<Rightarrow> symbol \<Rightarrow> bool" where
  "sym_less s t = (sym_num s < sym_num t)"

definition sym_eq :: "symbol \<Rightarrow> symbol \<Rightarrow> bool" where
  "sym_eq s t = (kind s = kind t \<and> attribute s = attribute t \<and> variableAttribute s = variableAttribute t)"

definition sym_eq_u32 :: "symbol \<Rightarrow> u32 \<Rightarrow> bool" where
  "sym_eq_u32 s i = (sym_num s = i)"

definition getAttributedKind :: "u32 \<Rightarrow> u32 \<Rightarrow> u32" where
  "getAttributedKind attr k = (push_bit 8 attr OR k)"

definition getVariabledKind :: "u32 \<Rightarrow> u32 \<Rightarrow> u32" where
  "getVariabledKind va k = (push_bit 24 va OR k)"

type_synonym production = "symbol list"

section \<open>The tables of kinds\<close>

record gram =
  startKind :: u32
  nonterminals :: "(string \<times> u32) list"
  terminals :: "(string \<times> u32) list"
  EBNFSigns :: "(string \<times> u32) list"
  attributeKinds :: "u32 list"
  kindToAttrs :: "(u32 \<times> u32 list) list"
  rawProductions :: "(symbol \<times> production list) list"
  totalKind :: u32

definition gram_new :: gram where
  "gram_new = \<lparr>startKind = 0, nonterminals = [], terminals = [], EBNFSigns = [], attributeKinds = [], kindToAttrs = [],
     rawProductions = [], totalKind = 0\<rparr>"

definition strToKind :: "('a gram_scheme) \<Rightarrow> string \<Rightarrow> u32 option" where
  "strToKind g str = (case map_of (terminals g) str of Some k \<Rightarrow> Some k
     | None \<Rightarrow> (case map_of (nonterminals g) str of Some k \<Rightarrow> Some k
     | None \<Rightarrow> map_of (EBNFSigns g) str))"

fun find_kind :: "(string \<times> u32) list \<Rightarrow> u32 \<Rightarrow> string option" where
  "find_kind [] k = None"
| "find_kind ((s, k') # m) k = (if k' = k then Some s else find_kind m k)"

definition kindToStr :: "('a gram_scheme) \<Rightarrow> u32 \<Rightarrow> string" where
  "kindToStr g k = (case find_kind (terminals g) k of Some s \<Rightarrow> s
     | None \<Rightarrow> (case find_kind (nonterminals g) k of Some s \<Rightarrow> s
     | None \<Rightarrow> (case find_kind (EBNFSigns g) k of Some s \<Rightarrow> s | None \<Rightarrow> [])))"

definition insertTerminalKind :: "string \<Rightarrow> 'a gram_scheme \<Rightarrow> (u32 \<times> 'a gram_scheme) option" where
  "insertTerminalKind kindStr g =
     (if map_of (terminals g) kindStr = None
      then Some (totalKind g, g\<lparr>totalKind := totalKind g + 1, terminals := terminals g @ [(kindStr, totalKind g)]\<rparr>)
      else map_option (\<lambda>k. (k, g)) (strToKind g kindStr))"

definition insertNonterminalKind :: "string \<Rightarrow> 'a gram_scheme \<Rightarrow> (u32 \<times> 'a gram_scheme) option" where
  "insertNonterminalKind kindStr g =
     (if map_of (nonterminals g) kindStr = None
      then Some (totalKind g, g\<lparr>totalKind := totalKind g + 1, nonterminals := nonterminals g @ [(kindStr, totalKind g)]\<rparr>)
      else map_option (\<lambda>k. (k, g)) (strToKind g kindStr))"

definition insertEBNFSigns :: "string \<Rightarrow> 'a gram_scheme \<Rightarrow> (symbol \<times> 'a gram_scheme) option" where
  "insertEBNFSigns symbolStr g =
     (if map_of (EBNFSigns g) symbolStr = None
      then let sign = sym_assign (totalKind g) in
        Some (sign, g\<lparr>totalKind := totalKind g + 1, EBNFSigns := EBNFSigns g @ [(symbolStr, sym_num sign)]\<rparr>)
      else map_option (\<lambda>k. (sym_assign k, g)) (strToKind g symbolStr))"

definition insertAttribute :: "u32 \<Rightarrow> u32 \<Rightarrow> 'a gram_scheme \<Rightarrow> 'a gram_scheme" where
  "insertAttribute k a g =
     (let g1 = g\<lparr>attributeKinds := List.insert k (attributeKinds g)\<rparr> in
      case map_of (kindToAttrs g1) k of
        Some as \<Rightarrow> g1\<lparr>kindToAttrs := map (\<lambda>e. if fst e = k then (k, List.insert a as) else e) (kindToAttrs g1)\<rparr>
      | None \<Rightarrow> g1\<lparr>kindToAttrs := kindToAttrs g1 @ [(k, [a])]\<rparr>)"

section \<open>Names of symbols\<close>

text \<open>Characters of the classes of \<open>isdigit\<close>, \<open>isalpha\<close> and \<open>isupper\<close> in the C locale.\<close>

definition char_code :: "char \<Rightarrow> nat" where
  "char_code c = of_char c"

definition is_digit :: "char \<Rightarrow> bool" where
  "is_digit c = (48 \<le> char_code c \<and> char_code c \<le> 57)"

definition is_upper :: "char \<Rightarrow> bool" where
  "is_upper c = (65 \<le> char_code c \<and> char_code c \<le> 90)"

definition is_alpha :: "char \<Rightarrow> bool" where
  "is_alpha c = (is_upper c \<or> 97 \<le> char_code c \<and> char_code c \<le> 122)"

text \<open>\<open>find_last_of\<close> for the underscore\<close>

fun last_underscore :: "string \<Rightarrow> nat option" where
  "last_underscore [] = None"
| "last_underscore (c # s) = (case last_underscore s of Some i \<Rightarrow> Some (Suc i)
     | None \<Rightarrow> if c = CHR ''_'' then Some 0 else None)"

definition extractKindStr :: "string \<Rightarrow> string" where
  "extractKindStr str = (case last_underscore str of None \<Rightarrow> str | Some p \<Rightarrow> take p str)"

definition extractAttributeStr :: "string \<Rightarrow> string" where
  "extractAttributeStr str = (case last_underscore str of None \<Rightarrow> [] | Some p \<Rightarrow> drop (p + 1) str)"

text \<open>\<open>stoi\<close> of a string of digits; it throws when the number is not an \<open>int\<close>.\<close>

definition digits_value :: "string \<Rightarrow> nat" where
  "digits_value s = foldl (\<lambda>n c. 10 * n + (char_code c - 48)) 0 s"

definition stoi_digits :: "string \<Rightarrow> nat option" where
  "stoi_digits s = (if digits_value s < 2 ^ 31 then Some (digits_value s) else None)"

text \<open>The attribute part, which the three functions that read a symbol share: whether there is an
  attribute, and the symbol with it.\<close>

definition read_attribute :: "string \<Rightarrow> symbol \<Rightarrow> (bool \<times> symbol) option" where
  "read_attribute attributeStr symbol =
     (if attributeStr = [] then Some (False, symbol)
      else if length attributeStr = 1 \<and> is_alpha (last attributeStr)
      then Some (True, symbol\<lparr>variableAttribute := of_nat (char_code (last attributeStr))\<rparr>)
      else if \<forall>c\<in>set attributeStr. is_digit c
      then map_option (\<lambda>n. (True, symbol\<lparr>attribute := of_nat n\<rparr>)) (stoi_digits attributeStr)
      else None)"

definition strToSymbol :: "'a gram_scheme \<Rightarrow> string \<Rightarrow> symbol option" where
  "strToSymbol g str = Option.bind (strToKind g (extractKindStr str)) (\<lambda>k.
     map_option snd (read_attribute (extractAttributeStr str) (sym_default\<lparr>kind := ucast k\<rparr>)))"

definition symToStr_parts :: "'a gram_scheme \<Rightarrow> symbol \<Rightarrow> string \<times> nat option" where
  "symToStr_parts g s =
     (let k = ucast (kind s); a = if attribute s \<noteq> 0 then Some (unat (attribute s)) else None in
      case find_kind (terminals g) k of Some key \<Rightarrow> (key, a)
      | None \<Rightarrow> (case find_kind (nonterminals g) k of Some nkey \<Rightarrow> (nkey, a) | None \<Rightarrow> ([], None)))"

definition mark_attribute :: "bool \<Rightarrow> symbol \<Rightarrow> 'a gram_scheme \<Rightarrow> 'a gram_scheme" where
  "mark_attribute b s g = (if b then g\<lparr>attributeKinds := List.insert (ucast (kind s)) (attributeKinds g)\<rparr> else g)"

definition insertTerminalSymbol :: "string \<Rightarrow> 'a gram_scheme \<Rightarrow> (symbol \<times> 'a gram_scheme) option" where
  "insertTerminalSymbol symbolStr g = Option.bind (insertTerminalKind (extractKindStr symbolStr) g) (\<lambda>(k, g').
     map_option (\<lambda>(b, s). (s, mark_attribute b s g'))
       (read_attribute (extractAttributeStr symbolStr) (sym_default\<lparr>kind := ucast k\<rparr>)))"

definition insertNonTerminalSymbol :: "string \<Rightarrow> 'a gram_scheme \<Rightarrow> (symbol \<times> 'a gram_scheme) option" where
  "insertNonTerminalSymbol symbolStr g = Option.bind (insertNonterminalKind (extractKindStr symbolStr) g) (\<lambda>(k, g').
     map_option (\<lambda>(b, s). (s, mark_attribute b s g'))
       (read_attribute (extractAttributeStr symbolStr) (sym_default\<lparr>kind := ucast k\<rparr>)))"

definition insertSymbol :: "string \<Rightarrow> 'a gram_scheme \<Rightarrow> (symbol \<times> 'a gram_scheme) option" where
  "insertSymbol symbolStr g =
     (if length symbolStr = 1 \<and> \<not> is_alpha (hd symbolStr) then insertEBNFSigns symbolStr g
      else if symbolStr \<noteq> [] \<and> is_upper (hd symbolStr) then insertNonTerminalSymbol symbolStr g
      else insertTerminalSymbol symbolStr g)"

section \<open>Normalised grammars\<close>

record cf_gram = gram +
  epsilonProds :: "production list"
  singleRHSToProds :: "(symbol \<times> production list) list"
  firstRHSToProds :: "(symbol \<times> production list) list"
  secondRHSToProds :: "(symbol \<times> production list) list"
  newTerminalSubscript :: u32

definition prods_at :: "(symbol \<times> production list) list \<Rightarrow> symbol \<Rightarrow> production list" where
  "prods_at m s = (case map_of m s of None \<Rightarrow> [] | Some ps \<Rightarrow> ps)"

text \<open>\<open>m[s].insert(p)\<close>\<close>

definition prods_insert :: "symbol \<Rightarrow> production \<Rightarrow> (symbol \<times> production list) list \<Rightarrow> (symbol \<times> production list) list" where
  "prods_insert s p m = (if map_of m s = None then m @ [(s, [p])]
     else map (\<lambda>e. if fst e = s then (s, List.insert p (snd e)) else e) m)"

definition hasProdsFromSingleRHS :: "cf_gram \<Rightarrow> symbol \<Rightarrow> bool" where
  "hasProdsFromSingleRHS g s = (map_of (singleRHSToProds g) s \<noteq> None)"

definition hasProdsFromFirstRHS :: "cf_gram \<Rightarrow> symbol \<Rightarrow> bool" where
  "hasProdsFromFirstRHS g s = (map_of (firstRHSToProds g) s \<noteq> None)"

definition hasProdsFromSecondRHS :: "cf_gram \<Rightarrow> symbol \<Rightarrow> bool" where
  "hasProdsFromSecondRHS g s = (map_of (secondRHSToProds g) s \<noteq> None)"

definition getProdsFromSingleRHS :: "cf_gram \<Rightarrow> symbol \<Rightarrow> production list option" where
  "getProdsFromSingleRHS g s = map_of (singleRHSToProds g) s"

definition getProdsFromFirstRHS :: "cf_gram \<Rightarrow> symbol \<Rightarrow> production list option" where
  "getProdsFromFirstRHS g s = map_of (firstRHSToProds g) s"

definition getProdsFromSecondRHS :: "cf_gram \<Rightarrow> symbol \<Rightarrow> production list option" where
  "getProdsFromSecondRHS g s = map_of (secondRHSToProds g) s"

text \<open>\<open>prod.at(k)\<close>\<close>

definition prod_at :: "production \<Rightarrow> nat \<Rightarrow> symbol option" where
  "prod_at p k = (if k < length p then Some (p ! k) else None)"

definition getLHSSymbol :: "production \<Rightarrow> symbol option" where
  "getLHSSymbol p = prod_at p 0"

definition getFirstRHSSymbol :: "production \<Rightarrow> symbol option" where
  "getFirstRHSSymbol p = prod_at p 1"

definition getSecondRHSSymbol :: "production \<Rightarrow> symbol option" where
  "getSecondRHSSymbol p = prod_at p 2"

definition insertToCFLGrammar :: "production \<Rightarrow> cf_gram \<Rightarrow> cf_gram option" where
  "insertToCFLGrammar p g =
     (if length p = 2
      then Option.bind (strToKind g ''epsilon'') (\<lambda>e. Some
        (if \<exists>s\<in>set p. sym_eq_u32 s e
         then if p \<notin> set (epsilonProds g) then g\<lparr>epsilonProds := List.insert p (epsilonProds g)\<rparr> else g
         else g\<lparr>singleRHSToProds := prods_insert (p ! 1) p (singleRHSToProds g)\<rparr>))
      else if length p = 3
      then Some (g\<lparr>firstRHSToProds := prods_insert (p ! 1) p (firstRHSToProds g),
        secondRHSToProds := prods_insert (p ! 2) p (secondRHSToProds g)\<rparr>)
      else Some g)"

primrec insert_prods :: "production list \<Rightarrow> cf_gram \<Rightarrow> cf_gram option" where
  "insert_prods [] g = Some g"
| "insert_prods (p # ps) g = Option.bind (insertToCFLGrammar p g) (insert_prods ps)"

section \<open>Filling in attributes\<close>

definition first_variable :: "production \<Rightarrow> 8 word" where
  "first_variable p = foldl (\<lambda>v s. if v = 0 then variableAttribute s else v) 0 p"

definition fill_variable :: "8 word \<Rightarrow> u32 \<Rightarrow> production \<Rightarrow> production" where
  "fill_variable v a p = map (\<lambda>s. if variableAttribute s = v then s\<lparr>attribute := ucast a, variableAttribute := 0\<rparr> else s) p"

definition continueToFill :: "production \<Rightarrow> bool" where
  "continueToFill p = (\<exists>s\<in>set p. variableAttribute s \<noteq> 0)"

text \<open>The loop over the attributes for one production: the work list and the filled productions\<close>

primrec fill_each :: "8 word \<Rightarrow> production \<Rightarrow> u32 list \<Rightarrow> production work_list \<times> production list \<Rightarrow>
    production work_list \<times> production list" where
  "fill_each v p [] st = st"
| "fill_each v p (a # as) st = (let q = fill_variable v a p in
     fill_each v p as (if \<not> continueToFill q then (fst st, List.insert q (snd st)) else (snd (fifo_push q (fst st)), snd st)))"

partial_function (option) fill_loop :: "u32 list \<Rightarrow> production work_list \<Rightarrow> production list \<Rightarrow> production list option" where
  "fill_loop attrs w normalProds = (case fifo_pop w of None \<Rightarrow> Some normalProds
     | Some (p, w') \<Rightarrow> let v = first_variable p in
         if v = 0 then fill_loop attrs w' (List.insert p normalProds)
         else let st = fill_each v p attrs (w', normalProds) in fill_loop attrs (fst st) (snd st))"

definition getFilledProductions :: "production \<Rightarrow> u32 list \<Rightarrow> production list option" where
  "getFilledProductions p attrs = fill_loop attrs (snd (fifo_push p wl_new)) []"

primrec fill_prods :: "u32 list \<Rightarrow> symbol \<Rightarrow> production list \<Rightarrow> cf_gram \<Rightarrow> cf_gram option" where
  "fill_prods attrs lhs [] g = Some g"
| "fill_prods attrs lhs (p # ps) g = Option.bind (getFilledProductions (lhs # p) attrs) (\<lambda>normalProds.
     Option.bind (insert_prods normalProds g) (fill_prods attrs lhs ps))"

primrec fill_raw :: "u32 list \<Rightarrow> (symbol \<times> production list) list \<Rightarrow> cf_gram \<Rightarrow> cf_gram option" where
  "fill_raw attrs [] g = Some g"
| "fill_raw attrs (r # rs) g = Option.bind (fill_prods attrs (fst r) (snd r) g) (fill_raw attrs rs)"

definition fillAttribute :: "(u32 \<times> u32 list) list \<Rightarrow> cf_gram \<Rightarrow> cf_gram option" where
  "fillAttribute kindToAttrsMap g = fill_raw (remdups (concat (map snd kindToAttrsMap))) (rawProductions g) g"

section \<open>Packing\<close>

lemma byte_bits: "bit (w :: 8 word) n \<Longrightarrow> n < 8" "bit (v :: 16 word) n \<Longrightarrow> n < 16"
  by (auto dest: bit_imp_le_length)

lemma low_masks: "(0xFF :: u32) = mask 8" "(0xFFFF :: u32) = mask 16" "(0xFF :: u64) = mask 8" "(0xFFFF :: u64) = mask 16"
  by (simp_all add: mask_eq_exp_minus_1)

lemma sym_num_or: "sym_num s = push_bit 24 (ucast (variableAttribute s)) OR push_bit 8 (ucast (attribute s)) OR ucast (kind s)"
proof -
  let ?v = "push_bit 24 (ucast (variableAttribute s)) :: u32" and ?a = "push_bit 8 (ucast (attribute s)) :: u32"
    and ?k = "ucast (kind s) :: u32"
  have va: "?v + ?a = ?v OR ?a"
    by (rule disjunctive_add_eq_or, rule bit_word_eqI) (auto simp: bit_simps dest: byte_bits)
  have "(?v OR ?a) + ?k = (?v OR ?a) OR ?k"
    by (rule disjunctive_add_eq_or, rule bit_word_eqI) (auto simp: bit_simps dest: byte_bits)
  then show ?thesis by (simp add: sym_num_def va or.assoc)
qed

lemma symbol_eqI: "kind s = kind t \<Longrightarrow> attribute s = attribute t \<Longrightarrow> variableAttribute s = variableAttribute (t :: symbol) \<Longrightarrow> s = t"
  by (cases s; cases t) simp

lemma sym_of_num: "sym_of (sym_num s) = s"
proof (rule symbol_eqI)
  show "kind (sym_of (sym_num s)) = kind s"
    unfolding sym_of_def sym_num_or low_masks by (rule bit_word_eqI) (auto simp: bit_simps)
  show "attribute (sym_of (sym_num s)) = attribute s"
    unfolding sym_of_def sym_num_or low_masks by (rule bit_word_eqI) (auto simp: bit_simps dest: byte_bits)
  show "variableAttribute (sym_of (sym_num s)) = variableAttribute s"
    unfolding sym_of_def sym_num_or by (rule bit_word_eqI) (auto simp: bit_simps dest: byte_bits)
qed

lemma sym_num_of: "sym_num (sym_of n) = n"
proof (rule bit_word_eqI)
  fix i assume "i < LENGTH(32)"
  then have i: "i < 32" by simp
  show "bit (sym_num (sym_of n)) i = bit n i"
    unfolding sym_num_or low_masks sym_of_def using i
    by (cases "i < 8"; cases "i < 24") (auto simp: bit_simps)
qed

lemma sym_num_inject: "sym_num s = sym_num t \<longleftrightarrow> s = t"
  by (metis sym_of_num)

lemma sym_eq_iff: "sym_eq s t \<longleftrightarrow> s = t"
  by (auto simp: sym_eq_def intro: symbol_eqI)

lemma sym_assign_eq: "sym_assign n = sym_of n" "sym_assign_ull m = sym_of (ucast m)"
  unfolding sym_assign_def sym_assign_ull_def sym_of_def low_masks
  by (rule symbol_eqI; simp; rule bit_word_eqI; auto simp: bit_simps dest: bit_imp_le_length)+

text \<open>C26: A symbol and its 32-bit number determine each other: unpacking the number of a symbol gives
  the symbol, and packing the symbol of a number gives the number. The two assignment operators unpack
  in the same way, and two symbols are equal when all three fields are, or when their numbers are.\<close>

theorem symbol_roundtrip:
  "sym_of (sym_num s) = s \<and> sym_num (sym_of n) = n \<and> sym_assign n = sym_of n \<and> sym_assign_ull m = sym_of (ucast m)
    \<and> sym_eq s t = (s = t) \<and> sym_eq_u32 s n = (s = sym_of n)"
  by (auto simp: sym_of_num sym_num_of sym_assign_eq sym_eq_iff sym_eq_u32_def)

text \<open>The label that the graph builder gives to an edge with an attribute.\<close>

lemma attributed_fields:
  assumes "k < 2 ^ 8"
  shows "sym_of (getAttributedKind a k) = \<lparr>kind = ucast k, attribute = ucast a, variableAttribute = ucast (drop_bit 16 a)\<rparr>"
proof -
  have k: "bit k n \<Longrightarrow> n < 8" for n
    using assms by (metis bit_take_bit_iff less_mask_eq take_bit_eq_mask)
  show ?thesis
    unfolding sym_of_def getAttributedKind_def low_masks
    by (rule symbol_eqI; simp; rule bit_word_eqI; auto simp: bit_simps dest: k bit_imp_le_length)
qed

lemma middle_byte: "(ucast (drop_bit 16 (a :: u32)) = (0 :: 8 word)) = (take_bit 24 a = take_bit 16 a)"
proof
  assume z: "ucast (drop_bit 16 a) = (0 :: 8 word)"
  have lo: "\<not> bit a (16 + n)" if "n < 8" for n
    using that arg_cong [OF z, of "\<lambda>w. bit w n"] by (simp add: bit_simps)
  have hi: "\<not> bit a m" if "16 \<le> m" "m < 24" for m
    using lo [of "m - 16"] that by simp
  show "take_bit 24 a = take_bit 16 a"
  proof (rule bit_word_eqI)
    show "bit (take_bit 24 a) i = bit (take_bit 16 a) i" for i
      using hi [of i] by (cases "i < 16"; cases "i < 24") (auto simp: bit_simps)
  qed
next
  assume t: "take_bit 24 a = take_bit 16 a"
  have "\<not> bit a (16 + n)" if "n < 8" for n
    using that arg_cong [OF t, of "\<lambda>w. bit w (16 + n)"] by (simp add: bit_simps)
  then show "ucast (drop_bit 16 a) = (0 :: 8 word)" by (intro bit_word_eqI) (auto simp: bit_simps)
qed

text \<open>The label of an edge with an attribute matches the symbol that the grammar gets by filling
  the same attribute into a variable exactly if the bits 16 to 23 of the attribute are zero; otherwise the
  attribute spills into the field of the variable attribute.\<close>

theorem attributed_edges_match:
  assumes "k < 2 ^ 8" "kind s = ucast k" "variableAttribute s = v" "v \<noteq> 0"
  shows "fill_variable v a [s] = [sym_of (getAttributedKind a k)] \<longleftrightarrow> take_bit 24 a = take_bit 16 a"
proof -
  have "s\<lparr>attribute := ucast a, variableAttribute := 0\<rparr> = \<lparr>kind = ucast k, attribute = ucast a, variableAttribute = 0\<rparr>"
    using assms(2) by (intro symbol_eqI) simp_all
  then have "fill_variable v a [s] = [sym_of (getAttributedKind a k)] \<longleftrightarrow> ucast (drop_bit 16 a) = (0 :: 8 word)"
    using assms(3) by (auto simp: fill_variable_def attributed_fields [OF assms(1)])
  then show ?thesis by (simp add: middle_byte)
qed

lemma attributed_edges_witness:
  "fill_variable 105 3 [\<lparr>kind = 4, attribute = 0, variableAttribute = 105\<rparr>] = [sym_of (getAttributedKind 3 4)]
    \<and> fill_variable 105 0x10000 [\<lparr>kind = 4, attribute = 0, variableAttribute = 105\<rparr>] \<noteq> [sym_of (getAttributedKind 0x10000 4)]"
  using attributed_edges_match [of 4 "\<lparr>kind = 4, attribute = 0, variableAttribute = 105\<rparr>" 105 3]
    attributed_edges_match [of 4 "\<lparr>kind = 4, attribute = 0, variableAttribute = 105\<rparr>" 105 "0x10000"]
  by simp

end
