(* ===== verification/CflFill.thy ===== *)
theory CflFill
  imports CflGrammar
begin

text \<open>
  What the last step of the normalisation of a grammar computes: the productions with variable
  attributes become all their instances, and the tables for the solvers answer exactly for the
  productions that were put in.
\<close>

section \<open>The instances of a production\<close>

definition subst_symbol :: "(8 word \<Rightarrow> u32) \<Rightarrow> symbol \<Rightarrow> symbol" where
  "subst_symbol f s = (if variableAttribute s = 0 then s
     else s\<lparr>attribute := ucast (f (variableAttribute s)), variableAttribute := 0\<rparr>)"

definition instances :: "u32 list \<Rightarrow> production \<Rightarrow> production set" where
  "instances attrs p = {map (subst_symbol f) p |f. \<forall>s\<in>set p. variableAttribute s \<noteq> 0 \<longrightarrow> f (variableAttribute s) \<in> set attrs}"

lemma subst_filled [simp]: "variableAttribute s = 0 \<Longrightarrow> subst_symbol f s = s"
  by (simp add: subst_symbol_def)

lemma instances_filled: "\<not> continueToFill p \<Longrightarrow> instances attrs p = {p}"
  by (auto simp: instances_def continueToFill_def cong: map_cong intro!: map_idI)

lemma first_variable_fold: "foldl (\<lambda>v s. if v = 0 then variableAttribute s else v) x p
    = (if x \<noteq> 0 then x else case filter (\<lambda>s. variableAttribute s \<noteq> 0) p of [] \<Rightarrow> 0 | s # _ \<Rightarrow> variableAttribute s)"
  by (induction p arbitrary: x) auto

lemma first_variable_0: "first_variable p = 0 \<longleftrightarrow> \<not> continueToFill p"
  unfolding first_variable_def first_variable_fold continueToFill_def
  by (auto simp: filter_empty_conv filter_eq_Cons_iff split: list.split)

lemma first_variable_in: "first_variable p \<noteq> 0 \<Longrightarrow> \<exists>s\<in>set p. variableAttribute s = first_variable p"
  unfolding first_variable_def first_variable_fold
  by (auto simp: filter_eq_Cons_iff split: list.splits)

lemma subst_fill: "v \<noteq> 0 \<Longrightarrow> map (subst_symbol f) (fill_variable v a p) = map (subst_symbol (f(v := a))) p"
  by (auto simp: fill_variable_def subst_symbol_def)

lemma instances_step:
  assumes "first_variable p = v" "v \<noteq> 0"
  shows "instances attrs p = (\<Union>a\<in>set attrs. instances attrs (fill_variable v a p))"
proof (intro equalityI subsetI)
  fix q assume "q \<in> instances attrs p"
  then obtain f where f: "q = map (subst_symbol f) p" "\<forall>s\<in>set p. variableAttribute s \<noteq> 0 \<longrightarrow> f (variableAttribute s) \<in> set attrs"
    by (auto simp: instances_def)
  obtain s where "s \<in> set p" "variableAttribute s = v" using first_variable_in assms by metis
  then have "f v \<in> set attrs" using f(2) assms(2) by blast
  moreover have "q = map (subst_symbol f) (fill_variable v (f v) p)" by (simp add: subst_fill [OF assms(2)] f(1))
  moreover have "\<forall>s\<in>set (fill_variable v (f v) p). variableAttribute s \<noteq> 0 \<longrightarrow> f (variableAttribute s) \<in> set attrs"
    using f(2) by (auto simp: fill_variable_def)
  ultimately show "q \<in> (\<Union>a\<in>set attrs. instances attrs (fill_variable v a p))" unfolding instances_def by blast
next
  fix q assume "q \<in> (\<Union>a\<in>set attrs. instances attrs (fill_variable v a p))"
  then obtain a f where f: "a \<in> set attrs" "q = map (subst_symbol f) (fill_variable v a p)"
      "\<forall>s\<in>set (fill_variable v a p). variableAttribute s \<noteq> 0 \<longrightarrow> f (variableAttribute s) \<in> set attrs"
    by (auto simp: instances_def)
  have "\<forall>s\<in>set p. variableAttribute s \<noteq> 0 \<longrightarrow> (f(v := a)) (variableAttribute s) \<in> set attrs"
    using f(1,3) by (auto simp: fill_variable_def)
  then show "q \<in> instances attrs p" using f(2) unfolding subst_fill [OF assms(2)] instances_def by blast
qed

section \<open>The loop\<close>

text \<open>The instances that are still to come and those that are there.\<close>

definition fill_goal :: "u32 list \<Rightarrow> production work_list \<Rightarrow> production list \<Rightarrow> production set" where
  "fill_goal attrs w n = (\<Union>p\<in>data_set w. instances attrs p) \<union> set n"

lemma fill_each_goal:
  assumes "wl_ok (fst st)" "distinct (snd st)"
  shows "wl_ok (fst (fill_each v p as st)) \<and> distinct (snd (fill_each v p as st))
    \<and> fill_goal attrs (fst (fill_each v p as st)) (snd (fill_each v p as st))
      = fill_goal attrs (fst st) (snd st) \<union> (\<Union>a\<in>set as. instances attrs (fill_variable v a p))"
  using assms
proof (induction as arbitrary: st)
  case (Cons a as)
  let ?q = "fill_variable v a p"
  let ?st = "if \<not> continueToFill ?q then (fst st, List.insert ?q (snd st)) else (snd (fifo_push ?q (fst st)), snd st)"
  have ok: "wl_ok (fst ?st)" "distinct (snd ?st)" using Cons.prems fifo.push_ok [OF Cons.prems(1), of ?q] by auto
  have "fill_goal attrs (fst ?st) (snd ?st) = fill_goal attrs (fst st) (snd st) \<union> instances attrs ?q"
    using fifo.push_ok [OF Cons.prems(1), of ?q] instances_filled [of ?q attrs] by (auto simp: fill_goal_def)
  then show ?case using Cons.IH [OF ok] by (simp add: Let_def Un_assoc)
qed (simp add: fill_goal_def)

text \<open>The loop ends: filling in a variable leaves fewer variables, and a production is replaced by at
  most as many as there are attributes.\<close>

definition variables :: "production \<Rightarrow> nat" where
  "variables p = length (filter (\<lambda>s. variableAttribute s \<noteq> 0) p)"

definition fill_work :: "u32 list \<Rightarrow> production work_list \<Rightarrow> nat" where
  "fill_work attrs w = (\<Sum>p\<leftarrow>data_list w. Suc (length attrs) ^ Suc (variables p))"

lemma variables_simps [simp]:
  "variables [] = 0"
  "variables (s # p) = (if variableAttribute s \<noteq> 0 then Suc (variables p) else variables p)"
  "fill_variable v a [] = []"
  "fill_variable v a (s # p) = (if variableAttribute s = v then s\<lparr>attribute := ucast a, variableAttribute := 0\<rparr> else s) # fill_variable v a p"
  by (simp_all add: variables_def fill_variable_def)

lemma variables_fill_le: "variables (fill_variable v a p) \<le> variables p"
  by (induction p) simp_all

lemma variables_fill: "v \<noteq> 0 \<Longrightarrow> s \<in> set p \<Longrightarrow> variableAttribute s = v \<Longrightarrow> variables (fill_variable v a p) < variables p"
  by (induction p) (auto simp: less_Suc_eq_le variables_fill_le)

lemma fill_each_work:
  assumes "first_variable p = v" "v \<noteq> 0"
  shows "fill_work attrs (fst (fill_each v p as st)) \<le> fill_work attrs (fst st) + length as * Suc (length attrs) ^ variables p"
proof (induction as arbitrary: st)
  case (Cons a as)
  let ?q = "fill_variable v a p"
  let ?st = "if \<not> continueToFill ?q then (fst st, List.insert ?q (snd st)) else (snd (fifo_push ?q (fst st)), snd st)"
  obtain s where s: "s \<in> set p" "variableAttribute s = v" using first_variable_in assms by metis
  have "Suc (length attrs) ^ Suc (variables ?q) \<le> Suc (length attrs) ^ variables p"
    by (rule power_increasing) (use Suc_leI [OF variables_fill [OF assms(2) s]] in simp_all)
  then have "fill_work attrs (fst ?st) \<le> fill_work attrs (fst st) + Suc (length attrs) ^ variables p"
    by (auto simp: fill_work_def fifo_push_def)
  then show ?case using Cons.IH [of ?st] by (simp add: Let_def)
qed simp

lemma fill_loop_ok:
  assumes "wl_ok w" "distinct n"
  shows "\<exists>m. fill_loop attrs w n = Some m \<and> distinct m \<and> set m = fill_goal attrs w n"
  using assms
proof (induction "fill_work attrs w" arbitrary: w n rule: less_induct)
  case less
  show ?case
  proof (cases rule: fifo.pop_cases [OF less.prems(1)])
    case 1
    then show ?thesis using less.prems(2) by (subst fill_loop.simps) (simp add: fill_goal_def)
  next
    case (2 p w')
    have l: "data_list w = p # data_list w'" using 2(1) by (auto simp: fifo_pop_def split: list.splits)
    have goal: "fill_goal attrs w n = instances attrs p \<union> fill_goal attrs w' n" using 2(2,4) by (auto simp: fill_goal_def)
    show ?thesis
    proof (cases "first_variable p = 0")
      case True
      have "fill_work attrs w' < fill_work attrs w" by (simp add: fill_work_def l)
      from less.hyps [OF this 2(3), of "List.insert p n"] less.prems(2)
      obtain m where m: "fill_loop attrs w' (List.insert p n) = Some m" "distinct m"
        "set m = fill_goal attrs w' (List.insert p n)" by auto
      have "set m = fill_goal attrs w n"
        using m(3) goal instances_filled [of p attrs] True by (auto simp: first_variable_0 fill_goal_def)
      then show ?thesis using m 2(1) True by (subst fill_loop.simps) simp
    next
      case False
      let ?v = "first_variable p" and ?st = "fill_each (first_variable p) p attrs (w', n)"
      note ok = fill_each_goal [of "(w', n)" ?v p attrs attrs, simplified, OF 2(3) less.prems(2)]
      have "fill_work attrs (fst ?st) \<le> fill_work attrs w' + length attrs * Suc (length attrs) ^ variables p"
        using fill_each_work [OF refl False, of attrs attrs "(w', n)"] by simp
      also have "\<dots> < fill_work attrs w" by (simp add: fill_work_def l)
      finally have "fill_work attrs (fst ?st) < fill_work attrs w" .
      from less.hyps [OF this, of "snd ?st"] ok obtain m where m: "fill_loop attrs (fst ?st) (snd ?st) = Some m" "distinct m"
        "set m = fill_goal attrs (fst ?st) (snd ?st)" by blast
      have "set m = fill_goal attrs w n" using m(3) ok goal instances_step [OF refl False, of attrs] by auto
      then show ?thesis using m(1,2) 2(1) False by (subst fill_loop.simps) (simp add: Let_def)
    qed
  qed
qed

text \<open>Filling in attributes ends, and gives every instance of the production once: each variable
  attribute is replaced by one of the attributes, the same one at all its occurrences in the production.
  A production without variables is its only instance; one with a variable has none if there are no
  attributes.\<close>

lemma getFilledProductions_ok:
  "\<exists>ps. getFilledProductions p attrs = Some ps \<and> distinct ps \<and> set ps = instances attrs p"
proof -
  have "wl_ok (snd (fifo_push p wl_new))" "data_set (snd (fifo_push p wl_new)) = {p}"
    by (simp_all add: fifo_push_def fifo_find_def wl_new_def wl_ok_def)
  then show ?thesis using fill_loop_ok [of "snd (fifo_push p wl_new)" "[]" attrs]
    by (simp add: getFilledProductions_def fill_goal_def)
qed

section \<open>The tables of a normalised grammar\<close>

definition unit_rule :: "cf_gram \<Rightarrow> symbol \<Rightarrow> symbol \<Rightarrow> bool" where
  "unit_rule g X Y = ([X, Y] \<in> set (prods_at (singleRHSToProds g) Y))"

definition binary_rule :: "cf_gram \<Rightarrow> symbol \<Rightarrow> symbol \<Rightarrow> symbol \<Rightarrow> bool" where
  "binary_rule g X Y Z = ([X, Y, Z] \<in> set (prods_at (firstRHSToProds g) Y))"

definition epsilon_rule :: "cf_gram \<Rightarrow> symbol \<Rightarrow> bool" where
  "epsilon_rule g X = (\<exists>Y. [X, Y] \<in> set (epsilonProds g))"

text \<open>The productions in the tables have the right lengths, are found under the right symbols, and the
  tables for the first and for the second symbol hold the same productions.\<close>

definition cf_ok :: "cf_gram \<Rightarrow> bool" where
  "cf_ok g = ((\<forall>p\<in>set (epsilonProds g). \<exists>X Y. p = [X, Y])
    \<and> (\<forall>Y. \<forall>p\<in>set (prods_at (singleRHSToProds g) Y). \<exists>X. p = [X, Y])
    \<and> (\<forall>Y. \<forall>p\<in>set (prods_at (firstRHSToProds g) Y). \<exists>X Z. p = [X, Y, Z])
    \<and> (\<forall>Z. \<forall>p\<in>set (prods_at (secondRHSToProds g) Z). \<exists>X Y. p = [X, Y, Z])
    \<and> (\<forall>X Y Z. [X, Y, Z] \<in> set (prods_at (firstRHSToProds g) Y) \<longleftrightarrow> [X, Y, Z] \<in> set (prods_at (secondRHSToProds g) Z)))"

text \<open>The tables hold the productions \<open>P\<close>, where a production of length two with the symbol \<open>epsilon\<close> in
  it is an empty production; others than those of length two and three are not in the tables.\<close>

definition tables_for :: "u32 \<Rightarrow> production set \<Rightarrow> cf_gram \<Rightarrow> bool" where
  "tables_for e P g = ((\<forall>X Y. unit_rule g X Y \<longleftrightarrow> [X, Y] \<in> P \<and> sym_num X \<noteq> e \<and> sym_num Y \<noteq> e)
    \<and> (\<forall>X Y Z. binary_rule g X Y Z \<longleftrightarrow> [X, Y, Z] \<in> P)
    \<and> (\<forall>X. epsilon_rule g X \<longleftrightarrow> (\<exists>Y. [X, Y] \<in> P \<and> (sym_num X = e \<or> sym_num Y = e))))"

lemma map_of_map_snd: "map_of (map (\<lambda>x. if fst x = s then (s, f (snd x)) else x) m) t
    = (if t = s then map_option f (map_of m s) else map_of m t)"
  by (induction m) auto

lemma prods_at_insert [simp]: "prods_at (prods_insert s p m) t = (if t = s then List.insert p (prods_at m s) else prods_at m t)"
  unfolding prods_insert_def
  by (auto simp: prods_at_def map_of_map_snd map_add_def split: option.splits)

lemma prods_at_empty [simp]: "prods_at [] s = []"
  by (simp add: prods_at_def)

lemma strToKind_tables [simp]:
  "strToKind (g\<lparr>epsilonProds := x\<rparr>) str = strToKind g str" "strToKind (g\<lparr>singleRHSToProds := y\<rparr>) str = strToKind g str"
  "strToKind (g\<lparr>firstRHSToProds := y, secondRHSToProds := z\<rparr>) str = strToKind g str"
  by (simp_all add: strToKind_def split: option.split)

lemma insert_step:
  assumes "strToKind g ''epsilon'' = Some e" "cf_ok g" "tables_for e P g"
  shows "\<exists>g'. insertToCFLGrammar p g = Some g' \<and> cf_ok g' \<and> tables_for e (insert p P) g'
    \<and> strToKind g' ''epsilon'' = Some e"
proof -
  consider X Y where "p = [X, Y]" "sym_num X = e \<or> sym_num Y = e" | X Y where "p = [X, Y]" "sym_num X \<noteq> e" "sym_num Y \<noteq> e"
    | X Y Z where "p = [X, Y, Z]" | "length p \<noteq> 2" "length p \<noteq> 3"
  proof (cases "length p = 2 \<or> length p = 3")
    case True
    then show ?thesis using that(1-3) by (auto simp: length_Suc_conv numeral_2_eq_2 numeral_3_eq_3)
  qed (use that(4) in blast)
  then show ?thesis
  proof cases
    case (1 X Y)
    let ?g = "g\<lparr>epsilonProds := List.insert p (epsilonProds g)\<rparr>"
    have "insertToCFLGrammar p g = Some ?g"
      using 1 assms(1) by (auto simp: insertToCFLGrammar_def sym_eq_u32_def)
    moreover have "cf_ok ?g" using assms(2) 1(1) by (auto simp: cf_ok_def)
    moreover have "tables_for e (insert p P) ?g"
      using assms(3) 1 by (auto simp: tables_for_def unit_rule_def binary_rule_def epsilon_rule_def)
    moreover have "strToKind ?g ''epsilon'' = Some e" using assms(1) by simp
    ultimately show ?thesis by blast
  next
    case (2 X Y)
    let ?g = "g\<lparr>singleRHSToProds := prods_insert Y p (singleRHSToProds g)\<rparr>"
    have "insertToCFLGrammar p g = Some ?g" using 2 assms(1) by (simp add: insertToCFLGrammar_def sym_eq_u32_def)
    moreover have "cf_ok ?g" using assms(2) 2(1) by (auto simp: cf_ok_def)
    moreover have "tables_for e (insert p P) ?g"
      using assms(3) 2 by (auto simp: tables_for_def unit_rule_def binary_rule_def epsilon_rule_def)
    moreover have "strToKind ?g ''epsilon'' = Some e" using assms(1) by simp
    ultimately show ?thesis by blast
  next
    case (3 X Y Z)
    let ?g = "g\<lparr>firstRHSToProds := prods_insert Y p (firstRHSToProds g), secondRHSToProds := prods_insert Z p (secondRHSToProds g)\<rparr>"
    have "insertToCFLGrammar p g = Some ?g" using 3 by (simp add: insertToCFLGrammar_def numeral_2_eq_2)
    moreover have "cf_ok ?g" using assms(2) 3 unfolding cf_ok_def by auto
    moreover have "tables_for e (insert p P) ?g"
      using assms(3) 3 by (auto simp: tables_for_def unit_rule_def binary_rule_def epsilon_rule_def)
    moreover have "strToKind ?g ''epsilon'' = Some e" using assms(1) by simp
    ultimately show ?thesis by blast
  next
    case 4
    then have "insertToCFLGrammar p g = Some g" by (simp add: insertToCFLGrammar_def)
    moreover have "tables_for e (insert p P) g" using assms(3) 4 by (auto simp: tables_for_def)
    ultimately show ?thesis using assms(1,2) by blast
  qed
qed

lemma insert_prods_step:
  "strToKind g ''epsilon'' = Some e \<Longrightarrow> cf_ok g \<Longrightarrow> tables_for e P g \<Longrightarrow>
    \<exists>g'. insert_prods ps g = Some g' \<and> cf_ok g' \<and> tables_for e (P \<union> set ps) g' \<and> strToKind g' ''epsilon'' = Some e"
proof (induction ps arbitrary: g P)
  case (Cons p ps)
  obtain g1 where g1: "insertToCFLGrammar p g = Some g1" "cf_ok g1" "tables_for e (insert p P) g1"
    "strToKind g1 ''epsilon'' = Some e" using insert_step [OF Cons.prems] by blast
  from Cons.IH [OF g1(4,2,3)] g1(1) show ?case by simp
qed simp

lemma fill_prods_step:
  "strToKind g ''epsilon'' = Some e \<Longrightarrow> cf_ok g \<Longrightarrow> tables_for e P g \<Longrightarrow>
    \<exists>g'. fill_prods attrs lhs ps g = Some g' \<and> cf_ok g' \<and> tables_for e (P \<union> (\<Union>p\<in>set ps. instances attrs (lhs # p))) g'
      \<and> strToKind g' ''epsilon'' = Some e"
proof (induction ps arbitrary: g P)
  case (Cons p ps)
  obtain qs where qs: "getFilledProductions (lhs # p) attrs = Some qs" "set qs = instances attrs (lhs # p)"
    using getFilledProductions_ok by blast
  obtain g1 where g1: "insert_prods qs g = Some g1" "cf_ok g1" "tables_for e (P \<union> set qs) g1"
    "strToKind g1 ''epsilon'' = Some e" using insert_prods_step [OF Cons.prems] by blast
  from Cons.IH [OF g1(4,2,3)] g1(1) qs show ?case by (simp add: Un_assoc)
qed simp

lemma fill_raw_step:
  "strToKind g ''epsilon'' = Some e \<Longrightarrow> cf_ok g \<Longrightarrow> tables_for e P g \<Longrightarrow>
    \<exists>g'. fill_raw attrs rs g = Some g' \<and> cf_ok g'
      \<and> tables_for e (P \<union> (\<Union>r\<in>set rs. \<Union>p\<in>set (snd r). instances attrs (fst r # p))) g' \<and> strToKind g' ''epsilon'' = Some e"
proof (induction rs arbitrary: g P)
  case (Cons r rs)
  obtain g1 where g1: "fill_prods attrs (fst r) (snd r) g = Some g1" "cf_ok g1"
    "tables_for e (P \<union> (\<Union>p\<in>set (snd r). instances attrs (fst r # p))) g1" "strToKind g1 ''epsilon'' = Some e"
    using fill_prods_step [OF Cons.prems] by blast
  from Cons.IH [OF g1(4,2,3)] g1(1) show ?case by (simp add: Un_assoc)
qed simp

lemma fillAttribute_ok:
  assumes "strToKind g ''epsilon'' = Some e"
    and "epsilonProds g = []" "singleRHSToProds g = []" "firstRHSToProds g = []" "secondRHSToProds g = []"
  shows "\<exists>g'. fillAttribute m g = Some g' \<and> cf_ok g'
    \<and> tables_for e (\<Union>r\<in>set (rawProductions g). \<Union>p\<in>set (snd r). instances (concat (map snd m)) (fst r # p)) g'"
proof -
  have "cf_ok g" "tables_for e {} g"
    using assms(2-5) by (simp_all add: cf_ok_def tables_for_def unit_rule_def binary_rule_def epsilon_rule_def)
  from fill_raw_step [OF assms(1) this, of "remdups (concat (map snd m))" "rawProductions g"]
  have "\<exists>g'. fillAttribute m g = Some g' \<and> cf_ok g'
    \<and> tables_for e (\<Union>r\<in>set (rawProductions g). \<Union>p\<in>set (snd r). instances (remdups (concat (map snd m))) (fst r # p)) g'"
    by (auto simp: fillAttribute_def)
  then show ?thesis by (simp add: instances_def)
qed

text \<open>C20: The normalised grammar has exactly the instances of the raw productions: from empty tables,
  \<open>fillAttribute\<close> succeeds if \<open>epsilon\<close> is a known symbol, its tables agree with each other, and a unit,
  binary or empty production is in them iff it is an instance, over all attributes of the grammar, of a
  raw production. Instances with more than two symbols on the right are lost.\<close>

theorem fillAttribute_correct:
  assumes "strToKind g ''epsilon'' = Some e"
    and "epsilonProds g = []" "singleRHSToProds g = []" "firstRHSToProds g = []" "secondRHSToProds g = []"
  shows "\<exists>g'. fillAttribute m g = Some g' \<and> cf_ok g'
    \<and> tables_for e (\<Union>r\<in>set (rawProductions g). \<Union>p\<in>set (snd r). instances (concat (map snd m)) (fst r # p)) g'"
  by (rule fillAttribute_ok [OF assms])

definition gram_example :: cf_gram where
  "gram_example = \<lparr>startKind = 1, nonterminals = [(''S'', 1)], terminals = [(''epsilon'', 0), (''a'', 2), (''b'', 3)],
     EBNFSigns = [], attributeKinds = [2, 3], kindToAttrs = [(2, [1, 2]), (3, [2])],
     rawProductions = [(\<lparr>kind = 1, attribute = 0, variableAttribute = 0\<rparr>,
       [[\<lparr>kind = 2, attribute = 0, variableAttribute = 105\<rparr>, \<lparr>kind = 3, attribute = 0, variableAttribute = 105\<rparr>]])],
     totalKind = 4, epsilonProds = [], singleRHSToProds = [], firstRHSToProds = [], secondRHSToProds = [], newTerminalSubscript = 0\<rparr>"

lemma fillAttribute_witness:
  "\<exists>g'. fillAttribute (kindToAttrs gram_example) gram_example = Some g'
    \<and> binary_rule g' \<lparr>kind = 1, attribute = 0, variableAttribute = 0\<rparr> \<lparr>kind = 2, attribute = 1, variableAttribute = 0\<rparr>
        \<lparr>kind = 3, attribute = 1, variableAttribute = 0\<rparr>
    \<and> \<not> binary_rule g' \<lparr>kind = 1, attribute = 0, variableAttribute = 0\<rparr> \<lparr>kind = 2, attribute = 1, variableAttribute = 0\<rparr>
        \<lparr>kind = 3, attribute = 2, variableAttribute = 0\<rparr>"
proof -
  let ?S = "\<lparr>kind = 1, attribute = 0, variableAttribute = 0\<rparr>" and ?a = "\<lambda>n. \<lparr>kind = 2, attribute = n, variableAttribute = 0\<rparr>"
    and ?b = "\<lambda>n. \<lparr>kind = 3, attribute = n, variableAttribute = 0\<rparr>"
  let ?p = "[?S, \<lparr>kind = 2, attribute = 0, variableAttribute = 105\<rparr>, \<lparr>kind = 3, attribute = 0, variableAttribute = 105\<rparr>]"
  obtain g' where g': "fillAttribute (kindToAttrs gram_example) gram_example = Some g'"
    "tables_for 0 (instances [1, 2, 2] ?p) g'"
    using fillAttribute_correct [of gram_example 0 "kindToAttrs gram_example"] by (auto simp: gram_example_def strToKind_def)
  have "map (subst_symbol (\<lambda>_. 1)) ?p \<in> instances [1, 2, 2] ?p" unfolding instances_def by auto
  then have "[?S, ?a 1, ?b 1] \<in> instances [1, 2, 2] ?p" by (simp add: subst_symbol_def)
  moreover have "[?S, ?a 1, ?b 2] \<notin> instances [1, 2, 2] ?p" by (auto simp: instances_def subst_symbol_def)
  ultimately show ?thesis using g' by (auto simp: tables_for_def)
qed

end
