(* ===== verification/CflGraph.thy ===== *)
theory CflGraph
  imports CflFill
begin

text \<open>
  The edge-labelled graph of the CFL reachability analysis (\<open>CFLEdge\<close>, \<open>CFLNode\<close> and \<open>CFLGraph\<close> in
  \<open>svf/include/Graphs/CFLGraph.h\<close> and \<open>svf/lib/Graphs/CFLGraph.cpp\<close>, over \<open>GenericEdge\<close>,
  \<open>GenericNode\<close> and \<open>GenericGraph\<close> in \<open>svf/include/Graphs/GenericGraph.h\<close>), and the additions of the
  graph builder (\<open>svf/lib/CFL/CFLGraphBuilder.cpp\<close>).

  A node is its number. The sets of edges are ordered by \<open>equalGEdge\<close>, as lists.
\<close>

section \<open>Edges\<close>

datatype cfl_edge = CFLEdge (edgeSrc: nat) (edgeDst: nat) (edgeFlag: u64)

definition equalGEdge :: "cfl_edge \<Rightarrow> cfl_edge \<Rightarrow> bool" where
  "equalGEdge l r =
     (if edgeFlag l \<noteq> edgeFlag r then edgeFlag l < edgeFlag r
      else if edgeSrc l \<noteq> edgeSrc r then edgeSrc l < edgeSrc r
      else edgeDst l < edgeDst r)"

instantiation cfl_edge :: linorder
begin

definition less_cfl_edge :: "cfl_edge \<Rightarrow> cfl_edge \<Rightarrow> bool" where
  "less_cfl_edge = equalGEdge"

definition less_eq_cfl_edge :: "cfl_edge \<Rightarrow> cfl_edge \<Rightarrow> bool" where
  "less_eq_cfl_edge a b = (equalGEdge a b \<or> a = b)"

instance
proof
  fix a b c :: cfl_edge
  show "(a < b) = (a \<le> b \<and> \<not> b \<le> a)" by (cases a; cases b) (auto simp: less_cfl_edge_def less_eq_cfl_edge_def equalGEdge_def)
  show "a \<le> a" by (simp add: less_eq_cfl_edge_def)
  show "a \<le> b \<Longrightarrow> b \<le> c \<Longrightarrow> a \<le> c"
    by (cases a; cases b; cases c) (auto simp: less_eq_cfl_edge_def equalGEdge_def split: if_splits)
  show "a \<le> b \<Longrightarrow> b \<le> a \<Longrightarrow> a = b"
    by (cases a; cases b) (auto simp: less_eq_cfl_edge_def equalGEdge_def split: if_splits)
  show "a \<le> b \<or> b \<le> a" by (cases a; cases b) (auto simp: less_eq_cfl_edge_def equalGEdge_def)
qed

end

definition getEdgeKind :: "cfl_edge \<Rightarrow> u64" where
  "getEdgeKind e = edgeFlag e"

definition getEdgeKindWithMask :: "cfl_edge \<Rightarrow> u64" where
  "getEdgeKindWithMask e = (0xFF AND edgeFlag e)"

definition getEdgeAttri :: "cfl_edge \<Rightarrow> u64" where
  "getEdgeAttri e = signed_drop_bit 8 (getEdgeKind e)"

text \<open>The symbol of an edge: its kind, read as a 32-bit number\<close>

definition edge_symbol :: "cfl_edge \<Rightarrow> symbol" where
  "edge_symbol e = sym_of (ucast (getEdgeKind e))"

section \<open>The graph\<close>

record cfl_graph =
  graphStart :: u32
  graphNodes :: "nat list"
  nodeNum :: nat
  inEdges :: "nat \<Rightarrow> cfl_edge list"
  outEdges :: "nat \<Rightarrow> cfl_edge list"
  inCFLEdges :: "nat \<Rightarrow> symbol \<Rightarrow> cfl_edge list"
  outCFLEdges :: "nat \<Rightarrow> symbol \<Rightarrow> cfl_edge list"
  cflEdgeSet :: "cfl_edge list"

definition cfl_new :: "u32 \<Rightarrow> cfl_graph" where
  "cfl_new k = \<lparr>graphStart = k, graphNodes = [], nodeNum = 0, inEdges = \<lambda>_. [], outEdges = \<lambda>_. [],
     inCFLEdges = \<lambda>_ _. [], outCFLEdges = \<lambda>_ _. [], cflEdgeSet = []\<rparr>"

text \<open>\<open>set.insert(e)\<close> and \<open>set.erase(e)\<close>\<close>

definition eset_insert :: "cfl_edge \<Rightarrow> cfl_edge list \<Rightarrow> bool \<times> cfl_edge list" where
  "eset_insert e es = (if e \<in> set es then (False, es) else (True, insort e es))"

definition eset_erase :: "cfl_edge \<Rightarrow> cfl_edge list \<Rightarrow> nat \<times> cfl_edge list" where
  "eset_erase e es = (if e \<in> set es then 1 else 0, removeAll e es)"

text \<open>A new node is stored under its number, in place of one that was there.\<close>

definition addCFLNode :: "nat \<Rightarrow> cfl_graph \<Rightarrow> cfl_graph" where
  "addCFLNode n g = g\<lparr>graphNodes := if n \<in> set (graphNodes g) then graphNodes g else insort n (graphNodes g),
     nodeNum := to_u32 (int (nodeNum g) + 1), inEdges := (inEdges g)(n := []), outEdges := (outEdges g)(n := []),
     inCFLEdges := (inCFLEdges g)(n := \<lambda>_. []), outCFLEdges := (outCFLEdges g)(n := \<lambda>_. [])\<rparr>"

definition addInEdgeWithKind :: "nat \<Rightarrow> cfl_edge \<Rightarrow> symbol \<Rightarrow> cfl_graph \<Rightarrow> (bool \<times> cfl_graph) option" where
  "addInEdgeWithKind n e s g =
     (if edgeDst e = n
      then let added1 = eset_insert e (inEdges g n); added2 = eset_insert e (inCFLEdges g n s) in
        Some (fst added1 \<and> fst added2, g\<lparr>inEdges := (inEdges g)(n := snd added1),
          inCFLEdges := (inCFLEdges g)(n := (inCFLEdges g n)(s := snd added2))\<rparr>)
      else None)"

definition addOutEdgeWithKind :: "nat \<Rightarrow> cfl_edge \<Rightarrow> symbol \<Rightarrow> cfl_graph \<Rightarrow> (bool \<times> cfl_graph) option" where
  "addOutEdgeWithKind n e s g =
     (if edgeSrc e = n
      then let added1 = eset_insert e (outEdges g n); added2 = eset_insert e (outCFLEdges g n s) in
        Some (fst added1 \<and> fst added2, g\<lparr>outEdges := (outEdges g)(n := snd added1),
          outCFLEdges := (outCFLEdges g)(n := (outCFLEdges g n)(s := snd added2))\<rparr>)
      else None)"

definition addIngoingEdge :: "nat \<Rightarrow> cfl_edge \<Rightarrow> cfl_graph \<Rightarrow> (bool \<times> cfl_graph) option" where
  "addIngoingEdge n e g = addInEdgeWithKind n e (edge_symbol e) g"

definition addOutgoingEdge :: "nat \<Rightarrow> cfl_edge \<Rightarrow> cfl_graph \<Rightarrow> (bool \<times> cfl_graph) option" where
  "addOutgoingEdge n e g = addOutEdgeWithKind n e (edge_symbol e) g"

definition removeCFLInEdge :: "nat \<Rightarrow> cfl_edge \<Rightarrow> cfl_graph \<Rightarrow> (bool \<times> cfl_graph) option" where
  "removeCFLInEdge n e g =
     (if e \<in> set (inEdges g n)
      then let num2 = eset_erase e (inCFLEdges g n (edge_symbol e)) in
        Some (fst num2 \<noteq> 0, g\<lparr>inEdges := (inEdges g)(n := snd (eset_erase e (inEdges g n))),
          inCFLEdges := (inCFLEdges g)(n := (inCFLEdges g n)(edge_symbol e := snd num2))\<rparr>)
      else None)"

definition removeCFLOutEdge :: "nat \<Rightarrow> cfl_edge \<Rightarrow> cfl_graph \<Rightarrow> (bool \<times> cfl_graph) option" where
  "removeCFLOutEdge n e g =
     (if e \<in> set (outEdges g n)
      then let num2 = eset_erase e (outCFLEdges g n (edge_symbol e)) in
        Some (fst num2 \<noteq> 0, g\<lparr>outEdges := (outEdges g)(n := snd (eset_erase e (outEdges g n))),
          outCFLEdges := (outCFLEdges g)(n := (outCFLEdges g n)(edge_symbol e := snd num2))\<rparr>)
      else None)"

definition addCFLEdge :: "nat \<Rightarrow> nat \<Rightarrow> u64 \<Rightarrow> cfl_graph \<Rightarrow> (cfl_edge option \<times> cfl_graph) option" where
  "addCFLEdge src dst label g =
     (let e = CFLEdge src dst label; ins = eset_insert e (cflEdgeSet g) in
      if fst ins
      then Option.bind (addOutgoingEdge src e (g\<lparr>cflEdgeSet := snd ins\<rparr>)) (\<lambda>r.
        map_option (\<lambda>q. (Some e, snd q)) (addIngoingEdge dst e (snd r)))
      else Some (None, g))"

definition hasEdge :: "nat \<Rightarrow> nat \<Rightarrow> u64 \<Rightarrow> cfl_graph \<Rightarrow> cfl_edge option" where
  "hasEdge src dst label g = (let e = CFLEdge src dst label in if e \<in> set (cflEdgeSet g) then Some e else None)"

definition getInEdgeWithTy :: "nat \<Rightarrow> symbol \<Rightarrow> cfl_graph \<Rightarrow> cfl_edge list" where
  "getInEdgeWithTy n s g = inCFLEdges g n s"

definition getOutEdgeWithTy :: "nat \<Rightarrow> symbol \<Rightarrow> cfl_graph \<Rightarrow> cfl_edge list" where
  "getOutEdgeWithTy n s g = outCFLEdges g n s"

text \<open>The graph builder: a node is added if it is not there, and an edge with the 32-bit kind of its
  label.\<close>

definition addGNode :: "nat \<Rightarrow> cfl_graph \<Rightarrow> cfl_graph" where
  "addGNode n g = (if n \<notin> set (graphNodes g) then addCFLNode n g else g)"

definition add_labelled :: "nat \<times> nat \<times> u32 \<Rightarrow> cfl_graph \<Rightarrow> cfl_graph option" where
  "add_labelled e g = (case e of (src, dst, label) \<Rightarrow>
     map_option snd (addCFLEdge src dst (ucast label) (addGNode dst (addGNode src g))))"

definition cfl_build :: "u32 \<Rightarrow> (nat \<times> nat \<times> u32) list \<Rightarrow> cfl_graph option" where
  "cfl_build k es = each add_labelled es (cfl_new k)"

section \<open>The sets of edges agree\<close>

definition edge_fact :: "cfl_edge \<Rightarrow> nat \<times> symbol \<times> nat" where
  "edge_fact e = (edgeSrc e, edge_symbol e, edgeDst e)"

definition graph_facts :: "cfl_graph \<Rightarrow> (nat \<times> symbol \<times> nat) set" where
  "graph_facts g = edge_fact ` set (cflEdgeSet g)"

definition graph_ok :: "cfl_graph \<Rightarrow> bool" where
  "graph_ok g = (sorted_wrt (<) (cflEdgeSet g) \<and> sorted_wrt (<) (graphNodes g)
    \<and> (\<forall>e\<in>set (cflEdgeSet g). edgeSrc e \<in> set (graphNodes g) \<and> edgeDst e \<in> set (graphNodes g)
        \<and> edgeFlag e = ucast (ucast (edgeFlag e) :: u32))
    \<and> (\<forall>n. set (outEdges g n) = {e \<in> set (cflEdgeSet g). edgeSrc e = n})
    \<and> (\<forall>n. set (inEdges g n) = {e \<in> set (cflEdgeSet g). edgeDst e = n})
    \<and> (\<forall>n s. set (outCFLEdges g n s) = {e \<in> set (cflEdgeSet g). edgeSrc e = n \<and> edge_symbol e = s})
    \<and> (\<forall>n s. set (inCFLEdges g n s) = {e \<in> set (cflEdgeSet g). edgeDst e = n \<and> edge_symbol e = s}))"

lemma eset_insert_set [simp]: "set (snd (eset_insert e es)) = insert e (set es)" "fst (eset_insert e es) = (e \<notin> set es)"
  by (auto simp: eset_insert_def set_insort_key)

lemma sorted_insort: "sorted_wrt (<) es \<Longrightarrow> x \<notin> set es \<Longrightarrow> sorted_wrt (<) (insort x es)"
  for x :: "'a :: linorder"
  by (induction es) (auto simp: set_insort_key)

lemma eset_insert_sorted: "sorted_wrt (<) es \<Longrightarrow> sorted_wrt (<) (snd (eset_insert e es))"
  by (auto simp: eset_insert_def sorted_insort)

text \<open>An edge is determined by its fact.\<close>

lemma edge_fact_inj:
  assumes "edgeFlag a = ucast (ucast (edgeFlag a) :: u32)" "edgeFlag b = ucast (ucast (edgeFlag b) :: u32)" "edge_fact a = edge_fact b"
  shows "a = b"
proof -
  have "sym_num (edge_symbol a) = sym_num (edge_symbol b)" using assms(3) by (simp add: edge_fact_def)
  then have "(ucast (edgeFlag a) :: u32) = ucast (edgeFlag b)"
    by (simp add: edge_symbol_def getEdgeKind_def sym_num_of)
  then have "edgeFlag a = edgeFlag b" using assms(1,2) by metis
  then show ?thesis using assms(3) by (cases a; cases b) (simp add: edge_fact_def)
qed

lemma u32_u64_u32 [simp]: "ucast (ucast (n :: u32) :: u64) = n"
  by (rule bit_word_eqI) (simp add: bit_simps)

lemma edge_symbol_u32 [simp]: "edge_symbol (CFLEdge i j (ucast n)) = sym_of n"
  by (simp add: edge_symbol_def getEdgeKind_def)

lemma fact_in_graph:
  assumes "graph_ok g"
  shows "(i, X, j) \<in> graph_facts g \<longleftrightarrow> CFLEdge i j (ucast (sym_num X)) \<in> set (cflEdgeSet g)"
proof
  assume "(i, X, j) \<in> graph_facts g"
  then obtain e where e: "e \<in> set (cflEdgeSet g)" "edge_fact e = (i, X, j)" by (auto simp: graph_facts_def)
  have "edge_fact (CFLEdge i j (ucast (sym_num X))) = edge_fact e" by (simp add: e(2), simp add: edge_fact_def sym_of_num)
  then have "e = CFLEdge i j (ucast (sym_num X))"
    using e(1) assms by (intro edge_fact_inj) (auto simp: graph_ok_def)
  then show "CFLEdge i j (ucast (sym_num X)) \<in> set (cflEdgeSet g)" using e(1) by simp
qed (force simp: graph_facts_def edge_fact_def sym_of_num)

lemma addCFLEdge_ok:
  assumes "graph_ok g" "i \<in> set (graphNodes g)" "j \<in> set (graphNodes g)"
  shows "\<exists>g'. addCFLEdge i j (ucast (n :: u32)) g
      = Some (if CFLEdge i j (ucast n) \<in> set (cflEdgeSet g) then None else Some (CFLEdge i j (ucast n)), g')
    \<and> graph_ok g' \<and> graphNodes g' = graphNodes g \<and> set (cflEdgeSet g') = insert (CFLEdge i j (ucast n)) (set (cflEdgeSet g))"
proof (cases "CFLEdge i j (ucast n) \<in> set (cflEdgeSet g)")
  case True
  then show ?thesis using assms by (auto simp: addCFLEdge_def Let_def)
next
  case False
  let ?e = "CFLEdge i j (ucast n) :: cfl_edge"
  let ?g = "g\<lparr>cflEdgeSet := snd (eset_insert ?e (cflEdgeSet g)), outEdges := (outEdges g)(i := snd (eset_insert ?e (outEdges g i))),
    outCFLEdges := (outCFLEdges g)(i := (outCFLEdges g i)(sym_of n := snd (eset_insert ?e (outCFLEdges g i (sym_of n))))),
    inEdges := (inEdges g)(j := snd (eset_insert ?e (inEdges g j))),
    inCFLEdges := (inCFLEdges g)(j := (inCFLEdges g j)(sym_of n := snd (eset_insert ?e (inCFLEdges g j (sym_of n)))))\<rparr>"
  have "addCFLEdge i j (ucast n) g = Some (Some ?e, ?g)"
    using False by (simp add: addCFLEdge_def addOutgoingEdge_def addIngoingEdge_def addOutEdgeWithKind_def addInEdgeWithKind_def Let_def)
  moreover have es: "x = CFLEdge a b (ucast n) \<Longrightarrow> edge_symbol x = sym_of n" for x a b by simp
  moreover have "graph_ok ?g"
    using assms unfolding graph_ok_def by (auto simp: eset_insert_sorted dest: es)
  ultimately show ?thesis using False by auto
qed

lemma addGNode_ok:
  assumes "graph_ok g"
  shows "graph_ok (addGNode n g)" "set (graphNodes (addGNode n g)) = insert n (set (graphNodes g))"
    "cflEdgeSet (addGNode n g) = cflEdgeSet g"
proof -
  have "{e \<in> set (cflEdgeSet g). edgeSrc e = n} = {}" "{e \<in> set (cflEdgeSet g). edgeDst e = n} = {}" if "n \<notin> set (graphNodes g)"
    using that assms by (auto simp: graph_ok_def)
  then show "graph_ok (addGNode n g)"
    using assms unfolding addGNode_def addCFLNode_def graph_ok_def
    by (auto simp: sorted_insort set_insort_key)
  show "set (graphNodes (addGNode n g)) = insert n (set (graphNodes g))" "cflEdgeSet (addGNode n g) = cflEdgeSet g"
    by (auto simp: addGNode_def addCFLNode_def set_insort_key)
qed

lemma add_labelled_ok:
  assumes "graph_ok g"
  shows "\<exists>g'. add_labelled (i, j, n) g = Some g' \<and> graph_ok g' \<and> set (graphNodes g') = {i, j} \<union> set (graphNodes g)
    \<and> graph_facts g' = insert (i, sym_of n, j) (graph_facts g)"
proof -
  let ?g = "addGNode j (addGNode i g)"
  have ok: "graph_ok ?g" "set (graphNodes ?g) = {i, j} \<union> set (graphNodes g)" "cflEdgeSet ?g = cflEdgeSet g"
    using addGNode_ok [OF assms, of i] addGNode_ok [of "addGNode i g" j] by auto
  from addCFLEdge_ok [OF ok(1), of i j n] obtain g' where g': "addCFLEdge i j (ucast n) ?g
      = Some (if CFLEdge i j (ucast n) \<in> set (cflEdgeSet ?g) then None else Some (CFLEdge i j (ucast n)), g')"
    "graph_ok g'" "graphNodes g' = graphNodes ?g" "set (cflEdgeSet g') = insert (CFLEdge i j (ucast n)) (set (cflEdgeSet ?g))"
    using ok(2) by auto
  have "graph_facts g' = insert (i, sym_of n, j) (graph_facts g)"
    using g'(4) ok(3) by (simp add: graph_facts_def edge_fact_def)
  then show ?thesis using g'(1-3) ok(2) by (simp add: add_labelled_def)
qed

lemma cfl_build_each:
  "graph_ok g \<Longrightarrow> \<exists>g'. each add_labelled es g = Some g' \<and> graph_ok g'
    \<and> set (graphNodes g') = set (graphNodes g) \<union> fst ` set es \<union> fst ` snd ` set es
    \<and> graph_facts g' = graph_facts g \<union> (\<lambda>(i, n, j). (i, sym_of j, n)) ` set es"
proof (induction es arbitrary: g)
  case (Cons e es)
  obtain i j n where e: "e = (i, j, n)" by (cases e)
  obtain g1 where g1: "add_labelled e g = Some g1" "graph_ok g1" "set (graphNodes g1) = {i, j} \<union> set (graphNodes g)"
    "graph_facts g1 = insert (i, sym_of n, j) (graph_facts g)" using add_labelled_ok [OF Cons.prems, of i j n] e by auto
  from Cons.IH [OF g1(2)] show ?case using g1 by (auto simp: e)
qed simp

lemma cfl_new_ok: "graph_ok (cfl_new k)" "graph_facts (cfl_new k) = {}" "graphNodes (cfl_new k) = []"
  by (simp_all add: graph_ok_def graph_facts_def cfl_new_def)

lemma cfl_build_ok:
  "\<exists>g. cfl_build k es = Some g \<and> graph_ok g \<and> set (graphNodes g) = fst ` set es \<union> fst ` snd ` set es
    \<and> graph_facts g = {(i, sym_of n, j) |i j n. (i, j, n) \<in> set es}"
proof -
  obtain g where "each add_labelled es (cfl_new k) = Some g" "graph_ok g"
    "set (graphNodes g) = fst ` set es \<union> fst ` snd ` set es" "graph_facts g = (\<lambda>(i, j, n). (i, sym_of n, j)) ` set es"
    using cfl_build_each [OF cfl_new_ok(1), of es k] by (auto simp: cfl_new_ok)
  moreover have "(\<lambda>(i, j, n). (i, sym_of n, j)) ` set es = {(i, sym_of n, j) |i j n. (i, j, n) \<in> set es}" by force
  ultimately show ?thesis unfolding cfl_build_def by (intro exI [of _ g]) simp
qed

text \<open>C24: The graph is consistent: building it from labelled edges never fails; the set of all edges is
  strictly ordered, so without duplicates, and the edge sets of the nodes, as a whole and by symbol, are
  its parts. The nodes and labelled edges of the graph are those that were given.\<close>

theorem cfl_build_correct:
  "\<exists>g. cfl_build k es = Some g \<and> graph_ok g \<and> set (graphNodes g) = fst ` set es \<union> fst ` snd ` set es
    \<and> graph_facts g = {(i, sym_of n, j) |i j n. (i, j, n) \<in> set es}"
  by (rule cfl_build_ok)

end
