(* ===== verification/CflSolver.thy ===== *)
theory CflSolver
  imports CflGraph
begin

text \<open>
  The solver of CFL reachability (\<open>CFLSolver\<close> in \<open>svf/lib/CFL/CFLSolver.cpp\<close>). A failed assertion and
  \<open>std::out_of_range\<close> are \<open>None\<close>.

  The sets of edges that a loop of \<open>processCFLEdge\<close> walks over are taken as they are at the start of the
  loop. The body inserts into such a set only edges that come before the current one, or that are there:
  a new edge has the symbol of the set, and so the current edge's ends, only with a smaller kind.
\<close>

section \<open>The solver\<close>

record cfl_state =
  cs_graph :: cfl_graph
  cs_work :: "cfl_edge work_list"
  numOfChecks :: nat

definition check :: "'a cfl_state_scheme \<Rightarrow> 'a cfl_state_scheme" where
  "check st = st\<lparr>numOfChecks := numOfChecks st + 1\<rparr>"

definition pushIntoWorklist :: "cfl_edge \<Rightarrow> 'a cfl_state_scheme \<Rightarrow> bool \<times> 'a cfl_state_scheme" where
  "pushIntoWorklist e st = (let r = fifo_push e (cs_work st) in (fst r, st\<lparr>cs_work := snd r\<rparr>))"

definition isWorklistEmpty :: "'a cfl_state_scheme \<Rightarrow> bool" where
  "isWorklistEmpty st = fifo_empty (cs_work st)"

definition popFromWorklist :: "'a cfl_state_scheme \<Rightarrow> (cfl_edge \<times> 'a cfl_state_scheme) option" where
  "popFromWorklist st = map_option (\<lambda>r. (fst r, st\<lparr>cs_work := snd r\<rparr>)) (fifo_pop (cs_work st))"

definition isInWorklist :: "cfl_edge \<Rightarrow> 'a cfl_state_scheme \<Rightarrow> bool" where
  "isInWorklist e st = fifo_find e (cs_work st)"

text \<open>\<open>if (newEdge = graph->addCFLEdge(i, j, X)) pushIntoWorklist(newEdge)\<close>\<close>

definition cfl_add :: "nat \<Rightarrow> nat \<Rightarrow> symbol \<Rightarrow> 'a cfl_state_scheme \<Rightarrow> 'a cfl_state_scheme option" where
  "cfl_add i j X st = map_option (\<lambda>r. let st' = st\<lparr>cs_graph := snd r\<rparr> in
     case fst r of None \<Rightarrow> st' | Some e \<Rightarrow> snd (pushIntoWorklist e st')) (addCFLEdge i j (ucast (sym_num X)) (cs_graph st))"

definition cfl_epsilon :: "production \<Rightarrow> 'a cfl_state_scheme \<Rightarrow> 'a cfl_state_scheme option" where
  "cfl_epsilon p st = each (\<lambda>i st. Option.bind (getLHSSymbol p) (\<lambda>X. cfl_add i i X st)) (graphNodes (cs_graph st)) st"

definition cfl_initialize :: "cf_gram \<Rightarrow> 'a cfl_state_scheme \<Rightarrow> 'a cfl_state_scheme option" where
  "cfl_initialize g st =
     each cfl_epsilon (epsilonProds g)
       (fold (\<lambda>i. fold (\<lambda>e st. snd (pushIntoWorklist e st)) (outEdges (cs_graph st) i)) (graphNodes (cs_graph st)) st)"

definition process_single :: "nat \<Rightarrow> nat \<Rightarrow> production \<Rightarrow> 'a cfl_state_scheme \<Rightarrow> 'a cfl_state_scheme option" where
  "process_single i j p st = Option.bind (getLHSSymbol p) (\<lambda>X. cfl_add i j X (check st))"

definition process_first :: "nat \<Rightarrow> nat \<Rightarrow> production \<Rightarrow> 'a cfl_state_scheme \<Rightarrow> 'a cfl_state_scheme option" where
  "process_first i j p st = Option.bind (getLHSSymbol p) (\<lambda>X. Option.bind (getSecondRHSSymbol p) (\<lambda>Z.
     each (\<lambda>e st. cfl_add i (edgeDst e) X (check st)) (getOutEdgeWithTy j Z (cs_graph st)) st))"

definition process_second :: "nat \<Rightarrow> nat \<Rightarrow> production \<Rightarrow> 'a cfl_state_scheme \<Rightarrow> 'a cfl_state_scheme option" where
  "process_second i j p st = Option.bind (getLHSSymbol p) (\<lambda>X. Option.bind (getFirstRHSSymbol p) (\<lambda>Z.
     each (\<lambda>e st. cfl_add (edgeSrc e) j X (check st)) (getInEdgeWithTy i Z (cs_graph st)) st))"

definition processCFLEdge :: "cf_gram \<Rightarrow> cfl_edge \<Rightarrow> 'a cfl_state_scheme \<Rightarrow> 'a cfl_state_scheme option" where
  "processCFLEdge g Y_edge st =
     (let i = edgeSrc Y_edge; j = edgeDst Y_edge; Y = edge_symbol Y_edge in
      Option.bind (if hasProdsFromSingleRHS g Y
        then Option.bind (getProdsFromSingleRHS g Y) (\<lambda>ps. each (process_single i j) ps st) else Some st) (\<lambda>st.
      Option.bind (if hasProdsFromFirstRHS g Y
        then Option.bind (getProdsFromFirstRHS g Y) (\<lambda>ps. each (process_first i j) ps st) else Some st) (\<lambda>st.
      if hasProdsFromSecondRHS g Y
      then Option.bind (getProdsFromSecondRHS g Y) (\<lambda>ps. each (process_second i j) ps st) else Some st)))"

definition cfl_round :: "cf_gram \<Rightarrow> 'a cfl_state_scheme \<Rightarrow> 'a cfl_state_scheme option" where
  "cfl_round g st = Option.bind (popFromWorklist st) (\<lambda>r. processCFLEdge g (fst r) (snd r))"

definition cfl_solve :: "cf_gram \<Rightarrow> 'a cfl_state_scheme \<Rightarrow> 'a cfl_state_scheme option" where
  "cfl_solve g st = Option.bind (cfl_initialize g st) (work_loop isWorklistEmpty (cfl_round g))"

definition cfl_make :: "cfl_graph \<Rightarrow> cfl_state" where
  "cfl_make graph = \<lparr>cs_graph = graph, cs_work = wl_new, numOfChecks = 0\<rparr>"

section \<open>Derivations\<close>

type_synonym cfl_fact = "nat \<times> symbol \<times> nat"

text \<open>\<open>X\<close> derives a word that labels a path from \<open>i\<close> to \<open>j\<close>, with symbols that edges have from the
  start taken as derived.\<close>

inductive cfl_derives :: "cf_gram \<Rightarrow> nat set \<Rightarrow> cfl_fact set \<Rightarrow> nat \<Rightarrow> symbol \<Rightarrow> nat \<Rightarrow> bool" for g N E where
  edge: "(i, X, j) \<in> E \<Longrightarrow> cfl_derives g N E i X j"
| empty: "epsilon_rule g X \<Longrightarrow> i \<in> N \<Longrightarrow> cfl_derives g N E i X i"
| single: "unit_rule g X Y \<Longrightarrow> cfl_derives g N E i Y j \<Longrightarrow> cfl_derives g N E i X j"
| binary: "binary_rule g X Y Z \<Longrightarrow> cfl_derives g N E i Y j \<Longrightarrow> cfl_derives g N E j Z k \<Longrightarrow> cfl_derives g N E i X k"

definition derive_one :: "cf_gram \<Rightarrow> cfl_fact \<Rightarrow> cfl_fact set" where
  "derive_one g y = (case y of (i, Y, j) \<Rightarrow> {(i, X, j) |X. unit_rule g X Y})"

definition derive_two :: "cf_gram \<Rightarrow> cfl_fact \<Rightarrow> cfl_fact \<Rightarrow> cfl_fact set" where
  "derive_two g y z = (case y of (i, Y, j) \<Rightarrow> case z of (j', Z, k) \<Rightarrow> {(i, X, k) |X. j' = j \<and> binary_rule g X Y Z})"

definition all_facts :: "nat set \<Rightarrow> cfl_fact set" where
  "all_facts N = N \<times> UNIV \<times> N"

definition epsilon_facts :: "cf_gram \<Rightarrow> nat set \<Rightarrow> cfl_fact set" where
  "epsilon_facts g N = {(i, X, i) |i X. i \<in> N \<and> epsilon_rule g X}"

lemma derives_least:
  "\<Inter> {D. sat_closed (derive_one g) (derive_two g) D \<and> E \<union> epsilon_facts g N \<subseteq> D} = {(i, X, j). cfl_derives g N E i X j}"
proof (intro equalityI)
  let ?D = "{(i, X, j). cfl_derives g N E i X j}"
  have "sat_closed (derive_one g) (derive_two g) ?D"
    by (auto simp: sat_closed_def derive_one_def derive_two_def intro: cfl_derives.intros)
  moreover have "E \<union> epsilon_facts g N \<subseteq> ?D" by (auto simp: epsilon_facts_def intro: cfl_derives.intros)
  ultimately show "\<Inter> {D. sat_closed (derive_one g) (derive_two g) D \<and> E \<union> epsilon_facts g N \<subseteq> D} \<subseteq> ?D" by blast
  have "(i, X, j) \<in> D" if "cfl_derives g N E i X j" and D: "sat_closed (derive_one g) (derive_two g) D" "E \<union> epsilon_facts g N \<subseteq> D"
    for i X j D
    using that(1)
  proof induction
    case (single X Y i j)
    then have "derive_one g (i, Y, j) \<subseteq> D" using D(1) unfolding sat_closed_def by blast
    then show ?case using single.hyps(1) by (auto simp: derive_one_def)
  next
    case (binary X Y Z i j k)
    then have "derive_two g (i, Y, j) (j, Z, k) \<subseteq> D" using D(1) unfolding sat_closed_def by blast
    then show ?case using binary.hyps(1) by (auto simp: derive_two_def)
  qed (use D(2) in \<open>auto simp: epsilon_facts_def\<close>)
  then show "?D \<subseteq> \<Inter> {D. sat_closed (derive_one g) (derive_two g) D \<and> E \<union> epsilon_facts g N \<subseteq> D}" by blast
qed

lemma finite_symbols: "finite (UNIV :: symbol set)"
proof -
  have "(UNIV :: symbol set) = range sym_of" using sym_of_num by (metis surjI)
  then show ?thesis by (metis finite finite_imageI)
qed

section \<open>Processing an edge\<close>

lemma prods_rules:
  assumes "cf_ok g"
  shows "set (prods_at (singleRHSToProds g) Y) = {[X, Y] |X. unit_rule g X Y}"
    "set (prods_at (firstRHSToProds g) Y) = {[X, Y, Z] |X Z. binary_rule g X Y Z}"
    "set (prods_at (secondRHSToProds g) Y) = {[X, Z, Y] |X Z. binary_rule g X Z Y}"
proof -
  note ok = assms [unfolded cf_ok_def, THEN conjunct2]
  note c = ok [THEN conjunct1, THEN spec, of Y] ok [THEN conjunct2, THEN conjunct1, THEN spec, of Y]
    ok [THEN conjunct2, THEN conjunct2, THEN conjunct1, THEN spec, of Y]
  have b: "\<forall>X Z. binary_rule g X Z Y \<longleftrightarrow> [X, Z, Y] \<in> set (prods_at (secondRHSToProds g) Y)"
    unfolding binary_rule_def using ok [THEN conjunct2, THEN conjunct2, THEN conjunct2] by simp
  show "set (prods_at (singleRHSToProds g) Y) = {[X, Y] |X. unit_rule g X Y}"
    using c(1) by (auto simp: unit_rule_def)
  show "set (prods_at (firstRHSToProds g) Y) = {[X, Y, Z] |X Z. binary_rule g X Y Z}"
    using c(2) by (auto simp: binary_rule_def)
  show "set (prods_at (secondRHSToProds g) Y) = {[X, Z, Y] |X Z. binary_rule g X Z Y}"
    using c(3) b by auto
qed

lemma prods_found: "map_of m Y = Some ps \<Longrightarrow> set ps = set (prods_at m Y)"
  by (simp add: prods_at_def)

lemma no_rules:
  assumes "cf_ok g"
  shows "\<not> hasProdsFromSingleRHS g Y \<Longrightarrow> derive_one g (i, Y, j) = {}"
    "\<not> hasProdsFromFirstRHS g Y \<Longrightarrow> derive_two g (i, Y, j) z = {}"
    "\<not> hasProdsFromSecondRHS g Y \<Longrightarrow> derive_two g z (i, Y, j) = {}"
proof -
  have e: "map_of m Y = None \<Longrightarrow> set (prods_at m Y) = {}" for m by (simp add: prods_at_def)
  show "\<not> hasProdsFromSingleRHS g Y \<Longrightarrow> derive_one g (i, Y, j) = {}"
    using prods_rules(1) [OF assms, of Y] e by (simp add: hasProdsFromSingleRHS_def derive_one_def)
  show "\<not> hasProdsFromFirstRHS g Y \<Longrightarrow> derive_two g (i, Y, j) z = {}"
    using prods_rules(2) [OF assms, of Y] e by (cases z) (simp add: hasProdsFromFirstRHS_def derive_two_def)
  show "\<not> hasProdsFromSecondRHS g Y \<Longrightarrow> derive_two g z (i, Y, j) = {}"
    using prods_rules(3) [OF assms, of Y] e by (cases z) (simp add: hasProdsFromSecondRHS_def derive_two_def)
qed

text \<open>The three loops of \<open>processCFLEdge\<close>, over steps for one production.\<close>

definition process_rules :: "cf_gram \<Rightarrow> (nat \<Rightarrow> nat \<Rightarrow> production \<Rightarrow> 's \<Rightarrow> 's option) \<Rightarrow> (nat \<Rightarrow> nat \<Rightarrow> production \<Rightarrow> 's \<Rightarrow> 's option)
    \<Rightarrow> (nat \<Rightarrow> nat \<Rightarrow> production \<Rightarrow> 's \<Rightarrow> 's option) \<Rightarrow> nat \<Rightarrow> nat \<Rightarrow> symbol \<Rightarrow> 's \<Rightarrow> 's option" where
  "process_rules g p1 p2 p3 i j Y st =
     Option.bind (if hasProdsFromSingleRHS g Y
       then Option.bind (getProdsFromSingleRHS g Y) (\<lambda>ps. each (p1 i j) ps st) else Some st) (\<lambda>st.
     Option.bind (if hasProdsFromFirstRHS g Y
       then Option.bind (getProdsFromFirstRHS g Y) (\<lambda>ps. each (p2 i j) ps st) else Some st) (\<lambda>st.
     if hasProdsFromSecondRHS g Y
     then Option.bind (getProdsFromSecondRHS g Y) (\<lambda>ps. each (p3 i j) ps st) else Some st))"

text \<open>What a step for a production adds: the solvers differ in how they find the edges.\<close>

locale edge_steps = sat_state "derive_one g" "derive_two g" inv facts todo space
  for g :: cf_gram and inv :: "'s \<Rightarrow> bool" and facts todo space +
  fixes p1 :: "nat \<Rightarrow> nat \<Rightarrow> production \<Rightarrow> 's \<Rightarrow> 's option"
    and p2 :: "nat \<Rightarrow> nat \<Rightarrow> production \<Rightarrow> 's \<Rightarrow> 's option"
    and p3 :: "nat \<Rightarrow> nat \<Rightarrow> production \<Rightarrow> 's \<Rightarrow> 's option"
  assumes grammar: "inv st \<Longrightarrow> cf_ok g"
    and p1_ok: "inv st \<Longrightarrow> (i, Y, j) \<in> facts st \<Longrightarrow> unit_rule g X Y \<Longrightarrow>
      \<exists>t. p1 i j [X, Y] st = Some t \<and> grow st t {(i, X, j)}"
    and p2_ok: "inv st \<Longrightarrow> (i, Y, j) \<in> facts st \<Longrightarrow> binary_rule g X Y Z \<Longrightarrow>
      \<exists>t. p2 i j [X, Y, Z] st = Some t \<and> grow st t {(i, X, k) |k. (j, Z, k) \<in> facts st}"
    and p3_ok: "inv st \<Longrightarrow> (i, Y, j) \<in> facts st \<Longrightarrow> binary_rule g X Z Y \<Longrightarrow>
      \<exists>t. p3 i j [X, Z, Y] st = Some t \<and> grow st t {(k, X, j) |k. (k, Z, i) \<in> facts st}"
begin

lemma single_loop_ok:
  assumes "cf_ok g" "inv st" "(i, Y, j) \<in> facts st" "getProdsFromSingleRHS g Y = Some ps"
  shows "\<exists>t. each (p1 i j) ps st = Some t \<and> grow st t (derive_one g (i, Y, j))"
proof -
  have ps: "set ps = {[X, Y] |X. unit_rule g X Y}"
    using prods_found [OF assms(4) [unfolded getProdsFromSingleRHS_def]] prods_rules(1) [OF assms(1)] by simp
  have "\<exists>t. each (p1 i j) ps st = Some t \<and> grow st t (\<Union>p\<in>set ps. {(i, p ! 0, j)})"
  proof (rule grow_each [OF assms(2)])
    fix p s assume "p \<in> set ps" "inv s" "facts st \<subseteq> facts s"
    then obtain X where "p = [X, Y]" "unit_rule g X Y" "(i, Y, j) \<in> facts s" "inv s" using ps assms(3) by blast
    then show "\<exists>u. p1 i j p s = Some u \<and> grow s u {(i, p ! 0, j)}" using p1_ok by simp
  qed
  moreover have "(\<Union>p\<in>set ps. {(i, p ! 0, j)}) = derive_one g (i, Y, j)" unfolding ps derive_one_def by auto
  ultimately show ?thesis by simp
qed

lemma first_loop_ok:
  assumes "cf_ok g" "inv st" "(i, Y, j) \<in> facts st" "getProdsFromFirstRHS g Y = Some ps"
  shows "\<exists>t. each (p2 i j) ps st = Some t \<and> grow st t (\<Union>z\<in>facts st. derive_two g (i, Y, j) z)"
proof -
  have ps: "set ps = {[X, Y, Z] |X Z. binary_rule g X Y Z}"
    using prods_found [OF assms(4) [unfolded getProdsFromFirstRHS_def]] prods_rules(2) [OF assms(1)] by simp
  have "\<exists>t. each (p2 i j) ps st = Some t \<and> grow st t (\<Union>p\<in>set ps. {(i, p ! 0, k) |k. (j, p ! 2, k) \<in> facts st})"
  proof (rule grow_each [OF assms(2)])
    fix p s assume a: "p \<in> set ps" "inv s" "facts st \<subseteq> facts s"
    then obtain X Z where p: "p = [X, Y, Z]" "binary_rule g X Y Z" "(i, Y, j) \<in> facts s" using ps assms(3) by blast
    from p2_ok [OF a(2) p(3,2)] obtain u where u: "p2 i j p s = Some u"
      "grow s u {(i, X, k) |k. (j, Z, k) \<in> facts s}" by (auto simp: p(1))
    have "grow s u {(i, p ! 0, k) |k. (j, p ! 2, k) \<in> facts st}"
      by (rule grow_mono [OF u(2)]) (use a(3) p(1) in auto)
    then show "\<exists>u. p2 i j p s = Some u \<and> grow s u {(i, p ! 0, k) |k. (j, p ! 2, k) \<in> facts st}"
      using u(1) by blast
  qed
  moreover have "(\<Union>p\<in>set ps. {(i, p ! 0, k) |k. (j, p ! 2, k) \<in> facts st}) = (\<Union>z\<in>facts st. derive_two g (i, Y, j) z)"
    unfolding ps derive_two_def by (fastforce split: prod.splits)
  ultimately show ?thesis by simp
qed

lemma second_loop_ok:
  assumes "cf_ok g" "inv st" "(i, Y, j) \<in> facts st" "getProdsFromSecondRHS g Y = Some ps"
  shows "\<exists>t. each (p3 i j) ps st = Some t \<and> grow st t (\<Union>z\<in>facts st. derive_two g z (i, Y, j))"
proof -
  have ps: "set ps = {[X, Z, Y] |X Z. binary_rule g X Z Y}"
    using prods_found [OF assms(4) [unfolded getProdsFromSecondRHS_def]] prods_rules(3) [OF assms(1)] by simp
  have "\<exists>t. each (p3 i j) ps st = Some t \<and> grow st t (\<Union>p\<in>set ps. {(k, p ! 0, j) |k. (k, p ! 1, i) \<in> facts st})"
  proof (rule grow_each [OF assms(2)])
    fix p s assume a: "p \<in> set ps" "inv s" "facts st \<subseteq> facts s"
    then obtain X Z where p: "p = [X, Z, Y]" "binary_rule g X Z Y" "(i, Y, j) \<in> facts s" using ps assms(3) by blast
    from p3_ok [OF a(2) p(3,2)] obtain u where u: "p3 i j p s = Some u"
      "grow s u {(k, X, j) |k. (k, Z, i) \<in> facts s}" by (auto simp: p(1))
    have "grow s u {(k, p ! 0, j) |k. (k, p ! 1, i) \<in> facts st}"
      by (rule grow_mono [OF u(2)]) (use a(3) p(1) in auto)
    then show "\<exists>u. p3 i j p s = Some u \<and> grow s u {(k, p ! 0, j) |k. (k, p ! 1, i) \<in> facts st}"
      using u(1) by blast
  qed
  moreover have "(\<Union>p\<in>set ps. {(k, p ! 0, j) |k. (k, p ! 1, i) \<in> facts st}) = (\<Union>z\<in>facts st. derive_two g z (i, Y, j))"
    unfolding ps derive_two_def by (fastforce split: prod.splits)
  ultimately show ?thesis by simp
qed

lemma process_rules_ok:
  assumes g: "cf_ok g" and st: "inv st" and y: "(i, Y, j) \<in> facts st"
  shows "\<exists>t. process_rules g p1 p2 p3 i j Y st = Some t
    \<and> grow st t (derive_one g (i, Y, j) \<union> (\<Union>z\<in>facts st. derive_two g (i, Y, j) z \<union> derive_two g z (i, Y, j)))"
proof -
  let ?p1 = "if hasProdsFromSingleRHS g Y then Option.bind (getProdsFromSingleRHS g Y) (\<lambda>ps. each (p1 i j) ps st) else Some st"
  have "\<exists>t. ?p1 = Some t \<and> grow st t (derive_one g (i, Y, j))"
  proof (cases "getProdsFromSingleRHS g Y")
    case None
    then show ?thesis using no_rules(1) [OF g, of Y i j] grow_refl [OF st]
      by (simp add: hasProdsFromSingleRHS_def getProdsFromSingleRHS_def)
  next
    case (Some ps)
    from single_loop_ok [OF g st y Some] Some show ?thesis
      by (auto simp: hasProdsFromSingleRHS_def getProdsFromSingleRHS_def)
  qed
  then obtain s1 where s1: "?p1 = Some s1" and g1: "grow st s1 (derive_one g (i, Y, j))" by blast
  have i1: "inv s1" "(i, Y, j) \<in> facts s1" using growD(1,3) [OF g1] y by auto
  let ?p2 = "if hasProdsFromFirstRHS g Y then Option.bind (getProdsFromFirstRHS g Y) (\<lambda>ps. each (p2 i j) ps s1) else Some s1"
  have "\<exists>t. ?p2 = Some t \<and> grow s1 t (\<Union>z\<in>facts s1. derive_two g (i, Y, j) z)"
  proof (cases "getProdsFromFirstRHS g Y")
    case None
    then show ?thesis using no_rules(2) [OF g, of Y i j] grow_refl [OF i1(1)]
      by (simp add: hasProdsFromFirstRHS_def getProdsFromFirstRHS_def)
  next
    case (Some ps)
    from first_loop_ok [OF g i1 Some] Some show ?thesis
      by (auto simp: hasProdsFromFirstRHS_def getProdsFromFirstRHS_def)
  qed
  then obtain s2 where s2: "?p2 = Some s2" and g2: "grow s1 s2 (\<Union>z\<in>facts s1. derive_two g (i, Y, j) z)" by blast
  have i2: "inv s2" "(i, Y, j) \<in> facts s2" using growD(1,3) [OF g2] i1 by auto
  let ?p3 = "if hasProdsFromSecondRHS g Y then Option.bind (getProdsFromSecondRHS g Y) (\<lambda>ps. each (p3 i j) ps s2) else Some s2"
  have "\<exists>t. ?p3 = Some t \<and> grow s2 t (\<Union>z\<in>facts s2. derive_two g z (i, Y, j))"
  proof (cases "getProdsFromSecondRHS g Y")
    case None
    then show ?thesis using no_rules(3) [OF g, of Y _ i j] grow_refl [OF i2(1)]
      by (simp add: hasProdsFromSecondRHS_def getProdsFromSecondRHS_def)
  next
    case (Some ps)
    from second_loop_ok [OF g i2 Some] Some show ?thesis
      by (auto simp: hasProdsFromSecondRHS_def getProdsFromSecondRHS_def)
  qed
  then obtain s3 where s3: "?p3 = Some s3" and g3: "grow s2 s3 (\<Union>z\<in>facts s2. derive_two g z (i, Y, j))" by blast
  have "process_rules g p1 p2 p3 i j Y st = Some s3" unfolding process_rules_def s1 bind.bind_lunit s2 s3 ..
  moreover have "grow st s3 (derive_one g (i, Y, j) \<union> (\<Union>z\<in>facts s1. derive_two g (i, Y, j) z) \<union> (\<Union>z\<in>facts s2. derive_two g z (i, Y, j)))"
    by (rule grow_trans [OF grow_trans [OF g1 g2] g3])
  then have "grow st s3 (derive_one g (i, Y, j) \<union> (\<Union>z\<in>facts st. derive_two g (i, Y, j) z \<union> derive_two g z (i, Y, j)))"
    by (rule grow_mono) (use growD(3) [OF g1] growD(3) [OF g2] in blast)
  ultimately show ?thesis by blast
qed

end

text \<open>A solver: it takes an edge off a work list, and processes it.\<close>

locale edge_solver = edge_steps g inv facts todo space p1 p2 p3
  for g :: cf_gram and inv :: "'s \<Rightarrow> bool" and facts todo space p1 p2 p3 +
  fixes stop :: "'s \<Rightarrow> bool"
    and pop :: "'s \<Rightarrow> (cfl_edge \<times> 's) option"
  assumes stop_todo: "inv st \<Longrightarrow> stop st = (todo st = {})"
    and pop_ok: "inv st \<Longrightarrow> todo st \<noteq> {} \<Longrightarrow> \<exists>e s0. pop st = Some (e, s0) \<and> edge_fact e \<in> todo st \<and> inv s0
      \<and> space s0 = space st \<and> facts s0 = facts st \<and> todo s0 = todo st - {edge_fact e}"
begin

definition round :: "'s \<Rightarrow> 's option" where
  "round st = Option.bind (pop st) (\<lambda>r. process_rules g p1 p2 p3 (edgeSrc (fst r)) (edgeDst (fst r)) (edge_symbol (fst r)) (snd r))"

lemma round_ok:
  assumes "inv st" "todo st \<noteq> {}"
  shows "\<exists>y s0 t. round st = Some t \<and> y \<in> todo st \<and> space s0 = space st \<and> facts s0 = facts st \<and> todo s0 = todo st - {y}
    \<and> grow s0 t (derive_one g y \<union> (\<Union>z\<in>facts st. derive_two g y z \<union> derive_two g z y))"
proof -
  from pop_ok [OF assms] obtain e s0 where e: "pop st = Some (e, s0)" "edge_fact e \<in> todo st" "inv s0"
    "space s0 = space st" "facts s0 = facts st" "todo s0 = todo st - {edge_fact e}" by blast
  have "(edgeSrc e, edge_symbol e, edgeDst e) \<in> facts s0" using e(2,5) bounded [OF assms(1)] by (auto simp: edge_fact_def)
  from process_rules_ok [OF grammar [OF assms(1)] e(3) this] obtain t where
    "process_rules g p1 p2 p3 (edgeSrc e) (edgeDst e) (edge_symbol e) s0 = Some t"
    "grow s0 t (derive_one g (edge_fact e) \<union> (\<Union>z\<in>facts st. derive_two g (edge_fact e) z \<union> derive_two g z (edge_fact e)))"
    by (auto simp: edge_fact_def e(5))
  then show ?thesis using e by (intro exI [of _ "edge_fact e"] exI [of _ s0] exI [of _ t]) (simp add: round_def)
qed

end

sublocale edge_solver \<subseteq> saturation "derive_one g" "derive_two g" inv facts todo space stop round
  by unfold_locales (use stop_todo round_ok in \<open>blast+\<close>)


section \<open>The solver saturates\<close>

definition cfl_inv :: "'a cfl_state_scheme \<Rightarrow> bool" where
  "cfl_inv st = (graph_ok (cs_graph st) \<and> wl_ok (cs_work st) \<and> data_set (cs_work st) \<subseteq> set (cflEdgeSet (cs_graph st)))"

definition cfl_facts :: "'a cfl_state_scheme \<Rightarrow> cfl_fact set" where
  "cfl_facts st = graph_facts (cs_graph st)"

definition cfl_todo :: "'a cfl_state_scheme \<Rightarrow> cfl_fact set" where
  "cfl_todo st = edge_fact ` data_set (cs_work st)"

definition cfl_space :: "'a cfl_state_scheme \<Rightarrow> cfl_fact set" where
  "cfl_space st = all_facts (set (graphNodes (cs_graph st)))"

interpretation cfl: sat_state "derive_one g" "derive_two g" cfl_inv cfl_facts cfl_todo cfl_space for g
proof
  fix st assume st: "cfl_inv st"
  then have "cfl_facts st \<subseteq> cfl_space st"
    by (auto simp: cfl_inv_def cfl_facts_def cfl_space_def all_facts_def graph_facts_def graph_ok_def edge_fact_def)
  then show "finite (cfl_space st) \<and> cfl_facts st \<subseteq> cfl_space st \<and> cfl_todo st \<subseteq> cfl_facts st"
    using st finite_symbols by (auto simp: cfl_space_def all_facts_def cfl_todo_def cfl_facts_def graph_facts_def cfl_inv_def)
qed

lemma check_state [simp]: "cfl_inv (check st) = cfl_inv st" "cfl_facts (check st) = cfl_facts st"
    "cfl_todo (check st) = cfl_todo st" "cfl_space (check st) = cfl_space st" "cs_graph (check st) = cs_graph st"
    "cs_work (check st) = cs_work st"
  by (simp_all add: check_def cfl_inv_def cfl_facts_def cfl_todo_def cfl_space_def)

lemma space_nodes: "cfl_space s = cfl_space t \<longleftrightarrow> set (graphNodes (cs_graph s)) = set (graphNodes (cs_graph t))"
proof -
  have "fst ` all_facts N = N" for N by (auto simp: all_facts_def image_iff)
  then show ?thesis unfolding cfl_space_def by metis
qed

text \<open>One edge is added.\<close>

lemma cfl_add_facts:
  assumes "cfl_inv st" "i \<in> set (graphNodes (cs_graph st))" "j \<in> set (graphNodes (cs_graph st))"
  shows "\<exists>t. cfl_add i j X st = Some t \<and> cfl_inv t \<and> graphNodes (cs_graph t) = graphNodes (cs_graph st)
    \<and> cfl_facts t = insert (i, X, j) (cfl_facts st) \<and> cfl_todo t = cfl_todo st \<union> (cfl_facts t - cfl_facts st)"
proof -
  let ?e = "CFLEdge i j (ucast (sym_num X)) :: cfl_edge" and ?g = "cs_graph st"
  have f: "edge_fact ?e = (i, X, j)" by (simp add: edge_fact_def sym_of_num)
  have ok: "graph_ok ?g" "wl_ok (cs_work st)" "data_set (cs_work st) \<subseteq> set (cflEdgeSet ?g)" using assms(1) by (simp_all add: cfl_inv_def)
  from addCFLEdge_ok [OF ok(1) assms(2,3), of "sym_num X"] obtain g' where
    g': "addCFLEdge i j (ucast (sym_num X)) ?g = Some (if ?e \<in> set (cflEdgeSet ?g) then None else Some ?e, g')"
      "graph_ok g'" "graphNodes g' = graphNodes ?g" "set (cflEdgeSet g') = insert ?e (set (cflEdgeSet ?g))" by auto
  have facts: "graph_facts g' = insert (i, X, j) (cfl_facts st)" using g'(4) f by (simp add: graph_facts_def cfl_facts_def)
  define t where "t = (if ?e \<in> set (cflEdgeSet ?g) then st\<lparr>cs_graph := g'\<rparr>
    else st\<lparr>cs_graph := g', cs_work := snd (fifo_push ?e (cs_work st))\<rparr>)"
  have t: "cs_graph t = g'" "cs_work t = (if ?e \<in> set (cflEdgeSet ?g) then cs_work st else snd (fifo_push ?e (cs_work st)))"
    by (auto simp: t_def)
  note push = fifo.push_ok [OF ok(2), of ?e]
  have "cfl_add i j X st = Some t"
    unfolding cfl_add_def g'(1) t_def by (simp add: pushIntoWorklist_def Let_def)
  moreover have "cfl_inv t" using t ok push g'(2,4) by (auto simp: cfl_inv_def)
  moreover have "cfl_facts t = insert (i, X, j) (cfl_facts st)" using facts by (simp add: cfl_facts_def t(1))
  moreover have "(i, X, j) \<in> cfl_facts st \<longleftrightarrow> ?e \<in> set (cflEdgeSet ?g)" using fact_in_graph [OF ok(1)] by (simp add: cfl_facts_def)
  then have "cfl_todo t = cfl_todo st \<union> (cfl_facts t - cfl_facts st)"
    using facts push f by (auto simp: cfl_todo_def cfl_facts_def t)
  ultimately show ?thesis using g'(3) t(1) by auto
qed

lemma cfl_add_ok:
  assumes "cfl_inv st" "(i, X, j) \<in> cfl_space st" "\<And>D. sat_closed (derive_one g) (derive_two g) D \<Longrightarrow> cfl_facts st \<subseteq> D \<Longrightarrow> (i, X, j) \<in> D"
  shows "\<exists>t. cfl_add i j X st = Some t \<and> cfl.grow g st t {(i, X, j)}"
proof -
  have "i \<in> set (graphNodes (cs_graph st))" "j \<in> set (graphNodes (cs_graph st))"
    using assms(2) by (auto simp: cfl_space_def all_facts_def)
  from cfl_add_facts [OF assms(1) this, of X] obtain t where t: "cfl_add i j X st = Some t" "cfl_inv t"
    "graphNodes (cs_graph t) = graphNodes (cs_graph st)" "cfl_facts t = insert (i, X, j) (cfl_facts st)"
    "cfl_todo t = cfl_todo st \<union> (cfl_facts t - cfl_facts st)" by blast
  have "cfl.grow g st t {(i, X, j)}"
    unfolding cfl.grow_def space_nodes using t(2-5) assms(3) by auto
  then show ?thesis using t(1) by blast
qed

lemma in_space: "cfl_inv st \<Longrightarrow> (i, X, j) \<in> cfl_facts st \<Longrightarrow> i \<in> set (graphNodes (cs_graph st)) \<and> j \<in> set (graphNodes (cs_graph st))"
  using cfl.bounded [of st] by (auto simp: cfl_space_def all_facts_def)

lemma nodes_space: "i \<in> set (graphNodes (cs_graph st)) \<Longrightarrow> j \<in> set (graphNodes (cs_graph st)) \<Longrightarrow> (i, X, j) \<in> cfl_space st"
  by (simp add: cfl_space_def all_facts_def)

text \<open>The edges in the sets of a node are the facts with that node.\<close>

lemma out_edges_facts: "cfl_inv st \<Longrightarrow> edgeDst ` set (getOutEdgeWithTy j Z (cs_graph st)) = {k. (j, Z, k) \<in> cfl_facts st}"
  by (force simp: cfl_inv_def graph_ok_def getOutEdgeWithTy_def cfl_facts_def graph_facts_def edge_fact_def)

lemma in_edges_facts: "cfl_inv st \<Longrightarrow> edgeSrc ` set (getInEdgeWithTy i Z (cs_graph st)) = {k. (k, Z, i) \<in> cfl_facts st}"
  by (force simp: cfl_inv_def graph_ok_def getInEdgeWithTy_def cfl_facts_def graph_facts_def edge_fact_def)

lemma closed_one: "sat_closed (derive_one g) (derive_two g) D \<Longrightarrow> unit_rule g X Y \<Longrightarrow> (i, Y, j) \<in> D \<Longrightarrow> (i, X, j) \<in> D"
  unfolding sat_closed_def derive_one_def by fastforce

lemma closed_two: "sat_closed (derive_one g) (derive_two g) D \<Longrightarrow> binary_rule g X Y Z \<Longrightarrow> (i, Y, j) \<in> D \<Longrightarrow> (j, Z, k) \<in> D \<Longrightarrow> (i, X, k) \<in> D"
  unfolding sat_closed_def derive_two_def by fastforce

lemma process_single_ok:
  assumes "cfl_inv st" "(i, Y, j) \<in> cfl_facts st" "unit_rule g X Y"
  shows "\<exists>t. process_single i j [X, Y] st = Some t \<and> cfl.grow g st t {(i, X, j)}"
proof -
  have "\<exists>t. cfl_add i j X (check st) = Some t \<and> cfl.grow g (check st) t {(i, X, j)}"
    by (rule cfl_add_ok) (use assms in_space [OF assms(1,2)] in \<open>auto simp: nodes_space dest: closed_one\<close>)
  then show ?thesis by (simp add: process_single_def getLHSSymbol_def prod_at_def cfl.grow_def)
qed

lemma process_first_ok:
  assumes "cfl_inv st" "(i, Y, j) \<in> cfl_facts st" "binary_rule g X Y Z"
  shows "\<exists>t. process_first i j [X, Y, Z] st = Some t \<and> cfl.grow g st t {(i, X, k) |k. (j, Z, k) \<in> cfl_facts st}"
proof -
  let ?es = "getOutEdgeWithTy j Z (cs_graph st)"
  have "\<exists>t. each (\<lambda>e st. cfl_add i (edgeDst e) X (check st)) ?es st = Some t \<and> cfl.grow g st t (\<Union>e\<in>set ?es. {(i, X, edgeDst e)})"
  proof (rule cfl.grow_each [OF assms(1)])
    fix e s assume e: "e \<in> set ?es" and s: "cfl_inv s" "cfl_space s = cfl_space st" "cfl_facts st \<subseteq> cfl_facts s"
    have f: "(j, Z, edgeDst e) \<in> cfl_facts s" "(i, Y, j) \<in> cfl_facts s" using out_edges_facts [OF assms(1)] e s(3) assms(2) by blast+
    have "\<exists>u. cfl_add i (edgeDst e) X (check s) = Some u \<and> cfl.grow g (check s) u {(i, X, edgeDst e)}"
    proof (rule cfl_add_ok)
      show "(i, X, edgeDst e) \<in> D" if D: "sat_closed (derive_one g) (derive_two g) D" "cfl_facts (check s) \<subseteq> D" for D
        using closed_two [OF D(1) assms(3)] D(2) f by auto
    qed (use s(1) in_space [OF s(1) f(1)] in_space [OF s(1) f(2)] in \<open>simp_all add: nodes_space\<close>)
    then show "\<exists>u. cfl_add i (edgeDst e) X (check s) = Some u \<and> cfl.grow g s u {(i, X, edgeDst e)}" by (simp add: cfl.grow_def)
  qed
  moreover have "(\<Union>e\<in>set ?es. {(i, X, edgeDst e)}) = {(i, X, k) |k. (j, Z, k) \<in> cfl_facts st}"
    using out_edges_facts [OF assms(1), of j Z] by blast
  ultimately show ?thesis by (simp add: process_first_def getLHSSymbol_def getSecondRHSSymbol_def prod_at_def)
qed

lemma process_second_ok:
  assumes "cfl_inv st" "(i, Y, j) \<in> cfl_facts st" "binary_rule g X Z Y"
  shows "\<exists>t. process_second i j [X, Z, Y] st = Some t \<and> cfl.grow g st t {(k, X, j) |k. (k, Z, i) \<in> cfl_facts st}"
proof -
  let ?es = "getInEdgeWithTy i Z (cs_graph st)"
  have "\<exists>t. each (\<lambda>e st. cfl_add (edgeSrc e) j X (check st)) ?es st = Some t \<and> cfl.grow g st t (\<Union>e\<in>set ?es. {(edgeSrc e, X, j)})"
  proof (rule cfl.grow_each [OF assms(1)])
    fix e s assume e: "e \<in> set ?es" and s: "cfl_inv s" "cfl_space s = cfl_space st" "cfl_facts st \<subseteq> cfl_facts s"
    have f: "(edgeSrc e, Z, i) \<in> cfl_facts s" "(i, Y, j) \<in> cfl_facts s" using in_edges_facts [OF assms(1)] e s(3) assms(2) by blast+
    have "\<exists>u. cfl_add (edgeSrc e) j X (check s) = Some u \<and> cfl.grow g (check s) u {(edgeSrc e, X, j)}"
    proof (rule cfl_add_ok)
      show "(edgeSrc e, X, j) \<in> D" if D: "sat_closed (derive_one g) (derive_two g) D" "cfl_facts (check s) \<subseteq> D" for D
        using closed_two [OF D(1) assms(3)] D(2) f by auto
    qed (use s(1) in_space [OF s(1) f(1)] in_space [OF s(1) f(2)] in \<open>simp_all add: nodes_space\<close>)
    then show "\<exists>u. cfl_add (edgeSrc e) j X (check s) = Some u \<and> cfl.grow g s u {(edgeSrc e, X, j)}" by (simp add: cfl.grow_def)
  qed
  moreover have "(\<Union>e\<in>set ?es. {(edgeSrc e, X, j)}) = {(k, X, j) |k. (k, Z, i) \<in> cfl_facts st}"
    using in_edges_facts [OF assms(1), of i Z] by blast
  ultimately show ?thesis by (simp add: process_second_def getLHSSymbol_def getFirstRHSSymbol_def prod_at_def)
qed

text \<open>The start: all edges are pushed, and the edges of the empty productions added.\<close>

lemma push_state: "wl_ok (cs_work st) \<Longrightarrow> wl_ok (cs_work (snd (pushIntoWorklist e st)))
    \<and> data_set (cs_work (snd (pushIntoWorklist e st))) = insert e (data_set (cs_work st)) \<and> cs_graph (snd (pushIntoWorklist e st)) = cs_graph st"
  using fifo.push_ok [of "cs_work st" e] by (simp add: pushIntoWorklist_def Let_def)

lemma push_all: "wl_ok (cs_work st) \<Longrightarrow> wl_ok (cs_work (fold (\<lambda>e st. snd (pushIntoWorklist e st)) es st))
    \<and> data_set (cs_work (fold (\<lambda>e st. snd (pushIntoWorklist e st)) es st)) = set es \<union> data_set (cs_work st)
    \<and> cs_graph (fold (\<lambda>e st. snd (pushIntoWorklist e st)) es st) = cs_graph st"
proof (induction es arbitrary: st)
  case (Cons e es)
  from push_state [OF Cons.prems, of e] Cons.IH [of "snd (pushIntoWorklist e st)"] show ?case by auto
qed simp

lemma push_nodes: "wl_ok (cs_work st) \<Longrightarrow> (\<And>i. out i = outEdges (cs_graph st) i) \<Longrightarrow>
    wl_ok (cs_work (fold (\<lambda>i. fold (\<lambda>e st. snd (pushIntoWorklist e st)) (out i)) ns st))
    \<and> data_set (cs_work (fold (\<lambda>i. fold (\<lambda>e st. snd (pushIntoWorklist e st)) (out i)) ns st))
      = (\<Union>i\<in>set ns. set (out i)) \<union> data_set (cs_work st)
    \<and> cs_graph (fold (\<lambda>i. fold (\<lambda>e st. snd (pushIntoWorklist e st)) (out i)) ns st) = cs_graph st"
proof (induction ns arbitrary: st)
  case (Cons n ns)
  note p = push_all [OF Cons.prems(1), of "out n"]
  have o: "\<And>i. out i = outEdges (cs_graph (fold (\<lambda>e st. snd (pushIntoWorklist e st)) (out n) st)) i" using Cons.prems(2) p by simp
  from Cons.IH [OF conjunct1 [OF p] o] p show ?case by auto
qed simp

lemma epsilon_prods:
  assumes "cf_ok g" "p \<in> set (epsilonProds g)"
  shows "getLHSSymbol p = Some (p ! 0) \<and> epsilon_rule g (p ! 0)"
proof -
  obtain X Y where "p = [X, Y]" using assms by (auto simp: cf_ok_def)
  then show ?thesis using assms(2) by (auto simp: getLHSSymbol_def prod_at_def epsilon_rule_def)
qed

lemma epsilon_rules:
  assumes "cf_ok g"
  shows "epsilon_rule g X \<longleftrightarrow> (\<exists>p\<in>set (epsilonProds g). X = p ! 0)"
proof
  assume "epsilon_rule g X"
  then obtain Y where "[X, Y] \<in> set (epsilonProds g)" by (auto simp: epsilon_rule_def)
  then show "\<exists>p\<in>set (epsilonProds g). X = p ! 0" by (intro bexI [of _ "[X, Y]"]) simp_all
qed (use epsilon_prods [OF assms] in blast)

text \<open>The edges of the empty productions are new facts.\<close>

definition cfl_adds :: "'a cfl_state_scheme \<Rightarrow> 'a cfl_state_scheme \<Rightarrow> cfl_fact set \<Rightarrow> bool" where
  "cfl_adds s t F = (cfl_inv t \<and> graphNodes (cs_graph t) = graphNodes (cs_graph s) \<and> cfl_facts t = cfl_facts s \<union> F
    \<and> cfl_todo t = cfl_todo s \<union> (cfl_facts t - cfl_facts s))"

lemma cfl_adds_each:
  assumes "cfl_inv s" "\<And>x t. x \<in> set xs \<Longrightarrow> cfl_inv t \<Longrightarrow> graphNodes (cs_graph t) = graphNodes (cs_graph s) \<Longrightarrow> \<exists>u. f x t = Some u \<and> cfl_adds t u (F x)"
  shows "\<exists>t. each f xs s = Some t \<and> cfl_adds s t (\<Union>x\<in>set xs. F x)"
  using assms
proof (induction xs arbitrary: s)
  case (Cons x xs)
  obtain t where t: "f x s = Some t" "cfl_adds s t (F x)" using Cons.prems(2) [of x s] Cons.prems(1) by auto
  have ti: "cfl_inv t" "graphNodes (cs_graph t) = graphNodes (cs_graph s)" using t(2) by (simp_all add: cfl_adds_def)
  have "\<exists>u. f y v = Some u \<and> cfl_adds v u (F y)" if "y \<in> set xs" "cfl_inv v" "graphNodes (cs_graph v) = graphNodes (cs_graph t)" for y v
    using Cons.prems(2) [of y v] that ti(2) by simp
  then obtain u where u: "each f xs t = Some u" "cfl_adds t u (\<Union>x\<in>set xs. F x)" using Cons.IH [OF ti(1)] by blast
  have "cfl_adds s u (\<Union>x\<in>set (x # xs). F x)" using t(2) u(2) by (auto simp: cfl_adds_def)
  then show ?case using t(1) u(1) by auto
qed (simp add: cfl_adds_def)

lemma cfl_epsilon_ok:
  assumes "cfl_inv st" "getLHSSymbol p = Some X"
  shows "\<exists>t. cfl_epsilon p st = Some t \<and> cfl_adds st t {(i, X, i) |i. i \<in> set (graphNodes (cs_graph st))}"
proof -
  have "\<exists>t. cfl_epsilon p st = Some t \<and> cfl_adds st t (\<Union>i\<in>set (graphNodes (cs_graph st)). {(i, X, i)})"
    unfolding cfl_epsilon_def
  proof (rule cfl_adds_each [OF assms(1)])
    fix i s assume "i \<in> set (graphNodes (cs_graph st))" "cfl_inv s" "graphNodes (cs_graph s) = graphNodes (cs_graph st)"
    then show "\<exists>u. Option.bind (getLHSSymbol p) (\<lambda>X. cfl_add i i X s) = Some u \<and> cfl_adds s u {(i, X, i)}"
      using cfl_add_facts [of s i i X] assms(2) by (simp add: cfl_adds_def)
  qed
  moreover have "(\<Union>i\<in>set (graphNodes (cs_graph st)). {(i, X, i)}) = {(i, X, i) |i. i \<in> set (graphNodes (cs_graph st))}" by blast
  ultimately show ?thesis by simp
qed

lemma cfl_initialize_ok:
  assumes "cf_ok g" "graph_ok graph"
  shows "\<exists>t. cfl_initialize g (cfl_make graph) = Some t \<and> cfl_inv t \<and> graphNodes (cs_graph t) = graphNodes graph
    \<and> cfl_facts t = graph_facts graph \<union> epsilon_facts g (set (graphNodes graph)) \<and> cfl_todo t = cfl_facts t"
proof -
  let ?s = "cfl_make graph"
  define s where "s = fold (\<lambda>i. fold (\<lambda>e st. snd (pushIntoWorklist e st)) (outEdges (cs_graph ?s) i)) (graphNodes (cs_graph ?s)) ?s"
  have w: "wl_ok (cs_work ?s)" "data_set (cs_work ?s) = {}" "cs_graph ?s = graph" by (simp_all add: cfl_make_def wl_ok_def wl_new_def)
  have "(\<Union>i\<in>set (graphNodes graph). set (outEdges graph i)) = set (cflEdgeSet graph)"
    using assms(2) by (auto simp: graph_ok_def)
  then have s: "wl_ok (cs_work s)" "data_set (cs_work s) = set (cflEdgeSet graph)" "cs_graph s = graph"
    using push_nodes [OF w(1), of "outEdges (cs_graph ?s)" "graphNodes (cs_graph ?s)"] w(2,3) by (simp_all add: s_def)
  have si: "cfl_inv s" "cfl_todo s = cfl_facts s" "cfl_facts s = graph_facts graph"
    using s assms(2) by (simp_all add: cfl_inv_def cfl_todo_def cfl_facts_def graph_facts_def)
  have "\<exists>t. each cfl_epsilon (epsilonProds g) s = Some t
      \<and> cfl_adds s t (\<Union>p\<in>set (epsilonProds g). {(i, p ! 0, i) |i. i \<in> set (graphNodes (cs_graph s))})"
  proof (rule cfl_adds_each [OF si(1)])
    fix p t assume "p \<in> set (epsilonProds g)" "cfl_inv t" "graphNodes (cs_graph t) = graphNodes (cs_graph s)"
    then show "\<exists>u. cfl_epsilon p t = Some u \<and> cfl_adds t u {(i, p ! 0, i) |i. i \<in> set (graphNodes (cs_graph s))}"
      using cfl_epsilon_ok [of t p "p ! 0"] epsilon_prods [OF assms(1), of p] by simp
  qed
  then obtain t where t: "cfl_initialize g ?s = Some t"
    "cfl_adds s t (\<Union>p\<in>set (epsilonProds g). {(i, p ! 0, i) |i. i \<in> set (graphNodes (cs_graph s))})"
    unfolding cfl_initialize_def s_def by blast
  have "(\<Union>p\<in>set (epsilonProds g). {(i, p ! 0, i) |i. i \<in> set (graphNodes (cs_graph s))}) = epsilon_facts g (set (graphNodes graph))"
  proof -
    show ?thesis using s(3) epsilon_rules [OF assms(1)] by (auto simp: epsilon_facts_def)
  qed
  then show ?thesis using t si s(3) by (auto simp: cfl_adds_def)
qed

lemma pop_todo:
  assumes "cfl_inv st" "cfl_todo st \<noteq> {}"
  shows "\<exists>e w. popFromWorklist st = Some (e, st\<lparr>cs_work := w\<rparr>) \<and> edge_fact e \<in> cfl_todo st
    \<and> cfl_inv (st\<lparr>cs_work := w\<rparr>) \<and> cfl_todo (st\<lparr>cs_work := w\<rparr>) = cfl_todo st - {edge_fact e}"
proof -
  have w: "wl_ok (cs_work st)" using assms(1) by (simp add: cfl_inv_def)
  have ne: "data_set (cs_work st) \<noteq> {}" using assms(2) by (auto simp: cfl_todo_def)
  obtain e w' where p: "fifo_pop (cs_work st) = Some (e, w')" "e \<in> data_set (cs_work st)" "wl_ok w'" "data_set w' = data_set (cs_work st) - {e}"
    using ne by (cases rule: fifo.pop_cases [OF w]) auto
  have inj: "inj_on edge_fact (set (cflEdgeSet (cs_graph st)))"
    using assms(1) by (intro inj_onI edge_fact_inj) (auto simp: cfl_inv_def graph_ok_def)
  have sub: "data_set (cs_work st) \<subseteq> set (cflEdgeSet (cs_graph st))" using assms(1) by (simp add: cfl_inv_def)
  have "cfl_todo (st\<lparr>cs_work := w'\<rparr>) = cfl_todo st - {edge_fact e}"
    using inj_on_image_set_diff [OF inj, of "data_set (cs_work st)" "{e}"] p(2,4) sub by (auto simp: cfl_todo_def)
  moreover have "cfl_inv (st\<lparr>cs_work := w'\<rparr>)" using assms(1) p(3,4) by (auto simp: cfl_inv_def)
  moreover have "edge_fact e \<in> cfl_todo st" using p(2) by (simp add: cfl_todo_def)
  moreover have "popFromWorklist st = Some (e, st\<lparr>cs_work := w'\<rparr>)" using p(1) by (simp add: popFromWorklist_def)
  ultimately show ?thesis by blast
qed

lemma work_state [simp]: "cfl_facts (st\<lparr>cs_work := w\<rparr>) = cfl_facts st" "cfl_space (st\<lparr>cs_work := w\<rparr>) = cfl_space st"
  by (simp_all add: cfl_facts_def cfl_space_def)

interpretation sol: edge_solver g "\<lambda>st. cf_ok g \<and> cfl_inv st" cfl_facts cfl_todo cfl_space process_single process_first process_second
    isWorklistEmpty popFromWorklist for g
proof (rule edge_solver.intro [OF edge_steps.intro [OF cfl.sat_guard] edge_solver_axioms.intro],
    unfold edge_steps_axioms_def cfl.grow_guard)
  show "isWorklistEmpty st = (cfl_todo st = {})" if "cf_ok g \<and> cfl_inv st" for st :: "'a cfl_state_scheme"
    using that fifo.emp_iff [of "cs_work st"] by (simp add: cfl_inv_def isWorklistEmpty_def cfl_todo_def)
  show "\<exists>e s0. popFromWorklist st = Some (e, s0) \<and> edge_fact e \<in> cfl_todo st \<and> (cf_ok g \<and> cfl_inv s0)
      \<and> cfl_space s0 = cfl_space st \<and> cfl_facts s0 = cfl_facts st \<and> cfl_todo s0 = cfl_todo st - {edge_fact e}"
    if "cf_ok g \<and> cfl_inv st" "cfl_todo st \<noteq> {}" for st :: "'a cfl_state_scheme"
    using pop_todo [of st] that by auto
qed (auto dest: process_single_ok process_first_ok process_second_ok)

lemma cfl_round_eq: "cfl_round g = sol.round g"
  by (simp add: fun_eq_iff cfl_round_def sol.round_def processCFLEdge_def process_rules_def Let_def)

text \<open>The words that a symbol derives, and the paths of a graph that a word labels.\<close>

inductive derives_word :: "cf_gram \<Rightarrow> symbol \<Rightarrow> symbol list \<Rightarrow> bool" for g where
  self: "derives_word g X [X]"
| empty: "epsilon_rule g X \<Longrightarrow> derives_word g X []"
| single: "unit_rule g X Y \<Longrightarrow> derives_word g Y w \<Longrightarrow> derives_word g X w"
| binary: "binary_rule g X Y Z \<Longrightarrow> derives_word g Y u \<Longrightarrow> derives_word g Z v \<Longrightarrow> derives_word g X (u @ v)"

primrec labelled_path :: "nat set \<Rightarrow> cfl_fact set \<Rightarrow> nat \<Rightarrow> symbol list \<Rightarrow> nat \<Rightarrow> bool" where
  "labelled_path N E i [] j = (i \<in> N \<and> i = j)"
| "labelled_path N E i (X # w) j = (\<exists>k. (i, X, k) \<in> E \<and> labelled_path N E k w j)"

lemma labelled_path_append: "labelled_path N E i (u @ v) j \<longleftrightarrow> (\<exists>k. labelled_path N E i u k \<and> labelled_path N E k v j)"
  if "E \<subseteq> all_facts N"
proof (induction u arbitrary: i)
  case Nil
  have "labelled_path N E i v j \<Longrightarrow> i \<in> N" using that by (cases v) (auto simp: all_facts_def)
  then show ?case by auto
qed auto

text \<open>The derivations of the solver are the paths labelled by the words of the language.\<close>

lemma derives_paths:
  assumes "E \<subseteq> all_facts N"
  shows "cfl_derives g N E i X j \<longleftrightarrow> (\<exists>w. derives_word g X w \<and> labelled_path N E i w j)"
proof
  show "\<exists>w. derives_word g X w \<and> labelled_path N E i w j" if "cfl_derives g N E i X j"
    using that
  proof induction
    case (edge i X j)
    then have "labelled_path N E i [X] j" using assms by (auto simp: all_facts_def)
    then show ?case using derives_word.self by blast
  next
    case (empty X i)
    then show ?case using derives_word.empty [of g X] by (intro exI [of _ "[]"]) simp
  next
    case (single X Y i j)
    then show ?case using derives_word.single by blast
  next
    case (binary X Y Z i j k)
    then obtain u v where "derives_word g Y u" "labelled_path N E i u j" "derives_word g Z v" "labelled_path N E j v k" by blast
    then show ?case using derives_word.binary [OF binary.hyps(1)] labelled_path_append [OF assms] by blast
  qed
next
  have "labelled_path N E i w j \<Longrightarrow> cfl_derives g N E i X j" if "derives_word g X w" for w
    using that
  proof (induction arbitrary: i j)
    case (binary X Y Z u v)
    then show ?case using cfl_derives.binary [OF binary.hyps(1)] unfolding labelled_path_append [OF assms] by blast
  qed (auto intro: cfl_derives.intros)
  then show "\<exists>w. derives_word g X w \<and> labelled_path N E i w j \<Longrightarrow> cfl_derives g N E i X j" by blast
qed

lemma graph_facts_bounded: "graph_ok g \<Longrightarrow> graph_facts g \<subseteq> all_facts (set (graphNodes g))"
  by (auto simp: graph_ok_def graph_facts_def all_facts_def edge_fact_def)

lemma cfl_solve_derives:
  assumes "cf_ok g" "graph_ok graph"
  shows "\<exists>st. cfl_solve g (cfl_make graph) = Some st \<and> graph_ok (cs_graph st) \<and> graphNodes (cs_graph st) = graphNodes graph
    \<and> graph_facts (cs_graph st) = {(i, X, j). cfl_derives g (set (graphNodes graph)) (graph_facts graph) i X j}"
proof -
  obtain s where s: "cfl_initialize g (cfl_make graph) = Some s" "cfl_inv s" "graphNodes (cs_graph s) = graphNodes graph"
    "cfl_facts s = graph_facts graph \<union> epsilon_facts g (set (graphNodes graph))" "cfl_todo s = cfl_facts s"
    using cfl_initialize_ok [OF assms] by blast
  from sol.loop_least [of g s] assms(1) s(2,5) obtain t where t: "work_loop isWorklistEmpty (cfl_round g) s = Some t" "cfl_inv t" "cfl_space t = cfl_space s"
    "cfl_facts t = {(i, X, j). cfl_derives g (set (graphNodes graph)) (graph_facts graph) i X j}"
    unfolding s(4) derives_least cfl_round_eq by blast
  have ok: "graph_ok (cs_graph t)" "graph_ok (cs_graph s)" using t(2) s(2) by (simp_all add: cfl_inv_def)
  have "graphNodes (cs_graph t) = graphNodes (cs_graph s)"
    using t(3) ok unfolding space_nodes graph_ok_def by (metis strict_sorted_equal)
  then show ?thesis
    using s(1,3) t(1,4) ok(1) by (intro exI [of _ t]) (auto simp: cfl_solve_def cfl_facts_def)
qed

text \<open>C15: The solver of CFL reachability is correct and terminates: for a normalised grammar and a
  consistent graph, \<open>solve\<close> returns, and the graph that it leaves has an edge with the symbol \<open>X\<close> from \<open>i\<close>
  to \<open>j\<close> exactly when the given graph has a path from \<open>i\<close> to \<open>j\<close> labelled by a word that \<open>X\<close> derives. The
  nodes are those of the given graph, and the graph is consistent.\<close>

theorem cfl_solve_correct:
  assumes "cf_ok g" "graph_ok graph"
  shows "\<exists>st. cfl_solve g (cfl_make graph) = Some st \<and> graph_ok (cs_graph st) \<and> graphNodes (cs_graph st) = graphNodes graph
    \<and> (\<forall>i X j. (i, X, j) \<in> graph_facts (cs_graph st)
        \<longleftrightarrow> (\<exists>w. derives_word g X w \<and> labelled_path (set (graphNodes graph)) (graph_facts graph) i w j))"
  using cfl_solve_derives [OF assms] unfolding derives_paths [OF graph_facts_bounded [OF assms(2)]] by auto

text \<open>The grammar \<open>S \<rightarrow> a b\<close> over a path labelled \<open>a b\<close>.\<close>

abbreviation sym_k :: "8 word \<Rightarrow> symbol" where
  "sym_k k \<equiv> \<lparr>kind = k, attribute = 0, variableAttribute = 0\<rparr>"

definition gram_ab :: cf_gram where
  "gram_ab = gram_example\<lparr>firstRHSToProds := [(sym_k 2, [[sym_k 1, sym_k 2, sym_k 3]])],
     secondRHSToProds := [(sym_k 3, [[sym_k 1, sym_k 2, sym_k 3]])]\<rparr>"

lemma gram_ab_ok: "cf_ok gram_ab" "binary_rule gram_ab (sym_k 1) (sym_k 2) (sym_k 3)"
  by (simp_all add: cf_ok_def gram_ab_def gram_example_def binary_rule_def prods_at_def)

lemma cfl_solve_witness:
  "\<exists>graph st. cfl_build 1 [(1, 2, 2), (2, 3, 3)] = Some graph \<and> cfl_solve gram_ab (cfl_make graph) = Some st
    \<and> (1, sym_k 1, 3) \<in> graph_facts (cs_graph st)"
proof -
  have s: "sym_of 2 = sym_k 2" "sym_of 3 = sym_k 3" by (simp_all add: sym_of_def)
  obtain graph where graph: "cfl_build 1 [(1, 2, 2), (2, 3, 3)] = Some graph" "graph_ok graph"
    "set (graphNodes graph) = {1, 2, 3}" "graph_facts graph = {(1, sym_k 2, 2), (2, sym_k 3, 3)}"
    using cfl_build_each [OF cfl_new_ok(1), of "[(1, 2, 2), (2, 3, 3)]" 1] by (auto simp: cfl_build_def cfl_new_ok s)
  have "derives_word gram_ab (sym_k 1) ([sym_k 2] @ [sym_k 3])"
    by (rule derives_word.binary [OF gram_ab_ok(2) derives_word.self derives_word.self])
  then have "\<exists>w. derives_word gram_ab (sym_k 1) w \<and> labelled_path (set (graphNodes graph)) (graph_facts graph) 1 w 3"
    by (intro exI [of _ "[sym_k 2, sym_k 3]"]) (simp add: graph(3,4))
  then show ?thesis using cfl_solve_correct [OF gram_ab_ok(1) graph(2)] graph(1) by blast
qed

end
