(* ===== verification/CflPocr.thy ===== *)
theory CflPocr
  imports CflSolver MutableDf
begin

text \<open>
  The solver of CFL reachability that keeps the edges in bit vectors (\<open>POCRSolver\<close> in
  \<open>svf/include/CFL/CFLSolver.h\<close> and \<open>svf/lib/CFL/CFLSolver.cpp\<close>).

  \<open>succMap\<close> and \<open>predMap\<close> map a node and a symbol to a sparse bit vector of nodes; their cells are read and
  written with the operations of the data-flow tables, and a cell that is read is there afterwards. The
  order of an \<open>unordered_map\<close> is that in which the keys came. A null edge that is pushed, which the next
  round would dereference, is \<open>None\<close>, as a node that is not in the graph is.
\<close>

section \<open>The data\<close>

type_synonym data_map = "(nat \<times> (symbol \<times> sbv) list) list"

record pocr_state = cfl_state +
  succMap :: data_map
  predMap :: data_map

text \<open>\<open>m[key][ty].test_and_set(x)\<close> and \<open>m[key][ty] |= data\<close>; the second sees if \<open>data\<close> is the cell itself.\<close>

definition cell_add :: "nat \<Rightarrow> nat \<Rightarrow> symbol \<Rightarrow> data_map \<Rightarrow> bool \<times> data_map" where
  "cell_add key x ty m = (let r = sbv_test_and_set (dm_at sbv_new m key ty) x in (snd r, dm_put key ty (fst r) m))"

definition cell_join :: "bool \<Rightarrow> nat \<Rightarrow> sbv \<Rightarrow> symbol \<Rightarrow> data_map \<Rightarrow> bool \<times> data_map" where
  "cell_join same key data ty m =
     (if sbv_empty data then (False, m)
      else let r = sbv_or same (dm_at sbv_new m key ty) data in (snd r, dm_put key ty (fst r) m))"

definition addPred :: "nat \<Rightarrow> nat \<Rightarrow> symbol \<Rightarrow> 'a pocr_state_scheme \<Rightarrow> bool \<times> 'a pocr_state_scheme" where
  "addPred key src ty st = (let r = cell_add key src ty (predMap st) in (fst r, st\<lparr>predMap := snd r\<rparr>))"

definition addSucc :: "nat \<Rightarrow> nat \<Rightarrow> symbol \<Rightarrow> 'a pocr_state_scheme \<Rightarrow> bool \<times> 'a pocr_state_scheme" where
  "addSucc key dst ty st = (let r = cell_add key dst ty (succMap st) in (fst r, st\<lparr>succMap := snd r\<rparr>))"

definition addPreds :: "bool \<Rightarrow> nat \<Rightarrow> sbv \<Rightarrow> symbol \<Rightarrow> 'a pocr_state_scheme \<Rightarrow> bool \<times> 'a pocr_state_scheme" where
  "addPreds same key data ty st = (let r = cell_join same key data ty (predMap st) in (fst r, st\<lparr>predMap := snd r\<rparr>))"

definition addSuccs :: "bool \<Rightarrow> nat \<Rightarrow> sbv \<Rightarrow> symbol \<Rightarrow> 'a pocr_state_scheme \<Rightarrow> bool \<times> 'a pocr_state_scheme" where
  "addSuccs same key data ty st = (let r = cell_join same key data ty (succMap st) in (fst r, st\<lparr>succMap := snd r\<rparr>))"

definition addEdge :: "nat \<Rightarrow> nat \<Rightarrow> symbol \<Rightarrow> 'a pocr_state_scheme \<Rightarrow> bool \<times> 'a pocr_state_scheme" where
  "addEdge src dst ty st = addPred dst src ty (snd (addSucc src dst ty st))"

text \<open>The two operations \<open>addEdges\<close>, with the data \<open>succMap[j][Z]\<close> and \<open>predMap[j][Z]\<close>\<close>

definition addEdges_dst :: "nat \<Rightarrow> nat \<times> symbol \<Rightarrow> symbol \<Rightarrow> 'a pocr_state_scheme \<Rightarrow> (sbv \<times> 'a pocr_state_scheme) option" where
  "addEdges_dst src cell ty st =
     (let st0 = st\<lparr>succMap := dm_touch sbv_new (fst cell) (snd cell) (succMap st)\<rparr>;
          dstData = dm_at sbv_new (succMap st0) (fst cell) (snd cell); r = addSuccs ((src, ty) = cell) src dstData ty st0 in
      if fst r
      then map_option (\<lambda>ks. fold (\<lambda>datum a. let q = addPred datum src ty (snd a) in
          (if fst q then sbv_set (fst a) datum else fst a, snd q)) ks (sbv_new, snd r)) (sbv_elems dstData)
      else Some (sbv_new, snd r))"

definition addEdges_src :: "nat \<times> symbol \<Rightarrow> nat \<Rightarrow> symbol \<Rightarrow> 'a pocr_state_scheme \<Rightarrow> (sbv \<times> 'a pocr_state_scheme) option" where
  "addEdges_src cell dst ty st =
     (let st0 = st\<lparr>predMap := dm_touch sbv_new (fst cell) (snd cell) (predMap st)\<rparr>;
          srcData = dm_at sbv_new (predMap st0) (fst cell) (snd cell); r = addPreds ((dst, ty) = cell) dst srcData ty st0 in
      if fst r
      then map_option (\<lambda>ks. fold (\<lambda>datum a. let q = addSucc datum dst ty (snd a) in
          (if fst q then sbv_set (fst a) datum else fst a, snd q)) ks (sbv_new, snd r)) (sbv_elems srcData)
      else Some (sbv_new, snd r))"

definition pocr_hasEdge :: "nat \<Rightarrow> nat \<Rightarrow> symbol \<Rightarrow> 'a pocr_state_scheme \<Rightarrow> bool" where
  "pocr_hasEdge src dst ty st = (case map_of (succMap st) src of None \<Rightarrow> False
     | Some m \<Rightarrow> (case map_of m ty of None \<Rightarrow> False | Some s \<Rightarrow> fst (sbv_test s dst)))"

definition clearEdges :: "nat \<Rightarrow> 'a pocr_state_scheme \<Rightarrow> 'a pocr_state_scheme" where
  "clearEdges key st = st\<lparr>succMap := at_put key [] (succMap st), predMap := at_put key [] (predMap st)\<rparr>"

definition pocr_clear :: "'a pocr_state_scheme \<Rightarrow> 'a pocr_state_scheme" where
  "pocr_clear st = st\<lparr>succMap := [], predMap := []\<rparr>"

section \<open>The solver\<close>

definition getGNode :: "nat \<Rightarrow> 'a cfl_state_scheme \<Rightarrow> nat option" where
  "getGNode n st = (if n \<in> set (graphNodes (cs_graph st)) then Some n else None)"

definition buildCFLData :: "'a pocr_state_scheme \<Rightarrow> 'a pocr_state_scheme" where
  "buildCFLData st = fold (\<lambda>e st. snd (addEdge (edgeSrc e) (edgeDst e) (edge_symbol e) st)) (cflEdgeSet (cs_graph st)) st"

definition pocr_make :: "cfl_graph \<Rightarrow> pocr_state" where
  "pocr_make graph = buildCFLData \<lparr>cs_graph = graph, cs_work = wl_new, numOfChecks = 0, succMap = [], predMap = []\<rparr>"

text \<open>\<open>newEdge = graph->addCFLEdge(i, j, X); pushIntoWorklist(newEdge)\<close>\<close>

definition pocr_push :: "nat \<Rightarrow> nat \<Rightarrow> symbol \<Rightarrow> 'a cfl_state_scheme \<Rightarrow> 'a cfl_state_scheme option" where
  "pocr_push i j X st = Option.bind (addCFLEdge i j (ucast (sym_num X)) (cs_graph st)) (\<lambda>r.
     map_option (\<lambda>e. snd (pushIntoWorklist e (st\<lparr>cs_graph := snd r\<rparr>))) (fst r))"

definition checks :: "nat \<Rightarrow> 'a cfl_state_scheme \<Rightarrow> 'a cfl_state_scheme" where
  "checks n st = st\<lparr>numOfChecks := numOfChecks st + n\<rparr>"

definition pocr_single :: "nat \<Rightarrow> nat \<Rightarrow> production \<Rightarrow> 'a pocr_state_scheme \<Rightarrow> 'a pocr_state_scheme option" where
  "pocr_single i j p st = Option.bind (getLHSSymbol p) (\<lambda>X.
     let r = addEdge i j X (check st) in if fst r then pocr_push i j X (snd r) else Some (snd r))"

definition pocr_first :: "nat \<Rightarrow> nat \<Rightarrow> production \<Rightarrow> 'a pocr_state_scheme \<Rightarrow> 'a pocr_state_scheme option" where
  "pocr_first i j p st = Option.bind (getLHSSymbol p) (\<lambda>X. Option.bind (getSecondRHSSymbol p) (\<lambda>Z.
     Option.bind (addEdges_dst i (j, Z) X st) (\<lambda>r. Option.bind (sbv_elems (fst r)) (\<lambda>diffDsts.
     each (\<lambda>d st. Option.bind (getGNode d st) (\<lambda>k. pocr_push i k X st)) diffDsts
       (checks (sbv_count (dm_at sbv_new (succMap (snd r)) j Z)) (snd r))))))"

definition pocr_second :: "nat \<Rightarrow> nat \<Rightarrow> production \<Rightarrow> 'a pocr_state_scheme \<Rightarrow> 'a pocr_state_scheme option" where
  "pocr_second i j p st = Option.bind (getLHSSymbol p) (\<lambda>X. Option.bind (getFirstRHSSymbol p) (\<lambda>Z.
     Option.bind (addEdges_src (i, Z) j X st) (\<lambda>r. Option.bind (sbv_elems (fst r)) (\<lambda>diffSrcs.
     each (\<lambda>d st. Option.bind (getGNode d st) (\<lambda>k. pocr_push k j X st)) diffSrcs
       (checks (sbv_count (dm_at sbv_new (predMap (snd r)) i Z)) (snd r))))))"

definition pocr_processCFLEdge :: "cf_gram \<Rightarrow> cfl_edge \<Rightarrow> 'a pocr_state_scheme \<Rightarrow> 'a pocr_state_scheme option" where
  "pocr_processCFLEdge g Y_edge st =
     (let i = edgeSrc Y_edge; j = edgeDst Y_edge; Y = edge_symbol Y_edge in
      Option.bind (if hasProdsFromSingleRHS g Y
        then Option.bind (getProdsFromSingleRHS g Y) (\<lambda>ps. each (pocr_single i j) ps st) else Some st) (\<lambda>st.
      Option.bind (if hasProdsFromFirstRHS g Y
        then Option.bind (getProdsFromFirstRHS g Y) (\<lambda>ps. each (pocr_first i j) ps st) else Some st) (\<lambda>st.
      if hasProdsFromSecondRHS g Y
      then Option.bind (getProdsFromSecondRHS g Y) (\<lambda>ps. each (pocr_second i j) ps st) else Some st)))"

definition pocr_empty :: "production \<Rightarrow> nat \<Rightarrow> 'a pocr_state_scheme \<Rightarrow> 'a pocr_state_scheme option" where
  "pocr_empty p n st = Option.bind (getLHSSymbol p) (\<lambda>X. let r = addEdge n n X st in
     if fst r then Option.bind (getGNode n (snd r)) (\<lambda>i. pocr_push i i X (snd r)) else Some (snd r))"

definition pocr_epsilon :: "production \<Rightarrow> 'a pocr_state_scheme \<Rightarrow> 'a pocr_state_scheme option" where
  "pocr_epsilon p st = each (pocr_empty p) (map fst (succMap st)) st"

definition pocr_initialize :: "cf_gram \<Rightarrow> 'a pocr_state_scheme \<Rightarrow> 'a pocr_state_scheme option" where
  "pocr_initialize g st = each pocr_epsilon (epsilonProds g)
     (fold (\<lambda>e st. snd (pushIntoWorklist e st)) (cflEdgeSet (cs_graph st)) st)"

definition pocr_round :: "cf_gram \<Rightarrow> 'a pocr_state_scheme \<Rightarrow> 'a pocr_state_scheme option" where
  "pocr_round g st = Option.bind (popFromWorklist st) (\<lambda>r. pocr_processCFLEdge g (fst r) (snd r))"

definition pocr_solve :: "cf_gram \<Rightarrow> 'a pocr_state_scheme \<Rightarrow> 'a pocr_state_scheme option" where
  "pocr_solve g st = Option.bind (pocr_initialize g st) (work_loop isWorklistEmpty (pocr_round g))"

section \<open>The maps hold the edges\<close>

definition cells_are :: "data_map \<Rightarrow> (nat \<Rightarrow> symbol \<Rightarrow> nat set) \<Rightarrow> bool" where
  "cells_are m f = (\<forall>i X. sbv_inv (dm_at sbv_new m i X) \<and> sbv_bits (dm_at sbv_new m i X) = f i X)"

lemma cellsD: "cells_are m f \<Longrightarrow> sbv_inv (dm_at sbv_new m i X)" "cells_are m f \<Longrightarrow> sbv_bits (dm_at sbv_new m i X) = f i X"
  by (simp_all add: cells_are_def)

lemma sbv_new_ok: "sbv_inv sbv_new" "sbv_bits sbv_new = {}"
  using sbvs.inv_emp sbvs.bits_emp by simp_all

lemma sbv_bits_finite: "sbv_inv s \<Longrightarrow> finite (sbv_bits s)"
  by (rule finite_subset [of _ "{..<2 ^ 32}"]) (auto dest: sbv_bits_lt)

lemma cells_put: "cells_are m f \<Longrightarrow> sbv_inv v \<Longrightarrow> cells_are (dm_put k X v m) (\<lambda>i Y. if i = k \<and> Y = X then sbv_bits v else f i Y)"
  by (simp add: cells_are_def)

lemma cells_touch: "cells_are (dm_touch sbv_new k X m) f = cells_are m f"
  by (simp add: cells_are_def)

lemma cell_add_ok:
  assumes "cells_are m f" "x < 2 ^ 32"
  shows "fst (cell_add key x ty m) = (x \<notin> f key ty)"
    and "cells_are (snd (cell_add key x ty m)) (\<lambda>i Y. if i = key \<and> Y = ty then insert x (f i Y) else f i Y)"
proof -
  let ?s = "dm_at sbv_new m key ty"
  note s = cellsD [OF assms(1), of key ty] and t = sbv_test_props [OF cellsD(1) [OF assms(1), of key ty], of x]
  show "fst (cell_add key x ty m) = (x \<notin> f key ty)"
    using s t by (simp add: cell_add_def sbv_test_and_set_def Let_def case_prod_beta)
  have v: "sbv_inv (fst (sbv_test_and_set ?s x))" "sbv_bits (fst (sbv_test_and_set ?s x)) = insert x (f key ty)"
    using s t sbv_set_props [OF t(2) assms(2)] by (auto simp: sbv_test_and_set_def case_prod_beta)
  have "(\<lambda>i Y. if i = key \<and> Y = ty then sbv_bits (fst (sbv_test_and_set ?s x)) else f i Y)
      = (\<lambda>i Y. if i = key \<and> Y = ty then insert x (f i Y) else f i Y)"
    using v(2) by (auto simp: fun_eq_iff)
  then show "cells_are (snd (cell_add key x ty m)) (\<lambda>i Y. if i = key \<and> Y = ty then insert x (f i Y) else f i Y)"
    using cells_put [OF assms(1) v(1), where k = key and X = ty] by (simp add: cell_add_def Let_def)
qed

lemma cell_join_ok:
  assumes "cells_are m f" "sbv_inv data" "same \<Longrightarrow> data = dm_at sbv_new m key ty"
  shows "fst (cell_join same key data ty m) = (\<not> sbv_bits data \<subseteq> f key ty)"
    and "cells_are (snd (cell_join same key data ty m)) (\<lambda>i Y. if i = key \<and> Y = ty then f i Y \<union> sbv_bits data else f i Y)"
proof -
  let ?s = "dm_at sbv_new m key ty"
  note s = cellsD [OF assms(1), of key ty]
  note v = sbv_or_any [OF s(1) assms(2), of same, OF assms(3)]
  have e: "sbv_empty data \<longleftrightarrow> sbv_bits data = {}" using sbv_elems_bits [OF assms(2)] by (simp add: sbv_empty_def)
  show "fst (cell_join same key data ty m) = (\<not> sbv_bits data \<subseteq> f key ty)"
    using v(3) s(2) e by (auto simp: cell_join_def Let_def)
  have f: "(\<lambda>i Y. if i = key \<and> Y = ty then sbv_bits (fst (sbv_or same ?s data)) else f i Y)
      = (\<lambda>i Y. if i = key \<and> Y = ty then f i Y \<union> sbv_bits data else f i Y)"
    using v(2) s(2) by (auto simp: fun_eq_iff)
  have f0: "(\<lambda>i Y. if i = key \<and> Y = ty then f i Y \<union> sbv_bits data else f i Y) = f" if "sbv_bits data = {}"
    using that by (auto simp: fun_eq_iff)
  show "cells_are (snd (cell_join same key data ty m)) (\<lambda>i Y. if i = key \<and> Y = ty then f i Y \<union> sbv_bits data else f i Y)"
    using cells_put [OF assms(1) v(1), where k = key and X = ty] assms(1) e f0 by (simp add: cell_join_def Let_def f)
qed

text \<open>The loop of \<open>addEdges\<close> over the data: the map of the other direction is completed, and the new nodes
  collected.\<close>

definition cell_each :: "nat \<Rightarrow> symbol \<Rightarrow> nat list \<Rightarrow> sbv \<times> data_map \<Rightarrow> sbv \<times> data_map" where
  "cell_each x ty ks a = fold (\<lambda>k a. let q = cell_add k x ty (snd a) in (if fst q then sbv_set (fst a) k else fst a, snd q)) ks a"

lemma cell_each_ok:
  assumes "cells_are m f" "sbv_inv d" "x < 2 ^ 32" "\<forall>k\<in>set ks. k < 2 ^ 32"
  shows "sbv_inv (fst (cell_each x ty ks (d, m))) \<and> sbv_bits (fst (cell_each x ty ks (d, m))) = sbv_bits d \<union> {k \<in> set ks. x \<notin> f k ty}
    \<and> cells_are (snd (cell_each x ty ks (d, m))) (\<lambda>k Y. if k \<in> set ks \<and> Y = ty then insert x (f k Y) else f k Y)"
  using assms
proof (induction ks arbitrary: d m f)
  case Nil
  then show ?case by (simp add: cell_each_def)
next
  case (Cons k ks)
  note q = cell_add_ok [OF Cons.prems(1,3), of k ty]
  let ?m = "snd (cell_add k x ty m)" and ?d = "if fst (cell_add k x ty m) then sbv_set d k else d"
    and ?f = "\<lambda>i Y. if i = k \<and> Y = ty then insert x (f i Y) else f i Y"
  have d: "sbv_inv ?d" "sbv_bits ?d = sbv_bits d \<union> (if x \<notin> f k ty then {k} else {})"
    using sbv_set_props [OF Cons.prems(2), of k] Cons.prems(2,4) q(1) by auto
  have u: "cell_each x ty (k # ks) (d, m) = cell_each x ty ks (?d, ?m)" by (simp add: cell_each_def Let_def)
  have f: "(\<lambda>i Y. if i \<in> set ks \<and> Y = ty then insert x (?f i Y) else ?f i Y)
      = (\<lambda>i Y. if i \<in> set (k # ks) \<and> Y = ty then insert x (f i Y) else f i Y)" by (auto simp: fun_eq_iff)
  have "{i \<in> set ks. x \<notin> ?f i ty} \<union> (if x \<notin> f k ty then {k} else {}) = {i \<in> set (k # ks). x \<notin> f i ty}" by auto
  then show ?case using Cons.IH [OF q(2) d(1) Cons.prems(3)] Cons.prems(4) d(2) unfolding u f by auto
qed

text \<open>The two maps hold the facts \<open>F\<close>.\<close>

definition maps_are :: "data_map \<Rightarrow> data_map \<Rightarrow> cfl_fact set \<Rightarrow> bool" where
  "maps_are a b F = (cells_are a (\<lambda>i X. {j. (i, X, j) \<in> F}) \<and> cells_are b (\<lambda>j X. {i. (i, X, j) \<in> F}))"

lemma cells_eq: "cells_are m f \<Longrightarrow> f = h \<Longrightarrow> cells_are m h"
  by simp

lemma maps_new: "maps_are [] [] {}"
  by (simp add: maps_are_def cells_are_def sbv_new_ok)

lemma put_keys: "fst ` set (dm_put k X v m) = insert k (fst ` set m)"
  by (simp add: dm_put_def at_put_def dom_update)

lemma cell_add_keys: "fst ` set (snd (cell_add k x X m)) = insert k (fst ` set m)"
  by (simp add: cell_add_def Let_def put_keys)

lemma addEdge_ok:
  assumes "maps_are (succMap st) (predMap st) F" "i < 2 ^ 32" "j < 2 ^ 32"
  shows "\<exists>a b. addEdge i j X st = ((i, X, j) \<notin> F, st\<lparr>succMap := a, predMap := b\<rparr>) \<and> maps_are a b (insert (i, X, j) F)
    \<and> fst ` set a = insert i (fst ` set (succMap st))"
proof -
  note m = assms(1) [unfolded maps_are_def]
  let ?a = "snd (cell_add i j X (succMap st))" and ?b = "snd (cell_add j i X (predMap st))"
  note a = cell_add_ok [OF m [THEN conjunct1] assms(3), of i X] and b = cell_add_ok [OF m [THEN conjunct2] assms(2), of j X]
  have "addEdge i j X st = ((i, X, j) \<notin> F, st\<lparr>succMap := ?a, predMap := ?b\<rparr>)"
    using b(1) by (simp add: addEdge_def addPred_def addSucc_def Let_def)
  moreover have "cells_are ?a (\<lambda>u Y. {v. (u, Y, v) \<in> insert (i, X, j) F})" "cells_are ?b (\<lambda>v Y. {u. (u, Y, v) \<in> insert (i, X, j) F})"
    by (rule cells_eq [OF a(2)], fastforce simp: fun_eq_iff) (rule cells_eq [OF b(2)], fastforce simp: fun_eq_iff)
  ultimately show ?thesis using cell_add_keys unfolding maps_are_def by blast
qed

lemma fold_addPred: "fold (\<lambda>datum a. let q = addPred datum x ty (snd a) in (if fst q then sbv_set (fst a) datum else fst a, snd q)) ks (d, st)
    = (fst (cell_each x ty ks (d, predMap st)), st\<lparr>predMap := snd (cell_each x ty ks (d, predMap st))\<rparr>)"
  by (induction ks arbitrary: d st) (simp_all add: cell_each_def addPred_def Let_def)

lemma fold_addSucc: "fold (\<lambda>datum a. let q = addSucc datum x ty (snd a) in (if fst q then sbv_set (fst a) datum else fst a, snd q)) ks (d, st)
    = (fst (cell_each x ty ks (d, succMap st)), st\<lparr>succMap := snd (cell_each x ty ks (d, succMap st))\<rparr>)"
  by (induction ks arbitrary: d st) (simp_all add: cell_each_def addSucc_def Let_def)

text \<open>A cell of one map is joined to another of it, and the other map completed.\<close>

lemma join_each_ok:
  assumes m: "cells_are m f" and n: "cells_are n h" and x: "x < 2 ^ 32" and sym: "\<And>k. k \<in> f x X \<longleftrightarrow> x \<in> h k X"
  shows "\<exists>d m' n'. sbv_inv d \<and> sbv_bits d = f j Z - f x X
    \<and> cells_are m' (\<lambda>u Y. if u = x \<and> Y = X then f u Y \<union> f j Z else f u Y)
    \<and> cells_are n' (\<lambda>k Y. if k \<in> f j Z \<and> Y = X then insert x (h k Y) else h k Y)
    \<and> (let m0 = dm_touch sbv_new j Z m; s = dm_at sbv_new m0 j Z; r = cell_join ((x, X) = (j, Z)) x s X m0 in
      m' = snd r \<and> (if fst r then \<exists>ks. sbv_elems s = Some ks \<and> cell_each x X ks (sbv_new, n) = (d, n') else d = sbv_new \<and> n' = n))"
proof -
  let ?m0 = "dm_touch sbv_new j Z m"
  let ?s = "dm_at sbv_new ?m0 j Z"
  have m0: "cells_are ?m0 f" using m by (simp add: cells_touch)
  note s = cellsD [OF m0, of j Z]
  let ?r = "cell_join ((x, X) = (j, Z)) x ?s X ?m0"
  have r2: "cells_are (snd ?r) (\<lambda>u Y. if u = x \<and> Y = X then f u Y \<union> f j Z else f u Y)" and r1: "fst ?r \<longleftrightarrow> \<not> f j Z \<subseteq> f x X"
    using cell_join_ok [OF m0 s(1), of "(x, X) = (j, Z)" x X] unfolding s(2) by auto
  show ?thesis
  proof (cases "fst ?r")
    case True
    let ?ks = "sorted_list_of_set (sbv_bits ?s)"
    have ks: "sbv_elems ?s = Some ?ks" "set ?ks = f j Z" "\<forall>k\<in>set ?ks. k < 2 ^ 32"
      using sbv_elems_sorted [OF s(1)] s(2) sbv_bits_lt [OF s(1)] sbv_bits_finite [OF s(1)] by auto
    note e = cell_each_ok [OF n sbv_new_ok(1) x ks(3), of X]
    have "{k \<in> f j Z. x \<notin> h k X} = f j Z - f x X" using sym by auto
    then show ?thesis
      using True ks(1) r2 e unfolding ks(2) Let_def
      by (intro exI [of _ "fst (cell_each x X ?ks (sbv_new, n))"] exI [of _ "snd ?r"] exI [of _ "snd (cell_each x X ?ks (sbv_new, n))"])
        (simp add: sbv_new_ok)
  next
    case False
    have "(\<lambda>k Y. if k \<in> f j Z \<and> Y = X then insert x (h k Y) else h k Y) = h" using False r1 sym by (fastforce simp: fun_eq_iff)
    then show ?thesis using False r1 r2 n unfolding Let_def
      by (intro exI [of _ sbv_new] exI [of _ "snd ?r"] exI [of _ n]) (auto simp: sbv_new_ok)
  qed
qed

lemma addEdges_dst_ok:
  assumes "maps_are (succMap st) (predMap st) F" "i < 2 ^ 32"
  shows "\<exists>d a b. addEdges_dst i (j, Z) X st = Some (d, st\<lparr>succMap := a, predMap := b\<rparr>) \<and> sbv_inv d
    \<and> sbv_bits d = {k. (j, Z, k) \<in> F} - {k. (i, X, k) \<in> F} \<and> maps_are a b (F \<union> {(i, X, k) |k. (j, Z, k) \<in> F})"
proof -
  note m = assms(1) [unfolded maps_are_def]
  from join_each_ok [OF m [THEN conjunct1] m [THEN conjunct2] assms(2), where X = X and j = j and Z = Z] obtain d a b where
    d: "sbv_inv d" "sbv_bits d = {k. (j, Z, k) \<in> F} - {k. (i, X, k) \<in> F}"
    and a: "cells_are a (\<lambda>u Y. if u = i \<and> Y = X then {v. (u, Y, v) \<in> F} \<union> {k. (j, Z, k) \<in> F} else {v. (u, Y, v) \<in> F})"
    and b: "cells_are b (\<lambda>k Y. if k \<in> {k. (j, Z, k) \<in> F} \<and> Y = X then insert i {u. (u, Y, k) \<in> F} else {u. (u, Y, k) \<in> F})"
    and r: "let m0 = dm_touch sbv_new j Z (succMap st); s = dm_at sbv_new m0 j Z; r = cell_join ((i, X) = (j, Z)) i s X m0 in
      a = snd r \<and> (if fst r then \<exists>ks. sbv_elems s = Some ks \<and> cell_each i X ks (sbv_new, predMap st) = (d, b) else d = sbv_new \<and> b = predMap st)"
    by auto
  have "addEdges_dst i (j, Z) X st = Some (d, st\<lparr>succMap := a, predMap := b\<rparr>)"
    using r unfolding addEdges_dst_def addSuccs_def fold_addPred [unfolded Let_def] Let_def by (auto split: if_splits)
  moreover have "maps_are a b (F \<union> {(i, X, k) |k. (j, Z, k) \<in> F})"
    unfolding maps_are_def by (rule conjI [OF cells_eq [OF a] cells_eq [OF b]]) (auto simp: fun_eq_iff)
  ultimately show ?thesis using d by blast
qed

lemma addEdges_src_ok:
  assumes "maps_are (succMap st) (predMap st) F" "j < 2 ^ 32"
  shows "\<exists>d a b. addEdges_src (i, Z) j X st = Some (d, st\<lparr>succMap := a, predMap := b\<rparr>) \<and> sbv_inv d
    \<and> sbv_bits d = {k. (k, Z, i) \<in> F} - {k. (k, X, j) \<in> F} \<and> maps_are a b (F \<union> {(k, X, j) |k. (k, Z, i) \<in> F})"
proof -
  note m = assms(1) [unfolded maps_are_def]
  from join_each_ok [OF m [THEN conjunct2] m [THEN conjunct1] assms(2), where X = X and j = i and Z = Z] obtain d a b where
    d: "sbv_inv d" "sbv_bits d = {k. (k, Z, i) \<in> F} - {k. (k, X, j) \<in> F}"
    and b: "cells_are b (\<lambda>u Y. if u = j \<and> Y = X then {v. (v, Y, u) \<in> F} \<union> {k. (k, Z, i) \<in> F} else {v. (v, Y, u) \<in> F})"
    and a: "cells_are a (\<lambda>k Y. if k \<in> {k. (k, Z, i) \<in> F} \<and> Y = X then insert j {u. (k, Y, u) \<in> F} else {u. (k, Y, u) \<in> F})"
    and r: "let m0 = dm_touch sbv_new i Z (predMap st); s = dm_at sbv_new m0 i Z; r = cell_join ((j, X) = (i, Z)) j s X m0 in
      b = snd r \<and> (if fst r then \<exists>ks. sbv_elems s = Some ks \<and> cell_each j X ks (sbv_new, succMap st) = (d, a) else d = sbv_new \<and> a = succMap st)"
    by auto
  have "addEdges_src (i, Z) j X st = Some (d, st\<lparr>succMap := a, predMap := b\<rparr>)"
    using r unfolding addEdges_src_def addPreds_def fold_addSucc [unfolded Let_def] Let_def by (auto split: if_splits)
  moreover have "maps_are a b (F \<union> {(k, X, j) |k. (k, Z, i) \<in> F})"
    unfolding maps_are_def by (rule conjI [OF cells_eq [OF a] cells_eq [OF b]]) (auto simp: fun_eq_iff)
  ultimately show ?thesis using d by blast
qed

section \<open>The solver saturates\<close>

definition pocr_inv :: "'a pocr_state_scheme \<Rightarrow> bool" where
  "pocr_inv st = (cfl_inv st \<and> (\<forall>n\<in>set (graphNodes (cs_graph st)). n < 2 ^ 32) \<and> maps_are (succMap st) (predMap st) (cfl_facts st))"

interpretation pocr: sat_state "derive_one g" "derive_two g" pocr_inv cfl_facts cfl_todo cfl_space for g
proof
  fix st :: "'a pocr_state_scheme" assume "pocr_inv st"
  then show "finite (cfl_space st) \<and> cfl_facts st \<subseteq> cfl_space st \<and> cfl_todo st \<subseteq> cfl_facts st"
    using cfl.bounded [of st] by (simp add: pocr_inv_def)
qed

lemma maps_state [simp]:
  "cfl_inv (st\<lparr>succMap := a, predMap := b\<rparr>) = cfl_inv st" "cfl_facts (st\<lparr>succMap := a, predMap := b\<rparr>) = cfl_facts st"
  "cfl_todo (st\<lparr>succMap := a, predMap := b\<rparr>) = cfl_todo st" "cfl_space (st\<lparr>succMap := a, predMap := b\<rparr>) = cfl_space st"
  by (simp_all add: cfl_inv_def cfl_facts_def cfl_todo_def cfl_space_def)

lemma checks_state [simp]: "cfl_inv (checks n st) = cfl_inv st" "cfl_facts (checks n st) = cfl_facts st"
    "cfl_todo (checks n st) = cfl_todo st" "cfl_space (checks n st) = cfl_space st" "cs_graph (checks n st) = cs_graph st"
  by (simp_all add: checks_def cfl_inv_def cfl_facts_def cfl_todo_def cfl_space_def)

lemma checks_maps [simp]: "succMap (checks n st) = succMap st" "predMap (checks n st) = predMap st"
    "succMap (check st) = succMap st" "predMap (check st) = predMap st"
  by (simp_all add: checks_def check_def)

text \<open>A step from a state of the solver that adds the edges \<open>F\<close> to the graph and to the maps\<close>

lemma pocr_growI:
  assumes "pocr_inv s" "cfl_adds s t F" "maps_are (succMap t) (predMap t) (cfl_facts s \<union> F)" "low \<subseteq> cfl_facts s \<union> F"
    and "\<And>D. sat_closed (derive_one g) (derive_two g) D \<Longrightarrow> cfl_facts s \<subseteq> D \<Longrightarrow> F \<subseteq> D"
  shows "pocr.grow g s t low"
  using assms unfolding pocr.grow_def cfl_adds_def space_nodes pocr_inv_def by auto

text \<open>An edge that is new is pushed.\<close>

lemma pocr_push_eq:
  assumes "cfl_inv st" "i \<in> set (graphNodes (cs_graph st))" "j \<in> set (graphNodes (cs_graph st))" "(i, X, j) \<notin> cfl_facts st"
  shows "pocr_push i j X st = cfl_add i j X st"
proof -
  have ok: "graph_ok (cs_graph st)" using assms(1) by (simp add: cfl_inv_def)
  have "CFLEdge i j (ucast (sym_num X)) \<notin> set (cflEdgeSet (cs_graph st))"
    using fact_in_graph [OF ok] assms(4) by (simp add: cfl_facts_def)
  then obtain e g' where "addCFLEdge i j (ucast (sym_num X)) (cs_graph st) = Some (Some e, g')"
    using addCFLEdge_ok [OF ok assms(2,3), of "sym_num X"] by auto
  then show ?thesis by (simp add: pocr_push_def cfl_add_def Let_def)
qed

lemma cfl_add_maps: "cfl_add i j X st = Some t \<Longrightarrow> succMap t = succMap st \<and> predMap t = predMap st"
  by (auto simp: cfl_add_def pushIntoWorklist_def Let_def split: option.splits)

lemma pocr_push_ok:
  assumes "cfl_inv st" "i \<in> set (graphNodes (cs_graph st))" "j \<in> set (graphNodes (cs_graph st))" "(i, X, j) \<notin> cfl_facts st"
  shows "\<exists>t. pocr_push i j X st = Some t \<and> cfl_adds st t {(i, X, j)} \<and> succMap t = succMap st \<and> predMap t = predMap st"
proof -
  from cfl_add_facts [OF assms(1-3), of X] obtain t where t: "cfl_add i j X st = Some t" "cfl_adds st t {(i, X, j)}"
    by (auto simp: cfl_adds_def)
  then show ?thesis using pocr_push_eq [OF assms] cfl_add_maps [of i j X st t] by auto
qed

lemma push_each_ok:
  assumes "cfl_inv st" "distinct ks" "inj_on (\<lambda>k. (a k, b k)) (set ks)"
    and "\<forall>k\<in>set ks. {k, a k, b k} \<subseteq> set (graphNodes (cs_graph st)) \<and> (a k, X, b k) \<notin> cfl_facts st"
  shows "\<exists>t. each (\<lambda>d st. Option.bind (getGNode d st) (\<lambda>k. pocr_push (a k) (b k) X st)) ks st = Some t
    \<and> cfl_adds st t {(a k, X, b k) |k. k \<in> set ks} \<and> succMap t = succMap st \<and> predMap t = predMap st"
  using assms
proof (induction ks arbitrary: st)
  case Nil
  then show ?case by (simp add: cfl_adds_def)
next
  case (Cons k ks)
  from pocr_push_ok [OF Cons.prems(1), of "a k" "b k" X] Cons.prems(4) obtain t where t: "pocr_push (a k) (b k) X st = Some t"
    "cfl_adds st t {(a k, X, b k)}" "succMap t = succMap st" "predMap t = predMap st" by auto
  have ti: "cfl_inv t" "graphNodes (cs_graph t) = graphNodes (cs_graph st)" "cfl_facts t = insert (a k, X, b k) (cfl_facts st)"
    using t(2) by (auto simp: cfl_adds_def)
  have ne: "(a k', b k') \<noteq> (a k, b k)" if "k' \<in> set ks" for k'
    using inj_onD [OF Cons.prems(3), of k' k] that Cons.prems(2) by auto
  have "\<forall>k'\<in>set ks. {k', a k', b k'} \<subseteq> set (graphNodes (cs_graph t)) \<and> (a k', X, b k') \<notin> cfl_facts t"
    using Cons.prems(4) ne by (auto simp: ti)
  then obtain u where u: "each (\<lambda>d st. Option.bind (getGNode d st) (\<lambda>k. pocr_push (a k) (b k) X st)) ks t = Some u"
    "cfl_adds t u {(a k, X, b k) |k. k \<in> set ks}" "succMap u = succMap t" "predMap u = predMap t"
    using Cons.IH [OF ti(1)] Cons.prems(2,3) by auto
  have "cfl_adds st u {(a k', X, b k') |k'. k' \<in> set (k # ks)}" using t(2) u(2) by (auto simp: cfl_adds_def)
  moreover have "getGNode k st = Some k" using Cons.prems(4) by (simp add: getGNode_def)
  ultimately show ?case using t u by simp
qed

text \<open>Adding one edge\<close>

lemma pocr_one:
  assumes "pocr_inv st" "i \<in> set (graphNodes (cs_graph st))" "j \<in> set (graphNodes (cs_graph st))"
  shows "\<exists>t. (let r = addEdge i j X st in if fst r then pocr_push i j X (snd r) else Some (snd r)) = Some t
    \<and> cfl_adds st t {(i, X, j)} \<and> pocr_inv t \<and> fst ` set (succMap t) = insert i (fst ` set (succMap st))"
proof -
  note inv = assms(1) [unfolded pocr_inv_def]
  obtain a b where e: "addEdge i j X st = ((i, X, j) \<notin> cfl_facts st, st\<lparr>succMap := a, predMap := b\<rparr>)"
      "maps_are a b (insert (i, X, j) (cfl_facts st))" "fst ` set a = insert i (fst ` set (succMap st))"
    using addEdge_ok [of st "cfl_facts st" i j X] inv assms(2,3) by blast
  let ?s = "st\<lparr>succMap := a, predMap := b\<rparr>"
  show ?thesis
  proof (cases "(i, X, j) \<in> cfl_facts st")
    case True
    then show ?thesis using inv e by (intro exI [of _ ?s]) (simp add: cfl_adds_def pocr_inv_def insert_absorb)
  next
    case False
    from pocr_push_ok [of ?s i j X] False inv assms(2,3) obtain t where t: "pocr_push i j X ?s = Some t" "cfl_adds ?s t {(i, X, j)}"
      "succMap t = a" "predMap t = b" by auto
    have "cfl_adds st t {(i, X, j)}" using t(2) by (simp add: cfl_adds_def)
    moreover have "pocr_inv t" using calculation inv e(2) t(3,4) by (simp add: pocr_inv_def cfl_adds_def)
    ultimately show ?thesis using e t False by (intro exI [of _ t]) simp
  qed
qed

lemma pocr_single_ok:
  assumes "pocr_inv st" "(i, Y, j) \<in> cfl_facts st" "unit_rule g X Y"
  shows "\<exists>t. pocr_single i j [X, Y] st = Some t \<and> pocr.grow g st t {(i, X, j)}"
proof -
  have n: "i \<in> set (graphNodes (cs_graph st))" "j \<in> set (graphNodes (cs_graph st))"
    using in_space [OF _ assms(2)] assms(1) by (auto simp: pocr_inv_def)
  have c: "pocr_inv (check st)" using assms(1) by (simp add: pocr_inv_def)
  from pocr_one [OF c, of i j X] n obtain t where t: "pocr_single i j [X, Y] st = Some t" "cfl_adds (check st) t {(i, X, j)}" "pocr_inv t"
    by (auto simp: pocr_single_def getLHSSymbol_def prod_at_def)
  have "pocr.grow g st t {(i, X, j)}"
  proof (rule pocr_growI [OF assms(1)])
    show "cfl_adds st t {(i, X, j)}" using t(2) by (simp add: cfl_adds_def)
    then show "maps_are (succMap t) (predMap t) (cfl_facts st \<union> {(i, X, j)})" using t(3) by (simp add: cfl_adds_def pocr_inv_def)
  qed (use assms(2,3) closed_one in \<open>auto\<close>)
  then show ?thesis using t(1) by blast
qed

text \<open>Adding the edges to all successors, or from all predecessors\<close>

lemma pocr_first_ok:
  assumes "pocr_inv st" "(i, Y, j) \<in> cfl_facts st" "binary_rule g X Y Z"
  shows "\<exists>t. pocr_first i j [X, Y, Z] st = Some t \<and> pocr.grow g st t {(i, X, k) |k. (j, Z, k) \<in> cfl_facts st}"
proof -
  note inv = assms(1) [unfolded pocr_inv_def]
  let ?F = "cfl_facts st" and ?N = "set (graphNodes (cs_graph st))"
  have n: "i \<in> ?N" "\<And>k. (j, Z, k) \<in> ?F \<Longrightarrow> k \<in> ?N" using in_space inv assms(2) by blast+
  obtain d a b where d: "addEdges_dst i (j, Z) X st = Some (d, st\<lparr>succMap := a, predMap := b\<rparr>)" "sbv_inv d"
      "sbv_bits d = {k. (j, Z, k) \<in> ?F} - {k. (i, X, k) \<in> ?F}" "maps_are a b (?F \<union> {(i, X, k) |k. (j, Z, k) \<in> ?F})"
    using addEdges_dst_ok [of st ?F i j Z X] inv n(1) by blast
  let ?ks = "sorted_list_of_set (sbv_bits d)" and ?s = "checks (sbv_count (dm_at sbv_new a j Z)) (st\<lparr>succMap := a, predMap := b\<rparr>)"
  have ks: "sbv_elems d = Some ?ks" "set ?ks = sbv_bits d" "distinct ?ks" using sbv_elems_sorted [OF d(2)] sbv_bits_finite [OF d(2)] by auto
  have "\<exists>t. each (\<lambda>d st. Option.bind (getGNode d st) (\<lambda>k. pocr_push i k X st)) ?ks ?s = Some t
      \<and> cfl_adds ?s t {(i, X, k) |k. k \<in> set ?ks} \<and> succMap t = succMap ?s \<and> predMap t = predMap ?s"
    by (rule push_each_ok) (use inv ks n d(3) in \<open>auto intro: inj_onI\<close>)
  then obtain t where t: "each (\<lambda>d st. Option.bind (getGNode d st) (\<lambda>k. pocr_push i k X st)) ?ks ?s = Some t"
    "cfl_adds ?s t {(i, X, k) |k. k \<in> sbv_bits d}" "succMap t = a" "predMap t = b" using ks(2) by auto
  have "pocr.grow g st t {(i, X, k) |k. (j, Z, k) \<in> ?F}"
  proof (rule pocr_growI [OF assms(1)])
    show "cfl_adds st t {(i, X, k) |k. k \<in> sbv_bits d}" using t(2) by (simp add: cfl_adds_def)
    have "?F \<union> {(i, X, k) |k. k \<in> sbv_bits d} = ?F \<union> {(i, X, k) |k. (j, Z, k) \<in> ?F}" using d(3) by auto
    then show "maps_are (succMap t) (predMap t) (?F \<union> {(i, X, k) |k. k \<in> sbv_bits d})" using d(4) t(3,4) by simp
    show "{(i, X, k) |k. k \<in> sbv_bits d} \<subseteq> D" if "sat_closed (derive_one g) (derive_two g) D" "?F \<subseteq> D" for D
      using closed_two [OF that(1) assms(3)] that(2) d(3) assms(2) by blast
  qed (use d(3) in auto)
  then show ?thesis using t(1) d(1) ks(1)
    by (intro exI [of _ t]) (simp add: pocr_first_def getLHSSymbol_def getSecondRHSSymbol_def prod_at_def)
qed

lemma pocr_second_ok:
  assumes "pocr_inv st" "(i, Y, j) \<in> cfl_facts st" "binary_rule g X Z Y"
  shows "\<exists>t. pocr_second i j [X, Z, Y] st = Some t \<and> pocr.grow g st t {(k, X, j) |k. (k, Z, i) \<in> cfl_facts st}"
proof -
  note inv = assms(1) [unfolded pocr_inv_def]
  let ?F = "cfl_facts st" and ?N = "set (graphNodes (cs_graph st))"
  have n: "j \<in> ?N" "\<And>k. (k, Z, i) \<in> ?F \<Longrightarrow> k \<in> ?N" using in_space inv assms(2) by blast+
  obtain d a b where d: "addEdges_src (i, Z) j X st = Some (d, st\<lparr>succMap := a, predMap := b\<rparr>)" "sbv_inv d"
      "sbv_bits d = {k. (k, Z, i) \<in> ?F} - {k. (k, X, j) \<in> ?F}" "maps_are a b (?F \<union> {(k, X, j) |k. (k, Z, i) \<in> ?F})"
    using addEdges_src_ok [of st ?F j i Z X] inv n(1) by blast
  let ?ks = "sorted_list_of_set (sbv_bits d)" and ?s = "checks (sbv_count (dm_at sbv_new b i Z)) (st\<lparr>succMap := a, predMap := b\<rparr>)"
  have ks: "sbv_elems d = Some ?ks" "set ?ks = sbv_bits d" "distinct ?ks" using sbv_elems_sorted [OF d(2)] sbv_bits_finite [OF d(2)] by auto
  have "\<exists>t. each (\<lambda>d st. Option.bind (getGNode d st) (\<lambda>k. pocr_push k j X st)) ?ks ?s = Some t
      \<and> cfl_adds ?s t {(k, X, j) |k. k \<in> set ?ks} \<and> succMap t = succMap ?s \<and> predMap t = predMap ?s"
    by (rule push_each_ok) (use inv ks n d(3) in \<open>auto intro: inj_onI\<close>)
  then obtain t where t: "each (\<lambda>d st. Option.bind (getGNode d st) (\<lambda>k. pocr_push k j X st)) ?ks ?s = Some t"
    "cfl_adds ?s t {(k, X, j) |k. k \<in> sbv_bits d}" "succMap t = a" "predMap t = b" using ks(2) by auto
  have "pocr.grow g st t {(k, X, j) |k. (k, Z, i) \<in> ?F}"
  proof (rule pocr_growI [OF assms(1)])
    show "cfl_adds st t {(k, X, j) |k. k \<in> sbv_bits d}" using t(2) by (simp add: cfl_adds_def)
    have "?F \<union> {(k, X, j) |k. k \<in> sbv_bits d} = ?F \<union> {(k, X, j) |k. (k, Z, i) \<in> ?F}" using d(3) by auto
    then show "maps_are (succMap t) (predMap t) (?F \<union> {(k, X, j) |k. k \<in> sbv_bits d})" using d(4) t(3,4) by simp
    show "{(k, X, j) |k. k \<in> sbv_bits d} \<subseteq> D" if "sat_closed (derive_one g) (derive_two g) D" "?F \<subseteq> D" for D
      using closed_two [OF that(1) assms(3)] that(2) d(3) assms(2) by blast
  qed (use d(3) in auto)
  then show ?thesis using t(1) d(1) ks(1)
    by (intro exI [of _ t]) (simp add: pocr_second_def getLHSSymbol_def getFirstRHSSymbol_def prod_at_def)
qed

lemma pocr_pop:
  assumes "pocr_inv st" "cfl_todo st \<noteq> {}"
  shows "\<exists>e s0. popFromWorklist st = Some (e, s0) \<and> edge_fact e \<in> cfl_todo st \<and> pocr_inv s0
    \<and> cfl_space s0 = cfl_space st \<and> cfl_facts s0 = cfl_facts st \<and> cfl_todo s0 = cfl_todo st - {edge_fact e}"
proof -
  from pop_todo [of st] assms obtain e w where e: "popFromWorklist st = Some (e, st\<lparr>cs_work := w\<rparr>)" "edge_fact e \<in> cfl_todo st"
    "cfl_inv (st\<lparr>cs_work := w\<rparr>)" "cfl_todo (st\<lparr>cs_work := w\<rparr>) = cfl_todo st - {edge_fact e}" by (auto simp: pocr_inv_def)
  then show ?thesis using assms(1) by (intro exI [of _ e] exI [of _ "st\<lparr>cs_work := w\<rparr>"]) (simp add: pocr_inv_def)
qed

interpretation pocr_sol: edge_solver g "\<lambda>st. cf_ok g \<and> pocr_inv st" cfl_facts cfl_todo cfl_space pocr_single pocr_first pocr_second
    isWorklistEmpty popFromWorklist for g
proof (rule edge_solver.intro [OF edge_steps.intro [OF pocr.sat_guard] edge_solver_axioms.intro],
    unfold edge_steps_axioms_def pocr.grow_guard)
  show "isWorklistEmpty st = (cfl_todo st = {})" if "cf_ok g \<and> pocr_inv st" for st :: "'a pocr_state_scheme"
    using that fifo.emp_iff [of "cs_work st"] by (simp add: pocr_inv_def cfl_inv_def isWorklistEmpty_def cfl_todo_def)
  show "\<exists>e s0. popFromWorklist st = Some (e, s0) \<and> edge_fact e \<in> cfl_todo st \<and> (cf_ok g \<and> pocr_inv s0)
      \<and> cfl_space s0 = cfl_space st \<and> cfl_facts s0 = cfl_facts st \<and> cfl_todo s0 = cfl_todo st - {edge_fact e}"
    if "cf_ok g \<and> pocr_inv st" "cfl_todo st \<noteq> {}" for st :: "'a pocr_state_scheme"
    using pocr_pop [of st] that by blast
qed (auto dest: pocr_single_ok pocr_first_ok pocr_second_ok)

lemma pocr_round_eq: "pocr_round g = pocr_sol.round g"
  by (simp add: fun_eq_iff pocr_round_def pocr_sol.round_def pocr_processCFLEdge_def process_rules_def Let_def)

section \<open>The start\<close>

lemma build_each:
  assumes "maps_are (succMap st) (predMap st) F" "\<forall>e\<in>set es. edgeSrc e < 2 ^ 32 \<and> edgeDst e < 2 ^ 32"
  shows "\<exists>a b. fold (\<lambda>e st. snd (addEdge (edgeSrc e) (edgeDst e) (edge_symbol e) st)) es st = st\<lparr>succMap := a, predMap := b\<rparr>
    \<and> maps_are a b (F \<union> edge_fact ` set es) \<and> fst ` set a = edgeSrc ` set es \<union> fst ` set (succMap st)"
  using assms
proof (induction es arbitrary: st F)
  case Nil
  then show ?case by (intro exI [of _ "succMap st"] exI [of _ "predMap st"]) simp
next
  case (Cons e es)
  from addEdge_ok [OF Cons.prems(1), of "edgeSrc e" "edgeDst e" "edge_symbol e"] Cons.prems(2) obtain a b where
    a: "addEdge (edgeSrc e) (edgeDst e) (edge_symbol e) st = (edge_fact e \<notin> F, st\<lparr>succMap := a, predMap := b\<rparr>)"
      "maps_are a b (insert (edge_fact e) F)" "fst ` set a = insert (edgeSrc e) (fst ` set (succMap st))" by (auto simp: edge_fact_def)
  let ?s = "st\<lparr>succMap := a, predMap := b\<rparr>"
  obtain a' b' where "fold (\<lambda>e st. snd (addEdge (edgeSrc e) (edgeDst e) (edge_symbol e) st)) es ?s = ?s\<lparr>succMap := a', predMap := b'\<rparr>"
      "maps_are a' b' (insert (edge_fact e) F \<union> edge_fact ` set es)" "fst ` set a' = edgeSrc ` set es \<union> fst ` set a"
    using Cons.IH [of ?s "insert (edge_fact e) F"] a(2) Cons.prems(2) by auto
  then show ?case using a by (intro exI [of _ a'] exI [of _ b']) (simp add: Un_insert_left)
qed

lemma push_all_maps: "succMap (fold (\<lambda>e st. snd (pushIntoWorklist e st)) es st) = succMap st
    \<and> predMap (fold (\<lambda>e st. snd (pushIntoWorklist e st)) es st) = predMap st"
  by (induction es arbitrary: st) (simp_all add: pushIntoWorklist_def Let_def)

text \<open>The state before the empty productions\<close>

lemma start_ok:
  assumes "graph_ok graph" "\<forall>n\<in>set (graphNodes graph). n < 2 ^ 32"
    and s0: "cs_graph s0 = graph" "cs_work s0 = wl_new" "succMap s0 = []" "predMap s0 = []"
    and s: "s = fold (\<lambda>e st. snd (pushIntoWorklist e st)) (cflEdgeSet (cs_graph (buildCFLData s0))) (buildCFLData s0)"
  shows "pocr_inv s" "cs_graph s = graph" "cfl_todo s = cfl_facts s" "fst ` set (succMap s) = fst ` cfl_facts s"
proof -
  have "\<forall>e\<in>set (cflEdgeSet graph). edgeSrc e < 2 ^ 32 \<and> edgeDst e < 2 ^ 32" using assms(1,2) by (auto simp: graph_ok_def)
  then obtain a b where m: "buildCFLData s0 = s0\<lparr>succMap := a, predMap := b\<rparr>" "maps_are a b (graph_facts graph)"
      "fst ` set a = fst ` graph_facts graph"
    using build_each [of s0 "{}" "cflEdgeSet graph"] maps_new s0
    by (auto simp: buildCFLData_def graph_facts_def edge_fact_def image_image)
  have g: "cs_graph (buildCFLData s0) = graph" "cs_work (buildCFLData s0) = wl_new" by (simp_all add: m(1) s0)
  have w: "wl_ok (cs_work (buildCFLData s0))" by (simp add: g wl_ok_def wl_new_def)
  have w0: "data_set wl_new = {}" by (simp add: wl_new_def)
  note p = push_all [OF w, of "cflEdgeSet graph"]
  show cg: "cs_graph s = graph" using p by (simp add: s g)
  show "cfl_todo s = cfl_facts s" using p by (simp add: s g w0 cfl_todo_def cfl_facts_def graph_facts_def)
  have maps: "succMap s = a" "predMap s = b" by (simp_all add: s push_all_maps) (simp_all add: m(1))
  show "fst ` set (succMap s) = fst ` cfl_facts s" by (simp add: maps m(3) cfl_facts_def cg)
  show "pocr_inv s"
    using p assms(1,2) m(2) by (simp add: pocr_inv_def cfl_inv_def cfl_facts_def maps) (simp add: s g w0)
qed

text \<open>Steps that each add facts\<close>

lemma each_collect:
  assumes "\<And>x t. x \<in> set xs \<Longrightarrow> P t \<Longrightarrow> \<exists>u. f x t = Some u \<and> P u \<and> R t u (F x)"
    and "\<And>s. P s \<Longrightarrow> R s s {}" "\<And>s t u A B. R s t A \<Longrightarrow> R t u B \<Longrightarrow> R s u (A \<union> B)" "P s"
  shows "\<exists>t. each f xs s = Some t \<and> P t \<and> R s t (\<Union>x\<in>set xs. F x)"
  using assms(1,4)
proof (induction xs arbitrary: s)
  case Nil
  then show ?case using assms(2) by simp
next
  case (Cons x xs)
  obtain t where t: "f x s = Some t" "P t" "R s t (F x)" using Cons.prems(1) [of x s] Cons.prems(2) by auto
  obtain u where u: "each f xs t = Some u" "P u" "R t u (\<Union>x\<in>set xs. F x)" using Cons.IH [of t] Cons.prems(1) t(2) by auto
  then show ?case using t(1) assms(3) [OF t(3) u(3)] by auto
qed

lemma cfl_adds_refl: "cfl_inv s \<Longrightarrow> cfl_adds s s {}"
  by (simp add: cfl_adds_def)

lemma cfl_adds_trans: "cfl_adds s t A \<Longrightarrow> cfl_adds t u B \<Longrightarrow> cfl_adds s u (A \<union> B)"
  by (auto simp: cfl_adds_def)

text \<open>The loop over the empty productions goes over the keys of \<open>succMap\<close>.\<close>

definition keyed :: "nat set \<Rightarrow> nat set \<Rightarrow> 'a pocr_state_scheme \<Rightarrow> bool" where
  "keyed N K t = (pocr_inv t \<and> set (graphNodes (cs_graph t)) = N \<and> fst ` set (succMap t) = K)"

lemma keyed_refl: "keyed N K t \<Longrightarrow> cfl_adds t t {}"
  by (simp add: keyed_def pocr_inv_def cfl_adds_refl)

lemma pocr_empty_ok:
  assumes "keyed N K t" "i \<in> K" "K \<subseteq> N" "getLHSSymbol p = Some X"
  shows "\<exists>u. pocr_empty p i t = Some u \<and> keyed N K u \<and> cfl_adds t u {(i, X, i)}"
proof -
  have t: "pocr_inv t" "i \<in> set (graphNodes (cs_graph t))" "fst ` set (succMap t) = K" using assms by (auto simp: keyed_def)
  from pocr_one [OF t(1,2,2), of X] obtain u where u: "(let r = addEdge i i X t in if fst r then pocr_push i i X (snd r) else Some (snd r)) = Some u"
    "cfl_adds t u {(i, X, i)}" "pocr_inv u" "fst ` set (succMap u) = insert i (fst ` set (succMap t))" by blast
  have "cs_graph (snd (addEdge i i X t)) = cs_graph t" by (simp add: addEdge_def addPred_def addSucc_def Let_def)
  then have "pocr_empty p i t = Some u" using u(1) assms(4) t(2) by (auto simp: pocr_empty_def Let_def getGNode_def)
  moreover have "keyed N K u" using u(2-4) assms(1,2) by (auto simp: keyed_def cfl_adds_def)
  ultimately show ?thesis using u(2) by blast
qed

lemma epsilon_loop_ok:
  assumes "cf_ok g" "pocr_inv s" "cfl_todo s = cfl_facts s" "fst ` set (succMap s) = fst ` cfl_facts s"
  shows "\<exists>t. each pocr_epsilon (epsilonProds g) s = Some t \<and> pocr_inv t
    \<and> cfl_facts t = cfl_facts s \<union> epsilon_facts g (fst ` cfl_facts s) \<and> cfl_todo t = cfl_facts t"
proof -
  let ?N = "set (graphNodes (cs_graph s))" and ?K = "fst ` cfl_facts s"
  have k: "keyed ?N ?K s" using assms(2,4) by (simp add: keyed_def)
  have "graph_ok (cs_graph s)" using assms(2) by (simp add: pocr_inv_def cfl_inv_def)
  then have KN: "?K \<subseteq> ?N" using graph_facts_bounded by (fastforce simp: all_facts_def cfl_facts_def)
  have "\<exists>t. each pocr_epsilon (epsilonProds g) s = Some t \<and> keyed ?N ?K t
      \<and> cfl_adds s t (\<Union>p\<in>set (epsilonProds g). \<Union>i\<in>?K. {(i, p ! 0, i)})"
  proof (rule each_collect [where P = "keyed ?N ?K" and R = cfl_adds, OF _ keyed_refl cfl_adds_trans k])
    fix p and t :: "'a pocr_state_scheme" assume p: "p \<in> set (epsilonProds g)" and t: "keyed ?N ?K t"
    have lhs: "getLHSSymbol p = Some (p ! 0)" using epsilon_prods [OF assms(1) p] by simp
    have keys: "set (map fst (succMap t)) = ?K" using t by (simp add: keyed_def)
    have "\<exists>u. each (pocr_empty p) (map fst (succMap t)) t = Some u \<and> keyed ?N ?K u
        \<and> cfl_adds t u (\<Union>i\<in>set (map fst (succMap t)). {(i, p ! 0, i)})"
      by (rule each_collect [where P = "keyed ?N ?K" and R = cfl_adds, OF _ keyed_refl cfl_adds_trans t], rule pocr_empty_ok)
        (use keys KN lhs in auto)
    then show "\<exists>u. pocr_epsilon p t = Some u \<and> keyed ?N ?K u \<and> cfl_adds t u (\<Union>i\<in>?K. {(i, p ! 0, i)})"
      unfolding keys pocr_epsilon_def .
  qed
  then obtain t where t: "each pocr_epsilon (epsilonProds g) s = Some t" "pocr_inv t"
    "cfl_adds s t (\<Union>p\<in>set (epsilonProds g). \<Union>i\<in>?K. {(i, p ! 0, i)})" unfolding keyed_def by blast
  have "(\<Union>p\<in>set (epsilonProds g). \<Union>i\<in>?K. {(i, p ! 0, i)}) = epsilon_facts g ?K"
    using epsilon_rules [OF assms(1)] by (auto simp: epsilon_facts_def)
  then show ?thesis using t assms(3) unfolding cfl_adds_def by (intro exI [of _ t]) auto
qed

lemma pocr_initialize_ok:
  assumes "cf_ok g" "graph_ok graph" "\<forall>n\<in>set (graphNodes graph). n < 2 ^ 32"
  shows "\<exists>t. pocr_initialize g (pocr_make graph) = Some t \<and> pocr_inv t
    \<and> cfl_facts t = graph_facts graph \<union> epsilon_facts g (fst ` graph_facts graph) \<and> cfl_todo t = cfl_facts t"
proof -
  define s where "s = fold (\<lambda>e st. snd (pushIntoWorklist e st)) (cflEdgeSet (cs_graph (pocr_make graph))) (pocr_make graph)"
  have "pocr_inv s" "cs_graph s = graph" "cfl_todo s = cfl_facts s" "fst ` set (succMap s) = fst ` cfl_facts s"
    by (rule start_ok [OF assms(2,3)]; simp add: s_def pocr_make_def)+
  then show ?thesis using epsilon_loop_ok [OF assms(1), of s] unfolding pocr_initialize_def s_def [symmetric] by (simp add: cfl_facts_def)
qed

section \<open>Correctness\<close>

lemma hasEdge_cell: "pocr_hasEdge i j X st = fst (sbv_test (dm_at sbv_new (succMap st) i X) j)"
  by (simp add: pocr_hasEdge_def dm_at_def at_get_def sbv_test_def sbv_new_def split: option.split)

lemma pocr_inv_hasEdge: "pocr_inv st \<Longrightarrow> pocr_hasEdge i j X st = ((i, X, j) \<in> cfl_facts st)"
  using cellsD [of "succMap st" _ i X] sbv_test_props(1) [of "dm_at sbv_new (succMap st) i X" j]
  by (auto simp: hasEdge_cell pocr_inv_def maps_are_def)

lemma pocr_solve_ok:
  assumes "cf_ok g" "graph_ok graph" "\<forall>n\<in>set (graphNodes graph). n < 2 ^ 32"
  shows "\<exists>st. pocr_solve g (pocr_make graph) = Some st \<and> pocr_inv st
    \<and> graph_facts (cs_graph st) = {(i, X, j). cfl_derives g (fst ` graph_facts graph) (graph_facts graph) i X j}"
proof -
  obtain s where s: "pocr_initialize g (pocr_make graph) = Some s" "pocr_inv s"
    "cfl_facts s = graph_facts graph \<union> epsilon_facts g (fst ` graph_facts graph)" "cfl_todo s = cfl_facts s"
    using pocr_initialize_ok [OF assms] by blast
  from pocr_sol.loop_least [of g s] assms(1) s(2,4) obtain t where t: "work_loop isWorklistEmpty (pocr_round g) s = Some t" "pocr_inv t"
    "cfl_facts t = {(i, X, j). cfl_derives g (fst ` graph_facts graph) (graph_facts graph) i X j}"
    unfolding s(3) derives_least pocr_round_eq by blast
  then show ?thesis using s(1) by (intro exI [of _ t]) (simp add: pocr_solve_def cfl_facts_def)
qed

text \<open>C21: The solver with bit vectors terminates, and is exact but for the empty productions: for a
  normalised grammar and a consistent graph with 32-bit nodes, the edges that it leaves are those that the
  grammar derives from the given ones when empty productions apply at the nodes with an outgoing edge in
  the given graph. \<open>hasEdge\<close> on its maps answers whether an edge is in the graph.\<close>

theorem pocr_solve_correct:
  assumes "cf_ok g" "graph_ok graph" "\<forall>n\<in>set (graphNodes graph). n < 2 ^ 32"
  shows "\<exists>st. pocr_solve g (pocr_make graph) = Some st \<and> graph_ok (cs_graph st)
    \<and> (\<forall>i X j. ((i, X, j) \<in> graph_facts (cs_graph st)
          \<longleftrightarrow> cfl_derives g (fst ` graph_facts graph) (graph_facts graph) i X j)
        \<and> (pocr_hasEdge i j X st \<longleftrightarrow> (i, X, j) \<in> graph_facts (cs_graph st)))"
proof -
  obtain st where st: "pocr_solve g (pocr_make graph) = Some st" "pocr_inv st"
      "graph_facts (cs_graph st) = {(i, X, j). cfl_derives g (fst ` graph_facts graph) (graph_facts graph) i X j}"
    using pocr_solve_ok [OF assms] by blast
  have "graph_ok (cs_graph st)" using st(2) by (simp add: pocr_inv_def cfl_inv_def)
  moreover have "pocr_hasEdge i j X st \<longleftrightarrow> (i, X, j) \<in> graph_facts (cs_graph st)" for i X j
    using pocr_inv_hasEdge [OF st(2)] by (simp add: cfl_facts_def)
  ultimately show ?thesis using st(1,3) by (intro exI [of _ st]) simp
qed

text \<open>Graphs with the same facts have the same edges.\<close>

lemma edges_of_facts:
  assumes "graph_ok a" "graph_ok b" "graph_facts a = graph_facts b"
  shows "cflEdgeSet a = cflEdgeSet b"
proof -
  have sub: "set (cflEdgeSet a) \<subseteq> set (cflEdgeSet b)" if "graph_ok a" "graph_ok b" "graph_facts a = graph_facts b" for a b
  proof
    fix e assume e: "e \<in> set (cflEdgeSet a)"
    then have "edge_fact e \<in> graph_facts b" using that(3) by (auto simp: graph_facts_def)
    then obtain e' where e': "e' \<in> set (cflEdgeSet b)" "edge_fact e' = edge_fact e" by (auto simp: graph_facts_def)
    have "e' = e" by (rule edge_fact_inj) (use that(1,2) e e' in \<open>auto simp: graph_ok_def\<close>)
    then show "e \<in> set (cflEdgeSet b)" using e'(1) by simp
  qed
  have "set (cflEdgeSet a) = set (cflEdgeSet b)" using sub [of a b] sub [of b a] assms by auto
  then show ?thesis using assms(1,2) strict_sorted_equal by (auto simp: graph_ok_def)
qed

lemma no_epsilon_nodes:
  assumes "\<And>A. \<not> epsilon_rule g A"
  shows "cfl_derives g N E i X j \<longleftrightarrow> cfl_derives g M E i X j"
proof -
  have "cfl_derives g M E i X j" if "cfl_derives g N E i X j" for N M i X j
    using that by induction (use assms in \<open>auto intro: cfl_derives.intros\<close>)
  then show ?thesis by blast
qed

text \<open>C16: The two solvers of CFL reachability agree: when the grammar has no empty production, or every node
  has an outgoing edge, they leave the same edges, in the same order.\<close>

theorem pocr_agrees:
  assumes "cf_ok g" "graph_ok graph" "\<forall>n\<in>set (graphNodes graph). n < 2 ^ 32"
    and "epsilonProds g = [] \<or> set (graphNodes graph) \<subseteq> fst ` graph_facts graph"
  shows "\<exists>s t. cfl_solve g (cfl_make graph) = Some s \<and> pocr_solve g (pocr_make graph) = Some t
    \<and> cflEdgeSet (cs_graph s) = cflEdgeSet (cs_graph t)"
proof -
  obtain s where s: "cfl_solve g (cfl_make graph) = Some s" "graph_ok (cs_graph s)"
      "graph_facts (cs_graph s) = {(i, X, j). cfl_derives g (set (graphNodes graph)) (graph_facts graph) i X j}"
    using cfl_solve_derives [OF assms(1,2)] by blast
  obtain t where t: "pocr_solve g (pocr_make graph) = Some t" "pocr_inv t"
      "graph_facts (cs_graph t) = {(i, X, j). cfl_derives g (fst ` graph_facts graph) (graph_facts graph) i X j}"
    using pocr_solve_ok [OF assms(1-3)] by blast
  have "fst ` graph_facts graph \<subseteq> set (graphNodes graph)" using graph_facts_bounded [OF assms(2)] by (auto simp: all_facts_def)
  have "cfl_derives g (set (graphNodes graph)) (graph_facts graph) = cfl_derives g (fst ` graph_facts graph) (graph_facts graph)"
  proof (cases "epsilonProds g = []")
    case True
    then have "\<not> epsilon_rule g A" for A by (simp add: epsilon_rule_def)
    then show ?thesis using no_epsilon_nodes by (intro ext) blast
  next
    case False
    then show ?thesis using assms(4) \<open>fst ` graph_facts graph \<subseteq> set (graphNodes graph)\<close> by (simp add: subset_antisym)
  qed
  then have "graph_facts (cs_graph s) = graph_facts (cs_graph t)" using s(3) t(3) by simp
  moreover have "graph_ok (cs_graph t)" using t(2) by (simp add: pocr_inv_def cfl_inv_def)
  ultimately show ?thesis using edges_of_facts s(1,2) t(1) by blast
qed

text \<open>The grammar \<open>S \<rightarrow> a B\<close>, \<open>B \<rightarrow> \<epsilon>\<close> over one edge \<open>a\<close>.\<close>

definition gram_empty :: cf_gram where
  "gram_empty = gram_ab\<lparr>epsilonProds := [[sym_k 3, sym_k 0]]\<rparr>"

lemma gram_empty_rules: "cf_ok gram_empty" "unit_rule gram_empty X Y \<longleftrightarrow> False" "epsilon_rule gram_empty X \<longleftrightarrow> X = sym_k 3"
    "binary_rule gram_empty X Y Z \<longleftrightarrow> X = sym_k 1 \<and> Y = sym_k 2 \<and> Z = sym_k 3"
  by (auto simp: gram_empty_def gram_ab_def gram_example_def cf_ok_def unit_rule_def epsilon_rule_def binary_rule_def prods_at_def)

lemma one_edge: "\<exists>graph. cfl_build 1 [(1, 2, 2)] = Some graph \<and> graph_ok graph \<and> set (graphNodes graph) = {1, 2}
    \<and> graph_facts graph = {(1, sym_k 2, 2)}"
proof -
  have "sym_of 2 = sym_k 2" by (simp add: sym_of_def)
  then show ?thesis using cfl_build_each [OF cfl_new_ok(1), of "[(1, 2, 2)]" 1] by (auto simp: cfl_build_def cfl_new_ok)
qed

lemma derives_start:
  assumes "cfl_derives g (fst ` E) E i X j"
  shows "i \<in> fst ` E"
  using assms by induction force+

lemma derives_mono_nodes:
  assumes "cfl_derives g N E i X j" "N \<subseteq> M"
  shows "cfl_derives g M E i X j"
  using assms by induction (auto intro: cfl_derives.intros)

text \<open>C23: What the solver with bit vectors misses, for every grammar and graph: it leaves no edge that
  \<open>CFLSolver\<close> does not leave, and leaves all of them exactly if the grammar has no empty production or
  every node has an outgoing edge. Otherwise, at each node without one, \<open>CFLSolver\<close> has a loop for
  every symbol with an empty production, and \<open>POCRSolver\<close> leaves no edge out of the node at all,
  because it applies empty productions at the keys of \<open>succMap\<close> only.\<close>

theorem pocr_misses_empty:
  assumes "cf_ok g" "graph_ok graph" "\<forall>n\<in>set (graphNodes graph). n < 2 ^ 32"
  shows "\<exists>s t. cfl_solve g (cfl_make graph) = Some s \<and> pocr_solve g (pocr_make graph) = Some t
    \<and> graph_facts (cs_graph t) \<subseteq> graph_facts (cs_graph s)
    \<and> (graph_facts (cs_graph t) = graph_facts (cs_graph s)
        \<longleftrightarrow> (\<forall>A. \<not> epsilon_rule g A) \<or> set (graphNodes graph) \<subseteq> fst ` graph_facts graph)
    \<and> (\<forall>v\<in>set (graphNodes graph) - fst ` graph_facts graph.
        (\<forall>A. epsilon_rule g A \<longrightarrow> (v, A, v) \<in> graph_facts (cs_graph s)) \<and> v \<notin> fst ` graph_facts (cs_graph t))"
proof -
  let ?N = "set (graphNodes graph)" and ?E = "graph_facts graph"
  obtain s where s: "cfl_solve g (cfl_make graph) = Some s"
      "graph_facts (cs_graph s) = {(i, X, j). cfl_derives g ?N ?E i X j}"
    using cfl_solve_derives [OF assms(1,2)] by blast
  obtain t where t: "pocr_solve g (pocr_make graph) = Some t"
      "graph_facts (cs_graph t) = {(i, X, j). cfl_derives g (fst ` ?E) ?E i X j}"
    using pocr_solve_ok [OF assms] by blast
  have E: "fst ` ?E \<subseteq> ?N" using graph_facts_bounded [OF assms(2)] by (auto simp: all_facts_def)
  have sub: "graph_facts (cs_graph t) \<subseteq> graph_facts (cs_graph s)"
    using derives_mono_nodes [OF _ E] unfolding s(2) t(2) by blast
  have loops: "(\<forall>A. epsilon_rule g A \<longrightarrow> (v, A, v) \<in> graph_facts (cs_graph s)) \<and> v \<notin> fst ` graph_facts (cs_graph t)"
    if "v \<in> ?N - fst ` ?E" for v
    using that derives_start [of g ?E] unfolding s(2) t(2) by (auto intro: cfl_derives.empty)
  have same: "graph_facts (cs_graph t) = graph_facts (cs_graph s)" if "(\<forall>A. \<not> epsilon_rule g A) \<or> ?N \<subseteq> fst ` ?E"
    using that
  proof
    assume "\<forall>A. \<not> epsilon_rule g A"
    then show ?thesis using no_epsilon_nodes [of g "fst ` ?E" ?E _ _ _ ?N] unfolding s(2) t(2) by blast
  next
    assume "?N \<subseteq> fst ` ?E"
    then show ?thesis using E unfolding s(2) t(2) by (simp add: subset_antisym)
  qed
  have diff: "graph_facts (cs_graph t) \<noteq> graph_facts (cs_graph s)" if "epsilon_rule g A" "v \<in> ?N - fst ` ?E" for A v
    using loops [OF that(2)] that(1) by force
  show ?thesis using s(1) t(1) sub loops same diff by (intro exI [of _ s] exI [of _ t] conjI) blast+
qed

text \<open>With \<open>S \<rightarrow> a B\<close> and \<open>B \<rightarrow> \<epsilon>\<close> over the edge \<open>a\<close> from 1 to 2, \<open>CFLSolver\<close> leaves the loop \<open>B\<close> at the
  node 2, and \<open>POCRSolver\<close> does not.\<close>

lemma pocr_misses_witness:
  "\<exists>graph s t. cfl_build 1 [(1, 2, 2)] = Some graph
    \<and> cfl_solve gram_empty (cfl_make graph) = Some s \<and> pocr_solve gram_empty (pocr_make graph) = Some t
    \<and> (2, sym_k 3, 2) \<in> graph_facts (cs_graph s) \<and> (2, sym_k 3, 2) \<notin> graph_facts (cs_graph t)"
proof -
  obtain graph where g: "cfl_build 1 [(1, 2, 2)] = Some graph" "graph_ok graph" "set (graphNodes graph) = {1, 2}"
    "graph_facts graph = {(1, sym_k 2, 2)}" using one_edge by blast
  have "\<forall>n\<in>set (graphNodes graph). n < 2 ^ 32" by (simp add: g(3))
  from pocr_misses_empty [OF gram_empty_rules(1) g(2) this]
  obtain s t where st: "cfl_solve gram_empty (cfl_make graph) = Some s" "pocr_solve gram_empty (pocr_make graph) = Some t"
    and v: "\<forall>v\<in>{1, 2} - fst ` {(1 :: nat, sym_k 2, 2 :: nat)}. (\<forall>A. epsilon_rule gram_empty A \<longrightarrow> (v, A, v) \<in> graph_facts (cs_graph s))
        \<and> v \<notin> fst ` graph_facts (cs_graph t)"
    unfolding g(3,4) by (elim exE conjE)
  have "2 \<in> {1, 2} - fst ` {(1 :: nat, sym_k 2, 2 :: nat)}" by simp
  note two = bspec [OF v this]
  have "(2, sym_k 3, 2) \<in> graph_facts (cs_graph s)" using two gram_empty_rules(3) by blast
  moreover have "(2, sym_k 3, 2) \<notin> graph_facts (cs_graph t)" using two by force
  ultimately show ?thesis using g(1) st by blast
qed

text \<open>Over the same edge, with the grammar without the empty production.\<close>

lemma pocr_solve_witness:
  "\<exists>graph st. cfl_build 1 [(1, 2, 2)] = Some graph \<and> pocr_solve gram_ab (pocr_make graph) = Some st
    \<and> pocr_hasEdge 1 2 (sym_k 2) st"
proof -
  obtain graph where g: "cfl_build 1 [(1, 2, 2)] = Some graph" "graph_ok graph" "set (graphNodes graph) = {1, 2}"
    "graph_facts graph = {(1, sym_k 2, 2)}" using one_edge by blast
  have "\<forall>n\<in>set (graphNodes graph). n < 2 ^ 32" by (simp add: g(3))
  then show ?thesis using pocr_solve_correct [OF gram_ab_ok(1) g(2)] g(1,4) cfl_derives.edge by blast
qed

lemma pocr_agrees_witness:
  "\<exists>graph s t. cfl_build 1 [(1, 2, 2)] = Some graph \<and> cfl_solve gram_ab (cfl_make graph) = Some s
    \<and> pocr_solve gram_ab (pocr_make graph) = Some t \<and> cflEdgeSet (cs_graph s) = cflEdgeSet (cs_graph t)"
proof -
  obtain graph where g: "cfl_build 1 [(1, 2, 2)] = Some graph" "graph_ok graph" "set (graphNodes graph) = {1, 2}"
    using one_edge by blast
  have "\<forall>n\<in>set (graphNodes graph). n < 2 ^ 32" "epsilonProds gram_ab = []" by (simp_all add: g(3) gram_ab_def gram_example_def)
  then show ?thesis using pocr_agrees [OF gram_ab_ok(1) g(2)] g(1) by blast
qed

end
