(* ===== verification/CflHybrid.thy ===== *)
theory CflHybrid
  imports CflPocr
begin

text \<open>
  The solver with trees of reachable nodes (\<open>POCRHybridSolver\<close> in \<open>svf/include/CFL/CFLSolver.h\<close> and
  \<open>svf/lib/CFL/CFLSolver.cpp\<close>), for grammars with a transitive nonterminal \<open>F\<close>.

  A pointer to a \<open>TreeNode\<close> is an index of the list of allocated nodes; \<open>indMap[v][u]\<close> is the node of \<open>v\<close> in the
  tree of \<open>u\<close>, or the null pointer. Writing through a null pointer is \<open>None\<close>. The node that \<open>addInd_h\<close>
  deletes is not allocated, and the loops over \<open>indMap[src]\<close> take the keys that are there at the start.
\<close>

section \<open>Trees\<close>

record tree_node =
  tree_id :: nat
  children :: "nat list"

record hybrid_state = pocr_state +
  treeNodes :: "tree_node list"
  indMap :: "(nat \<times> (nat \<times> nat option) list) list"

definition hasInd_h :: "nat \<Rightarrow> nat \<Rightarrow> 'a hybrid_state_scheme \<Rightarrow> bool" where
  "hasInd_h src dst st = (case map_of (indMap st) dst of None \<Rightarrow> False | Some m \<Rightarrow> map_of m src \<noteq> None)"

definition addInd_h :: "nat \<Rightarrow> nat \<Rightarrow> 'a hybrid_state_scheme \<Rightarrow> nat option \<times> 'a hybrid_state_scheme" where
  "addInd_h src dst st =
     (let m = at_get [] (indMap st) dst; p = length (treeNodes st) in
      case map_of m src of
        None \<Rightarrow> (Some p, st\<lparr>treeNodes := treeNodes st @ [\<lparr>tree_id = dst, children = []\<rparr>],
          indMap := at_put dst (at_put src (Some p) m) (indMap st)\<rparr>)
      | Some q \<Rightarrow> (None, st\<lparr>indMap := at_put dst m (indMap st)\<rparr>))"

definition getNode_h :: "nat \<Rightarrow> nat \<Rightarrow> 'a hybrid_state_scheme \<Rightarrow> nat option \<times> 'a hybrid_state_scheme" where
  "getNode_h src dst st =
     (let m = at_touch None src (at_get [] (indMap st) dst) in (at_get None m src, st\<lparr>indMap := at_put dst m (indMap st)\<rparr>))"

definition insertEdge_h :: "nat option \<Rightarrow> nat \<Rightarrow> 'a hybrid_state_scheme \<Rightarrow> 'a hybrid_state_scheme option" where
  "insertEdge_h u v st = Option.bind u (\<lambda>p. if p < length (treeNodes st)
     then Some (st\<lparr>treeNodes := (treeNodes st)[p := (treeNodes st ! p)\<lparr>children := List.insert v (children (treeNodes st ! p))\<rparr>]\<rparr>)
     else None)"

lemma each_mono [partial_function_mono]:
  "(\<And>c s. mono_option (\<lambda>f. B f c s)) \<Longrightarrow> mono_option (\<lambda>f. each (\<lambda>c s. B f c s) cs s)"
proof (induction cs arbitrary: s)
  case (Cons c cs)
  show ?case
    unfolding each.simps by (rule bind_mono) (rule Cons.prems, rule Cons.IH, rule Cons.prems)
qed (simp add: option.const_mono)

text \<open>\<open>v\<close> and its children are copied below \<open>u\<close> in the tree of \<open>x\<close>.\<close>

partial_function (option) meld_h :: "nat \<Rightarrow> nat option \<Rightarrow> nat \<Rightarrow> 'a hybrid_state_scheme \<Rightarrow> 'a hybrid_state_scheme option" where
  "meld_h x uNode vNode st =
     (if vNode < length (treeNodes st)
      then let r = addInd_h x (tree_id (treeNodes st ! vNode)) st in
        case fst r of None \<Rightarrow> Some (snd r)
        | Some newVNode \<Rightarrow> Option.bind (insertEdge_h uNode newVNode (snd r)) (\<lambda>st1.
            each (\<lambda>vChild st. meld_h x (Some newVNode) vChild st) (children (treeNodes st1 ! vNode)) st1)
      else None)"

definition meld :: "nat \<Rightarrow> nat option \<Rightarrow> nat \<Rightarrow> 'a hybrid_state_scheme \<Rightarrow> 'a hybrid_state_scheme option" where
  "meld x uNode vNode st = meld_h x uNode vNode (check st)"

text \<open>The loops over \<open>indMap[src]\<close>\<close>

definition meld_all :: "(nat \<Rightarrow> nat option \<Rightarrow> nat \<Rightarrow> 'a hybrid_state_scheme \<Rightarrow> 'a hybrid_state_scheme option) \<Rightarrow> nat \<Rightarrow> nat \<Rightarrow>
    'a hybrid_state_scheme \<Rightarrow> 'a hybrid_state_scheme option" where
  "meld_all m src dst st =
     each (\<lambda>x st. let u = getNode_h x src st; v = getNode_h dst dst (snd u) in Option.bind (fst v) (\<lambda>p. m x (fst u) p (snd v)))
       (map fst (at_get [] (indMap st) src)) (st\<lparr>indMap := at_touch [] src (indMap st)\<rparr>)"

definition addArc_h :: "nat \<Rightarrow> nat \<Rightarrow> 'a hybrid_state_scheme \<Rightarrow> 'a hybrid_state_scheme option" where
  "addArc_h src dst st = (if \<not> hasInd_h src dst st then meld_all meld_h src dst st else Some st)"

definition addArc :: "cf_gram \<Rightarrow> nat \<Rightarrow> nat \<Rightarrow> 'a hybrid_state_scheme \<Rightarrow> 'a hybrid_state_scheme option" where
  "addArc g src dst st = Option.bind (strToSymbol g ''F'') (\<lambda>F.
     if pocr_hasEdge src dst F st then Some st else meld_all meld src dst st)"

section \<open>The solver\<close>

text \<open>The test for the production \<open>F \<rightarrow> F F\<close>, with \<open>a\<close> the left-hand side, \<open>Y\<close> the symbol of the edge and
  \<open>b\<close> the other symbol on the right\<close>

definition is_trans :: "cf_gram \<Rightarrow> symbol \<Rightarrow> symbol \<Rightarrow> symbol \<Rightarrow> bool option" where
  "is_trans g a Y b = map_option (\<lambda>F. sym_eq a F \<and> sym_eq Y F \<and> sym_eq b F) (strToSymbol g ''F'')"

definition hybrid_first :: "cf_gram \<Rightarrow> symbol \<Rightarrow> nat \<Rightarrow> nat \<Rightarrow> production \<Rightarrow> 'a hybrid_state_scheme \<Rightarrow> 'a hybrid_state_scheme option" where
  "hybrid_first g Y i j p st = Option.bind (getLHSSymbol p) (\<lambda>X. Option.bind (getSecondRHSSymbol p) (\<lambda>Z.
     Option.bind (is_trans g X Y Z) (\<lambda>b. if b then addArc g i j st else pocr_first i j p st)))"

definition hybrid_second :: "cf_gram \<Rightarrow> symbol \<Rightarrow> nat \<Rightarrow> nat \<Rightarrow> production \<Rightarrow> 'a hybrid_state_scheme \<Rightarrow> 'a hybrid_state_scheme option" where
  "hybrid_second g Y i j p st = Option.bind (getLHSSymbol p) (\<lambda>X. Option.bind (getFirstRHSSymbol p) (\<lambda>Z.
     Option.bind (is_trans g X Y Z) (\<lambda>b. if b then addArc g i j st else pocr_second i j p st)))"

definition hybrid_processCFLEdge :: "cf_gram \<Rightarrow> cfl_edge \<Rightarrow> 'a hybrid_state_scheme \<Rightarrow> 'a hybrid_state_scheme option" where
  "hybrid_processCFLEdge g Y_edge st =
     (let i = edgeSrc Y_edge; j = edgeDst Y_edge; Y = edge_symbol Y_edge in
      Option.bind (if hasProdsFromSingleRHS g Y
        then Option.bind (getProdsFromSingleRHS g Y) (\<lambda>ps. each (pocr_single i j) ps st) else Some st) (\<lambda>st.
      Option.bind (if hasProdsFromFirstRHS g Y
        then Option.bind (getProdsFromFirstRHS g Y) (\<lambda>ps. each (hybrid_first g Y i j) ps st) else Some st) (\<lambda>st.
      if hasProdsFromSecondRHS g Y
      then Option.bind (getProdsFromSecondRHS g Y) (\<lambda>ps. each (hybrid_second g Y i j) ps st) else Some st)))"

definition hybrid_initialize :: "cf_gram \<Rightarrow> 'a hybrid_state_scheme \<Rightarrow> 'a hybrid_state_scheme option" where
  "hybrid_initialize g st = each pocr_epsilon (epsilonProds g)
     (fold (\<lambda>n st. snd (addInd_h n n st)) (graphNodes (cs_graph st))
       (fold (\<lambda>e st. snd (pushIntoWorklist e st)) (cflEdgeSet (cs_graph st)) st))"

definition hybrid_make :: "cfl_graph \<Rightarrow> hybrid_state" where
  "hybrid_make graph = buildCFLData \<lparr>cs_graph = graph, cs_work = wl_new, numOfChecks = 0, succMap = [], predMap = [],
     treeNodes = [], indMap = []\<rparr>"

definition hybrid_round :: "cf_gram \<Rightarrow> 'a hybrid_state_scheme \<Rightarrow> 'a hybrid_state_scheme option" where
  "hybrid_round g st = Option.bind (popFromWorklist st) (\<lambda>r. hybrid_processCFLEdge g (fst r) (snd r))"

definition hybrid_solve :: "cf_gram \<Rightarrow> 'a hybrid_state_scheme \<Rightarrow> 'a hybrid_state_scheme option" where
  "hybrid_solve g st = Option.bind (hybrid_initialize g st) (work_loop isWorklistEmpty (hybrid_round g))"

section \<open>The trees are never used\<close>

text \<open>The grammar without the production \<open>F \<rightarrow> F F\<close>\<close>

definition without_trans :: "symbol \<Rightarrow> cf_gram \<Rightarrow> cf_gram" where
  "without_trans F g = g\<lparr>firstRHSToProds := map (\<lambda>(s, ps). (s, filter (\<lambda>p. p \<noteq> [F, F, F]) ps)) (firstRHSToProds g),
     secondRHSToProds := map (\<lambda>(s, ps). (s, filter (\<lambda>p. p \<noteq> [F, F, F]) ps)) (secondRHSToProds g)\<rparr>"

lemma prods_at_filter: "set (prods_at (map (\<lambda>(s, ps). (s, filter P ps)) m) Y) = {p \<in> set (prods_at m Y). P p}"
  by (cases "map_of m Y") (auto simp: prods_at_def map_of_map)

lemma without_rules:
  "unit_rule (without_trans F g) X Y = unit_rule g X Y" "epsilon_rule (without_trans F g) X = epsilon_rule g X"
  "binary_rule (without_trans F g) X Y Z = (binary_rule g X Y Z \<and> [X, Y, Z] \<noteq> [F, F, F])"
  by (simp_all add: unit_rule_def epsilon_rule_def binary_rule_def prods_at_filter) (simp_all add: without_trans_def prods_at_filter)

lemma without_ok: "cf_ok g \<Longrightarrow> cf_ok (without_trans F g)"
  by (simp add: cf_ok_def without_trans_def prods_at_filter)

lemma without_prods:
  "hasProdsFromSingleRHS (without_trans F g) = hasProdsFromSingleRHS g" "getProdsFromSingleRHS (without_trans F g) = getProdsFromSingleRHS g"
  "hasProdsFromFirstRHS (without_trans F g) = hasProdsFromFirstRHS g" "hasProdsFromSecondRHS (without_trans F g) = hasProdsFromSecondRHS g"
  "getProdsFromFirstRHS (without_trans F g) Y = map_option (filter (\<lambda>p. p \<noteq> [F, F, F])) (getProdsFromFirstRHS g Y)"
  "getProdsFromSecondRHS (without_trans F g) Y = map_option (filter (\<lambda>p. p \<noteq> [F, F, F])) (getProdsFromSecondRHS g Y)"
  by (simp_all add: fun_eq_iff without_trans_def hasProdsFromSingleRHS_def getProdsFromSingleRHS_def hasProdsFromFirstRHS_def
    hasProdsFromSecondRHS_def getProdsFromFirstRHS_def getProdsFromSecondRHS_def map_of_map)

text \<open>Steps that leave the state alone are left out.\<close>

lemma each_filter:
  assumes "\<And>p s. p \<in> set ps \<Longrightarrow> I s \<Longrightarrow> f p s = (if P p then h p s else Some s)"
    and "\<And>p s t. p \<in> set ps \<Longrightarrow> P p \<Longrightarrow> I s \<Longrightarrow> h p s = Some t \<Longrightarrow> I t" "I s"
  shows "each f ps s = each h (filter P ps) s \<and> (\<forall>t. each f ps s = Some t \<longrightarrow> I t)"
  using assms
proof (induction ps arbitrary: s)
  case (Cons p ps)
  have ih: "each f ps t = each h (filter P ps) t \<and> (\<forall>u. each f ps t = Some u \<longrightarrow> I u)" if "I t" for t
  proof (rule Cons.IH [OF _ _ that])
    show "f q s = (if P q then h q s else Some s)" if "q \<in> set ps" "I s" for q s using that Cons.prems(1) [of q s] by simp
    show "I t" if "q \<in> set ps" "P q" "I s" "h q s = Some t" for q s t using that Cons.prems(2) [of q s t] by simp
  qed
  show ?case
  proof (cases "P p")
    case True
    then show ?thesis using Cons.prems(1) [of p s] Cons.prems(2) [of p s] Cons.prems(3) ih by (cases "h p s") auto
  next
    case False
    then show ?thesis using Cons.prems(1) [of p s] Cons.prems(3) ih by auto
  qed
qed simp

text \<open>An edge that is processed is in the maps, and so no arc is added for it.\<close>

lemma addArc_skips:
  assumes "pocr_inv st" "strToSymbol g ''F'' = Some F" "(i, F, j) \<in> cfl_facts st"
  shows "addArc g i j st = Some st"
  using pocr_inv_hasEdge [OF assms(1), of i j F] assms(2,3) by (simp add: addArc_def)

lemma hybrid_first_eq:
  assumes "strToSymbol g ''F'' = Some F" "pocr_inv st" "(i, Y, j) \<in> cfl_facts st"
  shows "hybrid_first g Y i j [X, Y, Z] st = (if [X, Y, Z] \<noteq> [F, F, F] then pocr_first i j [X, Y, Z] st else Some st)"
  using addArc_skips [OF assms(2,1), of i j] assms(1,3)
  by (auto simp: hybrid_first_def is_trans_def getLHSSymbol_def getSecondRHSSymbol_def prod_at_def sym_eq_iff)

lemma hybrid_second_eq:
  assumes "strToSymbol g ''F'' = Some F" "pocr_inv st" "(i, Y, j) \<in> cfl_facts st"
  shows "hybrid_second g Y i j [X, Z, Y] st = (if [X, Z, Y] \<noteq> [F, F, F] then pocr_second i j [X, Z, Y] st else Some st)"
  using addArc_skips [OF assms(2,1), of i j] assms(1,3)
  by (auto simp: hybrid_second_def is_trans_def getLHSSymbol_def getFirstRHSSymbol_def prod_at_def sym_eq_iff)

lemma hybrid_process_eq:
  fixes st :: "'a hybrid_state_scheme"
  assumes g: "cf_ok g" "strToSymbol g ''F'' = Some F" and st: "pocr_inv st" "edge_fact e \<in> cfl_facts st"
  shows "hybrid_processCFLEdge g e st = pocr_processCFLEdge (without_trans F g) e st"
proof -
  let ?i = "edgeSrc e" and ?j = "edgeDst e" and ?Y = "edge_symbol e" and ?P = "\<lambda>p. p \<noteq> [F, F, F]"
  define I where "I = (\<lambda>s :: 'a hybrid_state_scheme. pocr_inv s \<and> (?i, ?Y, ?j) \<in> cfl_facts s)"
  have st': "I st" using st by (simp add: I_def edge_fact_def)
  have keep: "I t" if "\<exists>t. r = Some t \<and> pocr.grow g s t low" "r = Some t" "I s" for r s t low
  proof -
    have "pocr.grow g s t low" using that(1,2) by auto
    then show ?thesis using that(3) pocr.growD(1,3) [of g s t low] by (auto simp: I_def)
  qed
  have one: "each (pocr_single ?i ?j) ps s = Some t \<Longrightarrow> I s \<Longrightarrow> I t" if "getProdsFromSingleRHS g ?Y = Some ps" for ps s t
  proof -
    assume a: "each (pocr_single ?i ?j) ps s = Some t" "I s"
    have ps: "\<exists>X. p = [X, ?Y] \<and> unit_rule g X ?Y" if "p \<in> set ps" for p
      using that prods_found \<open>getProdsFromSingleRHS g ?Y = Some ps\<close> prods_rules(1) [OF g(1)] by (fastforce simp: getProdsFromSingleRHS_def)
    have "each (pocr_single ?i ?j) ps s = each (pocr_single ?i ?j) (filter (\<lambda>_. True) ps) s
        \<and> (\<forall>t. each (pocr_single ?i ?j) ps s = Some t \<longrightarrow> I t)"
    proof (rule each_filter)
      fix p s t assume p: "p \<in> set ps" and s: "I s" "pocr_single ?i ?j p s = Some t"
      then obtain X where X: "p = [X, ?Y]" "unit_rule g X ?Y" using ps by blast
      have "pocr_inv s" "(?i, ?Y, ?j) \<in> cfl_facts s" using s(1) by (simp_all add: I_def)
      from keep [OF pocr_single_ok [OF this X(2)] s(2) [unfolded X(1)] s(1)] show "I t" .
    qed (use a(2) in simp_all)
    then show "I t" using a(1) by blast
  qed
  have two: "each (hybrid_first g ?Y ?i ?j) ps s = each (pocr_first ?i ?j) (filter ?P ps) s
      \<and> (\<forall>t. each (hybrid_first g ?Y ?i ?j) ps s = Some t \<longrightarrow> I t)" if "I s" "getProdsFromFirstRHS g ?Y = Some ps" for ps s
  proof (rule each_filter [where I = I])
    have ps: "\<exists>X Z. p = [X, ?Y, Z] \<and> binary_rule g X ?Y Z" if "p \<in> set ps" for p
      using that prods_found \<open>getProdsFromFirstRHS g ?Y = Some ps\<close> prods_rules(2) [OF g(1)] by (fastforce simp: getProdsFromFirstRHS_def)
    fix p s assume p: "p \<in> set ps" and s: "I s"
    then obtain X Z where p': "p = [X, ?Y, Z]" "binary_rule g X ?Y Z" using ps by blast
    have sI: "pocr_inv s" "(?i, ?Y, ?j) \<in> cfl_facts s" using s by (simp_all add: I_def)
    show "hybrid_first g ?Y ?i ?j p s = (if ?P p then pocr_first ?i ?j p s else Some s)"
      unfolding p'(1) by (rule hybrid_first_eq [OF g(2) sI])
    show "I t" if "pocr_first ?i ?j p s = Some t" for t
      by (rule keep [OF pocr_first_ok [OF sI p'(2)] that [unfolded p'(1)] s])
  qed (rule that(1))
  have three: "each (hybrid_second g ?Y ?i ?j) ps s = each (pocr_second ?i ?j) (filter ?P ps) s"
    if "I s" "getProdsFromSecondRHS g ?Y = Some ps" for ps s
  proof (rule conjunct1, rule each_filter [where I = I])
    have ps: "\<exists>X Z. p = [X, Z, ?Y] \<and> binary_rule g X Z ?Y" if "p \<in> set ps" for p
      using that prods_found \<open>getProdsFromSecondRHS g ?Y = Some ps\<close> prods_rules(3) [OF g(1)] by (fastforce simp: getProdsFromSecondRHS_def)
    fix p s assume p: "p \<in> set ps" and s: "I s"
    then obtain X Z where p': "p = [X, Z, ?Y]" "binary_rule g X Z ?Y" using ps by blast
    have sI: "pocr_inv s" "(?i, ?Y, ?j) \<in> cfl_facts s" using s by (simp_all add: I_def)
    show "hybrid_second g ?Y ?i ?j p s = (if ?P p then pocr_second ?i ?j p s else Some s)"
      unfolding p'(1) by (rule hybrid_second_eq [OF g(2) sI])
    show "I t" if "pocr_second ?i ?j p s = Some t" for t
      by (rule keep [OF pocr_second_ok [OF sI p'(2)] that [unfolded p'(1)] s])
  qed (rule that(1))
  define p1 where "p1 = (if hasProdsFromSingleRHS g ?Y then Option.bind (getProdsFromSingleRHS g ?Y) (\<lambda>ps. each (pocr_single ?i ?j) ps st) else Some st)"
  define p2 where "p2 = (\<lambda>st :: 'a hybrid_state_scheme. if hasProdsFromFirstRHS g ?Y then Option.bind (getProdsFromFirstRHS g ?Y) (\<lambda>ps. each (hybrid_first g ?Y ?i ?j) ps st) else Some st)"
  define q2 where "q2 = (\<lambda>st :: 'a hybrid_state_scheme. if hasProdsFromFirstRHS g ?Y
    then Option.bind (map_option (filter ?P) (getProdsFromFirstRHS g ?Y)) (\<lambda>ps. each (pocr_first ?i ?j) ps st) else Some st)"
  define p3 where "p3 = (\<lambda>st :: 'a hybrid_state_scheme. if hasProdsFromSecondRHS g ?Y
    then Option.bind (getProdsFromSecondRHS g ?Y) (\<lambda>ps. each (hybrid_second g ?Y ?i ?j) ps st) else Some st)"
  define q3 where "q3 = (\<lambda>st :: 'a hybrid_state_scheme. if hasProdsFromSecondRHS g ?Y
    then Option.bind (map_option (filter ?P) (getProdsFromSecondRHS g ?Y)) (\<lambda>ps. each (pocr_second ?i ?j) ps st) else Some st)"
  have i1: "I s" if "p1 = Some s" for s
    using that one [OF _ _ st'] st' by (auto simp: p1_def split: if_splits Option.bind_splits)
  have e2: "p2 s = q2 s" and i2: "\<And>t. p2 s = Some t \<Longrightarrow> I t" if "I s" for s
    using two [OF that] that by (auto simp: p2_def q2_def split: if_splits Option.bind_splits)
  have e3: "p3 s = q3 s" if "I s" for s
    using three [OF that] by (cases "getProdsFromSecondRHS g ?Y") (simp_all add: p3_def q3_def)
  have "Option.bind p1 (\<lambda>s. Option.bind (p2 s) p3) = Option.bind p1 (\<lambda>s. Option.bind (q2 s) q3)"
  proof (cases p1)
    case (Some s)
    then show ?thesis using e2 [OF i1] i2 [OF i1] e3 by (cases "q2 s") simp_all
  qed simp
  then show ?thesis
    unfolding hybrid_processCFLEdge_def pocr_processCFLEdge_def without_prods Let_def p1_def p2_def q2_def p3_def q3_def .
qed

text \<open>The loop is that of the solver with bit vectors for the smaller grammar.\<close>

lemma hybrid_round_eq:
  assumes "cf_ok g" "strToSymbol g ''F'' = Some F" "pocr_inv st" "cfl_todo st \<noteq> {}"
  shows "hybrid_round g st = pocr_round (without_trans F g) st"
proof -
  from pocr_pop [OF assms(3,4)] obtain e s0 where e: "popFromWorklist st = Some (e, s0)" "edge_fact e \<in> cfl_todo st" "pocr_inv s0"
    "cfl_facts s0 = cfl_facts st" by blast
  have "edge_fact e \<in> cfl_facts s0" using e(2,4) pocr.bounded [OF assms(3)] by auto
  then show ?thesis using hybrid_process_eq [OF assms(1,2) e(3)] e(1) by (simp add: hybrid_round_def pocr_round_def)
qed

lemma hybrid_loop:
  fixes st :: "'a hybrid_state_scheme"
  assumes "cf_ok g" "strToSymbol g ''F'' = Some F" "pocr_inv st" "cfl_todo st = cfl_facts st"
  shows "\<exists>t. work_loop isWorklistEmpty (hybrid_round g) st = Some t \<and> pocr_inv t
    \<and> cfl_facts t = \<Inter> {D. sat_closed (derive_one (without_trans F g)) (derive_two (without_trans F g)) D \<and> cfl_facts st \<subseteq> D}"
proof -
  let ?g = "without_trans F g"
  let ?inv = "\<lambda>st :: 'a hybrid_state_scheme. cf_ok ?g \<and> pocr_inv st"
  have "saturation (derive_one ?g) (derive_two ?g) ?inv cfl_facts cfl_todo cfl_space isWorklistEmpty (hybrid_round g)"
  proof (rule saturation.intro [OF pocr.sat_guard saturation_axioms.intro])
    fix s :: "'a hybrid_state_scheme" assume s: "?inv s"
    show "isWorklistEmpty s = (cfl_todo s = {})" using pocr_sol.stop_iff [OF s] .
    assume "cfl_todo s \<noteq> {}"
    then show "\<exists>y s0 t. hybrid_round g s = Some t \<and> y \<in> cfl_todo s \<and> cfl_space s0 = cfl_space s \<and> cfl_facts s0 = cfl_facts s
        \<and> cfl_todo s0 = cfl_todo s - {y} \<and> sat_state.grow (derive_one ?g) (derive_two ?g) ?inv cfl_facts cfl_todo cfl_space s0 t
          (derive_one ?g y \<union> (\<Union>z\<in>cfl_facts s. derive_two ?g y z \<union> derive_two ?g z y))"
      using pocr_sol.step_ok [OF s] hybrid_round_eq [OF assms(1,2), of s] s unfolding pocr_round_eq by simp
  qed
  from saturation.loop_least [OF this] show ?thesis using assms(3,4) without_ok [OF assms(1)] by blast
qed

lemma tree_start: "\<exists>a b. fold (\<lambda>n st. snd (addInd_h n n st)) ns st = st\<lparr>treeNodes := a, indMap := b\<rparr>"
proof (induction ns arbitrary: st)
  case Nil
  show ?case by (intro exI [of _ "treeNodes st"] exI [of _ "indMap st"]) simp
next
  case (Cons n ns)
  have "\<exists>a b. snd (addInd_h n n st) = st\<lparr>treeNodes := a, indMap := b\<rparr>"
  proof (cases "map_of (at_get [] (indMap st) n) n")
    case None
    then show ?thesis by (auto simp: addInd_h_def Let_def)
  next
    case (Some q)
    then show ?thesis
      by (intro exI [of _ "treeNodes st"] exI [of _ "at_put n (at_get [] (indMap st) n) (indMap st)"]) (simp add: addInd_h_def Let_def)
  qed
  then obtain a b where "snd (addInd_h n n st) = st\<lparr>treeNodes := a, indMap := b\<rparr>" by blast
  then show ?case using Cons.IH [of "st\<lparr>treeNodes := a, indMap := b\<rparr>"] by auto
qed

lemma tree_state [simp]: "pocr_inv (st\<lparr>treeNodes := a, indMap := b\<rparr>) = pocr_inv st"
    "cfl_facts (st\<lparr>treeNodes := a, indMap := b\<rparr>) = cfl_facts st" "cfl_todo (st\<lparr>treeNodes := a, indMap := b\<rparr>) = cfl_todo st"
  by (simp_all add: pocr_inv_def cfl_inv_def cfl_facts_def cfl_todo_def)

lemma hybrid_initialize_ok:
  assumes "cf_ok g" "graph_ok graph" "\<forall>n\<in>set (graphNodes graph). n < 2 ^ 32"
  shows "\<exists>t. hybrid_initialize g (hybrid_make graph) = Some t \<and> pocr_inv t
    \<and> cfl_facts t = graph_facts graph \<union> epsilon_facts g (fst ` graph_facts graph) \<and> cfl_todo t = cfl_facts t"
proof -
  define s where "s = fold (\<lambda>e st. snd (pushIntoWorklist e st)) (cflEdgeSet (cs_graph (hybrid_make graph))) (hybrid_make graph)"
  have s: "pocr_inv s" "cs_graph s = graph" "cfl_todo s = cfl_facts s" "fst ` set (succMap s) = fst ` cfl_facts s"
    by (rule start_ok [OF assms(2,3)]; simp add: s_def hybrid_make_def)+
  obtain a b where t: "fold (\<lambda>n st. snd (addInd_h n n st)) (graphNodes (cs_graph (hybrid_make graph))) s = s\<lparr>treeNodes := a, indMap := b\<rparr>"
    using tree_start by blast
  show ?thesis using epsilon_loop_ok [OF assms(1), of "s\<lparr>treeNodes := a, indMap := b\<rparr>"] s
    unfolding hybrid_initialize_def s_def [symmetric] t by (simp add: cfl_facts_def)
qed

lemma without_derives: "epsilon_facts (without_trans F g) N = epsilon_facts g N"
  by (simp add: epsilon_facts_def without_rules)

text \<open>C22: The hybrid solver loses the transitivity that it is made for: it terminates with the edges that the
  grammar derives without the production \<open>F \<rightarrow> F F\<close>, where empty productions apply only at the nodes with
  an outgoing edge in the given graph, as in \<open>POCRSolver\<close>. The production \<open>F \<rightarrow> F F\<close> is left to \<open>addArc\<close>,
  which returns at once if the edge is in \<open>succMap\<close>, and every edge that is processed is.\<close>

theorem hybrid_loses_transitivity:
  assumes "cf_ok g" "graph_ok graph" "\<forall>n\<in>set (graphNodes graph). n < 2 ^ 32" "strToSymbol g ''F'' = Some F"
  shows "\<exists>st. hybrid_solve g (hybrid_make graph) = Some st \<and> (\<forall>i X j. (i, X, j) \<in> graph_facts (cs_graph st)
    \<longleftrightarrow> cfl_derives (without_trans F g) (fst ` graph_facts graph) (graph_facts graph) i X j)"
proof -
  obtain s where s: "hybrid_initialize g (hybrid_make graph) = Some s" "pocr_inv s"
    "cfl_facts s = graph_facts graph \<union> epsilon_facts g (fst ` graph_facts graph)" "cfl_todo s = cfl_facts s"
    using hybrid_initialize_ok [OF assms(1-3)] by blast
  have f: "cfl_facts s = graph_facts graph \<union> epsilon_facts (without_trans F g) (fst ` graph_facts graph)"
    by (simp add: s(3) without_derives)
  from hybrid_loop [OF assms(1,4) s(2,4)] obtain t where t: "work_loop isWorklistEmpty (hybrid_round g) s = Some t"
    "cfl_facts t = {(i, X, j). cfl_derives (without_trans F g) (fst ` graph_facts graph) (graph_facts graph) i X j}"
    unfolding f derives_least by blast
  then show ?thesis using s(1) by (intro exI [of _ t]) (simp add: hybrid_solve_def cfl_facts_def)
qed

text \<open>The grammar \<open>F \<rightarrow> F F\<close> over a path of two edges \<open>F\<close>\<close>

definition gram_F :: cf_gram where
  "gram_F = gram_example\<lparr>nonterminals := [(''F'', 1)], firstRHSToProds := [(sym_k 1, [[sym_k 1, sym_k 1, sym_k 1]])],
     secondRHSToProds := [(sym_k 1, [[sym_k 1, sym_k 1, sym_k 1]])]\<rparr>"

lemma gram_F_ok: "cf_ok gram_F" "strToSymbol gram_F ''F'' = Some (sym_k 1)"
    "unit_rule (without_trans (sym_k 1) gram_F) X Y \<longleftrightarrow> False" "epsilon_rule (without_trans (sym_k 1) gram_F) X \<longleftrightarrow> False"
    "binary_rule (without_trans (sym_k 1) gram_F) X Y Z \<longleftrightarrow> False" "binary_rule gram_F (sym_k 1) (sym_k 1) (sym_k 1)"
  unfolding without_rules
  by (auto simp: gram_F_def gram_example_def cf_ok_def unit_rule_def epsilon_rule_def binary_rule_def prods_at_def) code_simp

lemma hybrid_loses_witness:
  "\<exists>graph s t. cfl_build 1 [(1, 2, 1), (2, 3, 1)] = Some graph
    \<and> hybrid_solve gram_F (hybrid_make graph) = Some s \<and> (1, sym_k 1, 3) \<notin> graph_facts (cs_graph s)
    \<and> pocr_solve gram_F (pocr_make graph) = Some t \<and> (1, sym_k 1, 3) \<in> graph_facts (cs_graph t)"
proof -
  let ?E = "{(1, sym_k 1, 2), (2, sym_k 1, 3)} :: cfl_fact set"
  have "sym_of 1 = sym_k 1" by (simp add: sym_of_def)
  then obtain graph where g: "cfl_build 1 [(1, 2, 1), (2, 3, 1)] = Some graph" "graph_ok graph" "set (graphNodes graph) = {1, 2, 3}"
    "graph_facts graph = ?E"
    using cfl_build_each [OF cfl_new_ok(1), of "[(1, 2, 1), (2, 3, 1)]" 1] by (auto simp: cfl_build_def cfl_new_ok)
  have n: "\<forall>n\<in>set (graphNodes graph). n < 2 ^ 32" by (simp add: g(3))
  have "cfl_derives (without_trans (sym_k 1) gram_F) N ?E i X j \<Longrightarrow> (i, X, j) \<in> ?E" for N i X j
    by (induction rule: cfl_derives.induct) (simp_all add: gram_F_ok)
  then have no: "\<not> cfl_derives (without_trans (sym_k 1) gram_F) N ?E 1 (sym_k 1) 3" for N by force
  have yes: "cfl_derives gram_F N ?E 1 (sym_k 1) 3" for N
    by (rule cfl_derives.binary [OF gram_F_ok(6), of _ _ _ 2]) (auto intro: cfl_derives.edge)
  show ?thesis using hybrid_loses_transitivity [OF gram_F_ok(1) g(2) n gram_F_ok(2)] pocr_solve_ok [OF gram_F_ok(1) g(2) n] no yes g(1)
    unfolding g(4) by blast
qed

end
