(* ===== verification/AeNumeric.thy ===== *)
theory AeNumeric
  imports BofRange
begin

text \<open>
  The bounds of the intervals of the abstract execution: class \<open>BoundedInt\<close> of
  \<open>svf/include/AE/Core/NumericValue.h\<close>, a 64-bit integer or one of the infinities \<open>(1, true)\<close> and
  \<open>(-1, true)\<close>.

  The value field is an \<open>int\<close> that stays within 64 bits (\<open>bi_ok\<close>). An operation that asserts, or whose
  machine arithmetic is undefined on some operands, has an outcome in \<open>ae\<close>: the error or the value.
  \<open>bi_rank\<close> orders the bounds with the integers, and the lemmas relate every operation to it.
  \<open>BoundedDouble\<close> of the same header is not modelled; no interval uses it.
\<close>

section \<open>Outcomes\<close>

datatype ae_error = AssertFailed | Undefined

type_synonym 'a ae = "ae_error + 'a"

definition ae_then :: "'a ae \<Rightarrow> ('a \<Rightarrow> 'b ae) \<Rightarrow> 'b ae" where
  "ae_then m f = (case m of Inl e \<Rightarrow> Inl e | Inr a \<Rightarrow> f a)"

definition ae_assert :: "bool \<Rightarrow> 'a ae \<Rightarrow> 'a ae" where
  "ae_assert b m = (if b then m else Inl AssertFailed)"

primrec ae_fold :: "('e \<Rightarrow> 'a \<Rightarrow> 'a ae) \<Rightarrow> 'e list \<Rightarrow> 'a \<Rightarrow> 'a ae" where
  "ae_fold f [] a = Inr a"
| "ae_fold f (e # es) a = ae_then (f e a) (ae_fold f es)"

primrec ae_iterate :: "('a \<Rightarrow> 'a ae) \<Rightarrow> nat \<Rightarrow> 'a \<Rightarrow> 'a ae" where
  "ae_iterate f 0 a = Inr a"
| "ae_iterate f (Suc n) a = ae_then (f a) (ae_iterate f n)"

text \<open>The result of an operation on \<open>s64_t\<close>; one out of range is undefined.\<close>

definition s64_op :: "int \<Rightarrow> int ae" where
  "s64_op x = (case chk x of None \<Rightarrow> Inl Undefined | Some y \<Rightarrow> Inr y)"

lemma ae_then_simps [simp]: "ae_then (Inl e) f = Inl e" "ae_then (Inr a) f = f a"
  by (simp_all add: ae_then_def)

lemma ae_then_cong [fundef_cong]:
  "m = m' \<Longrightarrow> (\<And>a. m' = Inr a \<Longrightarrow> f a = g a) \<Longrightarrow> ae_then m f = ae_then m' g"
  by (cases m') simp_all

lemma ae_then_eq_Inr [simp]: "ae_then m f = Inr b \<longleftrightarrow> (\<exists>a. m = Inr a \<and> f a = Inr b)"
  by (cases m) simp_all

lemma ae_then_eq_Inl: "ae_then m f = Inl e \<longleftrightarrow> m = Inl e \<or> (\<exists>a. m = Inr a \<and> f a = Inl e)"
  by (cases m) simp_all

lemma ae_assert_simps [simp]: "ae_assert True m = m" "ae_assert False m = Inl AssertFailed"
  by (simp_all add: ae_assert_def)

lemma ae_assert_eq_Inr [simp]: "ae_assert b m = Inr a \<longleftrightarrow> b \<and> m = Inr a"
  by (simp add: ae_assert_def)

lemma s64_op_eq_Inr [simp]: "s64_op x = Inr y \<longleftrightarrow> in64 x \<and> y = x"
  by (auto simp: s64_op_def split: option.split)

lemma s64_op_in64 [simp]: "in64 x \<Longrightarrow> s64_op x = Inr x"
  by simp

lemma s64_op_out: "\<not> in64 x \<Longrightarrow> s64_op x = Inl Undefined"
  by (auto simp: s64_op_def chk_def in64_def)

section \<open>BoundedInt\<close>

record bounded_int =
  iVal :: int
  isInf :: bool

definition bi_fin :: "int \<Rightarrow> bounded_int" where
  "bi_fin x = \<lparr>iVal = x, isInf = False\<rparr>"

definition plus_infinity :: bounded_int where
  "plus_infinity = \<lparr>iVal = 1, isInf = True\<rparr>"

definition minus_infinity :: bounded_int where
  "minus_infinity = \<lparr>iVal = - 1, isInf = True\<rparr>"

definition is_plus_infinity :: "bounded_int \<Rightarrow> bool" where
  "is_plus_infinity b = (isInf b \<and> iVal b = 1)"

definition is_minus_infinity :: "bounded_int \<Rightarrow> bool" where
  "is_minus_infinity b = (isInf b \<and> iVal b = - 1)"

definition is_infinity :: "bounded_int \<Rightarrow> bool" where
  "is_infinity b = (is_plus_infinity b \<or> is_minus_infinity b)"

definition bi_is_zero :: "bounded_int \<Rightarrow> bool" where
  "bi_is_zero b = (iVal b = 0)"

definition bi_equal :: "bounded_int \<Rightarrow> bounded_int \<Rightarrow> bool" where
  "bi_equal a b = (iVal a = iVal b \<and> isInf a = isInf b)"

definition bi_leq :: "bounded_int \<Rightarrow> bounded_int \<Rightarrow> bool" where
  "bi_leq a b =
    (if is_infinity a \<noteq> is_infinity b then
       (if is_infinity a then is_minus_infinity a else is_plus_infinity b)
     else if is_infinity a \<and> is_infinity b then
       (if is_minus_infinity a then True else is_plus_infinity b)
     else iVal a \<le> iVal b)"

definition bi_geq :: "bounded_int \<Rightarrow> bounded_int \<Rightarrow> bool" where
  "bi_geq a b =
    (if is_infinity a \<noteq> is_infinity b then
       (if is_infinity a then is_plus_infinity a else is_minus_infinity b)
     else if is_infinity a \<and> is_infinity b then
       (if is_plus_infinity a then True else is_minus_infinity b)
     else iVal a \<ge> iVal b)"

text \<open>The comparison operators convert their truth value to a number.\<close>

definition bi_bool :: "bool \<Rightarrow> bounded_int" where
  "bi_bool b = bi_fin (of_bool b)"

definition bi_eq_op :: "bounded_int \<Rightarrow> bounded_int \<Rightarrow> bounded_int" where
  "bi_eq_op a b = bi_bool (bi_equal a b)"

definition bi_ne_op :: "bounded_int \<Rightarrow> bounded_int \<Rightarrow> bounded_int" where
  "bi_ne_op a b = bi_bool (\<not> bi_equal a b)"

definition bi_gt_op :: "bounded_int \<Rightarrow> bounded_int \<Rightarrow> bounded_int" where
  "bi_gt_op a b = bi_bool (\<not> bi_leq a b)"

definition bi_lt_op :: "bounded_int \<Rightarrow> bounded_int \<Rightarrow> bounded_int" where
  "bi_lt_op a b = bi_bool (\<not> bi_geq a b)"

definition bi_le_op :: "bounded_int \<Rightarrow> bounded_int \<Rightarrow> bounded_int" where
  "bi_le_op a b = bi_bool (bi_leq a b)"

definition bi_ge_op :: "bounded_int \<Rightarrow> bounded_int \<Rightarrow> bounded_int" where
  "bi_ge_op a b = bi_bool (bi_geq a b)"

definition bi_is_true :: "bounded_int \<Rightarrow> bool" where
  "bi_is_true b = (iVal b \<noteq> 0)"

definition getNumeral :: "bounded_int \<Rightarrow> int" where
  "getNumeral b = (if is_minus_infinity b then rNINF else if is_plus_infinity b then rINF else iVal b)"

definition bi_to_string :: "bounded_int \<Rightarrow> string" where
  "bi_to_string b = (if is_minus_infinity b then ''-oo'' else if is_plus_infinity b then ''+oo''
     else to_string (iVal b))"

subsection \<open>Arithmetic\<close>

text \<open>The differences in the tests are taken behind sign tests that keep them in range.\<close>

definition bi_safeAdd :: "bounded_int \<Rightarrow> bounded_int \<Rightarrow> bounded_int ae" where
  "bi_safeAdd a b =
    ae_assert (\<not> (is_plus_infinity a \<and> is_minus_infinity b \<or> is_minus_infinity a \<and> is_plus_infinity b))
     (if is_plus_infinity a \<or> is_plus_infinity b then Inr plus_infinity
      else if is_minus_infinity a \<or> is_minus_infinity b then Inr minus_infinity
      else if iVal a > 0 \<and> iVal b > 0 \<and> rINF - iVal a < iVal b then Inr plus_infinity
      else if iVal a < 0 \<and> iVal b < 0 \<and> - rINF - iVal a > iVal b then Inr minus_infinity
      else ae_then (s64_op (iVal a + iVal b)) (\<lambda>x. Inr (bi_fin x)))"

definition bi_neg :: "bounded_int \<Rightarrow> bounded_int ae" where
  "bi_neg a = ae_then (s64_op (- iVal a)) (\<lambda>x. Inr \<lparr>iVal = x, isInf = isInf a\<rparr>)"

definition bi_sub :: "bounded_int \<Rightarrow> bounded_int \<Rightarrow> bounded_int ae" where
  "bi_sub a b = ae_then (bi_neg b) (bi_safeAdd a)"

definition bi_safeMul :: "bounded_int \<Rightarrow> bounded_int \<Rightarrow> bounded_int ae" where
  "bi_safeMul a b =
    (if iVal a = 0 \<or> iVal b = 0 then Inr (bi_fin 0)
     else if is_infinity a \<or> is_infinity b then
       ae_then (s64_op (iVal a * iVal b)) (\<lambda>p. Inr (if p > 0 then plus_infinity else minus_infinity))
     else if iVal a > 0 \<and> iVal b > 0 \<and> rINF sdiv iVal a < iVal b then Inr plus_infinity
     else if iVal a < 0 \<and> iVal b < 0 \<and> rINF sdiv iVal a > iVal b then Inr plus_infinity
     else if iVal a > 0 \<and> iVal b < 0 \<and> - rINF sdiv iVal a > iVal b
       \<or> iVal a < 0 \<and> iVal b > 0 \<and> - rINF sdiv iVal b > iVal a then Inr minus_infinity
     else ae_then (s64_op (iVal a * iVal b)) (\<lambda>x. Inr (bi_fin x)))"

definition bi_ite :: "bounded_int \<Rightarrow> bounded_int \<Rightarrow> bounded_int \<Rightarrow> bounded_int" where
  "bi_ite c a b = (if iVal c \<noteq> 0 then a else b)"

text \<open>In \<open>ite(cond, lhs, -lhs)\<close> both branches are evaluated.\<close>

definition bi_mod :: "bounded_int \<Rightarrow> bounded_int \<Rightarrow> bounded_int ae" where
  "bi_mod a b = ae_assert (\<not> bi_is_zero b)
    (if \<not> is_infinity a \<and> \<not> is_infinity b then
       (case crem (iVal a) (iVal b) of None \<Rightarrow> Inl Undefined | Some r \<Rightarrow> Inr (bi_fin r))
     else if \<not> is_infinity a then Inr (bi_fin 0)
     else if \<not> is_infinity b then ae_then (bi_neg a) (\<lambda>n. Inr (bi_ite (bi_bool (iVal b > 0)) a n))
     else Inr (if bi_equal a b then plus_infinity else minus_infinity))"

definition bi_div :: "bounded_int \<Rightarrow> bounded_int \<Rightarrow> bounded_int ae" where
  "bi_div a b = ae_assert (\<not> bi_is_zero b)
    (if \<not> is_infinity a \<and> \<not> is_infinity b then
       (case cdiv (iVal a) (iVal b) of None \<Rightarrow> Inl Undefined | Some q \<Rightarrow> Inr (bi_fin q))
     else if \<not> is_infinity a then Inr (bi_fin 0)
     else if \<not> is_infinity b then ae_then (bi_neg a) (\<lambda>n. Inr (bi_ite (bi_bool (iVal b \<ge> 0)) a n))
     else Inr (if bi_equal a b then plus_infinity else minus_infinity))"

definition bi_xor :: "bounded_int \<Rightarrow> bounded_int \<Rightarrow> bounded_int" where
  "bi_xor a b = bi_fin (iVal a XOR iVal b)"

definition bi_and :: "bounded_int \<Rightarrow> bounded_int \<Rightarrow> bounded_int" where
  "bi_and a b = bi_fin (iVal a AND iVal b)"

definition bi_or :: "bounded_int \<Rightarrow> bounded_int \<Rightarrow> bounded_int" where
  "bi_or a b = bi_fin (iVal a OR iVal b)"

definition bi_land :: "bounded_int \<Rightarrow> bounded_int \<Rightarrow> bounded_int" where
  "bi_land a b = bi_bool (iVal a \<noteq> 0 \<and> iVal b \<noteq> 0)"

definition bi_lor :: "bounded_int \<Rightarrow> bounded_int \<Rightarrow> bounded_int" where
  "bi_lor a b = bi_bool (iVal a \<noteq> 0 \<or> iVal b \<noteq> 0)"

definition bi_lnot :: "bounded_int \<Rightarrow> bounded_int" where
  "bi_lnot a = bi_bool (iVal a = 0)"

text \<open>Shifts by a negative number or by the width are undefined, and so is a left shift of a negative
  number or beyond 64 bits.\<close>

definition bi_shr :: "bounded_int \<Rightarrow> bounded_int \<Rightarrow> bounded_int ae" where
  "bi_shr a b = ae_assert (bi_geq b (bi_fin 0))
    (if bi_is_zero a then Inr a
     else if is_infinity a then Inr a
     else if is_infinity b then Inr (if bi_geq a (bi_fin 0) then bi_fin 0 else bi_fin (- 1))
     else if iVal b < 0 \<or> 64 \<le> iVal b then Inl Undefined
     else Inr (bi_fin (drop_bit (nat (iVal b)) (iVal a))))"

definition bi_shl :: "bounded_int \<Rightarrow> bounded_int \<Rightarrow> bounded_int ae" where
  "bi_shl a b = ae_assert (bi_geq b (bi_fin 0))
    (if bi_is_zero a then Inr a
     else if is_infinity a then Inr a
     else if is_infinity b then Inr (if bi_geq a (bi_fin 0) then plus_infinity else minus_infinity)
     else if iVal b < 0 \<or> 64 \<le> iVal b \<or> iVal a < 0 \<or> 2 ^ 64 \<le> push_bit (nat (iVal b)) (iVal a) then Inl Undefined
     else Inr (bi_fin (signed_take_bit 63 (push_bit (nat (iVal b)) (iVal a)))))"

definition bi_min :: "bounded_int \<Rightarrow> bounded_int \<Rightarrow> bounded_int" where
  "bi_min a b =
    (if is_minus_infinity a \<or> is_minus_infinity b then minus_infinity
     else if is_plus_infinity a then b
     else if is_plus_infinity b then a
     else bi_fin (min (iVal a) (iVal b)))"

definition bi_max :: "bounded_int \<Rightarrow> bounded_int \<Rightarrow> bounded_int" where
  "bi_max a b =
    (if is_plus_infinity a \<or> is_plus_infinity b then plus_infinity
     else if is_minus_infinity a then b
     else if is_minus_infinity b then a
     else bi_fin (max (iVal a) (iVal b)))"

primrec min_vec :: "bounded_int list \<Rightarrow> bounded_int \<Rightarrow> bounded_int" where
  "min_vec [] ret = ret"
| "min_vec (b # bs) ret =
    (if is_minus_infinity b then minus_infinity else min_vec bs (if \<not> bi_geq b ret then b else ret))"

primrec max_vec :: "bounded_int list \<Rightarrow> bounded_int \<Rightarrow> bounded_int" where
  "max_vec [] ret = ret"
| "max_vec (b # bs) ret =
    (if is_plus_infinity b then plus_infinity else max_vec bs (if \<not> bi_leq b ret then b else ret))"

definition bi_min_list :: "bounded_int list \<Rightarrow> bounded_int" where
  "bi_min_list bs = min_vec bs plus_infinity"

definition bi_max_list :: "bounded_int list \<Rightarrow> bounded_int" where
  "bi_max_list bs = max_vec bs minus_infinity"

definition bi_abs :: "bounded_int \<Rightarrow> bounded_int ae" where
  "bi_abs a = (if bi_leq a (bi_fin 0) then bi_neg a else Inr a)"

section \<open>The order of the bounds\<close>

definition bi_ok :: "bounded_int \<Rightarrow> bool" where
  "bi_ok b = (if isInf b then iVal b = 1 \<or> iVal b = - 1 else in64 (iVal b))"

definition rank_inf :: int where
  "rank_inf = 2 ^ 130"

definition bi_rank :: "bounded_int \<Rightarrow> int" where
  "bi_rank b = (if is_plus_infinity b then rank_inf else if is_minus_infinity b then - rank_inf else iVal b)"

lemmas bi_consts = bi_fin_def plus_infinity_def minus_infinity_def
lemmas bi_tests = is_plus_infinity_def is_minus_infinity_def is_infinity_def

lemma bi_sel [simp]:
  "iVal (bi_fin x) = x" "isInf (bi_fin x) = False" "iVal plus_infinity = 1" "isInf plus_infinity = True"
  "iVal minus_infinity = - 1" "isInf minus_infinity = True"
  by (simp_all add: bi_consts)

lemma bi_test_simps [simp]:
  "is_plus_infinity plus_infinity" "is_minus_infinity minus_infinity"
  "\<not> is_plus_infinity minus_infinity" "\<not> is_minus_infinity plus_infinity"
  "is_infinity plus_infinity" "is_infinity minus_infinity"
  "\<not> is_plus_infinity (bi_fin x)" "\<not> is_minus_infinity (bi_fin x)" "\<not> is_infinity (bi_fin x)"
  by (simp_all add: bi_tests)

lemma bi_ok_simps [simp]: "bi_ok plus_infinity" "bi_ok minus_infinity" "bi_ok (bi_fin x) \<longleftrightarrow> in64 x"
  by (simp_all add: bi_ok_def)

lemma bi_rank_simps [simp]:
  "bi_rank plus_infinity = rank_inf" "bi_rank minus_infinity = - rank_inf" "bi_rank (bi_fin x) = x"
  by (simp_all add: bi_rank_def)

lemma bi_cases [consumes 1, case_names plus minus fin]:
  assumes "bi_ok b"
  obtains "b = plus_infinity" | "b = minus_infinity" | x where "b = bi_fin x" "in64 x"
  using assms by (cases b) (auto simp: bi_ok_def bi_consts split: if_splits)

lemma bi_fin_inject [simp]: "bi_fin x = bi_fin y \<longleftrightarrow> x = y"
  by (simp add: bi_fin_def)

lemma bi_distinct [simp]:
  "plus_infinity \<noteq> minus_infinity" "minus_infinity \<noteq> plus_infinity" "bi_fin x \<noteq> plus_infinity"
  "bi_fin x \<noteq> minus_infinity" "plus_infinity \<noteq> bi_fin x" "minus_infinity \<noteq> bi_fin x"
  by (simp_all add: bi_consts)

lemma in64_rank: "in64 x \<Longrightarrow> - rank_inf < x \<and> x < rank_inf"
  by (simp add: in64_def bounds_defs rank_inf_def)

lemma rank_inf_pos [simp]: "0 < rank_inf" "0 \<le> rank_inf" "rank_inf \<noteq> 0" "\<not> rank_inf \<le> 0" "\<not> rank_inf < 0"
  by (simp_all add: rank_inf_def)

lemma bi_leq_rank: "bi_ok a \<Longrightarrow> bi_ok b \<Longrightarrow> bi_leq a b \<longleftrightarrow> bi_rank a \<le> bi_rank b"
  by (elim bi_cases) (auto simp: bi_leq_def dest: in64_rank)

lemma bi_geq_rank: "bi_ok a \<Longrightarrow> bi_ok b \<Longrightarrow> bi_geq a b \<longleftrightarrow> bi_rank b \<le> bi_rank a"
  by (elim bi_cases) (auto simp: bi_geq_def dest: in64_rank)

lemma bi_rank_inject: "bi_ok a \<Longrightarrow> bi_ok b \<Longrightarrow> bi_rank a = bi_rank b \<longleftrightarrow> a = b"
  by (elim bi_cases) (auto dest: in64_rank)

lemma bi_equal_iff [simp]: "bi_equal a b \<longleftrightarrow> a = b"
  by (cases a; cases b) (simp add: bi_equal_def)

lemma bi_rank_bounds: "bi_ok a \<Longrightarrow> - rank_inf \<le> bi_rank a \<and> bi_rank a \<le> rank_inf"
  by (elim bi_cases) (auto dest: in64_rank)

lemma bi_min_ok [simp]: "bi_ok a \<Longrightarrow> bi_ok b \<Longrightarrow> bi_ok (bi_min a b)"
  by (elim bi_cases) (auto simp: bi_min_def min_def)

lemma bi_max_ok [simp]: "bi_ok a \<Longrightarrow> bi_ok b \<Longrightarrow> bi_ok (bi_max a b)"
  by (elim bi_cases) (auto simp: bi_max_def max_def)

lemma bi_min_rank [simp]: "bi_ok a \<Longrightarrow> bi_ok b \<Longrightarrow> bi_rank (bi_min a b) = min (bi_rank a) (bi_rank b)"
  by (elim bi_cases) (auto simp: bi_min_def min_def dest: in64_rank)

lemma bi_max_rank [simp]: "bi_ok a \<Longrightarrow> bi_ok b \<Longrightarrow> bi_rank (bi_max a b) = max (bi_rank a) (bi_rank b)"
  by (elim bi_cases) (auto simp: bi_max_def max_def dest: in64_rank)

lemma min_vec_rank:
  "\<forall>b\<in>set bs. bi_ok b \<Longrightarrow> bi_ok r \<Longrightarrow>
    bi_ok (min_vec bs r) \<and> bi_rank (min_vec bs r) = fold (\<lambda>b. min (bi_rank b)) bs (bi_rank r)"
proof (induction bs arbitrary: r)
  case (Cons b bs)
  have least: "(\<forall>b\<in>set bs. bi_ok b) \<Longrightarrow> fold (\<lambda>b. min (bi_rank b)) bs (- rank_inf) = - rank_inf" for bs
    by (induction bs) (auto simp: min_def dest: bi_rank_bounds)
  show ?case
  proof (cases "is_minus_infinity b")
    case True
    then have "bi_rank b = - rank_inf" by (auto simp: bi_rank_def bi_tests)
    then have "min (bi_rank b) (bi_rank r) = - rank_inf"
      using bi_rank_bounds [OF Cons.prems(2)] by (simp add: min_def)
    then show ?thesis using True Cons.prems(1) least [of bs] by simp
  next
    case False
    then show ?thesis using Cons by (auto simp: bi_geq_rank min_def)
  qed
qed simp

lemma max_vec_rank:
  "\<forall>b\<in>set bs. bi_ok b \<Longrightarrow> bi_ok r \<Longrightarrow>
    bi_ok (max_vec bs r) \<and> bi_rank (max_vec bs r) = fold (\<lambda>b. max (bi_rank b)) bs (bi_rank r)"
proof (induction bs arbitrary: r)
  case (Cons b bs)
  have greatest: "(\<forall>b\<in>set bs. bi_ok b) \<Longrightarrow> fold (\<lambda>b. max (bi_rank b)) bs (rank_inf) = rank_inf" for bs
    by (induction bs) (auto simp: max_def dest: bi_rank_bounds)
  show ?case
  proof (cases "is_plus_infinity b")
    case True
    then have "bi_rank b = rank_inf" by (auto simp: bi_rank_def bi_tests)
    then have "max (bi_rank b) (bi_rank r) = rank_inf"
      using bi_rank_bounds [OF Cons.prems(2)] by (simp add: max_def)
    then show ?thesis using True Cons.prems(1) greatest [of bs] by simp
  next
    case False
    then show ?thesis using Cons by (auto simp: bi_leq_rank max_def)
  qed
qed simp

end
