(* ===== verification/AeInterval.thy ===== *)
theory AeInterval
  imports AeNumeric
begin

text \<open>
  The interval domain of the abstract execution: class \<open>IntervalValue\<close> of
  \<open>svf/include/AE/Core/IntervalValue.h\<close> over the bounds of theory AeNumeric.

  The empty interval is the pair of the wrong infinities. The constructors and \<open>setValue\<close> assert, so
  that arithmetic returns an outcome. Division and the right shift call themselves on the parts of an
  operand that leave \<open>0\<close> out; their termination proofs count the operands that contain \<open>0\<close>. \<open>int\<close>
  arithmetic on 32 bits in the shifts and in \<open>next_power_of_2\<close> is written out. The properties are
  in AeIntervalSound and the theories after it.
\<close>

section \<open>The data\<close>

record interval =
  lb_of :: bounded_int
  ub_of :: bounded_int

definition iv_isTop :: "interval \<Rightarrow> bool" where
  "iv_isTop i = (is_minus_infinity (lb_of i) \<and> is_plus_infinity (ub_of i))"

definition iv_isBottom :: "interval \<Rightarrow> bool" where
  "iv_isBottom i = (is_plus_infinity (lb_of i) \<and> is_minus_infinity (ub_of i))"

text \<open>The members without the check of the constructor.\<close>

definition iv_raw :: "bounded_int \<Rightarrow> bounded_int \<Rightarrow> interval" where
  "iv_raw l u = \<lparr>lb_of = l, ub_of = u\<rparr>"

definition iv_top :: interval where
  "iv_top = iv_raw minus_infinity plus_infinity"

definition iv_bottom :: interval where
  "iv_bottom = iv_raw plus_infinity minus_infinity"

definition iv_make :: "bounded_int \<Rightarrow> bounded_int \<Rightarrow> interval ae" where
  "iv_make l u = ae_assert (iv_isBottom (iv_raw l u) \<or> bi_leq l u) (Inr (iv_raw l u))"

text \<open>Constructors from numbers: one number, and two with the check.\<close>

definition iv_of :: "int \<Rightarrow> interval" where
  "iv_of n = iv_raw (bi_fin n) (bi_fin n)"

definition iv_make_int :: "int \<Rightarrow> int \<Rightarrow> interval ae" where
  "iv_make_int l u = iv_make (bi_fin l) (bi_fin u)"

definition iv_lb :: "interval \<Rightarrow> bounded_int ae" where
  "iv_lb i = ae_assert (\<not> iv_isBottom i) (Inr (lb_of i))"

definition iv_ub :: "interval \<Rightarrow> bounded_int ae" where
  "iv_ub i = ae_assert (\<not> iv_isBottom i) (Inr (ub_of i))"

definition iv_is_zero :: "interval \<Rightarrow> bool" where
  "iv_is_zero i = (bi_is_zero (lb_of i) \<and> bi_is_zero (ub_of i))"

definition iv_is_infinite :: "interval \<Rightarrow> bool" where
  "iv_is_infinite i = (is_infinity (lb_of i) \<or> is_infinity (ub_of i))"

definition iv_is_numeral :: "interval \<Rightarrow> bool" where
  "iv_is_numeral i = bi_equal (lb_of i) (ub_of i)"

definition iv_getIntNumeral :: "interval \<Rightarrow> int ae" where
  "iv_getIntNumeral i = ae_assert (iv_is_numeral i) (Inr (getNumeral (lb_of i)))"

definition iv_containedWithin :: "interval \<Rightarrow> interval \<Rightarrow> bool" where
  "iv_containedWithin a b =
    (if iv_isBottom a then True else if iv_isBottom b then False
     else bi_leq (lb_of b) (lb_of a) \<and> bi_leq (ub_of a) (ub_of b))"

definition iv_contain :: "interval \<Rightarrow> interval \<Rightarrow> bool" where
  "iv_contain a b =
    (if iv_isBottom a then True else if iv_isBottom b then False
     else bi_geq (lb_of b) (lb_of a) \<and> bi_geq (ub_of a) (ub_of b))"

definition iv_leq :: "interval \<Rightarrow> interval \<Rightarrow> bool" where
  "iv_leq a b =
    (if iv_isBottom a then True else if iv_isBottom b then False else bi_leq (ub_of a) (lb_of b))"

definition iv_geq :: "interval \<Rightarrow> interval \<Rightarrow> bool" where
  "iv_geq a b =
    (if iv_isBottom a then True else if iv_isBottom b then False else bi_geq (lb_of a) (ub_of b))"

text \<open>No bound is real, so \<open>equals\<close> compares the bounds.\<close>

definition iv_equals :: "interval \<Rightarrow> interval \<Rightarrow> bool" where
  "iv_equals a b =
    (if iv_isBottom a then iv_isBottom b else if iv_isBottom b then False
     else bi_equal (lb_of a) (lb_of b) \<and> bi_equal (ub_of a) (ub_of b))"

definition iv_contains :: "interval \<Rightarrow> int \<Rightarrow> bool" where
  "iv_contains i n = (bi_leq (lb_of i) (bi_fin n) \<and> bi_geq (ub_of i) (bi_fin n))"

definition iv_toString :: "interval \<Rightarrow> string" where
  "iv_toString i =
    (if iv_isBottom i then map char_of [226, 138, 165 :: nat]
     else ''['' @ bi_to_string (lb_of i) @ '', '' @ bi_to_string (ub_of i) @ '']'')"

section \<open>The lattice\<close>

text \<open>\<open>setValue\<close> asserts that the old bounds are in order.\<close>

definition iv_setValue :: "interval \<Rightarrow> bounded_int \<Rightarrow> bounded_int \<Rightarrow> interval ae" where
  "iv_setValue i l u = ae_assert (iv_isBottom i \<or> bi_leq (lb_of i) (ub_of i)) (Inr (iv_raw l u))"

definition iv_create :: "bounded_int \<Rightarrow> bounded_int \<Rightarrow> interval ae" where
  "iv_create l u = (if \<not> bi_leq l u then Inr iv_bottom else iv_make l u)"

definition iv_join :: "interval \<Rightarrow> interval \<Rightarrow> interval ae" where
  "iv_join a b =
    (if iv_isBottom a then
       (if iv_isBottom b then Inr a
        else ae_then (iv_lb b) (\<lambda>l. ae_then (iv_ub b) (\<lambda>u. iv_setValue a l u)))
     else if iv_isBottom b then Inr a
     else ae_then (iv_lb a) (\<lambda>al. ae_then (iv_lb b) (\<lambda>bl. ae_then (iv_ub a) (\<lambda>au. ae_then (iv_ub b) (\<lambda>bu.
       iv_setValue a (bi_min al bl) (bi_max au bu))))))"

definition iv_widen :: "interval \<Rightarrow> interval \<Rightarrow> interval ae" where
  "iv_widen a b =
    (if iv_isBottom a then Inr (iv_raw (lb_of b) (ub_of b))
     else if iv_isBottom b then Inr a
     else ae_then (iv_lb a) (\<lambda>al. ae_then (iv_lb b) (\<lambda>bl. ae_then (iv_ub a) (\<lambda>au. ae_then (iv_ub b) (\<lambda>bu.
       iv_setValue a (if \<not> bi_leq al bl then minus_infinity else al)
         (if \<not> bi_geq au bu then plus_infinity else au))))))"

definition iv_narrow :: "interval \<Rightarrow> interval \<Rightarrow> interval ae" where
  "iv_narrow a b =
    (if iv_isBottom a \<or> iv_isBottom b then Inr iv_bottom
     else ae_then (iv_lb a) (\<lambda>al. ae_then (iv_ub a) (\<lambda>au.
       iv_setValue a (if is_infinity al then lb_of b else lb_of a)
         (if is_infinity au then ub_of b else ub_of a))))"

definition iv_meet :: "interval \<Rightarrow> interval \<Rightarrow> interval ae" where
  "iv_meet a b =
    (if iv_isBottom a \<or> iv_isBottom b then Inr iv_bottom
     else ae_then (iv_lb b) (\<lambda>bl. ae_then (iv_ub b) (\<lambda>bu.
       if \<not> bi_leq (bi_max (lb_of a) bl) (bi_min (ub_of a) bu) then Inr iv_bottom
       else iv_setValue a (bi_max (lb_of a) bl) (bi_min (ub_of a) bu))))"

section \<open>Arithmetic\<close>

definition iv_add :: "interval \<Rightarrow> interval \<Rightarrow> interval ae" where
  "iv_add a b =
    (if iv_isBottom a \<or> iv_isBottom b then Inr iv_bottom
     else if iv_isTop a \<or> iv_isTop b then Inr iv_top
     else ae_then (bi_safeAdd (lb_of a) (lb_of b)) (\<lambda>l. ae_then (bi_safeAdd (ub_of a) (ub_of b)) (iv_make l)))"

definition iv_sub :: "interval \<Rightarrow> interval \<Rightarrow> interval ae" where
  "iv_sub a b =
    (if iv_isBottom a \<or> iv_isBottom b then Inr iv_bottom
     else if iv_isTop a \<or> iv_isTop b then Inr iv_top
     else ae_then (bi_sub (lb_of a) (ub_of b)) (\<lambda>l. ae_then (bi_sub (ub_of a) (lb_of b)) (iv_make l)))"

text \<open>The four corners of an operation, and the interval of their least and greatest.\<close>

definition iv_corners :: "(bounded_int \<Rightarrow> bounded_int \<Rightarrow> bounded_int ae) \<Rightarrow> interval \<Rightarrow> interval \<Rightarrow> interval ae" where
  "iv_corners f a b =
    ae_then (f (lb_of a) (lb_of b)) (\<lambda>ll. ae_then (f (lb_of a) (ub_of b)) (\<lambda>lu.
    ae_then (f (ub_of a) (lb_of b)) (\<lambda>ul. ae_then (f (ub_of a) (ub_of b)) (\<lambda>uu.
      iv_make (bi_min_list [ll, lu, ul, uu]) (bi_max_list [ll, lu, ul, uu])))))"

definition iv_mul :: "interval \<Rightarrow> interval \<Rightarrow> interval ae" where
  "iv_mul a b = (if iv_isBottom a \<or> iv_isBottom b then Inr iv_bottom else iv_corners bi_safeMul a b)"

text \<open>The part of an interval below \<open>0\<close> and the part above.\<close>

definition iv_neg_part :: "interval \<Rightarrow> interval ae" where
  "iv_neg_part i = ae_then (iv_lb i) (\<lambda>l. iv_create l (bi_fin (- 1)))"

definition iv_pos_part :: "interval \<Rightarrow> interval ae" where
  "iv_pos_part i = ae_then (iv_ub i) (\<lambda>u. iv_create (bi_fin 1) u)"

lemma iv_part_no_zero:
  "iv_neg_part i = Inr j \<Longrightarrow> \<not> iv_contains j 0"
  "iv_pos_part i = Inr j \<Longrightarrow> \<not> iv_contains j 0"
  by (auto simp: iv_neg_part_def iv_pos_part_def iv_create_def iv_make_def iv_contains_def iv_raw_def
      iv_bottom_def bi_leq_def bi_geq_def split: if_splits)

function iv_div :: "interval \<Rightarrow> interval \<Rightarrow> interval ae" where
  "iv_div a b =
    (if iv_isBottom a \<or> iv_isBottom b then Inr iv_bottom
     else if iv_contains b 0 then
       ae_then (iv_neg_part b) (\<lambda>l. ae_then (iv_pos_part b) (\<lambda>u.
       ae_then (iv_div a l) (\<lambda>l_res. ae_then (iv_div a u) (iv_join l_res))))
     else if iv_contains a 0 then
       ae_then (iv_neg_part a) (\<lambda>l. ae_then (iv_pos_part a) (\<lambda>u.
       ae_then (iv_div l b) (\<lambda>l_res. ae_then (iv_div u b) (\<lambda>r_res.
       ae_then (iv_join l_res r_res) (\<lambda>j. iv_join j (iv_of 0))))))
     else iv_corners bi_div a b)"
  by auto
termination
  by (relation "measure (\<lambda>(a, b). of_bool (iv_contains a 0) + of_bool (iv_contains b 0))")
    (auto dest: iv_part_no_zero)

declare iv_div.simps [simp del]

definition iv_mod :: "interval \<Rightarrow> interval \<Rightarrow> interval ae" where
  "iv_mod a b =
    (if iv_isBottom a \<or> iv_isBottom b then Inr iv_bottom
     else if iv_contains b 0 then (if iv_is_zero a then iv_make_int 0 0 else Inr iv_top)
     else if iv_is_numeral a \<and> iv_is_numeral b then
       ae_then (bi_mod (lb_of a) (lb_of b)) (\<lambda>l. ae_then (bi_mod (lb_of a) (lb_of b)) (iv_make l))
     else
       ae_then (bi_abs (lb_of a)) (\<lambda>al. ae_then (bi_abs (ub_of a)) (\<lambda>au.
       ae_then (bi_abs (lb_of b)) (\<lambda>bl. ae_then (bi_sub (bi_max bl (ub_of b)) (bi_fin 1)) (\<lambda>d_ub.
       let n_ub = bi_max al au; ub = bi_min n_ub d_ub in
       if getNumeral (lb_of a) < 0 then
         (if getNumeral (ub_of a) > 0 then ae_then (bi_neg ub) (\<lambda>l. iv_make l ub)
          else ae_then (bi_neg ub) (\<lambda>l. iv_make l (bi_fin 0)))
       else iv_make (bi_fin 0) ub)))))"

section \<open>Comparisons\<close>

text \<open>The comparisons of intervals give intervals of truth values.\<close>

definition iv_compare :: "(interval \<Rightarrow> interval \<Rightarrow> interval ae) \<Rightarrow> interval \<Rightarrow> interval \<Rightarrow> interval ae" where
  "iv_compare f a b =
    (if iv_isBottom a \<or> iv_isBottom b then Inr iv_bottom
     else if iv_isTop a \<or> iv_isTop b then Inr iv_top else f a b)"

definition iv_eq_op :: "interval \<Rightarrow> interval \<Rightarrow> interval ae" where
  "iv_eq_op = iv_compare (\<lambda>a b.
    if iv_is_numeral a \<and> iv_is_numeral b then
      (if bi_equal (lb_of a) (lb_of b) then iv_make_int 1 1 else iv_make_int 0 0)
    else ae_then (iv_meet a b) (\<lambda>v. if iv_isBottom v then iv_make_int 0 0 else iv_make_int 0 1))"

definition iv_ne_op :: "interval \<Rightarrow> interval \<Rightarrow> interval ae" where
  "iv_ne_op = iv_compare (\<lambda>a b.
    if iv_is_numeral a \<and> iv_is_numeral b then
      (if bi_equal (lb_of a) (lb_of b) then iv_make_int 0 0 else iv_make_int 1 1)
    else ae_then (iv_meet a b) (\<lambda>v. if \<not> iv_isBottom v then iv_make_int 0 1 else iv_make_int 1 1))"

definition iv_gt_op :: "interval \<Rightarrow> interval \<Rightarrow> interval ae" where
  "iv_gt_op = iv_compare (\<lambda>a b.
    if iv_is_numeral a \<and> iv_is_numeral b then
      (if bi_leq (lb_of a) (lb_of b) then iv_make_int 0 0 else iv_make_int 1 1)
    else if \<not> bi_leq (lb_of a) (ub_of b) then iv_make_int 1 1
    else if bi_leq (ub_of a) (lb_of b) then iv_make_int 0 0
    else iv_make_int 0 1)"

definition iv_lt_op :: "interval \<Rightarrow> interval \<Rightarrow> interval ae" where
  "iv_lt_op = iv_compare (\<lambda>a b.
    if iv_is_numeral a \<and> iv_is_numeral b then
      (if bi_geq (lb_of a) (lb_of b) then iv_make_int 0 0 else iv_make_int 1 1)
    else if \<not> bi_geq (ub_of a) (lb_of b) then iv_make_int 1 1
    else if bi_geq (lb_of a) (ub_of b) then iv_make_int 0 0
    else iv_make_int 0 1)"

definition iv_ge_op :: "interval \<Rightarrow> interval \<Rightarrow> interval ae" where
  "iv_ge_op = iv_compare (\<lambda>a b.
    if iv_is_numeral a \<and> iv_is_numeral b then
      (if bi_geq (lb_of a) (lb_of b) then iv_make_int 1 1 else iv_make_int 0 0)
    else if bi_geq (lb_of a) (ub_of b) then iv_make_int 1 1
    else if \<not> bi_geq (ub_of a) (lb_of b) then iv_make_int 0 0
    else iv_make_int 0 1)"

definition iv_le_op :: "interval \<Rightarrow> interval \<Rightarrow> interval ae" where
  "iv_le_op = iv_compare (\<lambda>a b.
    if iv_is_numeral a \<and> iv_is_numeral b then
      (if bi_leq (lb_of a) (lb_of b) then iv_make_int 1 1 else iv_make_int 0 0)
    else if bi_leq (ub_of a) (lb_of b) then iv_make_int 1 1
    else if \<not> bi_leq (lb_of a) (ub_of b) then iv_make_int 0 0
    else iv_make_int 0 1)"

section \<open>Shifts and bitwise operations\<close>

text \<open>\<open>(s32_t) x\<close>, and \<open>1 << n\<close> on \<open>int\<close>: undefined outside of the width, with the sign bit for 31.\<close>

definition as_s32 :: "int \<Rightarrow> int" where
  "as_s32 x = signed_take_bit 31 x"

definition shl32_one :: "int \<Rightarrow> int ae" where
  "shl32_one n = (if n < 0 \<or> 32 \<le> n then Inl Undefined else Inr (as_s32 (2 ^ nat n)))"

text \<open>The interval of powers that a left shift multiplies by.\<close>

definition shl_coeff :: "interval \<Rightarrow> interval ae" where
  "shl_coeff shift =
    ae_then (if as_s32 (getNumeral (lb_of shift)) \<ge> 32 \<or> is_infinity (lb_of shift) then Inr minus_infinity
      else ae_then (shl32_one (as_s32 (getNumeral (lb_of shift)))) (\<lambda>n. Inr (bi_fin n))) (\<lambda>l.
    ae_then (if is_infinity (ub_of shift) then Inr plus_infinity
      else ae_then (shl32_one (as_s32 (getNumeral (ub_of shift)))) (\<lambda>n. Inr (bi_fin n))) (iv_make l))"

definition iv_shl :: "interval \<Rightarrow> interval \<Rightarrow> interval ae" where
  "iv_shl a b =
    (if iv_isBottom a \<or> iv_isBottom b then Inr iv_bottom
     else if iv_isTop a \<and> iv_isTop b then Inr iv_top
     else ae_then (iv_meet b (iv_raw (bi_fin 0) plus_infinity)) (\<lambda>shift.
       if iv_isBottom shift then Inr iv_bottom else ae_then (shl_coeff shift) (iv_mul a)))"

function iv_shr :: "interval \<Rightarrow> interval \<Rightarrow> interval ae" where
  "iv_shr a b =
    (if iv_isBottom a \<or> iv_isBottom b then Inr iv_bottom
     else if iv_isTop a \<and> iv_isTop b then Inr iv_top
     else ae_then (iv_meet b (iv_raw (bi_fin 0) plus_infinity)) (\<lambda>shift.
       if iv_isBottom shift then Inr iv_bottom
       else if iv_contains a 0 then
         ae_then (iv_neg_part a) (\<lambda>l. ae_then (iv_pos_part a) (\<lambda>u.
         ae_then (iv_shr l b) (\<lambda>l_res. ae_then (iv_shr u b) (\<lambda>r_res.
         ae_then (iv_join l_res r_res) (\<lambda>j. iv_join j (iv_of 0))))))
       else iv_corners bi_shr a shift))"
  by auto
termination
  by (relation "measure (\<lambda>(a, b). of_bool (iv_contains a 0))") (auto dest: iv_part_no_zero)

declare iv_shr.simps [simp del]

definition iv_and :: "interval \<Rightarrow> interval \<Rightarrow> interval ae" where
  "iv_and a b =
    (if iv_isBottom a \<or> iv_isBottom b then Inr iv_bottom
     else if iv_is_numeral a \<and> iv_is_numeral b then
       iv_make (bi_and (lb_of a) (lb_of b)) (bi_and (lb_of a) (lb_of b))
     else if getNumeral (lb_of a) \<ge> 0 \<and> getNumeral (lb_of b) \<ge> 0 then
       iv_make (bi_fin 0) (bi_min (ub_of a) (ub_of b))
     else if getNumeral (lb_of a) \<ge> 0 then iv_make (bi_fin 0) (ub_of a)
     else if getNumeral (lb_of b) \<ge> 0 then iv_make (bi_fin 0) (ub_of b)
     else Inr iv_top)"

text \<open>\<open>next_power_of_2\<close>: \<open>num >> i\<close> is undefined from the width on, and \<open>1 << i\<close> is an \<open>int\<close>.\<close>

function bit_length_loop :: "int \<Rightarrow> nat \<Rightarrow> nat ae" where
  "bit_length_loop num i =
    (if 64 \<le> i then Inl Undefined
     else if drop_bit i num \<noteq> 0 then bit_length_loop num (i + 1) else Inr i)"
  by auto
termination by (relation "measure (\<lambda>(num, i). 64 - i)") auto

declare bit_length_loop.simps [simp del]

definition next_power_of_2 :: "int \<Rightarrow> int ae" where
  "next_power_of_2 num = ae_then (bit_length_loop num 1) (\<lambda>i. shl32_one (int i))"

definition s32_op :: "int \<Rightarrow> int ae" where
  "s32_op x = (if - (2 ^ 31) \<le> x \<and> x < 2 ^ 31 then Inr x else Inl Undefined)"

text \<open>\<open>operator|\<close> and \<open>operator^\<close> differ in what they do with two numbers.\<close>

definition iv_or_xor :: "(bounded_int \<Rightarrow> bounded_int \<Rightarrow> bounded_int) \<Rightarrow> interval \<Rightarrow> interval \<Rightarrow> interval ae" where
  "iv_or_xor f a b =
    (if iv_isBottom a \<or> iv_isBottom b then Inr iv_bottom
     else if iv_is_numeral a \<and> iv_is_numeral b then
       iv_make (f (lb_of a) (lb_of b)) (f (lb_of a) (lb_of b))
     else if getNumeral (lb_of a) \<ge> 0 \<and> \<not> is_infinity (ub_of a)
       \<and> getNumeral (lb_of b) \<ge> 0 \<and> \<not> is_infinity (ub_of b) then
       (let m = max (getNumeral (ub_of a)) (getNumeral (ub_of b)) in
        ae_then (next_power_of_2 m) (\<lambda>p. ae_then (s32_op (p - 1)) (iv_make_int 0)))
     else Inr iv_top)"

definition iv_or :: "interval \<Rightarrow> interval \<Rightarrow> interval ae" where
  "iv_or = iv_or_xor bi_or"

definition iv_xor :: "interval \<Rightarrow> interval \<Rightarrow> interval ae" where
  "iv_xor = iv_or_xor bi_xor"

end
