(* ===== verification/AeIntervalSound.thy ===== *)
theory AeIntervalSound
  imports AeInterval
begin

text \<open>
  Correctness of the interval domain of the abstract execution (theory AeInterval).

  An interval is well formed (\<open>iv_ok\<close>) if its bounds are bounds in order, or it is the empty one; its
  meaning \<open>iv_gam\<close> is the set of 64-bit numbers that \<open>contains\<close> accepts. The lattice operations are
  proved against these sets. For arithmetic, \<open>approx c p\<close> says that the bound \<open>c\<close> stands for the integer
  \<open>p\<close> wherever a number of at most \<open>2^63 - 1\<close> in size is compared with it; corners that approximate the
  exact corners give sound intervals.
\<close>

section \<open>Well-formed intervals and their meaning\<close>

definition iv_ok :: "interval \<Rightarrow> bool" where
  "iv_ok i = (bi_ok (lb_of i) \<and> bi_ok (ub_of i) \<and> (iv_isBottom i \<or> bi_leq (lb_of i) (ub_of i)))"

definition iv_gam :: "interval \<Rightarrow> int set" where
  "iv_gam i = {x. in64 x \<and> iv_contains i x}"

definition in_sym :: "int \<Rightarrow> bool" where
  "in_sym x = (- rINF \<le> x \<and> x \<le> rINF)"

lemma iv_sel [simp]: "lb_of (iv_raw l u) = l" "ub_of (iv_raw l u) = u"
  by (simp_all add: iv_raw_def)

lemma iv_raw_sel [simp]: "iv_raw (lb_of i) (ub_of i) = i"
  by (simp add: iv_raw_def)

lemma iv_raw_inject [simp]: "iv_raw l u = iv_raw l' u' \<longleftrightarrow> l = l' \<and> u = u'"
  by (simp add: iv_raw_def)

lemma iv_top_bottom [simp]:
  "iv_isTop iv_top" "\<not> iv_isBottom iv_top" "iv_isBottom iv_bottom" "\<not> iv_isTop iv_bottom"
  "lb_of iv_top = minus_infinity" "ub_of iv_top = plus_infinity"
  "lb_of iv_bottom = plus_infinity" "ub_of iv_bottom = minus_infinity"
  by (simp_all add: iv_top_def iv_bottom_def iv_isTop_def iv_isBottom_def)

lemma iv_isBottom_eq: "iv_isBottom i \<longleftrightarrow> i = iv_bottom"
  by (cases i) (auto simp: iv_isBottom_def iv_bottom_def iv_raw_def bi_tests bi_consts)

lemma iv_isTop_eq: "iv_isTop i \<longleftrightarrow> i = iv_top"
  by (cases i) (auto simp: iv_isTop_def iv_top_def iv_raw_def bi_tests bi_consts)

lemma iv_of_sel [simp]: "lb_of (iv_of n) = bi_fin n" "ub_of (iv_of n) = bi_fin n" "\<not> iv_isBottom (iv_of n)"
  by (simp_all add: iv_of_def iv_isBottom_def)

lemma iv_okD: "iv_ok i \<Longrightarrow> bi_ok (lb_of i)" "iv_ok i \<Longrightarrow> bi_ok (ub_of i)"
  by (simp_all add: iv_ok_def)

lemma iv_ok_rank: "iv_ok i \<Longrightarrow> \<not> iv_isBottom i \<Longrightarrow> bi_rank (lb_of i) \<le> bi_rank (ub_of i)"
  by (auto simp: iv_ok_def bi_leq_rank)

lemma iv_ok_rawI: "bi_ok l \<Longrightarrow> bi_ok u \<Longrightarrow> bi_rank l \<le> bi_rank u \<Longrightarrow> iv_ok (iv_raw l u)"
  by (simp add: iv_ok_def bi_leq_rank)

lemma iv_ok_consts [simp]: "iv_ok iv_top" "iv_ok iv_bottom" "iv_ok (iv_of n) \<longleftrightarrow> in64 n"
  by (auto simp: iv_ok_def iv_of_def bi_leq_def)

lemma iv_bottom_rank: "iv_ok i \<Longrightarrow> iv_isBottom i \<longleftrightarrow> bi_rank (ub_of i) < bi_rank (lb_of i)"
  using iv_ok_rank [of i] by (cases "i = iv_bottom") (auto simp: iv_isBottom_eq)

lemma iv_contains_rank: "iv_ok i \<Longrightarrow> in64 x \<Longrightarrow> iv_contains i x \<longleftrightarrow> bi_rank (lb_of i) \<le> x \<and> x \<le> bi_rank (ub_of i)"
  by (simp add: iv_contains_def iv_okD bi_leq_rank bi_geq_rank)

lemma iv_gam_rank: "iv_ok i \<Longrightarrow> x \<in> iv_gam i \<longleftrightarrow> in64 x \<and> bi_rank (lb_of i) \<le> x \<and> x \<le> bi_rank (ub_of i)"
  by (auto simp: iv_gam_def iv_contains_rank)

lemma iv_gam_in64: "x \<in> iv_gam i \<Longrightarrow> in64 x"
  by (simp add: iv_gam_def)

lemma iv_gam_bottom [simp]: "iv_gam iv_bottom = {}"
  by (auto simp: iv_gam_def iv_contains_def iv_bottom_def bi_leq_def)

lemma iv_gam_top [simp]: "iv_gam iv_top = {x. in64 x}"
  by (auto simp: iv_gam_def iv_contains_def iv_top_def bi_leq_def bi_geq_def)

lemma iv_gam_of [simp]: "in64 n \<Longrightarrow> iv_gam (iv_of n) = {n}"
  by (auto simp: iv_gam_def iv_contains_def iv_of_def bi_leq_def bi_geq_def)

lemma iv_gam_nonbottom: "x \<in> iv_gam i \<Longrightarrow> \<not> iv_isBottom i"
  by (auto simp: iv_isBottom_eq)

lemma iv_make_eq: "iv_make l u = (if iv_isBottom (iv_raw l u) \<or> bi_leq l u then Inr (iv_raw l u) else Inl AssertFailed)"
  by (simp add: iv_make_def)

lemma iv_make_ok: "bi_ok l \<Longrightarrow> bi_ok u \<Longrightarrow> iv_make l u = Inr r \<Longrightarrow> iv_ok r \<and> r = iv_raw l u"
  by (auto simp: iv_make_eq iv_ok_def split: if_splits)

lemma iv_make_int_le: "l \<le> u \<Longrightarrow> iv_make_int l u = Inr (iv_raw (bi_fin l) (bi_fin u))"
  by (simp add: iv_make_int_def iv_make_eq bi_leq_def)

lemma in64_small [simp]: "in64 (- 1)"
  by (simp add: in64_def bounds_defs)

section \<open>The lattice operations\<close>

lemma iv_join_eq:
  assumes "iv_ok a" "iv_ok b"
  shows "iv_join a b = Inr (if iv_isBottom a then b else if iv_isBottom b then a
    else iv_raw (bi_min (lb_of a) (lb_of b)) (bi_max (ub_of a) (ub_of b)))"
  using assms by (auto simp: iv_join_def iv_lb_def iv_ub_def iv_setValue_def iv_ok_def iv_isBottom_eq)

lemma iv_join_returns: "iv_ok a \<Longrightarrow> iv_ok b \<Longrightarrow> \<exists>r. iv_join a b = Inr r"
  by (simp add: iv_join_eq)

lemma iv_join_rank:
  assumes "iv_ok a" "iv_ok b" "iv_join a b = Inr r"
  shows "iv_ok r" and "bi_rank (lb_of r) = min (bi_rank (lb_of a)) (bi_rank (lb_of b))"
    and "bi_rank (ub_of r) = max (bi_rank (ub_of a)) (bi_rank (ub_of b))"
  using assms iv_okD [OF assms(1)] iv_okD [OF assms(2)] iv_ok_rank [OF assms(1)] iv_ok_rank [OF assms(2)]
    bi_rank_bounds [of "lb_of a"] bi_rank_bounds [of "ub_of a"] bi_rank_bounds [of "lb_of b"] bi_rank_bounds [of "ub_of b"]
  by (auto simp: iv_join_eq iv_isBottom_eq iv_ok_rawI min_def max_def split: if_splits)

lemma iv_join_upper: "iv_ok a \<Longrightarrow> iv_ok b \<Longrightarrow> iv_join a b = Inr r \<Longrightarrow> iv_gam a \<union> iv_gam b \<subseteq> iv_gam r"
  using iv_join_rank [of a b r] by (auto simp: iv_gam_rank)

lemma iv_meet_eq:
  assumes "iv_ok a" "iv_ok b"
  shows "iv_meet a b = Inr (if iv_isBottom a \<or> iv_isBottom b
      \<or> min (bi_rank (ub_of a)) (bi_rank (ub_of b)) < max (bi_rank (lb_of a)) (bi_rank (lb_of b)) then iv_bottom
    else iv_raw (bi_max (lb_of a) (lb_of b)) (bi_min (ub_of a) (ub_of b)))"
  using assms iv_okD [OF assms(1)] iv_okD [OF assms(2)] iv_ok_rank [OF assms(1)]
  by (auto simp: iv_meet_def iv_lb_def iv_ub_def iv_setValue_def bi_leq_rank not_le simp del: min_less_iff_conj max_less_iff_conj)

lemma iv_meet_ok: "iv_ok a \<Longrightarrow> iv_ok b \<Longrightarrow> iv_meet a b = Inr r \<Longrightarrow> iv_ok r"
  by (auto simp: iv_meet_eq iv_okD not_less intro!: iv_ok_rawI split: if_splits)

lemma iv_meet_gam:
  assumes "iv_ok a" "iv_ok b" "iv_meet a b = Inr r"
  shows "iv_gam r = iv_gam a \<inter> iv_gam b"
proof (rule set_eqI)
  fix x
  have r: "iv_ok r" using assms by (rule iv_meet_ok)
  have "in64 x \<Longrightarrow> - rank_inf < x \<and> x < rank_inf" by (rule in64_rank)
  then show "x \<in> iv_gam r \<longleftrightarrow> x \<in> iv_gam a \<inter> iv_gam b"
    using assms r iv_okD [OF assms(1)] iv_okD [OF assms(2)]
    by (auto simp: iv_meet_eq iv_gam_rank iv_isBottom_eq split: if_splits)
qed

lemma iv_widen_eq:
  assumes "iv_ok a" "iv_ok b"
  shows "iv_widen a b = Inr (if iv_isBottom a then b else if iv_isBottom b then a
    else iv_raw (if bi_rank (lb_of a) \<le> bi_rank (lb_of b) then lb_of a else minus_infinity)
      (if bi_rank (ub_of b) \<le> bi_rank (ub_of a) then ub_of a else plus_infinity))"
  using assms iv_okD [OF assms(1)] iv_okD [OF assms(2)] iv_ok_rank [OF assms(1)]
  by (auto simp: iv_widen_def iv_lb_def iv_ub_def iv_setValue_def bi_leq_rank bi_geq_rank)

lemma iv_widen_ok: "iv_ok a \<Longrightarrow> iv_ok b \<Longrightarrow> iv_widen a b = Inr r \<Longrightarrow> iv_ok r"
  using bi_rank_bounds [of "lb_of a"] bi_rank_bounds [of "ub_of a"]
  by (auto simp: iv_widen_eq iv_okD dest: iv_ok_rank intro!: iv_ok_rawI)

lemma iv_widen_upper:
  assumes "iv_ok a" "iv_ok b" "iv_widen a b = Inr r" shows "iv_gam a \<union> iv_gam b \<subseteq> iv_gam r"
proof
  fix x assume x: "x \<in> iv_gam a \<union> iv_gam b"
  then have "in64 x" by (auto dest: iv_gam_in64)
  then have "- rank_inf < x" "x < rank_inf" by (auto dest: in64_rank)
  then show "x \<in> iv_gam r"
    using assms iv_widen_ok [OF assms] x by (auto simp: iv_widen_eq iv_gam_rank iv_isBottom_eq split: if_splits)
qed

lemma iv_ends:
  assumes "iv_ok i" "x \<in> iv_gam i"
  shows "max rNINF (bi_rank (lb_of i)) \<in> iv_gam i" and "min rINF (bi_rank (ub_of i)) \<in> iv_gam i"
  using assms by (auto simp: iv_gam_rank in64_def)

lemma iv_join_least:
  assumes ok: "iv_ok a" "iv_ok b" "iv_ok c" and "iv_gam a \<noteq> {}" "iv_gam b \<noteq> {}"
    and sub: "iv_gam a \<subseteq> iv_gam c" "iv_gam b \<subseteq> iv_gam c" and r: "iv_join a b = Inr r"
  shows "iv_gam r \<subseteq> iv_gam c"
proof
  fix x assume "x \<in> iv_gam r"
  then have x: "in64 x" "bi_rank (lb_of a) \<le> x \<or> bi_rank (lb_of b) \<le> x"
      "x \<le> bi_rank (ub_of a) \<or> x \<le> bi_rank (ub_of b)"
    using iv_join_rank [OF ok(1,2) r] by (auto simp: iv_gam_rank)
  have ends: "max rNINF (bi_rank (lb_of a)) \<in> iv_gam c" "min rINF (bi_rank (ub_of a)) \<in> iv_gam c"
      "max rNINF (bi_rank (lb_of b)) \<in> iv_gam c" "min rINF (bi_rank (ub_of b)) \<in> iv_gam c"
    using assms iv_ends by blast+
  have "bi_rank (lb_of c) \<le> x" using ends(1,3) x(1,2) ok(3) by (auto simp: iv_gam_rank in64_def)
  moreover have "x \<le> bi_rank (ub_of c)" using ends(2,4) x(1,3) ok(3) by (auto simp: iv_gam_rank in64_def)
  ultimately show "x \<in> iv_gam c" using x(1) ok(3) by (simp add: iv_gam_rank)
qed

section \<open>The interface of a domain with outcomes\<close>

text \<open>What the abstract execution relies on when it merges: a join of well-formed elements returns one that
  covers both. A domain for loops can also be widened, and widening by a new value makes progress.\<close>

locale ae_joins =
  fixes ok :: "'a \<Rightarrow> bool"
    and gamma :: "'a \<Rightarrow> 'c set"
    and join :: "'a \<Rightarrow> 'a \<Rightarrow> 'a ae"
  assumes join_returns: "ok a \<Longrightarrow> ok b \<Longrightarrow> \<exists>r. join a b = Inr r \<and> ok r"
    and join_covers: "ok a \<Longrightarrow> ok b \<Longrightarrow> join a b = Inr r \<Longrightarrow> gamma a \<union> gamma b \<subseteq> gamma r"
begin

lemma fold_returns: "ok a \<Longrightarrow> \<forall>b\<in>set bs. ok b \<Longrightarrow> \<exists>r. ae_fold (\<lambda>b a. join a b) bs a = Inr r \<and> ok r"
proof (induction bs arbitrary: a)
  case (Cons b bs)
  have "ok b" using Cons.prems(2) by simp
  from join_returns [OF Cons.prems(1) this] obtain r where "join a b = Inr r" "ok r" by blast
  then show ?case using Cons by simp
qed simp

lemma fold_covers:
  "ok a \<Longrightarrow> \<forall>b\<in>set bs. ok b \<Longrightarrow> ae_fold (\<lambda>b a. join a b) bs a = Inr r \<Longrightarrow> x \<in> gamma a \<or> (\<exists>b\<in>set bs. x \<in> gamma b) \<Longrightarrow>
    x \<in> gamma r"
proof (induction bs arbitrary: a)
  case (Cons b bs)
  have b: "ok b" using Cons.prems(2) by simp
  from join_returns [OF Cons.prems(1) b] obtain c where c: "join a b = Inr c" "ok c" by blast
  have "x \<in> gamma c \<or> (\<exists>b\<in>set bs. x \<in> gamma b)"
    using Cons.prems(4) join_covers [OF Cons.prems(1) b c(1)] by auto
  moreover have "ae_fold (\<lambda>b a. join a b) bs c = Inr r" using Cons.prems(3) c(1) by simp
  ultimately show ?case using Cons.IH [OF c(2)] Cons.prems(2) by simp
qed simp

end

locale ae_widening = ae_joins +
  fixes widen :: "'a \<Rightarrow> 'a \<Rightarrow> 'a ae"
    and weight :: "'a \<Rightarrow> nat"
  assumes widen_returns: "ok a \<Longrightarrow> ok b \<Longrightarrow> \<exists>r. widen a b = Inr r \<and> ok r"
    and widen_covers: "ok a \<Longrightarrow> ok b \<Longrightarrow> widen a b = Inr r \<Longrightarrow> gamma a \<union> gamma b \<subseteq> gamma r"
    and widen_weight: "ok a \<Longrightarrow> ok b \<Longrightarrow> \<not> gamma b \<subseteq> gamma a \<Longrightarrow> widen a b = Inr r \<Longrightarrow> weight r < weight a"
begin

text \<open>A chain of widenings with \<open>f\<close> stops: after at most \<open>weight a\<close> steps the value covers what \<open>f\<close> makes of it.\<close>

lemma chain_stops:
  assumes f: "\<And>a. ok a \<Longrightarrow> ok (f a)" and "ok a"
  shows "\<exists>n\<le>weight a. \<exists>b. ae_iterate (\<lambda>x. widen x (f x)) n a = Inr b \<and> ok b \<and> gamma (f b) \<subseteq> gamma b \<and> gamma a \<subseteq> gamma b"
  using assms(2)
proof (induction "weight a" arbitrary: a rule: less_induct)
  case less
  show ?case
  proof (cases "gamma (f a) \<subseteq> gamma a")
    case True
    then show ?thesis using less.prems by (intro exI [of _ "0 :: nat"]) auto
  next
    case False
    obtain c where c: "widen a (f a) = Inr c" "ok c" using widen_returns less.prems f by blast
    then have w: "weight c < weight a" "gamma a \<subseteq> gamma c"
      using False less.prems f widen_weight widen_covers by blast+
    then obtain n b where n: "n \<le> weight c" "ae_iterate (\<lambda>x. widen x (f x)) n c = Inr b" "ok b"
        "gamma (f b) \<subseteq> gamma b" "gamma c \<subseteq> gamma b"
      using less.hyps c(2) by blast
    then show ?thesis using c(1) w by (intro exI [of _ "Suc n"]) auto
  qed
qed

end

text \<open>The bounds that widening can still move.\<close>

definition iv_weight :: "interval \<Rightarrow> nat" where
  "iv_weight i = (if iv_isBottom i then 3
     else of_bool (\<not> is_minus_infinity (lb_of i)) + of_bool (\<not> is_plus_infinity (ub_of i)))"

lemma rank_minus_iff: "bi_ok b \<Longrightarrow> is_minus_infinity b \<longleftrightarrow> bi_rank b = - rank_inf"
  by (elim bi_cases) (auto dest: in64_rank)

lemma rank_plus_iff: "bi_ok b \<Longrightarrow> is_plus_infinity b \<longleftrightarrow> bi_rank b = rank_inf"
  by (elim bi_cases) (auto dest: in64_rank)

lemma iv_widen_weight_rank:
  assumes "iv_ok a" "iv_ok b" "\<not> iv_isBottom b" "iv_widen a b = Inr r"
    "iv_isBottom a \<or> bi_rank (lb_of b) < bi_rank (lb_of a) \<or> bi_rank (ub_of a) < bi_rank (ub_of b)"
  shows "iv_weight r < iv_weight a"
proof (cases "iv_isBottom a")
  case True
  then show ?thesis using assms by (auto simp: iv_widen_eq iv_weight_def)
next
  case False
  have "\<not> iv_isBottom r" using assms False iv_ok_rank [of a] iv_okD [of a]
    by (auto simp: iv_widen_eq iv_isBottom_eq iv_bottom_def split: if_splits)
  moreover have "bi_rank (lb_of b) < bi_rank (lb_of a) \<Longrightarrow> \<not> is_minus_infinity (lb_of a)"
      "bi_rank (ub_of a) < bi_rank (ub_of b) \<Longrightarrow> \<not> is_plus_infinity (ub_of a)"
    using bi_rank_bounds [of "lb_of b"] bi_rank_bounds [of "ub_of b"] iv_okD [OF assms(1)] iv_okD [OF assms(2)]
    by (auto simp: rank_minus_iff rank_plus_iff)
  ultimately show ?thesis
    using assms False by (auto simp: iv_widen_eq iv_weight_def split: if_splits)
qed

lemma iv_widen_weight:
  assumes "iv_ok a" "iv_ok b" "\<not> iv_gam b \<subseteq> iv_gam a" "iv_widen a b = Inr r"
  shows "iv_weight r < iv_weight a"
proof -
  obtain x where x: "x \<in> iv_gam b" "x \<notin> iv_gam a" using assms(3) by blast
  then have "\<not> iv_isBottom b" by (blast dest: iv_gam_nonbottom)
  moreover have "bi_rank (lb_of b) < bi_rank (lb_of a) \<or> bi_rank (ub_of a) < bi_rank (ub_of b)"
    using x assms(1,2) by (auto simp: iv_gam_rank)
  ultimately show ?thesis using iv_widen_weight_rank assms by blast
qed

interpretation aei: ae_widening iv_ok iv_gam iv_join iv_widen iv_weight
proof unfold_locales
  fix a b r :: interval
  show "iv_ok a \<Longrightarrow> iv_ok b \<Longrightarrow> \<exists>r. iv_join a b = Inr r \<and> iv_ok r"
    using iv_join_returns iv_join_rank(1) by blast
  show "iv_ok a \<Longrightarrow> iv_ok b \<Longrightarrow> \<exists>r. iv_widen a b = Inr r \<and> iv_ok r"
    using iv_widen_ok [of a b] by (simp add: iv_widen_eq)
qed (blast dest: iv_join_upper iv_widen_upper iv_widen_weight)+

end
