(* ===== verification/AeArith.thy ===== *)
theory AeArith
  imports AeIntervalSound
begin

text \<open>
  Soundness of the arithmetic of the interval domain of the abstract execution (theory AeInterval), with
  the cases in which it fails.

  A bound that results from an overflow is an infinity, also for the result \<open>-2^63\<close> itself. So the
  theorems speak of results of at most \<open>2^63 - 1\<close> in size (\<open>in_sym\<close>).
\<close>

section \<open>Approximation of integers by bounds\<close>

definition approx :: "bounded_int \<Rightarrow> int \<Rightarrow> bool" where
  "approx c p = (bi_ok c \<and> (\<forall>z. in_sym z \<longrightarrow> (p \<le> z \<longrightarrow> bi_rank c \<le> z) \<and> (z \<le> p \<longrightarrow> z \<le> bi_rank c)))"

lemma approxD:
  "approx c p \<Longrightarrow> bi_ok c"
  "approx c p \<Longrightarrow> in_sym z \<Longrightarrow> p \<le> z \<Longrightarrow> bi_rank c \<le> z"
  "approx c p \<Longrightarrow> in_sym z \<Longrightarrow> z \<le> p \<Longrightarrow> z \<le> bi_rank c"
  by (simp_all add: approx_def)

lemma in_sym_in64: "in_sym z \<Longrightarrow> in64 z"
  by (simp add: in_sym_def in64_def bounds_defs)

lemma approx_fin: "in64 x \<Longrightarrow> approx (bi_fin x) x"
  by (simp add: approx_def)

lemma approx_plus: "rINF < p \<Longrightarrow> approx plus_infinity p"
  by (auto simp: approx_def in_sym_def rank_inf_def bounds_defs)

lemma approx_minus: "p < - rINF \<Longrightarrow> approx minus_infinity p"
  by (auto simp: approx_def in_sym_def rank_inf_def bounds_defs)

lemmas approx_intros = approx_fin approx_plus approx_minus

lemma rank_far: "in64 x \<Longrightarrow> rINF < rank_inf + x" "in64 x \<Longrightarrow> x - rank_inf < - rINF" "rINF < rank_inf + rank_inf"
    "- rank_inf - rank_inf < - rINF" "rINF < rank_inf"
  by (auto simp: in64_def bounds_defs rank_inf_def)

lemma safeAdd_plus:
  assumes "bi_ok b" "bi_safeAdd plus_infinity b = Inr c" shows "approx c (rank_inf + bi_rank b)"
proof (cases rule: bi_cases [OF assms(1)])
  case 1
  then show ?thesis using assms(2) rank_far(3) by (simp add: bi_safeAdd_def approx_plus)
next
  case 2
  then show ?thesis using assms(2) by (simp add: bi_safeAdd_def)
next
  case (3 y)
  then show ?thesis using assms(2) rank_far(1) [of y] by (simp add: bi_safeAdd_def approx_plus)
qed

lemma safeAdd_minus:
  assumes "bi_ok b" "bi_safeAdd minus_infinity b = Inr c" shows "approx c (- rank_inf + bi_rank b)"
proof (cases rule: bi_cases [OF assms(1)])
  case 1
  then show ?thesis using assms(2) by (simp add: bi_safeAdd_def)
next
  case 2
  then show ?thesis using assms(2) rank_far(4) by (simp add: bi_safeAdd_def approx_minus)
next
  case (3 y)
  then show ?thesis using assms(2) rank_far(2) [of y] by (simp add: bi_safeAdd_def approx_minus)
qed

lemma safeAdd_approx:
  assumes "bi_ok a" "bi_ok b" "bi_safeAdd a b = Inr c"
  shows "approx c (bi_rank a + bi_rank b)"
proof -
  have comm: "bi_safeAdd a b = bi_safeAdd b a" if "is_infinity b"
    by (cases rule: bi_cases [OF assms(1)]; cases rule: bi_cases [OF assms(2)])
      (use that in \<open>simp_all add: bi_safeAdd_def\<close>)
  show ?thesis
  proof (cases rule: bi_cases [OF assms(1)])
    case a: (3 x)
    show ?thesis
    proof (cases rule: bi_cases [OF assms(2)])
      case (3 y)
      then show ?thesis using a assms(3) by (auto simp: bi_safeAdd_def intro!: approx_intros split: if_splits)
    next
      case 1
      then show ?thesis using safeAdd_plus [OF assms(1)] assms(3) comm by (simp add: add.commute)
    next
      case 2
      then show ?thesis using safeAdd_minus [OF assms(1)] assms(3) comm by (simp add: add.commute)
    qed
  next
    case 1
    then show ?thesis using safeAdd_plus [OF assms(2)] assms(3) by simp
  next
    case 2
    then show ?thesis using safeAdd_minus [OF assms(2)] assms(3) by simp
  qed
qed

lemma safeAdd_fin:
  assumes "in64 x" "in64 y" shows "\<exists>c. bi_safeAdd (bi_fin x) (bi_fin y) = Inr c"
  using assms by (auto simp: bi_safeAdd_def in64_def bounds_defs)

text \<open>Addition asserts exactly on opposite infinities.\<close>

lemma safeAdd_error:
  assumes "bi_ok a" "bi_ok b"
  shows "bi_safeAdd a b = Inl e \<longleftrightarrow> e = AssertFailed \<and>
    (is_plus_infinity a \<and> is_minus_infinity b \<or> is_minus_infinity a \<and> is_plus_infinity b)"
  using assms
proof (elim bi_cases)
  fix x y assume "a = bi_fin x" "in64 x" "b = bi_fin y" "in64 y"
  then show ?thesis using safeAdd_fin [of x y] by auto
qed (auto simp: bi_safeAdd_def)

lemma bi_neg_rank: "bi_ok a \<Longrightarrow> bi_neg a = Inr c \<Longrightarrow> bi_ok c \<and> bi_rank c = - bi_rank a"
  by (elim bi_cases) (auto simp: bi_neg_def bi_rank_def bi_ok_def bi_tests)

lemma bi_neg_error: "bi_ok a \<Longrightarrow> bi_neg a = Inl e \<longleftrightarrow> e = Undefined \<and> a = bi_fin rNINF"
  by (elim bi_cases) (auto simp: bi_neg_def ae_then_eq_Inl in64_neg s64_op_out s64_op_def split: option.splits)

lemma bi_sub_approx: "bi_ok a \<Longrightarrow> bi_ok b \<Longrightarrow> bi_sub a b = Inr c \<Longrightarrow> approx c (bi_rank a - bi_rank b)"
  using bi_neg_rank [of b] safeAdd_approx [of a] by (fastforce simp: bi_sub_def)

lemma minus_overflow_test: "0 < x \<Longrightarrow> - rINF sdiv x > y \<longleftrightarrow> x * y < - rINF" for x y :: int
  using mult_le_iff_div [of x "- y" rINF] sdiv_neg_dividend [of x "- rINF"] by (auto simp: mult.commute)

lemma safeMul_fin:
  assumes x: "in64 x" and y: "in64 y"
  shows "\<exists>c. bi_safeMul (bi_fin x) (bi_fin y) = Inr c \<and> approx c (x * y)"
proof (cases "x = 0 \<or> y = 0")
  case True
  then show ?thesis using x y by (auto simp: bi_safeMul_def intro!: approx_fin)
next
  case False
  have i: "in64 (x * y)" if "\<not> rINF < x * y" "\<not> x * y < - rINF" using that by (simp add: in64_def bounds_defs)
  have p: "- rINF < 0" "0 < rINF" by (simp_all add: bounds_defs)
  consider "x > 0" "y > 0" | "x < 0" "y < 0" | "x > 0" "y < 0" | "x < 0" "y > 0" using False by linarith
  then show ?thesis
  proof cases
    case 1
    then have "0 < x * y" by simp
    then have "- rINF \<le> x * y" using p by linarith
    then show ?thesis using 1 i mul_overflow_tests(1) [of x y]
      p by (auto simp: bi_safeMul_def mult.commute not_less intro!: approx_intros)
  next
    case 2
    then have "0 < x * y" by (simp add: mult_neg_neg)
    then have "- rINF \<le> x * y" using p by linarith
    then show ?thesis using 2 i mul_overflow_tests(2) [of x y]
      p by (auto simp: bi_safeMul_def mult.commute not_less intro!: approx_intros)
  next
    case 3
    then have "x * y < 0" by (simp add: mult_pos_neg)
    then have "x * y \<le> rINF" using p by linarith
    then show ?thesis using 3 i minus_overflow_test [of x y]
      p by (auto simp: bi_safeMul_def not_less intro!: approx_intros)
  next
    case 4
    then have "x * y < 0" by (simp add: mult_neg_pos)
    then have "x * y \<le> rINF" using p by linarith
    then show ?thesis using 4 i minus_overflow_test [of y x]
      p by (auto simp: bi_safeMul_def mult.commute not_less intro!: approx_intros)
  qed
qed

lemma rank_times: "0 < y \<Longrightarrow> rINF < rank_inf * y" "y < 0 \<Longrightarrow> rank_inf * y < - rINF" for y :: int
proof -
  assume "0 < y"
  then have "rank_inf * 1 \<le> rank_inf * y" by (intro mult_left_mono) auto
  then show "rINF < rank_inf * y" using rank_far(5) by linarith
next
  assume "y < 0"
  then have "rank_inf * y \<le> rank_inf * (- 1)" by (intro mult_left_mono) auto
  then show "rank_inf * y < - rINF" using rank_far(5) by linarith
qed

lemma safeMul_plus:
  assumes "bi_ok b" "bi_safeMul plus_infinity b = Inr r" shows "approx r (rank_inf * bi_rank b)"
proof (cases rule: bi_cases [OF assms(1)])
  case 1
  then show ?thesis using assms(2) rank_times(1) [of rank_inf] by (auto simp: bi_safeMul_def intro!: approx_plus)
next
  case 2
  then show ?thesis using assms(2) rank_times(2) [of "- rank_inf"] by (auto simp: bi_safeMul_def intro!: approx_minus)
next
  case (3 y)
  then show ?thesis using assms(2) rank_times [of y] by (cases "y = 0") (auto simp: bi_safeMul_def intro!: approx_intros)
qed

lemma safeMul_minus:
  assumes "bi_ok b" "bi_safeMul minus_infinity b = Inr r" shows "approx r (- rank_inf * bi_rank b)"
proof (cases rule: bi_cases [OF assms(1)])
  case 1
  then show ?thesis using assms(2) rank_times(2) [of "- rank_inf"] by (auto simp: bi_safeMul_def intro!: approx_minus)
next
  case 2
  then show ?thesis using assms(2) rank_times(1) [of rank_inf] by (auto simp: bi_safeMul_def intro!: approx_plus)
next
  case (3 y)
  then show ?thesis using assms(2) rank_times [of y] rank_times [of "- y"]
    by (cases "y = 0") (auto simp: bi_safeMul_def intro!: approx_intros)
qed

lemma safeMul_approx:
  assumes "bi_ok a" "bi_ok b" "bi_safeMul a b = Inr c"
  shows "approx c (bi_rank a * bi_rank b)"
proof -
  have comm: "bi_safeMul a b = bi_safeMul b a" if "is_infinity b"
    using that by (auto simp: bi_safeMul_def mult.commute)
  show ?thesis
  proof (cases rule: bi_cases [OF assms(1)])
    case a: (3 x)
    show ?thesis
    proof (cases rule: bi_cases [OF assms(2)])
      case (3 y)
      then show ?thesis using a assms(3) safeMul_fin [of x y] by auto
    qed (use safeMul_plus [OF assms(1)] safeMul_minus [OF assms(1)] assms(3) comm in \<open>simp_all add: mult.commute\<close>)
  qed (use safeMul_plus [OF assms(2)] safeMul_minus [OF assms(2)] assms(3) in simp_all)
qed

section \<open>Addition, subtraction, multiplication\<close>

lemma in_gamI: "iv_ok r \<Longrightarrow> in_sym z \<Longrightarrow> bi_rank (lb_of r) \<le> z \<Longrightarrow> z \<le> bi_rank (ub_of r) \<Longrightarrow> z \<in> iv_gam r"
  by (simp add: iv_gam_rank in_sym_in64)

lemma gam_ranks: "iv_ok i \<Longrightarrow> x \<in> iv_gam i \<Longrightarrow> bi_rank (lb_of i) \<le> x \<and> x \<le> bi_rank (ub_of i)"
  by (simp add: iv_gam_rank)

lemma iv_make_approx:
  assumes "approx l p" "approx u q" "iv_make l u = Inr r"
  shows "iv_ok r \<and> (\<forall>z. in_sym z \<longrightarrow> p \<le> z \<longrightarrow> z \<le> q \<longrightarrow> z \<in> iv_gam r)"
  using assms iv_make_ok [of l u r] by (auto simp: approxD intro!: in_gamI)

lemma iv_top_sym: "in_sym z \<Longrightarrow> z \<in> iv_gam iv_top"
  by (simp add: in_sym_in64)

lemma iv_add_sound:
  assumes ok: "iv_ok a" "iv_ok b" and r: "iv_add a b = Inr r"
  shows "iv_ok r \<and> (\<forall>x\<in>iv_gam a. \<forall>y\<in>iv_gam b. in_sym (x + y) \<longrightarrow> x + y \<in> iv_gam r)"
proof (cases "iv_isBottom a \<or> iv_isBottom b \<or> iv_isTop a \<or> iv_isTop b")
  case True
  then show ?thesis using r by (auto simp: iv_add_def in_sym_in64 dest: iv_gam_nonbottom split: if_splits)
next
  case False
  then obtain l u where lu: "bi_safeAdd (lb_of a) (lb_of b) = Inr l" "bi_safeAdd (ub_of a) (ub_of b) = Inr u"
      "iv_make l u = Inr r" using r by (auto simp: iv_add_def)
  have "approx l (bi_rank (lb_of a) + bi_rank (lb_of b))" "approx u (bi_rank (ub_of a) + bi_rank (ub_of b))"
    using lu(1,2) safeAdd_approx ok iv_okD by blast+
  note m = iv_make_approx [OF this lu(3)]
  then show ?thesis using gam_ranks [OF ok(1)] gam_ranks [OF ok(2)] by (meson add_mono)
qed

lemma iv_sub_sound:
  assumes ok: "iv_ok a" "iv_ok b" and r: "iv_sub a b = Inr r"
  shows "iv_ok r \<and> (\<forall>x\<in>iv_gam a. \<forall>y\<in>iv_gam b. in_sym (x - y) \<longrightarrow> x - y \<in> iv_gam r)"
proof (cases "iv_isBottom a \<or> iv_isBottom b \<or> iv_isTop a \<or> iv_isTop b")
  case True
  then show ?thesis using r by (auto simp: iv_sub_def in_sym_in64 dest: iv_gam_nonbottom split: if_splits)
next
  case False
  then obtain l u where lu: "bi_sub (lb_of a) (ub_of b) = Inr l" "bi_sub (ub_of a) (lb_of b) = Inr u"
      "iv_make l u = Inr r" using r by (auto simp: iv_sub_def)
  have "approx l (bi_rank (lb_of a) - bi_rank (ub_of b))" "approx u (bi_rank (ub_of a) - bi_rank (lb_of b))"
    using lu(1,2) bi_sub_approx ok iv_okD by blast+
  note m = iv_make_approx [OF this lu(3)]
  then show ?thesis using gam_ranks [OF ok(1)] gam_ranks [OF ok(2)] by (meson diff_mono)
qed

lemma bi_min_list_4:
  assumes "bi_ok a" "bi_ok b" "bi_ok c" "bi_ok d"
  shows "bi_ok (bi_min_list [a, b, c, d])"
    "bi_rank (bi_min_list [a, b, c, d]) \<le> z \<longleftrightarrow> bi_rank a \<le> z \<or> bi_rank b \<le> z \<or> bi_rank c \<le> z \<or> bi_rank d \<le> z \<or> rank_inf \<le> z"
  using min_vec_rank [of "[a, b, c, d]" plus_infinity] assms by (auto simp: bi_min_list_def min_le_iff_disj)

lemma bi_max_list_4:
  assumes "bi_ok a" "bi_ok b" "bi_ok c" "bi_ok d"
  shows "bi_ok (bi_max_list [a, b, c, d])"
    "z \<le> bi_rank (bi_max_list [a, b, c, d]) \<longleftrightarrow> z \<le> bi_rank a \<or> z \<le> bi_rank b \<or> z \<le> bi_rank c \<or> z \<le> bi_rank d \<or> z \<le> - rank_inf"
  using max_vec_rank [of "[a, b, c, d]" minus_infinity] assms by (auto simp: bi_max_list_def le_max_iff_disj)

text \<open>Bounds that approximate the corners of an operation give an interval with every value between them.\<close>

lemma iv_corners_approx:
  assumes ok: "iv_ok a" "iv_ok b" and r: "iv_corners f a b = Inr r"
    and f: "\<And>s t c. s \<in> {lb_of a, ub_of a} \<Longrightarrow> t \<in> {lb_of b, ub_of b} \<Longrightarrow> f s t = Inr c \<Longrightarrow> approx c (g (bi_rank s) (bi_rank t))"
  defines "cs \<equiv> [g (bi_rank (lb_of a)) (bi_rank (lb_of b)), g (bi_rank (lb_of a)) (bi_rank (ub_of b)),
    g (bi_rank (ub_of a)) (bi_rank (lb_of b)), g (bi_rank (ub_of a)) (bi_rank (ub_of b))]"
  shows "iv_ok r \<and> (\<forall>z. in_sym z \<longrightarrow> min_element cs \<le> z \<longrightarrow> z \<le> max_element cs \<longrightarrow> z \<in> iv_gam r)"
proof -
  obtain ll lu ul uu where c: "f (lb_of a) (lb_of b) = Inr ll" "f (lb_of a) (ub_of b) = Inr lu"
      "f (ub_of a) (lb_of b) = Inr ul" "f (ub_of a) (ub_of b) = Inr uu"
      "iv_make (bi_min_list [ll, lu, ul, uu]) (bi_max_list [ll, lu, ul, uu]) = Inr r"
    using r by (auto simp: iv_corners_def)
  have ap: "approx ll (g (bi_rank (lb_of a)) (bi_rank (lb_of b)))" "approx lu (g (bi_rank (lb_of a)) (bi_rank (ub_of b)))"
      "approx ul (g (bi_rank (ub_of a)) (bi_rank (lb_of b)))" "approx uu (g (bi_rank (ub_of a)) (bi_rank (ub_of b)))"
    using c f by simp_all
  then have oks: "bi_ok ll" "bi_ok lu" "bi_ok ul" "bi_ok uu" by (simp_all add: approxD)
  note mn = bi_min_list_4 [OF oks] and mx = bi_max_list_4 [OF oks]
  have r_ok: "iv_ok r" "r = iv_raw (bi_min_list [ll, lu, ul, uu]) (bi_max_list [ll, lu, ul, uu])"
    using iv_make_ok [OF mn(1) mx(1) c(5)] by blast+
  have "z \<in> iv_gam r" if z: "in_sym z" "min_element cs \<le> z" "z \<le> max_element cs" for z
  proof (rule in_gamI [OF r_ok(1) z(1)])
    show "bi_rank (lb_of r) \<le> z" using z ap unfolding r_ok(2) cs_def iv_sel mn(2)
      by (auto simp: min_element_4 min_le_iff_disj dest: approxD(2))
    show "z \<le> bi_rank (ub_of r)" using z ap unfolding r_ok(2) cs_def iv_sel mx(2)
      by (auto simp: max_element_4 le_max_iff_disj dest: approxD(3))
  qed
  then show ?thesis using r_ok(1) by blast
qed

lemma iv_mul_sound:
  assumes ok: "iv_ok a" "iv_ok b" and r: "iv_mul a b = Inr r"
  shows "iv_ok r \<and> (\<forall>x\<in>iv_gam a. \<forall>y\<in>iv_gam b. in_sym (x * y) \<longrightarrow> x * y \<in> iv_gam r)"
proof (cases "iv_isBottom a \<or> iv_isBottom b")
  case True
  then show ?thesis using r by (auto simp: iv_mul_def dest: iv_gam_nonbottom split: if_splits)
next
  case False
  then have c: "iv_corners bi_safeMul a b = Inr r" using r by (simp add: iv_mul_def)
  have f: "\<And>s t c. s \<in> {lb_of a, ub_of a} \<Longrightarrow> t \<in> {lb_of b, ub_of b} \<Longrightarrow> bi_safeMul s t = Inr c \<Longrightarrow>
      approx c (bi_rank s * bi_rank t)"
    using safeMul_approx iv_okD [OF ok(1)] iv_okD [OF ok(2)] by auto
  note m = iv_corners_approx [where g = "(*)", OF ok c f]
  show ?thesis
  proof (intro conjI ballI impI)
    show "iv_ok r" using m by blast
    fix x y assume xy: "x \<in> iv_gam a" "y \<in> iv_gam b" "in_sym (x * y)"
    have b: "bi_rank (lb_of a) \<le> x" "x \<le> bi_rank (ub_of a)" "bi_rank (lb_of b) \<le> y" "y \<le> bi_rank (ub_of b)"
      using xy gam_ranks ok by blast+
    have "min (x' * bi_rank (lb_of b)) (x' * bi_rank (ub_of b)) \<le> x' * y \<and>
        x' * y \<le> max (x' * bi_rank (lb_of b)) (x' * bi_rank (ub_of b))" for x'
      using mult_between [OF b(3,4), of x'] by (simp add: mult.commute)
    then show "x * y \<in> iv_gam r" using m xy(3) corners [where f = "(*)"] mult_between [OF b(1,2)] by blast
  qed
qed

end
