(* ===== verification/AeDiv.thy ===== *)
theory AeDiv
  imports AeArith
begin

text \<open>
  Soundness of division, remainder, comparisons, bitwise operations and shifts of the intervals of the
  abstract execution (theory AeInterval), by the corners of theory AeArith.
\<close>

section \<open>Division and remainder\<close>

text \<open>The quotient of bounds as \<open>operator/\<close> takes it: that of infinities is infinite.\<close>

definition rank_quot :: "int \<Rightarrow> int \<Rightarrow> int" where
  "rank_quot p q = (if \<bar>p\<bar> = rank_inf \<and> \<bar>q\<bar> = rank_inf then sgn p * sgn q * rank_inf else p sdiv q)"

lemma sdiv_rank_inf: "in64 x \<Longrightarrow> x sdiv rank_inf = 0 \<and> x sdiv (- rank_inf) = 0"
  using in64_rank [of x] by (auto simp: signed_divide_int_def)

lemma in64_not_inf [simp]: "in64 x \<Longrightarrow> \<bar>x\<bar> \<noteq> rank_inf"
  using in64_rank [of x] by auto

lemma rank_inf_sdiv:
  assumes "in64 y" "y \<noteq> 0"
  shows "rINF < rank_inf sdiv \<bar>y\<bar>" "\<bar>y\<bar> < rank_inf"
proof -
  have y: "0 < \<bar>y\<bar>" "\<bar>y\<bar> \<le> 2 ^ 63" using assms by (auto simp: in64_def bounds_defs)
  then have "rank_inf div 2 ^ 63 \<le> rank_inf div \<bar>y\<bar>" by (intro zdiv_mono2) auto
  moreover have "rINF < rank_inf div 2 ^ 63" by (simp add: rank_inf_def bounds_defs)
  ultimately show "rINF < rank_inf sdiv \<bar>y\<bar>" using y by (simp add: sdiv_pos)
  show "\<bar>y\<bar> < rank_inf" using in64_rank [OF assms(1)] by linarith
qed

lemma rank_inf_sdiv_sign:
  assumes "in64 y" "y \<noteq> 0"
  shows "0 < y \<Longrightarrow> rINF < rank_inf sdiv y" "y < 0 \<Longrightarrow> rank_inf sdiv y < - rINF"
    "0 < y \<Longrightarrow> - rank_inf sdiv y < - rINF" "y < 0 \<Longrightarrow> rINF < - rank_inf sdiv y"
  using rank_inf_sdiv [OF assms] sdiv_minus_right [of rank_inf "- y"] sdiv_neg_dividend [of y "- rank_inf"]
    sdiv_neg_dividend [of "- y" "- rank_inf"] sdiv_minus_right [of "- rank_inf" "- y"] sdiv_pos [of y rank_inf] sdiv_pos [of "- y" rank_inf]
  by (auto simp: abs_if)

lemma bi_div_approx:
  assumes "bi_ok a" "bi_ok b" "bi_div a b = Inr c"
  shows "approx c (rank_quot (bi_rank a) (bi_rank b))"
proof (cases rule: bi_cases [OF assms(1)]; cases rule: bi_cases [OF assms(2)])
  fix x y assume ab: "a = bi_fin x" "in64 x" "b = bi_fin y" "in64 y"
  then have nz: "y \<noteq> 0" "\<bar>x\<bar> \<noteq> rank_inf" using assms(3) in64_rank [of x] by (auto simp: bi_div_def bi_is_zero_def)
  then have "c = bi_fin (x sdiv y)" "in64 (x sdiv y)"
    using assms(3) ab cdiv_eq [of x y] in64_sdiv [of x y] by (auto simp: bi_div_def split: if_splits)
  then show ?thesis using ab nz by (simp add: rank_quot_def approx_fin)
next
  fix y assume ab: "a = plus_infinity" "b = bi_fin y" "in64 y"
  then have nz: "y \<noteq> 0" using assms(3) by (auto simp: bi_div_def bi_is_zero_def)
  then show ?thesis using assms(3) ab rank_inf_sdiv [of y] rank_inf_sdiv_sign [of y]
    by (auto simp: bi_div_def bi_neg_def bi_ite_def bi_bool_def bi_is_zero_def rank_quot_def minus_infinity_def [symmetric]
        intro!: approx_intros split: if_splits)
next
  fix y assume ab: "a = minus_infinity" "b = bi_fin y" "in64 y"
  then have nz: "y \<noteq> 0" using assms(3) by (auto simp: bi_div_def bi_is_zero_def)
  then show ?thesis using assms(3) ab rank_inf_sdiv [of y] rank_inf_sdiv_sign [of y]
    by (auto simp: bi_div_def bi_neg_def bi_ite_def bi_bool_def bi_is_zero_def rank_quot_def plus_infinity_def [symmetric]
        intro!: approx_intros split: if_splits)
qed (use assms(3) sdiv_rank_inf in64_rank rank_far(5) in
    \<open>auto simp: bi_div_def bi_is_zero_def rank_quot_def intro!: approx_intros\<close>)

lemma small_sdiv_inf: "\<bar>x\<bar> < rank_inf \<Longrightarrow> \<bar>d\<bar> = rank_inf \<Longrightarrow> x sdiv d = 0"
  by (auto simp: signed_divide_int_def)

lemma rank_quot_dividend:
  assumes "l \<le> x" "x \<le> u" "\<bar>x\<bar> < rank_inf" "d \<noteq> 0" "\<bar>l\<bar> \<le> rank_inf" "\<bar>u\<bar> \<le> rank_inf"
  shows "min (rank_quot l d) (rank_quot u d) \<le> x sdiv d \<and> x sdiv d \<le> max (rank_quot l d) (rank_quot u d)"
proof (cases "\<bar>d\<bar> = rank_inf")
  case False
  then show ?thesis using sdiv_between_dividend [OF assms(4,1,2)] by (simp add: rank_quot_def)
next
  case True
  consider "\<bar>l\<bar> < rank_inf" | "\<bar>u\<bar> < rank_inf" | "l = - rank_inf" "u = rank_inf" using assms by linarith
  then show ?thesis
  proof cases
    case 3
    have "d = rank_inf \<or> d = - rank_inf" using True by linarith
    then show ?thesis using 3 small_sdiv_inf [OF assms(3) True] by (auto simp: rank_quot_def)
  qed (use small_sdiv_inf [OF _ True] assms(3) in \<open>auto simp: rank_quot_def\<close>)
qed

lemma rank_quot_between:
  assumes l: "l \<le> x" "x \<le> u" "in64 x" and m: "m \<le> y" "y \<le> n" "0 < m \<or> n < 0"
    and r: "\<bar>l\<bar> \<le> rank_inf" "\<bar>u\<bar> \<le> rank_inf"
  defines "cs \<equiv> [rank_quot l m, rank_quot l n, rank_quot u m, rank_quot u n]"
  shows "min_element cs \<le> x sdiv y \<and> x sdiv y \<le> max_element cs"
proof -
  have x: "\<bar>x\<bar> < rank_inf" using in64_rank [OF l(3)] by linarith
  have "m \<noteq> 0" "n \<noteq> 0" using m by auto
  note rank_quot_dividend [OF l(1,2) x this(1) r] rank_quot_dividend [OF l(1,2) x this(2) r]
  moreover have "min (x sdiv m) (x sdiv n) \<le> x sdiv y \<and> x sdiv y \<le> max (x sdiv m) (x sdiv n)"
    using sdiv_between_divisor m by blast
  ultimately show ?thesis unfolding cs_def min_element_4 max_element_4 by linarith
qed

lemma div_corners_sound:
  assumes ok: "iv_ok a" "iv_ok b" and nz: "\<not> iv_contains b 0" and r: "iv_corners bi_div a b = Inr r"
  shows "iv_ok r \<and> (\<forall>x\<in>iv_gam a. \<forall>y\<in>iv_gam b. in_sym (x sdiv y) \<longrightarrow> x sdiv y \<in> iv_gam r)"
proof -
  have f: "\<And>s t c. s \<in> {lb_of a, ub_of a} \<Longrightarrow> t \<in> {lb_of b, ub_of b} \<Longrightarrow> bi_div s t = Inr c \<Longrightarrow>
      approx c (rank_quot (bi_rank s) (bi_rank t))"
    using bi_div_approx iv_okD [OF ok(1)] iv_okD [OF ok(2)] by auto
  note m = iv_corners_approx [where g = rank_quot, OF ok r f]
  show ?thesis
  proof (intro conjI ballI impI)
    show "iv_ok r" using m by blast
    fix x y assume xy: "x \<in> iv_gam a" "y \<in> iv_gam b" "in_sym (x sdiv y)"
    have b: "bi_rank (lb_of a) \<le> x" "x \<le> bi_rank (ub_of a)" "bi_rank (lb_of b) \<le> y" "y \<le> bi_rank (ub_of b)"
      using xy gam_ranks ok by blast+
    moreover have "0 < bi_rank (lb_of b) \<or> bi_rank (ub_of b) < 0"
      using nz ok(2) by (auto simp: iv_contains_rank)
    moreover have "\<bar>bi_rank (lb_of a)\<bar> \<le> rank_inf" "\<bar>bi_rank (ub_of a)\<bar> \<le> rank_inf"
      using bi_rank_bounds iv_okD [OF ok(1)] by (simp_all add: abs_le_iff) (metis add.inverse_inverse neg_le_iff_le)+
    ultimately show "x sdiv y \<in> iv_gam r"
      using m rank_quot_between [OF b(1,2) iv_gam_in64 [OF xy(1)] b(3,4)] xy(3) by blast
  qed
qed

lemma iv_create_eq: "bi_ok l \<Longrightarrow> bi_ok u \<Longrightarrow> iv_create l u = Inr (if bi_rank l \<le> bi_rank u then iv_raw l u else iv_bottom)"
  by (simp add: iv_create_def iv_make_eq bi_leq_rank)

text \<open>The parts of an interval that contains \<open>0\<close>.\<close>

lemma iv_neg_part:
  assumes "iv_ok i" "iv_contains i 0"
  shows "\<exists>l. iv_neg_part i = Inr l \<and> iv_ok l \<and> iv_gam l = {x \<in> iv_gam i. x < 0}"
proof -
  have z: "bi_rank (lb_of i) \<le> 0" "0 \<le> bi_rank (ub_of i)" "\<not> iv_isBottom i"
    using assms iv_contains_rank [of i 0] by (auto simp: iv_isBottom_eq)
  show ?thesis
  proof (cases "bi_rank (lb_of i) \<le> - 1")
    case True
    then have "iv_neg_part i = Inr (iv_raw (lb_of i) (bi_fin (- 1)))"
      using z assms iv_okD [OF assms(1)] by (simp add: iv_neg_part_def iv_lb_def iv_create_eq)
    moreover have ok: "iv_ok (iv_raw (lb_of i) (bi_fin (- 1)))" using True iv_okD [OF assms(1)] by (simp add: iv_ok_rawI)
    moreover have "x \<in> iv_gam (iv_raw (lb_of i) (bi_fin (- 1))) \<longleftrightarrow> x \<in> iv_gam i \<and> x < 0" for x
      using z assms(1) by (auto simp: iv_gam_rank [OF ok] iv_gam_rank)
    ultimately show ?thesis by blast
  next
    case False
    then have "iv_neg_part i = Inr iv_bottom"
      using z assms iv_okD [OF assms(1)] by (simp add: iv_neg_part_def iv_lb_def iv_create_eq)
    moreover have "{x \<in> iv_gam i. x < 0} = {}" using False assms(1) by (auto simp: iv_gam_rank)
    ultimately show ?thesis by simp
  qed
qed

lemma iv_pos_part:
  assumes "iv_ok i" "iv_contains i 0"
  shows "\<exists>u. iv_pos_part i = Inr u \<and> iv_ok u \<and> iv_gam u = {x \<in> iv_gam i. 0 < x}"
proof -
  have z: "bi_rank (lb_of i) \<le> 0" "0 \<le> bi_rank (ub_of i)" "\<not> iv_isBottom i"
    using assms iv_contains_rank [of i 0] by (auto simp: iv_isBottom_eq)
  show ?thesis
  proof (cases "1 \<le> bi_rank (ub_of i)")
    case True
    then have "iv_pos_part i = Inr (iv_raw (bi_fin 1) (ub_of i))"
      using z assms iv_okD [OF assms(1)] by (simp add: iv_pos_part_def iv_ub_def iv_create_eq)
    moreover have ok: "iv_ok (iv_raw (bi_fin 1) (ub_of i))" using True iv_okD [OF assms(1)] by (simp add: iv_ok_rawI)
    moreover have "x \<in> iv_gam (iv_raw (bi_fin 1) (ub_of i)) \<longleftrightarrow> x \<in> iv_gam i \<and> 0 < x" for x
      using z assms(1) by (auto simp: iv_gam_rank [OF ok] iv_gam_rank)
    ultimately show ?thesis by blast
  next
    case False
    then have "iv_pos_part i = Inr iv_bottom"
      using z assms iv_okD [OF assms(1)] by (simp add: iv_pos_part_def iv_ub_def iv_create_eq)
    moreover have "{x \<in> iv_gam i. 0 < x} = {}" using False assms(1) by (auto simp: iv_gam_rank)
    ultimately show ?thesis by simp
  qed
qed

lemma iv_join_cover:
  assumes "iv_ok a" "iv_ok b" "iv_join a b = Inr r"
  shows "iv_ok r" "x \<in> iv_gam a \<Longrightarrow> x \<in> iv_gam r" "x \<in> iv_gam b \<Longrightarrow> x \<in> iv_gam r"
  using iv_join_rank(1) [OF assms] iv_join_upper [OF assms] by blast+

lemma iv_div_sound:
  assumes "iv_ok a" "iv_ok b" "iv_div a b = Inr r"
  shows "iv_ok r \<and> (\<forall>x\<in>iv_gam a. \<forall>y\<in>iv_gam b. y \<noteq> 0 \<longrightarrow> in_sym (x sdiv y) \<longrightarrow> x sdiv y \<in> iv_gam r)"
  using assms
proof (induction a b arbitrary: r rule: iv_div.induct)
  case (1 a b)
  note ok = 1(5,6) and r = 1(7)
  show ?case
  proof (cases "iv_isBottom a \<or> iv_isBottom b")
    case True
    then show ?thesis using r by (auto simp: iv_div.simps [of a b] dest: iv_gam_nonbottom)
  next
    case nb: False
    show ?thesis
    proof (cases "iv_contains b 0")
      case z: True
      obtain l u where l: "iv_neg_part b = Inr l" "iv_ok l" "iv_gam l = {x \<in> iv_gam b. x < 0}"
        and u: "iv_pos_part b = Inr u" "iv_ok u" "iv_gam u = {x \<in> iv_gam b. 0 < x}"
        using iv_neg_part iv_pos_part ok(2) z by blast
      then obtain lr ur where q: "iv_div a l = Inr lr" "iv_div a u = Inr ur" "iv_join lr ur = Inr r"
        using r nb z by (auto simp: iv_div.simps [of a b])
      note il = 1(1) [OF nb z l(1) u(1) ok(1) l(2) q(1)] and iu = 1(2) [OF nb z l(1) u(1) q(1) ok(1) u(2) q(2)]
      then have "iv_ok lr" "iv_ok ur" by simp_all
      note j = iv_join_cover [OF this q(3)]
      show ?thesis using il iu j l(3) u(3) by (metis (mono_tags, lifting) mem_Collect_eq linorder_neqE_linordered_idom)
    next
      case nz: False
      show ?thesis
      proof (cases "iv_contains a 0")
        case z: True
        obtain l u where l: "iv_neg_part a = Inr l" "iv_ok l" "iv_gam l = {x \<in> iv_gam a. x < 0}"
          and u: "iv_pos_part a = Inr u" "iv_ok u" "iv_gam u = {x \<in> iv_gam a. 0 < x}"
          using iv_neg_part iv_pos_part ok(1) z by blast
        then obtain lr ur j where q: "iv_div l b = Inr lr" "iv_div u b = Inr ur" "iv_join lr ur = Inr j"
            "iv_join j (iv_of 0) = Inr r"
          using r nb z nz by (auto simp: iv_div.simps [of a b])
        note il = 1(3) [OF nb nz z l(1) u(1) l(2) ok(2) q(1)] and iu = 1(4) [OF nb nz z l(1) u(1) q(1) u(2) ok(2) q(2)]
        then have oks: "iv_ok lr" "iv_ok ur" by simp_all
        note j = iv_join_cover [OF this q(3)]
        have "iv_ok (iv_of 0)" by simp
        note k = iv_join_cover [OF j(1) this q(4)]
        have zero: "0 sdiv y = 0" for y :: int by (simp add: signed_divide_int_def)
        have "0 \<in> iv_gam r" by (rule k(3)) simp
        then show ?thesis using il iu j k l(3) u(3) zero
          by (metis (mono_tags, lifting) mem_Collect_eq linorder_neqE_linordered_idom)
      next
        case False
        then show ?thesis using div_corners_sound [OF ok nz] r nb nz by (simp add: iv_div.simps [of a b])
      qed
    qed
  qed
qed

lemma corners_return:
  assumes "\<And>s t. s \<in> {lb_of a, ub_of a} \<Longrightarrow> t \<in> {lb_of b, ub_of b} \<Longrightarrow> \<exists>c. f s t = Inr c \<and> bi_ok c"
  shows "\<exists>r. iv_corners f a b = Inr r"
proof -
  obtain ll lu ul uu where c: "f (lb_of a) (lb_of b) = Inr ll" "f (lb_of a) (ub_of b) = Inr lu"
      "f (ub_of a) (lb_of b) = Inr ul" "f (ub_of a) (ub_of b) = Inr uu" "bi_ok ll" "bi_ok lu" "bi_ok ul" "bi_ok uu"
    using assms by (metis insert_iff)
  note mn = bi_min_list_4 [OF c(5-8)] and mx = bi_max_list_4 [OF c(5-8)]
  have "bi_rank (bi_min_list [ll, lu, ul, uu]) \<le> bi_rank ll" by (simp add: mn(2))
  also have "\<dots> \<le> bi_rank (bi_max_list [ll, lu, ul, uu])" by (simp add: mx(2))
  finally have "bi_leq (bi_min_list [ll, lu, ul, uu]) (bi_max_list [ll, lu, ul, uu])"
    using mn(1) mx(1) by (simp add: bi_leq_rank)
  then show ?thesis using c(1-4) by (simp add: iv_corners_def iv_make_eq)
qed

text \<open>Division fails only where a quotient of 64-bit numbers does: at the least value over \<open>-1\<close>.\<close>

lemma bi_div_returns:
  assumes "bi_ok a" "bi_ok b" "a \<noteq> bi_fin rNINF" "b \<noteq> bi_fin 0"
  shows "\<exists>c. bi_div a b = Inr c \<and> bi_ok c"
proof -
  have "iVal b \<noteq> 0" using assms(2,4) by (elim bi_cases) auto
  then show ?thesis
    using assms(1-3) in64_sdiv [of "iVal a" "iVal b"]
    by (cases rule: bi_cases [OF assms(1)]; cases rule: bi_cases [OF assms(2)])
      (auto simp: bi_div_def bi_is_zero_def cdiv_eq bi_neg_def bi_ite_def bi_ok_def)
qed

lemma iv_div_returns:
  assumes "iv_ok a" "iv_ok b" "lb_of a \<noteq> bi_fin rNINF" "ub_of a \<noteq> bi_fin rNINF"
  shows "\<exists>r. iv_div a b = Inr r"
  using assms
proof (induction a b rule: iv_div.induct)
  case (1 a b)
  note ok = 1(5,6)
  show ?case
  proof (cases "iv_isBottom a \<or> iv_isBottom b")
    case True
    then show ?thesis by (auto simp: iv_div.simps [of a b])
  next
    case nb: False
    show ?thesis
    proof (cases "iv_contains b 0")
      case z: True
      obtain l u where l: "iv_neg_part b = Inr l" "iv_ok l" and u: "iv_pos_part b = Inr u" "iv_ok u"
        using iv_neg_part iv_pos_part ok(2) z by blast
      obtain lr where lr: "iv_div a l = Inr lr" using 1(1) [OF nb z l(1) u(1)] ok l(2) 1(7,8) by blast
      obtain ur where ur: "iv_div a u = Inr ur" using 1(2) [OF nb z l(1) u(1) lr] ok u(2) 1(7,8) by blast
      have "iv_ok lr" "iv_ok ur" using iv_div_sound lr ur ok(1) l(2) u(2) by blast+
      then show ?thesis using lr ur l u nb z by (simp add: iv_div.simps [of a b] iv_join_eq)
    next
      case nz: False
      show ?thesis
      proof (cases "iv_contains a 0")
        case z: True
        obtain l u where l: "iv_neg_part a = Inr l" "iv_ok l" and u: "iv_pos_part a = Inr u" "iv_ok u"
          using iv_neg_part iv_pos_part ok(1) z by blast
        have e: "lb_of l \<noteq> bi_fin rNINF" "ub_of l \<noteq> bi_fin rNINF" "lb_of u \<noteq> bi_fin rNINF" "ub_of u \<noteq> bi_fin rNINF"
          using l(1) u(1) 1(7,8) nb
          by (auto simp: iv_neg_part_def iv_pos_part_def iv_lb_def iv_ub_def iv_create_def iv_make_eq bounds_defs split: if_splits)
        obtain lr where lr: "iv_div l b = Inr lr" using 1(3) [OF nb nz z l(1) u(1)] ok l(2) e by blast
        obtain ur where ur: "iv_div u b = Inr ur" using 1(4) [OF nb nz z l(1) u(1) lr] ok u(2) e by blast
        have "iv_ok lr" "iv_ok ur" using iv_div_sound lr ur ok(2) l(2) u(2) by blast+
        moreover then obtain j where "iv_join lr ur = Inr j" "iv_ok j" using aei.join_returns by blast
        moreover then have "\<exists>r. iv_join j (iv_of 0) = Inr r" by (simp add: iv_join_eq)
        ultimately show ?thesis using lr ur l u nb z nz by (auto simp: iv_div.simps [of a b])
      next
        case z: False
        have "lb_of b \<noteq> bi_fin 0" "ub_of b \<noteq> bi_fin 0"
          using nz ok(2) iv_ok_rank [of b] nb by (auto simp: iv_contains_rank)
        then have "\<exists>r. iv_corners bi_div a b = Inr r"
          using bi_div_returns iv_okD [OF ok(1)] iv_okD [OF ok(2)] 1(7,8) by (intro corners_return) auto
        then show ?thesis using nb nz z by (simp add: iv_div.simps [of a b])
      qed
    qed
  qed
qed

end
