(* ===== verification/AeOps.thy ===== *)
theory AeOps
  imports AeDiv
begin

text \<open>
  Soundness of the remainder, of the comparisons, of the bitwise operations and of the shifts of the
  intervals of the abstract execution (theory AeInterval).
\<close>

section \<open>Remainder\<close>

lemma getNumeral_sign:
  "bi_ok b \<Longrightarrow> getNumeral b < 0 \<longleftrightarrow> bi_rank b < 0"
  "bi_ok b \<Longrightarrow> 0 < getNumeral b \<longleftrightarrow> 0 < bi_rank b"
  "bi_ok b \<Longrightarrow> 0 \<le> getNumeral b \<longleftrightarrow> 0 \<le> bi_rank b"
  by (elim bi_cases; simp add: getNumeral_def bounds_defs)+

lemma getNumeral_fin [simp]: "getNumeral (bi_fin x) = x"
  by (simp add: getNumeral_def)

lemma bi_abs_rank:
  assumes "bi_ok a" "bi_abs a = Inr c" shows "bi_ok c \<and> bi_rank c = \<bar>bi_rank a\<bar>"
  using assms bi_neg_rank [of a] bi_leq_rank [of a "bi_fin 0"] by (auto simp: bi_abs_def split: if_splits)

lemma bi_mod_fin:
  assumes "in64 x" "in64 y" "bi_mod (bi_fin x) (bi_fin y) = Inr c" shows "c = bi_fin (x smod y) \<and> y \<noteq> 0"
  using assms crem_eq [of x y] by (auto simp: bi_mod_def bi_is_zero_def split: if_splits)

lemma smod_in_sym: "in64 y \<Longrightarrow> y \<noteq> 0 \<Longrightarrow> in_sym (x smod y)"
  using smod_bounds(1) [of y x] by (auto simp: in_sym_def in64_def bounds_defs)

lemma smod_neg: "y \<noteq> 0 \<Longrightarrow> x \<le> 0 \<Longrightarrow> x smod y \<le> 0 \<and> x \<le> x smod y" for x y :: int
  using smod_bounds(2) [of y "- x"] by (cases "x = 0") (auto simp: signed_modulo_int_def)

lemma bi_mod_ok: "bi_ok a \<Longrightarrow> bi_ok b \<Longrightarrow> bi_mod a b = Inr c \<Longrightarrow> bi_ok c"
proof (cases rule: bi_cases [of a]; cases rule: bi_cases [of b])
  fix x y assume "a = bi_fin x" "in64 x" "b = bi_fin y" "in64 y" "bi_mod a b = Inr c"
  then show ?thesis using bi_mod_fin [of x y c] smod_in_sym [of y x] in_sym_in64 by auto
qed (auto simp: bi_mod_def bi_neg_def bi_ite_def bi_ok_def split: if_splits)

lemma numeral_gam:
  assumes "iv_ok i" "iv_is_numeral i" "x \<in> iv_gam i" shows "lb_of i = bi_fin x \<and> ub_of i = bi_fin x \<and> in64 x"
proof -
  have e: "lb_of i = ub_of i" using assms(2) by (simp add: iv_is_numeral_def)
  have "bi_rank (lb_of i) = x" "in64 x" using assms(1,3) e by (auto simp: iv_gam_rank)
  then show ?thesis using e iv_okD(1) [OF assms(1)] bi_rank_inject [of "lb_of i" "bi_fin x"] by simp
qed

lemma iv_mod_bound:
  assumes ok: "iv_ok a" "iv_ok b" and xy: "x \<in> iv_gam a" "y \<in> iv_gam b" "y \<noteq> 0"
    and abs: "bi_abs (lb_of a) = Inr al" "bi_abs (ub_of a) = Inr au" "bi_abs (lb_of b) = Inr bl"
      "bi_sub (bi_max bl (ub_of b)) (bi_fin 1) = Inr d"
  shows "\<bar>x smod y\<bar> \<le> bi_rank (bi_min (bi_max al au) d)" and "bi_ok (bi_min (bi_max al au) d)"
proof -
  have r: "bi_ok al" "bi_ok au" "bi_ok bl" "bi_rank al = \<bar>bi_rank (lb_of a)\<bar>" "bi_rank au = \<bar>bi_rank (ub_of a)\<bar>"
      "bi_rank bl = \<bar>bi_rank (lb_of b)\<bar>"
    using bi_abs_rank abs ok iv_okD by blast+
  have d: "approx d (bi_rank (bi_max bl (ub_of b)) - 1)"
    using bi_sub_approx [OF _ _ abs(4)] r iv_okD ok by simp
  have "y \<in> iv_gam b \<Longrightarrow> \<bar>y\<bar> \<le> bi_rank (bi_max bl (ub_of b))"
    using gam_ranks [OF ok(2), of y] r iv_okD [OF ok(2)] by auto
  then have "\<bar>x smod y\<bar> \<le> bi_rank (bi_max bl (ub_of b)) - 1" using smod_bounds(1) [OF xy(3), of x] xy(2) by linarith
  moreover have s: "in_sym \<bar>x smod y\<bar>"
    using smod_in_sym [OF iv_gam_in64 [OF xy(2)] xy(3), of x] by (auto simp: in_sym_def)
  ultimately have "\<bar>x smod y\<bar> \<le> bi_rank d" using approxD(3) [OF d s] by blast
  moreover have "\<bar>x smod y\<bar> \<le> \<bar>x\<bar>" using smod_bounds(2) [OF xy(3), of x] smod_neg [OF xy(3), of x] by linarith
  moreover have "\<bar>x\<bar> \<le> bi_rank (bi_max al au)" using gam_ranks [OF ok(1) xy(1)] r by auto
  ultimately show "\<bar>x smod y\<bar> \<le> bi_rank (bi_min (bi_max al au) d)" using r approxD(1) [OF d] by simp
  show "bi_ok (bi_min (bi_max al au) d)" using r approxD(1) [OF d] by simp
qed

lemma iv_mod_ok:
  assumes ok: "iv_ok a" "iv_ok b" and r: "iv_mod a b = Inr r"
  shows "iv_ok r"
proof -
  have mk: "iv_ok r" if "iv_make l u = Inr r" "bi_ok l" "bi_ok u" for l u using that iv_make_ok by blast
  have i: "iv_make_int 0 0 = Inr r \<Longrightarrow> iv_ok r" using mk [of "bi_fin 0" "bi_fin 0"] by (simp add: iv_make_int_def)
  have m: "iv_ok r" if n: "bi_mod (lb_of a) (lb_of b) = Inr l" "iv_make l l = Inr r" for l
    using mk [OF n(2)] bi_mod_ok [OF _ _ n(1)] iv_okD ok by blast
  show ?thesis
  proof (cases "iv_isBottom a \<or> iv_isBottom b \<or> iv_contains b 0 \<or> iv_is_numeral a \<and> iv_is_numeral b")
    case True
    then show ?thesis using r i m by (auto simp: iv_mod_def split: if_splits)
  next
    case False
    then obtain al au bl d where q: "bi_abs (lb_of a) = Inr al" "bi_abs (ub_of a) = Inr au" "bi_abs (lb_of b) = Inr bl"
        "bi_sub (bi_max bl (ub_of b)) (bi_fin 1) = Inr d"
      using r by (auto simp: iv_mod_def split: if_splits)
    have "bi_ok al" "bi_ok au" "bi_ok bl" using q bi_abs_rank ok iv_okD by blast+
    moreover then have "bi_ok d" using bi_sub_approx [OF _ _ q(4)] iv_okD ok approxD(1) by (meson bi_max_ok bi_ok_simps(3) in64_consts(4))
    ultimately have ub: "bi_ok (bi_min (bi_max al au) d)" by simp
    then have "bi_neg (bi_min (bi_max al au) d) = Inr n \<Longrightarrow> bi_ok n" for n using bi_neg_rank by blast
    then show ?thesis using r False q ub mk by (auto simp: iv_mod_def Let_def split: if_splits)
  qed
qed

lemma iv_mod_sound:
  assumes ok: "iv_ok a" "iv_ok b" and r: "iv_mod a b = Inr r" and xy: "x \<in> iv_gam a" "y \<in> iv_gam b" "y \<noteq> 0"
  shows "x smod y \<in> iv_gam r"
proof -
  have nb: "\<not> iv_isBottom a" "\<not> iv_isBottom b" using xy iv_gam_nonbottom by blast+
  have s: "in_sym (x smod y)" using smod_in_sym iv_gam_in64 xy by blast
  have r_ok: "iv_ok r" using iv_mod_ok [OF ok r] .
  show ?thesis
  proof (cases "iv_contains b 0")
    case True
    have "x = 0" if "iv_is_zero a" using that gam_ranks [OF ok(1) xy(1)] iv_okD [OF ok(1)]
      by (auto simp: iv_is_zero_def bi_is_zero_def bi_rank_def bi_tests)
    then show ?thesis using True nb r s
      by (auto simp: iv_mod_def iv_make_int_le in_sym_in64 signed_modulo_int_def iv_of_def [symmetric] split: if_splits)
  next
    case nz: False
    show ?thesis
    proof (cases "iv_is_numeral a \<and> iv_is_numeral b")
      case True
      then have n: "lb_of a = bi_fin x" "lb_of b = bi_fin y" "in64 x" "in64 y" using numeral_gam ok xy by blast+
      then show ?thesis using True nb nz r bi_mod_fin [of x y] s in_sym_in64
        by (auto simp: iv_mod_def iv_make_eq bi_leq_def iv_of_def [symmetric] split: if_splits)
    next
      case False
      then obtain al au bl d where q: "bi_abs (lb_of a) = Inr al" "bi_abs (ub_of a) = Inr au" "bi_abs (lb_of b) = Inr bl"
          "bi_sub (bi_max bl (ub_of b)) (bi_fin 1) = Inr d"
        using r nb nz by (auto simp: iv_mod_def)
      define ub where "ub = bi_min (bi_max al au) d"
      note b = iv_mod_bound [OF ok xy q, folded ub_def]
      have neg: "bi_neg ub = Inr n \<Longrightarrow> bi_ok n \<and> bi_rank n = - bi_rank ub" for n using bi_neg_rank b(2) by blast
      have sg: "bi_rank (lb_of a) \<le> x" "x \<le> bi_rank (ub_of a)" using gam_ranks [OF ok(1) xy(1)] by auto
      have z: "x \<le> 0 \<Longrightarrow> x smod y \<le> 0" "0 \<le> x \<Longrightarrow> 0 \<le> x smod y"
        using smod_neg [OF xy(3), of x] smod_bounds(2) [OF xy(3), of x] by auto
      consider n where "bi_rank (ub_of a) > 0" "bi_neg ub = Inr n" "r = iv_raw n ub"
        | n where "bi_rank (ub_of a) \<le> 0" "bi_neg ub = Inr n" "r = iv_raw n (bi_fin 0)"
        | "0 \<le> bi_rank (lb_of a)" "r = iv_raw (bi_fin 0) ub"
        using r nb nz False q getNumeral_sign iv_okD [OF ok(1)]
        by (auto simp: iv_mod_def Let_def iv_make_eq ub_def [symmetric] not_less split: if_splits)
      then show ?thesis
      proof cases
        case (1 n)
        then show ?thesis using neg [of n] b(1) by (intro in_gamI [OF r_ok s]) auto
      next
        case (2 n)
        then have "x smod y \<le> 0" using sg z by auto
        then show ?thesis using 2 neg [of n] b(1) by (intro in_gamI [OF r_ok s]) auto
      next
        case 3
        then have "0 \<le> x smod y" using sg z by auto
        then show ?thesis using 3 b(1) by (intro in_gamI [OF r_ok s]) auto
      qed
    qed
  qed
qed

section \<open>Comparisons\<close>

text \<open>The truth values that a comparison of members can take.\<close>

definition iv_truth :: "bool \<Rightarrow> bool \<Rightarrow> interval" where
  "iv_truth f t = iv_raw (bi_fin (of_bool (\<not> f))) (bi_fin (of_bool t))"

lemma iv_truth_gam: "f \<or> t \<Longrightarrow> of_bool p \<in> iv_gam (iv_truth f t) \<longleftrightarrow> (if p then t else f)"
  by (auto simp: iv_gam_def iv_contains_def iv_truth_def bi_leq_def bi_geq_def)

lemma iv_truth_0_1: "f \<or> t \<Longrightarrow> 1 \<in> iv_gam (iv_truth f t) \<longleftrightarrow> t" "f \<or> t \<Longrightarrow> 0 \<in> iv_gam (iv_truth f t) \<longleftrightarrow> f"
  using iv_truth_gam [of f t True] iv_truth_gam [of f t False] by simp_all

lemma iv_truth_make:
  "iv_make_int 0 0 = Inr (iv_truth True False)" "iv_make_int 1 1 = Inr (iv_truth False True)"
  "iv_make_int 0 1 = Inr (iv_truth True True)"
  by (simp_all add: iv_make_int_le iv_truth_def)

lemma iv_truth_ok [simp]: "f \<or> t \<Longrightarrow> iv_ok (iv_truth f t)"
  by (auto simp: iv_truth_def intro!: iv_ok_rawI)

lemma in64_of_bool [simp]: "in64 (of_bool p)"
  by (cases p) simp_all

lemma iv_compare_sound:
  assumes f: "\<And>x y. x \<in> iv_gam a \<Longrightarrow> y \<in> iv_gam b \<Longrightarrow> \<exists>r. f a b = Inr r \<and> iv_ok r \<and> of_bool (P x y) \<in> iv_gam r"
    and xy: "x \<in> iv_gam a" "y \<in> iv_gam b"
  shows "\<exists>r. iv_compare f a b = Inr r \<and> of_bool (P x y) \<in> iv_gam r"
  using iv_gam_nonbottom [OF xy(1)] iv_gam_nonbottom [OF xy(2)] f [OF xy] by (auto simp: iv_compare_def)

lemma meet_bottom_gam:
  assumes "iv_ok a" "iv_ok b" "x \<in> iv_gam a" "x \<in> iv_gam b" "iv_meet a b = Inr v" shows "\<not> iv_isBottom v"
  using iv_meet_gam [OF assms(1,2,5)] assms(3,4) iv_gam_nonbottom by blast

lemma iv_order_sound:
  assumes ok: "iv_ok a" "iv_ok b" and xy: "x \<in> iv_gam a" "y \<in> iv_gam b"
  shows "\<exists>r. iv_eq_op a b = Inr r \<and> of_bool (x = y) \<in> iv_gam r"
    and "\<exists>r. iv_ne_op a b = Inr r \<and> of_bool (x \<noteq> y) \<in> iv_gam r"
    and "\<exists>r. iv_gt_op a b = Inr r \<and> of_bool (x > y) \<in> iv_gam r"
    and "\<exists>r. iv_lt_op a b = Inr r \<and> of_bool (x < y) \<in> iv_gam r"
    and "\<exists>r. iv_ge_op a b = Inr r \<and> of_bool (x \<ge> y) \<in> iv_gam r"
    and "\<exists>r. iv_le_op a b = Inr r \<and> of_bool (x \<le> y) \<in> iv_gam r"
proof -
  have n: "x = bi_rank (lb_of a) \<and> y = bi_rank (lb_of b) \<and> (lb_of a = lb_of b \<longleftrightarrow> x = y)"
    if "iv_is_numeral a \<and> iv_is_numeral b" "x \<in> iv_gam a" "y \<in> iv_gam b" for x y
    using numeral_gam [OF ok(1) _ that(2)] numeral_gam [OF ok(2) _ that(3)] that(1) by simp
  note l = bi_leq_rank [OF iv_okD(1) [OF ok(1)] iv_okD(1) [OF ok(2)]] bi_leq_rank [OF iv_okD(1) [OF ok(1)] iv_okD(2) [OF ok(2)]]
    bi_leq_rank [OF iv_okD(2) [OF ok(1)] iv_okD(1) [OF ok(2)]] bi_geq_rank [OF iv_okD(1) [OF ok(1)] iv_okD(1) [OF ok(2)]]
    bi_geq_rank [OF iv_okD(1) [OF ok(1)] iv_okD(2) [OF ok(2)]] bi_geq_rank [OF iv_okD(2) [OF ok(1)] iv_okD(1) [OF ok(2)]]
  note t = iv_truth_make iv_truth_gam iv_truth_0_1
  obtain v where v: "iv_meet a b = Inr v" using ok by (simp add: iv_meet_eq)
  have bot: "x = y \<Longrightarrow> x \<in> iv_gam a \<Longrightarrow> y \<in> iv_gam b \<Longrightarrow> \<not> iv_isBottom v" for x y
    using meet_bottom_gam [OF ok _ _ v] by blast
  show "\<exists>r. iv_eq_op a b = Inr r \<and> of_bool (x = y) \<in> iv_gam r" unfolding iv_eq_op_def
    by (rule iv_compare_sound [OF _ xy]) (use n bot in \<open>auto simp: v t\<close>)
  show "\<exists>r. iv_ne_op a b = Inr r \<and> of_bool (x \<noteq> y) \<in> iv_gam r" unfolding iv_ne_op_def
    by (rule iv_compare_sound [OF _ xy]) (use n bot in \<open>auto simp: v t\<close>)
  show "\<exists>r. iv_gt_op a b = Inr r \<and> of_bool (x > y) \<in> iv_gam r" unfolding iv_gt_op_def
    by (rule iv_compare_sound [OF _ xy]) (use n gam_ranks [OF ok(1)] gam_ranks [OF ok(2)] in \<open>fastforce simp: l t\<close>)
  show "\<exists>r. iv_lt_op a b = Inr r \<and> of_bool (x < y) \<in> iv_gam r" unfolding iv_lt_op_def
    by (rule iv_compare_sound [OF _ xy]) (use n gam_ranks [OF ok(1)] gam_ranks [OF ok(2)] in \<open>fastforce simp: l t\<close>)
  show "\<exists>r. iv_ge_op a b = Inr r \<and> of_bool (x \<ge> y) \<in> iv_gam r" unfolding iv_ge_op_def
    by (rule iv_compare_sound [OF _ xy]) (use n gam_ranks [OF ok(1)] gam_ranks [OF ok(2)] in \<open>fastforce simp: l t\<close>)
  show "\<exists>r. iv_le_op a b = Inr r \<and> of_bool (x \<le> y) \<in> iv_gam r" unfolding iv_le_op_def
    by (rule iv_compare_sound [OF _ xy]) (use n gam_ranks [OF ok(1)] gam_ranks [OF ok(2)] in \<open>fastforce simp: l t\<close>)
qed

section \<open>Bitwise operations\<close>

lemma iv_make_numeral: "iv_make l l = Inr r \<Longrightarrow> bi_ok l \<Longrightarrow> iv_ok r \<and> r = iv_raw l l"
  using iv_make_ok by blast

lemma bi_bits_ok:
  "bi_ok a \<Longrightarrow> bi_ok b \<Longrightarrow> bi_ok (bi_and a b) \<and> bi_ok (bi_or a b) \<and> bi_ok (bi_xor a b)"
proof -
  have "in64 (iVal a)" if "bi_ok a" for a using that by (elim bi_cases) auto
  then show "bi_ok a \<Longrightarrow> bi_ok b \<Longrightarrow> bi_ok (bi_and a b) \<and> bi_ok (bi_or a b) \<and> bi_ok (bi_xor a b)"
    using in64_ops [of "iVal a" "iVal b"] by (simp add: bi_and_def bi_or_def bi_xor_def)
qed

lemma iv_and_sound:
  assumes ok: "iv_ok a" "iv_ok b" and r: "iv_and a b = Inr r"
  shows "iv_ok r \<and> (\<forall>x\<in>iv_gam a. \<forall>y\<in>iv_gam b. x AND y \<in> iv_gam r)"
proof -
  note o = iv_okD [OF ok(1)] iv_okD [OF ok(2)]
  consider "iv_isBottom a \<or> iv_isBottom b" "r = iv_bottom" | "r = iv_top"
    | "iv_is_numeral a" "iv_is_numeral b" "r = iv_raw (bi_and (lb_of a) (lb_of b)) (bi_and (lb_of a) (lb_of b))"
    | "0 \<le> bi_rank (lb_of a)" "0 \<le> bi_rank (lb_of b)" "iv_make (bi_fin 0) (bi_min (ub_of a) (ub_of b)) = Inr r"
    | "0 \<le> bi_rank (lb_of a)" "iv_make (bi_fin 0) (ub_of a) = Inr r"
    | "0 \<le> bi_rank (lb_of b)" "iv_make (bi_fin 0) (ub_of b) = Inr r"
    using r getNumeral_sign(3) o by (auto simp: iv_and_def iv_make_eq split: if_splits)
  then show ?thesis
  proof cases
    case 1
    then show ?thesis by (auto dest: iv_gam_nonbottom)
  next
    case 2
    then show ?thesis by (auto dest!: iv_gam_in64 simp: in64_ops)
  next
    case 3
    then have "iv_ok r" using bi_bits_ok [OF o(1,3)] by (simp add: iv_ok_rawI)
    then show ?thesis using 3 numeral_gam [OF ok(1)] numeral_gam [OF ok(2)] in64_ops
      by (auto simp: iv_gam_rank bi_and_def)
  next
    case 4
    note m = iv_make_ok [OF _ _ 4(3)]
    have "iv_ok r" "r = iv_raw (bi_fin 0) (bi_min (ub_of a) (ub_of b))" using m o by auto
    moreover have "0 \<le> x AND y \<and> x AND y \<le> bi_rank (ub_of a) \<and> x AND y \<le> bi_rank (ub_of b)"
      if "x \<in> iv_gam a" "y \<in> iv_gam b" for x y
      using gam_ranks [OF ok(1) that(1)] gam_ranks [OF ok(2) that(2)] 4(1,2) and_nonneg_le [of x y] nonneg_and_le [of y x]
      by linarith
    ultimately show ?thesis using o iv_gam_in64 in64_ops by (simp add: iv_gam_rank)
  next
    case 5
    have "iv_ok r" "r = iv_raw (bi_fin 0) (ub_of a)" using iv_make_ok [OF _ _ 5(2)] o by auto
    moreover have "0 \<le> x AND y \<and> x AND y \<le> bi_rank (ub_of a)" if "x \<in> iv_gam a" for x y
      using gam_ranks [OF ok(1) that] 5(1) and_nonneg_le [of x y] by linarith
    ultimately show ?thesis using o iv_gam_in64 in64_ops by (simp add: iv_gam_rank)
  next
    case 6
    have "iv_ok r" "r = iv_raw (bi_fin 0) (ub_of b)" using iv_make_ok [OF _ _ 6(2)] o by auto
    moreover have "0 \<le> x AND y \<and> x AND y \<le> bi_rank (ub_of b)" if "y \<in> iv_gam b" for x y
      using gam_ranks [OF ok(2) that] 6(1) nonneg_and_le [of y x] by linarith
    ultimately show ?thesis using o iv_gam_in64 in64_ops by (simp add: iv_gam_rank)
  qed
qed

lemma bit_length_loop_bound:
  assumes "bit_length_loop m i = Inr j" "0 \<le> m" shows "m < 2 ^ j"
  using assms
proof (induction m i rule: bit_length_loop.induct)
  case (1 m i)
  show ?case
  proof (cases "drop_bit i m = 0")
    case True
    then have "j = i" using 1(2) by (simp add: bit_length_loop.simps [of m i] split: if_splits)
    then show ?thesis using True 1(3) by (simp add: drop_bit_eq_div zdiv_eq_0_iff) (use not_le in \<open>fastforce\<close>)
  next
    case False
    then show ?thesis using 1 by (simp add: bit_length_loop.simps [of m i] split: if_splits)
  qed
qed

lemma shl32_one_small: "0 \<le> n \<Longrightarrow> n \<le> 30 \<Longrightarrow> shl32_one n = Inr (2 ^ nat n)"
proof -
  assume n: "0 \<le> n" "n \<le> 30"
  then have "(2 :: int) ^ nat n \<le> 2 ^ 30" by (intro power_increasing) auto
  moreover have "(0 :: int) \<le> 2 ^ nat n" "(2 :: int) ^ 30 < 2 ^ 31" "- (2 ^ 31 :: int) < 0" by simp_all
  ultimately have "signed_take_bit 31 (2 ^ nat n) = (2 ^ nat n :: int)" by (intro signed_take_bit_int_eq_self) linarith+
  then show ?thesis using n by (simp add: shl32_one_def as_s32_def)
qed

lemma shl32_one_31 [simp]: "shl32_one 31 = Inr (- (2 ^ 31))"
  by code_simp

lemma next_power_bound:
  assumes "0 \<le> m" "next_power_of_2 m = Inr p" "s32_op (p - 1) = Inr u"
  shows "\<exists>j. m < 2 ^ j \<and> u = 2 ^ j - 1 \<and> j \<le> 30"
proof -
  obtain j where j: "bit_length_loop m 1 = Inr j" "shl32_one (int j) = Inr p" using assms(2) by (auto simp: next_power_of_2_def)
  have "j < 32" using j(2) by (simp add: shl32_one_def split: if_splits)
  moreover have "j \<noteq> 31" using j(2) assms(3) by (auto simp: s32_op_def split: if_splits)
  ultimately have "j \<le> 30" by simp
  then show ?thesis using j assms bit_length_loop_bound [OF j(1)] shl32_one_small [of "int j"]
    by (auto simp: s32_op_def split: if_splits)
qed

lemma iv_or_xor_sound:
  assumes ok: "iv_ok a" "iv_ok b" and r: "iv_or_xor f a b = Inr r"
    and f: "f = bi_or \<and> g = (OR) \<or> f = bi_xor \<and> g = (XOR)"
  shows "iv_ok r \<and> (\<forall>x\<in>iv_gam a. \<forall>y\<in>iv_gam b. g x y \<in> iv_gam r)"
proof -
  note o = iv_okD [OF ok(1)] iv_okD [OF ok(2)]
  have g: "in64 x \<Longrightarrow> in64 y \<Longrightarrow> in64 (g x y)" for x y using f in64_ops by auto
  have fo: "bi_ok (f (lb_of a) (lb_of b))" using f bi_bits_ok [OF o(1,3)] by auto
  consider "iv_isBottom a \<or> iv_isBottom b" "r = iv_bottom" | "r = iv_top"
    | "iv_is_numeral a" "iv_is_numeral b" "r = iv_raw (f (lb_of a) (lb_of b)) (f (lb_of a) (lb_of b))"
    | p u where "0 \<le> bi_rank (lb_of a)" "0 \<le> bi_rank (lb_of b)" "\<not> is_infinity (ub_of a)" "\<not> is_infinity (ub_of b)"
        "next_power_of_2 (max (getNumeral (ub_of a)) (getNumeral (ub_of b))) = Inr p" "s32_op (p - 1) = Inr u"
        "iv_make_int 0 u = Inr r" "\<not> iv_isBottom a" "\<not> iv_isBottom b"
    using r getNumeral_sign(3) o by (auto simp: iv_or_xor_def iv_make_eq Let_def split: if_splits)
  then show ?thesis
  proof cases
    case 1
    then show ?thesis by (auto dest: iv_gam_nonbottom)
  next
    case 2
    then show ?thesis using g by (auto dest!: iv_gam_in64)
  next
    case 3
    have "iv_ok r" using 3 fo by (simp add: iv_ok_rawI)
    moreover have "f (bi_fin x) (bi_fin y) = bi_fin (g x y)" for x y using f by (auto simp: bi_or_def bi_xor_def)
    ultimately show ?thesis using 3 numeral_gam [OF ok(1)] numeral_gam [OF ok(2)] g
      by (auto simp: iv_gam_rank)
  next
    case (4 p u)
    have rk: "getNumeral (ub_of a) = bi_rank (ub_of a)" "getNumeral (ub_of b) = bi_rank (ub_of b)"
      using 4(3,4) by (simp_all add: getNumeral_def bi_rank_def is_infinity_def)
    have m: "0 \<le> max (bi_rank (ub_of a)) (bi_rank (ub_of b))"
      using 4(1,8) iv_ok_rank [OF ok(1)] by simp
    obtain j where j: "max (bi_rank (ub_of a)) (bi_rank (ub_of b)) < 2 ^ j" "u = 2 ^ j - 1" "j \<le> 30"
      using next_power_bound [OF _ 4(5,6)] rk m by auto
    have u64: "in64 u" using in64_mask [of j] j by simp
    have r': "iv_ok r" "r = iv_raw (bi_fin 0) (bi_fin u)"
      using iv_make_ok [of "bi_fin 0" "bi_fin u"] 4(7) u64 by (auto simp: iv_make_int_def)
    have "g x y \<in> iv_gam r" if xy: "x \<in> iv_gam a" "y \<in> iv_gam b" for x y
    proof -
      have "0 \<le> x" "0 \<le> y" "x < 2 ^ j" "y < 2 ^ j"
        using gam_ranks [OF ok(1) xy(1)] gam_ranks [OF ok(2) xy(2)] 4(1,2) j(1) by auto
      note nonneg_or_xor [OF this]
      then have "0 \<le> g x y" "g x y < 2 ^ j" using f \<open>0 \<le> x\<close> \<open>0 \<le> y\<close> by auto
      then show ?thesis using r' g [OF iv_gam_in64 [OF xy(1)] iv_gam_in64 [OF xy(2)]] j(2) by (simp add: iv_gam_rank)
    qed
    then show ?thesis using r'(1) by blast
  qed
qed

section \<open>Shifts\<close>

definition rank_shr :: "int \<Rightarrow> int \<Rightarrow> int" where
  "rank_shr p q = (if \<bar>p\<bar> = rank_inf then p else if q = rank_inf then (if 0 \<le> p then 0 else - 1) else drop_bit (nat q) p)"

lemma bi_shr_approx:
  assumes "bi_ok a" "bi_ok b" "bi_shr a b = Inr c"
  shows "approx c (rank_shr (bi_rank a) (bi_rank b))"
proof (cases rule: bi_cases [OF assms(1)]; cases rule: bi_cases [OF assms(2)])
  fix x y assume ab: "a = bi_fin x" "in64 x" "b = bi_fin y" "in64 y"
  then have "y \<noteq> rank_inf" using in64_rank [of y] by auto
  moreover have "\<bar>x\<bar> \<noteq> rank_inf" using ab by simp
  ultimately show ?thesis using assms(3) ab drop_bit_in64 [of x "nat y"]
    by (auto simp: bi_shr_def bi_is_zero_def rank_shr_def bi_geq_def intro!: approx_fin split: if_splits)
next
  fix x assume ab: "a = bi_fin x" "in64 x" "b = plus_infinity"
  moreover have "\<bar>x\<bar> \<noteq> rank_inf" using ab by simp
  ultimately show ?thesis using assms(3)
    by (auto simp: bi_shr_def bi_is_zero_def rank_shr_def bi_geq_def intro!: approx_fin split: if_splits)
qed (use assms(3) rank_far(5) in \<open>auto simp: bi_shr_def bi_is_zero_def rank_shr_def bi_geq_def intro!: approx_intros split: if_splits\<close>)

lemma rank_shr_between:
  assumes l: "l \<le> x" "x \<le> u" "in64 x" "0 < l \<or> u < 0" and m: "0 \<le> m" "m \<le> y" "y \<le> n" "in64 y"
  defines "cs \<equiv> [rank_shr l m, rank_shr l n, rank_shr u m, rank_shr u n]"
  shows "min_element cs \<le> drop_bit (nat y) x \<and> drop_bit (nat y) x \<le> max_element cs"
proof -
  have x: "- rank_inf < x" "x < rank_inf" and y: "y < rank_inf" using in64_rank l(3) m(4) by blast+
  have mono: "nat m \<le> nat y" "n \<noteq> rank_inf \<Longrightarrow> nat y \<le> nat n" "m \<noteq> rank_inf" using m y by auto
  show ?thesis
  proof (cases "0 < l")
    case True
    have l': "\<bar>l\<bar> \<noteq> rank_inf" "0 \<le> drop_bit (nat y) x" using True l x by auto
    have "rank_shr l n \<le> drop_bit (nat y) x"
    proof (cases "n = rank_inf")
      case False
      have "drop_bit (nat n) l \<le> drop_bit (nat y) l" using drop_bit_antimono True mono False by simp
      also have "\<dots> \<le> drop_bit (nat y) x" using drop_bit_mono l(1) by simp
      finally show ?thesis using l' False by (simp add: rank_shr_def)
    qed (use l' True in \<open>simp add: rank_shr_def\<close>)
    moreover have "drop_bit (nat y) x \<le> rank_shr u m"
    proof (cases "\<bar>u\<bar> = rank_inf")
      case inf: True
      have "drop_bit (nat y) x \<le> x" using drop_bit_antimono [of x 0 "nat y"] True l(1) by simp
      then show ?thesis using inf l x True by (simp add: rank_shr_def)
    next
      case False
      have "drop_bit (nat y) x \<le> drop_bit (nat y) u" using drop_bit_mono l(2) by simp
      also have "\<dots> \<le> drop_bit (nat m) u" using drop_bit_antimono True l mono by simp
      finally show ?thesis using False mono(3) by (simp add: rank_shr_def)
    qed
    ultimately show ?thesis unfolding cs_def min_element_4 max_element_4 by linarith
  next
    case False
    then have u: "u < 0" "\<bar>u\<bar> \<noteq> rank_inf" using l x by auto
    have up: "drop_bit i p \<le> drop_bit j p" if "i \<le> j" "p < 0" for i j and p :: int
      using that zdiv_mono2_neg [of p "2 ^ i" "2 ^ j"] by (simp add: drop_bit_eq_div power_increasing)
    have "drop_bit (nat y) x \<le> rank_shr u n"
    proof (cases "n = rank_inf")
      case True
      have "drop_bit (nat y) x < 0" using l u by simp
      then have "drop_bit (nat y) x \<le> - 1" by linarith
      then show ?thesis using True u by (simp add: rank_shr_def)
    next
      case False
      have "drop_bit (nat y) x \<le> drop_bit (nat y) u" using drop_bit_mono l(2) by simp
      also have "\<dots> \<le> drop_bit (nat n) u" using up u mono False by simp
      finally show ?thesis using u False by (simp add: rank_shr_def)
    qed
    moreover have "rank_shr l m \<le> drop_bit (nat y) x"
    proof (cases "\<bar>l\<bar> = rank_inf")
      case True
      have "x \<le> drop_bit (nat y) x" using up [of 0 "nat y" x] l u by simp
      then show ?thesis using True x l by (auto simp: rank_shr_def)
    next
      case False
      have "drop_bit (nat m) l \<le> drop_bit (nat y) l" using up l u mono by simp
      also have "\<dots> \<le> drop_bit (nat y) x" using drop_bit_mono l(1) by simp
      finally show ?thesis using False mono(3) by (simp add: rank_shr_def)
    qed
    ultimately show ?thesis unfolding cs_def min_element_4 max_element_4 by linarith
  qed
qed

lemma shift_meet:
  assumes "iv_ok b"
  shows "\<exists>s. iv_meet b (iv_raw (bi_fin 0) plus_infinity) = Inr s \<and> iv_ok s \<and> iv_gam s = {y \<in> iv_gam b. 0 \<le> y}"
proof -
  have ok: "iv_ok (iv_raw (bi_fin 0) plus_infinity)" by (rule iv_ok_rawI) simp_all
  then obtain s where s: "iv_meet b (iv_raw (bi_fin 0) plus_infinity) = Inr s" using assms by (simp add: iv_meet_eq)
  have "iv_gam (iv_raw (bi_fin 0) plus_infinity) = {y. in64 y \<and> 0 \<le> y}"
    using iv_gam_rank [OF ok] in64_rank by fastforce
  then show ?thesis using s iv_meet_gam [OF assms ok s] iv_meet_ok [OF assms ok s] iv_gam_in64 by auto
qed

lemma shr_corners_sound:
  assumes ok: "iv_ok a" "iv_ok s" and nz: "\<not> iv_contains a 0" and s: "\<forall>y\<in>iv_gam s. 0 \<le> y"
    and m: "0 \<le> bi_rank (lb_of s)" and r: "iv_corners bi_shr a s = Inr r"
  shows "iv_ok r \<and> (\<forall>x\<in>iv_gam a. \<forall>y\<in>iv_gam s. in_sym (drop_bit (nat y) x) \<longrightarrow> drop_bit (nat y) x \<in> iv_gam r)"
proof -
  have f: "\<And>p t c. p \<in> {lb_of a, ub_of a} \<Longrightarrow> t \<in> {lb_of s, ub_of s} \<Longrightarrow> bi_shr p t = Inr c \<Longrightarrow>
      approx c (rank_shr (bi_rank p) (bi_rank t))"
    using bi_shr_approx iv_okD [OF ok(1)] iv_okD [OF ok(2)] by auto
  note c = iv_corners_approx [where g = rank_shr, OF ok r f]
  show ?thesis
  proof (intro conjI ballI impI)
    show "iv_ok r" using c by blast
    fix x y assume xy: "x \<in> iv_gam a" "y \<in> iv_gam s" "in_sym (drop_bit (nat y) x)"
    have b: "bi_rank (lb_of a) \<le> x" "x \<le> bi_rank (ub_of a)" "bi_rank (lb_of s) \<le> y" "y \<le> bi_rank (ub_of s)"
      using xy gam_ranks ok by blast+
    have "0 < bi_rank (lb_of a) \<or> bi_rank (ub_of a) < 0" using nz ok(1) by (auto simp: iv_contains_rank)
    then show "drop_bit (nat y) x \<in> iv_gam r"
      using c rank_shr_between [OF b(1,2) iv_gam_in64 [OF xy(1)] _ m b(3,4) iv_gam_in64 [OF xy(2)]] xy(3) by blast
  qed
qed

lemma meet_lb: "iv_ok b \<Longrightarrow> iv_meet b (iv_raw (bi_fin 0) plus_infinity) = Inr s \<Longrightarrow> 0 \<le> bi_rank (lb_of s)"
  using iv_meet_eq [of b "iv_raw (bi_fin 0) plus_infinity"] iv_okD [of b]
  by (auto simp: iv_ok_rawI split: if_splits)

lemma iv_shr_sound:
  assumes "iv_ok a" "iv_ok b" "iv_shr a b = Inr r"
  shows "iv_ok r \<and> (\<forall>x\<in>iv_gam a. \<forall>y\<in>iv_gam b. 0 \<le> y \<longrightarrow> in_sym (drop_bit (nat y) x) \<longrightarrow> drop_bit (nat y) x \<in> iv_gam r)"
  using assms
proof (induction a b arbitrary: r rule: iv_shr.induct)
  case (1 a b)
  note ok = 1(3,4) and r = 1(5)
  obtain s where s: "iv_meet b (iv_raw (bi_fin 0) plus_infinity) = Inr s" "iv_ok s" "iv_gam s = {y \<in> iv_gam b. 0 \<le> y}"
    using shift_meet [OF ok(2)] by blast
  consider "iv_isBottom a \<or> iv_isBottom b \<or> iv_isTop a \<and> iv_isTop b \<or> iv_isBottom s"
    | "\<not> (iv_isBottom a \<or> iv_isBottom b)" "\<not> (iv_isTop a \<and> iv_isTop b)" "\<not> iv_isBottom s" "iv_contains a 0"
    | "\<not> (iv_isBottom a \<or> iv_isBottom b)" "\<not> (iv_isTop a \<and> iv_isTop b)" "\<not> iv_isBottom s" "\<not> iv_contains a 0"
    by blast
  then show ?case
  proof cases
    case 1
    then show ?thesis using r s(1,3) iv_gam_nonbottom in_sym_in64
      by (auto simp: iv_shr.simps [of a b] iv_isBottom_eq split: if_splits)
  next
    case z: 2
    obtain l u where l: "iv_neg_part a = Inr l" "iv_ok l" "iv_gam l = {x \<in> iv_gam a. x < 0}"
      and u: "iv_pos_part a = Inr u" "iv_ok u" "iv_gam u = {x \<in> iv_gam a. 0 < x}"
      using iv_neg_part iv_pos_part ok(1) z(4) by blast
    then obtain lr ur j where q: "iv_shr l b = Inr lr" "iv_shr u b = Inr ur" "iv_join lr ur = Inr j"
        "iv_join j (iv_of 0) = Inr r"
      using r z s(1) by (auto simp: iv_shr.simps [of a b])
    note il = 1(1) [OF z(1,2) s(1) z(3,4) l(1) u(1) l(2) ok(2) q(1)]
      and iu = 1(2) [OF z(1,2) s(1) z(3,4) l(1) u(1) q(1) u(2) ok(2) q(2)]
    then have oks: "iv_ok lr" "iv_ok ur" by simp_all
    note j = iv_join_cover [OF this q(3)]
    have "iv_ok (iv_of 0)" by simp
    note k = iv_join_cover [OF j(1) this q(4)]
    have "0 \<in> iv_gam r" by (rule k(3)) simp
    then show ?thesis using il iu j k l(3) u(3) drop_bit_of_0
      by (metis (mono_tags, lifting) mem_Collect_eq linorder_neqE_linordered_idom)
  next
    case 3
    then have "iv_corners bi_shr a s = Inr r" using r s(1) by (auto simp: iv_shr.simps [of a b])
    then show ?thesis using shr_corners_sound [OF ok(1) s(2) 3(4)] s(3) meet_lb [OF ok(2) s(1)] by blast
  qed
qed

lemma shl32_one_value:
  assumes "shl32_one n = Inr p" shows "0 \<le> n" "n < 32" "p = (if n = 31 then - (2 ^ 31) else 2 ^ nat n)" "in64 p"
proof -
  show n: "0 \<le> n" "n < 32" using assms by (simp_all add: shl32_one_def split: if_splits)
  show p: "p = (if n = 31 then - (2 ^ 31) else 2 ^ nat n)"
    using assms shl32_one_small [of n] n by (cases "n = 31") auto
  have "n \<noteq> 31 \<Longrightarrow> (2 :: int) ^ nat n \<le> 2 ^ 30" using n by (intro power_increasing) auto
  moreover have "(0 :: int) < 2 ^ nat n" by simp
  ultimately have "n \<noteq> 31 \<Longrightarrow> in64 (2 ^ nat n)" using in64I [of "2 ^ nat n"] by simp
  then show "in64 p" using p by (auto simp: in64_def bounds_defs)
qed

lemma as_s32_le: "0 \<le> x \<Longrightarrow> as_s32 x \<le> x"
  unfolding as_s32_def by (simp add: signed_take_bit_int_less_eq_self_iff)

lemma as_s32_small: "0 \<le> x \<Longrightarrow> x < 2 ^ 31 \<Longrightarrow> as_s32 x = x"
  unfolding as_s32_def by (intro signed_take_bit_int_eq_self) auto

lemma shl_coeff_covers:
  assumes ok: "iv_ok s" and m: "0 \<le> bi_rank (lb_of s)" and r: "shl_coeff s = Inr c"
    and ub: "is_plus_infinity (ub_of s) \<or> bi_rank (ub_of s) \<le> 30" and y: "y \<in> iv_gam s"
  shows "iv_ok c" and "in64 (2 ^ nat y) \<Longrightarrow> 2 ^ nat y \<in> iv_gam c" and "\<not> in64 (2 ^ nat y) \<Longrightarrow> 2 ^ 31 \<in> iv_gam c"
proof -
  have yb: "bi_rank (lb_of s) \<le> y" "y \<le> bi_rank (ub_of s)" "in64 y" using ok y by (simp_all add: iv_gam_rank)
  then have "- rank_inf < bi_rank (lb_of s)" "bi_rank (lb_of s) < rank_inf"
    using m in64_rank [of y] by (auto intro: less_le_trans [of _ 0])
  then obtain lo where lo: "lb_of s = bi_fin lo" "0 \<le> lo" "lo \<le> y"
    using m yb(1) iv_okD(1) [OF ok] by (elim bi_cases) auto
  obtain l u where lu: "(if as_s32 lo \<ge> 32 then Inr minus_infinity else ae_then (shl32_one (as_s32 lo)) (\<lambda>n. Inr (bi_fin n))) = Inr l"
      "(if is_infinity (ub_of s) then Inr plus_infinity
        else ae_then (shl32_one (as_s32 (getNumeral (ub_of s)))) (\<lambda>n. Inr (bi_fin n))) = Inr u" "iv_make l u = Inr c"
    using r by (auto simp: shl_coeff_def lo(1) cong: if_cong)
  have y0: "(1 :: int) \<le> 2 ^ nat y" by simp
  have l: "bi_ok l \<and> bi_rank l \<le> 2 ^ nat y \<and> bi_rank l \<le> 2 ^ 31"
  proof (cases "as_s32 lo \<ge> 32")
    case False
    then obtain p where p: "shl32_one (as_s32 lo) = Inr p" "l = bi_fin p" using lu(1) by auto
    note v = shl32_one_value [OF p(1)]
    have "nat (as_s32 lo) \<le> nat y" "nat (as_s32 lo) \<le> 31" using as_s32_le [OF lo(2)] lo(3) v(2) by auto
    then have "(2 :: int) ^ nat (as_s32 lo) \<le> 2 ^ nat y" "(2 :: int) ^ nat (as_s32 lo) \<le> 2 ^ 31"
      by (simp_all only: power_increasing one_le_numeral)
    moreover have "- (2 ^ 31) \<le> (2 :: int) ^ nat y" using y0 by (rule order_trans [rotated]) simp
    ultimately have "p \<le> 2 ^ nat y \<and> p \<le> 2 ^ 31" unfolding v(3) by (auto simp del: power_numeral)
    then show ?thesis using v(4) p(2) by simp
  qed (use lu(1) y0 in \<open>auto intro: order_trans [of _ 0]\<close>)
  have u: "bi_ok u \<and> (in64 (2 ^ nat y) \<longrightarrow> 2 ^ nat y \<le> bi_rank u) \<and> (\<not> in64 (2 ^ nat y) \<longrightarrow> u = plus_infinity)"
  proof (cases "is_infinity (ub_of s)")
    case True
    then have "u = plus_infinity" using lu(2) by simp
    then show ?thesis using in64_rank [of "2 ^ nat y"] by auto
  next
    case False
    then obtain hi where hi: "ub_of s = bi_fin hi" using iv_okD(2) [OF ok] by (elim bi_cases) auto
    then have h: "0 \<le> hi" "hi \<le> 30" "y \<le> hi" "0 \<le> y" using ub yb lo False by (auto simp: is_infinity_def)
    then have "u = bi_fin (2 ^ nat hi)"
      using lu(2) False hi as_s32_small [of hi] shl32_one_small [of hi] by simp
    moreover have "(2 :: int) ^ nat y \<le> 2 ^ nat hi" "(2 :: int) ^ nat hi \<le> 2 ^ 30"
      using h by (simp_all only: power_increasing one_le_numeral nat_mono nat_le_iff)
    moreover have "in64 p" if "p \<le> 2 ^ 30" "0 \<le> p" for p :: int using that by (intro in64I) simp_all
    ultimately have "in64 (2 ^ nat y)" "in64 (2 ^ nat hi)" "(2 :: int) ^ nat y \<le> 2 ^ nat hi" by (meson order_trans zero_le_numeral zero_le_power)+
    moreover note \<open>u = bi_fin (2 ^ nat hi)\<close>
    ultimately show ?thesis by simp
  qed
  show ok: "iv_ok c" and c: "in64 (2 ^ nat y) \<Longrightarrow> 2 ^ nat y \<in> iv_gam c" and "\<not> in64 (2 ^ nat y) \<Longrightarrow> 2 ^ 31 \<in> iv_gam c"
    using iv_make_ok [OF _ _ lu(3)] l u in64_rank [of "2 ^ 31"] in64I [of "2 ^ 31"] by (auto simp: iv_gam_rank)
qed

lemma iv_shl_sound:
  assumes ok: "iv_ok a" "iv_ok b" and r: "iv_shl a b = Inr r"
    and ub: "is_plus_infinity (ub_of b) \<or> bi_rank (ub_of b) \<le> 30"
    and xy: "x \<in> iv_gam a" "y \<in> iv_gam b" "0 \<le> y" "in_sym (x * 2 ^ nat y)"
  shows "iv_ok r \<and> x * 2 ^ nat y \<in> iv_gam r"
proof -
  obtain s where s: "iv_meet b (iv_raw (bi_fin 0) plus_infinity) = Inr s" "iv_ok s" "iv_gam s = {y \<in> iv_gam b. 0 \<le> y}"
    using shift_meet [OF ok(2)] by blast
  have nb: "\<not> iv_isBottom a" "\<not> iv_isBottom b" "\<not> iv_isBottom s" using xy s(3) iv_gam_nonbottom by blast+
  show ?thesis
  proof (cases "iv_isTop a \<and> iv_isTop b")
    case True
    then show ?thesis using r nb xy(4) by (auto simp: iv_shl_def in_sym_in64)
  next
    case False
    then obtain c where c: "shl_coeff s = Inr c" "iv_mul a c = Inr r" using r nb s(1) by (auto simp: iv_shl_def)
    have "bi_rank (ub_of s) = min (bi_rank (ub_of b)) rank_inf"
      using iv_meet_eq [OF ok(2) iv_ok_rawI, of "bi_fin 0" plus_infinity] s(1) nb(3) iv_okD [OF ok(2)]
      by (auto split: if_splits simp: iv_isBottom_eq)
    then have ub': "is_plus_infinity (ub_of s) \<or> bi_rank (ub_of s) \<le> 30"
      using ub iv_okD(2) [OF ok(2)] iv_okD(2) [OF s(2)] by (auto simp: rank_plus_iff)
    have "y \<in> iv_gam s" using s(3) xy by simp
    note cov = shl_coeff_covers [OF s(2) meet_lb [OF ok(2) s(1)] c(1) ub' this]
    note m = iv_mul_sound [OF ok(1) cov(1) c(2)]
    show ?thesis
    proof (cases "in64 (2 ^ nat y)")
      case True
      then show ?thesis using m cov(2) xy by blast
    next
      case False
      have "x = 0"
      proof (rule ccontr)
        assume "x \<noteq> 0"
        then have "2 ^ nat y \<le> \<bar>x * 2 ^ nat y\<bar>" by (simp add: abs_mult)
        moreover have "2 ^ 63 \<le> (2 :: int) ^ nat y" using False in64I [of "2 ^ nat y"] by fastforce
        moreover have "\<bar>x * 2 ^ nat y\<bar> < 2 ^ 63" using xy(4) by (simp only: in_sym_def bounds_defs abs_less_iff) linarith
        ultimately show False by linarith
      qed
      then show ?thesis using m cov(3) [OF False] xy by (fastforce simp: in_sym_def)
    qed
  qed
qed

text \<open>Beyond a shift of 30 the coefficient is wrong: one shifted by 31 is negative.\<close>

lemma iv_shl_31: "iv_shl (iv_of 1) (iv_of 31) = Inr (iv_of (- (2 ^ 31)))"
  by code_simp

end
