(* ===== verification/AeState.thy ===== *)
theory AeState
  imports AeIntervalSound "HOL-Library.AList"
begin

text \<open>
  The abstract values and states of the abstract execution: \<open>AddressValue\<close>, \<open>AbstractValue\<close> and
  \<open>AbstractState\<close> (\<open>svf/include/AE/Core/AddressValue.h\<close>, \<open>AbstractValue.h\<close>, \<open>AbstractState.h\<close> and
  \<open>svf/lib/AE/Core/AbstractState.cpp\<close>).

  An address set and the set of freed addresses are lists without repetition and a table is an association
  list with distinct keys: the list order is the iteration order of the hash container, on which only
  \<open>set_intersection\<close> depends. \<open>operator[]\<close>
  inserts the default value for a key that is missing (\<open>touch\<close>). \<open>std::set_intersection\<close> is the merge
  of the standard library, which \<open>meetWith\<close> runs on unordered sets. Operations whose interval operations
  can assert have an outcome.
\<close>

section \<open>AddressValue\<close>

definition AddressMask :: nat where
  "AddressMask = 0x7f000000"

definition FlippedAddressMask :: nat where
  "FlippedAddressMask = AddressMask XOR 0xffffffff"

definition InvalidMemAddr :: nat where
  "InvalidMemAddr = 0x7f000000 + 2"

definition NullMemAddr :: nat where
  "NullMemAddr = 0x7f000000"

definition getInternalID :: "nat \<Rightarrow> nat" where
  "getInternalID idx = idx AND FlippedAddressMask"

definition getVirtualMemAddress :: "nat \<Rightarrow> nat ae" where
  "getVirtualMemAddress idx = ae_assert (idx \<noteq> 0) (Inr (to_u32 (int (AddressMask + idx))))"

definition isVirtualMemAddress :: "nat \<Rightarrow> bool" where
  "isVirtualMemAddress v = (v AND 0xff000000 = AddressMask \<and> v \<noteq> AddressMask + 0)"

type_synonym addr_set = "nat list"

definition ad_equals :: "addr_set \<Rightarrow> addr_set \<Rightarrow> bool" where
  "ad_equals a b = (set a = set b)"

definition ad_isBottom :: "addr_set \<Rightarrow> bool" where
  "ad_isBottom a = (a = [])"

definition ad_insert :: "nat \<Rightarrow> addr_set \<Rightarrow> addr_set \<times> bool" where
  "ad_insert i a = (if i \<in> set a then (a, False) else (a @ [i], True))"

definition ad_contains :: "addr_set \<Rightarrow> nat \<Rightarrow> bool" where
  "ad_contains a i = (i \<in> set a)"

primrec ad_join_loop :: "addr_set \<Rightarrow> addr_set \<times> bool \<Rightarrow> addr_set \<times> bool" where
  "ad_join_loop [] s = s"
| "ad_join_loop (i # is) s =
    ad_join_loop is (if i \<notin> set (fst s) then
      (let r = ad_insert i (fst s) in (fst r, if snd r then True else snd s)) else s)"

definition ad_join :: "addr_set \<Rightarrow> addr_set \<Rightarrow> addr_set \<times> bool" where
  "ad_join a b = ad_join_loop b (a, False)"

definition ad_meet :: "addr_set \<Rightarrow> addr_set \<Rightarrow> addr_set \<times> bool" where
  "ad_meet a b = (let s = filter (\<lambda>i. i \<in> set a) b in (s, set a \<noteq> set s))"

definition ad_hasIntersect :: "addr_set \<Rightarrow> addr_set \<Rightarrow> bool" where
  "ad_hasIntersect a b = (fst (ad_meet a b) \<noteq> [])"

section \<open>AbstractValue\<close>

record abs_value =
  av_interval :: interval
  av_addrs :: addr_set

definition av_new :: abs_value where
  "av_new = \<lparr>av_interval = iv_bottom, av_addrs = []\<rparr>"

definition av_of_interval :: "interval \<Rightarrow> abs_value" where
  "av_of_interval i = \<lparr>av_interval = i, av_addrs = []\<rparr>"

definition av_of_addrs :: "addr_set \<Rightarrow> abs_value" where
  "av_of_addrs a = \<lparr>av_interval = iv_bottom, av_addrs = a\<rparr>"

definition av_isInterval :: "abs_value \<Rightarrow> bool" where
  "av_isInterval v = (\<not> iv_isBottom (av_interval v))"

definition av_isAddr :: "abs_value \<Rightarrow> bool" where
  "av_isAddr v = (\<not> ad_isBottom (av_addrs v))"

definition av_equals :: "abs_value \<Rightarrow> abs_value \<Rightarrow> bool" where
  "av_equals v w = (iv_equals (av_interval v) (av_interval w) \<and> ad_equals (av_addrs v) (av_addrs w))"

definition av_join :: "abs_value \<Rightarrow> abs_value \<Rightarrow> abs_value ae" where
  "av_join v w = ae_then (iv_join (av_interval v) (av_interval w)) (\<lambda>i.
    Inr \<lparr>av_interval = i, av_addrs = fst (ad_join (av_addrs v) (av_addrs w))\<rparr>)"

definition av_meet :: "abs_value \<Rightarrow> abs_value \<Rightarrow> abs_value ae" where
  "av_meet v w = ae_then (iv_meet (av_interval v) (av_interval w)) (\<lambda>i.
    Inr \<lparr>av_interval = i, av_addrs = fst (ad_meet (av_addrs v) (av_addrs w))\<rparr>)"

definition av_widen :: "abs_value \<Rightarrow> abs_value \<Rightarrow> abs_value ae" where
  "av_widen v w = ae_then (iv_widen (av_interval v) (av_interval w)) (\<lambda>i. Inr (v\<lparr>av_interval := i\<rparr>))"

definition av_narrow :: "abs_value \<Rightarrow> abs_value \<Rightarrow> abs_value ae" where
  "av_narrow v w = ae_then (iv_narrow (av_interval v) (av_interval w)) (\<lambda>i. Inr (v\<lparr>av_interval := i\<rparr>))"

section \<open>AbstractState\<close>

type_synonym val_map = "(nat \<times> abs_value) list"

record abs_state =
  varToVal :: val_map
  addrToVal :: val_map
  freedAddrs :: "nat list"

definition as_new :: abs_state where
  "as_new = \<lparr>varToVal = [], addrToVal = [], freedAddrs = []\<rparr>"

text \<open>\<open>m[k]\<close> on a hash table: the key is inserted with the default value when it is missing.\<close>

definition touch :: "nat \<Rightarrow> val_map \<Rightarrow> val_map" where
  "touch k m = (case map_of m k of None \<Rightarrow> m @ [(k, av_new)] | Some v \<Rightarrow> m)"

definition value_at :: "val_map \<Rightarrow> nat \<Rightarrow> abs_value" where
  "value_at m k = (case map_of m k of None \<Rightarrow> av_new | Some v \<Rightarrow> v)"

definition put :: "nat \<Rightarrow> abs_value \<Rightarrow> val_map \<Rightarrow> val_map" where
  "put k v m = AList.update k v m"

definition as_touch :: "nat \<Rightarrow> abs_state \<Rightarrow> abs_state" where
  "as_touch v s = s\<lparr>varToVal := touch v (varToVal s)\<rparr>"

definition as_var :: "abs_state \<Rightarrow> nat \<Rightarrow> abs_value" where
  "as_var s v = value_at (varToVal s) v"

definition as_set :: "nat \<Rightarrow> abs_value \<Rightarrow> abs_state \<Rightarrow> abs_state" where
  "as_set v x s = s\<lparr>varToVal := put v x (varToVal s)\<rparr>"

definition in_table :: "(abs_value \<Rightarrow> bool) \<Rightarrow> val_map \<Rightarrow> nat \<Rightarrow> bool" where
  "in_table f m k = (case map_of m k of None \<Rightarrow> False | Some v \<Rightarrow> f v)"

definition inVarToAddrsTable :: "abs_state \<Rightarrow> nat \<Rightarrow> bool" where
  "inVarToAddrsTable s = in_table av_isAddr (varToVal s)"

definition inVarToValTable :: "abs_state \<Rightarrow> nat \<Rightarrow> bool" where
  "inVarToValTable s = in_table av_isInterval (varToVal s)"

definition inAddrToAddrsTable :: "abs_state \<Rightarrow> nat \<Rightarrow> bool" where
  "inAddrToAddrsTable s = in_table av_isAddr (addrToVal s)"

definition inAddrToValTable :: "abs_state \<Rightarrow> nat \<Rightarrow> bool" where
  "inAddrToValTable s = in_table av_isInterval (addrToVal s)"

definition getIDFromAddr :: "abs_state \<Rightarrow> nat \<Rightarrow> nat" where
  "getIDFromAddr s addr = (if addr \<in> set (freedAddrs s) then getInternalID InvalidMemAddr else getInternalID addr)"

definition isNullMem :: "nat \<Rightarrow> bool" where
  "isNullMem addr = (getInternalID addr = NullMemAddr)"

definition isInvalidMem :: "nat \<Rightarrow> bool" where
  "isInvalidMem addr = (getInternalID addr = InvalidMemAddr)"

definition addToFreedAddrs :: "nat \<Rightarrow> abs_state \<Rightarrow> abs_state" where
  "addToFreedAddrs addr s = s\<lparr>freedAddrs := List.insert addr (freedAddrs s)\<rparr>"

definition isFreedMem :: "abs_state \<Rightarrow> nat \<Rightarrow> bool" where
  "isFreedMem s addr = (addr \<in> set (freedAddrs s))"

subsection \<open>Memory\<close>

definition as_store :: "nat \<Rightarrow> abs_value \<Rightarrow> abs_state \<Rightarrow> abs_state ae" where
  "as_store addr v s = ae_assert (isVirtualMemAddress addr)
    (Inr (if isNullMem addr then s else s\<lparr>addrToVal := put (getIDFromAddr s addr) v (addrToVal s)\<rparr>))"

definition as_load :: "nat \<Rightarrow> abs_state \<Rightarrow> (abs_value \<times> abs_state) ae" where
  "as_load addr s = ae_assert (isVirtualMemAddress addr)
    (Inr (value_at (addrToVal s) (getIDFromAddr s addr), s\<lparr>addrToVal := touch (getIDFromAddr s addr) (addrToVal s)\<rparr>))"

definition loadValue :: "nat \<Rightarrow> abs_state \<Rightarrow> (abs_value \<times> abs_state) ae" where
  "loadValue v s = ae_fold (\<lambda>addr rs. ae_then (as_load addr (snd rs)) (\<lambda>ls.
      ae_then (av_join (fst rs) (fst ls)) (\<lambda>r. Inr (r, snd ls))))
    (av_addrs (as_var s v)) (av_new, as_touch v s)"

definition storeValue :: "nat \<Rightarrow> abs_value \<Rightarrow> abs_state \<Rightarrow> abs_state ae" where
  "storeValue v x s = ae_fold (\<lambda>addr. as_store addr x) (av_addrs (as_var s v)) (as_touch v s)"

subsection \<open>The state as a whole\<close>

primrec eqVarToValMap_loop :: "val_map \<Rightarrow> val_map \<Rightarrow> bool" where
  "eqVarToValMap_loop [] rhs = True"
| "eqVarToValMap_loop (kv # kvs) rhs = (case map_of rhs (fst kv) of None \<Rightarrow> False
     | Some w \<Rightarrow> if \<not> av_equals (snd kv) w then False else eqVarToValMap_loop kvs rhs)"

definition eqVarToValMap :: "val_map \<Rightarrow> val_map \<Rightarrow> bool" where
  "eqVarToValMap lhs rhs = (if length lhs \<noteq> length rhs then False else eqVarToValMap_loop lhs rhs)"

definition as_eq :: "abs_state \<Rightarrow> abs_state \<Rightarrow> bool" where
  "as_eq s t = (eqVarToValMap (varToVal s) (varToVal t) \<and> eqVarToValMap (addrToVal s) (addrToVal t))"

primrec lessThan_loop :: "val_map \<Rightarrow> val_map \<Rightarrow> bool" where
  "lessThan_loop [] rhs = True"
| "lessThan_loop (kv # kvs) rhs = (case map_of rhs (fst kv) of None \<Rightarrow> False
     | Some w \<Rightarrow> if iv_contain (av_interval (snd kv)) (av_interval w) then False else lessThan_loop kvs rhs)"

definition lessThanVarToValMap :: "val_map \<Rightarrow> val_map \<Rightarrow> bool" where
  "lessThanVarToValMap lhs rhs = (if lhs = [] then rhs \<noteq> [] else lessThan_loop lhs rhs)"

primrec geq_loop :: "val_map \<Rightarrow> val_map \<Rightarrow> bool" where
  "geq_loop lhs [] = True"
| "geq_loop lhs (kv # kvs) = (case map_of lhs (fst kv) of None \<Rightarrow> False
     | Some w \<Rightarrow> if \<not> iv_contain (av_interval w) (av_interval (snd kv)) then False else geq_loop lhs kvs)"

definition geqVarToValMap :: "val_map \<Rightarrow> val_map \<Rightarrow> bool" where
  "geqVarToValMap lhs rhs = (if rhs = [] then True else geq_loop lhs rhs)"

definition as_geq :: "abs_state \<Rightarrow> abs_state \<Rightarrow> bool" where
  "as_geq s t = (geqVarToValMap (varToVal s) (varToVal t) \<and> geqVarToValMap (addrToVal s) (addrToVal t))"

definition as_less :: "abs_state \<Rightarrow> abs_state \<Rightarrow> bool" where
  "as_less s t = (\<not> as_geq s t)"

text \<open>Copy assignment skips when the tables are equal; the move constructor leaves the freed addresses behind.\<close>

definition as_assign :: "abs_state \<Rightarrow> abs_state \<Rightarrow> abs_state" where
  "as_assign s rhs = (if \<not> as_eq rhs s then rhs else s)"

definition as_moved :: "abs_state \<Rightarrow> abs_state" where
  "as_moved rhs = rhs\<lparr>freedAddrs := []\<rparr>"

definition as_bottom :: "abs_state \<Rightarrow> abs_state" where
  "as_bottom s = s\<lparr>varToVal := map (\<lambda>kv. (fst kv,
     if av_isInterval (snd kv) then (snd kv)\<lparr>av_interval := iv_bottom\<rparr> else snd kv)) (varToVal s)\<rparr>"

definition as_top :: "abs_state \<Rightarrow> abs_state" where
  "as_top s = s\<lparr>varToVal := map (\<lambda>kv. (fst kv,
     if av_isInterval (snd kv) then (snd kv)\<lparr>av_interval := iv_top\<rparr> else snd kv)) (varToVal s)\<rparr>"

text \<open>\<open>sliceState\<close> reads by \<open>operator[]\<close>, so it changes the state too: the slice and the state after it.\<close>

primrec slice_loop :: "nat list \<Rightarrow> abs_state \<times> abs_state \<Rightarrow> abs_state \<times> abs_state" where
  "slice_loop [] ss = ss"
| "slice_loop (v # vs) ss = slice_loop vs (as_set v (as_var (snd ss) v) (fst ss), as_touch v (snd ss))"

definition sliceState :: "nat list \<Rightarrow> abs_state \<Rightarrow> abs_state \<times> abs_state" where
  "sliceState vs s = slice_loop vs (as_new, s)"

definition as_clear :: "abs_state \<Rightarrow> abs_state" where
  "as_clear s = as_new"

text \<open>Widening and narrowing go through the table of \<open>this\<close>, and change the intervals of keys that both
  tables map to intervals.\<close>

definition update_interval :: "(interval \<Rightarrow> interval \<Rightarrow> interval ae) \<Rightarrow> val_map \<Rightarrow> nat \<times> abs_value \<Rightarrow>
    (nat \<times> abs_value) ae" where
  "update_interval f other kv = (case map_of other (fst kv) of None \<Rightarrow> Inr kv
     | Some w \<Rightarrow> if av_isInterval (snd kv) \<and> av_isInterval w then
         ae_then (f (av_interval (snd kv)) (av_interval w)) (\<lambda>i. Inr (fst kv, (snd kv)\<lparr>av_interval := i\<rparr>))
       else Inr kv)"

primrec update_intervals :: "(interval \<Rightarrow> interval \<Rightarrow> interval ae) \<Rightarrow> val_map \<Rightarrow> val_map \<Rightarrow> val_map ae" where
  "update_intervals f other [] = Inr []"
| "update_intervals f other (kv # kvs) =
    ae_then (update_interval f other kv) (\<lambda>kw. ae_then (update_intervals f other kvs) (\<lambda>kws. Inr (kw # kws)))"

definition update_state :: "(interval \<Rightarrow> interval \<Rightarrow> interval ae) \<Rightarrow> abs_state \<Rightarrow> abs_state \<Rightarrow> abs_state ae" where
  "update_state f s other =
    ae_then (update_intervals f (varToVal other) (varToVal s)) (\<lambda>vs.
    ae_then (update_intervals f (addrToVal other) (addrToVal s)) (\<lambda>as. Inr (s\<lparr>varToVal := vs, addrToVal := as\<rparr>)))"

definition as_widening :: "abs_state \<Rightarrow> abs_state \<Rightarrow> abs_state ae" where
  "as_widening = update_state iv_widen"

definition as_narrowing :: "abs_state \<Rightarrow> abs_state \<Rightarrow> abs_state ae" where
  "as_narrowing = update_state iv_narrow"

definition join_entry :: "nat \<times> abs_value \<Rightarrow> val_map \<Rightarrow> val_map ae" where
  "join_entry kv m = (case map_of m (fst kv) of
      None \<Rightarrow> Inr (m @ [kv])
    | Some v \<Rightarrow> ae_then (av_join v (snd kv)) (\<lambda>j. Inr (put (fst kv) j m)))"

definition as_join :: "abs_state \<Rightarrow> abs_state \<Rightarrow> abs_state ae" where
  "as_join s other =
    ae_then (ae_fold join_entry (varToVal other) (varToVal s)) (\<lambda>vs.
    ae_then (ae_fold join_entry (addrToVal other) (addrToVal s)) (\<lambda>as.
      Inr \<lparr>varToVal = vs, addrToVal = as, freedAddrs = fold (\<lambda>a fs. if a \<in> set fs then fs else fs @ [a]) (freedAddrs other) (freedAddrs s)\<rparr>))"

definition meet_entry :: "nat \<times> abs_value \<Rightarrow> val_map \<Rightarrow> val_map ae" where
  "meet_entry kv m = (case map_of m (fst kv) of
      None \<Rightarrow> Inr m
    | Some v \<Rightarrow> ae_then (av_meet v (snd kv)) (\<lambda>j. Inr (put (fst kv) j m)))"

text \<open>\<open>std::set_intersection\<close>, the merge of two ranges that it takes to be sorted.\<close>

fun set_intersection :: "nat list \<Rightarrow> nat list \<Rightarrow> nat list" where
  "set_intersection (x # xs) (y # ys) =
    (if x < y then set_intersection xs (y # ys)
     else if \<not> y < x then x # set_intersection xs ys
     else set_intersection (x # xs) ys)"
| "set_intersection [] ys = []"
| "set_intersection xs [] = []"

definition as_meet :: "abs_state \<Rightarrow> abs_state \<Rightarrow> abs_state ae" where
  "as_meet s other =
    ae_then (ae_fold meet_entry (varToVal other) (varToVal s)) (\<lambda>vs.
    ae_then (ae_fold meet_entry (addrToVal other) (addrToVal s)) (\<lambda>as.
      Inr \<lparr>varToVal = vs, addrToVal = as, freedAddrs = set_intersection (freedAddrs s) (freedAddrs other)\<rparr>))"

end
