(* ===== verification/AeStateSound.thy ===== *)
theory AeStateSound
  imports AeState
begin

text \<open>
  Correctness of the values and states of the abstract execution (theory AeState).

  A concrete value is a number or an address, a concrete state a pair of partial functions: the values of the
  variables and those of the objects in memory. \<open>as_gam\<close> is the set of the concrete states that an abstract
  state covers; a variable without an entry has no value. Joins cover both states, at all three levels
  through the interface \<open>ae_joins\<close>, and a load through a pointer covers what the memory holds at its addresses.
\<close>

section \<open>Addresses\<close>

lemma ad_join_loop_set: "set (fst (ad_join_loop is s)) = set (fst s) \<union> set is"
  by (induction "is" arbitrary: s) (auto simp: ad_insert_def Let_def)

lemma ad_join_loop_distinct: "distinct (fst s) \<Longrightarrow> distinct (fst (ad_join_loop is s))"
  by (induction "is" arbitrary: s) (auto simp: ad_insert_def Let_def)

lemma ad_join_set [simp]: "set (fst (ad_join a b)) = set a \<union> set b"
  by (simp add: ad_join_def ad_join_loop_set)

lemma ad_join_distinct [simp]: "distinct a \<Longrightarrow> distinct (fst (ad_join a b))"
  by (simp add: ad_join_def ad_join_loop_distinct)

lemma ad_meet_set [simp]: "set (fst (ad_meet a b)) = set a \<inter> set b"
  by (auto simp: ad_meet_def Let_def)

lemma ad_meet_distinct [simp]: "distinct b \<Longrightarrow> distinct (fst (ad_meet a b))"
  by (simp add: ad_meet_def Let_def)

lemma ad_hasIntersect_iff [simp]: "ad_hasIntersect a b \<longleftrightarrow> set a \<inter> set b \<noteq> {}"
  by (simp only: ad_hasIntersect_def set_empty [symmetric] ad_meet_set)

lemma ad_join_changed: "snd (ad_join a b) \<longleftrightarrow> \<not> set b \<subseteq> set a"
proof -
  have "snd (ad_join_loop is s) \<longleftrightarrow> snd s \<or> \<not> set is \<subseteq> set (fst s)" for "is" s
    by (induction "is" arbitrary: s) (auto simp: ad_insert_def Let_def)
  then show ?thesis by (simp add: ad_join_def)
qed

section \<open>Values\<close>

datatype cval = CInt int | CAddr nat

definition av_ok :: "abs_value \<Rightarrow> bool" where
  "av_ok v = (iv_ok (av_interval v) \<and> distinct (av_addrs v))"

definition av_gam :: "abs_value \<Rightarrow> cval set" where
  "av_gam v = CInt ` iv_gam (av_interval v) \<union> CAddr ` set (av_addrs v)"

lemma in_av_gam [simp]:
  "CInt x \<in> av_gam v \<longleftrightarrow> x \<in> iv_gam (av_interval v)" "CAddr a \<in> av_gam v \<longleftrightarrow> a \<in> set (av_addrs v)"
  by (auto simp: av_gam_def)

lemma av_consts [simp]:
  "av_ok av_new" "av_gam av_new = {}" "av_interval av_new = iv_bottom" "av_addrs av_new = []"
  "av_interval (av_of_interval i) = i" "av_addrs (av_of_interval i) = []"
  "av_interval (av_of_addrs a) = iv_bottom" "av_addrs (av_of_addrs a) = a"
  "av_ok (av_of_interval i) \<longleftrightarrow> iv_ok i" "av_ok (av_of_addrs a) \<longleftrightarrow> distinct a"
  by (auto simp: av_ok_def av_new_def av_gam_def av_of_interval_def av_of_addrs_def)

lemma av_okD: "av_ok v \<Longrightarrow> iv_ok (av_interval v)" "av_ok v \<Longrightarrow> distinct (av_addrs v)"
  by (simp_all add: av_ok_def)

lemma av_isInterval_gam: "CInt x \<in> av_gam v \<Longrightarrow> av_isInterval v"
  by (auto simp: av_isInterval_def dest: iv_gam_nonbottom)

lemma av_isAddr_iff: "av_isAddr v \<longleftrightarrow> (\<exists>a. CAddr a \<in> av_gam v)"
  by (cases "av_addrs v") (auto simp: av_isAddr_def ad_isBottom_def)

lemma av_join_returns: "av_ok v \<Longrightarrow> av_ok w \<Longrightarrow> \<exists>r. av_join v w = Inr r \<and> av_ok r"
  using aei.join_returns [of "av_interval v" "av_interval w"] by (auto simp: av_join_def av_ok_def)

lemma av_join_covers: "av_ok v \<Longrightarrow> av_ok w \<Longrightarrow> av_join v w = Inr r \<Longrightarrow> av_gam v \<union> av_gam w \<subseteq> av_gam r"
  using aei.join_covers [of "av_interval v" "av_interval w"] by (fastforce simp: av_join_def av_ok_def av_gam_def)

interpretation avj: ae_joins av_ok av_gam av_join
  by unfold_locales (blast intro: av_join_returns dest: av_join_covers)+

lemma av_meet_gam: "av_ok v \<Longrightarrow> av_ok w \<Longrightarrow> av_meet v w = Inr r \<Longrightarrow> av_gam r = av_gam v \<inter> av_gam w"
  using iv_meet_gam [of "av_interval v" "av_interval w"] by (auto simp: av_meet_def av_ok_def av_gam_def)

lemma av_meet_returns: "av_ok v \<Longrightarrow> av_ok w \<Longrightarrow> \<exists>r. av_meet v w = Inr r \<and> av_ok r"
  using iv_meet_ok [of "av_interval v" "av_interval w"] by (auto simp: av_meet_def av_ok_def iv_meet_eq)

section \<open>Tables\<close>

definition map_ok :: "val_map \<Rightarrow> bool" where
  "map_ok m = (distinct (map fst m) \<and> (\<forall>kv\<in>set m. av_ok (snd kv)))"

definition as_ok :: "abs_state \<Rightarrow> bool" where
  "as_ok s = (map_ok (varToVal s) \<and> map_ok (addrToVal s))"

lemma value_at_ok: "map_ok m \<Longrightarrow> av_ok (value_at m k)"
  by (auto simp: value_at_def map_ok_def split: option.split dest!: map_of_SomeD)

lemma map_of_put [simp]: "map_of (put k v m) = (map_of m)(k \<mapsto> v)"
  by (simp add: put_def update_conv')

lemma value_at_put [simp]: "value_at (put k v m) j = (if j = k then v else value_at m j)"
  by (simp add: value_at_def)

lemma put_dom: "fst ` set (put k v m) = insert k (fst ` set m)"
  using dom_map_of_conv_image_fst [of "put k v m"] dom_map_of_conv_image_fst [of m] by simp

lemma put_distinct: "distinct (map fst m) \<Longrightarrow> distinct (map fst (put k v m))"
  by (simp add: put_def distinct_update)

lemma put_ok: "map_ok m \<Longrightarrow> av_ok v \<Longrightarrow> map_ok (put k v m)"
proof -
  assume m: "map_ok m" and v: "av_ok v"
  have d: "distinct (map fst (put k v m))" using m put_distinct by (simp add: map_ok_def)
  have "av_ok (snd kv)" if "kv \<in> set (put k v m)" for kv
  proof -
    have "((map_of m)(k \<mapsto> v)) (fst kv) = Some (snd kv)"
      using map_of_is_SomeI [OF d, of "fst kv" "snd kv"] that by (simp del: fun_upd_apply)
    then show ?thesis using m v by (auto simp: map_ok_def split: if_splits dest!: map_of_SomeD)
  qed
  then show ?thesis using d by (simp add: map_ok_def)
qed

lemma touch_ok: "map_ok m \<Longrightarrow> map_ok (touch k m)"
  by (auto simp: touch_def map_ok_def map_of_eq_None_iff split: option.split)

lemma value_at_touch [simp]: "value_at (touch k m) j = value_at m j"
  by (auto simp: value_at_def touch_def map_add_def split: option.split)

lemma map_of_snoc: "map_of m k = None \<Longrightarrow> map_of (m @ [(k, v)]) = (map_of m)(k \<mapsto> v)"
  by (auto simp: map_add_def fun_eq_iff split: option.split)

lemma snoc_ok: "map_ok m \<Longrightarrow> av_ok v \<Longrightarrow> map_of m k = None \<Longrightarrow> map_ok (m @ [(k, v)])"
  by (auto simp: map_ok_def map_of_eq_None_iff)

lemma in_table_value: "f av_new = False \<Longrightarrow> in_table f m k \<longleftrightarrow> f (value_at m k)"
  by (auto simp: in_table_def value_at_def split: option.split)

lemma in_table_simps [simp]:
  "inVarToAddrsTable s v \<longleftrightarrow> av_isAddr (as_var s v)" "inVarToValTable s v \<longleftrightarrow> av_isInterval (as_var s v)"
  "inAddrToAddrsTable s v \<longleftrightarrow> av_isAddr (value_at (addrToVal s) v)"
  "inAddrToValTable s v \<longleftrightarrow> av_isInterval (value_at (addrToVal s) v)"
  by (simp_all add: inVarToAddrsTable_def inVarToValTable_def inAddrToAddrsTable_def inAddrToValTable_def
      in_table_value as_var_def av_isAddr_def ad_isBottom_def av_isInterval_def)

section \<open>States\<close>

type_synonym cstate = "(nat \<Rightarrow> cval option) \<times> (nat \<Rightarrow> cval option)"

definition map_gam :: "val_map \<Rightarrow> (nat \<Rightarrow> cval option) set" where
  "map_gam m = {e. \<forall>k x. e k = Some x \<longrightarrow> x \<in> av_gam (value_at m k)}"

definition as_gam :: "abs_state \<Rightarrow> cstate set" where
  "as_gam s = map_gam (varToVal s) \<times> map_gam (addrToVal s)"

lemma map_gam_mono: "(\<And>k. av_gam (value_at m k) \<subseteq> av_gam (value_at n k)) \<Longrightarrow> map_gam m \<subseteq> map_gam n"
  by (force simp: map_gam_def)

lemma map_gamD: "e \<in> map_gam m \<Longrightarrow> e k = Some x \<Longrightarrow> x \<in> av_gam (value_at m k)"
  by (simp add: map_gam_def)

lemma map_gam_touch [simp]: "map_gam (touch k m) = map_gam m"
  by (simp add: map_gam_def)

lemma map_gam_put: "e \<in> map_gam m \<Longrightarrow> x \<in> av_gam v \<Longrightarrow> e(k \<mapsto> x) \<in> map_gam (put k v m)"
  by (auto simp: map_gam_def)

lemma as_ok_simps [simp]:
  "as_ok as_new" "as_ok (as_touch v s) \<longleftrightarrow> map_ok (touch v (varToVal s)) \<and> map_ok (addrToVal s)"
  "as_gam (as_touch v s) = as_gam s" "as_var (as_touch v s) w = as_var s w"
  "addrToVal (as_touch v s) = addrToVal s" "freedAddrs (as_touch v s) = freedAddrs s"
  "as_var (as_set v x s) w = (if w = v then x else as_var s w)"
  "addrToVal (as_set v x s) = addrToVal s" "freedAddrs (as_set v x s) = freedAddrs s"
  by (simp_all add: as_ok_def as_new_def map_ok_def as_touch_def as_gam_def as_var_def as_set_def)

lemma as_touch_ok: "as_ok s \<Longrightarrow> as_ok (as_touch v s)"
  by (simp add: as_ok_def as_touch_def touch_ok)

lemma as_set_ok: "as_ok s \<Longrightarrow> av_ok x \<Longrightarrow> as_ok (as_set v x s)"
  by (simp add: as_ok_def as_set_def put_ok)

lemma as_var_ok: "as_ok s \<Longrightarrow> av_ok (as_var s v)"
  by (simp add: as_ok_def as_var_def value_at_ok)

lemma as_gam_var: "(e, m) \<in> as_gam s \<Longrightarrow> e v = Some x \<Longrightarrow> x \<in> av_gam (as_var s v)"
  by (simp add: as_gam_def as_var_def map_gam_def)

lemma as_gam_mem: "(e, m) \<in> as_gam s \<Longrightarrow> m k = Some x \<Longrightarrow> x \<in> av_gam (value_at (addrToVal s) k)"
  by (simp add: as_gam_def map_gam_def)

lemma as_gam_set: "(e, m) \<in> as_gam s \<Longrightarrow> x \<in> av_gam v \<Longrightarrow> (e(k \<mapsto> x), m) \<in> as_gam (as_set k v s)"
  by (simp add: as_gam_def as_set_def map_gam_put)

text \<open>Joins.\<close>

lemma join_entry_step:
  assumes "map_ok m" "av_ok v"
  shows "\<exists>n. join_entry (k, v) m = Inr n \<and> map_ok n \<and> (\<forall>j. av_gam (value_at m j) \<subseteq> av_gam (value_at n j)) \<and>
    av_gam v \<subseteq> av_gam (value_at n k)"
proof (cases "map_of m k")
  case None
  then show ?thesis using assms snoc_ok [of m v k]
    by (auto simp: join_entry_def value_at_def map_add_def split: option.split)
next
  case (Some w)
  then have w: "av_ok w" "value_at m k = w" using value_at_ok [OF assms(1), of k] by (simp_all add: value_at_def)
  obtain j where j: "av_join w v = Inr j" "av_ok j" using av_join_returns w assms(2) by blast
  then have "av_gam w \<union> av_gam v \<subseteq> av_gam j" using av_join_covers w(1) assms(2) by blast
  then show ?thesis using Some w j put_ok [OF assms(1) j(2)] by (auto simp: join_entry_def)
qed

lemma join_map:
  assumes "map_ok m" "\<forall>kv\<in>set l. av_ok (snd kv)"
  shows "\<exists>n. ae_fold join_entry l m = Inr n \<and> map_ok n \<and> (\<forall>j. av_gam (value_at m j) \<subseteq> av_gam (value_at n j)) \<and>
    (\<forall>kv\<in>set l. av_gam (snd kv) \<subseteq> av_gam (value_at n (fst kv)))"
  using assms
proof (induction l arbitrary: m)
  case (Cons kv l)
  obtain m' where m': "join_entry kv m = Inr m'" "map_ok m'" "\<forall>j. av_gam (value_at m j) \<subseteq> av_gam (value_at m' j)"
      "av_gam (snd kv) \<subseteq> av_gam (value_at m' (fst kv))"
    using join_entry_step [of m "snd kv" "fst kv"] Cons.prems by auto
  obtain n where n: "ae_fold join_entry l m' = Inr n" "map_ok n" "\<forall>j. av_gam (value_at m' j) \<subseteq> av_gam (value_at n j)"
      "\<forall>kv\<in>set l. av_gam (snd kv) \<subseteq> av_gam (value_at n (fst kv))"
    using Cons.IH [OF m'(2)] Cons.prems by auto
  have "\<forall>j. av_gam (value_at m j) \<subseteq> av_gam (value_at n j)" "av_gam (snd kv) \<subseteq> av_gam (value_at n (fst kv))"
    using m'(3,4) n(3) by blast+
  then show ?case using m'(1) n(1,2,4) by (intro exI [of _ n]) simp
qed auto

lemma join_map_gam:
  assumes "map_ok m" "map_ok l"
  shows "\<exists>n. ae_fold join_entry l m = Inr n \<and> map_ok n \<and> map_gam m \<union> map_gam l \<subseteq> map_gam n"
proof -
  obtain n where n: "ae_fold join_entry l m = Inr n" "map_ok n" "\<forall>j. av_gam (value_at m j) \<subseteq> av_gam (value_at n j)"
      "\<forall>kv\<in>set l. av_gam (snd kv) \<subseteq> av_gam (value_at n (fst kv))"
    using join_map [OF assms(1), of l] assms(2) unfolding map_ok_def [of l] by blast
  have "av_gam (value_at l j) \<subseteq> av_gam (value_at n j)" for j
  proof (cases "map_of l j")
    case (Some v)
    then have "(j, v) \<in> set l" by (rule map_of_SomeD)
    then show ?thesis using n(4) Some by (fastforce simp: value_at_def [of l])
  qed (simp add: value_at_def [of l])
  then show ?thesis using n map_gam_mono [of m n] map_gam_mono [of l n] by blast
qed

lemma as_join_props:
  assumes "as_ok s" "as_ok t"
  shows "\<exists>r. as_join s t = Inr r \<and> as_ok r \<and> as_gam s \<union> as_gam t \<subseteq> as_gam r"
proof -
  obtain vs where "ae_fold join_entry (varToVal t) (varToVal s) = Inr vs" "map_ok vs"
      "map_gam (varToVal s) \<union> map_gam (varToVal t) \<subseteq> map_gam vs"
    using join_map_gam assms unfolding as_ok_def by blast
  moreover obtain ms where "ae_fold join_entry (addrToVal t) (addrToVal s) = Inr ms" "map_ok ms"
      "map_gam (addrToVal s) \<union> map_gam (addrToVal t) \<subseteq> map_gam ms"
    using join_map_gam assms unfolding as_ok_def by blast
  ultimately show ?thesis by (auto simp: as_join_def as_ok_def as_gam_def)
qed

interpretation asj: ae_joins as_ok as_gam as_join
  by unfold_locales (use as_join_props in \<open>blast, metis sum.inject(2)\<close>)

section \<open>Memory\<close>

lemma as_load_props:
  assumes "as_ok s" "isVirtualMemAddress a" "(e, m) \<in> as_gam s"
  shows "\<exists>t. as_load a s = Inr (value_at (addrToVal s) (getIDFromAddr s a), t) \<and> as_ok t \<and> (e, m) \<in> as_gam t
    \<and> varToVal t = varToVal s \<and> freedAddrs t = freedAddrs s \<and> (\<forall>k. value_at (addrToVal t) k = value_at (addrToVal s) k)"
  using assms by (simp add: as_load_def as_ok_def as_gam_def touch_ok)

text \<open>A load through a pointer: it covers the values that the memory holds at the addresses of the pointer, unless
  they are freed.\<close>

lemma load_loop:
  assumes "as_ok s" "av_ok r" "\<forall>a\<in>set as. isVirtualMemAddress a" "(e, m) \<in> as_gam s"
  shows "\<exists>v t. ae_fold (\<lambda>addr rs. ae_then (as_load addr (snd rs)) (\<lambda>ls. ae_then (av_join (fst rs) (fst ls)) (\<lambda>r. Inr (r, snd ls)))) as (r, s)
      = Inr (v, t) \<and> av_ok v \<and> as_ok t \<and> (e, m) \<in> as_gam t \<and> av_gam r \<subseteq> av_gam v
    \<and> (\<forall>a\<in>set as. av_gam (value_at (addrToVal s) (getIDFromAddr s a)) \<subseteq> av_gam v)"
  using assms
proof (induction as arbitrary: r s)
  case (Cons a as)
  let ?w = "value_at (addrToVal s) (getIDFromAddr s a)"
  obtain t where t: "as_load a s = Inr (?w, t)" "as_ok t" "(e, m) \<in> as_gam t" "freedAddrs t = freedAddrs s"
    "\<forall>k. value_at (addrToVal t) k = value_at (addrToVal s) k"
    using as_load_props [OF Cons.prems(1) _ Cons.prems(4), of a] Cons.prems(3) by auto
  have w: "av_ok ?w" using Cons.prems(1) by (simp add: as_ok_def value_at_ok)
  obtain q where q: "av_join r ?w = Inr q" "av_ok q" using av_join_returns [OF Cons.prems(2) w] by blast
  have c: "av_gam r \<subseteq> av_gam q" "av_gam ?w \<subseteq> av_gam q" using av_join_covers [OF Cons.prems(2) w q(1)] by auto
  have id: "getIDFromAddr t b = getIDFromAddr s b" for b using t(4) by (simp add: getIDFromAddr_def)
  have "\<forall>a\<in>set as. isVirtualMemAddress a" using Cons.prems(3) by simp
  from Cons.IH [OF t(2) q(2) this t(3)] obtain v u where
    v: "ae_fold (\<lambda>addr rs. ae_then (as_load addr (snd rs)) (\<lambda>ls. ae_then (av_join (fst rs) (fst ls)) (\<lambda>r. Inr (r, snd ls)))) as (q, t) = Inr (v, u)"
      "av_ok v" "as_ok u" "(e, m) \<in> as_gam u" "av_gam q \<subseteq> av_gam v"
    "\<forall>a\<in>set as. av_gam (value_at (addrToVal s) (getIDFromAddr s a)) \<subseteq> av_gam v"
    unfolding id t(5) [rule_format] by blast
  have "av_gam r \<subseteq> av_gam v" "av_gam ?w \<subseteq> av_gam v" using c v(5) by blast+
  then show ?case using v t(1) q(1) by simp
qed simp

lemma loadValue_sound:
  assumes "as_ok s" "(e, m) \<in> as_gam s" "\<forall>a\<in>set (av_addrs (as_var s x)). isVirtualMemAddress a"
    and "e x = Some (CAddr a)" "a \<notin> set (freedAddrs s)" "m (getInternalID a) = Some c"
  shows "\<exists>v t. loadValue x s = Inr (v, t) \<and> c \<in> av_gam v \<and> as_ok t \<and> (e, m) \<in> as_gam t"
proof -
  let ?s = "as_touch x s"
  have s: "as_ok ?s" "(e, m) \<in> as_gam ?s" using as_touch_ok [OF assms(1)] assms(2) by simp_all
  obtain v t where v: "loadValue x s = Inr (v, t)" "as_ok t" "(e, m) \<in> as_gam t"
    "\<forall>a\<in>set (av_addrs (as_var s x)). av_gam (value_at (addrToVal ?s) (getIDFromAddr ?s a)) \<subseteq> av_gam v"
    using load_loop [OF s(1) av_consts(1) assms(3) s(2)] unfolding loadValue_def by blast
  have "CAddr a \<in> av_gam (as_var s x)" using as_gam_var [OF assms(2,4)] .
  then have "av_gam (value_at (addrToVal s) (getInternalID a)) \<subseteq> av_gam v"
    using bspec [OF v(4), of a] assms(5) by (simp add: getIDFromAddr_def)
  then show ?thesis using v(1-3) as_gam_mem [OF assms(2,6)] by blast
qed

section \<open>Where the code loses states\<close>

text \<open>A widening keeps the keys of the old state, so that it does not cover a variable that is new.\<close>

lemma as_widening_drops_keys:
  "\<exists>s t r. as_ok s \<and> as_ok t \<and> as_widening s t = Inr r \<and> \<not> as_gam t \<subseteq> as_gam r"
proof -
  let ?t = "as_set 1 (av_of_interval (iv_of 5)) as_new"
  have "iv_ok (iv_of 5)" and five: "5 \<in> iv_gam (iv_of 5)" by (simp_all add: in64_def bounds_defs)
  then have "as_ok ?t" by (intro as_set_ok) simp_all
  moreover have "([1 \<mapsto> CInt 5], Map.empty) \<in> as_gam ?t"
    using five by (simp add: as_gam_def as_set_def as_new_def map_gam_def value_at_def put_def)
  ultimately have t: "as_ok ?t" "([1 \<mapsto> CInt 5], Map.empty) \<in> as_gam ?t" .
  have "as_widening as_new ?t = Inr as_new" by (simp add: as_widening_def update_state_def as_new_def)
  moreover have "([1 \<mapsto> CInt 5], Map.empty) \<notin> as_gam as_new" by (simp add: as_gam_def as_new_def map_gam_def value_at_def)
  ultimately show ?thesis using t as_ok_simps(1) by blast
qed

text \<open>The internal number of an address is never that of the null or the invalid object, because the mask
  takes the upper bits away: \<open>store\<close> to the null address is not recognised.\<close>

lemma null_never_recognised: "\<not> isNullMem a" "\<not> isInvalidMem a"
proof -
  have m: "FlippedAddressMask = 0x80ffffff" by (simp add: FlippedAddressMask_def AddressMask_def)
  have "bit (getInternalID a) 24 = False" by (simp add: getInternalID_def m bit_and_iff bit_numeral_simps)
  moreover have "bit (0x7f000000 :: nat) 24" "bit (0x7f000002 :: nat) 24" by simp_all
  ultimately show "\<not> isNullMem a" "\<not> isInvalidMem a"
    by (auto simp: isNullMem_def isInvalidMem_def NullMemAddr_def InvalidMemAddr_def)
qed

end
