(* ===== verification/Spec2Isabelle.thy ===== *)
theory Spec2Isabelle
  imports DfCorrect VersionedPts BofNoMiss CflHybrid AeOps AeStateSound
begin

text \<open>
  A verification library for SVF: the points-to data structures under its pointer analyses, the
  CFL-reachability solvers, and the buffer overflow checker with its interval range analysis.

  \<^bold>\<open>Points-to data.\<close> A pointer analysis stores one points-to set per pointer and spends its time
  in their unions. The layers below are modelled, each theory using the one before through an
  interface: \<open>bit_set\<close> (theory BitSetIface) says what a set of node ids promises, \<open>pts_data\<close> and \<open>pts_sets\<close>
  what a points-to set does, \<open>pts_table\<close>, \<open>diff_table\<close> and the interfaces of DfTables what a table does.
  \<^item> CoreBitVec: \<open>CoreBitVector\<close> and \<open>BitVector\<close> (\<open>svf/lib/Util/CoreBitVector.cpp\<close>,
    \<open>svf/lib/Util/BitVector.cpp\<close>): an offset and a list of 64-bit words. Each member function is a
    definition \<open>cbv_<name>\<close>; the word loops are recursions over the lists.
  \<^item> SparseBitVec and SparseBitVecIter: \<open>SparseBitVector.h\<close>: a sorted list of elements of two
    words and the position of the last search. Elements are \<open>elt_<name>\<close>, vectors \<open>sbv_<name>\<close>; the
    merging loops are functions on the two lists. The iterator walks by
    \<open>partial_function\<close>, and is shown to end.
  \<^item> PointsToSet: \<open>PointsTo\<close> (\<open>svf/lib/MemoryModel/PointsTo.cpp\<close>): the tagged union over the three
    vectors (\<open>backing\<close>), the node mappings, remapping and hashing. \<open>None\<close> is a failed assertion or
    an access outside the mapping.
  \<^item> PersistentCache: \<open>PersistentPointsToCache\<close> (\<open>PersistentPointsToCache.h\<close>): interning of sets, and
    the caches of the three operations, over a record of the operations of the stored data.
  \<^item> PtsTables, MutablePts, PersistentPts: the tables of points-to sets
    (\<open>MutablePointsToDS.h\<close>, \<open>PersistentPointsToDS.h\<close>): \<open>MutablePTData\<close> stores sets, \<open>PersistentPTData\<close> ids of
    the cache; both optionally keep reverse sets, and both have a variant with difference
    propagation. The interfaces \<open>pts_table\<close> and \<open>diff_table\<close> state what a table promises in terms of the
    function from keys to sets; both implementations interpret them, and so agree.
  \<^item> VersionedPts: the pairs of tables for keys and versioned keys. A pair is one table over the sum of
    the keys, so the interface is the same. What \<open>getAllPts\<close> counts is stated here too.
  \<^item> DfTables, MutableDf, PersistentDf, DfCorrect: the data-flow tables, an IN and an OUT set per
    location and variable, with the incremental variants that record which variables changed.
    DfTables specifies them by functions from cells to sets; the two implementations refine the
    specification, and so agree; the incremental transfer moves what a full one would.
  The lemmas of each layer state its invariant, that every operation keeps it, and what the
  operation does to the represented set of ids (\<open>cbv_bits\<close>, \<open>sbv_bits\<close>, \<open>pt_nodes\<close>). The vectors and
  \<open>PointsTo\<close> are treated for all kinds of vectors and node mappings; the cache and the tables are
  definitions over any stored data, whose properties are proved for sparse bit vectors, the default of
  \<open>Options::PtType\<close>, without a node mapping (\<open>sbv_config\<close>). With core bit vectors they do not hold: equal
  sets can differ in their zero words, get two ids and count as a change.

  \<^bold>\<open>CFL reachability.\<close> A grammar and a graph of labelled edges go in; an edge per derivable path comes
  out.
  \<^item> WorkLists: \<open>FIFOWorkList\<close>, \<open>FILOWorkList\<close> and \<open>List\<close> (\<open>svf/include/Util/WorkList.h\<close>). The interface \<open>worklist\<close> is
    met by the first two. \<open>work_loop\<close>, a \<open>partial_function\<close>, takes elements until none is left; the interface
    \<open>saturation\<close> says when the loop ends and yields the least closed set of facts.
  \<^item> CflGrammar and CflFill: symbols packed into 32 bits, the symbol and production tables, and the
    step of \<open>CFGNormalizer\<close> that fills attributes into productions (\<open>svf/lib/CFL/CFGrammar.cpp\<close>,
    \<open>svf/lib/CFL/CFGNormalizer.cpp\<close>).
  \<^item> CflGraph: nodes with their edges sorted by kind, and the insertion of labelled edges.
  \<^item> CflSolver, CflPocr, CflHybrid: \<open>CFLSolver\<close>, \<open>POCRSolver\<close> and \<open>POCRHybridSolver\<close> (\<open>svf/lib/CFL/CFLSolver.cpp\<close>).
    The first computes exactly the derivable facts and always ends. The second agrees with it
    exactly for grammars without empty productions and graphs whose nodes all have an outgoing edge; the
    third computes what the second does without the production \<open>F \<rightarrow> F F\<close> it is made for.
  \<^item> This theory composes the stages: productions are filled, the graph built, the solver run, and the
    result is the language of the productions along the paths of the labelled edges, for productions
    with one or two symbols on the right.

  \<^bold>\<open>Range analysis.\<close> The buffer overflow checker bounds the values of index expressions.
  \<^item> BofRange: \<open>Range\<close> (\<open>svf/lib/BOF/Range.cpp\<close>): every operation, as an option where C++ leaves a
    signed overflow undefined. Soundness is stated against \<open>gam\<close>, the 64-bit values of an
    interval; the interface \<open>widening_domain\<close> collects what the analysis relies on.
  \<^item> BofProgram: the statements, loops and dominance the analysis reads, and the location tokens
    of \<open>RangeAnalysis.cpp\<close>. What \<open>SaberSemanticRules::resolveRange\<close> answers comes from project
    files and is a field of the program.
  \<^item> BofAffine: \<open>analyzeAffine\<close>, the set of \<open>symbol + constant\<close> terms of a value, and its soundness
    for valuations that follow the edges.
  \<^item> BofGuards: the guard index and \<open>evalGuardInterval\<close> of \<open>RangeGuardNarrowing.cpp\<close>; the interval
    of a guard is sound for signed comparisons, and for unsigned ones of non-negative values, where the
    meaning of a predicate is that of its number in \<open>CmpStmt\<close> (\<open>icmp_truth\<close>).
  \<^item> BofRangeAnalysis: the object \<open>RangeAnalysis\<close> (record \<open>ra\<close>), \<open>analyzeVarRange\<close> and the narrowing of
    loads by guards and loops. The recursive call is an argument of the body, closed by fuel in
    \<open>analyzeVarRange\<close>; fuel above the number of values that are not cached yet is enough, since a
    value is TOP in the cache while it is expanded. The outcome is a range and the new state, or
    an error: undefined arithmetic, or no fuel.
  \<^item> BofRangeSound: termination; soundness against a collecting semantics (\<open>range_source\<close>, the
    values that the edges of a variable produce) with narrowing switched off; narrowing only
    tightens; bindings of formals; unknown values. Soundness of the narrowing itself rests on
    control flow and is not stated. \<open>binop_sem\<close> is the meaning of the operations on 64-bit
    values; \<open>binop_covered\<close> leaves out unsigned divisions with a negative operand, which the code
    computes as signed ones, and arithmetic right shifts of negative values, on which \<open>Range::ashr\<close>
    is wrong.

  \<^bold>\<open>Buffer overflow checker.\<close> \<open>BufferOverflowChecker\<close> (\<open>svf/lib/BOF/BufferOverflowChecker.cpp\<close>) follows the
  pointers into a buffer with intervals of offsets, and checks every access against the range of the buffer.
  \<^item> BofApi: the tables of memory functions and allocators (\<open>SaberMemTransferAPI.cpp\<close>, \<open>AllocAPIRegistry.cpp\<close>).
  \<^item> BofChecker: what the checker reads of the program (\<open>bof_program\<close>), its state (\<open>bof\<close>), the allocation sizes, the
    seeds and bindings, the handlers of the edges and the fixpoint \<open>propagate\<close>, and the selection of reports
    (\<open>flushReports\<close> of \<open>BofReporting.cpp\<close>). An outcome is a state or an error: one of the range analysis, or a failed
    assertion. The fixpoint is \<open>work_loop\<close> on outcomes, where not ending is \<open>None\<close>.
  \<^item> BofMemOps: the checks of memory and string functions and the symbolic check of small allocations
    (\<open>BofMemCopyChecks.cpp\<close>), and \<open>runOnModule\<close>, which composes the phases.
  \<^item> BofReports: what is reported at an access and what is emitted of it.
  \<^item> BofPropagate: the fixpoint ends, because widening bounds how often a key grows, and leaves a state that every edge
    maps into itself. The locale \<open>range_client\<close> is what it needs of the range analysis.
  \<^item> BofPhases: the phases around the fixpoint, and that \<open>runOnModule\<close> returns. The fuel is that of the range analysis:
    more than the number of variables.
  \<^item> BofNoMiss: an access outside its buffer is among the emitted reports. Pointers follow \<open>flow_step\<close>: pointer arithmetic
    (\<open>op_adds\<close>), copies, stores, loads and returns, under the context of the call. On the stack an index outside the array
    or struct that it selects from is reported, and one inside is followed while it is the only dimension that is not 0.
  A second dimension has no place in \<open>flow_step\<close>, since the checker joins the positions instead of adding them, nor has an
  index into an aggregate on the heap, which it does not scale; nor has entering a call, since the checker limits its depth.

  \<^bold>\<open>Abstract execution.\<close> The value domain of the abstract interpreter (\<open>svf/include/AE/Core\<close>).
  \<^item> AeNumeric: \<open>BoundedInt\<close> (\<open>NumericValue.h\<close>), a 64-bit number or an infinity. An operation that can
    fail has an outcome: a failed assertion, undefined machine arithmetic, or the value. \<open>bi_rank\<close> orders bounds and numbers.
  \<^item> AeInterval: \<open>IntervalValue\<close> (\<open>IntervalValue.h\<close>), every operation, with the 32-bit arithmetic of the shifts
    and of the bitwise operations written out.
  \<^item> AeIntervalSound: the lattice operations against the members of an interval (\<open>iv_gam\<close>), and the interfaces \<open>ae_joins\<close>
    and \<open>ae_widening\<close>: merging covers, and a chain of widenings stops. AeArith, AeDiv and AeOps: the arithmetic is sound, for
    results of at most \<open>2^63 - 1\<close> in size; division fails only where that of 64-bit numbers does, left shifts are sound up to 30.
  \<^item> AeState and AeStateSound: \<open>AddressValue\<close>, \<open>AbstractValue\<close> and \<open>AbstractState\<close> (\<open>AbstractState.h\<close>,
    \<open>svf/lib/AE/Core/AbstractState.cpp\<close>). Joins of values and of states meet \<open>ae_joins\<close>; a load covers what memory holds;
    a widening drops the variables that are new.

  \<^bold>\<open>Conventions.\<close> Node ids and sizes are natural numbers with the wrap-around written out
  (\<open>to_u32\<close>, \<open>to_u64\<close> in theory Prelude); bit vector words are \<open>64 word\<close>; a \<open>long long\<close> is an \<open>int\<close>
  with its range checked. Where an operation takes another object, a boolean says whether the
  two are one object, because the code tests or exploits that. Recursion on a depth bound of the
  code (\<open>MAX_AFFINE_DEPTH\<close>) counts the levels left. Arguments of a call are evaluated from left to
  right, where C++ leaves the order open.

  \<^bold>\<open>Not modelled.\<close> Statistics output and dot files; the readers of grammar and graph files, the builders
  that turn a constraint graph into a CFL graph, and the EBNF rewriting of \<open>CFGNormalizer\<close>; the
  solvers of the pointer analyses, memory SSA, the value-flow, multithreaded and abstract execution
  clients (later work, in this order: the Andersen solver, the abstract interpreter, graph algorithms); of the abstract
  state the field addresses and offsets of pointer arithmetic, initial objects and allocation sizes, which read the program's
  types, printing and hashing; of the buffer overflow checker the text of the reports, the statistics of ignored
  sources and the export of alerts for triage; vendored libraries
  (fastcluster, cJSON); the LLVM front end, which reads data structures outside the repository;
  command line tools.
\<close>

section \<open>CFL reachability from a grammar file's productions\<close>

text \<open>The words that a symbol derives with the productions \<open>P\<close>, of any length, written with the
  left-hand side first: each symbol of the right-hand side derives a part of the word. The symbol
  numbered \<open>e\<close> stands for the empty word where it is the whole right-hand side; a production of
  length two whose left-hand side it is counts as empty, too.\<close>

definition empty_production :: "u32 \<Rightarrow> production \<Rightarrow> bool" where
  "empty_production e p = (length p = 2 \<and> (sym_num (p ! 0) = e \<or> sym_num (p ! 1) = e))"

inductive language :: "u32 \<Rightarrow> production set \<Rightarrow> symbol \<Rightarrow> symbol list \<Rightarrow> bool" for e P where
  self: "language e P X [X]"
| empty: "X # Ys \<in> P \<Longrightarrow> empty_production e (X # Ys) \<Longrightarrow> language e P X []"
| production: "X # Ys \<in> P \<Longrightarrow> \<not> empty_production e (X # Ys) \<Longrightarrow> list_all2 (language e P) Ys ws \<Longrightarrow>
    language e P X (concat ws)"

text \<open>What the normaliser is to leave: one or two symbols on the right-hand side.\<close>

definition short_productions :: "cf_gram \<Rightarrow> bool" where
  "short_productions g = (\<forall>r\<in>set (rawProductions g). \<forall>p\<in>set (snd r). length p = 1 \<or> length p = 2)"

definition filled_productions :: "cf_gram \<Rightarrow> production set" where
  "filled_productions g = (\<Union>r\<in>set (rawProductions g). \<Union>p\<in>set (snd r). instances (concat (map snd (kindToAttrs g))) (fst r # p))"

lemma filled_short:
  assumes "short_productions g" "p \<in> filled_productions g"
  obtains X Y where "p = [X, Y]" | X Y Z where "p = [X, Y, Z]"
proof -
  obtain r q f where q: "r \<in> set (rawProductions g)" "q \<in> set (snd r)" "p = map (subst_symbol f) (fst r # q)"
    using assms(2) unfolding filled_productions_def instances_def by auto
  then have "length p = Suc (length q)" "length q = 1 \<or> length q = 2"
    using assms(1) by (auto simp: short_productions_def)
  then have "(\<exists>X Y. p = [X, Y]) \<or> (\<exists>X Y Z. p = [X, Y, Z])"
    by (auto simp: length_Suc_conv numeral_2_eq_2)
  then show ?thesis using that by blast
qed

lemma language_tables:
  assumes "tables_for e (filled_productions g) g'" "short_productions g"
  shows "derives_word g' X w \<longleftrightarrow> language e (filled_productions g) X w"
proof -
  note t = assms(1) [unfolded tables_for_def]
  let ?P = "filled_productions g"
  have unit: "unit_rule g' X Y \<longleftrightarrow> [X, Y] \<in> ?P \<and> \<not> empty_production e [X, Y]" for X Y
    using t by (auto simp: empty_production_def)
  have two: "binary_rule g' X Y Z \<longleftrightarrow> [X, Y, Z] \<in> ?P \<and> \<not> empty_production e [X, Y, Z]" for X Y Z
    using t by (auto simp: empty_production_def)
  have eps: "epsilon_rule g' X \<longleftrightarrow> (\<exists>Y. [X, Y] \<in> ?P \<and> empty_production e [X, Y])" for X
    using t by (auto simp: empty_production_def)
  have "language e ?P X w" if "derives_word g' X w" for X w
    using that
  proof induction
    case (empty X)
    then show ?case using eps language.empty by metis
  next
    case (single X Y w)
    show ?case using language.production [of X "[Y]" ?P e "[w]"] single unit by simp
  next
    case (binary X Y Z u v)
    show ?case using language.production [of X "[Y, Z]" ?P e "[u, v]"] binary two by simp
  qed (rule language.self)
  moreover have "derives_word g' X w" if "language e ?P X w" for X w
    using that
  proof induction
    case (empty X Ys)
    then have "epsilon_rule g' X" by (cases rule: filled_short [OF assms(2)]) (auto simp: eps empty_production_def)
    then show ?case by (rule derives_word.empty)
  next
    case (production X Ys ws)
    show ?case using filled_short [OF assms(2) production.hyps(1)]
    proof cases
      case (1 X' Y)
      then have "unit_rule g' X Y" "\<exists>w. ws = [w] \<and> derives_word g' Y w"
        using production unit by (auto simp: list_all2_Cons1)
      then show ?thesis using derives_word.single by auto
    next
      case (2 X' Y Z)
      then have "binary_rule g' X Y Z" "\<exists>u v. ws = [u, v] \<and> derives_word g' Y u \<and> derives_word g' Z v"
        using production two by (auto simp: list_all2_Cons1)
      then show ?thesis using derives_word.binary by auto
    qed
  qed (rule derives_word.self)
  ultimately show ?thesis by blast
qed

text \<open>C14: The stages compose, for a grammar whose productions have one or two symbols on the right (a
  longer one is dropped by \<open>insertToCFLGrammar\<close>): with the attributes of the productions filled in,
  and the graph built from labelled edges, the solver leaves an edge with the symbol \<open>X\<close> from \<open>i\<close> to
  \<open>j\<close> exactly when the labelled edges have a path from \<open>i\<close> to \<open>j\<close> whose word \<open>X\<close> derives with the
  instances of the productions.\<close>

theorem cfl_stages_correct:
  assumes "strToKind g ''epsilon'' = Some e"
    and "epsilonProds g = []" "singleRHSToProds g = []" "firstRHSToProds g = []" "secondRHSToProds g = []"
    and "short_productions g"
  shows "\<exists>g' graph st. fillAttribute (kindToAttrs g) g = Some g' \<and> cfl_build (startKind g) es = Some graph
    \<and> cfl_solve g' (cfl_make graph) = Some st
    \<and> (\<forall>i X j. (i, X, j) \<in> graph_facts (cs_graph st) \<longleftrightarrow> (\<exists>w. language e (filled_productions g) X w
        \<and> labelled_path (fst ` set es \<union> fst ` snd ` set es) {(i, sym_of n, j) |i j n. (i, j, n) \<in> set es} i w j))"
proof -
  obtain g' where g': "fillAttribute (kindToAttrs g) g = Some g'" "cf_ok g'" "tables_for e (filled_productions g) g'"
    using fillAttribute_ok [OF assms(1-5), of "kindToAttrs g", folded filled_productions_def] by (elim exE conjE)
  obtain graph where graph: "cfl_build (startKind g) es = Some graph" "graph_ok graph"
    "set (graphNodes graph) = fst ` set es \<union> fst ` snd ` set es" "graph_facts graph = {(i, sym_of n, j) |i j n. (i, j, n) \<in> set es}"
    using cfl_build_ok [of "startKind g" es] by (elim exE conjE)
  obtain st where st: "cfl_solve g' (cfl_make graph) = Some st"
    "graph_facts (cs_graph st) = {(i, X, j). cfl_derives g' (set (graphNodes graph)) (graph_facts graph) i X j}"
    using cfl_solve_derives [OF g'(2) graph(2)] by (elim exE conjE)
  note d = derives_paths [OF graph_facts_bounded [OF graph(2)], of g', unfolded language_tables [OF g'(3) assms(6)] graph(3,4)]
  show ?thesis using g'(1) graph(1) st(1) 
    by (intro exI [of _ g'] exI [of _ graph] exI [of _ st] conjI allI) (simp_all add: st(2) graph(3,4) d)
qed

lemma cfl_stages_witness:
  "\<exists>g' graph st. fillAttribute (kindToAttrs gram_example) gram_example = Some g'
    \<and> cfl_build (startKind gram_example) [(1, 2, 0x102), (2, 3, 0x103)] = Some graph
    \<and> cfl_solve g' (cfl_make graph) = Some st \<and> (1, sym_k 1, 3) \<in> graph_facts (cs_graph st)"
proof -
  let ?a = "\<lparr>kind = 2, attribute = 1, variableAttribute = 0\<rparr> :: symbol" and ?b = "\<lparr>kind = 3, attribute = 1, variableAttribute = 0\<rparr> :: symbol"
  let ?p = "[sym_k 1, \<lparr>kind = 2, attribute = 0, variableAttribute = 105\<rparr>, \<lparr>kind = 3, attribute = 0, variableAttribute = 105\<rparr>]"
  let ?P = "filled_productions gram_example" and ?es = "[(1, 2, 0x102), (2, 3, 0x103)] :: (nat \<times> nat \<times> u32) list"
  have "map (subst_symbol (\<lambda>_. 1)) ?p \<in> instances [1, 2, 2] ?p" unfolding instances_def by auto
  then have "[sym_k 1, ?a, ?b] \<in> ?P" by (simp add: subst_symbol_def filled_productions_def gram_example_def)
  then have "language 0 ?P (sym_k 1) ([?a] @ [?b])" 
    using language.production [of "sym_k 1" "[?a, ?b]" ?P 0 "[[?a], [?b]]"] language.self [of 0 ?P]
    by (simp add: empty_production_def)
  moreover have s: "sym_of 0x102 = ?a" "sym_of 0x103 = ?b" by (simp_all add: sym_of_def)
  then have "labelled_path (fst ` set ?es \<union> fst ` snd ` set ?es) {(i, sym_of n, j) |i j n. (i, j, n) \<in> set ?es} 1 [?a, ?b] 3"
    by (auto simp: s [symmetric])
  ultimately have "\<exists>w. language 0 ?P (sym_k 1) w
      \<and> labelled_path (fst ` set ?es \<union> fst ` snd ` set ?es) {(i, sym_of n, j) |i j n. (i, j, n) \<in> set ?es} 1 w 3"
    by (intro exI [of _ "[?a, ?b]"]) simp
  moreover have "strToKind gram_example ''epsilon'' = Some 0" "epsilonProds gram_example = []" "singleRHSToProds gram_example = []"
    "firstRHSToProds gram_example = []" "secondRHSToProds gram_example = []" "short_productions gram_example"
    by (simp_all add: gram_example_def strToKind_def short_productions_def)
  ultimately show ?thesis using cfl_stages_correct [of gram_example 0 ?es] by blast
qed

end
